(* ===== verification/VeaBase.thy ===== *)
theory VeaBase
  imports Main "HOL-Library.Word" "HOL-Library.Monad_Syntax"
begin

text \<open>
  The prelude of the development: the machine integers of the 32-bit kernel, the
  memory accesses every component makes, the status codes of
  \<open>sdk/include/ndk/veastatus.h\<close>, and the generic lemmas on words, lists and
  options the component theories share.

  Conventions. A C object reached through a pointer is a list of its elements and a
  pointer into it is an index. An access outside the list is undefined behaviour in
  C; here it is \<open>None\<close>, so that a theorem that a routine returns \<open>Some\<close> also
  says that it touches no memory outside its buffers. The same \<open>None\<close> stands for a
  loop that does not return (\<^theory_text>\<open>partial_function (option)\<close>).
\<close>

unbundle bit_operations_syntax

named_theorems mem_simps \<open>reads and writes of the modelled memory\<close>
named_theorems u32_simps \<open>machine arithmetic on 32-bit words as natural numbers\<close>

type_synonym u8 = "8 word"
type_synonym u16 = "16 word"
type_synonym u32 = "32 word"
type_synonym u64 = "64 word"

section \<open>Memory accesses\<close>

definition rd :: "'a list \<Rightarrow> nat \<Rightarrow> 'a option" where
  "rd xs i = (if i < length xs then Some (xs ! i) else None)"

definition wr :: "'a list \<Rightarrow> nat \<Rightarrow> 'a \<Rightarrow> 'a list option" where
  "wr xs i v = (if i < length xs then Some (xs[i := v]) else None)"

lemma rd_Some [simp, mem_simps]: "i < length xs \<Longrightarrow> rd xs i = Some (xs ! i)"
  by (simp add: rd_def)

lemma rd_None [simp, mem_simps]: "length xs \<le> i \<Longrightarrow> rd xs i = None"
  by (simp add: rd_def)

lemma rd_eq_Some_iff [mem_simps]: "rd xs i = Some v \<longleftrightarrow> i < length xs \<and> xs ! i = v"
  by (auto simp: rd_def)

lemma wr_Some [simp, mem_simps]: "i < length xs \<Longrightarrow> wr xs i v = Some (xs[i := v])"
  by (simp add: wr_def)

lemma wr_None [simp, mem_simps]: "length xs \<le> i \<Longrightarrow> wr xs i v = None"
  by (simp add: wr_def)

lemma wr_eq_Some_iff [mem_simps]: "wr xs i v = Some ys \<longleftrightarrow> i < length xs \<and> ys = xs[i := v]"
  by (auto simp: wr_def)

lemma rd_map [mem_simps]: "rd (map f xs) i = map_option f (rd xs i)"
  by (simp add: rd_def)

section \<open>Status codes\<close>

text \<open>\<open>VEASTATUS\<close> is a signed 32-bit integer; \<open>VEA_SUCCESS\<close> tests its sign.\<close>

type_synonym VEASTATUS = u32

definition STATUS_SUCCESS :: VEASTATUS where "STATUS_SUCCESS = 0"
definition STATUS_USER_APC :: VEASTATUS where "STATUS_USER_APC = 0xC0"
definition STATUS_KERNEL_APC :: VEASTATUS where "STATUS_KERNEL_APC = 0x100"
definition STATUS_TIMEOUT :: VEASTATUS where "STATUS_TIMEOUT = 0x102"
definition STATUS_PENDING :: VEASTATUS where "STATUS_PENDING = 0x103"
definition STATUS_UNSUCCESSFUL :: VEASTATUS where "STATUS_UNSUCCESSFUL = 0xC0000001"
definition STATUS_INVALID_HANDLE :: VEASTATUS where "STATUS_INVALID_HANDLE = 0xC0000008"
definition STATUS_INVALID_PARAMETER :: VEASTATUS where "STATUS_INVALID_PARAMETER = 0xC000000D"
definition STATUS_ACCESS_DENIED :: VEASTATUS where "STATUS_ACCESS_DENIED = 0xC0000022"
definition STATUS_BUFFER_TOO_SMALL :: VEASTATUS where "STATUS_BUFFER_TOO_SMALL = 0xC0000023"
definition STATUS_DISK_FULL :: VEASTATUS where "STATUS_DISK_FULL = 0xC000007F"
definition STATUS_INSUFFICIENT_RESOURCES :: VEASTATUS where
  "STATUS_INSUFFICIENT_RESOURCES = 0xC000009A"
definition STATUS_INVALID_DEVICE_REQUEST :: VEASTATUS where "STATUS_INVALID_DEVICE_REQUEST = 0xC0000010"
definition STATUS_END_OF_FILE :: VEASTATUS where "STATUS_END_OF_FILE = 0xC0000011"
definition STATUS_OBJECT_NAME_NOT_FOUND :: VEASTATUS where "STATUS_OBJECT_NAME_NOT_FOUND = 0xC0000034"
definition STATUS_OBJECT_NAME_COLLISION :: VEASTATUS where "STATUS_OBJECT_NAME_COLLISION = 0xC0000035"
definition STATUS_OBJECT_PATH_NOT_FOUND :: VEASTATUS where "STATUS_OBJECT_PATH_NOT_FOUND = 0xC000003A"
definition STATUS_FILE_IS_A_DIRECTORY :: VEASTATUS where "STATUS_FILE_IS_A_DIRECTORY = 0xC00000BA"
definition STATUS_NOT_SUPPORTED :: VEASTATUS where "STATUS_NOT_SUPPORTED = 0xC00000BB"
definition STATUS_UNRECOGNIZED_VOLUME :: VEASTATUS where "STATUS_UNRECOGNIZED_VOLUME = 0xC000014F"
definition STATUS_REPARSE :: VEASTATUS where "STATUS_REPARSE = 0x104"
definition STATUS_ACCESS_VIOLATION :: VEASTATUS where "STATUS_ACCESS_VIOLATION = 0xC0000005"
definition STATUS_OBJECT_NAME_INVALID :: VEASTATUS where "STATUS_OBJECT_NAME_INVALID = 0xC0000033"
definition STATUS_NAME_TOO_LONG :: VEASTATUS where "STATUS_NAME_TOO_LONG = 0xC0000106"
definition STATUS_REPARSE_OBJECT_MAY_LOOP :: VEASTATUS where
  "STATUS_REPARSE_OBJECT_MAY_LOOP = 0xC0EE020F"
definition STATUS_CORRUPT_FILE :: VEASTATUS where "STATUS_CORRUPT_FILE = 0xC0EE021D"

lemmas status_defs =
  STATUS_SUCCESS_def STATUS_USER_APC_def STATUS_KERNEL_APC_def STATUS_TIMEOUT_def
  STATUS_PENDING_def STATUS_UNSUCCESSFUL_def STATUS_INVALID_HANDLE_def
  STATUS_INVALID_PARAMETER_def STATUS_ACCESS_DENIED_def STATUS_BUFFER_TOO_SMALL_def
  STATUS_DISK_FULL_def STATUS_INSUFFICIENT_RESOURCES_def STATUS_END_OF_FILE_def
  STATUS_INVALID_DEVICE_REQUEST_def STATUS_OBJECT_NAME_NOT_FOUND_def STATUS_OBJECT_NAME_COLLISION_def
  STATUS_OBJECT_PATH_NOT_FOUND_def STATUS_FILE_IS_A_DIRECTORY_def STATUS_UNRECOGNIZED_VOLUME_def
  STATUS_CORRUPT_FILE_def STATUS_NOT_SUPPORTED_def

definition VEA_SUCCESS :: "VEASTATUS \<Rightarrow> bool" where
  "VEA_SUCCESS s \<longleftrightarrow> 0 \<le> sint s"

section \<open>Machine arithmetic\<close>

lemma unat_and_mask: "unat (w AND mask n) = unat w mod 2 ^ n"
  by (metis take_bit_eq_mask take_bit_eq_mod unsigned_take_bit_eq)

lemma unat_and_31 [u32_simps]: "unat (w AND 31) = unat (w :: u32) mod 32"
  using unat_and_mask [of w 5] by (simp add: mask_eq_exp_minus_1)

lemma unat_and_7 [u32_simps]: "unat (w AND 7) = unat (w :: u32) mod 8"
  using unat_and_mask [of w 3] by (simp add: mask_eq_exp_minus_1)

lemma unat_div_32 [u32_simps]: "unat (w div 32) = unat (w :: u32) div 32"
  by (simp add: unat_div_distrib)

lemma unat_add_lt: "unat (a :: 'a::len word) + unat b < 2 ^ LENGTH('a) \<Longrightarrow> unat (a + b) = unat a + unat b"
  by (simp add: unat_word_ariths)

lemma unat_mult_lt: "unat (a :: 'a::len word) * unat b < 2 ^ LENGTH('a) \<Longrightarrow> unat (a * b) = unat a * unat b"
  by (simp add: unat_word_ariths)

lemma unat_sub_le: "b \<le> a \<Longrightarrow> unat (a - b) = unat a - unat (b :: 'a::len word)"
  by (rule unat_sub)

lemma unat_min: "unat (min a b) = min (unat a) (unat (b :: 'a::len word))"
  by (auto simp: min_def word_le_nat_alt)

lemma unat_lt_u32: "unat (w :: u32) < 4294967296"
  using unsigned_less [of w] by simp

lemma unat_of_nat_lt: "n < 2 ^ LENGTH('a) \<Longrightarrow> unat (of_nat n :: 'a::len word) = n"
  by (simp add: unat_of_nat)

lemma unat_lt_u64: "unat (w :: u64) < 18446744073709551616"
  using unsigned_less [of w] by simp

lemma unat_drop_bit: "unat (drop_bit i w) = unat (w :: 'a::len word) div 2 ^ i"
  by (simp add: unsigned_drop_bit_eq drop_bit_eq_div take_bit_eq_mod) (metis drop_bit_eq_div unat_drop_bit_eq)

lemma unat_push_bit_1: "i < LENGTH('a) \<Longrightarrow> unat (push_bit i 1 :: 'a::len word) = 2 ^ i"
  by (rule bit_eqI) (auto simp: bit_simps)

lemma unat_ucast_lt:
  "unat (w :: 'a::len word) < 2 ^ LENGTH('b) \<Longrightarrow> unat (ucast w :: 'b::len word) = unat w"
  by (simp add: unsigned_ucast_eq take_bit_nat_eq_self_iff)

lemma unat_ucast_up: "unat (ucast (w :: u32) :: u64) = unat w"
  using unat_lt_u32 [of w] by (intro unat_ucast_lt) simp

end
