(* ===== verification/VeaBytes.thy ===== *)
theory VeaBytes
  imports VeaBase
begin

text \<open>
  Byte memory with little-endian fields, for the structures the code lays out itself
  (access control lists, directory entries, boot sectors). A block of memory is a
  \<^typ>\<open>u8 list\<close>; \<open>get_bytes\<close> and \<open>put_bytes\<close> read and write a range of it and are
  \<open>None\<close> outside it. The interface \<open>codec\<close> is a fixed-size encoding; every field and
  every packed structure is an interpretation of it, and the read-after-write laws are
  proved once.
\<close>

definition get_bytes :: "u8 list \<Rightarrow> nat \<Rightarrow> nat \<Rightarrow> u8 list option" where
  "get_bytes m p n = (if p + n \<le> length m then Some (take n (drop p m)) else None)"

definition put_bytes :: "u8 list \<Rightarrow> nat \<Rightarrow> u8 list \<Rightarrow> u8 list option" where
  "put_bytes m p bs =
     (if p + length bs \<le> length m then Some (take p m @ bs @ drop (p + length bs) m) else None)"

definition enc8 :: "u8 \<Rightarrow> u8 list" where "enc8 w = [w]"
definition dec8 :: "u8 list \<Rightarrow> u8" where "dec8 bs = bs ! 0"

definition enc16 :: "u16 \<Rightarrow> u8 list" where "enc16 w = [ucast w, ucast (drop_bit 8 w)]"

definition dec16 :: "u8 list \<Rightarrow> u16" where
  "dec16 bs = ucast (bs ! 0) OR push_bit 8 (ucast (bs ! 1))"

definition enc32 :: "u32 \<Rightarrow> u8 list" where
  "enc32 w = [ucast w, ucast (drop_bit 8 w), ucast (drop_bit 16 w), ucast (drop_bit 24 w)]"

definition dec32 :: "u8 list \<Rightarrow> u32" where
  "dec32 bs = ucast (bs ! 0) OR push_bit 8 (ucast (bs ! 1)) OR push_bit 16 (ucast (bs ! 2)) OR
     push_bit 24 (ucast (bs ! 3))"

definition rd_field :: "nat \<Rightarrow> (u8 list \<Rightarrow> 'a) \<Rightarrow> u8 list \<Rightarrow> nat \<Rightarrow> 'a option" where
  "rd_field n dec m p = map_option dec (get_bytes m p n)"

definition wr_field :: "('a \<Rightarrow> u8 list) \<Rightarrow> u8 list \<Rightarrow> nat \<Rightarrow> 'a \<Rightarrow> u8 list option" where
  "wr_field enc m p v = put_bytes m p (enc v)"

abbreviation "rd8 \<equiv> rd_field 1 dec8"
abbreviation "rd16 \<equiv> rd_field 2 dec16"
abbreviation "rd32 \<equiv> rd_field 4 dec32"
abbreviation "wr8 \<equiv> wr_field enc8"
abbreviation "wr16 \<equiv> wr_field enc16"
abbreviation "wr32 \<equiv> wr_field enc32"

section \<open>Ranges\<close>

lemma length_put_bytes: "put_bytes m p bs = Some m' \<Longrightarrow> length m' = length m"
  by (auto simp: put_bytes_def split: if_splits)

lemma put_bytes_Some: "p + length bs \<le> length m \<Longrightarrow> \<exists>m'. put_bytes m p bs = Some m'"
  by (simp add: put_bytes_def)

lemma put_bytes_nth:
  assumes "put_bytes m p bs = Some m'" "i < length m"
  shows "m' ! i = (if p \<le> i \<and> i < p + length bs then bs ! (i - p) else m ! i)"
  using assms by (auto simp: put_bytes_def nth_append not_less split: if_splits)

lemma get_put_same: "put_bytes m p bs = Some m' \<Longrightarrow> get_bytes m' p (length bs) = Some bs"
  by (auto simp: put_bytes_def get_bytes_def split: if_splits)

lemma get_put_other:
  assumes "put_bytes m p bs = Some m'" "q + n \<le> p \<or> p + length bs \<le> q"
  shows "get_bytes m' q n = get_bytes m q n"
proof (cases "q + n \<le> length m")
  case True
  have "take n (drop q m') = take n (drop q m)"
    using True length_put_bytes [OF assms(1)] assms(2) put_bytes_nth [OF assms(1)]
    by (intro nth_equalityI) auto
  then show ?thesis using True length_put_bytes [OF assms(1)] by (simp add: get_bytes_def)
next
  case False
  then show ?thesis using length_put_bytes [OF assms(1)] by (simp add: get_bytes_def)
qed

section \<open>Encodings\<close>

locale codec =
  fixes enc :: "'a \<Rightarrow> u8 list" and dec :: "u8 list \<Rightarrow> 'a" and n :: nat
  assumes enc_length: "length (enc v) = n"
    and dec_enc: "dec (enc v) = v"
begin

lemma rd_wr_same: "wr_field enc m p v = Some m' \<Longrightarrow> rd_field n dec m' p = Some v"
  using get_put_same [of m p "enc v" m'] by (simp add: wr_field_def rd_field_def enc_length dec_enc)

lemma get_wr_other:
  assumes "wr_field enc m p v = Some m'" "q + k \<le> p \<or> p + n \<le> q"
  shows "get_bytes m' q k = get_bytes m q k"
  using get_put_other [of m p "enc v" m' q k] assms by (simp add: wr_field_def enc_length)

lemma rd_wr_other:
  assumes "wr_field enc m p v = Some m'" "q + k \<le> p \<or> p + n \<le> q"
  shows "rd_field k dec' m' q = rd_field k dec' m q"
  using get_wr_other [OF assms] by (simp add: rd_field_def)

lemma wr_length: "wr_field enc m p v = Some m' \<Longrightarrow> length m' = length m"
  by (auto simp: wr_field_def dest: length_put_bytes)

lemma wr_field_Some: "p + n \<le> length m \<Longrightarrow> \<exists>m'. wr_field enc m p v = Some m'"
  using put_bytes_Some [of p "enc v" m] by (simp add: wr_field_def enc_length)

lemma wr_append: "wr_field enc (a @ b @ c) (length a) v = Some (a @ enc v @ c)" if "length b = n"
  using that by (simp add: wr_field_def put_bytes_def enc_length)

lemma rd_append: "rd_field n dec (a @ enc v @ c) (length a) = Some v"
  by (simp add: rd_field_def get_bytes_def enc_length dec_enc)

end

lemma dec_enc16: "dec16 (enc16 w) = w"
  by (rule bit_eqI)
    (auto simp: dec16_def enc16_def bit_or_iff bit_push_bit_iff bit_ucast_iff bit_drop_bit_eq)

lemma dec_enc32: "dec32 (enc32 w) = w"
proof (rule bit_eqI)
  fix n assume n: "possible_bit TYPE(u32) n"
  then have "n < 32" by (simp add: possible_bit_word)
  then consider "n < 8" | "8 \<le> n" "n < 16" | "16 \<le> n" "n < 24" | "24 \<le> n" "n < 32" by linarith
  then show "bit (dec32 (enc32 w)) n = bit w n"
    by cases (auto simp: dec32_def enc32_def bit_or_iff bit_push_bit_iff bit_ucast_iff bit_drop_bit_eq)
qed

interpretation c8: codec enc8 dec8 1
  by unfold_locales (simp_all add: enc8_def dec8_def)

interpretation c16: codec enc16 dec16 2
  by (unfold_locales, simp add: enc16_def, rule dec_enc16)

interpretation c32: codec enc32 dec32 4
  by (unfold_locales, simp add: enc32_def, rule dec_enc32)

lemmas field_defs = rd_field_def wr_field_def get_bytes_def put_bytes_def
  enc8_def enc16_def enc32_def dec8_def dec16_def dec32_def

end
