(* ===== verification/RtlMemory.thy ===== *)
theory RtlMemory
  imports VeaBase "HOL-Library.Signed_Division"
begin

text \<open>
  \<open>sdk/lib/rtl/memory.c\<close> and \<open>sdk/lib/rtl/math.c\<close>: the byte and word fills, the
  copy and the two comparisons, and the 64-bit divisions the kernel uses instead of
  the compiler's runtime.

  Memory is the list of its cells (bytes, or 32-bit words for
  \<open>RtlFillMemoryUlong\<close>), a pointer is an index into it, and \<open>None\<close> is the null
  pointer where the code tests for it. Both pointers of a copy point into the same
  memory, so overlapping copies are in the model.
\<close>

section \<open>Filling, copying and comparing memory\<close>

fun fill_loop :: "'a list \<Rightarrow> nat \<Rightarrow> nat \<Rightarrow> 'a \<Rightarrow> 'a list option" where
  "fill_loop mem p 0 v = Some mem"
| "fill_loop mem p (Suc n) v = do { mem \<leftarrow> wr mem p v; fill_loop mem (Suc p) n v }"

definition RtlFillMemory :: "u8 list \<Rightarrow> nat option \<Rightarrow> u32 \<Rightarrow> u8 \<Rightarrow> u8 list option" where
  "RtlFillMemory mem Destination Length Fill =
     (case Destination of
        None \<Rightarrow> Some mem
      | Some p \<Rightarrow> if Length = 0 then Some mem else fill_loop mem p (unat Length) Fill)"

definition RtlFillMemoryUlong :: "u32 list \<Rightarrow> nat option \<Rightarrow> u32 \<Rightarrow> u32 \<Rightarrow> u32 list option" where
  "RtlFillMemoryUlong mem Destination Length Pattern =
     (case Destination of
        None \<Rightarrow> Some mem
      | Some p \<Rightarrow> if Length < 4 then Some mem
                   else fill_loop mem p (unat (Length div 4)) Pattern)"

definition RtlZeroMemory :: "u8 list \<Rightarrow> nat option \<Rightarrow> u32 \<Rightarrow> u8 list option" where
  "RtlZeroMemory mem Destination Length = RtlFillMemory mem Destination Length 0"

fun copy_loop :: "'a list \<Rightarrow> nat \<Rightarrow> nat \<Rightarrow> nat \<Rightarrow> 'a list option" where
  "copy_loop mem d s 0 = Some mem"
| "copy_loop mem d s (Suc n) =
     do { c \<leftarrow> rd mem s; mem \<leftarrow> wr mem d c; copy_loop mem (Suc d) (Suc s) n }"

definition RtlCopyMemory :: "u8 list \<Rightarrow> nat \<Rightarrow> nat \<Rightarrow> u32 \<Rightarrow> u8 list option" where
  "RtlCopyMemory mem Dest Src N = copy_loop mem Dest Src (unat N)"

text \<open>The scan reads no byte at or after the first difference plus one, so it is a
  recursion over the bytes still to match.\<close>

fun compare_loop :: "u8 list \<Rightarrow> nat \<Rightarrow> nat \<Rightarrow> nat \<Rightarrow> u32 \<Rightarrow> u32 option" where
  "compare_loop mem p1 p2 0 Matched = Some Matched"
| "compare_loop mem p1 p2 (Suc n) Matched =
     do { a \<leftarrow> rd mem (p1 + unat Matched); b \<leftarrow> rd mem (p2 + unat Matched);
          if a = b then compare_loop mem p1 p2 n (Matched + 1) else Some Matched }"

definition RtlCompareMemory :: "u8 list \<Rightarrow> nat \<Rightarrow> nat \<Rightarrow> u32 \<Rightarrow> u32 option" where
  "RtlCompareMemory mem Source1 Source2 Length =
     compare_loop mem Source1 Source2 (unat Length) 0"

fun equal_loop :: "u8 list \<Rightarrow> nat \<Rightarrow> nat \<Rightarrow> nat \<Rightarrow> bool option" where
  "equal_loop mem p1 p2 0 = Some True"
| "equal_loop mem p1 p2 (Suc n) =
     do { a \<leftarrow> rd mem p1; b \<leftarrow> rd mem p2;
          if a \<noteq> b then Some False else equal_loop mem (Suc p1) (Suc p2) n }"

definition RtlEqualMemory :: "u8 list \<Rightarrow> nat \<Rightarrow> nat \<Rightarrow> u32 \<Rightarrow> bool option" where
  "RtlEqualMemory mem Source1 Source2 Length = equal_loop mem Source1 Source2 (unat Length)"

section \<open>Division\<close>

text \<open>One round per bit, from bit 63 down; the third argument is the number of bits
  still to bring down.\<close>

fun div_loop :: "u64 \<Rightarrow> u64 \<Rightarrow> nat \<Rightarrow> u64 \<Rightarrow> u64 \<Rightarrow> u64 \<times> u64" where
  "div_loop Dividend Divisor 0 Quot Rem = (Quot, Rem)"
| "div_loop Dividend Divisor (Suc i) Quot Rem =
     (let Rem = push_bit 1 Rem OR (drop_bit i Dividend AND 1)
      in if Divisor \<le> Rem
         then div_loop Dividend Divisor i (Quot OR push_bit i 1) (Rem - Divisor)
         else div_loop Dividend Divisor i Quot Rem)"

text \<open>The result is the quotient and the remainder the code stores through its
  optional pointer.\<close>

definition RtlDivideUnsigned64 :: "u64 \<Rightarrow> u64 \<Rightarrow> u64 \<times> u64" where
  "RtlDivideUnsigned64 Dividend Divisor =
     (if Divisor = 0 then (0, 0)
      else if Dividend \<le> 0xFFFFFFFF \<and> Divisor \<le> 0xFFFFFFFF then
        (ucast ((ucast Dividend :: u32) div ucast Divisor),
         ucast ((ucast Dividend :: u32) mod ucast Divisor))
      else div_loop Dividend Divisor 64 0 0)"

definition RtlDivideSigned64 :: "u64 \<Rightarrow> u64 \<Rightarrow> u64 \<times> u64" where
  "RtlDivideSigned64 Dividend Divisor =
     (if Divisor = 0 then (0, 0)
      else let IsQuotientNegative = ((sint Dividend < 0) \<noteq> (sint Divisor < 0));
               IsRemainderNegative = (sint Dividend < 0);
               AbsDividend = (if sint Dividend < 0 then - Dividend else Dividend);
               AbsDivisor = (if sint Divisor < 0 then - Divisor else Divisor);
               (UnsignedQuot, UnsignedRem) = RtlDivideUnsigned64 AbsDividend AbsDivisor
           in (if IsQuotientNegative then - UnsignedQuot else UnsignedQuot,
               if IsRemainderNegative then - UnsignedRem else UnsignedRem))"

section \<open>What the memory routines do\<close>

lemma length_fill_loop: "fill_loop mem p n v = Some mem' \<Longrightarrow> length mem' = length mem"
  by (induction mem p n v arbitrary: mem' rule: fill_loop.induct)
     (auto simp: bind_eq_Some_conv wr_eq_Some_iff)

lemma fill_loop_Some:
  "p + n \<le> length mem \<Longrightarrow>
   fill_loop mem p n v = Some (take p mem @ replicate n v @ drop (p + n) mem)"
proof (induction n arbitrary: mem p)
  case 0
  then show ?case by simp
next
  case (Suc n)
  then have "fill_loop mem p (Suc n) v =
      Some (take (Suc p) (mem[p := v]) @ replicate n v @ drop (Suc p + n) (mem[p := v]))"
    by simp
  also have "take (Suc p) (mem[p := v]) = take p mem @ [v]"
    using Suc.prems by (simp add: take_Suc_conv_app_nth)
  finally show ?case by (simp add: drop_update_cancel)
qed

lemma fill_loop_nth:
  assumes "p + n \<le> length mem" "fill_loop mem p n v = Some mem'" "i < length mem"
  shows "mem' ! i = (if p \<le> i \<and> i < p + n then v else mem ! i)"
proof -
  have mem': "mem' = take p mem @ replicate n v @ drop (p + n) mem"
    using assms(1,2) by (simp add: fill_loop_Some)
  show ?thesis
  proof (cases "i < p")
    case True
    then show ?thesis using assms(1,3) by (simp add: mem' nth_append)
  next
    case False
    then show ?thesis using assms(1,3) by (cases "i < p + n") (auto simp: mem' nth_append)
  qed
qed

text \<open>A forward copy is right when the regions are disjoint or the destination is
  below the source.\<close>

lemma copy_loop_Some:
  assumes "s + n \<le> length mem" "d + n \<le> length mem" "s + n \<le> d \<or> d \<le> s"
  shows "copy_loop mem d s n = Some (take d mem @ take n (drop s mem) @ drop (d + n) mem)"
  using assms
proof (induction n arbitrary: mem d s)
  case 0
  then show ?case by simp
next
  case (Suc n)
  let ?m = "mem[d := mem ! s]"
  have rest: "take n (drop (Suc s) ?m) = take n (drop (Suc s) mem)"
    using Suc.prems by (intro nth_equalityI) (auto simp: nth_list_update)
  have hd: "take (Suc n) (drop s mem) = mem ! s # take n (drop (Suc s) mem)"
    using Suc.prems by (simp add: Cons_nth_drop_Suc [symmetric])
  have "copy_loop mem d s (Suc n) = copy_loop ?m (Suc d) (Suc s) n"
    using Suc.prems by simp
  also have "\<dots> = Some (take (Suc d) ?m @ take n (drop (Suc s) ?m) @ drop (Suc d + n) ?m)"
    using Suc.prems by (intro Suc.IH) auto
  also have "take (Suc d) ?m = take d mem @ [mem ! s]"
    using Suc.prems by (simp add: take_Suc_conv_app_nth)
  finally show ?case by (simp add: rest hd drop_update_cancel)
qed

lemma equal_loop_iff:
  "p1 + n \<le> length mem \<Longrightarrow> p2 + n \<le> length mem \<Longrightarrow>
   equal_loop mem p1 p2 n = Some (take n (drop p1 mem) = take n (drop p2 mem))"
proof (induction n arbitrary: p1 p2)
  case 0
  then show ?case by simp
next
  case (Suc n)
  have "take (Suc n) (drop p mem) = mem ! p # take n (drop (Suc p) mem)" if "p < length mem" for p
    using that by (simp add: Cons_nth_drop_Suc [symmetric])
  then show ?case using Suc by auto
qed

text \<open>The number of leading bytes on which two regions of \<open>n\<close> bytes agree.\<close>

definition common_prefix :: "u8 list \<Rightarrow> nat \<Rightarrow> nat \<Rightarrow> nat \<Rightarrow> nat" where
  "common_prefix mem p1 p2 n = length (takeWhile (\<lambda>i. mem ! (p1 + i) = mem ! (p2 + i)) [0..<n])"

lemma compare_loop_eq:
  assumes "p1 + k + n \<le> length mem" "p2 + k + n \<le> length mem" "k + n < 2 ^ 32"
  shows "compare_loop mem p1 p2 n (of_nat k) =
         Some (of_nat (k + length (takeWhile (\<lambda>i. mem ! (p1 + i) = mem ! (p2 + i)) [k..<k + n])))"
  using assms
proof (induction n arbitrary: k)
  case 0
  then show ?case by simp
next
  case (Suc n)
  have k: "unat (of_nat k :: u32) = k" using Suc.prems by (simp add: unat_of_nat_lt)
  have up: "[k..<k + Suc n] = k # [Suc k..<Suc k + n]" by (simp add: upt_rec)
  let ?P = "\<lambda>i. mem ! (p1 + i) = mem ! (p2 + i)"
  have IH: "compare_loop mem p1 p2 n (of_nat k + 1) = Some (of_nat (Suc k +
      length (takeWhile (\<lambda>i. mem ! (p1 + i) = mem ! (p2 + i)) [Suc k..<Suc k + n])))"
    using Suc.prems Suc.IH [of "Suc k"] by (simp add: add.commute)
  have "compare_loop mem p1 p2 (Suc n) (of_nat k) =
      (if ?P k then compare_loop mem p1 p2 n (of_nat k + 1) else Some (of_nat k))"
    using Suc.prems by (simp add: k)
  then show ?case unfolding up IH by simp
qed

section \<open>Long division is division\<close>

lemma unat_shift_in:
  fixes r d :: u64
  assumes "2 * unat r + (unat d div 2 ^ i) mod 2 < 2 ^ 64"
  shows "unat (push_bit 1 r OR (drop_bit i d AND 1)) = 2 * unat r + (unat d div 2 ^ i) mod 2"
proof -
  have b: "unat (drop_bit i d AND 1) = (unat d div 2 ^ i) mod 2"
    by (simp add: and_one_eq unat_mod_distrib unat_drop_bit)
  have s: "unat (push_bit 1 r) = 2 * unat r"
    using assms by (simp add: push_bit_eq_mult unat_mult_lt)
  have "push_bit 1 r OR (drop_bit i d AND 1) = push_bit 1 r + (drop_bit i d AND 1)"
  proof (rule disjunctive_add [symmetric])
    fix n show "\<not> bit (push_bit 1 r) n \<or> \<not> bit (drop_bit i d AND 1) n"
      by (cases n) (simp_all add: bit_simps bit_0 and_one_eq mod2_eq_if push_bit_eq_mult)
  qed
  moreover have "unat (push_bit 1 r + (drop_bit i d AND 1)) = 2 * unat r + (unat d div 2 ^ i) mod 2"
    using assms unat_add_lt [of "push_bit 1 r" "drop_bit i d AND 1"] by (simp only: s b) simp
  ultimately show ?thesis by simp
qed

lemma unat_set_bit_add:
  fixes q :: u64
  assumes "unat q = c * 2 ^ Suc i" "i < 64" "(2 * c + 1) * 2 ^ i < 2 ^ 64"
  shows "unat (q OR push_bit i 1) = (2 * c + 1) * 2 ^ i"
proof -
  have p: "unat (push_bit i 1 :: u64) = 2 ^ i"
    using assms(2) by (intro unat_push_bit_1) simp
  have "\<not> bit (unat q) i"
    using assms(1) by (simp add: bit_iff_odd)
  then have "\<not> bit q i" by (simp add: bit_unsigned_iff)
  then have "q OR push_bit i 1 = q + push_bit i 1"
    by (intro disjunctive_add [symmetric]) (auto simp: bit_simps)
  moreover have sum: "unat q + 2 ^ i = (2 * c + 1) * 2 ^ i"
    by (simp add: assms(1) algebra_simps)
  then have "unat (q + push_bit i 1) = (2 * c + 1) * 2 ^ i"
    using assms(3) unat_add_lt [of q "push_bit i 1"] by (simp only: p sum) simp
  ultimately show ?thesis by simp
qed

lemma div_step:
  fixes a b V :: nat
  assumes "0 < V" "b < 2"
  shows "(2 * a + b) div V = 2 * (a div V) + (if V \<le> 2 * (a mod V) + b then 1 else 0)"
    and "(2 * a + b) mod V = (2 * (a mod V) + b) - (if V \<le> 2 * (a mod V) + b then V else 0)"
proof -
  let ?r = "2 * (a mod V) + b"
  have split: "2 * a + b = ?r + V * (2 * (a div V))"
  proof -
    have "?r + V * (2 * (a div V)) = 2 * (a mod V + V * (a div V)) + b"
      by (simp only: algebra_simps)
    then show ?thesis by (simp only: mod_mult_div_eq)
  qed
  have lt: "?r < 2 * V" using assms mod_less_divisor [of V a] by linarith
  have q: "?r div V = (if V \<le> ?r then 1 else 0)"
  proof (cases "V \<le> ?r")
    case True
    then have "?r div V = Suc ((?r - V) div V)" using assms by (simp add: le_div_geq)
    moreover have "(?r - V) div V = 0" using True lt by simp
    ultimately show ?thesis using True by simp
  qed simp
  have m: "?r mod V = ?r - (if V \<le> ?r then V else 0)"
  proof (cases "V \<le> ?r")
    case True
    then have "?r mod V = (?r - V) mod V" by (rule le_mod_geq)
    moreover have "(?r - V) mod V = ?r - V" using True lt by simp
    ultimately show ?thesis using True by simp
  qed simp
  show "(2 * a + b) div V = 2 * (a div V) + (if V \<le> ?r then 1 else 0)"
  proof -
    have "(?r + V * (2 * (a div V))) div V = 2 * (a div V) + ?r div V"
      by (rule div_mult_self2) (use assms in simp)
    also have "?r div V = (if V \<le> ?r then 1 else 0)" by (rule q)
    finally have "(?r + V * (2 * (a div V))) div V = 2 * (a div V) + (if V \<le> ?r then 1 else 0)" .
    from trans [OF arg_cong [where f = "\<lambda>x. x div V", OF split] this] show ?thesis .
  qed
  show "(2 * a + b) mod V = ?r - (if V \<le> ?r then V else 0)"
    by (rule trans [OF arg_cong [where f = "\<lambda>x. x mod V", OF split] trans [OF mod_mult_self2 m]])
qed

lemma div_loop_correct:
  assumes "i \<le> 64" "0 < unat V"
    and "unat q = (unat D div 2 ^ i div unat V) * 2 ^ i"
    and "unat r = (unat D div 2 ^ i) mod unat V"
  shows "div_loop D V i q r = (D div V, D mod V)"
  using assms
proof (induction i arbitrary: q r)
  case 0
  then have "q = D div V" "r = D mod V"
    by (simp_all add: word_unat_eq_iff unat_div_distrib unat_mod_distrib)
  then show ?case by simp
next
  case (Suc i)
  let ?D = "unat D" and ?V = "unat V"
  define a b where "a = ?D div 2 ^ Suc i" and "b = (?D div 2 ^ i) mod 2"
  have ab: "?D div 2 ^ i = 2 * a + b"
    by (simp add: a_def b_def div_mult2_eq mult.commute [of 2])
  have b2: "b < 2" by (simp add: b_def)
  have r: "unat r = a mod ?V" using Suc.prems(4) by (simp add: a_def)
  have Dlt: "?D div 2 ^ i < 2 ^ 64"
    by (rule le_less_trans [OF div_le_dividend]) (use unat_lt_u64 [of D] in simp)
  then have fit: "2 * unat r + b < 2 ^ 64"
    using mod_less_eq_dividend [of a ?V] unfolding ab r by linarith
  define r' where "r' = push_bit 1 r OR (drop_bit i D AND 1)"
  have r': "unat r' = 2 * (a mod ?V) + b"
    unfolding r'_def using unat_shift_in [of r D i] fit by (simp add: b_def r)
  note step = div_step [OF Suc.prems(2) b2, of a]
  show ?case
  proof (cases "V \<le> r'")
    case True
    then have le: "?V \<le> 2 * (a mod ?V) + b" using r' by (simp add: word_le_nat_alt)
    then have quot: "(2 * a + b) div ?V = 2 * (a div ?V) + 1"
      and remn: "(2 * a + b) mod ?V = 2 * (a mod ?V) + b - ?V" using step by auto
    have "(2 * (a div ?V) + 1) * 2 ^ i \<le> ?D div 2 ^ i * 2 ^ i"
      unfolding quot [symmetric] ab [symmetric] by (intro mult_le_mono1 div_le_dividend)
    also have "\<dots> \<le> ?D" by (simp add: div_times_less_eq_dividend)
    also have "\<dots> < 2 ^ 64" using unat_lt_u64 [of D] by simp
    finally have "unat (q OR push_bit i 1) = (2 * (a div ?V) + 1) * 2 ^ i"
      using Suc.prems by (intro unat_set_bit_add) (auto simp: a_def)
    then have "div_loop D V i (q OR push_bit i 1) (r' - V) = (D div V, D mod V)"
      using Suc.prems True by (intro Suc.IH) (simp_all add: ab quot remn unat_sub_le r')
    with True show ?thesis by (simp add: Let_def r'_def)
  next
    case False
    then have "\<not> ?V \<le> 2 * (a mod ?V) + b" using r' by (simp add: word_le_nat_alt)
    then have "(2 * a + b) div ?V = 2 * (a div ?V)" "(2 * a + b) mod ?V = 2 * (a mod ?V) + b"
      using step by auto
    then have "div_loop D V i q r' = (D div V, D mod V)"
      using Suc.prems by (intro Suc.IH) (simp_all add: ab r' a_def)
    with False show ?thesis by (simp add: Let_def r'_def)
  qed
qed

lemma RtlDivideUnsigned64_eq:
  assumes "V \<noteq> 0"
  shows "RtlDivideUnsigned64 D V = (D div V, D mod V)"
proof (cases "D \<le> 0xFFFFFFFF \<and> V \<le> 0xFFFFFFFF")
  case True
  then have d: "unat D < 2 ^ 32" and v: "unat V < 2 ^ 32"
    by (simp_all add: word_le_nat_alt)
  have dv: "unat D div unat V < 2 ^ 32" "unat D mod unat V < 2 ^ 32"
    using d by (meson div_le_dividend mod_less_eq_dividend le_less_trans)+
  have u: "unat (ucast w :: u32) = unat w" if "unat w < 2 ^ 32" for w :: u64
    using that by (simp add: unsigned_ucast_eq take_bit_eq_mod)
  have "(ucast ((ucast D :: u32) div ucast V) :: u64) = D div V"
    using d v dv by (intro word_unat_eq_iff [THEN iffD2]) (simp add: unsigned_ucast_eq take_bit_eq_mod unat_div_distrib)
  moreover have "(ucast ((ucast D :: u32) mod ucast V) :: u64) = D mod V"
    using d v dv by (intro word_unat_eq_iff [THEN iffD2]) (simp add: unsigned_ucast_eq take_bit_eq_mod unat_mod_distrib)
  ultimately show ?thesis using assms True by (simp add: RtlDivideUnsigned64_def)
next
  case False
  have "unat D div 2 ^ 64 = 0" using unat_lt_u64 [of D] by simp
  then have "div_loop D V 64 0 0 = (D div V, D mod V)"
    using assms by (intro div_loop_correct) (auto simp: unat_gt_0)
  then show ?thesis using assms False by (auto simp: RtlDivideUnsigned64_def)
qed

section \<open>Signed division\<close>

lemma uint_lt_u64: "uint (w :: u64) < 18446744073709551616"
  using uint_lt2p [of w] by simp

lemma sint_u64:
  "sint (w :: u64) = (if uint w < 2 ^ 63 then uint w else uint w - 2 ^ 64)"
proof -
  have s: "sint w = (uint w + 2 ^ 63) mod 2 ^ 64 - 2 ^ 63"
    by (simp add: sint_uint signed_take_bit_eq_take_bit_shift take_bit_eq_mod)
  show ?thesis
  proof (cases "uint w < 2 ^ 63")
    case True
    then have "(uint w + 2 ^ 63) mod 2 ^ 64 = uint w + 2 ^ 63"
      by (intro mod_pos_pos_trivial) auto
    with s True show ?thesis by simp
  next
    case False
    have "(uint w + 2 ^ 63) mod 2 ^ 64 = (uint w + 2 ^ 63 - 2 ^ 64) mod 2 ^ 64"
      by (simp only: minus_mod_self2)
    also have "\<dots> = uint w + 2 ^ 63 - 2 ^ 64"
      using False uint_lt_u64 [of w] by (intro mod_pos_pos_trivial) auto
    finally show ?thesis using s False by simp
  qed
qed

lemma uint_minus_u64: "uint (- w :: u64) = (if w = 0 then 0 else 2 ^ 64 - uint w)"
proof (cases "w = 0")
  case False
  then have pos: "0 < uint w" by (simp add: uint_0_iff order_less_le)
  have "uint (- w) = - uint w mod 2 ^ 64" by (simp add: uint_word_ariths)
  also have "\<dots> = (- uint w + 2 ^ 64) mod 2 ^ 64" by (simp only: mod_add_self2)
  also have "\<dots> = - uint w + 2 ^ 64"
    using pos uint_lt_u64 [of w] by (intro mod_pos_pos_trivial) auto
  finally show ?thesis using False by simp
qed simp

definition abs_u64 :: "u64 \<Rightarrow> u64" where
  "abs_u64 w = (if sint w < 0 then - w else w)"

lemma uint_abs_u64: "uint (abs_u64 w) = \<bar>sint w\<bar>"
  using uint_lt_u64 [of w]
  by (auto simp: abs_u64_def sint_u64 uint_minus_u64 split: if_splits)

lemma sint_signed_of_abs:
  assumes "uint q \<le> 2 ^ 63" "\<not> n \<Longrightarrow> uint q < 2 ^ 63"
  shows "sint (if n then - q else q :: u64) = (if n then - 1 else 1) * uint q"
  using assms uint_lt_u64 [of q]
  by (auto simp: sint_u64 uint_minus_u64 split: if_splits)

lemma RtlDivideSigned64_eq:
  "V \<noteq> 0 \<Longrightarrow> RtlDivideSigned64 D V =
    (if (sint D < 0) \<noteq> (sint V < 0) then - (abs_u64 D div abs_u64 V) else abs_u64 D div abs_u64 V,
     if sint D < 0 then - (abs_u64 D mod abs_u64 V) else abs_u64 D mod abs_u64 V)"
  by (auto simp: RtlDivideSigned64_def RtlDivideUnsigned64_eq abs_u64_def Let_def
      split: prod.splits)

lemma RtlDivideSigned64_correct:
  assumes "V \<noteq> 0" and no_overflow: "\<not> (sint D = - (2 ^ 63) \<and> sint V = - 1)"
  shows "sint (fst (RtlDivideSigned64 D V)) = sint D sdiv sint V \<and>
         sint (snd (RtlDivideSigned64 D V)) = sint D smod sint V"
proof -
  let ?d = "\<bar>sint D\<bar>" and ?v = "\<bar>sint V\<bar>"
  have "sint V \<noteq> 0"
    using assms(1) uint_lt_u64 [of V] by (auto simp: sint_u64 uint_0_iff split: if_splits)
  then have v: "0 < ?v" by simp
  have d: "?d \<le> 2 ^ 63" using sint_ge [of D] sint_lt [of D] by simp
  have q: "uint (abs_u64 D div abs_u64 V) = ?d div ?v"
    by (simp add: uint_div_distrib uint_abs_u64)
  have r: "uint (abs_u64 D mod abs_u64 V) = ?d mod ?v"
    by (simp add: uint_mod_distrib uint_abs_u64)
  have qle: "?d div ?v \<le> ?d" using v zdiv_mono2 [of ?d 1 ?v] by simp
  have qlt: "?d div ?v < 2 ^ 63" if same: "(sint D < 0) = (sint V < 0)"
  proof (cases "?d = 2 ^ 63")
    case True
    then have "sint D < 0" using sint_lt [of D] by auto
    then have "?v \<noteq> 1" using True no_overflow same by auto
    then have "2 \<le> ?v" using v by simp
    then have "?d div ?v \<le> ?d div 2" by (intro zdiv_mono2) auto
    then show ?thesis using True by simp
  next
    case False
    then show ?thesis using d qle by simp
  qed
  have rlt: "?d mod ?v < 2 ^ 63"
    using pos_mod_bound [OF v, of ?d] sint_ge [of V] sint_lt [of V] by simp
  show ?thesis
  proof
    have "sint (fst (RtlDivideSigned64 D V)) =
        (if (sint D < 0) \<noteq> (sint V < 0) then - 1 else 1) * (?d div ?v)"
      unfolding RtlDivideSigned64_eq [OF assms(1)] fst_conv q [symmetric]
      using qlt qle d by (intro sint_signed_of_abs) (auto simp: q)
    then show "sint (fst (RtlDivideSigned64 D V)) = sint D sdiv sint V"
      using assms(1) by (cases "sint D = 0") (auto simp: signed_divide_int_def sgn_if)
    have "sint (snd (RtlDivideSigned64 D V)) = (if sint D < 0 then - 1 else 1) * (?d mod ?v)"
      unfolding RtlDivideSigned64_eq [OF assms(1)] snd_conv r [symmetric]
      using rlt by (intro sint_signed_of_abs) (auto simp: r)
    then show "sint (snd (RtlDivideSigned64 D V)) = sint D smod sint V"
      using assms(1) by (cases "sint D = 0") (auto simp: signed_modulo_int_def signed_divide_int_def sgn_if minus_div_mult_eq_mod)
  qed
qed

section \<open>Properties\<close>

text \<open>C2: \<open>RtlDivideUnsigned64\<close> returns the quotient and the remainder for every divisor but
  zero, on the 32-bit fast path as in the bit-by-bit long division, whose shifted
  remainder never overflows 64 bits.\<close>

theorem RtlDivideUnsigned64_correct:
  assumes "V \<noteq> 0"
  shows "RtlDivideUnsigned64 D V = (D div V, D mod V)"
  by (rule RtlDivideUnsigned64_eq [OF assms])

theorem RtlDivideUnsigned64_correct_witness:
  "RtlDivideUnsigned64 0x123456789ABCDEF 0x1000 = (0x123456789ABC, 0xDEF)"
  using RtlDivideUnsigned64_correct [of "0x1000" "0x123456789ABCDEF"] by simp

text \<open>\<open>RtlDivideSigned64\<close> truncates toward zero and gives the remainder the sign of the
  dividend, as the C operators do, for every divisor but zero and every pair but the
  one whose quotient does not fit (the least value by minus one).\<close>

theorem RtlDivideSigned64_truncates:
  assumes "V \<noteq> 0" "\<not> (sint D = - (2 ^ 63) \<and> sint V = - 1)"
  shows "sint (fst (RtlDivideSigned64 D V)) = sint D sdiv sint V \<and>
         sint (snd (RtlDivideSigned64 D V)) = sint D smod sint V"
  by (rule RtlDivideSigned64_correct [OF assms])

theorem RtlDivideSigned64_truncates_witness:
  "sint (fst (RtlDivideSigned64 (- 7) 2)) = - 3 \<and> sint (snd (RtlDivideSigned64 (- 7) 2)) = - 1"
  using RtlDivideSigned64_truncates [of 2 "- 7"]
  by (simp add: signed_divide_int_def signed_modulo_int_def)

text \<open>The forward copy loop of \<open>RtlCopyMemory\<close> moves the source block as it was before the
  call whenever the destination is below the source or the regions do not overlap,
  changes no other byte and leaves the memory nowhere.\<close>

theorem RtlCopyMemory_moves:
  assumes "s + unat N \<le> length mem" "d + unat N \<le> length mem" "s + unat N \<le> d \<or> d \<le> s"
  shows "RtlCopyMemory mem d s N =
    Some (take d mem @ take (unat N) (drop s mem) @ drop (d + unat N) mem)"
  unfolding RtlCopyMemory_def by (rule copy_loop_Some [OF assms])

theorem RtlCopyMemory_moves_witness:
  "RtlCopyMemory [1, 2, 3, 4, 5] 0 2 3 = Some [3, 4, 5, 4, 5]"
  using RtlCopyMemory_moves [of 2 3 "[1, 2, 3, 4, 5]" 0] by simp

text \<open>\<open>RtlCompareMemory\<close> returns the length of the common prefix of its two regions, and
  \<open>RtlEqualMemory\<close> whether they agree, both without reading outside the memory.\<close>

theorem compare_equal_memory:
  assumes "p1 + unat N \<le> length mem" "p2 + unat N \<le> length mem"
  shows "RtlCompareMemory mem p1 p2 N = Some (of_nat (common_prefix mem p1 p2 (unat N))) \<and>
         RtlEqualMemory mem p1 p2 N = Some (take (unat N) (drop p1 mem) = take (unat N) (drop p2 mem))"
  using compare_loop_eq [of p1 0 "unat N" mem p2] equal_loop_iff [of p1 "unat N" mem p2] assms unat_lt_u32 [of N]
  by (simp add: RtlCompareMemory_def RtlEqualMemory_def common_prefix_def)

theorem compare_equal_memory_witness:
  "RtlEqualMemory [1, 2, 3, 1, 2, 4] 0 3 3 = Some False"
  using compare_equal_memory [of 0 3 "[1, 2, 3, 1, 2, 4]" 3] by simp

end
