(* ===== verification/RtlBitmap.thy ===== *)
theory RtlBitmap
  imports RtlMemory
begin

text \<open>
  \<open>sdk/lib/rtl/bitmap.c\<close>: bitmaps over an array of 32-bit words. The definitions
  follow the file function by function: the two run-length scans, the single-bit and
  range updates, the counters, and the searches built on the scans. A pointer into
  \<open>Buffer\<close> is a word index, \<open>BITMAP_INDEX\<close> arithmetic is on \<^typ>\<open>u32\<close> and wraps
  as in C.

  The specification side is \<open>bm_bit\<close> (bit \<open>i\<close> of the buffer) and \<open>run_len\<close> (how far a
  predicate holds from a position on); the lemmas show that the word-wise scans and
  masks implement them.
\<close>

section \<open>Data and single bits\<close>

record RTL_BITMAP =
  SizeOfBitMap :: u32
  BmBuffer :: "u32 list"

definition MAXINDEX :: u32 where "MAXINDEX = 0xFFFFFFFF"

definition RtlInitializeBitmap :: "u32 list \<Rightarrow> u32 \<Rightarrow> RTL_BITMAP" where
  "RtlInitializeBitmap BitmapBuffer SizeOfBitmap =
     \<lparr>SizeOfBitMap = SizeOfBitmap, BmBuffer = BitmapBuffer\<rparr>"

definition with_buffer :: "RTL_BITMAP \<Rightarrow> u32 list option \<Rightarrow> RTL_BITMAP option" where
  "with_buffer h b = map_option (\<lambda>b. h\<lparr>BmBuffer := b\<rparr>) b"

definition RtlClearAllBits :: "RTL_BITMAP \<Rightarrow> RTL_BITMAP option" where
  "RtlClearAllBits h =
     (let LengthInUlongs = (SizeOfBitMap h + 32 - 1) div 32
      in with_buffer h (RtlFillMemoryUlong (BmBuffer h) (Some 0) (LengthInUlongs * 4) 0))"

definition RtlSetAllBits :: "RTL_BITMAP \<Rightarrow> RTL_BITMAP option" where
  "RtlSetAllBits h =
     (let LengthInUlongs = (SizeOfBitMap h + 32 - 1) div 32
      in with_buffer h (RtlFillMemoryUlong (BmBuffer h) (Some 0) (LengthInUlongs * 4) (NOT 0)))"

text \<open>\<open>*p &= m\<close> and \<open>*p |= m\<close> on word \<open>k\<close> of the buffer.\<close>

definition and_word :: "u32 list \<Rightarrow> nat \<Rightarrow> u32 \<Rightarrow> u32 list option" where
  "and_word xs k m = do { w \<leftarrow> rd xs k; wr xs k (w AND m) }"

definition or_word :: "u32 list \<Rightarrow> nat \<Rightarrow> u32 \<Rightarrow> u32 list option" where
  "or_word xs k m = do { w \<leftarrow> rd xs k; wr xs k (w OR m) }"

definition RtlClearBit :: "RTL_BITMAP \<Rightarrow> u32 \<Rightarrow> RTL_BITMAP option" where
  "RtlClearBit h BitNumber =
     with_buffer h (and_word (BmBuffer h) (unat (BitNumber div 32))
       (NOT (push_bit (unat (BitNumber AND (32 - 1))) 1)))"

definition RtlSetBit :: "RTL_BITMAP \<Rightarrow> u32 \<Rightarrow> RTL_BITMAP option" where
  "RtlSetBit h BitNumber =
     with_buffer h (or_word (BmBuffer h) (unat (BitNumber div 32))
       (push_bit (unat (BitNumber AND (32 - 1))) 1))"

definition RtlTestBit :: "RTL_BITMAP \<Rightarrow> u32 \<Rightarrow> bool option" where
  "RtlTestBit h BitNumber =
     do { w \<leftarrow> rd (BmBuffer h) (unat (BitNumber div 32));
          Some ((drop_bit (unat (BitNumber AND (32 - 1))) w) AND 1 \<noteq> 0) }"

section \<open>Range updates\<close>

definition RtlClearBits :: "RTL_BITMAP \<Rightarrow> u32 \<Rightarrow> u32 \<Rightarrow> RTL_BITMAP option" where
  "RtlClearBits h StartingIndex NumberToClear =
     (let Buffer = unat (StartingIndex div 32);
          Bits = StartingIndex AND (32 - 1);
          tail = (\<lambda>xs Buffer NumberToClear. do {
            xs \<leftarrow> RtlFillMemoryUlong xs (Some Buffer) (drop_bit 3 NumberToClear) 0;
            let Buffer = Buffer + unat (NumberToClear div 32);
            let NumberToClear = NumberToClear AND (32 - 1);
            if NumberToClear \<noteq> 0
            then and_word xs Buffer (push_bit (unat NumberToClear) MAXINDEX)
            else Some xs })
      in with_buffer h
        (if Bits \<noteq> 0 then
           let Mask = push_bit (unat Bits) MAXINDEX;
               Bits = 32 - Bits
           in if NumberToClear < Bits then
                let Bits = Bits - NumberToClear;
                    Mask = drop_bit (unat Bits) (push_bit (unat Bits) Mask)
                in and_word (BmBuffer h) Buffer (NOT Mask)
              else do {
                xs \<leftarrow> and_word (BmBuffer h) Buffer (NOT Mask);
                tail xs (Buffer + 1) (NumberToClear - Bits) }
         else tail (BmBuffer h) Buffer NumberToClear))"

definition RtlSetBits :: "RTL_BITMAP \<Rightarrow> u32 \<Rightarrow> u32 \<Rightarrow> RTL_BITMAP option" where
  "RtlSetBits h StartingIndex NumberToSet =
     (let Buffer = unat (StartingIndex div 32);
          Bits = StartingIndex AND (32 - 1);
          tail = (\<lambda>xs Buffer NumberToSet. do {
            xs \<leftarrow> RtlFillMemoryUlong xs (Some Buffer) (drop_bit 3 NumberToSet) MAXINDEX;
            let Buffer = Buffer + unat (NumberToSet div 32);
            let NumberToSet = NumberToSet AND (32 - 1);
            if NumberToSet \<noteq> 0
            then or_word xs Buffer (NOT (push_bit (unat NumberToSet) MAXINDEX))
            else Some xs })
      in with_buffer h
        (if Bits \<noteq> 0 then
           let Mask = push_bit (unat Bits) MAXINDEX;
               Bits = 32 - Bits
           in if NumberToSet < Bits then
                let Bits = Bits - NumberToSet;
                    Mask = drop_bit (unat Bits) (push_bit (unat Bits) Mask)
                in or_word (BmBuffer h) Buffer Mask
              else do {
                xs \<leftarrow> or_word (BmBuffer h) Buffer Mask;
                tail xs (Buffer + 1) (NumberToSet - Bits) }
         else tail (BmBuffer h) Buffer NumberToSet))"

section \<open>Run lengths\<close>

text \<open>\<open>bsf\<close> and \<open>bsr\<close>: the lowest and the highest set bit. They are only executed on a
  nonzero word.\<close>

definition BitScanForward :: "u32 \<Rightarrow> u32" where
  "BitScanForward v = of_nat (length (takeWhile (\<lambda>i. \<not> bit v i) [0..<32]))"

definition BitScanReverse :: "u32 \<Rightarrow> u32" where
  "BitScanReverse v = of_nat (31 - length (takeWhile (\<lambda>i. \<not> bit v (31 - i)) [0..<32]))"

text \<open>The loop that skips whole words: \<open>f\<close> is what the scan does to a word it reads
  (nothing, or complement). The loop state is the current value and the word index.\<close>

function skip_words ::
    "(u32 \<Rightarrow> u32) \<Rightarrow> u32 list \<Rightarrow> u32 \<Rightarrow> nat \<Rightarrow> nat \<Rightarrow> (u32 \<times> nat) option" where
  "skip_words f xs Value Buffer MaxBuffer =
     (if Value = 0 \<and> Buffer < MaxBuffer
      then do { w \<leftarrow> rd xs Buffer; skip_words f xs (f w) (Buffer + 1) MaxBuffer }
      else Some (Value, Buffer))"
  by pat_completeness auto
termination
  by (relation "measure (\<lambda>(f, xs, v, b, m). m - b)") auto

declare skip_words.simps [simp del]

definition RtlpGetLengthOfRunClear :: "RTL_BITMAP \<Rightarrow> u32 \<Rightarrow> u32 \<Rightarrow> u32 option" where
  "RtlpGetLengthOfRunClear h StartingIndex MaxLength =
     (if SizeOfBitMap h \<le> StartingIndex then Some 0
      else let
        Buffer = unat (StartingIndex div 32);
        BitPos = StartingIndex AND (32 - 1);
        MaxLength = min MaxLength (SizeOfBitMap h - StartingIndex);
        MaxBuffer = Buffer + unat ((BitPos + MaxLength + 32 - 1) div 32)
      in do {
        w \<leftarrow> rd (BmBuffer h) Buffer;
        let Value = push_bit (unat BitPos) (drop_bit (unat BitPos) w);
        (Value, Buffer) \<leftarrow> skip_words (\<lambda>w. w) (BmBuffer h) Value (Buffer + 1) MaxBuffer;
        if Value = 0 then Some MaxLength
        else let
          BitPos = BitScanForward Value;
          Length = of_nat Buffer * 32 - StartingIndex;
          Length = Length + (BitPos - 32)
        in Some (if SizeOfBitMap h - StartingIndex < Length
                 then SizeOfBitMap h - StartingIndex else Length) })"

definition RtlpGetLengthOfRunSet :: "RTL_BITMAP \<Rightarrow> u32 \<Rightarrow> u32 \<Rightarrow> u32 option" where
  "RtlpGetLengthOfRunSet h StartingIndex MaxLength =
     (if SizeOfBitMap h \<le> StartingIndex then Some 0
      else let
        Buffer = unat (StartingIndex div 32);
        BitPos = StartingIndex AND (32 - 1);
        MaxLength = min MaxLength (SizeOfBitMap h - StartingIndex);
        MaxBuffer = Buffer + unat ((BitPos + MaxLength + 32 - 1) div 32)
      in do {
        w \<leftarrow> rd (BmBuffer h) Buffer;
        let InvValue = push_bit (unat BitPos) (drop_bit (unat BitPos) (NOT w));
        (InvValue, Buffer) \<leftarrow>
          skip_words (\<lambda>w. NOT w) (BmBuffer h) InvValue (Buffer + 1) MaxBuffer;
        if InvValue = 0 then Some MaxLength
        else let
          BitPos = BitScanForward InvValue;
          Length = of_nat Buffer * 32 - StartingIndex;
          Length = Length + (BitPos - 32)
        in Some (if SizeOfBitMap h - StartingIndex < Length
                 then SizeOfBitMap h - StartingIndex else Length) })"

definition RtlAreBitsClear :: "RTL_BITMAP \<Rightarrow> u32 \<Rightarrow> u32 \<Rightarrow> bool option" where
  "RtlAreBitsClear h StartingIndex Length =
     (if SizeOfBitMap h < StartingIndex + Length \<or> StartingIndex + Length \<le> StartingIndex
      then Some False
      else do { n \<leftarrow> RtlpGetLengthOfRunClear h StartingIndex Length; Some (Length \<le> n) })"

definition RtlAreBitsSet :: "RTL_BITMAP \<Rightarrow> u32 \<Rightarrow> u32 \<Rightarrow> bool option" where
  "RtlAreBitsSet h StartingIndex Length =
     (if SizeOfBitMap h < StartingIndex + Length \<or> StartingIndex + Length \<le> StartingIndex
      then Some False
      else do { n \<leftarrow> RtlpGetLengthOfRunSet h StartingIndex Length; Some (Length \<le> n) })"

section \<open>Counting\<close>

definition BitCountTable :: "u8 list" where
  "BitCountTable =
     [0, 1, 1, 2, 1, 2, 2, 3, 1, 2, 2, 3, 2, 3, 3, 4,
      1, 2, 2, 3, 2, 3, 3, 4, 2, 3, 3, 4, 3, 4, 4, 5,
      1, 2, 2, 3, 2, 3, 3, 4, 2, 3, 3, 4, 3, 4, 4, 5,
      2, 3, 3, 4, 3, 4, 4, 5, 3, 4, 4, 5, 4, 5, 5, 6,
      1, 2, 2, 3, 2, 3, 3, 4, 2, 3, 3, 4, 3, 4, 4, 5,
      2, 3, 3, 4, 3, 4, 4, 5, 3, 4, 4, 5, 4, 5, 5, 6,
      2, 3, 3, 4, 3, 4, 4, 5, 3, 4, 4, 5, 4, 5, 5, 6,
      3, 4, 4, 5, 4, 5, 5, 6, 4, 5, 5, 6, 5, 6, 6, 7,
      1, 2, 2, 3, 2, 3, 3, 4, 2, 3, 3, 4, 3, 4, 4, 5,
      2, 3, 3, 4, 3, 4, 4, 5, 3, 4, 4, 5, 4, 5, 5, 6,
      2, 3, 3, 4, 3, 4, 4, 5, 3, 4, 4, 5, 4, 5, 5, 6,
      3, 4, 4, 5, 4, 5, 5, 6, 4, 5, 5, 6, 5, 6, 6, 7,
      2, 3, 3, 4, 3, 4, 4, 5, 3, 4, 4, 5, 4, 5, 5, 6,
      3, 4, 4, 5, 4, 5, 5, 6, 4, 5, 5, 6, 5, 6, 6, 7,
      3, 4, 4, 5, 4, 5, 5, 6, 4, 5, 5, 6, 5, 6, 6, 7,
      4, 5, 5, 6, 5, 6, 6, 7, 5, 6, 6, 7, 6, 7, 7, 8]"

text \<open>Byte \<open>i\<close> of the word array, which x86 stores low byte first.\<close>

definition byte_at :: "u32 list \<Rightarrow> nat \<Rightarrow> u8 option" where
  "byte_at xs i = do { w \<leftarrow> rd xs (i div 4); Some (ucast (drop_bit (8 * (i mod 4)) w)) }"

fun count_loop :: "u32 list \<Rightarrow> nat \<Rightarrow> nat \<Rightarrow> u32 \<Rightarrow> u32 option" where
  "count_loop xs Byte 0 BitCount = Some BitCount"
| "count_loop xs Byte (Suc n) BitCount = do {
     b \<leftarrow> byte_at xs Byte;
     c \<leftarrow> rd BitCountTable (unat b);
     count_loop xs (Suc Byte) n (BitCount + ucast c) }"

definition RtlNumberOfSetBits :: "RTL_BITMAP \<Rightarrow> u32 option" where
  "RtlNumberOfSetBits h =
     (let Bytes = unat (SizeOfBitMap h div 8) in do {
        BitCount \<leftarrow> count_loop (BmBuffer h) 0 Bytes 0;
        if SizeOfBitMap h AND 7 \<noteq> 0 then do {
          let Shift = 8 - (SizeOfBitMap h AND 7);
          b \<leftarrow> byte_at (BmBuffer h) Bytes;
          c \<leftarrow> rd BitCountTable (unat (push_bit (unat Shift) (ucast b :: u32) AND 0xFF));
          Some (BitCount + ucast c) }
        else Some BitCount })"

definition RtlNumberOfClearBits :: "RTL_BITMAP \<Rightarrow> u32 option" where
  "RtlNumberOfClearBits h = do { n \<leftarrow> RtlNumberOfSetBits h; Some (SizeOfBitMap h - n) }"

section \<open>Searching\<close>

text \<open>The scan loop of the two searches, \<open>within\<close> its bound test, \<open>skip\<close> and \<open>run\<close> the two
  scans: \<open>Some (Some p)\<close> when it returns position \<open>p\<close>, \<open>Some None\<close> when it runs past
  the margin.\<close>

partial_function (option) find_loop ::
    "(u32 \<Rightarrow> u32 \<Rightarrow> bool) \<Rightarrow> (u32 \<Rightarrow> u32 \<Rightarrow> u32 option) \<Rightarrow> (u32 \<Rightarrow> u32 \<Rightarrow> u32 option) \<Rightarrow>
     u32 \<Rightarrow> u32 \<Rightarrow> u32 \<Rightarrow> u32 option option" where
  "find_loop within skip run NumberToFind Margin CurrentBit =
     (if within (CurrentBit + NumberToFind) Margin then do {
        s \<leftarrow> skip CurrentBit MAXINDEX;
        CurrentLength \<leftarrow> run (CurrentBit + s) NumberToFind;
        if NumberToFind \<le> CurrentLength then Some (Some (CurrentBit + s))
        else find_loop within skip run NumberToFind Margin (CurrentBit + s + CurrentLength) }
      else Some None)"

definition RtlFindClearBits :: "RTL_BITMAP option \<Rightarrow> u32 \<Rightarrow> u32 \<Rightarrow> u32 option" where
  "RtlFindClearBits BitMapHeader NumberToFind HintIndex =
     (case BitMapHeader of None \<Rightarrow> Some MAXINDEX
      | Some h \<Rightarrow>
        if SizeOfBitMap h < NumberToFind then Some MAXINDEX
        else let HintIndex = (if SizeOfBitMap h \<le> HintIndex then 0 else HintIndex)
        in if NumberToFind = 0 then Some (HintIndex AND NOT 7)
        else do {
          r \<leftarrow> find_loop (<) (RtlpGetLengthOfRunSet h) (RtlpGetLengthOfRunClear h)
                 NumberToFind (SizeOfBitMap h) HintIndex;
          (case r of Some p \<Rightarrow> Some p
           | None \<Rightarrow>
             if HintIndex \<noteq> 0 then do {
               r \<leftarrow> find_loop (<) (RtlpGetLengthOfRunSet h) (RtlpGetLengthOfRunClear h)
                     NumberToFind (min (HintIndex + NumberToFind) (SizeOfBitMap h)) 0;
               Some (case r of Some p \<Rightarrow> p | None \<Rightarrow> MAXINDEX) }
             else Some MAXINDEX) })"

definition RtlFindSetBits :: "RTL_BITMAP option \<Rightarrow> u32 \<Rightarrow> u32 \<Rightarrow> u32 option" where
  "RtlFindSetBits BitMapHeader NumberToFind HintIndex =
     (case BitMapHeader of None \<Rightarrow> Some MAXINDEX
      | Some h \<Rightarrow>
        if SizeOfBitMap h < NumberToFind then Some MAXINDEX
        else let HintIndex = (if SizeOfBitMap h \<le> HintIndex then 0 else HintIndex)
        in if NumberToFind = 0 then Some (HintIndex AND NOT 7)
        else do {
          r \<leftarrow> find_loop (\<le>) (RtlpGetLengthOfRunClear h) (RtlpGetLengthOfRunSet h)
                 NumberToFind (SizeOfBitMap h) HintIndex;
          (case r of Some p \<Rightarrow> Some p
           | None \<Rightarrow>
             if HintIndex \<noteq> 0 then do {
               r \<leftarrow> find_loop (\<le>) (RtlpGetLengthOfRunClear h) (RtlpGetLengthOfRunSet h)
                     NumberToFind (min (HintIndex + NumberToFind) (SizeOfBitMap h)) 0;
               Some (case r of Some p \<Rightarrow> p | None \<Rightarrow> MAXINDEX) }
             else Some MAXINDEX) })"

text \<open>The two combined operations return the position and the updated bitmap.\<close>

definition RtlFindClearBitsAndSet ::
    "RTL_BITMAP \<Rightarrow> u32 \<Rightarrow> u32 \<Rightarrow> (u32 \<times> RTL_BITMAP) option" where
  "RtlFindClearBitsAndSet h NumberToFind HintIndex = do {
     Position \<leftarrow> RtlFindClearBits (Some h) NumberToFind HintIndex;
     if Position \<noteq> MAXINDEX
     then do { h' \<leftarrow> RtlSetBits h Position NumberToFind; Some (Position, h') }
     else Some (Position, h) }"

definition RtlFindSetBitsAndClear ::
    "RTL_BITMAP \<Rightarrow> u32 \<Rightarrow> u32 \<Rightarrow> (u32 \<times> RTL_BITMAP) option" where
  "RtlFindSetBitsAndClear h NumberToFind HintIndex = do {
     Position \<leftarrow> RtlFindSetBits (Some h) NumberToFind HintIndex;
     if Position \<noteq> MAXINDEX
     then do { h' \<leftarrow> RtlClearBits h Position NumberToFind; Some (Position, h') }
     else Some (Position, h) }"

text \<open>The run searches return the length and, through the pointer, the start.\<close>

definition RtlFindNextForwardRunClear :: "RTL_BITMAP \<Rightarrow> u32 \<Rightarrow> (u32 \<times> u32) option" where
  "RtlFindNextForwardRunClear h FromIndex =
     (if SizeOfBitMap h \<le> FromIndex then Some (0, FromIndex)
      else do {
        Length \<leftarrow> RtlpGetLengthOfRunSet h FromIndex MAXINDEX;
        n \<leftarrow> RtlpGetLengthOfRunClear h (FromIndex + Length) MAXINDEX;
        Some (n, FromIndex + Length) })"

definition RtlFindNextForwardRunSet :: "RTL_BITMAP \<Rightarrow> u32 \<Rightarrow> (u32 \<times> u32) option" where
  "RtlFindNextForwardRunSet h FromIndex =
     (if SizeOfBitMap h \<le> FromIndex then Some (0, FromIndex)
      else do {
        Length \<leftarrow> RtlpGetLengthOfRunClear h FromIndex MAXINDEX;
        n \<leftarrow> RtlpGetLengthOfRunSet h (FromIndex + Length) MAXINDEX;
        Some (n, FromIndex + Length) })"

definition RtlFindFirstRunClear :: "RTL_BITMAP \<Rightarrow> (u32 \<times> u32) option" where
  "RtlFindFirstRunClear h = RtlFindNextForwardRunClear h 0"

text \<open>The backward search. \<open>b\<close> is \<open>Buffer + 1 - BitMapHeader->Buffer\<close>: the number of
  words still below the pointer, 0 once it has moved before the array.\<close>

fun skip_set_down :: "u32 list \<Rightarrow> u32 \<Rightarrow> nat \<Rightarrow> (u32 \<times> nat) option option" where
  "skip_set_down xs InvValue 0 = Some (if InvValue = 0 then None else Some (InvValue, 0))"
| "skip_set_down xs InvValue (Suc b) =
     (if InvValue = 0 then do { w \<leftarrow> rd xs b; skip_set_down xs (NOT w) b }
      else Some (Some (InvValue, Suc b)))"

fun skip_clear_down :: "u32 list \<Rightarrow> u32 \<Rightarrow> nat \<Rightarrow> (u32 \<times> nat) option" where
  "skip_clear_down xs Value 0 = Some (Value, 0)"
| "skip_clear_down xs Value (Suc b) =
     (if Value = 0 then do { w \<leftarrow> rd xs b; skip_clear_down xs w b }
      else Some (Value, Suc b))"

definition RtlFindLastBackwardRunClear ::
    "RTL_BITMAP \<Rightarrow> u32 \<Rightarrow> u32 \<Rightarrow> (u32 \<times> u32) option" where
  "RtlFindLastBackwardRunClear h FromIndex StartingRunIndex =
     (let FromIndex = min FromIndex (SizeOfBitMap h - 1);
          Buffer = unat (FromIndex div 32);
          BitPos = (32 - 1) - (FromIndex AND (32 - 1))
      in do {
        w \<leftarrow> rd (BmBuffer h) Buffer;
        let InvValue = drop_bit (unat BitPos) (push_bit (unat BitPos) (NOT w));
        r \<leftarrow> skip_set_down (BmBuffer h) InvValue Buffer;
        (case r of None \<Rightarrow> Some (0, StartingRunIndex)
         | Some (InvValue, b) \<Rightarrow> do {
             let BitPos = BitScanReverse InvValue;
             let FromIndex = of_nat b * 32 + BitPos;
             let Shift = unat ((32 - 1) - BitPos);
             let Value = drop_bit Shift (push_bit Shift (NOT InvValue));
             (Value, b) \<leftarrow> skip_clear_down (BmBuffer h) Value b;
             let StartingRunIndex =
               (if Value \<noteq> 0 then of_nat b * 32 + BitScanReverse Value + 1 else 0);
             Some (FromIndex - StartingRunIndex, StartingRunIndex) }) })"

text \<open>\<open>RtlFindClearRuns\<close> fills an array of runs, then goes on looking for longer ones. The
  array is the list of pairs (start, length); \<open>Run\<close> counts the runs found.\<close>

type_synonym RTL_BITMAP_RUN = "u32 \<times> u32"

fun first_runs ::
    "RTL_BITMAP \<Rightarrow> nat \<Rightarrow> RTL_BITMAP_RUN list \<Rightarrow> nat \<Rightarrow> nat \<Rightarrow> u32 \<Rightarrow>
     (RTL_BITMAP_RUN list \<times> nat \<times> nat \<times> u32) option" where
  "first_runs h 0 RunArray Run SmallestRun FromIndex =
     Some (RunArray, Run, SmallestRun, FromIndex)"
| "first_runs h (Suc n) RunArray Run SmallestRun FromIndex = do {
     (NumberOfBits, StartingIndex) \<leftarrow> RtlFindNextForwardRunClear h FromIndex;
     if NumberOfBits = 0 then Some (RunArray, Run, SmallestRun, FromIndex)
     else do {
       RunArray \<leftarrow> wr RunArray Run (StartingIndex, NumberOfBits);
       smallest \<leftarrow> rd RunArray SmallestRun;
       first_runs h n RunArray (Run + 1)
         (if NumberOfBits < snd smallest then Run else SmallestRun)
         (StartingIndex + NumberOfBits) } }"

fun smallest_loop ::
    "RTL_BITMAP_RUN list \<Rightarrow> u32 \<Rightarrow> nat \<Rightarrow> nat \<Rightarrow> nat \<Rightarrow> nat option" where
  "smallest_loop RunArray NumberOfBits 0 Run SmallestRun = Some SmallestRun"
| "smallest_loop RunArray NumberOfBits (Suc n) Run SmallestRun = do {
     smallest \<leftarrow> rd RunArray SmallestRun;
     smallest_loop RunArray NumberOfBits n (Run + 1)
       (if NumberOfBits < snd smallest then Run else SmallestRun) }"

partial_function (option) longer_runs ::
    "RTL_BITMAP \<Rightarrow> nat \<Rightarrow> RTL_BITMAP_RUN list \<Rightarrow> nat \<Rightarrow> nat \<Rightarrow> u32 \<Rightarrow>
     (RTL_BITMAP_RUN list \<times> nat) option" where
  "longer_runs h SizeOfRunArray RunArray Run SmallestRun FromIndex = do {
     (NumberOfBits, StartingIndex) \<leftarrow> RtlFindNextForwardRunClear h FromIndex;
     if NumberOfBits = 0 then Some (RunArray, Run)
     else do {
       smallest \<leftarrow> rd RunArray SmallestRun;
       if snd smallest < NumberOfBits then do {
         RunArray \<leftarrow> wr RunArray SmallestRun (StartingIndex, NumberOfBits);
         SmallestRun \<leftarrow> smallest_loop RunArray NumberOfBits SizeOfRunArray 0 SmallestRun;
         longer_runs h SizeOfRunArray RunArray SizeOfRunArray SmallestRun
           (FromIndex + NumberOfBits) }
       else longer_runs h SizeOfRunArray RunArray Run SmallestRun
              (FromIndex + NumberOfBits) } }"

definition RtlFindClearRuns ::
    "RTL_BITMAP \<Rightarrow> RTL_BITMAP_RUN list \<Rightarrow> u32 \<Rightarrow> bool \<Rightarrow> (RTL_BITMAP_RUN list \<times> nat) option" where
  "RtlFindClearRuns h RunArray SizeOfRunArray LocateLongestRuns = do {
     (RunArray, Run, SmallestRun, FromIndex) \<leftarrow>
       first_runs h (unat SizeOfRunArray) RunArray 0 0 0;
     if Run < unat SizeOfRunArray \<or> \<not> LocateLongestRuns then Some (RunArray, Run)
     else longer_runs h (unat SizeOfRunArray) RunArray Run SmallestRun FromIndex }"

text \<open>The longest-run searches: the loop state is the best length, its start and the
  position the next run is looked for.\<close>

partial_function (option) longest_loop ::
    "('h \<Rightarrow> u32 \<Rightarrow> (u32 \<times> u32) option) \<Rightarrow> 'h \<Rightarrow> u32 \<Rightarrow> u32 \<Rightarrow> u32 \<Rightarrow>
     (u32 \<times> u32) option" where
  "longest_loop next_run h MaxNumberOfBits StartingIndex FromIndex = do {
     (NumberOfBits, Index) \<leftarrow> next_run h FromIndex;
     if NumberOfBits = 0 then Some (MaxNumberOfBits, StartingIndex)
     else if MaxNumberOfBits < NumberOfBits
       then longest_loop next_run h NumberOfBits Index (FromIndex + NumberOfBits)
       else longest_loop next_run h MaxNumberOfBits StartingIndex (FromIndex + NumberOfBits) }"

definition RtlFindLongestRunClear :: "RTL_BITMAP \<Rightarrow> u32 \<Rightarrow> (u32 \<times> u32) option" where
  "RtlFindLongestRunClear h StartingIndex =
     longest_loop RtlFindNextForwardRunClear h 0 StartingIndex 0"

definition RtlFindLongestRunSet :: "RTL_BITMAP \<Rightarrow> u32 \<Rightarrow> (u32 \<times> u32) option" where
  "RtlFindLongestRunSet h StartingIndex =
     longest_loop RtlFindNextForwardRunSet h 0 StartingIndex 0"

section \<open>Specification\<close>

text \<open>\<open>bm_bit\<close> is bit \<open>i\<close> of a buffer, \<open>run_len\<close> how far a predicate holds from a position
  on, \<open>upd_range\<close> that one buffer is another with a range of bits set to \<open>v\<close>. A
  bitmap is well formed when its buffer backs its size and the size leaves room for
  the word arithmetic of the scans. \<open>run_scan\<close> and \<open>range_op\<close> are the common form of
  the clear and set variants, \<open>skip_inv\<close> the invariant of the word-skipping loop.\<close>

definition run_len :: "(nat \<Rightarrow> bool) \<Rightarrow> nat \<Rightarrow> nat \<Rightarrow> nat" where
  "run_len P s n = length (takeWhile P [s..<n])"

definition scan_bit :: "(u32 \<Rightarrow> u32) \<Rightarrow> u32 list \<Rightarrow> nat \<Rightarrow> bool" where
  "scan_bit f xs i \<longleftrightarrow> bit (f (xs ! (i div 32))) (i mod 32)"

definition skip_inv :: "(u32 \<Rightarrow> u32) \<Rightarrow> u32 list \<Rightarrow> nat \<Rightarrow> u32 \<Rightarrow> nat \<Rightarrow> bool" where
  "skip_inv f xs start v b \<longleftrightarrow> 0 < b \<and>
     (\<forall>j<32. bit v j \<longleftrightarrow> start \<le> 32 * (b - 1) + j \<and> scan_bit f xs (32 * (b - 1) + j)) \<and>
     (\<forall>i. start \<le> i \<and> i < 32 * (b - 1) \<longrightarrow> \<not> scan_bit f xs i)"

definition run_scan :: "(u32 \<Rightarrow> u32) \<Rightarrow> RTL_BITMAP \<Rightarrow> u32 \<Rightarrow> u32 \<Rightarrow> u32 option" where
  "run_scan f h StartingIndex MaxLength =
     (if SizeOfBitMap h \<le> StartingIndex then Some 0
      else let
        Buffer = unat (StartingIndex div 32);
        BitPos = StartingIndex AND (32 - 1);
        MaxLength = min MaxLength (SizeOfBitMap h - StartingIndex);
        MaxBuffer = Buffer + unat ((BitPos + MaxLength + 32 - 1) div 32)
      in do {
        w \<leftarrow> rd (BmBuffer h) Buffer;
        let Value = push_bit (unat BitPos) (drop_bit (unat BitPos) (f w));
        (Value, Buffer) \<leftarrow> skip_words f (BmBuffer h) Value (Buffer + 1) MaxBuffer;
        if Value = 0 then Some MaxLength
        else let
          BitPos = BitScanForward Value;
          Length = of_nat Buffer * 32 - StartingIndex;
          Length = Length + (BitPos - 32)
        in Some (if SizeOfBitMap h - StartingIndex < Length
                 then SizeOfBitMap h - StartingIndex else Length) })"

definition bitmap_wf :: "RTL_BITMAP \<Rightarrow> bool" where
  "bitmap_wf h \<longleftrightarrow> unat (SizeOfBitMap h) \<le> 32 * length (BmBuffer h) \<and>
     unat (SizeOfBitMap h) + 31 < 2 ^ 32"

definition bm_bit :: "u32 list \<Rightarrow> nat \<Rightarrow> bool" where
  "bm_bit xs i \<longleftrightarrow> bit (xs ! (i div 32)) (i mod 32)"

definition clear_run :: "RTL_BITMAP \<Rightarrow> nat \<Rightarrow> nat" where
  "clear_run h s = run_len (\<lambda>i. \<not> bm_bit (BmBuffer h) i) s (unat (SizeOfBitMap h))"

definition set_run :: "RTL_BITMAP \<Rightarrow> nat \<Rightarrow> nat" where
  "set_run h s = run_len (bm_bit (BmBuffer h)) s (unat (SizeOfBitMap h))"

definition upd_range :: "bool \<Rightarrow> u32 list \<Rightarrow> u32 list \<Rightarrow> nat \<Rightarrow> nat \<Rightarrow> bool" where
  "upd_range v xs ys a n \<longleftrightarrow> length ys = length xs \<and>
     (\<forall>i < 32 * length xs. bm_bit ys i = (if a \<le> i \<and> i < a + n then v else bm_bit xs i))"

definition range_op :: "(u32 list \<Rightarrow> nat \<Rightarrow> u32 \<Rightarrow> u32 list option) \<Rightarrow> (u32 \<Rightarrow> u32) \<Rightarrow> bool \<Rightarrow> 
    u32 list \<Rightarrow> u32 \<Rightarrow> u32 \<Rightarrow> u32 list option" where
  "range_op put neg v xs s N =
    (let tail = (\<lambda>xs k N. do {
            xs \<leftarrow> RtlFillMemoryUlong xs (Some k) (drop_bit 3 N) (if v then MAXINDEX else 0);
            if N AND 31 \<noteq> 0
            then put xs (k + unat (N div 32)) (neg (NOT (push_bit (unat (N AND 31)) MAXINDEX)))
            else Some xs })
     in if s AND 31 \<noteq> 0 then
           let Mask = push_bit (unat (s AND 31)) MAXINDEX; Bits = 32 - (s AND 31)
           in if N < Bits
              then put xs (unat (s div 32)) (neg (drop_bit (unat (Bits - N)) (push_bit (unat (Bits - N)) Mask)))
              else do { xs \<leftarrow> put xs (unat (s div 32)) (neg Mask); tail xs (unat (s div 32) + 1) (N - Bits) }
        else tail xs (unat (s div 32)) N)"

section \<open>Facts on runs\<close>

lemma run_len_step: "run_len P s n = (if s < n \<and> P s then Suc (run_len P (Suc s) n) else 0)"
  by (simp add: run_len_def upt_rec)

lemma run_len_le: "run_len P s n \<le> n - s"
  unfolding run_len_def using length_takeWhile_le [of P "[s..<n]"] by simp

lemma run_len_holds: "i < s + run_len P s n \<Longrightarrow> s \<le> i \<Longrightarrow> P i"
  unfolding run_len_def
proof -
  assume i: "i < s + length (takeWhile P [s..<n])" "s \<le> i"
  then have "takeWhile P [s..<n] ! (i - s) \<in> set (takeWhile P [s..<n])"
    by (intro nth_mem) auto
  then have "P (takeWhile P [s..<n] ! (i - s))" by (rule set_takeWhileD [THEN conjunct2])
  moreover have "takeWhile P [s..<n] ! (i - s) = i"
    using i run_len_le [of P s n] by (subst takeWhile_nth) (auto simp: run_len_def)
  ultimately show "P i" by simp
qed

lemma run_len_stops: "s + run_len P s n < n \<Longrightarrow> \<not> P (s + run_len P s n)"
  unfolding run_len_def using nth_length_takeWhile [of P "[s..<n]"] by simp

lemma run_len_eqI:
  assumes "s \<le> p" "p \<le> n" "\<And>i. s \<le> i \<Longrightarrow> i < p \<Longrightarrow> P i" "p < n \<Longrightarrow> \<not> P p"
  shows "run_len P s n = p - s"
proof (rule antisym)
  show "run_len P s n \<le> p - s"
  proof (rule ccontr)
    assume "\<not> run_len P s n \<le> p - s"
    then have lt: "p < s + run_len P s n" using assms(1) by linarith
    then have "P p" using assms(1) by (rule run_len_holds)
    moreover have "p < n" using lt run_len_le [of P s n] assms(1,2) by linarith
    ultimately show False using assms(4) by blast
  qed
  show "p - s \<le> run_len P s n"
  proof (rule ccontr)
    assume "\<not> p - s \<le> run_len P s n"
    then have "s + run_len P s n < p" by linarith
    then show False using run_len_stops [of s P n] assms(2,3) by auto
  qed
qed

lemma run_len_ge:
  assumes "s + m \<le> n" "\<And>i. s \<le> i \<Longrightarrow> i < s + m \<Longrightarrow> P i"
  shows "m \<le> run_len P s n"
proof (rule ccontr)
  assume "\<not> m \<le> run_len P s n"
  then have "s + run_len P s n < s + m" by simp
  then show False using run_len_stops [of s P n] assms by auto
qed

section \<open>The run scans are exact\<close>
lemma BitScanForward:
  assumes "v \<noteq> 0"
  obtains t where "BitScanForward v = of_nat t" "t < 32" "bit v t" "\<And>j. j < t \<Longrightarrow> \<not> bit v j"
proof -
  obtain j where j: "bit v j" using assms by (auto simp: bit_eq_iff)
  then have j32: "j < 32" using bit_imp_le_length [of v j] by simp
  let ?t = "run_len (\<lambda>i. \<not> bit v i) 0 32"
  have "?t \<le> j" using run_len_holds [of j 0 "\<lambda>i. \<not> bit v i" 32] j by (cases "?t \<le> j") auto
  then have t: "?t < 32" using j32 by linarith
  show thesis
  proof
    show "BitScanForward v = of_nat ?t" by (simp add: BitScanForward_def run_len_def)
    show "?t < 32" by (rule t)
    show "bit v ?t" using run_len_stops [of 0 "\<lambda>i. \<not> bit v i" 32] t by simp
    show "\<And>j. j < ?t \<Longrightarrow> \<not> bit v j" using run_len_holds [of _ 0 "\<lambda>i. \<not> bit v i" 32] by simp
  qed
qed

lemma skip_inv_none:
  assumes "skip_inv f xs start 0 b" "start \<le> i" "i < 32 * b"
  shows "\<not> scan_bit f xs i"
proof (cases "i < 32 * (b - 1)")
  case True
  then show ?thesis using assms by (auto simp: skip_inv_def)
next
  case False
  then obtain j where "i = 32 * (b - 1) + j" using le_Suc_ex linorder_not_less by blast
  moreover from this assms(1,3) have "j < 32" by (cases b) (auto simp: skip_inv_def)
  ultimately show ?thesis using assms(1,2) by (auto simp: skip_inv_def)
qed

lemma skip_inv_step:
  assumes "skip_inv f xs start 0 b" "start \<le> 32 * b"
  shows "skip_inv f xs start (f (xs ! b)) (Suc b)"
  using assms skip_inv_none [OF assms(1)] by (auto simp: skip_inv_def scan_bit_def)

lemma skip_words_unfold:
  "skip_words f xs v b m =
     (if v = 0 \<and> b < m then do { w \<leftarrow> rd xs b; skip_words f xs (f w) (Suc b) m } else Some (v, b))"
  by (subst skip_words.simps) simp

lemma skip_words_inv:
  assumes "skip_inv f xs start v b" "start \<le> 32 * b" "m \<le> length xs"
  shows "\<exists>v' b'. skip_words f xs v b m = Some (v', b') \<and> skip_inv f xs start v' b' \<and>
                b' \<le> max b m \<and> (v' = 0 \<longrightarrow> m \<le> b')"
  using assms(1,2)
proof (induction "m - b" arbitrary: v b)
  case 0
  then have "skip_words f xs v b m = Some (v, b)" by (simp add: skip_words_unfold)
  then show ?case using 0 by auto
next
  case (Suc n)
  show ?case
  proof (cases "v = 0")
    case True
    have "b < m" using Suc.hyps(2) by simp
    then have "skip_words f xs v b m = skip_words f xs (f (xs ! b)) (Suc b) m"
      using True assms(3) by (subst skip_words_unfold) simp
    moreover have "skip_inv f xs start (f (xs ! b)) (Suc b)"
      using Suc.prems True by (intro skip_inv_step) auto
    moreover have "max (Suc b) m = max b m" using \<open>b < m\<close> by simp
    ultimately show ?thesis
      using Suc.hyps(1) [of "Suc b" "f (xs ! b)"] Suc.hyps(2) Suc.prems(2) by simp
  next
    case False
    then have "skip_words f xs v b m = Some (v, b)" by (subst skip_words_unfold) simp
    then show ?thesis using Suc.prems False by auto
  qed
qed

lemma skip_inv_first:
  assumes "skip_inv f xs start v b" "v \<noteq> 0"
  obtains t where "BitScanForward v = of_nat t" "t < 32" "start \<le> 32 * (b - 1) + t"
    "scan_bit f xs (32 * (b - 1) + t)"
    "\<And>i. start \<le> i \<Longrightarrow> i < 32 * (b - 1) + t \<Longrightarrow> \<not> scan_bit f xs i"
proof -
  obtain t where t: "BitScanForward v = of_nat t" "t < 32" "bit v t" "\<And>j. j < t \<Longrightarrow> \<not> bit v j"
    using BitScanForward [OF assms(2)] by blast
  have "\<not> scan_bit f xs i" if "start \<le> i" "i < 32 * (b - 1) + t" for i
  proof (cases "i < 32 * (b - 1)")
    case True
    then show ?thesis using assms(1) that by (auto simp: skip_inv_def)
  next
    case False
    then obtain j where j: "i = 32 * (b - 1) + j" using le_Suc_ex linorder_not_less by blast
    then show ?thesis using assms(1) that t(2) t(4) [of j] by (auto simp: skip_inv_def)
  qed
  then show thesis using that t assms(1) by (auto simp: skip_inv_def)
qed

lemma run_scan_clear: "RtlpGetLengthOfRunClear = run_scan (\<lambda>w. w)"
  by (intro ext) (simp add: RtlpGetLengthOfRunClear_def run_scan_def)

lemma run_scan_set: "RtlpGetLengthOfRunSet = run_scan (\<lambda>w. NOT w)"
  by (intro ext) (simp add: RtlpGetLengthOfRunSet_def run_scan_def)


lemma skip_inv_start:
  assumes "p = s mod 32"
  shows "skip_inv f xs s (push_bit p (drop_bit p (f (xs ! (s div 32))))) (s div 32 + 1)"
proof -
  have s: "s = 32 * (s div 32) + p" using assms by simp
  have "p + (j - p) = j" if "p \<le> j" for j :: nat using that by simp
  then show ?thesis using s
    by (auto simp: skip_inv_def scan_bit_def bit_push_bit_iff bit_drop_bit_eq)
qed

lemma if_less_min: "(if a < b then a else b) = min a (b :: 'a::linorder)"
  by (auto simp: min_def)

lemma run_scan_correct:
  fixes f :: "u32 \<Rightarrow> u32"
  assumes wf: "bitmap_wf h" and s: "s < SizeOfBitMap h"
  defines "R \<equiv> run_len (\<lambda>i. \<not> scan_bit f (BmBuffer h) i) (unat s) (unat (SizeOfBitMap h))"
  shows "\<exists>n. run_scan f h s k = Some n \<and> unat n \<le> R \<and> min (unat k) R \<le> unat n"
proof -
  let ?xs = "BmBuffer h" and ?size = "unat (SizeOfBitMap h)" and ?s = "unat s"
  let ?P = "\<lambda>i. \<not> scan_bit f ?xs i"
  have slt: "?s < ?size" using s by (simp add: word_less_nat_alt)
  have wf': "?size \<le> 32 * length ?xs" "?size + 31 < 2 ^ 32" using wf by (auto simp: bitmap_wf_def)
  define M where "M = min k (SizeOfBitMap h - s)"
  have diff: "unat (SizeOfBitMap h - s) = ?size - ?s" using s by (intro unat_sub_le) simp
  have M: "unat M = min (unat k) (?size - ?s)" by (simp add: M_def unat_min diff)
  define BitPos where "BitPos = s AND 31"
  have BP: "unat BitPos = ?s mod 32" by (simp add: BitPos_def u32_simps)
  define B where "B = ?s div 32"
  have B: "unat (s div 32) = B" by (simp add: B_def u32_simps)
  define MB where "MB = B + unat ((BitPos + M + 32 - 1) div 32)"
  have sB: "?s = 32 * B + ?s mod 32" by (simp add: B_def)
  have sum: "unat (BitPos + M + 32 - 1) = ?s mod 32 + unat M + 31"
  proof -
    have e: "BitPos + M + 32 - 1 = of_nat (?s mod 32 + unat M + 31)"
      by (simp add: BP [symmetric])
    have "?s mod 32 + unat M + 31 < 2 ^ 32"
      using M wf' slt sB by linarith
    then show ?thesis unfolding e by (intro unat_of_nat_lt) simp
  qed
  have MBw: "B + unat ((31 + (BitPos + M)) div 32) = MB" by (simp add: MB_def)
  have MB: "MB = B + (?s mod 32 + unat M + 31) div 32" by (simp only: MB_def unat_div_32 sum)
  have MBlen: "MB \<le> length ?xs" using MB M wf' slt sB by linarith
  have Blt: "B < length ?xs" using wf' slt sB by linarith
  have MBhi: "32 * MB < 2 ^ 32" using MB M wf' slt sB by linarith
  have MBlo: "?s + unat M \<le> 32 * MB" using MB sB by linarith
  define v where "v = push_bit (?s mod 32) (drop_bit (?s mod 32) (f (?xs ! B)))"
  have inv: "skip_inv f ?xs ?s v (B + 1)" unfolding v_def B_def by (rule skip_inv_start) simp
  obtain v' b' where w: "skip_words f ?xs v (B + 1) MB = Some (v', b')"
      "skip_inv f ?xs ?s v' b'" "b' \<le> max (B + 1) MB" "v' = 0 \<longrightarrow> MB \<le> b'"
    using skip_words_inv [OF inv _ MBlen] sB by fastforce
  have nle: "\<not> SizeOfBitMap h \<le> s" using s by (simp only: not_le)
  have scan: "run_scan f h s k = (if v' = 0 then Some M else
      let Length = of_nat b' * 32 - s + (BitScanForward v' - 32)
      in Some (if SizeOfBitMap h - s < Length then SizeOfBitMap h - s else Length))"
    using nle Blt w(1) by (simp add: run_scan_def Let_def B BP M_def [symmetric]
        BitPos_def [symmetric] MBw v_def [symmetric])
  show ?thesis
  proof (cases "v' = 0")
    case True
    then have "unat M \<le> R"
      unfolding R_def using w(2,4) M slt MBlo by (intro run_len_ge skip_inv_none) auto
    moreover have "R \<le> ?size - ?s" unfolding R_def by (rule run_len_le)
    ultimately show ?thesis using True M by (simp add: scan)
  next
    case False
    obtain t where t: "BitScanForward v' = of_nat t" "t < 32" "?s \<le> 32 * (b' - 1) + t"
        "scan_bit f ?xs (32 * (b' - 1) + t)"
        "\<And>i. ?s \<le> i \<Longrightarrow> i < 32 * (b' - 1) + t \<Longrightarrow> \<not> scan_bit f ?xs i"
      using skip_inv_first [OF w(2) False] by blast
    define p where "p = 32 * (b' - 1) + t"
    have b': "0 < b'" using w(2) by (simp add: skip_inv_def)
    have "32 * B \<le> ?s" by (simp add: B_def)
    then have "32 * (B + 1) < 2 ^ 32" using wf' slt by simp
    then have "32 * b' < 2 ^ 32" using w(3) MBhi by (simp add: max_def split: if_splits)
    then have p: "p < 2 ^ 32" using t(2) b' by (cases b') (auto simp: p_def)
    have "of_nat b' * 32 - s + (BitScanForward v' - 32) = (of_nat (p - ?s) :: u32)"
      using t(3) b' by (simp add: p_def t(1) of_nat_diff algebra_simps)
    moreover have "unat (of_nat (p - ?s) :: u32) = p - ?s" using p by (intro unat_of_nat_lt) simp
    ultimately have Len: "unat (of_nat b' * 32 - s + (BitScanForward v' - 32)) = p - ?s" by simp
    have R: "R = min (?size - ?s) (p - ?s)"
    proof (cases "p \<le> ?size")
      case True
      then have "R = p - ?s" unfolding R_def
        using t p_def by (intro run_len_eqI) auto
      then show ?thesis using True by simp
    next
      case False
      then have "R = ?size - ?s" unfolding R_def
        using t slt p_def by (intro run_len_eqI) auto
      then show ?thesis using False by simp
    qed
    have "run_scan f h s k = Some (min (SizeOfBitMap h - s) (of_nat b' * 32 - s + (BitScanForward v' - 32)))"
      using False by (simp only: scan Let_def if_False if_less_min)
    moreover have "unat (min (SizeOfBitMap h - s) (of_nat b' * 32 - s + (BitScanForward v' - 32))) = R"
      by (simp only: unat_min Len diff R)
    ultimately show ?thesis by simp
  qed
qed

lemma scan_bit_id: "scan_bit (\<lambda>w. w) = bm_bit"
  by (intro ext) (simp add: scan_bit_def bm_bit_def)

lemma scan_bit_not: "scan_bit (\<lambda>w. NOT w) xs i = (\<not> bm_bit xs i)"
  by (simp add: scan_bit_def bm_bit_def bit_not_iff)

lemma run_len_empty: "n \<le> s \<Longrightarrow> run_len P s n = 0"
  by (simp add: run_len_def)

lemma RunClear_correct:
  assumes "bitmap_wf h"
  shows "\<exists>n. RtlpGetLengthOfRunClear h s k = Some n \<and> unat n \<le> clear_run h (unat s) \<and>
             min (unat k) (clear_run h (unat s)) \<le> unat n"
proof (cases "s < SizeOfBitMap h")
  case True
  then show ?thesis
    using run_scan_correct [OF assms, of s "\<lambda>w. w" k]
    by (simp add: run_scan_clear scan_bit_id clear_run_def)
next
  case False
  then show ?thesis
    by (simp add: RtlpGetLengthOfRunClear_def clear_run_def run_len_empty word_le_nat_alt not_less)
qed

lemma RunSet_correct:
  assumes "bitmap_wf h"
  shows "\<exists>n. RtlpGetLengthOfRunSet h s k = Some n \<and> unat n \<le> set_run h (unat s) \<and>
             min (unat k) (set_run h (unat s)) \<le> unat n"
proof (cases "s < SizeOfBitMap h")
  case True
  then show ?thesis
    using run_scan_correct [OF assms, of s "\<lambda>w. NOT w" k]
    by (simp add: run_scan_set scan_bit_not set_run_def)
next
  case False
  then show ?thesis
    by (simp add: RtlpGetLengthOfRunSet_def set_run_def run_len_empty word_le_nat_alt not_less)
qed

lemma unat_MAXINDEX: "unat MAXINDEX = 4294967295"
  by (simp add: MAXINDEX_def)

lemma run_le_size: "clear_run h s \<le> unat (SizeOfBitMap h) - s" "set_run h s \<le> unat (SizeOfBitMap h) - s"
  by (simp_all add: clear_run_def set_run_def run_len_le)

lemma run_lt: "clear_run h s \<le> 4294967295" "set_run h s \<le> 4294967295"
  using run_le_size [of h s] unat_lt_u32 [of "SizeOfBitMap h"] by linarith+

lemma RunClear_exact:
  assumes "bitmap_wf h"
  shows "\<exists>n. RtlpGetLengthOfRunClear h s MAXINDEX = Some n \<and> unat n = clear_run h (unat s)"
  using RunClear_correct [OF assms, of s MAXINDEX] run_lt [of h "unat s"] by (auto simp: unat_MAXINDEX)

lemma RunSet_exact:
  assumes "bitmap_wf h"
  shows "\<exists>n. RtlpGetLengthOfRunSet h s MAXINDEX = Some n \<and> unat n = set_run h (unat s)"
  using RunSet_correct [OF assms, of s MAXINDEX] run_lt [of h "unat s"] by (auto simp: unat_MAXINDEX)

section \<open>The range updates change exactly their range\<close>

lemma upd_range_trans:
  "upd_range v xs ys a n \<Longrightarrow> upd_range v ys zs (a + n) m \<Longrightarrow> upd_range v xs zs a (n + m)"
  by (auto simp: upd_range_def)

lemma upd_range_empty: "upd_range v xs xs a 0"
  by (auto simp: upd_range_def)

lemma upd_range_word:
  assumes k: "k < length xs" and m: "\<And>j. j < 32 \<Longrightarrow> bit w j = (if a \<le> j \<and> j < a + n then v else bit (xs ! k) j)"
    and an: "a + n \<le> 32"
  shows "upd_range v xs (xs[k := w]) (32 * k + a) n"
proof -
  have "bm_bit (xs[k := w]) i = (if 32 * k + a \<le> i \<and> i < 32 * k + a + n then v else bm_bit xs i)"
    if i: "i < 32 * length xs" for i
  proof (cases "i div 32 = k")
    case True
    then have "i = 32 * k + i mod 32" by auto
    then have "(32 * k + a \<le> i \<and> i < 32 * k + a + n) = (a \<le> i mod 32 \<and> i mod 32 < a + n)" by linarith
    then show ?thesis using True k m [of "i mod 32"] by (simp add: bm_bit_def)
  next
    case False
    then have "\<not> (32 * k + a \<le> i \<and> i < 32 * k + a + n)" using an by auto
    then show ?thesis using False by (auto simp: bm_bit_def)
  qed
  then show ?thesis by (simp add: upd_range_def)
qed

lemma and_word_range:
  assumes "k < length xs" "\<And>j. j < 32 \<Longrightarrow> bit m j = (\<not> (a \<le> j \<and> j < a + n))" "a + n \<le> 32"
  shows "\<exists>ys. and_word xs k m = Some ys \<and> upd_range False xs ys (32 * k + a) n"
proof -
  have "upd_range False xs (xs[k := xs ! k AND m]) (32 * k + a) n"
    by (rule upd_range_word) (use assms in \<open>auto simp: bit_and_iff\<close>)
  then show ?thesis using assms(1) by (simp add: and_word_def)
qed

lemma or_word_range:
  assumes "k < length xs" "\<And>j. j < 32 \<Longrightarrow> bit m j = (a \<le> j \<and> j < a + n)" "a + n \<le> 32"
  shows "\<exists>ys. or_word xs k m = Some ys \<and> upd_range True xs ys (32 * k + a) n"
proof -
  have "upd_range True xs (xs[k := xs ! k OR m]) (32 * k + a) n"
    by (rule upd_range_word) (use assms in \<open>auto simp: bit_or_iff\<close>)
  then show ?thesis using assms(1) by (simp add: or_word_def)
qed

lemma bit_MAXINDEX: "bit MAXINDEX j \<longleftrightarrow> j < 32"
proof -
  have m: "MAXINDEX = - 1" by (simp add: MAXINDEX_def)
  show ?thesis unfolding m by (simp add: bit_minus_1_iff)
qed

lemma bit_high_mask: "j < 32 \<Longrightarrow> bit (push_bit k MAXINDEX) j \<longleftrightarrow> k \<le> j"
  by (auto simp: bit_push_bit_iff bit_MAXINDEX)

lemma bit_mid_mask:
  "j < 32 \<Longrightarrow> k + n \<le> 32 \<Longrightarrow>
   bit (drop_bit (32 - k - n) (push_bit (32 - k - n) (push_bit k MAXINDEX))) j \<longleftrightarrow> k \<le> j \<and> j < k + n"
  by (auto simp: bit_push_bit_iff bit_drop_bit_eq bit_MAXINDEX)

lemma fill_range:
  assumes "p + unat N div 32 \<le> length xs"
  shows "\<exists>ys. RtlFillMemoryUlong xs (Some p) (drop_bit 3 N) (if v then MAXINDEX else 0) = Some ys \<and>
              upd_range v xs ys (32 * p) (32 * (unat N div 32))"
proof -
  let ?c = "if v then MAXINDEX else 0"
  have len: "unat (drop_bit 3 N) = unat N div 8" by (simp add: unat_drop_bit)
  have w: "unat (drop_bit 3 N div 4) = unat N div 32"
    by (simp add: unat_div_distrib len div_mult2_eq [symmetric])
  show ?thesis
  proof (cases "drop_bit 3 N < 4")
    case True
    then have "unat N div 32 = 0" using len by (simp add: word_less_nat_alt)
    then show ?thesis using True by (simp add: RtlFillMemoryUlong_def upd_range_empty)
  next
    case False
    obtain ys where ys: "fill_loop xs p (unat N div 32) ?c = Some ys"
      using fill_loop_Some [OF assms] by blast
    have "bm_bit ys i = (if 32 * p \<le> i \<and> i < 32 * p + 32 * (unat N div 32) then v else bm_bit xs i)"
      if i: "i < 32 * length xs" for i
    proof -
      have "ys ! (i div 32) = (if p \<le> i div 32 \<and> i div 32 < p + unat N div 32 then ?c else xs ! (i div 32))"
        using i by (intro fill_loop_nth [OF assms ys]) (simp add: less_mult_imp_div_less mult.commute)
      moreover have "(p \<le> i div 32 \<and> i div 32 < p + unat N div 32) =
          (32 * p \<le> i \<and> i < 32 * p + 32 * (unat N div 32))" by auto
      ultimately show ?thesis by (auto simp: bm_bit_def bit_MAXINDEX)
    qed
    then show ?thesis using False ys length_fill_loop [OF ys]
      by (simp add: RtlFillMemoryUlong_def w upd_range_def)
  qed
qed


lemma RtlSetBits_range_op:
  "RtlSetBits h s N = with_buffer h (range_op or_word (\<lambda>m. m) True (BmBuffer h) s N)"
  by (simp add: RtlSetBits_def range_op_def Let_def)

lemma RtlClearBits_range_op:
  "RtlClearBits h s N = with_buffer h (range_op and_word (\<lambda>m. NOT m) False (BmBuffer h) s N)"
  by (simp add: RtlClearBits_def range_op_def Let_def cong: if_cong)

lemma range_op_correct:
  assumes put: "\<And>xs k m a n. k < length xs \<Longrightarrow> (\<And>j. j < 32 \<Longrightarrow> bit m j = (a \<le> j \<and> j < a + n)) \<Longrightarrow> a + n \<le> 32 \<Longrightarrow>
      \<exists>ys. put xs k (neg m) = Some ys \<and> upd_range v xs ys (32 * k + a) n"
    and fits: "unat s + unat N \<le> 32 * length xs"
  shows "\<exists>ys. range_op put neg v xs s N = Some ys \<and> upd_range v xs ys (unat s) (unat N)"
proof -
  have s: "unat s = 32 * (unat s div 32) + unat s mod 32" by simp
  have tail: "\<exists>zs. (do {
            xs \<leftarrow> RtlFillMemoryUlong ys (Some k) (drop_bit 3 M) (if v then MAXINDEX else 0);
            if M AND 31 \<noteq> 0
            then put xs (k + unat (M div 32)) (neg (NOT (push_bit (unat (M AND 31)) MAXINDEX)))
            else Some xs }) = Some zs \<and> upd_range v ys zs (32 * k) (unat M)"
    if k: "32 * k + unat M \<le> 32 * length ys" for ys k M
  proof -
    have M: "unat M = 32 * (unat M div 32) + unat M mod 32" by simp
    have "k + unat M div 32 \<le> length ys" using k by linarith
    then obtain ws where ws: "RtlFillMemoryUlong ys (Some k) (drop_bit 3 M) (if v then MAXINDEX else 0) = Some ws"
      "upd_range v ys ws (32 * k) (32 * (unat M div 32))" using fill_range [of k M ys v] by blast
    show ?thesis
    proof (cases "M AND 31 = 0")
      case True
      then have "unat M mod 32 = 0" using unat_and_31 [of M] by simp
      then have "32 * (unat M div 32) = unat M" using M by linarith
      then show ?thesis using ws True by simp
    next
      case False
      then have "unat M mod 32 \<noteq> 0" using unat_and_31 [of M] by (simp add: word_unat_eq_iff)
      then have lt: "k + unat M div 32 < length ws" using k M ws(2) unfolding upd_range_def by linarith
      obtain zs where zs: "put ws (k + unat M div 32) (neg (NOT (push_bit (unat M mod 32) MAXINDEX))) = Some zs"
        "upd_range v ws zs (32 * (k + unat M div 32) + 0) (unat M mod 32)"
        using put [OF lt, of "NOT (push_bit (unat M mod 32) MAXINDEX)" 0 "unat M mod 32"]
        by (auto simp: bit_not_iff bit_high_mask not_le)
      have "upd_range v ys zs (32 * k) (32 * (unat M div 32) + unat M mod 32)"
        using ws(2) zs(2) by (intro upd_range_trans) (simp_all add: algebra_simps)
      then show ?thesis using ws zs False by (simp add: u32_simps)
    qed
  qed
  show ?thesis
  proof (cases "s AND 31 = 0")
    case True
    then have "unat s mod 32 = 0" using unat_and_31 [of s] by simp
    then have e: "32 * unat (s div 32) = unat s" using s by (simp add: u32_simps)
    show ?thesis using tail [of "unat (s div 32)" N xs] fits True
      by (simp add: range_op_def e)
  next
    case False
    define b where "b = unat s mod 32"
    have b: "0 < b" "b < 32" using False unat_and_31 [of s] by (auto simp: b_def word_unat_eq_iff)
    have ge: "s AND 31 \<le> 32" using b unat_and_31 [of s] by (simp add: word_le_nat_alt b_def)
    have bits: "unat (32 - (s AND 31)) = 32 - b"
      using unat_sub_le [OF ge] by (simp add: u32_simps b_def)
    define k where "k = unat s div 32"
    have k: "unat (s div 32) = k" "unat (s AND 31) = b" by (simp_all add: k_def b_def u32_simps)
    have sk: "unat s = 32 * k + b" by (simp add: k_def b_def)
    have klt: "k < length xs" using fits sk b by linarith
    show ?thesis
    proof (cases "N < 32 - (s AND 31)")
      case True
      then have N: "unat N < 32 - b" by (simp add: word_less_nat_alt bits)
      then have "unat (32 - (s AND 31) - N) = 32 - b - unat N"
        using True unat_sub_le [of N "32 - (s AND 31)"] by (simp add: bits)
      moreover have "\<exists>ys. put xs k (neg (drop_bit (32 - b - unat N) (push_bit (32 - b - unat N) (push_bit b MAXINDEX)))) = Some ys \<and>
          upd_range v xs ys (32 * k + b) (unat N)"
        using N b by (intro put klt bit_mid_mask) auto
      ultimately show ?thesis using True False by (simp add: range_op_def k sk)
    next
      case big: False
      then have N: "32 - b \<le> unat N" by (simp add: word_less_nat_alt bits not_less)
      then have rest: "unat (N - (32 - (s AND 31))) = unat N - (32 - b)"
        using big unat_sub_le [of "32 - (s AND 31)" N] by (simp add: bits not_less)
      obtain ys where ys: "put xs k (neg (push_bit b MAXINDEX)) = Some ys"
          "upd_range v xs ys (32 * k + b) (32 - b)"
        using put [OF klt, of "push_bit b MAXINDEX" b "32 - b"] b by (auto simp: bit_high_mask)
      have "length ys = length xs" using ys(2) by (simp add: upd_range_def)
      then have "32 * (k + 1) + unat (N - (32 - (s AND 31))) \<le> 32 * length ys"
        using fits N sk b unfolding rest by auto
      from tail [OF this] obtain zs where zs: "do {
            xs \<leftarrow> RtlFillMemoryUlong ys (Some (k + 1)) (drop_bit 3 (N - (32 - (s AND 31)))) (if v then MAXINDEX else 0);
            if (N - (32 - (s AND 31))) AND 31 \<noteq> 0
            then put xs (k + 1 + unat ((N - (32 - (s AND 31))) div 32))
               (neg (NOT (push_bit (unat ((N - (32 - (s AND 31))) AND 31)) MAXINDEX)))
            else Some xs } = Some zs"
         "upd_range v ys zs (32 * (k + 1)) (unat N - (32 - b))"
        unfolding rest by blast
      have e1: "32 * k + b + (32 - b) = 32 * (k + 1)" and e2: "32 - b + (unat N - (32 - b)) = unat N"
        using b N by auto
      have "upd_range v ys zs (32 * k + b + (32 - b)) (unat N - (32 - b))"
        unfolding e1 by (rule zs(2))
      from upd_range_trans [OF ys(2) this]
      have "upd_range v xs zs (unat s) (unat N)" unfolding e2 sk .
      moreover have "range_op put neg v xs s N = Some zs"
        using False big ys(1) zs(1) by (cases v) (simp_all add: range_op_def k Let_def cong: if_cong)
      ultimately show ?thesis by blast
    qed
  qed
qed

lemma RtlSetBits_correct:
  assumes "unat s + unat N \<le> 32 * length (BmBuffer h)"
  shows "\<exists>ys. RtlSetBits h s N = Some (h\<lparr>BmBuffer := ys\<rparr>) \<and> upd_range True (BmBuffer h) ys (unat s) (unat N)"
  using range_op_correct [of or_word "\<lambda>m. m" True s N "BmBuffer h"] or_word_range assms
  by (fastforce simp: RtlSetBits_range_op with_buffer_def)

lemma RtlClearBits_correct:
  assumes "unat s + unat N \<le> 32 * length (BmBuffer h)"
  shows "\<exists>ys. RtlClearBits h s N = Some (h\<lparr>BmBuffer := ys\<rparr>) \<and> upd_range False (BmBuffer h) ys (unat s) (unat N)"
proof -
  have "\<exists>ys. range_op and_word (\<lambda>m. NOT m) False (BmBuffer h) s N = Some ys \<and>
      upd_range False (BmBuffer h) ys (unat s) (unat N)"
    by (rule range_op_correct [OF _ assms]) (intro and_word_range; simp add: bit_not_iff)
  then show ?thesis by (auto simp: RtlClearBits_range_op with_buffer_def)
qed

end
