(* ===== verification/RtlBitmapSearch.thy ===== *)
theory RtlBitmapSearch
  imports RtlBitmap
begin

text \<open>
  The searches of \<open>sdk/lib/rtl/bitmap.c\<close>. They are clients of the two run scans, so
  their lemmas are proved once against the interface \<open>run_scanner\<close>: a scan that
  measures the run of a predicate and one that measures the run of its complement.
  The interface is interpreted twice on the scans of \<open>RtlBitmap\<close>, once for clear and
  once for set bits.
\<close>

section \<open>Windows and the interface of the scans\<close>

definition window :: "(nat \<Rightarrow> bool) \<Rightarrow> nat \<Rightarrow> nat \<Rightarrow> nat \<Rightarrow> bool" where
  "window P sz p n \<longleftrightarrow> p + n \<le> sz \<and> (\<forall>i. p \<le> i \<and> i < p + n \<longrightarrow> P i)"

lemma window_fits: "window P sz p n \<Longrightarrow> p + n \<le> sz"
  by (simp add: window_def)

lemma window_run_len: "0 < n \<Longrightarrow> window P sz p n \<longleftrightarrow> n \<le> run_len P p sz"
proof
  assume n: "0 < n" "n \<le> run_len P p sz"
  then show "window P sz p n"
    using run_len_le [of P p sz] run_len_holds [of _ p P sz] by (auto simp: window_def)
qed (auto simp: window_def intro: run_len_ge)

text \<open>No window starts inside a run that is shorter than it.\<close>

lemma window_beyond_run:
  assumes "window P sz p n" "run_len P c sz < n" "c \<le> p"
  shows "c + run_len P c sz \<le> p"
proof (rule ccontr)
  let ?e = "c + run_len P c sz"
  assume "\<not> ?e \<le> p"
  then have "p \<le> ?e" "?e < p + n" using assms(2,3) by linarith+
  moreover have "?e < sz" using assms(1) \<open>?e < p + n\<close> by (simp add: window_def)
  ultimately show False using assms(1) run_len_stops [of c P sz] by (auto simp: window_def)
qed

lemma window_beyond_gap:
  assumes "window P sz p n" "0 < n" "c \<le> p"
  shows "c + run_len (\<lambda>i. \<not> P i) c sz \<le> p"
proof (rule ccontr)
  assume "\<not> ?thesis"
  then have "\<not> P p" using run_len_holds [of p c "\<lambda>i. \<not> P i" sz] assms(3) by simp
  then show False using assms(1,2) by (auto simp: window_def)
qed

lemma run_len_inside:
  assumes "a \<le> p" "p < a + run_len P a sz"
  shows "run_len P p sz \<le> run_len P a sz"
proof -
  have fits: "a + run_len P a sz \<le> sz" using run_len_le [of P a sz] assms by linarith
  have "run_len P p sz = a + run_len P a sz - p"
    using assms fits run_len_holds [of _ a P sz] run_len_stops [of a P sz] by (intro run_len_eqI) auto
  then show ?thesis using assms by simp
qed

lemma run_len_in_gap:
  assumes "c \<le> p" "p < c + run_len (\<lambda>i. \<not> P i) c sz"
  shows "run_len P p sz = 0"
  using run_len_holds [OF assms(2,1)] by (subst run_len_step) simp

locale run_scanner =
  fixes wf :: "'h \<Rightarrow> bool"
    and skip run :: "'h \<Rightarrow> u32 \<Rightarrow> u32 \<Rightarrow> u32 option"
    and P :: "'h \<Rightarrow> nat \<Rightarrow> bool" and sz :: "'h \<Rightarrow> nat"
  assumes skip_exact: "wf h \<Longrightarrow> \<exists>n. skip h s MAXINDEX = Some n \<and>
                         unat n = run_len (\<lambda>i. \<not> P h i) (unat s) (sz h)"
    and run_bounds: "wf h \<Longrightarrow> \<exists>n. run h s k = Some n \<and> unat n \<le> run_len (P h) (unat s) (sz h) \<and>
                         min (unat k) (run_len (P h) (unat s) (sz h)) \<le> unat n"
    and sz_bound: "wf h \<Longrightarrow> sz h < 2 ^ 32"
begin

lemma run_exact:
  assumes wf: "wf h"
  shows "\<exists>n. run h s MAXINDEX = Some n \<and> unat n = run_len (P h) (unat s) (sz h)"
proof -
  have "run_len (P h) (unat s) (sz h) \<le> unat MAXINDEX"
    using run_len_le [of "P h" "unat s" "sz h"] sz_bound [OF wf] by (simp add: unat_MAXINDEX)
  then show ?thesis using run_bounds [OF wf, of s MAXINDEX] by (auto simp: min_absorb2)
qed

text \<open>One round of a search: the gap, then the run, without overflow.\<close>

lemma round:
  assumes wf: "wf h" and c: "unat c \<le> sz h"
  obtains s l where "skip h c MAXINDEX = Some s" "run h (c + s) k = Some l"
    "unat s = run_len (\<lambda>i. \<not> P h i) (unat c) (sz h)" "unat (c + s) = unat c + unat s"
    "unat (c + s + l) = unat c + unat s + unat l" "unat c + unat s + unat l \<le> sz h"
    "unat l \<le> run_len (P h) (unat (c + s)) (sz h)" "min (unat k) (run_len (P h) (unat (c + s)) (sz h)) \<le> unat l"
    "unat c < sz h \<Longrightarrow> 0 < k \<Longrightarrow> 0 < unat s + unat l"
proof -
  obtain s where s: "skip h c MAXINDEX = Some s" "unat s = run_len (\<lambda>i. \<not> P h i) (unat c) (sz h)"
    using skip_exact [OF wf] by blast
  have cs: "unat c + unat s \<le> sz h"
    using s(2) run_len_le [of "\<lambda>i. \<not> P h i" "unat c" "sz h"] c by simp
  then have ucs: "unat (c + s) = unat c + unat s"
    using sz_bound [OF wf] by (intro unat_add_lt) simp
  obtain l where l: "run h (c + s) k = Some l" "unat l \<le> run_len (P h) (unat (c + s)) (sz h)"
      "min (unat k) (run_len (P h) (unat (c + s)) (sz h)) \<le> unat l"
    using run_bounds [OF wf] by blast
  have csl: "unat c + unat s + unat l \<le> sz h"
    using l(2) run_len_le [of "P h" "unat (c + s)" "sz h"] cs ucs by simp
  then have "unat (c + s + l) = unat c + unat s + unat l"
    using sz_bound [OF wf] ucs unat_add_lt [of "c + s" l] by simp
  moreover have "0 < unat s + unat l" if "unat c < sz h" "0 < k"
  proof (cases "P h (unat c)")
    case True
    then have "s = 0" using s(2) by (simp add: run_len_step unsigned_eq_0_iff)
    then have "0 < run_len (P h) (unat (c + s)) (sz h)" using True that by (simp add: run_len_step)
    moreover have "0 < unat k" using that(2) by (simp add: word_less_nat_alt)
    ultimately show ?thesis using l(3) by linarith
  next
    case False
    then show ?thesis using s(2) that by (simp add: run_len_step)
  qed
  ultimately show thesis using that s l ucs csl by blast
qed

lemma find_loop_correct:
  assumes wf: "wf h" and within: "\<forall>a b. within a b = win (unat a) (unat b)"
    and bound: "\<forall>a b. win a b \<longrightarrow> a \<le> b" and anti: "\<forall>a a' b. win a b \<longrightarrow> a' \<le> a \<longrightarrow> win a' b"
    and N: "0 < unat N" and small: "sz h + unat N < 2 ^ 32" and M: "unat M \<le> sz h"
    and c: "unat c \<le> sz h"
  shows "\<exists>r. find_loop within (skip h) (run h) N M c = Some r \<and>
    (case r of Some p \<Rightarrow> unat c \<le> unat p \<and> window (P h) (sz h) (unat p) (unat N)
     | None \<Rightarrow> \<forall>p\<ge>unat c. win (p + unat N) (unat M) \<longrightarrow> \<not> window (P h) (sz h) p (unat N))"
  using c
proof (induction "sz h - unat c" arbitrary: c rule: less_induct)
  case less
  have cN: "unat (c + N) = unat c + unat N"
    using less.prems small by (intro unat_add_lt) simp
  show ?case
  proof (cases "within (c + N) M")
    case False
    then have "\<not> win (unat c + unat N) (unat M)" by (simp add: within cN)
    then have "\<forall>p\<ge>unat c. \<not> win (p + unat N) (unat M)" by (meson add_le_mono1 anti)
    then show ?thesis using False by (subst find_loop.simps) auto
  next
    case True
    then have lt: "unat c < sz h" using bound within cN N M by fastforce
    obtain s l where sl: "skip h c MAXINDEX = Some s" "run h (c + s) N = Some l"
      "unat s = run_len (\<lambda>i. \<not> P h i) (unat c) (sz h)" "unat (c + s) = unat c + unat s"
      "unat (c + s + l) = unat c + unat s + unat l" "unat c + unat s + unat l \<le> sz h"
      "unat l \<le> run_len (P h) (unat (c + s)) (sz h)"
      "min (unat N) (run_len (P h) (unat (c + s)) (sz h)) \<le> unat l"
      "unat c < sz h \<Longrightarrow> 0 < N \<Longrightarrow> 0 < unat s + unat l"
      using round [OF wf less.prems, of N] by blast
    have pos: "0 < unat s + unat l" using sl(9) lt N by (simp add: word_less_nat_alt)
    have loop: "find_loop within (skip h) (run h) N M c =
        (if N \<le> l then Some (Some (c + s)) else find_loop within (skip h) (run h) N M (c + s + l))"
      by (subst find_loop.simps) (simp add: True sl(1,2))
    show ?thesis
    proof (cases "N \<le> l")
      case True
      then have "window (P h) (sz h) (unat (c + s)) (unat N)"
        using sl(7) N by (simp add: window_run_len word_le_nat_alt)
      then show ?thesis using True by (simp add: loop sl(4))
    next
      case False
      then have run: "run_len (P h) (unat (c + s)) (sz h) < unat N" "unat l = run_len (P h) (unat (c + s)) (sz h)"
        using sl(7,8) by (auto simp: word_le_nat_alt min_def split: if_splits)
      have smaller: "sz h - unat (c + s + l) < sz h - unat c" and le: "unat (c + s + l) \<le> sz h"
        using sl(5,6) pos lt by linarith+
      obtain r where r: "find_loop within (skip h) (run h) N M (c + s + l) = Some r"
        "case r of Some p \<Rightarrow> unat (c + s + l) \<le> unat p \<and> window (P h) (sz h) (unat p) (unat N)
         | None \<Rightarrow> \<forall>p\<ge>unat (c + s + l). win (p + unat N) (unat M) \<longrightarrow> \<not> window (P h) (sz h) p (unat N)"
        using less.hyps [OF smaller le] by blast
      have "unat (c + s + l) \<le> p" if "unat c \<le> p" "window (P h) (sz h) p (unat N)" for p
        using window_beyond_run [OF that(2) run(1)] window_beyond_gap [OF that(2) N that(1)]
          sl(3,4,5) run(2) by simp
      note beyond = this
      show ?thesis
      proof (cases r)
        case None
        then have "\<forall>p\<ge>unat c. win (p + unat N) (unat M) \<longrightarrow> \<not> window (P h) (sz h) p (unat N)"
          using r(2) beyond by fastforce
        then show ?thesis using r(1) None False by (simp add: loop)
      next
        case (Some p)
        then have "unat c \<le> unat p" using r(2) sl(5) by simp
        then show ?thesis using r Some False by (simp add: loop)
      qed
    qed
  qed
qed


text \<open>Both passes of a search: from the hint to the end, then from the start up to the
  hint.\<close>

lemma two_passes:
  assumes wf: "wf h" and within: "\<forall>a b. within a b = win (unat a) (unat b)"
    and bound: "\<forall>a b. win a b \<longrightarrow> a \<le> b" and anti: "\<forall>a a' b. win a b \<longrightarrow> a' \<le> a \<longrightarrow> win a' b"
    and N: "0 < unat N" and small: "sz h + unat N < 2 ^ 32" and S: "unat S = sz h" and H: "unat H \<le> sz h"
    and cover: "\<And>p. win (p + unat N) (sz h) \<Longrightarrow> p < unat H \<Longrightarrow> win (p + unat N) (min (unat H + unat N) (sz h))"
  shows "\<exists>q. (do {
        r \<leftarrow> find_loop within (skip h) (run h) N S H;
        (case r of Some p \<Rightarrow> Some p
         | None \<Rightarrow>
           if H \<noteq> 0 then do {
             r \<leftarrow> find_loop within (skip h) (run h) N (min (H + N) S) 0;
             Some (case r of Some p \<Rightarrow> p | None \<Rightarrow> MAXINDEX) }
           else Some MAXINDEX) }) = Some q \<and>
      (if q = MAXINDEX then \<forall>p. win (p + unat N) (sz h) \<longrightarrow> \<not> window (P h) (sz h) p (unat N)
       else window (P h) (sz h) (unat q) (unat N))"
proof -
  note loop = find_loop_correct [where win = win, OF wf within bound anti N small]
  have HN: "unat (H + N) = unat H + unat N" using H small by (intro unat_add_lt) simp
  have M: "unat (min (H + N) S) = min (unat H + unat N) (sz h)" by (simp only: unat_min HN S)
  obtain r1 where r1: "find_loop within (skip h) (run h) N S H = Some r1"
    "case r1 of Some p \<Rightarrow> unat H \<le> unat p \<and> window (P h) (sz h) (unat p) (unat N)
     | None \<Rightarrow> \<forall>p\<ge>unat H. win (p + unat N) (sz h) \<longrightarrow> \<not> window (P h) (sz h) p (unat N)"
    using loop [where M = S and c = H] H unfolding S by auto
  obtain r2 where r2: "find_loop within (skip h) (run h) N (min (H + N) S) 0 = Some r2"
    "case r2 of Some p \<Rightarrow> window (P h) (sz h) (unat p) (unat N)
     | None \<Rightarrow> \<forall>p. win (p + unat N) (min (unat H + unat N) (sz h)) \<longrightarrow> \<not> window (P h) (sz h) p (unat N)"
    using loop [where M = "min (H + N) S" and c = 0] unfolding M by (auto split: option.splits)
  have nmax: "p \<noteq> MAXINDEX" if "window (P h) (sz h) (unat p) (unat N)" for p
    using that N sz_bound [OF wf] by (auto simp: window_def unat_MAXINDEX)
  show ?thesis
  proof (cases r1)
    case (Some p)
    then show ?thesis using r1 nmax by auto
  next
    case None
    show ?thesis
    proof (cases "H = 0")
      case True
      then show ?thesis using None r1 by auto
    next
      case H0: False
      show ?thesis
      proof (cases r2)
        case (Some p)
        then show ?thesis using None H0 r1 r2 nmax by auto
      next
        case r2None: None
        have "\<not> window (P h) (sz h) p (unat N)" if "win (p + unat N) (sz h)" for p
        proof (cases "unat H \<le> p")
          case True
          then show ?thesis using None r1 that by simp
        next
          case False
          then show ?thesis using r2None r2 cover that by simp
        qed
        then show ?thesis using None H0 r1 r2 r2None by auto
      qed
    qed
  qed
qed

text \<open>The longest-run loop advances by the length of the run, not to its end, so it may
  measure the tail of a run again; the maximum is right all the same.\<close>

lemma longest_loop_correct:
  assumes wf: "wf h" and S: "unat S = sz h"
    and nxt: "\<And>F. next_run h F = (if S \<le> F then Some (0, F) else do {
      s \<leftarrow> skip h F MAXINDEX; n \<leftarrow> run h (F + s) MAXINDEX; Some (n, F + s) })"
    and F: "unat F \<le> sz h" and before: "\<forall>p<unat F. run_len (P h) p (sz h) \<le> unat m"
    and best: "m \<noteq> 0 \<longrightarrow> run_len (P h) (unat i) (sz h) = unat m"
  shows "\<exists>n j. longest_loop next_run h m i F = Some (n, j) \<and> (\<forall>p. run_len (P h) p (sz h) \<le> unat n) \<and>
     (n \<noteq> 0 \<longrightarrow> run_len (P h) (unat j) (sz h) = unat n)"
  using F before best
proof (induction "sz h - unat F" arbitrary: F m i rule: less_induct)
  case less
  obtain n J where nJ: "next_run h F = Some (n, J)" "unat J + unat n \<le> max (sz h) (unat F)"
    "unat F \<le> unat J" "unat n = run_len (P h) (unat J) (sz h)"
    "\<forall>p. unat F \<le> p \<and> p < unat J \<longrightarrow> run_len (P h) p (sz h) = 0"
    "n = 0 \<longrightarrow> sz h \<le> unat J"
  proof (cases "S \<le> F")
    case True
    then have "sz h \<le> unat F" using S by (simp add: word_le_nat_alt)
    then show thesis using that [of 0 F] True nxt [of F] by (simp add: run_len_def)
  next
    case False
    obtain s where s: "skip h F MAXINDEX = Some s" "unat s = run_len (\<lambda>i. \<not> P h i) (unat F) (sz h)"
      using skip_exact [OF wf] by blast
    obtain n where n: "run h (F + s) MAXINDEX = Some n" "unat n = run_len (P h) (unat (F + s)) (sz h)"
      using run_exact [OF wf] by blast
    have Fs: "unat F + unat s \<le> sz h"
      using s(2) run_len_le [of "\<lambda>i. \<not> P h i" "unat F" "sz h"] less.prems(1) by simp
    then have u: "unat (F + s) = unat F + unat s" using sz_bound [OF wf] by (intro unat_add_lt) simp
    have "unat (F + s) + unat n \<le> sz h"
      using n(2) run_len_le [of "P h" "unat (F + s)" "sz h"] Fs u by simp
    moreover have "sz h \<le> unat (F + s)" if "n = 0"
    proof (rule ccontr)
      assume "\<not> sz h \<le> unat (F + s)"
      then have "P h (unat (F + s))"
        using run_len_stops [of "unat F" "\<lambda>i. \<not> P h i" "sz h"] s(2) u by simp
      then show False using n(2) that \<open>\<not> sz h \<le> unat (F + s)\<close> by (simp add: run_len_step)
    qed
    moreover have "\<forall>p. unat F \<le> p \<and> p < unat (F + s) \<longrightarrow> run_len (P h) p (sz h) = 0"
      using u s(2) by (auto intro: run_len_in_gap)
    ultimately show thesis using that [of n "F + s"] nxt [of F] False s(1) n u by simp
  qed
  show ?case
  proof (cases "n = 0")
    case True
    have "run_len (P h) p (sz h) \<le> unat m" for p
    proof (cases "p < unat F")
      case False
      then show ?thesis using nJ(5,6) True run_len_empty [of "sz h" p]
        by (cases "p < unat J") (auto simp: run_len_def)
    qed (use less.prems(2) in simp)
    then show ?thesis using True less.prems(3) by (subst longest_loop.simps) (simp add: nJ(1))
  next
    case False
    then have pos: "0 < unat n" by (simp add: unat_gt_0)
    then have Jn: "unat J + unat n \<le> sz h"
      using nJ(3,4) run_len_le [of "P h" "unat J" "sz h"] by linarith
    then have uF: "unat (F + n) = unat F + unat n"
      using nJ(3) sz_bound [OF wf] by (intro unat_add_lt) simp
    have cover: "run_len (P h) p (sz h) \<le> max (unat m) (unat n)" if p: "p < unat (F + n)" for p
    proof -
      consider "p < unat F" | "unat F \<le> p" "p < unat J" | "unat J \<le> p" "p < unat J + unat n"
        using p uF nJ(3) by linarith
      then show ?thesis
        using less.prems(2) nJ(4,5) run_len_inside [of "unat J" p "P h" "sz h"] by cases force+
    qed
    have smaller: "sz h - unat (F + n) < sz h - unat F" "unat (F + n) \<le> sz h"
      using uF pos Jn nJ(3) by linarith+
    define m' i' where "m' = (if m < n then n else m)" and "i' = (if m < n then J else i)"
    have "unat m' = max (unat m) (unat n)" by (auto simp: m'_def word_less_nat_alt)
    then have before': "\<forall>p<unat (F + n). run_len (P h) p (sz h) \<le> unat m'" using cover by simp
    have best': "m' \<noteq> 0 \<longrightarrow> run_len (P h) (unat i') (sz h) = unat m'"
      using less.prems(3) nJ(4) by (simp add: m'_def i'_def)
    note less.hyps [OF smaller before' best']
    moreover have "longest_loop next_run h m i F = longest_loop next_run h m' i' (F + n)"
      by (subst longest_loop.simps) (simp add: nJ(1) False m'_def i'_def)
    ultimately show ?thesis by (simp only:)
  qed
qed

end

section \<open>The bitmap scans provide the interface\<close>

interpretation clear_scanner: run_scanner bitmap_wf RtlpGetLengthOfRunSet RtlpGetLengthOfRunClear
    "\<lambda>h i. \<not> bm_bit (BmBuffer h) i" "\<lambda>h. unat (SizeOfBitMap h)"
  using RunSet_exact RunClear_correct unat_lt_u32
  by unfold_locales (simp_all add: set_run_def clear_run_def)

interpretation set_scanner: run_scanner bitmap_wf RtlpGetLengthOfRunClear RtlpGetLengthOfRunSet
    "\<lambda>h. bm_bit (BmBuffer h)" "\<lambda>h. unat (SizeOfBitMap h)"
  using RunClear_exact RunSet_correct unat_lt_u32
  by unfold_locales (simp_all add: set_run_def clear_run_def)

lemma RtlFindSetBits_spec:
  assumes wf: "bitmap_wf h" and N: "0 < N" and small: "unat (SizeOfBitMap h) < 2 ^ 31"
  shows "\<exists>q. RtlFindSetBits (Some h) N Hint = Some q \<and>
    (if q = MAXINDEX then \<forall>p. \<not> window (bm_bit (BmBuffer h)) (unat (SizeOfBitMap h)) p (unat N)
     else window (bm_bit (BmBuffer h)) (unat (SizeOfBitMap h)) (unat q) (unat N))"
proof (cases "SizeOfBitMap h < N")
  case True
  then have "\<not> window P (unat (SizeOfBitMap h)) p (unat N)" for P p
    by (simp add: window_def word_less_nat_alt)
  then show ?thesis using True by (auto simp: RtlFindSetBits_def)
next
  case False
  have N0: "N \<noteq> 0" using N by auto
  define H where "H = (if SizeOfBitMap h \<le> Hint then 0 else Hint)"
  have "unat H \<le> unat (SizeOfBitMap h)" by (auto simp: H_def word_le_nat_alt)
  then have "\<exists>q. RtlFindSetBits (Some h) N Hint = Some q \<and>
    (if q = MAXINDEX then \<forall>p. p + unat N \<le> unat (SizeOfBitMap h) \<longrightarrow>
          \<not> window (bm_bit (BmBuffer h)) (unat (SizeOfBitMap h)) p (unat N)
     else window (bm_bit (BmBuffer h)) (unat (SizeOfBitMap h)) (unat q) (unat N))"
    using False N N0 small set_scanner.two_passes [OF wf, of "(\<le>)" "(\<le>)" N "SizeOfBitMap h" H]
    unfolding RtlFindSetBits_def Let_def H_def [symmetric] option.case
    by (simp add: word_le_nat_alt word_less_nat_alt)
  then show ?thesis by (metis window_fits)
qed

lemma RtlFindClearBits_spec:
  assumes wf: "bitmap_wf h" and N: "0 < N" and small: "unat (SizeOfBitMap h) < 2 ^ 31"
  shows "\<exists>q. RtlFindClearBits (Some h) N Hint = Some q \<and>
    (if q = MAXINDEX then \<forall>p. window (\<lambda>i. \<not> bm_bit (BmBuffer h) i) (unat (SizeOfBitMap h)) p (unat N) \<longrightarrow>
        p + unat N = unat (SizeOfBitMap h)
     else window (\<lambda>i. \<not> bm_bit (BmBuffer h) i) (unat (SizeOfBitMap h)) (unat q) (unat N))"
proof (cases "SizeOfBitMap h < N")
  case True
  then have "\<not> window P (unat (SizeOfBitMap h)) p (unat N)" for P p
    by (simp add: window_def word_less_nat_alt)
  then show ?thesis using True by (auto simp: RtlFindClearBits_def)
next
  case False
  have N0: "N \<noteq> 0" using N by auto
  define H where "H = (if SizeOfBitMap h \<le> Hint then 0 else Hint)"
  have "unat H \<le> unat (SizeOfBitMap h)" by (auto simp: H_def word_le_nat_alt)
  then have "\<exists>q. RtlFindClearBits (Some h) N Hint = Some q \<and>
    (if q = MAXINDEX then \<forall>p. p + unat N < unat (SizeOfBitMap h) \<longrightarrow>
          \<not> window (\<lambda>i. \<not> bm_bit (BmBuffer h) i) (unat (SizeOfBitMap h)) p (unat N)
     else window (\<lambda>i. \<not> bm_bit (BmBuffer h) i) (unat (SizeOfBitMap h)) (unat q) (unat N))"
    using False N N0 small clear_scanner.two_passes [OF wf, of "(<)" "(<)" N "SizeOfBitMap h" H]
    unfolding RtlFindClearBits_def Let_def H_def [symmetric] option.case
    by (simp add: word_le_nat_alt word_less_nat_alt)
  then show ?thesis by (metis le_neq_implies_less window_fits)
qed

lemma RtlFindLongestRunClear_spec:
  assumes "bitmap_wf h"
  shows "\<exists>n i. RtlFindLongestRunClear h i0 = Some (n, i) \<and> (\<forall>p. clear_run h p \<le> unat n) \<and>
     (n \<noteq> 0 \<longrightarrow> clear_run h (unat i) = unat n)"
  using clear_scanner.longest_loop_correct [OF assms, of "SizeOfBitMap h" RtlFindNextForwardRunClear 0 0 i0]
  by (simp add: RtlFindLongestRunClear_def RtlFindNextForwardRunClear_def clear_run_def)

lemma RtlFindLongestRunSet_spec:
  assumes "bitmap_wf h"
  shows "\<exists>n i. RtlFindLongestRunSet h i0 = Some (n, i) \<and> (\<forall>p. set_run h p \<le> unat n) \<and>
     (n \<noteq> 0 \<longrightarrow> set_run h (unat i) = unat n)"
  using set_scanner.longest_loop_correct [OF assms, of "SizeOfBitMap h" RtlFindNextForwardRunSet 0 0 i0]
  by (simp add: RtlFindLongestRunSet_def RtlFindNextForwardRunSet_def set_run_def)

lemma are_bits_iff:
  assumes "unat n \<le> run_len P (unat s) (unat S)" "min (unat L) (run_len P (unat s) (unat S)) \<le> unat n"
    and "s < s + L"
  shows "L \<le> n \<longleftrightarrow> window P (unat S) (unat s) (unat L)"
proof -
  have "0 < unat L" using assms(3) by (cases "L = 0") (auto simp: unat_gt_0)
  then show ?thesis using assms(1,2) by (auto simp: window_run_len word_le_nat_alt)
qed

lemma window_no_wrap:
  assumes "L \<noteq> 0" "window P (unat S) (unat s) (unat L)"
  shows "s < s + L \<and> s + L \<le> (S :: u32)"
proof -
  have "unat s + unat L \<le> unat S" using assms(2) by (rule window_fits)
  moreover from this have "unat (s + L) = unat s + unat L"
    using unat_lt_u32 [of S] by (intro unat_add_lt) simp
  moreover have "0 < unat L" using assms(1) by (simp add: unat_gt_0)
  ultimately show ?thesis by (simp add: word_le_nat_alt word_less_nat_alt)
qed

lemma RtlAreBitsClear_spec:
  assumes "bitmap_wf h"
  shows "RtlAreBitsClear h s L = Some (L \<noteq> 0 \<and>
    window (\<lambda>i. \<not> bm_bit (BmBuffer h) i) (unat (SizeOfBitMap h)) (unat s) (unat L))"
proof (cases "SizeOfBitMap h < s + L \<or> s + L \<le> s")
  case True
  then show ?thesis using window_no_wrap [of L "\<lambda>i. \<not> bm_bit (BmBuffer h) i" "SizeOfBitMap h" s]
    by (auto simp: RtlAreBitsClear_def dest: leD)
next
  case False
  obtain n where "RtlpGetLengthOfRunClear h s L = Some n" "unat n \<le> clear_run h (unat s)"
    "min (unat L) (clear_run h (unat s)) \<le> unat n" using RunClear_correct [OF assms] by blast
  then show ?thesis using False are_bits_iff [of n _ s "SizeOfBitMap h" L]
    by (auto simp: RtlAreBitsClear_def clear_run_def)
qed

lemma RtlAreBitsSet_spec:
  assumes "bitmap_wf h"
  shows "RtlAreBitsSet h s L = Some (L \<noteq> 0 \<and>
    window (bm_bit (BmBuffer h)) (unat (SizeOfBitMap h)) (unat s) (unat L))"
proof (cases "SizeOfBitMap h < s + L \<or> s + L \<le> s")
  case True
  then show ?thesis using window_no_wrap [of L "bm_bit (BmBuffer h)" "SizeOfBitMap h" s]
    by (auto simp: RtlAreBitsSet_def dest: leD)
next
  case False
  obtain n where "RtlpGetLengthOfRunSet h s L = Some n" "unat n \<le> set_run h (unat s)"
    "min (unat L) (set_run h (unat s)) \<le> unat n" using RunSet_correct [OF assms] by blast
  then show ?thesis using False are_bits_iff [of n _ s "SizeOfBitMap h" L]
    by (auto simp: RtlAreBitsSet_def set_run_def)
qed

section \<open>Counting\<close>

definition bit_count :: "(nat \<Rightarrow> bool) \<Rightarrow> nat \<Rightarrow> nat \<Rightarrow> nat" where
  "bit_count P a b = length (filter P [a..<b])"

definition byte_count :: "nat \<Rightarrow> nat" where
  "byte_count b = b mod 2 + b div 2 mod 2 + b div 4 mod 2 + b div 8 mod 2 + b div 16 mod 2 +
     b div 32 mod 2 + b div 64 mod 2 + b div 128 mod 2"

lemma byte_count: "bit_count (bit b) 0 8 = byte_count b"
proof -
  have o: "of_bool (bit b k) = b div 2 ^ k mod 2" for k
    by (simp add: bit_iff_odd of_bool_odd_eq_mod_2)
  have l: "length (filter P [0..<8]) = of_bool (P 0) + of_bool (P 1) + of_bool (P 2) + of_bool (P 3) +
      of_bool (P 4) + of_bool (P 5) + of_bool (P 6) + of_bool (P 7)" for P :: "nat \<Rightarrow> bool"
  proof -
    have up: "[0..<8] = [0, 1, 2, 3, 4, 5, 6, 7 :: nat]" by code_simp
    show ?thesis unfolding up by simp
  qed
  show ?thesis unfolding bit_count_def l o byte_count_def by simp
qed

lemma BitCountTable_eq: "BitCountTable = map (\<lambda>b. of_nat (bit_count (bit b) 0 8)) [0..<256]"
proof -
  have up: "[0..<256] = map nat [0..255]" by code_simp
  have e: "map (\<lambda>b. of_nat (bit_count (bit b) 0 8)) [0..<256] = map (\<lambda>b. of_nat (byte_count b) :: u8) [0..<256]"
    by (simp only: byte_count)
  show ?thesis unfolding e by (simp add: BitCountTable_def byte_count_def upt_conv_Cons_Cons upt_rec)
qed

lemma bit_count_split: "a \<le> b \<Longrightarrow> b \<le> c \<Longrightarrow> bit_count P a c = bit_count P a b + bit_count P b c"
  using upt_add_eq_append [of a b "c - b"] by (simp add: bit_count_def)

lemma bit_count_shift: "bit_count P (a + k) (b + k) = bit_count (\<lambda>i. P (i + k)) a b"
proof -
  have "[a + k..<b + k] = map (\<lambda>i. i + k) [a..<b]" by (induction b) auto
  then show ?thesis by (simp add: bit_count_def filter_map comp_def)
qed

lemma bit_count_cong: "(\<And>i. a \<le> i \<Longrightarrow> i < b \<Longrightarrow> P i = Q i) \<Longrightarrow> bit_count P a b = bit_count Q a b"
  unfolding bit_count_def by (rule arg_cong [where f = length]) (rule filter_cong; simp)

lemma bit_count_none: "(\<And>i. a \<le> i \<Longrightarrow> i < b \<Longrightarrow> \<not> P i) \<Longrightarrow> bit_count P a b = 0"
  by (simp add: bit_count_def filter_empty_conv)

lemma bit_count_le: "bit_count P a b \<le> b - a"
  unfolding bit_count_def using length_filter_le [of P "[a..<b]"] by simp

lemma BitCountTable_nth:
  "k < 256 \<Longrightarrow> \<exists>c. rd BitCountTable k = Some c \<and> (ucast c :: u32) = of_nat (bit_count (bit k) 0 8)"
proof -
  assume k: "k < 256"
  have "unat (of_nat (bit_count (bit k) 0 8) :: u8) = bit_count (bit k) 0 8"
    using bit_count_le [of "bit k" 0 8] by (intro unat_of_nat_lt) simp
  then have "(ucast (of_nat (bit_count (bit k) 0 8) :: u8) :: u32) = of_nat (bit_count (bit k) 0 8)"
    by (metis of_nat_unat)
  then show ?thesis using k by (simp add: BitCountTable_eq)
qed

lemma byte_at_bits:
  assumes "i < 4 * length xs"
  shows "\<exists>b. byte_at xs i = Some b \<and> (\<forall>j<8. bit b j = bm_bit xs (8 * i + j))"
proof (intro exI conjI allI impI)
  show "byte_at xs i = Some (ucast (drop_bit (8 * (i mod 4)) (xs ! (i div 4))))"
    using assms by (simp add: byte_at_def less_mult_imp_div_less mult.commute)
  show "bit (ucast (drop_bit (8 * (i mod 4)) (xs ! (i div 4))) :: u8) j = bm_bit xs (8 * i + j)"
    if j: "j < 8" for j
  proof -
    have "i mod 4 < 4" by simp
    then have lt: "8 * (i mod 4) + j < 32" using j by linarith
    have e: "8 * i + j = 8 * (i mod 4) + j + 32 * (i div 4)"
      using mod_mult_div_eq [of i 4] by linarith
    have "(8 * i + j) div 32 = i div 4" "(8 * i + j) mod 32 = 8 * (i mod 4) + j"
      unfolding e using lt by simp_all
    then show ?thesis using j by (simp add: bm_bit_def bit_ucast_iff bit_drop_bit_eq)
  qed
qed


lemma byte_table:
  assumes "i < 4 * length xs"
  shows "\<exists>b c. byte_at xs i = Some b \<and> rd BitCountTable (unat b) = Some c \<and>
    (ucast c :: u32) = of_nat (bit_count (bm_bit xs) (8 * i) (8 * Suc i))"
proof -
  obtain b where b: "byte_at xs i = Some b" "\<And>j. j < 8 \<Longrightarrow> bit b j = bm_bit xs (8 * i + j)"
    using byte_at_bits [OF assms] by blast
  have "unat b < 256" using unsigned_less [of b] by simp
  moreover have "bit_count (bit (unat b)) 0 8 = bit_count (bm_bit xs) (8 * i) (8 * Suc i)"
  proof -
    have e: "8 * i = 0 + 8 * i" "8 * Suc i = 8 + 8 * i" by simp_all
    have "bit_count (bm_bit xs) (8 * i) (8 * Suc i) = bit_count (\<lambda>j. bm_bit xs (j + 8 * i)) 0 8"
      by (subst e(2), subst e(1)) (rule bit_count_shift)
    also have "\<dots> = bit_count (bit (unat b)) 0 8"
      using b(2) by (intro bit_count_cong) (simp add: bit_unsigned_iff add.commute)
    finally show ?thesis by simp
  qed
  ultimately show ?thesis using b(1) BitCountTable_nth [of "unat b"] by auto
qed

lemma count_loop_eq:
  "4 * length xs \<ge> k + n \<Longrightarrow>
   count_loop xs k n c = Some (c + of_nat (bit_count (bm_bit xs) (8 * k) (8 * (k + n))))"
proof (induction n arbitrary: k c)
  case 0
  then show ?case by (simp add: bit_count_def)
next
  case (Suc n)
  then show ?case
    using byte_table [of k xs] bit_count_split [of "8 * k" "8 * Suc k" "8 * (k + Suc n)" "bm_bit xs"] Suc.IH [of "Suc k"]
    by auto
qed

lemma RtlNumberOfSetBits_spec:
  assumes "bitmap_wf h"
  shows "\<exists>n. RtlNumberOfSetBits h = Some n \<and>
     unat n = bit_count (bm_bit (BmBuffer h)) 0 (unat (SizeOfBitMap h))"
proof -
  let ?xs = "BmBuffer h" and ?S = "unat (SizeOfBitMap h)"
  define B r where "B = ?S div 8" and "r = ?S mod 8"
  have S: "?S = 8 * B + r" "r < 8" by (simp_all add: B_def r_def)
  have len: "?S \<le> 32 * length ?xs" using assms by (simp add: bitmap_wf_def)
  have Bw: "unat (SizeOfBitMap h div 8) = B" by (simp add: B_def unat_div_distrib)
  have cl: "count_loop ?xs 0 B 0 = Some (of_nat (bit_count (bm_bit ?xs) 0 (8 * B)))"
    using count_loop_eq [of 0 B ?xs 0] len S by simp
  have fits: "bit_count (bm_bit ?xs) 0 ?S < 2 ^ 32"
    using bit_count_le [of "bm_bit ?xs" 0 ?S] unat_lt_u32 [of "SizeOfBitMap h"] by simp
  have "RtlNumberOfSetBits h = Some (of_nat (bit_count (bm_bit ?xs) 0 ?S))"
  proof (cases "SizeOfBitMap h AND 7 = 0")
    case True
    then have "r = 0" using unat_and_7 [of "SizeOfBitMap h"] by (simp add: r_def)
    then show ?thesis using cl True S by (simp add: RtlNumberOfSetBits_def Bw)
  next
    case False
    have r7: "unat (SizeOfBitMap h AND 7) = r" by (simp add: r_def u32_simps)
    have r0: "0 < r" using False r7 by (metis unat_gt_0)
    have "unat (8 - (SizeOfBitMap h AND 7)) = 8 - r"
      using S(2) by (subst unat_sub_le) (simp_all add: r7 word_le_nat_alt)
    moreover have Blt: "B < 4 * length ?xs" using len S r0 by linarith
    obtain b where b: "byte_at ?xs B = Some b" "\<And>j. j < 8 \<Longrightarrow> bit b j = bm_bit ?xs (8 * B + j)"
      using byte_at_bits [of B ?xs] Blt by blast
    define k where "k = unat (push_bit (8 - r) (ucast b :: u32) AND 0xFF)"
    have k: "k = take_bit 8 (unat (push_bit (8 - r) (ucast b :: u32)))"
      unfolding k_def take_bit_eq_mod unat_and_mask [symmetric] by (simp add: mask_eq_exp_minus_1)
    have kbits: "bit k j \<longleftrightarrow> j < 8 \<and> 8 - r \<le> j \<and> bit b (j - (8 - r))" for j
      unfolding k by (auto simp: bit_take_bit_iff bit_unsigned_iff bit_push_bit_iff)
    have "k < 256" unfolding k by (simp add: take_bit_eq_mod)
    moreover have "bit_count (bit k) 0 8 = bit_count (bm_bit ?xs) (8 * B) ?S"
    proof -
      have "bit_count (bit k) 0 8 = bit_count (bit k) (0 + (8 - r)) (r + (8 - r))"
      proof -
        have "bit_count (bit k) 0 (8 - r) = 0" by (intro bit_count_none) (simp add: kbits)
        then show ?thesis using bit_count_split [of 0 "8 - r" 8 "bit k"] S(2) by simp
      qed
      also have "\<dots> = bit_count (\<lambda>j. bm_bit ?xs (j + 8 * B)) 0 r"
        unfolding bit_count_shift using S(2) b(2) by (intro bit_count_cong) (auto simp: kbits add.commute)
      also have "\<dots> = bit_count (bm_bit ?xs) (8 * B) ?S"
        using bit_count_shift [of "bm_bit ?xs" 0 "8 * B" r] S(1) by (simp add: add.commute)
      finally show ?thesis .
    qed
    ultimately show ?thesis
      using cl False b(1) BitCountTable_nth [of k] bit_count_split [of 0 "8 * B" ?S "bm_bit ?xs"] S(1)
      by (auto simp: RtlNumberOfSetBits_def Bw k_def)
  qed
  then show ?thesis using fits by (simp add: unat_of_nat_lt)
qed

section \<open>Allocation of clear bits\<close>

lemma RtlFindClearBitsAndSet_spec:
  assumes wf: "bitmap_wf h" and N: "0 < N" and small: "unat (SizeOfBitMap h) < 2 ^ 31"
  shows "\<exists>q ys. RtlFindClearBitsAndSet h N Hint = Some (q, h\<lparr>BmBuffer := ys\<rparr>) \<and>
    (if q = MAXINDEX then ys = BmBuffer h
     else window (\<lambda>i. \<not> bm_bit (BmBuffer h) i) (unat (SizeOfBitMap h)) (unat q) (unat N) \<and>
          upd_range True (BmBuffer h) ys (unat q) (unat N))"
proof -
  obtain q where q: "RtlFindClearBits (Some h) N Hint = Some q"
    "q \<noteq> MAXINDEX \<Longrightarrow> window (\<lambda>i. \<not> bm_bit (BmBuffer h) i) (unat (SizeOfBitMap h)) (unat q) (unat N)"
    using RtlFindClearBits_spec [OF wf N small, of Hint] by (auto split: if_splits)
  show ?thesis
  proof (cases "q = MAXINDEX")
    case True
    then show ?thesis using q(1) by (auto simp: RtlFindClearBitsAndSet_def)
  next
    case False
    then have "unat q + unat N \<le> 32 * length (BmBuffer h)"
      using window_fits [OF q(2)] wf unfolding bitmap_wf_def by linarith
    then obtain ys where "RtlSetBits h q N = Some (h\<lparr>BmBuffer := ys\<rparr>)"
        "upd_range True (BmBuffer h) ys (unat q) (unat N)"
      using RtlSetBits_correct by blast
    then show ?thesis using q False by (auto simp: RtlFindClearBitsAndSet_def)
  qed
qed

section \<open>Properties\<close>

text \<open>C1: The two run-length scans, which read whole words with \<open>bsf\<close>, measure runs: on a
  well-formed bitmap they return, touch no word outside the buffer, and give exactly
  the distance from the start to the first bit of the other value or to the end of the
  bitmap when the length limit is at least this distance; with a smaller limit the
  result lies between the limit and the distance. So \<open>RtlAreBitsClear\<close> and
  \<open>RtlAreBitsSet\<close>, which pass the length asked for as the limit, answer true exactly when
  the range is not empty, lies inside the bitmap and has only clear or only set bits; a
  range whose end wraps around 32 bits is refused.\<close>

theorem run_scans_exact:
  assumes "bitmap_wf h"
  shows "(\<exists>n. RtlpGetLengthOfRunClear h s k = Some n \<and>
           (if clear_run h (unat s) \<le> unat k then unat n = clear_run h (unat s)
            else unat k \<le> unat n \<and> unat n \<le> clear_run h (unat s))) \<and>
         (\<exists>n. RtlpGetLengthOfRunSet h s k = Some n \<and>
           (if set_run h (unat s) \<le> unat k then unat n = set_run h (unat s)
            else unat k \<le> unat n \<and> unat n \<le> set_run h (unat s))) \<and>
         RtlAreBitsClear h s L = Some (L \<noteq> 0 \<and>
           window (\<lambda>i. \<not> bm_bit (BmBuffer h) i) (unat (SizeOfBitMap h)) (unat s) (unat L)) \<and>
         RtlAreBitsSet h s L = Some (L \<noteq> 0 \<and>
           window (bm_bit (BmBuffer h)) (unat (SizeOfBitMap h)) (unat s) (unat L))"
proof (intro conjI)
  show "\<exists>n. RtlpGetLengthOfRunClear h s k = Some n \<and> (if clear_run h (unat s) \<le> unat k then unat n = clear_run h (unat s)
      else unat k \<le> unat n \<and> unat n \<le> clear_run h (unat s))"
    using RunClear_correct [OF assms, of s k] by auto
  show "\<exists>n. RtlpGetLengthOfRunSet h s k = Some n \<and> (if set_run h (unat s) \<le> unat k then unat n = set_run h (unat s)
      else unat k \<le> unat n \<and> unat n \<le> set_run h (unat s))"
    using RunSet_correct [OF assms, of s k] by auto
qed (rule RtlAreBitsClear_spec [OF assms], rule RtlAreBitsSet_spec [OF assms])

theorem run_scans_exact_witness:
  "(\<exists>n. RtlpGetLengthOfRunClear \<lparr>SizeOfBitMap = 40, BmBuffer = [3, 0]\<rparr> 2 5 = Some n \<and> 5 \<le> unat n \<and> unat n \<le> 38) \<and>
   RtlAreBitsSet \<lparr>SizeOfBitMap = 40, BmBuffer = [3, 0]\<rparr> 4 0xFFFFFFFE = Some False"
proof -
  let ?h = "\<lparr>SizeOfBitMap = 40, BmBuffer = [3, 0]\<rparr>"
  have w: "bitmap_wf ?h" by (simp add: bitmap_wf_def)
  have "clear_run ?h 2 = 38" by code_simp
  then show ?thesis
    using run_scans_exact [OF w, where s = 2 and k = 5] run_scans_exact [OF w, where s = 4 and L = "0xFFFFFFFE"] by (simp add: window_def)
qed

text \<open>\<open>RtlSetBits\<close> and \<open>RtlClearBits\<close> set or clear exactly the bits of the given range
  and no other bit of the buffer, whatever the alignment of the range (head word,
  whole words, tail word), and write no word outside the buffer.\<close>

theorem range_updates_exact:
  assumes "unat s + unat N \<le> 32 * length (BmBuffer h)"
  shows "(\<exists>ys. RtlSetBits h s N = Some (h\<lparr>BmBuffer := ys\<rparr>) \<and>
            upd_range True (BmBuffer h) ys (unat s) (unat N)) \<and>
         (\<exists>ys. RtlClearBits h s N = Some (h\<lparr>BmBuffer := ys\<rparr>) \<and>
            upd_range False (BmBuffer h) ys (unat s) (unat N))"
  using RtlSetBits_correct [OF assms] RtlClearBits_correct [OF assms] by blast

theorem range_updates_exact_witness:
  "\<exists>ys. RtlClearBits \<lparr>SizeOfBitMap = 96, BmBuffer = [255, 7, 1]\<rparr> 5 64 =
        Some \<lparr>SizeOfBitMap = 96, BmBuffer = ys\<rparr> \<and> upd_range False [255, 7, 1] ys 5 64"
  using range_updates_exact [of 5 64 "\<lparr>SizeOfBitMap = 96, BmBuffer = [255, 7, 1]\<rparr>"] by simp

text \<open>\<open>RtlFindSetBits\<close> always returns, and its answer is right both ways: a position it
  returns is the start of \<open>N\<close> set bits inside the bitmap, and \<open>MAXINDEX\<close> means that the
  bitmap has no such window, whatever the hint.\<close>

theorem RtlFindSetBits_complete:
  assumes "bitmap_wf h" "0 < N" "unat (SizeOfBitMap h) < 2 ^ 31"
  shows "\<exists>q. RtlFindSetBits (Some h) N Hint = Some q \<and>
    (if q = MAXINDEX then \<forall>p. \<not> window (bm_bit (BmBuffer h)) (unat (SizeOfBitMap h)) p (unat N)
     else window (bm_bit (BmBuffer h)) (unat (SizeOfBitMap h)) (unat q) (unat N))"
  by (rule RtlFindSetBits_spec [OF assms])

theorem RtlFindSetBits_complete_witness:
  "\<exists>q. RtlFindSetBits (Some \<lparr>SizeOfBitMap = 64, BmBuffer = [0xF0, 0]\<rparr>) 3 9 = Some q \<and>
    (if q = MAXINDEX then \<forall>p. \<not> window (bm_bit [0xF0, 0]) 64 p 3
     else window (bm_bit [0xF0, 0]) 64 (unat q) 3)"
  using RtlFindSetBits_complete [of "\<lparr>SizeOfBitMap = 64, BmBuffer = [0xF0, 0]\<rparr>" 3 9]
  by (simp add: bitmap_wf_def cong: if_cong)

text \<open>\<open>RtlFindClearBits\<close> always returns; a position it returns is the start of \<open>N\<close> clear
  bits inside the bitmap, and when it returns \<open>MAXINDEX\<close> every window of \<open>N\<close> clear bits
  ends exactly at the end of the bitmap (its bound test is strict, unlike that of
  \<open>RtlFindSetBits\<close>).\<close>

theorem RtlFindClearBits_sound:
  assumes "bitmap_wf h" "0 < N" "unat (SizeOfBitMap h) < 2 ^ 31"
  shows "\<exists>q. RtlFindClearBits (Some h) N Hint = Some q \<and>
    (if q = MAXINDEX then \<forall>p. window (\<lambda>i. \<not> bm_bit (BmBuffer h) i) (unat (SizeOfBitMap h)) p (unat N) \<longrightarrow>
        p + unat N = unat (SizeOfBitMap h)
     else window (\<lambda>i. \<not> bm_bit (BmBuffer h) i) (unat (SizeOfBitMap h)) (unat q) (unat N))"
  by (rule RtlFindClearBits_spec [OF assms])

theorem RtlFindClearBits_sound_witness:
  "\<exists>q. RtlFindClearBits (Some \<lparr>SizeOfBitMap = 64, BmBuffer = [0xF0, 0]\<rparr>) 3 2 = Some q \<and>
    (if q = MAXINDEX then \<forall>p. window (\<lambda>i. \<not> bm_bit [0xF0, 0] i) 64 p 3 \<longrightarrow> p + 3 = 64
     else window (\<lambda>i. \<not> bm_bit [0xF0, 0] i) 64 (unat q) 3)"
  using RtlFindClearBits_sound [of "\<lparr>SizeOfBitMap = 64, BmBuffer = [0xF0, 0]\<rparr>" 3 2]
  by (simp add: bitmap_wf_def cong: if_cong)

text \<open>The window that ends at the end of the bitmap is really missed: on a bitmap whose
  bits are all clear, a request for all of them fails, though the range is clear.\<close>

theorem RtlFindClearBits_misses_last_window:
  "RtlFindClearBits (Some \<lparr>SizeOfBitMap = 32, BmBuffer = [0]\<rparr>) 32 0 = Some MAXINDEX \<and>
   RtlAreBitsClear \<lparr>SizeOfBitMap = 32, BmBuffer = [0]\<rparr> 0 32 = Some True"
proof
  show "RtlFindClearBits (Some \<lparr>SizeOfBitMap = 32, BmBuffer = [0]\<rparr>) 32 0 = Some MAXINDEX"
    by (simp add: RtlFindClearBits_def find_loop.simps)
  show "RtlAreBitsClear \<lparr>SizeOfBitMap = 32, BmBuffer = [0]\<rparr> 0 32 = Some True"
    by (simp add: RtlAreBitsClear_spec bitmap_wf_def window_def bm_bit_def)
qed

text \<open>\<open>RtlFindClearBitsAndSet\<close> allocates: a position it returns was the start of \<open>N\<close> clear
  bits, and in the new bitmap exactly those bits have become set; when it returns
  \<open>MAXINDEX\<close> the bitmap is unchanged.\<close>

theorem RtlFindClearBitsAndSet_allocates:
  assumes "bitmap_wf h" "0 < N" "unat (SizeOfBitMap h) < 2 ^ 31"
  shows "\<exists>q ys. RtlFindClearBitsAndSet h N Hint = Some (q, h\<lparr>BmBuffer := ys\<rparr>) \<and>
    (if q = MAXINDEX then ys = BmBuffer h
     else window (\<lambda>i. \<not> bm_bit (BmBuffer h) i) (unat (SizeOfBitMap h)) (unat q) (unat N) \<and>
          upd_range True (BmBuffer h) ys (unat q) (unat N))"
  by (rule RtlFindClearBitsAndSet_spec [OF assms])

theorem RtlFindClearBitsAndSet_allocates_witness:
  "\<exists>q ys. RtlFindClearBitsAndSet \<lparr>SizeOfBitMap = 64, BmBuffer = [0xF0, 0]\<rparr> 3 2 =
      Some (q, \<lparr>SizeOfBitMap = 64, BmBuffer = ys\<rparr>)"
  using RtlFindClearBitsAndSet_allocates [of "\<lparr>SizeOfBitMap = 64, BmBuffer = [0xF0, 0]\<rparr>" 3 2]
  by (auto simp: bitmap_wf_def)

text \<open>\<open>RtlNumberOfSetBits\<close>, a table lookup per byte and a shifted lookup for the last
  partial byte, counts the set bits below the size of the bitmap.\<close>

theorem RtlNumberOfSetBits_counts:
  assumes "bitmap_wf h"
  shows "\<exists>n. RtlNumberOfSetBits h = Some n \<and>
     unat n = bit_count (bm_bit (BmBuffer h)) 0 (unat (SizeOfBitMap h))"
  by (rule RtlNumberOfSetBits_spec [OF assms])

theorem RtlNumberOfSetBits_counts_witness:
  "\<exists>n. RtlNumberOfSetBits \<lparr>SizeOfBitMap = 35, BmBuffer = [0xF0F0, 0xFF]\<rparr> = Some n \<and>
     unat n = bit_count (bm_bit [0xF0F0, 0xFF]) 0 35"
  using RtlNumberOfSetBits_counts [of "\<lparr>SizeOfBitMap = 35, BmBuffer = [0xF0F0, 0xFF]\<rparr>"]
  by (simp add: bitmap_wf_def)

text \<open>The longest-run searches return, and the length they return is the maximum over
  all positions of the run that starts there; the start they store has that length.
  The loop advances by the length of a run and not to its end, which costs extra
  rounds but does not change the answer.\<close>

theorem longest_runs_correct:
  assumes "bitmap_wf h"
  shows "(\<exists>n i. RtlFindLongestRunClear h i0 = Some (n, i) \<and> (\<forall>p. clear_run h p \<le> unat n) \<and>
            (n \<noteq> 0 \<longrightarrow> clear_run h (unat i) = unat n)) \<and>
         (\<exists>n i. RtlFindLongestRunSet h i0 = Some (n, i) \<and> (\<forall>p. set_run h p \<le> unat n) \<and>
            (n \<noteq> 0 \<longrightarrow> set_run h (unat i) = unat n))"
  using RtlFindLongestRunClear_spec [OF assms] RtlFindLongestRunSet_spec [OF assms] by blast

theorem longest_runs_correct_witness:
  "\<exists>n i. RtlFindLongestRunSet \<lparr>SizeOfBitMap = 64, BmBuffer = [0x70, 0xF]\<rparr> 0 = Some (n, i)"
  using longest_runs_correct [of "\<lparr>SizeOfBitMap = 64, BmBuffer = [0x70, 0xF]\<rparr>" 0]
  by (auto simp: bitmap_wf_def)

end
