(* ===== verification/SfAccess.thy ===== *)
theory SfAccess
  imports VeaBytes
begin

text \<open>
  \<open>veakrnl/sf\<close>: security identifiers, access control lists, tokens and the access
  check. An access control list is the block of bytes the kernel lays out: a header of
  8 bytes (\<open>AceCount\<close> at offset 4) followed by entries of 24 bytes that are walked by
  their \<open>AceSize\<close>. Pointers are options; the supplementary groups of a token are the
  array its pointer refers to.

  Pool allocation belongs to \<open>veakrnl/mm/ulpool.c\<close>; here its outcome is an argument. The
  access check returns the granted access; the code stores it through a pointer, if that
  is not null.
\<close>

section \<open>Data\<close>

record VEA_SID =
  SidRevision :: u8
  Authority :: u8
  SidFlags :: u16
  MachineID :: u32
  UserID :: u32

record GENERIC_MAPPING =
  GenericRead :: u32
  GenericWrite :: u32
  GenericExecute :: u32
  GenericAll :: u32

record VEA_TOKEN =
  UserSid :: VEA_SID
  PrimaryGroup :: VEA_SID
  PrivilegeMask :: u32
  GroupCount :: u32
  SupplementaryGroups :: "VEA_SID option list option"
  DefaultDacl :: "u8 list option"
  AuthenticationId :: "u32 \<times> u32"

record VEA_SECURITY_DESCRIPTOR =
  SdRevision :: u8
  SdOwner :: "VEA_SID option"
  SdGroup :: "VEA_SID option"
  Dacl :: "u8 list option"

definition DENY :: u32 where "DENY = 0"
definition ALLOW :: u32 where "ALLOW = 1"

definition VEA_GENERIC_READ :: u32 where "VEA_GENERIC_READ = 0x80000000"
definition VEA_GENERIC_WRITE :: u32 where "VEA_GENERIC_WRITE = 0x40000000"
definition VEA_GENERIC_EXECUTE :: u32 where "VEA_GENERIC_EXECUTE = 0x20000000"
definition VEA_GENERIC_ALL :: u32 where "VEA_GENERIC_ALL = 0x10000000"

lemmas generic_defs =
  VEA_GENERIC_READ_def VEA_GENERIC_WRITE_def VEA_GENERIC_EXECUTE_def VEA_GENERIC_ALL_def

text \<open>The memory layout of an identifier: revision, authority, flags, machine, user.\<close>

definition enc_sid :: "VEA_SID \<Rightarrow> u8 list" where
  "enc_sid s = enc8 (SidRevision s) @ enc8 (Authority s) @ enc16 (SidFlags s) @
     enc32 (MachineID s) @ enc32 (UserID s)"

definition dec_sid :: "u8 list \<Rightarrow> VEA_SID" where
  "dec_sid bs = \<lparr>SidRevision = dec8 bs, Authority = dec8 (drop 1 bs),
     SidFlags = dec16 (drop 2 bs), MachineID = dec32 (drop 4 bs), UserID = dec32 (drop 8 bs)\<rparr>"

abbreviation "rd_sid \<equiv> rd_field 12 dec_sid"
abbreviation "wr_sid \<equiv> wr_field enc_sid"

section \<open>Identifiers\<close>

definition zero_sid :: VEA_SID where
  "zero_sid = \<lparr>SidRevision = 0, Authority = 0, SidFlags = 0, MachineID = 0, UserID = 0\<rparr>"

definition sid_letter :: u8 where "sid_letter = 0x53"

definition SfAllocateAndInitializeSid :: "bool \<Rightarrow> u32 \<Rightarrow> u32 \<Rightarrow> u32 \<Rightarrow> VEA_SID option" where
  "SfAllocateAndInitializeSid pool_ok MachineId UserId Auth =
     (if \<not> pool_ok then None
      else Some \<lparr>SidRevision = sid_letter, Authority = ucast Auth, SidFlags = 0,
                 MachineID = MachineId, UserID = UserId\<rparr>)"

definition SfEqualSid :: "VEA_SID option \<Rightarrow> VEA_SID option \<Rightarrow> bool" where
  "SfEqualSid SidTarget SidSource =
     (case (SidTarget, SidSource) of
        (Some t, Some s) \<Rightarrow>
          if SidRevision t \<noteq> SidRevision s then False
          else if Authority t \<noteq> Authority s then False
          else if MachineID t \<noteq> MachineID s \<or> UserID s \<noteq> UserID t then False
          else True
      | _ \<Rightarrow> False)"

section \<open>The access check\<close>

definition map_bit :: "u32 \<Rightarrow> u32 \<Rightarrow> u32 \<Rightarrow> u32" where
  "map_bit generic specific m =
     (if m AND generic \<noteq> 0 then (m AND NOT generic) OR specific else m)"

definition SfMapGenericMask :: "u32 \<Rightarrow> GENERIC_MAPPING option \<Rightarrow> u32" where
  "SfMapGenericMask AccessMask GenericMapping =
     (case GenericMapping of None \<Rightarrow> AccessMask
      | Some g \<Rightarrow>
        let m = map_bit VEA_GENERIC_READ (GenericRead g) AccessMask;
            m = map_bit VEA_GENERIC_WRITE (GenericWrite g) m;
            m = map_bit VEA_GENERIC_EXECUTE (GenericExecute g) m
        in map_bit VEA_GENERIC_ALL (GenericAll g) m)"

fun group_loop :: "VEA_SID option list \<Rightarrow> VEA_SID \<Rightarrow> nat \<Rightarrow> nat \<Rightarrow> bool option" where
  "group_loop groups TargetSid i 0 = Some False"
| "group_loop groups TargetSid i (Suc n) = do {
     g \<leftarrow> rd groups i;
     if g \<noteq> None \<and> SfEqualSid g (Some TargetSid) then Some True
     else group_loop groups TargetSid (i + 1) n }"

definition SfpMatchSidWithToken :: "VEA_TOKEN option \<Rightarrow> VEA_SID option \<Rightarrow> bool option" where
  "SfpMatchSidWithToken Token TargetSid =
     (case (Token, TargetSid) of
        (Some t, Some s) \<Rightarrow>
          if SfEqualSid (Some (UserSid t)) (Some s) then Some True
          else (case SupplementaryGroups t of None \<Rightarrow> Some False
                | Some groups \<Rightarrow> group_loop groups s 0 (unat (GroupCount t)))
      | _ \<Rightarrow> Some False)"

text \<open>The walk over the entries: \<open>p\<close> is \<open>CurrentAce\<close>, the result is the return value and
  \<open>*GrantedAccess\<close>.\<close>

fun ace_loop ::
    "VEA_TOKEN \<Rightarrow> u8 list \<Rightarrow> nat \<Rightarrow> nat \<Rightarrow> u32 \<Rightarrow> u32 \<Rightarrow> (bool \<times> u32) option" where
  "ace_loop token dacl p 0 RemainingAccess LocalGrantedAccess =
     Some (if RemainingAccess = 0 then (True, LocalGrantedAccess) else (False, 0))"
| "ace_loop token dacl p (Suc n) RemainingAccess LocalGrantedAccess = do {
     sid \<leftarrow> rd_sid dacl (p + 12);
     matches \<leftarrow> SfpMatchSidWithToken (Some token) (Some sid);
     AceType \<leftarrow> rd32 dacl p;
     AccessMask \<leftarrow> rd32 dacl (p + 8);
     AceSize \<leftarrow> rd16 dacl (p + 6);
     if matches \<and> AceType = DENY \<and> RemainingAccess AND AccessMask \<noteq> 0 then Some (False, 0)
     else if matches \<and> AceType = ALLOW then
       let MatchedAccess = RemainingAccess AND AccessMask;
           LocalGrantedAccess = LocalGrantedAccess OR MatchedAccess;
           RemainingAccess = RemainingAccess AND NOT MatchedAccess
       in if RemainingAccess = 0 then Some (True, LocalGrantedAccess)
          else ace_loop token dacl (p + unat AceSize) n RemainingAccess LocalGrantedAccess
     else ace_loop token dacl (p + unat AceSize) n RemainingAccess LocalGrantedAccess }"

definition SfAccessCheck ::
    "VEA_SECURITY_DESCRIPTOR option \<Rightarrow> VEA_TOKEN option \<Rightarrow> u32 \<Rightarrow> GENERIC_MAPPING option \<Rightarrow>
     (bool \<times> u32) option" where
  "SfAccessCheck SecurityDescriptor ClientToken DesiredAccess GenericMapping =
     (case ClientToken of None \<Rightarrow> Some (False, 0)
      | Some token \<Rightarrow>
        let DesiredAccess = SfMapGenericMask DesiredAccess GenericMapping
        in if DesiredAccess = 0 then Some (True, 0)
           else (case SecurityDescriptor of None \<Rightarrow> Some (True, DesiredAccess)
             | Some sd \<Rightarrow>
               (case Dacl sd of None \<Rightarrow> Some (True, DesiredAccess)
                | Some dacl \<Rightarrow> do {
                    AceCount \<leftarrow> rd16 dacl 4;
                    if AceCount = 0 then Some (False, 0)
                    else ace_loop token dacl 8 (unat AceCount) DesiredAccess 0 })))"

section \<open>The default objects\<close>

text \<open>\<open>pool\<close> is the block the pool returned, with whatever it held before.\<close>

definition write_ace :: "u8 list \<Rightarrow> nat \<Rightarrow> VEA_SID option \<Rightarrow> u8 list option" where
  "write_ace m p sid = do {
     m \<leftarrow> wr32 m p 1;
     m \<leftarrow> wr8 m (p + 4) 0;
     m \<leftarrow> wr16 m (p + 6) 24;
     m \<leftarrow> wr32 m (p + 8) 0xFFFFFFFF;
     (case sid of None \<Rightarrow> Some m | Some s \<Rightarrow> wr_sid m (p + 12) s) }"

definition SfCreateDefaultSystemDacl ::
    "u8 list option \<Rightarrow> VEA_SID option \<Rightarrow> VEA_SID option \<Rightarrow> u8 list option option" where
  "SfCreateDefaultSystemDacl pool SfSystemSid SfAdministratorSid =
     (case pool of None \<Rightarrow> Some None
      | Some m \<Rightarrow> do {
          m \<leftarrow> wr8 m 0 sid_letter;
          m \<leftarrow> wr8 m 1 0;
          m \<leftarrow> wr16 m 2 56;
          m \<leftarrow> wr16 m 4 2;
          m \<leftarrow> wr16 m 6 0;
          m \<leftarrow> write_ace m 8 SfSystemSid;
          AceSize \<leftarrow> rd16 m (8 + 6);
          m \<leftarrow> write_ace m (8 + unat AceSize) SfAdministratorSid;
          Some (Some m) })"

text \<open>The outer \<open>None\<close> is the store through the unchecked group array.\<close>

definition SfCreateSystemGenericToken ::
    "bool \<Rightarrow> bool \<Rightarrow> u8 list option \<Rightarrow> VEA_SID option \<Rightarrow> VEA_SID option \<Rightarrow>
     VEA_TOKEN option option" where
  "SfCreateSystemGenericToken token_ok groups_ok dacl_pool SfSystemSid SfAdministratorSid =
     (if \<not> token_ok then Some None
      else do {
        user \<leftarrow> SfSystemSid;
        groups \<leftarrow> (if groups_ok then Some [SfAdministratorSid] else None);
        dacl \<leftarrow> SfCreateDefaultSystemDacl dacl_pool SfSystemSid SfAdministratorSid;
        Some (Some \<lparr>UserSid = user, PrimaryGroup = zero_sid, PrivilegeMask = 0xFFFFFFFF, GroupCount = 1,
          SupplementaryGroups = Some groups, DefaultDacl = dacl,
          AuthenticationId = (999, 0)\<rparr>) })"

definition SfCreateNormalSecurityDescriptor ::
    "bool \<Rightarrow> u8 list option \<Rightarrow> VEA_SID option \<Rightarrow> VEA_SID option \<Rightarrow> VEA_TOKEN option \<Rightarrow>
     VEA_SECURITY_DESCRIPTOR option option" where
  "SfCreateNormalSecurityDescriptor sd_ok dacl_pool SfSystemSid SfAdministratorSid SfSystemToken =
     (if \<not> sd_ok then Some None
      else do {
        dacl \<leftarrow> (case SfSystemToken of
            Some t \<Rightarrow> (if DefaultDacl t \<noteq> None then Some (DefaultDacl t)
                       else SfCreateDefaultSystemDacl dacl_pool SfSystemSid SfAdministratorSid)
          | None \<Rightarrow> SfCreateDefaultSystemDacl dacl_pool SfSystemSid SfAdministratorSid);
        Some (Some \<lparr>SdRevision = sid_letter, SdOwner = SfSystemSid, SdGroup = SfAdministratorSid,
          Dacl = dacl\<rparr>) })"

record SF_GLOBALS =
  SfEveryoneSid :: "VEA_SID option"
  SfSystemSid :: "VEA_SID option"
  SfAdministratorSid :: "VEA_SID option"
  SfSystemToken :: "VEA_TOKEN option"

text \<open>\<open>ok i\<close> is the outcome of the \<open>i\<close>-th pool allocation of the boot phase.\<close>

definition SfInitSystem ::
    "(nat \<Rightarrow> bool) \<Rightarrow> u8 list option \<Rightarrow> SF_GLOBALS \<Rightarrow> u32 \<Rightarrow> (bool \<times> SF_GLOBALS) option" where
  "SfInitSystem ok dacl_pool g BootPhase =
     (if BootPhase = 0 then
        let g = g\<lparr>SfEveryoneSid := SfAllocateAndInitializeSid (ok 0) 0 0 1\<rparr>
        in if SfEveryoneSid g = None then Some (False, g)
        else let g = g\<lparr>SfSystemSid := SfAllocateAndInitializeSid (ok 1) 0 1 1\<rparr>
        in if SfSystemSid g = None then Some (False, g)
        else let g = g\<lparr>SfAdministratorSid := SfAllocateAndInitializeSid (ok 2) 0 2 1\<rparr>
        in if SfAdministratorSid g = None then Some (False, g)
        else do {
          token \<leftarrow> SfCreateSystemGenericToken (ok 3) (ok 4) dacl_pool
                    (SfSystemSid g) (SfAdministratorSid g);
          let g = g\<lparr>SfSystemToken := token\<rparr>;
          Some (if token = None then (False, g) else (True, g)) }
      else Some (True, g))"

text \<open>The two checks of the self test \<open>SfTestSecuritySubsystem\<close>: the list it builds, and
  the checks of its two users; the result is what the two \<open>PASS\<close> conditions evaluate
  to.\<close>

definition test_dacl :: "u8 list option" where
  "test_dacl = do {
     m \<leftarrow> Some (replicate 32 0);
     m \<leftarrow> wr16 m 4 1;
     m \<leftarrow> wr16 m 2 32;
     m \<leftarrow> wr32 m 8 ALLOW;
     m \<leftarrow> wr16 m (8 + 6) 24;
     m \<leftarrow> wr32 m (8 + 8) 1;
     m \<leftarrow> wr8 m (8 + 12) sid_letter;
     m \<leftarrow> wr8 m (8 + 13) 1;
     wr32 m (8 + 12 + 8) 1 }"

definition test_token :: "u32 \<Rightarrow> VEA_TOKEN" where
  "test_token user =
     \<lparr>UserSid = \<lparr>SidRevision = sid_letter, Authority = 1, SidFlags = 0, MachineID = 0, UserID = user\<rparr>,
      PrimaryGroup = zero_sid, PrivilegeMask = 0, GroupCount = 0, SupplementaryGroups = None, DefaultDacl = None,
      AuthenticationId = (0, 0)\<rparr>"

definition SfTestSecuritySubsystem :: "(bool \<times> bool) option" where
  "SfTestSecuritySubsystem = do {
     m \<leftarrow> test_dacl;
     let Sd = \<lparr>SdRevision = sid_letter, SdOwner = None, SdGroup = None, Dacl = Some m\<rparr>;
     let DummyMapping = \<lparr>GenericRead = 1, GenericWrite = 2, GenericExecute = 4, GenericAll = 0xF\<rparr>;
     (AccessAllowed, GrantedAccess) \<leftarrow>
       SfAccessCheck (Some Sd) (Some (test_token 1)) VEA_GENERIC_READ (Some DummyMapping);
     (AccessAllowed2, GrantedAccess2) \<leftarrow>
       SfAccessCheck (Some Sd) (Some (test_token 2)) VEA_GENERIC_READ (Some DummyMapping);
     Some (AccessAllowed \<and> GrantedAccess = 1, \<not> AccessAllowed2) }"

section \<open>Specification\<close>

text \<open>An entry of a list, and the entries a block of memory holds from a position on (each
  found by the size of the one before). A bit of the request is decided by the first
  entry that names it and applies to the token.\<close>

record VEA_ACE =
  AceType :: u32
  AccessMask :: u32
  TargetSid :: VEA_SID

fun aces_at :: "u8 list \<Rightarrow> nat \<Rightarrow> VEA_ACE list \<Rightarrow> bool" where
  "aces_at m p [] = True"
| "aces_at m p (a # as) = (rd_sid m (p + 12) = Some (TargetSid a) \<and> rd32 m p = Some (AceType a) \<and>
     rd32 m (p + 8) = Some (AccessMask a) \<and>
     (case rd16 m (p + 6) of None \<Rightarrow> False | Some sz \<Rightarrow> aces_at m (p + unat sz) as))"

definition sid_key :: "VEA_SID \<Rightarrow> u8 \<times> u8 \<times> u32 \<times> u32" where
  "sid_key s = (SidRevision s, Authority s, MachineID s, UserID s)"

definition token_wf :: "VEA_TOKEN \<Rightarrow> bool" where
  "token_wf t \<longleftrightarrow> (case SupplementaryGroups t of None \<Rightarrow> True
     | Some gs \<Rightarrow> unat (GroupCount t) \<le> length gs)"

definition token_sids :: "VEA_TOKEN \<Rightarrow> VEA_SID set" where
  "token_sids t = insert (UserSid t) (case SupplementaryGroups t of None \<Rightarrow> {}
     | Some gs \<Rightarrow> {g. Some g \<in> set (take (unat (GroupCount t)) gs)})"

definition token_has :: "VEA_TOKEN \<Rightarrow> VEA_SID \<Rightarrow> bool" where
  "token_has t s \<longleftrightarrow> sid_key s \<in> sid_key ` token_sids t"

definition rules :: "VEA_TOKEN \<Rightarrow> nat \<Rightarrow> VEA_ACE list \<Rightarrow> VEA_ACE list" where
  "rules t b = filter (\<lambda>a. token_has t (TargetSid a) \<and> (AceType a = DENY \<or> AceType a = ALLOW) \<and>
     bit (AccessMask a) b)"

definition first_rule_allows :: "VEA_TOKEN \<Rightarrow> VEA_ACE list \<Rightarrow> nat \<Rightarrow> bool" where
  "first_rule_allows t aces b =
     (case rules t b aces of [] \<Rightarrow> False | a # _ \<Rightarrow> AceType a = ALLOW)"

definition full_ace :: "VEA_SID \<Rightarrow> VEA_ACE" where
  "full_ace s = \<lparr>AceType = ALLOW, AccessMask = 0xFFFFFFFF, TargetSid = s\<rparr>"

section \<open>Matching and masks\<close>

lemma SfEqualSid_iff [simp]: "SfEqualSid (Some a) (Some b) \<longleftrightarrow> sid_key a = sid_key b"
  by (auto simp: SfEqualSid_def sid_key_def)

lemma group_loop_eq:
  "i + n \<le> length gs \<Longrightarrow>
   group_loop gs s i n = Some (\<exists>g. Some g \<in> set (take n (drop i gs)) \<and> sid_key g = sid_key s)"
proof (induction n arbitrary: i)
  case 0
  then show ?case by simp
next
  case (Suc n)
  then have "take (Suc n) (drop i gs) = gs ! i # take n (drop (Suc i) gs)"
    by (simp add: Cons_nth_drop_Suc [symmetric])
  then show ?case using Suc by (cases "gs ! i") auto
qed

lemma SfpMatchSidWithToken_eq:
  "token_wf t \<Longrightarrow> SfpMatchSidWithToken (Some t) (Some s) = Some (token_has t s)"
  by (auto simp: SfpMatchSidWithToken_def token_wf_def token_has_def token_sids_def group_loop_eq
      image_iff split: option.splits)

lemma rules_Cons:
  "rules t b (a # as) = (if token_has t (TargetSid a) \<and> (AceType a = DENY \<or> AceType a = ALLOW) \<and>
     bit (AccessMask a) b then a # rules t b as else rules t b as)"
  by (simp add: rules_def)

lemma DENY_ALLOW [simp]: "DENY \<noteq> ALLOW" "ALLOW \<noteq> DENY"
  by (simp_all add: DENY_def ALLOW_def)

lemma word_eq_0_bits: "w = 0 \<longleftrightarrow> (\<forall>b. \<not> bit (w :: 'a::len word) b)"
  by (auto simp: bit_eq_iff dest: bit_imp_le_length)

lemma ace_loop_decides:
  assumes "token_wf t"
  shows "aces_at m p aces \<Longrightarrow> ace_loop t m p (length aces) R L =
    Some (if \<forall>b. bit R b \<longrightarrow> first_rule_allows t aces b then (True, L OR R) else (False, 0))"
proof (induction aces arbitrary: p R L)
  case Nil
  show ?case
  proof (cases "R = 0")
    case False
    then have "\<exists>b. bit R b" by (simp add: word_eq_0_bits)
    then show ?thesis using False by (auto simp: first_rule_allows_def rules_def)
  qed simp
next
  case (Cons a as)
  let ?ok = "\<lambda>R aces. \<forall>b. bit R b \<longrightarrow> first_rule_allows t aces b"
  obtain sz where sz: "rd16 m (p + 6) = Some sz" "aces_at m (p + unat sz) as"
    using Cons.prems by (auto split: option.splits)
  note IH = Cons.IH [OF sz(2)]
  have step: "ace_loop t m p (length (a # as)) R L =
     (if token_has t (TargetSid a) \<and> AceType a = DENY \<and> R AND AccessMask a \<noteq> 0 then Some (False, 0)
      else if token_has t (TargetSid a) \<and> AceType a = ALLOW then
        (if R AND NOT (R AND AccessMask a) = 0 then Some (True, L OR (R AND AccessMask a))
         else ace_loop t m (p + unat sz) (length as) (R AND NOT (R AND AccessMask a)) (L OR (R AND AccessMask a)))
      else ace_loop t m (p + unat sz) (length as) R L)"
    using Cons.prems sz(1) by (simp add: SfpMatchSidWithToken_eq [OF assms] Let_def)
  consider (deny) "token_has t (TargetSid a)" "AceType a = DENY" | (allow) "token_has t (TargetSid a)" "AceType a = ALLOW"
    | (skip) "\<not> (token_has t (TargetSid a) \<and> (AceType a = DENY \<or> AceType a = ALLOW))" by blast
  then show ?case
  proof cases
    case deny
    have "\<not> ?ok R (a # as)" if "R AND AccessMask a \<noteq> 0"
      using that deny by (auto simp: word_eq_0_bits bit_and_iff first_rule_allows_def rules_Cons)
    moreover have "?ok R (a # as) = ?ok R as" if "R AND AccessMask a = 0"
      using that deny by (auto simp: word_eq_0_bits bit_and_iff first_rule_allows_def rules_Cons)
    ultimately show ?thesis using step IH [of R L] deny by auto
  next
    case allow
    let ?R = "R AND NOT (R AND AccessMask a)" and ?L = "L OR (R AND AccessMask a)"
    have Rb: "bit ?R b = (bit R b \<and> \<not> bit (AccessMask a) b)" for b
      unfolding bit_and_iff bit_not_iff by (auto dest: bit_imp_le_length)
    have "?ok R (a # as) = ?ok ?R as"
      unfolding Rb using allow by (auto simp: first_rule_allows_def rules_Cons)
    moreover have "?L OR ?R = L OR R"
      by (rule bit_eqI) (auto simp: bit_or_iff bit_and_iff bit_not_iff)
    moreover have "?R = 0 \<Longrightarrow> ?ok ?R as" by simp
    ultimately show ?thesis using step IH [of ?R ?L] allow by (auto simp del: bit_0_eq)
  next
    case skip
    then have "rules t b (a # as) = rules t b as" for b by (auto simp: rules_Cons)
    then show ?thesis using step IH [of R L] skip by (auto simp: first_rule_allows_def)
  qed
qed

section \<open>The default list\<close>

interpretation csid: codec enc_sid dec_sid 12
proof unfold_locales
  show "length (enc_sid v) = 12" for v
    by (simp add: enc_sid_def c8.enc_length c16.enc_length c32.enc_length)
  have "dec16 (enc16 w @ bs) = w" for w bs
    using dec_enc16 [of w] by (simp add: dec16_def enc16_def)
  moreover have "dec32 (enc32 w @ bs) = w" for w bs
    using dec_enc32 [of w] by (simp add: dec32_def enc32_def)
  ultimately show "dec_sid (enc_sid v) = v" for v
    by (simp add: dec_sid_def enc_sid_def c8.enc_length c16.enc_length c32.enc_length)
      (simp add: dec8_def enc8_def dec_enc32)
qed

lemma write_ace_spec:
  assumes "p + 24 \<le> length m"
  shows "\<exists>m'. write_ace m p (Some s) = Some m' \<and> length m' = length m \<and> rd_sid m' (p + 12) = Some s \<and>
     rd32 m' p = Some ALLOW \<and> rd32 m' (p + 8) = Some 0xFFFFFFFF \<and> rd16 m' (p + 6) = Some 24 \<and>
     (\<forall>q k. q + k \<le> p \<or> p + 24 \<le> q \<longrightarrow> get_bytes m' q k = get_bytes m q k)"
proof -
  obtain m1 where m1: "wr32 m p 1 = Some m1" using c32.wr_field_Some [of p m] assms by auto
  obtain m2 where m2: "wr8 m1 (p + 4) 0 = Some m2"
    using c8.wr_field_Some [of "p + 4" m1] assms c32.wr_length [OF m1] by auto
  obtain m3 where m3: "wr16 m2 (p + 6) 24 = Some m3"
    using c16.wr_field_Some [of "p + 6" m2] assms c8.wr_length [OF m2] c32.wr_length [OF m1] by auto
  note len3 = c16.wr_length [OF m3] c8.wr_length [OF m2] c32.wr_length [OF m1]
  obtain m4 where m4: "wr32 m3 (p + 8) 0xFFFFFFFF = Some m4"
    using c32.wr_field_Some [of "p + 8" m3] assms len3 by auto
  obtain m5 where m5: "wr_sid m4 (p + 12) s = Some m5"
    using csid.wr_field_Some [of "p + 12" m4] assms len3 c32.wr_length [OF m4] by auto
  have "write_ace m p (Some s) = Some m5" by (simp add: write_ace_def m1 m2 m3 m4 m5)
  moreover have "length m5 = length m"
    using len3 c32.wr_length [OF m4] csid.wr_length [OF m5] by simp
  moreover have "rd32 m5 p = Some ALLOW"
    by (simp add: ALLOW_def csid.rd_wr_other [OF m5] c32.rd_wr_other [OF m4] c16.rd_wr_other [OF m3]
      c8.rd_wr_other [OF m2] c32.rd_wr_same [OF m1])
  moreover have "rd32 m5 (p + 8) = Some 0xFFFFFFFF"
    by (simp add: csid.rd_wr_other [OF m5] c32.rd_wr_same [OF m4])
  moreover have "rd16 m5 (p + 6) = Some 24"
    by (simp add: csid.rd_wr_other [OF m5] c32.rd_wr_other [OF m4] c16.rd_wr_same [OF m3])
  moreover have "get_bytes m5 q k = get_bytes m q k" if "q + k \<le> p \<or> p + 24 \<le> q" for q k
    using that by (auto simp: csid.get_wr_other [OF m5] c32.get_wr_other [OF m4]
      c16.get_wr_other [OF m3] c8.get_wr_other [OF m2] c32.get_wr_other [OF m1])
  ultimately show ?thesis using csid.rd_wr_same [OF m5] by blast
qed

lemma SfCreateDefaultSystemDacl_spec:
  assumes "length pool = 56"
  shows "\<exists>dacl. SfCreateDefaultSystemDacl (Some pool) (Some s) (Some a) = Some (Some dacl) \<and>
     length dacl = 56 \<and> rd16 dacl 4 = Some 2 \<and> aces_at dacl 8 [full_ace s, full_ace a]"
proof -
  obtain m1 where m1: "wr8 pool 0 sid_letter = Some m1" using c8.wr_field_Some [of 0 pool] assms by auto
  obtain m2 where m2: "wr8 m1 1 0 = Some m2"
    using c8.wr_field_Some [of 1 m1] assms c8.wr_length [OF m1] by auto
  note len2 = c8.wr_length [OF m2] c8.wr_length [OF m1]
  obtain m3 where m3: "wr16 m2 2 56 = Some m3" using c16.wr_field_Some [of 2 m2] assms len2 by auto
  note len3 = c16.wr_length [OF m3] len2
  obtain m4 where m4: "wr16 m3 4 2 = Some m4" using c16.wr_field_Some [of 4 m3] assms len3 by auto
  note len4 = c16.wr_length [OF m4] len3
  obtain m5 where m5: "wr16 m4 6 0 = Some m5" using c16.wr_field_Some [of 6 m4] assms len4 by auto
  note len5 = c16.wr_length [OF m5] len4
  have "rd16 m5 4 = Some 2" by (simp add: c16.rd_wr_other [OF m5] c16.rd_wr_same [OF m4])
  note r5 = this
  obtain m6 where m6: "write_ace m5 8 (Some s) = Some m6" using write_ace_spec [of 8 m5 s] assms len5 by auto
  note w6 = write_ace_spec [of 8 m5 s, unfolded m6, simplified]
  have len6: "length m6 = 56" using w6 assms len5 by auto
  obtain m7 where m7: "write_ace m6 32 (Some a) = Some m7" using write_ace_spec [of 32 m6 a] len6 by auto
  note w7 = write_ace_spec [of 32 m6 a, unfolded m7, simplified]
  have keep6: "get_bytes m6 q k = get_bytes m5 q k" if "q + k \<le> 8 \<or> 32 \<le> q" for q k
    using w6 that assms len5 by auto
  have r6: "rd16 m6 14 = Some 24" "rd_sid m6 20 = Some s" "rd32 m6 8 = Some ALLOW" "rd32 m6 16 = Some 0xFFFFFFFF"
    "rd16 m6 4 = Some 2"
    using w6 r5 assms len5 keep6 by (auto simp: rd_field_def)
  have keep7: "get_bytes m7 q k = get_bytes m6 q k" if "q + k \<le> 32 \<or> 56 \<le> q" for q k
    using w7 that len6 by auto
  have "SfCreateDefaultSystemDacl (Some pool) (Some s) (Some a) = Some (Some m7)"
    by (simp add: SfCreateDefaultSystemDacl_def m1 m2 [simplified] m3 m4 m5 m6 m7 r6)
  moreover have "rd16 m7 4 = Some 2" "rd16 m7 14 = Some 24"
    using r6 by (simp_all add: rd_field_def keep7)
  moreover have "rd_sid m7 20 = Some s" using r6 by (simp_all add: rd_field_def keep7)
  moreover have "rd32 m7 8 = Some ALLOW" "rd32 m7 16 = Some 0xFFFFFFFF" using r6 by (simp_all add: rd_field_def keep7)
  moreover have "length m7 = 56" "rd_sid m7 44 = Some a" "rd32 m7 32 = Some ALLOW" "rd32 m7 40 = Some 0xFFFFFFFF"
     "rd16 m7 38 = Some 24" using w7 len6 by auto
  ultimately show ?thesis by (simp add: full_ace_def)
qed

section \<open>The generic mapping\<close>

definition mapping_clean :: "GENERIC_MAPPING \<Rightarrow> bool" where
  "mapping_clean g \<longleftrightarrow> (\<forall>k\<in>{28, 29, 30, 31}. \<not> bit (GenericRead g) k \<and> \<not> bit (GenericWrite g) k \<and>
     \<not> bit (GenericExecute g) k \<and> \<not> bit (GenericAll g) k)"

lemma bit_map_bit:
  assumes "k < 32"
  shows "bit (map_bit (push_bit k 1) s m) i \<longleftrightarrow> (bit m i \<and> i \<noteq> k) \<or> (bit m k \<and> bit s i)"
proof -
  have b: "bit (push_bit k 1 :: u32) j \<longleftrightarrow> j = k" for j
    unfolding bit_push_bit_iff bit_1_iff using assms by auto
  have "(m AND push_bit k 1 \<noteq> 0) = bit m k"
    unfolding word_eq_0_bits bit_and_iff b by auto
  moreover have "bit (NOT (push_bit k 1) :: u32) j \<longleftrightarrow> j < 32 \<and> j \<noteq> k" for j
    unfolding bit_not_iff b by simp
  moreover have "bit m i \<Longrightarrow> i < 32" using bit_imp_le_length [of m i] by simp
  ultimately show ?thesis
    by (cases "bit m k") (auto simp: map_bit_def bit_or_iff bit_and_iff)
qed

lemma generic_push_bit:
  "VEA_GENERIC_READ = push_bit 31 1" "VEA_GENERIC_WRITE = push_bit 30 1"
  "VEA_GENERIC_EXECUTE = push_bit 29 1" "VEA_GENERIC_ALL = push_bit 28 1"
  by (simp_all add: generic_defs)

lemmas map_generic_bits =
  bit_map_bit [of 31, folded generic_push_bit] bit_map_bit [of 30, folded generic_push_bit]
  bit_map_bit [of 29, folded generic_push_bit] bit_map_bit [of 28, folded generic_push_bit]

lemma SfMapGenericMask_bits:
  assumes "mapping_clean g"
  shows "bit (SfMapGenericMask m (Some g)) i \<longleftrightarrow> (bit m i \<and> i < 28) \<or> (bit m 31 \<and> bit (GenericRead g) i) \<or>
     (bit m 30 \<and> bit (GenericWrite g) i) \<or> (bit m 29 \<and> bit (GenericExecute g) i) \<or>
     (bit m 28 \<and> bit (GenericAll g) i)"
proof -
  have e: "bit (SfMapGenericMask m (Some g)) i \<longleftrightarrow>
     ((((bit m i \<and> i \<noteq> 31 \<or> bit m 31 \<and> bit (GenericRead g) i) \<and> i \<noteq> 30 \<or>
        bit m 30 \<and> bit (GenericWrite g) i) \<and> i \<noteq> 29 \<or> bit m 29 \<and> bit (GenericExecute g) i) \<and>
      i \<noteq> 28 \<or> bit m 28 \<and> bit (GenericAll g) i)"
    using assms unfolding SfMapGenericMask_def Let_def option.case mapping_clean_def
    by (simp add: map_generic_bits)
  have "bit m i \<Longrightarrow> i < 32" using bit_imp_le_length [of m i] by simp
  then consider "i < 28" | "i = 28" | "i = 29" | "i = 30" | "i = 31" | "31 < i" "\<not> bit m i" by linarith
  then show ?thesis
    unfolding e using assms by cases (auto simp: mapping_clean_def)
qed

section \<open>The check as a whole\<close>

lemma SfAccessCheck_eq:
  assumes "token_wf t" "Dacl sd = Some dacl" "rd16 dacl 4 = Some (of_nat (length aces))"
    "length aces < 2 ^ 16" "aces_at dacl 8 aces" "SfMapGenericMask m g \<noteq> 0"
  shows "SfAccessCheck (Some sd) (Some t) m g =
    Some (if \<forall>b. bit (SfMapGenericMask m g) b \<longrightarrow> first_rule_allows t aces b
          then (True, SfMapGenericMask m g) else (False, 0))"
proof -
  have n: "unat (of_nat (length aces) :: u16) = length aces"
    using assms(4) by (intro unat_of_nat_lt) simp
  have z: "(of_nat (length aces) :: u16) = 0 \<longleftrightarrow> aces = []"
    using n by (metis length_0_conv unat_eq_zero)
  have no: "\<exists>b. bit (SfMapGenericMask m g) b" using assms(6) by (simp add: word_eq_0_bits)
  show ?thesis
  proof (cases "aces = []")
    case True
    then have "\<not> first_rule_allows t aces b" for b by (simp add: first_rule_allows_def rules_def)
    then show ?thesis using True no assms(2,3,6) by (simp add: SfAccessCheck_def Let_def)
  next
    case False
    then have "SfAccessCheck (Some sd) (Some t) m g =
        ace_loop t dacl 8 (length aces) (SfMapGenericMask m g) 0"
      using assms(2,3,6) z n by (simp add: SfAccessCheck_def Let_def)
    then show ?thesis by (simp only: ace_loop_decides [OF assms(1,5)] or.left_neutral)
  qed
qed

lemma full_access_rules:
  "b < 32 \<Longrightarrow> first_rule_allows t [full_ace s, full_ace a] b \<longleftrightarrow> token_has t s \<or> token_has t a"
proof -
  assume "b < 32"
  moreover have "(0xFFFFFFFF :: u32) = - 1" by simp
  ultimately have "bit (0xFFFFFFFF :: u32) b" by (simp only: bit_minus_1_iff possible_bit_word) simp
  then show ?thesis by (auto simp: first_rule_allows_def rules_Cons full_ace_def) (simp_all add: rules_def)
qed

text \<open>Any well-formed token in front of the default list.\<close>

lemma default_dacl_check:
  assumes "SfCreateDefaultSystemDacl (Some pool) (Some s) (Some a) = Some (Some dacl)"
    "length pool = 56" "Dacl sd = Some dacl" "token_wf t" "SfMapGenericMask m g \<noteq> 0"
  shows "SfAccessCheck (Some sd) (Some t) m g =
    Some (if token_has t s \<or> token_has t a then (True, SfMapGenericMask m g) else (False, 0))"
proof -
  have d: "rd16 dacl 4 = Some 2" "aces_at dacl 8 [full_ace s, full_ace a]"
    using SfCreateDefaultSystemDacl_spec [OF assms(2), of s a] assms(1) by auto
  have "(\<forall>b. bit (SfMapGenericMask m g) b \<longrightarrow> first_rule_allows t [full_ace s, full_ace a] b) =
      (token_has t s \<or> token_has t a)"
    using assms(5) full_access_rules [of _ t s a] bit_imp_le_length [of "SfMapGenericMask m g"]
    by (auto simp: word_eq_0_bits)
  then show ?thesis
    using SfAccessCheck_eq [OF assms(4,3) _ _ d(2) assms(5)] d(1) by simp
qed

definition boot_sid :: "u32 \<Rightarrow> VEA_SID" where
  "boot_sid user = \<lparr>SidRevision = sid_letter, Authority = 1, SidFlags = 0, MachineID = 0, UserID = user\<rparr>"

lemma SfInitSystem_eq:
  assumes "\<forall>i<5. ok i" "SfCreateDefaultSystemDacl (Some pool) (Some (boot_sid 1)) (Some (boot_sid 2)) = Some (Some dacl)"
  shows "SfInitSystem ok (Some pool) g 0 = Some (True,
    \<lparr>SfEveryoneSid = Some (boot_sid 0), SfSystemSid = Some (boot_sid 1), SfAdministratorSid = Some (boot_sid 2),
     SfSystemToken = Some \<lparr>UserSid = boot_sid 1, PrimaryGroup = zero_sid, PrivilegeMask = 0xFFFFFFFF,
       GroupCount = 1, SupplementaryGroups = Some [Some (boot_sid 2)], DefaultDacl = Some dacl,
       AuthenticationId = (999, 0)\<rparr>\<rparr>)"
proof -
  have sid: "SfAllocateAndInitializeSid True 0 u 1 = Some (boot_sid u)" for u
    by (simp add: SfAllocateAndInitializeSid_def boot_sid_def)
  have "ok 0" "ok 1" "ok 2" "ok 3" "ok 4" using assms(1) by simp_all
  then show ?thesis using assms(2) sid
    by (simp add: SfInitSystem_def SfCreateSystemGenericToken_def Let_def)
qed

section \<open>Properties\<close>

text \<open>C3: The access check walks the packed list by entry sizes with an early exit on the
  first denied bit and on the last granted one. Its decision is the declarative one: the
  mapped request is granted in full exactly when for every requested bit the first entry
  that names the bit and applies to the token (user or group) is an ALLOW entry;
  otherwise nothing is granted.\<close>

theorem SfAccessCheck_decides:
  assumes "token_wf t" "Dacl sd = Some dacl" "rd16 dacl 4 = Some (of_nat (length aces))"
    "length aces < 2 ^ 16" "aces_at dacl 8 aces" "SfMapGenericMask m g \<noteq> 0"
  shows "SfAccessCheck (Some sd) (Some t) m g =
    Some (if \<forall>b. bit (SfMapGenericMask m g) b \<longrightarrow> first_rule_allows t aces b
          then (True, SfMapGenericMask m g) else (False, 0))"
  by (rule SfAccessCheck_eq [OF assms])

theorem SfAccessCheck_decides_witness:
  "\<exists>dacl. test_dacl = Some dacl \<and>
     SfAccessCheck (Some \<lparr>SdRevision = 0, SdOwner = None, SdGroup = None, Dacl = Some dacl\<rparr>)
       (Some (test_token 1)) 3 None = Some (False, 0)"
proof -
  let ?s = "\<lparr>SidRevision = sid_letter, Authority = 1, SidFlags = 0, MachineID = 0, UserID = 1\<rparr>"
  let ?d = "[0, 0, 32, 0, 1, 0, 0, 0, 1, 0, 0, 0, 0, 0, 24, 0, 1, 0, 0, 0, 0x53, 1, 0, 0, 0, 0, 0, 0, 1, 0, 0, 0] :: u8 list"
  let ?a = "\<lparr>AceType = ALLOW, AccessMask = 1, TargetSid = ?s\<rparr>"
  have d: "test_dacl = Some ?d"
    by code_simp
  have rd: "rd16 ?d 4 = Some (of_nat (length [?a]))" and at: "aces_at ?d 8 [?a]"
    by code_simp+
  have "bit (3 :: u32) 1" "\<not> first_rule_allows (test_token 1) [?a] 1"
    by (simp_all add: first_rule_allows_def rules_def)
  then have no: "\<not> (\<forall>b. bit (SfMapGenericMask 3 None) b \<longrightarrow> first_rule_allows (test_token 1) [?a] b)"
    unfolding SfMapGenericMask_def option.case by blast
  have "SfAccessCheck (Some \<lparr>SdRevision = 0, SdOwner = None, SdGroup = None, Dacl = Some ?d\<rparr>)
       (Some (test_token 1)) 3 None = Some (False, 0)"
    by (subst SfAccessCheck_decides [OF _ _ rd _ at])
      (use no in \<open>simp_all add: token_wf_def test_token_def SfMapGenericMask_def\<close>)
  with d show ?thesis by blast
qed

text \<open>Mapping the generic rights, one after the other on the same mask, replaces exactly the
  four generic bits by the rights of the mapping and keeps the other bits, when the
  mapping has no generic bits of its own.\<close>

theorem SfMapGenericMask_maps:
  assumes "mapping_clean g"
  shows "bit (SfMapGenericMask m (Some g)) i \<longleftrightarrow> (bit m i \<and> i < 28) \<or> (bit m 31 \<and> bit (GenericRead g) i) \<or>
     (bit m 30 \<and> bit (GenericWrite g) i) \<or> (bit m 29 \<and> bit (GenericExecute g) i) \<or>
     (bit m 28 \<and> bit (GenericAll g) i)"
  by (rule SfMapGenericMask_bits [OF assms])

theorem SfMapGenericMask_maps_witness:
  "bit (SfMapGenericMask 0x90000000 (Some \<lparr>GenericRead = 1, GenericWrite = 2, GenericExecute = 4, GenericAll = 0xF\<rparr>)) 3"
  using SfMapGenericMask_maps [of "\<lparr>GenericRead = 1, GenericWrite = 2, GenericExecute = 4, GenericAll = 0xF\<rparr>" "0x90000000" 3]
  by (simp add: mapping_clean_def)

text \<open>After a successful boot phase a new object protected by the default descriptor is open
  to exactly the tokens that carry the system or the administrator identifier: these get
  every right they ask for, every other token gets none. The list goes through memory:
  it is written field by field into an uninitialised pool block and read back by the
  check.\<close>

theorem boot_security:
  assumes "\<forall>i<5. ok i" "length pool = 56" "token_wf t" "SfMapGenericMask m gm \<noteq> 0"
  shows "\<exists>g' sd. SfInitSystem ok (Some pool) g 0 = Some (True, g') \<and>
    SfCreateNormalSecurityDescriptor True None (SfSystemSid g') (SfAdministratorSid g') (SfSystemToken g') =
      Some (Some sd) \<and>
    SfAccessCheck (Some sd) (Some t) m gm =
      Some (if token_has t (boot_sid 1) \<or> token_has t (boot_sid 2)
            then (True, SfMapGenericMask m gm) else (False, 0))"
proof -
  obtain dacl where d: "SfCreateDefaultSystemDacl (Some pool) (Some (boot_sid 1)) (Some (boot_sid 2)) = Some (Some dacl)"
    using SfCreateDefaultSystemDacl_spec [OF assms(2)] by blast
  let ?sd = "\<lparr>SdRevision = sid_letter, SdOwner = Some (boot_sid 1), SdGroup = Some (boot_sid 2), Dacl = Some dacl\<rparr>"
  have "SfAccessCheck (Some ?sd) (Some t) m gm = Some (if token_has t (boot_sid 1) \<or> token_has t (boot_sid 2)
            then (True, SfMapGenericMask m gm) else (False, 0))"
    by (rule default_dacl_check [OF d assms(2) _ assms(3,4)]) simp
  then show ?thesis using SfInitSystem_eq [OF assms(1) d, of g]
    by (simp add: SfCreateNormalSecurityDescriptor_def)
qed

theorem boot_security_witness:
  "\<exists>g' sd. SfInitSystem (\<lambda>_. True) (Some (replicate 56 0xCC))
       \<lparr>SfEveryoneSid = None, SfSystemSid = None, SfAdministratorSid = None, SfSystemToken = None\<rparr> 0 = Some (True, g') \<and>
    SfAccessCheck (Some sd) (Some (test_token 3)) 1 None = Some (False, 0)"
proof -
  have "\<not> token_has (test_token 3) (boot_sid 1)" "\<not> token_has (test_token 3) (boot_sid 2)"
    by (simp_all add: token_has_def token_sids_def test_token_def boot_sid_def sid_key_def)
  then show ?thesis
    using boot_security [of "\<lambda>_. True" "replicate 56 0xCC" "test_token 3" 1 None
        "\<lparr>SfEveryoneSid = None, SfSystemSid = None, SfAdministratorSid = None, SfSystemToken = None\<rparr>"]
    by (auto simp: token_wf_def test_token_def SfMapGenericMask_def)
qed

text \<open>The kernel's own self test of the security subsystem reports two passes: the user
  named by the only entry is granted the mapped right, the other user is refused.\<close>

theorem SfTestSecuritySubsystem_passes: "SfTestSecuritySubsystem = Some (True, True)"
  by code_simp

end
