(* ===== verification/ObHandle.thy ===== *)
theory ObHandle
  imports SfAccess
begin

text \<open>
  Handle tables (\<open>veakrnl/ul/handle.c\<close>) and the reference counting built on them
  (\<open>veakrnl/ob/obhandle.c\<close>, \<open>oblifecycle.c\<close>, and the name removal of \<open>obdirectory.c\<close>).

  Objects are numbers; \<open>Objects\<close> maps the live ones to their headers, so a use of a freed
  object is \<open>None\<close>. A directory is the list of the objects it names, a handle table the
  array of its entries with the free list threaded through \<open>NextFreeIndex\<close>. Spin locks
  are held over whole operations and do not appear. Where the code takes none, the lookup of
  a handle is cut between the read of the table and the reference; the other operations
  are single steps, also the increments and decrements of counts, which in the code are
  plain \<open>++\<close> and \<open>--\<close>, and the parts of \<open>ObpCreateHandle\<close> and \<open>UlDestroyHandle\<close> outside the lock.
  So the model is that of one processor whose interrupts touch no counts. The delete
  routine of an object type is a call out of the kernel core: it is recorded in
  \<open>DeleteCalls\<close> and what it does is left open.
\<close>

section \<open>Data\<close>

type_synonym obj = nat
type_synonym HANDLE = u32

record HANDLE_TABLE_ENTRY =
  EntryObject :: "obj option"
  EntryGrantedAccess :: u32
  NextFreeIndex :: u32
  OwnerThread :: "nat option"

record HANDLE_TABLE =
  Entries :: "HANDLE_TABLE_ENTRY list"
  MaxEntries :: u32
  HandleCount :: u32
  FirstFreeIndex :: u32

record OBJECT_HEADER =
  ReferenceCount :: u32
  ObType :: "nat option"
  Permanent :: bool
  HasNameInfo :: bool
  NameDirectory :: "nat option"

record OB_LIFECYCLE_REPORT =
  ReportObject :: nat
  CurrentReference :: u32
  IsReferenced :: bool
  IsHandle :: bool
  ReportOwner :: "nat option"
  ReportTarget :: obj

record OB_REPORTS =
  ReportReady :: bool
  ReportTable :: "OB_LIFECYCLE_REPORT option list option"
  ReportFreeIndex :: u32
  ReportPoolOk :: bool

datatype KPROCESSOR_MODE = KernelMode | UserMode
datatype table_ref = KernelTable | ProcessTable

record OB_STATE =
  Objects :: "obj \<rightharpoonup> OBJECT_HEADER"
  Directories :: "nat \<rightharpoonup> obj list"
  TypeHasDelete :: "nat \<Rightarrow> bool"
  DeleteCalls :: "obj list"
  Reports :: OB_REPORTS
  Tables :: "table_ref \<Rightarrow> HANDLE_TABLE option"
  HasProcess :: bool
  CurrentThread :: "nat option"

definition HANDLE_TO_INDEX :: "HANDLE \<Rightarrow> u32" where "HANDLE_TO_INDEX h = drop_bit 2 h"
definition INDEX_TO_HANDLE :: "u32 \<Rightarrow> HANDLE" where "INDEX_TO_HANDLE i = push_bit 2 i"
definition KERNEL_HANDLE_FLAG :: u32 where "KERNEL_HANDLE_FLAG = 0x80000000"
definition OBJ_KERNEL_HANDLE :: u32 where "OBJ_KERNEL_HANDLE = 0x200"
definition OB_KERNEL_HANDLE_TABLE_SIZE :: u32 where "OB_KERNEL_HANDLE_TABLE_SIZE = 1024"

definition STATUS_OBJECT_TYPE_MISMATCH :: VEASTATUS where
  "STATUS_OBJECT_TYPE_MISMATCH = 0xC0000024"

definition zero_entry :: HANDLE_TABLE_ENTRY where
  "zero_entry = \<lparr>EntryObject = None, EntryGrantedAccess = 0, NextFreeIndex = 0, OwnerThread = None\<rparr>"

section \<open>The lifecycle report and the reference count\<close>

text \<open>The table is allocated on the first report; without memory there is none.\<close>

definition open_reports :: "OB_REPORTS \<Rightarrow> OB_REPORTS" where
  "open_reports r =
     (if \<not> ReportReady r \<or> ReportTable r = None
      then (if ReportPoolOk r
            then r\<lparr>ReportTable := Some (replicate 100 None), ReportReady := True\<rparr>
            else r\<lparr>ReportTable := None\<rparr>)
      else r)"

definition ObpReportLifecycle :: "OB_STATE \<Rightarrow> OB_LIFECYCLE_REPORT \<Rightarrow> OB_STATE option" where
  "ObpReportLifecycle s report =
     (let r = open_reports (Reports s)
      in (case ReportTable r of None \<Rightarrow> Some (s\<lparr>Reports := r\<rparr>)
          | Some t \<Rightarrow>
            if ReportFreeIndex r = 100 then Some (s\<lparr>Reports := r\<rparr>)
            else do {
              t \<leftarrow> wr t (unat (ReportFreeIndex r)) (Some report);
              Some (s\<lparr>Reports := r\<lparr>ReportTable := Some t,
                                   ReportFreeIndex := ReportFreeIndex r + 1\<rparr>\<rparr>) }))"

definition set_object :: "obj \<Rightarrow> OBJECT_HEADER option \<Rightarrow> OB_STATE \<Rightarrow> OB_STATE" where
  "set_object x h s = s\<lparr>Objects := (Objects s)(x := h)\<rparr>"

definition ObReferenceObject :: "OB_STATE \<Rightarrow> obj option \<Rightarrow> (OB_STATE \<times> u32) option" where
  "ObReferenceObject s Object =
     (case Object of None \<Rightarrow> Some (s, - 1)
      | Some x \<Rightarrow> do {
          h \<leftarrow> Objects s x;
          let h = h\<lparr>ReferenceCount := ReferenceCount h + 1\<rparr>;
          s \<leftarrow> ObpReportLifecycle (set_object x (Some h) s)
                 \<lparr>ReportObject = x, CurrentReference = ReferenceCount h, IsReferenced = True,
                  IsHandle = False, ReportOwner = None, ReportTarget = x\<rparr>;
          Some (s, ReferenceCount h) })"

definition ObpRemoveEntryDirectory :: "OB_STATE \<Rightarrow> obj \<Rightarrow> OB_STATE option" where
  "ObpRemoveEntryDirectory s x = do {
     h \<leftarrow> Objects s x;
     if \<not> HasNameInfo h then Some s
     else (case NameDirectory h of None \<Rightarrow> Some s
       | Some d \<Rightarrow>
         (case Directories s d of
            None \<Rightarrow> Some (set_object x (Some (h\<lparr>NameDirectory := None\<rparr>))
                      (s\<lparr>Directories := (Directories s)(d \<mapsto> [])\<rparr>))
          | Some entries \<Rightarrow>
            if x \<in> set entries
            then Some (set_object x (Some (h\<lparr>NameDirectory := None\<rparr>))
                   (s\<lparr>Directories := (Directories s)(d \<mapsto> remove1 x entries)\<rparr>))
            else Some s)) }"

definition ObpDeleteNameCheck :: "OB_STATE \<Rightarrow> obj \<Rightarrow> OB_STATE option" where
  "ObpDeleteNameCheck s x = do {
     h \<leftarrow> Objects s x;
     if Permanent h then Some s
     else if HasNameInfo h \<and> NameDirectory h \<noteq> None then ObpRemoveEntryDirectory s x
     else Some s }"

text \<open>At count zero the object is freed, except a permanent one: the delete routine of its
  type runs and its name is removed. The free reads the pool tag through the type
  without testing it.\<close>

definition free_object :: "OB_STATE \<Rightarrow> obj \<Rightarrow> OBJECT_HEADER \<Rightarrow> OB_STATE option" where
  "free_object s x h = do {
     let s = (case ObType h of None \<Rightarrow> s
              | Some ty \<Rightarrow> if TypeHasDelete s ty then s\<lparr>DeleteCalls := DeleteCalls s @ [x]\<rparr> else s);
     s \<leftarrow> (if HasNameInfo h \<and> NameDirectory h \<noteq> None then ObpRemoveEntryDirectory s x else Some s);
     ty \<leftarrow> ObType h;
     Some (set_object x None s) }"

definition ObDereferenceObject :: "OB_STATE \<Rightarrow> obj option \<Rightarrow> (OB_STATE \<times> u32) option" where
  "ObDereferenceObject s Object =
     (case Object of None \<Rightarrow> Some (s, - 1)
      | Some x \<Rightarrow> do {
          h \<leftarrow> Objects s x;
          let NewRefCount = ReferenceCount h - 1;
          s \<leftarrow> ObpReportLifecycle (set_object x (Some (h\<lparr>ReferenceCount := NewRefCount\<rparr>)) s)
                 \<lparr>ReportObject = x, CurrentReference = NewRefCount, IsReferenced = False,
                  IsHandle = False, ReportOwner = None, ReportTarget = x\<rparr>;
          if NewRefCount = 0 \<and> \<not> Permanent h
          then do { s \<leftarrow> free_object s x h; Some (s, NewRefCount) }
          else Some (s, NewRefCount) })"

section \<open>Handle tables\<close>

text \<open>The loop that threads the free list; \<open>i\<close> runs up to the capacity.\<close>

fun free_list_loop :: "HANDLE_TABLE_ENTRY list \<Rightarrow> u32 \<Rightarrow> nat \<Rightarrow> nat \<Rightarrow> HANDLE_TABLE_ENTRY list option" where
  "free_list_loop es cap i 0 = Some es"
| "free_list_loop es cap i (Suc n) = do {
     e \<leftarrow> rd es i;
     es \<leftarrow> wr es i (e\<lparr>NextFreeIndex := (if of_nat i = cap - 1 then 0 else of_nat i + 1)\<rparr>);
     free_list_loop es cap (i + 1) n }"

text \<open>The array has as many entries as fit into the allocated size, 16 bytes each, whose
  multiplication wraps.\<close>

definition UlCreateHandleTable :: "bool \<Rightarrow> bool \<Rightarrow> u32 \<Rightarrow> HANDLE_TABLE option option" where
  "UlCreateHandleTable table_ok entries_ok InitialCapacity =
     (if InitialCapacity < 2 then Some None
      else if \<not> table_ok then Some None
      else if \<not> entries_ok then Some None
      else do {
        es \<leftarrow> free_list_loop (replicate (unat (16 * InitialCapacity) div 16) zero_entry)
               InitialCapacity 1 (unat InitialCapacity - 1);
        Some (Some \<lparr>Entries = es, MaxEntries = InitialCapacity, HandleCount = 0,
                   FirstFreeIndex = 1\<rparr>) })"

definition put_table :: "table_ref \<Rightarrow> HANDLE_TABLE \<Rightarrow> OB_STATE \<Rightarrow> OB_STATE" where
  "put_table r t s = s\<lparr>Tables := (Tables s)(r \<mapsto> t)\<rparr>"

text \<open>The table part of \<open>UlCreateHandle\<close>, under its lock: the new index and table.\<close>

definition table_take ::
    "HANDLE_TABLE \<Rightarrow> obj \<Rightarrow> u32 \<Rightarrow> nat option \<Rightarrow> (u32 \<times> HANDLE_TABLE) option" where
  "table_take t x access thread = do {
     e \<leftarrow> rd (Entries t) (unat (FirstFreeIndex t));
     es \<leftarrow> wr (Entries t) (unat (FirstFreeIndex t))
            \<lparr>EntryObject = Some x, EntryGrantedAccess = access, NextFreeIndex = 0,
             OwnerThread = thread\<rparr>;
     Some (FirstFreeIndex t,
           t\<lparr>Entries := es, FirstFreeIndex := NextFreeIndex e, HandleCount := HandleCount t + 1\<rparr>) }"

definition UlCreateHandle ::
    "OB_STATE \<Rightarrow> table_ref \<Rightarrow> obj option \<Rightarrow> u32 \<Rightarrow> (OB_STATE \<times> HANDLE) option" where
  "UlCreateHandle s r Object access =
     (case (Tables s r, Object) of
        (Some t, Some x) \<Rightarrow>
          if FirstFreeIndex t = 0 then Some (s, 0)
          else do {
            (NewIndex, t) \<leftarrow> table_take t x access (CurrentThread s);
            let NewHandle = INDEX_TO_HANDLE NewIndex;
            s \<leftarrow> ObpReportLifecycle (put_table r t s)
                   \<lparr>ReportObject = unat NewHandle, CurrentReference = HandleCount t, IsReferenced = True,
                    IsHandle = True, ReportOwner = CurrentThread s, ReportTarget = x\<rparr>;
            Some (s, NewHandle) }
      | _ \<Rightarrow> Some (s, 0))"

text \<open>The table part of \<open>UlDestroyHandle\<close>: \<open>Inl\<close> the status of a refused handle, or the
  object, the owner and the new table.\<close>

definition table_release ::
    "HANDLE_TABLE \<Rightarrow> HANDLE \<Rightarrow> (VEASTATUS + (obj \<times> nat option \<times> HANDLE_TABLE)) option" where
  "table_release t Handle =
     (let Index = HANDLE_TO_INDEX Handle
      in if Index = 0 \<or> MaxEntries t \<le> Index then Some (Inl STATUS_INVALID_HANDLE)
         else do {
           e \<leftarrow> rd (Entries t) (unat Index);
           (case EntryObject e of None \<Rightarrow> Some (Inl STATUS_INVALID_HANDLE)
            | Some x \<Rightarrow> do {
                es \<leftarrow> wr (Entries t) (unat Index)
                       \<lparr>EntryObject = None, EntryGrantedAccess = 0,
                        NextFreeIndex = FirstFreeIndex t, OwnerThread = None\<rparr>;
                Some (Inr (x, OwnerThread e,
                  t\<lparr>Entries := es, FirstFreeIndex := Index, HandleCount := HandleCount t - 1\<rparr>)) }) })"

definition UlDestroyHandle :: "OB_STATE \<Rightarrow> table_ref \<Rightarrow> HANDLE \<Rightarrow> (OB_STATE \<times> VEASTATUS) option" where
  "UlDestroyHandle s r Handle =
     (if Handle = 0 then Some (s, STATUS_INVALID_PARAMETER)
      else do {
        t \<leftarrow> Tables s r;
        res \<leftarrow> table_release t Handle;
        (case res of Inl st \<Rightarrow> Some (s, st)
         | Inr (x, owner, t) \<Rightarrow> do {
             s \<leftarrow> ObpReportLifecycle (put_table r t s)
                    \<lparr>ReportObject = unat Handle, CurrentReference = HandleCount t, IsReferenced = False,
                     IsHandle = True, ReportOwner = owner, ReportTarget = x\<rparr>;
             s \<leftarrow> ObpDeleteNameCheck s x;
             (s, n) \<leftarrow> ObDereferenceObject s (Some x);
             Some (s, STATUS_SUCCESS) }) })"

section \<open>Handles of the object manager\<close>

definition ObpIsKernelHandle :: "HANDLE \<Rightarrow> KPROCESSOR_MODE \<Rightarrow> bool" where
  "ObpIsKernelHandle h m \<longleftrightarrow> h AND KERNEL_HANDLE_FLAG \<noteq> 0 \<and> m = KernelMode"

text \<open>The table a handle belongs to and the handle without the kernel flag.\<close>

definition ObpGetHandleTable :: "OB_STATE \<Rightarrow> HANDLE \<Rightarrow> KPROCESSOR_MODE \<Rightarrow> table_ref option \<times> HANDLE" where
  "ObpGetHandleTable s h m =
     (if ObpIsKernelHandle h m
      then (if Tables s KernelTable = None then None else Some KernelTable,
            h AND NOT KERNEL_HANDLE_FLAG)
      else (if HasProcess s \<and> Tables s ProcessTable \<noteq> None then Some ProcessTable else None, h))"

definition ObpCreateHandle ::
    "OB_STATE \<Rightarrow> obj \<Rightarrow> u32 \<Rightarrow> KPROCESSOR_MODE \<Rightarrow> u32 \<Rightarrow> (OB_STATE \<times> VEASTATUS \<times> HANDLE) option" where
  "ObpCreateHandle s x ObjAttributes AccessMode access =
     (let kernel = (ObjAttributes AND OBJ_KERNEL_HANDLE \<noteq> 0 \<or> \<not> HasProcess s) in
      if kernel \<and> AccessMode = UserMode then Some (s, STATUS_INVALID_PARAMETER, 0)
      else let r = (if kernel then KernelTable else ProcessTable) in
      if Tables s r = None then Some (s, STATUS_INVALID_PARAMETER, 0)
      else do {
        (s, n) \<leftarrow> ObReferenceObject s (Some x);
        (s, NewHandle) \<leftarrow> UlCreateHandle s r (Some x) access;
        if NewHandle = 0 then do {
          (s, n) \<leftarrow> ObDereferenceObject s (Some x);
          Some (s, STATUS_INSUFFICIENT_RESOURCES, 0) }
        else Some (s, STATUS_SUCCESS,
                   if kernel then NewHandle OR KERNEL_HANDLE_FLAG else NewHandle) })"

text \<open>\<open>ObReferenceObjectByHandle\<close> takes no lock: up to the reference it only reads, and the
  object it has found is referenced in a second step.\<close>

definition by_handle_lookup ::
    "OB_STATE \<Rightarrow> HANDLE \<Rightarrow> u32 \<Rightarrow> nat option \<Rightarrow> KPROCESSOR_MODE \<Rightarrow> (VEASTATUS + obj) option" where
  "by_handle_lookup s Handle DesiredAccess ExpectedType AccessMode =
     (if Handle = 0 then Some (Inl STATUS_INVALID_PARAMETER)
      else (case ObpGetHandleTable s Handle AccessMode of
        (None, _) \<Rightarrow> Some (Inl STATUS_INVALID_HANDLE)
      | (Some r, Handle) \<Rightarrow> do {
          t \<leftarrow> Tables s r;
          let Index = HANDLE_TO_INDEX Handle;
          if Index = 0 \<or> MaxEntries t \<le> Index then Some (Inl STATUS_INVALID_HANDLE)
          else do {
            e \<leftarrow> rd (Entries t) (unat Index);
            (case EntryObject e of None \<Rightarrow> Some (Inl STATUS_INVALID_HANDLE)
             | Some x \<Rightarrow> do {
                 h \<leftarrow> Objects s x;
                 if ExpectedType \<noteq> None \<and> ObType h \<noteq> ExpectedType
                 then Some (Inl STATUS_OBJECT_TYPE_MISMATCH)
                 else if AccessMode = UserMode \<and> EntryGrantedAccess e AND DesiredAccess \<noteq> DesiredAccess
                 then Some (Inl STATUS_ACCESS_DENIED)
                 else Some (Inr x) }) } }))"

definition ObReferenceObjectByHandle ::
    "OB_STATE \<Rightarrow> HANDLE \<Rightarrow> u32 \<Rightarrow> nat option \<Rightarrow> KPROCESSOR_MODE \<Rightarrow>
     (OB_STATE \<times> VEASTATUS \<times> obj option) option" where
  "ObReferenceObjectByHandle s Handle DesiredAccess ExpectedType AccessMode = do {
     res \<leftarrow> by_handle_lookup s Handle DesiredAccess ExpectedType AccessMode;
     (case res of Inl st \<Rightarrow> Some (s, st, None)
      | Inr x \<Rightarrow> do { (s, n) \<leftarrow> ObReferenceObject s (Some x); Some (s, STATUS_SUCCESS, Some x) }) }"

definition ObCloseHandle :: "OB_STATE \<Rightarrow> HANDLE \<Rightarrow> KPROCESSOR_MODE \<Rightarrow> OB_STATE option" where
  "ObCloseHandle s Handle Mode =
     (if Handle = 0 then Some s
      else (case ObpGetHandleTable s Handle Mode of
        (None, _) \<Rightarrow> Some s
      | (Some r, Handle) \<Rightarrow> do { (s, st) \<leftarrow> UlDestroyHandle s r Handle; Some s }))"

text \<open>The access decision when a handle is opened by name.\<close>

definition ObpCheckAccess ::
    "VEA_SECURITY_DESCRIPTOR option \<Rightarrow> GENERIC_MAPPING \<Rightarrow> KPROCESSOR_MODE \<Rightarrow> VEA_TOKEN option \<Rightarrow>
     VEA_TOKEN option \<Rightarrow> u32 \<Rightarrow> (VEASTATUS \<times> u32) option" where
  "ObpCheckAccess sd mapping AccessMode Token ProcessToken DesiredAccess =
     (if AccessMode \<noteq> UserMode then Some (STATUS_SUCCESS, DesiredAccess)
      else do {
        (ok, granted) \<leftarrow> SfAccessCheck sd (if Token = None then ProcessToken else Token)
                           DesiredAccess (Some mapping);
        Some (if ok then STATUS_SUCCESS else STATUS_ACCESS_DENIED, granted) })"

section \<open>Specification\<close>

text \<open>What a table means: which object and which rights each handle index stands for.
  \<open>free_chain\<close> is the list threaded through the free entries; in a well-formed table it
  holds exactly the free indices.\<close>

fun free_chain :: "HANDLE_TABLE_ENTRY list \<Rightarrow> u32 \<Rightarrow> nat list \<Rightarrow> bool" where
  "free_chain es i [] = (i = 0)"
| "free_chain es i (k # ks) =
     (unat i = k \<and> 0 < k \<and> k < length es \<and> free_chain es (NextFreeIndex (es ! k)) ks)"

definition free_list :: "HANDLE_TABLE \<Rightarrow> nat list \<Rightarrow> bool" where
  "free_list t ks \<longleftrightarrow> free_chain (Entries t) (FirstFreeIndex t) ks \<and> distinct ks \<and>
     (\<forall>k. 0 < k \<and> k < length (Entries t) \<longrightarrow> (EntryObject (Entries t ! k) = None) = (k \<in> set ks)) \<and>
     unat (HandleCount t) + length ks + 1 = length (Entries t)"

definition table_inv :: "HANDLE_TABLE \<Rightarrow> bool" where
  "table_inv t \<longleftrightarrow> length (Entries t) = unat (MaxEntries t) \<and> unat (MaxEntries t) < 2 ^ 28 \<and>
     (\<exists>ks. free_list t ks)"

definition table_map :: "HANDLE_TABLE \<Rightarrow> nat \<rightharpoonup> obj \<times> u32" where
  "table_map t i = (if 0 < i \<and> i < length (Entries t)
     then map_option (\<lambda>x. (x, EntryGrantedAccess (Entries t ! i))) (EntryObject (Entries t ! i))
     else None)"

definition held :: "(nat \<rightharpoonup> obj \<times> u32) \<Rightarrow> obj \<Rightarrow> nat" where
  "held m x = card {i. \<exists>a. m i = Some (x, a)}"

lemma held_insert:
  "finite (dom m) \<Longrightarrow> m i = None \<Longrightarrow> held (m(i \<mapsto> (x, a))) y = held m y + (if y = x then 1 else 0)"
proof -
  assume fin: "finite (dom m)" and i: "m i = None"
  have f: "finite {j. \<exists>b. m j = Some (y, b)}" by (rule finite_subset [OF _ fin]) auto
  have "{j. \<exists>b. (m(i \<mapsto> (x, a))) j = Some (y, b)} =
      (if y = x then insert i {j. \<exists>b. m j = Some (y, b)} else {j. \<exists>b. m j = Some (y, b)})"
    using i by auto
  then show ?thesis using f i by (auto simp: held_def)
qed

lemma held_remove:
  "finite (dom m) \<Longrightarrow> m i = Some (x, a) \<Longrightarrow> held m y = held (m(i := None)) y + (if y = x then 1 else 0)"
  using held_insert [of "m(i := None)" i x a y] by (simp add: dom_minus fun_upd_idem)

locale handle_store =
  fixes inv full :: "'t \<Rightarrow> bool" and mp :: "'t \<Rightarrow> nat \<rightharpoonup> obj \<times> u32"
    and put :: "'t \<Rightarrow> obj \<Rightarrow> u32 \<Rightarrow> nat option \<Rightarrow> (u32 \<times> 't) option"
    and release :: "'t \<Rightarrow> HANDLE \<Rightarrow> (VEASTATUS + (obj \<times> nat option \<times> 't)) option"
  assumes finite_map: "inv t \<Longrightarrow> finite (dom (mp t))"
    and put_law: "inv t \<Longrightarrow> \<not> full t \<Longrightarrow> \<exists>i t'. put t x a th = Some (i, t') \<and> inv t' \<and>
      mp t (unat i) = None \<and> mp t' = (mp t)(unat i \<mapsto> (x, a)) \<and>
      INDEX_TO_HANDLE i \<noteq> 0 \<and> HANDLE_TO_INDEX (INDEX_TO_HANDLE i) = i"
    and release_law: "inv t \<Longrightarrow> (case mp t (unat (HANDLE_TO_INDEX h)) of
        None \<Rightarrow> release t h = Some (Inl STATUS_INVALID_HANDLE)
      | Some (x, a) \<Rightarrow> \<exists>owner t'. release t h = Some (Inr (x, owner, t')) \<and> inv t' \<and>
          mp t' = (mp t)(unat (HANDLE_TO_INDEX h) := None))"
begin

lemma put_held:
  assumes "inv t" "\<not> full t"
  shows "\<exists>i t'. put t x a th = Some (i, t') \<and> inv t' \<and> INDEX_TO_HANDLE i \<noteq> 0 \<and>
    mp t' (unat (HANDLE_TO_INDEX (INDEX_TO_HANDLE i))) = Some (x, a) \<and>
    (\<forall>y. held (mp t') y = held (mp t) y + (if y = x then 1 else 0))"
  using put_law [OF assms, of x a th] held_insert [OF finite_map [OF assms(1)]] by fastforce

lemma release_held:
  assumes "inv t"
  shows "release t h = Some (Inl STATUS_INVALID_HANDLE) \<or>
    (\<exists>x owner t'. release t h = Some (Inr (x, owner, t')) \<and> inv t' \<and>
       (\<forall>y. held (mp t) y = held (mp t') y + (if y = x then 1 else 0)))"
  using release_law [OF assms, of h] held_remove [OF finite_map [OF assms]]
  by (fastforce split: option.splits)

text \<open>A released handle is dead, and what is put is found again.\<close>

lemma release_twice:
  assumes "inv t" "release t h = Some (Inr (x, owner, t'))"
  shows "release t' h = Some (Inl STATUS_INVALID_HANDLE)"
  using release_law [OF assms(1), of h] release_law [of t' h] assms(2)
  by (auto split: option.splits)

lemma put_release:
  assumes "inv t" "\<not> full t"
  shows "\<exists>i t' owner t''. put t x a th = Some (i, t') \<and>
    release t' (INDEX_TO_HANDLE i) = Some (Inr (x, owner, t'')) \<and> inv t'' \<and> mp t'' = mp t"
proof -
  obtain i t' where p: "put t x a th = Some (i, t')" "inv t'" "mp t (unat i) = None"
    "mp t' = (mp t)(unat i \<mapsto> (x, a))" "HANDLE_TO_INDEX (INDEX_TO_HANDLE i) = i"
    using put_law [OF assms, of x a th] by blast
  obtain owner t'' where r: "release t' (INDEX_TO_HANDLE i) = Some (Inr (x, owner, t''))" "inv t''"
    "mp t'' = (mp t')(unat i := None)"
    using release_law [OF p(2), of "INDEX_TO_HANDLE i"] by (auto simp: p(4,5))
  have "mp t'' = mp t" using r(3) p(3,4) by auto
  then show ?thesis using p(1) r(1,2) by blast
qed

end

section \<open>The table provides the store\<close>

lemma unat_dec: "0 < unat w \<Longrightarrow> unat (w - 1) = unat w - 1"
  using unat_sub_le [of 1 w] by (simp add: word_le_nat_alt)

lemma free_chain_update:
  "k \<notin> set ks \<Longrightarrow> free_chain (es[k := e]) i ks = free_chain es i ks"
  by (induction ks arbitrary: i) auto

lemma index_handle:
  assumes "0 < unat i" "unat i < 2 ^ 28"
  shows "INDEX_TO_HANDLE i \<noteq> 0" "HANDLE_TO_INDEX (INDEX_TO_HANDLE i) = i"
proof -
  have u: "unat (INDEX_TO_HANDLE i) = 4 * unat i"
    using assms unat_mult_lt [of i 4] by (simp add: INDEX_TO_HANDLE_def push_bit_eq_mult)
  then show "INDEX_TO_HANDLE i \<noteq> 0" using assms by auto
  show "HANDLE_TO_INDEX (INDEX_TO_HANDLE i) = i"
    by (rule word_unat_eq_iff [THEN iffD2]) (simp add: HANDLE_TO_INDEX_def unat_drop_bit u)
qed

lemma table_take_law:
  assumes "table_inv t" "FirstFreeIndex t \<noteq> 0"
  shows "\<exists>i t'. table_take t x a th = Some (i, t') \<and> table_inv t' \<and> table_map t (unat i) = None \<and>
     table_map t' = (table_map t)(unat i \<mapsto> (x, a)) \<and>
     INDEX_TO_HANDLE i \<noteq> 0 \<and> HANDLE_TO_INDEX (INDEX_TO_HANDLE i) = i"
proof -
  obtain ks where ks: "free_list t ks" using assms(1) by (auto simp: table_inv_def)
  then obtain k ks' where k: "ks = k # ks'" "unat (FirstFreeIndex t) = k" "0 < k" "k < length (Entries t)"
      "free_chain (Entries t) (NextFreeIndex (Entries t ! k)) ks'"
    using assms(2) by (cases ks) (auto simp: free_list_def)
  let ?e = "\<lparr>EntryObject = Some x, EntryGrantedAccess = a, NextFreeIndex = 0, OwnerThread = th\<rparr>"
  let ?t = "t\<lparr>Entries := (Entries t)[k := ?e], FirstFreeIndex := NextFreeIndex (Entries t ! k),
      HandleCount := HandleCount t + 1\<rparr>"
  have "unat (HandleCount t) + 1 < 2 ^ 32"
    using ks assms(1) by (simp add: free_list_def table_inv_def)
  then have hc: "unat (HandleCount t + 1) = unat (HandleCount t) + 1" by (simp add: unat_add_lt)
  have "free_list ?t ks'"
    using ks k hc by (auto simp: free_list_def free_chain_update nth_list_update)
  then have "table_inv ?t" using assms(1) by (auto simp: table_inv_def)
  moreover have "table_take t x a th = Some (FirstFreeIndex t, ?t)"
    using k by (simp add: table_take_def)
  moreover have "EntryObject (Entries t ! k) = None" using ks k by (auto simp: free_list_def)
  then have "table_map t k = None" by (simp add: table_map_def)
  moreover have "table_map ?t = (table_map t)(k \<mapsto> (x, a))"
    using k by (intro ext) (auto simp: table_map_def nth_list_update)
  moreover have "unat (FirstFreeIndex t) < 2 ^ 28" using assms(1) k by (simp add: table_inv_def)
  ultimately show ?thesis using index_handle [of "FirstFreeIndex t"] k by auto
qed

lemma table_release_law:
  assumes "table_inv t"
  shows "case table_map t (unat (HANDLE_TO_INDEX h)) of
      None \<Rightarrow> table_release t h = Some (Inl STATUS_INVALID_HANDLE)
    | Some (x, a) \<Rightarrow> \<exists>owner t'. table_release t h = Some (Inr (x, owner, t')) \<and> table_inv t' \<and>
        table_map t' = (table_map t)(unat (HANDLE_TO_INDEX h) := None)"
proof -
  define i where "i = HANDLE_TO_INDEX h"
  have len: "length (Entries t) = unat (MaxEntries t)" using assms by (simp add: table_inv_def)
  show ?thesis
  proof (cases "table_map t (unat i)")
    case None
    then show ?thesis using len
      by (auto simp: i_def [symmetric] table_release_def Let_def table_map_def word_le_nat_alt unat_gt_0
          not_le split: if_splits)
  next
    case (Some xa)
    then obtain x where x: "0 < unat i" "unat i < length (Entries t)" "EntryObject (Entries t ! unat i) = Some x"
        "xa = (x, EntryGrantedAccess (Entries t ! unat i))"
      by (auto simp: table_map_def split: if_splits)
    obtain ks where ks: "free_list t ks" using assms by (auto simp: table_inv_def)
    let ?e = "\<lparr>EntryObject = None, EntryGrantedAccess = 0, NextFreeIndex = FirstFreeIndex t, OwnerThread = None\<rparr>"
    let ?t = "t\<lparr>Entries := (Entries t)[unat i := ?e], FirstFreeIndex := i, HandleCount := HandleCount t - 1\<rparr>"
    have notin: "unat i \<notin> set ks" using ks x by (auto simp: free_list_def)
    have "set ks \<subseteq> {1..<length (Entries t)} - {unat i}"
    proof -
      have "free_chain es j ks \<Longrightarrow> set ks \<subseteq> {1..<length es}" for es j
        by (induction ks arbitrary: j) auto
      then show ?thesis using ks notin by (auto simp: free_list_def)
    qed
    then have "card (set ks) \<le> card ({1..<length (Entries t)} - {unat i})" by (intro card_mono) auto
    then have "length ks + 2 \<le> length (Entries t)"
      using ks x by (simp add: free_list_def distinct_card)
    then have "0 < unat (HandleCount t)" using ks by (simp add: free_list_def)
    then have "unat (HandleCount t - 1) = unat (HandleCount t) - 1"
      by (rule unat_dec)
    then have "free_list ?t (unat i # ks)"
      using ks x notin \<open>0 < unat (HandleCount t)\<close>
      by (auto simp: free_list_def free_chain_update nth_list_update)
    then have "table_inv ?t" using assms by (auto simp: table_inv_def)
    moreover have "table_map ?t = (table_map t)(unat i := None)"
      using x by (intro ext) (auto simp: table_map_def nth_list_update)
    moreover have "table_release t h = Some (Inr (x, OwnerThread (Entries t ! unat i), ?t))"
      using x len by (auto simp: table_release_def i_def [symmetric] Let_def word_le_nat_alt)
    ultimately show ?thesis using Some x by (auto simp: i_def [symmetric])
  qed
qed

interpretation ht: handle_store table_inv "\<lambda>t. FirstFreeIndex t = 0" table_map table_take table_release
proof unfold_locales
  show "finite (dom (table_map t))" for t
    by (rule finite_subset [of _ "{..<length (Entries t)}"]) (auto simp: table_map_def split: if_splits)
qed (use table_take_law table_release_law in blast)+

section \<open>A new table\<close>

definition link_entry :: "u32 \<Rightarrow> nat \<Rightarrow> HANDLE_TABLE_ENTRY" where
  "link_entry cap k = zero_entry\<lparr>NextFreeIndex := (if of_nat k = cap - 1 then 0 else of_nat k + 1)\<rparr>"

lemma free_list_loop_nth:
  assumes "i + n \<le> length es" "\<forall>k<length es. i \<le> k \<longrightarrow> es ! k = zero_entry"
  shows "\<exists>es'. free_list_loop es cap i n = Some es' \<and> length es' = length es \<and>
    (\<forall>k<length es. es' ! k = (if i \<le> k \<and> k < i + n then link_entry cap k else es ! k))"
  using assms
proof (induction n arbitrary: i es)
  case 0
  then show ?case by auto
next
  case (Suc n)
  let ?es = "es[i := link_entry cap i]"
  have "\<exists>es'. free_list_loop ?es cap (i + 1) n = Some es' \<and> length es' = length ?es \<and>
    (\<forall>k<length ?es. es' ! k = (if i + 1 \<le> k \<and> k < i + 1 + n then link_entry cap k else ?es ! k))"
    by (rule Suc.IH) (use Suc.prems in auto)
  then obtain es' where es': "free_list_loop ?es cap (i + 1) n = Some es'" "length es' = length es"
    "\<forall>k<length es. es' ! k = (if i + 1 \<le> k \<and> k < i + 1 + n then link_entry cap k else ?es ! k)"
    by auto
  have "free_list_loop es cap i (Suc n) = Some es'"
    using Suc.prems es'(1) by (simp add: link_entry_def)
  then show ?case using es'(2,3) Suc.prems by (auto simp: nth_list_update)
qed

lemma free_chain_links:
  assumes "\<forall>k. 1 \<le> k \<and> k < unat cap \<longrightarrow> es ! k = link_entry cap k" "length es = unat cap"
  shows "1 \<le> j \<Longrightarrow> j < unat cap \<Longrightarrow> free_chain es (of_nat j) [j..<unat cap]"
proof (induction "unat cap - j" arbitrary: j)
  case 0
  then show ?case by simp
next
  case (Suc n)
  have j: "unat (of_nat j :: u32) = j" using Suc.prems unat_lt_u32 [of cap] by (intro unat_of_nat_lt) simp
  have up: "[j..<unat cap] = j # [Suc j..<unat cap]" using Suc.prems by (simp add: upt_conv_Cons)
  have c1: "unat (cap - 1) = unat cap - 1" using Suc.prems by (intro unat_dec) simp
  have nxt: "NextFreeIndex (es ! j) = (if j = unat cap - 1 then 0 else of_nat (Suc j))"
    using assms(1) Suc.prems j c1 by (auto simp: link_entry_def word_unat_eq_iff add.commute)
  show ?case
  proof (cases "j = unat cap - 1")
    case True
    then have "[Suc j..<unat cap] = []" by simp
    then show ?thesis unfolding up using nxt True Suc.prems assms(2) j by simp
  next
    case False
    then have "free_chain es (of_nat (Suc j)) [Suc j..<unat cap]"
      using Suc.prems Suc.hyps by (intro Suc.hyps(1)) auto
    then show ?thesis unfolding up using nxt False Suc.prems assms(2) by (simp add: j)
  qed
qed

lemma UlCreateHandleTable_spec:
  assumes "2 \<le> unat cap" "unat cap < 2 ^ 28"
  shows "\<exists>t. UlCreateHandleTable True True cap = Some (Some t) \<and> table_inv t \<and> table_map t = Map.empty \<and>
     unat (MaxEntries t) = unat cap"
proof -
  have sz: "unat (16 * cap) div 16 = unat cap"
    using assms unat_mult_lt [of 16 cap] by simp
  let ?es = "replicate (unat cap) zero_entry"
  obtain es where es: "free_list_loop ?es cap 1 (unat cap - 1) = Some es" "length es = unat cap"
    "\<forall>k<unat cap. es ! k = (if 1 \<le> k \<and> k < 1 + (unat cap - 1) then link_entry cap k else ?es ! k)"
    using free_list_loop_nth [of 1 "unat cap - 1" ?es cap] assms(1) by auto
  let ?t = "\<lparr>Entries = es, MaxEntries = cap, HandleCount = 0, FirstFreeIndex = 1\<rparr>"
  have links: "\<forall>k. 1 \<le> k \<and> k < unat cap \<longrightarrow> es ! k = link_entry cap k" using es(3) by auto
  have "free_chain es (of_nat 1) [1..<unat cap]"
    using free_chain_links [OF links es(2), of 1] assms(1) by simp
  then have "free_list ?t [1..<unat cap]"
    using es assms(1) by (auto simp: free_list_def link_entry_def zero_entry_def)
  then have "table_inv ?t" using es(2) assms(2) by (auto simp: table_inv_def)
  moreover have "table_map ?t = Map.empty"
    using es by (intro ext) (auto simp: table_map_def link_entry_def zero_entry_def)
  moreover have "\<not> cap < 2" using assms(1) by (simp add: word_less_nat_alt)
  ultimately show ?thesis using es(1) by (simp add: UlCreateHandleTable_def sz)
qed

section \<open>The invariant of the object manager\<close>

text \<open>\<open>ext x\<close> is the number of references to \<open>x\<close> held outside the handle tables. The count in
  the header of a live object is the sum of these and of its handles; a freed object has
  neither.\<close>

definition reports_ok :: "OB_REPORTS \<Rightarrow> bool" where
  "reports_ok r \<longleftrightarrow> unat (ReportFreeIndex r) \<le> 100 \<and>
     (\<forall>t. ReportTable r = Some t \<longrightarrow> length t = 100)"

definition the_map :: "HANDLE_TABLE option \<Rightarrow> nat \<rightharpoonup> obj \<times> u32" where
  "the_map t = (case t of None \<Rightarrow> Map.empty | Some t \<Rightarrow> table_map t)"

definition handles :: "OB_STATE \<Rightarrow> obj \<Rightarrow> nat" where
  "handles s x = held (the_map (Tables s KernelTable)) x + held (the_map (Tables s ProcessTable)) x"

definition count_is :: "OBJECT_HEADER option \<Rightarrow> nat \<Rightarrow> bool" where
  "count_is ho n \<longleftrightarrow> (case ho of None \<Rightarrow> n = 0
     | Some h \<Rightarrow> unat (ReferenceCount h) = n \<and> ObType h \<noteq> None)"

definition counts_ok :: "(obj \<Rightarrow> nat) \<Rightarrow> OB_STATE \<Rightarrow> bool" where
  "counts_ok ext s \<longleftrightarrow> (\<forall>x. count_is (Objects s x) (ext x + handles s x))"

definition ob_inv :: "(obj \<Rightarrow> nat) \<Rightarrow> OB_STATE \<Rightarrow> bool" where
  "ob_inv ext s \<longleftrightarrow> counts_ok ext s \<and> reports_ok (Reports s) \<and>
     (\<forall>r t. Tables s r = Some t \<longrightarrow> table_inv t)"

definition inc :: "(obj \<Rightarrow> nat) \<Rightarrow> obj \<Rightarrow> obj \<Rightarrow> nat" where "inc ext x = ext(x := ext x + 1)"
definition dec :: "(obj \<Rightarrow> nat) \<Rightarrow> obj \<Rightarrow> obj \<Rightarrow> nat" where "dec ext x = ext(x := ext x - 1)"

lemma ObpReportLifecycle_ok:
  assumes "reports_ok (Reports s)"
  shows "\<exists>\<rho>. ObpReportLifecycle s r = Some (s\<lparr>Reports := \<rho>\<rparr>) \<and> reports_ok \<rho>"
proof -
  define q where "q = open_reports (Reports s)"
  have q: "reports_ok q" using assms by (auto simp: reports_ok_def q_def open_reports_def)
  show ?thesis
  proof (cases "ReportTable q = None \<or> ReportFreeIndex q = 100")
    case True
    then show ?thesis using q
      by (fastforce simp: ObpReportLifecycle_def q_def [symmetric] Let_def split: option.splits)
  next
    case False
    then obtain t where t: "ReportTable q = Some t" "length t = 100" using q by (auto simp: reports_ok_def)
    have "unat (ReportFreeIndex q) \<noteq> 100" using False by (auto simp: word_unat_eq_iff)
    then have lt: "unat (ReportFreeIndex q) < 100" using q by (simp add: reports_ok_def)
    then have "unat (ReportFreeIndex q + 1) = unat (ReportFreeIndex q) + 1" by (simp add: unat_add_lt)
    then have "reports_ok (q\<lparr>ReportTable := Some t', ReportFreeIndex := ReportFreeIndex q + 1\<rparr>)"
      if "length t' = 100" for t' using that lt by (simp add: reports_ok_def)
    moreover have "length (t[unat (ReportFreeIndex q) := Some r]) = 100" using t(2) by simp
    ultimately show ?thesis using False t lt
      by (fastforce simp: ObpReportLifecycle_def q_def [symmetric] Let_def)
  qed
qed

lemma handles_simps [simp]:
  "handles (s\<lparr>Reports := r\<rparr>) = handles s" "handles (set_object x h s) = handles s"
  "handles (s\<lparr>Directories := d\<rparr>) = handles s" "handles (s\<lparr>DeleteCalls := l\<rparr>) = handles s"
  by (simp_all add: handles_def set_object_def fun_eq_iff)

lemma set_object_sel [simp]:
  "Objects (set_object x h s) = (Objects s)(x := h)" "Reports (set_object x h s) = Reports s"
  "Tables (set_object x h s) = Tables s" "Directories (set_object x h s) = Directories s"
  "HasProcess (set_object x h s) = HasProcess s" "CurrentThread (set_object x h s) = CurrentThread s"
  "DeleteCalls (set_object x h s) = DeleteCalls s" "TypeHasDelete (set_object x h s) = TypeHasDelete s"
  by (simp_all add: set_object_def)

lemma count_is_simps [simp]:
  "count_is None n \<longleftrightarrow> n = 0"
  "count_is (Some h) n \<longleftrightarrow> unat (ReferenceCount h) = n \<and> ObType h \<noteq> None"
  by (simp_all add: count_is_def)

lemma counts_okI:
  assumes "counts_ok ext s" "Objects s' = (Objects s)(x := ho)"
    "\<And>y. y \<noteq> x \<Longrightarrow> ext' y + handles s' y = ext y + handles s y"
    "count_is ho (ext' x + handles s' x)"
  shows "counts_ok ext' s'"
  using assms by (simp add: counts_ok_def)

lemma counts_ok_live:
  "counts_ok ext s \<Longrightarrow> Objects s x = Some h \<Longrightarrow>
   unat (ReferenceCount h) = ext x + handles s x \<and> ObType h \<noteq> None"
  unfolding counts_ok_def by (drule spec [of _ x]) simp

lemma counts_ok_dead: "counts_ok ext s \<Longrightarrow> 0 < ext x + handles s x \<Longrightarrow> \<exists>h. Objects s x = Some h"
  unfolding counts_ok_def by (drule spec [of _ x], cases "Objects s x") auto

text \<open>A report changes nothing the invariant speaks about.\<close>

lemma ob_inv_reports: "ob_inv ext s \<Longrightarrow> reports_ok r \<Longrightarrow> ob_inv ext (s\<lparr>Reports := r\<rparr>)"
  by (simp add: ob_inv_def counts_ok_def)

lemma report_inv:
  assumes "ob_inv ext s"
  shows "\<exists>\<rho>. ObpReportLifecycle s r = Some (s\<lparr>Reports := \<rho>\<rparr>) \<and> ob_inv ext (s\<lparr>Reports := \<rho>\<rparr>)"
  using ObpReportLifecycle_ok [of s r] ob_inv_reports [OF assms] assms by (auto simp: ob_inv_def)

lemma ob_inv_object:
  assumes "ob_inv ext s" "Objects s x = Some h0" "\<And>y. y \<noteq> x \<Longrightarrow> ext' y = ext y"
    "unat (ReferenceCount h) = ext' x + handles s x" "ObType h \<noteq> None"
  shows "ob_inv ext' (set_object x (Some h) s)"
proof -
  have "counts_ok ext' (set_object x (Some h) s)"
    by (rule counts_okI [of ext s _ x "Some h"]) (use assms in \<open>auto simp: ob_inv_def\<close>)
  then show ?thesis using assms(1) by (simp add: ob_inv_def)
qed

lemma ObReferenceObject_ok:
  assumes inv: "ob_inv ext s" and h: "Objects s x = Some h" and few: "ext x + handles s x + 1 < 2 ^ 32"
  shows "\<exists>s' n. ObReferenceObject s (Some x) = Some (s', n) \<and> ob_inv (inc ext x) s' \<and>
    Tables s' = Tables s \<and> HasProcess s' = HasProcess s \<and> dom (Objects s') = dom (Objects s)"
proof -
  let ?h = "h\<lparr>ReferenceCount := ReferenceCount h + 1\<rparr>"
  let ?s = "set_object x (Some ?h) s"
  have rc: "unat (ReferenceCount h) = ext x + handles s x" "ObType h \<noteq> None"
    using counts_ok_live h inv by (auto simp: ob_inv_def)
  then have "unat (ReferenceCount h + 1) = ext x + handles s x + 1"
    using few by (simp add: unat_add_lt)
  then have inv': "ob_inv (inc ext x) ?s"
    using rc by (intro ob_inv_object [OF inv h]) (simp_all add: inc_def)
  obtain \<rho> where r: "ObpReportLifecycle ?s \<lparr>ReportObject = x, CurrentReference = ReferenceCount ?h,
      IsReferenced = True, IsHandle = False, ReportOwner = None, ReportTarget = x\<rparr> = Some (?s\<lparr>Reports := \<rho>\<rparr>)"
    "ob_inv (inc ext x) (?s\<lparr>Reports := \<rho>\<rparr>)"
    using report_inv [OF inv'] by blast
  then have "ObReferenceObject s (Some x) = Some (?s\<lparr>Reports := \<rho>\<rparr>, ReferenceCount ?h)"
    using h by (simp add: ObReferenceObject_def Let_def)
  then show ?thesis using r(2) h by (auto simp: set_object_def)
qed

section \<open>Every operation keeps the invariant\<close>

definition same_frame :: "OB_STATE \<Rightarrow> OB_STATE \<Rightarrow> bool" where
  "same_frame s s' \<longleftrightarrow> Tables s' = Tables s \<and> HasProcess s' = HasProcess s"

lemma handles_frame: "same_frame s s' \<Longrightarrow> handles s' = handles s"
  by (simp add: same_frame_def handles_def fun_eq_iff)

lemma same_frame_trans [trans]: "same_frame a b \<Longrightarrow> same_frame b c \<Longrightarrow> same_frame a c"
  by (simp add: same_frame_def)

lemma remove_entry_inv:
  assumes inv: "ob_inv ext s" and h: "Objects s x = Some h"
  shows "\<exists>s' h'. ObpRemoveEntryDirectory s x = Some s' \<and> ob_inv ext s' \<and> same_frame s s' \<and>
    Objects s' = (Objects s)(x \<mapsto> h') \<and> Permanent h' = Permanent h \<and> ReferenceCount h' = ReferenceCount h"
proof -
  let ?h = "h\<lparr>NameDirectory := None\<rparr>"
  have dirs: "ob_inv ext (s\<lparr>Directories := d\<rparr>)" for d
    using inv by (simp add: ob_inv_def counts_ok_def)
  have inv': "ob_inv ext (set_object x (Some ?h) (s\<lparr>Directories := d\<rparr>))" for d
    using counts_ok_live [of ext s x h] inv h by (intro ob_inv_object [OF dirs]) (auto simp: ob_inv_def)
  have "ObpRemoveEntryDirectory s x = Some s \<or>
     (\<exists>d. ObpRemoveEntryDirectory s x = Some (set_object x (Some ?h) (s\<lparr>Directories := d\<rparr>)))"
    using h by (auto simp: ObpRemoveEntryDirectory_def split: option.splits)
  then show ?thesis
  proof
    assume "ObpRemoveEntryDirectory s x = Some s"
    moreover have "Objects s = (Objects s)(x \<mapsto> h)" using h by auto
    ultimately show ?thesis using inv by (auto simp: same_frame_def)
  next
    assume "\<exists>d. ObpRemoveEntryDirectory s x = Some (set_object x (Some ?h) (s\<lparr>Directories := d\<rparr>))"
    then obtain d where d: "ObpRemoveEntryDirectory s x = Some (set_object x (Some ?h) (s\<lparr>Directories := d\<rparr>))" ..
    show ?thesis
    proof (intro exI conjI)
      show "ObpRemoveEntryDirectory s x = Some (set_object x (Some ?h) (s\<lparr>Directories := d\<rparr>))" by (rule d)
      show "Objects (set_object x (Some ?h) (s\<lparr>Directories := d\<rparr>)) = (Objects s)(x \<mapsto> ?h)" by simp
    qed (simp_all add: inv' same_frame_def)
  qed
qed

lemma name_check_inv:
  assumes inv: "ob_inv ext s" and h: "Objects s x = Some h"
  shows "\<exists>s' h'. ObpDeleteNameCheck s x = Some s' \<and> ob_inv ext s' \<and> same_frame s s' \<and>
    Objects s' = (Objects s)(x \<mapsto> h') \<and> Permanent h' = Permanent h"
proof -
  have id: "Objects s = (Objects s)(x \<mapsto> h)" using h by auto
  show ?thesis
  proof (cases "Permanent h \<or> \<not> (HasNameInfo h \<and> NameDirectory h \<noteq> None)")
    case True
    then have "ObpDeleteNameCheck s x = Some s" using h by (auto simp: ObpDeleteNameCheck_def)
    then show ?thesis using inv id by (auto simp: same_frame_def)
  next
    case False
    then have "ObpDeleteNameCheck s x = ObpRemoveEntryDirectory s x" using h by (auto simp: ObpDeleteNameCheck_def)
    then show ?thesis using remove_entry_inv [OF inv h] by auto
  qed
qed

lemma ob_inv_free:
  assumes inv: "ob_inv ext s" and none: "ext x + handles s x = 0"
  shows "ob_inv ext (set_object x None s)"
proof -
  have "counts_ok ext (set_object x None s)"
    by (rule counts_okI [of ext s _ x None]) (use inv none in \<open>auto simp: ob_inv_def\<close>)
  then show ?thesis using inv by (simp add: ob_inv_def)
qed

lemma free_object_ok:
  assumes inv: "ob_inv ext s" and h: "Objects s x = Some h0" and none: "ext x + handles s x = 0"
    and ty: "ObType h \<noteq> None"
  shows "\<exists>s'. free_object s x h = Some s' \<and> ob_inv ext s' \<and> same_frame s s' \<and>
    (\<forall>y. y \<noteq> x \<longrightarrow> Objects s' y = Objects s y) \<and> Objects s' x = None"
proof -
  obtain ty where ty: "ObType h = Some ty" using assms(4) by auto
  define s2 where "s2 = (if TypeHasDelete s ty then s\<lparr>DeleteCalls := DeleteCalls s @ [x]\<rparr> else s)"
  have inv2: "ob_inv ext s2" using inv by (simp add: s2_def ob_inv_def counts_ok_def)
  have o2: "Objects s2 = Objects s" "same_frame s s2" by (simp_all add: s2_def same_frame_def)
  have "\<exists>s3 h'. (if HasNameInfo h \<and> NameDirectory h \<noteq> None then ObpRemoveEntryDirectory s2 x else Some s2) = Some s3 \<and>
      ob_inv ext s3 \<and> same_frame s2 s3 \<and> Objects s3 = (Objects s2)(x \<mapsto> h')"
  proof (cases "HasNameInfo h \<and> NameDirectory h \<noteq> None")
    case True
    then show ?thesis using remove_entry_inv [OF inv2, of x h0] o2(1) h by auto
  next
    case False
    moreover have "Objects s2 = (Objects s2)(x \<mapsto> h0)" using o2(1) h by auto
    moreover have "same_frame s2 s2" by (simp add: same_frame_def)
    ultimately show ?thesis using inv2 by auto
  qed
  then obtain s3 h' where s3: "(if HasNameInfo h \<and> NameDirectory h \<noteq> None then ObpRemoveEntryDirectory s2 x else Some s2) = Some s3"
    "ob_inv ext s3" "same_frame s2 s3" "Objects s3 = (Objects s2)(x \<mapsto> h')" by blast
  have fr: "same_frame s s3" using o2(2) s3(3) by (rule same_frame_trans)
  have "ob_inv ext (set_object x None s3)"
    using none by (intro ob_inv_free s3(2)) (simp add: handles_frame [OF fr])
  moreover have "free_object s x h = Some (set_object x None s3)"
    unfolding free_object_def ty option.case Let_def s2_def [symmetric] s3(1) by simp
  moreover have "same_frame s (set_object x None s3)" using fr by (simp add: same_frame_def)
  ultimately show ?thesis using s3(4) o2(1) by auto
qed

lemma ObDereferenceObject_ok:
  assumes inv: "ob_inv ext s" and h: "Objects s x = Some h" and pos: "0 < ext x"
  shows "\<exists>s' n. ObDereferenceObject s (Some x) = Some (s', n) \<and> ob_inv (dec ext x) s' \<and> same_frame s s' \<and>
    (\<forall>y. y \<noteq> x \<longrightarrow> Objects s' y = Objects s y) \<and>
    (Objects s' x = None \<longleftrightarrow> ext x + handles s x = 1 \<and> \<not> Permanent h)"
proof -
  let ?n = "ReferenceCount h - 1"
  let ?h = "h\<lparr>ReferenceCount := ?n\<rparr>"
  let ?s = "set_object x (Some ?h) s"
  have rc: "unat (ReferenceCount h) = ext x + handles s x" "ObType h \<noteq> None"
    using counts_ok_live h inv by (auto simp: ob_inv_def)
  then have n: "unat ?n = ext x + handles s x - 1" using pos by (subst unat_dec) auto
  then have inv1: "ob_inv (dec ext x) ?s"
    using rc pos by (intro ob_inv_object [OF inv h]) (simp_all add: dec_def)
  obtain \<rho> where r: "ObpReportLifecycle ?s \<lparr>ReportObject = x, CurrentReference = ?n, IsReferenced = False,
      IsHandle = False, ReportOwner = None, ReportTarget = x\<rparr> = Some (?s\<lparr>Reports := \<rho>\<rparr>)"
    "ob_inv (dec ext x) (?s\<lparr>Reports := \<rho>\<rparr>)"
    using report_inv [OF inv1] by blast
  let ?s1 = "?s\<lparr>Reports := \<rho>\<rparr>"
  have zero: "?n = 0 \<longleftrightarrow> ext x + handles s x = 1"
    using n pos by (metis One_nat_def Suc_pred add_gr_0 diff_self_eq_0 unat_eq_zero)
  show ?thesis
  proof (cases "?n = 0 \<and> \<not> Permanent h")
    case False
    then have "ObDereferenceObject s (Some x) = Some (?s1, ?n)"
      using h r(1) by (auto simp: ObDereferenceObject_def Let_def)
    then show ?thesis using r(2) zero False by (auto simp: same_frame_def)
  next
    case True
    have "dec ext x x + handles ?s1 x = 0" using True zero pos by (simp add: dec_def)
    then obtain s' where "free_object ?s1 x h = Some s'" "ob_inv (dec ext x) s'" "same_frame ?s1 s'"
      "\<forall>y. y \<noteq> x \<longrightarrow> Objects s' y = Objects ?s1 y" "Objects s' x = None"
      using free_object_ok [OF r(2), of x ?h h] rc(2) by auto
    then show ?thesis using True zero h r(1)
      by (auto simp: ObDereferenceObject_def Let_def same_frame_def)
  qed
qed

lemma put_table_sel [simp]:
  "Objects (put_table r t s) = Objects s" "Reports (put_table r t s) = Reports s"
  "Tables (put_table r t s) = (Tables s)(r \<mapsto> t)" "HasProcess (put_table r t s) = HasProcess s"
  "CurrentThread (put_table r t s) = CurrentThread s"
  by (simp_all add: put_table_def)

lemma handles_put_table:
  assumes "Tables s r = Some t"
  shows "handles (put_table r t' s) y + held (table_map t) y = handles s y + held (table_map t') y"
  using assms by (cases r) (simp_all add: handles_def the_map_def)

text \<open>Moving one reference of \<open>x\<close> between a table and the outside.\<close>

lemma ob_inv_table:
  assumes inv: "ob_inv ext s" and t: "Tables s r = Some t" and t': "table_inv t'"
    and move: "\<And>y. ext' y + held (table_map t') y = ext y + held (table_map t) y"
  shows "ob_inv ext' (put_table r t' s)"
proof -
  have "ext' y + handles (put_table r t' s) y = ext y + handles s y" for y
    using handles_put_table [OF t, of t' y] move [of y] by linarith
  then show ?thesis using inv t' by (simp add: ob_inv_def counts_ok_def)
qed

lemma ob_inv_tableD: "ob_inv ext s \<Longrightarrow> Tables s r = Some t \<Longrightarrow> table_inv t"
  by (auto simp: ob_inv_def)

lemma handles_ge: "Tables s r = Some t \<Longrightarrow> held (table_map t) x \<le> handles s x"
  by (cases r) (simp_all add: handles_def the_map_def)

lemma dec_inc [simp]: "dec (inc ext x) x = ext"
  by (simp add: dec_def inc_def fun_eq_iff)

lemma UlDestroyHandle_ok:
  assumes inv: "ob_inv ext s" and t: "Tables s r = Some t" and h: "h \<noteq> 0"
  shows "\<exists>s' st. UlDestroyHandle s r h = Some (s', st) \<and> ob_inv ext s' \<and> HasProcess s' = HasProcess s \<and>
     (table_map t (unat (HANDLE_TO_INDEX h)) = None \<longrightarrow> s' = s) \<and>
     (\<forall>x a h0. table_map t (unat (HANDLE_TO_INDEX h)) = Some (x, a) \<longrightarrow> Objects s x = Some h0 \<longrightarrow>
        ext x + handles s x = 1 \<longrightarrow> \<not> Permanent h0 \<longrightarrow> Objects s' x = None)"
proof -
  note law = ht.release_law [OF ob_inv_tableD [OF inv t], of h]
  have "table_release t h = Some (Inl STATUS_INVALID_HANDLE) \<or>
    (\<exists>x owner t'. table_release t h = Some (Inr (x, owner, t')) \<and> table_inv t' \<and>
       (\<forall>y. held (table_map t) y = held (table_map t') y + (if y = x then 1 else 0)))"
    by (rule ht.release_held [OF ob_inv_tableD [OF inv t]])
  then show ?thesis
  proof
    assume "table_release t h = Some (Inl STATUS_INVALID_HANDLE)"
    then show ?thesis using inv t h law by (auto simp: UlDestroyHandle_def split: option.splits)
  next
    assume "\<exists>x owner t'. table_release t h = Some (Inr (x, owner, t')) \<and> table_inv t' \<and>
       (\<forall>y. held (table_map t) y = held (table_map t') y + (if y = x then 1 else 0))"
    then obtain x owner t' where r: "table_release t h = Some (Inr (x, owner, t'))" "table_inv t'"
       "\<forall>y. held (table_map t) y = held (table_map t') y + (if y = x then 1 else 0)" by blast
    let ?s = "put_table r t' s"
    have inv1: "ob_inv (inc ext x) ?s"
      using r(3) by (intro ob_inv_table [OF inv t r(2)]) (simp add: inc_def)
    obtain \<rho> where rep: "ObpReportLifecycle ?s \<lparr>ReportObject = unat h, CurrentReference = HandleCount t',
        IsReferenced = False, IsHandle = True, ReportOwner = owner, ReportTarget = x\<rparr> = Some (?s\<lparr>Reports := \<rho>\<rparr>)"
      "ob_inv (inc ext x) (?s\<lparr>Reports := \<rho>\<rparr>)"
      using report_inv [OF inv1] by blast
    have "0 < ext x + handles s x" using r(3) handles_ge [OF t, of x] by (simp add: Suc_le_eq)
    then obtain h0 where h0: "Objects (?s\<lparr>Reports := \<rho>\<rparr>) x = Some h0"
      using counts_ok_dead [of ext s x] inv by (auto simp: ob_inv_def)
    obtain s2 h2 where s2: "ObpDeleteNameCheck (?s\<lparr>Reports := \<rho>\<rparr>) x = Some s2" "ob_inv (inc ext x) s2"
      "same_frame (?s\<lparr>Reports := \<rho>\<rparr>) s2" "Objects s2 x = Some h2" "Permanent h2 = Permanent h0"
      using name_check_inv [OF rep(2) h0] by auto
    have pos: "0 < inc ext x x" by (simp add: inc_def)
    obtain s3 n where s3: "ObDereferenceObject s2 (Some x) = Some (s3, n)" "ob_inv (dec (inc ext x) x) s3"
      "same_frame s2 s3" "Objects s3 x = None \<longleftrightarrow> inc ext x x + handles s2 x = 1 \<and> \<not> Permanent h2"
      using ObDereferenceObject_ok [OF s2(2,4) pos] by (elim exE conjE) (rule that)
    have "inc ext x x + handles s2 x = ext x + handles s x"
      using handles_put_table [OF t, of t' x] r(3) handles_frame [OF s2(3)] by (simp add: inc_def)
    moreover have "Objects s x = Some h0" using h0 by simp
    moreover have "\<exists>a. table_map t (unat (HANDLE_TO_INDEX h)) = Some (x, a)"
      using law r(1) by (auto split: option.splits)
    ultimately have freed: "table_map t (unat (HANDLE_TO_INDEX h)) = Some (y, a) \<Longrightarrow> Objects s y = Some h1 \<Longrightarrow>
        ext y + handles s y = 1 \<Longrightarrow> \<not> Permanent h1 \<Longrightarrow> Objects s3 y = None" for y a h1
      using s3(4) s2(5) by auto
    have "table_map t (unat (HANDLE_TO_INDEX h)) \<noteq> None" using law r(1) by (auto split: option.splits)
    moreover have "HasProcess s3 = HasProcess s" using s2(3) s3(3) by (simp add: same_frame_def)
    moreover have "UlDestroyHandle s r h = Some (s3, STATUS_SUCCESS)"
      using t h r(1) rep(1) s2(1) s3(1) by (simp add: UlDestroyHandle_def)
    ultimately show ?thesis using s3(2) freed by auto
  qed
qed

lemma ObCloseHandle_ok:
  assumes "ob_inv ext s"
  shows "\<exists>s'. ObCloseHandle s h m = Some s' \<and> ob_inv ext s'"
proof -
  have aux: "\<exists>s' st. UlDestroyHandle s r k = Some (s', st) \<and> ob_inv ext s'" if "Tables s r \<noteq> None" for r k
  proof (cases "k = 0")
    case True
    then show ?thesis using assms by (simp add: UlDestroyHandle_def)
  next
    case False
    then show ?thesis using UlDestroyHandle_ok [OF assms _ False, of r] that by auto
  qed
  obtain ro k where g: "ObpGetHandleTable s h m = (ro, k)" by (cases "ObpGetHandleTable s h m")
  have "Tables s r \<noteq> None" if "ro = Some r" for r
    using g that by (auto simp: ObpGetHandleTable_def split: if_splits)
  then show ?thesis using aux [of _ k] assms g
    by (cases ro) (auto simp: ObCloseHandle_def, fastforce)
qed

lemma UlCreateHandle_ok:
  assumes inv: "ob_inv ext s" and t: "Tables s r = Some t" and x: "0 < ext x"
  shows "\<exists>s' k. UlCreateHandle s r (Some x) access = Some (s', k) \<and> HasProcess s' = HasProcess s \<and>
     Objects s' = Objects s \<and>
     (if k = 0 then s' = s else ob_inv (dec ext x) s' \<and>
        (\<exists>t'. Tables s' r = Some t' \<and> table_map t' (unat (HANDLE_TO_INDEX k)) = Some (x, access)))"
proof (cases "FirstFreeIndex t = 0")
  case True
  then show ?thesis using t by (simp add: UlCreateHandle_def)
next
  case False
  obtain i t' where p: "table_take t x access (CurrentThread s) = Some (i, t')" "table_inv t'"
      "INDEX_TO_HANDLE i \<noteq> 0" "table_map t' (unat (HANDLE_TO_INDEX (INDEX_TO_HANDLE i))) = Some (x, access)"
      "\<forall>y. held (table_map t') y = held (table_map t) y + (if y = x then 1 else 0)"
    using ht.put_held [OF ob_inv_tableD [OF inv t] False] by blast
  let ?s = "put_table r t' s"
  have inv1: "ob_inv (dec ext x) ?s"
    using p(5) x by (intro ob_inv_table [OF inv t p(2)]) (simp add: dec_def)
  obtain \<rho> where rep: "ObpReportLifecycle ?s \<lparr>ReportObject = unat (INDEX_TO_HANDLE i), CurrentReference = HandleCount t',
      IsReferenced = True, IsHandle = True, ReportOwner = CurrentThread s, ReportTarget = x\<rparr> = Some (?s\<lparr>Reports := \<rho>\<rparr>)"
    "ob_inv (dec ext x) (?s\<lparr>Reports := \<rho>\<rparr>)"
    using report_inv [OF inv1] by blast
  then show ?thesis using t False p by (simp add: UlCreateHandle_def)
qed

lemma ObpCreateHandle_ok:
  assumes inv: "ob_inv ext s" and h: "Objects s x = Some h" and few: "ext x + handles s x + 1 < 2 ^ 32"
  shows "\<exists>s' st k. ObpCreateHandle s x attr m access = Some (s', st, k) \<and> ob_inv ext s'"
proof -
  define K where "K \<longleftrightarrow> attr AND OBJ_KERNEL_HANDLE \<noteq> 0 \<or> \<not> HasProcess s"
  define r where "r = (if K then KernelTable else ProcessTable)"
  have create: "ObpCreateHandle s x attr m access =
      (if K \<and> m = UserMode then Some (s, STATUS_INVALID_PARAMETER, 0)
       else if Tables s r = None then Some (s, STATUS_INVALID_PARAMETER, 0)
       else do {
        (s, n) \<leftarrow> ObReferenceObject s (Some x);
        (s, NewHandle) \<leftarrow> UlCreateHandle s r (Some x) access;
        if NewHandle = 0 then do {
          (s, n) \<leftarrow> ObDereferenceObject s (Some x);
          Some (s, STATUS_INSUFFICIENT_RESOURCES, 0) }
        else Some (s, STATUS_SUCCESS, if K then NewHandle OR KERNEL_HANDLE_FLAG else NewHandle) })"
    unfolding ObpCreateHandle_def Let_def K_def r_def by (rule refl)
  show ?thesis
  proof (cases "(K \<and> m = UserMode) \<or> Tables s r = None")
    case True
    then show ?thesis using inv by (auto simp: create)
  next
    case False
    then obtain t where t: "Tables s r = Some t" by auto
    obtain s1 n where s1: "ObReferenceObject s (Some x) = Some (s1, n)" "ob_inv (inc ext x) s1"
        "Tables s1 = Tables s" "dom (Objects s1) = dom (Objects s)"
      using ObReferenceObject_ok [OF inv h few] by blast
    have pos: "0 < inc ext x x" by (simp add: inc_def)
    obtain s2 k where s2: "UlCreateHandle s1 r (Some x) access = Some (s2, k)"
        "if k = 0 then s2 = s1 else ob_inv (dec (inc ext x) x) s2"
      using UlCreateHandle_ok [OF s1(2) _ pos, of r t access] t s1(3) by (metis (no_types, lifting))
    show ?thesis
    proof (cases "k = 0")
      case True
      obtain h1 where "Objects s1 x = Some h1" using s1(4) h by (metis domD domI)
      then obtain s3 n3 where "ObDereferenceObject s1 (Some x) = Some (s3, n3)" "ob_inv ext s3"
        using ObDereferenceObject_ok [OF s1(2) _ pos] by auto
      then show ?thesis using False s1(1) s2 True inv by (auto simp: create)
    next
      case k: False
      then show ?thesis using False s1(1) s2 inv by (auto simp: create)
    qed
  qed
qed

lemma by_handle_lookup_ok:
  assumes "ob_inv ext s"
  shows "\<exists>res. by_handle_lookup s h d ty m = Some res \<and>
     (\<forall>x. res = Inr x \<longrightarrow> Objects s x \<noteq> None \<and> 0 < handles s x)"
proof (cases "h = 0")
  case True
  then show ?thesis by (simp add: by_handle_lookup_def)
next
  case False
  obtain ro k where g: "ObpGetHandleTable s h m = (ro, k)" by (cases "ObpGetHandleTable s h m")
  show ?thesis
  proof (cases ro)
    case None
    then show ?thesis using False g by (simp add: by_handle_lookup_def)
  next
    case (Some r)
    then obtain t where t: "Tables s r = Some t" using g by (auto simp: ObpGetHandleTable_def split: if_splits)
    note inv = ob_inv_tableD [OF assms t]
    let ?i = "HANDLE_TO_INDEX k"
    show ?thesis
    proof (cases "table_map t (unat ?i)")
      case None
      then show ?thesis using False g Some t inv
        by (auto simp: by_handle_lookup_def Let_def table_map_def table_inv_def word_le_nat_alt unat_gt_0 not_le
            split: if_splits)
    next
      case xa: (Some xa)
      then obtain x where x: "0 < unat ?i" "unat ?i < length (Entries t)" "EntryObject (Entries t ! unat ?i) = Some x"
          "xa = (x, EntryGrantedAccess (Entries t ! unat ?i))"
        by (auto simp: table_map_def split: if_splits)
      have "held (table_map t) x > 0"
        using held_remove [OF ht.finite_map [OF inv], of "unat ?i" x _ x] xa x(4) by fastforce
      then have live: "0 < handles s x" using handles_ge [OF t, of x] by linarith
      then obtain ho where "Objects s x = Some ho" using counts_ok_dead [of ext s x] assms by (auto simp: ob_inv_def)
      then show ?thesis using False g Some t x inv live
        by (auto simp: by_handle_lookup_def Let_def table_inv_def word_le_nat_alt)
    qed
  qed
qed

section \<open>Reachable states\<close>

text \<open>The operations interleave in any order, on any handle value and in any mode. A new
  object enters with one reference held by its creator; code outside the tables only
  gives back references it holds, and there are fewer than 2^32 references in all.\<close>

inductive ob_step :: "(obj \<Rightarrow> nat) \<times> OB_STATE \<Rightarrow> (obj \<Rightarrow> nat) \<times> OB_STATE \<Rightarrow> bool" where
  step_new: "Objects s x = None \<Longrightarrow> ReferenceCount h = 1 \<Longrightarrow> ObType h \<noteq> None \<Longrightarrow>
     ob_step (ext, s) (inc ext x, set_object x (Some h) s)"
| step_reference: "Objects s x \<noteq> None \<Longrightarrow> ext x + handles s x + 1 < 2 ^ 32 \<Longrightarrow>
     ObReferenceObject s (Some x) = Some (s', n) \<Longrightarrow> ob_step (ext, s) (inc ext x, s')"
| step_dereference: "0 < ext x \<Longrightarrow> ObDereferenceObject s (Some x) = Some (s', n) \<Longrightarrow>
     ob_step (ext, s) (dec ext x, s')"
| step_create_handle: "Objects s x \<noteq> None \<Longrightarrow> ext x + handles s x + 1 < 2 ^ 32 \<Longrightarrow>
     ObpCreateHandle s x attr m access = Some (s', st, k) \<Longrightarrow> ob_step (ext, s) (ext, s')"
| step_close_handle: "ObCloseHandle s k m = Some s' \<Longrightarrow> ob_step (ext, s) (ext, s')"

inductive_cases ob_stepE: "ob_step (ext, s) (ext', s')"

lemma step_new_inv:
  assumes "ob_inv ext s" "Objects s x = None" "ReferenceCount h = 1" "ObType h \<noteq> None"
  shows "ob_inv (inc ext x) (set_object x (Some h) s)"
proof -
  have "count_is (Objects s x) (ext x + handles s x)"
    using assms(1) by (simp add: ob_inv_def counts_ok_def)
  then have z: "ext x = 0" "handles s x = 0" using assms(2) by simp_all
  have c: "counts_ok ext s" using assms(1) by (simp add: ob_inv_def)
  have "counts_ok (inc ext x) (set_object x (Some h) s)"
    by (rule counts_okI [OF c, of _ x "Some h"]) (use z assms(3,4) in \<open>simp_all add: inc_def\<close>)
  then show ?thesis using assms(1) by (simp add: ob_inv_def)
qed

lemma ob_step_inv:
  assumes "ob_step (ext, s) (ext', s')" "ob_inv ext s"
  shows "ob_inv ext' s'"
  using assms(1)
proof (elim ob_stepE, goal_cases)
  case (1 x h)
  then show ?case using step_new_inv [OF assms(2)] by simp
next
  case (2 x n)
  then obtain h where h: "Objects s x = Some h" by auto
  show ?case using ObReferenceObject_ok [OF assms(2) h] 2 by auto
next
  case (3 x n)
  then obtain h where h: "Objects s x = Some h"
    using counts_ok_dead [of ext s x] assms(2) by (auto simp: ob_inv_def)
  show ?case using ObDereferenceObject_ok [OF assms(2) h] 3 by auto
next
  case (4 x attr m access st k)
  then obtain h where h: "Objects s x = Some h" by auto
  show ?case using ObpCreateHandle_ok [OF assms(2) h, of attr m access] 4 by auto
next
  case (5 k m)
  then show ?case using ObCloseHandle_ok [OF assms(2), of k m] by auto
qed

definition ob_init :: "HANDLE_TABLE \<Rightarrow> HANDLE_TABLE \<Rightarrow> OB_REPORTS \<Rightarrow> OB_STATE" where
  "ob_init ktab ptab reports =
     \<lparr>Objects = Map.empty, Directories = Map.empty, TypeHasDelete = (\<lambda>_. True), DeleteCalls = [],
      Reports = reports, Tables = (\<lambda>r. Some (case r of KernelTable \<Rightarrow> ktab | ProcessTable \<Rightarrow> ptab)),
      HasProcess = True, CurrentThread = None\<rparr>"

inductive ob_reach :: "(obj \<Rightarrow> nat) \<times> OB_STATE \<Rightarrow> bool" where
  reach_init: "UlCreateHandleTable True True 1024 = Some (Some ktab) \<Longrightarrow>
     UlCreateHandleTable True True cap = Some (Some ptab) \<Longrightarrow> 2 \<le> unat cap \<Longrightarrow> unat cap < 2 ^ 28 \<Longrightarrow>
     reports_ok reports \<Longrightarrow> ob_reach (\<lambda>_. 0, ob_init ktab ptab reports)"
| reach_step: "ob_reach st \<Longrightarrow> ob_step st st' \<Longrightarrow> ob_reach st'"

lemma ob_reach_inv: "ob_reach st \<Longrightarrow> ob_inv (fst st) (snd st)"
proof (induction rule: ob_reach.induct)
  case (reach_init ktab cap ptab reports)
  have k: "table_inv ktab" "table_map ktab = Map.empty"
    using UlCreateHandleTable_spec [of 1024] reach_init(1) by auto
  have p: "table_inv ptab" "table_map ptab = Map.empty"
    using UlCreateHandleTable_spec [of cap] reach_init by auto
  have "table_inv t" if "Tables (ob_init ktab ptab reports) r = Some t" for r t
    using that k p by (cases r) (auto simp: ob_init_def)
  then show ?case using k p reach_init(5)
    by (simp add: ob_inv_def counts_ok_def ob_init_def handles_def the_map_def held_def)
next
  case (reach_step st st')
  then show ?case using ob_step_inv by (metis prod.collapse)
qed

section \<open>What a handle gives\<close>

lemma ObpGetHandleTable_Some:
  "ObpGetHandleTable s h m = (Some r, k) \<Longrightarrow> \<exists>t. Tables s r = Some t"
  by (auto simp: ObpGetHandleTable_def split: if_splits)

text \<open>The decision of a lookup that finds an entry.\<close>

lemma by_handle_lookup_entry:
  assumes "h \<noteq> 0" "ObpGetHandleTable s h m = (Some r, k)" "Tables s r = Some t" "table_inv t"
    "table_map t (unat (HANDLE_TO_INDEX k)) = Some (x, access)" "Objects s x = Some ho"
  shows "by_handle_lookup s h d ty m = Some (if ty \<noteq> None \<and> ObType ho \<noteq> ty then Inl STATUS_OBJECT_TYPE_MISMATCH
     else if m = UserMode \<and> access AND d \<noteq> d then Inl STATUS_ACCESS_DENIED else Inr x)"
proof -
  let ?i = "unat (HANDLE_TO_INDEX k)"
  have e: "0 < ?i" "?i < length (Entries t)" "EntryObject (Entries t ! ?i) = Some x"
      "EntryGrantedAccess (Entries t ! ?i) = access"
    using assms(5) by (auto simp: table_map_def split: if_splits)
  then have i: "\<not> (HANDLE_TO_INDEX k = 0 \<or> MaxEntries t \<le> HANDLE_TO_INDEX k)"
    using assms(4) by (auto simp: table_inv_def word_le_nat_alt)
  show ?thesis using assms(1-3,6) e i by (simp add: by_handle_lookup_def Let_def)
qed

lemma by_handle_lookup_Inr:
  assumes "by_handle_lookup s h d ty m = Some (Inr x)"
  shows "\<exists>r k t a. h \<noteq> 0 \<and> k \<noteq> 0 \<and> ObpGetHandleTable s h m = (Some r, k) \<and> Tables s r = Some t \<and>
    (table_inv t \<longrightarrow> table_map t (unat (HANDLE_TO_INDEX k)) = Some (x, a))"
proof -
  have h: "h \<noteq> 0" using assms by (auto simp: by_handle_lookup_def)
  obtain ro k where g: "ObpGetHandleTable s h m = (ro, k)" by (cases "ObpGetHandleTable s h m")
  then obtain r where r: "ro = Some r" using assms h by (cases ro) (auto simp: by_handle_lookup_def)
  obtain t where t: "Tables s r = Some t" using ObpGetHandleTable_Some g r by blast
  let ?i = "unat (HANDLE_TO_INDEX k)"
  have i: "\<not> (HANDLE_TO_INDEX k = 0 \<or> MaxEntries t \<le> HANDLE_TO_INDEX k)"
    using assms h g r t by (auto simp: by_handle_lookup_def Let_def split: if_splits)
  then have k: "k \<noteq> 0" by (auto simp: HANDLE_TO_INDEX_def)
  have "\<exists>e. rd (Entries t) ?i = Some e \<and> EntryObject e = Some x"
    using assms h g r t i
    by (auto simp: by_handle_lookup_def Let_def bind_eq_Some_conv split: if_splits option.splits)
  then have "table_inv t \<longrightarrow> table_map t ?i = Some (x, EntryGrantedAccess (Entries t ! ?i))"
    using i by (auto simp: rd_eq_Some_iff table_map_def unat_gt_0)
  then show ?thesis using h k g r t by blast
qed

lemma handle_bits:
  assumes "unat (HANDLE_TO_INDEX k) < 2 ^ 28"
  shows "k AND KERNEL_HANDLE_FLAG = 0" "(k OR KERNEL_HANDLE_FLAG) AND KERNEL_HANDLE_FLAG \<noteq> 0"
    "(k OR KERNEL_HANDLE_FLAG) AND NOT KERNEL_HANDLE_FLAG = k"
proof -
  have F: "KERNEL_HANDLE_FLAG = push_bit 31 1" by (simp add: KERNEL_HANDLE_FLAG_def)
  have b: "bit KERNEL_HANDLE_FLAG j \<longleftrightarrow> j = 31" for j
    unfolding F bit_push_bit_iff bit_1_iff by auto
  have "unat k < 2 ^ 31"
    using assms by (simp add: HANDLE_TO_INDEX_def unat_drop_bit)
  then have "\<not> bit (unat k) 31" by (simp add: bit_iff_odd)
  then have n: "\<not> bit k 31" by (simp add: bit_unsigned_iff)
  show "k AND KERNEL_HANDLE_FLAG = 0"
    by (rule bit_eqI) (use n in \<open>auto simp: bit_and_iff b\<close>)
  show "(k OR KERNEL_HANDLE_FLAG) AND NOT KERNEL_HANDLE_FLAG = k"
    by (rule bit_eqI) (use n in \<open>auto simp: bit_and_iff bit_or_iff bit_not_iff b\<close>)
  have "bit ((k OR KERNEL_HANDLE_FLAG) AND KERNEL_HANDLE_FLAG) 31"
    by (simp add: bit_and_iff bit_or_iff b)
  then show "(k OR KERNEL_HANDLE_FLAG) AND KERNEL_HANDLE_FLAG \<noteq> 0" by auto
qed

lemma table_map_index: "table_inv t \<Longrightarrow> table_map t i \<noteq> None \<Longrightarrow> i < 2 ^ 28"
  by (auto simp: table_map_def table_inv_def split: if_splits)

lemma ObpCreateHandle_lookup:
  assumes inv: "ob_inv ext s" and h: "Objects s x = Some h" and few: "ext x + handles s x + 1 < 2 ^ 32"
    and create: "ObpCreateHandle s x attr m access = Some (s', STATUS_SUCCESS, k)"
  shows "by_handle_lookup s' k d None m =
    Some (if m = UserMode \<and> access AND d \<noteq> d then Inl STATUS_ACCESS_DENIED else Inr x)"
proof -
  define K where "K \<longleftrightarrow> attr AND OBJ_KERNEL_HANDLE \<noteq> 0 \<or> \<not> HasProcess s"
  define r where "r = (if K then KernelTable else ProcessTable)"
  have K: "\<not> (K \<and> m = UserMode)" "Tables s r \<noteq> None"
    using create unfolding ObpCreateHandle_def Let_def K_def [symmetric] r_def [symmetric]
    by (auto simp: STATUS_SUCCESS_def STATUS_INVALID_PARAMETER_def split: if_splits)
  obtain t where t: "Tables s r = Some t" using K(2) by auto
  obtain s1 n where s1: "ObReferenceObject s (Some x) = Some (s1, n)" "ob_inv (inc ext x) s1"
      "Tables s1 = Tables s" "HasProcess s1 = HasProcess s" "dom (Objects s1) = dom (Objects s)"
    using ObReferenceObject_ok [OF inv h few] by blast
  have pos: "0 < inc ext x x" by (simp add: inc_def)
  have t1: "Tables s1 r = Some t" using t s1(3) by simp
  obtain s2 k2 where s2: "UlCreateHandle s1 r (Some x) access = Some (s2, k2)" "HasProcess s2 = HasProcess s1"
      "Objects s2 = Objects s1" "if k2 = 0 then s2 = s1 else ob_inv (dec (inc ext x) x) s2 \<and>
        (\<exists>t'. Tables s2 r = Some t' \<and> table_map t' (unat (HANDLE_TO_INDEX k2)) = Some (x, access))"
    using UlCreateHandle_ok [OF s1(2) t1 pos, of access] by blast
  have res: "k2 \<noteq> 0" "s' = s2" "k = (if K then k2 OR KERNEL_HANDLE_FLAG else k2)"
    using create K t s1(1) s2(1) unfolding ObpCreateHandle_def Let_def K_def [symmetric] r_def [symmetric]
    by (auto simp: STATUS_SUCCESS_def STATUS_INSUFFICIENT_RESOURCES_def bind_eq_Some_conv split: if_splits)
  obtain t' where t': "Tables s' r = Some t'" "table_map t' (unat (HANDLE_TO_INDEX k2)) = Some (x, access)"
      "ob_inv ext s'" using s2(4) res by auto
  have tinv: "table_inv t'" by (rule ob_inv_tableD [OF t'(3,1)])
  note bits = handle_bits [OF table_map_index [OF tinv, of "unat (HANDLE_TO_INDEX k2)"]]
  have g: "ObpGetHandleTable s' k m = (Some r, k2)"
  proof (cases K)
    case True
    then have "m = KernelMode" using K(1) by (cases m) auto
    then show ?thesis using True res(3) bits t'(1,2) by (simp add: ObpGetHandleTable_def ObpIsKernelHandle_def r_def)
  next
    case False
    then have "HasProcess s'" using res(2) s2(2) s1(4) by (simp add: K_def)
    then show ?thesis using False res(3) bits t'(1,2) by (simp add: ObpGetHandleTable_def ObpIsKernelHandle_def r_def)
  qed
  have k0: "k \<noteq> 0" using res(1,3) bits t'(2) by (auto split: if_splits)
  obtain h' where "Objects s' x = Some h'"
    using h s1(5) s2(3) res(2) by (metis domD domI)
  then show ?thesis
    using by_handle_lookup_entry [OF k0 g t'(1) tinv t'(2), of h' d None] by simp
qed

text \<open>None of the object operations touches a handle table.\<close>

lemma ObpReportLifecycle_tables: "ObpReportLifecycle s q = Some s' \<Longrightarrow> Tables s' = Tables s"
  by (auto simp: ObpReportLifecycle_def Let_def bind_eq_Some_conv split: option.splits if_splits)

lemma ObpRemoveEntryDirectory_tables:
  assumes "ObpRemoveEntryDirectory s x = Some s'"
  shows "Tables s' = Tables s"
proof -
  obtain h where h: "Objects s x = Some h" using assms by (cases "Objects s x") (auto simp: ObpRemoveEntryDirectory_def)
  show ?thesis
    using assms h by (cases "NameDirectory h"; cases "Directories s (the (NameDirectory h))")
      (auto simp: ObpRemoveEntryDirectory_def split: if_splits)
qed

lemma ObpDeleteNameCheck_tables: "ObpDeleteNameCheck s x = Some s' \<Longrightarrow> Tables s' = Tables s"
  using ObpRemoveEntryDirectory_tables
  by (auto simp: ObpDeleteNameCheck_def bind_eq_Some_conv split: if_splits)

lemma free_object_tables:
  assumes "free_object s x h = Some s'"
  shows "Tables s' = Tables s"
proof -
  define s2 where "s2 = (case ObType h of None \<Rightarrow> s
     | Some ty \<Rightarrow> if TypeHasDelete s ty then s\<lparr>DeleteCalls := DeleteCalls s @ [x]\<rparr> else s)"
  have "Tables s2 = Tables s" by (auto simp: s2_def split: option.splits)
  then show ?thesis using assms ObpRemoveEntryDirectory_tables [of s2 x]
    unfolding free_object_def s2_def [symmetric] Let_def
    by (auto simp: bind_eq_Some_conv split: if_splits)
qed

lemma ObDereferenceObject_tables:
  "ObDereferenceObject s (Some x) = Some (s', n) \<Longrightarrow> Tables s' = Tables s"
  by (auto simp: ObDereferenceObject_def Let_def bind_eq_Some_conv split: if_splits
      dest!: ObpReportLifecycle_tables free_object_tables)

lemma UlDestroyHandle_tables:
  assumes "UlDestroyHandle s r k = Some (s', st)" "r' \<noteq> r"
  shows "Tables s' r' = Tables s r'"
proof (cases "k = 0")
  case True
  then show ?thesis using assms(1) by (simp add: UlDestroyHandle_def)
next
  case False
  obtain t res where t: "Tables s r = Some t" "table_release t k = Some res"
    using assms(1) False by (auto simp: UlDestroyHandle_def bind_eq_Some_conv)
  show ?thesis
  proof (cases res)
    case (Inl st)
    then show ?thesis using assms(1) False t by (simp add: UlDestroyHandle_def)
  next
    case (Inr y)
    then obtain x owner t' where y: "y = (x, owner, t')" by (cases y)
    show ?thesis using assms False t Inr y
      by (auto simp: UlDestroyHandle_def bind_eq_Some_conv
        dest!: ObpReportLifecycle_tables ObpDeleteNameCheck_tables ObDereferenceObject_tables)
  qed
qed

section \<open>A concrete system\<close>

definition demo_reports :: OB_REPORTS where
  "demo_reports = \<lparr>ReportReady = False, ReportTable = None, ReportFreeIndex = 0, ReportPoolOk = False\<rparr>"

definition demo_table :: "HANDLE_TABLE_ENTRY \<Rightarrow> u32 \<Rightarrow> u32 \<Rightarrow> HANDLE_TABLE" where
  "demo_table e count first = \<lparr>Entries = [zero_entry, e], MaxEntries = 2, HandleCount = count, FirstFreeIndex = first\<rparr>"

definition demo_object :: "u32 \<Rightarrow> OBJECT_HEADER" where
  "demo_object n = \<lparr>ReferenceCount = n, ObType = Some 0, Permanent = False, HasNameInfo = False, NameDirectory = None\<rparr>"

text \<open>A process with one free handle, one object and, in \<open>demo_state\<close>, one handle to it.\<close>

definition demo_base :: "HANDLE_TABLE \<Rightarrow> OB_STATE" where
  "demo_base kt = ob_init kt (demo_table zero_entry 0 1) demo_reports"

definition demo_state :: "HANDLE_TABLE \<Rightarrow> u32 \<Rightarrow> OB_STATE" where
  "demo_state kt n = put_table ProcessTable
     (demo_table \<lparr>EntryObject = Some 7, EntryGrantedAccess = 3, NextFreeIndex = 0, OwnerThread = None\<rparr> 1 0)
     (set_object 7 (Some (demo_object n)) (demo_base kt))"

lemma demo_new_table: "UlCreateHandleTable True True 2 = Some (Some (demo_table zero_entry 0 1))"
  by code_simp

lemma demo_report: "Reports s = demo_reports \<Longrightarrow> ObpReportLifecycle s q = Some s"
  by (simp add: ObpReportLifecycle_def open_reports_def demo_reports_def)

lemma demo_create:
  "ObpCreateHandle (set_object 7 (Some (demo_object 1)) (demo_base kt)) 7 0 UserMode 3 =
   Some (demo_state kt 2, STATUS_SUCCESS, 4)"
proof -
  have r: "Reports (demo_base kt) = demo_reports" by (simp add: demo_base_def ob_init_def)
  have t: "Tables (demo_base kt) ProcessTable = Some (demo_table zero_entry 0 1)"
    "HasProcess (demo_base kt)" "CurrentThread (demo_base kt) = None"
    by (simp_all add: demo_base_def ob_init_def)
  have ref: "ObReferenceObject (set_object 7 (Some (demo_object 1)) (demo_base kt)) (Some 7) =
      Some (set_object 7 (Some (demo_object 2)) (demo_base kt), 2)"
    by (simp add: ObReferenceObject_def demo_report r demo_object_def set_object_def)
  have cr: "UlCreateHandle (set_object 7 (Some (demo_object 2)) (demo_base kt)) ProcessTable (Some 7) 3 =
     Some (demo_state kt 2, 4)"
    by (simp add: UlCreateHandle_def t table_take_def demo_table_def demo_report r demo_state_def INDEX_TO_HANDLE_def zero_entry_def)
  show ?thesis by (simp add: ObpCreateHandle_def t ref cr OBJ_KERNEL_HANDLE_def)
qed

lemma demo_dereference:
  "ObDereferenceObject (demo_state kt 2) (Some 7) = Some (demo_state kt 1, 1)"
proof -
  have r: "Reports (demo_state kt n) = demo_reports" for n by (simp add: demo_state_def demo_base_def ob_init_def)
  have o: "Objects (demo_state kt 2) 7 = Some (demo_object 2)" by (simp add: demo_state_def)
  have e: "set_object 7 (Some (demo_object 1)) (demo_state kt 2) = demo_state kt 1"
    by (simp add: demo_state_def set_object_def put_table_def)
  show ?thesis using e
    by (simp add: ObDereferenceObject_def o demo_report r) (simp add: demo_object_def)
qed

lemma demo_reach:
  obtains kt ext where "ob_reach (ext, demo_state kt 1)" "ext 7 + handles (demo_state kt 1) 7 = 1"
    "0 < handles (demo_state kt 1) 7"
proof -
  obtain kt where kt: "UlCreateHandleTable True True 1024 = Some (Some kt)"
    using UlCreateHandleTable_spec [of 1024] by auto
  note pt = demo_new_table
  have r0: "ob_reach (\<lambda>_. 0, demo_base kt)"
    unfolding demo_base_def by (rule reach_init [OF kt pt]) (simp_all add: reports_ok_def demo_reports_def)
  have r1: "ob_reach (inc (\<lambda>_. 0) 7, set_object 7 (Some (demo_object 1)) (demo_base kt))"
    by (rule reach_step [OF r0 step_new]) (simp_all add: demo_base_def ob_init_def demo_object_def)
  let ?e1 = "inc (\<lambda>_. 0) 7" and ?s1 = "set_object 7 (Some (demo_object 1)) (demo_base kt)"
  have inv1: "ob_inv ?e1 ?s1" using ob_reach_inv [OF r1] by simp
  then have c1: "?e1 7 + handles ?s1 7 = 1"
    using counts_ok_live [of ?e1 ?s1 7] by (auto simp: ob_inv_def demo_object_def)
  have r2: "ob_reach (?e1, demo_state kt 2)"
    by (rule reach_step [OF r1 step_create_handle [OF _ _ demo_create]]) (use c1 in simp_all)
  have r3: "ob_reach (dec ?e1 7, demo_state kt 1)"
    by (rule reach_step [OF r2 step_dereference [OF _ demo_dereference]]) (simp add: inc_def)
  have inv3: "ob_inv (dec ?e1 7) (demo_state kt 1)" using ob_reach_inv [OF r3] by simp
  have "Objects (demo_state kt 1) 7 = Some (demo_object 1)" by (simp add: demo_state_def)
  then have "dec ?e1 7 7 + handles (demo_state kt 1) 7 = 1"
    using counts_ok_live [of "dec ?e1 7" "demo_state kt 1" 7] inv3 by (auto simp: ob_inv_def demo_object_def)
  then show thesis using r3 that by (simp add: dec_def inc_def)
qed

lemma demo_lookup: "by_handle_lookup (demo_state kt n) 4 1 None UserMode = Some (Inr 7)"
  by (simp add: by_handle_lookup_def ObpGetHandleTable_def ObpIsKernelHandle_def demo_state_def demo_base_def
      ob_init_def demo_table_def HANDLE_TO_INDEX_def drop_bit_eq_div word_le_nat_alt KERNEL_HANDLE_FLAG_def)

section \<open>Properties\<close>

text \<open>C4: Over all interleavings of creation, referencing, dereferencing, opening and closing, with
  any handle value in any mode, an object named by a handle is never freed: it is live
  and its reference count is at least the number of handles to it.\<close>

theorem handles_never_dangle:
  assumes "ob_reach (ext, s)" "0 < handles s x"
  shows "\<exists>h. Objects s x = Some h \<and> handles s x \<le> unat (ReferenceCount h)"
proof -
  have inv: "ob_inv ext s" using ob_reach_inv [OF assms(1)] by simp
  then obtain h where h: "Objects s x = Some h" using counts_ok_dead [of ext s x] assms(2) by (auto simp: ob_inv_def)
  then show ?thesis using counts_ok_live [of ext s x h] inv by (simp add: ob_inv_def)
qed

theorem handles_never_dangle_witness:
  "\<exists>kt. \<exists>h. Objects (demo_state kt 1) 7 = Some h \<and> handles (demo_state kt 1) 7 \<le> unat (ReferenceCount h)"
  using demo_reach handles_never_dangle by metis

text \<open>In every reachable state the handle operations return, whatever handle value and mode
  they are called with, and leave a state that satisfies the invariant again: closing or
  looking up a forged, stale or misdirected handle is never a fault.\<close>

theorem handle_operations_total:
  assumes "ob_reach (ext, s)"
  shows "(\<exists>s'. ObCloseHandle s k m = Some s' \<and> ob_inv ext s') \<and>
    (\<exists>res. by_handle_lookup s k d ty m = Some res \<and> (\<forall>x. res = Inr x \<longrightarrow> Objects s x \<noteq> None \<and> 0 < handles s x))"
  using ObCloseHandle_ok [of ext s k m] by_handle_lookup_ok [of ext s k d ty m] ob_reach_inv [OF assms] by simp

theorem handle_operations_total_witness:
  "\<exists>kt s'. ObCloseHandle (demo_state kt 1) 0xFFFFFFFF UserMode = Some s'"
  using demo_reach handle_operations_total by metis

text \<open>C5: A handle gives back the object it was created for, with the rights it was granted:
  after a successful \<open>ObpCreateHandle\<close> a lookup finds the object exactly when the caller is
  the kernel or the desired rights are among the granted ones.\<close>

theorem create_then_lookup:
  assumes "ob_inv ext s" "Objects s x = Some h" "ext x + handles s x + 1 < 2 ^ 32"
    "ObpCreateHandle s x attr m access = Some (s', STATUS_SUCCESS, k)"
  shows "by_handle_lookup s' k d None m =
    Some (if m = UserMode \<and> access AND d \<noteq> d then Inl STATUS_ACCESS_DENIED else Inr x)"
  by (rule ObpCreateHandle_lookup [OF assms])

theorem create_then_lookup_witness:
  "\<exists>kt. by_handle_lookup (demo_state kt 2) 4 8 None UserMode = Some (Inl STATUS_ACCESS_DENIED)"
proof -
  obtain kt where kt: "table_inv kt" "table_map kt = Map.empty" using UlCreateHandleTable_spec [of 1024] by auto
  obtain pt where pt: "UlCreateHandleTable True True 2 = Some (Some pt)" "table_inv pt" "table_map pt = Map.empty"
    using UlCreateHandleTable_spec [of 2] by auto
  then have ptd: "pt = demo_table zero_entry 0 1" using demo_new_table by simp
  let ?s = "set_object 7 (Some (demo_object 1)) (demo_base kt)"
  have "handles ?s x = 0" for x
    using kt pt ptd by (simp add: handles_def the_map_def demo_base_def ob_init_def held_def)
  moreover have "table_inv t" if "Tables ?s r = Some t" for r t
    using that kt pt ptd by (cases r) (auto simp: demo_base_def ob_init_def)
  moreover have "reports_ok (Reports ?s)" by (simp add: demo_base_def ob_init_def demo_reports_def reports_ok_def)
  ultimately have "ob_inv (inc (\<lambda>_. 0) 7) ?s" "handles ?s 7 = 0"
    by (auto simp: ob_inv_def counts_ok_def inc_def demo_object_def demo_base_def ob_init_def)
  then show ?thesis
    using create_then_lookup [OF _ _ _ demo_create, of "inc (\<lambda>_. 0) 7" kt "demo_object 1" 8] by (auto simp: inc_def)
qed

text \<open>The handle table is a store with a free list: taking an entry and releasing its handle
  restores the meaning of every handle, and the released handle is refused from then on
  (no double close).\<close>

theorem handle_table_roundtrip:
  assumes "table_inv t" "FirstFreeIndex t \<noteq> 0"
  shows "\<exists>i t' owner t''. table_take t x a th = Some (i, t') \<and>
    table_release t' (INDEX_TO_HANDLE i) = Some (Inr (x, owner, t'')) \<and> table_inv t'' \<and>
    table_map t'' = table_map t \<and> table_release t'' (INDEX_TO_HANDLE i) = Some (Inl STATUS_INVALID_HANDLE)"
proof -
  obtain i t' where p: "table_take t x a th = Some (i, t')" "table_inv t'"
    using ht.put_held [OF assms, of x a th] by blast
  obtain owner t'' where "table_release t' (INDEX_TO_HANDLE i) = Some (Inr (x, owner, t''))" "table_inv t''"
    "table_map t'' = table_map t" using ht.put_release [OF assms, of x a th] p(1) by auto
  then show ?thesis using p ht.release_twice [OF p(2)] by blast
qed

theorem handle_table_roundtrip_witness:
  "\<exists>t i t' owner t''. table_take t 7 3 None = Some (i, t') \<and>
    table_release t' (INDEX_TO_HANDLE i) = Some (Inr (7, owner, t'')) \<and>
    table_release t'' (INDEX_TO_HANDLE i) = Some (Inl STATUS_INVALID_HANDLE)"
proof -
  obtain pt where pt: "UlCreateHandleTable True True 2 = Some (Some pt)" "table_inv pt"
    using UlCreateHandleTable_spec [of 2] by auto
  moreover from this have "FirstFreeIndex pt \<noteq> 0"
    using demo_new_table by (auto simp: demo_table_def)
  ultimately show ?thesis using handle_table_roundtrip [of pt 7 3 None] by blast
qed

text \<open>User mode cannot reach the kernel's handle table: closing any handle value in user mode
  leaves it as it is.\<close>

theorem user_mode_isolated:
  assumes "ObCloseHandle s k UserMode = Some s'"
  shows "Tables s' KernelTable = Tables s KernelTable"
  using assms UlDestroyHandle_tables [of s ProcessTable _ _ _ KernelTable]
  by (auto simp: ObCloseHandle_def ObpGetHandleTable_def ObpIsKernelHandle_def bind_eq_Some_conv split: if_splits)

theorem user_mode_isolated_witness:
  "\<exists>kt s'. ObCloseHandle (demo_state kt 1) 0x80000004 UserMode = Some s' \<and>
     Tables s' KernelTable = Tables (demo_state kt 1) KernelTable"
proof -
  obtain kt ext where "ob_reach (ext, demo_state kt 1)" by (rule demo_reach)
  then obtain s' where "ObCloseHandle (demo_state kt 1) 0x80000004 UserMode = Some s'"
    using ObCloseHandle_ok ob_reach_inv by (metis fst_conv snd_conv)
  then show ?thesis using user_mode_isolated by blast
qed

text \<open>C6: \<open>ObReferenceObjectByHandle\<close> takes no lock between finding the object and counting the
  reference. When the handle holds the last reference, a close between the two steps
  frees the object, and the second step works on freed memory.\<close>

theorem lookup_close_race:
  assumes "ob_inv ext s" "by_handle_lookup s k d ty m = Some (Inr x)" "ext x + handles s x = 1"
    "Objects s x = Some h" "\<not> Permanent h"
  shows "\<exists>s'. ObCloseHandle s k m = Some s' \<and> ObReferenceObject s' (Some x) = None"
proof -
  obtain r k' t a where e: "k \<noteq> 0" "k' \<noteq> 0" "ObpGetHandleTable s k m = (Some r, k')" "Tables s r = Some t"
    "table_inv t \<longrightarrow> table_map t (unat (HANDLE_TO_INDEX k')) = Some (x, a)"
    using by_handle_lookup_Inr [OF assms(2)] by blast
  have m: "table_map t (unat (HANDLE_TO_INDEX k')) = Some (x, a)"
    using e(5) ob_inv_tableD [OF assms(1) e(4)] by simp
  obtain s' st where "UlDestroyHandle s r k' = Some (s', st)" "Objects s' x = None"
    using UlDestroyHandle_ok [OF assms(1) e(4,2)] m assms(3-5) by blast
  then show ?thesis using e(1,3) by (simp add: ObCloseHandle_def ObReferenceObject_def)
qed

theorem lookup_close_race_witness:
  "\<exists>kt s'. by_handle_lookup (demo_state kt 1) 4 1 None UserMode = Some (Inr 7) \<and>
     ObCloseHandle (demo_state kt 1) 4 UserMode = Some s' \<and> ObReferenceObject s' (Some 7) = None"
proof -
  obtain kt ext where k: "ob_reach (ext, demo_state kt 1)" "ext 7 + handles (demo_state kt 1) 7 = 1"
    by (rule demo_reach)
  have i: "ob_inv ext (demo_state kt 1)" using ob_reach_inv [OF k(1)] by simp
  have "Objects (demo_state kt 1) 7 = Some (demo_object 1)" by (simp add: demo_state_def)
  moreover have "\<not> Permanent (demo_object 1)" by (simp add: demo_object_def)
  ultimately show ?thesis
    using lookup_close_race [OF i demo_lookup [of kt 1] k(2)] demo_lookup by blast
qed

end
