(* ===== verification/ObNames.thy ===== *)
theory ObNames
  imports ObHandle
begin

text \<open>
  The object namespace (\<open>veakrnl/ob/obdirectory.c\<close>, \<open>obmanager.c\<close>): names, directories, symbolic links and
  the lookup of a path.

  A \<open>NAMESPACE\<close> is the state of \<open>ObHandle\<close> with what the name functions read and write besides: the names,
  link bodies, create information and descriptors of the objects, and the types. A directory is the
  list of its entries. Calls are single steps; the code holds no lock over a lookup. A name is the
  bytes behind its pointer, so a read beyond them is \<open>None\<close>. The parse routines of the other types (devices and files)
  are calls out of the object manager and a parameter. The tests for missing directory and link
  types, which hold once the manager is initialized, are dropped.
\<close>

section \<open>Data\<close>

text \<open>A counted string: its length and the bytes its buffer holds, terminator included.\<close>

record ANSI_STRING =
  StrLength :: u16
  StrBuffer :: "u8 list option"

record OBJECT_ATTRIBUTES =
  AttrRoot :: HANDLE
  AttrName :: "ANSI_STRING option"
  AttrFlags :: u32
  AttrSecurity :: "VEA_SECURITY_DESCRIPTOR option"

record OBJECT_SYMBOLIC_LINK =
  LinkTarget :: ANSI_STRING
  TargetObject :: "obj option"

record OB_CREATE_INFO =
  InfoAttributes :: OBJECT_ATTRIBUTES
  InfoMode :: KPROCESSOR_MODE

datatype PARSE_ROUTINE = NoParse | ParseSymbolicLink | ParseCallout

record NAMESPACE =
  Core :: OB_STATE
  NameOf :: "obj \<Rightarrow> ANSI_STRING"
  LinkOf :: "obj \<Rightarrow> OBJECT_SYMBOLIC_LINK"
  InfoOf :: "obj \<Rightarrow> OB_CREATE_INFO option"
  SecurityOf :: "obj \<Rightarrow> VEA_SECURITY_DESCRIPTOR option"
  MappingOf :: "nat \<Rightarrow> GENERIC_MAPPING"
  ProcessToken :: "VEA_TOKEN option"
  TotalObjectCount :: "nat \<Rightarrow> u32"
  ParseRoutine :: "nat \<Rightarrow> PARSE_ROUTINE"
  ObpDirectoryObjectType :: nat
  ObpSymbolicLinkObjectType :: nat
  ObpRootDirectoryObject :: "obj option"

text \<open>The context of a lookup. \<open>RemainingName\<close> is a pointer and a count: the pointer goes into
  the caller's name or, after a reparse, into the context's own buffer.\<close>

record OB_LOOKUP_CONTEXT =
  CurrentDirectory :: "obj option"
  RootObject :: "obj option"
  ExpectedType :: "nat option"
  CallerName :: "u8 list"
  InReparse :: bool
  NameOffset :: nat
  NameCount :: u16
  ReparseCount :: u32
  CaseInsensitive :: bool
  ReparseBuffer :: "u8 list"
  InsertMode :: bool
  AccessMode :: KPROCESSOR_MODE

type_synonym parse_callout =
  "NAMESPACE \<Rightarrow> obj \<Rightarrow> OB_LOOKUP_CONTEXT \<Rightarrow>
   (NAMESPACE \<times> OB_LOOKUP_CONTEXT \<times> VEASTATUS \<times> obj option) option"

definition OBJ_PERMANENT :: u32 where "OBJ_PERMANENT = 0x10"
definition OBJ_CASE_INSENSITIVE :: u32 where "OBJ_CASE_INSENSITIVE = 0x40"

lemmas ob_status_defs = STATUS_REPARSE_def STATUS_OBJECT_NAME_INVALID_def STATUS_NAME_TOO_LONG_def
  STATUS_REPARSE_OBJECT_MAY_LOOP_def STATUS_OBJECT_TYPE_MISMATCH_def

definition header :: "NAMESPACE \<Rightarrow> obj \<Rightarrow> OBJECT_HEADER option" where
  "header ns x = Objects (Core ns) x"

text \<open>The core operations, on the namespace.\<close>

definition reference :: "NAMESPACE \<Rightarrow> obj \<Rightarrow> NAMESPACE option" where
  "reference ns x = do {
     (c, n) \<leftarrow> ObReferenceObject (Core ns) (Some x);
     Some (ns\<lparr>Core := c\<rparr>) }"

definition dereference :: "NAMESPACE \<Rightarrow> obj \<Rightarrow> NAMESPACE option" where
  "dereference ns x = do {
     (c, n) \<leftarrow> ObDereferenceObject (Core ns) (Some x);
     Some (ns\<lparr>Core := c\<rparr>) }"

section \<open>Names\<close>

definition is_sep :: "u8 \<Rightarrow> bool" where "is_sep b \<longleftrightarrow> b = 0x2F \<or> b = 0x5C"

definition fold_case :: "u8 \<Rightarrow> u8" where
  "fold_case c = (if 0x41 \<le> c \<and> c \<le> 0x5A then c + 32 else c)"

text \<open>The comparison of two terminated names in \<open>ObpInsertDirectory\<close>.\<close>

fun same_name :: "u8 list \<Rightarrow> u8 list \<Rightarrow> bool option" where
  "same_name (a # as) (b # bs) =
     (if a = 0 \<and> b = 0 then Some True
      else if fold_case a \<noteq> fold_case b then Some False else same_name as bs)"
| "same_name _ _ = None"

text \<open>A token of known length against a terminated name.\<close>

fun ObpMatchToken :: "bool \<Rightarrow> u8 list \<Rightarrow> u8 list \<Rightarrow> bool option" where
  "ObpMatchToken ci _ [] = None"
| "ObpMatchToken ci [] (c # cs) = Some (c = 0)"
| "ObpMatchToken ci (t # ts) (c # cs) =
     (if c = 0 \<or> (if ci then fold_case c \<noteq> fold_case t else c \<noteq> t) then Some False
      else ObpMatchToken ci ts cs)"

text \<open>The scan of a directory for a token. An entry whose name buffer is missing is skipped.\<close>

fun find_entry :: "NAMESPACE \<Rightarrow> bool \<Rightarrow> u8 list \<Rightarrow> obj list \<Rightarrow> obj option option" where
  "find_entry ns ci t [] = Some None"
| "find_entry ns ci t (x # xs) = do {
     h \<leftarrow> header ns x;
     if HasNameInfo h
     then (case StrBuffer (NameOf ns x) of
             None \<Rightarrow> find_entry ns ci t xs
           | Some n \<Rightarrow> do {
               m \<leftarrow> ObpMatchToken ci t n;
               if m then Some (Some x) else find_entry ns ci t xs })
     else find_entry ns ci t xs }"

definition ObpLookupEntryDirectory :: "NAMESPACE \<Rightarrow> obj \<Rightarrow> u8 list \<Rightarrow> bool \<Rightarrow> obj option option" where
  "ObpLookupEntryDirectory ns d t ci = do {
     entries \<leftarrow> Directories (Core ns) d;
     find_entry ns ci t entries }"

text \<open>The scan for a colliding name; here a missing buffer is read through.\<close>

fun name_collides :: "NAMESPACE \<Rightarrow> u8 list option \<Rightarrow> obj list \<Rightarrow> bool option" where
  "name_collides ns new [] = Some False"
| "name_collides ns new (x # xs) = do {
     h \<leftarrow> header ns x;
     if HasNameInfo h
     then do {
       a \<leftarrow> StrBuffer (NameOf ns x);
       b \<leftarrow> new;
       m \<leftarrow> same_name a b;
       if m then Some True else name_collides ns new xs }
     else name_collides ns new xs }"

definition set_entries :: "obj \<Rightarrow> obj list \<Rightarrow> NAMESPACE \<Rightarrow> NAMESPACE" where
  "set_entries d es ns =
     ns\<lparr>Core := (Core ns)\<lparr>Directories := (Directories (Core ns))(d \<mapsto> es)\<rparr>\<rparr>"

text \<open>\<open>entry_ok\<close>: the pool gives an entry. A directory whose list was never initialised is
  initialised here.\<close>

definition ObpInsertDirectory ::
    "bool \<Rightarrow> NAMESPACE \<Rightarrow> obj option \<Rightarrow> obj option \<Rightarrow> (NAMESPACE \<times> VEASTATUS) option" where
  "ObpInsertDirectory entry_ok ns DirectoryObject Object =
     (case (DirectoryObject, Object) of
        (Some d, Some x) \<Rightarrow> do {
          let entries = (case Directories (Core ns) d of None \<Rightarrow> [] | Some es \<Rightarrow> es);
          let ns = set_entries d entries ns;
          h \<leftarrow> header ns x;
          if \<not> HasNameInfo h then Some (ns, STATUS_INVALID_PARAMETER)
          else do {
            m \<leftarrow> name_collides ns (StrBuffer (NameOf ns x)) entries;
            if m then Some (ns, STATUS_OBJECT_NAME_COLLISION)
            else if \<not> entry_ok then Some (ns, STATUS_INSUFFICIENT_RESOURCES)
            else do {
              ns \<leftarrow> reference ns x;
              Some (set_entries d (entries @ [x]) ns, STATUS_SUCCESS) } } }
      | _ \<Rightarrow> Some (ns, STATUS_INVALID_PARAMETER))"

section \<open>Path tokens\<close>

text \<open>Both loops run on the bytes behind \<open>RemainingName\<close>; the results are the offset and the
  count left.\<close>

fun skip_seps :: "u8 list \<Rightarrow> nat \<Rightarrow> nat \<Rightarrow> (nat \<times> nat) option" where
  "skip_seps b off 0 = Some (off, 0)"
| "skip_seps b off (Suc n) = do {
     c \<leftarrow> rd b off;
     if is_sep c then skip_seps b (off + 1) n else Some (off, Suc n) }"

fun token_length :: "u8 list \<Rightarrow> nat \<Rightarrow> nat \<Rightarrow> nat option" where
  "token_length b off 0 = Some 0"
| "token_length b off (Suc n) = do {
     c \<leftarrow> rd b off;
     if is_sep c \<or> c = 0 then Some 0 else map_option Suc (token_length b (off + 1) n) }"

definition name_bytes :: "OB_LOOKUP_CONTEXT \<Rightarrow> u8 list" where
  "name_bytes ctx = (if InReparse ctx then ReparseBuffer ctx else CallerName ctx)"

definition set_name :: "nat \<Rightarrow> nat \<Rightarrow> OB_LOOKUP_CONTEXT \<Rightarrow> OB_LOOKUP_CONTEXT" where
  "set_name off n ctx = ctx\<lparr>NameOffset := off, NameCount := of_nat n\<rparr>"

definition skip_name :: "OB_LOOKUP_CONTEXT \<Rightarrow> OB_LOOKUP_CONTEXT option" where
  "skip_name ctx = do {
     (off, n) \<leftarrow> skip_seps (name_bytes ctx) (NameOffset ctx) (unat (NameCount ctx));
     Some (set_name off n ctx) }"

text \<open>The next token: its bytes, which stay where they are in the buffer.\<close>

definition ObpGetNextPathToken :: "OB_LOOKUP_CONTEXT \<Rightarrow> (OB_LOOKUP_CONTEXT \<times> u8 list option) option" where
  "ObpGetNextPathToken ctx = do {
     (off, n) \<leftarrow> skip_seps (name_bytes ctx) (NameOffset ctx) (unat (NameCount ctx));
     at_end \<leftarrow> (if n = 0 then Some True else do { c \<leftarrow> rd (name_bytes ctx) off; Some (c = 0) });
     if at_end then Some (set_name off 0 ctx, None)
     else do {
       k \<leftarrow> token_length (name_bytes ctx) off n;
       Some (set_name (off + k) (n - k) ctx, Some (take k (drop off (name_bytes ctx)))) } }"

section \<open>Symbolic links\<close>

text \<open>Copies \<open>n\<close> bytes to the reparse buffer until it is full. The source is a buffer of its own
  or, for \<open>None\<close>, the reparse buffer itself, which the copy is changing.\<close>

fun copy_bytes :: "u8 list option \<Rightarrow> u8 list \<Rightarrow> nat \<Rightarrow> nat \<Rightarrow> nat \<Rightarrow> (u8 list \<times> nat) option" where
  "copy_bytes src R off t 0 = Some (R, t)"
| "copy_bytes src R off t (Suc n) =
     (if t < 511 then do {
        c \<leftarrow> rd (case src of None \<Rightarrow> R | Some b \<Rightarrow> b) off;
        R \<leftarrow> wr R t c;
        copy_bytes src R (off + 1) (t + 1) n }
      else Some (R, t))"

text \<open>The separator and the rest of the name, appended to the target in the reparse buffer.\<close>

definition append_rest :: "u8 list option \<Rightarrow> u8 list \<Rightarrow> nat \<Rightarrow> nat \<Rightarrow> nat \<Rightarrow> (u8 list \<times> nat) option" where
  "append_rest src R t off n =
     (if 0 < n then do {
        (R, t) \<leftarrow>
          (if 0 < t then do {
             c \<leftarrow> rd R (t - 1);
             if \<not> is_sep c \<and> t < 511 then do { R \<leftarrow> wr R t 0x2F; Some (R, t + 1) } else Some (R, t) }
           else Some (R, t));
        copy_bytes src R off t n }
      else Some (R, t))"

definition ObpParseSymbolicLink ::
    "NAMESPACE \<Rightarrow> obj \<Rightarrow> OB_LOOKUP_CONTEXT \<Rightarrow> (OB_LOOKUP_CONTEXT \<times> VEASTATUS \<times> obj option) option" where
  "ObpParseSymbolicLink ns x ctx =
     (let link = LinkOf ns x in
      case TargetObject link of
        Some y \<Rightarrow> Some (ctx, STATUS_SUCCESS, Some y)
      | None \<Rightarrow> do {
          (R, t) \<leftarrow> (case StrBuffer (LinkTarget link) of
                       None \<Rightarrow> Some (ReparseBuffer ctx, 0)
                     | Some b \<Rightarrow> copy_bytes (Some b) (ReparseBuffer ctx) 0 0 (unat (StrLength (LinkTarget link))));
          let src = (if InReparse ctx then None else Some (CallerName ctx));
          (off, n) \<leftarrow> skip_seps (case src of None \<Rightarrow> R | Some b \<Rightarrow> b) (NameOffset ctx) (unat (NameCount ctx));
          (R, t) \<leftarrow> append_rest src R t off n;
          R \<leftarrow> wr R t 0;
          Some (set_name 0 t (ctx\<lparr>ReparseBuffer := R, InReparse := True\<rparr>), STATUS_REPARSE, None) })"

section \<open>The lookup of a path\<close>

text \<open>One turn of the main loop of \<open>ObpLookupObjectName\<close>: it goes round again, breaks out with
  the current object as the result, or leaves through \<open>Exit\<close>.\<close>

datatype lookup_turn =
    Again NAMESPACE OB_LOOKUP_CONTEXT
  | Break NAMESPACE OB_LOOKUP_CONTEXT
  | Leave NAMESPACE OB_LOOKUP_CONTEXT VEASTATUS "obj option"

text \<open>The result must have the expected type, if there is one; it is referenced.\<close>

definition take_result ::
    "NAMESPACE \<Rightarrow> OB_LOOKUP_CONTEXT \<Rightarrow> obj \<Rightarrow> (NAMESPACE \<times> VEASTATUS \<times> obj option) option" where
  "take_result ns ctx y = do {
     h \<leftarrow> header ns y;
     if ExpectedType ctx \<noteq> None \<and> ObType h \<noteq> ExpectedType ctx
     then Some (ns, STATUS_OBJECT_TYPE_MISMATCH, None)
     else do { ns \<leftarrow> reference ns y; Some (ns, STATUS_SUCCESS, Some y) } }"

text \<open>The parse routine of a type. No routine of the kernel writes the reparse count, which is
  read before the call here.\<close>

definition call_parse ::
    "parse_callout \<Rightarrow> NAMESPACE \<Rightarrow> nat \<Rightarrow> obj \<Rightarrow> OB_LOOKUP_CONTEXT \<Rightarrow>
     (NAMESPACE \<times> OB_LOOKUP_CONTEXT \<times> VEASTATUS \<times> obj option) option" where
  "call_parse parse ns ty x ctx =
     (if ParseRoutine ns ty = ParseSymbolicLink
      then do { (ctx, st, r) \<leftarrow> ObpParseSymbolicLink ns x ctx; Some (ns, ctx, st, r) }
      else parse ns x ctx)"

definition parse_turn ::
    "parse_callout \<Rightarrow> NAMESPACE \<Rightarrow> OB_LOOKUP_CONTEXT \<Rightarrow> nat \<Rightarrow> obj \<Rightarrow> lookup_turn option" where
  "parse_turn parse ns ctx ty x = do {
     let count = ReparseCount ctx + 1;
     (ns, ctx, st, r) \<leftarrow> call_parse parse ns ty x ctx;
     if st = STATUS_SUCCESS
     then (case r of
         None \<Rightarrow> Some (Leave ns ctx (if InsertMode ctx then STATUS_SUCCESS else STATUS_OBJECT_NAME_NOT_FOUND) None)
       | Some y \<Rightarrow>
           if ty = ObpSymbolicLinkObjectType ns
           then do {
             ctx \<leftarrow> skip_name ctx;
             let ctx = ctx\<lparr>ReparseCount := count\<rparr>;
             if 32 < count then Some (Leave ns ctx STATUS_REPARSE_OBJECT_MAY_LOOP None)
             else Some (Again ns (ctx\<lparr>CurrentDirectory := Some y\<rparr>)) }
           else do {
             (ns, st, r) \<leftarrow> take_result ns ctx y;
             Some (Leave ns ctx st r) })
     else if st = STATUS_REPARSE
     then (let ctx = ctx\<lparr>ReparseCount := count\<rparr> in
           if 32 < count then Some (Leave ns ctx STATUS_REPARSE_OBJECT_MAY_LOOP None)
           else do {
             c \<leftarrow> rd (ReparseBuffer ctx) 0;
             Some (Again ns
               (if is_sep c then ctx\<lparr>CurrentDirectory := ObpRootDirectoryObject ns\<rparr>
                else if RootObject ctx \<noteq> None then ctx\<lparr>CurrentDirectory := RootObject ctx\<rparr>
                else ctx)) })
     else Some (Leave ns ctx st None) }"

definition directory_turn :: "NAMESPACE \<Rightarrow> OB_LOOKUP_CONTEXT \<Rightarrow> obj \<Rightarrow> lookup_turn option" where
  "directory_turn ns ctx d = do {
     (ctx, token) \<leftarrow> ObpGetNextPathToken ctx;
     (case token of
        None \<Rightarrow> Some (Break ns ctx)
      | Some t \<Rightarrow> do {
          found \<leftarrow> ObpLookupEntryDirectory ns d t (CaseInsensitive ctx);
          (case found of
             None \<Rightarrow> Some (Leave ns ctx
               (if InsertMode ctx \<and> NameCount ctx = 0 then STATUS_SUCCESS
                else STATUS_OBJECT_NAME_NOT_FOUND) None)
           | Some y \<Rightarrow> do {
               ctx \<leftarrow> skip_name (ctx\<lparr>CurrentDirectory := Some y\<rparr>);
               h \<leftarrow> header ns y;
               ty \<leftarrow> ObType h;
               if NameCount ctx = 0 \<and> ParseRoutine ns ty = NoParse then Some (Break ns ctx)
               else Some (Again ns ctx) }) }) }"

definition lookup_turn_of :: "parse_callout \<Rightarrow> NAMESPACE \<Rightarrow> OB_LOOKUP_CONTEXT \<Rightarrow> lookup_turn option" where
  "lookup_turn_of parse ns ctx = do {
     x \<leftarrow> CurrentDirectory ctx;
     h \<leftarrow> header ns x;
     ty \<leftarrow> ObType h;
     if ParseRoutine ns ty \<noteq> NoParse then parse_turn parse ns ctx ty x
     else if ty \<noteq> ObpDirectoryObjectType ns then Some (Leave ns ctx STATUS_OBJECT_TYPE_MISMATCH None)
     else directory_turn ns ctx x }"

subsection \<open>Every turn makes progress\<close>

lemma skip_seps_le: "skip_seps b off n = Some (o', n') \<Longrightarrow> n' \<le> n \<and> o' + n' = off + n"
  by (induction b off n rule: skip_seps.induct) (auto simp: rd_def split: if_splits)

lemma token_length_le: "token_length b off n = Some k \<Longrightarrow> k \<le> n"
  by (induction b off n arbitrary: k rule: token_length.induct) (auto simp: rd_def split: if_splits)

lemma skip_seps_stop:
  "skip_seps b off n = Some (o', n') \<Longrightarrow> 0 < n' \<Longrightarrow> o' < length b \<and> \<not> is_sep (b ! o')"
  by (induction b off n rule: skip_seps.induct) (auto simp: rd_def split: if_splits)

lemma unat_of_nat_u16: "n \<le> unat (w :: u16) \<Longrightarrow> unat (of_nat n :: u16) = n"
proof -
  have "unat w < 2 ^ 16" using unsigned_less [of w] by simp
  then show "n \<le> unat w \<Longrightarrow> unat (of_nat n :: u16) = n" by (simp add: unat_of_nat)
qed

lemma set_name_sel [simp]:
  "NameOffset (set_name a n ctx) = a" "NameCount (set_name a n ctx) = of_nat n"
  "CurrentDirectory (set_name a n ctx) = CurrentDirectory ctx" "RootObject (set_name a n ctx) = RootObject ctx"
  "ReparseCount (set_name a n ctx) = ReparseCount ctx" "InsertMode (set_name a n ctx) = InsertMode ctx"
  "CaseInsensitive (set_name a n ctx) = CaseInsensitive ctx" "ExpectedType (set_name a n ctx) = ExpectedType ctx"
  "InReparse (set_name a n ctx) = InReparse ctx" "CallerName (set_name a n ctx) = CallerName ctx"
  "ReparseBuffer (set_name a n ctx) = ReparseBuffer ctx" "AccessMode (set_name a n ctx) = AccessMode ctx"
  by (simp_all add: set_name_def)

lemma skip_name_le:
  assumes "skip_name ctx = Some ctx'"
  shows "unat (NameCount ctx') \<le> unat (NameCount ctx) \<and> ReparseCount ctx' = ReparseCount ctx"
  using assms
  by (auto simp: skip_name_def unat_of_nat_u16 dest!: skip_seps_le split: prod.splits bind_splits)

lemma next_token_lt:
  assumes "ObpGetNextPathToken ctx = Some (ctx', Some t)"
  shows "unat (NameCount ctx') < unat (NameCount ctx) \<and> ReparseCount ctx' = ReparseCount ctx"
proof -
  obtain off n c k where s: "skip_seps (name_bytes ctx) (NameOffset ctx) (unat (NameCount ctx)) = Some (off, n)"
    and c: "n \<noteq> 0" "rd (name_bytes ctx) off = Some c" "c \<noteq> 0"
    and k: "token_length (name_bytes ctx) off n = Some k" and ctx': "ctx' = set_name (off + k) (n - k) ctx"
    using assms by (auto simp: ObpGetNextPathToken_def split: if_splits bind_splits)
  have le: "n \<le> unat (NameCount ctx)" using skip_seps_le [OF s] by simp
  obtain m where m: "n = Suc m" using c(1) by (cases n) auto
  have nsep: "\<not> is_sep c" using skip_seps_stop [OF s] c by (auto simp: rd_def split: if_splits)
  have "0 < k" using k c m nsep by (auto split: if_splits bind_splits)
  then show ?thesis using le m unat_of_nat_u16 [of "n - k" "NameCount ctx"] by (simp add: ctx')
qed

text \<open>What is left: reparses first, then bytes of the name. The count of reparses is a machine
  word; the distance to 32 goes down with every step that stays within the limit.\<close>

definition lookup_order :: "(OB_LOOKUP_CONTEXT \<times> OB_LOOKUP_CONTEXT) set" where
  "lookup_order = measures [\<lambda>ctx. unat (32 - ReparseCount ctx), \<lambda>ctx. unat (NameCount ctx)]"

lemma wf_lookup_order: "wf lookup_order"
  by (simp add: lookup_order_def)

lemma count_step:
  assumes "\<not> 32 < (c + 1 :: u32)"
  shows "unat (32 - (c + 1)) < unat (32 - c)"
proof -
  have "32 - c \<noteq> 0" using assms by auto
  then have "0 < unat (32 - c)" by (simp add: unat_gt_0)
  moreover from unat_dec [OF this] have "unat (32 - (c + 1)) = unat (32 - c) - 1" by (simp add: algebra_simps)
  ultimately show ?thesis by simp
qed

lemma directory_turn_lt:
  assumes "directory_turn ns ctx d = Some (Again ns' ctx')"
  shows "unat (NameCount ctx') < unat (NameCount ctx) \<and> ReparseCount ctx' = ReparseCount ctx \<and> ns' = ns"
proof -
  obtain c1 t y c2 where 1: "ObpGetNextPathToken ctx = Some (c1, Some t)"
    and 2: "skip_name (c1\<lparr>CurrentDirectory := Some y\<rparr>) = Some c2" and c': "ctx' = c2" "ns' = ns"
    using assms by (auto simp: directory_turn_def split: option.splits if_splits bind_splits)
  show ?thesis using next_token_lt [OF 1] skip_name_le [OF 2] by (simp add: c')
qed

lemma parse_turn_lt:
  assumes "parse_turn parse ns ctx ty x = Some (Again ns' ctx')"
  shows "ReparseCount ctx' = ReparseCount ctx + 1 \<and> \<not> 32 < ReparseCount ctx'"
  using assms
  by (auto simp: parse_turn_def Let_def dest!: skip_name_le split: option.splits if_splits bind_splits prod.splits)

function name_lookup_loop ::
    "parse_callout \<Rightarrow> NAMESPACE \<Rightarrow> OB_LOOKUP_CONTEXT \<Rightarrow>
     (NAMESPACE \<times> OB_LOOKUP_CONTEXT \<times> VEASTATUS \<times> obj option) option" where
  "name_lookup_loop parse ns ctx =
     (case lookup_turn_of parse ns ctx of
        None \<Rightarrow> None
      | Some (Leave ns ctx st r) \<Rightarrow> Some (ns, ctx, st, r)
      | Some (Break ns ctx) \<Rightarrow> do {
          x \<leftarrow> CurrentDirectory ctx;
          (ns, st, r) \<leftarrow> take_result ns ctx x;
          Some (ns, ctx, st, r) }
      | Some (Again ns ctx) \<Rightarrow> name_lookup_loop parse ns ctx)"
  by auto

lemma turn_lt:
  assumes "lookup_turn_of parse ns ctx = Some (Again ns' ctx')"
  shows "(ctx', ctx) \<in> lookup_order"
proof -
  obtain x ty where "parse_turn parse ns ctx ty x = Some (Again ns' ctx') \<or>
      directory_turn ns ctx x = Some (Again ns' ctx')"
    using assms by (auto simp: lookup_turn_of_def split: if_splits bind_splits)
  then show ?thesis
    using parse_turn_lt [of parse ns ctx ty x ns' ctx'] directory_turn_lt [of ns ctx x ns' ctx'] count_step
    by (auto simp: lookup_order_def)
qed

termination name_lookup_loop
proof (relation "inv_image lookup_order (\<lambda>(parse, ns, ctx). ctx)")
  show "wf (inv_image lookup_order (\<lambda>(parse, ns, ctx). ctx))" by (simp add: wf_lookup_order)
qed (auto dest: turn_lt)

declare name_lookup_loop.simps [simp del]

definition ObpLookupObjectName ::
    "parse_callout \<Rightarrow> NAMESPACE \<Rightarrow> OBJECT_ATTRIBUTES \<Rightarrow> OB_LOOKUP_CONTEXT \<Rightarrow>
     (NAMESPACE \<times> OB_LOOKUP_CONTEXT \<times> VEASTATUS \<times> obj option) option" where
  "ObpLookupObjectName parse ns attrs ctx =
     (case AttrName attrs of
        None \<Rightarrow> Some (ns, ctx, STATUS_INVALID_PARAMETER, None)
      | Some name \<Rightarrow> do {
          let ctx = ctx\<lparr>RootObject := None,
                        CaseInsensitive := AttrFlags attrs AND OBJ_CASE_INSENSITIVE \<noteq> 0, ReparseCount := 0\<rparr>;
          (ns, st, root) \<leftarrow>
            (if AttrRoot attrs \<noteq> 0 then do {
               (c, st, r) \<leftarrow> ObReferenceObjectByHandle (Core ns) (AttrRoot attrs) 0 None (AccessMode ctx);
               Some (ns\<lparr>Core := c\<rparr>, st, r) }
             else Some (ns, STATUS_SUCCESS, None));
          if \<not> VEA_SUCCESS st then Some (ns, ctx, st, None)
          else do {
            let ctx = (if AttrRoot attrs \<noteq> 0 then ctx\<lparr>RootObject := root, CurrentDirectory := root\<rparr>
                       else ctx\<lparr>CurrentDirectory := ObpRootDirectoryObject ns\<rparr>);
            let ctx = ctx\<lparr>CallerName := (case StrBuffer name of None \<Rightarrow> [] | Some b \<Rightarrow> b), InReparse := False,
                          NameOffset := 0, NameCount := StrLength name\<rparr>;
            (ns, ctx, st, r) \<leftarrow> name_lookup_loop parse ns ctx;
            (case root of
               None \<Rightarrow> Some (ns, ctx, st, r)
             | Some y \<Rightarrow> do { ns \<leftarrow> dereference ns y; Some (ns, ctx, st, r) }) } })"

text \<open>The zeroed context.\<close>

definition zero_context :: OB_LOOKUP_CONTEXT where
  "zero_context = \<lparr>CurrentDirectory = None, RootObject = None, ExpectedType = None, CallerName = [],
     InReparse = False, NameOffset = 0, NameCount = 0, ReparseCount = 0, CaseInsensitive = False,
     ReparseBuffer = replicate 512 0, InsertMode = False, AccessMode = KernelMode\<rparr>"

text \<open>The initial directory is the root or, with a root handle, the bits of that handle; the
  lookup sets it again before it reads it.\<close>

definition ObInitializeLookupContext ::
    "NAMESPACE \<Rightarrow> OBJECT_ATTRIBUTES \<Rightarrow> nat option \<Rightarrow> KPROCESSOR_MODE \<Rightarrow> OB_LOOKUP_CONTEXT option" where
  "ObInitializeLookupContext ns attrs ty mode =
     (case AttrName attrs of
        None \<Rightarrow> None
      | Some name \<Rightarrow> Some (zero_context\<lparr>
          ExpectedType := ty, AccessMode := mode,
          CaseInsensitive := AttrFlags attrs AND OBJ_CASE_INSENSITIVE \<noteq> 0,
          CurrentDirectory := (if AttrRoot attrs \<noteq> 0 then Some (unat (AttrRoot attrs))
                               else ObpRootDirectoryObject ns),
          CallerName := (case StrBuffer name of None \<Rightarrow> [] | Some b \<Rightarrow> b), NameCount := StrLength name\<rparr>))"

definition ObReferenceObjectByName ::
    "parse_callout \<Rightarrow> NAMESPACE \<Rightarrow> OBJECT_ATTRIBUTES \<Rightarrow> nat option \<Rightarrow>
     (NAMESPACE \<times> VEASTATUS \<times> obj option) option" where
  "ObReferenceObjectByName parse ns attrs ty = do {
     (ns, ctx, st, r) \<leftarrow> ObpLookupObjectName parse ns attrs (zero_context\<lparr>ExpectedType := ty\<rparr>);
     Some (ns, st, r) }"

text \<open>Opening by name: lookup, access check, handle; the lookup's reference is dropped.\<close>

definition check_access ::
    "NAMESPACE \<Rightarrow> obj \<Rightarrow> KPROCESSOR_MODE \<Rightarrow> VEA_TOKEN option \<Rightarrow> u32 \<Rightarrow> (VEASTATUS \<times> u32) option" where
  "check_access ns x mode token access = do {
     h \<leftarrow> header ns x;
     ty \<leftarrow> ObType h;
     ObpCheckAccess (SecurityOf ns x) (MappingOf ns ty) mode token (ProcessToken ns) access }"

definition ObOpenObjectByName ::
    "parse_callout \<Rightarrow> NAMESPACE \<Rightarrow> OBJECT_ATTRIBUTES \<Rightarrow> nat option \<Rightarrow> KPROCESSOR_MODE \<Rightarrow> u32 \<Rightarrow>
     (NAMESPACE \<times> VEASTATUS \<times> HANDLE) option" where
  "ObOpenObjectByName parse ns attrs ty mode DesiredAccess =
     (case ObInitializeLookupContext ns attrs ty mode of
        None \<Rightarrow> Some (ns, STATUS_INVALID_PARAMETER, 0)
      | Some ctx \<Rightarrow> do {
          (ns, ctx, st, r) \<leftarrow> ObpLookupObjectName parse ns attrs ctx;
          if \<not> VEA_SUCCESS st then Some (ns, st, 0)
          else (case r of
              None \<Rightarrow> Some (ns, STATUS_OBJECT_NAME_NOT_FOUND, 0)
            | Some x \<Rightarrow> do {
                (st, granted) \<leftarrow> check_access ns x mode None DesiredAccess;
                if \<not> VEA_SUCCESS st
                then do { ns \<leftarrow> dereference ns x; Some (ns, st, 0) }
                else do {
                  (c, st, hnd) \<leftarrow> ObpCreateHandle (Core ns) x (AttrFlags attrs) mode granted;
                  ns \<leftarrow> dereference (ns\<lparr>Core := c\<rparr>) x;
                  Some (ns, st, hnd) } }) })"

text \<open>\<open>kernel_address\<close>: the pointer is at \<open>0xC0000000\<close> or above.\<close>

definition ObReferenceObjectByPointer ::
    "(obj \<Rightarrow> bool) \<Rightarrow> NAMESPACE \<Rightarrow> obj option \<Rightarrow> nat option \<Rightarrow> KPROCESSOR_MODE \<Rightarrow> (NAMESPACE \<times> VEASTATUS) option" where
  "ObReferenceObjectByPointer kernel_address ns Object ty mode =
     (case Object of
        None \<Rightarrow> Some (ns, STATUS_INVALID_PARAMETER)
      | Some x \<Rightarrow> do {
          h \<leftarrow> header ns x;
          if ty \<noteq> None \<and> ObType h \<noteq> ty then Some (ns, STATUS_OBJECT_TYPE_MISMATCH)
          else if mode = UserMode \<and> \<not> kernel_address x then Some (ns, STATUS_ACCESS_VIOLATION)
          else do { ns \<leftarrow> reference ns x; Some (ns, STATUS_SUCCESS) } })"

end
