(* ===== verification/ObInsert.thy ===== *)
theory ObInsert
  imports ObNames
begin

text \<open>
  Creation and insertion of objects (\<open>veakrnl/ob/oblifecycle.c\<close>), the operations on symbolic links, the root
  structure and the name of an object (\<open>obdirectory.c\<close>, \<open>obmanager.c\<close>). The outcomes of allocations are arguments.
\<close>

section \<open>Creation and insertion\<close>

text \<open>The scan of a name for what an inserted object may not be called.\<close>

fun unsecure_scan :: "u8 list \<Rightarrow> KPROCESSOR_MODE \<Rightarrow> nat \<Rightarrow> nat \<Rightarrow> bool option" where
  "unsecure_scan b mode i 0 = Some False"
| "unsecure_scan b mode i (Suc n) = do {
     c \<leftarrow> rd b i;
     if c < 0x20 \<or> c = 0x7F then Some True
     else if c \<in> {0x2A, 0x3C, 0x3E, 0x22, 0x7C} then Some True
     else if c = 0x3F \<and> mode = UserMode then Some True
     else if is_sep c \<and> 0 < n then do {
       d \<leftarrow> rd b (i + 1);
       if is_sep d then Some True else unsecure_scan b mode (i + 1) n }
     else unsecure_scan b mode (i + 1) n }"

definition ObpCheckUnsecureName :: "ANSI_STRING \<Rightarrow> KPROCESSOR_MODE \<Rightarrow> bool option" where
  "ObpCheckUnsecureName name mode =
     (case StrBuffer name of
        None \<Rightarrow> Some False
      | Some b \<Rightarrow>
          let len = unat (StrLength name) in
          if len = 0 then Some False
          else do {
            last \<leftarrow> rd b (len - 1);
            if (last = 0x20 \<or> last = 0x2E) \<and> mode = UserMode then Some True
            else do {
              bad \<leftarrow> unsecure_scan b mode 0 len;
              if bad then Some True
              else do {
                c0 \<leftarrow> rd b 0;
                if len = 1 \<and> c0 = 0x2E then Some True
                else if len = 2 \<and> c0 = 0x2E then do { c1 \<leftarrow> rd b 1; Some (c1 = 0x2E) }
                else Some False } } })"

text \<open>The offset of the final component: after the last separator.\<close>

fun final_name :: "u8 list \<Rightarrow> nat \<Rightarrow> nat option" where
  "final_name b 0 = Some 0"
| "final_name b (Suc i) = do {
     c \<leftarrow> rd b i;
     if is_sep c then Some (Suc i) else final_name b i }"

text \<open>\<open>RtlRawStringLength\<close>: the bytes before the terminator.\<close>

fun raw_length :: "u8 list \<Rightarrow> nat option" where
  "raw_length [] = None"
| "raw_length (c # cs) = (if c = 0 then Some 0 else map_option Suc (raw_length cs))"

definition zero_string :: ANSI_STRING where "zero_string = \<lparr>StrLength = 0, StrBuffer = None\<rparr>"

definition set_header :: "obj \<Rightarrow> OBJECT_HEADER \<Rightarrow> NAMESPACE \<Rightarrow> NAMESPACE" where
  "set_header x h ns = ns\<lparr>Core := set_object x (Some h) (Core ns)\<rparr>"

definition has_name :: "OBJECT_ATTRIBUTES option \<Rightarrow> bool" where
  "has_name attrs =
     (case attrs of None \<Rightarrow> False
      | Some a \<Rightarrow> (case AttrName a of None \<Rightarrow> False | Some n \<Rightarrow> StrLength n \<noteq> 0))"

text \<open>\<open>raw\<close> is the object the pool hands out, \<open>normal\<close> the descriptor
  \<open>SfCreateNormalSecurityDescriptor\<close> returns. The only create routine of the kernel is the one
  of directories, which initialises the list of entries.\<close>

definition ObAllocateObject ::
    "obj option \<Rightarrow> VEA_SECURITY_DESCRIPTOR option \<Rightarrow> NAMESPACE \<Rightarrow> nat \<Rightarrow> OBJECT_ATTRIBUTES option \<Rightarrow>
     NAMESPACE \<times> VEASTATUS \<times> obj option" where
  "ObAllocateObject raw normal ns ty attrs =
     (case raw of
        None \<Rightarrow> (ns, - 1, None)
      | Some x \<Rightarrow>
          let h = \<lparr>ReferenceCount = 1, ObType = Some ty, Permanent = False,
                   HasNameInfo = has_name attrs, NameDirectory = None\<rparr>;
              sd = (case attrs of None \<Rightarrow> None | Some a \<Rightarrow> AttrSecurity a);
              ns = set_header x h ns;
              ns = ns\<lparr>NameOf := (NameOf ns)(x := zero_string),
                      LinkOf := (LinkOf ns)(x := \<lparr>LinkTarget = zero_string, TargetObject = None\<rparr>),
                      InfoOf := (InfoOf ns)(x := None),
                      SecurityOf := (SecurityOf ns)(x := (if sd = None then normal else sd)),
                      TotalObjectCount := (TotalObjectCount ns)(ty := TotalObjectCount ns ty + 1)\<rparr>;
              ns = (if ty = ObpDirectoryObjectType ns then set_entries x [] ns else ns)
          in (ns, STATUS_SUCCESS, Some x))"

text \<open>\<open>info_ok\<close>: the pool gives the create information. The name is copied and terminated.\<close>

definition copy_name :: "ANSI_STRING \<Rightarrow> ANSI_STRING option" where
  "copy_name name = do {
     b \<leftarrow> StrBuffer name;
     if unat (StrLength name) \<le> length b
     then Some \<lparr>StrLength = StrLength name, StrBuffer = Some (take (unat (StrLength name)) b @ [0])\<rparr>
     else None }"

definition ObCreateObject ::
    "obj option \<Rightarrow> VEA_SECURITY_DESCRIPTOR option \<Rightarrow> bool \<Rightarrow> NAMESPACE \<Rightarrow> KPROCESSOR_MODE \<Rightarrow> nat \<Rightarrow>
     OBJECT_ATTRIBUTES option \<Rightarrow> (NAMESPACE \<times> VEASTATUS \<times> obj option) option" where
  "ObCreateObject raw normal info_ok ns mode ty attrs =
     (case ObAllocateObject raw normal ns ty attrs of
        (ns, st, None) \<Rightarrow> Some (ns, STATUS_INSUFFICIENT_RESOURCES, None)
      | (ns, st, Some x) \<Rightarrow>
          if \<not> info_ok
          then do { ns \<leftarrow> dereference ns x; Some (ns, STATUS_INSUFFICIENT_RESOURCES, None) }
          else do {
            a \<leftarrow> (case attrs of
                    None \<Rightarrow> Some \<lparr>AttrRoot = 0, AttrName = None, AttrFlags = 0, AttrSecurity = None\<rparr>
                  | Some a \<Rightarrow>
                      if has_name attrs
                      then do { n \<leftarrow> AttrName a; n \<leftarrow> copy_name n; Some (a\<lparr>AttrName := Some n\<rparr>) }
                      else Some (a\<lparr>AttrName := None\<rparr>));
            Some (ns\<lparr>InfoOf := (InfoOf ns)(x \<mapsto> \<lparr>InfoAttributes = a, InfoMode = mode\<rparr>)\<rparr>,
                  STATUS_SUCCESS, Some x) })"

text \<open>The failure exit of \<open>ObInsertObject\<close>.\<close>

definition insert_failed ::
    "NAMESPACE \<Rightarrow> obj \<Rightarrow> HANDLE \<Rightarrow> VEASTATUS \<Rightarrow> (NAMESPACE \<times> VEASTATUS \<times> obj option \<times> HANDLE) option" where
  "insert_failed ns x hnd st = do {
     h \<leftarrow> header ns x;
     let ns = (if HasNameInfo h then set_header x (h\<lparr>NameDirectory := None\<rparr>) ns else ns);
     c \<leftarrow> (if hnd \<noteq> 0 then ObCloseHandle (Core ns) hnd KernelMode else Some (Core ns));
     ns \<leftarrow> dereference (ns\<lparr>Core := c\<rparr>) x;
     Some (ns, st, None, 0) }"

definition insert_handle ::
    "NAMESPACE \<Rightarrow> obj \<Rightarrow> KPROCESSOR_MODE \<Rightarrow> VEA_TOKEN option \<Rightarrow> u32 \<Rightarrow> u32 \<Rightarrow>
     (NAMESPACE \<times> VEASTATUS \<times> HANDLE) option" where
  "insert_handle ns x mode token attr access = do {
     (st, granted) \<leftarrow> check_access ns x mode token access;
     if \<not> VEA_SUCCESS st then Some (ns, st, 0)
     else do {
       (c, st, hnd) \<leftarrow> ObpCreateHandle (Core ns) x attr mode granted;
       Some (ns\<lparr>Core := c\<rparr>, st, hnd) } }"

text \<open>The name enters the namespace: the first object is the root, every other one goes where
  the lookup of its path stopped. \<open>name_ok\<close> and \<open>entry_ok\<close> are the two allocations.\<close>

definition insert_root :: "NAMESPACE \<Rightarrow> obj \<Rightarrow> ANSI_STRING \<Rightarrow> (NAMESPACE \<times> VEASTATUS) option" where
  "insert_root ns x name = do {
     h \<leftarrow> header ns x;
     b \<leftarrow> StrBuffer name;
     c \<leftarrow> rd b 0;
     if ObType h \<noteq> Some (ObpDirectoryObjectType ns) \<or> StrLength name \<noteq> 1 \<or> c \<noteq> 0x2F
     then Some (ns, STATUS_OBJECT_PATH_NOT_FOUND)
     else Some ((if HasNameInfo h then set_header x (h\<lparr>NameDirectory := None\<rparr>) ns else ns)
                  \<lparr>ObpRootDirectoryObject := Some x\<rparr>, STATUS_SUCCESS) }"

definition insert_at ::
    "bool \<Rightarrow> bool \<Rightarrow> NAMESPACE \<Rightarrow> obj \<Rightarrow> ANSI_STRING \<Rightarrow> obj \<Rightarrow> (NAMESPACE \<times> VEASTATUS) option" where
  "insert_at name_ok entry_ok ns x name d = do {
     b \<leftarrow> StrBuffer name;
     k \<leftarrow> final_name b (unat (StrLength name));
     th \<leftarrow> header ns d;
     h \<leftarrow> header ns x;
     let in_dir = (ObType th = Some (ObpDirectoryObjectType ns));
     (ns, ok) \<leftarrow>
       (if HasNameInfo h then do {
          n \<leftarrow> raw_length (drop k b);
          if \<not> name_ok
          then Some (ns\<lparr>NameOf := (NameOf ns)(x := (NameOf ns x)\<lparr>StrBuffer := None\<rparr>)\<rparr>, False)
          else Some ((set_header x (h\<lparr>NameDirectory := (if in_dir then Some d else None)\<rparr>) ns)
                       \<lparr>NameOf := (NameOf ns)(x :=
                         \<lparr>StrLength = of_nat n, StrBuffer = Some (take n (drop k b) @ [0])\<rparr>)\<rparr>, True) }
        else Some (ns, True));
     if \<not> ok then Some (ns, STATUS_INSUFFICIENT_RESOURCES)
     else if in_dir then ObpInsertDirectory entry_ok ns (Some d) (Some x)
     else Some (ns, STATUS_SUCCESS) }"

definition insert_name ::
    "parse_callout \<Rightarrow> bool \<Rightarrow> bool \<Rightarrow> NAMESPACE \<Rightarrow> obj \<Rightarrow> OBJECT_ATTRIBUTES \<Rightarrow> KPROCESSOR_MODE \<Rightarrow> ANSI_STRING \<Rightarrow>
     (NAMESPACE \<times> VEASTATUS) option" where
  "insert_name parse name_ok entry_ok ns x attrs mode name =
     (if ObpRootDirectoryObject ns = None then insert_root ns x name
      else do {
        h \<leftarrow> header ns x;
        ctx \<leftarrow> ObInitializeLookupContext ns attrs (ObType h) mode;
        (ns, ctx, st, r) \<leftarrow> ObpLookupObjectName parse ns attrs (ctx\<lparr>InsertMode := True\<rparr>);
        (case (st = STATUS_SUCCESS, r) of
           (True, Some y) \<Rightarrow> do { ns \<leftarrow> dereference ns y; Some (ns, STATUS_OBJECT_NAME_COLLISION) }
         | _ \<Rightarrow>
             if \<not> VEA_SUCCESS st then Some (ns, st)
             else (case CurrentDirectory ctx of
                 None \<Rightarrow> Some (ns, STATUS_OBJECT_PATH_NOT_FOUND)
               | Some d \<Rightarrow> insert_at name_ok entry_ok ns x name d)) })"

fun reference_times :: "nat \<Rightarrow> NAMESPACE \<Rightarrow> obj \<Rightarrow> NAMESPACE option" where
  "reference_times 0 ns x = Some ns"
| "reference_times (Suc n) ns x = do { ns \<leftarrow> reference ns x; reference_times n ns x }"

text \<open>The success exit: the creator's reference is dropped unless the caller takes the object,
  and the create information is freed, which reads the header once more.\<close>

definition insert_done ::
    "NAMESPACE \<Rightarrow> obj \<Rightarrow> u32 \<Rightarrow> bool \<Rightarrow> HANDLE \<Rightarrow> (NAMESPACE \<times> VEASTATUS \<times> obj option \<times> HANDLE) option" where
  "insert_done ns x bias want_object hnd = do {
     ns \<leftarrow> (if want_object then reference_times (unat bias) ns x else dereference ns x);
     h \<leftarrow> header ns x;
     Some (ns\<lparr>InfoOf := (InfoOf ns)(x := None)\<rparr>, STATUS_SUCCESS,
           if want_object then Some x else None, hnd) }"

definition ObInsertObject ::
    "parse_callout \<Rightarrow> bool \<Rightarrow> bool \<Rightarrow> NAMESPACE \<Rightarrow> obj option \<Rightarrow> VEA_TOKEN option \<Rightarrow> u32 \<Rightarrow> u32 \<Rightarrow> bool \<Rightarrow> bool \<Rightarrow>
     (NAMESPACE \<times> VEASTATUS \<times> obj option \<times> HANDLE) option" where
  "ObInsertObject parse name_ok entry_ok ns Object token DesiredAccess bias want_object want_handle =
     (case Object of
        None \<Rightarrow> Some (ns, STATUS_INVALID_PARAMETER, None, 0)
      | Some x \<Rightarrow> do {
          h \<leftarrow> header ns x;
          let info = InfoOf ns x;
          let attr = (case info of None \<Rightarrow> 0 | Some i \<Rightarrow> AttrFlags (InfoAttributes i));
          let mode = (case info of None \<Rightarrow> KernelMode | Some i \<Rightarrow> InfoMode i);
          let name = (case info of None \<Rightarrow> None | Some i \<Rightarrow> AttrName (InfoAttributes i));
          let ns = (if attr AND OBJ_PERMANENT \<noteq> 0 then set_header x (h\<lparr>Permanent := True\<rparr>) ns else ns);
          if bias \<noteq> 0 \<and> \<not> want_object then insert_failed ns x 0 STATUS_INVALID_PARAMETER
          else do {
            bad \<leftarrow> (case name of None \<Rightarrow> Some False | Some n \<Rightarrow> ObpCheckUnsecureName n mode);
            if bad then insert_failed ns x 0 STATUS_OBJECT_NAME_INVALID
            else if want_handle \<and> mode = UserMode \<and> attr AND OBJ_KERNEL_HANDLE \<noteq> 0
            then insert_failed ns x 0 STATUS_INVALID_PARAMETER
            else do {
              (ns, st, hnd) \<leftarrow> (if want_handle then insert_handle ns x mode token attr DesiredAccess
                               else Some (ns, STATUS_SUCCESS, 0));
              if \<not> VEA_SUCCESS st then insert_failed ns x 0 st
              else do {
                (ns, st) \<leftarrow> (case (info, name) of
                    (Some i, Some n) \<Rightarrow> insert_name parse name_ok entry_ok ns x (InfoAttributes i) mode n
                  | _ \<Rightarrow> Some (ns, STATUS_SUCCESS));
                if \<not> VEA_SUCCESS st then insert_failed ns x hnd st
                else insert_done ns x bias want_object hnd } } } })"

section \<open>Symbolic links and temporary objects\<close>

text \<open>\<open>ObMakeTemporaryObject\<close> takes the object out of its directory; the reference the entry held
  stays counted.\<close>

definition ObMakeTemporaryObject :: "NAMESPACE \<Rightarrow> obj option \<Rightarrow> NAMESPACE option" where
  "ObMakeTemporaryObject ns Object =
     (case Object of
        None \<Rightarrow> Some ns
      | Some x \<Rightarrow> do {
          h \<leftarrow> header ns x;
          let ns = set_header x (h\<lparr>Permanent := False\<rparr>) ns;
          c \<leftarrow> ObpDeleteNameCheck (Core ns) x;
          Some (ns\<lparr>Core := c\<rparr>) })"

definition link_attributes :: "u8 list \<Rightarrow> nat \<Rightarrow> OBJECT_ATTRIBUTES" where
  "link_attributes name n =
     \<lparr>AttrRoot = 0, AttrName = Some \<lparr>StrLength = of_nat n, StrBuffer = Some name\<rparr>,
      AttrFlags = OBJ_PERMANENT, AttrSecurity = None\<rparr>"

text \<open>The name of a fresh link: its parent and a terminated copy. \<open>name_ok\<close>: the pool gives the
  copy.\<close>

definition name_link :: "NAMESPACE \<Rightarrow> obj \<Rightarrow> obj \<Rightarrow> u8 list \<Rightarrow> nat \<Rightarrow> bool \<Rightarrow> (NAMESPACE \<times> bool) option" where
  "name_link ns x parent name n name_ok = do {
     h \<leftarrow> header ns x;
     if \<not> HasNameInfo h then Some (ns, False)
     else Some ((set_header x (h\<lparr>NameDirectory := Some parent\<rparr>) ns)\<lparr>NameOf := (NameOf ns)(x :=
            \<lparr>StrLength = of_nat n, StrBuffer = (if name_ok then Some (take n name @ [0]) else None)\<rparr>)\<rparr>,
          name_ok) }"

text \<open>\<open>RtlInitAnsiString\<close> counts in 16 bits and does not return on a name of 65536 bytes or more;
  the target's length is tested in the loop.\<close>

definition init_ansi :: "u8 list \<Rightarrow> nat option" where
  "init_ansi s = do {
     n \<leftarrow> raw_length s;
     if n < 65536 then Some n else None }"

definition make_permanent :: "NAMESPACE \<Rightarrow> obj \<Rightarrow> NAMESPACE option" where
  "make_permanent ns x = do {
     h \<leftarrow> header ns x;
     Some (set_header x (h\<lparr>Permanent := True\<rparr>) ns) }"

definition ObCreateSymbolicLink ::
    "obj option \<Rightarrow> VEA_SECURITY_DESCRIPTOR option \<Rightarrow> bool \<Rightarrow> bool \<Rightarrow> bool \<Rightarrow> NAMESPACE \<Rightarrow>
     obj option \<Rightarrow> u8 list option \<Rightarrow> u8 list option \<Rightarrow> (NAMESPACE \<times> VEASTATUS) option" where
  "ObCreateSymbolicLink raw normal target_ok name_ok entry_ok ns ParentDirectory LinkName TargetPath =
     (case (ParentDirectory, LinkName, TargetPath) of
        (Some parent, Some name, Some target) \<Rightarrow> do {
          n \<leftarrow> init_ansi name;
          if n = 0 then Some (ns, STATUS_INVALID_PARAMETER)
          else do {
            len \<leftarrow> raw_length target;
            if 0xFFFE < len then Some (ns, STATUS_NAME_TOO_LONG)
            else (case ObAllocateObject raw normal ns (ObpSymbolicLinkObjectType ns) (Some (link_attributes name n)) of
              (ns, st, None) \<Rightarrow> Some (ns, st)
            | (ns, st, Some x) \<Rightarrow> do {
                ns \<leftarrow> make_permanent ns x;
                if \<not> target_ok
                then do { ns \<leftarrow> dereference ns x; Some (ns, STATUS_INSUFFICIENT_RESOURCES) }
                else do {
                  let ns = ns\<lparr>LinkOf := (LinkOf ns)(x := \<lparr>LinkTarget =
                      \<lparr>StrLength = of_nat len, StrBuffer = Some (take (len + 1) target)\<rparr>, TargetObject = None\<rparr>)\<rparr>;
                  (ns, ok) \<leftarrow> name_link ns x parent name n name_ok;
                  if \<not> ok
                  then do { ns \<leftarrow> dereference ns x; Some (ns, STATUS_INSUFFICIENT_RESOURCES) }
                  else do {
                    (ns, st) \<leftarrow> ObpInsertDirectory entry_ok ns (Some parent) (Some x);
                    ns \<leftarrow> dereference ns x;
                    Some (ns, if VEA_SUCCESS st then STATUS_SUCCESS else st) } } }) } }
      | _ \<Rightarrow> Some (ns, STATUS_INVALID_PARAMETER))"

definition ObCreateSymbolicLinkToObject ::
    "obj option \<Rightarrow> VEA_SECURITY_DESCRIPTOR option \<Rightarrow> bool \<Rightarrow> bool \<Rightarrow> NAMESPACE \<Rightarrow>
     obj option \<Rightarrow> u8 list option \<Rightarrow> obj option \<Rightarrow> (NAMESPACE \<times> VEASTATUS) option" where
  "ObCreateSymbolicLinkToObject raw normal name_ok entry_ok ns ParentDirectory LinkName Target =
     (case (ParentDirectory, LinkName, Target) of
        (Some parent, Some name, Some y) \<Rightarrow> do {
          n \<leftarrow> init_ansi name;
          if n = 0 then Some (ns, STATUS_INVALID_PARAMETER)
          else (case ObAllocateObject raw normal ns (ObpSymbolicLinkObjectType ns) (Some (link_attributes name n)) of
              (ns, st, None) \<Rightarrow> Some (ns, st)
            | (ns, st, Some x) \<Rightarrow> do {
                ns \<leftarrow> make_permanent ns x;
                (ns, ok) \<leftarrow> name_link ns x parent name n name_ok;
                if \<not> ok
                then do { ns \<leftarrow> dereference ns x; Some (ns, STATUS_INSUFFICIENT_RESOURCES) }
                else do {
                  ns \<leftarrow> reference (ns\<lparr>LinkOf := (LinkOf ns)(x :=
                          \<lparr>LinkTarget = zero_string, TargetObject = Some y\<rparr>)\<rparr>) y;
                  (ns, st) \<leftarrow> ObpInsertDirectory entry_ok ns (Some parent) (Some x);
                  ns \<leftarrow> dereference ns x;
                  Some (ns, st) } }) }
      | _ \<Rightarrow> Some (ns, STATUS_INVALID_PARAMETER))"

text \<open>The delete routine of links.\<close>

definition ObpDeleteSymbolicLink :: "NAMESPACE \<Rightarrow> obj option \<Rightarrow> NAMESPACE option" where
  "ObpDeleteSymbolicLink ns Object =
     (case Object of
        None \<Rightarrow> Some ns
      | Some x \<Rightarrow>
          let link = LinkOf ns x;
              ns = ns\<lparr>LinkOf := (LinkOf ns)(x := link\<lparr>LinkTarget := (LinkTarget link)\<lparr>StrBuffer := None\<rparr>\<rparr>)\<rparr>
          in (case TargetObject link of
                None \<Rightarrow> Some ns
              | Some y \<Rightarrow> do {
                  ns \<leftarrow> dereference ns y;
                  Some (ns\<lparr>LinkOf := (LinkOf ns)(x := (LinkOf ns x)\<lparr>TargetObject := None\<rparr>)\<rparr>) }))"

text \<open>Names of equal length compared without case.\<close>

fun same_folded :: "u8 list \<Rightarrow> u8 list \<Rightarrow> nat \<Rightarrow> bool option" where
  "same_folded a b 0 = Some True"
| "same_folded (c # cs) (d # ds) (Suc n) =
     (if fold_case c \<noteq> fold_case d then Some False else same_folded cs ds n)"
| "same_folded _ _ (Suc n) = None"

fun find_named :: "NAMESPACE \<Rightarrow> u8 list \<Rightarrow> nat \<Rightarrow> obj list \<Rightarrow> obj option option" where
  "find_named ns name n [] = Some None"
| "find_named ns name n (x # xs) = do {
     h \<leftarrow> header ns x;
     (case StrBuffer (NameOf ns x) of
        Some b \<Rightarrow>
          if HasNameInfo h \<and> unat (StrLength (NameOf ns x)) = n
          then do {
            m \<leftarrow> same_folded b name n;
            if m then Some (Some x) else find_named ns name n xs }
          else find_named ns name n xs
      | None \<Rightarrow> find_named ns name n xs) }"

definition ObDeleteSymbolicLink ::
    "NAMESPACE \<Rightarrow> obj option \<Rightarrow> u8 list option \<Rightarrow> (NAMESPACE \<times> VEASTATUS) option" where
  "ObDeleteSymbolicLink ns ParentDirectory LinkName =
     (case (ParentDirectory, LinkName) of
        (Some d, Some name) \<Rightarrow> do {
          n \<leftarrow> init_ansi name;
          if n = 0 then Some (ns, STATUS_INVALID_PARAMETER)
          else do {
            found \<leftarrow> find_named ns name n (case Directories (Core ns) d of None \<Rightarrow> [] | Some es \<Rightarrow> es);
            (case found of
               None \<Rightarrow> Some (ns, STATUS_OBJECT_NAME_NOT_FOUND)
             | Some x \<Rightarrow> do {
                 h \<leftarrow> header ns x;
                 if ObType h \<noteq> Some (ObpSymbolicLinkObjectType ns) then Some (ns, STATUS_OBJECT_TYPE_MISMATCH)
                 else do { ns \<leftarrow> ObMakeTemporaryObject ns (Some x); Some (ns, STATUS_SUCCESS) } }) } }
      | _ \<Rightarrow> Some (ns, STATUS_INVALID_PARAMETER))"

section \<open>Directories and the root structure\<close>

text \<open>The outcomes of the pool for one created object: the object and three allocations.\<close>

record POOL =
  PoolObject :: "obj option"
  PoolInfo :: bool
  PoolName :: bool
  PoolEntry :: bool

definition VeaClose :: "KPROCESSOR_MODE \<Rightarrow> NAMESPACE \<Rightarrow> HANDLE \<Rightarrow> NAMESPACE option" where
  "VeaClose previous ns h = do { c \<leftarrow> ObCloseHandle (Core ns) h previous; Some (ns\<lparr>Core := c\<rparr>) }"

definition VeaCreateDirectoryNamespace ::
    "parse_callout \<Rightarrow> VEA_SECURITY_DESCRIPTOR option \<Rightarrow> KPROCESSOR_MODE \<Rightarrow> POOL \<Rightarrow> NAMESPACE \<Rightarrow> bool \<Rightarrow> u32 \<Rightarrow>
     OBJECT_ATTRIBUTES option \<Rightarrow> (NAMESPACE \<times> VEASTATUS \<times> HANDLE) option" where
  "VeaCreateDirectoryNamespace parse normal previous pool ns want_handle Mask attrs = do {
     (ns, st, r) \<leftarrow> ObCreateObject (PoolObject pool) normal (PoolInfo pool) ns KernelMode
                      (ObpDirectoryObjectType ns) attrs;
     if \<not> VEA_SUCCESS st then Some (ns, st, 0)
     else do {
       (ns, st, r, hnd) \<leftarrow> ObInsertObject parse (PoolName pool) (PoolEntry pool) ns r None Mask 0 False True;
       if \<not> VEA_SUCCESS st then Some (ns, st, 0)
       else if want_handle then Some (ns, STATUS_SUCCESS, hnd)
       else do { ns \<leftarrow> VeaClose previous ns hnd; Some (ns, STATUS_SUCCESS, 0) } } }"

fun create_directories ::
    "parse_callout \<Rightarrow> VEA_SECURITY_DESCRIPTOR option \<Rightarrow> KPROCESSOR_MODE \<Rightarrow> (POOL \<times> u8 list) list \<Rightarrow> NAMESPACE \<Rightarrow>
     (NAMESPACE \<times> VEASTATUS \<times> HANDLE list) option" where
  "create_directories parse normal previous [] ns = Some (ns, STATUS_SUCCESS, [])"
| "create_directories parse normal previous ((pool, path) # ds) ns = do {
     n \<leftarrow> init_ansi path;
     (ns, st, hnd) \<leftarrow> VeaCreateDirectoryNamespace parse normal previous pool ns True 0x10000
                        (Some (link_attributes path n));
     if \<not> VEA_SUCCESS st then Some (ns, st, [])
     else do {
       (ns, st, hs) \<leftarrow> create_directories parse normal previous ds ns;
       Some (ns, st, hnd # hs) } }"

fun keep_directories ::
    "KPROCESSOR_MODE \<Rightarrow> HANDLE list \<Rightarrow> NAMESPACE \<Rightarrow> (NAMESPACE \<times> VEASTATUS \<times> obj option list) option" where
  "keep_directories previous [] ns = Some (ns, STATUS_SUCCESS, [])"
| "keep_directories previous (hnd # hs) ns = do {
     (c, st, r) \<leftarrow> ObReferenceObjectByHandle (Core ns) hnd 0x10000 (Some (ObpDirectoryObjectType ns)) KernelMode;
     if \<not> VEA_SUCCESS st then Some (ns\<lparr>Core := c\<rparr>, st, [])
     else do {
       ns \<leftarrow> VeaClose previous (ns\<lparr>Core := c\<rparr>) hnd;
       (ns, st, rs) \<leftarrow> keep_directories previous hs ns;
       Some (ns, st, r # rs) } }"

fun insert_types :: "bool \<Rightarrow> obj option \<Rightarrow> obj list \<Rightarrow> NAMESPACE \<Rightarrow> (NAMESPACE \<times> VEASTATUS) option" where
  "insert_types entry_ok types [] ns = Some (ns, STATUS_SUCCESS)"
| "insert_types entry_ok types (x # xs) ns = do {
     h \<leftarrow> header ns x;
     if \<not> HasNameInfo h \<or> StrBuffer (NameOf ns x) = None then insert_types entry_ok types xs ns
     else do {
       (ns, st) \<leftarrow> ObpInsertDirectory entry_ok (set_header x (h\<lparr>NameDirectory := types\<rparr>) ns) types (Some x);
       if \<not> VEA_SUCCESS st then Some (ns, st) else insert_types entry_ok types xs ns } }"

definition root_path :: "u8 list" where "root_path = [0x2F, 0]"
definition device_path :: "u8 list" where "device_path = [0x2F, 0x44, 0x65, 0x76, 0x69, 0x63, 0x65, 0]"
definition driver_path :: "u8 list" where "driver_path = [0x2F, 0x44, 0x72, 0x69, 0x76, 0x65, 0x72, 0]"
definition types_path :: "u8 list" where "types_path = [0x2F, 0x54, 0x79, 0x70, 0x65, 0x73, 0]"

text \<open>The root, its three directories, and the registered types under the last one. The three
  global pointers to the directories are the result; the root's is a field.\<close>

definition ObpCreateRootStructure ::
    "parse_callout \<Rightarrow> VEA_SECURITY_DESCRIPTOR option \<Rightarrow> KPROCESSOR_MODE \<Rightarrow> bool \<Rightarrow> (nat \<Rightarrow> POOL) \<Rightarrow> obj list \<Rightarrow>
     NAMESPACE \<Rightarrow> (NAMESPACE \<times> VEASTATUS \<times> obj option list) option" where
  "ObpCreateRootStructure parse normal previous entry_ok pool ObpTypeObjectList ns = do {
     (ns, st, hs) \<leftarrow> create_directories parse normal previous
        [(pool 0, root_path), (pool 1, device_path), (pool 2, driver_path), (pool 3, types_path)] ns;
     if \<not> VEA_SUCCESS st then Some (ns, st, [])
     else do {
       (ns, st, ds) \<leftarrow> keep_directories previous hs ns;
       let ns = ns\<lparr>ObpRootDirectoryObject := (case ds of [] \<Rightarrow> None | d # _ \<Rightarrow> d)\<rparr>;
       if \<not> VEA_SUCCESS st then Some (ns, st, ds)
       else do {
         (ns, st) \<leftarrow> insert_types entry_ok (ds ! 3) ObpTypeObjectList ns;
         Some (ns, st, ds) } } }"

section \<open>The name of an object\<close>

definition name_of :: "NAMESPACE \<Rightarrow> obj \<Rightarrow> u8 list option" where
  "name_of ns x = do {
     b \<leftarrow> StrBuffer (NameOf ns x);
     if unat (StrLength (NameOf ns x)) \<le> length b then Some (take (unat (StrLength (NameOf ns x))) b) else None }"

text \<open>Both walks go up the parents to the root; the first adds up the size, with the overflow
  tests of the code, the second writes the components from the back. A loop of parents would
  not end.\<close>

definition parent_step :: "NAMESPACE \<Rightarrow> obj \<Rightarrow> (u8 list \<times> obj option) option" where
  "parent_step ns p = do {
     h \<leftarrow> header ns p;
     if HasNameInfo h \<and> StrBuffer (NameOf ns p) \<noteq> None
     then do { n \<leftarrow> name_of ns p; Some (n, NameDirectory h) }
     else Some ([0x2E, 0x2E, 0x2E], None) }"

partial_function (option) parents_size ::
    "NAMESPACE \<Rightarrow> obj option \<Rightarrow> u32 \<Rightarrow> u32 option option" where
  "parents_size ns d sz =
     (if d = None \<or> d = ObpRootDirectoryObject ns then Some (Some sz)
      else do {
        p \<leftarrow> d;
        (n, up) \<leftarrow> parent_step ns p;
        let c = 1 + of_nat (length n);
        if 0xFFFFFFFF - c < sz then Some None else parents_size ns up (sz + c) })"

definition put_back :: "u8 list \<Rightarrow> nat \<Rightarrow> u8 list \<Rightarrow> (u8 list \<times> nat) option" where
  "put_back mem pos bs =
     (if length bs \<le> pos \<and> pos \<le> length mem
      then Some (take (pos - length bs) mem @ bs @ drop pos mem, pos - length bs) else None)"

partial_function (option) write_parents ::
    "NAMESPACE \<Rightarrow> obj option \<Rightarrow> u8 list \<Rightarrow> nat \<Rightarrow> (u8 list \<times> nat) option" where
  "write_parents ns d mem pos =
     (if d = None \<or> d = ObpRootDirectoryObject ns then Some (mem, pos)
      else do {
        p \<leftarrow> d;
        (mem, pos) \<leftarrow> put_back mem pos [0x5C];
        (n, up) \<leftarrow> parent_step ns p;
        (mem, pos) \<leftarrow> put_back mem pos n;
        write_parents ns up mem pos })"

text \<open>The caller's buffer \<open>mem\<close> starts with the 8 bytes of the counted string. The result is the
  returned length, the status, and on success the buffer with the offset and length of the
  name. \<open>query\<close> is the type's own method, if it has one.\<close>

type_synonym name_result = "u32 \<times> VEASTATUS \<times> (u8 list \<times> nat \<times> u16) option"

definition name_size :: "NAMESPACE \<Rightarrow> obj \<Rightarrow> obj option \<Rightarrow> u32 option option" where
  "name_size ns x up =
     (if Some x = ObpRootDirectoryObject ns then Some (Some 1)
      else do {
        r \<leftarrow> parents_size ns up (ucast (StrLength (NameOf ns x)));
        (case r of None \<Rightarrow> Some None
         | Some sz \<Rightarrow> Some (if 0xFFFFFFFE < sz then None else Some (sz + 1))) })"

definition write_name :: "NAMESPACE \<Rightarrow> obj \<Rightarrow> obj option \<Rightarrow> u8 list \<Rightarrow> nat \<Rightarrow> (u8 list \<times> nat) option" where
  "write_name ns x up mem required = do {
     (mem, pos) \<leftarrow> put_back mem required [0];
     if Some x = ObpRootDirectoryObject ns then put_back mem pos [0x5C]
     else do {
       n \<leftarrow> name_of ns x;
       (mem, pos) \<leftarrow> put_back mem pos n;
       (mem, pos) \<leftarrow> write_parents ns up mem pos;
       put_back mem pos [0x5C] } }"

definition ObQueryNameString ::
    "(nat \<Rightarrow> (obj \<Rightarrow> bool \<Rightarrow> u8 list \<Rightarrow> name_result option) option) \<Rightarrow> NAMESPACE \<Rightarrow> obj \<Rightarrow> u8 list \<Rightarrow>
     name_result option" where
  "ObQueryNameString query ns x mem = do {
     h \<leftarrow> header ns x;
     let method = (case ObType h of None \<Rightarrow> None | Some ty \<Rightarrow> query ty);
     (case method of
        Some f \<Rightarrow> f x (HasNameInfo h \<and> StrLength (NameOf ns x) \<noteq> 0) mem
      | None \<Rightarrow>
          if (\<not> HasNameInfo h \<or> StrBuffer (NameOf ns x) = None) \<and> Some x \<noteq> ObpRootDirectoryObject ns
          then Some (8, if length mem < 8 then STATUS_BUFFER_TOO_SMALL else STATUS_SUCCESS, None)
          else do {
            r \<leftarrow> name_size ns x (NameDirectory h);
            (case r of
               None \<Rightarrow> Some (0, STATUS_NAME_TOO_LONG, None)
             | Some sz \<Rightarrow>
                 if 0xFFFE < sz then Some (0, STATUS_NAME_TOO_LONG, None)
                 else
                   let required = 8 + sz + 1 in
                   if length mem < unat required then Some (required, STATUS_BUFFER_TOO_SMALL, None)
                   else do {
                     (mem, pos) \<leftarrow> write_name ns x (NameDirectory h) mem (unat required);
                     Some (required, STATUS_SUCCESS, Some (mem, pos, ucast sz)) }) }) }"

end
