(* ===== verification/ObLookup.thy ===== *)
theory ObLookup
  imports ObInsert
begin

text \<open>
  The lookup of a path against a walk over the components of the path. \<open>walk\<close> and \<open>child\<close> are the
  specification; the loop of \<open>ObpLookupObjectName\<close>, which works on offsets and counts in the caller's
  buffer and in the reparse buffer, is shown to do what they say.
\<close>

section \<open>Specification\<close>

text \<open>A path is the list of its components.\<close>

function tokens :: "u8 list \<Rightarrow> u8 list list" where
  "tokens bs =
     (case dropWhile is_sep bs of
        [] \<Rightarrow> []
      | c # cs \<Rightarrow> takeWhile (\<lambda>b. \<not> is_sep b) (c # cs) # tokens (dropWhile (\<lambda>b. \<not> is_sep b) (c # cs)))"
  by auto
termination tokens
proof (relation "measure length")
  fix bs x21 x22 assume "dropWhile is_sep bs = x21 # x22"
  then have "length (x21 # x22) \<le> length bs" "\<not> is_sep x21"
    by (metis length_dropWhile_le) (metis hd_dropWhile \<open>dropWhile is_sep bs = x21 # x22\<close> list.sel(1) list.simps(3))
  moreover have "length (dropWhile (\<lambda>b. \<not> is_sep b) x22) \<le> length x22" by (rule length_dropWhile_le)
  ultimately show "(dropWhile (\<lambda>b. \<not> is_sep b) (x21 # x22), bs) \<in> measure length" by simp
qed simp

declare tokens.simps [simp del]

definition key :: "bool \<Rightarrow> u8 list \<Rightarrow> u8 list" where
  "key ci n = (if ci then map fold_case n else n)"

definition c_name :: "u8 list \<Rightarrow> u8 list" where
  "c_name b = takeWhile (\<lambda>c. c \<noteq> 0) b"

definition entry_name :: "NAMESPACE \<Rightarrow> obj \<Rightarrow> u8 list option" where
  "entry_name ns x = (case header ns x of
     Some h \<Rightarrow> if HasNameInfo h then map_option c_name (StrBuffer (NameOf ns x)) else None
   | None \<Rightarrow> None)"

definition child :: "NAMESPACE \<Rightarrow> bool \<Rightarrow> u8 list \<Rightarrow> obj list \<Rightarrow> obj option" where
  "child ns ci t es = find (\<lambda>x. map_option (key ci) (entry_name ns x) = Some (key ci t)) es"

definition entry_ok :: "NAMESPACE \<Rightarrow> obj \<Rightarrow> bool" where
  "entry_ok ns x \<longleftrightarrow> (\<exists>h ty. header ns x = Some h \<and> ObType h = Some ty \<and>
     (HasNameInfo h \<longrightarrow> (\<forall>b. StrBuffer (NameOf ns x) = Some b \<longrightarrow> 0 \<in> set b)))"

definition type_of :: "NAMESPACE \<Rightarrow> obj \<Rightarrow> nat option" where
  "type_of ns x = (case header ns x of None \<Rightarrow> None | Some h \<Rightarrow> ObType h)"

definition is_dir :: "NAMESPACE \<Rightarrow> obj \<Rightarrow> bool" where
  "is_dir ns x \<longleftrightarrow> type_of ns x = Some (ObpDirectoryObjectType ns)"

definition entries :: "NAMESPACE \<Rightarrow> obj \<Rightarrow> obj list" where
  "entries ns d = (case Directories (Core ns) d of None \<Rightarrow> [] | Some es \<Rightarrow> es)"

definition ns_ok :: "NAMESPACE \<Rightarrow> bool" where
  "ns_ok ns \<longleftrightarrow>
     (\<forall>d. is_dir ns d \<longrightarrow> Directories (Core ns) d \<noteq> None \<and> (\<forall>x \<in> set (entries ns d). entry_ok ns x)) \<and>
     ParseRoutine ns (ObpDirectoryObjectType ns) = NoParse \<and>
     ParseRoutine ns (ObpSymbolicLinkObjectType ns) = ParseSymbolicLink"

datatype walk_result = Found obj | Missing obj "u8 list" "u8 list list" | NotDirectory obj

fun walk :: "NAMESPACE \<Rightarrow> bool \<Rightarrow> obj \<Rightarrow> u8 list list \<Rightarrow> walk_result" where
  "walk ns ci d [] = Found d"
| "walk ns ci d (t # ts) =
     (if \<not> is_dir ns d then NotDirectory d
      else (case child ns ci t (entries ns d) of
              None \<Rightarrow> Missing d t ts
            | Some y \<Rightarrow> walk ns ci y ts))"

definition plain :: "NAMESPACE \<Rightarrow> obj \<Rightarrow> bool" where
  "plain ns x \<longleftrightarrow> (\<exists>ty. type_of ns x = Some ty \<and> ParseRoutine ns ty = NoParse)"

text \<open>No object the walk meets has a parse routine.\<close>

fun plain_walk :: "NAMESPACE \<Rightarrow> bool \<Rightarrow> obj \<Rightarrow> u8 list list \<Rightarrow> bool" where
  "plain_walk ns ci d [] = plain ns d"
| "plain_walk ns ci d (t # ts) =
     (plain ns d \<and> (is_dir ns d \<longrightarrow>
        (case child ns ci t (entries ns d) of None \<Rightarrow> True | Some y \<Rightarrow> plain_walk ns ci y ts)))"

text \<open>What opening a path promises.\<close>

definition open_path ::
    "NAMESPACE \<Rightarrow> nat option \<Rightarrow> bool \<Rightarrow> obj \<Rightarrow> u8 list list \<Rightarrow> (NAMESPACE \<times> VEASTATUS \<times> obj option) option" where
  "open_path ns ty ci d ts =
     (case walk ns ci d ts of
        Found y \<Rightarrow> take_result ns (zero_context\<lparr>ExpectedType := ty\<rparr>) y
      | Missing _ _ _ \<Rightarrow> Some (ns, STATUS_OBJECT_NAME_NOT_FOUND, None)
      | NotDirectory _ \<Rightarrow> Some (ns, STATUS_OBJECT_TYPE_MISMATCH, None))"

section \<open>Names and tokens\<close>

lemma fold_case_0 [simp]: "fold_case c = 0 \<longleftrightarrow> c = 0"
proof -
  have "c + 32 \<noteq> 0" if "0x41 \<le> c" "c \<le> 0x5A"
  proof
    assume "c + 32 = 0"
    then have "c = - 32" by (simp add: eq_neg_iff_add_eq_0)
    with that show False by simp
  qed
  then show ?thesis by (auto simp: fold_case_def)
qed

lemma fold_case_eq_0 [simp]: "fold_case 0 = 0" by (simp add: fold_case_def)

lemma same_name_spec:
  "0 \<in> set a \<Longrightarrow> 0 \<in> set b \<Longrightarrow> same_name a b = Some (key True (c_name a) = key True (c_name b))"
  by (induction a b rule: same_name.induct) (auto simp: c_name_def key_def)

lemma ObpMatchToken_spec:
  "0 \<in> set b \<Longrightarrow> 0 \<notin> set t \<Longrightarrow> ObpMatchToken ci t b = Some (key ci (c_name b) = key ci t)"
  by (induction ci t b rule: ObpMatchToken.induct) (auto simp: c_name_def key_def)

lemma find_entry_spec:
  assumes "\<forall>x \<in> set es. entry_ok ns x" "0 \<notin> set t"
  shows "find_entry ns ci t es = Some (child ns ci t es)"
  using assms
proof (induction es)
  case (Cons x es)
  obtain h where h: "header ns x = Some h" "HasNameInfo h \<Longrightarrow> StrBuffer (NameOf ns x) = Some b \<Longrightarrow> 0 \<in> set b" for b
    using Cons.prems(1) by (auto simp: entry_ok_def)
  then show ?case using Cons
    by (auto simp: child_def entry_name_def ObpMatchToken_spec split: option.splits)
qed (simp add: child_def)

lemma tokens_Nil_iff: "tokens bs = [] \<longleftrightarrow> dropWhile is_sep bs = []"
  by (cases "dropWhile is_sep bs") (simp_all add: tokens.simps [of bs] del: dropWhile_eq_Nil_conv)

lemma tokens_dropWhile [simp]: "tokens (dropWhile is_sep bs) = tokens bs"
  by (subst (1 2) tokens.simps) (simp add: dropWhile_dropWhile1)

lemma tokens_Cons:
  assumes "dropWhile is_sep bs = c # cs"
  shows "tokens bs = takeWhile (\<lambda>b. \<not> is_sep b) (c # cs) # tokens (dropWhile (\<lambda>b. \<not> is_sep b) (c # cs))"
  by (subst tokens.simps) (simp add: assms)

lemma tokens_Nil [simp]: "tokens [] = []" by (simp add: tokens.simps)

text \<open>The bytes a context has still to read.\<close>

definition remaining :: "OB_LOOKUP_CONTEXT \<Rightarrow> u8 list" where
  "remaining ctx = take (unat (NameCount ctx)) (drop (NameOffset ctx) (name_bytes ctx))"

definition ctx_ok :: "OB_LOOKUP_CONTEXT \<Rightarrow> bool" where
  "ctx_ok ctx \<longleftrightarrow> NameOffset ctx + unat (NameCount ctx) \<le> length (name_bytes ctx) \<and>
     length (ReparseBuffer ctx) = 512"

definition same_context :: "OB_LOOKUP_CONTEXT \<Rightarrow> OB_LOOKUP_CONTEXT \<Rightarrow> bool" where
  "same_context c c' \<longleftrightarrow> RootObject c' = RootObject c \<and> ExpectedType c' = ExpectedType c \<and>
   CallerName c' = CallerName c \<and> InReparse c' = InReparse c \<and> ReparseCount c' = ReparseCount c \<and>
   CaseInsensitive c' = CaseInsensitive c \<and> ReparseBuffer c' = ReparseBuffer c \<and>
   InsertMode c' = InsertMode c \<and> AccessMode c' = AccessMode c"

lemma take_drop_Cons:
  "off < length b \<Longrightarrow> take (Suc n) (drop off b) = b ! off # take n (drop (Suc off) b)"
  by (simp add: Cons_nth_drop_Suc [symmetric])

lemma skip_seps_spec:
  assumes "off + n \<le> length b"
  shows "\<exists>o' n'. skip_seps b off n = Some (o', n') \<and> o' + n' = off + n \<and>
    take n' (drop o' b) = dropWhile is_sep (take n (drop off b))"
  using assms
proof (induction b off n rule: skip_seps.induct)
  case (2 b off n)
  then have "off < length b" by simp
  then show ?case using 2 by (auto simp: take_drop_Cons)
qed simp

lemma token_length_spec:
  assumes "off + n \<le> length b" "0 \<notin> set (take n (drop off b))"
  shows "token_length b off n = Some (length (takeWhile (\<lambda>c. \<not> is_sep c) (take n (drop off b))))"
  using assms
proof (induction b off n rule: token_length.induct)
  case (2 b off n)
  then have "off < length b" by simp
  then show ?case using 2 by (auto simp: take_drop_Cons)
qed simp

lemma unat_count [simp]: "n \<le> unat (NameCount ctx) \<Longrightarrow> unat (of_nat n :: u16) = n"
  by (rule unat_of_nat_u16)

lemma name_bytes_set_name [simp]: "name_bytes (set_name a n ctx) = name_bytes ctx"
  by (simp add: name_bytes_def)

lemma same_context_set_name [simp]: "same_context ctx (set_name a n ctx)"
  by (simp add: same_context_def)

lemma remaining_set_name:
  "n \<le> unat (NameCount ctx) \<Longrightarrow> remaining (set_name a n ctx) = take n (drop a (name_bytes ctx))"
  by (simp add: remaining_def)

lemma ctx_ok_set_name:
  "n \<le> unat (NameCount ctx) \<Longrightarrow> a + n \<le> NameOffset ctx + unat (NameCount ctx) \<Longrightarrow> ctx_ok ctx \<Longrightarrow>
   ctx_ok (set_name a n ctx)"
  by (simp add: ctx_ok_def)

lemma skip_name_spec:
  assumes "ctx_ok ctx"
  shows "\<exists>o' n'. skip_name ctx = Some (set_name o' n' ctx) \<and> ctx_ok (set_name o' n' ctx) \<and>
    n' \<le> unat (NameCount ctx) \<and> remaining (set_name o' n' ctx) = dropWhile is_sep (remaining ctx)"
proof -
  obtain o' n' where s: "skip_seps (name_bytes ctx) (NameOffset ctx) (unat (NameCount ctx)) = Some (o', n')"
    "o' + n' = NameOffset ctx + unat (NameCount ctx)"
    "take n' (drop o' (name_bytes ctx)) = dropWhile is_sep (remaining ctx)"
    using skip_seps_spec [of "NameOffset ctx" "unat (NameCount ctx)" "name_bytes ctx"] assms
    by (auto simp: ctx_ok_def remaining_def)
  have "n' \<le> unat (NameCount ctx)" using skip_seps_le [OF s(1)] by simp
  then show ?thesis using s assms
    by (intro exI [of _ o'] exI [of _ n']) (simp add: skip_name_def ctx_ok_def remaining_def)
qed

lemma next_token_spec:
  assumes ok: "ctx_ok ctx" and nz: "0 \<notin> set (remaining ctx)"
  shows "\<exists>off n. (case tokens (remaining ctx) of
      [] \<Rightarrow> ObpGetNextPathToken ctx = Some (set_name off n ctx, None)
    | t # ts \<Rightarrow> ObpGetNextPathToken ctx = Some (set_name off n ctx, Some t) \<and> ctx_ok (set_name off n ctx) \<and>
        n \<le> unat (NameCount ctx) \<and>
        remaining (set_name off n ctx) = dropWhile (\<lambda>b. \<not> is_sep b) (dropWhile is_sep (remaining ctx)) \<and>
        tokens (remaining (set_name off n ctx)) = ts)"
proof -
  let ?b = "name_bytes ctx" and ?r = "dropWhile is_sep (remaining ctx)"
  obtain off n where s: "skip_seps ?b (NameOffset ctx) (unat (NameCount ctx)) = Some (off, n)"
    and sum: "off + n = NameOffset ctx + unat (NameCount ctx)" and r: "take n (drop off ?b) = ?r"
    using skip_seps_spec [of "NameOffset ctx" "unat (NameCount ctx)" ?b] ok
    by (auto simp: ctx_ok_def remaining_def)
  have le: "n \<le> unat (NameCount ctx)" using skip_seps_le [OF s] by simp
  have bound: "off + n \<le> length ?b" using sum ok by (simp add: ctx_ok_def)
  show ?thesis
  proof (cases ?r)
    case Nil
    have "take n (drop off ?b) = []" by (simp only: r Nil)
    then have "n = 0" using bound by auto
    moreover have "tokens (remaining ctx) = []" using Nil by (simp add: tokens_Nil_iff del: dropWhile_eq_Nil_conv)
    ultimately show ?thesis using s by (auto simp: ObpGetNextPathToken_def)
  next
    case (Cons c cs)
    let ?t = "takeWhile (\<lambda>b. \<not> is_sep b) ?r"
    have n0: "n \<noteq> 0" using Cons r by (cases n) auto
    then have "off < length ?b" using bound by simp
    then have c: "rd ?b off = Some c" using Cons r n0 by (cases n) (auto simp: take_drop_Cons)
    have "set ?r \<subseteq> set (remaining ctx)" by (auto dest: set_dropWhileD)
    then have nz': "0 \<notin> set ?r" "c \<noteq> 0" using nz Cons by auto
    have k: "token_length ?b off n = Some (length ?t)"
      using token_length_spec [of off n ?b] bound nz'(1) by (simp add: r)
    have lt: "length ?t \<le> n" using token_length_le [OF k] .
    have t: "take (length ?t) (drop off ?b) = ?t"
    proof -
      have "take (length ?t) (drop off ?b) = take (length ?t) (take n (drop off ?b))" using lt by simp
      also have "\<dots> = ?t" by (simp add: r) (metis takeWhile_eq_take)
      finally show ?thesis .
    qed
    have d: "take (n - length ?t) (drop (off + length ?t) ?b) = dropWhile (\<lambda>b. \<not> is_sep b) ?r"
    proof -
      have "take (n - length ?t) (drop (off + length ?t) ?b) = drop (length ?t) (take n (drop off ?b))"
        by (simp add: drop_take add.commute)
      then show ?thesis by (simp add: r dropWhile_eq_drop)
    qed
    have tk: "tokens (remaining ctx) = ?t # tokens (dropWhile (\<lambda>b. \<not> is_sep b) ?r)"
      using tokens_Cons [OF Cons] Cons by simp
    have "remaining (set_name (off + length ?t) (n - length ?t) ctx) = dropWhile (\<lambda>b. \<not> is_sep b) ?r"
      using remaining_set_name [of "n - length ?t" ctx "off + length ?t"] le d by simp
    moreover have "ctx_ok (set_name (off + length ?t) (n - length ?t) ctx)"
      using sum lt le ok by (intro ctx_ok_set_name) auto
    moreover have "ObpGetNextPathToken ctx = Some (set_name (off + length ?t) (n - length ?t) ctx, Some ?t)"
      using s n0 c k t nz' by (simp add: ObpGetNextPathToken_def)
    moreover have "n - length ?t \<le> unat (NameCount ctx)" using le by simp
    ultimately show ?thesis using tk
      by (intro exI [of _ "off + length ?t"] exI [of _ "n - length ?t"]) simp
  qed
qed

section \<open>The lookup refines the walk\<close>

lemmas same_context_sel = same_context_def [THEN iffD1]

lemma same_context_refl [simp]: "same_context c c"
  by (simp add: same_context_def)

lemma same_context_trans [trans]: "same_context a b \<Longrightarrow> same_context b c \<Longrightarrow> same_context a c"
  by (simp add: same_context_def)

lemma same_context_dir [simp]: "same_context c (c\<lparr>CurrentDirectory := d\<rparr>)"
  by (simp add: same_context_def)

lemma name_dir [simp]:
  "name_bytes (c\<lparr>CurrentDirectory := d\<rparr>) = name_bytes c" "remaining (c\<lparr>CurrentDirectory := d\<rparr>) = remaining c"
  "ctx_ok (c\<lparr>CurrentDirectory := d\<rparr>) = ctx_ok c"
  by (simp_all add: name_bytes_def remaining_def ctx_ok_def)

lemma take_result_same: "same_context c c' \<Longrightarrow> take_result ns c' y = take_result ns c y"
  by (simp add: take_result_def same_context_sel)

lemma tokens_subset: "t \<in> set (tokens bs) \<Longrightarrow> set t \<subseteq> set bs"
proof (induction bs rule: tokens.induct)
  case (1 bs)
  show ?case
  proof (cases "dropWhile is_sep bs")
    case Nil
    then show ?thesis using "1.prems" by (simp add: tokens_Nil_iff [THEN iffD2] del: dropWhile_eq_Nil_conv)
  next
    case (Cons c cs)
    have sub: "set (c # cs) \<subseteq> set bs" using Cons by (metis set_dropWhileD subsetI)
    have "set (takeWhile (\<lambda>b. \<not> is_sep b) (c # cs)) \<subseteq> set (c # cs)" by (auto dest: set_takeWhileD)
    moreover have "set (dropWhile (\<lambda>b. \<not> is_sep b) (c # cs)) \<subseteq> set (c # cs)"
      using set_dropWhileD by (metis subsetI)
    moreover have "t = takeWhile (\<lambda>b. \<not> is_sep b) (c # cs) \<or>
        t \<in> set (tokens (dropWhile (\<lambda>b. \<not> is_sep b) (c # cs)))"
      using "1.prems" by (simp only: tokens_Cons [OF Cons] set_simps insert_iff)
    ultimately show ?thesis using "1.IH" [OF Cons] sub by blast
  qed
qed

definition ends_sep :: "u8 list \<Rightarrow> bool" where
  "ends_sep bs \<longleftrightarrow> bs \<noteq> [] \<and> is_sep (last bs)"

lemma ends_sep_dropWhile:
  assumes "\<not> ends_sep bs"
  shows "\<not> ends_sep (dropWhile P bs)"
proof
  assume e: "ends_sep (dropWhile P bs)"
  have "bs = takeWhile P bs @ dropWhile P bs" by simp
  then have "last bs = last (dropWhile P bs)" using e unfolding ends_sep_def by (metis last_appendR)
  then show False using e assms by (auto simp: ends_sep_def)
qed

lemma no_sep_left: "\<not> ends_sep r \<Longrightarrow> dropWhile is_sep r = [] \<longleftrightarrow> r = []"
  by (cases r rule: rev_cases) (auto simp: ends_sep_def)

lemma count_0:
  assumes "ctx_ok ctx"
  shows "NameCount ctx = 0 \<longleftrightarrow> remaining ctx = []"
proof -
  have "remaining ctx = [] \<longleftrightarrow> unat (NameCount ctx) = 0" using assms by (auto simp: ctx_ok_def remaining_def)
  then show ?thesis by (simp add: unat_eq_0)
qed

lemma nz_dropWhile: "0 \<notin> set bs \<Longrightarrow> (0 :: u8) \<notin> set (dropWhile P bs)"
  by (meson set_dropWhileD)

text \<open>One turn in a directory.\<close>

lemma directory_turn_end:
  assumes "ctx_ok ctx" "0 \<notin> set (remaining ctx)" "tokens (remaining ctx) = []"
  shows "\<exists>ctx'. directory_turn ns ctx d = Some (Break ns ctx') \<and> same_context ctx ctx' \<and>
    CurrentDirectory ctx' = CurrentDirectory ctx"
proof -
  obtain off n where "ObpGetNextPathToken ctx = Some (set_name off n ctx, None)"
    using next_token_spec [OF assms(1,2)] assms(3) by auto
  then show ?thesis by (intro exI [of _ "set_name off n ctx"]) (simp add: directory_turn_def)
qed

lemma directory_turn_missing:
  assumes "ctx_ok ctx" "0 \<notin> set (remaining ctx)" "tokens (remaining ctx) = t # ts"
    and "ns_ok ns" "is_dir ns d" "child ns (CaseInsensitive ctx) t (entries ns d) = None"
  shows "\<exists>ctx' st. directory_turn ns ctx d = Some (Leave ns ctx' st None) \<and> same_context ctx ctx' \<and>
    CurrentDirectory ctx' = CurrentDirectory ctx \<and>
    (if InsertMode ctx then \<not> ends_sep (remaining ctx) \<longrightarrow>
        st = (if ts = [] then STATUS_SUCCESS else STATUS_OBJECT_NAME_NOT_FOUND)
     else st = STATUS_OBJECT_NAME_NOT_FOUND)"
proof -
  obtain off n where tok: "ObpGetNextPathToken ctx = Some (set_name off n ctx, Some t)" "ctx_ok (set_name off n ctx)"
    "remaining (set_name off n ctx) = dropWhile (\<lambda>b. \<not> is_sep b) (dropWhile is_sep (remaining ctx))"
    "tokens (remaining (set_name off n ctx)) = ts"
    using next_token_spec [OF assms(1,2)] assms(3) by auto
  have "0 \<notin> set t" using tokens_subset [of t "remaining ctx"] assms(2,3) by auto
  then have found: "ObpLookupEntryDirectory ns d t (CaseInsensitive ctx) = Some None"
    using assms(4,5,6) by (auto simp: ObpLookupEntryDirectory_def ns_ok_def entries_def find_entry_spec)
  have "NameCount (set_name off n ctx) = 0 \<longleftrightarrow> ts = []" if "\<not> ends_sep (remaining ctx)"
  proof -
    let ?r = "dropWhile (\<lambda>b. \<not> is_sep b) (dropWhile is_sep (remaining ctx))"
    have e: "\<not> ends_sep ?r" using that by (intro ends_sep_dropWhile)
    have "ts = [] \<longleftrightarrow> dropWhile is_sep ?r = []" using tok(3,4) tokens_Nil_iff by metis
    also have "\<dots> \<longleftrightarrow> ?r = []" by (rule no_sep_left [OF e])
    finally show ?thesis using count_0 [OF tok(2)] tok(3) by simp
  qed
  moreover define c' where "c' = set_name off n ctx"
  ultimately have c0: "\<not> ends_sep (remaining ctx) \<Longrightarrow> NameCount c' = 0 \<longleftrightarrow> ts = []" by blast
  let ?st = "if InsertMode ctx \<and> NameCount c' = 0 then STATUS_SUCCESS else STATUS_OBJECT_NAME_NOT_FOUND"
  have same: "same_context ctx c'" "CurrentDirectory c' = CurrentDirectory ctx" by (simp_all add: c'_def)
  have "directory_turn ns ctx d = Some (Leave ns c' ?st None)"
    using tok(1) found same_context_sel [OF same(1)] by (simp add: directory_turn_def c'_def [symmetric])
  then show ?thesis using same c0 by (intro exI [of _ c'] exI [of _ ?st]) simp
qed

lemma directory_turn_found:
  assumes "ctx_ok ctx" "0 \<notin> set (remaining ctx)" "tokens (remaining ctx) = t # ts"
    and "ns_ok ns" "is_dir ns d" "child ns (CaseInsensitive ctx) t (entries ns d) = Some y"
  shows "\<exists>ctx'. directory_turn ns ctx d = Some (if ts = [] \<and> plain ns y then Break ns ctx' else Again ns ctx') \<and>
    same_context ctx ctx' \<and> CurrentDirectory ctx' = Some y \<and> ctx_ok ctx' \<and> 0 \<notin> set (remaining ctx') \<and>
    tokens (remaining ctx') = ts \<and> (\<not> ends_sep (remaining ctx) \<longrightarrow> \<not> ends_sep (remaining ctx'))"
proof -
  obtain off n where tok: "ObpGetNextPathToken ctx = Some (set_name off n ctx, Some t)" "ctx_ok (set_name off n ctx)"
    "remaining (set_name off n ctx) = dropWhile (\<lambda>b. \<not> is_sep b) (dropWhile is_sep (remaining ctx))"
    "tokens (remaining (set_name off n ctx)) = ts"
    using next_token_spec [OF assms(1,2)] assms(3) by auto
  let ?c = "(set_name off n ctx)\<lparr>CurrentDirectory := Some y\<rparr>"
  have okc: "ctx_ok ?c" using tok(2) by simp
  obtain o' n' where sk: "skip_name ?c = Some (set_name o' n' ?c)" "ctx_ok (set_name o' n' ?c)"
    "remaining (set_name o' n' ?c) = dropWhile is_sep (remaining (set_name off n ctx))"
    using skip_name_spec [OF okc] by auto
  let ?c' = "set_name o' n' ?c"
  have "0 \<notin> set t" using tokens_subset [of t "remaining ctx"] assms(2,3) by auto
  then have found: "ObpLookupEntryDirectory ns d t (CaseInsensitive ctx) = Some (Some y)"
    using assms(4,5,6) by (auto simp: ObpLookupEntryDirectory_def ns_ok_def entries_def find_entry_spec)
  have "y \<in> set (entries ns d)" using assms(6) by (auto simp: child_def find_Some_iff)
  then obtain h ty where h: "header ns y = Some h" "ObType h = Some ty"
    using assms(4,5) unfolding ns_ok_def entry_ok_def by blast
  have tk: "tokens (remaining ?c') = ts" using sk(3) tok(4) by simp
  have "NameCount ?c' = 0 \<longleftrightarrow> remaining ?c' = []" by (rule count_0 [OF sk(2)])
  also have "\<dots> \<longleftrightarrow> ts = []"
  proof -
    have "ts = [] \<longleftrightarrow> dropWhile is_sep (remaining (set_name off n ctx)) = []" using tok(4) tokens_Nil_iff by metis
    then show ?thesis using sk(3) by simp
  qed
  finally have c0: "NameCount ?c' = 0 \<longleftrightarrow> ts = []" .
  have pl: "plain ns y \<longleftrightarrow> ParseRoutine ns ty = NoParse" using h by (simp add: plain_def type_of_def)
  have "directory_turn ns ctx d = Some (if ts = [] \<and> plain ns y then Break ns ?c' else Again ns ?c')"
    using tok(1) found sk(1) h c0 pl by (simp add: directory_turn_def)
  moreover have "same_context ctx ?c'"
    by (rule same_context_trans [OF same_context_set_name],
        rule same_context_trans [OF same_context_dir same_context_set_name])
  moreover have "0 \<notin> set (remaining ?c')" using assms(2) sk(3) tok(3) by (auto dest!: set_dropWhileD)
  moreover have "\<not> ends_sep (remaining ctx) \<longrightarrow> \<not> ends_sep (remaining ?c')"
    using sk(3) tok(3) ends_sep_dropWhile by metis
  ultimately show ?thesis using tk sk(2) by (intro exI [of _ ?c']) simp
qed

lemma name_lookup_loop_Leave: "lookup_turn_of parse ns ctx = Some (Leave ns' ctx' st r) \<Longrightarrow>
    name_lookup_loop parse ns ctx = Some (ns', ctx', st, r)"
  by (simp add: name_lookup_loop.simps)

lemma name_lookup_loop_Break:
  "lookup_turn_of parse ns ctx = Some (Break ns' ctx') \<Longrightarrow> CurrentDirectory ctx' = Some x \<Longrightarrow>
   name_lookup_loop parse ns ctx = map_option (\<lambda>(n, st, r). (n, ctx', st, r)) (take_result ns' ctx' x)"
  by (cases "take_result ns' ctx' x") (auto simp: name_lookup_loop.simps)

lemma name_lookup_loop_Again: "lookup_turn_of parse ns ctx = Some (Again ns' ctx') \<Longrightarrow>
    name_lookup_loop parse ns ctx = name_lookup_loop parse ns' ctx'"
  by (subst name_lookup_loop.simps) simp

lemma turn_directory:
  "ns_ok ns \<Longrightarrow> CurrentDirectory ctx = Some d \<Longrightarrow> is_dir ns d \<Longrightarrow>
   lookup_turn_of parse ns ctx = directory_turn ns ctx d"
  by (auto simp: lookup_turn_of_def is_dir_def type_of_def ns_ok_def split: option.splits)

lemma turn_not_directory:
  "CurrentDirectory ctx = Some d \<Longrightarrow> plain ns d \<Longrightarrow> \<not> is_dir ns d \<Longrightarrow>
   lookup_turn_of parse ns ctx = Some (Leave ns ctx STATUS_OBJECT_TYPE_MISMATCH None)"
  by (auto simp: lookup_turn_of_def is_dir_def plain_def type_of_def split: option.splits)

text \<open>The part of the walk before the objects that have parse routines: the loop reaches the
  object the components lead to, with the rest of the path still to read.\<close>

fun plain_prefix :: "NAMESPACE \<Rightarrow> bool \<Rightarrow> obj \<Rightarrow> u8 list list \<Rightarrow> bool" where
  "plain_prefix ns ci d [] = True"
| "plain_prefix ns ci d (t # ts) =
     (is_dir ns d \<and> (case child ns ci t (entries ns d) of None \<Rightarrow> False | Some y \<Rightarrow> plain_prefix ns ci y ts))"

lemma lookup_prefix:
  assumes "ns_ok ns" "ctx_ok ctx" "0 \<notin> set (remaining ctx)" "CurrentDirectory ctx = Some d"
    "tokens (remaining ctx) = ts @ us" "plain_prefix ns (CaseInsensitive ctx) d ts"
    "walk ns (CaseInsensitive ctx) d ts = Found x" "us \<noteq> [] \<or> \<not> plain ns x"
  shows "\<exists>ctx'. name_lookup_loop parse ns ctx = name_lookup_loop parse ns ctx' \<and> same_context ctx ctx' \<and> ctx_ok ctx' \<and>
    0 \<notin> set (remaining ctx') \<and> CurrentDirectory ctx' = Some x \<and> tokens (remaining ctx') = us \<and>
    unat (NameCount ctx') \<le> unat (NameCount ctx)"
  using assms
proof (induction ts arbitrary: ctx d)
  case Nil
  then show ?case by (intro exI [of _ ctx]) simp
next
  case (Cons t ts)
  have dir: "is_dir ns d" using Cons.prems(6) by simp
  then obtain y where y: "child ns (CaseInsensitive ctx) t (entries ns d) = Some y"
    using Cons.prems(7) by (auto split: option.splits)
  obtain c1 where turn: "directory_turn ns ctx d =
      Some (if ts @ us = [] \<and> plain ns y then Break ns c1 else Again ns c1)"
    and c1: "same_context ctx c1" "CurrentDirectory c1 = Some y" "ctx_ok c1" "0 \<notin> set (remaining c1)"
      "tokens (remaining c1) = ts @ us" "\<not> ends_sep (remaining ctx) \<longrightarrow> \<not> ends_sep (remaining c1)"
    using directory_turn_found [OF Cons.prems(2,3) _ Cons.prems(1) dir y, of "ts @ us"] Cons.prems(5) by auto
  have "\<not> (ts @ us = [] \<and> plain ns y)" using Cons.prems(7,8) dir y by auto
  then have again: "name_lookup_loop parse ns ctx = name_lookup_loop parse ns c1"
    using turn_directory [OF Cons.prems(1,4) dir, of parse] turn by (intro name_lookup_loop_Again) auto
  have lt: "unat (NameCount c1) < unat (NameCount ctx)"
    using turn \<open>\<not> (ts @ us = [] \<and> plain ns y)\<close> directory_turn_lt [of ns ctx d ns c1] by auto
  have ci: "CaseInsensitive c1 = CaseInsensitive ctx" using same_context_sel [OF c1(1)] by simp
  obtain c2 where "name_lookup_loop parse ns c1 = name_lookup_loop parse ns c2" "same_context c1 c2" "ctx_ok c2"
    "0 \<notin> set (remaining c2)" "CurrentDirectory c2 = Some x" "tokens (remaining c2) = us"
    "unat (NameCount c2) \<le> unat (NameCount c1)"
    using Cons.IH [OF Cons.prems(1) c1(3,4,2,5), unfolded ci] Cons.prems(6,7,8) dir y by auto
  then show ?case using again c1 same_context_trans lt by (intro exI [of _ c2]) auto
qed

text \<open>The whole walk.\<close>

definition missing_status :: "OB_LOOKUP_CONTEXT \<Rightarrow> u8 list list \<Rightarrow> VEASTATUS" where
  "missing_status ctx ts =
     (if InsertMode ctx \<and> ts = [] then STATUS_SUCCESS else STATUS_OBJECT_NAME_NOT_FOUND)"

lemma name_lookup_loop_walk:
  assumes "ns_ok ns" "ctx_ok ctx" "0 \<notin> set (remaining ctx)" "CurrentDirectory ctx = Some d"
    "plain_walk ns (CaseInsensitive ctx) d (tokens (remaining ctx))" "tokens (remaining ctx) = [] \<Longrightarrow> is_dir ns d"
    "InsertMode ctx \<Longrightarrow> \<not> ends_sep (remaining ctx)"
  shows "\<exists>ctx'. same_context ctx ctx' \<and>
    (case walk ns (CaseInsensitive ctx) d (tokens (remaining ctx)) of
       Found y \<Rightarrow> CurrentDirectory ctx' = Some y \<and>
         name_lookup_loop parse ns ctx = map_option (\<lambda>(n, st, r). (n, ctx', st, r)) (take_result ns ctx y)
     | Missing p t us \<Rightarrow> CurrentDirectory ctx' = Some p \<and>
         name_lookup_loop parse ns ctx = Some (ns, ctx', missing_status ctx us, None)
     | NotDirectory p \<Rightarrow> name_lookup_loop parse ns ctx = Some (ns, ctx', STATUS_OBJECT_TYPE_MISMATCH, None))"
  using assms
proof (induction "tokens (remaining ctx)" arbitrary: ctx d)
  case Nil
  have dir: "is_dir ns d" using Nil.prems(6) Nil.hyps by simp
  obtain c where c: "directory_turn ns ctx d = Some (Break ns c)" "same_context ctx c" "CurrentDirectory c = Some d"
    using directory_turn_end [OF Nil.prems(2,3)] Nil.hyps Nil.prems(4) by auto
  then have "name_lookup_loop parse ns ctx = map_option (\<lambda>(n, st, r). (n, c, st, r)) (take_result ns c d)"
    using turn_directory [OF Nil.prems(1,4) dir, of parse] by (intro name_lookup_loop_Break) auto
  then show ?case using c Nil.hyps [symmetric] take_result_same [OF c(2)] by (intro exI [of _ c]) simp
next
  case (Cons t ts)
  have tk: "tokens (remaining ctx) = t # ts" using Cons.hyps(2) by simp
  have pl: "plain ns d" using Cons.prems(5) tk by simp
  show ?case
  proof (cases "is_dir ns d")
    case False
    then show ?thesis using name_lookup_loop_Leave [OF turn_not_directory [OF Cons.prems(4) pl False]] tk
      by (intro exI [of _ ctx]) simp
  next
    case dir: True
    show ?thesis
    proof (cases "child ns (CaseInsensitive ctx) t (entries ns d)")
      case None
      obtain c st where c: "directory_turn ns ctx d = Some (Leave ns c st None)" "same_context ctx c"
          "CurrentDirectory c = Some d" "st = missing_status ctx ts"
        using directory_turn_missing [OF Cons.prems(2,3) tk Cons.prems(1) dir None] Cons.prems(4,7)
        by (auto simp: missing_status_def split: if_splits)
      then have "name_lookup_loop parse ns ctx = Some (ns, c, st, None)"
        using turn_directory [OF Cons.prems(1,4) dir, of parse] by (intro name_lookup_loop_Leave) auto
      then show ?thesis using c None dir tk by (intro exI [of _ c]) simp
    next
      case (Some y)
      obtain c1 where turn: "directory_turn ns ctx d =
          Some (if ts = [] \<and> plain ns y then Break ns c1 else Again ns c1)"
        and c1: "same_context ctx c1" "CurrentDirectory c1 = Some y" "ctx_ok c1" "0 \<notin> set (remaining c1)"
          "tokens (remaining c1) = ts" "\<not> ends_sep (remaining ctx) \<longrightarrow> \<not> ends_sep (remaining c1)"
        using directory_turn_found [OF Cons.prems(2,3) tk Cons.prems(1) dir Some] by auto
      note sel = same_context_sel [OF c1(1)]
      have pw: "plain_walk ns (CaseInsensitive c1) y (tokens (remaining c1))"
        using Cons.prems(5) tk dir Some c1(5) sel by simp
      show ?thesis
      proof (cases "ts = []")
        case True
        then have "plain ns y" using pw c1(5) by simp
        then have "name_lookup_loop parse ns ctx = map_option (\<lambda>(n, st, r). (n, c1, st, r)) (take_result ns c1 y)"
          using turn True turn_directory [OF Cons.prems(1,4) dir, of parse] c1(2) by (intro name_lookup_loop_Break) auto
        then show ?thesis using True tk dir Some c1 take_result_same [OF c1(1)] by (intro exI [of _ c1]) simp
      next
        case False
        then have again: "name_lookup_loop parse ns ctx = name_lookup_loop parse ns c1"
          using turn turn_directory [OF Cons.prems(1,4) dir, of parse] by (intro name_lookup_loop_Again) auto
        have ins: "InsertMode c1 \<Longrightarrow> \<not> ends_sep (remaining c1)" using Cons.prems(7) c1(6) sel by simp
        have "tokens (remaining c1) = [] \<Longrightarrow> is_dir ns y" using c1(5) False by simp
        from Cons.hyps(1) [OF c1(5) [symmetric] Cons.prems(1) c1(3,4,2) pw this ins]
        obtain c2 where c2: "same_context c1 c2"
          "case walk ns (CaseInsensitive c1) y (tokens (remaining c1)) of
             Found y \<Rightarrow> CurrentDirectory c2 = Some y \<and>
               name_lookup_loop parse ns c1 = map_option (\<lambda>(n, st, r). (n, c2, st, r)) (take_result ns c1 y)
           | Missing p t us \<Rightarrow> CurrentDirectory c2 = Some p \<and>
               name_lookup_loop parse ns c1 = Some (ns, c2, missing_status c1 us, None)
           | NotDirectory p \<Rightarrow> name_lookup_loop parse ns c1 = Some (ns, c2, STATUS_OBJECT_TYPE_MISMATCH, None)"
          by blast
        have ms: "missing_status c1 us = missing_status ctx us" for us using sel by (simp add: missing_status_def)
        have w: "walk ns (CaseInsensitive ctx) d (tokens (remaining ctx)) =
            walk ns (CaseInsensitive c1) y (tokens (remaining c1))"
          using tk dir Some c1(5) sel by simp
        show ?thesis unfolding w using c2(2) same_context_trans [OF c1(1) c2(1)]
          by (intro exI [of _ c2]) (simp add: again ms take_result_same [OF c1(1)] split: walk_result.splits)
      qed
    qed
  qed
qed

text \<open>The context a lookup without a root handle starts from.\<close>

definition start_context :: "NAMESPACE \<Rightarrow> OBJECT_ATTRIBUTES \<Rightarrow> ANSI_STRING \<Rightarrow> OB_LOOKUP_CONTEXT \<Rightarrow> OB_LOOKUP_CONTEXT" where
  "start_context ns a name ctx =
     ctx\<lparr>RootObject := None, CaseInsensitive := AttrFlags a AND OBJ_CASE_INSENSITIVE \<noteq> 0, ReparseCount := 0,
         CurrentDirectory := ObpRootDirectoryObject ns,
         CallerName := (case StrBuffer name of None \<Rightarrow> [] | Some b \<Rightarrow> b), InReparse := False,
         NameOffset := 0, NameCount := StrLength name\<rparr>"

lemma VEA_SUCCESS_0 [simp]: "VEA_SUCCESS STATUS_SUCCESS" by (simp add: VEA_SUCCESS_def STATUS_SUCCESS_def)

lemma lookup_from_root:
  assumes "AttrRoot a = 0" "AttrName a = Some name"
  shows "ObpLookupObjectName parse ns a ctx = name_lookup_loop parse ns (start_context ns a name ctx)"
  using assms by (cases "name_lookup_loop parse ns (start_context ns a name ctx)")
    (auto simp: ObpLookupObjectName_def start_context_def)

text \<open>A path: a counted name without terminators inside its count.\<close>

definition path_ok :: "OBJECT_ATTRIBUTES \<Rightarrow> ANSI_STRING \<Rightarrow> u8 list \<Rightarrow> bool" where
  "path_ok a name p \<longleftrightarrow> AttrRoot a = 0 \<and> AttrName a = Some name \<and>
     (\<exists>b. StrBuffer name = Some b \<and> unat (StrLength name) \<le> length b \<and> p = take (unat (StrLength name)) b) \<and>
     0 \<notin> set p"

lemma start_context_ok:
  assumes "path_ok a name p" "length (ReparseBuffer ctx) = 512"
  shows "ctx_ok (start_context ns a name ctx)" "remaining (start_context ns a name ctx) = p"
    "name_bytes (start_context ns a name ctx) = the (StrBuffer name)"
  using assms by (auto simp: path_ok_def ctx_ok_def remaining_def start_context_def name_bytes_def)

lemma start_context_sel [simp]:
  "CurrentDirectory (start_context ns a name ctx) = ObpRootDirectoryObject ns"
  "CaseInsensitive (start_context ns a name ctx) = (AttrFlags a AND OBJ_CASE_INSENSITIVE \<noteq> 0)"
  "InsertMode (start_context ns a name ctx) = InsertMode ctx"
  "ExpectedType (start_context ns a name ctx) = ExpectedType ctx"
  "InReparse (start_context ns a name ctx) = False" "ReparseCount (start_context ns a name ctx) = 0"
  "RootObject (start_context ns a name ctx) = None" "NameCount (start_context ns a name ctx) = StrLength name"
  "ReparseBuffer (start_context ns a name ctx) = ReparseBuffer ctx"
  by (simp_all add: start_context_def)

abbreviation case_blind :: "OBJECT_ATTRIBUTES \<Rightarrow> bool" where
  "case_blind a \<equiv> AttrFlags a AND OBJ_CASE_INSENSITIVE \<noteq> 0"

lemma take_result_type:
  "ExpectedType c = ExpectedType c' \<Longrightarrow> take_result ns c y = take_result ns c' y"
  by (simp add: take_result_def)

lemma loop_open_path:
  assumes "ns_ok ns" "ctx_ok ctx" "0 \<notin> set (remaining ctx)" "CurrentDirectory ctx = Some root" "is_dir ns root"
    "plain_walk ns (CaseInsensitive ctx) root (tokens (remaining ctx))" "\<not> InsertMode ctx"
  shows "map_option (\<lambda>(n, c, st, r). (n, st, r)) (name_lookup_loop parse ns ctx) =
    open_path ns (ExpectedType ctx) (CaseInsensitive ctx) root (tokens (remaining ctx))"
proof -
  have tr: "take_result ns (zero_context\<lparr>ExpectedType := ExpectedType ctx\<rparr>) y = take_result ns ctx y" for y
    by (rule take_result_type) simp
  show ?thesis
    using name_lookup_loop_walk [OF assms(1-4,6) assms(5), of parse] assms(7)
    by (auto simp: open_path_def missing_status_def tr option.map_comp o_def case_prod_unfold option.map_ident
        split: walk_result.splits)
qed

section \<open>Following a link\<close>

lemma tokens_append_sep:
  assumes "is_sep s"
  shows "tokens (a @ s # b) = tokens a @ tokens b"
proof (induction a rule: tokens.induct)
  case (1 a)
  show ?case
  proof (cases "dropWhile is_sep a")
    case Nil
    then have "dropWhile is_sep (a @ s # b) = dropWhile is_sep b" using assms by (auto simp: dropWhile_append)
    then have "tokens (a @ s # b) = tokens b" by (metis tokens_dropWhile)
    then show ?thesis using Nil tokens_Nil_iff [of a] by simp
  next
    case (Cons c cs)
    have d: "dropWhile (\<lambda>b. \<not> is_sep b) (xs @ s # b) = dropWhile (\<lambda>b. \<not> is_sep b) xs @ s # b" for xs
      using assms by (induction xs) auto
    have t: "takeWhile (\<lambda>b. \<not> is_sep b) (xs @ s # b) = takeWhile (\<lambda>b. \<not> is_sep b) xs" for xs
      using assms by (induction xs) auto
    have "\<not> (\<forall>x \<in> set a. is_sep x)" using Cons by (metis dropWhile_eq_Nil_conv list.distinct(1))
    then have c: "dropWhile is_sep (a @ s # b) = c # (cs @ s # b)" using Cons by (auto simp: dropWhile_append)
    show ?thesis
      using tokens_Cons [OF c] tokens_Cons [OF Cons] t [of "c # cs"] d [of "c # cs"] "1.IH" [OF Cons] by simp
  qed
qed

lemma tokens_sep [simp]: "is_sep s \<Longrightarrow> tokens (s # b) = tokens b"
  using tokens_append_sep [of s "[]" b] by simp

lemma tokens_after_sep:
  assumes "a = [] \<or> is_sep (last a)"
  shows "tokens (a @ b) = tokens a @ tokens b"
proof (cases a rule: rev_cases)
  case (snoc xs s)
  then have s: "is_sep s" using assms by simp
  show ?thesis using tokens_append_sep [OF s, of xs b] tokens_append_sep [OF s, of xs "[]"] snoc by simp
qed simp

lemma copy_from:
  assumes "off + n \<le> length b" "t + n \<le> 511" "length R = 512"
  shows "\<exists>R'. copy_bytes (Some b) R off t n = Some (R', t + n) \<and> length R' = 512 \<and>
    take (t + n) R' = take t R @ take n (drop off b)"
  using assms
proof (induction n arbitrary: R off t)
  case (Suc n)
  let ?R = "R[t := b ! off]"
  have bounds: "Suc off + n \<le> length b" "Suc t + n \<le> 511" "length ?R = 512" using Suc.prems by auto
  obtain R' where R': "copy_bytes (Some b) ?R (Suc off) (Suc t) n = Some (R', Suc t + n)" "length R' = 512"
    "take (Suc t + n) R' = take (Suc t) ?R @ take n (drop (Suc off) b)"
    using Suc.IH [OF bounds] by blast
  have "take (Suc t) ?R = take t R @ [b ! off]" using Suc.prems by (simp add: take_Suc_conv_app_nth)
  then show ?case using R' Suc.prems by (intro exI [of _ R']) (simp add: take_drop_Cons)
qed simp

text \<open>A link by name: its target is a counted string.\<close>

definition link_to :: "NAMESPACE \<Rightarrow> obj \<Rightarrow> u8 list \<Rightarrow> bool" where
  "link_to ns x T \<longleftrightarrow> type_of ns x = Some (ObpSymbolicLinkObjectType ns) \<and>
     TargetObject (LinkOf ns x) = None \<and>
     (\<exists>b. StrBuffer (LinkTarget (LinkOf ns x)) = Some b \<and>
        unat (StrLength (LinkTarget (LinkOf ns x))) \<le> length b \<and>
        T = take (unat (StrLength (LinkTarget (LinkOf ns x)))) b)"

definition join_path :: "u8 list \<Rightarrow> u8 list \<Rightarrow> u8 list" where
  "join_path T R = (if R = [] then T else if T = [] \<or> is_sep (last T) then T @ R else T @ 0x2F # R)"

lemma tokens_join: "tokens (join_path T R) = tokens T @ tokens R"
  by (simp add: join_path_def tokens_after_sep tokens_append_sep is_sep_def)

lemma length_join: "length (join_path T R) \<le> length T + 1 + length R"
  by (simp add: join_path_def)

text \<open>The name after a reparse from the caller's buffer: the target, a separator where one is
  missing, and the rest of the path.\<close>

lemma parse_link:
  assumes link: "link_to ns x T" and ok: "ctx_ok ctx" and own: "\<not> InReparse ctx"
    and fits: "length T + 1 + length (dropWhile is_sep (remaining ctx)) \<le> 511"
  shows "\<exists>R. ObpParseSymbolicLink ns x ctx =
      Some (set_name 0 (length (join_path T (dropWhile is_sep (remaining ctx))))
              (ctx\<lparr>ReparseBuffer := R, InReparse := True\<rparr>), STATUS_REPARSE, None) \<and>
    length R = 512 \<and>
    take (length (join_path T (dropWhile is_sep (remaining ctx)))) R = join_path T (dropWhile is_sep (remaining ctx)) \<and>
    R ! length (join_path T (dropWhile is_sep (remaining ctx))) = 0"
proof -
  define rest where "rest = dropWhile is_sep (remaining ctx)"
  let ?J = "join_path T rest"
  obtain b where b: "StrBuffer (LinkTarget (LinkOf ns x)) = Some b" "TargetObject (LinkOf ns x) = None"
      "unat (StrLength (LinkTarget (LinkOf ns x))) \<le> length b"
      "T = take (unat (StrLength (LinkTarget (LinkOf ns x)))) b"
    using link by (auto simp: link_to_def)
  let ?n = "unat (StrLength (LinkTarget (LinkOf ns x)))"
  have lT: "length T = ?n" using b(3,4) by simp
  have lr: "length (ReparseBuffer ctx) = 512" using ok by (simp add: ctx_ok_def)
  obtain R1 where R1: "copy_bytes (Some b) (ReparseBuffer ctx) 0 0 ?n = Some (R1, ?n)" "length R1 = 512"
      "take ?n R1 = T"
    using copy_from [of 0 ?n b 0 "ReparseBuffer ctx"] b lT fits lr by auto
  have nb: "name_bytes ctx = CallerName ctx" using own by (simp add: name_bytes_def)
  obtain off n where s: "skip_seps (CallerName ctx) (NameOffset ctx) (unat (NameCount ctx)) = Some (off, n)"
      "off + n = NameOffset ctx + unat (NameCount ctx)" "take n (drop off (CallerName ctx)) = rest"
    using skip_seps_spec [of "NameOffset ctx" "unat (NameCount ctx)" "CallerName ctx"] ok nb
    by (auto simp: ctx_ok_def remaining_def rest_def)
  have bound: "off + n \<le> length (CallerName ctx)" using s(2) ok nb by (simp add: ctx_ok_def)
  then have n: "length rest = n" using s(3) by auto
  have "\<exists>R2. append_rest (Some (CallerName ctx)) R1 ?n off n = Some (R2, length ?J) \<and> length R2 = 512 \<and>
      take (length ?J) R2 = ?J"
  proof (cases "n = 0")
    case True
    then show ?thesis using n R1 lT by (simp add: join_path_def append_rest_def)
  next
    case False
    then have rest: "rest \<noteq> []" using n by auto
    have lastT: "R1 ! (?n - 1) = last T" if "0 < ?n"
      using that R1(3) lT by (metis diff_less last_conv_nth length_greater_0_conv nth_take zero_less_one)
    show ?thesis
    proof (cases "T = [] \<or> is_sep (last T)")
      case True
      then have sep: "0 < ?n \<Longrightarrow> is_sep (R1 ! (?n - 1))" using lastT lT by auto
      obtain R2 where "copy_bytes (Some (CallerName ctx)) R1 off ?n n = Some (R2, ?n + n)" "length R2 = 512"
          "take (?n + n) R2 = T @ rest"
        using copy_from [of off n "CallerName ctx" ?n R1] bound fits R1 lT n s(3) by (auto simp: rest_def)
      moreover have "append_rest (Some (CallerName ctx)) R1 ?n off n = copy_bytes (Some (CallerName ctx)) R1 off ?n n"
        using sep False R1(2) fits lT by (cases "?n = 0") (auto simp: append_rest_def rd_def)
      ultimately show ?thesis using True rest lT n by (intro exI [of _ R2]) (simp add: join_path_def)
    next
      case no: False
      let ?R = "R1[?n := 0x2F]"
      have pos: "0 < ?n" using no lT by (metis length_greater_0_conv)
      have sep: "\<not> is_sep (R1 ! (?n - 1))" using no lastT [OF pos] by simp
      have tk: "take (?n + 1) ?R = T @ [0x2F]" using R1 fits lT by (simp add: take_Suc_conv_app_nth)
      obtain R2 where "copy_bytes (Some (CallerName ctx)) ?R off (?n + 1) n = Some (R2, ?n + 1 + n)" "length R2 = 512"
          "take (?n + 1 + n) R2 = take (?n + 1) ?R @ rest"
        using copy_from [of off n "CallerName ctx" "?n + 1" ?R] bound fits R1 lT n s(3) by (auto simp: rest_def)
      moreover have "append_rest (Some (CallerName ctx)) R1 ?n off n = copy_bytes (Some (CallerName ctx)) ?R off (?n + 1) n"
        using sep False pos R1(2) fits lT n by (auto simp: append_rest_def rd_def wr_def rest_def)
      ultimately show ?thesis using no rest lT n tk by (intro exI [of _ R2]) (simp add: join_path_def)
    qed
  qed
  then obtain R2 where R2: "append_rest (Some (CallerName ctx)) R1 ?n off n = Some (R2, length ?J)" "length R2 = 512"
      "take (length ?J) R2 = ?J"
    by blast
  have lJ: "length ?J < 512" using length_join [of T rest] fits by (simp add: rest_def)
  have "ObpParseSymbolicLink ns x ctx =
      Some (set_name 0 (length ?J) (ctx\<lparr>ReparseBuffer := R2[length ?J := 0], InReparse := True\<rparr>), STATUS_REPARSE, None)"
    using b(1,2) R1(1) own s(1) R2(1,2) lJ
    by (simp add: ObpParseSymbolicLink_def wr_def)
  moreover have "take (length ?J) (R2[length ?J := 0]) = ?J" using R2(3) by simp
  ultimately show ?thesis using R2(2) lJ unfolding rest_def [symmetric]
    by (intro exI [of _ "R2[length ?J := 0]"]) simp
qed

lemma turn_reparse:
  assumes "ns_ok ns" "CurrentDirectory ctx = Some x" "type_of ns x = Some (ObpSymbolicLinkObjectType ns)"
    "ObpParseSymbolicLink ns x ctx = Some (ctx', STATUS_REPARSE, None)" "ReparseCount ctx < 32"
    "ReparseCount ctx' = ReparseCount ctx" "ReparseBuffer ctx' \<noteq> []"
    "is_sep (ReparseBuffer ctx' ! 0)"
  shows "lookup_turn_of parse ns ctx = Some (Again ns
    (ctx'\<lparr>ReparseCount := ReparseCount ctx + 1, CurrentDirectory := ObpRootDirectoryObject ns\<rparr>))"
proof -
  have "\<not> 32 < ReparseCount ctx + 1"
    using assms(5) by (simp add: word_less_nat_alt unat_add_lt)
  moreover obtain h where "header ns x = Some h" "ObType h = Some (ObpSymbolicLinkObjectType ns)"
    using assms(3) by (auto simp: type_of_def split: option.splits)
  ultimately show ?thesis
    using assms by (simp add: lookup_turn_of_def parse_turn_def call_parse_def ns_ok_def ob_status_defs
      STATUS_SUCCESS_def Let_def)
qed

lemma remaining_new_buffer:
  assumes "n < 512"
  shows "remaining (set_name 0 n (ctx\<lparr>ReparseBuffer := R, InReparse := True\<rparr>)) = take n R"
    "ctx_ok (set_name 0 n (ctx\<lparr>ReparseBuffer := R, InReparse := True\<rparr>)) \<longleftrightarrow> length R = 512"
  using assms by (auto simp: remaining_def name_bytes_def ctx_ok_def unat_of_nat_lt)

text \<open>A link met on the way: the lookup goes on from the root with the target's components
  followed by the ones that are left.\<close>

lemma follow_link:
  assumes ns: "ns_ok ns" "ObpRootDirectoryObject ns = Some root" "is_dir ns root"
    and p: "path_ok a name p" and split: "tokens p = ts @ us"
    and pre: "plain_prefix ns (case_blind a) root ts" "walk ns (case_blind a) root ts = Found x"
    and link: "link_to ns x T" and T: "T \<noteq> []" "is_sep (hd T)" "0 \<notin> set T" and fits: "length T + length p < 511"
    and rest: "plain_walk ns (case_blind a) root (tokens T @ us)"
  shows "ObReferenceObjectByName parse ns a ty = open_path ns ty (case_blind a) root (tokens T @ us)"
proof -
  let ?z = "zero_context\<lparr>ExpectedType := ty\<rparr>"
  let ?c = "start_context ns a name ?z"
  have len: "length (ReparseBuffer ?z) = 512" by (simp add: zero_context_def)
  have c: "ctx_ok ?c" "remaining ?c = p"
    using start_context_ok(1,2) [OF p len, of ns] by blast+
  have nz: "0 \<notin> set p" and a: "AttrRoot a = 0" "AttrName a = Some name"
    and lp: "unat (StrLength name) = length p" using p by (auto simp: path_ok_def)
  have np: "\<not> plain ns x" using link ns(1) by (auto simp: link_to_def plain_def ns_ok_def)
  obtain c1 where c1: "name_lookup_loop parse ns ?c = name_lookup_loop parse ns c1" "same_context ?c c1" "ctx_ok c1"
      "0 \<notin> set (remaining c1)" "CurrentDirectory c1 = Some x" "tokens (remaining c1) = us"
      "unat (NameCount c1) \<le> unat (NameCount ?c)"
    using lookup_prefix [of ns ?c root ts us x parse] ns(1,2) c nz split pre np by auto
  note sel = same_context_sel [OF c1(2)]
  let ?rest = "dropWhile is_sep (remaining c1)"
  have "length (remaining c1) = unat (NameCount c1)" using c1(3) by (auto simp: remaining_def ctx_ok_def)
  then have "length (remaining c1) \<le> length p" using c1(7) lp by simp
  then have "length ?rest \<le> length p" using length_dropWhile_le le_trans by blast
  then have fits': "length T + 1 + length ?rest \<le> 511" using fits by simp
  define J where "J = join_path T ?rest"
  have lJ: "length J < 512" using length_join [of T ?rest] fits' by (simp add: J_def)
  obtain R where R: "ObpParseSymbolicLink ns x c1 =
      Some (set_name 0 (length J) (c1\<lparr>ReparseBuffer := R, InReparse := True\<rparr>), STATUS_REPARSE, None)"
      "length R = 512" "take (length J) R = J"
    using parse_link [OF link c1(3) _ fits'] sel by (auto simp: J_def)
  have J: "J \<noteq> []" "hd J = hd T" using T(1) by (auto simp: J_def join_path_def)
  then have "R ! 0 = hd T" using R(3) by (metis hd_conv_nth length_greater_0_conv nth_take)
  then have sep: "is_sep (R ! 0)" using T(2) by simp
  define c2 where "c2 = (set_name 0 (length J) (c1\<lparr>ReparseBuffer := R, InReparse := True\<rparr>))
    \<lparr>ReparseCount := ReparseCount c1 + 1, CurrentDirectory := ObpRootDirectoryObject ns\<rparr>"
  have "lookup_turn_of parse ns c1 = Some (Again ns c2)"
    unfolding c2_def by (rule turn_reparse [OF ns(1) c1(5) _ R(1)])
      (use link sel R(2) sep in \<open>auto simp: link_to_def\<close>)
  then have "name_lookup_loop parse ns ?c = name_lookup_loop parse ns c2" using c1(1) name_lookup_loop_Again by simp
  moreover have rem: "remaining c2 = J" "ctx_ok c2"
    using remaining_new_buffer [OF lJ, where ctx = c1 and R = R] R(2,3)
    by (auto simp: c2_def remaining_def ctx_ok_def name_bytes_def)
  moreover have tk: "tokens J = tokens T @ us" using c1(6) by (simp add: J_def tokens_join)
  moreover have "0 \<notin> set J" using T(3) c1(4) by (auto simp: J_def join_path_def dest!: set_dropWhileD)
  moreover have "ExpectedType c2 = ty" "CaseInsensitive c2 = case_blind a" "\<not> InsertMode c2"
      "CurrentDirectory c2 = Some root"
    using sel ns(2) by (simp_all add: c2_def zero_context_def)
  ultimately have "map_option (\<lambda>(n, c, st, r). (n, st, r)) (name_lookup_loop parse ns ?c) =
      open_path ns ty (case_blind a) root (tokens T @ us)"
    using loop_open_path [of ns c2 root parse] ns rest by simp
  then show ?thesis using lookup_from_root [OF a, of parse ns ?z]
    by (cases "name_lookup_loop parse ns ?c") (auto simp: ObReferenceObjectByName_def)
qed

lemma open_by_walk:
  assumes ns: "ns_ok ns" "ObpRootDirectoryObject ns = Some root" "is_dir ns root"
    and p: "path_ok a name p" and pw: "plain_walk ns (case_blind a) root (tokens p)"
  shows "ObReferenceObjectByName parse ns a ty = open_path ns ty (case_blind a) root (tokens p)"
proof -
  let ?z = "zero_context\<lparr>ExpectedType := ty\<rparr>"
  let ?c = "start_context ns a name ?z"
  have len: "length (ReparseBuffer ?z) = 512" by (simp add: zero_context_def)
  have c: "ctx_ok ?c" "remaining ?c = p"
    using start_context_ok(1,2) [OF p len, of ns] by blast+
  have a: "0 \<notin> set p" "AttrRoot a = 0" "AttrName a = Some name" using p by (auto simp: path_ok_def)
  have "map_option (\<lambda>(n, c, st, r). (n, st, r)) (name_lookup_loop parse ns ?c) =
      open_path ns ty (case_blind a) root (tokens p)"
    using loop_open_path [of ns ?c root parse] ns c a pw by (simp add: zero_context_def)
  then show ?thesis using lookup_from_root [OF a(2,3), of parse ns ?z]
    by (cases "name_lookup_loop parse ns ?c") (auto simp: ObReferenceObjectByName_def)
qed

text \<open>The components a path stands for: its own where no object on the way has a parse routine,
  or, where it meets one absolute link, the link's followed by the ones that are left.\<close>

definition stands_for :: "NAMESPACE \<Rightarrow> bool \<Rightarrow> obj \<Rightarrow> u8 list \<Rightarrow> u8 list list \<Rightarrow> bool" where
  "stands_for ns ci root p ts \<longleftrightarrow> plain_walk ns ci root ts \<and>
     (ts = tokens p \<or>
      (\<exists>us vs x T. tokens p = us @ vs \<and> plain_prefix ns ci root us \<and> walk ns ci root us = Found x \<and>
         link_to ns x T \<and> T \<noteq> [] \<and> is_sep (hd T) \<and> 0 \<notin> set T \<and> length T + length p < 511 \<and> ts = tokens T @ vs))"

lemma by_name_stands_for:
  assumes "ns_ok ns" "ObpRootDirectoryObject ns = Some root" "is_dir ns root"
    "path_ok a name p" "stands_for ns (case_blind a) root p ts"
  shows "ObReferenceObjectByName parse ns a ty = open_path ns ty (case_blind a) root ts"
proof -
  consider "ts = tokens p" | us vs x T where "tokens p = us @ vs" "plain_prefix ns (case_blind a) root us"
      "walk ns (case_blind a) root us = Found x" "link_to ns x T" "T \<noteq> []" "is_sep (hd T)" "0 \<notin> set T"
      "length T + length p < 511" "ts = tokens T @ vs"
    using assms(5) unfolding stands_for_def by blast
  then show ?thesis
  proof cases
    case 1
    then show ?thesis using open_by_walk [OF assms(1-4), of parse ty] assms(5) by (simp add: stands_for_def)
  next
    case 2
    then show ?thesis using follow_link [OF assms(1-4) 2(1-8), of parse ty] assms(5) by (simp add: stands_for_def)
  qed
qed

text \<open>C39: Take a namespace whose root is a directory, in which every directory is initialized and all its entries
  are live objects with terminated names, directories have no parse routine and links the one of links. Take a
  path without a root handle and without zero bytes in its count, and the components it stands for: its own, or, where the path meets
  one link on the way whose target is a non-empty path that starts at the root and together with the path is
  below 511 bytes, those of the target followed by the ones left; no object met on the way has a parse
  routine but that link. Then ObReferenceObjectByName returns what the walk over these components gives. Where every
  component is an entry of the directory before it, the object at the end is referenced and returned, or
  STATUS_OBJECT_TYPE_MISMATCH where another type was asked for. Where one is missing the status is
  STATUS_OBJECT_NAME_NOT_FOUND, and where something else than a directory stands on the way
  STATUS_OBJECT_TYPE_MISMATCH; then nothing changes. Names are compared without case exactly when the
  attributes say so.\<close>

lemma open_by_name:
  assumes "ns_ok ns" "ObpRootDirectoryObject ns = Some root" "is_dir ns root"
    "path_ok a name p" "stands_for ns (case_blind a) root p ts"
  shows "ObReferenceObjectByName parse ns a ty = open_path ns ty (case_blind a) root ts"
  using assms by (rule by_name_stands_for)

text \<open>The root with the directory \<open>D\<close>, in it the object \<open>f\<close>, and beside \<open>D\<close> the link \<open>C\<close> to it.\<close>

definition demo_header :: "nat \<Rightarrow> OBJECT_HEADER" where
  "demo_header ty = \<lparr>ReferenceCount = 1, ObType = Some ty, Permanent = True, HasNameInfo = True, NameDirectory = None\<rparr>"

definition demo_namespace :: NAMESPACE where
  "demo_namespace =
     \<lparr>Core = \<lparr>Objects = [0 \<mapsto> demo_header 100, 1 \<mapsto> demo_header 100, 2 \<mapsto> demo_header 7, 3 \<mapsto> demo_header 101],
        Directories = [0 \<mapsto> [1, 3], 1 \<mapsto> [2]], TypeHasDelete = (\<lambda>_. False), DeleteCalls = [],
        Reports = demo_reports, Tables = (\<lambda>_. None), HasProcess = False, CurrentThread = None\<rparr>,
      NameOf = (\<lambda>x. \<lparr>StrLength = 1, StrBuffer = Some [if x = 1 then 0x44 else if x = 2 then 0x66 else 0x43, 0]\<rparr>),
      LinkOf = (\<lambda>_. \<lparr>LinkTarget = \<lparr>StrLength = 2, StrBuffer = Some [0x2F, 0x44, 0]\<rparr>, TargetObject = None\<rparr>),
      InfoOf = (\<lambda>_. None), SecurityOf = (\<lambda>_. None), MappingOf = (\<lambda>_. undefined), ProcessToken = None,
      TotalObjectCount = (\<lambda>_. 1), ParseRoutine = (\<lambda>ty. if ty = 101 then ParseSymbolicLink else NoParse),
      ObpDirectoryObjectType = 100, ObpSymbolicLinkObjectType = 101, ObpRootDirectoryObject = Some 0\<rparr>"

definition demo_attributes :: "u8 list \<Rightarrow> OBJECT_ATTRIBUTES" where
  "demo_attributes p = \<lparr>AttrRoot = 0,
     AttrName = Some \<lparr>StrLength = of_nat (length p), StrBuffer = Some (p @ [0])\<rparr>, AttrFlags = 0, AttrSecurity = None\<rparr>"

lemma demo_header_of: "header demo_namespace x =
    (if x = 0 \<or> x = 1 then Some (demo_header 100) else if x = 2 then Some (demo_header 7)
     else if x = 3 then Some (demo_header 101) else None)"
  by (simp add: header_def demo_namespace_def)

lemma demo_fields [simp]:
  "ObpDirectoryObjectType demo_namespace = 100" "ObpSymbolicLinkObjectType demo_namespace = 101"
  "ObpRootDirectoryObject demo_namespace = Some 0" "Reports (Core demo_namespace) = demo_reports"
  "ParseRoutine demo_namespace ty = (if ty = 101 then ParseSymbolicLink else NoParse)"
  "NameOf demo_namespace x = \<lparr>StrLength = 1, StrBuffer = Some [if x = 1 then 0x44 else if x = 2 then 0x66 else 0x43, 0]\<rparr>"
  "LinkOf demo_namespace x = \<lparr>LinkTarget = \<lparr>StrLength = 2, StrBuffer = Some [0x2F, 0x44, 0]\<rparr>, TargetObject = None\<rparr>"
  "Directories (Core demo_namespace) = [0 \<mapsto> [1, 3], 1 \<mapsto> [2]]"
  by (simp_all add: demo_namespace_def)

lemma demo_dir: "is_dir demo_namespace x \<longleftrightarrow> x = 0 \<or> x = 1"
  by (auto simp: is_dir_def type_of_def demo_header_of demo_header_def)

lemma demo_entries: "entries demo_namespace x = (if x = 0 then [1, 3] else if x = 1 then [2] else [])"
  by (simp add: entries_def)

lemma demo_entry_ok: "x \<in> {0, 1, 2, 3} \<Longrightarrow> entry_ok demo_namespace x"
  by (auto simp: entry_ok_def demo_header_of demo_header_def)

lemma demo_name: "x \<in> {0, 1, 2, 3} \<Longrightarrow> entry_name demo_namespace x =
    Some [if x = 1 then 0x44 else if x = 2 then 0x66 else 0x43]"
  by (auto simp: entry_name_def demo_header_of demo_header_def c_name_def)

lemma demo_ns_ok: "ns_ok demo_namespace"
proof -
  have "Directories (Core demo_namespace) d \<noteq> None \<and> (\<forall>x \<in> set (entries demo_namespace d). entry_ok demo_namespace x)"
    if "is_dir demo_namespace d" for d
    using that demo_entry_ok by (auto simp: demo_dir demo_entries)
  then show ?thesis by (simp add: ns_ok_def)
qed

lemma demo_child:
  "child demo_namespace ci t (entries demo_namespace 0) =
     (if key ci t = key ci [0x44] then Some 1 else if key ci t = key ci [0x43] then Some 3 else None)"
  "child demo_namespace ci t (entries demo_namespace 1) = (if key ci t = key ci [0x66] then Some 2 else None)"
  by (auto simp: child_def demo_entries demo_name)

lemmas demo_children = demo_child demo_child(2) [unfolded One_nat_def]

lemma demo_plain: "plain demo_namespace x \<longleftrightarrow> x \<in> {0, 1, 2}"
  by (auto simp: plain_def type_of_def demo_header_of demo_header_def)

lemma demo_tokens:
  "tokens [0x2F, 0x43, 0x2F, 0x66] = [[0x43], [0x66]]" "tokens [0x2F, 0x44] = [[0x44]]"
  "tokens [0x2F, 0x44, 0x2F, 0x67] = [[0x44], [0x67]]"
  by (simp_all add: tokens.simps is_sep_def)

lemma demo_path: "length p < 100 \<Longrightarrow> 0 \<notin> set p \<Longrightarrow>
    path_ok (demo_attributes p) \<lparr>StrLength = of_nat (length p), StrBuffer = Some (p @ [0])\<rparr> p"
  by (simp add: path_ok_def demo_attributes_def unat_of_nat)

lemma demo_stands_for:
  "stands_for demo_namespace False 0 [0x2F, 0x43, 0x2F, 0x66] [[0x44], [0x66]]"
proof -
  have "link_to demo_namespace 3 [0x2F, 0x44]"
    by (simp add: link_to_def type_of_def demo_header_of demo_header_def)
  moreover have "plain_walk demo_namespace False 0 [[0x44], [0x66]]"
    by (simp add: demo_plain demo_dir demo_children key_def)
  moreover have "plain_prefix demo_namespace False 0 [[0x43]]" "walk demo_namespace False 0 [[0x43]] = Found 3"
    by (simp_all add: demo_dir demo_children key_def)
  ultimately show ?thesis unfolding stands_for_def
    by (intro conjI disjI2 exI [of _ "[[0x43]]"] exI [of _ "[[0x66]]"] exI [of _ 3] exI [of _ "[0x2F, 0x44]"])
       (simp_all add: demo_tokens is_sep_def)
qed

lemma open_by_name_witness:
  "ObReferenceObjectByName (\<lambda>_ _ _. None) demo_namespace (demo_attributes [0x2F, 0x43, 0x2F, 0x66]) None =
     open_path demo_namespace None False 0 [[0x44], [0x66]] \<and>
   walk demo_namespace False 0 [[0x44], [0x66]] = Found 2"
proof -
  let ?a = "demo_attributes [0x2F, 0x43, 0x2F, 0x66]"
  have flags: "case_blind ?a = False" by (simp add: demo_attributes_def)
  have root: "ObpRootDirectoryObject demo_namespace = Some 0" by simp
  have dir: "is_dir demo_namespace 0" by (simp add: demo_dir)
  have p: "path_ok ?a \<lparr>StrLength = of_nat (length [0x2F, 0x43, 0x2F, 0x66 :: u8]),
      StrBuffer = Some ([0x2F, 0x43, 0x2F, 0x66] @ [0])\<rparr> [0x2F, 0x43, 0x2F, 0x66]"
    by (rule demo_path) simp_all
  have "walk demo_namespace False 0 [[0x44], [0x66]] = Found 2" by (simp add: demo_dir demo_children key_def)
  then show ?thesis
    using open_by_name [OF demo_ns_ok root dir p, unfolded flags, OF demo_stands_for, of "\<lambda>_ _ _. None" None] by simp
qed

end
