(* ===== verification/ObCreate.thy ===== *)
theory ObCreate
  imports ObLookup
begin

text \<open>
  Creation, insertion and lookup together: an object created under a path is found under it, and nothing
  else in the namespace changes.
\<close>

section \<open>A new object\<close>

text \<open>The last component of a path, as the lookup and as \<open>ObInsertObject\<close> find it.\<close>

lemma tokens_no_sep:
  assumes "q \<noteq> []" "\<forall>c \<in> set q. \<not> is_sep c"
  shows "tokens q = [q]"
proof -
  obtain c cs where q: "q = c # cs" using assms(1) by (cases q) auto
  have "dropWhile is_sep q = c # cs" using assms q by simp
  from tokens_Cons [OF this] show ?thesis using assms(2) q
    by (auto simp: takeWhile_eq_all_conv [THEN iffD2] dropWhile_eq_Nil_conv [THEN iffD2])
qed

lemma path_split:
  assumes "\<not> ends_sep p" "p \<noteq> []"
  shows "\<exists>a q. q \<noteq> [] \<and> (\<forall>c \<in> set q. \<not> is_sep c) \<and> p = a @ q \<and> (a = [] \<or> ends_sep a) \<and> tokens p = tokens a @ [q]"
proof (cases "\<exists>c \<in> set p. is_sep c")
  case False
  then show ?thesis using assms by (intro exI [of _ "[]"] exI [of _ p]) (auto simp: tokens_no_sep)
next
  case True
  obtain a s q where p: "p = a @ s # q" "is_sep s" "\<forall>c \<in> set q. \<not> is_sep c"
    using split_list_last_prop [OF True] by blast
  have "q \<noteq> []" using assms p by (auto simp: ends_sep_def)
  then show ?thesis using p tokens_append_sep [OF p(2), of a q] tokens_append_sep [OF p(2), of a "[]"] tokens_no_sep [of q]
    by (intro exI [of _ "a @ [s]"] exI [of _ q]) (simp add: ends_sep_def)
qed

lemma final_name_spec:
  assumes "\<forall>c \<in> set q. \<not> is_sep c" "a = [] \<or> ends_sep a"
  shows "final_name (a @ q @ r) (length (a @ q)) = Some (length a)"
  using assms
proof (induction q arbitrary: r rule: rev_induct)
  case Nil
  then show ?case by (cases a rule: rev_cases) (auto simp: ends_sep_def rd_def nth_append)
next
  case (snoc c q)
  then have "final_name (a @ q @ c # r) (length (a @ q)) = Some (length a)" by simp
  then show ?case using snoc.prems by (simp add: rd_def nth_append)
qed

lemma raw_length_spec: "0 \<notin> set q \<Longrightarrow> raw_length (q @ 0 # r) = Some (length q)"
  by (induction q) auto

text \<open>The references: reports aside, only the count of the object changes.\<close>

definition with_count :: "obj \<Rightarrow> OBJECT_HEADER \<Rightarrow> OB_REPORTS \<Rightarrow> NAMESPACE \<Rightarrow> NAMESPACE" where
  "with_count x h \<rho> ns = set_header x h (ns\<lparr>Core := (Core ns)\<lparr>Reports := \<rho>\<rparr>\<rparr>)"

lemma reference_ok:
  assumes "header ns x = Some h" "reports_ok (Reports (Core ns))"
  shows "\<exists>\<rho>. reports_ok \<rho> \<and> reference ns x = Some (with_count x (h\<lparr>ReferenceCount := ReferenceCount h + 1\<rparr>) \<rho> ns)"
proof -
  let ?h = "h\<lparr>ReferenceCount := ReferenceCount h + 1\<rparr>"
  obtain \<rho> where "ObpReportLifecycle (set_object x (Some ?h) (Core ns)) \<lparr>ReportObject = x, CurrentReference = ReferenceCount ?h,
      IsReferenced = True, IsHandle = False, ReportOwner = None, ReportTarget = x\<rparr> =
      Some ((set_object x (Some ?h) (Core ns))\<lparr>Reports := \<rho>\<rparr>)" "reports_ok \<rho>"
    using ObpReportLifecycle_ok [of "set_object x (Some ?h) (Core ns)"] assms(2) by auto
  then show ?thesis using assms(1)
    by (intro exI [of _ \<rho>])
       (simp add: reference_def ObReferenceObject_def header_def with_count_def set_header_def set_object_def Let_def)
qed

lemma header_sel [simp]:
  "header (with_count x h \<rho> ns) = (header ns)(x \<mapsto> h)" "header (set_header x h ns) = (header ns)(x \<mapsto> h)"
  "header (set_entries d es ns) = header ns" "header (ns\<lparr>NameOf := N\<rparr>) = header ns"
  "header (ns\<lparr>InfoOf := I\<rparr>) = header ns"
  by (auto simp: header_def with_count_def set_header_def set_entries_def)

lemma entries_sel [simp]:
  "Directories (Core (with_count x h \<rho> ns)) = Directories (Core ns)"
  "Directories (Core (set_header x h ns)) = Directories (Core ns)"
  "Directories (Core (set_entries d es ns)) = (Directories (Core ns))(d \<mapsto> es)"
  by (auto simp: with_count_def set_header_def set_entries_def)

lemma rest_sel [simp]:
  "NameOf (with_count x h \<rho> ns) = NameOf ns" "NameOf (set_header x h ns) = NameOf ns" "NameOf (set_entries d es ns) = NameOf ns"
  "InfoOf (with_count x h \<rho> ns) = InfoOf ns" "InfoOf (set_header x h ns) = InfoOf ns" "InfoOf (set_entries d es ns) = InfoOf ns"
  "Reports (Core (with_count x h \<rho> ns)) = \<rho>" "Reports (Core (set_header x h ns)) = Reports (Core ns)"
  "Reports (Core (set_entries d es ns)) = Reports (Core ns)"
  by (auto simp: with_count_def set_header_def set_entries_def)

definition globals :: "NAMESPACE \<Rightarrow> (nat \<Rightarrow> PARSE_ROUTINE) \<times> nat \<times> nat \<times> obj option" where
  "globals ns = (ParseRoutine ns, ObpDirectoryObjectType ns, ObpSymbolicLinkObjectType ns, ObpRootDirectoryObject ns)"

lemma globals_eq:
  "globals ns' = globals ns \<longleftrightarrow> ParseRoutine ns' = ParseRoutine ns \<and>
     ObpDirectoryObjectType ns' = ObpDirectoryObjectType ns \<and>
     ObpSymbolicLinkObjectType ns' = ObpSymbolicLinkObjectType ns \<and>
     ObpRootDirectoryObject ns' = ObpRootDirectoryObject ns"
  by (auto simp: globals_def)

lemma globals_sel [simp]:
  "globals (with_count x h \<rho> ns) = globals ns" "globals (set_header x h ns) = globals ns"
  "globals (set_entries d es ns) = globals ns" "globals (ns\<lparr>NameOf := N\<rparr>) = globals ns"
  "globals (ns\<lparr>InfoOf := I\<rparr>) = globals ns"
  by (auto simp: globals_eq with_count_def set_header_def set_entries_def)

lemma reference_times_ok:
  assumes "header ns x = Some h" "reports_ok (Reports (Core ns))"
  shows "\<exists>\<rho>. reports_ok \<rho> \<and> reference_times n ns x =
    Some (if n = 0 then ns else with_count x (h\<lparr>ReferenceCount := ReferenceCount h + of_nat n\<rparr>) \<rho> ns)"
  using assms
proof (induction n arbitrary: ns h)
  case 0
  then show ?case by (intro exI [of _ "Reports (Core ns)"]) simp
next
  case (Suc n)
  let ?h = "h\<lparr>ReferenceCount := ReferenceCount h + 1\<rparr>"
  obtain r where r: "reports_ok r" "reference ns x = Some (with_count x ?h r ns)"
    using reference_ok [OF Suc.prems] by blast
  obtain \<rho> where "reports_ok \<rho>" "reference_times n (with_count x ?h r ns) x =
      Some (if n = 0 then with_count x ?h r ns
            else with_count x (?h\<lparr>ReferenceCount := ReferenceCount ?h + of_nat n\<rparr>) \<rho> (with_count x ?h r ns))"
    using Suc.IH [of "with_count x ?h r ns" ?h] r(1) by auto
  moreover have "with_count x h2 \<rho> (with_count x h1 r ns) = with_count x h2 \<rho> ns" for h1 h2
    by (simp add: with_count_def set_header_def set_object_def)
  ultimately show ?case using r by (cases "n = 0") (auto simp: add.assoc)
qed

text \<open>A namespace that has the object \<open>x\<close> besides, in no directory yet.\<close>

definition with_new :: "obj \<Rightarrow> NAMESPACE \<Rightarrow> NAMESPACE \<Rightarrow> bool" where
  "with_new x ns ns' \<longleftrightarrow> header ns x = None \<and> header ns' x \<noteq> None \<and> globals ns' = globals ns \<and>
     (\<forall>y. y \<noteq> x \<longrightarrow> header ns' y = header ns y \<and> NameOf ns' y = NameOf ns y \<and>
        Directories (Core ns') y = Directories (Core ns) y)"

lemma with_new_other:
  assumes "with_new x ns ns'" "y \<noteq> x"
  shows "header ns' y = header ns y" "NameOf ns' y = NameOf ns y" "entries ns' y = entries ns y"
    "entry_name ns' y = entry_name ns y" "entry_ok ns' y = entry_ok ns y" "type_of ns' y = type_of ns y"
    "is_dir ns' y = is_dir ns y" "plain ns' y = plain ns y"
proof -
  have eq: "header ns' y = header ns y" "NameOf ns' y = NameOf ns y" "Directories (Core ns') y = Directories (Core ns) y"
    "globals ns' = globals ns"
    using assms unfolding with_new_def by blast+
  then show "header ns' y = header ns y" "NameOf ns' y = NameOf ns y" by simp_all
  show "entries ns' y = entries ns y" "entry_name ns' y = entry_name ns y" "entry_ok ns' y = entry_ok ns y"
    using eq by (simp_all add: entries_def entry_name_def entry_ok_def split: option.split)
  show t: "type_of ns' y = type_of ns y" using eq by (simp add: type_of_def)
  show "is_dir ns' y = is_dir ns y" "plain ns' y = plain ns y" using t eq(4) by (simp_all add: is_dir_def plain_def globals_eq)
qed

lemma entry_live:
  assumes "ns_ok ns" "is_dir ns d" "header ns x = None"
  shows "x \<noteq> d" "x \<notin> set (entries ns d)"
proof -
  show "x \<noteq> d" using assms(2,3) by (auto simp: is_dir_def type_of_def)
  have "\<forall>y \<in> set (entries ns d). entry_ok ns y" using assms(1,2) by (simp add: ns_ok_def)
  then show "x \<notin> set (entries ns d)" using assms(3) by (auto simp: entry_ok_def)
qed

lemma find_cong_list: "(\<And>y. y \<in> set es \<Longrightarrow> P y = Q y) \<Longrightarrow> find P es = find Q es"
  by (induction es) auto

lemma with_new_child:
  assumes "with_new x ns ns'" "x \<notin> set es"
  shows "child ns' ci t es = child ns ci t es"
  unfolding child_def
proof (rule find_cong_list)
  fix y assume "y \<in> set es"
  then have "y \<noteq> x" using assms(2) by auto
  then show "(map_option (key ci) (entry_name ns' y) = Some (key ci t)) =
      (map_option (key ci) (entry_name ns y) = Some (key ci t))"
    using with_new_other(4) [OF assms(1)] by simp
qed

lemma child_in: "child ns ci t es = Some y \<Longrightarrow> y \<in> set es"
  by (auto simp: child_def find_Some_iff)

lemma child_live:
  assumes "ns_ok ns" "is_dir ns d" "child ns ci t (entries ns d) = Some y"
  shows "header ns y \<noteq> None"
  using entry_live(2) [OF assms(1,2)] child_in [OF assms(3)] by blast

lemma with_new_walk:
  assumes "ns_ok ns" "with_new x ns ns'" "d \<noteq> x"
  shows "walk ns' ci d ts = walk ns ci d ts" "plain_walk ns' ci d ts = plain_walk ns ci d ts"
proof -
  have x: "header ns x = None" using assms(2) by (simp add: with_new_def)
  have "walk ns' ci d ts = walk ns ci d ts \<and> plain_walk ns' ci d ts = plain_walk ns ci d ts"
    using assms(3)
  proof (induction ts arbitrary: d)
    case Nil
    then show ?case using with_new_other [OF assms(2)] by simp
  next
    case (Cons t ts)
    note o = with_new_other [OF assms(2) Cons.prems]
    show ?case
    proof (cases "is_dir ns d")
      case True
      have c: "child ns' ci t (entries ns' d) = child ns ci t (entries ns d)"
        using with_new_child [OF assms(2) entry_live(2) [OF assms(1) True x]] o(3) by simp
      show ?thesis
      proof (cases "child ns ci t (entries ns d)")
        case (Some y)
        then have "y \<noteq> x" using child_live [OF assms(1) True Some] x by auto
        then show ?thesis using Cons.IH [of y] Some c o True by simp
      qed (use c o True in simp)
    qed (use o in simp)
  qed
  then show "walk ns' ci d ts = walk ns ci d ts" "plain_walk ns' ci d ts = plain_walk ns ci d ts" by auto
qed

lemma with_new_ns_ok:
  assumes ok: "ns_ok ns" and a: "with_new x ns ns'" and dir: "is_dir ns' x \<Longrightarrow> Directories (Core ns') x = Some []"
  shows "ns_ok ns'"
proof -
  have x: "header ns x = None" using a by (simp add: with_new_def)
  have "Directories (Core ns') d \<noteq> None \<and> (\<forall>y \<in> set (entries ns' d). entry_ok ns' y)" if d: "is_dir ns' d" for d
  proof (cases "d = x")
    case True
    then show ?thesis using dir d by (simp add: entries_def)
  next
    case False
    then have d': "is_dir ns d" using d with_new_other(7) [OF a] by simp
    have "x \<notin> set (entries ns d)" using entry_live [OF ok d' x] by simp
    then have "entry_ok ns' y = entry_ok ns y" if "y \<in> set (entries ns d)" for y
      using that with_new_other(5) [OF a] by metis
    then show ?thesis using ok d' False with_new_other(3) [OF a] a by (auto simp: ns_ok_def with_new_def)
  qed
  then show ?thesis using ok a by (auto simp: ns_ok_def with_new_def globals_eq)
qed

text \<open>The object enters the directory \<open>d\<close>.\<close>

lemma inserted_child:
  "child ns ci t (es @ [x]) = (case child ns ci t es of None \<Rightarrow>
     if map_option (key ci) (entry_name ns x) = Some (key ci t) then Some x else None | Some y \<Rightarrow> Some y)"
  by (induction es) (auto simp: child_def)

lemma set_entries_other [simp]:
  "entry_name (set_entries d es ns) y = entry_name ns y" "entry_ok (set_entries d es ns) y = entry_ok ns y"
  "type_of (set_entries d es ns) y = type_of ns y" "is_dir (set_entries d es ns) y = is_dir ns y"
  "plain (set_entries d es ns) y = plain ns y" "child (set_entries d es ns) ci t fs = child ns ci t fs"
proof -
  note g = globals_sel(3) [unfolded globals_eq, of d es ns]
  show n: "entry_name (set_entries d es ns) y = entry_name ns y" for y by (simp add: entry_name_def split: option.split)
  show "entry_ok (set_entries d es ns) y = entry_ok ns y" by (simp add: entry_ok_def)
  show t: "type_of (set_entries d es ns) y = type_of ns y" by (simp add: type_of_def)
  show "is_dir (set_entries d es ns) y = is_dir ns y" "plain (set_entries d es ns) y = plain ns y"
    using t g by (simp_all add: is_dir_def plain_def)
  show "child (set_entries d es ns) ci t fs = child ns ci t fs" by (simp add: child_def n)
qed

lemma entries_set_entries:
  "entries (set_entries d es ns) e = (if e = d then es else entries ns e)"
  by (simp add: entries_def)

lemma inserted_ns_ok:
  assumes "ns_ok ns" "entry_ok ns x" "is_dir ns d"
  shows "ns_ok (set_entries d (entries ns d @ [x]) ns)"
proof -
  let ?ns = "set_entries d (entries ns d @ [x]) ns"
  note g = globals_sel(3) [unfolded globals_eq, of d "entries ns d @ [x]" ns]
  have "Directories (Core ?ns) e \<noteq> None \<and> (\<forall>y \<in> set (entries ?ns e). entry_ok ?ns y)" if "is_dir ?ns e" for e
    using that assms by (auto simp: ns_ok_def entries_set_entries)
  then show ?thesis using assms(1) g by (simp add: ns_ok_def)
qed

lemma inserted_walk:
  assumes "walk ns ci r ts = Missing d t []" "plain_walk ns ci r ts" "plain ns x" "entry_name ns x = Some t"
  shows "walk (set_entries d (entries ns d @ [x]) ns) ci r ts = Found x \<and>
    plain_walk (set_entries d (entries ns d @ [x]) ns) ci r ts"
  using assms
proof (induction ts arbitrary: r)
  case (Cons u ts)
  let ?ns = "set_entries d (entries ns d @ [x]) ns"
  have dir: "is_dir ns r" using Cons.prems(1) by (auto split: if_splits)
  show ?case
  proof (cases "child ns ci u (entries ns r)")
    case None
    then have "r = d" "u = t" "ts = []" using Cons.prems(1) dir by auto
    then show ?thesis using None dir Cons.prems by (simp add: entries_set_entries inserted_child)
  next
    case (Some y)
    then have "child ns ci u (entries ?ns r) = Some y" by (cases "r = d") (simp_all add: entries_set_entries inserted_child)
    then show ?thesis using Cons.IH [of y] Cons.prems dir Some by simp
  qed
qed simp

lemma missing_dir: "walk ns ci r ts = Missing d t us \<Longrightarrow> is_dir ns d"
  by (induction ts arbitrary: r) (auto split: if_splits option.splits)

lemma missing_last: "walk ns ci r ts = Missing d t [] \<Longrightarrow> ts \<noteq> [] \<and> last ts = t"
  by (induction ts arbitrary: r) (auto split: if_splits option.splits)

lemma name_collides_spec:
  assumes "\<forall>y \<in> set es. entry_ok ns y \<and> (\<forall>h. header ns y = Some h \<longrightarrow> HasNameInfo h \<longrightarrow> StrBuffer (NameOf ns y) \<noteq> None)"
    "0 \<in> set b"
  shows "name_collides ns (Some b) es = Some (child ns True (c_name b) es \<noteq> None)"
  using assms
proof (induction es)
  case (Cons y es)
  obtain h where h: "header ns y = Some h" using Cons.prems(1) by (auto simp: entry_ok_def)
  show ?case
  proof (cases "HasNameInfo h")
    case False
    then show ?thesis using Cons h by (simp add: child_def entry_name_def)
  next
    case True
    then obtain n where n: "StrBuffer (NameOf ns y) = Some n" "0 \<in> set n"
      using Cons.prems(1) h by (auto simp: entry_ok_def)
    then show ?thesis using Cons h True
      by (auto simp: child_def entry_name_def same_name_spec)
  qed
qed (simp add: child_def)

abbreviation counted :: "ANSI_STRING \<Rightarrow> u8 list \<Rightarrow> ANSI_STRING" where
  "counted name p \<equiv> \<lparr>StrLength = StrLength name, StrBuffer = Some (p @ [0])\<rparr>"

lemma path_ok_length: "path_ok a name p \<Longrightarrow> unat (StrLength name) = length p"
  by (auto simp: path_ok_def)

lemma counted_ok: "path_ok a name p \<Longrightarrow> path_ok (a\<lparr>AttrName := Some (counted name p)\<rparr>) (counted name p) p"
proof -
  assume p: "path_ok a name p"
  have "AttrRoot a = 0" "0 \<notin> set p" using p unfolding path_ok_def by blast+
  then show "path_ok (a\<lparr>AttrName := Some (counted name p)\<rparr>) (counted name p) p"
    using path_ok_length [OF p] by (simp add: path_ok_def)
qed

lemma c_name_terminated: "0 \<notin> set t \<Longrightarrow> c_name (t @ [0]) = t"
  by (induction t) (auto simp: c_name_def)

lemma with_new_I:
  assumes "header ns x = None" "header ns' = (header ns)(x \<mapsto> h)" "NameOf ns' = (NameOf ns)(x := n)"
    "\<And>y. y \<noteq> x \<Longrightarrow> Directories (Core ns') y = Directories (Core ns) y" "globals ns' = globals ns"
  shows "with_new x ns ns'"
  using assms by (simp add: with_new_def)

lemma create_ok:
  assumes p: "path_ok a name p" "p \<noteq> []" and x: "header ns x = None"
  shows "\<exists>ns1. ObCreateObject (Some x) normal True ns m ty (Some a) = Some (ns1, STATUS_SUCCESS, Some x) \<and>
    with_new x ns ns1 \<and> Reports (Core ns1) = Reports (Core ns) \<and>
    header ns1 x = Some \<lparr>ReferenceCount = 1, ObType = Some ty, Permanent = False, HasNameInfo = True, NameDirectory = None\<rparr> \<and>
    InfoOf ns1 x = Some \<lparr>InfoAttributes = a\<lparr>AttrName := Some (counted name p)\<rparr>, InfoMode = m\<rparr> \<and>
    (ty = ObpDirectoryObjectType ns \<longrightarrow> Directories (Core ns1) x = Some [])"
proof -
  have len: "StrLength name \<noteq> 0"
    using path_ok_length [OF p(1)] p(2) by (metis length_0_conv unat_0)
  then have named: "has_name (Some a)" using p(1) by (simp add: has_name_def path_ok_def)
  obtain b where b: "AttrName a = Some name" "StrBuffer name = Some b" "length p \<le> length b" "p = take (length p) b"
    using p(1) path_ok_length [OF p(1)] unfolding path_ok_def by auto
  then have copy: "copy_name name = Some (counted name p)"
    using path_ok_length [OF p(1)] by (simp add: copy_name_def)
  let ?h = "\<lparr>ReferenceCount = 1, ObType = Some ty, Permanent = False, HasNameInfo = True, NameDirectory = None\<rparr>"
  obtain nsA st where A: "ObAllocateObject (Some x) normal ns ty (Some a) = (nsA, st, Some x)"
    by (auto simp: ObAllocateObject_def Let_def)
  then have nsA: "header nsA = (header ns)(x \<mapsto> ?h)" "NameOf nsA = (NameOf ns)(x := zero_string)"
      "Reports (Core nsA) = Reports (Core ns)" "globals nsA = globals ns"
      "\<And>y. y \<noteq> x \<Longrightarrow> Directories (Core nsA) y = Directories (Core ns) y"
      "ty = ObpDirectoryObjectType ns \<Longrightarrow> Directories (Core nsA) x = Some []"
    using named
    by (auto simp: ObAllocateObject_def Let_def set_entries_def set_header_def header_def globals_eq fun_eq_iff split: if_splits)
  let ?a = "a\<lparr>AttrName := Some (counted name p)\<rparr>"
  let ?ns1 = "nsA\<lparr>InfoOf := (InfoOf nsA)(x \<mapsto> \<lparr>InfoAttributes = ?a, InfoMode = m\<rparr>)\<rparr>"
  have "ObCreateObject (Some x) normal True ns m ty (Some a) = Some (?ns1, STATUS_SUCCESS, Some x)"
    using A named b(1) copy by (simp add: ObCreateObject_def)
  moreover have "with_new x ns ?ns1"
    by (rule with_new_I [where h = ?h and n = zero_string]) (use x nsA in auto)
  ultimately show ?thesis using nsA by (intro exI [of _ ?ns1]) simp
qed

text \<open>The lookup of an insertion stops at the directory that gets the name.\<close>

lemma insert_lookup:
  assumes ns: "ns_ok ns" "ObpRootDirectoryObject ns = Some root"
    and p: "path_ok a name p" "\<not> ends_sep p"
    and w: "walk ns (case_blind a) root (tokens p) = Missing d t []" "plain_walk ns (case_blind a) root (tokens p)"
  shows "\<exists>ctx ctx'. ObInitializeLookupContext ns a ty m = Some ctx \<and>
    ObpLookupObjectName parse ns a (ctx\<lparr>InsertMode := True\<rparr>) = Some (ns, ctx', STATUS_SUCCESS, None) \<and>
    CurrentDirectory ctx' = Some d"
proof -
  have a: "0 \<notin> set p" "AttrRoot a = 0" "AttrName a = Some name" using p(1) by (auto simp: path_ok_def)
  obtain z where z: "ObInitializeLookupContext ns a ty m = Some z" "length (ReparseBuffer z) = 512"
    using a(3) by (simp add: ObInitializeLookupContext_def zero_context_def)
  let ?z = "z\<lparr>InsertMode := True\<rparr>"
  let ?c = "start_context ns a name ?z"
  have len: "length (ReparseBuffer ?z) = 512" using z(2) by simp
  have c: "ctx_ok ?c" "remaining ?c = p" using start_context_ok(1,2) [OF p(1) len, of ns] by blast+
  have ne: "tokens p \<noteq> []" using missing_last [OF w(1)] by simp
  have "\<exists>c'. CurrentDirectory c' = Some d \<and>
      name_lookup_loop parse ns ?c = Some (ns, c', missing_status ?c [], None)"
    using name_lookup_loop_walk [of ns ?c root parse] ns c a(1) w p(2) ne by auto
  then show ?thesis using z(1) lookup_from_root [OF a(2,3), of parse ns ?z]
    by (auto simp: missing_status_def)
qed

text \<open>The name goes in: what \<open>insert_at\<close> does in a directory.\<close>

lemma insert_at_ok:
  assumes ok: "ns_ok ns" and ad: "with_new x ns ns1" and dir: "is_dir ns d"
    and h: "header ns1 x = Some h" "HasNameInfo h" and reports: "reports_ok (Reports (Core ns1))"
    and p: "unat (StrLength n) = length p" "StrBuffer n = Some (p @ [0])" "0 \<notin> set p" "\<not> ends_sep p" "p \<noteq> []"
    and t: "last (tokens p) = t"
    and free: "child ns True t (entries ns d) = None"
    and named: "\<forall>y \<in> set (entries ns d). \<forall>h. header ns y = Some h \<longrightarrow> HasNameInfo h \<longrightarrow> StrBuffer (NameOf ns y) \<noteq> None"
  shows "\<exists>ns2. insert_at True True ns1 x n d = Some (set_entries d (entries ns2 d @ [x]) ns2, STATUS_SUCCESS) \<and>
    with_new x ns ns2 \<and> reports_ok (Reports (Core ns2)) \<and>
    header ns2 x = Some (h\<lparr>NameDirectory := Some d, ReferenceCount := ReferenceCount h + 1\<rparr>) \<and>
    NameOf ns2 x = \<lparr>StrLength = of_nat (length t), StrBuffer = Some (t @ [0])\<rparr> \<and>
    Directories (Core ns2) x = Directories (Core ns1) x"
proof -
  have x: "header ns x = None" using ad by (simp add: with_new_def)
  have live: "x \<noteq> d" "x \<notin> set (entries ns d)" using entry_live [OF ok dir x] by auto
  note od = with_new_other [OF ad live(1) [symmetric]]
  obtain th where th: "header ns1 d = Some th" "ObType th = Some (ObpDirectoryObjectType ns1)"
    using dir od(7) by (auto simp: is_dir_def type_of_def split: option.splits)
  obtain u q where split: "p = u @ q" "\<forall>c \<in> set q. \<not> is_sep c" "u = [] \<or> ends_sep u" "tokens p = tokens u @ [q]"
    using path_split [OF p(4,5)] by blast
  have q: "q = t" using split(4) t by simp
  have k: "final_name (p @ [0]) (unat (StrLength n)) = Some (length u)"
    using final_name_spec [OF split(2,3), of "[0]"] p(1) split(1) by simp
  have nz: "0 \<notin> set t" using p(3) split(1) q by auto
  have raw: "raw_length (drop (length u) (p @ [0])) = Some (length t)"
    using raw_length_spec [OF nz, of "[]"] split(1) q by simp
  let ?N = "\<lparr>StrLength = of_nat (length t), StrBuffer = Some (t @ [0])\<rparr>"
  let ?h = "h\<lparr>NameDirectory := Some d\<rparr>"
  define nsn where "nsn = (set_header x ?h ns1)\<lparr>NameOf := (NameOf ns1)(x := ?N)\<rparr>"
  have nsn: "header nsn = (header ns1)(x \<mapsto> ?h)" "NameOf nsn = (NameOf ns1)(x := ?N)"
      "Directories (Core nsn) = Directories (Core ns1)" "Reports (Core nsn) = Reports (Core ns1)" "globals nsn = globals ns1"
    by (simp_all add: nsn_def)
  have adn: "with_new x ns nsn" using ad nsn by (simp add: with_new_def)
  have en: "entries nsn d = entries ns d" "Directories (Core nsn) d = Some (entries ns d)"
    using with_new_other(3) [OF adn live(1) [symmetric]] ok dir od adn live(1)
    by (auto simp: ns_ok_def entries_def with_new_def)
  have same: "set_entries d (entries ns d) nsn = nsn"
    using en(2) by (simp add: set_entries_def fun_upd_idem)
  have "\<forall>y \<in> set (entries ns d). entry_ok nsn y \<and>
      (\<forall>h. header nsn y = Some h \<longrightarrow> HasNameInfo h \<longrightarrow> StrBuffer (NameOf nsn y) \<noteq> None)"
  proof
    fix y assume y: "y \<in> set (entries ns d)"
    then have "y \<noteq> x" using live(2) by auto
    note o = with_new_other [OF adn this]
    show "entry_ok nsn y \<and> (\<forall>h. header nsn y = Some h \<longrightarrow> HasNameInfo h \<longrightarrow> StrBuffer (NameOf nsn y) \<noteq> None)"
      using y o named ok dir by (auto simp: ns_ok_def)
  qed
  then have "name_collides nsn (Some (t @ [0])) (entries ns d) =
      Some (child nsn True (c_name (t @ [0])) (entries ns d) \<noteq> None)"
    by (rule name_collides_spec) simp
  moreover have "c_name (t @ [0]) = t" by (rule c_name_terminated [OF nz])
  ultimately have nc: "name_collides nsn (Some (t @ [0])) (entries ns d) = Some False"
    using free with_new_child [OF adn live(2)] by simp
  have hx: "header nsn x = Some ?h" using nsn by simp
  have "reports_ok (Reports (Core nsn))" using reports nsn by simp
  from reference_ok [OF hx this] obtain \<rho> where r: "reports_ok \<rho>"
    "reference nsn x = Some (with_count x (?h\<lparr>ReferenceCount := ReferenceCount h + 1\<rparr>) \<rho> nsn)" by auto
  define ns2 where "ns2 = with_count x (?h\<lparr>ReferenceCount := ReferenceCount h + 1\<rparr>) \<rho> nsn"
  have ns2: "header ns2 x = Some (?h\<lparr>ReferenceCount := ReferenceCount h + 1\<rparr>)" "NameOf ns2 x = ?N"
      "Directories (Core ns2) = Directories (Core ns1)" "Reports (Core ns2) = \<rho>"
    using nsn by (simp_all add: ns2_def)
  have ad2: "with_new x ns ns2" using adn by (simp add: with_new_def ns2_def)
  have e2: "entries ns2 d = entries ns d" using with_new_other(3) [OF ad2 live(1) [symmetric]] .
  have "ObpInsertDirectory True nsn (Some d) (Some x) = Some (set_entries d (entries ns d @ [x]) ns2, STATUS_SUCCESS)"
    using en(2) same hx h(2) nsn(2) nc r(2) by (simp add: ObpInsertDirectory_def ns2_def)
  moreover have "insert_at True True ns1 x n d = ObpInsertDirectory True nsn (Some d) (Some x)"
    using p(2) k raw th h nz q split(1) by (simp add: insert_at_def nsn_def)
  ultimately show ?thesis using ns2 ad2 r(1) e2 by (intro exI [of _ ns2]) simp
qed

abbreviation entered :: "obj \<Rightarrow> obj \<Rightarrow> NAMESPACE \<Rightarrow> NAMESPACE" where
  "entered d x ns \<equiv> set_entries d (entries ns d @ [x]) ns"

lemma entered_ok:
  assumes ok: "ns_ok ns" and ad: "with_new x ns ns'" and dir: "is_dir ns d"
    and h: "header ns' x = Some h" "ObType h = Some ty" "HasNameInfo h" "StrBuffer (NameOf ns' x) = Some (t @ [0])" "0 \<notin> set t"
    and new: "ty = ObpDirectoryObjectType ns \<longrightarrow> Directories (Core ns') x = Some []"
  shows "ns_ok (entered d x ns')"
proof -
  have "is_dir ns' x \<longleftrightarrow> ty = ObpDirectoryObjectType ns"
    using h(1,2) ad by (simp add: is_dir_def type_of_def with_new_def globals_eq)
  then have "ns_ok ns'" using with_new_ns_ok [OF ok ad] new by simp
  moreover have "d \<noteq> x" using entry_live(1) [OF ok dir] ad by (auto simp: with_new_def)
  then have "is_dir ns' d" using with_new_other(7) [OF ad] dir by simp
  moreover have "entry_ok ns' x" using h by (simp add: entry_ok_def)
  ultimately show ?thesis by (intro inserted_ns_ok)
qed

lemma entered_walk:
  assumes ok: "ns_ok ns" and ad: "with_new x ns ns'" and root: "header ns root \<noteq> None"
    and h: "header ns' x = Some h" "ObType h = Some ty" "HasNameInfo h" "StrBuffer (NameOf ns' x) = Some (t @ [0])" "0 \<notin> set t"
    and pl: "ParseRoutine ns ty = NoParse"
    and w: "walk ns ci root ts = Missing d t []" "plain_walk ns ci root ts"
  shows "walk (entered d x ns') ci root ts = Found x" "plain_walk (entered d x ns') ci root ts"
proof -
  have "root \<noteq> x" using root ad by (auto simp: with_new_def)
  then have w': "walk ns' ci root ts = Missing d t []" "plain_walk ns' ci root ts"
    using with_new_walk [OF ok ad] w by auto
  have "plain ns' x" using h(1,2) pl ad by (simp add: plain_def type_of_def with_new_def globals_eq)
  moreover have "entry_name ns' x = Some t" using h c_name_terminated [OF h(5)] by (simp add: entry_name_def)
  ultimately show "walk (entered d x ns') ci root ts = Found x" "plain_walk (entered d x ns') ci root ts"
    using inserted_walk [OF w'] by auto
qed

lemma entered_count:
  "with_count x h \<rho> (entered d x ns) = entered d x (with_count x h \<rho> ns)"
  "(entered d x ns)\<lparr>InfoOf := I\<rparr> = entered d x (ns\<lparr>InfoOf := I\<rparr>)"
  by (simp_all add: with_count_def set_header_def set_object_def set_entries_def entries_def)

lemma with_new_count: "with_new x ns ns' \<Longrightarrow> with_new x ns (with_count x h \<rho> ns')"
  "with_new x ns ns' \<Longrightarrow> with_new x ns (ns'\<lparr>InfoOf := I\<rparr>)"
  "with_new x ns ns' \<Longrightarrow> with_new x ns (set_header x h ns')"
  by (simp_all add: with_new_def)

lemma insert_object_ok:
  assumes ok: "ns_ok ns" and root: "ObpRootDirectoryObject ns = Some root" and ad: "with_new x ns ns1"
    and rp: "reports_ok (Reports (Core ns1))"
    and h: "header ns1 x = Some h" "HasNameInfo h" "ObType h = Some ty"
    and info: "InfoOf ns1 x = Some \<lparr>InfoAttributes = a, InfoMode = m\<rparr>"
    and new: "ty = ObpDirectoryObjectType ns \<longrightarrow> Directories (Core ns1) x = Some []"
    and p: "path_ok a n p" "StrBuffer n = Some (p @ [0])" "\<not> ends_sep p" "ObpCheckUnsecureName n m = Some False"
    and w: "walk ns (case_blind a) root (tokens p) = Missing d t []" "plain_walk ns (case_blind a) root (tokens p)"
    and live: "header ns root \<noteq> None" and free: "child ns True t (entries ns d) = None"
    and named: "\<forall>y \<in> set (entries ns d). \<forall>h. header ns y = Some h \<longrightarrow> HasNameInfo h \<longrightarrow> StrBuffer (NameOf ns y) \<noteq> None"
  shows "\<exists>K. ObInsertObject parse True True ns1 (Some x) token access bias True False =
      Some (entered d x K, STATUS_SUCCESS, Some x, 0) \<and> with_new x ns K \<and> reports_ok (Reports (Core K)) \<and>
    header K x = Some (h\<lparr>Permanent := (AttrFlags a AND OBJ_PERMANENT \<noteq> 0 \<or> Permanent h), NameDirectory := Some d,
      ReferenceCount := ReferenceCount h + 1 + bias\<rparr>) \<and>
    NameOf K x = \<lparr>StrLength = of_nat (length t), StrBuffer = Some (t @ [0])\<rparr> \<and> InfoOf K x = None \<and>
    Directories (Core K) x = Directories (Core ns1) x"
proof -
  define hp where "hp = h\<lparr>Permanent := (AttrFlags a AND OBJ_PERMANENT \<noteq> 0 \<or> Permanent h)\<rparr>"
  define nsp where "nsp = (if AttrFlags a AND OBJ_PERMANENT \<noteq> 0 then set_header x (h\<lparr>Permanent := True\<rparr>) ns1 else ns1)"
  have nsp: "header nsp x = Some hp" "InfoOf nsp = InfoOf ns1" "Reports (Core nsp) = Reports (Core ns1)"
      "Directories (Core nsp) = Directories (Core ns1)" "with_new x ns nsp"
    using h ad with_new_count(3) [OF ad] by (auto simp: nsp_def hp_def)
  have a: "0 \<notin> set p" "AttrRoot a = 0" "AttrName a = Some n" using p(1) unfolding path_ok_def by auto
  have tt: "tokens p \<noteq> []" "last (tokens p) = t" using missing_last [OF w(1)] by auto
  have pne: "p \<noteq> []" using tt(1) by auto
  have rootx: "root \<noteq> x" using live ad by (auto simp: with_new_def)
  have dir: "is_dir ns d" by (rule missing_dir [OF w(1)])
  have okp: "ns_ok nsp"
    by (rule with_new_ns_ok [OF ok nsp(5)])
      (use new nsp(1,4,5) h(3) in \<open>auto simp: is_dir_def type_of_def with_new_def globals_eq hp_def\<close>)
  have rootp: "ObpRootDirectoryObject nsp = Some root" using nsp(5) root by (simp add: with_new_def globals_eq)
  obtain c c' where look: "ObInitializeLookupContext nsp a (Some ty) m = Some c"
      "ObpLookupObjectName parse nsp a (c\<lparr>InsertMode := True\<rparr>) = Some (nsp, c', STATUS_SUCCESS, None)"
      "CurrentDirectory c' = Some d"
    using insert_lookup [OF okp rootp p(1,3), of d t "Some ty" m parse] w with_new_walk [OF ok nsp(5) rootx] by auto
  have rp': "reports_ok (Reports (Core nsp))" using rp nsp(3) by simp
  have np: "HasNameInfo hp" "ObType hp = Some ty" using h by (simp_all add: hp_def)
  from insert_at_ok [OF ok nsp(5) dir nsp(1) np(1) rp' path_ok_length [OF p(1)] p(2) a(1) p(3) pne tt(2) free named]
  obtain ns2 where at: "insert_at True True nsp x n d = Some (entered d x ns2, STATUS_SUCCESS)"
      "with_new x ns ns2" "reports_ok (Reports (Core ns2))"
      "header ns2 x = Some (hp\<lparr>NameDirectory := Some d, ReferenceCount := ReferenceCount hp + 1\<rparr>)"
      "NameOf ns2 x = \<lparr>StrLength = of_nat (length t), StrBuffer = Some (t @ [0])\<rparr>"
      "Directories (Core ns2) x = Directories (Core nsp) x" by blast
  have named: "insert_name parse True True nsp x a m n = Some (entered d x ns2, STATUS_SUCCESS)"
    using rootp nsp(1) np(2) look at(1) by (simp add: insert_name_def)
  let ?h2 = "hp\<lparr>NameDirectory := Some d, ReferenceCount := ReferenceCount hp + 1\<rparr>"
  have e: "header (entered d x ns2) x = Some ?h2" "reports_ok (Reports (Core (entered d x ns2)))" using at(3,4) by simp_all
  from reference_times_ok [OF e, of "unat bias"]
  obtain \<rho> where r: "reports_ok \<rho>" "reference_times (unat bias) (entered d x ns2) x =
      Some (if bias = 0 then entered d x ns2
            else with_count x (?h2\<lparr>ReferenceCount := ReferenceCount ?h2 + bias\<rparr>) \<rho> (entered d x ns2))"
    by (auto simp: unat_eq_0)
  define k where "k = (if bias = 0 then ns2 else with_count x (?h2\<lparr>ReferenceCount := ReferenceCount ?h2 + bias\<rparr>) \<rho> ns2)"
  have k: "reference_times (unat bias) (entered d x ns2) x = Some (entered d x k)" "with_new x ns k"
      "reports_ok (Reports (Core k))" "header k x = Some (?h2\<lparr>ReferenceCount := ReferenceCount hp + 1 + bias\<rparr>)"
      "NameOf k = NameOf ns2" "Directories (Core k) = Directories (Core ns2)"
    using r at(2,3,4) with_new_count(1) [OF at(2)] by (auto simp: k_def entered_count)
  let ?K = "k\<lparr>InfoOf := (InfoOf k)(x := None)\<rparr>"
  have fin: "insert_done (entered d x ns2) x bias True 0 = Some (entered d x ?K, STATUS_SUCCESS, Some x, 0)"
    using k(1,4) by (simp add: insert_done_def entered_count)
  have "ObInsertObject parse True True ns1 (Some x) token access bias True False =
      Some (entered d x ?K, STATUS_SUCCESS, Some x, 0)"
    using h(1) info a(3) p(4) named fin
    by (simp add: ObInsertObject_def nsp_def [symmetric] Let_def)
  then show ?thesis using k at(5,6) nsp(4) with_new_count(2) [OF k(2)]
    by (intro exI [of _ ?K]) (simp add: hp_def)
qed

definition new_header :: "nat \<Rightarrow> bool \<Rightarrow> obj \<Rightarrow> u32 \<Rightarrow> OBJECT_HEADER" where
  "new_header ty perm d n =
     \<lparr>ReferenceCount = n, ObType = Some ty, Permanent = perm, HasNameInfo = True, NameDirectory = Some d\<rparr>"

text \<open>C40: In such a namespace, whose report table is within its bounds, create an object of a type without parse routine at a
  fresh address, under a path without root handle, zero bytes and a separator at its end, whose name the check of insertions accepts. Let every
  component but the last lead to a directory, without links or other parse routines on the way,
  whose named entries all have their names and differ from the last component also without case. Then, with the
  allocations successful, ObCreateObject and ObInsertObject, without a handle and with the object asked for,
  succeed, and ObReferenceObjectByName with the same attributes returns the object. It then has one reference
  for its creator, one for its entry, one for the lookup and the bias; it is permanent if the attributes say
  so. The directory has the new entry last. All other objects, names and directories are as before, and
  the namespace is again one this holds for.\<close>

lemma create_then_open:
  assumes ok: "ns_ok ns" and root: "ObpRootDirectoryObject ns = Some root" and rep: "reports_ok (Reports (Core ns))"
    and fresh: "header ns x = None" and pl: "ParseRoutine ns ty = NoParse"
    and p: "path_ok a name p" "\<not> ends_sep p" "ObpCheckUnsecureName (counted name p) m = Some False"
    and w: "walk ns (case_blind a) root (tokens p) = Missing d t []" "plain_walk ns (case_blind a) root (tokens p)"
    and free: "child ns True t (entries ns d) = None"
    and named: "\<forall>y \<in> set (entries ns d). \<forall>h. header ns y = Some h \<longrightarrow> HasNameInfo h \<longrightarrow> StrBuffer (NameOf ns y) \<noteq> None"
  shows "\<exists>ns1 ns2 ns3. ObCreateObject (Some x) normal True ns m ty (Some a) = Some (ns1, STATUS_SUCCESS, Some x) \<and>
    ObInsertObject parse True True ns1 (Some x) token access bias True False = Some (ns2, STATUS_SUCCESS, Some x, 0) \<and>
    ObReferenceObjectByName parse ns2 a (Some ty) = Some (ns3, STATUS_SUCCESS, Some x) \<and>
    header ns3 x = Some (new_header ty (AttrFlags a AND OBJ_PERMANENT \<noteq> 0) d (3 + bias)) \<and>
    entries ns3 d = entries ns d @ [x] \<and> InfoOf ns3 x = None \<and> ns_ok ns3 \<and>
    (\<forall>y. y \<noteq> x \<longrightarrow> header ns3 y = header ns y \<and> NameOf ns3 y = NameOf ns y \<and>
       (y \<noteq> d \<longrightarrow> Directories (Core ns3) y = Directories (Core ns) y))"
proof -
  have dir: "is_dir ns d" by (rule missing_dir [OF w(1)])
  have tt: "tokens p \<noteq> []" "last (tokens p) = t" using missing_last [OF w(1)] by auto
  have pne: "p \<noteq> []" using tt(1) by auto
  have "t \<in> set (tokens p)" using tt by auto
  then have nz: "0 \<notin> set t" using tokens_subset [of t p] p(1) unfolding path_ok_def by blast
  have droot: "is_dir ns root" using w(1) tt(1) by (cases "tokens p") (auto split: if_splits)
  then have live: "header ns root \<noteq> None" by (auto simp: is_dir_def type_of_def split: option.splits)
  let ?h1 = "\<lparr>ReferenceCount = 1, ObType = Some ty, Permanent = False, HasNameInfo = True, NameDirectory = None\<rparr>"
  let ?a = "a\<lparr>AttrName := Some (counted name p)\<rparr>"
  from create_ok [OF p(1) pne fresh] obtain ns1 where 1:
      "ObCreateObject (Some x) normal True ns m ty (Some a) = Some (ns1, STATUS_SUCCESS, Some x)"
      "with_new x ns ns1" "Reports (Core ns1) = Reports (Core ns)" "header ns1 x = Some ?h1"
      "InfoOf ns1 x = Some \<lparr>InfoAttributes = ?a, InfoMode = m\<rparr>"
      "ty = ObpDirectoryObjectType ns \<longrightarrow> Directories (Core ns1) x = Some []" by blast
  have rp: "reports_ok (Reports (Core ns1))" using rep 1(3) by simp
  obtain K where 2: "ObInsertObject parse True True ns1 (Some x) token access bias True False =
      Some (entered d x K, STATUS_SUCCESS, Some x, 0)" "with_new x ns K" "reports_ok (Reports (Core K))"
      "header K x = Some (new_header ty (AttrFlags a AND OBJ_PERMANENT \<noteq> 0) d (2 + bias))"
      "NameOf K x = \<lparr>StrLength = of_nat (length t), StrBuffer = Some (t @ [0])\<rparr>" "InfoOf K x = None"
      "Directories (Core K) x = Directories (Core ns1) x"
    using insert_object_ok [OF ok root 1(2) rp 1(4) _ _ 1(5) 1(6) counted_ok [OF p(1)] _ p(2) p(3), of d t parse token access bias]
      w live free named by (auto simp: new_header_def)
  let ?h = "new_header ty (AttrFlags a AND OBJ_PERMANENT \<noteq> 0) d (2 + bias)"
  have hk: "ObType ?h = Some ty" "HasNameInfo ?h" "StrBuffer (NameOf K x) = Some (t @ [0])"
    using 2(5) by (simp_all add: new_header_def)
  have newK: "ty = ObpDirectoryObjectType ns \<longrightarrow> Directories (Core K) x = Some []" using 1(6) 2(7) by simp
  have ok2: "ns_ok (entered d x K)" by (rule entered_ok [OF ok 2(2) dir 2(4) hk nz newK])
  note w2 = entered_walk [OF ok 2(2) live 2(4) hk nz pl w]
  have r2: "ObpRootDirectoryObject (entered d x K) = Some root"
    using 2(2) root globals_sel(3) [unfolded globals_eq, of d "entries K d @ [x]" K] by (simp add: with_new_def globals_eq)
  have "root \<noteq> x" using live fresh by auto
  then have d2: "is_dir (entered d x K) root" using droot with_new_other(7) [OF 2(2)] by simp
  have h2: "header (entered d x K) x = Some ?h" "reports_ok (Reports (Core (entered d x K)))" using 2(3,4) by simp_all
  from reference_ok [OF h2] obtain \<rho> where r: "reference (entered d x K) x =
      Some (entered d x (with_count x (?h\<lparr>ReferenceCount := ReferenceCount ?h + 1\<rparr>) \<rho> K))"
    by (auto simp: entered_count)
  let ?h3 = "new_header ty (AttrFlags a AND OBJ_PERMANENT \<noteq> 0) d (3 + bias)"
  have h3: "?h\<lparr>ReferenceCount := ReferenceCount ?h + 1\<rparr> = ?h3" by (simp add: new_header_def)
  define L where "L = with_count x ?h3 \<rho> K"
  have L: "with_new x ns L" "header L x = Some ?h3" "NameOf L = NameOf K" "InfoOf L = InfoOf K"
      "Directories (Core L) = Directories (Core K)"
    using with_new_count(1) [OF 2(2)] by (simp_all add: L_def)
  have st: "stands_for (entered d x K) (case_blind a) root p (tokens p)" using w2 by (simp add: stands_for_def)
  have 3: "ObReferenceObjectByName parse (entered d x K) a (Some ty) = Some (entered d x L, STATUS_SUCCESS, Some x)"
    using by_name_stands_for [OF ok2 r2 d2 p(1) st, of parse "Some ty"] w2(1) h2(1) hk(1) r h3
    by (simp add: open_path_def take_result_def L_def)
  have hk3: "ObType ?h3 = Some ty" "HasNameInfo ?h3" "StrBuffer (NameOf L x) = Some (t @ [0])"
    using hk(3) L(3) by (simp_all add: new_header_def)
  have newL: "ty = ObpDirectoryObjectType ns \<longrightarrow> Directories (Core L) x = Some []" using newK L(5) by simp
  have ok3: "ns_ok (entered d x L)" by (rule entered_ok [OF ok L(1) dir L(2) hk3 nz newL])
  have dx: "d \<noteq> x" using entry_live(1) [OF ok dir fresh] by simp
  have e: "entries (entered d x L) d = entries ns d @ [x]" using with_new_other(3) [OF L(1) dx] by (simp add: entries_set_entries)
  have frame: "\<forall>y. y \<noteq> x \<longrightarrow> header (entered d x L) y = header ns y \<and> NameOf (entered d x L) y = NameOf ns y \<and>
      (y \<noteq> d \<longrightarrow> Directories (Core (entered d x L)) y = Directories (Core ns) y)"
    using L(1) by (simp add: with_new_def)
  show ?thesis
    by (intro exI [of _ ns1] exI [of _ "entered d x K"] exI [of _ "entered d x L"] conjI)
       (use 1(1) 2(1,6) 3 L(2,4) e frame ok3 in simp_all)
qed

lemma create_then_open_witness:
  "\<exists>ns1 ns2 ns3. ObCreateObject (Some 9) None True demo_namespace UserMode 7 (Some (demo_attributes [0x2F, 0x44, 0x2F, 0x67])) =
      Some (ns1, STATUS_SUCCESS, Some 9) \<and>
    ObInsertObject (\<lambda>_ _ _. None) True True ns1 (Some 9) None 0 2 True False = Some (ns2, STATUS_SUCCESS, Some 9, 0) \<and>
    ObReferenceObjectByName (\<lambda>_ _ _. None) ns2 (demo_attributes [0x2F, 0x44, 0x2F, 0x67]) (Some 7) =
      Some (ns3, STATUS_SUCCESS, Some 9) \<and>
    header ns3 9 = Some (new_header 7 False 1 5) \<and> entries ns3 1 = [2, 9]"
proof -
  let ?p = "[0x2F, 0x44, 0x2F, 0x67 :: u8]"
  let ?a = "demo_attributes ?p"
  have flags: "case_blind ?a = False" "AttrFlags ?a AND OBJ_PERMANENT = 0" by (simp_all add: demo_attributes_def)
  have root: "ObpRootDirectoryObject demo_namespace = Some 0" by simp
  have rep: "reports_ok (Reports (Core demo_namespace))" by (simp add: demo_reports_def reports_ok_def)
  have fresh: "header demo_namespace 9 = None" by (simp add: demo_header_of)
  have pl: "ParseRoutine demo_namespace 7 = NoParse" by simp
  have p: "path_ok ?a \<lparr>StrLength = of_nat (length ?p), StrBuffer = Some (?p @ [0])\<rparr> ?p"
    by (rule demo_path) simp_all
  have e: "\<not> ends_sep ?p" by (simp add: ends_sep_def is_sep_def)
  have un: "ObpCheckUnsecureName (counted \<lparr>StrLength = of_nat (length ?p), StrBuffer = Some (?p @ [0])\<rparr> ?p) UserMode = Some False"
    by code_simp
  have w: "walk demo_namespace (case_blind ?a) 0 (tokens ?p) = Missing 1 [0x67] []"
      "plain_walk demo_namespace (case_blind ?a) 0 (tokens ?p)"
    unfolding flags demo_tokens by (simp_all add: demo_dir demo_children key_def demo_plain)
  have free: "child demo_namespace True [0x67] (entries demo_namespace 1) = None"
    by (simp add: demo_children key_def fold_case_def)
  have named: "\<forall>y \<in> set (entries demo_namespace 1). \<forall>h. header demo_namespace y = Some h \<longrightarrow> HasNameInfo h \<longrightarrow>
      StrBuffer (NameOf demo_namespace y) \<noteq> None"
    by simp
  show ?thesis
    using create_then_open [OF demo_ns_ok root rep fresh pl p e un w free named, of None "\<lambda>_ _ _. None" None 0 2] flags
    by (auto simp: demo_entries)
qed

end
