(* ===== verification/KsWait.thy ===== *)
theory KsWait
  imports VeaBase
begin

text \<open>
  The dispatcher: waiting for objects (\<open>veakrnl/ks/wait.c\<close>) and the objects that are
  waited for, events (\<open>event.c\<close>), semaphores (\<open>semaphore.c\<close>) and mutants
  (\<open>mutant.c\<close>), with the data of \<open>sdk/include/ndk/ks.h\<close>.

  Objects and threads are numbers. The intrusive lists are represented by what they
  link: \<open>WaitListHead\<close> of an object is the list of the wait blocks (thread, index) in
  it, in order; \<open>MutantListEntry\<close> of a mutant names the thread whose list it is linked
  into. An entry in no list is linked to itself, as \<open>InitializeListHead\<close> leaves it.
  Linking an entry that is already linked corrupts the list it was in: that is \<open>None\<close>,
  as are a null dereference and a loop that does not end.

  The dispatcher lock is the interrupt level \<open>SYNCH_LEVEL\<close> of the one processor: an
  operation between its acquisition and its release is one step. A wait is cut where it
  releases the lock, before the thread yields, and where the thread runs again.
  \<open>WaitNext\<close> records that a release left the level
  raised for the wait that follows; interrupt levels themselves are left out. \<open>RunQueue\<close>
  records the calls of \<open>PtEnqueueThreadCfs\<close>.
\<close>

section \<open>Data\<close>

datatype KOBJECTS = EventNotificationObject | EventSynchronizationObject | MutantObject
  | ProcessObject | QueueObject | SemaphoreObject | ThreadObject | GateObject
  | TimerNotificationObject | TimerSynchronizationObject

datatype KTHREAD_STATE = Initialized | Ready | Running | Standby | Terminated | Waiting

type_synonym KWAIT_TYPE = u32

definition WaitAny :: KWAIT_TYPE where "WaitAny = 0"
definition WaitAll :: KWAIT_TYPE where "WaitAll = 1"
definition THREAD_WAIT_OBJECTS :: nat where "THREAD_WAIT_OBJECTS = 3"

type_synonym obj = nat
type_synonym tid = nat

record DISPATCHER_HEADER =
  ObjectType :: KOBJECTS
  SignalState :: u32
  WaitListHead :: "(tid \<times> nat) list"
  Limit :: u32
  MutantOwner :: "tid option"
  MutantListEntry :: "tid option"
  Abandoned :: bool
  ApcDisable :: u8

record KWAIT_BLOCK =
  BlockObject :: "obj option"
  WaitKey :: u16

record KTHREAD =
  ThreadState :: KTHREAD_STATE
  WaitBlock :: "KWAIT_BLOCK list"
  WaitBlockList :: "nat option"
  WaitType :: KWAIT_TYPE
  WaitStatus :: VEASTATUS
  WaitNext :: bool
  MutantListHead :: "obj list"

record DISPATCHER =
  Hdr :: "obj \<Rightarrow> DISPATCHER_HEADER"
  Thr :: "tid \<Rightarrow> KTHREAD"
  Current :: "tid option"
  RunQueue :: "tid list"

text \<open>\<open>KsBugCheckEx\<close> stops the machine.\<close>

datatype 'a outcome = Returned 'a | BugCheck u32

definition INVALID_OBJECT_STATE :: u32 where "INVALID_OBJECT_STATE = 0x106"

definition upd_hdr :: "obj \<Rightarrow> (DISPATCHER_HEADER \<Rightarrow> DISPATCHER_HEADER) \<Rightarrow> DISPATCHER \<Rightarrow> DISPATCHER" where
  "upd_hdr x f s = s\<lparr>Hdr := (Hdr s)(x := f (Hdr s x))\<rparr>"

definition upd_thr :: "tid \<Rightarrow> (KTHREAD \<Rightarrow> KTHREAD) \<Rightarrow> DISPATCHER \<Rightarrow> DISPATCHER" where
  "upd_thr t f s = s\<lparr>Thr := (Thr s)(t := f (Thr s t))\<rparr>"

lemma upd_sel [simp]:
  "Hdr (upd_hdr x f s) = (Hdr s)(x := f (Hdr s x))" "Thr (upd_hdr x f s) = Thr s"
  "Current (upd_hdr x f s) = Current s" "RunQueue (upd_hdr x f s) = RunQueue s"
  "Thr (upd_thr t g s) = (Thr s)(t := g (Thr s t))" "Hdr (upd_thr t g s) = Hdr s"
  "Current (upd_thr t g s) = Current s" "RunQueue (upd_thr t g s) = RunQueue s"
  by (simp_all add: upd_hdr_def upd_thr_def)

section \<open>The scheduler\<close>

definition PtWakeThread :: "DISPATCHER \<Rightarrow> tid \<Rightarrow> DISPATCHER" where
  "PtWakeThread s t =
     (if ThreadState (Thr s t) \<noteq> Waiting then s
      else (upd_thr t (ThreadState_update (\<lambda>_. Ready)) s)\<lparr>RunQueue := RunQueue s @ [t]\<rparr>)"

text \<open>
  \<open>PtYieldThread\<close> with the choice of the next thread as an argument: a thread of the run
  queue, or the idle thread, \<open>None\<close>. A running thread goes back into the queue.
\<close>

definition switch_to :: "DISPATCHER \<Rightarrow> tid option \<Rightarrow> DISPATCHER" where
  "switch_to s NextThread =
     (let s1 = (case NextThread of
                  None \<Rightarrow> s
                | Some t \<Rightarrow> upd_thr t (ThreadState_update (\<lambda>_. Running)) (s\<lparr>RunQueue := remove1 t (RunQueue s)\<rparr>));
          s2 = (case Current s of
                  None \<Rightarrow> s1
                | Some c \<Rightarrow> if ThreadState (Thr s1 c) = Running
                     then (upd_thr c (ThreadState_update (\<lambda>_. Ready)) s1)\<lparr>RunQueue := RunQueue s1 @ [c]\<rparr>
                     else s1)
      in s2\<lparr>Current := NextThread\<rparr>)"

section \<open>Waiting (\<open>wait.c\<close>)\<close>

definition KsiIsNotificationObject :: "DISPATCHER_HEADER \<Rightarrow> bool" where
  "KsiIsNotificationObject h \<longleftrightarrow>
     ObjectType h = EventNotificationObject \<or> ObjectType h = ProcessObject \<or> ObjectType h = ThreadObject"

definition signaled :: "DISPATCHER \<Rightarrow> obj \<Rightarrow> bool" where
  "signaled s x \<longleftrightarrow> 0 < sint (SignalState (Hdr s x))"

definition block_object :: "DISPATCHER \<Rightarrow> tid \<Rightarrow> nat \<Rightarrow> obj option" where
  "block_object s t i = BlockObject (WaitBlock (Thr s t) ! i)"

text \<open>One turn of the loop of \<open>KsiRemoveThreadWaitBlocks\<close>.\<close>

definition remove_block :: "tid \<Rightarrow> nat \<Rightarrow> DISPATCHER \<Rightarrow> DISPATCHER" where
  "remove_block t i s = (case block_object s t i of
       None \<Rightarrow> s
     | Some x \<Rightarrow>
         upd_thr t (\<lambda>th. th\<lparr>WaitBlock := (WaitBlock th)[i := (WaitBlock th ! i)\<lparr>BlockObject := None\<rparr>]\<rparr>)
           (upd_hdr x (WaitListHead_update (remove1 (t, i))) s))"

definition KsiRemoveThreadWaitBlocks :: "DISPATCHER \<Rightarrow> tid \<Rightarrow> DISPATCHER" where
  "KsiRemoveThreadWaitBlocks s t =
     upd_thr t (WaitBlockList_update (\<lambda>_. None)) (fold (remove_block t) [0..<THREAD_WAIT_OBJECTS] s)"

fun first_signaled :: "DISPATCHER \<Rightarrow> obj option list \<Rightarrow> nat \<Rightarrow> nat option" where
  "first_signaled s [] i = None"
| "first_signaled s (None # xs) i = first_signaled s xs (Suc i)"
| "first_signaled s (Some x # xs) i = (if signaled s x then Some i else first_signaled s xs (Suc i))"

definition KsiAreObjectsSignaled :: "DISPATCHER \<Rightarrow> obj option list \<Rightarrow> KWAIT_TYPE \<Rightarrow> nat option" where
  "KsiAreObjectsSignaled s xs wt =
     (if wt = WaitAny then first_signaled s xs 0
      else if list_all (\<lambda>y. case y of None \<Rightarrow> False | Some x \<Rightarrow> signaled s x) xs then Some 0
      else None)"

definition consume_signal :: "obj \<Rightarrow> DISPATCHER \<Rightarrow> DISPATCHER" where
  "consume_signal x s =
     (if KsiIsNotificationObject (Hdr s x) then s
      else upd_hdr x (SignalState_update (\<lambda>n. n - 1)) s)"

definition KsiConsumeObjectSignals :: "DISPATCHER \<Rightarrow> obj list \<Rightarrow> KWAIT_TYPE \<Rightarrow> nat \<Rightarrow> DISPATCHER option" where
  "KsiConsumeObjectSignals s xs wt SignaledIndex =
     (if wt = WaitAny
      then do { x \<leftarrow> rd xs SignaledIndex; Some (consume_signal x s) }
      else Some (fold consume_signal xs s))"

definition KsiAssignMutantOwner :: "DISPATCHER \<Rightarrow> tid \<Rightarrow> obj \<Rightarrow> DISPATCHER option" where
  "KsiAssignMutantOwner s t x =
     (if ObjectType (Hdr s x) \<noteq> MutantObject then Some s
      else if MutantListEntry (Hdr s x) \<noteq> None then None
      else Some (upd_thr t (MutantListHead_update (\<lambda>l. l @ [x]))
             (upd_hdr x (\<lambda>h. h\<lparr>MutantOwner := Some t, MutantListEntry := Some t\<rparr>) s)))"

fun assign_owners :: "DISPATCHER \<Rightarrow> tid \<Rightarrow> obj list \<Rightarrow> DISPATCHER option" where
  "assign_owners s t [] = Some s"
| "assign_owners s t (x # xs) = do { s \<leftarrow> KsiAssignMutantOwner s t x; assign_owners s t xs }"

text \<open>The leading wait blocks up to the first without an object.\<close>

fun leading :: "'a option list \<Rightarrow> 'a list" where
  "leading (Some x # ys) = x # leading ys"
| "leading ys = []"

definition wait_objects :: "DISPATCHER \<Rightarrow> tid \<Rightarrow> obj list" where
  "wait_objects s t = leading (map BlockObject (WaitBlock (Thr s t)))"

fun find_index :: "'a option list \<Rightarrow> 'a \<Rightarrow> nat \<Rightarrow> nat option" where
  "find_index [] x i = None"
| "find_index (y # ys) x i = (if y = Some x then Some i else find_index ys x (Suc i))"

definition KsiThreadWaitIsSatisfied :: "DISPATCHER \<Rightarrow> tid \<Rightarrow> obj \<Rightarrow> nat option" where
  "KsiThreadWaitIsSatisfied s t SignaledObject =
     (if WaitType (Thr s t) = WaitAny
      then find_index (map BlockObject (WaitBlock (Thr s t))) SignaledObject 0
      else if \<not> list_all (signaled s) (wait_objects s t) then None
      else if wait_objects s t = [] then None
      else Some 0)"

definition KsiSatisfyThreadWait :: "DISPATCHER \<Rightarrow> tid \<Rightarrow> nat \<Rightarrow> DISPATCHER option" where
  "KsiSatisfyThreadWait s t SignaledIndex = do {
     let xs = wait_objects s t;
     s \<leftarrow> KsiConsumeObjectSignals s xs (WaitType (Thr s t)) SignaledIndex;
     s \<leftarrow> assign_owners s t xs;
     b \<leftarrow> rd (WaitBlock (Thr s t)) SignaledIndex;
     let s = upd_thr t (\<lambda>th. th\<lparr>WaitStatus := STATUS_SUCCESS,
               WaitBlock := (WaitBlock th)[SignaledIndex := b\<lparr>WaitKey := of_nat SignaledIndex\<rparr>]\<rparr>) s;
     let s = KsiRemoveThreadWaitBlocks s t;
     Some (PtWakeThread s t) }"

text \<open>
  \<open>Flink\<close> of a wait block in a wait list: the block after it, \<open>None\<close> for the list head;
  a block that is not in the list is linked to itself.
\<close>

fun flink :: "'a list \<Rightarrow> 'a \<Rightarrow> 'a option" where
  "flink [] b = Some b"
| "flink (x # xs) b = (if x = b then (case xs of [] \<Rightarrow> None | y # ys \<Rightarrow> Some y) else flink xs b)"

text \<open>The three tests of a list entry in \<open>KsWaitTest\<close>, with the index they store.\<close>

definition waiter_index :: "DISPATCHER \<Rightarrow> obj \<Rightarrow> tid \<Rightarrow> nat option" where
  "waiter_index s x t =
     (if ThreadState (Thr s t) = Waiting then KsiThreadWaitIsSatisfied s t x else None)"

text \<open>The loop of \<open>KsWaitTest\<close>; \<open>NextEntry\<close> is read before the thread is woken.\<close>

partial_function (option) wait_test_loop ::
  "obj \<Rightarrow> bool \<Rightarrow> DISPATCHER \<Rightarrow> (tid \<times> nat) option \<Rightarrow> DISPATCHER option"
where
  "wait_test_loop x NotificationObject s Entry =
     (if Entry = None then Some s
      else if waiter_index s x (fst (the Entry)) = None
      then wait_test_loop x NotificationObject s (flink (WaitListHead (Hdr s x)) (the Entry))
      else do {
        s' \<leftarrow> KsiSatisfyThreadWait s (fst (the Entry)) (the (waiter_index s x (fst (the Entry))));
        if \<not> NotificationObject \<and> \<not> signaled s' x then Some s'
        else wait_test_loop x NotificationObject s' (flink (WaitListHead (Hdr s x)) (the Entry)) })"

definition list_first :: "'a list \<Rightarrow> 'a option" where
  "list_first l = (case l of [] \<Rightarrow> None | y # ys \<Rightarrow> Some y)"

definition KsWaitTest :: "DISPATCHER \<Rightarrow> obj option \<Rightarrow> DISPATCHER option" where
  "KsWaitTest s SignaledObject = (case SignaledObject of
       None \<Rightarrow> Some s
     | Some x \<Rightarrow> wait_test_loop x (KsiIsNotificationObject (Hdr s x)) s
                   (list_first (WaitListHead (Hdr s x))))"


text \<open>
  \<open>KsWaitForMultipleObjects\<close> up to the point where the thread yields the processor: it
  returns at once, or the thread is waiting. \<open>Objects\<close> is the caller's array.
\<close>

datatype wait_outcome = Done VEASTATUS | Blocked

fun insert_blocks :: "DISPATCHER \<Rightarrow> tid \<Rightarrow> nat \<Rightarrow> obj list \<Rightarrow> DISPATCHER option" where
  "insert_blocks s t i [] = Some s"
| "insert_blocks s t i (x # xs) = do {
     b \<leftarrow> rd (WaitBlock (Thr s t)) i;
     if BlockObject b \<noteq> None then None
     else insert_blocks
       (upd_hdr x (WaitListHead_update (\<lambda>l. l @ [(t, i)]))
         (upd_thr t (\<lambda>th. th\<lparr>WaitBlock := (WaitBlock th)[i := b\<lparr>BlockObject := Some x\<rparr>]\<rparr>) s))
       t (Suc i) xs }"

definition KsWaitForMultipleObjects ::
  "DISPATCHER \<Rightarrow> u32 \<Rightarrow> obj option list option \<Rightarrow> KWAIT_TYPE \<Rightarrow> (DISPATCHER \<times> wait_outcome) option"
where
  "KsWaitForMultipleObjects s ObjectCount Objects wt =
     (if ObjectCount = 0 \<or> THREAD_WAIT_OBJECTS < unat ObjectCount \<or> Objects = None
      then Some (s, Done STATUS_INVALID_PARAMETER)
      else if wt \<noteq> WaitAny \<and> wt \<noteq> WaitAll then Some (s, Done STATUS_INVALID_PARAMETER)
      else (case Current s of
        None \<Rightarrow> Some (s, Done STATUS_INVALID_PARAMETER)
      | Some CurrentThread \<Rightarrow>
          if length (the Objects) < unat ObjectCount then None
          else let ys = take (unat ObjectCount) (the Objects) in
          if None \<in> set ys then Some (s, Done STATUS_INVALID_PARAMETER)
          else let xs = map the ys;
                   s = upd_thr CurrentThread (WaitNext_update (\<lambda>_. False)) s
          in (case KsiAreObjectsSignaled s ys wt of
            Some SignaledIndex \<Rightarrow> do {
              s \<leftarrow> KsiConsumeObjectSignals s xs wt SignaledIndex;
              s \<leftarrow> (if wt = WaitAny
                   then do { x \<leftarrow> rd xs SignaledIndex; KsiAssignMutantOwner s CurrentThread x }
                   else assign_owners s CurrentThread xs);
              Some (s, Done STATUS_SUCCESS) }
          | None \<Rightarrow> do {
              s \<leftarrow> insert_blocks s CurrentThread 0 xs;
              Some (upd_thr CurrentThread (\<lambda>th. th\<lparr>WaitBlockList := Some 0, WaitType := wt,
                      WaitStatus := STATUS_PENDING, ThreadState := Waiting\<rparr>) s, Blocked) })))"

text \<open>The rest of the wait, when the scheduler runs the thread again.\<close>

definition wait_resumed :: "DISPATCHER \<Rightarrow> tid \<Rightarrow> DISPATCHER \<times> VEASTATUS" where
  "wait_resumed s t =
     (let s = KsiRemoveThreadWaitBlocks s t in (s, WaitStatus (Thr s t)))"

definition KsWaitForSingleObject :: "DISPATCHER \<Rightarrow> obj option \<Rightarrow> (DISPATCHER \<times> wait_outcome) option" where
  "KsWaitForSingleObject s Object =
     (if Object = None then Some (s, Done STATUS_INVALID_PARAMETER)
      else KsWaitForMultipleObjects s 1 (Some [Object]) WaitAny)"

section \<open>Events (\<open>event.c\<close>)\<close>

definition set_signal :: "obj \<Rightarrow> u32 \<Rightarrow> DISPATCHER \<Rightarrow> DISPATCHER" where
  "set_signal x v = upd_hdr x (SignalState_update (\<lambda>_. v))"

text \<open>What a release with \<open>Wait\<close> does instead of lowering the interrupt level.\<close>

definition finish_release :: "DISPATCHER \<Rightarrow> bool \<Rightarrow> DISPATCHER option" where
  "finish_release s Wait =
     (if \<not> Wait then Some s
      else (case Current s of
          None \<Rightarrow> None
        | Some t \<Rightarrow> Some (upd_thr t (WaitNext_update (\<lambda>_. True)) s)))"

definition KsClearEvent :: "DISPATCHER \<Rightarrow> obj \<Rightarrow> DISPATCHER" where
  "KsClearEvent s Event = set_signal Event 0 s"

datatype EVENT_TYPE = NotificationEvent | SynchronizationEvent

definition KsInitializeEvent :: "DISPATCHER \<Rightarrow> obj \<Rightarrow> EVENT_TYPE \<Rightarrow> bool \<Rightarrow> DISPATCHER" where
  "KsInitializeEvent s Event Type State =
     upd_hdr Event (\<lambda>h. h\<lparr>
       ObjectType := (case Type of NotificationEvent \<Rightarrow> EventNotificationObject
                                 | SynchronizationEvent \<Rightarrow> EventSynchronizationObject),
       SignalState := of_bool State, WaitListHead := []\<rparr>) s"

definition KsResetEvent :: "DISPATCHER \<Rightarrow> obj \<Rightarrow> DISPATCHER \<times> u32" where
  "KsResetEvent s Event = (set_signal Event 0 s, SignalState (Hdr s Event))"

definition KsSetEvent :: "DISPATCHER \<Rightarrow> obj \<Rightarrow> bool \<Rightarrow> (DISPATCHER \<times> u32) option" where
  "KsSetEvent s Event Wait =
     (if ObjectType (Hdr s Event) = EventNotificationObject \<and> SignalState (Hdr s Event) = 1 \<and> \<not> Wait
      then Some (s, 1)
      else do {
        let PreviousState = SignalState (Hdr s Event);
        let s = set_signal Event 1 s;
        s \<leftarrow> (if PreviousState = 0 \<and> WaitListHead (Hdr s Event) \<noteq> []
             then KsWaitTest s (Some Event) else Some s);
        s \<leftarrow> finish_release s Wait;
        Some (s, PreviousState) })"

section \<open>Semaphores (\<open>semaphore.c\<close>)\<close>

definition KsInitializeSemaphore :: "DISPATCHER \<Rightarrow> obj \<Rightarrow> u32 \<Rightarrow> u32 \<Rightarrow> DISPATCHER" where
  "KsInitializeSemaphore s Semaphore Count Lim =
     upd_hdr Semaphore (\<lambda>h. h\<lparr>ObjectType := SemaphoreObject, SignalState := Count,
       WaitListHead := [], Limit := Lim\<rparr>) s"

definition KsReadStateSemaphore :: "DISPATCHER \<Rightarrow> obj \<Rightarrow> u32" where
  "KsReadStateSemaphore s Semaphore = SignalState (Hdr s Semaphore)"

definition KsReleaseSemaphore ::
  "DISPATCHER \<Rightarrow> obj \<Rightarrow> u32 \<Rightarrow> bool \<Rightarrow> (DISPATCHER \<times> u32) outcome option"
where
  "KsReleaseSemaphore s Semaphore Adjustment Wait =
     (let InitialState = SignalState (Hdr s Semaphore);
          State = InitialState + Adjustment
      in if sint (Limit (Hdr s Semaphore)) < sint State \<or> sint State < sint InitialState
         then Some (BugCheck INVALID_OBJECT_STATE)
         else do {
           let s = set_signal Semaphore State s;
           s \<leftarrow> (if InitialState = 0 \<and> WaitListHead (Hdr s Semaphore) \<noteq> []
                then KsWaitTest s (Some Semaphore) else Some s);
           s \<leftarrow> finish_release s Wait;
           Some (Returned (s, InitialState)) })"

section \<open>Mutants (\<open>mutant.c\<close>)\<close>

definition KsInitializeMutant :: "DISPATCHER \<Rightarrow> obj \<Rightarrow> bool \<Rightarrow> DISPATCHER option" where
  "KsInitializeMutant s Mutant InitialOwner = do {
     let s = upd_hdr Mutant (\<lambda>h. h\<lparr>MutantListEntry := None, WaitListHead := []\<rparr>) s;
     s \<leftarrow> (if InitialOwner
          then (case Current s of
              None \<Rightarrow> None
            | Some t \<Rightarrow> Some (upd_thr t (MutantListHead_update (\<lambda>l. l @ [Mutant]))
                (upd_hdr Mutant (\<lambda>h. h\<lparr>MutantOwner := Some t, MutantListEntry := Some t\<rparr>) s)))
          else Some (upd_hdr Mutant (MutantOwner_update (\<lambda>_. None)) s));
     Some (upd_hdr Mutant (\<lambda>h. h\<lparr>ObjectType := MutantObject,
       SignalState := (if InitialOwner then 0 else 1), Abandoned := False, ApcDisable := 0\<rparr>) s) }"

definition KsInitializeMutex :: "DISPATCHER \<Rightarrow> obj \<Rightarrow> u32 \<Rightarrow> DISPATCHER" where
  "KsInitializeMutex s Mutex Level =
     upd_hdr Mutex (\<lambda>h. h\<lparr>MutantListEntry := None, WaitListHead := [], ObjectType := MutantObject,
       SignalState := 1, MutantOwner := None, Abandoned := False, ApcDisable := 1\<rparr>) s"

definition KeReadStateMutant :: "DISPATCHER \<Rightarrow> obj \<Rightarrow> u32" where
  "KeReadStateMutant s Mutant = SignalState (Hdr s Mutant)"

text \<open>\<open>RemoveEntryList\<close> of the mutant's entry: out of the list it is linked in, if any.\<close>

definition unlink_mutant :: "obj \<Rightarrow> DISPATCHER \<Rightarrow> DISPATCHER" where
  "unlink_mutant x s = (case MutantListEntry (Hdr s x) of
       None \<Rightarrow> s
     | Some t \<Rightarrow> upd_hdr x (MutantListEntry_update (\<lambda>_. None))
                   (upd_thr t (MutantListHead_update (remove1 x)) s))"

definition KsiReleaseMutant :: "DISPATCHER \<Rightarrow> obj option \<Rightarrow> bool \<Rightarrow> (DISPATCHER \<times> u32) option" where
  "KsiReleaseMutant s Mutant Wait = (case Mutant of
       None \<Rightarrow> Some (s, STATUS_INVALID_PARAMETER)
     | Some x \<Rightarrow>
         if ObjectType (Hdr s x) \<noteq> MutantObject then Some (s, STATUS_INVALID_PARAMETER)
         else (case Current s of
           None \<Rightarrow> Some (s, STATUS_INVALID_PARAMETER)
         | Some t \<Rightarrow>
             if MutantOwner (Hdr s x) \<noteq> Some t then Some (s, STATUS_ACCESS_DENIED)
             else do {
               let PreviousState = SignalState (Hdr s x);
               let s = unlink_mutant x s;
               let s = upd_hdr x (\<lambda>h. h\<lparr>MutantOwner := None, SignalState := 1\<rparr>) s;
               s \<leftarrow> (if WaitListHead (Hdr s x) \<noteq> [] then KsWaitTest s (Some x) else Some s);
               s \<leftarrow> finish_release s Wait;
               Some (s, PreviousState) }))"

definition KsReleaseMutant :: "DISPATCHER \<Rightarrow> obj option \<Rightarrow> bool \<Rightarrow> (DISPATCHER \<times> u32) option" where
  "KsReleaseMutant s Mutant Wait = KsiReleaseMutant s Mutant Wait"

definition KsReleaseMutex :: "DISPATCHER \<Rightarrow> obj option \<Rightarrow> bool \<Rightarrow> (DISPATCHER \<times> u32) option" where
  "KsReleaseMutex s Mutex Wait = KsiReleaseMutant s Mutex Wait"

section \<open>Well-formed waits\<close>

abbreviation blocks :: "DISPATCHER \<Rightarrow> tid \<Rightarrow> obj option list" where
  "blocks s t \<equiv> map BlockObject (WaitBlock (Thr s t))"

abbreviation is_mutant :: "DISPATCHER \<Rightarrow> obj \<Rightarrow> bool" where
  "is_mutant s x \<equiv> ObjectType (Hdr s x) = MutantObject"

text \<open>
  The wait lists of the objects and the wait blocks of the threads describe the same
  waits: a list holds no block twice and exactly the blocks that name its object, and a
  thread's blocks name pairwise distinct objects, in its leading blocks.
\<close>

definition wait_wf :: "DISPATCHER \<Rightarrow> bool" where
  "wait_wf s \<longleftrightarrow>
     (\<forall>t. length (WaitBlock (Thr s t)) = THREAD_WAIT_OBJECTS) \<and>
     (\<forall>t. blocks s t = map Some (wait_objects s t) @ replicate (THREAD_WAIT_OBJECTS - length (wait_objects s t)) None) \<and>
     (\<forall>t. distinct (wait_objects s t)) \<and>
     (\<forall>x. distinct (WaitListHead (Hdr s x))) \<and>
     (\<forall>x t i. (t, i) \<in> set (WaitListHead (Hdr s x)) \<longleftrightarrow> i < length (wait_objects s t) \<and> wait_objects s t ! i = x)"

lemma wait_wfD:
  assumes "wait_wf s"
  shows "length (WaitBlock (Thr s t)) = THREAD_WAIT_OBJECTS"
    "blocks s t = map Some (wait_objects s t) @ replicate (THREAD_WAIT_OBJECTS - length (wait_objects s t)) None"
    "distinct (wait_objects s t)"
    "distinct (WaitListHead (Hdr s x))"
    "(t, i) \<in> set (WaitListHead (Hdr s x)) \<longleftrightarrow> i < length (wait_objects s t) \<and> wait_objects s t ! i = x"
  using assms unfolding wait_wf_def by blast+

lemma leading_prefix: "leading (map Some xs @ replicate n None) = xs"
  by (induction xs) (cases n, simp_all)

lemma wait_objects_le: "wait_wf s \<Longrightarrow> length (wait_objects s t) \<le> THREAD_WAIT_OBJECTS"
  using wait_wfD(1,2) [of s t] by (metis length_append length_map le_add1)

lemma block_object_nth:
  assumes "wait_wf s" "i < THREAD_WAIT_OBJECTS"
  shows "block_object s t i = (if i < length (wait_objects s t) then Some (wait_objects s t ! i) else None)"
proof -
  have "block_object s t i = blocks s t ! i"
    using assms wait_wfD(1) [of s t] by (simp add: block_object_def)
  then show ?thesis
    using assms(2) by (simp add: wait_wfD(2) [OF assms(1), of t] nth_append)
qed

lemma remove1_filter: "distinct xs \<Longrightarrow> remove1 x xs = filter (\<lambda>y. y \<noteq> x) xs"
  by (simp add: distinct_remove1_removeAll removeAll_filter_not_eq) (metis (mono_tags))

text \<open>The state after the first \<open>n\<close> turns of \<open>KsiRemoveThreadWaitBlocks\<close>.\<close>

definition keeps :: "tid \<Rightarrow> nat \<Rightarrow> tid \<times> nat \<Rightarrow> bool" where
  "keeps t n b \<longleftrightarrow> \<not> (fst b = t \<and> snd b < n)"

definition cleared :: "tid \<Rightarrow> nat \<Rightarrow> DISPATCHER \<Rightarrow> DISPATCHER" where
  "cleared t n s = s\<lparr>
     Hdr := \<lambda>x. (Hdr s x)\<lparr>WaitListHead := filter (keeps t n) (WaitListHead (Hdr s x))\<rparr>,
     Thr := (Thr s)(t := (Thr s t)\<lparr>WaitBlock :=
        map (BlockObject_update (\<lambda>_. None)) (take n (WaitBlock (Thr s t))) @ drop n (WaitBlock (Thr s t))\<rparr>)\<rparr>"

lemma keeps_Suc: "keeps t (Suc n) b \<longleftrightarrow> keeps t n b \<and> b \<noteq> (t, n)"
  by (cases b) (auto simp: keeps_def less_Suc_eq)

lemma filter_keeps_Suc:
  "distinct l \<Longrightarrow> filter (keeps t (Suc n)) l = remove1 (t, n) (filter (keeps t n) l)"
  by (simp add: remove1_filter keeps_Suc [abs_def])

lemma block_cleared:
  "n < length (WaitBlock (Thr s t)) \<Longrightarrow> block_object (cleared t n s) t n = block_object s t n"
  by (simp add: cleared_def block_object_def nth_append)

lemma map_take_update:
  assumes "n < length bs"
  shows "(map f (take n bs) @ drop n bs)[n := f (bs ! n)] = map f (take (Suc n) bs) @ drop (Suc n) bs"
  using assms
  by (simp add: list_update_append take_Suc_conv_app_nth Cons_nth_drop_Suc [symmetric])

lemma remove_block_cleared:
  assumes "wait_wf s" "n < THREAD_WAIT_OBJECTS"
  shows "remove_block t n (cleared t n s) = cleared t (Suc n) s"
proof -
  let ?bs = "WaitBlock (Thr s t)"
  have len: "n < length ?bs"
    using assms by (simp add: wait_wfD(1))
  have blk: "block_object (cleared t n s) t n =
      (if n < length (wait_objects s t) then Some (wait_objects s t ! n) else None)"
    using block_cleared [OF len] block_object_nth [OF assms] by simp
  have notin: "filter (keeps t (Suc n)) l = filter (keeps t n) l"
    if "(t, n) \<notin> set l" for l :: "(tid \<times> nat) list"
    using that by (intro filter_cong refl) (auto simp: keeps_def less_Suc_eq)
  show ?thesis
  proof (cases "n < length (wait_objects s t)")
    case False
    have h: "filter (keeps t (Suc n)) (WaitListHead (Hdr s x)) =
        filter (keeps t n) (WaitListHead (Hdr s x))" for x
      using False wait_wfD(5) [OF assms(1)] by (intro notin) blast
    have "BlockObject (?bs ! n) = None"
      using block_object_nth [OF assms, of t] False by (simp add: block_object_def)
    then have b: "BlockObject_update (\<lambda>_. None) (?bs ! n) = ?bs ! n"
      by simp
    have "map (BlockObject_update (\<lambda>_. None)) (take (Suc n) ?bs) @ drop (Suc n) ?bs =
        map (BlockObject_update (\<lambda>_. None)) (take n ?bs) @ drop n ?bs"
      using len b by (simp add: take_Suc_conv_app_nth Cons_nth_drop_Suc)
    then show ?thesis
      using False blk by (simp add: remove_block_def cleared_def h)
  next
    case True
    let ?x = "wait_objects s t ! n"
    have h: "filter (keeps t (Suc n)) (WaitListHead (Hdr s x)) =
        (if x = ?x then remove1 (t, n) (filter (keeps t n) (WaitListHead (Hdr s x)))
         else filter (keeps t n) (WaitListHead (Hdr s x)))" for x
    proof (cases "x = ?x")
      case True
      then show ?thesis
        using filter_keeps_Suc [OF wait_wfD(4) [OF assms(1)], of t n x] by (simp only: if_True refl)
    next
      case False
      then have "(t, n) \<notin> set (WaitListHead (Hdr s x))"
        using wait_wfD(5) [OF assms(1), of t n x] by auto
      then show ?thesis
        using False notin by (simp only: if_False)
    qed
    have b: "(map (BlockObject_update (\<lambda>_. None)) (take n ?bs) @ drop n ?bs) ! n = ?bs ! n"
      using len by (simp add: nth_append)
    have r: "remove_block t n (cleared t n s) =
        upd_thr t (\<lambda>th. th\<lparr>WaitBlock := (WaitBlock th)[n := (WaitBlock th ! n)\<lparr>BlockObject := None\<rparr>]\<rparr>)
           (upd_hdr ?x (WaitListHead_update (remove1 (t, n))) (cleared t n s))"
      using True blk by (simp add: remove_block_def)
    have 1: "Hdr (remove_block t n (cleared t n s)) x = Hdr (cleared t (Suc n) s) x" for x
      unfolding r by (simp add: cleared_def h)
    have 2: "Thr (remove_block t n (cleared t n s)) u = Thr (cleared t (Suc n) s) u" for u
      unfolding r using map_take_update [OF len, of "BlockObject_update (\<lambda>_. None)"]
      by (simp add: cleared_def b)
    have 3: "Current (remove_block t n (cleared t n s)) = Current (cleared t (Suc n) s)"
      "RunQueue (remove_block t n (cleared t n s)) = RunQueue (cleared t (Suc n) s)"
      unfolding r by (simp_all add: cleared_def)
    show ?thesis
      by (rule DISPATCHER.equality) (simp_all only: 1 2 3 fun_eq_iff simp_thms, simp)
  qed
qed

lemma cleared_0: "cleared t 0 s = s"
  by (simp add: cleared_def keeps_def)

text \<open>\<open>KsiRemoveThreadWaitBlocks\<close> takes the thread out of all wait lists.\<close>

lemma remove_wait_blocks:
  assumes "wait_wf s"
  shows "KsiRemoveThreadWaitBlocks s t =
    upd_thr t (WaitBlockList_update (\<lambda>_. None)) (cleared t THREAD_WAIT_OBJECTS s)"
proof -
  have "fold (remove_block t) [0..<n] s = cleared t n s" if "n \<le> THREAD_WAIT_OBJECTS" for n
    using that
  proof (induction n)
    case 0
    then show ?case by (simp add: cleared_0)
  next
    case (Suc n)
    then show ?case using remove_block_cleared [OF assms, of n] by simp
  qed
  then show ?thesis
    by (simp add: KsiRemoveThreadWaitBlocks_def)
qed

lemma leading_map_None: "leading (map (\<lambda>_. None) l) = []"
  by (cases l) simp_all

lemma removed:
  fixes s t
  assumes "wait_wf s"
  defines "s' \<equiv> KsiRemoveThreadWaitBlocks s t"
  shows "Hdr s' x = (Hdr s x)\<lparr>WaitListHead := filter (\<lambda>b. fst b \<noteq> t) (WaitListHead (Hdr s x))\<rparr>"
    "u \<noteq> t \<Longrightarrow> Thr s' u = Thr s u"
    "Thr s' t = (Thr s t)\<lparr>WaitBlock := map (BlockObject_update (\<lambda>_. None)) (WaitBlock (Thr s t)), WaitBlockList := None\<rparr>"
    "Current s' = Current s" "RunQueue s' = RunQueue s"
    "wait_objects s' u = (if u = t then [] else wait_objects s u)"
    "wait_wf s'"
proof -
  note s' = s'_def [unfolded remove_wait_blocks [OF assms(1)]]
  have k: "keeps t THREAD_WAIT_OBJECTS b \<longleftrightarrow> fst b \<noteq> t" if "b \<in> set (WaitListHead (Hdr s x))" for b x
    using that wait_wfD(5) [OF assms(1), of "fst b" "snd b" x] wait_objects_le [OF assms(1), of "fst b"]
    by (auto simp: keeps_def)
  show h: "Hdr s' x = (Hdr s x)\<lparr>WaitListHead := filter (\<lambda>b. fst b \<noteq> t) (WaitListHead (Hdr s x))\<rparr>" for x
  proof -
    have "filter (keeps t THREAD_WAIT_OBJECTS) (WaitListHead (Hdr s x)) = filter (\<lambda>b. fst b \<noteq> t) (WaitListHead (Hdr s x))"
      by (rule filter_cong [OF refl k])
    then show ?thesis
      by (simp add: s' cleared_def)
  qed
  show th: "u \<noteq> t \<Longrightarrow> Thr s' u = Thr s u" for u
    by (simp add: s' cleared_def)
  show tt: "Thr s' t = (Thr s t)\<lparr>WaitBlock := map (BlockObject_update (\<lambda>_. None)) (WaitBlock (Thr s t)), WaitBlockList := None\<rparr>"
    using wait_wfD(1) [OF assms(1), of t] by (simp add: s' cleared_def)
  show "Current s' = Current s" "RunQueue s' = RunQueue s"
    by (simp_all add: s' cleared_def)
  have bt: "blocks s' t = replicate THREAD_WAIT_OBJECTS None"
    using wait_wfD(1) [OF assms(1), of t] by (simp add: tt o_def map_replicate_const)
  have bu: "blocks s' u = blocks s u" if "u \<noteq> t" for u
    using th [OF that] by simp
  show wo: "wait_objects s' u = (if u = t then [] else wait_objects s u)" for u
    using bt bu [of u] by (simp add: wait_objects_def THREAD_WAIT_OBJECTS_def eval_nat_numeral)
  show "wait_wf s'"
    unfolding wait_wf_def
  proof (intro conjI allI)
    show "length (WaitBlock (Thr s' u)) = THREAD_WAIT_OBJECTS" for u
      using wait_wfD(1) [OF assms(1), of u] th [of u] tt by (cases "u = t") simp_all
    show "blocks s' u = map Some (wait_objects s' u) @ replicate (THREAD_WAIT_OBJECTS - length (wait_objects s' u)) None" for u
      using bt bu [of u] wait_wfD(2) [OF assms(1), of u] by (cases "u = t") (simp_all add: wo)
    show "distinct (wait_objects s' u)" for u
      using wait_wfD(3) [OF assms(1), of u] by (simp add: wo)
    show "distinct (WaitListHead (Hdr s' x))" for x
      using wait_wfD(4) [OF assms(1), of x] by (simp add: h)
    show "(u, i) \<in> set (WaitListHead (Hdr s' x)) \<longleftrightarrow> i < length (wait_objects s' u) \<and> wait_objects s' u ! i = x" for x u i
      using wait_wfD(5) [OF assms(1), of u i x] by (auto simp: h wo)
  qed
qed

section \<open>Waking a thread\<close>

abbreviation is_notification :: "DISPATCHER \<Rightarrow> obj \<Rightarrow> bool" where
  "is_notification s x \<equiv> KsiIsNotificationObject (Hdr s x)"

lemma consume_fold:
  assumes "distinct xs"
  shows "fold consume_signal xs s = s\<lparr>Hdr := \<lambda>x. if x \<in> set xs \<and> \<not> is_notification s x
      then (Hdr s x)\<lparr>SignalState := SignalState (Hdr s x) - 1\<rparr> else Hdr s x\<rparr>"
  using assms
proof (induction xs arbitrary: s)
  case Nil
  then show ?case by simp
next
  case (Cons y ys)
  have "Hdr (consume_signal y s) x = (if x = y \<and> \<not> is_notification s x
      then (Hdr s x)\<lparr>SignalState := SignalState (Hdr s x) - 1\<rparr> else Hdr s x)"
    "Thr (consume_signal y s) = Thr s" "Current (consume_signal y s) = Current s"
    "RunQueue (consume_signal y s) = RunQueue s" for x
    by (simp_all add: consume_signal_def)
  then show ?case
    using Cons by (intro DISPATCHER.equality) (auto simp: fun_eq_iff)
qed

lemma consume_signals:
  assumes "distinct xs" "i < length xs"
  shows "KsiConsumeObjectSignals s xs wt i = Some (s\<lparr>Hdr := \<lambda>x.
      if x \<in> (if wt = WaitAny then {xs ! i} else set xs) \<and> \<not> is_notification s x
      then (Hdr s x)\<lparr>SignalState := SignalState (Hdr s x) - 1\<rparr> else Hdr s x\<rparr>)"
  using assms consume_fold [of "[xs ! i]" s] consume_fold [of xs s]
  by (simp add: KsiConsumeObjectSignals_def)

lemma assign_owners:
  assumes "distinct xs" "\<And>x. x \<in> set xs \<Longrightarrow> is_mutant s x \<Longrightarrow> MutantListEntry (Hdr s x) = None"
  shows "assign_owners s t xs = Some (s\<lparr>
      Hdr := \<lambda>x. if x \<in> set xs \<and> is_mutant s x
        then (Hdr s x)\<lparr>MutantOwner := Some t, MutantListEntry := Some t\<rparr> else Hdr s x,
      Thr := (Thr s)(t := (Thr s t)\<lparr>MutantListHead := MutantListHead (Thr s t) @ filter (is_mutant s) xs\<rparr>)\<rparr>)"
  using assms
proof (induction xs arbitrary: s)
  case Nil
  then show ?case by simp
next
  case (Cons y ys)
  show ?case
  proof (cases "is_mutant s y")
    case False
    then show ?thesis
      using Cons by (auto simp: KsiAssignMutantOwner_def fun_eq_iff intro!: DISPATCHER.equality)
  next
    case True
    let ?s = "upd_thr t (MutantListHead_update (\<lambda>l. l @ [y]))
             (upd_hdr y (\<lambda>h. h\<lparr>MutantOwner := Some t, MutantListEntry := Some t\<rparr>) s)"
    have "KsiAssignMutantOwner s t y = Some ?s"
      using True Cons.prems by (simp add: KsiAssignMutantOwner_def)
    moreover have "assign_owners ?s t ys = Some (?s\<lparr>
      Hdr := \<lambda>x. if x \<in> set ys \<and> is_mutant ?s x
        then (Hdr ?s x)\<lparr>MutantOwner := Some t, MutantListEntry := Some t\<rparr> else Hdr ?s x,
      Thr := (Thr ?s)(t := (Thr ?s t)\<lparr>MutantListHead := MutantListHead (Thr ?s t) @ filter (is_mutant ?s) ys\<rparr>)\<rparr>)"
      using Cons.prems by (intro Cons.IH) auto
    moreover have "is_mutant ?s = is_mutant s"
      by (simp add: fun_eq_iff)
    ultimately show ?thesis
      using True by (auto simp: fun_eq_iff intro!: DISPATCHER.equality)
  qed
qed

text \<open>
  \<open>woken s t A s'\<close>: \<open>s'\<close> is \<open>s\<close> after thread \<open>t\<close> was given the objects \<open>A\<close> it waited
  for: their signals are consumed, the mutants among them are owned by \<open>t\<close>, and \<open>t\<close> is
  ready and in no wait list. Nothing else has changed.
\<close>

definition woken :: "DISPATCHER \<Rightarrow> tid \<Rightarrow> obj list \<Rightarrow> DISPATCHER \<Rightarrow> bool" where
  "woken s t A s' \<longleftrightarrow>
     (\<forall>x. Hdr s' x = (Hdr s x)\<lparr>
        SignalState := (if x \<in> set A \<and> \<not> is_notification s x then SignalState (Hdr s x) - 1 else SignalState (Hdr s x)),
        WaitListHead := filter (\<lambda>b. fst b \<noteq> t) (WaitListHead (Hdr s x)),
        MutantOwner := (if x \<in> set A \<and> is_mutant s x then Some t else MutantOwner (Hdr s x)),
        MutantListEntry := (if x \<in> set A \<and> is_mutant s x then Some t else MutantListEntry (Hdr s x))\<rparr>) \<and>
     (\<forall>u. u \<noteq> t \<longrightarrow> Thr s' u = Thr s u) \<and>
     ThreadState (Thr s' t) = Ready \<and> WaitStatus (Thr s' t) = STATUS_SUCCESS \<and>
     WaitType (Thr s' t) = WaitType (Thr s t) \<and> WaitNext (Thr s' t) = WaitNext (Thr s t) \<and>
     MutantListHead (Thr s' t) = MutantListHead (Thr s t) @ filter (is_mutant s) A \<and>
     Current s' = Current s \<and> RunQueue s' = RunQueue s @ [t] \<and>
     (\<forall>u. wait_objects s' u = (if u = t then [] else wait_objects s u)) \<and>
     wait_wf s'"

definition consumed :: "DISPATCHER \<Rightarrow> tid \<Rightarrow> nat \<Rightarrow> obj list" where
  "consumed s t i = (if WaitType (Thr s t) = WaitAny then [wait_objects s t ! i] else wait_objects s t)"

lemma blocks_WaitKey: "map BlockObject (bs[i := (bs ! i)\<lparr>WaitKey := k\<rparr>]) = map BlockObject bs"
  by (cases "i < length bs") (simp_all add: map_update list_update_beyond list_update_same_conv)

lemma satisfy_woken:
  assumes wf: "wait_wf s" and i: "i < length (wait_objects s t)"
    and st: "ThreadState (Thr s t) = Waiting"
    and free: "\<And>x. x \<in> set (wait_objects s t) \<Longrightarrow> is_mutant s x \<Longrightarrow> MutantListEntry (Hdr s x) = None"
    and single: "WaitType (Thr s t) = WaitAny \<Longrightarrow> \<exists>x\<in>set (wait_objects s t). is_mutant s x \<Longrightarrow>
      length (wait_objects s t) = 1"
  shows "\<exists>s'. KsiSatisfyThreadWait s t i = Some s' \<and> woken s t (consumed s t i) s'"
proof -
  let ?A = "consumed s t i" and ?xs = "wait_objects s t"
  define s1 where "s1 = s\<lparr>Hdr := \<lambda>x. if x \<in> set ?A \<and> \<not> is_notification s x
      then (Hdr s x)\<lparr>SignalState := SignalState (Hdr s x) - 1\<rparr> else Hdr s x\<rparr>"
  have c: "KsiConsumeObjectSignals s ?xs (WaitType (Thr s t)) i = Some s1"
    using consume_signals [OF wait_wfD(3) [OF wf] i, of s "WaitType (Thr s t)"]
    by (simp add: s1_def consumed_def)
  have ty1: "is_mutant s1 x = is_mutant s x" for x
    by (simp add: s1_def)
  define s2 where "s2 = s1\<lparr>
      Hdr := \<lambda>x. if x \<in> set ?A \<and> is_mutant s x
        then (Hdr s1 x)\<lparr>MutantOwner := Some t, MutantListEntry := Some t\<rparr> else Hdr s1 x,
      Thr := (Thr s)(t := (Thr s t)\<lparr>MutantListHead := MutantListHead (Thr s t) @ filter (is_mutant s) ?A\<rparr>)\<rparr>"
  have fA: "filter (is_mutant s) ?xs = filter (is_mutant s) ?A"
  proof (cases "WaitType (Thr s t) = WaitAny")
    case True
    show ?thesis
    proof (cases "\<exists>x\<in>set ?xs. is_mutant s x")
      case m: True
      then have "?xs = [?xs ! 0]" "i = 0"
        using single [OF True m] i by (auto simp: length_Suc_conv)
      then show ?thesis
        using True by (simp add: consumed_def)
    next
      case False
      then show ?thesis
        using i True by (auto simp: consumed_def filter_empty_conv)
    qed
  qed (simp add: consumed_def)
  have A: "x \<in> set ?xs \<and> is_mutant s x \<longleftrightarrow> x \<in> set ?A \<and> is_mutant s x" for x
    using arg_cong [OF fA, of set] by auto
  have a: "assign_owners s1 t ?xs = Some s2"
  proof -
    have f: "MutantListEntry (Hdr s1 x) = None" if "x \<in> set ?xs" "is_mutant s1 x" for x
      using free [OF that(1) that(2) [unfolded ty1]] by (simp add: s1_def)
    have "Thr s1 = Thr s" by (simp add: s1_def)
    then show ?thesis
      using assign_owners [OF wait_wfD(3) [OF wf, of t] f, of t]
      by (simp add: s2_def ty1 A fA)
  qed
  define s3 where "s3 = upd_thr t (\<lambda>th. th\<lparr>WaitStatus := STATUS_SUCCESS,
      WaitBlock := (WaitBlock th)[i := (WaitBlock th ! i)\<lparr>WaitKey := of_nat i\<rparr>]\<rparr>) s2"
  have len: "length (WaitBlock (Thr s2 t)) = THREAD_WAIT_OBJECTS"
    using wait_wfD(1) [OF wf] by (simp add: s2_def)
  have b3: "blocks s3 u = blocks s u" for u
    by (simp add: s3_def s2_def s1_def blocks_WaitKey)
  have wo3: "wait_objects s3 u = wait_objects s u" for u
    using b3 [of u] by (simp add: wait_objects_def)
  have l3: "length (WaitBlock (Thr s3 u)) = length (WaitBlock (Thr s u))" for u
    using arg_cong [OF b3 [of u], of length] by simp
  have wf3: "wait_wf s3"
    using wf unfolding wait_wf_def wo3 b3 l3 by (simp add: s3_def s2_def s1_def)
  note rem = removed [OF wf3, where t = t]
  have "KsiSatisfyThreadWait s t i = Some (PtWakeThread (KsiRemoveThreadWaitBlocks s3 t) t)"
    using i wait_objects_le [OF wf, of t] len by (simp add: KsiSatisfyThreadWait_def c a s3_def upd_thr_def)
  moreover have "woken s t ?A (PtWakeThread (KsiRemoveThreadWaitBlocks s3 t) t)"
  proof -
    let ?r = "KsiRemoveThreadWaitBlocks s3 t"
    have st': "ThreadState (Thr ?r t) = Waiting"
      using st by (simp add: rem(3)) (simp add: s3_def s2_def)
    have p: "PtWakeThread ?r t = (upd_thr t (ThreadState_update (\<lambda>_. Ready)) ?r)\<lparr>RunQueue := RunQueue ?r @ [t]\<rparr>"
      using st' by (simp add: PtWakeThread_def)
    have h3: "Hdr s3 x = (Hdr s x)\<lparr>
        SignalState := (if x \<in> set ?A \<and> \<not> is_notification s x then SignalState (Hdr s x) - 1 else SignalState (Hdr s x)),
        MutantOwner := (if x \<in> set ?A \<and> is_mutant s x then Some t else MutantOwner (Hdr s x)),
        MutantListEntry := (if x \<in> set ?A \<and> is_mutant s x then Some t else MutantListEntry (Hdr s x))\<rparr>" for x
      by (simp add: s3_def s2_def s1_def)
    have wf': "wait_wf (PtWakeThread ?r t)"
      using rem(7) unfolding wait_wf_def wait_objects_def p by simp
    show ?thesis
      unfolding woken_def
    proof (intro conjI allI impI)
      show "wait_objects (PtWakeThread ?r t) u = (if u = t then [] else wait_objects s u)" for u
        using rem(6) [of u] wo3 [of u] by (auto simp: p wait_objects_def)
    qed (use wf' in \<open>simp_all add: p rem h3\<close>, simp_all add: s3_def s2_def s1_def)
  qed
  ultimately show ?thesis by blast
qed

section \<open>The invariant of the dispatcher\<close>

text \<open>What a waiting thread waits for has happened.\<close>

definition wait_satisfiable :: "DISPATCHER \<Rightarrow> tid \<Rightarrow> bool" where
  "wait_satisfiable s t \<longleftrightarrow> wait_objects s t \<noteq> [] \<and>
     (if WaitType (Thr s t) = WaitAny then \<exists>x\<in>set (wait_objects s t). signaled s x
      else \<forall>x\<in>set (wait_objects s t). signaled s x)"

definition signals_ok :: "DISPATCHER \<Rightarrow> bool" where
  "signals_ok s \<longleftrightarrow> (\<forall>x. 0 \<le> sint (SignalState (Hdr s x))) \<and>
     (\<forall>x. ObjectType (Hdr s x) = SemaphoreObject \<longrightarrow> sint (SignalState (Hdr s x)) \<le> sint (Limit (Hdr s x)))"

text \<open>A mutant is signaled exactly when nobody owns it, and is in the list of its owner.\<close>

definition mutants_ok :: "DISPATCHER \<Rightarrow> bool" where
  "mutants_ok s \<longleftrightarrow>
     (\<forall>x. is_mutant s x \<longrightarrow> SignalState (Hdr s x) = (if MutantOwner (Hdr s x) = None then 1 else 0) \<and>
        MutantListEntry (Hdr s x) = MutantOwner (Hdr s x)) \<and>
     (\<forall>x. \<not> is_mutant s x \<longrightarrow> MutantListEntry (Hdr s x) = None) \<and>
     (\<forall>x t. x \<in> set (MutantListHead (Thr s t)) \<longleftrightarrow> MutantListEntry (Hdr s x) = Some t) \<and>
     (\<forall>t. distinct (MutantListHead (Thr s t)))"

definition queue_ok :: "DISPATCHER \<Rightarrow> bool" where
  "queue_ok s \<longleftrightarrow> distinct (RunQueue s) \<and>
     (\<forall>t. t \<in> set (RunQueue s) \<longleftrightarrow> ThreadState (Thr s t) = Ready) \<and>
     (\<forall>t. ThreadState (Thr s t) \<noteq> Waiting \<longrightarrow> wait_objects s t = []) \<and>
     (\<forall>t. ThreadState (Thr s t) = Running \<longrightarrow> Current s = Some t)"

text \<open>Nobody waits for a mutant together with alternatives.\<close>

definition waits_ok :: "DISPATCHER \<Rightarrow> bool" where
  "waits_ok s \<longleftrightarrow> (\<forall>t. WaitType (Thr s t) = WaitAny \<longrightarrow>
     (\<exists>x\<in>set (wait_objects s t). is_mutant s x) \<longrightarrow> length (wait_objects s t) = 1)"

definition ks_core :: "DISPATCHER \<Rightarrow> bool" where
  "ks_core s \<longleftrightarrow> wait_wf s \<and> signals_ok s \<and> mutants_ok s \<and> queue_ok s \<and> waits_ok s"

definition ks_inv :: "DISPATCHER \<Rightarrow> bool" where
  "ks_inv s \<longleftrightarrow> ks_core s \<and> (\<forall>t. \<not> wait_satisfiable s t)"

lemma ks_coreD:
  assumes "ks_core s"
  shows "wait_wf s" "signals_ok s" "mutants_ok s" "queue_ok s" "waits_ok s"
  using assms by (simp_all add: ks_core_def)

lemma sint_pred: "0 < sint (w :: u32) \<Longrightarrow> sint (w - 1) = sint w - 1"
proof -
  assume "0 < sint w"
  then have "signed_take_bit 31 (sint w - 1) = sint w - 1"
    using sint_lt [of w] by (intro signed_take_bit_int_eq_self) simp_all
  then show ?thesis
    by (simp add: sint_word_ariths)
qed

lemma wokenD:
  assumes "woken s t A s'"
  shows "Hdr s' x = (Hdr s x)\<lparr>
        SignalState := (if x \<in> set A \<and> \<not> is_notification s x then SignalState (Hdr s x) - 1 else SignalState (Hdr s x)),
        WaitListHead := filter (\<lambda>b. fst b \<noteq> t) (WaitListHead (Hdr s x)),
        MutantOwner := (if x \<in> set A \<and> is_mutant s x then Some t else MutantOwner (Hdr s x)),
        MutantListEntry := (if x \<in> set A \<and> is_mutant s x then Some t else MutantListEntry (Hdr s x))\<rparr>"
    "u \<noteq> t \<Longrightarrow> Thr s' u = Thr s u"
    "ThreadState (Thr s' t) = Ready" "WaitStatus (Thr s' t) = STATUS_SUCCESS"
    "WaitType (Thr s' t) = WaitType (Thr s t)"
    "MutantListHead (Thr s' t) = MutantListHead (Thr s t) @ filter (is_mutant s) A"
    "Current s' = Current s" "RunQueue s' = RunQueue s @ [t]"
    "wait_objects s' u = (if u = t then [] else wait_objects s u)" "wait_wf s'"
  using assms unfolding woken_def by (simp_all only: simp_thms)

lemma woken_type [simp]:
  assumes "woken s t A s'"
  shows "ObjectType (Hdr s' x) = ObjectType (Hdr s x)" "KsiIsNotificationObject (Hdr s' x) = is_notification s x"
  by (simp_all add: wokenD(1) [OF assms] KsiIsNotificationObject_def)

text \<open>Giving signaled objects \<open>A\<close> to a thread keeps the signals and the mutants in order.\<close>

definition given :: "DISPATCHER \<Rightarrow> tid \<Rightarrow> obj list \<Rightarrow> DISPATCHER \<Rightarrow> bool" where
  "given s t A s' \<longleftrightarrow> (\<forall>x. ObjectType (Hdr s' x) = ObjectType (Hdr s x) \<and> Limit (Hdr s' x) = Limit (Hdr s x) \<and>
        SignalState (Hdr s' x) = (if x \<in> set A \<and> \<not> is_notification s x then SignalState (Hdr s x) - 1 else SignalState (Hdr s x)) \<and>
        MutantOwner (Hdr s' x) = (if x \<in> set A \<and> is_mutant s x then Some t else MutantOwner (Hdr s x)) \<and>
        MutantListEntry (Hdr s' x) = (if x \<in> set A \<and> is_mutant s x then Some t else MutantListEntry (Hdr s x))) \<and>
     (\<forall>u. MutantListHead (Thr s' u) =
        (if u = t then MutantListHead (Thr s t) @ filter (is_mutant s) A else MutantListHead (Thr s u)))"

lemma givenD:
  assumes "given s t A s'"
  shows "ObjectType (Hdr s' x) = ObjectType (Hdr s x)" "Limit (Hdr s' x) = Limit (Hdr s x)"
    "SignalState (Hdr s' x) = (if x \<in> set A \<and> \<not> is_notification s x then SignalState (Hdr s x) - 1 else SignalState (Hdr s x))"
    "MutantOwner (Hdr s' x) = (if x \<in> set A \<and> is_mutant s x then Some t else MutantOwner (Hdr s x))"
    "MutantListEntry (Hdr s' x) = (if x \<in> set A \<and> is_mutant s x then Some t else MutantListEntry (Hdr s x))"
    "MutantListHead (Thr s' u) =
        (if u = t then MutantListHead (Thr s t) @ filter (is_mutant s) A else MutantListHead (Thr s u))"
  using assms unfolding given_def by (simp_all only: simp_thms)

lemma given_signals: "given s t A s' \<Longrightarrow> signals_ok s \<Longrightarrow> \<forall>y\<in>set A. signaled s y \<Longrightarrow> signals_ok s'"
  by (auto simp: signals_ok_def givenD signaled_def sint_pred)

lemma given_signaled: "given s t A s' \<Longrightarrow> \<forall>y\<in>set A. signaled s y \<Longrightarrow> signaled s' x \<Longrightarrow> signaled s x"
  by (cases "x \<in> set A") (auto simp: signaled_def givenD)

lemma given_mutants:
  assumes g: "given s t A s'" and m: "mutants_ok s" and A: "distinct A" "\<forall>y\<in>set A. signaled s y"
  shows "mutants_ok s'"
proof -
  note G = givenD [OF g]
  have own: "MutantListEntry (Hdr s x) = None" "MutantOwner (Hdr s x) = None" "SignalState (Hdr s x) = 1"
    if "x \<in> set A" "is_mutant s x" for x
    using that A(2) m by (force simp: mutants_ok_def signaled_def split: if_splits)+
  have nn: "\<not> is_notification s x" if "is_mutant s x" for x
    using that by (simp add: KsiIsNotificationObject_def)
  show ?thesis
    unfolding mutants_ok_def
  proof (intro conjI allI impI)
    fix x
    assume "is_mutant s' x"
    then show "SignalState (Hdr s' x) = (if MutantOwner (Hdr s' x) = None then 1 else 0)"
      "MutantListEntry (Hdr s' x) = MutantOwner (Hdr s' x)"
      using m own [of x] nn [of x] by (auto simp: mutants_ok_def G(1,3-5))
  next
    fix x
    assume "\<not> is_mutant s' x"
    then show "MutantListEntry (Hdr s' x) = None"
      using m by (auto simp: mutants_ok_def G(1,5))
  next
    fix x u
    show "x \<in> set (MutantListHead (Thr s' u)) \<longleftrightarrow> MutantListEntry (Hdr s' x) = Some u"
      using m own [of x] by (auto simp: mutants_ok_def G(5,6))
  next
    fix u
    show "distinct (MutantListHead (Thr s' u))"
      using m own A(1) by (auto simp: mutants_ok_def G(6))
  qed
qed

lemma woken_given: "woken s t A s' \<Longrightarrow> given s t A s'"
  by (simp add: given_def wokenD(1,2,6))

lemma woken_signaled:
  assumes "woken s t A s'" "\<forall>y\<in>set A. signaled s y" "signaled s' x"
  shows "signaled s x"
  by (rule given_signaled [OF woken_given [OF assms(1)] assms(2,3)])

lemma woken_unsat:
  assumes "woken s t A s'" "\<forall>y\<in>set A. signaled s y" "wait_satisfiable s' u"
  shows "u \<noteq> t \<and> wait_satisfiable s u"
proof -
  have u: "u \<noteq> t"
    using assms(3) by (auto simp: wait_satisfiable_def wokenD(9) [OF assms(1)])
  then show ?thesis
    using assms(3) woken_signaled [OF assms(1,2)]
    by (auto simp: wait_satisfiable_def wokenD(9) [OF assms(1)] wokenD(2) [OF assms(1)] split: if_splits)
qed

lemma woken_core:
  assumes w: "woken s t A s'" and core: "ks_core s" and A: "distinct A" "\<forall>y\<in>set A. signaled s y"
    and st: "ThreadState (Thr s t) = Waiting"
  shows "ks_core s'"
proof -
  note W = wokenD [OF w]
  have "queue_ok s'"
    unfolding queue_ok_def
  proof (intro conjI allI impI)
    show "distinct (RunQueue s')"
      using ks_coreD(4) [OF core] st by (auto simp: queue_ok_def W(8))
  next
    fix u
    show "u \<in> set (RunQueue s') \<longleftrightarrow> ThreadState (Thr s' u) = Ready"
      using ks_coreD(4) [OF core] st W(2) [of u] by (cases "u = t") (simp_all add: queue_ok_def W(3,8))
    show "Current s' = Some u" if "ThreadState (Thr s' u) = Running"
      using ks_coreD(4) [OF core] st that W(2) [of u] by (cases "u = t") (simp_all add: queue_ok_def W(3,7))
    show "wait_objects s' u = []" if "ThreadState (Thr s' u) \<noteq> Waiting"
      using ks_coreD(4) [OF core] that W(2) [of u] by (cases "u = t") (simp_all add: queue_ok_def W(9))
  qed
  moreover have "waits_ok s'"
    unfolding waits_ok_def
  proof (intro allI impI)
    fix u
    assume "WaitType (Thr s' u) = WaitAny" "\<exists>x\<in>set (wait_objects s' u). is_mutant s' x"
    then show "length (wait_objects s' u) = 1"
      using ks_coreD(5) [OF core] W(2) [of u] w by (cases "u = t") (simp_all add: waits_ok_def W(9))
  qed
  ultimately show ?thesis
    using W(10) given_signals [OF woken_given [OF w] ks_coreD(2) [OF core] A(2)]
      given_mutants [OF woken_given [OF w] ks_coreD(3) [OF core] A] by (simp add: ks_core_def)
qed

lemma find_index_Some:
  "find_index ys x i = Some k \<Longrightarrow> i \<le> k \<and> k - i < length ys \<and> ys ! (k - i) = Some x"
proof (induction ys arbitrary: i)
  case (Cons y ys)
  show ?case
  proof (cases "y = Some x")
    case False
    with Cons.prems have "find_index ys x (Suc i) = Some k" by simp
    from Cons.IH [OF this] show ?thesis
      by (simp add: nth_Cons' Suc_le_eq) (metis Suc_diff_Suc Suc_le_eq diff_Suc_1' less_Suc_eq_le nat_less_le zero_less_diff)
  qed (use Cons.prems in simp)
qed simp

lemma find_index_None: "find_index ys x i = None \<longleftrightarrow> Some x \<notin> set ys"
  by (induction ys arbitrary: i) auto

text \<open>A thread that is found satisfied is woken, and the core of the invariant is kept.\<close>

lemma satisfied_wakes:
  assumes core: "ks_core s" and x: "signaled s x" and i: "waiter_index s x t = Some i"
  shows "\<exists>s'. KsiSatisfyThreadWait s t i = Some s' \<and> woken s t (consumed s t i) s' \<and> ks_core s' \<and>
    (\<forall>y\<in>set (consumed s t i). signaled s y) \<and>
    (WaitType (Thr s t) = WaitAny \<longrightarrow> i < length (wait_objects s t) \<and> wait_objects s t ! i = x)"
proof -
  let ?xs = "wait_objects s t"
  note wf = ks_coreD(1) [OF core]
  have st: "ThreadState (Thr s t) = Waiting" and sat: "KsiThreadWaitIsSatisfied s t x = Some i"
    using i by (simp_all add: waiter_index_def split: if_splits)
  have any: "i < length ?xs \<and> ?xs ! i = x" if "WaitType (Thr s t) = WaitAny"
  proof -
    have "find_index (blocks s t) x 0 = Some i"
      using sat that by (simp add: KsiThreadWaitIsSatisfied_def)
    from find_index_Some [OF this] have "i < THREAD_WAIT_OBJECTS" "blocks s t ! i = Some x"
      using wait_wfD(1) [OF wf, of t] by simp_all
    then have "block_object s t i = Some x"
      using wait_wfD(1) [OF wf, of t] by (simp add: block_object_def)
    then show ?thesis
      using block_object_nth [OF wf \<open>i < THREAD_WAIT_OBJECTS\<close>, of t] by (simp split: if_splits)
  qed
  have all: "i = 0 \<and> ?xs \<noteq> [] \<and> (\<forall>y\<in>set ?xs. signaled s y)" if "WaitType (Thr s t) \<noteq> WaitAny"
    using sat that by (auto simp: KsiThreadWaitIsSatisfied_def list_all_iff split: if_splits)
  have il: "i < length ?xs"
    using any all by (cases "WaitType (Thr s t) = WaitAny") auto
  have sig: "\<forall>y\<in>set (consumed s t i). signaled s y"
    using any all x by (cases "WaitType (Thr s t) = WaitAny") (auto simp: consumed_def)
  have single: "length ?xs = 1" if "WaitType (Thr s t) = WaitAny" "\<exists>x\<in>set ?xs. is_mutant s x"
    using ks_coreD(5) [OF core] that by (simp add: waits_ok_def)
  have free: "MutantListEntry (Hdr s y) = None" if y: "y \<in> set ?xs" "is_mutant s y" for y
  proof -
    have "signaled s y"
    proof (cases "WaitType (Thr s t) = WaitAny")
      case True
      then have "length ?xs = 1" using single y by blast
      then have "?xs = [x]" using any [OF True] by (auto simp: length_Suc_conv)
      then show ?thesis using y x by simp
    qed (use all y in blast)
    then show ?thesis
      using ks_coreD(3) [OF core] y(2) by (force simp: mutants_ok_def signaled_def split: if_splits)
  qed
  obtain s' where s': "KsiSatisfyThreadWait s t i = Some s'" "woken s t (consumed s t i) s'"
    using satisfy_woken [OF wf il st free single] by blast
  have "distinct (consumed s t i)"
    using wait_wfD(3) [OF wf, of t] by (simp add: consumed_def)
  from woken_core [OF s'(2) core this sig st] show ?thesis
    using s' sig any by blast
qed

section \<open>The wait test\<close>

lemma flink_here: "b \<notin> set pre \<Longrightarrow> flink (pre @ b # ys) b = list_first ys"
  by (induction pre) (auto simp: list_first_def split: list.splits)

lemma list_first_simps [simp]: "list_first [] = None" "list_first (y # ys) = Some y"
  by (simp_all add: list_first_def)

lemma loop_None [simp]: "wait_test_loop x N s None = Some s"
  by (subst wait_test_loop.simps) simp

lemma loop_skip: "waiter_index s x (fst b) = None \<Longrightarrow>
    wait_test_loop x N s (Some b) = wait_test_loop x N s (flink (WaitListHead (Hdr s x)) b)"
  by (subst wait_test_loop.simps) simp

lemma loop_wake: "waiter_index s x (fst b) = Some i \<Longrightarrow> KsiSatisfyThreadWait s (fst b) i = Some s' \<Longrightarrow>
    wait_test_loop x N s (Some b) =
      (if \<not> N \<and> \<not> signaled s' x then Some s' else wait_test_loop x N s' (flink (WaitListHead (Hdr s x)) b))"
  by (subst wait_test_loop.simps) simp

lemma waiting_once:
  assumes "wait_wf s"
  shows "distinct (map fst (WaitListHead (Hdr s x)))"
proof -
  have "inj_on fst (set (WaitListHead (Hdr s x)))"
  proof (rule inj_onI)
    fix a b
    assume ab: "a \<in> set (WaitListHead (Hdr s x))" "b \<in> set (WaitListHead (Hdr s x))" "fst a = fst b"
    obtain t i j where p: "a = (t, i)" "b = (t, j)"
      using ab(3) by (metis prod.collapse)
    have "i < length (wait_objects s t)" "j < length (wait_objects s t)"
      "wait_objects s t ! i = wait_objects s t ! j"
      using ab p wait_wfD(5) [OF assms] by auto
    then show "a = b"
      using p nth_eq_iff_index_eq [OF wait_wfD(3) [OF assms, of t]] by simp
  qed
  then show ?thesis
    using wait_wfD(4) [OF assms, of x] by (simp add: distinct_map)
qed

lemma in_wait_list:
  "wait_wf s \<Longrightarrow> b \<in> set (WaitListHead (Hdr s x)) \<Longrightarrow> x \<in> set (wait_objects s (fst b))"
  using wait_wfD(5) [of s "fst b" "snd b" x] by auto

lemma waits_in_list:
  "wait_wf s \<Longrightarrow> x \<in> set (wait_objects s t) \<Longrightarrow> t \<in> fst ` set (WaitListHead (Hdr s x))"
proof -
  assume wf: "wait_wf s" and "x \<in> set (wait_objects s t)"
  then obtain i where "i < length (wait_objects s t)" "wait_objects s t ! i = x"
    by (auto simp: in_set_conv_nth)
  then have "(t, i) \<in> set (WaitListHead (Hdr s x))"
    using wait_wfD(5) [OF wf, of t i x] by simp
  from imageI [OF this, of fst] show ?thesis
    by simp
qed

lemma skipped_unsat:
  assumes "ks_core s" "b \<in> set (WaitListHead (Hdr s x))" "waiter_index s x (fst b) = None"
  shows "\<not> wait_satisfiable s (fst b)"
proof -
  let ?t = "fst b"
  note wf = ks_coreD(1) [OF assms(1)]
  have x: "x \<in> set (wait_objects s ?t)"
    by (rule in_wait_list [OF wf assms(2)])
  then have st: "ThreadState (Thr s ?t) = Waiting"
    using ks_coreD(4) [OF assms(1)] by (force simp: queue_ok_def)
  have "Some x \<in> set (blocks s ?t)"
    using x by (simp add: wait_wfD(2) [OF wf, of ?t] del: set_map list.set_map) (auto simp: image_iff)
  then show ?thesis
    using assms(3) st x
    by (auto simp: waiter_index_def KsiThreadWaitIsSatisfied_def find_index_None wait_satisfiable_def
        list_all_iff split: if_splits)
qed

text \<open>
  The loop ends and leaves no satisfiable wait behind, when the waits that are not in the
  rest \<open>ys\<close> of the list cannot be satisfied and those in it have no other alternative.
\<close>

lemma wait_test_loop_inv:
  assumes "ks_core s" "WaitListHead (Hdr s x) = pre @ ys" "signaled s x"
    and "\<forall>u. u \<notin> fst ` set ys \<longrightarrow> \<not> wait_satisfiable s u"
    and "\<forall>u\<in>fst ` set ys. WaitType (Thr s u) = WaitAny \<longrightarrow>
      (\<forall>y\<in>set (wait_objects s u). y \<noteq> x \<longrightarrow> \<not> signaled s y)"
  shows "\<exists>s'. wait_test_loop x (is_notification s x) s (list_first ys) = Some s' \<and> ks_inv s' \<and> Current s' = Current s"
  using assms
proof (induction ys arbitrary: s pre)
  case Nil
  then show ?case by (simp add: ks_inv_def)
next
  case (Cons b ys)
  let ?t = "fst b" and ?N = "is_notification s x"
  note wf = ks_coreD(1) [OF Cons.prems(1)]
  have d: "distinct (pre @ b # ys)" "?t \<notin> fst ` set ys" "?t \<notin> fst ` set pre"
    using wait_wfD(4) [OF wf, of x] waiting_once [OF wf, of x] by (auto simp: Cons.prems(2))
  have fl: "flink (WaitListHead (Hdr s x)) b = list_first ys"
    using d(1) by (simp add: Cons.prems(2) flink_here)
  have b_in: "b \<in> set (WaitListHead (Hdr s x))"
    by (simp add: Cons.prems(2))
  show ?case
  proof (cases "waiter_index s x ?t")
    case None
    have "\<not> wait_satisfiable s ?t"
      by (rule skipped_unsat [OF Cons.prems(1) b_in None])
    then have "\<forall>u. u \<notin> fst ` set ys \<longrightarrow> \<not> wait_satisfiable s u"
      using Cons.prems(4) by auto
    then show ?thesis
      using Cons.IH [OF Cons.prems(1), of "pre @ [b]"] Cons.prems(2,3,5)
      by (simp add: loop_skip [OF None] fl [unfolded Cons.prems(2)])
  next
    case (Some i)
    obtain s' where s': "KsiSatisfyThreadWait s ?t i = Some s'" and w: "woken s ?t (consumed s ?t i) s'"
      and core: "ks_core s'" and sig: "\<forall>y\<in>set (consumed s ?t i). signaled s y"
      using satisfied_wakes [OF Cons.prems(1,3) Some] by blast
    note W = wokenD [OF w]
    have "\<forall>c\<in>set ys. fst c \<noteq> ?t"
      using d(2) by (metis imageI)
    then have list: "WaitListHead (Hdr s' x) = filter (\<lambda>c. fst c \<noteq> ?t) pre @ ys"
      by (simp add: W(1) Cons.prems(2))
    have others: "\<forall>u. u \<notin> fst ` set ys \<longrightarrow> \<not> wait_satisfiable s' u"
      using woken_unsat [OF w sig] Cons.prems(4) by auto
    have alts: "\<forall>u\<in>fst ` set ys. WaitType (Thr s' u) = WaitAny \<longrightarrow>
        (\<forall>y\<in>set (wait_objects s' u). y \<noteq> x \<longrightarrow> \<not> signaled s' y)"
    proof (intro ballI impI)
      fix u y
      assume u: "u \<in> fst ` set ys" and ty: "WaitType (Thr s' u) = WaitAny"
        and y: "y \<in> set (wait_objects s' u)" and yx: "y \<noteq> x"
      have "u \<noteq> ?t" using u d(2) by blast
      then have "WaitType (Thr s u) = WaitAny" "y \<in> set (wait_objects s u)"
        using ty y by (simp_all add: W(2,9))
      moreover have "u \<in> fst ` set (b # ys)"
        using u by simp
      ultimately have "\<not> signaled s y"
        using Cons.prems(5) yx by blast
      then show "\<not> signaled s' y"
        using woken_signaled [OF w sig] by blast
    qed
    show ?thesis
    proof (cases "signaled s' x")
      case True
      have "\<exists>s''. wait_test_loop x (is_notification s' x) s' (list_first ys) = Some s'' \<and> ks_inv s'' \<and> Current s'' = Current s'"
        by (rule Cons.IH [OF core list True others alts])
      then show ?thesis
        using True W(7) by (simp add: loop_wake [OF Some s'] fl woken_type [OF w])
    next
      case False
      have N: "\<not> ?N"
      proof
        assume "?N"
        then have "SignalState (Hdr s' x) = SignalState (Hdr s x)" by (simp add: W(1))
        then show False using Cons.prems(3) False by (simp add: signaled_def)
      qed
      have "\<not> wait_satisfiable s' u" for u
      proof (cases "u \<in> fst ` set ys")
        case True
        then have x: "x \<in> set (wait_objects s' u)"
          using in_wait_list [OF ks_coreD(1) [OF core], of _ x] list by auto
        then show ?thesis
          using alts True False by (auto simp: wait_satisfiable_def)
      qed (use others in blast)
      then show ?thesis
        using False N core W(7) by (simp add: loop_wake [OF Some s'] ks_inv_def)
    qed
  qed
qed

lemma KsWaitTest_inv:
  assumes "ks_core s" "signaled s x"
    and "\<And>u. x \<notin> set (wait_objects s u) \<Longrightarrow> \<not> wait_satisfiable s u"
    and "\<And>u y. WaitType (Thr s u) = WaitAny \<Longrightarrow> x \<in> set (wait_objects s u) \<Longrightarrow>
      y \<in> set (wait_objects s u) \<Longrightarrow> y \<noteq> x \<Longrightarrow> \<not> signaled s y"
  shows "\<exists>s'. KsWaitTest s (Some x) = Some s' \<and> ks_inv s' \<and> Current s' = Current s"
proof -
  note wf = ks_coreD(1) [OF assms(1)]
  have "\<exists>s'. wait_test_loop x (is_notification s x) s (list_first (WaitListHead (Hdr s x))) = Some s' \<and> ks_inv s' \<and> Current s' = Current s"
  proof (rule wait_test_loop_inv [where pre = "[]"])
    show "\<forall>u. u \<notin> fst ` set (WaitListHead (Hdr s x)) \<longrightarrow> \<not> wait_satisfiable s u"
      using assms(3) waits_in_list [OF wf] by blast
    show "\<forall>u\<in>fst ` set (WaitListHead (Hdr s x)). WaitType (Thr s u) = WaitAny \<longrightarrow>
        (\<forall>y\<in>set (wait_objects s u). y \<noteq> x \<longrightarrow> \<not> signaled s y)"
      using assms(4) in_wait_list [OF wf] by blast
  qed (use assms(1,2) in simp_all)
  then show ?thesis
    by (simp add: KsWaitTest_def)
qed

end
