(* ===== verification/KsDispatch.thy ===== *)
theory KsDispatch
  imports KsWait
begin

text \<open>
  The dispatcher as a whole: the contract between the wait engine of \<open>wait.c\<close> and the
  dispatcher objects (locale \<open>dispatcher_object\<close>, interpreted on events, semaphores and
  mutants), the invariant every operation keeps, the reachable states, the properties of
  waiting, and the ways in which it goes wrong. The reachable states are those of
  \<open>ks_step\<close>, which leaves out three things the code accepts; the last section shows what
  they do.
\<close>

section \<open>The contract of the dispatcher objects\<close>

text \<open>
  What a kind of object promises the wait engine when it is released: the release makes
  the object signaled and touches no other object's signal and no wait.
\<close>

locale dispatcher_object =
  fixes releasable :: "DISPATCHER \<Rightarrow> obj \<Rightarrow> bool"
    and raise_signal :: "DISPATCHER \<Rightarrow> obj \<Rightarrow> DISPATCHER"
  assumes raise_core: "ks_core s \<Longrightarrow> releasable s x \<Longrightarrow> ks_core (raise_signal s x)"
    and raise_signaled: "ks_core s \<Longrightarrow> releasable s x \<Longrightarrow> signaled (raise_signal s x) x"
    and raise_others: "y \<noteq> x \<Longrightarrow> signaled (raise_signal s x) y = signaled s y"
    and raise_waits: "wait_objects (raise_signal s x) u = wait_objects s u"
      "WaitType (Thr (raise_signal s x) u) = WaitType (Thr s u)"
    and raise_current: "Current (raise_signal s x) = Current s"
begin

definition release :: "DISPATCHER \<Rightarrow> obj \<Rightarrow> DISPATCHER option" where
  "release s x =
     (if \<not> signaled s x \<and> WaitListHead (Hdr s x) \<noteq> [] then KsWaitTest (raise_signal s x) (Some x)
      else Some (raise_signal s x))"

lemma unsat_elsewhere:
  "x \<notin> set (wait_objects s u) \<Longrightarrow> wait_satisfiable (raise_signal s x) u \<longleftrightarrow> wait_satisfiable s u"
proof -
  assume "x \<notin> set (wait_objects s u)"
  then have "\<forall>y\<in>set (wait_objects s u). signaled (raise_signal s x) y = signaled s y"
    using raise_others by metis
  then show ?thesis
    by (simp add: wait_satisfiable_def raise_waits)
qed

lemma release_inv:
  assumes "ks_inv s" "releasable s x"
  shows "\<exists>s'. release s x = Some s' \<and> ks_inv s' \<and> Current s' = Current s"
proof -
  let ?s = "raise_signal s x"
  have core: "ks_core s" and unsat: "\<And>u. \<not> wait_satisfiable s u"
    using assms(1) by (simp_all add: ks_inv_def)
  show ?thesis
  proof (cases "\<not> signaled s x \<and> WaitListHead (Hdr s x) \<noteq> []")
    case True
    have "\<exists>s'. KsWaitTest ?s (Some x) = Some s' \<and> ks_inv s' \<and> Current s' = Current ?s"
    proof (rule KsWaitTest_inv [OF raise_core [OF core assms(2)] raise_signaled [OF core assms(2)]])
      show "\<not> wait_satisfiable ?s u" if "x \<notin> set (wait_objects ?s u)" for u
        using that unsat unsat_elsewhere by (simp add: raise_waits)
      show "\<not> signaled ?s y" if "WaitType (Thr ?s u) = WaitAny" "x \<in> set (wait_objects ?s u)"
        "y \<in> set (wait_objects ?s u)" "y \<noteq> x" for u y
        using that unsat [of u] by (force simp: raise_waits raise_others wait_satisfiable_def)
    qed
    then show ?thesis
      using True by (simp add: release_def raise_current)
  next
    case False
    have "\<not> wait_satisfiable ?s u" for u
    proof (cases "signaled s x")
      case True
      then have "signaled ?s y = signaled s y" for y
        using raise_signaled [OF core assms(2)] raise_others by (cases "y = x") auto
      then show ?thesis
        using unsat [of u] by (auto simp: wait_satisfiable_def raise_waits split: if_splits)
    next
      case n: False
      with False have "x \<notin> set (wait_objects s u)"
        using waits_in_list [OF ks_coreD(1) [OF core], of x u] by auto
      then show ?thesis
        using unsat unsat_elsewhere by simp
    qed
    then show ?thesis
      using False raise_core [OF core assms(2)] by (auto simp: release_def ks_inv_def raise_current)
  qed
qed

end

lemma wait_objects_upd_hdr [simp]: "wait_objects (upd_hdr x f s) u = wait_objects s u"
  by (simp add: wait_objects_def)

lemma signaled_upd_other [simp]: "y \<noteq> x \<Longrightarrow> signaled (upd_hdr x f s) y = signaled s y"
  by (simp add: signaled_def)

text \<open>A header update that leaves the wait list alone keeps the structure.\<close>

lemma wait_wf_upd_hdr:
  "WaitListHead (f (Hdr s x)) = WaitListHead (Hdr s x) \<Longrightarrow> wait_wf (upd_hdr x f s) = wait_wf s"
proof -
  assume "WaitListHead (f (Hdr s x)) = WaitListHead (Hdr s x)"
  then have "WaitListHead (Hdr (upd_hdr x f s) y) = WaitListHead (Hdr s y)" for y
    by simp
  then show ?thesis
    by (simp only: wait_wf_def wait_objects_upd_hdr upd_sel(2))
qed

lemma core_set_signal:
  assumes "ks_core s" "\<not> is_mutant s x" "0 \<le> sint v"
    and "ObjectType (Hdr s x) = SemaphoreObject \<Longrightarrow> sint v \<le> sint (Limit (Hdr s x))"
  shows "ks_core (set_signal x v s)"
  using assms
  by (auto simp: ks_core_def set_signal_def wait_wf_upd_hdr signals_ok_def mutants_ok_def queue_ok_def waits_ok_def)

definition is_event :: "DISPATCHER \<Rightarrow> obj \<Rightarrow> bool" where
  "is_event s x \<longleftrightarrow> ObjectType (Hdr s x) \<in> {EventNotificationObject, EventSynchronizationObject}"

definition sem_releasable :: "u32 \<Rightarrow> DISPATCHER \<Rightarrow> obj \<Rightarrow> bool" where
  "sem_releasable Adjustment s x \<longleftrightarrow> ObjectType (Hdr s x) = SemaphoreObject \<and>
     sint (SignalState (Hdr s x)) < sint (SignalState (Hdr s x) + Adjustment) \<and>
     sint (SignalState (Hdr s x) + Adjustment) \<le> sint (Limit (Hdr s x))"

definition mutant_releasable :: "DISPATCHER \<Rightarrow> obj \<Rightarrow> bool" where
  "mutant_releasable s x \<longleftrightarrow> is_mutant s x \<and> MutantOwner (Hdr s x) \<noteq> None"

definition mutant_raise :: "DISPATCHER \<Rightarrow> obj \<Rightarrow> DISPATCHER" where
  "mutant_raise s x = upd_hdr x (\<lambda>h. h\<lparr>MutantOwner := None, SignalState := 1\<rparr>) (unlink_mutant x s)"

interpretation event: dispatcher_object is_event "\<lambda>s x. set_signal x 1 s"
proof unfold_locales
  show "ks_core (set_signal x 1 s)" if "ks_core s" "is_event s x" for s x
    using that by (intro core_set_signal) (auto simp: is_event_def)
qed (simp_all add: set_signal_def signaled_def wait_objects_def)

interpretation semaphore: dispatcher_object "sem_releasable n"
    "\<lambda>s x. set_signal x (SignalState (Hdr s x) + n) s" for n
proof unfold_locales
  show "ks_core (set_signal x (SignalState (Hdr s x) + n) s)" if "ks_core s" "sem_releasable n s x" for s x
    using that ks_coreD(2) [OF that(1)]
    by (intro core_set_signal) (auto simp: sem_releasable_def signals_ok_def intro: order_trans less_imp_le)
  show "signaled (set_signal x (SignalState (Hdr s x) + n) s) x" if "ks_core s" "sem_releasable n s x" for s x
    using that ks_coreD(2) [OF that(1)]
    by (auto simp: sem_releasable_def signals_ok_def set_signal_def signaled_def intro: le_less_trans)
qed (simp_all add: set_signal_def signaled_def wait_objects_def)

lemma mutant_raise_core:
  assumes core: "ks_core s" and x: "mutant_releasable s x"
  shows "ks_core (mutant_raise s x)"
proof -
  obtain t where own: "MutantOwner (Hdr s x) = Some t" and m: "is_mutant s x"
    using x by (auto simp: mutant_releasable_def)
  have e: "MutantListEntry (Hdr s x) = Some t"
    using ks_coreD(3) [OF core] own m by (simp add: mutants_ok_def)
  have r: "mutant_raise s x = upd_hdr x (\<lambda>h. h\<lparr>MutantOwner := None, SignalState := 1\<rparr>)
      (upd_hdr x (MutantListEntry_update (\<lambda>_. None)) (upd_thr t (MutantListHead_update (remove1 x)) s))"
    by (simp add: mutant_raise_def unlink_mutant_def e)
  have wo: "wait_objects (mutant_raise s x) u = wait_objects s u" for u
    by (simp add: r) (simp add: wait_objects_def)
  have "wait_wf (mutant_raise s x)"
    using ks_coreD(1) [OF core] unfolding wait_wf_def wo by (simp add: r)
  moreover have "signals_ok (mutant_raise s x)"
    using ks_coreD(2) [OF core] m by (auto simp: r signals_ok_def)
  moreover have "queue_ok (mutant_raise s x)"
    using ks_coreD(4) [OF core] unfolding queue_ok_def wo by (simp add: r)
  moreover have "waits_ok (mutant_raise s x)"
  proof -
    have "is_mutant (mutant_raise s x) y = is_mutant s y"
      "WaitType (Thr (mutant_raise s x) u) = WaitType (Thr s u)" for y u
      by (simp_all add: r)
    then show ?thesis
      using ks_coreD(5) [OF core] by (simp add: waits_ok_def wo)
  qed
  moreover have "mutants_ok (mutant_raise s x)"
    using ks_coreD(3) [OF core] m e
    by (auto simp: r mutants_ok_def)
  ultimately show ?thesis
    by (simp add: ks_core_def)
qed

interpretation mutant: dispatcher_object mutant_releasable mutant_raise
proof unfold_locales
  show "ks_core (mutant_raise s x)" if "ks_core s" "mutant_releasable s x" for s x
    by (rule mutant_raise_core [OF that])
  show "signaled (mutant_raise s x) y = signaled s y" if "y \<noteq> x" for s x y
    using that by (simp add: mutant_raise_def unlink_mutant_def signaled_def split: option.splits)
qed (auto simp: mutant_raise_def unlink_mutant_def signaled_def wait_objects_def split: option.splits)

section \<open>The operations keep the invariant\<close>

lemma ks_inv_frame:
  assumes "Hdr s' = Hdr s" "RunQueue s' = RunQueue s" "Current s' = Current s"
    and "\<And>u. blocks s' u = blocks s u" "\<And>u. ThreadState (Thr s' u) = ThreadState (Thr s u)"
    and "\<And>u. WaitType (Thr s' u) = WaitType (Thr s u)" "\<And>u. MutantListHead (Thr s' u) = MutantListHead (Thr s u)"
  shows "ks_inv s' \<longleftrightarrow> ks_inv s"
proof -
  have w: "wait_objects s' u = wait_objects s u" for u
    by (simp add: wait_objects_def assms(4))
  have l: "length (WaitBlock (Thr s' u)) = length (WaitBlock (Thr s u))" for u
    using arg_cong [OF assms(4) [of u], of length] by simp
  have g: "signaled s' x = signaled s x" for x
    by (simp add: signaled_def assms(1))
  show ?thesis
    by (simp only: ks_inv_def ks_core_def wait_wf_def signals_ok_def mutants_ok_def queue_ok_def
        waits_ok_def wait_satisfiable_def w l g assms)
qed

lemma finish_release_inv:
  assumes "ks_inv s" "Wait \<longrightarrow> Current s \<noteq> None"
  shows "\<exists>s'. finish_release s Wait = Some s' \<and> ks_inv s'"
proof (cases Wait)
  case True
  then obtain t where t: "Current s = Some t" using assms(2) by auto
  have "ks_inv (upd_thr t (WaitNext_update (\<lambda>_. True)) s) = ks_inv s"
    by (rule ks_inv_frame) simp_all
  then show ?thesis
    using assms(1) t True by (simp add: finish_release_def)
qed (use assms in \<open>simp add: finish_release_def\<close>)

lemma inv_not_signaled:
  "ks_inv s \<Longrightarrow> SignalState (Hdr s x) = 0 \<longleftrightarrow> \<not> signaled s x"
proof -
  assume "ks_inv s"
  then have "0 \<le> sint (SignalState (Hdr s x))"
    by (simp add: ks_inv_def ks_core_def signals_ok_def)
  then show ?thesis
    by (metis less_irrefl not_less order_antisym signaled_def signed_0 signed_eq_0_iff)
qed




lemma thr_eq_wait_objects: "Thr s' = Thr s \<Longrightarrow> wait_objects s' u = wait_objects s u"
  by (simp add: wait_objects_def)

lemma set_signal_sel [simp]:
  "Hdr (set_signal x v s) = (Hdr s)(x := (Hdr s x)\<lparr>SignalState := v\<rparr>)" "Thr (set_signal x v s) = Thr s"
  "Current (set_signal x v s) = Current s" "RunQueue (set_signal x v s) = RunQueue s"
  by (simp_all add: set_signal_def)

lemma KsClearEvent_inv:
  assumes "ks_inv s" "is_event s x"
  shows "ks_inv (KsClearEvent s x)" "ks_inv (fst (KsResetEvent s x))"
proof -
  have "ks_core (set_signal x 0 s)"
    using assms by (intro core_set_signal) (auto simp: ks_inv_def is_event_def)
  moreover have "\<not> wait_satisfiable (set_signal x 0 s) u" for u
  proof -
    have "signaled (set_signal x 0 s) y \<Longrightarrow> signaled s y" for y
      by (cases "y = x") (simp_all add: set_signal_def, simp add: signaled_def)
    then show ?thesis
      using assms(1) by (auto simp: ks_inv_def wait_satisfiable_def set_signal_def split: if_splits)
  qed
  ultimately show "ks_inv (KsClearEvent s x)" "ks_inv (fst (KsResetEvent s x))"
    by (simp_all add: ks_inv_def KsClearEvent_def KsResetEvent_def)
qed

lemma KsSetEvent_inv:
  assumes "ks_inv s" "is_event s x" "Wait \<longrightarrow> Current s \<noteq> None"
  shows "\<exists>s'. KsSetEvent s x Wait = Some (s', SignalState (Hdr s x)) \<and> ks_inv s'"
proof (cases "ObjectType (Hdr s x) = EventNotificationObject \<and> SignalState (Hdr s x) = 1 \<and> \<not> Wait")
  case True
  then show ?thesis
    using assms(1) by (simp add: KsSetEvent_def)
next
  case False
  obtain s1 where s1: "event.release s x = Some s1" "ks_inv s1" "Current s1 = Current s"
    using event.release_inv [OF assms(1,2)] by blast
  obtain s2 where s2: "finish_release s1 Wait = Some s2" "ks_inv s2"
    using finish_release_inv [OF s1(2)] assms(3) s1(3) by metis
  have "KsSetEvent s x Wait = Some (s2, SignalState (Hdr s x))"
    using False s1(1) s2(1) inv_not_signaled [OF assms(1), of x]
    by (simp add: KsSetEvent_def event.release_def Let_def) (auto simp: split: if_splits)
  then show ?thesis
    using s2(2) by blast
qed

lemma sint_add_neq: "a \<noteq> 0 \<Longrightarrow> sint (w + a) \<noteq> sint (w :: u32)"
  by (metis add_cancel_left_right signed_word_eqI)

lemma KsReleaseSemaphore_inv:
  assumes "ks_inv s" "ObjectType (Hdr s x) = SemaphoreObject" "n \<noteq> 0" "Wait \<longrightarrow> Current s \<noteq> None"
  shows "KsReleaseSemaphore s x n Wait = Some (BugCheck INVALID_OBJECT_STATE) \<or>
    (\<exists>s'. KsReleaseSemaphore s x n Wait = Some (Returned (s', SignalState (Hdr s x))) \<and> ks_inv s')"
proof (cases "sem_releasable n s x")
  case True
  obtain s1 where s1: "semaphore.release n s x = Some s1" "ks_inv s1" "Current s1 = Current s"
    using semaphore.release_inv [OF assms(1) True] by blast
  obtain s2 where s2: "finish_release s1 Wait = Some s2" "ks_inv s2"
    using finish_release_inv [OF s1(2)] assms(4) s1(3) by metis
  have "\<not> (sint (Limit (Hdr s x)) < sint (SignalState (Hdr s x) + n) \<or>
      sint (SignalState (Hdr s x) + n) < sint (SignalState (Hdr s x)))"
    using True by (auto simp: sem_releasable_def)
  then have "KsReleaseSemaphore s x n Wait = Some (Returned (s2, SignalState (Hdr s x)))"
    using s1(1) s2(1) inv_not_signaled [OF assms(1), of x]
    by (simp add: KsReleaseSemaphore_def semaphore.release_def Let_def)
  then show ?thesis
    using s2(2) by blast
next
  case False
  then show ?thesis
    using assms(2) sint_add_neq [OF assms(3), of "SignalState (Hdr s x)"]
    by (auto simp: sem_releasable_def KsReleaseSemaphore_def)
qed

lemma KsReleaseMutant_inv:
  assumes "ks_inv s" "Wait \<longrightarrow> Current s \<noteq> None"
  shows "\<exists>s' st. KsReleaseMutant s x Wait = Some (s', st) \<and> ks_inv s'"
proof (cases "\<exists>y t. x = Some y \<and> is_mutant s y \<and> Current s = Some t \<and> MutantOwner (Hdr s y) = Some t")
  case True
  then obtain y t where y: "x = Some y" "is_mutant s y" "Current s = Some t" "MutantOwner (Hdr s y) = Some t"
    by blast
  have "mutant_releasable s y"
    using y by (simp add: mutant_releasable_def)
  then obtain s1 where s1: "mutant.release s y = Some s1" "ks_inv s1" "Current s1 = Current s"
    using mutant.release_inv [OF assms(1)] by blast
  obtain s2 where s2: "finish_release s1 Wait = Some s2" "ks_inv s2"
    using finish_release_inv [OF s1(2)] assms(2) s1(3) by metis
  have ns: "\<not> signaled s y"
    using assms(1) y by (simp add: ks_inv_def ks_core_def mutants_ok_def signaled_def)
  have wl: "WaitListHead (Hdr (unlink_mutant y s) y) = WaitListHead (Hdr s y)"
    by (simp add: unlink_mutant_def split: option.splits)
  have "KsReleaseMutant s x Wait = Some (s2, SignalState (Hdr s y))"
    using y s1(1) s2(1) ns
    by (simp add: KsReleaseMutant_def KsiReleaseMutant_def mutant.release_def wl mutant_raise_def [symmetric])
  then show ?thesis
    using s2(2) by blast
next
  case False
  then show ?thesis
    using assms(1) by (auto simp: KsReleaseMutant_def KsiReleaseMutant_def split: option.splits)
qed

section \<open>Starting a wait\<close>

text \<open>A client waits for distinct objects, and for a mutant only alone or with \<open>WaitAll\<close>.\<close>

definition wait_request_ok :: "DISPATCHER \<Rightarrow> obj list \<Rightarrow> KWAIT_TYPE \<Rightarrow> bool" where
  "wait_request_ok s xs wt \<longleftrightarrow> distinct xs \<and>
     (wt = WaitAny \<longrightarrow> (\<exists>x\<in>set xs. is_mutant s x) \<longrightarrow> length xs = 1)"

lemma insert_one:
  assumes wf: "wait_wf s" and len: "length (wait_objects s t) < THREAD_WAIT_OBJECTS"
    and new: "x \<notin> set (wait_objects s t)"
  defines "i \<equiv> length (wait_objects s t)"
  defines "s' \<equiv> upd_hdr x (WaitListHead_update (\<lambda>l. l @ [(t, i)]))
         (upd_thr t (\<lambda>th. th\<lparr>WaitBlock := (WaitBlock th)[i := (WaitBlock (Thr s t) ! i)\<lparr>BlockObject := Some x\<rparr>]\<rparr>) s)"
  shows "rd (WaitBlock (Thr s t)) i = Some (WaitBlock (Thr s t) ! i)" "BlockObject (WaitBlock (Thr s t) ! i) = None"
    "wait_objects s' u = (if u = t then wait_objects s t @ [x] else wait_objects s u)" "wait_wf s'"
proof -
  let ?xs = "wait_objects s t"
  show "rd (WaitBlock (Thr s t)) i = Some (WaitBlock (Thr s t) ! i)"
    using len wait_wfD(1) [OF wf, of t] by (simp add: i_def)
  show "BlockObject (WaitBlock (Thr s t) ! i) = None"
    using block_object_nth [OF wf len] by (simp add: block_object_def i_def)
  have bt: "blocks s' t = map Some (?xs @ [x]) @ replicate (THREAD_WAIT_OBJECTS - length (?xs @ [x])) None"
  proof -
    have "blocks s' t = (blocks s t)[i := Some x]"
      by (simp add: s'_def map_update)
    also have "\<dots> = (map Some ?xs @ replicate (THREAD_WAIT_OBJECTS - i) None)[i := Some x]"
      using wait_wfD(2) [OF wf, of t] by (simp add: i_def)
    also have "\<dots> = map Some ?xs @ Some x # replicate (THREAD_WAIT_OBJECTS - Suc i) None"
    proof -
      obtain k where k: "THREAD_WAIT_OBJECTS - i = Suc k" "THREAD_WAIT_OBJECTS - Suc i = k"
        using len by (metis Suc_diff_Suc i_def)
      show ?thesis unfolding k by (simp add: list_update_append i_def)
    qed
    finally show ?thesis by (simp add: i_def)
  qed
  have bu: "blocks s' u = blocks s u" if "u \<noteq> t" for u
    using that by (simp add: s'_def)
  show wo: "wait_objects s' u = (if u = t then ?xs @ [x] else wait_objects s u)" for u
  proof (cases "u = t")
    case True
    show ?thesis unfolding True wait_objects_def [of s'] bt by (simp only: leading_prefix if_True refl)
  qed (simp add: wait_objects_def bu)
  have hd: "WaitListHead (Hdr s' y) = WaitListHead (Hdr s y) @ (if y = x then [(t, i)] else [])" for y
    by (simp add: s'_def)
  have fresh: "(t, i) \<notin> set (WaitListHead (Hdr s x))"
    using wait_wfD(5) [OF wf, of t i x] by (simp add: i_def)
  show "wait_wf s'"
    unfolding wait_wf_def
  proof (intro conjI allI)
    show "length (WaitBlock (Thr s' u)) = THREAD_WAIT_OBJECTS" for u
      using wait_wfD(1) [OF wf] by (simp add: s'_def)
    show "blocks s' u = map Some (wait_objects s' u) @ replicate (THREAD_WAIT_OBJECTS - length (wait_objects s' u)) None" for u
      using bt bu [of u] wait_wfD(2) [OF wf, of u] by (cases "u = t") (simp_all only: wo if_True if_False refl not_False_eq_True True_implies_equals)
    show "distinct (wait_objects s' u)" for u
      using wait_wfD(3) [OF wf] new by (simp add: wo)
    show "distinct (WaitListHead (Hdr s' y))" for y
      using wait_wfD(4) [OF wf, of y] fresh by (simp add: hd)
    show "(u, j) \<in> set (WaitListHead (Hdr s' y)) \<longleftrightarrow> j < length (wait_objects s' u) \<and> wait_objects s' u ! j = y" for y u j
      using wait_wfD(5) [OF wf, of u j y] by (auto simp: hd wo i_def nth_append less_Suc_eq)
  qed
qed

lemma insert_blocks_ok:
  assumes "wait_wf s" "length (wait_objects s t) + length xs \<le> THREAD_WAIT_OBJECTS"
    "distinct (wait_objects s t @ xs)"
  shows "\<exists>s'. insert_blocks s t (length (wait_objects s t)) xs = Some s' \<and> wait_wf s' \<and>
    (\<forall>u. wait_objects s' u = (if u = t then wait_objects s t @ xs else wait_objects s u)) \<and>
    (\<forall>u. u \<noteq> t \<longrightarrow> Thr s' u = Thr s u) \<and> (\<exists>bs. Thr s' t = (Thr s t)\<lparr>WaitBlock := bs\<rparr>) \<and>
    (\<forall>y. \<exists>l. Hdr s' y = (Hdr s y)\<lparr>WaitListHead := l\<rparr>) \<and> Current s' = Current s \<and> RunQueue s' = RunQueue s"
  using assms
proof (induction xs arbitrary: s)
  case Nil
  have "\<exists>bs. Thr s t = (Thr s t)\<lparr>WaitBlock := bs\<rparr>" "\<And>y. \<exists>l. Hdr s y = (Hdr s y)\<lparr>WaitListHead := l\<rparr>"
    by (metis (mono_tags) KTHREAD.surjective KTHREAD.update_convs(2),
        metis (mono_tags) DISPATCHER_HEADER.surjective DISPATCHER_HEADER.update_convs(3))
  then show ?case using Nil by simp
next
  case (Cons x xs)
  let ?i = "length (wait_objects s t)"
  let ?s = "upd_hdr x (WaitListHead_update (\<lambda>l. l @ [(t, ?i)]))
         (upd_thr t (\<lambda>th. th\<lparr>WaitBlock := (WaitBlock th)[?i := (WaitBlock (Thr s t) ! ?i)\<lparr>BlockObject := Some x\<rparr>]\<rparr>) s)"
  have 1: "?i < THREAD_WAIT_OBJECTS" "x \<notin> set (wait_objects s t)"
    using Cons.prems by auto
  note one = insert_one [OF Cons.prems(1) 1]
  have 2: "length (wait_objects ?s t) = Suc ?i" "length (wait_objects ?s t) + length xs \<le> THREAD_WAIT_OBJECTS"
    "distinct (wait_objects ?s t @ xs)"
    using Cons.prems(2,3) unfolding one(3) by auto
  obtain s' bs where s': "insert_blocks ?s t (length (wait_objects ?s t)) xs = Some s'" "wait_wf s'"
      "\<forall>u. wait_objects s' u = (if u = t then wait_objects ?s t @ xs else wait_objects ?s u)"
      "\<forall>u. u \<noteq> t \<longrightarrow> Thr s' u = Thr ?s u" "Thr s' t = (Thr ?s t)\<lparr>WaitBlock := bs\<rparr>"
      "\<forall>y. \<exists>l. Hdr s' y = (Hdr ?s y)\<lparr>WaitListHead := l\<rparr>" "Current s' = Current ?s" "RunQueue s' = RunQueue ?s"
    using Cons.IH [OF one(4) 2(2,3)] by (elim exE conjE) (rule that)
  have "insert_blocks s t ?i (x # xs) = Some s'"
    using s'(1) [unfolded 2(1)] by (simp add: one(1,2))
  moreover have "\<forall>u. wait_objects s' u = (if u = t then wait_objects s t @ x # xs else wait_objects s u)"
    using s'(3) unfolding one(3) by simp
  moreover have "\<exists>l. Hdr s' y = (Hdr s y)\<lparr>WaitListHead := l\<rparr>" for y
    using s'(6) [rule_format, of y] by (cases "y = x") auto
  ultimately show ?case
    using s'(2,4,5,7,8) by (intro exI [of _ s']) auto
qed

lemma first_signaled_None: "first_signaled s (map Some xs) i = None \<longleftrightarrow> (\<forall>x\<in>set xs. \<not> signaled s x)"
  by (induction xs arbitrary: i) auto

lemma first_signaled_Some:
  "first_signaled s (map Some xs) i = Some k \<Longrightarrow> i \<le> k \<and> k - i < length xs \<and> signaled s (xs ! (k - i))"
proof (induction xs arbitrary: i)
  case (Cons x xs)
  show ?case
  proof (cases "signaled s x")
    case False
    with Cons.prems have "first_signaled s (map Some xs) (Suc i) = Some k" by simp
    from Cons.IH [OF this] show ?thesis
      by (auto simp: nth_Cons' Suc_le_eq)
  qed (use Cons.prems in simp)
qed simp

text \<open>The valid calls of \<open>KsWaitForMultipleObjects\<close>, on the list of objects they name.\<close>

definition valid_wait :: "u32 \<Rightarrow> obj option list option \<Rightarrow> KWAIT_TYPE \<Rightarrow> obj list \<Rightarrow> bool" where
  "valid_wait n Objects wt xs \<longleftrightarrow> xs \<noteq> [] \<and> length xs \<le> THREAD_WAIT_OBJECTS \<and> (wt = WaitAny \<or> wt = WaitAll) \<and>
     n = of_nat (length xs) \<and> (\<exists>ys. Objects = Some ys \<and> take (length xs) ys = map Some xs)"

text \<open>What the wait takes when it succeeds at once.\<close>

definition taken :: "obj list \<Rightarrow> KWAIT_TYPE \<Rightarrow> nat \<Rightarrow> obj list" where
  "taken xs wt i = (if wt = WaitAny then [xs ! i] else xs)"

lemma wait_call:
  assumes v: "valid_wait n Objects wt xs" and c: "Current s = Some t"
  defines "s0 \<equiv> upd_thr t (WaitNext_update (\<lambda>_. False)) s"
  shows "KsWaitForMultipleObjects s n Objects wt =
    (case KsiAreObjectsSignaled s0 (map Some xs) wt of
       Some i \<Rightarrow> do { s \<leftarrow> KsiConsumeObjectSignals s0 xs wt i; s \<leftarrow> assign_owners s t (taken xs wt i);
                      Some (s, Done STATUS_SUCCESS) }
     | None \<Rightarrow> do { s \<leftarrow> insert_blocks s0 t 0 xs;
                   Some (upd_thr t (\<lambda>th. th\<lparr>WaitBlockList := Some 0, WaitType := wt,
                      WaitStatus := STATUS_PENDING, ThreadState := Waiting\<rparr>) s, Blocked) })"
proof -
  obtain ys where ys: "Objects = Some ys" "take (length xs) ys = map Some xs"
    and x: "xs \<noteq> []" "length xs \<le> 3" "n = of_nat (length xs)" "wt = WaitAny \<or> wt = WaitAll"
    using v by (auto simp: valid_wait_def THREAD_WAIT_OBJECTS_def)
  have un: "unat n = length xs"
    using x by (simp add: unat_of_nat_lt)
  have n0: "n \<noteq> 0"
    using un x(1) by auto
  have l: "length xs \<le> length ys"
    using arg_cong [OF ys(2), of length] by simp
  have sig: "KsiAreObjectsSignaled s0 (map Some xs) wt = Some i \<Longrightarrow> i < length xs" for i
    using x(1) first_signaled_Some [of s0 xs 0 i]
    by (auto simp: KsiAreObjectsSignaled_def split: if_splits)
  have one: "assign_owners s' t (taken xs wt i) = (if wt = WaitAny
      then do { x \<leftarrow> rd xs i; KsiAssignMutantOwner s' t x } else assign_owners s' t xs)"
    if "i < length xs" for s' i
    using that by (simp add: taken_def split: bind_splits)
  have "KsWaitForMultipleObjects s n Objects wt =
    (case KsiAreObjectsSignaled s0 (map Some xs) wt of
       Some i \<Rightarrow> do { s \<leftarrow> KsiConsumeObjectSignals s0 xs wt i;
                      s \<leftarrow> (if wt = WaitAny then do { x \<leftarrow> rd xs i; KsiAssignMutantOwner s t x } else assign_owners s t xs);
                      Some (s, Done STATUS_SUCCESS) }
     | None \<Rightarrow> do { s \<leftarrow> insert_blocks s0 t 0 xs;
                   Some (upd_thr t (\<lambda>th. th\<lparr>WaitBlockList := Some 0, WaitType := wt,
                      WaitStatus := STATUS_PENDING, ThreadState := Waiting\<rparr>) s, Blocked) })"
    unfolding s0_def
    using x(2,4) l n0 by (auto simp: KsWaitForMultipleObjects_def un c ys THREAD_WAIT_OBJECTS_def Let_def o_def)
  then show ?thesis
    using sig by (auto simp: one split: option.splits)
qed

lemma given_at_once:
  assumes inv: "ks_inv s" and g: "given s t A s'" and A: "distinct A" "\<forall>y\<in>set A. signaled s y"
    and fr: "\<And>u. blocks s' u = blocks s u" "\<And>u. ThreadState (Thr s' u) = ThreadState (Thr s u)"
      "\<And>u. WaitType (Thr s' u) = WaitType (Thr s u)" "\<And>x. WaitListHead (Hdr s' x) = WaitListHead (Hdr s x)"
      "RunQueue s' = RunQueue s" "Current s' = Current s"
  shows "ks_inv s'"
proof -
  have core: "ks_core s" using inv by (simp add: ks_inv_def)
  have w: "wait_objects s' u = wait_objects s u" for u
    by (simp add: wait_objects_def fr)
  have l: "length (WaitBlock (Thr s' u)) = length (WaitBlock (Thr s u))" for u
    using arg_cong [OF fr(1) [of u], of length] by simp
  have "wait_wf s'"
    unfolding wait_wf_def w l fr by (rule ks_coreD(1) [OF core, unfolded wait_wf_def])
  moreover have "queue_ok s'" "waits_ok s'"
    using ks_coreD(4,5) [OF core] unfolding queue_ok_def waits_ok_def w fr givenD(1) [OF g] by blast+
  moreover have "\<not> wait_satisfiable s' u" for u
  proof -
    have "\<not> wait_satisfiable s u" using inv by (simp add: ks_inv_def)
    then show ?thesis
      using given_signaled [OF g A(2)] by (auto simp: wait_satisfiable_def w fr split: if_splits)
  qed
  ultimately show ?thesis
    using given_signals [OF g ks_coreD(2) [OF core] A(2)] given_mutants [OF g ks_coreD(3) [OF core] A]
    by (simp add: ks_inv_def ks_core_def)
qed

lemma WaitNext_inv: "ks_inv (upd_thr t (WaitNext_update f) s) \<longleftrightarrow> ks_inv s"
  by (rule ks_inv_frame) simp_all

lemma signals_found:
  assumes "KsiAreObjectsSignaled s (map Some xs) wt = Some i" "xs \<noteq> []"
  shows "i < length xs" "\<forall>y\<in>set (taken xs wt i). signaled s y"
  using assms first_signaled_Some [of s xs 0 i]
  by (auto simp: KsiAreObjectsSignaled_def taken_def list_all_iff split: if_splits)

text \<open>A wait whose objects are signaled takes them and returns at once.\<close>

lemma wait_at_once:
  assumes inv: "ks_inv s" and v: "valid_wait n Objects wt xs" and ok: "wait_request_ok s xs wt"
    and c: "Current s = Some t"
    and sig: "KsiAreObjectsSignaled (upd_thr t (WaitNext_update (\<lambda>_. False)) s) (map Some xs) wt = Some i"
  shows "\<exists>s'. KsWaitForMultipleObjects s n Objects wt = Some (s', Done STATUS_SUCCESS) \<and> ks_inv s' \<and>
    Current s' = Current s \<and> (\<forall>y\<in>set (taken xs wt i). is_mutant s y \<longrightarrow> MutantOwner (Hdr s' y) = Some t)"
proof -
  let ?s = "upd_thr t (WaitNext_update (\<lambda>_. False)) s" and ?A = "taken xs wt i"
  have xs: "xs \<noteq> []" "distinct xs"
    using v ok by (auto simp: valid_wait_def wait_request_ok_def)
  have inv0: "ks_inv ?s"
    using inv by (simp add: WaitNext_inv)
  note found = signals_found [OF sig xs(1)]
  have A: "distinct ?A"
    using xs(2) by (simp add: taken_def)
  define s1 where "s1 = ?s\<lparr>Hdr := \<lambda>x. if x \<in> set ?A \<and> \<not> is_notification ?s x
      then (Hdr ?s x)\<lparr>SignalState := SignalState (Hdr ?s x) - 1\<rparr> else Hdr ?s x\<rparr>"
  have s1: "KsiConsumeObjectSignals ?s xs wt i = Some s1"
    using consume_signals [OF xs(2) found(1), of ?s wt] by (simp add: s1_def taken_def)
  have ty: "is_mutant s1 x = is_mutant s x" for x
    by (simp add: s1_def)
  have thr: "Thr s1 = Thr ?s" by (simp add: s1_def)
  have free: "MutantListEntry (Hdr s1 x) = None" if "x \<in> set ?A" "is_mutant s1 x" for x
  proof -
    have "MutantListEntry (Hdr ?s x) = None"
      using that found(2) inv0 unfolding ty
      by (force simp: ks_inv_def ks_core_def mutants_ok_def signaled_def split: if_splits)
    then show ?thesis by (simp add: s1_def)
  qed
  define s2 where "s2 = s1\<lparr>
      Hdr := \<lambda>x. if x \<in> set ?A \<and> is_mutant s x
        then (Hdr s1 x)\<lparr>MutantOwner := Some t, MutantListEntry := Some t\<rparr> else Hdr s1 x,
      Thr := (Thr s1)(t := (Thr s1 t)\<lparr>MutantListHead := MutantListHead (Thr s1 t) @ filter (is_mutant s) ?A\<rparr>)\<rparr>"
  have s2: "assign_owners s1 t ?A = Some s2"
    using assign_owners [OF A free, where t = t] by (simp add: s2_def ty)
  have call: "KsWaitForMultipleObjects s n Objects wt = Some (s2, Done STATUS_SUCCESS)"
    using wait_call [OF v c] by (simp add: sig s1 s2)
  have g: "given ?s t ?A s2"
    by (simp add: given_def s2_def s1_def)
  have wl: "WaitListHead (Hdr s2 x) = WaitListHead (Hdr ?s x)" for x
    by (simp add: s2_def s1_def)
  have "ks_inv s2"
    by (rule given_at_once [OF inv0 g A found(2) _ _ _ wl]) (simp_all add: s2_def s1_def)
  moreover have "Current s2 = Current s" "\<forall>y\<in>set ?A. is_mutant s y \<longrightarrow> MutantOwner (Hdr s2 y) = Some t"
    by (simp_all add: s2_def s1_def)
  ultimately show ?thesis
    using call by blast
qed

text \<open>Otherwise the thread waits, for the objects it named.\<close>

lemma wait_blocks:
  assumes inv: "ks_inv s" and v: "valid_wait n Objects wt xs" and ok: "wait_request_ok s xs wt"
    and c: "Current s = Some t" "ThreadState (Thr s t) = Running"
    and sig: "KsiAreObjectsSignaled (upd_thr t (WaitNext_update (\<lambda>_. False)) s) (map Some xs) wt = None"
  shows "\<exists>s'. KsWaitForMultipleObjects s n Objects wt = Some (s', Blocked) \<and> ks_inv s' \<and>
    Current s' = Some t \<and> ThreadState (Thr s' t) = Waiting \<and> wait_objects s' t = xs"
proof -
  let ?s = "upd_thr t (WaitNext_update (\<lambda>_. False)) s"
  have xs: "xs \<noteq> []" "distinct xs" "length xs \<le> THREAD_WAIT_OBJECTS"
    using v ok by (auto simp: valid_wait_def wait_request_ok_def)
  have inv0: "ks_inv ?s"
    using inv by (simp add: WaitNext_inv)
  then have core: "ks_core ?s" by (simp add: ks_inv_def)
  have run: "ThreadState (Thr ?s t) = Running" using c(2) by simp
  then have "ThreadState (Thr ?s t) \<noteq> Waiting" by simp
  then have no: "wait_objects ?s t = []"
    using ks_coreD(4) [OF core] unfolding queue_ok_def by blast
  obtain s1 bs where s1: "insert_blocks ?s t 0 xs = Some s1" "wait_wf s1"
      "\<forall>u. wait_objects s1 u = (if u = t then xs else wait_objects ?s u)"
      "\<forall>u. u \<noteq> t \<longrightarrow> Thr s1 u = Thr ?s u" "Thr s1 t = (Thr ?s t)\<lparr>WaitBlock := bs\<rparr>"
      "\<forall>y. \<exists>l. Hdr s1 y = (Hdr ?s y)\<lparr>WaitListHead := l\<rparr>" "Current s1 = Current ?s" "RunQueue s1 = RunQueue ?s"
    using insert_blocks_ok [OF ks_coreD(1) [OF core], of t xs, unfolded no append_Nil list.size add_0, OF xs(3,2)]
    by (elim exE conjE) (rule that)
  let ?s2 = "upd_thr t (\<lambda>th. th\<lparr>WaitBlockList := Some 0, WaitType := wt,
                      WaitStatus := STATUS_PENDING, ThreadState := Waiting\<rparr>) s1"
  have call: "KsWaitForMultipleObjects s n Objects wt = Some (?s2, Blocked)"
    using wait_call [OF v c(1)] by (simp add: sig s1(1))
  have hd: "ObjectType (Hdr s1 y) = ObjectType (Hdr s y)" "SignalState (Hdr s1 y) = SignalState (Hdr s y)"
    "Limit (Hdr s1 y) = Limit (Hdr s y)" "MutantOwner (Hdr s1 y) = MutantOwner (Hdr s y)"
    "MutantListEntry (Hdr s1 y) = MutantListEntry (Hdr s y)" for y
    using s1(6) [rule_format, of y] by auto
  have wo: "wait_objects ?s2 u = (if u = t then xs else wait_objects s u)" for u
    using s1(3) by (simp add: wait_objects_def)
  have th: "Thr ?s2 u = Thr s u" if "u \<noteq> t" for u
    using s1(4) that by simp
  have ml: "MutantListHead (Thr ?s2 u) = MutantListHead (Thr s u)" for u
    using th [of u] s1(5) by (cases "u = t") simp_all
  have core': "ks_core s" using inv by (simp add: ks_inv_def)
  have "wait_wf ?s2"
    using s1(2) unfolding wait_wf_def by (simp add: wait_objects_def)
  moreover have "signals_ok ?s2"
    using ks_coreD(2) [OF core'] by (simp add: signals_ok_def hd)
  moreover have "mutants_ok ?s2"
    using ks_coreD(3) [OF core'] by (simp add: mutants_ok_def ml hd del: upd_sel(5)) 
  moreover have "queue_ok ?s2"
    unfolding queue_ok_def
  proof (intro conjI allI impI)
    show "distinct (RunQueue ?s2)"
      using ks_coreD(4) [OF core'] by (simp add: queue_ok_def s1(8))
  next
    fix u
    show "u \<in> set (RunQueue ?s2) \<longleftrightarrow> ThreadState (Thr ?s2 u) = Ready"
      using ks_coreD(4) [OF core'] th [of u] run by (cases "u = t") (simp_all add: queue_ok_def s1(8))
    show "wait_objects ?s2 u = []" if "ThreadState (Thr ?s2 u) \<noteq> Waiting"
      using ks_coreD(4) [OF core'] th [of u] that by (cases "u = t") (simp_all add: queue_ok_def wo)
    show "Current ?s2 = Some u" if "ThreadState (Thr ?s2 u) = Running"
      using ks_coreD(4) [OF core'] th [of u] that by (cases "u = t") (simp_all add: queue_ok_def s1(7))
  qed
  moreover have "waits_ok ?s2"
    unfolding waits_ok_def
  proof (intro allI impI)
    fix u
    assume ty: "WaitType (Thr ?s2 u) = WaitAny" and m: "\<exists>x\<in>set (wait_objects ?s2 u). is_mutant ?s2 x"
    from m have "\<exists>x\<in>set (if u = t then xs else wait_objects s u). is_mutant s x"
      unfolding wo by (simp add: hd)
    then show "length (wait_objects ?s2 u) = 1"
      unfolding wo using ks_coreD(5) [OF core'] ok th [of u] ty
      by (cases "u = t") (simp_all add: waits_ok_def wait_request_ok_def)
  qed
  moreover have "\<not> wait_satisfiable ?s2 u" for u
  proof -
    have g: "signaled ?s2 y = signaled s y" for y
      by (simp add: signaled_def hd)
    have un: "\<not> wait_satisfiable s u" using inv by (simp add: ks_inv_def)
    have sat: "wait_satisfiable ?s2 u \<longleftrightarrow> (if u = t then (if wt = WaitAny then \<exists>x\<in>set xs. signaled s x else \<forall>x\<in>set xs. signaled s x)
        else wait_satisfiable s u)"
      using xs(1) th [of u] unfolding wait_satisfiable_def wo g by (cases "u = t") simp_all
    have "signaled ?s = signaled s" by (simp add: signaled_def fun_eq_iff)
    then show ?thesis
      using un sig unfolding sat by (auto simp: KsiAreObjectsSignaled_def first_signaled_None list_all_iff split: if_splits)
  qed
  ultimately have "ks_inv ?s2"
    by (simp add: ks_inv_def ks_core_def)
  then show ?thesis
    using call s1(7) c wo [of t] by simp
qed

section \<open>Switching and initialising\<close>

lemma rest_frame:
  assumes "Hdr s' = Hdr s" "\<And>u. blocks s' u = blocks s u"
    "\<And>u. WaitType (Thr s' u) = WaitType (Thr s u)" "\<And>u. MutantListHead (Thr s' u) = MutantListHead (Thr s u)"
  shows "wait_objects s' u = wait_objects s u" "wait_wf s' = wait_wf s" "signals_ok s' = signals_ok s"
    "mutants_ok s' = mutants_ok s" "waits_ok s' = waits_ok s" "wait_satisfiable s' u = wait_satisfiable s u"
proof -
  have w: "wait_objects s' u = wait_objects s u" for u
    by (simp add: wait_objects_def assms(2))
  have l: "length (WaitBlock (Thr s' u)) = length (WaitBlock (Thr s u))" for u
    using arg_cong [OF assms(2) [of u], of length] by simp
  have g: "signaled s' x = signaled s x" for x
    by (simp add: signaled_def assms(1))
  show "wait_objects s' u = wait_objects s u" "wait_wf s' = wait_wf s" "signals_ok s' = signals_ok s"
    "mutants_ok s' = mutants_ok s" "waits_ok s' = waits_ok s" "wait_satisfiable s' u = wait_satisfiable s u"
    by (simp_all only: wait_wf_def signals_ok_def mutants_ok_def waits_ok_def wait_satisfiable_def w l g assms)
qed

text \<open>The choices of \<open>PtSelectNextThread\<close>: a queued thread, the idle thread when there is none.\<close>

definition next_thread :: "DISPATCHER \<Rightarrow> tid option \<Rightarrow> bool" where
  "next_thread s n = (case n of None \<Rightarrow> RunQueue s = [] | Some t \<Rightarrow> t \<in> set (RunQueue s))"

lemma switch_to_sel:
  "Hdr (switch_to s n) = Hdr s" "blocks (switch_to s n) u = blocks s u"
  "WaitType (Thr (switch_to s n) u) = WaitType (Thr s u)"
  "MutantListHead (Thr (switch_to s n) u) = MutantListHead (Thr s u)"
  "Current (switch_to s n) = n"
  by (auto simp: switch_to_def Let_def split: option.splits)

lemma switch_to_Some:
  assumes "c \<noteq> t" "Current s = Some c"
  shows "ThreadState (Thr (switch_to s (Some t)) u) = (if u = t then Running
      else if u = c \<and> ThreadState (Thr s c) = Running then Ready else ThreadState (Thr s u))"
    "RunQueue (switch_to s (Some t)) = remove1 t (RunQueue s) @
      (if ThreadState (Thr s c) = Running then [c] else [])"
  using assms by (simp_all add: switch_to_def Let_def)

lemma switch_to_first:
  assumes "Current s = None"
  shows "ThreadState (Thr (switch_to s (Some t)) u) = (if u = t then Running else ThreadState (Thr s u))"
    "RunQueue (switch_to s (Some t)) = remove1 t (RunQueue s)" "switch_to s None = s"
  using assms by (simp_all add: switch_to_def Let_def)

lemma switch_to_idle:
  assumes "Current s = Some c"
  shows "ThreadState (Thr (switch_to s None) u) =
      (if u = c \<and> ThreadState (Thr s c) = Running then Ready else ThreadState (Thr s u))"
    "RunQueue (switch_to s None) = RunQueue s @ (if ThreadState (Thr s c) = Running then [c] else [])"
  using assms by (simp_all add: switch_to_def Let_def)

lemma switch_queue_ok:
  assumes q: "queue_ok s" and n: "next_thread s n"
    and c: "n = None \<or> n \<noteq> Current s"
  shows "queue_ok (switch_to s n)"
proof -
  note fr = rest_frame(1) [of "switch_to s n" s, OF switch_to_sel(1-4)]
  have d: "distinct (RunQueue s)" and r: "\<And>t. t \<in> set (RunQueue s) \<longleftrightarrow> ThreadState (Thr s t) = Ready"
    and w: "\<And>t. ThreadState (Thr s t) \<noteq> Waiting \<Longrightarrow> wait_objects s t = []"
    and a: "\<And>t. ThreadState (Thr s t) = Running \<Longrightarrow> Current s = Some t"
    using q unfolding queue_ok_def by blast+
  show ?thesis
  proof (cases "Current s")
    case None
    then have nr: "ThreadState (Thr s t) \<noteq> Running" for t
      using a by force
    show ?thesis
    proof (cases n)
      case (Some t)
      then have t: "t \<in> set (RunQueue s)" "ThreadState (Thr s t) = Ready" "wait_objects s t = []"
        using n r w [of t] by (auto simp: next_thread_def)
      show ?thesis
        using d r w nr t unfolding queue_ok_def fr switch_to_sel(5)
        unfolding Some switch_to_first [OF None] by auto
    qed (use d r w nr None in \<open>auto simp: queue_ok_def switch_to_first\<close>)
  next
    case (Some c)
    have nr: "ThreadState (Thr s t) = Running \<longrightarrow> t = c" for t
      using a [of t] Some by auto
    show ?thesis
    proof (cases n)
      case None
      have [simp]: "RunQueue s = []" using n None by (simp add: next_thread_def)
      show ?thesis
        unfolding queue_ok_def fr switch_to_sel(5)
        unfolding None switch_to_idle [OF Some]
      proof (intro conjI allI impI)
        fix u
        show "u \<in> set (RunQueue s @ (if ThreadState (Thr s c) = Running then [c] else [])) \<longleftrightarrow>
            (if u = c \<and> ThreadState (Thr s c) = Running then Ready else ThreadState (Thr s u)) = Ready"
        proof -
          have "ThreadState (Thr s u) \<noteq> Ready" using r [of u] by simp
          then show ?thesis by (simp split: if_split)
        qed
        show "None = Some u"
          if "(if u = c \<and> ThreadState (Thr s c) = Running then Ready else ThreadState (Thr s u)) = Running"
        proof (cases "u = c")
          case False
          then have "ThreadState (Thr s u) \<noteq> Running" using nr by blast
          then show ?thesis using that False by simp
        qed (use that in \<open>simp split: if_splits\<close>)
      next
        fix u
        assume "(if u = c \<and> ThreadState (Thr s c) = Running then Ready else ThreadState (Thr s u)) \<noteq> Waiting"
        then show "wait_objects s u = []"
          using w [of u] by (auto split: if_splits)
      qed simp
    next
      case (Some t)
      then have t: "t \<in> set (RunQueue s)" "ThreadState (Thr s t) = Ready" "wait_objects s t = []"
        using n r w [of t] by (auto simp: next_thread_def)
      have ct: "c \<noteq> t" using c Some \<open>Current s = Some c\<close> by auto
      let ?st = "\<lambda>u. if u = t then Running
          else if u = c \<and> ThreadState (Thr s c) = Running then Ready else ThreadState (Thr s u)"
      show ?thesis
        unfolding queue_ok_def fr switch_to_sel(5)
        unfolding Some switch_to_Some [OF ct \<open>Current s = Some c\<close>]
      proof (intro conjI allI impI)
        show "distinct (remove1 t (RunQueue s) @ (if ThreadState (Thr s c) = Running then [c] else []))"
          using d r [of c] by (auto dest: notin_set_remove1)
      next
        fix u
        show "u \<in> set (remove1 t (RunQueue s) @ (if ThreadState (Thr s c) = Running then [c] else [])) \<longleftrightarrow> ?st u = Ready"
          using r [of u] ct d by auto
        show "Some t = Some u" if "?st u = Running"
        proof (cases "u = c")
          case False
          then have "ThreadState (Thr s u) \<noteq> Running" using nr by blast
          then show ?thesis using that False by (simp split: if_splits)
        qed (use that ct in \<open>simp split: if_splits\<close>)
      next
        fix u
        assume "?st u \<noteq> Waiting"
        then show "wait_objects s u = []"
          using w [of u] t(3) by (auto split: if_splits)
      qed
    qed
  qed
qed

lemma switch_inv:
  assumes "ks_inv s" "next_thread s n" "n = None \<or> n \<noteq> Current s"
  shows "ks_inv (switch_to s n)"
  using assms switch_queue_ok [of s n] rest_frame [of "switch_to s n" s, OF switch_to_sel(1-4)]
  by (simp add: ks_inv_def ks_core_def)

lemma wait_resumed_inv:
  assumes inv: "ks_inv s" and c: "ThreadState (Thr s t) = Running"
  shows "ks_inv (fst (wait_resumed s t))"
proof -
  have core: "ks_core s" using inv by (simp add: ks_inv_def)
  have no: "wait_objects s t = []"
    using ks_coreD(4) [OF core] c unfolding queue_ok_def by force
  note wf = ks_coreD(1) [OF core]
  let ?s = "KsiRemoveThreadWaitBlocks s t"
  note R = removed [OF wf, where t = t]
  have "filter (\<lambda>b. fst b \<noteq> t) (WaitListHead (Hdr s x)) = WaitListHead (Hdr s x)" for x
    using wait_wfD(5) [OF wf, of t _ x] no by (intro filter_True) force
  then have h: "Hdr ?s = Hdr s"
    by (simp add: R(1) fun_eq_iff)
  have b: "blocks ?s u = blocks s u" for u
  proof (cases "u = t")
    case True
    have "blocks s t = replicate THREAD_WAIT_OBJECTS None"
      using wait_wfD(2) [OF wf, of t] by (simp add: no)
    moreover have "blocks ?s t = replicate THREAD_WAIT_OBJECTS None"
      using wait_wfD(2) [OF R(7), of t] by (simp add: R(6))
    ultimately show ?thesis using True by simp
  qed (simp add: R(2))
  have "ks_inv ?s = ks_inv s"
    by (rule ks_inv_frame [OF h R(5,4) b]; case_tac "u = t"; simp add: R(2,3))
  then show ?thesis
    using inv by (simp add: wait_resumed_def Let_def)
qed

text \<open>An object that nobody waits for and nobody owns may be initialised.\<close>

definition unused :: "DISPATCHER \<Rightarrow> obj \<Rightarrow> bool" where
  "unused s x \<longleftrightarrow> WaitListHead (Hdr s x) = [] \<and> MutantListEntry (Hdr s x) = None"

lemma init_inv:
  assumes inv: "ks_inv s" and x: "unused s x" and f: "h = f (Hdr s x)"
    "WaitListHead h = []" "MutantListEntry h = None" "0 \<le> sint (SignalState h)"
    "ObjectType h = SemaphoreObject \<Longrightarrow> sint (SignalState h) \<le> sint (Limit h)"
    "ObjectType h = MutantObject \<Longrightarrow> SignalState h = 1 \<and> MutantOwner h = None"
  shows "ks_inv (upd_hdr x f s)"
proof -
  have core: "ks_core s" using inv by (simp add: ks_inv_def)
  have x': "WaitListHead (Hdr s x) = []" "MutantListEntry (Hdr s x) = None"
    using x by (simp_all add: unused_def)
  have nw: "x \<notin> set (wait_objects s u)" for u
    using waits_in_list [OF ks_coreD(1) [OF core], of x u] x' by auto
  have "wait_wf (upd_hdr x f s)"
    using ks_coreD(1) [OF core] f(1,2) x' by (simp add: wait_wf_upd_hdr)
  moreover have "signals_ok (upd_hdr x f s)"
    using ks_coreD(2) [OF core] f by (auto simp: signals_ok_def)
  moreover have "mutants_ok (upd_hdr x f s)"
    using ks_coreD(3) [OF core] f x' by (auto simp: mutants_ok_def)
  moreover have "queue_ok (upd_hdr x f s)"
    using ks_coreD(4) [OF core] by (simp add: queue_ok_def)
  moreover have "waits_ok (upd_hdr x f s)"
  proof -
    have "\<exists>y\<in>set (wait_objects s u). is_mutant s y" if "\<exists>y\<in>set (wait_objects s u). is_mutant (upd_hdr x f s) y" for u
      using that nw [of u] by (auto split: if_splits)
    then show ?thesis
      using ks_coreD(5) [OF core] by (simp add: waits_ok_def)
  qed
  moreover have "\<not> wait_satisfiable (upd_hdr x f s) u" for u
  proof -
    have "\<forall>y\<in>set (wait_objects s u). signaled (upd_hdr x f s) y = signaled s y"
      using nw [of u] by (metis signaled_upd_other)
    moreover have "\<not> wait_satisfiable s u" using inv by (simp add: ks_inv_def)
    ultimately show ?thesis
      by (auto simp: wait_satisfiable_def split: if_splits)
  qed
  ultimately show ?thesis
    by (simp add: ks_inv_def ks_core_def)
qed

lemma KsInitializeEvent_inv: "ks_inv s \<Longrightarrow> unused s x \<Longrightarrow> ks_inv (KsInitializeEvent s x ty st)"
  unfolding KsInitializeEvent_def
  by (rule init_inv [OF _ _ refl]) (auto simp: unused_def split: EVENT_TYPE.splits)

lemma KsInitializeSemaphore_inv:
  "ks_inv s \<Longrightarrow> unused s x \<Longrightarrow> 0 \<le> sint c \<Longrightarrow> sint c \<le> sint l \<Longrightarrow> ks_inv (KsInitializeSemaphore s x c l)"
  unfolding KsInitializeSemaphore_def
  by (rule init_inv [OF _ _ refl]) (auto simp: unused_def)

lemma KsInitializeMutex_inv: "ks_inv s \<Longrightarrow> unused s x \<Longrightarrow> ks_inv (KsInitializeMutex s x l)"
  unfolding KsInitializeMutex_def
  by (rule init_inv [OF _ _ refl]) (auto simp: unused_def)

lemma upd_hdr_twice: "upd_hdr x g (upd_hdr x f s) = upd_hdr x (\<lambda>h. g (f h)) s"
  by (simp add: upd_hdr_def)

lemma KsInitializeMutant_inv:
  assumes inv: "ks_inv s" and x: "unused s x" and r: "KsInitializeMutant s x own = Some s'"
  shows "ks_inv s'"
proof -
  define s1 where "s1 = upd_hdr x (\<lambda>h. h\<lparr>MutantListEntry := None, WaitListHead := [], MutantOwner := None,
      ObjectType := MutantObject, SignalState := 1, Abandoned := False, ApcDisable := 0\<rparr>) s"
  have s1: "ks_inv s1"
    unfolding s1_def by (rule init_inv [OF inv x refl]) auto
  show ?thesis
  proof (cases own)
    case False
    then show ?thesis
      using s1 r by (simp add: KsInitializeMutant_def s1_def Let_def upd_hdr_twice)
  next
    case True
    then obtain t where t: "Current s = Some t"
      using r by (auto simp: KsInitializeMutant_def Let_def split: option.splits)
    have s': "s' = upd_hdr x (\<lambda>h. h\<lparr>ObjectType := MutantObject, SignalState := 0, Abandoned := False, ApcDisable := 0\<rparr>)
        (upd_thr t (MutantListHead_update (\<lambda>l. l @ [x])) (upd_hdr x (\<lambda>h. h\<lparr>MutantOwner := Some t, MutantListEntry := Some t\<rparr>)
          (upd_hdr x (\<lambda>h. h\<lparr>MutantListEntry := None, WaitListHead := []\<rparr>) s)))"
      using r True t by (simp add: KsInitializeMutant_def Let_def)
    have g: "given s1 t [x] s'"
      by (auto simp: given_def s' s1_def KsiIsNotificationObject_def)
    have "signaled s1 x"
      by (simp add: s1_def signaled_def)
    then show ?thesis
      by (intro given_at_once [OF s1 g]) (auto simp: s' s1_def)
  qed
qed

section \<open>Reachable states\<close>

text \<open>
  The steps of the dispatcher. A step is one whole call, or one section of a wait between an acquisition of the
  dispatcher lock and its release, or a yield; the thread that has entered a wait is still the current one until the
  yield, and releases by interrupts can fall between and wake it. The code accepts three things these steps leave out:
  a wait that names an object twice or, with \<open>WaitAny\<close>, a mutant among other objects; the release of a semaphore by
  zero; and a yield that chooses again the thread which yields, after it was woken between the start of its wait and
  the yield. The last section shows what each of them does. Objects are initialised before they are used.
\<close>

inductive ks_step :: "DISPATCHER \<Rightarrow> DISPATCHER \<Rightarrow> bool" where
  init_event: "unused s x \<Longrightarrow> ks_step s (KsInitializeEvent s x ty st)"
| init_semaphore: "unused s x \<Longrightarrow> 0 \<le> sint c \<Longrightarrow> sint c \<le> sint l \<Longrightarrow> ks_step s (KsInitializeSemaphore s x c l)"
| init_mutant: "unused s x \<Longrightarrow> KsInitializeMutant s x own = Some s' \<Longrightarrow> ks_step s s'"
| init_mutex: "unused s x \<Longrightarrow> ks_step s (KsInitializeMutex s x l)"
| waits: "valid_wait n Objects wt xs \<Longrightarrow> wait_request_ok s xs wt \<Longrightarrow> Current s = Some t \<Longrightarrow>
    ThreadState (Thr s t) = Running \<Longrightarrow> KsWaitForMultipleObjects s n Objects wt = Some (s', r) \<Longrightarrow> ks_step s s'"
| yields: "next_thread s n \<Longrightarrow> n = None \<or> n \<noteq> Current s \<Longrightarrow> ks_step s (switch_to s n)"
| wait_resumes: "Current s = Some t \<Longrightarrow> ThreadState (Thr s t) = Running \<Longrightarrow> ks_step s (fst (wait_resumed s t))"
| set_event: "is_event s x \<Longrightarrow> Wait \<longrightarrow> Current s \<noteq> None \<Longrightarrow> KsSetEvent s x Wait = Some (s', r) \<Longrightarrow> ks_step s s'"
| clear_event: "is_event s x \<Longrightarrow> ks_step s (KsClearEvent s x)"
| reset_event: "is_event s x \<Longrightarrow> ks_step s (fst (KsResetEvent s x))"
| release_semaphore: "ObjectType (Hdr s x) = SemaphoreObject \<Longrightarrow> n \<noteq> 0 \<Longrightarrow> Wait \<longrightarrow> Current s \<noteq> None \<Longrightarrow>
    KsReleaseSemaphore s x n Wait = Some (Returned (s', r)) \<Longrightarrow> ks_step s s'"
| release_mutant: "Wait \<longrightarrow> Current s \<noteq> None \<Longrightarrow> KsReleaseMutant s m Wait = Some (s', st) \<Longrightarrow> ks_step s s'"

text \<open>After boot: no object is initialised, the threads of \<open>rq\<close> are queued.\<close>

definition ks_boot :: "tid list \<Rightarrow> DISPATCHER" where
  "ks_boot rq = \<lparr>
     Hdr = \<lambda>x. \<lparr>ObjectType = EventNotificationObject, SignalState = 0, WaitListHead = [], Limit = 0,
                 MutantOwner = None, MutantListEntry = None, Abandoned = False, ApcDisable = 0\<rparr>,
     Thr = \<lambda>t. \<lparr>ThreadState = (if t \<in> set rq then Ready else Initialized),
                 WaitBlock = replicate THREAD_WAIT_OBJECTS \<lparr>BlockObject = None, WaitKey = 0\<rparr>,
                 WaitBlockList = None, WaitType = WaitAny, WaitStatus = STATUS_SUCCESS, WaitNext = False,
                 MutantListHead = []\<rparr>,
     Current = None, RunQueue = rq\<rparr>"

inductive ks_reach :: "tid list \<Rightarrow> DISPATCHER \<Rightarrow> bool" for rq where
  boot: "ks_reach rq (ks_boot rq)"
| step: "ks_reach rq s \<Longrightarrow> ks_step s s' \<Longrightarrow> ks_reach rq s'"

lemma ks_boot_inv: "distinct rq \<Longrightarrow> ks_inv (ks_boot rq)"
proof -
  assume d: "distinct rq"
  have w: "wait_objects (ks_boot rq) t = []" for t
    by (simp add: wait_objects_def ks_boot_def THREAD_WAIT_OBJECTS_def eval_nat_numeral)
  show ?thesis
    unfolding ks_inv_def ks_core_def wait_wf_def signals_ok_def mutants_ok_def queue_ok_def waits_ok_def
      wait_satisfiable_def w
    by (simp add: ks_boot_def d)
qed

lemma ks_step_inv:
  assumes "ks_step s s'" "ks_inv s"
  shows "ks_inv s'"
  using assms
proof (induction rule: ks_step.induct)
  case (waits n Objects wt xs s t s' r)
  show ?case
  proof (cases "KsiAreObjectsSignaled (upd_thr t (WaitNext_update (\<lambda>_. False)) s) (map Some xs) wt")
    case None
    from wait_blocks [OF waits.prems waits.hyps(1-4) None] show ?thesis
      using waits.hyps(5) by auto
  next
    case (Some i)
    from wait_at_once [OF waits.prems waits.hyps(1-3) Some] show ?thesis
      using waits.hyps(5) by auto
  qed
next
  case (yields s n)
  then show ?case using switch_inv by blast
next
  case (release_semaphore s x n Wait s' r)
  from KsReleaseSemaphore_inv [OF release_semaphore.prems release_semaphore.hyps(1-3)] show ?case
    using release_semaphore.hyps(4) by auto
next
  case (set_event s x Wait s' r)
  from KsSetEvent_inv [OF set_event.prems set_event.hyps(1,2)] show ?case
    using set_event.hyps(3) by auto
next
  case (release_mutant Wait s m s' st)
  from KsReleaseMutant_inv [OF release_mutant.prems release_mutant.hyps(1), of m] show ?case
    using release_mutant.hyps(2) by auto
qed (simp_all add: KsInitializeEvent_inv KsInitializeSemaphore_inv KsInitializeMutant_inv KsInitializeMutex_inv
  wait_resumed_inv KsClearEvent_inv)

lemma ks_reach_inv: "ks_reach rq s \<Longrightarrow> distinct rq \<Longrightarrow> ks_inv s"
  by (induction rule: ks_reach.induct) (auto intro: ks_boot_inv ks_step_inv)

text \<open>A run for the examples: thread 1 waits for event 5 and semaphore 6, thread 2 runs.\<close>

definition demo_start :: DISPATCHER where
  "demo_start = KsInitializeSemaphore (KsInitializeEvent (switch_to (ks_boot [1, 2]) (Some 1)) 5
     SynchronizationEvent False) 6 0 4"

definition demo_waiting :: DISPATCHER where
  "demo_waiting = fst (the (KsWaitForMultipleObjects demo_start 2 (Some [Some 5, Some 6]) WaitAny))"

definition demo :: DISPATCHER where
  "demo = switch_to demo_waiting (Some 2)"

lemma wait_demo_reach: "ks_reach [1, 2] demo"
proof -
  have a: "ks_reach [1, 2] (switch_to (ks_boot [1, 2]) (Some 1))"
    by (rule ks_reach.step, rule ks_reach.boot, rule ks_step.yields) (simp_all add: next_thread_def ks_boot_def)
  have u: "unused (switch_to (ks_boot [1, 2]) (Some 1)) 5"
    "unused (KsInitializeEvent (switch_to (ks_boot [1, 2]) (Some 1)) 5 SynchronizationEvent False) 6"
    by (simp_all add: unused_def switch_to_sel KsInitializeEvent_def ks_boot_def)
  have d: "ks_reach [1, 2] demo_start"
    unfolding demo_start_def
    by (rule ks_reach.step, rule ks_reach.step, rule a, rule ks_step.init_event, rule u(1),
        rule ks_step.init_semaphore, rule u(2)) simp_all
  have c: "Current demo_start = Some 1" "ThreadState (Thr demo_start 1) = Running"
    by code_simp+
  have v: "valid_wait 2 (Some [Some 5, Some 6]) WaitAny [5, 6]"
    by (simp add: valid_wait_def THREAD_WAIT_OBJECTS_def)
  have ok: "wait_request_ok demo_start [5, 6] WaitAny"
    by (simp add: wait_request_ok_def demo_start_def KsInitializeEvent_def KsInitializeSemaphore_def)
  have n: "KsiAreObjectsSignaled (upd_thr 1 (WaitNext_update (\<lambda>_. False)) demo_start) (map Some [5, 6]) WaitAny = None"
    by (simp add: KsiAreObjectsSignaled_def signaled_def demo_start_def KsInitializeEvent_def KsInitializeSemaphore_def)
  have inv: "ks_inv demo_start"
    using ks_reach_inv [OF d] by simp
  from wait_blocks [OF inv v ok c n] obtain s' where
    s': "KsWaitForMultipleObjects demo_start 2 (Some [Some 5, Some 6]) WaitAny = Some (s', Blocked)"
    by blast
  have "demo_waiting = s'" by (simp add: demo_waiting_def s')
  then have "ks_reach [1, 2] demo_waiting" using ks_reach.step [OF d ks_step.waits [OF v ok c s']] by simp
  moreover have "RunQueue demo_waiting = [2]" "Current demo_waiting = Some 1" by code_simp+
  ultimately show ?thesis
    unfolding demo_def
    using ks_reach.step [OF _ ks_step.yields, of "[1, 2]" demo_waiting "Some 2"] by (simp add: next_thread_def)
qed

section \<open>Properties\<close>

lemma any_waiter_found:
  assumes "ks_core s" "b \<in> set (WaitListHead (Hdr s x))" "signaled s x" "WaitType (Thr s (fst b)) = WaitAny"
  shows "\<exists>i. waiter_index s x (fst b) = Some i"
proof (cases "waiter_index s x (fst b)")
  case None
  have "x \<in> set (wait_objects s (fst b))"
    by (rule in_wait_list [OF ks_coreD(1) [OF assms(1)] assms(2)])
  then have "wait_satisfiable s (fst b)"
    using assms(3,4) by (auto simp: wait_satisfiable_def)
  then show ?thesis
    using skipped_unsat [OF assms(1,2) None] by blast
qed simp

lemma notification_wakes_all:
  assumes "ks_core s" "WaitListHead (Hdr s x) = ys" "signaled s x" "is_notification s x"
    and "\<forall>b\<in>set ys. WaitType (Thr s (fst b)) = WaitAny"
  shows "\<exists>s'. wait_test_loop x True s (list_first ys) = Some s' \<and> RunQueue s' = RunQueue s @ map fst ys \<and>
    WaitListHead (Hdr s' x) = [] \<and> SignalState (Hdr s' x) = SignalState (Hdr s x) \<and>
    (\<forall>u. u \<notin> fst ` set ys \<longrightarrow> Thr s' u = Thr s u)"
  using assms
proof (induction ys arbitrary: s)
  case Nil
  then show ?case by simp
next
  case (Cons b ys)
  let ?t = "fst b"
  note wf = ks_coreD(1) [OF Cons.prems(1)]
  have d: "b \<notin> set ys" "?t \<notin> fst ` set ys"
    using wait_wfD(4) [OF wf, of x] waiting_once [OF wf, of x] by (auto simp: Cons.prems(2))
  have b_in: "b \<in> set (WaitListHead (Hdr s x))"
    by (simp add: Cons.prems(2))
  obtain i where i: "waiter_index s x ?t = Some i"
    using any_waiter_found [OF Cons.prems(1) b_in Cons.prems(3)] Cons.prems(5) by auto
  obtain s' where s': "KsiSatisfyThreadWait s ?t i = Some s'" and w: "woken s ?t (consumed s ?t i) s'"
    and core: "ks_core s'"
    using satisfied_wakes [OF Cons.prems(1,3) i] by blast
  note W = wokenD [OF w]
  have other: "\<forall>c\<in>set ys. fst c \<noteq> ?t" using d(2) by (metis imageI)
  have list: "WaitListHead (Hdr s' x) = ys"
    using other by (simp add: W(1) Cons.prems(2))
  have sig: "SignalState (Hdr s' x) = SignalState (Hdr s x)"
    using Cons.prems(4) by (simp add: W(1))
  have any: "\<forall>c\<in>set ys. WaitType (Thr s' (fst c)) = WaitAny"
    using Cons.prems(5) other by (simp add: W(2))
  obtain s'' where s'': "wait_test_loop x True s' (list_first ys) = Some s''" "RunQueue s'' = RunQueue s' @ map fst ys"
      "WaitListHead (Hdr s'' x) = []" "SignalState (Hdr s'' x) = SignalState (Hdr s' x)"
      "\<forall>u. u \<notin> fst ` set ys \<longrightarrow> Thr s'' u = Thr s' u"
    using Cons.IH [OF core list _ _ any] Cons.prems(3,4) sig w by (auto simp: signaled_def)
  have "flink (WaitListHead (Hdr s x)) b = list_first ys"
    using d(1) by (simp add: Cons.prems(2) list_first_def)
  then have "wait_test_loop x True s (Some b) = Some s''"
    using s''(1) by (simp add: loop_wake [OF i s'])
  then show ?case
    using s''(2-5) sig by (auto simp: W(2,8))
qed



text \<open>C8: In every state of C7 the wait lists of the objects and the wait blocks of the threads describe the same
  waits, the run queue holds every ready thread once and only those, no thread but the current one is running, and
  only a waiting thread has wait blocks in use.\<close>

theorem dispatcher_consistent:
  assumes "distinct rq" "ks_reach rq s"
  shows "((t, i) \<in> set (WaitListHead (Hdr s x)) \<longleftrightarrow> i < length (wait_objects s t) \<and> wait_objects s t ! i = x) \<and>
    distinct (WaitListHead (Hdr s x)) \<and> distinct (RunQueue s) \<and>
    (t \<in> set (RunQueue s) \<longleftrightarrow> ThreadState (Thr s t) = Ready) \<and>
    (ThreadState (Thr s t) = Running \<longrightarrow> Current s = Some t) \<and>
    (wait_objects s t = [] \<or> ThreadState (Thr s t) = Waiting)"
proof -
  have core: "ks_core s" using ks_reach_inv [OF assms(2,1)] by (simp add: ks_inv_def)
  then show ?thesis
    using wait_wfD(4,5) [OF ks_coreD(1) [OF core]] ks_coreD(4) [OF core] unfolding queue_ok_def by blast
qed

theorem dispatcher_consistent_witness:
  "((1, 0) \<in> set (WaitListHead (Hdr demo 5)) \<longleftrightarrow> 0 < length (wait_objects demo 1) \<and> wait_objects demo 1 ! 0 = 5) \<and>
    wait_objects demo 1 = [5, 6]"
proof -
  have "wait_objects demo 1 = [5, 6]" by code_simp
  then show ?thesis
    using dispatcher_consistent [OF _ wait_demo_reach, of 1 0 5] by simp
qed



text \<open>C10: In every state of C7 a mutant is signaled exactly when nobody owns it, it is in the list of its owner and in no
  other, and only the owner can release it.\<close>

theorem mutant_exclusion:
  assumes "distinct rq" "ks_reach rq s" "ObjectType (Hdr s x) = MutantObject"
  shows "(signaled s x \<longleftrightarrow> MutantOwner (Hdr s x) = None) \<and>
    (x \<in> set (MutantListHead (Thr s t)) \<longleftrightarrow> MutantOwner (Hdr s x) = Some t) \<and>
    (Current s = Some t \<and> MutantOwner (Hdr s x) \<noteq> Some t \<longrightarrow>
       KsReleaseMutant s (Some x) Wait = Some (s, STATUS_ACCESS_DENIED))"
proof -
  have "mutants_ok s"
    using ks_reach_inv [OF assms(2,1)] by (simp add: ks_inv_def ks_core_def)
  then show ?thesis
    using assms(3) by (auto simp: mutants_ok_def signaled_def KsReleaseMutant_def KsiReleaseMutant_def split: if_splits)
qed

definition demo_mutant :: DISPATCHER where
  "demo_mutant = KsInitializeMutex demo 7 0"

lemma demo_mutant_reach: "ks_reach [1, 2] demo_mutant"
proof -
  have "unused demo 7" by code_simp
  then show ?thesis
    unfolding demo_mutant_def by (rule ks_reach.step [OF wait_demo_reach ks_step.init_mutex])
qed

theorem mutant_exclusion_witness:
  "Current demo_mutant = Some 2 \<and> KsReleaseMutant demo_mutant (Some 7) False = Some (demo_mutant, STATUS_ACCESS_DENIED)"
proof -
  have "ObjectType (Hdr demo_mutant 7) = MutantObject" "Current demo_mutant = Some 2"
    "MutantOwner (Hdr demo_mutant 7) \<noteq> Some 2" by code_simp+
  then show ?thesis
    using mutant_exclusion [OF _ demo_mutant_reach, of 7 2 False] by simp
qed



lemma set_event_sync:
  assumes inv: "ks_inv s" and zero: "SignalState (Hdr s x) = 0"
    and ty: "ObjectType (Hdr s x) = EventSynchronizationObject" and wl: "WaitListHead (Hdr s x) = (t, i) # ys"
    and any: "WaitType (Thr s t) = WaitAny"
  shows "\<exists>s'. KsSetEvent s x False = Some (s', 0) \<and> ThreadState (Thr s' t) = Ready \<and>
         WaitStatus (Thr s' t) = STATUS_SUCCESS \<and> (\<forall>u. u \<noteq> t \<longrightarrow> Thr s' u = Thr s u) \<and>
         RunQueue s' = RunQueue s @ [t] \<and> \<not> signaled s' x"
proof -
  let ?s = "set_signal x 1 s"
  have c: "ks_core ?s"
    using inv ty by (intro core_set_signal) (auto simp: ks_inv_def)
  have sig: "signaled ?s x" by (simp add: signaled_def)
  have b: "(t, i) \<in> set (WaitListHead (Hdr ?s x))" using wl by simp
  obtain k where k: "waiter_index ?s x t = Some k"
    using any_waiter_found [OF c b sig] any by auto
  obtain s' where s': "KsiSatisfyThreadWait ?s t k = Some s'" and w: "woken ?s t (consumed ?s t k) s'"
    and kk: "WaitType (Thr ?s t) = WaitAny \<longrightarrow> k < length (wait_objects ?s t) \<and> wait_objects ?s t ! k = x"
    using satisfied_wakes [OF c sig k] by blast
  note W = wokenD [OF w]
  have "consumed ?s t k = [x]" using kk any by (simp add: consumed_def)
  then have ns: "SignalState (Hdr s' x) = 0"
    using ty by (simp add: W(1) KsiIsNotificationObject_def)
  have "KsWaitTest ?s (Some x) = Some s'"
    using wl ty ns loop_wake [of ?s x "(t, i)" k s'] k s'
    by (simp add: KsWaitTest_def KsiIsNotificationObject_def signaled_def)
  then have "KsSetEvent s x False = Some (s', 0)"
    using zero ty wl by (simp add: KsSetEvent_def Let_def finish_release_def)
  then show ?thesis
    using W(2,3,4,8) ns by (simp add: signaled_def)
qed

lemma set_event_notification:
  assumes inv: "ks_inv s" and zero: "SignalState (Hdr s x) = 0"
    and ty: "ObjectType (Hdr s x) = EventNotificationObject"
    and any: "\<forall>b\<in>set (WaitListHead (Hdr s x)). WaitType (Thr s (fst b)) = WaitAny"
  shows "\<exists>s'. KsSetEvent s x False = Some (s', 0) \<and> RunQueue s' = RunQueue s @ map fst (WaitListHead (Hdr s x)) \<and>
         WaitListHead (Hdr s' x) = [] \<and> signaled s' x"
proof -
  let ?s = "set_signal x 1 s"
  have c: "ks_core ?s"
    using inv ty by (intro core_set_signal) (auto simp: ks_inv_def)
  have sig: "signaled ?s x" by (simp add: signaled_def)
  obtain s' where s': "wait_test_loop x True ?s (list_first (WaitListHead (Hdr ?s x))) = Some s'"
      "RunQueue s' = RunQueue ?s @ map fst (WaitListHead (Hdr ?s x))" "WaitListHead (Hdr s' x) = []"
      "SignalState (Hdr s' x) = SignalState (Hdr ?s x)"
    using notification_wakes_all [OF c refl sig] ty any by (auto simp: KsiIsNotificationObject_def)
  then show ?thesis
    using zero ty by (auto simp: KsSetEvent_def Let_def finish_release_def KsWaitTest_def
        KsiIsNotificationObject_def signaled_def)
qed

text \<open>Setting a synchronization event that is not signaled hands it to the first thread of its
  wait list when that thread waits for any of its objects: the thread becomes ready with success, no
  other thread changes and the event is not signaled afterwards. Setting a notification event readies all its
  waiters of this kind in the order of the list and leaves the event signaled.\<close>

theorem set_event_wakes:
  assumes "distinct rq" "ks_reach rq s" "SignalState (Hdr s x) = 0"
    and "\<forall>b\<in>set (WaitListHead (Hdr s x)). WaitType (Thr s (fst b)) = WaitAny"
  shows "(ObjectType (Hdr s x) = EventSynchronizationObject \<and> WaitListHead (Hdr s x) = (t, i) # ys \<longrightarrow>
      (\<exists>s'. KsSetEvent s x False = Some (s', 0) \<and> ThreadState (Thr s' t) = Ready \<and>
         WaitStatus (Thr s' t) = STATUS_SUCCESS \<and> (\<forall>u. u \<noteq> t \<longrightarrow> Thr s' u = Thr s u) \<and>
         RunQueue s' = RunQueue s @ [t] \<and> \<not> signaled s' x)) \<and>
    (ObjectType (Hdr s x) = EventNotificationObject \<longrightarrow>
      (\<exists>s'. KsSetEvent s x False = Some (s', 0) \<and> RunQueue s' = RunQueue s @ map fst (WaitListHead (Hdr s x)) \<and>
         WaitListHead (Hdr s' x) = [] \<and> signaled s' x))"
  using set_event_sync [OF ks_reach_inv [OF assms(2,1)] assms(3), of t i ys]
    set_event_notification [OF ks_reach_inv [OF assms(2,1)] assms(3) _ assms(4)] assms(4) by auto

theorem set_event_wakes_witness:
  "\<exists>s'. KsSetEvent demo 5 False = Some (s', 0) \<and> ThreadState (Thr s' 1) = Ready \<and> \<not> signaled s' 5"
proof -
  have a: "SignalState (Hdr demo 5) = 0" "\<forall>b\<in>set (WaitListHead (Hdr demo 5)). WaitType (Thr demo (fst b)) = WaitAny"
    "ObjectType (Hdr demo 5) = EventSynchronizationObject" "WaitListHead (Hdr demo 5) = [(1, 0)]"
    by code_simp+
  then show ?thesis
    using set_event_wakes [OF _ wait_demo_reach a(1,2), of 1 0 "[]"] by auto
qed

declare wait_test_loop.simps [code]

section \<open>What goes wrong\<close>

text \<open>
  A second thread owns mutant 7 and waits; thread 1 waits for event 5 or the mutant.
\<close>

definition demo_any :: DISPATCHER where
  "demo_any = (let s = switch_to (ks_boot [2, 1]) (Some 2);
       s = the (KsInitializeMutant s 7 True);
       s = KsInitializeEvent s 5 SynchronizationEvent False;
       s = switch_to s (Some 1);
       s = fst (the (KsWaitForMultipleObjects s 2 (Some [Some 5, Some 7]) WaitAny))
     in switch_to s (Some 2))"

text \<open>Setting the event that thread 1 waits for calls \<open>KsiAssignMutantOwner\<close> also for the mutant, which is not
  signaled and is in the list of its owner: the call would link it a second time.\<close>

theorem wait_any_steals_mutant:
  "wait_objects demo_any 1 = [5, 7] \<and> MutantOwner (Hdr demo_any 7) = Some 2 \<and> \<not> signaled demo_any 7 \<and>
   KsiAssignMutantOwner demo_any 1 7 = None \<and> KsSetEvent demo_any 5 False = None"
proof -
  have 1: "wait_objects demo_any 1 = [5, 7]" "MutantOwner (Hdr demo_any 7) = Some 2" "\<not> signaled demo_any 7"
    by code_simp+
  have "Option.is_none (KsiAssignMutantOwner demo_any 1 7)" "Option.is_none (KsSetEvent demo_any 5 False)"
    by code_simp+
  with 1 show ?thesis by (simp add: Option.is_none_def)
qed

text \<open>Releasing a semaphore by zero wakes a waiting thread and leaves the count below zero.\<close>

theorem release_by_zero_underflows:
  "SignalState (Hdr demo 6) = 0 \<and> ThreadState (Thr demo 1) = Waiting \<and>
   (case KsReleaseSemaphore demo 6 0 False of
      Some (Returned (s, r)) \<Rightarrow> sint (KsReadStateSemaphore s 6) = -1 \<and> ThreadState (Thr s 1) = Ready
    | _ \<Rightarrow> False)"
  by code_simp

text \<open>Thread 1 names the notification event 5 twice in one wait.\<close>

definition demo_twice :: DISPATCHER where
  "demo_twice = (let s = switch_to (ks_boot [1, 2]) (Some 1);
       s = KsInitializeEvent s 5 NotificationEvent False;
       s = fst (the (KsWaitForMultipleObjects s 2 (Some [Some 5, Some 5]) WaitAny))
     in switch_to s (Some 2))"

lemma wait_test_stuck:
  assumes "waiter_index s x (fst b) = None" "flink (WaitListHead (Hdr s x)) b = Some b"
  shows "wait_test_loop x N s (Some b) = None"
proof (rule ccontr)
  assume "wait_test_loop x N s (Some b) \<noteq> None"
  then obtain s' where r: "wait_test_loop x N s (Some b) = Some s'" by auto
  define stuck where "stuck s x e \<longleftrightarrow> (\<exists>b. e = Some b \<and> waiter_index s x (fst b) = None \<and>
      flink (WaitListHead (Hdr s x)) b = Some b)" for s x e
  have "\<not> stuck s x (Some b)"
  proof (rule wait_test_loop.raw_induct [where xa = "(((x, N), s), Some b)" and y = s' and
          P = "\<lambda>x N s e s'. \<not> stuck s x e", simplified prod.case])
    fix f :: "obj \<Rightarrow> bool \<Rightarrow> DISPATCHER \<Rightarrow> (tid \<times> nat) option \<Rightarrow> DISPATCHER option" and x N s e y
    assume IH: "\<And>x N s e y. f x N s e = Some y \<Longrightarrow> \<not> stuck s x e"
      and eq: "(if e = None then Some s
         else if waiter_index s x (fst (the e)) = None
         then f x N s (flink (WaitListHead (Hdr s x)) (the e))
         else do { s' \<leftarrow> KsiSatisfyThreadWait s (fst (the e)) (the (waiter_index s x (fst (the e))));
           if \<not> N \<and> \<not> signaled s' x then Some s'
           else f x N s' (flink (WaitListHead (Hdr s x)) (the e)) }) = Some y"
    show "\<not> stuck s x e"
    proof
      assume st: "stuck s x e"
      then have "f x N s e = Some y"
        using eq by (auto simp: stuck_def)
      from IH [OF this] st show False by blast
    qed
  qed (rule r)
  then show False
    using assms by (simp add: stuck_def)
qed

text \<open>C12: A wait that names the same notification event twice is accepted, and setting the event then
  never returns: the list entry the loop of the wait test has saved is linked to itself.\<close>

theorem duplicate_wait_never_returns:
  "WaitListHead (Hdr demo_twice 5) = [(1, 0), (1, 1)] \<and> KsSetEvent demo_twice 5 False = None"
proof -
  let ?s = "set_signal 5 1 demo_twice"
  let ?r = "the (KsiSatisfyThreadWait ?s 1 0)"
  have l: "WaitListHead (Hdr demo_twice 5) = [(1, 0), (1, 1)]" "SignalState (Hdr demo_twice 5) = 0"
    "ObjectType (Hdr demo_twice 5) = EventNotificationObject"
    by code_simp+
  have w: "waiter_index ?s 5 1 = Some 0" "\<not> Option.is_none (KsiSatisfyThreadWait ?s 1 0)"
    by code_simp+
  have s: "waiter_index ?r 5 1 = None" "flink (WaitListHead (Hdr ?r 5)) (1, 1) = Some (1, 1)"
    by code_simp+
  have r: "KsiSatisfyThreadWait ?s 1 0 = Some ?r"
    using w(2) by (auto simp: Option.is_none_def)
  have "wait_test_loop 5 True ?s (Some (1, 0)) = None"
    using loop_wake [of ?s 5 "(1, 0)" 0 ?r True] w(1) r wait_test_stuck [of ?r 5 "(1, 1)" True] s l(1)
    by simp
  then have "KsWaitTest ?s (Some 5) = None"
    using l by (simp add: KsWaitTest_def KsiIsNotificationObject_def)
  then show ?thesis
    using l by (simp add: KsSetEvent_def Let_def)
qed

text \<open>
  Thread 1 waits for the event 5, and the event is set and cleared before the thread has
  yielded; thread 2 never runs.
\<close>

definition demo_race :: DISPATCHER where
  "demo_race = (let s = switch_to (ks_boot [1, 2]) (Some 1);
       s = KsInitializeEvent s 5 SynchronizationEvent False;
       s = fst (the (KsWaitForMultipleObjects s 1 (Some [Some 5]) WaitAny));
       s = fst (the (KsSetEvent s 5 False));
       s = switch_to s (Some 1);
       s = fst (wait_resumed s 1)
     in s)"

definition demo_race_again :: DISPATCHER where
  "demo_race_again = switch_to (fst (the (KsWaitForMultipleObjects demo_race 1 (Some [Some 5]) WaitAny))) (Some 1)"

text \<open>When an event wakes a thread between the release of the dispatcher level and the yield, and the
  scheduler picks the same thread, the thread runs while it is in the run queue. Its next wait for the event,
  which is not signaled, puts it to sleep in the queue: the scheduler runs it at once and the wait returns
  \<open>STATUS_PENDING\<close>.\<close>

theorem wake_before_yield_breaks_wait:
  "Current demo_race = Some 1 \<and> ThreadState (Thr demo_race 1) = Ready \<and> 1 \<in> set (RunQueue demo_race) \<and>
   \<not> signaled demo_race 5 \<and> Current demo_race_again = Some 1 \<and>
   snd (wait_resumed demo_race_again 1) = STATUS_PENDING"
  by code_simp

end
