(* ===== verification/KsGuardedMutex.thy ===== *)
theory KsGuardedMutex
  imports VeaBase
begin

text \<open>
  Gates (\<open>veakrnl/ks/gate.c\<close>) and guarded mutexes (\<open>gmutex.c\<close> and
  \<open>KsiAcquireGuardedMutex\<close> of \<open>wait.c\<close>) under every interleaving of the atomic actions of
  any number of threads.

  A thread is at a program point (\<open>gm_pc\<close>) between two atomic actions: the interlocked
  operations on \<open>Count\<close>, the store to \<open>Owner\<close>, and the two gate operations, which run with
  interrupts disabled. \<open>gm_next\<close> executes one action; a schedule is the list of the actions
  chosen by the scheduler and the callers, so every property of \<open>gm_run\<close> holds for
  every interleaving. The guarded region counter and the APC delivery of \<open>internal/x.h\<close>
  are left out.
\<close>

section \<open>Data\<close>

definition GM_LOCK_BIT :: u32 where "GM_LOCK_BIT = 1"
definition GM_LOCK_WAITER_WOKEN :: u32 where "GM_LOCK_WAITER_WOKEN = 2"
definition GM_LOCK_WAITER_INC :: u32 where "GM_LOCK_WAITER_INC = 4"

lemmas gm_bits = GM_LOCK_BIT_def GM_LOCK_WAITER_WOKEN_def GM_LOCK_WAITER_INC_def

record KGUARDED_MUTEX =
  Count :: u32
  Owner :: "nat option"
  Contention :: u32
  GateSignal :: u32
  GateWaiters :: "nat list"

text \<open>
  Program points. \<open>SlowRead\<close>: about to read \<open>Count\<close> in \<open>KsiAcquireGuardedMutex\<close> with the
  given bits to remove and to add; \<open>SlowLoop\<close>: about to compare and exchange with the value
  read; \<open>AtGate\<close>: about to call \<open>KsWaitForGate\<close>; \<open>OnGate\<close>: asleep in the gate; \<open>GotLock\<close>:
  the lock is taken, \<open>Owner\<close> not yet stored; \<open>ReleaseAdd\<close>, \<open>ReleaseCas\<close>, \<open>Signalling\<close>: the
  steps of a release after the store of \<open>Owner\<close>.
\<close>

datatype gm_pc = Outside | SlowRead u32 u32 | SlowLoop u32 u32 u32 | AtGate | OnGate | GotLock | Inside
  | ReleaseAdd | ReleaseCas u32 | Signalling

section \<open>Gates (\<open>gate.c\<close>)\<close>

definition KsInitializeGate :: "KGUARDED_MUTEX \<Rightarrow> KGUARDED_MUTEX" where
  "KsInitializeGate g = g\<lparr>GateSignal := 0, GateWaiters := []\<rparr>"

text \<open>\<open>KsWaitForGate\<close> of thread \<open>t\<close>: true when it goes on, false when it sleeps in the gate.\<close>

definition KsWaitForGate :: "KGUARDED_MUTEX \<Rightarrow> nat \<Rightarrow> KGUARDED_MUTEX \<times> bool" where
  "KsWaitForGate g t =
     (if GateSignal g \<noteq> 0 then (g\<lparr>GateSignal := 0\<rparr>, True)
      else (g\<lparr>GateWaiters := GateWaiters g @ [t]\<rparr>, False))"

text \<open>\<open>KsSignalGate\<close>, with the thread it wakes.\<close>

definition KsSignalGate :: "KGUARDED_MUTEX \<Rightarrow> KGUARDED_MUTEX \<times> nat option" where
  "KsSignalGate g = (case GateWaiters g of
       t # ts \<Rightarrow> (g\<lparr>GateWaiters := ts\<rparr>, Some t)
     | [] \<Rightarrow> (g\<lparr>GateSignal := 1\<rparr>, None))"

section \<open>Guarded mutexes\<close>

definition KsInitializeGuardedMutex :: "KGUARDED_MUTEX \<Rightarrow> KGUARDED_MUTEX" where
  "KsInitializeGuardedMutex g = KsInitializeGate (g\<lparr>Count := GM_LOCK_BIT, Owner := None, Contention := 0\<rparr>)"

text \<open>\<open>__InterlockedBitTestAndReset (&Count, GM_LOCK_BIT_V)\<close>.\<close>

definition bit_test_and_reset :: "KGUARDED_MUTEX \<Rightarrow> KGUARDED_MUTEX \<times> bool" where
  "bit_test_and_reset g = (g\<lparr>Count := Count g AND NOT 1\<rparr>, bit (Count g) 0)"

text \<open>\<open>KsAcquireGuardedMutex\<close>, \<open>KsAcquireGuardedMutexUnsafe\<close> up to the slow path.\<close>

definition KsAcquireGuardedMutex :: "KGUARDED_MUTEX \<Rightarrow> KGUARDED_MUTEX \<times> gm_pc" where
  "KsAcquireGuardedMutex g = (case bit_test_and_reset g of
       (g, True) \<Rightarrow> (g, GotLock)
     | (g, False) \<Rightarrow> (g\<lparr>Contention := Contention g + 1\<rparr>, SlowRead GM_LOCK_BIT GM_LOCK_WAITER_INC))"

definition KsTryToAcquireGuardedMutex :: "KGUARDED_MUTEX \<Rightarrow> KGUARDED_MUTEX \<times> gm_pc" where
  "KsTryToAcquireGuardedMutex g = (case bit_test_and_reset g of
       (g, True) \<Rightarrow> (g, GotLock)
     | (g, False) \<Rightarrow> (g, Outside))"

text \<open>One compare and exchange of the inner loop of \<open>KsiAcquireGuardedMutex\<close>.\<close>

definition KsiAcquireGuardedMutex :: "KGUARDED_MUTEX \<Rightarrow> u32 \<Rightarrow> u32 \<Rightarrow> u32 \<Rightarrow> KGUARDED_MUTEX \<times> gm_pc" where
  "KsiAcquireGuardedMutex g BitsToRemove BitsToAdd OldValue =
     (if OldValue AND GM_LOCK_BIT \<noteq> 0
      then (if Count g = OldValue then (g\<lparr>Count := OldValue XOR BitsToRemove\<rparr>, GotLock)
            else (g, SlowLoop BitsToRemove BitsToAdd (Count g)))
      else (if Count g = OldValue then (g\<lparr>Count := OldValue + BitsToAdd\<rparr>, AtGate)
            else (g, SlowLoop BitsToRemove BitsToAdd (Count g))))"

text \<open>The two atomic actions of a release after the store of \<open>Owner\<close>.\<close>

definition release_add :: "KGUARDED_MUTEX \<Rightarrow> KGUARDED_MUTEX \<times> gm_pc" where
  "release_add g =
     (let OldValue = Count g; g = g\<lparr>Count := Count g + GM_LOCK_BIT\<rparr>
      in if OldValue \<noteq> 0 \<and> OldValue AND GM_LOCK_WAITER_WOKEN = 0
         then (g, ReleaseCas (OldValue + GM_LOCK_BIT)) else (g, Outside))"

definition woken_value :: "u32 \<Rightarrow> u32" where
  "woken_value OldValue = OldValue + GM_LOCK_WAITER_WOKEN - GM_LOCK_WAITER_INC"

definition KsReleaseGuardedMutexUnsafe :: "KGUARDED_MUTEX \<Rightarrow> u32 \<Rightarrow> KGUARDED_MUTEX \<times> gm_pc" where
  "KsReleaseGuardedMutexUnsafe g OldValue =
     (if Count g = OldValue then (g\<lparr>Count := woken_value OldValue\<rparr>, Signalling) else (g, Outside))"

text \<open>\<open>KsReleaseGuardedMutex\<close> tests the value returned by the exchange for zero instead.\<close>

definition KsReleaseGuardedMutex :: "KGUARDED_MUTEX \<Rightarrow> u32 \<Rightarrow> KGUARDED_MUTEX \<times> gm_pc" where
  "KsReleaseGuardedMutex g OldValue =
     (let Returned = Count g;
          g = (if Count g = OldValue then g\<lparr>Count := woken_value OldValue\<rparr> else g)
      in if Returned \<noteq> 0 then (g, Signalling) else (g, Outside))"

section \<open>Interleavings\<close>

datatype gm_action = Acquire nat | TryAcquire nat | Release nat | Continue nat

type_synonym gm_state = "KGUARDED_MUTEX \<times> gm_pc list"

definition go :: "gm_pc list \<Rightarrow> nat \<Rightarrow> KGUARDED_MUTEX \<times> gm_pc \<Rightarrow> gm_state" where
  "go pcs t r = (fst r, pcs[t := snd r])"

definition gm_continue :: "(KGUARDED_MUTEX \<Rightarrow> u32 \<Rightarrow> KGUARDED_MUTEX \<times> gm_pc) \<Rightarrow> gm_state \<Rightarrow> nat \<Rightarrow> gm_state" where
  "gm_continue release s t = (case s of (g, pcs) \<Rightarrow> (case pcs ! t of
       SlowRead r a \<Rightarrow> (g, pcs[t := SlowLoop r a (Count g)])
     | SlowLoop r a v \<Rightarrow> go pcs t (KsiAcquireGuardedMutex g r a v)
     | AtGate \<Rightarrow> (case KsWaitForGate g t of (g, passed) \<Rightarrow>
         (g, pcs[t := if passed then SlowRead (GM_LOCK_BIT OR GM_LOCK_WAITER_WOKEN) GM_LOCK_WAITER_WOKEN else OnGate]))
     | GotLock \<Rightarrow> (g\<lparr>Owner := Some t\<rparr>, pcs[t := Inside])
     | ReleaseAdd \<Rightarrow> go pcs t (release_add g)
     | ReleaseCas v \<Rightarrow> go pcs t (release g v)
     | Signalling \<Rightarrow> (case KsSignalGate g of
           (g, None) \<Rightarrow> (g, pcs[t := Outside])
         | (g, Some u) \<Rightarrow> (g, pcs[t := Outside,
             u := SlowRead (GM_LOCK_BIT OR GM_LOCK_WAITER_WOKEN) GM_LOCK_WAITER_WOKEN]))
     | Outside \<Rightarrow> s | OnGate \<Rightarrow> s | Inside \<Rightarrow> s))"

definition gm_next :: "(KGUARDED_MUTEX \<Rightarrow> u32 \<Rightarrow> KGUARDED_MUTEX \<times> gm_pc) \<Rightarrow> gm_state \<Rightarrow> gm_action \<Rightarrow> gm_state" where
  "gm_next release s a = (case s of (g, pcs) \<Rightarrow> (case a of
       Acquire t \<Rightarrow> if t < length pcs \<and> pcs ! t = Outside then go pcs t (KsAcquireGuardedMutex g) else s
     | TryAcquire t \<Rightarrow> if t < length pcs \<and> pcs ! t = Outside then go pcs t (KsTryToAcquireGuardedMutex g) else s
     | Release t \<Rightarrow> if t < length pcs \<and> pcs ! t = Inside then (g\<lparr>Owner := None\<rparr>, pcs[t := ReleaseAdd]) else s
     | Continue t \<Rightarrow> if t < length pcs then gm_continue release s t else s))"

definition gm_start :: "nat \<Rightarrow> gm_state" where
  "gm_start n = (KsInitializeGuardedMutex \<lparr>Count = 0, Owner = None, Contention = 0, GateSignal = 0, GateWaiters = []\<rparr>,
     replicate n Outside)"

definition gm_run :: "(KGUARDED_MUTEX \<Rightarrow> u32 \<Rightarrow> KGUARDED_MUTEX \<times> gm_pc) \<Rightarrow> nat \<Rightarrow> gm_action list \<Rightarrow> gm_state" where
  "gm_run release n as = foldl (gm_next release) (gm_start n) as"

section \<open>The invariant of the unsafe release\<close>

definition cnt :: "('a \<Rightarrow> bool) \<Rightarrow> 'a list \<Rightarrow> nat" where
  "cnt P xs = length (filter P xs)"

lemma cnt_update:
  "t < length xs \<Longrightarrow> cnt P (xs[t := v]) + of_bool (P (xs ! t)) = cnt P xs + of_bool (P v)"
proof (induction xs arbitrary: t)
  case (Cons x xs)
  then show ?case by (cases t) (auto simp: cnt_def)
qed simp

lemma cnt_pos: "cnt P xs > 0 \<longleftrightarrow> (\<exists>t<length xs. P (xs ! t))"
  by (simp add: cnt_def length_greater_0_conv filter_empty_conv) (metis in_set_conv_nth)

lemma cnt_le: "cnt P xs \<le> length xs"
  by (simp add: cnt_def)

lemma cnt_two:
  assumes "cnt P xs \<le> 1" "t < length xs" "u < length xs" "P (xs ! t)" "P (xs ! u)"
  shows "t = u"
proof (rule ccontr)
  assume "t \<noteq> u"
  have "card {i. i < length xs \<and> P (xs ! i)} = cnt P xs"
    by (simp add: cnt_def length_filter_conv_card)
  moreover have "{t, u} \<subseteq> {i. i < length xs \<and> P (xs ! i)}" using assms by auto
  then have "card {t, u} \<le> card {i. i < length xs \<and> P (xs ! i)}"
    by (rule card_mono [rotated]) simp
  ultimately show False using \<open>t \<noteq> u\<close> assms(1) by simp
qed

fun holds :: "gm_pc \<Rightarrow> bool" where
  "holds GotLock = True" | "holds Inside = True" | "holds ReleaseAdd = True" | "holds _ = False"

fun waits :: "gm_pc \<Rightarrow> bool" where
  "waits AtGate = True" | "waits OnGate = True" | "waits _ = False"

fun was_woken :: "gm_pc \<Rightarrow> bool" where
  "was_woken (SlowRead r a) = (r = 3)" | "was_woken (SlowLoop r a v) = (r = 3)" | "was_woken _ = False"

fun pc_ok :: "gm_pc \<Rightarrow> bool" where
  "pc_ok (SlowRead r a) = (r = 1 \<and> a = 4 \<or> r = 3 \<and> a = 2)"
| "pc_ok (SlowLoop r a v) = (r = 1 \<and> a = 4 \<or> r = 3 \<and> a = 2)"
| "pc_ok (ReleaseCas v) = (unat v mod 4 = 1 \<and> 1 < unat v)"
| "pc_ok _ = True"

definition pending :: "KGUARDED_MUTEX \<Rightarrow> gm_pc list \<Rightarrow> nat" where
  "pending g pcs = cnt (\<lambda>p. p = Signalling) pcs + of_bool (GateSignal g \<noteq> 0)"

text \<open>
  \<open>Count\<close> is the lock bit, plus 2 while a wake-up is under way, plus 4 for every thread in or
  before the gate for which none is. If the lock is free, nobody is being woken and
  somebody waits, then a releasing thread is about to wake him.
\<close>

definition gm_inv :: "gm_state \<Rightarrow> bool" where
  "gm_inv s = (case s of (g, pcs) \<Rightarrow>
     length pcs < 2 ^ 29 \<and> (\<forall>t<length pcs. pc_ok (pcs ! t)) \<and>
     distinct (GateWaiters g) \<and> (\<forall>t. t \<in> set (GateWaiters g) \<longleftrightarrow> t < length pcs \<and> pcs ! t = OnGate) \<and>
     (GateSignal g \<noteq> 0 \<longrightarrow> GateWaiters g = []) \<and>
     unat (Count g) + cnt holds pcs + 2 * pending g pcs = 1 + 2 * cnt was_woken pcs + 4 * cnt waits pcs \<and>
     cnt holds pcs \<le> 1 \<and> pending g pcs + cnt was_woken pcs \<le> 1 \<and> pending g pcs \<le> cnt waits pcs \<and>
     (\<forall>t<length pcs. pcs ! t = Inside \<longrightarrow> Owner g = Some t) \<and>
     (cnt holds pcs = 0 \<longrightarrow> pending g pcs + cnt was_woken pcs = 0 \<longrightarrow> 0 < cnt waits pcs \<longrightarrow>
        (\<exists>t<length pcs. pcs ! t = ReleaseCas (Count g))))"

lemma gm_invD:
  assumes "gm_inv (g, pcs)"
  shows "length pcs < 2 ^ 29" "\<And>t. t < length pcs \<Longrightarrow> pc_ok (pcs ! t)" "distinct (GateWaiters g)"
    "\<And>t. t \<in> set (GateWaiters g) \<longleftrightarrow> t < length pcs \<and> pcs ! t = OnGate"
    "GateSignal g \<noteq> 0 \<Longrightarrow> GateWaiters g = []"
    "unat (Count g) + cnt holds pcs + 2 * pending g pcs = 1 + 2 * cnt was_woken pcs + 4 * cnt waits pcs"
    "cnt holds pcs \<le> 1" "pending g pcs + cnt was_woken pcs \<le> 1" "pending g pcs \<le> cnt waits pcs"
    "\<And>t. t < length pcs \<Longrightarrow> pcs ! t = Inside \<Longrightarrow> Owner g = Some t"
    "cnt holds pcs = 0 \<Longrightarrow> pending g pcs + cnt was_woken pcs = 0 \<Longrightarrow> 0 < cnt waits pcs \<Longrightarrow>
        \<exists>t<length pcs. pcs ! t = ReleaseCas (Count g)"
  using assms unfolding gm_inv_def prod.case by (simp_all only: simp_thms)

section \<open>The bits of the count\<close>

lemma unat_and_1: "unat (w AND 1) = unat (w :: u32) mod 2"
  using unat_and_mask [of w 1] by (simp add: mask_eq_exp_minus_1)

lemma and_1_zero: "w AND 1 = 0 \<longleftrightarrow> unat (w :: u32) mod 2 = 0"
  using unat_and_1 [of w] by (metis unat_eq_zero)

lemma bit_unat: "bit (w :: u32) n \<longleftrightarrow> unat w div 2 ^ n mod 2 = 1"
proof -
  have "bit w n \<longleftrightarrow> bit (unat w) n"
    by (simp add: bit_unsigned_iff)
  then show ?thesis
    by (simp add: bit_iff_odd odd_iff_mod_2_eq_one)
qed

lemma unat_reset_0: "unat (w AND NOT 1) = unat (w :: u32) - unat w mod 2"
proof -
  have "(w AND NOT 1) AND (w AND 1) = 0" "(w AND NOT 1) OR (w AND 1) = w"
    by (rule bit_eqI; auto simp: bit_simps)+
  then have "w - (w AND 1) = w AND NOT 1"
    by (metis add_0 add_diff_cancel_right' word_plus_and_or)
  moreover have "w AND 1 \<le> w" by (rule word_and_le2)
  ultimately show ?thesis
    by (metis unat_and_1 unat_sub_le)
qed

lemma and_2_zero: "w AND 2 = 0 \<longleftrightarrow> unat (w :: u32) div 2 mod 2 = 0"
proof -
  have "w AND 2 = 0 \<longleftrightarrow> \<not> bit w 1"
    by (metis and_exp_eq_0_iff_not_bit power_one_right)
  then show ?thesis by (simp add: bit_unat)
qed

section \<open>Every action keeps the invariant\<close>

text \<open>A thread moves from \<open>p\<close> to \<open>q\<close>; what is left to show is arithmetic on the counters.\<close>

definition balance :: "nat \<Rightarrow> bool \<Rightarrow> nat \<Rightarrow> nat \<Rightarrow> nat \<Rightarrow> nat \<Rightarrow> bool" where
  "balance c b H S K W \<longleftrightarrow> c + H + 2 * (S + of_bool b) = 1 + 2 * K + 4 * W \<and> H \<le> 1 \<and>
     S + of_bool b + K \<le> 1 \<and> S + of_bool b \<le> W \<and> W < 2 ^ 29"

definition unattended :: "bool \<Rightarrow> nat \<Rightarrow> nat \<Rightarrow> nat \<Rightarrow> nat \<Rightarrow> bool" where
  "unattended b H S K W \<longleftrightarrow> H = 0 \<and> S + of_bool b + K = 0 \<and> 0 < W"

lemma gm_move:
  assumes inv: "gm_inv (g, pcs)" and t: "t < length pcs" and p: "pcs ! t = p" and q: "pc_ok q"
    and W: "distinct (GateWaiters g')" "GateSignal g' \<noteq> 0 \<Longrightarrow> GateWaiters g' = []"
      "set (GateWaiters g') = (set (GateWaiters g) - {t}) \<union> (if q = OnGate then {t} else {})"
    and own: "\<And>u. u \<noteq> t \<Longrightarrow> u < length pcs \<Longrightarrow> pcs ! u = Inside \<Longrightarrow> Owner g' = Some u" "q = Inside \<Longrightarrow> Owner g' = Some t"
    and num: "\<And>H S K W H' S' K' W'. H' + of_bool (holds p) = H + of_bool (holds q) \<Longrightarrow>
      S' + of_bool (p = Signalling) = S + of_bool (q = Signalling) \<Longrightarrow>
      K' + of_bool (was_woken p) = K + of_bool (was_woken q) \<Longrightarrow>
      W' + of_bool (waits p) = W + of_bool (waits q) \<Longrightarrow> W' < 2 ^ 29 \<Longrightarrow>
      balance (unat (Count g)) (GateSignal g \<noteq> 0) H S K W \<Longrightarrow>
      balance (unat (Count g')) (GateSignal g' \<noteq> 0) H' S' K' W' \<and>
      (unattended (GateSignal g' \<noteq> 0) H' S' K' W' \<longrightarrow> q = ReleaseCas (Count g') \<or>
        p \<noteq> ReleaseCas (Count g') \<and> Count g' = Count g \<and> unattended (GateSignal g \<noteq> 0) H S K W)"
  shows "gm_inv (g', pcs[t := q])"
proof -
  note I = gm_invD [OF inv]
  let ?c = "\<lambda>P. cnt P (pcs[t := q])"
  have upd: "?c P + of_bool (P p) = cnt P pcs + of_bool (P q)" for P
    using cnt_update [OF t, of P q] p by simp
  have small: "cnt waits pcs < 2 ^ 29" "?c waits < 2 ^ 29"
    using cnt_le [of waits pcs] cnt_le [of waits "pcs[t := q]"] I(1) unfolding length_list_update by linarith+
  have "balance (unat (Count g)) (GateSignal g \<noteq> 0) (cnt holds pcs) (cnt (\<lambda>p. p = Signalling) pcs)
      (cnt was_woken pcs) (cnt waits pcs)"
    unfolding balance_def using I(6-9) small(1) unfolding pending_def by simp
  note conj = num [OF upd [of holds] upd [of "\<lambda>p. p = Signalling"] upd [of was_woken] upd [of waits] small(2) this]
  have N: "unat (Count g') + ?c holds + 2 * pending g' (pcs[t := q]) = 1 + 2 * ?c was_woken + 4 * ?c waits"
    "?c holds \<le> 1" "pending g' (pcs[t := q]) + ?c was_woken \<le> 1" "pending g' (pcs[t := q]) \<le> ?c waits"
    using conj unfolding balance_def pending_def by blast+
  have U: "q = ReleaseCas (Count g') \<or> p \<noteq> ReleaseCas (Count g') \<and> Count g' = Count g \<and> cnt holds pcs = 0 \<and>
      pending g pcs + cnt was_woken pcs = 0 \<and> 0 < cnt waits pcs"
    if "?c holds = 0" "pending g' (pcs[t := q]) + ?c was_woken = 0" "0 < ?c waits"
    using conj that unfolding unattended_def pending_def by blast
  have wit: "\<exists>u<length (pcs[t := q]). pcs[t := q] ! u = ReleaseCas (Count g')"
    if a: "?c holds = 0" "pending g' (pcs[t := q]) + ?c was_woken = 0" "0 < ?c waits"
    using U [OF a]
  proof
    assume "q = ReleaseCas (Count g')"
    then show ?thesis using t by (intro exI [of _ t]) simp
  next
    assume b: "p \<noteq> ReleaseCas (Count g') \<and> Count g' = Count g \<and> cnt holds pcs = 0 \<and>
      pending g pcs + cnt was_woken pcs = 0 \<and> 0 < cnt waits pcs"
    then obtain u where "u < length pcs" "pcs ! u = ReleaseCas (Count g)"
      using I(11) by auto
    moreover from this b p have "u \<noteq> t" by auto
    ultimately show ?thesis using b by (intro exI [of _ u]) simp
  qed
  have W': "u \<in> set (GateWaiters g') \<longleftrightarrow> u < length (pcs[t := q]) \<and> pcs[t := q] ! u = OnGate" for u
    using W(3) I(4) [of u] t by (cases "u = t") auto
  have ok: "pc_ok (pcs[t := q] ! u)" if "u < length (pcs[t := q])" for u
    using I(2) [of u] q that by (cases "u = t") simp_all
  have o: "Owner g' = Some u" if "u < length (pcs[t := q])" "pcs[t := q] ! u = Inside" for u
    using own that by (cases "u = t") simp_all
  show ?thesis
    unfolding gm_inv_def prod.case
    using I(1) ok W(1,2) W' N(1-4) o wit by (intro conjI allI impI) simp_all
qed

lemma gm_move_same_gate:
  assumes "gm_inv (g, pcs)" "pcs ! t = p" "p \<noteq> OnGate"
  shows "distinct (GateWaiters g)" "GateSignal g \<noteq> 0 \<Longrightarrow> GateWaiters g = []"
    "set (GateWaiters g) = set (GateWaiters g) - {t}" "t \<notin> set (GateWaiters g)"
  using gm_invD(3,4,5) [OF assms(1)] assms(2,3) by auto

lemma balance_form:
  assumes "balance c b H S K W"
  shows "\<exists>d. c = 1 - H + 2 * (S + of_bool b + K) + 4 * d \<and> H \<le> 1 \<and> S + of_bool b + K \<le> 1"
proof -
  define X where "X = S + of_bool b"
  have b: "c + H + 2 * X = 1 + 2 * K + 4 * W" "H \<le> 1" "X + K \<le> 1" "X \<le> W"
    using assms unfolding balance_def X_def by blast+
  have "c = 1 - H + 2 * (X + K) + 4 * (W - X)" using b by simp
  with b show ?thesis unfolding X_def [symmetric] by blast
qed

lemma balance_bits:
  assumes "balance c b H S K W"
  shows "c mod 2 = 1 \<longleftrightarrow> H = 0" "c div 2 mod 2 = S + of_bool b + K" "c mod 4 = 1 - H + 2 * (S + of_bool b + K)"
proof -
  define X where "X = S + of_bool b + K"
  obtain d where d: "c = 1 - H + 2 * X + 4 * d" "H \<le> 1" "X \<le> 1"
    using balance_form [OF assms] unfolding X_def by blast
  have "c mod 2 = 1 \<longleftrightarrow> H = 0" "c div 2 mod 2 = X" "c mod 4 = 1 - H + 2 * X"
    using d by (cases H; cases X; simp; presburger)+
  then show "c mod 2 = 1 \<longleftrightarrow> H = 0" "c div 2 mod 2 = S + of_bool b + K" "c mod 4 = 1 - H + 2 * (S + of_bool b + K)"
    unfolding X_def by blast+
qed

lemmas balance_lock = balance_bits(1)

lemma bits_or: "GM_LOCK_BIT OR GM_LOCK_WAITER_WOKEN = 3"
  by (simp add: gm_bits)

lemma odd_count: "w AND 1 \<noteq> 0 \<Longrightarrow> unat (w :: u32) mod 2 = 1"
  using and_1_zero [of w] by simp

lemma unat_xor_1: "w AND 1 \<noteq> 0 \<Longrightarrow> unat (w XOR 1) = unat (w :: u32) - 1"
proof -
  assume o: "w AND 1 \<noteq> 0"
  then have "bit w 0" by (simp add: and_one_eq odd_iff_mod_2_eq_one bit_0)
  then have "w XOR 1 = w AND NOT 1"
    by (intro bit_eqI) (auto simp: bit_simps)
  then show ?thesis
    using unat_reset_0 [of w] odd_count [OF o] by simp
qed

lemma unat_xor_3:
  assumes "unat (w :: u32) mod 4 = 3"
  shows "unat (w XOR 3) = unat w - 3"
proof -
  have b: "bit w 0" "bit w 1"
    using assms by (simp_all add: bit_unat) presburger+
  have d: "(w XOR 3) AND 3 = 0" "(w XOR 3) OR 3 = w"
  proof -
    have m: "bit (3 :: u32) n \<longleftrightarrow> n = 0 \<or> n = 1" for n
      using bit_mask_iff [of 2 n, where 'a = u32] by (auto simp: mask_eq_exp_minus_1 less_2_cases_iff)
    have x: "bit (w XOR 3) n \<longleftrightarrow> bit w n \<and> n \<noteq> 0 \<and> n \<noteq> 1" for n
      using b by (cases "n = 0 \<or> n = 1") (auto simp only: bit_xor_iff m)
    show "(w XOR 3) AND 3 = 0"
      by (rule bit_eqI) (simp only: bit_and_iff x m bit_0_eq, auto)
    show "(w XOR 3) OR 3 = w"
    proof (rule bit_eqI)
      fix n
      show "bit ((w XOR 3) OR 3) n \<longleftrightarrow> bit w n"
        unfolding bit_or_iff x m using b by (cases "n = 0 \<or> n = 1") auto
    qed
  qed
  have "w XOR 3 = w - 3"
    using word_plus_and_or [of "w XOR 3" 3] unfolding d by (simp add: algebra_simps)
  moreover have "3 \<le> w" using assms by (simp add: word_le_nat_alt)
  ultimately show ?thesis
    by (simp add: unat_sub_le)
qed

text \<open>An action that does not change the count, the gate or the counters.\<close>

lemma gm_move_silent:
  assumes inv: "gm_inv (g, pcs)" and t: "t < length pcs" and p: "pcs ! t = p" and q: "pc_ok q"
    and same: "holds q = holds p" "was_woken q = was_woken p" "waits q = waits p"
      "p \<noteq> Signalling" "q \<noteq> Signalling" "p \<noteq> OnGate" "q \<noteq> OnGate" "\<And>v. p \<noteq> ReleaseCas v"
    and g': "Count g' = Count g" "GateSignal g' = GateSignal g" "GateWaiters g' = GateWaiters g"
    and own: "\<And>u. u \<noteq> t \<Longrightarrow> u < length pcs \<Longrightarrow> pcs ! u = Inside \<Longrightarrow> Owner g' = Some u" "q = Inside \<Longrightarrow> Owner g' = Some t"
  shows "gm_inv (g', pcs[t := q])"
proof (rule gm_move [OF inv t p q _ _ _ own])
  show "distinct (GateWaiters g')" "GateSignal g' \<noteq> 0 \<Longrightarrow> GateWaiters g' = []"
    "set (GateWaiters g') = set (GateWaiters g) - {t} \<union> (if q = OnGate then {t} else {})"
    using gm_move_same_gate [OF inv p same(6)] same(7) by (simp_all add: g')
qed (use same in \<open>simp_all add: g'\<close>)

lemma acquire_inv:
  assumes inv: "gm_inv (g, pcs)" and t: "t < length pcs" and p: "pcs ! t = Outside"
  shows "gm_inv (go pcs t (KsAcquireGuardedMutex g))" "gm_inv (go pcs t (KsTryToAcquireGuardedMutex g))"
proof -
  note gate = gm_move_same_gate [OF inv p]
  note own = gm_invD(10) [OF inv]
  have ok: "gm_inv (g\<lparr>Count := Count g AND NOT 1\<rparr>, pcs[t := GotLock])" if b: "bit (Count g) 0"
  proof (rule gm_move [OF inv t p])
    have m: "unat (Count g) mod 2 = 1" using b by (simp add: bit_unat)
    then have c: "unat (Count g AND NOT 1) + 1 = unat (Count g)"
      using unat_reset_0 [of "Count g"] by (metis One_nat_def add.commute le_add_diff_inverse mod_less_eq_dividend)
    fix H S K W H' S' K' W'
    assume e: "H' + of_bool (holds Outside) = H + of_bool (holds GotLock)"
      "S' + of_bool (Outside = Signalling) = S + of_bool (GotLock = Signalling)"
      "K' + of_bool (was_woken Outside) = K + of_bool (was_woken GotLock)"
      "W' + of_bool (waits Outside) = W + of_bool (waits GotLock)"
      and b: "balance (unat (Count g)) (GateSignal g \<noteq> 0) H S K W"
    have "H = 0" using balance_lock [OF b] m by simp
    then show "balance (unat (Count (g\<lparr>Count := Count g AND NOT 1\<rparr>))) (GateSignal (g\<lparr>Count := Count g AND NOT 1\<rparr>) \<noteq> 0) H' S' K' W' \<and>
        (unattended (GateSignal (g\<lparr>Count := Count g AND NOT 1\<rparr>) \<noteq> 0) H' S' K' W' \<longrightarrow>
          GotLock = ReleaseCas (Count (g\<lparr>Count := Count g AND NOT 1\<rparr>)) \<or>
          Outside \<noteq> ReleaseCas (Count (g\<lparr>Count := Count g AND NOT 1\<rparr>)) \<and>
          Count (g\<lparr>Count := Count g AND NOT 1\<rparr>) = Count g \<and> unattended (GateSignal g \<noteq> 0) H S K W)"
      using e b c by (simp add: balance_def unattended_def)
  qed (use gate own in simp_all)
  have even: "Count g AND NOT 1 = Count g" if "\<not> bit (Count g) 0"
  proof (rule bit_eqI)
    fix n
    show "bit (Count g AND NOT 1) n \<longleftrightarrow> bit (Count g) n"
      using that by (cases n) (auto simp: bit_simps dest: bit_imp_le_length)
  qed
  show "gm_inv (go pcs t (KsAcquireGuardedMutex g))"
  proof (cases "bit (Count g) 0")
    case False
    then have r: "go pcs t (KsAcquireGuardedMutex g) = (g\<lparr>Contention := Contention g + 1\<rparr>, pcs[t := SlowRead 1 4])"
      by (simp add: KsAcquireGuardedMutex_def bit_test_and_reset_def go_def even [simplified] gm_bits)
    show ?thesis unfolding r
      by (rule gm_move_silent [OF inv t p]) (use own in simp_all)
  qed (use ok in \<open>simp add: KsAcquireGuardedMutex_def bit_test_and_reset_def go_def\<close>)
  show "gm_inv (go pcs t (KsTryToAcquireGuardedMutex g))"
  proof (cases "bit (Count g) 0")
    case False
    then have r: "go pcs t (KsTryToAcquireGuardedMutex g) = (g, pcs[t := Outside])"
      by (simp add: KsTryToAcquireGuardedMutex_def bit_test_and_reset_def go_def even [simplified])
    show ?thesis unfolding r
      by (rule gm_move_silent [OF inv t p]) (use own in simp_all)
  qed (use ok in \<open>simp add: KsTryToAcquireGuardedMutex_def bit_test_and_reset_def go_def\<close>)
qed

lemma start_release_inv:
  assumes inv: "gm_inv (g, pcs)" and t: "t < length pcs" and p: "pcs ! t = Inside"
  shows "gm_inv (g\<lparr>Owner := None\<rparr>, pcs[t := ReleaseAdd])"
proof (rule gm_move_silent [OF inv t p])
  show "Owner (g\<lparr>Owner := None\<rparr>) = Some u" if u: "u \<noteq> t" "u < length pcs" "pcs ! u = Inside" for u
    using cnt_two [OF gm_invD(7) [OF inv] u(2) t] u p by simp
qed simp_all

lemma got_lock_inv:
  assumes inv: "gm_inv (g, pcs)" and t: "t < length pcs" and p: "pcs ! t = GotLock"
  shows "gm_inv (g\<lparr>Owner := Some t\<rparr>, pcs[t := Inside])"
proof (rule gm_move_silent [OF inv t p])
  show "Owner (g\<lparr>Owner := Some t\<rparr>) = Some u" if u: "u \<noteq> t" "u < length pcs" "pcs ! u = Inside" for u
    using cnt_two [OF gm_invD(7) [OF inv] u(2) t] u p by simp
qed simp_all

lemma slow_loop_inv:
  assumes inv: "gm_inv (g, pcs)" and t: "t < length pcs" and p: "pcs ! t = SlowLoop r a v"
  shows "gm_inv (go pcs t (KsiAcquireGuardedMutex g r a v))"
proof (cases "Count g = v")
  case False
  have "gm_inv (g, pcs[t := SlowLoop r a (Count g)])"
    by (rule gm_move_silent [OF inv t p]) (use gm_invD(2) [OF inv t] gm_invD(10) [OF inv] p in simp_all)
  then show ?thesis
    using False by (simp add: KsiAcquireGuardedMutex_def go_def)
next
  case True
  have ra: "r = 1 \<and> a = 4 \<or> r = 3 \<and> a = 2"
    using gm_invD(2) [OF inv t] p by simp
  note own = gm_invD(10) [OF inv]
  have g1: "pcs ! t \<noteq> OnGate" using p by simp
  show ?thesis
  proof (cases "v AND 1 = 0")
    case even: True
    have m: "unat v mod 2 = 0" using even by (simp add: and_1_zero)
    have "gm_inv (g\<lparr>Count := v + a\<rparr>, pcs[t := AtGate])"
    proof (rule gm_move [OF inv t p])
      fix H S K W H' S' K' W' :: nat
      assume e: "H' + of_bool (holds (SlowLoop r a v)) = H + of_bool (holds AtGate)"
        "S' + of_bool (SlowLoop r a v = Signalling) = S + of_bool (AtGate = Signalling)"
        "K' + of_bool (was_woken (SlowLoop r a v)) = K + of_bool (was_woken AtGate)"
        "W' + of_bool (waits (SlowLoop r a v)) = W + of_bool (waits AtGate)" "W' < 2 ^ 29"
        and b: "balance (unat (Count g)) (GateSignal g \<noteq> 0) H S K W"
      have H: "H = 1" using balance_lock [OF b] b m True by (cases "H = 0") (auto simp: balance_def)
      have "unat v < 4 * W + 4" using b True unfolding balance_def by (simp; linarith)
      then have "unat (v + a) = unat v + unat a"
        using e ra by (intro unat_add_lt) auto
      then show "balance (unat (Count (g\<lparr>Count := v + a\<rparr>))) (GateSignal (g\<lparr>Count := v + a\<rparr>) \<noteq> 0) H' S' K' W' \<and>
        (unattended (GateSignal (g\<lparr>Count := v + a\<rparr>) \<noteq> 0) H' S' K' W' \<longrightarrow>
          AtGate = ReleaseCas (Count (g\<lparr>Count := v + a\<rparr>)) \<or>
          SlowLoop r a v \<noteq> ReleaseCas (Count (g\<lparr>Count := v + a\<rparr>)) \<and>
          Count (g\<lparr>Count := v + a\<rparr>) = Count g \<and> unattended (GateSignal g \<noteq> 0) H S K W)"
        using e b ra H True by (auto simp: balance_def unattended_def)
    qed (use gm_move_same_gate [OF inv p] own in simp_all)
    then show ?thesis
      using True even by (simp add: KsiAcquireGuardedMutex_def go_def gm_bits)
  next
    case odd: False
    have m: "unat v mod 2 = 1" using odd by (rule odd_count)
    have "gm_inv (g\<lparr>Count := v XOR r\<rparr>, pcs[t := GotLock])"
    proof (rule gm_move [OF inv t p])
      fix H S K W H' S' K' W' :: nat
      assume e: "H' + of_bool (holds (SlowLoop r a v)) = H + of_bool (holds GotLock)"
        "S' + of_bool (SlowLoop r a v = Signalling) = S + of_bool (GotLock = Signalling)"
        "K' + of_bool (was_woken (SlowLoop r a v)) = K + of_bool (was_woken GotLock)"
        "W' + of_bool (waits (SlowLoop r a v)) = W + of_bool (waits GotLock)" "W' < 2 ^ 29"
        and b: "balance (unat (Count g)) (GateSignal g \<noteq> 0) H S K W"
      have H: "H = 0" using balance_lock [OF b] m True by simp
      have x: "unat (v XOR r) + (if r = 1 then 1 else 3) = unat v"
      proof (cases "r = 1")
        case True
        then show ?thesis using unat_xor_1 [OF odd] m by (cases "unat v") auto
      next
        case False
        then have "r = 3" "K = 1 + K'" using ra e by auto
        then have "unat v mod 4 = 3"
          using balance_bits(3) [OF b] b H True unfolding balance_def by simp
        then show ?thesis
          using unat_xor_3 [of v] \<open>r = 3\<close> by (simp; presburger)
      qed
      then show "balance (unat (Count (g\<lparr>Count := v XOR r\<rparr>))) (GateSignal (g\<lparr>Count := v XOR r\<rparr>) \<noteq> 0) H' S' K' W' \<and>
        (unattended (GateSignal (g\<lparr>Count := v XOR r\<rparr>) \<noteq> 0) H' S' K' W' \<longrightarrow>
          GotLock = ReleaseCas (Count (g\<lparr>Count := v XOR r\<rparr>)) \<or>
          SlowLoop r a v \<noteq> ReleaseCas (Count (g\<lparr>Count := v XOR r\<rparr>)) \<and>
          Count (g\<lparr>Count := v XOR r\<rparr>) = Count g \<and> unattended (GateSignal g \<noteq> 0) H S K W)"
        using e b ra H True by (auto simp: balance_def unattended_def split: if_splits)
    qed (use gm_move_same_gate [OF inv p] own in simp_all)
    then show ?thesis
      using True odd by (simp add: KsiAcquireGuardedMutex_def go_def gm_bits)
  qed
qed

lemma gate_wait_inv:
  assumes inv: "gm_inv (g, pcs)" and t: "t < length pcs" and p: "pcs ! t = AtGate"
  shows "gm_inv (gm_continue R (g, pcs) t)"
proof (cases "GateSignal g = 0")
  case True
  have "gm_inv (g\<lparr>GateWaiters := GateWaiters g @ [t]\<rparr>, pcs[t := OnGate])"
    by (rule gm_move [OF inv t p])
      (use True p gm_move_same_gate [OF inv p] gm_invD(10) [OF inv] in \<open>auto simp: balance_def unattended_def\<close>)
  then show ?thesis
    using True p by (simp add: gm_continue_def KsWaitForGate_def)
next
  case False
  have "gm_inv (g\<lparr>GateSignal := 0\<rparr>, pcs[t := SlowRead 3 2])"
    by (rule gm_move [OF inv t p])
      (use False p gm_move_same_gate [OF inv p] gm_invD(10) [OF inv] in \<open>auto simp: balance_def unattended_def\<close>)
  then show ?thesis
    using False p by (simp add: gm_continue_def KsWaitForGate_def gm_bits)
qed

lemma release_add_inv:
  assumes inv: "gm_inv (g, pcs)" and t: "t < length pcs" and p: "pcs ! t = ReleaseAdd"
  shows "gm_inv (go pcs t (release_add g))"
proof -
  let ?old = "Count g"
  let ?q = "if ?old \<noteq> 0 \<and> ?old AND 2 = 0 then ReleaseCas (?old + 1) else Outside"
  have "cnt holds pcs \<noteq> 0"
    using t p cnt_pos [of holds pcs] by (metis gr_implies_not0 holds.simps(3))
  then have h1: "cnt holds pcs = 1" using gm_invD(7) [OF inv] by simp
  have bal: "balance (unat ?old) (GateSignal g \<noteq> 0) (cnt holds pcs) (cnt (\<lambda>p. p = Signalling) pcs) (cnt was_woken pcs) (cnt waits pcs)"
    unfolding balance_def using gm_invD(1,6-9) [OF inv] cnt_le [of waits pcs] unfolding pending_def by simp
  then have even: "unat ?old mod 2 = 0" using balance_bits(1) [OF bal] h1 by simp
  have inc: "unat (?old + 1) = unat ?old + 1"
  proof -
    have "unat ?old \<noteq> 4294967295" using even by (metis numeral_One odd_numeral mod_0_imp_dvd)
    then show ?thesis using unat_lt_u32 [of ?old] unat_add_lt [of ?old 1] by simp
  qed
  have ok: "pc_ok ?q"
  proof -
    have "unat (?old + 1) mod 4 = 1 \<and> 1 < unat (?old + 1)" if "?old \<noteq> 0" "?old AND 2 = 0"
    proof -
      have "unat ?old div 2 mod 2 = 0" using that(2) by (simp add: and_2_zero)
      then have "unat ?old mod 4 = 0" using balance_bits(2,3) [OF bal] h1 by simp
      moreover have "0 < unat ?old" using that(1) by (metis gr0I unat_eq_zero)
      ultimately show ?thesis unfolding inc by presburger
    qed
    then show ?thesis by simp
  qed
  have "gm_inv (g\<lparr>Count := ?old + 1\<rparr>, pcs[t := ?q])"
  proof (rule gm_move [OF inv t p ok])
    fix H S K W H' S' K' W' :: nat
    assume e: "H' + of_bool (holds ReleaseAdd) = H + of_bool (holds ?q)"
      "S' + of_bool (ReleaseAdd = Signalling) = S + of_bool (?q = Signalling)"
      "K' + of_bool (was_woken ReleaseAdd) = K + of_bool (was_woken ?q)"
      "W' + of_bool (waits ReleaseAdd) = W + of_bool (waits ?q)" "W' < 2 ^ 29"
      and b: "balance (unat (Count g)) (GateSignal g \<noteq> 0) H S K W"
    have e': "H' + 1 = H" "S' = S" "K' = K" "W' = W" using e by (simp_all split: if_splits)
    have "?old \<noteq> 0 \<and> ?old AND 2 = 0" if u: "unattended (GateSignal g \<noteq> 0) H' S' K' W'"
    proof -
      have z: "S + of_bool (GateSignal g \<noteq> 0) + K = 0" "0 < W" using u e' by (simp_all add: unattended_def)
      then have "unat ?old div 2 mod 2 = 0" using balance_bits(2) [OF b] by simp
      moreover have "unat ?old \<noteq> 0" using b z by (simp add: balance_def)
      ultimately show ?thesis by (metis and_2_zero unsigned_0)
    qed
    then show "balance (unat (Count (g\<lparr>Count := ?old + 1\<rparr>))) (GateSignal (g\<lparr>Count := ?old + 1\<rparr>) \<noteq> 0) H' S' K' W' \<and>
        (unattended (GateSignal (g\<lparr>Count := ?old + 1\<rparr>) \<noteq> 0) H' S' K' W' \<longrightarrow> ?q = ReleaseCas (Count (g\<lparr>Count := ?old + 1\<rparr>)) \<or>
          ReleaseAdd \<noteq> ReleaseCas (Count (g\<lparr>Count := ?old + 1\<rparr>)) \<and> Count (g\<lparr>Count := ?old + 1\<rparr>) = Count g \<and>
          unattended (GateSignal g \<noteq> 0) H S K W)"
      using b e' inc by (simp add: balance_def)
  qed (use gm_move_same_gate [OF inv p] gm_invD(10) [OF inv] in \<open>simp_all split: if_splits\<close>)
  moreover have "go pcs t (release_add g) = (g\<lparr>Count := ?old + 1\<rparr>, pcs[t := ?q])"
    by (simp add: release_add_def go_def gm_bits Let_def)
  ultimately show ?thesis by simp
qed

lemma release_cas_inv:
  assumes inv: "gm_inv (g, pcs)" and t: "t < length pcs" and p: "pcs ! t = ReleaseCas v"
  shows "gm_inv (go pcs t (KsReleaseGuardedMutexUnsafe g v))"
proof (cases "Count g = v")
  case False
  have "gm_inv (g, pcs[t := Outside])"
    by (rule gm_move [OF inv t p]) (use False gm_move_same_gate [OF inv p] gm_invD(10) [OF inv] in simp_all)
  then show ?thesis
    using False by (simp add: KsReleaseGuardedMutexUnsafe_def go_def)
next
  case True
  have v: "unat v mod 4 = 1" "1 < unat v" using gm_invD(2) [OF inv t] p by simp_all
  have "5 \<le> unat v" using v by presburger
  then have "unat (v - 2) = unat v - 2"
    using unat_sub_le [of 2 v] by (simp add: word_le_nat_alt)
  moreover have "woken_value v = v - 2" by (simp add: woken_value_def gm_bits)
  ultimately have w: "unat (woken_value v) + 2 = unat v" using v by simp
  have "gm_inv (g\<lparr>Count := woken_value v\<rparr>, pcs[t := Signalling])"
  proof (rule gm_move [OF inv t p])
    fix H S K W H' S' K' W' :: nat
    assume e: "H' + of_bool (holds (ReleaseCas v)) = H + of_bool (holds Signalling)"
      "S' + of_bool (ReleaseCas v = Signalling) = S + of_bool (Signalling = Signalling)"
      "K' + of_bool (was_woken (ReleaseCas v)) = K + of_bool (was_woken Signalling)"
      "W' + of_bool (waits (ReleaseCas v)) = W + of_bool (waits Signalling)" "W' < 2 ^ 29"
      and b: "balance (unat (Count g)) (GateSignal g \<noteq> 0) H S K W"
    have z: "H = 0" "S + of_bool (GateSignal g \<noteq> 0) + K = 0"
    proof -
      have "1 - H + 2 * (S + of_bool (GateSignal g \<noteq> 0) + K) = 1" "H \<le> 1"
        using balance_bits(3) [OF b] b v(1) True by (simp_all only: balance_def)
      then show "H = 0" "S + of_bool (GateSignal g \<noteq> 0) + K = 0" by arith+
    qed
    then have "0 < W" using b v True unfolding balance_def by (cases W) auto
    then show "balance (unat (Count (g\<lparr>Count := woken_value v\<rparr>))) (GateSignal (g\<lparr>Count := woken_value v\<rparr>) \<noteq> 0) H' S' K' W' \<and>
        (unattended (GateSignal (g\<lparr>Count := woken_value v\<rparr>) \<noteq> 0) H' S' K' W' \<longrightarrow>
          Signalling = ReleaseCas (Count (g\<lparr>Count := woken_value v\<rparr>)) \<or>
          ReleaseCas v \<noteq> ReleaseCas (Count (g\<lparr>Count := woken_value v\<rparr>)) \<and>
          Count (g\<lparr>Count := woken_value v\<rparr>) = Count g \<and> unattended (GateSignal g \<noteq> 0) H S K W)"
      using e b z w True by (simp add: balance_def unattended_def)
  qed (use gm_move_same_gate [OF inv p] gm_invD(10) [OF inv] in simp_all)
  then show ?thesis
    using True by (simp add: KsReleaseGuardedMutexUnsafe_def go_def)
qed

text \<open>The wake-up goes to the first thread in the gate, or is left in the gate.\<close>

lemma signal_inv:
  assumes inv: "gm_inv (g, pcs)" and t: "t < length pcs" and p: "pcs ! t = Signalling"
  shows "gm_inv (gm_continue R (g, pcs) t)"
proof (cases "GateWaiters g")
  case Nil
  have "gm_inv (g\<lparr>GateSignal := 1\<rparr>, pcs[t := Outside])"
    by (rule gm_move [OF inv t p])
      (use Nil gm_move_same_gate [OF inv p] gm_invD(10) [OF inv] in \<open>auto simp: balance_def unattended_def\<close>)
  then show ?thesis
    using Nil p by (simp add: gm_continue_def KsSignalGate_def)
next
  case (Cons u us)
  note I = gm_invD [OF inv]
  let ?g = "g\<lparr>GateWaiters := us\<rparr>" and ?q = "SlowRead 3 2"
  have u: "u < length pcs" "pcs ! u = OnGate" and us: "u \<notin> set us" and sig: "GateSignal g = 0"
    using I(3) I(4) [of u] I(5) Cons by auto
  have ut: "u \<noteq> t" using u p by auto
  let ?p1 = "pcs[t := Outside]" and ?p2 = "pcs[t := Outside, u := ?q]"
  have c: "cnt P ?p2 + of_bool (P OnGate) + of_bool (P Signalling) = cnt P pcs + of_bool (P Outside) + of_bool (P ?q)" for P
    using cnt_update [OF t, of P Outside] cnt_update [of u ?p1 P ?q] u p ut by simp
  have bal: "cnt holds ?p2 = cnt holds pcs" "cnt (\<lambda>p. p = Signalling) ?p2 + 1 = cnt (\<lambda>p. p = Signalling) pcs"
    "cnt was_woken ?p2 = cnt was_woken pcs + 1" "cnt waits ?p2 + 1 = cnt waits pcs"
    using c [of holds] c [of "\<lambda>p. p = Signalling"] c [of was_woken] c [of waits] by simp_all
  have n: "pending ?g ?p2 + 1 = pending g pcs"
    using bal(2) by (simp add: pending_def sig)
  have pc: "?p2 ! i = (if i = u then ?q else if i = t then Outside else pcs ! i)" if "i < length pcs" for i
    using that u t by (simp add: nth_list_update)
  have "gm_inv (?g, ?p2)"
    unfolding gm_inv_def prod.case
  proof (intro conjI allI impI)
    show "pc_ok (?p2 ! i)" if "i < length ?p2" for i
      using that I(2) [of i] pc [of i] by simp
    show "i \<in> set (GateWaiters ?g) \<longleftrightarrow> i < length ?p2 \<and> ?p2 ! i = OnGate" for i
      using I(4) [of i] Cons us p t u pc [of i] by (cases "i < length pcs") auto
    show "Owner ?g = Some i" if "i < length ?p2" "?p2 ! i = Inside" for i
      using that I(10) [of i] pc [of i] by (auto split: if_splits)
    show "\<exists>i<length ?p2. ?p2 ! i = ReleaseCas (Count ?g)"
      if "pending ?g ?p2 + cnt was_woken ?p2 = 0"
      using that bal(3) by simp
  qed (use I(1,3,6-9) Cons n bal sig in simp_all)
  moreover have "gm_continue R (g, pcs) t = (?g, ?p2)"
    using p Cons by (simp add: gm_continue_def KsSignalGate_def gm_bits)
  ultimately show ?thesis by simp
qed

lemma gm_next_inv:
  assumes "gm_inv s"
  shows "gm_inv (gm_next KsReleaseGuardedMutexUnsafe s a)"
proof -
  obtain g pcs where s: "s = (g, pcs)" by (cases s)
  have inv: "gm_inv (g, pcs)" using assms s by simp
  have "gm_inv (gm_continue KsReleaseGuardedMutexUnsafe (g, pcs) t)" if t: "t < length pcs" for t
  proof (cases "pcs ! t")
    case (SlowRead r a)
    have "gm_inv (g, pcs[t := SlowLoop r a (Count g)])"
      by (rule gm_move_silent [OF inv t SlowRead])
        (use gm_invD(2) [OF inv t] gm_invD(10) [OF inv] SlowRead in simp_all)
    then show ?thesis using SlowRead by (simp add: gm_continue_def)
  qed (use inv t slow_loop_inv [OF inv t] gate_wait_inv [OF inv t] got_lock_inv [OF inv t] release_add_inv [OF inv t]
      release_cas_inv [OF inv t] signal_inv [OF inv t] in \<open>simp_all add: gm_continue_def\<close>)
  then show ?thesis
    using inv acquire_inv [OF inv] start_release_inv [OF inv]
    by (cases a) (auto simp: gm_next_def s)
qed

lemma gm_start_inv: "n < 2 ^ 29 \<Longrightarrow> gm_inv (gm_start n)"
proof -
  assume n: "n < 2 ^ 29"
  have "cnt P (replicate n Outside) = (if P Outside then n else 0)" for P
    by (simp add: cnt_def)
  then show ?thesis
    unfolding gm_inv_def gm_start_def KsInitializeGuardedMutex_def KsInitializeGate_def gm_bits pending_def prod.case
    using n by simp
qed

lemma gm_next_length: "length (snd (gm_next R s a)) = length (snd s)"
  by (cases s) (auto simp: gm_next_def gm_continue_def go_def KsWaitForGate_def KsSignalGate_def
      split: gm_action.splits gm_pc.splits list.splits)

lemma gm_run_inv:
  assumes "n < 2 ^ 29"
  shows "gm_inv (gm_run KsReleaseGuardedMutexUnsafe n as)" "length (snd (gm_run R n as)) = n"
proof -
  show "gm_inv (gm_run KsReleaseGuardedMutexUnsafe n as)"
    by (induction as rule: rev_induct) (simp_all add: gm_run_def gm_start_inv [OF assms] gm_next_inv)
  show "length (snd (gm_run R n as)) = n"
    by (induction as rule: rev_induct) (simp_all add: gm_run_def gm_next_length, simp add: gm_start_def)
qed

section \<open>Mutual exclusion, for both releases\<close>

text \<open>Only the lowest bit of the count matters: it is set exactly when nobody holds the lock. No
  action but taking and giving back the lock changes it, whatever the rest of the count has become.\<close>

fun pc_parity :: "gm_pc \<Rightarrow> bool" where
  "pc_parity (SlowRead r a) = (odd r \<and> even a)"
| "pc_parity (SlowLoop r a v) = (odd r \<and> even a)"
| "pc_parity _ = True"

definition gate_ok :: "gm_state \<Rightarrow> bool" where
  "gate_ok s = (case s of (g, pcs) \<Rightarrow> distinct (GateWaiters g) \<and>
     (\<forall>t. t \<in> set (GateWaiters g) \<longleftrightarrow> t < length pcs \<and> pcs ! t = OnGate))"

definition lock_inv :: "gm_state \<Rightarrow> bool" where
  "lock_inv s = (case s of (g, pcs) \<Rightarrow> gate_ok s \<and> (\<forall>t<length pcs. pc_parity (pcs ! t)) \<and>
     cnt holds pcs + of_bool (odd (Count g)) = 1 \<and>
     (\<forall>t<length pcs. pcs ! t = Inside \<longrightarrow> Owner g = Some t))"

lemma lock_invD:
  assumes "lock_inv (g, pcs)"
  shows "gate_ok (g, pcs)" "\<And>t. t < length pcs \<Longrightarrow> pc_parity (pcs ! t)"
    "cnt holds pcs + of_bool (odd (Count g)) = 1"
    "\<And>t. t < length pcs \<Longrightarrow> pcs ! t = Inside \<Longrightarrow> Owner g = Some t"
  using assms by (auto simp: lock_inv_def)

lemma gate_move:
  assumes "gate_ok (g, pcs)" "t < length pcs" "distinct (GateWaiters g')"
    "set (GateWaiters g') = (set (GateWaiters g) - {t}) \<union> (if q = OnGate then {t} else {})"
  shows "gate_ok (g', pcs[t := q])"
  using assms by (auto simp: gate_ok_def nth_list_update)

lemma lock_move:
  assumes inv: "lock_inv (g, pcs)" and t: "t < length pcs" and q: "pc_parity q"
    and gate: "gate_ok (g', pcs[t := q])"
    and own: "q = Inside \<Longrightarrow> Owner g' = Some t" "Owner g' \<noteq> Owner g \<Longrightarrow> holds (pcs ! t)"
    and par: "of_bool (holds q) + of_bool (odd (Count g')) = (of_bool (holds (pcs ! t)) + of_bool (odd (Count g)) :: nat)"
  shows "lock_inv (g', pcs[t := q])"
proof -
  note I = lock_invD [OF inv]
  have c: "cnt holds (pcs[t := q]) + of_bool (odd (Count g')) = 1"
    using cnt_update [OF t, of holds q] I(3) par by linarith
  have "Owner g' = Some u" if u: "u < length pcs" "pcs[t := q] ! u = Inside" for u
  proof (cases "u = t")
    case False
    then have in_u: "pcs ! u = Inside" using u by simp
    have "cnt holds pcs \<le> 1" using I(3) by simp
    then have "\<not> holds (pcs ! t)" using cnt_two [of holds pcs t u] False u(1) t in_u by auto
    then show ?thesis using own(2) I(4) [OF u(1) in_u] by metis
  qed (use own(1) u in simp)
  then show ?thesis using gate I(2) q c t by (auto simp: lock_inv_def nth_list_update)
qed

lemma odd_reset: "even (w AND - 2 :: u32)"
  by (simp add: even_and_iff)

lemma odd_xor: "odd (r :: u32) \<Longrightarrow> even (w XOR r) = odd w"
  by (simp add: even_xor_iff)

definition is_release :: "(KGUARDED_MUTEX \<Rightarrow> u32 \<Rightarrow> KGUARDED_MUTEX \<times> gm_pc) \<Rightarrow> bool" where
  "is_release R \<longleftrightarrow> R = KsReleaseGuardedMutexUnsafe \<or> R = KsReleaseGuardedMutex"

lemma release_cases:
  assumes "is_release R" "R g v = (g', q)"
  shows "(g' = g \<or> Count g = v \<and> g' = g\<lparr>Count := woken_value v\<rparr>) \<and> q \<in> {Signalling, Outside}"
  using assms by (auto simp: is_release_def KsReleaseGuardedMutexUnsafe_def KsReleaseGuardedMutex_def Let_def
      split: if_splits)

lemma woken_parity: "even (woken_value v) = even v"
  by (simp add: woken_value_def gm_bits)

lemma same_gate:
  "gate_ok (g, pcs) \<Longrightarrow> t < length pcs \<Longrightarrow> GateWaiters g' = GateWaiters g \<Longrightarrow> pcs ! t \<noteq> OnGate \<Longrightarrow> q \<noteq> OnGate \<Longrightarrow>
   gate_ok (g', pcs[t := q])"
  by (rule gate_move) (auto simp: gate_ok_def)

lemma not_odd_bits [simp]: "odd GM_LOCK_BIT" "even GM_LOCK_WAITER_WOKEN" "even GM_LOCK_WAITER_INC"
  "odd (GM_LOCK_BIT OR GM_LOCK_WAITER_WOKEN)"
  by (simp_all add: gm_bits)

lemma bit_0_odd: "bit w 0 = odd (w :: u32)"
  by (simp add: bit_0)

lemma lock_bit_zero: "w AND GM_LOCK_BIT = 0 \<longleftrightarrow> even (w :: u32)"
  by (simp add: gm_bits and_one_eq even_iff_mod_2_eq_zero)

lemma acquire_lock:
  assumes inv: "lock_inv (g, pcs)" and t: "t < length pcs" "pcs ! t = Outside"
    and r: "(g', q) \<in> {KsAcquireGuardedMutex g, KsTryToAcquireGuardedMutex g}"
  shows "lock_inv (g', pcs[t := q])"
proof -
  have "GateWaiters g' = GateWaiters g \<and> Owner g' = Owner g \<and> even (Count g') \<and> q \<noteq> OnGate \<and> q \<noteq> Inside \<and>
      pc_parity q \<and> holds q = odd (Count g)"
    using r by (auto simp: KsAcquireGuardedMutex_def KsTryToAcquireGuardedMutex_def bit_test_and_reset_def
        odd_reset bit_0_odd split: prod.splits bool.splits)
  then show ?thesis
    using t lock_invD(1) [OF inv] by (intro lock_move [OF inv t(1)] same_gate) auto
qed

lemma continue_lock:
  assumes inv: "lock_inv (g, pcs)" and t: "t < length pcs" and R: "is_release R"
  shows "lock_inv (gm_continue R (g, pcs) t)"
proof -
  note I = lock_invD [OF inv]
  have keep: "lock_inv (g, pcs[t := q])" if "pcs ! t \<noteq> OnGate" "q \<noteq> OnGate" "q \<noteq> Inside" "pc_parity q"
    "holds q = holds (pcs ! t)" for q
    using that I(1) t by (intro lock_move [OF inv t] same_gate) auto
  show ?thesis
  proof (cases "pcs ! t")
    case (SlowRead r a)
    then show ?thesis using keep [of "SlowLoop r a (Count g)"] I(2) [OF t] by (simp add: gm_continue_def)
  next
    case (SlowLoop r a v)
    obtain g' q where k: "KsiAcquireGuardedMutex g r a v = (g', q)" by fastforce
    have par: "odd r" "even a" using I(2) [OF t] SlowLoop by simp_all
    have "GateWaiters g' = GateWaiters g \<and> Owner g' = Owner g \<and> q \<noteq> OnGate \<and> q \<noteq> Inside \<and> pc_parity q \<and>
        of_bool (holds q) + of_bool (odd (Count g')) = (of_bool (odd (Count g)) :: nat)"
      using k par by (auto simp: KsiAcquireGuardedMutex_def lock_bit_zero odd_xor split: if_splits)
    then have "lock_inv (g', pcs[t := q])"
      using SlowLoop t I(1) by (intro lock_move [OF inv t] same_gate) auto
    then show ?thesis using SlowLoop k by (simp add: gm_continue_def go_def)
  next
    case AtGate
    show ?thesis
    proof (cases "GateSignal g \<noteq> 0")
      case True
      let ?q = "SlowRead (GM_LOCK_BIT OR GM_LOCK_WAITER_WOKEN) GM_LOCK_WAITER_WOKEN"
      have "lock_inv (g\<lparr>GateSignal := 0\<rparr>, pcs[t := ?q])"
        using AtGate t I(1) by (intro lock_move [OF inv t] same_gate) auto
      then show ?thesis using True AtGate by (simp add: gm_continue_def KsWaitForGate_def)
    next
      case False
      have "t \<notin> set (GateWaiters g)" using I(1) AtGate by (simp add: gate_ok_def)
      then have "gate_ok (g\<lparr>GateWaiters := GateWaiters g @ [t]\<rparr>, pcs[t := OnGate])"
        using I(1) t by (intro gate_move [OF I(1) t]) (auto simp: gate_ok_def)
      then have "lock_inv (g\<lparr>GateWaiters := GateWaiters g @ [t]\<rparr>, pcs[t := OnGate])"
        using AtGate t by (intro lock_move [OF inv t]) auto
      then show ?thesis using False AtGate by (simp add: gm_continue_def KsWaitForGate_def)
    qed
  next
    case GotLock
    have "lock_inv (g\<lparr>Owner := Some t\<rparr>, pcs[t := Inside])"
      using GotLock t I(1) by (intro lock_move [OF inv t] same_gate) auto
    then show ?thesis using GotLock by (simp add: gm_continue_def)
  next
    case ReleaseAdd
    have "odd (Count g + 1)"
    proof -
      have "0 < cnt holds pcs" using ReleaseAdd t cnt_pos [of holds pcs] by auto
      then show ?thesis using I(3) by (cases "odd (Count g)") auto
    qed
    moreover obtain g' q where k: "release_add g = (g', q)" by fastforce
    ultimately have "GateWaiters g' = GateWaiters g \<and> Owner g' = Owner g \<and> odd (Count g') \<and> even (Count g) \<and>
        q \<noteq> OnGate \<and> q \<noteq> Inside \<and> pc_parity q \<and> \<not> holds q"
      by (auto simp: release_add_def Let_def GM_LOCK_BIT_def split: if_splits)
    then have "lock_inv (g', pcs[t := q])"
      using ReleaseAdd t I(1) by (intro lock_move [OF inv t] same_gate) auto
    then show ?thesis using ReleaseAdd k by (simp add: gm_continue_def go_def)
  next
    case (ReleaseCas v)
    obtain g' q where k: "R g v = (g', q)" by fastforce
    have "GateWaiters g' = GateWaiters g \<and> Owner g' = Owner g \<and> odd (Count g') = odd (Count g) \<and>
        q \<noteq> OnGate \<and> q \<noteq> Inside \<and> pc_parity q \<and> \<not> holds q"
      using release_cases [OF R k] by (auto simp: woken_parity)
    then have "lock_inv (g', pcs[t := q])"
      using ReleaseCas t I(1) by (intro lock_move [OF inv t] same_gate) auto
    then show ?thesis using ReleaseCas k by (simp add: gm_continue_def go_def)
  next
    case Signalling
    let ?q = "SlowRead (GM_LOCK_BIT OR GM_LOCK_WAITER_WOKEN) GM_LOCK_WAITER_WOKEN"
    show ?thesis
    proof (cases "GateWaiters g")
      case Nil
      have "lock_inv (g\<lparr>GateSignal := 1\<rparr>, pcs[t := Outside])"
        using Signalling t I(1) by (intro lock_move [OF inv t] same_gate) auto
      then show ?thesis using Nil Signalling by (simp add: gm_continue_def KsSignalGate_def)
    next
      case (Cons u us)
      have u: "u < length pcs" "pcs ! u = OnGate" "distinct (u # us)"
        using I(1) Cons by (auto simp: gate_ok_def)
      have inv1: "lock_inv (g, pcs[t := Outside])" using keep [of Outside] Signalling by simp
      have ut: "u \<noteq> t" using u Signalling by auto
      have gate1: "gate_ok (g, pcs[t := Outside])" using lock_invD(1) [OF inv1] .
      have "gate_ok (g\<lparr>GateWaiters := us\<rparr>, pcs[t := Outside, u := ?q])"
        using u Cons by (intro gate_move [OF gate1]) (auto)
      then have "lock_inv (g\<lparr>GateWaiters := us\<rparr>, pcs[t := Outside, u := ?q])"
        using u ut by (intro lock_move [OF inv1]) auto
      then show ?thesis using Cons Signalling by (simp add: gm_continue_def KsSignalGate_def)
    qed
  qed (use inv in \<open>simp_all add: gm_continue_def\<close>)
qed

lemma next_lock:
  assumes inv: "lock_inv s" and R: "is_release R"
  shows "lock_inv (gm_next R s a)"
proof -
  obtain g pcs where s: "s = (g, pcs)" by fastforce
  note inv' = inv [unfolded s]
  show ?thesis
  proof (cases a)
    case (Acquire t)
    then show ?thesis using acquire_lock [OF inv', of t "fst (KsAcquireGuardedMutex g)" "snd (KsAcquireGuardedMutex g)"] inv
      by (auto simp: s gm_next_def go_def)
  next
    case (TryAcquire t)
    then show ?thesis
      using acquire_lock [OF inv', of t "fst (KsTryToAcquireGuardedMutex g)" "snd (KsTryToAcquireGuardedMutex g)"] inv
      by (auto simp: s gm_next_def go_def)
  next
    case (Release t)
    have "lock_inv (g\<lparr>Owner := None\<rparr>, pcs[t := ReleaseAdd])" if "t < length pcs" "pcs ! t = Inside"
      using that lock_invD(1) [OF inv'] by (intro lock_move [OF inv' that(1)] same_gate) auto
    then show ?thesis using Release inv by (simp add: s gm_next_def)
  next
    case (Continue t)
    then show ?thesis using continue_lock [OF inv' _ R] inv by (simp add: s gm_next_def)
  qed
qed

lemma start_lock: "lock_inv (gm_start n)"
proof -
  have "cnt holds (replicate n Outside) = 0" by (simp add: cnt_def)
  then show ?thesis
    by (auto simp: gm_start_def lock_inv_def gate_ok_def KsInitializeGuardedMutex_def KsInitializeGate_def gm_bits)
qed

lemma foldl_lock: "lock_inv s \<Longrightarrow> is_release R \<Longrightarrow> lock_inv (foldl (gm_next R) s as)"
  by (induction as arbitrary: s) (simp_all add: next_lock)

lemma run_lock: "is_release R \<Longrightarrow> lock_inv (gm_run R n as)"
  unfolding gm_run_def by (rule foldl_lock [OF start_lock])

section \<open>The lost waiter\<close>

text \<open>The states in which the woken bit is left behind: nobody has been woken, nobody is going to
  signal the gate, and no action changes that, because a release that finds the bit set does not signal.\<close>

fun quiet :: "gm_pc \<Rightarrow> bool" where
  "quiet (SlowRead r a) = (r = GM_LOCK_BIT \<and> a = GM_LOCK_WAITER_INC)"
| "quiet (SlowLoop r a v) = (r = GM_LOCK_BIT \<and> a = GM_LOCK_WAITER_INC)"
| "quiet (ReleaseCas v) = False"
| "quiet Signalling = False"
| "quiet _ = True"

definition forgotten :: "gm_state \<Rightarrow> bool" where
  "forgotten s = (case s of (g, pcs) \<Rightarrow> bit (Count g) 1 \<and> GateSignal g = 0 \<and> (\<forall>t<length pcs. quiet (pcs ! t)))"

lemma bit_1_add_4: "bit (v + 4 :: u32) (Suc 0) = bit v (Suc 0)"
proof -
  have "bit (v + 4) (Suc 0) = bit (unat (v + 4)) (Suc 0)" by (simp add: bit_unsigned_iff)
  also have "unat (v + 4) = take_bit 32 (unat v + 4)" by (simp add: unat_word_ariths take_bit_eq_mod)
  also have "bit (take_bit 32 (unat v + 4)) (Suc 0) = bit (unat v + 4) (Suc 0)" by (simp add: bit_take_bit_iff)
  also have "\<dots> = bit (unat v) (Suc 0)"
  proof -
    have "(unat v + 4) div 2 = unat v div 2 + 2" by simp
    then show ?thesis by (simp add: bit_iff_odd)
  qed
  also have "\<dots> = bit v (Suc 0)" by (simp add: bit_unsigned_iff)
  finally show ?thesis .
qed

lemma bit_1_inc: "even (v :: u32) \<Longrightarrow> bit (v + 1) (Suc 0) = bit v (Suc 0)"
proof -
  assume e: "even v"
  have "v + 1 = v OR 1" using e by (simp add: or_one_eq)
  then show ?thesis by (simp add: bit_simps)
qed

lemma bit_1_reset: "bit (v AND - 2 :: u32) (Suc 0) = bit v (Suc 0)"
proof -
  have "v AND - 2 = v AND NOT 1" by simp
  then show ?thesis by (simp only: bit_simps) simp
qed

lemma forgotten_move:
  assumes "forgotten (g, pcs)" "bit (Count g') 1" "GateSignal g' = GateSignal g" "quiet q"
  shows "forgotten (g', pcs[t := q])"
  using assms by (cases "t < length pcs") (auto simp: forgotten_def nth_list_update)

lemma continue_forgotten:
  assumes f: "forgotten (g, pcs)" and inv: "lock_inv (g, pcs)" and t: "t < length pcs"
  shows "forgotten (gm_continue R (g, pcs) t) \<and>
    (\<forall>u. pcs ! u = OnGate \<longrightarrow> snd (gm_continue R (g, pcs) t) ! u = OnGate)"
proof -
  have F: "bit (Count g) 1" "GateSignal g = 0" "quiet (pcs ! t)" using f t by (auto simp: forgotten_def)
  have odd: "cnt holds pcs + of_bool (odd (Count g)) = 1" using lock_invD(3) [OF inv] .
  note mv = forgotten_move [OF f]
  show ?thesis
  proof (cases "pcs ! t")
    case (SlowRead r a)
    then show ?thesis using F mv [of g] t by (auto simp: gm_continue_def nth_list_update)
  next
    case (SlowLoop r a v)
    have q: "r = GM_LOCK_BIT" "a = GM_LOCK_WAITER_INC" using F(3) SlowLoop by simp_all
    obtain g' q where k: "KsiAcquireGuardedMutex g r a v = (g', q)" by fastforce
    have "bit (Count g XOR GM_LOCK_BIT) 1 = bit (Count g) 1" by (simp add: GM_LOCK_BIT_def bit_simps)
    then have "bit (Count g') 1 \<and> GateSignal g' = GateSignal g \<and> quiet q"
      using k q F(1) by (auto simp: KsiAcquireGuardedMutex_def GM_LOCK_WAITER_INC_def bit_1_add_4 split: if_splits)
    then show ?thesis using SlowLoop k mv [of g' q t] t by (auto simp: gm_continue_def go_def nth_list_update)
  next
    case AtGate
    have "forgotten (g\<lparr>GateWaiters := GateWaiters g @ [t]\<rparr>, pcs[t := OnGate])" using F by (intro mv) simp_all
    then show ?thesis using AtGate F(2) t by (auto simp: gm_continue_def KsWaitForGate_def nth_list_update)
  next
    case GotLock
    have "forgotten (g\<lparr>Owner := Some t\<rparr>, pcs[t := Inside])" using F by (intro mv) simp_all
    then show ?thesis using GotLock t by (auto simp: gm_continue_def nth_list_update)
  next
    case ReleaseAdd
    have "0 < cnt holds pcs" using ReleaseAdd t cnt_pos [of holds pcs] by auto
    then have "even (Count g)" using odd by (cases "odd (Count g)") auto
    then have b: "bit (Count g + GM_LOCK_BIT) 1" using F(1) bit_1_inc by (simp add: GM_LOCK_BIT_def)
    have "Count g AND GM_LOCK_WAITER_WOKEN \<noteq> 0"
      using F(1) by (metis GM_LOCK_WAITER_WOKEN_def and_exp_eq_0_iff_not_bit power_one_right)
    then have "release_add g = (g\<lparr>Count := Count g + GM_LOCK_BIT\<rparr>, Outside)"
      by (simp add: release_add_def Let_def)
    then show ?thesis using ReleaseAdd b mv [of "g\<lparr>Count := Count g + GM_LOCK_BIT\<rparr>" Outside t] t
      by (auto simp: gm_continue_def go_def nth_list_update)
  qed (use f F in \<open>auto simp: gm_continue_def\<close>)
qed

lemma next_forgotten:
  assumes f: "forgotten s" and inv: "lock_inv s"
  shows "forgotten (gm_next R s a) \<and> (\<forall>u. snd s ! u = OnGate \<longrightarrow> snd (gm_next R s a) ! u = OnGate)"
proof -
  obtain g pcs where s: "s = (g, pcs)" by fastforce
  have F: "bit (Count g) 1" using f by (simp add: s forgotten_def)
  note mv = forgotten_move [OF f [unfolded s]]
  have acq: "forgotten (go pcs t r)" if "r \<in> {KsAcquireGuardedMutex g, KsTryToAcquireGuardedMutex g}" for t r
    using that F unfolding go_def
    by (intro mv) (auto simp: KsAcquireGuardedMutex_def KsTryToAcquireGuardedMutex_def bit_test_and_reset_def
      bit_1_reset split: prod.splits bool.splits)
  have rel: "forgotten (g\<lparr>Owner := None\<rparr>, pcs[t := ReleaseAdd])" for t using F by (intro mv) simp_all
  show ?thesis
  proof (cases a)
    case (Continue t)
    then show ?thesis using continue_forgotten [of g pcs t R] f inv by (auto simp: s gm_next_def)
  qed (use acq rel f in \<open>auto simp: s gm_next_def go_def nth_list_update\<close>)
qed

lemma foldl_forgotten:
  "forgotten s \<Longrightarrow> lock_inv s \<Longrightarrow> is_release R \<Longrightarrow> snd s ! u = OnGate \<Longrightarrow> snd (foldl (gm_next R) s as) ! u = OnGate"
proof (induction as arbitrary: s)
  case (Cons a as)
  then show ?case using next_forgotten [OF Cons.prems(1,2), of R a] next_lock [OF Cons.prems(2,3), of a] by simp
qed simp

text \<open>Thread 2 takes the lock between the two actions of the release of thread 0; thread 1, the
  waiter, is woken without being announced in the count.\<close>

definition lost_schedule :: "gm_action list" where
  "lost_schedule =
     [Acquire 0, Continue 0, Acquire 1, Continue 1, Continue 1, Continue 1,
      Release 0, Continue 0, Acquire 2, Continue 0, Continue 0,
      Continue 1, Continue 1, Continue 1, Continue 2, Release 2, Continue 2]"

lemma lost_state:
  "(\<lambda>(g, pcs). pcs = [Outside, OnGate, Outside] \<and> bit (Count g) 0 \<and> bit (Count g) 1 \<and> GateSignal g = 0)
     (gm_run KsReleaseGuardedMutex 3 lost_schedule)"
  by code_simp

lemma lost_forgotten: "forgotten (gm_run KsReleaseGuardedMutex 3 lost_schedule)"
  using lost_state by (auto simp: forgotten_def less_Suc_eq split: prod.splits)

section \<open>Properties\<close>

lemma run_length: "length (snd (gm_run R n as)) = n"
proof -
  have "length (snd (foldl (gm_next R) s as)) = length (snd s)" for s
    by (induction as arbitrary: s) (simp_all add: gm_next_length)
  then show ?thesis by (simp add: gm_run_def gm_start_def)
qed

text \<open>C13: With the release of \<open>KsReleaseGuardedMutexUnsafe\<close> and also with the one of
  \<open>KsReleaseGuardedMutex\<close>, under every interleaving of the actions of any number of threads at most one thread is
  inside a guarded mutex, and the mutex names it as its owner.\<close>

theorem guarded_mutex_excludes:
  assumes "release = KsReleaseGuardedMutexUnsafe \<or> release = KsReleaseGuardedMutex"
    and "gm_run release n as = (g, pcs)" "t < n" "pcs ! t = Inside"
  shows "Owner g = Some t \<and> (\<forall>u<n. pcs ! u = Inside \<longrightarrow> u = t)"
proof -
  have inv: "lock_inv (g, pcs)" using run_lock [of release n as] assms(1,2) by (simp add: is_release_def)
  have len: "length pcs = n" using run_length [of release n as] assms(2) by simp
  have "cnt holds pcs \<le> 1" using lock_invD(3) [OF inv] by simp
  then show ?thesis using lock_invD(4) [OF inv] cnt_two [of holds pcs] assms(3,4) len by auto
qed

theorem guarded_mutex_excludes_witness:
  "(\<lambda>(g, pcs). pcs ! 1 = Inside \<and> Owner g = Some 1 \<and> pcs ! 0 \<noteq> Inside)
     (gm_run KsReleaseGuardedMutex 2 [Acquire 0, Acquire 1, Continue 0, Continue 1, Release 0, Continue 0,
        Continue 1, Continue 1, Continue 1])"
proof -
  let ?r = "gm_run KsReleaseGuardedMutex 2 [Acquire 0, Acquire 1, Continue 0, Continue 1, Release 0, Continue 0,
        Continue 1, Continue 1, Continue 1]"
  obtain g pcs where r: "?r = (g, pcs)" by (cases ?r)
  have "snd ?r ! 1 = Inside" by code_simp
  then show ?thesis
    using guarded_mutex_excludes [OF _ r, of 1] r by (auto dest: spec [of _ 0])
qed

text \<open>C14: With the unsafe release no wake-up is lost: when every thread is outside the mutex, inside or
  asleep in its gate, and nobody is inside, then nobody is asleep.\<close>

theorem guarded_mutex_wakes:
  assumes "n < 2 ^ 29" "gm_run KsReleaseGuardedMutexUnsafe n as = (g, pcs)"
    and "\<forall>t<n. pcs ! t = Outside \<or> pcs ! t = OnGate"
  shows "\<forall>t<n. pcs ! t = Outside"
proof (rule ccontr)
  assume "\<not> (\<forall>t<n. pcs ! t = Outside)"
  then obtain t where t: "t < n" "pcs ! t = OnGate" using assms(3) by auto
  have inv: "gm_inv (g, pcs)" and len: "length pcs = n"
    using gm_run_inv [OF assms(1), where as = as] assms(2) by (metis, metis snd_conv)
  note I = gm_invD [OF inv]
  have z: "cnt P pcs = 0" if "\<not> P Outside" "\<not> P OnGate" for P
    using cnt_pos [of P pcs] assms(3) that len by (metis gr0I)
  have w: "0 < cnt waits pcs"
    using cnt_pos [of waits pcs] t len by auto
  have "GateWaiters g \<noteq> []" using I(4) [of t] t len by auto
  then have "GateSignal g = 0" using I(5) by blast
  then have "pending g pcs + cnt was_woken pcs = 0" using z by (simp add: pending_def)
  then obtain u where "u < length pcs" "pcs ! u = ReleaseCas (Count g)"
    using I(11) w z [of holds] by auto
  then show False using assms(3) len by auto
qed

theorem guarded_mutex_wakes_witness:
  "(\<lambda>(g, pcs). \<forall>t<2. pcs ! t = Outside)
     (gm_run KsReleaseGuardedMutexUnsafe 2 [Acquire 0, Continue 0, Release 0, Continue 0])"
proof -
  let ?r = "gm_run KsReleaseGuardedMutexUnsafe 2 [Acquire 0, Continue 0, Release 0, Continue 0]"
  obtain g pcs where r: "?r = (g, pcs)" by (cases ?r)
  have "snd ?r ! 0 = Outside \<and> snd ?r ! 1 = Outside" by code_simp
  then have "\<forall>t<2. pcs ! t = Outside \<or> pcs ! t = OnGate" using r by (auto simp: less_2_cases_iff)
  from guarded_mutex_wakes [OF _ r this] show ?thesis by (simp add: r)
qed

text \<open>C15: The release of \<open>KsReleaseGuardedMutex\<close> tests the result of its compare and exchange for zero instead of
  comparing it with the old value. After a schedule of three threads in which another thread takes the lock in
  between, the lock is free, two threads are outside and the third sleeps in the gate; whatever the
  threads do from then on, it sleeps there for ever.\<close>

theorem KsReleaseGuardedMutex_loses_waiter:
  "(\<lambda>(g, pcs). pcs = [Outside, OnGate, Outside] \<and> bit (Count g) 0) (gm_run KsReleaseGuardedMutex 3 lost_schedule) \<and>
   snd (gm_run KsReleaseGuardedMutex 3 (lost_schedule @ later)) ! 1 = OnGate"
proof -
  let ?s = "gm_run KsReleaseGuardedMutex 3 lost_schedule"
  have R: "is_release KsReleaseGuardedMutex" by (simp add: is_release_def)
  have "snd ?s ! 1 = OnGate" using lost_state by (auto split: prod.splits)
  then have "snd (foldl (gm_next KsReleaseGuardedMutex) ?s later) ! 1 = OnGate"
    by (rule foldl_forgotten [OF lost_forgotten run_lock [OF R] R])
  then show ?thesis using lost_state by (auto simp: gm_run_def)
qed

end
