(* ===== verification/RtlRbTree.thy ===== *)
theory RtlRbTree
  imports VeaBase "HOL-Library.Tree"
begin

text \<open>
  \<open>sdk/lib/rtl/rbtree.c\<close>: red-black trees over intrusive nodes with parent pointers and a cached
  leftmost node.

  A node is named by a number, a pointer is the name of a node or \<open>None\<close> for \<open>NULL\<close>, and the memory is a
  function from names to nodes. Following a null pointer is undefined behaviour, here \<open>None\<close>. The compare
  routine is an argument of the operations that call it.
\<close>

section \<open>Nodes and trees\<close>

type_synonym node = nat
type_synonym node_ptr = "node option"

definition RTL_RB_BLACK :: u32 where "RTL_RB_BLACK = 0"
definition RTL_RB_RED :: u32 where "RTL_RB_RED = 1"

record RTL_BALANCED_NODE =
  Left :: node_ptr
  Right :: node_ptr
  Parent :: node_ptr
  Balance :: u32

record RTL_RB_TREE =
  nodes :: "node \<Rightarrow> RTL_BALANCED_NODE"
  Root :: node_ptr
  Leftmost :: node_ptr

definition get :: "(RTL_BALANCED_NODE \<Rightarrow> 'a) \<Rightarrow> RTL_RB_TREE \<Rightarrow> node_ptr \<Rightarrow> 'a option" where
  "get f s p = map_option (\<lambda>a. f (nodes s a)) p"

definition put :: "((RTL_BALANCED_NODE) \<Rightarrow> RTL_BALANCED_NODE) \<Rightarrow> node_ptr \<Rightarrow> RTL_RB_TREE \<Rightarrow> RTL_RB_TREE option" where
  "put f p s = map_option (\<lambda>a. s\<lparr>nodes := (nodes s)(a := f (nodes s a))\<rparr>) p"

definition RTL_RB_COLOR :: "RTL_RB_TREE \<Rightarrow> node_ptr \<Rightarrow> u32 option" where
  "RTL_RB_COLOR = get Balance"

definition RTL_RB_SET_COLOR :: "node_ptr \<Rightarrow> u32 \<Rightarrow> RTL_RB_TREE \<Rightarrow> RTL_RB_TREE option" where
  "RTL_RB_SET_COLOR p c = put (Balance_update (\<lambda>_. c)) p"

text \<open>\<open>p == NULL || RTL_RB_COLOR(p) == RTL_RB_BLACK\<close> and \<open>p != NULL && RTL_RB_COLOR(p) == RTL_RB_RED\<close>.\<close>

definition null_or_black :: "RTL_RB_TREE \<Rightarrow> node_ptr \<Rightarrow> bool" where
  "null_or_black s p \<longleftrightarrow> (case p of None \<Rightarrow> True | Some a \<Rightarrow> Balance (nodes s a) = RTL_RB_BLACK)"

definition nonnull_red :: "RTL_RB_TREE \<Rightarrow> node_ptr \<Rightarrow> bool" where
  "nonnull_red s p \<longleftrightarrow> (case p of None \<Rightarrow> False | Some a \<Rightarrow> Balance (nodes s a) = RTL_RB_RED)"

section \<open>Rotations\<close>

definition RtlRbLeftRotate :: "node_ptr \<Rightarrow> RTL_RB_TREE \<Rightarrow> RTL_RB_TREE option" where
  "RtlRbLeftRotate X s = do {
     Y \<leftarrow> get Right s X;
     yl \<leftarrow> get Left s Y;
     s \<leftarrow> put (Right_update (\<lambda>_. yl)) X s;
     s \<leftarrow> (if yl \<noteq> None then put (Parent_update (\<lambda>_. X)) yl s else Some s);
     xp \<leftarrow> get Parent s X;
     s \<leftarrow> put (Parent_update (\<lambda>_. xp)) Y s;
     s \<leftarrow> (if xp = None then Some (s\<lparr>Root := Y\<rparr>)
          else do {
            xpl \<leftarrow> get Left s xp;
            if X = xpl then put (Left_update (\<lambda>_. Y)) xp s
            else put (Right_update (\<lambda>_. Y)) xp s });
     s \<leftarrow> put (Left_update (\<lambda>_. X)) Y s;
     put (Parent_update (\<lambda>_. Y)) X s }"

definition RtlRbRightRotate :: "node_ptr \<Rightarrow> RTL_RB_TREE \<Rightarrow> RTL_RB_TREE option" where
  "RtlRbRightRotate Y s = do {
     X \<leftarrow> get Left s Y;
     xr \<leftarrow> get Right s X;
     s \<leftarrow> put (Left_update (\<lambda>_. xr)) Y s;
     s \<leftarrow> (if xr \<noteq> None then put (Parent_update (\<lambda>_. Y)) xr s else Some s);
     yp \<leftarrow> get Parent s Y;
     s \<leftarrow> put (Parent_update (\<lambda>_. yp)) X s;
     s \<leftarrow> (if yp = None then Some (s\<lparr>Root := X\<rparr>)
          else do {
            ypr \<leftarrow> get Right s yp;
            if Y = ypr then put (Right_update (\<lambda>_. X)) yp s
            else put (Left_update (\<lambda>_. X)) yp s });
     s \<leftarrow> put (Right_update (\<lambda>_. Y)) X s;
     put (Parent_update (\<lambda>_. X)) Y s }"

section \<open>Insertion\<close>

text \<open>The body of the loop of \<open>RtlRbInsertFixup\<close>: the branch for a parent that is a left child and the
  branch for a parent that is a right child. They return the tree and the new \<open>Z\<close>.\<close>

definition insert_fix_left :: "node_ptr \<Rightarrow> RTL_RB_TREE \<Rightarrow> (RTL_RB_TREE \<times> node_ptr) option" where
  "insert_fix_left Z s = do {
     P \<leftarrow> get Parent s Z;
     G \<leftarrow> get Parent s P;
     Y \<leftarrow> get Right s G;
     if nonnull_red s Y then do {
       s \<leftarrow> RTL_RB_SET_COLOR P RTL_RB_BLACK s;
       s \<leftarrow> RTL_RB_SET_COLOR Y RTL_RB_BLACK s;
       s \<leftarrow> RTL_RB_SET_COLOR G RTL_RB_RED s;
       Some (s, G) }
     else do {
       pr \<leftarrow> get Right s P;
       (s, Z) \<leftarrow> (if Z = pr then do { s \<leftarrow> RtlRbLeftRotate P s; Some (s, P) } else Some (s, Z));
       P \<leftarrow> get Parent s Z;
       s \<leftarrow> RTL_RB_SET_COLOR P RTL_RB_BLACK s;
       G \<leftarrow> get Parent s P;
       s \<leftarrow> RTL_RB_SET_COLOR G RTL_RB_RED s;
       s \<leftarrow> RtlRbRightRotate G s;
       Some (s, Z) } }"

definition insert_fix_right :: "node_ptr \<Rightarrow> RTL_RB_TREE \<Rightarrow> (RTL_RB_TREE \<times> node_ptr) option" where
  "insert_fix_right Z s = do {
     P \<leftarrow> get Parent s Z;
     G \<leftarrow> get Parent s P;
     Y \<leftarrow> get Left s G;
     if nonnull_red s Y then do {
       s \<leftarrow> RTL_RB_SET_COLOR P RTL_RB_BLACK s;
       s \<leftarrow> RTL_RB_SET_COLOR Y RTL_RB_BLACK s;
       s \<leftarrow> RTL_RB_SET_COLOR G RTL_RB_RED s;
       Some (s, G) }
     else do {
       pl \<leftarrow> get Left s P;
       (s, Z) \<leftarrow> (if Z = pl then do { s \<leftarrow> RtlRbRightRotate P s; Some (s, P) } else Some (s, Z));
       P \<leftarrow> get Parent s Z;
       s \<leftarrow> RTL_RB_SET_COLOR P RTL_RB_BLACK s;
       G \<leftarrow> get Parent s P;
       s \<leftarrow> RTL_RB_SET_COLOR G RTL_RB_RED s;
       s \<leftarrow> RtlRbLeftRotate G s;
       Some (s, Z) } }"

text \<open>The choice between them, \<open>Z->Parent == Z->Parent->Parent->Left\<close>.\<close>

definition insert_fix_step :: "node_ptr \<Rightarrow> RTL_RB_TREE \<Rightarrow> (RTL_RB_TREE \<times> node_ptr) option" where
  "insert_fix_step Z s = do {
     P \<leftarrow> get Parent s Z;
     G \<leftarrow> get Parent s P;
     gl \<leftarrow> get Left s G;
     if P = gl then insert_fix_left Z s else insert_fix_right Z s }"

partial_function (option) insert_fix_loop :: "node_ptr \<Rightarrow> RTL_RB_TREE \<Rightarrow> RTL_RB_TREE option" where
  "insert_fix_loop Z s = do {
     P \<leftarrow> get Parent s Z;
     if nonnull_red s P then do {
       r \<leftarrow> insert_fix_step Z s;
       insert_fix_loop (snd r) (fst r) }
     else Some s }"

declare insert_fix_loop.simps [code]

definition RtlRbInsertFixup :: "node_ptr \<Rightarrow> RTL_RB_TREE \<Rightarrow> RTL_RB_TREE option" where
  "RtlRbInsertFixup Z s = do {
     s \<leftarrow> insert_fix_loop Z s;
     RTL_RB_SET_COLOR (Root s) RTL_RB_BLACK s }"

type_synonym compare = "node \<Rightarrow> node \<Rightarrow> int"

text \<open>The loop of \<open>RtlInsertElementRb\<close> that walks down; it returns \<open>Y\<close> and \<open>Leftmost\<close>.\<close>

partial_function (option) insert_walk ::
    "compare \<Rightarrow> node \<Rightarrow> RTL_RB_TREE \<Rightarrow> node_ptr \<Rightarrow> node_ptr \<Rightarrow> bool \<Rightarrow> (node_ptr \<times> bool) option" where
  "insert_walk CompareRoutine NewNode s X Y Leftm =
     (if X = None then Some (Y, Leftm)
      else if CompareRoutine NewNode (the X) < 0
      then do { l \<leftarrow> get Left s X; insert_walk CompareRoutine NewNode s l X Leftm }
      else do { r \<leftarrow> get Right s X; insert_walk CompareRoutine NewNode s r X False })"

declare insert_walk.simps [code]

definition RtlInsertElementRb :: "compare \<Rightarrow> node \<Rightarrow> RTL_RB_TREE \<Rightarrow> RTL_RB_TREE option" where
  "RtlInsertElementRb CompareRoutine NewNode s = do {
     s \<leftarrow> put (Left_update (\<lambda>_. None)) (Some NewNode) s;
     s \<leftarrow> put (Right_update (\<lambda>_. None)) (Some NewNode) s;
     s \<leftarrow> RTL_RB_SET_COLOR (Some NewNode) RTL_RB_RED s;
     (Y, Leftm) \<leftarrow> insert_walk CompareRoutine NewNode s (Root s) None True;
     s \<leftarrow> put (Parent_update (\<lambda>_. Y)) (Some NewNode) s;
     s \<leftarrow> (if Y = None then Some (s\<lparr>Root := Some NewNode, Leftmost := Some NewNode\<rparr>)
          else if CompareRoutine NewNode (the Y) < 0 then do {
            s \<leftarrow> put (Left_update (\<lambda>_. Some NewNode)) Y s;
            Some (if Leftm then s\<lparr>Leftmost := Some NewNode\<rparr> else s) }
          else put (Right_update (\<lambda>_. Some NewNode)) Y s);
     RtlRbInsertFixup (Some NewNode) s }"

section \<open>Deletion\<close>

definition RtlRbTransplant :: "node_ptr \<Rightarrow> node_ptr \<Rightarrow> RTL_RB_TREE \<Rightarrow> RTL_RB_TREE option" where
  "RtlRbTransplant U V s = do {
     up \<leftarrow> get Parent s U;
     s \<leftarrow> (if up = None then Some (s\<lparr>Root := V\<rparr>)
          else do {
            upl \<leftarrow> get Left s up;
            if U = upl then put (Left_update (\<lambda>_. V)) up s
            else put (Right_update (\<lambda>_. V)) up s });
     if V \<noteq> None then do {
       up \<leftarrow> get Parent s U;
       put (Parent_update (\<lambda>_. up)) V s }
     else Some s }"

text \<open>
  The body of the loop of \<open>RtlRbDeleteFixup\<close>, in its two branches. Each has three parts: a red sibling is
  rotated away; a sibling with two black children is made red and the turn goes on at the parent; otherwise
  a rotation repairs the tree. The turn returns the tree, \<open>X\<close> and \<open>XParent\<close>.
\<close>

definition delete_sibling_left :: "node_ptr \<Rightarrow> RTL_RB_TREE \<Rightarrow> (RTL_RB_TREE \<times> node_ptr) option" where
  "delete_sibling_left XParent s = do {
     W \<leftarrow> get Right s XParent;
     c \<leftarrow> RTL_RB_COLOR s W;
     if c = RTL_RB_RED then do {
       s \<leftarrow> RTL_RB_SET_COLOR W RTL_RB_BLACK s;
       s \<leftarrow> RTL_RB_SET_COLOR XParent RTL_RB_RED s;
       s \<leftarrow> RtlRbLeftRotate XParent s;
       W \<leftarrow> get Right s XParent;
       Some (s, W) }
     else Some (s, W) }"

definition delete_rotate_left :: "node_ptr \<Rightarrow> node_ptr \<Rightarrow> RTL_RB_TREE \<Rightarrow> (RTL_RB_TREE \<times> node_ptr \<times> node_ptr) option" where
  "delete_rotate_left W XParent s = do {
     c \<leftarrow> RTL_RB_COLOR s XParent;
     s \<leftarrow> RTL_RB_SET_COLOR W c s;
     s \<leftarrow> RTL_RB_SET_COLOR XParent RTL_RB_BLACK s;
     far \<leftarrow> get Right s W;
     s \<leftarrow> (if far \<noteq> None then RTL_RB_SET_COLOR far RTL_RB_BLACK s else Some s);
     s \<leftarrow> RtlRbLeftRotate XParent s;
     Some (s, Root s, XParent) }"

definition delete_black_left :: "node_ptr \<Rightarrow> node_ptr \<Rightarrow> RTL_RB_TREE \<Rightarrow> (RTL_RB_TREE \<times> node_ptr \<times> node_ptr) option" where
  "delete_black_left W XParent s = do {
     near \<leftarrow> get Left s W;
     far \<leftarrow> get Right s W;
     if null_or_black s near \<and> null_or_black s far then do {
       s \<leftarrow> RTL_RB_SET_COLOR W RTL_RB_RED s;
       xpp \<leftarrow> get Parent s XParent;
       Some (s, XParent, xpp) }
     else if null_or_black s far then do {
       s \<leftarrow> (if near \<noteq> None then RTL_RB_SET_COLOR near RTL_RB_BLACK s else Some s);
       s \<leftarrow> RTL_RB_SET_COLOR W RTL_RB_RED s;
       s \<leftarrow> RtlRbRightRotate W s;
       W \<leftarrow> get Right s XParent;
       delete_rotate_left W XParent s }
     else delete_rotate_left W XParent s }"

definition delete_fix_left :: "node_ptr \<Rightarrow> RTL_RB_TREE \<Rightarrow> (RTL_RB_TREE \<times> node_ptr \<times> node_ptr) option" where
  "delete_fix_left XParent s = do {
     r \<leftarrow> delete_sibling_left XParent s;
     delete_black_left (snd r) XParent (fst r) }"

definition delete_sibling_right :: "node_ptr \<Rightarrow> RTL_RB_TREE \<Rightarrow> (RTL_RB_TREE \<times> node_ptr) option" where
  "delete_sibling_right XParent s = do {
     W \<leftarrow> get Left s XParent;
     c \<leftarrow> RTL_RB_COLOR s W;
     if c = RTL_RB_RED then do {
       s \<leftarrow> RTL_RB_SET_COLOR W RTL_RB_BLACK s;
       s \<leftarrow> RTL_RB_SET_COLOR XParent RTL_RB_RED s;
       s \<leftarrow> RtlRbRightRotate XParent s;
       W \<leftarrow> get Left s XParent;
       Some (s, W) }
     else Some (s, W) }"

definition delete_rotate_right :: "node_ptr \<Rightarrow> node_ptr \<Rightarrow> RTL_RB_TREE \<Rightarrow> (RTL_RB_TREE \<times> node_ptr \<times> node_ptr) option" where
  "delete_rotate_right W XParent s = do {
     c \<leftarrow> RTL_RB_COLOR s XParent;
     s \<leftarrow> RTL_RB_SET_COLOR W c s;
     s \<leftarrow> RTL_RB_SET_COLOR XParent RTL_RB_BLACK s;
     far \<leftarrow> get Left s W;
     s \<leftarrow> (if far \<noteq> None then RTL_RB_SET_COLOR far RTL_RB_BLACK s else Some s);
     s \<leftarrow> RtlRbRightRotate XParent s;
     Some (s, Root s, XParent) }"

definition delete_black_right :: "node_ptr \<Rightarrow> node_ptr \<Rightarrow> RTL_RB_TREE \<Rightarrow> (RTL_RB_TREE \<times> node_ptr \<times> node_ptr) option" where
  "delete_black_right W XParent s = do {
     near \<leftarrow> get Right s W;
     far \<leftarrow> get Left s W;
     if null_or_black s near \<and> null_or_black s far then do {
       s \<leftarrow> RTL_RB_SET_COLOR W RTL_RB_RED s;
       xpp \<leftarrow> get Parent s XParent;
       Some (s, XParent, xpp) }
     else if null_or_black s far then do {
       s \<leftarrow> (if near \<noteq> None then RTL_RB_SET_COLOR near RTL_RB_BLACK s else Some s);
       s \<leftarrow> RTL_RB_SET_COLOR W RTL_RB_RED s;
       s \<leftarrow> RtlRbLeftRotate W s;
       W \<leftarrow> get Left s XParent;
       delete_rotate_right W XParent s }
     else delete_rotate_right W XParent s }"

definition delete_fix_right :: "node_ptr \<Rightarrow> RTL_RB_TREE \<Rightarrow> (RTL_RB_TREE \<times> node_ptr \<times> node_ptr) option" where
  "delete_fix_right XParent s = do {
     r \<leftarrow> delete_sibling_right XParent s;
     delete_black_right (snd r) XParent (fst r) }"

definition delete_fix_step :: "node_ptr \<Rightarrow> node_ptr \<Rightarrow> RTL_RB_TREE \<Rightarrow> (RTL_RB_TREE \<times> node_ptr \<times> node_ptr) option" where
  "delete_fix_step X XParent s = do {
     xl \<leftarrow> get Left s XParent;
     if X = xl then delete_fix_left XParent s else delete_fix_right XParent s }"

partial_function (option) delete_fix_loop ::
    "node_ptr \<Rightarrow> node_ptr \<Rightarrow> RTL_RB_TREE \<Rightarrow> (RTL_RB_TREE \<times> node_ptr) option" where
  "delete_fix_loop X XParent s =
     (if X \<noteq> Root s \<and> null_or_black s X then do {
        r \<leftarrow> delete_fix_step X XParent s;
        delete_fix_loop (fst (snd r)) (snd (snd r)) (fst r) }
      else Some (s, X))"

declare delete_fix_loop.simps [code]

definition RtlRbDeleteFixup :: "node_ptr \<Rightarrow> node_ptr \<Rightarrow> RTL_RB_TREE \<Rightarrow> RTL_RB_TREE option" where
  "RtlRbDeleteFixup X XParent s = do {
     (s, X) \<leftarrow> delete_fix_loop X XParent s;
     if X \<noteq> None then RTL_RB_SET_COLOR X RTL_RB_BLACK s else Some s }"

text \<open>\<open>while (p->Left != NULL) p = p->Left\<close>.\<close>

partial_function (option) walk_left :: "RTL_RB_TREE \<Rightarrow> node_ptr \<Rightarrow> node_ptr option" where
  "walk_left s p = do {
     l \<leftarrow> get Left s p;
     if l \<noteq> None then walk_left s l else Some p }"

declare walk_left.simps [code]

text \<open>
  The parts of \<open>RtlDeleteElementRb\<close>: the cached leftmost node; the successor \<open>Y\<close> of a node with two children
  leaves its place, and takes that of \<open>Z\<close>; the three cases, which give \<open>X\<close>, \<open>XParent\<close> and \<open>YOriginalColor\<close>.
\<close>

definition delete_cache :: "node_ptr \<Rightarrow> RTL_RB_TREE \<Rightarrow> RTL_RB_TREE option" where
  "delete_cache Z s =
     (if Leftmost s = Z then do {
        Next \<leftarrow> get Right s Z;
        if Next \<noteq> None then do { Next \<leftarrow> walk_left s Next; Some (s\<lparr>Leftmost := Next\<rparr>) }
        else do { zp \<leftarrow> get Parent s Z; Some (s\<lparr>Leftmost := zp\<rparr>) } }
      else Some s)"

definition leave_place :: "node_ptr \<Rightarrow> node_ptr \<Rightarrow> RTL_RB_TREE \<Rightarrow> (RTL_RB_TREE \<times> node_ptr) option" where
  "leave_place Z Y s = do {
     yp \<leftarrow> get Parent s Y;
     if yp = Z then Some (s, Y)
     else do {
       yr \<leftarrow> get Right s Y;
       s \<leftarrow> RtlRbTransplant Y yr s;
       zr \<leftarrow> get Right s Z;
       s \<leftarrow> put (Right_update (\<lambda>_. zr)) Y s;
       s \<leftarrow> put (Parent_update (\<lambda>_. Y)) zr s;
       Some (s, yp) } }"

definition take_place :: "node_ptr \<Rightarrow> node_ptr \<Rightarrow> RTL_RB_TREE \<Rightarrow> RTL_RB_TREE option" where
  "take_place Z Y s = do {
     s \<leftarrow> RtlRbTransplant Z Y s;
     zl \<leftarrow> get Left s Z;
     s \<leftarrow> put (Left_update (\<lambda>_. zl)) Y s;
     s \<leftarrow> put (Parent_update (\<lambda>_. Y)) zl s;
     zc \<leftarrow> RTL_RB_COLOR s Z;
     RTL_RB_SET_COLOR Y zc s }"

definition delete_unlink :: "node_ptr \<Rightarrow> RTL_RB_TREE \<Rightarrow> (RTL_RB_TREE \<times> node_ptr \<times> node_ptr \<times> u32) option" where
  "delete_unlink Z s = do {
     zl \<leftarrow> get Left s Z;
     zr \<leftarrow> get Right s Z;
     if zl = None then do {
       c \<leftarrow> RTL_RB_COLOR s Z;
       zp \<leftarrow> get Parent s Z;
       s \<leftarrow> RtlRbTransplant Z zr s;
       Some (s, zr, zp, c) }
     else if zr = None then do {
       c \<leftarrow> RTL_RB_COLOR s Z;
       zp \<leftarrow> get Parent s Z;
       s \<leftarrow> RtlRbTransplant Z zl s;
       Some (s, zl, zp, c) }
     else do {
       Y \<leftarrow> walk_left s zr;
       c \<leftarrow> RTL_RB_COLOR s Y;
       X \<leftarrow> get Right s Y;
       r \<leftarrow> leave_place Z Y s;
       s \<leftarrow> take_place Z Y (fst r);
       Some (s, X, snd r, c) } }"

definition RtlDeleteElementRb :: "node_ptr \<Rightarrow> RTL_RB_TREE \<Rightarrow> RTL_RB_TREE option" where
  "RtlDeleteElementRb Z s = do {
     s \<leftarrow> delete_cache Z s;
     (s, X, XParent, YOriginalColor) \<leftarrow> delete_unlink Z s;
     s \<leftarrow> (if YOriginalColor = RTL_RB_BLACK then RtlRbDeleteFixup X XParent s else Some s);
     s \<leftarrow> put (Left_update (\<lambda>_. None)) Z s;
     s \<leftarrow> put (Right_update (\<lambda>_. None)) Z s;
     put (Parent_update (\<lambda>_. None)) Z s }"

section \<open>Searching\<close>

definition RtlInitializeRbTree :: "RTL_RB_TREE \<Rightarrow> RTL_RB_TREE" where
  "RtlInitializeRbTree s = s\<lparr>Root := None, Leftmost := None\<rparr>"

definition RtlGetLeftmostNodeRb :: "RTL_RB_TREE \<Rightarrow> node_ptr" where
  "RtlGetLeftmostNodeRb s = Leftmost s"

partial_function (option) lookup_loop :: "compare \<Rightarrow> node \<Rightarrow> RTL_RB_TREE \<Rightarrow> node_ptr \<Rightarrow> node_ptr option" where
  "lookup_loop CompareRoutine SearchNode s Current =
     (if Current = None then Some None
      else if CompareRoutine SearchNode (the Current) = 0 then Some Current
      else if CompareRoutine SearchNode (the Current) < 0
      then do { l \<leftarrow> get Left s Current; lookup_loop CompareRoutine SearchNode s l }
      else do { r \<leftarrow> get Right s Current; lookup_loop CompareRoutine SearchNode s r })"

declare lookup_loop.simps [code]

definition RtlLookupElementRb :: "compare \<Rightarrow> node \<Rightarrow> RTL_RB_TREE \<Rightarrow> node_ptr option" where
  "RtlLookupElementRb CompareRoutine SearchNode s = lookup_loop CompareRoutine SearchNode s (Root s)"

partial_function (option) next_up :: "RTL_RB_TREE \<Rightarrow> node_ptr \<Rightarrow> node_ptr \<Rightarrow> node_ptr option" where
  "next_up s Nd Par =
     (if Par = None then Some None
      else do {
        r \<leftarrow> get Right s Par;
        if Nd = r then do { q \<leftarrow> get Parent s Par; next_up s Par q }
        else Some Par })"

declare next_up.simps [code]

definition RtlGetNextNodeRb :: "RTL_RB_TREE \<Rightarrow> node_ptr \<Rightarrow> node_ptr option" where
  "RtlGetNextNodeRb s Nd =
     (if Nd = None then Some None
      else do {
        r \<leftarrow> get Right s Nd;
        if r \<noteq> None then walk_left s r
        else do { p \<leftarrow> get Parent s Nd; next_up s Nd p } })"

section \<open>The abstract tree and its representation\<close>

text \<open>An abstract tree carries the name of the node and whether it is red.\<close>

type_synonym rbt = "(node \<times> bool) tree"

definition balance_of :: "bool \<Rightarrow> u32" where
  "balance_of red = (if red then RTL_RB_RED else RTL_RB_BLACK)"

lemma balance_of_simps [simp]:
  "balance_of True = RTL_RB_RED" "balance_of False = RTL_RB_BLACK"
  "balance_of c = RTL_RB_RED \<longleftrightarrow> c" "balance_of c = RTL_RB_BLACK \<longleftrightarrow> \<not> c"
  "RTL_RB_RED \<noteq> RTL_RB_BLACK" "RTL_RB_BLACK \<noteq> RTL_RB_RED"
  by (auto simp: balance_of_def RTL_RB_RED_def RTL_RB_BLACK_def)

fun rt :: "rbt \<Rightarrow> node_ptr" where
  "rt \<langle>\<rangle> = None"
| "rt \<langle>l, x, r\<rangle> = Some (fst x)"

definition names :: "rbt \<Rightarrow> node list" where
  "names t = map fst (inorder t)"

lemma names_simps [simp]: "names \<langle>\<rangle> = []" "names \<langle>l, x, r\<rangle> = names l @ fst x # names r"
  by (simp_all add: names_def)

fun sub :: "(node \<Rightarrow> RTL_BALANCED_NODE) \<Rightarrow> node_ptr \<Rightarrow> rbt \<Rightarrow> bool" where
  "sub h q \<langle>\<rangle> \<longleftrightarrow> True"
| "sub h q \<langle>l, x, r\<rangle> \<longleftrightarrow>
     h (fst x) = \<lparr>Left = rt l, Right = rt r, Parent = q, Balance = balance_of (snd x)\<rparr> \<and>
     sub h (Some (fst x)) l \<and> sub h (Some (fst x)) r"

definition rep :: "RTL_RB_TREE \<Rightarrow> rbt \<Rightarrow> bool" where
  "rep s t \<longleftrightarrow> sub (nodes s) None t \<and> Root s = rt t \<and> distinct (names t)"

text \<open>The way from a position up to the root: \<open>Lft x c r\<close> when the position is the left child of \<open>x\<close>.\<close>

datatype frame = Lft node bool rbt | Rgt rbt node bool

type_synonym path = "frame list"

fun plug :: "path \<Rightarrow> rbt \<Rightarrow> rbt" where
  "plug [] t = t"
| "plug (Lft x c r # p) t = plug p \<langle>t, (x, c), r\<rangle>"
| "plug (Rgt l x c # p) t = plug p \<langle>l, (x, c), t\<rangle>"

fun top :: "path \<Rightarrow> node_ptr" where
  "top [] = None"
| "top (Lft x c r # p) = Some x"
| "top (Rgt l x c # p) = Some x"

fun above :: "(node \<Rightarrow> RTL_BALANCED_NODE) \<Rightarrow> path \<Rightarrow> node_ptr \<Rightarrow> node_ptr \<Rightarrow> bool" where
  "above h [] hole root \<longleftrightarrow> root = hole"
| "above h (Lft x c r # p) hole root \<longleftrightarrow>
     h x = \<lparr>Left = hole, Right = rt r, Parent = top p, Balance = balance_of c\<rparr> \<and>
     sub h (Some x) r \<and> above h p (Some x) root"
| "above h (Rgt l x c # p) hole root \<longleftrightarrow>
     h x = \<lparr>Left = rt l, Right = hole, Parent = top p, Balance = balance_of c\<rparr> \<and>
     sub h (Some x) l \<and> above h p (Some x) root"

fun before :: "path \<Rightarrow> node list" where
  "before [] = []"
| "before (Lft x c r # p) = before p"
| "before (Rgt l x c # p) = before p @ names l @ [x]"

fun after :: "path \<Rightarrow> node list" where
  "after [] = []"
| "after (Lft x c r # p) = x # names r @ after p"
| "after (Rgt l x c # p) = after p"

lemma names_plug [simp]: "names (plug p t) = before p @ names t @ after p"
  by (induction p t rule: plug.induct) auto

lemma sub_plug: "sub h None (plug p t) \<and> root = rt (plug p t) \<longleftrightarrow> above h p (rt t) root \<and> sub h (top p) t"
  by (induction p t rule: plug.induct) auto

lemma rep_plug:
  "rep s (plug p t) \<longleftrightarrow> above (nodes s) p (rt t) (Root s) \<and> sub (nodes s) (top p) t \<and> distinct (before p @ names t @ after p)"
  using sub_plug [of "nodes s" p t "Root s"] by (auto simp: rep_def)

lemma rt_in [simp]: "rt t = Some a \<Longrightarrow> a \<in> set (names t)"
  by (cases t) auto

lemma rt_None_iff [simp]: "rt t = None \<longleftrightarrow> t = \<langle>\<rangle>"
  by (cases t) auto

lemma top_in: "top p = Some a \<Longrightarrow> a \<in> set (before p) \<union> set (after p)"
  by (cases p rule: top.cases) auto

lemma sub_frame:
  "sub h q t \<Longrightarrow> (\<And>a. a \<in> set (names t) \<Longrightarrow> h' a = h a) \<Longrightarrow> sub h' q t"
  by (induction t arbitrary: q) auto

lemma above_frame:
  "above h p hole root \<Longrightarrow> (\<And>a. a \<in> set (before p) \<union> set (after p) \<Longrightarrow> h' a = h a) \<Longrightarrow> above h' p hole root"
  by (induction h p hole root rule: above.induct) (auto intro: sub_frame)

lemma sub_root: "sub h q t \<Longrightarrow> rt t = Some a \<Longrightarrow> Parent (h a) = q"
  by (cases t) auto

text \<open>A subtree under another parent.\<close>

definition reparent :: "node_ptr \<Rightarrow> node_ptr \<Rightarrow> (node \<Rightarrow> RTL_BALANCED_NODE) \<Rightarrow> node \<Rightarrow> RTL_BALANCED_NODE" where
  "reparent q a h = (case a of None \<Rightarrow> h | Some a \<Rightarrow> h(a := (h a)\<lparr>Parent := q\<rparr>))"

lemma sub_reparent:
  assumes "sub h q t" "distinct (names t)" "\<And>a. a \<in> set (names t) \<Longrightarrow> h' a = reparent q' (rt t) h a"
  shows "sub h' q' t"
proof (cases t)
  case (Node l x r)
  have "sub h' (Some (fst x)) l" "sub h' (Some (fst x)) r"
    by (rule sub_frame [of h]; use assms Node in \<open>auto simp: reparent_def\<close>)+
  then show ?thesis using assms Node by (simp add: reparent_def)
qed simp

text \<open>Another child in the hole of a path.\<close>

definition rehole :: "path \<Rightarrow> node_ptr \<Rightarrow> (node \<Rightarrow> RTL_BALANCED_NODE) \<Rightarrow> node \<Rightarrow> RTL_BALANCED_NODE" where
  "rehole p new h = (case p of [] \<Rightarrow> h
     | Lft x c r # _ \<Rightarrow> h(x := (h x)\<lparr>Left := new\<rparr>)
     | Rgt l x c # _ \<Rightarrow> h(x := (h x)\<lparr>Right := new\<rparr>))"

definition reroot :: "path \<Rightarrow> node_ptr \<Rightarrow> node_ptr \<Rightarrow> node_ptr" where
  "reroot p new root = (if p = [] then new else root)"

lemma above_rehole:
  assumes "above h p hole root" "distinct (before p @ after p)"
    "\<And>a. a \<in> set (before p) \<union> set (after p) \<Longrightarrow> h' a = rehole p new h a"
  shows "above h' p new (reroot p new root)"
proof (cases p)
  case (Cons f p')
  show ?thesis
  proof (cases f)
    case (Lft x c r)
    have "sub h' (Some x) r" by (rule sub_frame [of h]) (use assms Cons Lft in \<open>auto simp: rehole_def\<close>)
    moreover have "above h' p' (Some x) root" by (rule above_frame [of h]) (use assms Cons Lft in \<open>auto simp: rehole_def\<close>)
    ultimately show ?thesis using assms Cons Lft by (simp add: rehole_def reroot_def)
  next
    case (Rgt l x c)
    have "sub h' (Some x) l" by (rule sub_frame [of h]) (use assms Cons Rgt in \<open>auto simp: rehole_def\<close>)
    moreover have "above h' p' (Some x) root" by (rule above_frame [of h]) (use assms Cons Rgt in \<open>auto simp: rehole_def\<close>)
    ultimately show ?thesis using assms Cons Rgt by (simp add: rehole_def reroot_def)
  qed
qed (use assms in \<open>simp add: reroot_def\<close>)

lemma get_simps [simp]: "get f s (Some a) = Some (f (nodes s a))" "get f s None = None"
  by (simp_all add: get_def)

lemma put_simps [simp]: "put f (Some a) s = Some (s\<lparr>nodes := (nodes s)(a := f (nodes s a))\<rparr>)" "put f None s = None"
  by (simp_all add: put_def)

text \<open>What the represented tree says about its nodes.\<close>

lemma rep_node: "rep s (plug p \<langle>l, (x, c), r\<rangle>) \<Longrightarrow>
   nodes s x = \<lparr>Left = rt l, Right = rt r, Parent = top p, Balance = balance_of c\<rparr>"
  by (simp add: rep_plug)

definition rb_keeps :: "node list \<Rightarrow> RTL_RB_TREE \<Rightarrow> RTL_RB_TREE \<Rightarrow> bool" where
  "rb_keeps N s s' \<longleftrightarrow> Leftmost s' = Leftmost s \<and> (\<forall>a. a \<notin> set N \<longrightarrow> nodes s' a = nodes s a)"

lemma rb_keeps_refl [simp]: "rb_keeps N s s"
  by (simp add: rb_keeps_def)

lemma rb_keeps_trans: "rb_keeps N s t \<Longrightarrow> rb_keeps M t u \<Longrightarrow> set M = set N \<Longrightarrow> rb_keeps N s u"
  by (simp add: rb_keeps_def)

lemma rt_notin: "a \<notin> set (names t) \<Longrightarrow> rt t \<noteq> Some a"
  using rt_in by blast

lemma right_rotate_nodes:
  assumes "rep s (plug p \<langle>\<langle>a, (x, cx), b\<rangle>, (y, cy), c\<rangle>)"
  shows "\<exists>s'. RtlRbRightRotate (Some y) s = Some s' \<and>
    nodes s' = (rehole p (Some x) (reparent (Some y) (rt b) (nodes s)))
      (x := \<lparr>Left = rt a, Right = Some y, Parent = top p, Balance = balance_of cx\<rparr>,
       y := \<lparr>Left = rt b, Right = rt c, Parent = Some x, Balance = balance_of cy\<rparr>) \<and>
    Root s' = reroot p (Some x) (Root s) \<and> Leftmost s' = Leftmost s"
proof -
  note r = assms [unfolded rep_plug]
  have xy: "nodes s x = \<lparr>Left = rt a, Right = rt b, Parent = Some y, Balance = balance_of cx\<rparr>"
      "nodes s y = \<lparr>Left = Some x, Right = rt c, Parent = top p, Balance = balance_of cy\<rparr>" "x \<noteq> y"
    using r by auto
  have b: "rt b \<noteq> Some x" "rt b \<noteq> Some y"
    by (rule rt_notin; use r in auto)+
  show ?thesis
  proof (cases p)
    case Nil
    then show ?thesis
      by (cases "rt b") (use xy b in \<open>auto simp: RtlRbRightRotate_def rehole_def reroot_def reparent_def fun_eq_iff\<close>)
  next
    case (Cons f p')
    show ?thesis
    proof (cases f)
      case (Lft w cw d)
      have w: "nodes s w = \<lparr>Left = Some y, Right = rt d, Parent = top p', Balance = balance_of cw\<rparr>"
          "w \<noteq> x" "w \<noteq> y" "rt b \<noteq> Some w" "rt d \<noteq> Some y"
        using r Cons Lft rt_notin [of w b] rt_notin [of y d] by auto
      show ?thesis
        by (cases "rt b") (use xy b w Cons Lft in \<open>auto simp: RtlRbRightRotate_def rehole_def reroot_def reparent_def fun_eq_iff\<close>)
    next
      case (Rgt d w cw)
      have w: "nodes s w = \<lparr>Left = rt d, Right = Some y, Parent = top p', Balance = balance_of cw\<rparr>"
          "w \<noteq> x" "w \<noteq> y" "rt b \<noteq> Some w"
        using r Cons Rgt rt_notin [of w b] by auto
      show ?thesis
        by (cases "rt b") (use xy b w Cons Rgt in \<open>auto simp: RtlRbRightRotate_def rehole_def reroot_def reparent_def fun_eq_iff\<close>)
    qed
  qed
qed

lemma rehole_other: "a \<notin> set (before p) \<union> set (after p) \<Longrightarrow> rehole p new h a = h a"
  by (auto simp: rehole_def split: list.splits frame.splits)

lemma reparent_other: "q \<noteq> Some a \<Longrightarrow> reparent n q h a = h a"
  by (auto simp: reparent_def split: option.splits)

lemma rehole_cong: "h' a = h a \<Longrightarrow> rehole p new h' a = rehole p new h a"
  by (auto simp: rehole_def split: list.splits frame.splits)

lemma right_rotate:
  assumes r: "rep s (plug p \<langle>\<langle>a, (x, cx), b\<rangle>, (y, cy), c\<rangle>)"
  shows "\<exists>s'. RtlRbRightRotate (Some y) s = Some s' \<and> rep s' (plug p \<langle>a, (x, cx), \<langle>b, (y, cy), c\<rangle>\<rangle>) \<and>
    rb_keeps (names (plug p \<langle>\<langle>a, (x, cx), b\<rangle>, (y, cy), c\<rangle>)) s s'"
proof -
  obtain s' where s': "RtlRbRightRotate (Some y) s = Some s'"
    "nodes s' = (rehole p (Some x) (reparent (Some y) (rt b) (nodes s)))
      (x := \<lparr>Left = rt a, Right = Some y, Parent = top p, Balance = balance_of cx\<rparr>,
       y := \<lparr>Left = rt b, Right = rt c, Parent = Some x, Balance = balance_of cy\<rparr>)"
    "Root s' = reroot p (Some x) (Root s)" "Leftmost s' = Leftmost s"
    using right_rotate_nodes [OF r] by blast
  note r' = r [unfolded rep_plug]
  have d: "distinct (before p @ names a @ x # names b @ y # names c @ after p)" using r' by simp
  have old: "nodes s' n = nodes s n" if "n \<notin> set (before p) \<union> set (after p)" "n \<noteq> x" "n \<noteq> y" "rt b \<noteq> Some n" for n
    using that by (simp add: s'(2) rehole_other reparent_other)
  have "sub (nodes s') (Some x) a"
    by (rule sub_frame [of "nodes s"]) (use r' d in \<open>auto intro!: old dest!: rt_in\<close>)
  moreover have "sub (nodes s') (Some y) c"
    by (rule sub_frame [of "nodes s"]) (use r' d in \<open>auto intro!: old dest!: rt_in\<close>)
  moreover have "sub (nodes s') (Some y) b"
  proof (rule sub_reparent [of "nodes s" "Some x"])
    show "nodes s' n = reparent (Some y) (rt b) (nodes s) n" if "n \<in> set (names b)" for n
    proof -
      have "n \<notin> set (before p) \<union> set (after p)" "n \<noteq> x" "n \<noteq> y" using that d by auto
      then show ?thesis by (simp add: s'(2) rehole_other)
    qed
  qed (use r' d in auto)
  moreover have "above (nodes s') p (Some x) (Root s')"
    unfolding s'(3)
  proof (rule above_rehole)
    show "above (nodes s) p (Some y) (Root s)" using r' by simp
    show "nodes s' n = rehole p (Some x) (nodes s) n" if n: "n \<in> set (before p) \<union> set (after p)" for n
    proof -
      have "reparent (Some y) (rt b) (nodes s) n = nodes s n"
        using n d by (intro reparent_other) (auto dest!: rt_in)
      then show ?thesis using n d by (auto simp: s'(2) intro: rehole_cong)
    qed
  qed (use d in auto)
  ultimately have "rep s' (plug p \<langle>a, (x, cx), \<langle>b, (y, cy), c\<rangle>\<rangle>)"
    using d by (auto simp: rep_plug s'(2))
  moreover have "rb_keeps (names (plug p \<langle>\<langle>a, (x, cx), b\<rangle>, (y, cy), c\<rangle>)) s s'"
    using s'(4) by (auto simp: rb_keeps_def intro!: old dest!: rt_in)
  ultimately show ?thesis using s'(1) by blast
qed

section \<open>Mirror images\<close>

text \<open>The two branches of the fixups are mirror images, so only one is reasoned about.\<close>

definition flip :: "RTL_BALANCED_NODE \<Rightarrow> RTL_BALANCED_NODE" where
  "flip n = \<lparr>Left = Right n, Right = Left n, Parent = Parent n, Balance = Balance n\<rparr>"

definition mirror_rb :: "RTL_RB_TREE \<Rightarrow> RTL_RB_TREE" where
  "mirror_rb s = s\<lparr>nodes := \<lambda>a. flip (nodes s a)\<rparr>"

fun mirror_path :: "path \<Rightarrow> path" where
  "mirror_path [] = []"
| "mirror_path (Lft x c r # p) = Rgt (mirror r) x c # mirror_path p"
| "mirror_path (Rgt l x c # p) = Lft x c (mirror l) # mirror_path p"

lemma flip_simps [simp]:
  "Left (flip n) = Right n" "Right (flip n) = Left n" "Parent (flip n) = Parent n" "Balance (flip n) = Balance n"
  "flip (flip n) = n" "flip (Left_update f n) = Right_update f (flip n)" "flip (Right_update f n) = Left_update f (flip n)"
  "flip (Parent_update f n) = Parent_update f (flip n)" "flip (Balance_update g n) = Balance_update g (flip n)"
  "flip \<lparr>Left = l, Right = r, Parent = p, Balance = b\<rparr> = \<lparr>Left = r, Right = l, Parent = p, Balance = b\<rparr>"
  by (simp_all add: flip_def)

lemma mirror_rb_simps [simp]:
  "Root (mirror_rb s) = Root s" "Leftmost (mirror_rb s) = Leftmost s" "nodes (mirror_rb s) a = flip (nodes s a)"
  "mirror_rb (mirror_rb s) = s"
  by (simp_all add: mirror_rb_def)

lemma get_mirror [simp]:
  "get Left (mirror_rb s) q = get Right s q" "get Right (mirror_rb s) q = get Left s q"
  "get Parent (mirror_rb s) q = get Parent s q" "get Balance (mirror_rb s) q = get Balance s q"
  by (cases q; simp)+

lemma mirror_update:
  "mirror_rb (s\<lparr>nodes := (nodes s)(a := n)\<rparr>) = (mirror_rb s)\<lparr>nodes := (nodes (mirror_rb s))(a := flip n)\<rparr>"
  by (auto simp: mirror_rb_def fun_eq_iff)

lemma put_mirror:
  "put (Left_update f) q (mirror_rb s) = map_option mirror_rb (put (Right_update f) q s)"
  "put (Right_update f) q (mirror_rb s) = map_option mirror_rb (put (Left_update f) q s)"
  "put (Parent_update f) q (mirror_rb s) = map_option mirror_rb (put (Parent_update f) q s)"
  "put (Balance_update g) q (mirror_rb s) = map_option mirror_rb (put (Balance_update g) q s)"
  by (cases q; simp add: mirror_update)+

lemma mirror_root [simp]: "(mirror_rb s)\<lparr>Root := r\<rparr> = mirror_rb (s\<lparr>Root := r\<rparr>)"
  by (simp add: mirror_rb_def)

lemma bind_map_option: "Option.bind (map_option f m) g = Option.bind m (\<lambda>x. g (f x))"
  by (cases m) simp_all

lemma bind_mirror_out: "Option.bind m (\<lambda>x. map_option f (g x)) = map_option f (Option.bind m g)"
  by (cases m) simp_all

lemma if_mirror_out:
  "(if c then map_option f a else map_option f b) = map_option f (if c then a else b)"
  "(if c then map_option f a else Some (f x)) = map_option f (if c then a else Some x)"
  "(if c then Some (f x) else map_option f a) = map_option f (if c then Some x else a)"
  by simp_all

lemmas mirror_monad = put_mirror bind_map_option bind_mirror_out if_mirror_out RTL_RB_COLOR_def RTL_RB_SET_COLOR_def

lemma left_rotate_mirror: "RtlRbLeftRotate X (mirror_rb s) = map_option mirror_rb (RtlRbRightRotate X s)"
  unfolding RtlRbLeftRotate_def RtlRbRightRotate_def
  by (simp add: mirror_monad cong: if_cong)

lemma names_mirror [simp]: "names (mirror t) = rev (names t)"
  by (induction t) auto

lemma rt_mirror [simp]: "rt (mirror t) = rt t"
  by (cases t) auto

lemma top_mirror [simp]: "top (mirror_path p) = top p"
  by (cases p rule: top.cases) auto

lemma mirror_path_mirror_path [simp]: "mirror_path (mirror_path p) = p"
  by (induction p rule: mirror_path.induct) auto

lemma mirror_plug [simp]: "mirror (plug p t) = plug (mirror_path p) (mirror t)"
  by (induction p t rule: plug.induct) auto

lemma sub_mirror: "sub h q t \<Longrightarrow> sub (\<lambda>a. flip (h a)) q (mirror t)"
  by (induction t arbitrary: q) auto

lemma rep_mirror [simp]: "rep (mirror_rb s) (mirror t) \<longleftrightarrow> rep s t"
proof -
  have *: "rep s t \<Longrightarrow> rep (mirror_rb s) (mirror t)" for s t
    using sub_mirror [of "nodes s" None t] by (auto simp: rep_def mirror_rb_def)
  show ?thesis using * [of s t] * [of "mirror_rb s" "mirror t"] by auto
qed

lemma rb_keeps_mirror [simp]: "rb_keeps N (mirror_rb s) (mirror_rb s') \<longleftrightarrow> rb_keeps N s s'"
proof -
  have "flip a = flip b \<longleftrightarrow> a = b" for a b by (metis flip_simps(5))
  then show ?thesis by (simp add: rb_keeps_def)
qed

lemma rb_keeps_set: "rb_keeps N s s' \<Longrightarrow> set N = set M \<Longrightarrow> rb_keeps M s s'"
  by (simp add: rb_keeps_def)

lemma left_rotate:
  assumes r: "rep s (plug p \<langle>a, (x, cx), \<langle>b, (y, cy), c\<rangle>\<rangle>)"
  shows "\<exists>s'. RtlRbLeftRotate (Some x) s = Some s' \<and> rep s' (plug p \<langle>\<langle>a, (x, cx), b\<rangle>, (y, cy), c\<rangle>) \<and>
    rb_keeps (names (plug p \<langle>a, (x, cx), \<langle>b, (y, cy), c\<rangle>\<rangle>)) s s'"
proof -
  have m: "rep (mirror_rb s) (plug (mirror_path p) \<langle>\<langle>mirror c, (y, cy), mirror b\<rangle>, (x, cx), mirror a\<rangle>)"
    using r rep_mirror [of s "plug p \<langle>a, (x, cx), \<langle>b, (y, cy), c\<rangle>\<rangle>"] by simp
  obtain s' where s': "RtlRbRightRotate (Some x) (mirror_rb s) = Some s'"
      "rep s' (plug (mirror_path p) \<langle>mirror c, (y, cy), \<langle>mirror b, (x, cx), mirror a\<rangle>\<rangle>)"
      "rb_keeps (names (plug (mirror_path p) \<langle>\<langle>mirror c, (y, cy), mirror b\<rangle>, (x, cx), mirror a\<rangle>)) (mirror_rb s) s'"
    using right_rotate [OF m] by blast
  have "RtlRbLeftRotate (Some x) s = Some (mirror_rb s')"
    using left_rotate_mirror [of "Some x" "mirror_rb s"] s'(1) by simp
  moreover have "rep (mirror_rb s') (plug p \<langle>\<langle>a, (x, cx), b\<rangle>, (y, cy), c\<rangle>)"
    using s'(2) rep_mirror [of "mirror_rb s'" "plug p \<langle>\<langle>a, (x, cx), b\<rangle>, (y, cy), c\<rangle>"] by simp
  moreover have "rb_keeps (names (plug p \<langle>a, (x, cx), \<langle>b, (y, cy), c\<rangle>\<rangle>)) s (mirror_rb s')"
  proof -
    have "set (names (plug (mirror_path p) \<langle>\<langle>mirror c, (y, cy), mirror b\<rangle>, (x, cx), mirror a\<rangle>)) =
        set (names (mirror (plug p \<langle>a, (x, cx), \<langle>b, (y, cy), c\<rangle>\<rangle>)))" by simp
    then show ?thesis
      using s'(3) rb_keeps_mirror [of _ s "mirror_rb s'"] by (metis rb_keeps_set mirror_rb_simps(4) names_mirror set_rev)
  qed
  ultimately show ?thesis by blast
qed

lemma set_color:
  assumes r: "rep s (plug p \<langle>l, (x, c), r\<rangle>)" and b: "b = balance_of c'"
  shows "\<exists>s'. RTL_RB_SET_COLOR (Some x) b s = Some s' \<and> rep s' (plug p \<langle>l, (x, c'), r\<rangle>) \<and>
    rb_keeps (names (plug p \<langle>l, (x, c), r\<rangle>)) s s'"
proof -
  let ?h = "(nodes s)(x := (nodes s x)\<lparr>Balance := b\<rparr>)"
  note r' = r [unfolded rep_plug]
  have "above ?h p (Some x) (Root s)" by (rule above_frame [of "nodes s"]) (use r' in auto)
  moreover have "sub ?h (Some x) l" by (rule sub_frame [of "nodes s"]) (use r' in auto)
  moreover have "sub ?h (Some x) r" by (rule sub_frame [of "nodes s"]) (use r' in auto)
  ultimately show ?thesis
    using r' by (auto simp: RTL_RB_SET_COLOR_def rep_plug rb_keeps_def b)
qed

section \<open>The red-black invariants\<close>

fun isred :: "rbt \<Rightarrow> bool" where
  "isred \<langle>\<rangle> = False"
| "isred \<langle>l, x, r\<rangle> = snd x"

fun bh :: "rbt \<Rightarrow> nat" where
  "bh \<langle>\<rangle> = 0"
| "bh \<langle>l, x, r\<rangle> = bh l + (if snd x then 0 else 1)"

fun invh :: "rbt \<Rightarrow> bool" where
  "invh \<langle>\<rangle> \<longleftrightarrow> True"
| "invh \<langle>l, x, r\<rangle> \<longleftrightarrow> bh l = bh r \<and> invh l \<and> invh r"

fun invc :: "rbt \<Rightarrow> bool" where
  "invc \<langle>\<rangle> \<longleftrightarrow> True"
| "invc \<langle>l, x, r\<rangle> \<longleftrightarrow> (snd x \<longrightarrow> \<not> isred l \<and> \<not> isred r) \<and> invc l \<and> invc r"

fun blacken :: "rbt \<Rightarrow> rbt" where
  "blacken \<langle>\<rangle> = \<langle>\<rangle>"
| "blacken \<langle>l, x, r\<rangle> = \<langle>l, (fst x, False), r\<rangle>"

fun pinvh :: "path \<Rightarrow> nat \<Rightarrow> bool" where
  "pinvh [] n \<longleftrightarrow> True"
| "pinvh (Lft x c r # p) n \<longleftrightarrow> bh r = n \<and> invh r \<and> pinvh p (n + (if c then 0 else 1))"
| "pinvh (Rgt l x c # p) n \<longleftrightarrow> bh l = n \<and> invh l \<and> pinvh p (n + (if c then 0 else 1))"

fun pinvc :: "path \<Rightarrow> bool \<Rightarrow> bool" where
  "pinvc [] red \<longleftrightarrow> True"
| "pinvc (Lft x c r # p) red \<longleftrightarrow> (c \<longrightarrow> \<not> red \<and> \<not> isred r) \<and> invc r \<and> pinvc p c"
| "pinvc (Rgt l x c # p) red \<longleftrightarrow> (c \<longrightarrow> \<not> red \<and> \<not> isred l) \<and> invc l \<and> pinvc p c"

text \<open>The color of the node at the top of a path, that is of the root, and of its lowest node.\<close>

fun root_red :: "path \<Rightarrow> bool" where
  "root_red [] = False"
| "root_red [Lft x c r] = c"
| "root_red [Rgt l x c] = c"
| "root_red (f # g # p) = root_red (g # p)"

fun low_red :: "path \<Rightarrow> bool" where
  "low_red [] = False"
| "low_red (Lft x c r # p) = c"
| "low_red (Rgt l x c # p) = c"

lemma invh_plug: "invh (plug p t) \<longleftrightarrow> invh t \<and> pinvh p (bh t)"
  by (induction p t rule: plug.induct) auto

lemma invc_plug: "invc (plug p t) \<longleftrightarrow> invc t \<and> pinvc p (isred t)"
  by (induction p t rule: plug.induct) auto

lemma isred_plug: "isred (plug p t) \<longleftrightarrow> (if p = [] then isred t else root_red p)"
proof (induction p arbitrary: t rule: root_red.induct)
  case (4 f g p)
  then show ?case by (cases f) simp_all
qed simp_all

lemma isred_mirror [simp]: "isred (mirror t) = isred t"
  by (cases t) auto

lemma bh_mirror: "invh t \<Longrightarrow> bh (mirror t) = bh t \<and> invh (mirror t)"
  by (induction t) auto

lemma invh_mirror [simp]: "invh (mirror t) = invh t"
  by (metis bh_mirror mirror_mirror)

lemma invc_mirror [simp]: "invc (mirror t) = invc t"
  by (induction t) auto

lemma bh_mirror_simp [simp]: "invh t \<Longrightarrow> bh (mirror t) = bh t"
  by (simp add: bh_mirror)

lemma pinvh_mirror [simp]: "pinvh (mirror_path p) n = pinvh p n"
  by (induction p n rule: pinvh.induct) auto

lemma pinvc_mirror [simp]: "pinvc (mirror_path p) c = pinvc p c"
  by (induction p c rule: pinvc.induct) auto

lemma low_red_mirror [simp]: "low_red (mirror_path p) = low_red p"
  by (cases p rule: low_red.cases) auto

lemma mirror_path_Nil [simp]: "mirror_path p = [] \<longleftrightarrow> p = []"
  by (cases p rule: mirror_path.cases) auto

text \<open>The color of a pointer into the tree.\<close>

lemma nonnull_red_rt: "sub (nodes s) q t \<Longrightarrow> nonnull_red s (rt t) \<longleftrightarrow> isred t"
  by (cases t) (auto simp: nonnull_red_def)

lemma null_or_black_rt: "sub (nodes s) q t \<Longrightarrow> null_or_black s (rt t) \<longleftrightarrow> \<not> isred t"
  by (cases t) (auto simp: null_or_black_def)

lemma nonnull_red_top: "rep s (plug p t) \<Longrightarrow> nonnull_red s (top p) \<longleftrightarrow> low_red p"
  by (cases p rule: top.cases) (auto simp: nonnull_red_def rep_plug)

lemma rep_Left: "rep s (plug p \<langle>l, (x, c), r\<rangle>) \<Longrightarrow> get Left s (Some x) = Some (rt l)"
  and rep_Right: "rep s (plug p \<langle>l, (x, c), r\<rangle>) \<Longrightarrow> get Right s (Some x) = Some (rt r)"
  and rep_Parent: "rep s (plug p \<langle>l, (x, c), r\<rangle>) \<Longrightarrow> get Parent s (Some x) = Some (top p)"
  and rep_Color: "rep s (plug p \<langle>l, (x, c), r\<rangle>) \<Longrightarrow> RTL_RB_COLOR s (Some x) = Some (balance_of c)"
  by (simp_all add: rep_plug RTL_RB_COLOR_def)

end
