(* ===== verification/RtlRbInsert.thy ===== *)
theory RtlRbInsert
  imports RtlRbTree
begin

text \<open>
  The insertion of \<open>sdk/lib/rtl/rbtree.c\<close> is correct: \<open>RtlRbInsertFixup\<close> ends and restores the red-black
  invariants, and \<open>RtlInsertElementRb\<close> puts the new node after the nodes whose key is not greater. The compare
  routine is the interface \<open>rb_compare\<close>: it decides an order of keys.
\<close>

section \<open>Insertion\<close>

text \<open>The result of one turn of the fixup: the subtree \<open>t0\<close> at \<open>p\<close> became \<open>t'\<close>, which is in order; the turn
  goes on at its red root, or the parent of the new \<open>Z\<close> is black.\<close>

definition ins_result :: "RTL_RB_TREE \<Rightarrow> RTL_RB_TREE \<times> node_ptr \<Rightarrow> path \<Rightarrow> rbt \<Rightarrow> bool" where
  "ins_result s r p t0 \<longleftrightarrow> (\<exists>t' z'. snd r = Some z' \<and> rep (fst r) (plug p t') \<and> rb_keeps (names (plug p t0)) s (fst r) \<and>
     names t' = names t0 \<and> invh t' \<and> bh t' = bh t0 \<and> invc t' \<and>
     (isred t' \<and> rt t' = Some z' \<or> \<not> isred t' \<and> \<not> nonnull_red (fst r) (Parent (nodes (fst r) z'))))"

lemma rb_keeps_names: "rb_keeps N s t \<Longrightarrow> rb_keeps M t u \<Longrightarrow> set N = set K \<Longrightarrow> set M = set K \<Longrightarrow> rb_keeps K s u"
  by (simp add: rb_keeps_def)

lemma insert_left_uncle:
  assumes r: "rep s (plug (F # Lft g False u # p) t)"
    and F: "F = Lft x True y \<or> F = Rgt y x True" and z: "rt t = Some z" and u: "isred u"
    and inv: "invc t" "invh t" "pinvh (F # Lft g False u # p) (bh t)" "pinvc (F # Lft g False u # p) False"
  shows "\<exists>r. insert_fix_left (Some z) s = Some r \<and> ins_result s r p (plug [F, Lft g False u] t)"
proof -
  obtain ul w ur where u': "u = \<langle>ul, (w, True), ur\<rangle>" using u by (cases u) auto
  obtain zl zc zr where t': "t = \<langle>zl, (z, zc), zr\<rangle>" using z by (cases t) auto
  let ?X = "\<lambda>c. case F of Lft _ _ _ \<Rightarrow> \<langle>t, (x, c), y\<rangle> | Rgt _ _ _ \<Rightarrow> \<langle>y, (x, c), t\<rangle>"
  have P: "get Parent s (Some z) = Some (Some x)" "get Parent s (Some x) = Some (Some g)" "get Right s (Some g) = Some (Some w)"
    "nonnull_red s (Some w)"
    using r F by (auto simp: t' u' rep_plug nonnull_red_def)
  have r0: "rep s (plug p \<langle>?X True, (g, False), u\<rangle>)" using r F by auto
  have r1: "rep s (plug (Lft g False u # p) (?X True))" using r F by auto
  obtain s1 where s1: "RTL_RB_SET_COLOR (Some x) RTL_RB_BLACK s = Some s1" "rep s1 (plug (Lft g False u # p) (?X False))"
      "rb_keeps (names (plug (Lft g False u # p) (?X True))) s s1"
    using F set_color [of s "Lft g False u # p" t x True y RTL_RB_BLACK False] set_color [of s "Lft g False u # p" y x True t RTL_RB_BLACK False] r1
    by (auto split: frame.splits)
  have r2: "rep s1 (plug (Rgt (?X False) g False # p) \<langle>ul, (w, True), ur\<rangle>)" using s1(2) by (simp add: u')
  obtain s2 where s2: "RTL_RB_SET_COLOR (Some w) RTL_RB_BLACK s1 = Some s2"
      "rep s2 (plug (Rgt (?X False) g False # p) \<langle>ul, (w, False), ur\<rangle>)"
      "rb_keeps (names (plug (Rgt (?X False) g False # p) \<langle>ul, (w, True), ur\<rangle>)) s1 s2"
    using set_color [OF r2, of RTL_RB_BLACK False] by auto
  have r3: "rep s2 (plug p \<langle>?X False, (g, False), \<langle>ul, (w, False), ur\<rangle>\<rangle>)" using s2(2) by simp
  obtain s3 where s3: "RTL_RB_SET_COLOR (Some g) RTL_RB_RED s2 = Some s3"
      "rep s3 (plug p \<langle>?X False, (g, True), \<langle>ul, (w, False), ur\<rangle>\<rangle>)"
      "rb_keeps (names (plug p \<langle>?X False, (g, False), \<langle>ul, (w, False), ur\<rangle>\<rangle>)) s2 s3"
    using set_color [OF r3, of RTL_RB_RED True] by auto
  have "insert_fix_left (Some z) s = Some (s3, Some g)"
    using P s1(1) s2(1) s3(1) by (simp add: insert_fix_left_def)
  moreover have "ins_result s (s3, Some g) p (plug [F, Lft g False u] t)"
    unfolding ins_result_def
  proof (intro exI [of _ "\<langle>?X False, (g, True), \<langle>ul, (w, False), ur\<rangle>\<rangle>"] exI [of _ g] conjI)
    show "rb_keeps (names (plug p (plug [F, Lft g False u] t))) s (fst (s3, Some g))"
      using s1(3) s2(3) s3(3) F by (auto simp: rb_keeps_def u')
  qed (use s3(2) F inv in \<open>auto simp: u'\<close>)
  ultimately show ?thesis by blast
qed


text \<open>Recoloring and the outer rotation, which both shapes end with.\<close>

lemma insert_left_rotate:
  assumes r: "rep s (plug p \<langle>\<langle>t, (x, True), y\<rangle>, (g, False), u\<rangle>)"
  shows "\<exists>s'. do { s \<leftarrow> RTL_RB_SET_COLOR (Some x) RTL_RB_BLACK s; G \<leftarrow> get Parent s (Some x);
       s \<leftarrow> RTL_RB_SET_COLOR G RTL_RB_RED s; RtlRbRightRotate G s } = Some s' \<and>
    rep s' (plug p \<langle>t, (x, False), \<langle>y, (g, True), u\<rangle>\<rangle>) \<and>
    rb_keeps (names (plug p \<langle>\<langle>t, (x, True), y\<rangle>, (g, False), u\<rangle>)) s s'"
proof -
  have r1: "rep s (plug (Lft g False u # p) \<langle>t, (x, True), y\<rangle>)" using r by simp
  obtain s1 where s1: "RTL_RB_SET_COLOR (Some x) RTL_RB_BLACK s = Some s1" "rep s1 (plug (Lft g False u # p) \<langle>t, (x, False), y\<rangle>)"
      "rb_keeps (names (plug (Lft g False u # p) \<langle>t, (x, True), y\<rangle>)) s s1"
    using set_color [OF r1, of RTL_RB_BLACK False] by auto
  have r2: "rep s1 (plug p \<langle>\<langle>t, (x, False), y\<rangle>, (g, False), u\<rangle>)" using s1(2) by simp
  obtain s2 where s2: "RTL_RB_SET_COLOR (Some g) RTL_RB_RED s1 = Some s2" "rep s2 (plug p \<langle>\<langle>t, (x, False), y\<rangle>, (g, True), u\<rangle>)"
      "rb_keeps (names (plug p \<langle>\<langle>t, (x, False), y\<rangle>, (g, False), u\<rangle>)) s1 s2"
    using set_color [OF r2, of RTL_RB_RED True] by auto
  obtain s3 where s3: "RtlRbRightRotate (Some g) s2 = Some s3" "rep s3 (plug p \<langle>t, (x, False), \<langle>y, (g, True), u\<rangle>\<rangle>)"
      "rb_keeps (names (plug p \<langle>\<langle>t, (x, False), y\<rangle>, (g, True), u\<rangle>)) s2 s3"
    using right_rotate [OF s2(2)] by blast
  have "get Parent s1 (Some x) = Some (Some g)" using rep_Parent [OF s1(2)] by simp
  then show ?thesis using s1 s2 s3 by (auto simp: rb_keeps_def)
qed

lemma insert_left_outer:
  assumes r: "rep s (plug (F # Lft g False u # p) t)"
    and F: "F = Lft x True y \<or> F = Rgt y x True" and t: "t = \<langle>zl, (z, True), zr\<rangle>" and u: "\<not> isred u"
    and inv: "invc t" "invh t" "pinvh (F # Lft g False u # p) (bh t)" "pinvc (F # Lft g False u # p) False"
  shows "\<exists>r. insert_fix_left (Some z) s = Some r \<and> ins_result s r p (plug [F, Lft g False u] t)"
  using F
proof
  assume F: "F = Lft x True y"
  have r0: "rep s (plug p \<langle>\<langle>t, (x, True), y\<rangle>, (g, False), u\<rangle>)" using r F by simp
  have nd: "distinct (names (plug p \<langle>\<langle>t, (x, True), y\<rangle>, (g, False), u\<rangle>))" using r0 by (simp add: rep_def)
  have "rt y \<noteq> Some z" by (rule rt_notin) (use nd t in auto)
  then have P: "get Parent s (Some z) = Some (Some x)" "get Parent s (Some x) = Some (Some g)" "get Right s (Some g) = Some (rt u)"
    "get Right s (Some x) = Some (rt y)" "rt y \<noteq> Some z" "\<not> nonnull_red s (rt u)"
    using r F u nonnull_red_rt [of s "Some g" u] by (auto simp: t rep_plug)
  obtain s' where s': "do { s \<leftarrow> RTL_RB_SET_COLOR (Some x) RTL_RB_BLACK s; G \<leftarrow> get Parent s (Some x);
       s \<leftarrow> RTL_RB_SET_COLOR G RTL_RB_RED s; RtlRbRightRotate G s } = Some s'"
    "rep s' (plug p \<langle>t, (x, False), \<langle>y, (g, True), u\<rangle>\<rangle>)"
    "rb_keeps (names (plug p \<langle>\<langle>t, (x, True), y\<rangle>, (g, False), u\<rangle>)) s s'"
    using insert_left_rotate [OF r0] by blast
  have "insert_fix_left (Some z) s = Some (s', Some z)"
    using P s'(1) by (auto simp: insert_fix_left_def bind_eq_Some_conv)
  moreover have "ins_result s (s', Some z) p (plug [F, Lft g False u] t)"
    unfolding ins_result_def
  proof (intro exI [of _ "\<langle>t, (x, False), \<langle>y, (g, True), u\<rangle>\<rangle>"] exI [of _ z] conjI)
    show "isred \<langle>t, (x, False), \<langle>y, (g, True), u\<rangle>\<rangle> \<and> rt \<langle>t, (x, False), \<langle>y, (g, True), u\<rangle>\<rangle> = Some z \<or>
      \<not> isred \<langle>t, (x, False), \<langle>y, (g, True), u\<rangle>\<rangle> \<and> \<not> nonnull_red (fst (s', Some z)) (Parent (nodes (fst (s', Some z)) z))"
      using s'(2) by (auto simp: t rep_plug nonnull_red_def)
  qed (use s' F inv u t in auto)
  ultimately show ?thesis by blast
next
  assume F: "F = Rgt y x True"
  have r0: "rep s (plug (Lft g False u # p) \<langle>y, (x, True), \<langle>zl, (z, True), zr\<rangle>\<rangle>)" using r F t by simp
  have P: "get Parent s (Some z) = Some (Some x)" "get Parent s (Some x) = Some (Some g)" "get Right s (Some g) = Some (rt u)"
    "get Right s (Some x) = Some (Some z)" "\<not> nonnull_red s (rt u)"
    using r F u nonnull_red_rt [of s "Some g" u] by (auto simp: t rep_plug)
  obtain s1 where s1: "RtlRbLeftRotate (Some x) s = Some s1" "rep s1 (plug (Lft g False u # p) \<langle>\<langle>y, (x, True), zl\<rangle>, (z, True), zr\<rangle>)"
      "rb_keeps (names (plug (Lft g False u # p) \<langle>y, (x, True), \<langle>zl, (z, True), zr\<rangle>\<rangle>)) s s1"
    using left_rotate [OF r0] by blast
  have r1: "rep s1 (plug p \<langle>\<langle>\<langle>y, (x, True), zl\<rangle>, (z, True), zr\<rangle>, (g, False), u\<rangle>)" using s1(2) by simp
  have P1: "get Parent s1 (Some x) = Some (Some z)"
    using s1(2) by (auto simp: rep_plug)
  obtain s' where s': "do { s \<leftarrow> RTL_RB_SET_COLOR (Some z) RTL_RB_BLACK s1; G \<leftarrow> get Parent s (Some z);
       s \<leftarrow> RTL_RB_SET_COLOR G RTL_RB_RED s; RtlRbRightRotate G s } = Some s'"
    "rep s' (plug p \<langle>\<langle>y, (x, True), zl\<rangle>, (z, False), \<langle>zr, (g, True), u\<rangle>\<rangle>)"
    "rb_keeps (names (plug p \<langle>\<langle>\<langle>y, (x, True), zl\<rangle>, (z, True), zr\<rangle>, (g, False), u\<rangle>)) s1 s'"
    using insert_left_rotate [OF r1] by blast
  have "insert_fix_left (Some z) s = Some (s', Some x)"
    using P P1 s1(1) s'(1) by (auto simp: insert_fix_left_def bind_eq_Some_conv)
  moreover have "ins_result s (s', Some x) p (plug [F, Lft g False u] t)"
    unfolding ins_result_def
  proof (intro exI [of _ "\<langle>\<langle>y, (x, True), zl\<rangle>, (z, False), \<langle>zr, (g, True), u\<rangle>\<rangle>"] exI [of _ x] conjI)
    show "isred \<langle>\<langle>y, (x, True), zl\<rangle>, (z, False), \<langle>zr, (g, True), u\<rangle>\<rangle> \<and> rt \<langle>\<langle>y, (x, True), zl\<rangle>, (z, False), \<langle>zr, (g, True), u\<rangle>\<rangle> = Some x \<or>
      \<not> isred \<langle>\<langle>y, (x, True), zl\<rangle>, (z, False), \<langle>zr, (g, True), u\<rangle>\<rangle> \<and>
      \<not> nonnull_red (fst (s', Some x)) (Parent (nodes (fst (s', Some x)) x))"
      using s'(2) by (auto simp: rep_plug nonnull_red_def)
    show "rb_keeps (names (plug p (plug [F, Lft g False u] t))) s (fst (s', Some x))"
      using s1(3) s'(3) F t by (auto simp: rb_keeps_def)
  qed (use s' F inv u t in auto)
  ultimately show ?thesis by blast
qed

lemma nonnull_red_mirror [simp]: "nonnull_red (mirror_rb s) q = nonnull_red s q"
  by (simp add: nonnull_red_def split: option.splits)

lemma null_or_black_mirror [simp]: "null_or_black (mirror_rb s) q = null_or_black s q"
  by (simp add: null_or_black_def split: option.splits)

abbreviation mirror_fst :: "RTL_RB_TREE \<times> 'a \<Rightarrow> RTL_RB_TREE \<times> 'a" where
  "mirror_fst \<equiv> map_prod mirror_rb (\<lambda>x. x)"

lemma mirror_pair_out: "Some (mirror_rb x, y) = map_option mirror_fst (Some (x, y))"
  by simp

lemma fst_mirror: "fst (mirror_fst x) = mirror_rb (fst x)" "snd (mirror_fst x) = snd x"
  by (simp_all add: map_prod_def case_prod_beta)

lemma rotate_mirror:
  "RtlRbLeftRotate X (mirror_rb s) = map_option mirror_rb (RtlRbRightRotate X s)"
  "RtlRbRightRotate X (mirror_rb s) = map_option mirror_rb (RtlRbLeftRotate X s)"
proof -
  show "RtlRbLeftRotate X (mirror_rb s) = map_option mirror_rb (RtlRbRightRotate X s)" by (rule left_rotate_mirror)
  have "map_option mirror_rb (RtlRbRightRotate X (mirror_rb s)) = RtlRbLeftRotate X s"
    using left_rotate_mirror [of X "mirror_rb s"] by simp
  then have "map_option mirror_rb (map_option mirror_rb (RtlRbRightRotate X (mirror_rb s))) = map_option mirror_rb (RtlRbLeftRotate X s)"
    by simp
  then show "RtlRbRightRotate X (mirror_rb s) = map_option mirror_rb (RtlRbLeftRotate X s)"
    by (simp add: option.map_comp comp_def option.map_ident)
qed

lemma color_mirror: "RTL_RB_SET_COLOR q c (mirror_rb s) = map_option mirror_rb (RTL_RB_SET_COLOR q c s)"
  "RTL_RB_COLOR (mirror_rb s) q = RTL_RB_COLOR s q"
  by (simp_all add: RTL_RB_SET_COLOR_def RTL_RB_COLOR_def put_mirror)

lemmas mirror_step = put_mirror bind_map_option bind_mirror_out if_mirror_out rotate_mirror color_mirror fst_mirror

lemma insert_fix_mirror: "insert_fix_right Z (mirror_rb s) = map_option mirror_fst (insert_fix_left Z s)"
  unfolding insert_fix_left_def insert_fix_right_def
  by (simp only: mirror_step mirror_pair_out get_mirror nonnull_red_mirror prod.case case_prod_unfold fst_conv snd_conv cong: if_cong)


lemma insert_left_ok:
  assumes r: "rep s (plug (F # Lft g False u # p) t)"
    and F: "F = Lft x True y \<or> F = Rgt y x True" and t: "rt t = Some z" "isred t"
    and inv: "invc t" "invh t" "pinvh (F # Lft g False u # p) (bh t)" "pinvc (F # Lft g False u # p) False"
  shows "\<exists>r. insert_fix_left (Some z) s = Some r \<and> ins_result s r p (plug [F, Lft g False u] t)"
proof (cases "isred u")
  case True
  show ?thesis by (rule insert_left_uncle [OF r F t(1) True inv])
next
  case False
  obtain zl zr where "t = \<langle>zl, (z, True), zr\<rangle>" using t by (cases t) auto
  then show ?thesis by (rule insert_left_outer [OF r F _ False inv])
qed

lemma ins_result_mirror:
  assumes "ins_result (mirror_rb s) r (mirror_path p) (mirror t0)" "invh t0"
  shows "ins_result s (mirror_fst r) p t0"
proof -
  obtain t' z' where t': "snd r = Some z'" "rep (fst r) (plug (mirror_path p) t')"
      "rb_keeps (names (plug (mirror_path p) (mirror t0))) (mirror_rb s) (fst r)"
      "names t' = names (mirror t0)" "invh t'" "bh t' = bh (mirror t0)" "invc t'"
      "isred t' \<and> rt t' = Some z' \<or> \<not> isred t' \<and> \<not> nonnull_red (fst r) (Parent (nodes (fst r) z'))"
    using assms(1) by (auto simp: ins_result_def)
  show ?thesis
    unfolding ins_result_def
  proof (intro exI [of _ "mirror t'"] exI [of _ z'] conjI)
    show "rep (fst (mirror_fst r)) (plug p (mirror t'))"
      using t'(2) rep_mirror [of "mirror_rb (fst r)" "plug p (mirror t')"] by (simp add: fst_mirror)
    have "rb_keeps (names (plug p t0)) (mirror_rb s) (fst r)"
      by (rule rb_keeps_set [OF t'(3)]) (auto simp flip: mirror_plug)
    then show "rb_keeps (names (plug p t0)) s (fst (mirror_fst r))"
      using rb_keeps_mirror [of _ s "mirror_rb (fst r)"] by (simp add: fst_mirror)
  qed (use t' assms(2) in \<open>auto simp: fst_mirror\<close>)
qed

fun mirror_frame :: "frame \<Rightarrow> frame" where
  "mirror_frame (Lft x c r) = Rgt (mirror r) x c"
| "mirror_frame (Rgt l x c) = Lft x c (mirror l)"

lemma mirror_path_Cons: "mirror_path (f # p) = mirror_frame f # mirror_path p"
  by (cases f) simp_all

lemma insert_right_ok:
  assumes r: "rep s (plug (F # Rgt u g False # p) t)"
    and F: "F = Lft x True y \<or> F = Rgt y x True" and t: "rt t = Some z" "isred t"
    and inv: "invc t" "invh t" "pinvh (F # Rgt u g False # p) (bh t)" "pinvc (F # Rgt u g False # p) False"
  shows "\<exists>r. insert_fix_right (Some z) s = Some r \<and> ins_result s r p (plug [F, Rgt u g False] t)"
proof -
  have m: "mirror_path (F # Rgt u g False # p) = mirror_frame F # Lft g False (mirror u) # mirror_path p"
    by (simp add: mirror_path_Cons)
  have F': "mirror_frame F = Lft x True (mirror y) \<or> mirror_frame F = Rgt (mirror y) x True"
    using F by auto
  have r': "rep (mirror_rb s) (plug (mirror_frame F # Lft g False (mirror u) # mirror_path p) (mirror t))"
    using r rep_mirror [of s "plug (F # Rgt u g False # p) t"] by (simp only: mirror_plug m)
  obtain q where q: "insert_fix_left (Some z) (mirror_rb s) = Some q"
      "ins_result (mirror_rb s) q (mirror_path p) (plug [mirror_frame F, Lft g False (mirror u)] (mirror t))"
    using insert_left_ok [OF r' F', of z] t inv
      pinvh_mirror [of "F # Rgt u g False # p" "bh t"] pinvc_mirror [of "F # Rgt u g False # p" False]
    unfolding m by auto
  have "insert_fix_right (Some z) s = Some (mirror_fst q)"
    using insert_fix_mirror [of "Some z" "mirror_rb s"] q(1) by simp
  moreover have "plug [mirror_frame F, Lft g False (mirror u)] (mirror t) = mirror (plug [F, Rgt u g False] t)"
    by (simp add: mirror_path_Cons del: plug.simps)
  moreover have "invh (plug [F, Rgt u g False] t)"
    using F inv by auto
  ultimately show ?thesis
    using ins_result_mirror [of s q p "plug [F, Rgt u g False] t"] q(2) by auto
qed

definition rbt_ok :: "rbt \<Rightarrow> bool" where
  "rbt_ok t \<longleftrightarrow> invc t \<and> invh t \<and> \<not> isred t"

lemma pinvc_low: "pinvc p False \<Longrightarrow> \<not> low_red p \<Longrightarrow> pinvc p c"
  by (cases p rule: low_red.cases) auto

lemma plug_Cons: "plug (F # p) t = plug p (plug [F] t)"
  by (cases F) simp_all

lemma pinvh_Cons: "pinvh (F # p) (bh t) \<Longrightarrow> pinvh p (bh (plug [F] t))"
  by (cases F) auto

lemma invh_Cons: "pinvh (F # p) (bh t) \<Longrightarrow> invh t \<Longrightarrow> invh (plug [F] t)"
  by (cases F) auto

lemma insert_fix_step_ok:
  assumes r: "rep s (plug (F # G # p) t)" and t: "rt t = Some z" "isred t"
    and inv: "invc t" "invh t" "pinvh (F # G # p) (bh t)" "pinvc (F # G # p) False"
    and F: "low_red [F]"
  shows "\<exists>r. insert_fix_step (Some z) s = Some r \<and> ins_result s r p (plug [F, G] t)"
proof -
  obtain x y where F': "F = Lft x True y \<or> F = Rgt y x True" using F by (cases F) auto
  have z: "get Parent s (Some z) = Some (Some x)" using r F' t by (cases t) (auto simp: rep_plug)
  show ?thesis
  proof (cases G)
    case (Lft g c u)
    then have "\<not> c" using inv(4) F' by auto
    then have "get Parent s (Some x) = Some (Some g)" "get Left s (Some g) = Some (Some x)"
      using r F' Lft by (auto simp: rep_plug)
    then show ?thesis
      using insert_left_ok [of s F g u p t x y z] r F' t inv Lft \<open>\<not> c\<close> z by (simp add: insert_fix_step_def)
  next
    case (Rgt u g c)
    then have c: "\<not> c" using inv(4) F' by auto
    have "distinct (names (plug (F # G # p) t))" using r by (simp add: rep_def)
    then have "x \<notin> set (names u)" using F' Rgt by auto
    then have ne: "Some x \<noteq> rt u" using rt_notin by metis
    have g: "get Parent s (Some x) = Some (Some g)" "get Left s (Some g) = Some (rt u)"
      using r F' Rgt by (auto simp: rep_plug)
    have "insert_fix_step (Some z) s = insert_fix_right (Some z) s"
      using z g ne by (simp add: insert_fix_step_def)
    then show ?thesis
      using insert_right_ok [of s F u g p t x y z] r F' t inv Rgt c by simp
  qed
qed

lemma insert_fix_loop_ok:
  assumes "rep s (plug p t)" "rt t = Some z" "isred t" "invc t" "invh t" "pinvh p (bh t)" "pinvc p False"
    and "p \<noteq> [] \<longrightarrow> \<not> root_red p"
  shows "\<exists>s' T. insert_fix_loop (Some z) s = Some s' \<and> rep s' T \<and> rb_keeps (names (plug p t)) s s' \<and>
    names T = names (plug p t) \<and> invh T \<and> invc T"
  using assms
proof (induction "length p" arbitrary: p s t z rule: less_induct)
  case less
  have P: "get Parent s (Some z) = Some (top p)"
    using less.prems(1,2) by (cases t) (auto simp: rep_plug)
  show ?case
  proof (cases "low_red p")
    case False
    then have "insert_fix_loop (Some z) s = Some s"
      using P nonnull_red_top [OF less.prems(1)] by (simp add: insert_fix_loop.simps [of "Some z"])
    moreover have "invh (plug p t)" "invc (plug p t)"
      using less.prems pinvc_low [OF less.prems(7) False] by (simp_all add: invh_plug invc_plug)
    ultimately show ?thesis using less.prems(1) by auto
  next
    case True
    then obtain F p' where p: "p = F # p'" "low_red [F]" by (cases p rule: low_red.cases) auto
    have "p' \<noteq> []" using less.prems(8) p by (cases F) auto
    then obtain G p'' where p': "p' = G # p''" by (cases p') auto
    have G: "\<not> low_red [G]" using less.prems(7) p p' by (cases F; cases G) auto
    obtain r where r: "insert_fix_step (Some z) s = Some r" "ins_result s r p'' (plug [F, G] t)"
      using insert_fix_step_ok [of s F G p'' t z] less.prems p p' by auto
    obtain t' z' where t': "snd r = Some z'" "rep (fst r) (plug p'' t')" "rb_keeps (names (plug p'' (plug [F, G] t))) s (fst r)"
        "names t' = names (plug [F, G] t)" "invh t'" "bh t' = bh (plug [F, G] t)" "invc t'"
        "isred t' \<and> rt t' = Some z' \<or> \<not> isred t' \<and> \<not> nonnull_red (fst r) (Parent (nodes (fst r) z'))"
      using r(2) by (auto simp: ins_result_def)
    have pl: "plug p t = plug p'' (plug [F, G] t)" by (metis p(1) p' plug_Cons plug.simps(1))
    have ph: "pinvh p'' (bh t')"
      using less.prems(6) t'(6) unfolding p(1) p' by (metis pinvh_Cons plug_Cons plug.simps(1))
    have pc: "pinvc p'' False" using less.prems(7) G unfolding p(1) p' by (cases F; cases G) auto
    have step: "insert_fix_loop (Some z) s = insert_fix_loop (Some z') (fst r)"
      using P True nonnull_red_top [OF less.prems(1)] r(1) t'(1) by (simp add: insert_fix_loop.simps [of "Some z"])
    from t'(8) show ?thesis
    proof
      assume red: "isred t' \<and> rt t' = Some z'"
      have "p'' \<noteq> [] \<longrightarrow> \<not> root_red p''" using less.prems(8) unfolding p(1) p' by (cases p'') auto
      then obtain s' T where s': "insert_fix_loop (Some z') (fst r) = Some s'" "rep s' T"
          "rb_keeps (names (plug p'' t')) (fst r) s'" "names T = names (plug p'' t')" "invh T" "invc T"
        using less.hyps [of p'' "fst r" t' z'] p(1) p' t' red ph pc by auto
      have nm: "names (plug p'' t') = names (plug p t)" using t'(4) by (simp add: pl)
      have "rb_keeps (names (plug p t)) s s'" using t'(3) s'(3) unfolding pl [symmetric] nm by (simp add: rb_keeps_def)
      then show ?thesis using step s' nm by auto
    next
      assume black: "\<not> isred t' \<and> \<not> nonnull_red (fst r) (Parent (nodes (fst r) z'))"
      then have "insert_fix_loop (Some z') (fst r) = Some (fst r)"
        by (simp add: insert_fix_loop.simps [of "Some z'"])
      moreover have "invh (plug p'' t')" "invc (plug p'' t')"
        using t' ph pc black by (simp_all add: invh_plug invc_plug)
      moreover have "names (plug p'' t') = names (plug p t)" using t'(4) by (simp add: pl)
      ultimately show ?thesis using step t'(2,3) pl by (intro exI [of _ "fst r"] exI [of _ "plug p'' t'"]) simp
    qed
  qed
qed

lemma blacken_ok: "invh T \<Longrightarrow> invc T \<Longrightarrow> rbt_ok (blacken T)"
  by (cases T) (auto simp: rbt_ok_def)

lemma names_blacken [simp]: "names (blacken T) = names T"
  by (cases T) auto

lemma RtlRbInsertFixup_ok:
  assumes "rep s (plug p t)" "rt t = Some z" "isred t" "invc t" "invh t" "pinvh p (bh t)" "pinvc p False"
    and "p \<noteq> [] \<longrightarrow> \<not> root_red p"
  shows "\<exists>s' T. RtlRbInsertFixup (Some z) s = Some s' \<and> rep s' T \<and> rb_keeps (names (plug p t)) s s' \<and>
    names T = names (plug p t) \<and> rbt_ok T"
proof -
  obtain s' T where s': "insert_fix_loop (Some z) s = Some s'" "rep s' T" "rb_keeps (names (plug p t)) s s'"
      "names T = names (plug p t)" "invh T" "invc T"
    using insert_fix_loop_ok [OF assms] by blast
  have "names T \<noteq> []" using s'(4) assms(2) by (cases t) auto
  then obtain l x c r where T: "T = \<langle>l, (x, c), r\<rangle>" by (cases T) auto
  then have r: "rep s' (plug [] \<langle>l, (x, c), r\<rangle>)" "Root s' = Some x" using s'(2) by (auto simp: rep_def)
  obtain s'' where s'': "RTL_RB_SET_COLOR (Some x) RTL_RB_BLACK s' = Some s''" "rep s'' (plug [] \<langle>l, (x, False), r\<rangle>)"
      "rb_keeps (names (plug [] \<langle>l, (x, c), r\<rangle>)) s' s''"
    using set_color [OF r(1), of RTL_RB_BLACK False] by auto
  have "rb_keeps (names T) s' s''" using s''(3) T by simp
  then have "rb_keeps (names (plug p t)) s s''"
    using s'(3) unfolding s'(4) by (simp add: rb_keeps_def)
  moreover have "rep s'' (blacken T)" using s''(2) T by simp
  moreover have "RtlRbInsertFixup (Some z) s = Some s''"
    using s'(1) s''(1) r(2) by (simp add: RtlRbInsertFixup_def)
  ultimately show ?thesis using s'(4-6) blacken_ok by auto
qed

text \<open>The cached leftmost node.\<close>

definition leftmost_ok :: "RTL_RB_TREE \<Rightarrow> rbt \<Rightarrow> bool" where
  "leftmost_ok s t \<longleftrightarrow> Leftmost s = (if names t = [] then None else Some (hd (names t)))"

text \<open>All that is known of a tree between two operations: the memory represents a red-black tree whose
  nodes are \<open>xs\<close> in order, and the cache names the first one.\<close>

definition rb_tree :: "RTL_RB_TREE \<Rightarrow> node list \<Rightarrow> bool" where
  "rb_tree s xs \<longleftrightarrow> (\<exists>t. rep s t \<and> rbt_ok t \<and> leftmost_ok s t \<and> names t = xs)"

text \<open>The position the insertion looks for: after the nodes that are not greater.\<close>

definition insert_after :: "(node \<Rightarrow> 'k::linorder) \<Rightarrow> node \<Rightarrow> node list \<Rightarrow> node list" where
  "insert_after key n xs = takeWhile (\<lambda>a. key a \<le> key n) xs @ n # dropWhile (\<lambda>a. key a \<le> key n) xs"

lemma insert_after_split:
  assumes "\<forall>a\<in>set xs. key a \<le> key n" "\<forall>a\<in>set ys. key n < key a"
  shows "insert_after key n (xs @ ys) = xs @ n # ys"
proof (cases ys)
  case Nil
  then have "takeWhile (\<lambda>a. key a \<le> key n) xs = xs" "dropWhile (\<lambda>a. key a \<le> key n) xs = []"
    using assms(1) by (simp_all add: takeWhile_eq_all_conv)
  then show ?thesis using Nil by (simp add: insert_after_def)
next
  case (Cons y ys')
  have "takeWhile (\<lambda>a. key a \<le> key n) (xs @ ys) = xs @ takeWhile (\<lambda>a. key a \<le> key n) ys"
      "dropWhile (\<lambda>a. key a \<le> key n) (xs @ ys) = dropWhile (\<lambda>a. key a \<le> key n) ys"
    using assms(1) by (simp_all add: takeWhile_append2 dropWhile_append2)
  moreover have "\<not> key y \<le> key n" using assms(2) Cons by (simp add: not_le)
  ultimately show ?thesis using Cons by (simp add: insert_after_def)
qed

text \<open>
  The contract of a compare routine: it decides an order of keys.
\<close>

locale rb_compare =
  fixes CompareRoutine :: compare and key :: "node \<Rightarrow> 'k::linorder"
  assumes compare_less: "CompareRoutine a b < 0 \<longleftrightarrow> key a < key b"
    and compare_eq: "CompareRoutine a b = 0 \<longleftrightarrow> key a = key b"
begin

lemma insert_walk_ok:
  assumes "rep s (plug p t)" "sorted (map key (names (plug p t)))"
    and "\<forall>a\<in>set (before p). key a \<le> key n" "\<forall>a\<in>set (after p). key n < key a"
  shows "\<exists>q. insert_walk CompareRoutine n s (rt t) (top p) (before p = []) = Some (top q, before q = []) \<and>
    plug q \<langle>\<rangle> = plug p t \<and> (\<forall>a\<in>set (before q). key a \<le> key n) \<and> (\<forall>a\<in>set (after q). key n < key a)"
  using assms
proof (induction t arbitrary: p)
  case Leaf
  then show ?case by (intro exI [of _ p]) (simp add: insert_walk.simps)
next
  case (Node l x r)
  obtain a c where x: "x = (a, c)" by (cases x)
  note rep = Node.prems(1) [unfolded x]
  have srt: "\<forall>b\<in>set (names l). key b \<le> key a" "\<forall>b\<in>set (names r). key a \<le> key b"
    using Node.prems(2) by (auto simp: x sorted_append)
  show ?case
  proof (cases "key n < key a")
    case True
    have "insert_walk CompareRoutine n s (Some a) (top p) (before p = []) =
        insert_walk CompareRoutine n s (rt l) (top (Lft a c r # p)) (before (Lft a c r # p) = [])"
      using True rep_Left [OF rep] by (simp add: insert_walk.simps [of _ _ _ "Some a"] compare_less)
    moreover have "\<exists>q. insert_walk CompareRoutine n s (rt l) (top (Lft a c r # p)) (before (Lft a c r # p) = []) = Some (top q, before q = []) \<and>
        plug q \<langle>\<rangle> = plug (Lft a c r # p) l \<and> (\<forall>a\<in>set (before q). key a \<le> key n) \<and> (\<forall>a\<in>set (after q). key n < key a)"
      by (rule Node.IH(1)) (use Node.prems True srt in \<open>auto simp: x intro: less_le_trans\<close>)
    ultimately show ?thesis by (simp add: x)
  next
    case False
    have "insert_walk CompareRoutine n s (Some a) (top p) (before p = []) =
        insert_walk CompareRoutine n s (rt r) (top (Rgt l a c # p)) (before (Rgt l a c # p) = [])"
      using False rep_Right [OF rep] by (simp add: insert_walk.simps [of _ _ _ "Some a"] compare_less)
    moreover have "\<exists>q. insert_walk CompareRoutine n s (rt r) (top (Rgt l a c # p)) (before (Rgt l a c # p) = []) = Some (top q, before q = []) \<and>
        plug q \<langle>\<rangle> = plug (Rgt l a c # p) r \<and> (\<forall>a\<in>set (before q). key a \<le> key n) \<and> (\<forall>a\<in>set (after q). key n < key a)"
      by (rule Node.IH(2)) (use Node.prems False srt in \<open>auto simp: x intro: order_trans\<close>)
    ultimately show ?thesis by (simp add: x)
  qed
qed

end

text \<open>A new red leaf in the hole of a path.\<close>

lemma hang_leaf:
  assumes "rep s (plug p \<langle>\<rangle>)" "n \<notin> set (names (plug p \<langle>\<rangle>))"
    and "\<And>a. nodes s' a = (if a = n then \<lparr>Left = None, Right = None, Parent = top p, Balance = RTL_RB_RED\<rparr>
      else rehole p (Some n) (nodes s) a)"
    and "Root s' = reroot p (Some n) (Root s)"
  shows "rep s' (plug p \<langle>\<langle>\<rangle>, (n, True), \<langle>\<rangle>\<rangle>)"
proof -
  have "above (nodes s') p (Some n) (reroot p (Some n) (Root s))"
    by (rule above_rehole [of "nodes s" p None]) (use assms in \<open>auto simp: rep_plug\<close>)
  then show ?thesis using assms by (auto simp: rep_plug)
qed

lemma root_red_plug: "rbt_ok (plug p t) \<Longrightarrow> p \<noteq> [] \<longrightarrow> \<not> root_red p"
  by (auto simp: rbt_ok_def isred_plug)

lemma RtlRbInsertFixup_leaf:
  assumes "rep s (plug p \<langle>\<langle>\<rangle>, (n, True), \<langle>\<rangle>\<rangle>)" "rbt_ok (plug p \<langle>\<rangle>)"
  shows "\<exists>s' T. RtlRbInsertFixup (Some n) s = Some s' \<and> rep s' T \<and> rb_keeps (before p @ n # after p) s s' \<and>
    names T = before p @ n # after p \<and> rbt_ok T"
proof -
  have i: "invc (plug p \<langle>\<rangle>)" "invh (plug p \<langle>\<rangle>)" using assms(2) by (simp_all add: rbt_ok_def)
  show ?thesis
    using RtlRbInsertFixup_ok [OF assms(1), of n] i root_red_plug [OF assms(2)] by (simp add: invc_plug invh_plug)
qed

context rb_compare
begin

text \<open>Everything the insertion does before the fixup.\<close>

lemma insert_prefix:
  assumes "insert_walk CompareRoutine n s1 (Root s1) None True = Some (Y, m)"
    and "s1 = s\<lparr>nodes := (nodes s)(n := \<lparr>Left = None, Right = None, Parent = Parent (nodes s n), Balance = RTL_RB_RED\<rparr>)\<rparr>"
  shows "RtlInsertElementRb CompareRoutine n s = do {
     s \<leftarrow> put (Parent_update (\<lambda>_. Y)) (Some n) s1;
     s \<leftarrow> (if Y = None then Some (s\<lparr>Root := Some n, Leftmost := Some n\<rparr>)
          else if CompareRoutine n (the Y) < 0 then do {
            s \<leftarrow> put (Left_update (\<lambda>_. Some n)) Y s;
            Some (if m then s\<lparr>Leftmost := Some n\<rparr> else s) }
          else put (Right_update (\<lambda>_. Some n)) Y s);
     RtlRbInsertFixup (Some n) s }"
proof -
  have "do { s \<leftarrow> put (Left_update (\<lambda>_. None)) (Some n) s; s \<leftarrow> put (Right_update (\<lambda>_. None)) (Some n) s;
      RTL_RB_SET_COLOR (Some n) RTL_RB_RED s } = Some s1"
    unfolding assms(2) by (cases "nodes s n") (simp add: RTL_RB_SET_COLOR_def)
  then show ?thesis
    using assms(1) unfolding RtlInsertElementRb_def by (auto simp: bind_eq_Some_conv)
qed

lemma insert_ok:
  assumes tree: "rb_tree s xs" and n: "n \<notin> set xs" and srt: "sorted (map key xs)"
  shows "\<exists>s'. RtlInsertElementRb CompareRoutine n s = Some s' \<and> rb_tree s' (insert_after key n xs) \<and>
    (\<forall>a. a \<notin> set (n # xs) \<longrightarrow> nodes s' a = nodes s a)"
proof -
  obtain t where t: "rep s t" "rbt_ok t" "leftmost_ok s t" "names t = xs" using tree by (auto simp: rb_tree_def)
  let ?N = "\<lparr>Left = None, Right = None, Parent = Parent (nodes s n), Balance = RTL_RB_RED\<rparr>"
  let ?s1 = "s\<lparr>nodes := (nodes s)(n := ?N)\<rparr>"
  have "sub (nodes ?s1) None t" by (rule sub_frame [of "nodes s"]) (use t n in \<open>auto simp: rep_def\<close>)
  then have r1: "rep ?s1 (plug [] t)" using t(1) by (simp add: rep_def)
  obtain q where q: "insert_walk CompareRoutine n ?s1 (rt t) None True = Some (top q, before q = [])"
      "plug q \<langle>\<rangle> = t" "\<forall>a\<in>set (before q). key a \<le> key n" "\<forall>a\<in>set (after q). key n < key a"
    using insert_walk_ok [OF r1, of n] srt t(4) by auto
  have xs: "xs = before q @ after q" using q(2) t(4) by (metis append_Nil names_plug names_simps(1))
  have res: "insert_after key n xs = before q @ n # after q" using insert_after_split [OF q(3,4)] xs by simp
  have rq: "rep ?s1 (plug q \<langle>\<rangle>)" "n \<notin> set (names (plug q \<langle>\<rangle>))" using r1 q(2) n t(4) by simp_all
  have y: "top q = Some y \<Longrightarrow> y \<noteq> n \<and> nodes s y = nodes ?s1 y" for y
    using rq(2) top_in [of q y] by auto
  define s2 where "s2 = (if q = [] then ?s1\<lparr>nodes := (nodes ?s1)(n := ?N\<lparr>Parent := None\<rparr>), Root := Some n, Leftmost := Some n\<rparr>
      else ?s1\<lparr>nodes := (rehole q (Some n) (nodes ?s1))(n := ?N\<lparr>Parent := top q\<rparr>),
        Leftmost := (if before q = [] then Some n else Leftmost s)\<rparr>)"
  have w: "insert_walk CompareRoutine n ?s1 (Root ?s1) None True = Some (top q, before q = [])"
    using q(1) r1 by (simp add: rep_def)
  have eq: "RtlInsertElementRb CompareRoutine n s = RtlRbInsertFixup (Some n) s2"
  proof (cases q)
    case Nil
    then show ?thesis by (simp add: insert_prefix [OF w refl] s2_def)
  next
    case (Cons f q')
    show ?thesis
    proof (cases f)
      case (Lft y c d)
      then have lt: "CompareRoutine n y < 0" "y \<noteq> n" using q(4) Cons rq(2) compare_less by auto
      show ?thesis
        using lt Cons Lft
        by (cases "before q' = []") (simp_all add: insert_prefix [OF w refl] s2_def rehole_def fun_upd_twist)
    next
      case (Rgt d y c)
      then have "key y \<le> key n" using q(3) Cons by auto
      then have lt: "\<not> CompareRoutine n y < 0" "y \<noteq> n" using Cons Rgt rq(2) compare_less by auto
      show ?thesis using lt Cons Rgt by (simp add: insert_prefix [OF w refl] s2_def rehole_def fun_upd_twist)
    qed
  qed
  have "rep s2 (plug q \<langle>\<langle>\<rangle>, (n, True), \<langle>\<rangle>\<rangle>)"
  proof (rule hang_leaf [OF rq])
    show "nodes s2 a = (if a = n then \<lparr>Left = None, Right = None, Parent = top q, Balance = RTL_RB_RED\<rparr>
      else rehole q (Some n) (nodes ?s1) a)" for a
      by (auto simp: s2_def rehole_def)
    show "Root s2 = reroot q (Some n) (Root ?s1)" by (simp add: s2_def reroot_def)
  qed
  then obtain s' T where s': "RtlRbInsertFixup (Some n) s2 = Some s'" "rep s' T" "rb_keeps (before q @ n # after q) s2 s'"
      "names T = before q @ n # after q" "rbt_ok T"
    using RtlRbInsertFixup_leaf t(2) q(2) by blast
  have "Leftmost s2 = (if before q = [] then Some n else Leftmost s)" by (auto simp: s2_def)
  then have "leftmost_ok s' T"
    using s'(3,4) t(3,4) xs by (auto simp: leftmost_ok_def rb_keeps_def hd_append)
  moreover have "nodes s' a = nodes s a" if "a \<notin> set (n # xs)" for a
  proof -
    have "nodes s' a = nodes s2 a" using s'(3) that xs by (auto simp: rb_keeps_def)
    moreover have "rehole q (Some n) (nodes ?s1) a = nodes ?s1 a" using that xs by (intro rehole_other) auto
    ultimately show ?thesis using that by (simp add: s2_def)
  qed
  ultimately show ?thesis using eq s' res by (auto simp: rb_tree_def)
qed

end

end
