(* ===== verification/RtlRbDelete.thy ===== *)
theory RtlRbDelete
  imports RtlRbInsert
begin

text \<open>
  The deletion of \<open>sdk/lib/rtl/rbtree.c\<close> is correct: \<open>RtlRbDeleteFixup\<close> ends and restores the red-black
  invariants, and \<open>RtlDeleteElementRb\<close> takes exactly the given node out and keeps the cache. The searches,
  the next node, the height of the tree, and sequences of operations.
\<close>

section \<open>Deletion: the fixup\<close>

lemma rb_keeps_comp: "rb_keeps N s t \<Longrightarrow> rb_keeps M t u \<Longrightarrow> set N \<subseteq> set K \<Longrightarrow> set M \<subseteq> set K \<Longrightarrow> rb_keeps K s u"
  by (simp add: rb_keeps_def) (metis subsetD)

lemma delete_rotate_left_ok:
  assumes r: "rep s (plug p \<langle>t, (x, c), \<langle>ul, (w, False), \<langle>a, (y, True), b\<rangle>\<rangle>\<rangle>)"
  shows "\<exists>s'. delete_rotate_left (Some w) (Some x) s = Some (s', Root s', Some x) \<and>
    rep s' (plug p \<langle>\<langle>t, (x, False), ul\<rangle>, (w, c), \<langle>a, (y, False), b\<rangle>\<rangle>) \<and>
    rb_keeps (names (plug p \<langle>t, (x, c), \<langle>ul, (w, False), \<langle>a, (y, True), b\<rangle>\<rangle>\<rangle>)) s s'"
proof -
  have C: "RTL_RB_COLOR s (Some x) = Some (balance_of c)" using rep_Color [OF r] .
  have r1: "rep s (plug (Rgt t x c # p) \<langle>ul, (w, False), \<langle>a, (y, True), b\<rangle>\<rangle>)" using r by simp
  obtain s1 where s1: "RTL_RB_SET_COLOR (Some w) (balance_of c) s = Some s1" "rep s1 (plug (Rgt t x c # p) \<langle>ul, (w, c), \<langle>a, (y, True), b\<rangle>\<rangle>)"
      "rb_keeps (names (plug (Rgt t x c # p) \<langle>ul, (w, False), \<langle>a, (y, True), b\<rangle>\<rangle>)) s s1"
    using set_color [OF r1 refl] by blast
  have r2: "rep s1 (plug p \<langle>t, (x, c), \<langle>ul, (w, c), \<langle>a, (y, True), b\<rangle>\<rangle>\<rangle>)" using s1(2) by simp
  obtain s2 where s2: "RTL_RB_SET_COLOR (Some x) RTL_RB_BLACK s1 = Some s2" "rep s2 (plug p \<langle>t, (x, False), \<langle>ul, (w, c), \<langle>a, (y, True), b\<rangle>\<rangle>\<rangle>)"
      "rb_keeps (names (plug p \<langle>t, (x, c), \<langle>ul, (w, c), \<langle>a, (y, True), b\<rangle>\<rangle>\<rangle>)) s1 s2"
    using set_color [OF r2, of RTL_RB_BLACK False] by auto
  have r3: "rep s2 (plug (Rgt ul w c # Rgt t x False # p) \<langle>a, (y, True), b\<rangle>)" using s2(2) by simp
  have far: "get Right s2 (Some w) = Some (Some y)" using s2(2) by (simp add: rep_plug)
  obtain s3 where s3: "RTL_RB_SET_COLOR (Some y) RTL_RB_BLACK s2 = Some s3" "rep s3 (plug (Rgt ul w c # Rgt t x False # p) \<langle>a, (y, False), b\<rangle>)"
      "rb_keeps (names (plug (Rgt ul w c # Rgt t x False # p) \<langle>a, (y, True), b\<rangle>)) s2 s3"
    using set_color [OF r3, of RTL_RB_BLACK False] by auto
  have r4: "rep s3 (plug p \<langle>t, (x, False), \<langle>ul, (w, c), \<langle>a, (y, False), b\<rangle>\<rangle>\<rangle>)" using s3(2) by simp
  obtain s4 where s4: "RtlRbLeftRotate (Some x) s3 = Some s4" "rep s4 (plug p \<langle>\<langle>t, (x, False), ul\<rangle>, (w, c), \<langle>a, (y, False), b\<rangle>\<rangle>)"
      "rb_keeps (names (plug p \<langle>t, (x, False), \<langle>ul, (w, c), \<langle>a, (y, False), b\<rangle>\<rangle>\<rangle>)) s3 s4"
    using left_rotate [OF r4] by blast
  have "delete_rotate_left (Some w) (Some x) s = Some (s4, Root s4, Some x)"
    using C s1(1) s2(1) far s3(1) s4(1) by (simp add: delete_rotate_left_def)
  then show ?thesis using s4(2) s1(3) s2(3) s3(3) s4(3) by (auto simp: rb_keeps_def)
qed

text \<open>The result of one turn: it goes on at \<open>u\<close>, higher up or red, or the tree is in order and \<open>X\<close> is its
  root.\<close>

definition lacks_black :: "path \<Rightarrow> rbt \<Rightarrow> bool" where
  "lacks_black p t \<longleftrightarrow> invh t \<and> pinvh p (bh t + 1) \<and> invc (blacken t) \<and> pinvc p False \<and> (p \<noteq> [] \<longrightarrow> \<not> root_red p)"

definition del_measure :: "path \<Rightarrow> rbt \<Rightarrow> nat" where
  "del_measure p t = 2 * length p + (if isred t then 0 else 1)"

definition del_result :: "node list \<Rightarrow> nat \<Rightarrow> RTL_RB_TREE \<Rightarrow> RTL_RB_TREE \<times> node_ptr \<times> node_ptr \<Rightarrow> bool" where
  "del_result N k s r \<longleftrightarrow> (\<exists>q u. rep (fst r) (plug q u) \<and> fst (snd r) = rt u \<and>
     rb_keeps N s (fst r) \<and> names (plug q u) = N \<and>
     (snd (snd r) = top q \<and> lacks_black q u \<and> del_measure q u < k \<or> q = [] \<and> invc u \<and> invh u))"

lemma del_resultI:
  assumes "rep s' (plug q u)" "X = rt u" "rb_keeps N s s'" "names (plug q u) = N"
    and "XP = top q \<and> lacks_black q u \<and> del_measure q u < k \<or> q = [] \<and> invc u \<and> invh u"
  shows "del_result N k s (s', X, XP)"
  using assms unfolding del_result_def fst_conv snd_conv by blast

lemma del_result_mono: "del_result N k s r \<Longrightarrow> k \<le> k' \<Longrightarrow> del_result N k' s r"
  unfolding del_result_def by (metis less_le_trans)

lemma delete_black_left_recolor:
  assumes r: "rep s (plug p \<langle>t, (x, c), \<langle>ul, (w, False), ur\<rangle>\<rangle>)" and b: "\<not> isred ul" "\<not> isred ur"
  shows "\<exists>s'. delete_black_left (Some w) (Some x) s = Some (s', Some x, top p) \<and>
    rep s' (plug p \<langle>t, (x, c), \<langle>ul, (w, True), ur\<rangle>\<rangle>) \<and>
    rb_keeps (names (plug p \<langle>t, (x, c), \<langle>ul, (w, False), ur\<rangle>\<rangle>)) s s'"
proof -
  have r1: "rep s (plug (Rgt t x c # p) \<langle>ul, (w, False), ur\<rangle>)" using r by simp
  have n: "get Left s (Some w) = Some (rt ul)" "get Right s (Some w) = Some (rt ur)"
      "null_or_black s (rt ul)" "null_or_black s (rt ur)"
    using r null_or_black_rt [of s "Some w"] b by (auto simp: rep_plug)
  obtain s1 where s1: "RTL_RB_SET_COLOR (Some w) RTL_RB_RED s = Some s1" "rep s1 (plug (Rgt t x c # p) \<langle>ul, (w, True), ur\<rangle>)"
      "rb_keeps (names (plug (Rgt t x c # p) \<langle>ul, (w, False), ur\<rangle>)) s s1"
    using set_color [OF r1, of RTL_RB_RED True] by auto
  have "get Parent s1 (Some x) = Some (top p)" using s1(2) by (simp add: rep_plug)
  then show ?thesis using n s1 by (simp add: delete_black_left_def)
qed

lemma delete_black_left_inner:
  assumes r: "rep s (plug p \<langle>t, (x, c), \<langle>\<langle>a, (y, True), b\<rangle>, (w, False), ur\<rangle>\<rangle>)" and b: "\<not> isred ur"
  shows "\<exists>s'. delete_black_left (Some w) (Some x) s = Some (s', Root s', Some x) \<and>
    rep s' (plug p \<langle>\<langle>t, (x, False), a\<rangle>, (y, c), \<langle>b, (w, False), ur\<rangle>\<rangle>) \<and>
    rb_keeps (names (plug p \<langle>t, (x, c), \<langle>\<langle>a, (y, True), b\<rangle>, (w, False), ur\<rangle>\<rangle>)) s s'"
proof -
  have r1: "rep s (plug (Lft w False ur # Rgt t x c # p) \<langle>a, (y, True), b\<rangle>)" using r by simp
  have n: "get Left s (Some w) = Some (Some y)" "get Right s (Some w) = Some (rt ur)"
      "\<not> null_or_black s (Some y)" "null_or_black s (rt ur)"
    using r null_or_black_rt [of s "Some w" ur] b by (auto simp: rep_plug null_or_black_def)
  obtain s1 where s1: "RTL_RB_SET_COLOR (Some y) RTL_RB_BLACK s = Some s1" "rep s1 (plug (Lft w False ur # Rgt t x c # p) \<langle>a, (y, False), b\<rangle>)"
      "rb_keeps (names (plug (Lft w False ur # Rgt t x c # p) \<langle>a, (y, True), b\<rangle>)) s s1"
    using set_color [OF r1, of RTL_RB_BLACK False] by auto
  have r2: "rep s1 (plug (Rgt t x c # p) \<langle>\<langle>a, (y, False), b\<rangle>, (w, False), ur\<rangle>)" using s1(2) by simp
  obtain s2 where s2: "RTL_RB_SET_COLOR (Some w) RTL_RB_RED s1 = Some s2" "rep s2 (plug (Rgt t x c # p) \<langle>\<langle>a, (y, False), b\<rangle>, (w, True), ur\<rangle>)"
      "rb_keeps (names (plug (Rgt t x c # p) \<langle>\<langle>a, (y, False), b\<rangle>, (w, False), ur\<rangle>)) s1 s2"
    using set_color [OF r2, of RTL_RB_RED True] by auto
  obtain s3 where s3: "RtlRbRightRotate (Some w) s2 = Some s3" "rep s3 (plug (Rgt t x c # p) \<langle>a, (y, False), \<langle>b, (w, True), ur\<rangle>\<rangle>)"
      "rb_keeps (names (plug (Rgt t x c # p) \<langle>\<langle>a, (y, False), b\<rangle>, (w, True), ur\<rangle>)) s2 s3"
    using right_rotate [OF s2(2)] by blast
  have r4: "rep s3 (plug p \<langle>t, (x, c), \<langle>a, (y, False), \<langle>b, (w, True), ur\<rangle>\<rangle>\<rangle>)" using s3(2) by simp
  have "get Right s3 (Some x) = Some (Some y)" using s3(2) by (simp add: rep_plug)
  moreover obtain s4 where s4: "delete_rotate_left (Some y) (Some x) s3 = Some (s4, Root s4, Some x)"
      "rep s4 (plug p \<langle>\<langle>t, (x, False), a\<rangle>, (y, c), \<langle>b, (w, False), ur\<rangle>\<rangle>)"
      "rb_keeps (names (plug p \<langle>t, (x, c), \<langle>a, (y, False), \<langle>b, (w, True), ur\<rangle>\<rangle>\<rangle>)) s3 s4"
    using delete_rotate_left_ok [OF r4] by blast
  ultimately have "delete_black_left (Some w) (Some x) s = Some (s4, Root s4, Some x)"
    using n s1(1) s2(1) s3(1) by (simp add: delete_black_left_def)
  then show ?thesis using s1(3) s2(3) s3(3) s4(2,3) by (auto simp: rb_keeps_def)
qed

lemma lacks_black_Lft:
  "lacks_black (Lft x c w # p) t \<Longrightarrow> invh t \<and> bh w = bh t + 1 \<and> invh w \<and> invc w \<and> (c \<longrightarrow> \<not> isred w) \<and>
     pinvh p (bh t + 1 + (if c then 0 else 1)) \<and> pinvc p c \<and> invc (blacken t) \<and> (p = [] \<longrightarrow> \<not> c) \<and> (p \<noteq> [] \<longrightarrow> \<not> root_red p)"
  by (cases p) (auto simp: lacks_black_def)

lemma invc_blacken: "\<not> isred t \<Longrightarrow> blacken t = t"
  by (cases t) auto

lemma root_red_other: "p \<noteq> [] \<Longrightarrow> root_red (f # p) = root_red p"
  by (cases p) auto

lemma pinvc_False: "pinvc p c \<Longrightarrow> pinvc p False"
  by (cases p rule: low_red.cases) auto

text \<open>A turn whose sibling is black.\<close>

lemma delete_black_left_ok:
  assumes r: "rep s (plug (Lft x c w # p) t)" and t: "\<not> isred t" and w: "\<not> isred w" and m: "lacks_black (Lft x c w # p) t"
  shows "\<exists>r. delete_black_left (rt w) (Some x) s = Some r \<and>
    del_result (names (plug (Lft x c w # p) t)) (2 * length p + (if c then 1 else 2)) s r"
proof -
  note i = lacks_black_Lft [OF m]
  have ct: "invc t" using i t by (simp add: invc_blacken)
  obtain ul wn ur where W: "w = \<langle>ul, (wn, False), ur\<rangle>" using i w by (cases w) auto
  have r0: "rep s (plug p \<langle>t, (x, c), \<langle>ul, (wn, False), ur\<rangle>\<rangle>)" using r W by simp
  show ?thesis
  proof (cases "isred ul \<or> isred ur")
    case False
    then obtain s' where s': "delete_black_left (Some wn) (Some x) s = Some (s', Some x, top p)"
        "rep s' (plug p \<langle>t, (x, c), \<langle>ul, (wn, True), ur\<rangle>\<rangle>)"
        "rb_keeps (names (plug p \<langle>t, (x, c), \<langle>ul, (wn, False), ur\<rangle>\<rangle>)) s s'"
      using delete_black_left_recolor [OF r0] by blast
    let ?u = "\<langle>t, (x, c), \<langle>ul, (wn, True), ur\<rangle>\<rangle>"
    have ms: "lacks_black p ?u"
      using i W t ct False pinvc_False [of p c] by (auto simp: lacks_black_def)
    have nm: "names (plug p ?u) = names (plug (Lft x c w # p) t)" by (simp add: W)
    have "del_result (names (plug (Lft x c w # p) t)) (2 * length p + (if c then 1 else 2)) s (s', Some x, top p)"
      by (rule del_resultI [OF s'(2)]) (use s'(3) ms nm W in \<open>simp_all add: del_measure_def\<close>)
    then show ?thesis using s'(1) W by auto
  next
    case True
    have "\<exists>s' T. delete_black_left (Some wn) (Some x) s = Some (s', Root s', Some x) \<and> rep s' (plug p T) \<and>
        rb_keeps (names (plug (Lft x c w # p) t)) s s' \<and> names T = names t @ x # names w \<and>
        invc T \<and> invh T \<and> bh T = bh t + 1 + (if c then 0 else 1) \<and> isred T = c"
    proof (cases "isred ur")
      case True
      then obtain a y b where ur: "ur = \<langle>a, (y, True), b\<rangle>" by (cases ur) auto
      have "get Left s (Some wn) = Some (rt ul)" "get Right s (Some wn) = Some (Some y)" "\<not> null_or_black s (Some y)"
        using r0 ur by (auto simp: rep_plug null_or_black_def)
      then have "delete_black_left (Some wn) (Some x) s = delete_rotate_left (Some wn) (Some x) s"
        by (simp add: delete_black_left_def)
      then obtain s' where s': "delete_black_left (Some wn) (Some x) s = Some (s', Root s', Some x)"
          "rep s' (plug p \<langle>\<langle>t, (x, False), ul\<rangle>, (wn, c), \<langle>a, (y, False), b\<rangle>\<rangle>)"
          "rb_keeps (names (plug p \<langle>t, (x, c), \<langle>ul, (wn, False), \<langle>a, (y, True), b\<rangle>\<rangle>\<rangle>)) s s'"
        using delete_rotate_left_ok [of s p t x c ul wn a y b] r0 ur by auto
      show ?thesis
        by (rule exI [of _ s'], rule exI [of _ "\<langle>\<langle>t, (x, False), ul\<rangle>, (wn, c), \<langle>a, (y, False), b\<rangle>\<rangle>"])
          (use s' i W ur ct in auto)
    next
      case False
      then obtain a y b where ul: "ul = \<langle>a, (y, True), b\<rangle>" using True by (cases ul) auto
      obtain s' where s': "delete_black_left (Some wn) (Some x) s = Some (s', Root s', Some x)"
          "rep s' (plug p \<langle>\<langle>t, (x, False), a\<rangle>, (y, c), \<langle>b, (wn, False), ur\<rangle>\<rangle>)"
          "rb_keeps (names (plug p \<langle>t, (x, c), \<langle>\<langle>a, (y, True), b\<rangle>, (wn, False), ur\<rangle>\<rangle>)) s s'"
        using delete_black_left_inner [of s p t x c a y b wn ur] r0 ul False by auto
      show ?thesis
        by (rule exI [of _ s'], rule exI [of _ "\<langle>\<langle>t, (x, False), a\<rangle>, (y, c), \<langle>b, (wn, False), ur\<rangle>\<rangle>"])
          (use s' i W ul ct False in auto)
    qed
    then obtain s' T where s': "delete_black_left (Some wn) (Some x) s = Some (s', Root s', Some x)" "rep s' (plug p T)"
        "rb_keeps (names (plug (Lft x c w # p) t)) s s'" "names T = names t @ x # names w"
        "invc T" "invh T" "bh T = bh t + 1 + (if c then 0 else 1)" "isred T = c"
      by blast
    have fin: "rep s' (plug [] (plug p T))" "Root s' = rt (plug p T)" "names (plug [] (plug p T)) = names (plug (Lft x c w # p) t)"
        "invc (plug p T)" "invh (plug p T)"
      using s' i by (simp_all add: rep_def invc_plug invh_plug)
    have "del_result (names (plug (Lft x c w # p) t)) (2 * length p + (if c then 1 else 2)) s (s', Root s', Some x)"
      by (rule del_resultI [OF fin(1)]) (use s'(3) fin in simp_all)
    then show ?thesis using s'(1) W by auto
  qed
qed

text \<open>A red sibling is rotated away; the position is then under a red node with a black sibling.\<close>

lemma delete_fix_left_ok:
  assumes r: "rep s (plug (Lft x c w # p) t)" and t: "\<not> isred t" and m: "lacks_black (Lft x c w # p) t"
  shows "\<exists>r. delete_fix_left (Some x) s = Some r \<and>
    del_result (names (plug (Lft x c w # p) t)) (del_measure (Lft x c w # p) t) s r"
proof (cases "isred w")
  case False
  note i = lacks_black_Lft [OF m]
  obtain ul wn ur where W: "w = \<langle>ul, (wn, False), ur\<rangle>" using i False by (cases w) auto
  have "delete_sibling_left (Some x) s = Some (s, Some wn)"
    using r W by (simp add: delete_sibling_left_def rep_plug RTL_RB_COLOR_def)
  then show ?thesis
    using delete_black_left_ok [OF r t False m] W t
    by (auto simp: delete_fix_left_def del_measure_def elim!: del_result_mono)
next
  case True
  note i = lacks_black_Lft [OF m]
  obtain ul wn ur where W: "w = \<langle>ul, (wn, True), ur\<rangle>" using True by (cases w) auto
  have c: "\<not> c" using i True by auto
  have r0: "rep s (plug (Rgt t x False # p) \<langle>ul, (wn, True), ur\<rangle>)" using r W c by simp
  obtain s1 where s1: "RTL_RB_SET_COLOR (Some wn) RTL_RB_BLACK s = Some s1" "rep s1 (plug (Rgt t x False # p) \<langle>ul, (wn, False), ur\<rangle>)"
      "rb_keeps (names (plug (Rgt t x False # p) \<langle>ul, (wn, True), ur\<rangle>)) s s1"
    using set_color [OF r0, of RTL_RB_BLACK False] by auto
  have r1: "rep s1 (plug p \<langle>t, (x, False), \<langle>ul, (wn, False), ur\<rangle>\<rangle>)" using s1(2) by simp
  obtain s2 where s2: "RTL_RB_SET_COLOR (Some x) RTL_RB_RED s1 = Some s2" "rep s2 (plug p \<langle>t, (x, True), \<langle>ul, (wn, False), ur\<rangle>\<rangle>)"
      "rb_keeps (names (plug p \<langle>t, (x, False), \<langle>ul, (wn, False), ur\<rangle>\<rangle>)) s1 s2"
    using set_color [OF r1, of RTL_RB_RED True] by auto
  obtain s3 where s3: "RtlRbLeftRotate (Some x) s2 = Some s3" "rep s3 (plug p \<langle>\<langle>t, (x, True), ul\<rangle>, (wn, False), ur\<rangle>)"
      "rb_keeps (names (plug p \<langle>t, (x, True), \<langle>ul, (wn, False), ur\<rangle>\<rangle>)) s2 s3"
    using left_rotate [OF s2(2)] by blast
  let ?q = "Lft x True ul # Lft wn False ur # p"
  have r3: "rep s3 (plug ?q t)" using s3(2) by simp
  have ms: "lacks_black ?q t" using i W c by (cases p) (auto simp: lacks_black_def)
  have nm: "names (plug ?q t) = names (plug (Lft x c w # p) t)" using W by simp
  have k3: "rb_keeps (names (plug (Lft x c w # p) t)) s s3"
    using s1(3) s2(3) s3(3) W by (auto simp: rb_keeps_def)
  have "delete_sibling_left (Some x) s = Some (s3, rt ul)"
    using r W s1(1) s2(1) s3(1) r3 by (simp add: delete_sibling_left_def rep_plug RTL_RB_COLOR_def)
  moreover have "\<not> isred ul" using i W by auto
  then obtain r' where "delete_black_left (rt ul) (Some x) s3 = Some r'"
      "del_result (names (plug ?q t)) (2 * length (Lft wn False ur # p) + 1) s3 r'"
    using delete_black_left_ok [OF r3 t _ ms] by auto
  moreover have "del_result (names (plug (Lft x c w # p) t)) (del_measure (Lft x c w # p) t) s r'"
    using calculation(3) t k3 unfolding nm by (auto simp: del_result_def del_measure_def rb_keeps_def)
  ultimately show ?thesis by (simp add: delete_fix_left_def)
qed

lemma delete_parts_mirror:
  "delete_sibling_right XP (mirror_rb s) = map_option mirror_fst (delete_sibling_left XP s)"
  "delete_rotate_right W XP (mirror_rb s) = map_option mirror_fst (delete_rotate_left W XP s)"
  "delete_black_right W XP (mirror_rb s) = map_option mirror_fst (delete_black_left W XP s)"
proof -
  show 1: "delete_sibling_right XP (mirror_rb s) = map_option mirror_fst (delete_sibling_left XP s)"
    unfolding delete_sibling_right_def delete_sibling_left_def
    by (simp only: mirror_step mirror_pair_out get_mirror prod.case case_prod_unfold fst_conv snd_conv cong: if_cong)
  show 2: "delete_rotate_right W XP (mirror_rb s) = map_option mirror_fst (delete_rotate_left W XP s)" for W s
    unfolding delete_rotate_right_def delete_rotate_left_def
    by (simp only: mirror_step mirror_pair_out get_mirror mirror_rb_simps prod.case case_prod_unfold fst_conv snd_conv cong: if_cong)
  show 3: "delete_black_right W XP (mirror_rb s) = map_option mirror_fst (delete_black_left W XP s)"
    unfolding delete_black_right_def delete_black_left_def
    by (simp only: mirror_step mirror_pair_out get_mirror null_or_black_mirror 2 prod.case case_prod_unfold fst_conv snd_conv cong: if_cong)
qed

lemma delete_fix_mirror: "delete_fix_right XP (mirror_rb s) = map_option mirror_fst (delete_fix_left XP s)"
  unfolding delete_fix_right_def delete_fix_left_def
  by (simp only: delete_parts_mirror mirror_step)

lemma root_red_mirror [simp]: "root_red (mirror_path p) = root_red p"
proof (induction p rule: root_red.induct)
  case (4 f g p)
  then show ?case by (cases f; cases g) simp_all
qed simp_all

lemma blacken_mirror [simp]: "mirror (blacken t) = blacken (mirror t)"
  by (cases t) auto

lemma invc_blacken_mirror [simp]: "invc (blacken (mirror t)) = invc (blacken t)"
  by (simp flip: blacken_mirror)

lemma lacks_black_mirror [simp]: "lacks_black (mirror_path p) (mirror t) = lacks_black p t"
  by (auto simp: lacks_black_def)

lemma length_mirror_path [simp]: "length (mirror_path p) = length p"
  by (induction p rule: mirror_path.induct) auto

lemma del_measure_mirror [simp]: "del_measure (mirror_path p) (mirror t) = del_measure p t"
  by (simp add: del_measure_def)

lemma del_result_mirror:
  assumes "del_result (rev N) k (mirror_rb s) r"
  shows "del_result N k s (mirror_fst r)"
proof -
  obtain q u where q: "rep (fst r) (plug q u)" "fst (snd r) = rt u" "rb_keeps (rev N) (mirror_rb s) (fst r)"
      "names (plug q u) = rev N" "snd (snd r) = top q \<and> lacks_black q u \<and> del_measure q u < k \<or> q = [] \<and> invc u \<and> invh u"
    using assms by (auto simp: del_result_def)
  have "rb_keeps N s (mirror_rb (fst r))"
    using q(3) rb_keeps_mirror [of "rev N" s "mirror_rb (fst r)"] by (simp add: rb_keeps_def)
  moreover have "rep (mirror_rb (fst r)) (plug (mirror_path q) (mirror u))"
    using q(1) rep_mirror [of "fst r" "plug q u"] by simp
  moreover have "names (plug (mirror_path q) (mirror u)) = N"
    using q(4) arg_cong [OF q(4), of rev] by (simp flip: mirror_plug)
  ultimately show ?thesis
    using q(2,5) by (cases r) (auto intro!: del_resultI simp: mirror_rb_def)
qed

lemma delete_fix_right_ok:
  assumes r: "rep s (plug (Rgt w x c # p) t)" and t: "\<not> isred t" and m: "lacks_black (Rgt w x c # p) t"
  shows "\<exists>r. delete_fix_right (Some x) s = Some r \<and>
    del_result (names (plug (Rgt w x c # p) t)) (del_measure (Rgt w x c # p) t) s r"
proof -
  let ?q = "Lft x c (mirror w) # mirror_path p"
  have "rep (mirror_rb s) (plug ?q (mirror t))"
    using r rep_mirror [of s "plug (Rgt w x c # p) t"] by simp
  moreover have "lacks_black ?q (mirror t)" using m lacks_black_mirror [of "Rgt w x c # p" t] by simp
  ultimately obtain r' where r': "delete_fix_left (Some x) (mirror_rb s) = Some r'"
      "del_result (names (plug ?q (mirror t))) (del_measure ?q (mirror t)) (mirror_rb s) r'"
    using delete_fix_left_ok [of "mirror_rb s" x c "mirror w" "mirror_path p" "mirror t"] t by auto
  have "names (plug ?q (mirror t)) = rev (names (plug (Rgt w x c # p) t))"
    using names_mirror [of "plug (Rgt w x c # p) t"] by (simp del: names_mirror names_plug)
  moreover have "del_measure ?q (mirror t) = del_measure (Rgt w x c # p) t" by (simp add: del_measure_def)
  ultimately have "del_result (names (plug (Rgt w x c # p) t)) (del_measure (Rgt w x c # p) t) s (mirror_fst r')"
    using r'(2) by (intro del_result_mirror) simp
  moreover have "delete_fix_right (Some x) s = Some (mirror_fst r')"
    using delete_fix_mirror [of "Some x" "mirror_rb s"] r'(1) by simp
  ultimately show ?thesis by blast
qed

lemma root_of_plug: "p \<noteq> [] \<Longrightarrow> \<exists>a. rt (plug p t) = Some a \<and> a \<in> set (before p) \<union> set (after p)"
proof (induction p arbitrary: t)
  case (Cons f p)
  then show ?case by (cases "p = []"; cases f) auto
qed simp

lemma root_position:
  assumes "rep s (plug p t)" shows "rt t = Root s \<longleftrightarrow> p = []"
proof -
  have d: "distinct (before p @ names t @ after p)" "Root s = rt (plug p t)" using assms by (auto simp: rep_def)
  show ?thesis
  proof (cases "p = []")
    case False
    obtain a where a: "rt (plug p t) = Some a" "a \<in> set (before p) \<union> set (after p)"
      using root_of_plug [OF False, of t] by blast
    have "rt t \<noteq> Some a" by (rule rt_notin) (use d(1) a(2) in auto)
    then show ?thesis using False a d by simp
  qed (use d in simp)
qed

lemma delete_fix_loop_ok:
  assumes "rep s (plug p t)" "lacks_black p t"
  shows "\<exists>s' q u. delete_fix_loop (rt t) (top p) s = Some (s', rt u) \<and> rep s' (plug q u) \<and>
    rb_keeps (names (plug p t)) s s' \<and> names (plug q u) = names (plug p t) \<and> rbt_ok (plug q (blacken u))"
  using assms
proof (induction "del_measure p t" arbitrary: p s t rule: less_induct)
  case less
  note root = root_position [OF less.prems(1)]
  have nb: "null_or_black s (rt t) \<longleftrightarrow> \<not> isred t"
    using less.prems(1) null_or_black_rt by (auto simp: rep_plug)
  show ?case
  proof (cases "p = [] \<or> isred t")
    case True
    then have "delete_fix_loop (rt t) (top p) s = Some (s, rt t)"
      using nb root by (auto simp: delete_fix_loop.simps [of _ _ s])
    moreover have "rbt_ok (plug p (blacken t))"
    proof (cases "p = []")
      case True
      then show ?thesis using less.prems(2) by (cases t) (auto simp: lacks_black_def rbt_ok_def)
    next
      case False
      then obtain l x r where "t = \<langle>l, (x, True), r\<rangle>" using True by (cases t) auto
      then show ?thesis
        using less.prems(2) False by (auto simp: lacks_black_def rbt_ok_def invc_plug invh_plug isred_plug)
    qed
    ultimately show ?thesis using less.prems(1) by (intro exI [of _ s] exI [of _ p] exI [of _ t]) simp
  next
    case False
    then have ne: "p \<noteq> []" and t: "\<not> isred t" by auto
    have "\<exists>r. delete_fix_step (rt t) (top p) s = Some r \<and> del_result (names (plug p t)) (del_measure p t) s r"
    proof (cases p rule: top.cases)
      case (2 x c w p')
      then have "get Left s (top p) = Some (rt t)" using less.prems(1) by (simp add: rep_plug)
      then show ?thesis
        using delete_fix_left_ok [of s x c w p' t] less.prems t 2 by (simp add: delete_fix_step_def)
    next
      case (3 w x c p')
      have d: "get Left s (top p) = Some (rt w)" using less.prems(1) 3 by (simp add: rep_plug)
      have "bh w = bh t + 1" using less.prems(2) 3 by (simp add: lacks_black_def)
      then obtain a where a: "rt w = Some a" "a \<in> set (names w)" by (cases w) auto
      have "distinct (names (plug p t))" using less.prems(1) by (simp add: rep_def)
      then have "rt t \<noteq> Some a" by (intro rt_notin) (use 3 a in \<open>auto simp del: rt_in\<close>)
      then show ?thesis
        using delete_fix_right_ok [of s w x c p' t] less.prems t 3 d a by (simp add: delete_fix_step_def)
    qed (use ne in simp)
    then obtain r where r: "delete_fix_step (rt t) (top p) s = Some r" "del_result (names (plug p t)) (del_measure p t) s r"
      by blast
    have step: "delete_fix_loop (rt t) (top p) s = delete_fix_loop (fst (snd r)) (snd (snd r)) (fst r)"
      using nb root ne t r(1) by (simp add: delete_fix_loop.simps [of _ _ s])
    obtain q u where q: "rep (fst r) (plug q u)" "fst (snd r) = rt u" "rb_keeps (names (plug p t)) s (fst r)"
        "names (plug q u) = names (plug p t)"
        "snd (snd r) = top q \<and> lacks_black q u \<and> del_measure q u < del_measure p t \<or> q = [] \<and> invc u \<and> invh u"
      using r(2) by (auto simp: del_result_def)
    from q(5) show ?thesis
    proof
      assume a: "snd (snd r) = top q \<and> lacks_black q u \<and> del_measure q u < del_measure p t"
      obtain s' q' u' where s': "delete_fix_loop (rt u) (top q) (fst r) = Some (s', rt u')" "rep s' (plug q' u')"
          "rb_keeps (names (plug q u)) (fst r) s'" "names (plug q' u') = names (plug q u)" "rbt_ok (plug q' (blacken u'))"
        using less.hyps [of q u "fst r"] a q(1) by blast
      have "rb_keeps (names (plug p t)) s s'" using q(3,4) s'(3) by (simp add: rb_keeps_def)
      then show ?thesis using step s' a q(2,4) by (intro exI [of _ s'] exI [of _ q'] exI [of _ u']) simp
    next
      assume a: "q = [] \<and> invc u \<and> invh u"
      then have "rt u = Root (fst r)" using root_position [OF q(1)] by simp
      then have "delete_fix_loop (fst (snd r)) (snd (snd r)) (fst r) = Some (fst r, rt u)"
        using q(2) by (simp add: delete_fix_loop.simps [of _ _ "fst r"])
      moreover have "rbt_ok (plug q (blacken u))" using a blacken_ok by simp
      ultimately show ?thesis using step q by (intro exI [of _ "fst r"] exI [of _ q] exI [of _ u]) simp
    qed
  qed
qed

lemma RtlRbDeleteFixup_ok:
  assumes "rep s (plug p t)" "lacks_black p t"
  shows "\<exists>s' T. RtlRbDeleteFixup (rt t) (top p) s = Some s' \<and> rep s' T \<and>
    rb_keeps (names (plug p t)) s s' \<and> names T = names (plug p t) \<and> rbt_ok T"
proof -
  obtain s' q u where s': "delete_fix_loop (rt t) (top p) s = Some (s', rt u)" "rep s' (plug q u)"
      "rb_keeps (names (plug p t)) s s'" "names (plug q u) = names (plug p t)" "rbt_ok (plug q (blacken u))"
    using delete_fix_loop_ok [OF assms] by blast
  show ?thesis
  proof (cases u)
    case Leaf
    then show ?thesis using s' by (auto simp: RtlRbDeleteFixup_def)
  next
    case (Node l z r)
    obtain x c where z: "z = (x, c)" by (cases z)
    obtain s'' where s'': "RTL_RB_SET_COLOR (Some x) RTL_RB_BLACK s' = Some s''" "rep s'' (plug q \<langle>l, (x, False), r\<rangle>)"
        "rb_keeps (names (plug q \<langle>l, (x, c), r\<rangle>)) s' s''"
      using set_color [of s' q l x c r RTL_RB_BLACK False] s'(2) Node z by auto
    have "rb_keeps (names (plug p t)) s s''"
      using s'(3,4) s''(3) Node z by (simp add: rb_keeps_def)
    moreover have "names (plug q (blacken u)) = names (plug p t)" using s'(4) by simp
    ultimately show ?thesis
      using s' s'' Node z by (intro exI [of _ s''] exI [of _ "plug q (blacken u)"]) (auto simp: RtlRbDeleteFixup_def)
  qed
qed

section \<open>Deletion: splicing a node out\<close>

lemma plug_append: "plug (q @ p) t = plug p (plug q t)"
  by (induction q t rule: plug.induct) auto

lemma before_append [simp]: "before (q @ p) = before p @ before q"
  by (induction q rule: before.induct) auto

lemma after_append [simp]: "after (q @ p) = after q @ after p"
  by (induction q rule: after.induct) auto

lemma top_append: "top (q @ p) = (if q = [] then top p else top q)"
  by (cases q rule: top.cases) auto

lemma find_path: "z \<in> set (names t) \<Longrightarrow> \<exists>p l c r. t = plug p \<langle>l, (z, c), r\<rangle>"
proof (induction t)
  case (Node l x r)
  obtain a c where x: "x = (a, c)" by (cases x)
  consider "z = a" | "z \<in> set (names l)" | "z \<in> set (names r)" using Node.prems x by auto
  then show ?case
  proof cases
    case 1
    then show ?thesis using x by (intro exI [of _ "[]"]) auto
  next
    case 2
    then obtain p l' c' r' where "l = plug p \<langle>l', (z, c'), r'\<rangle>" using Node.IH(1) by blast
    then have "\<langle>l, x, r\<rangle> = plug (p @ [Lft a c r]) \<langle>l', (z, c'), r'\<rangle>" by (simp add: plug_append x)
    then show ?thesis by blast
  next
    case 3
    then obtain p l' c' r' where "r = plug p \<langle>l', (z, c'), r'\<rangle>" using Node.IH(2) by blast
    then have "\<langle>l, x, r\<rangle> = plug (p @ [Rgt l a c]) \<langle>l', (z, c'), r'\<rangle>" by (simp add: plug_append x)
    then show ?thesis by blast
  qed
qed simp

lemma walk_left_ok:
  assumes "rep s (plug p t)" "t \<noteq> \<langle>\<rangle>"
  shows "\<exists>q y c yr. t = plug q \<langle>\<langle>\<rangle>, (y, c), yr\<rangle> \<and> before q = [] \<and> walk_left s (rt t) = Some (Some y)"
  using assms
proof (induction t arbitrary: p)
  case (Node l x r)
  obtain a c where x: "x = (a, c)" by (cases x)
  have L: "get Left s (Some a) = Some (rt l)" by (rule rep_Left) (use Node.prems x in auto)
  show ?case
  proof (cases l)
    case Leaf
    then have "walk_left s (Some a) = Some (Some a)" using L by (simp add: walk_left.simps [of s "Some a"])
    then show ?thesis using Leaf x by (intro exI [of _ "[]"]) auto
  next
    case (Node l1 x1 r1)
    then have "\<exists>q y c' yr. l = plug q \<langle>\<langle>\<rangle>, (y, c'), yr\<rangle> \<and> before q = [] \<and> walk_left s (rt l) = Some (Some y)"
      using Node.prems(1) x by (intro Node.IH(1) [of "Lft a c r # p"]) simp_all
    then obtain q y c' yr where q: "l = plug q \<langle>\<langle>\<rangle>, (y, c'), yr\<rangle>" "before q = []" "walk_left s (rt l) = Some (Some y)"
      by blast
    have "walk_left s (Some a) = walk_left s (rt l)" using L Node by (simp add: walk_left.simps [of s "Some a"])
    then have "walk_left s (rt \<langle>l, x, r\<rangle>) = Some (Some y)" using q(3) x by simp
    moreover have "\<langle>l, x, r\<rangle> = plug (q @ [Lft a c r]) \<langle>\<langle>\<rangle>, (y, c'), yr\<rangle>" using q x by (simp add: plug_append)
    moreover have "before (q @ [Lft a c r]) = []" using q by simp
    ultimately show ?thesis by blast
  qed
qed simp

lemma transplant_nodes:
  assumes "above (nodes s) p (Some u) (Root s)" "Parent (nodes s u) = top p" "u \<notin> set (before p) \<union> set (after p)"
  shows "\<exists>s'. RtlRbTransplant (Some u) V s = Some s' \<and> nodes s' = reparent (top p) V (rehole p V (nodes s)) \<and>
    Root s' = reroot p V (Root s) \<and> Leftmost s' = Leftmost s"
proof (cases p rule: top.cases)
  case 1
  then show ?thesis using assms by (cases V) (auto simp: RtlRbTransplant_def reparent_def rehole_def reroot_def)
next
  case (2 x c r p')
  then have "Left (nodes s x) = Some u" "x \<noteq> u" using assms by auto
  then show ?thesis
    using assms 2 by (cases V) (auto simp: RtlRbTransplant_def reparent_def rehole_def reroot_def)
next
  case (3 l x c p')
  then have "Left (nodes s x) \<noteq> Some u" "x \<noteq> u" using assms rt_notin [of u l] by auto
  then show ?thesis
    using assms 3 by (cases V) (auto simp: RtlRbTransplant_def reparent_def rehole_def reroot_def)
qed

text \<open>A subtree takes the place of a node.\<close>

lemma splice:
  assumes "above (nodes s) p (Some u) (Root s)" "Parent (nodes s u) = top p"
    and "sub (nodes s) a v" "distinct (before p @ u # names v @ after p)"
  shows "\<exists>s'. RtlRbTransplant (Some u) (rt v) s = Some s' \<and> rep s' (plug p v) \<and>
    rb_keeps (names (plug p v)) s s'"
proof -
  obtain s' where s': "RtlRbTransplant (Some u) (rt v) s = Some s'" "nodes s' = reparent (top p) (rt v) (rehole p (rt v) (nodes s))"
      "Root s' = reroot p (rt v) (Root s)" "Leftmost s' = Leftmost s"
    using transplant_nodes [OF assms(1,2), of "rt v"] assms(4) by auto
  have other: "nodes s' n = nodes s n" if "n \<notin> set (names (plug p v))" for n
  proof -
    have "rt v \<noteq> Some n" by (rule rt_notin) (use that in simp)
    then show ?thesis using that by (simp add: s'(2) reparent_other rehole_other)
  qed
  have "above (nodes s') p (rt v) (Root s')"
    unfolding s'(3)
  proof (rule above_rehole [OF assms(1)])
    show "nodes s' n = rehole p (rt v) (nodes s) n" if n: "n \<in> set (before p) \<union> set (after p)" for n
      unfolding s'(2) by (rule reparent_other, rule rt_notin) (use n assms(4) in auto)
  qed (use assms(4) in auto)
  moreover have "sub (nodes s') (top p) v"
  proof (rule sub_reparent [OF assms(3)])
    show "nodes s' n = reparent (top p) (rt v) (nodes s) n" if n: "n \<in> set (names v)" for n
    proof -
      have "rehole p (rt v) (nodes s) n = nodes s n" by (rule rehole_other) (use n assms(4) in auto)
      then show ?thesis by (cases "rt v") (auto simp: s'(2) reparent_def)
    qed
  qed (use assms(4) in auto)
  ultimately have "rep s' (plug p v)" using assms(4) by (auto simp: rep_plug)
  then show ?thesis using s'(1,4) other by (auto simp: rb_keeps_def)
qed

text \<open>The successor takes the place of a node with two children.\<close>

lemma take_place_ok:
  assumes "above (nodes s) p (Some z) (Root s)" "nodes s z = \<lparr>Left = rt l, Right = zr, Parent = top p, Balance = balance_of c\<rparr>"
    and "sub (nodes s) (Some z) l" "l \<noteq> \<langle>\<rangle>" "sub (nodes s) (Some y) r" "Right (nodes s y) = rt r"
    and d: "distinct (before p @ names l @ z # y # names r @ after p)"
  shows "\<exists>s'. take_place (Some z) (Some y) s = Some s' \<and> rep s' (plug p \<langle>l, (y, c), r\<rangle>) \<and>
    rb_keeps (names (plug p \<langle>l, (y, c), r\<rangle>)) s s' \<and> nodes s' z = nodes s z"
proof -
  obtain s1 where s1: "RtlRbTransplant (Some z) (Some y) s = Some s1" "nodes s1 = reparent (top p) (Some y) (rehole p (Some y) (nodes s))"
      "Root s1 = reroot p (Some y) (Root s)" "Leftmost s1 = Leftmost s"
    using transplant_nodes [OF assms(1), of "Some y"] assms(2) d by auto
  obtain ln lc l1 l2 where l: "l = \<langle>l1, (ln, lc), l2\<rangle>" using assms(4) by (cases l) auto
  have ne: "z \<noteq> y" "y \<noteq> ln" "z \<noteq> ln" using d l by auto
  have zy: "nodes s1 z = nodes s z" "nodes s1 y = (nodes s y)\<lparr>Parent := top p\<rparr>"
    using ne d rehole_other [of z p "Some y" "nodes s"] rehole_other [of y p "Some y" "nodes s"]
    by (simp_all add: s1(2) reparent_def)
  define s' where "s' = s1\<lparr>nodes := (nodes s1)(ln := (nodes s1 ln)\<lparr>Parent := Some y\<rparr>,
      y := \<lparr>Left = Some ln, Right = rt r, Parent = top p, Balance = balance_of c\<rparr>)\<rparr>"
  have tp: "take_place (Some z) (Some y) s = Some s'"
    using s1(1) zy assms(2,6) ne l by (cases "nodes s y") (simp add: take_place_def RTL_RB_COLOR_def RTL_RB_SET_COLOR_def s'_def fun_upd_twist)
  have other: "nodes s' n = rehole p (Some y) (nodes s) n" if "n \<noteq> y" "n \<noteq> ln" for n
    using that by (simp add: s'_def s1(2) reparent_other)
  have out: "nodes s' n = nodes s n" if "n \<notin> set (before p) \<union> set (after p)" "n \<noteq> y" "n \<noteq> ln" for n
    using that by (simp add: other rehole_other)
  have "above (nodes s') p (Some y) (reroot p (Some y) (Root s))"
    by (rule above_rehole [OF assms(1)]) (use d l in \<open>auto intro!: other\<close>)
  moreover have "sub (nodes s') (Some y) l"
  proof (rule sub_reparent [OF assms(3)])
    show "nodes s' n = reparent (Some y) (rt l) (nodes s) n" if n: "n \<in> set (names l)" for n
    proof -
      have "n \<notin> set (before p) \<union> set (after p)" "n \<noteq> y" using n d by auto
      then have "rehole p (Some y) (nodes s) n = nodes s n" "n \<noteq> y" by (simp_all add: rehole_other)
      then show ?thesis using l by (auto simp: s'_def s1(2) reparent_def)
    qed
  qed (use d in auto)
  moreover have "sub (nodes s') (Some y) r"
    by (rule sub_frame [OF assms(5)], rule out) (use d l in auto)
  moreover have "Root s' = reroot p (Some y) (Root s)" "Leftmost s' = Leftmost s" by (simp_all add: s'_def s1)
  moreover have "nodes s' y = \<lparr>Left = rt l, Right = rt r, Parent = top p, Balance = balance_of c\<rparr>"
    using l by (simp add: s'_def)
  moreover have "nodes s' z = nodes s z" by (rule out) (use d ne in auto)
  moreover have "rb_keeps (names (plug p \<langle>l, (y, c), r\<rangle>)) s s'"
    unfolding rb_keeps_def using calculation(5) l by (auto intro!: out)
  ultimately show ?thesis using d tp by (auto simp: rep_plug)
qed

text \<open>The invariants with a node removed at the end of a branch.\<close>

lemma remove_low:
  assumes "rbt_ok (plug p \<langle>a, (y, c), b\<rangle>)" "a = \<langle>\<rangle> \<and> v = b \<or> b = \<langle>\<rangle> \<and> v = a"
  shows "if c then rbt_ok (plug p v) else lacks_black p v"
  using assms(2)
proof
  assume "a = \<langle>\<rangle> \<and> v = b"
  then show ?thesis
    using assms(1) pinvc_False [of p c] by (auto simp: rbt_ok_def lacks_black_def invc_plug invh_plug isred_plug invc_blacken split: if_splits; cases b; auto)
next
  assume "b = \<langle>\<rangle> \<and> v = a"
  then show ?thesis
    using assms(1) pinvc_False [of p c] by (auto simp: rbt_ok_def lacks_black_def invc_plug invh_plug isred_plug invc_blacken split: if_splits; cases a; auto)
qed

lemma rename_frame:
  "pinvh (q @ Rgt l z c # p) n = pinvh (q @ Rgt l y c # p) n"
  "pinvc (q @ Rgt l z c # p) d = pinvc (q @ Rgt l y c # p) d"
  "root_red (q @ Rgt l z c # p) = root_red (q @ Rgt l y c # p)"
proof -
  show "pinvh (q @ Rgt l z c # p) n = pinvh (q @ Rgt l y c # p) n"
    by (induction q n rule: pinvh.induct) auto
  show "pinvc (q @ Rgt l z c # p) d = pinvc (q @ Rgt l y c # p) d"
    by (induction q d rule: pinvc.induct) auto
  have "root_red (Rgt l z c # p) = root_red (Rgt l y c # p)" by (cases p) auto
  then show "root_red (q @ Rgt l z c # p) = root_red (q @ Rgt l y c # p)"
    by (induction q) (simp_all add: root_red_other)
qed

lemma remove_inner:
  assumes "rbt_ok (plug p \<langle>l, (z, c), plug q \<langle>\<langle>\<rangle>, (y, d), v\<rangle>\<rangle>)"
  shows "if d then rbt_ok (plug (q @ Rgt l y c # p) v) else lacks_black (q @ Rgt l y c # p) v"
proof -
  have "rbt_ok (plug (q @ Rgt l z c # p) \<langle>\<langle>\<rangle>, (y, d), v\<rangle>)" using assms by (simp add: plug_append)
  from remove_low [OF this, of v] show ?thesis
    by (cases d) (simp_all add: rbt_ok_def lacks_black_def invc_plug invh_plug isred_plug rename_frame [where z = z and y = y])
qed

lemma rep_above: "rep s (plug p t) \<Longrightarrow> above (nodes s) p (rt t) (Root s)"
  and rep_sub: "rep s (plug p t) \<Longrightarrow> sub (nodes s) (top p) t"
  and rep_distinct: "rep s (plug p t) \<Longrightarrow> distinct (before p @ names t @ after p)"
  by (simp_all add: rep_plug)

definition unlinked :: "RTL_RB_TREE \<Rightarrow> node \<Rightarrow> node list \<Rightarrow> RTL_RB_TREE \<times> node_ptr \<times> node_ptr \<times> u32 \<Rightarrow> bool" where
  "unlinked s z N x \<longleftrightarrow> (\<exists>s' P v d. x = (s', rt v, top P, balance_of d) \<and> rep s' (plug P v) \<and> names (plug P v) = N \<and>
     (if d then rbt_ok (plug P v) else lacks_black P v) \<and> rb_keeps (z # N) s s')"

lemma unlinkedI:
  assumes "rep s' (plug P v)" "names (plug P v) = N" "if d then rbt_ok (plug P v) else lacks_black P v" "rb_keeps (z # N) s s'"
    and "X = rt v" "XP = top P"
  shows "unlinked s z N (s', X, XP, balance_of d)"
  using assms unfolding unlinked_def by blast

lemma leave_place_ok:
  assumes r: "rep s (plug p \<langle>l, (z, c), plug q \<langle>\<langle>\<rangle>, (y, d), v\<rangle>\<rangle>)"
  shows "\<exists>s'. leave_place (Some z) (Some y) s = Some (s', top (q @ Rgt l y c # p)) \<and>
    above (nodes s') p (Some z) (Root s') \<and> (\<exists>zr. nodes s' z = \<lparr>Left = rt l, Right = zr, Parent = top p, Balance = balance_of c\<rparr>) \<and>
    sub (nodes s') (Some z) l \<and> sub (nodes s') (Some y) (plug q v) \<and> Right (nodes s' y) = rt (plug q v) \<and>
    rb_keeps (y # names (plug p \<langle>l, (z, c), plug q v\<rangle>)) s s'"
proof (cases "q = []")
  case True
  have "above (nodes s) p (Some z) (Root s)" "sub (nodes s) (Some z) l" "sub (nodes s) (Some z) \<langle>\<langle>\<rangle>, (y, d), v\<rangle>"
      "nodes s z = \<lparr>Left = rt l, Right = Some y, Parent = top p, Balance = balance_of c\<rparr>"
    using r True by (auto simp: rep_plug)
  then show ?thesis using True by (intro exI [of _ s]) (simp add: leave_place_def)
next
  case False
  let ?Q = "q @ Rgt l z c # p"
  have rQ: "rep s (plug ?Q \<langle>\<langle>\<rangle>, (y, d), v\<rangle>)" using r by (simp add: plug_append)
  have dist: "distinct (before ?Q @ names \<langle>\<langle>\<rangle>, (y, d), v\<rangle> @ after ?Q)" by (rule rep_distinct [OF rQ])
  have ny: "nodes s y = \<lparr>Left = None, Right = rt v, Parent = top q, Balance = balance_of d\<rparr>"
    using rep_node [OF rQ] False by (simp add: top_append)
  have tq: "top q \<noteq> Some z" "top q \<noteq> Some y" using top_in [of q z] top_in [of q y] dist by auto
  obtain s1 where s1: "RtlRbTransplant (Some y) (rt v) s = Some s1" "rep s1 (plug ?Q v)" "rb_keeps (names (plug ?Q v)) s s1"
    using splice [of s ?Q y "Some y" v] rep_above [OF rQ] rep_sub [OF rQ] dist ny False by (auto simp: top_append)
  have r1: "rep s1 (plug p \<langle>l, (z, c), plug q v\<rangle>)" using s1(2) by (simp add: plug_append)
  obtain w where w: "rt (plug q v) = Some w" "w \<in> set (before q) \<union> set (after q)" using root_of_plug [OF False] by blast
  have nz: "nodes s1 z = \<lparr>Left = rt l, Right = Some w, Parent = top p, Balance = balance_of c\<rparr>"
    using rep_node [OF r1] w by simp
  have y1: "nodes s1 y = nodes s y" using s1(3) dist by (auto simp: rb_keeps_def)
  have ne: "w \<noteq> y" "w \<noteq> z" "y \<noteq> z" using w(2) dist by auto
  define s' where "s' = s1\<lparr>nodes := (nodes s1)(y := (nodes s1 y)\<lparr>Right := Some w\<rparr>, w := (nodes s1 w)\<lparr>Parent := Some y\<rparr>)\<rparr>"
  have "leave_place (Some z) (Some y) s = Some (s', top q)"
    using ny tq s1(1) nz ne by (simp add: leave_place_def s'_def)
  moreover have "above (nodes s') p (Some z) (Root s')"
    using rep_above [OF r1] w(2) dist by (auto simp: s'_def intro!: above_frame [of "nodes s1"])
  moreover have "sub (nodes s') (Some z) l"
    by (rule sub_frame [of "nodes s1"]) (use rep_sub [OF r1] w(2) dist in \<open>auto simp: s'_def\<close>)
  moreover have "sub (nodes s') (Some y) (plug q v)"
  proof (rule sub_reparent)
    show "sub (nodes s1) (Some z) (plug q v)" using rep_sub [OF r1] by simp
    show "nodes s' a = reparent (Some y) (rt (plug q v)) (nodes s1) a" if "a \<in> set (names (plug q v))" for a
      using that dist by (auto simp: s'_def w(1) reparent_def)
  qed (use dist in auto)
  moreover have "Right (nodes s' y) = rt (plug q v)" using ne by (simp add: s'_def w(1))
  moreover have "nodes s' z = \<lparr>Left = rt l, Right = Some w, Parent = top p, Balance = balance_of c\<rparr>"
    using nz ne by (simp add: s'_def)
  moreover have "rb_keeps (y # names (plug p \<langle>l, (z, c), plug q v\<rangle>)) s s'"
    using s1(3) w(2) by (auto simp: rb_keeps_def s'_def)
  ultimately show ?thesis using False by (auto simp: top_append)
qed

lemma delete_unlink_ok:
  assumes r: "rep s (plug p \<langle>l, (z, c), r\<rangle>)" and ok: "rbt_ok (plug p \<langle>l, (z, c), r\<rangle>)"
  shows "\<exists>x. delete_unlink (Some z) s = Some x \<and> unlinked s z (before p @ names l @ names r @ after p) x"
proof -
  note fields = rep_Left [OF r] rep_Right [OF r] rep_Parent [OF r] rep_Color [OF r]
  have dist: "distinct (before p @ names l @ z # names r @ after p)" using rep_distinct [OF r] by simp
  have ab: "above (nodes s) p (Some z) (Root s)" "Parent (nodes s z) = top p"
      "sub (nodes s) (Some z) l" "sub (nodes s) (Some z) r"
    using r by (simp_all add: rep_plug)
  consider "l = \<langle>\<rangle>" | "l \<noteq> \<langle>\<rangle>" "r = \<langle>\<rangle>" | "l \<noteq> \<langle>\<rangle>" "r \<noteq> \<langle>\<rangle>" by blast
  then show ?thesis
  proof cases
    case 1
    obtain s' where s': "RtlRbTransplant (Some z) (rt r) s = Some s'" "rep s' (plug p r)" "rb_keeps (names (plug p r)) s s'"
      using splice [OF ab(1,2,4)] dist 1 by auto
    have "unlinked s z (before p @ names l @ names r @ after p) (s', rt r, top p, balance_of c)"
      by (rule unlinkedI [OF s'(2)]) (use s'(3) 1 remove_low [OF ok, of r] in \<open>auto simp: rb_keeps_def\<close>)
    then show ?thesis using s'(1) fields 1 by (simp add: delete_unlink_def)
  next
    case 2
    obtain s' where s': "RtlRbTransplant (Some z) (rt l) s = Some s'" "rep s' (plug p l)" "rb_keeps (names (plug p l)) s s'"
      using splice [OF ab(1,2,3)] dist 2 by auto
    have "unlinked s z (before p @ names l @ names r @ after p) (s', rt l, top p, balance_of c)"
      by (rule unlinkedI [OF s'(2)]) (use s'(3) 2 remove_low [OF ok, of l] in \<open>auto simp: rb_keeps_def\<close>)
    then show ?thesis using s'(1) fields 2 by (simp add: delete_unlink_def)
  next
    case 3
    have rr: "rep s (plug (Rgt l z c # p) r)" using r by simp
    obtain q y d v where q: "r = plug q \<langle>\<langle>\<rangle>, (y, d), v\<rangle>" "before q = []" "walk_left s (rt r) = Some (Some y)"
      using walk_left_ok [OF rr 3(2)] by blast
    have rQ: "rep s (plug (q @ Rgt l z c # p) \<langle>\<langle>\<rangle>, (y, d), v\<rangle>)" using r q(1) by (simp add: plug_append)
    obtain s1 zr where s1: "leave_place (Some z) (Some y) s = Some (s1, top (q @ Rgt l y c # p))"
        "above (nodes s1) p (Some z) (Root s1)" "nodes s1 z = \<lparr>Left = rt l, Right = zr, Parent = top p, Balance = balance_of c\<rparr>"
        "sub (nodes s1) (Some z) l" "sub (nodes s1) (Some y) (plug q v)" "Right (nodes s1 y) = rt (plug q v)"
        "rb_keeps (y # names (plug p \<langle>l, (z, c), plug q v\<rangle>)) s s1"
      using leave_place_ok [of s p l z c q y d v] r q(1) by auto
    obtain s2 where s2: "take_place (Some z) (Some y) s1 = Some s2" "rep s2 (plug p \<langle>l, (y, c), plug q v\<rangle>)"
        "rb_keeps (names (plug p \<langle>l, (y, c), plug q v\<rangle>)) s1 s2"
      using take_place_ok [OF s1(2,3,4) 3(1) s1(5,6)] dist q(1,2) by auto
    have "unlinked s z (before p @ names l @ names r @ after p) (s2, rt v, top (q @ Rgt l y c # p), balance_of d)"
    proof (rule unlinkedI)
      show "rep s2 (plug (q @ Rgt l y c # p) v)" using s2(2) by (simp add: plug_append)
      show "if d then rbt_ok (plug (q @ Rgt l y c # p) v) else lacks_black (q @ Rgt l y c # p) v"
        using remove_inner [of p l z c q y d v] ok q(1) by simp
      show "rb_keeps (z # before p @ names l @ names r @ after p) s s2"
        using s1(7) s2(3) q(1,2) by (auto simp: rb_keeps_def)
    qed (use q in simp_all)
    then show ?thesis
      using fields q(3) s1(1) s2(1) 3 rep_Color [OF rQ] rep_Right [OF rQ] by (simp add: delete_unlink_def)
  qed
qed

lemma rep_Leftmost [simp]: "rep (s\<lparr>Leftmost := x\<rparr>) t = rep s t"
  by (simp add: rep_def)

lemma get_Leftmost [simp]: "get f (s\<lparr>Leftmost := x\<rparr>) a = get f s a"
  by (simp add: get_def)

text \<open>The cached node after the node \<open>z\<close> is gone.\<close>

lemma delete_cache_ok:
  assumes r: "rep s (plug p \<langle>l, (z, c), r\<rangle>)" and lm: "leftmost_ok s (plug p \<langle>l, (z, c), r\<rangle>)"
  shows "\<exists>q. delete_cache (Some z) s = Some (s\<lparr>Leftmost := q\<rparr>) \<and>
    q = (let N = before p @ names l @ names r @ after p in if N = [] then None else Some (hd N))"
proof (cases "Leftmost s = Some z")
  case False
  then have "delete_cache (Some z) s = Some (s\<lparr>Leftmost := Leftmost s\<rparr>)" by (simp add: delete_cache_def)
  moreover have "before p @ names l \<noteq> []" using lm False by (auto simp: leftmost_ok_def)
  ultimately show ?thesis
    by (intro exI [of _ "Leftmost s"] conjI) (use lm in \<open>auto simp: leftmost_ok_def Let_def hd_append\<close>)
next
  case True
  have e: "before p @ names l = []"
  proof (rule ccontr)
    assume ne: "before p @ names l \<noteq> []"
    have "distinct ((before p @ names l) @ z # names r @ after p)" using rep_distinct [OF r] by simp
    moreover have "hd ((before p @ names l) @ z # names r @ after p) = z" using lm True by (simp add: leftmost_ok_def)
    moreover have "hd (before p @ names l) \<in> set (before p @ names l)" using ne by (rule hd_in_set)
    ultimately show False using ne by (auto simp: hd_append split: if_splits)
  qed
  note fields = rep_Right [OF r] rep_Parent [OF r]
  show ?thesis
  proof (cases r)
    case Leaf
    have "top p = (if after p = [] then None else Some (hd (after p)))"
      using e by (cases p rule: top.cases) auto
    then show ?thesis using True e Leaf fields by (auto simp: delete_cache_def)
  next
    case (Node r1 x r2)
    have rr: "rep s (plug (Rgt l z c # p) r)" using r by simp
    obtain q y d v where q: "r = plug q \<langle>\<langle>\<rangle>, (y, d), v\<rangle>" "before q = []" "walk_left s (rt r) = Some (Some y)"
      using walk_left_ok [OF rr] Node by blast
    have "names r = y # names v @ after q" using q by simp
    moreover have "delete_cache (Some z) s = Some (s\<lparr>Leftmost := Some y\<rparr>)"
      using True fields q(3) Node by (simp add: delete_cache_def)
    ultimately show ?thesis using e by simp
  qed
qed

lemma rep_frame: "rep s t \<Longrightarrow> Root s' = Root s \<Longrightarrow> (\<And>a. a \<in> set (names t) \<Longrightarrow> nodes s' a = nodes s a) \<Longrightarrow> rep s' t"
  by (auto simp: rep_def intro: sub_frame)

lemma delete_ok:
  assumes tree: "rb_tree s xs" and z: "z \<in> set xs"
  shows "\<exists>s'. RtlDeleteElementRb (Some z) s = Some s' \<and> rb_tree s' (remove1 z xs) \<and>
    (\<forall>a. a \<notin> set xs \<longrightarrow> nodes s' a = nodes s a) \<and> Left (nodes s' z) = None \<and> Right (nodes s' z) = None \<and> Parent (nodes s' z) = None"
proof -
  obtain t where t: "rep s t" "rbt_ok t" "leftmost_ok s t" "names t = xs" using tree by (auto simp: rb_tree_def)
  obtain p l c r where p: "t = plug p \<langle>l, (z, c), r\<rangle>" using find_path z t(4) by blast
  let ?N = "before p @ names l @ names r @ after p"
  have xs: "xs = before p @ names l @ z # names r @ after p" using t(4) p by simp
  have dist: "distinct xs" using t(1,4) by (simp add: rep_def)
  then have N: "remove1 z xs = ?N" "z \<notin> set ?N" by (auto simp: xs remove1_append)
  obtain q where q: "delete_cache (Some z) s = Some (s\<lparr>Leftmost := q\<rparr>)" "q = (if ?N = [] then None else Some (hd ?N))"
    using delete_cache_ok [of s p l z c r] t p by (auto simp: Let_def)
  let ?s = "s\<lparr>Leftmost := q\<rparr>"
  obtain s1 P v d where s1: "delete_unlink (Some z) ?s = Some (s1, rt v, top P, balance_of d)" "rep s1 (plug P v)"
      "names (plug P v) = ?N" "if d then rbt_ok (plug P v) else lacks_black P v" "rb_keeps (z # ?N) ?s s1"
    using delete_unlink_ok [of ?s p l z c r] t p by (auto simp: unlinked_def)
  have "\<exists>s2 T. (if balance_of d = RTL_RB_BLACK then RtlRbDeleteFixup (rt v) (top P) s1 else Some s1) = Some s2 \<and> rep s2 T \<and>
      rb_keeps (z # ?N) ?s s2 \<and> names T = ?N \<and> rbt_ok T"
  proof (cases d)
    case True
    then show ?thesis using s1 by auto
  next
    case False
    then obtain s2 T where "RtlRbDeleteFixup (rt v) (top P) s1 = Some s2" "rep s2 T" "rb_keeps (names (plug P v)) s1 s2"
        "names T = names (plug P v)" "rbt_ok T"
      using RtlRbDeleteFixup_ok [OF s1(2)] s1(4) by auto
    moreover have "rb_keeps (z # ?N) ?s s2"
      by (rule rb_keeps_comp [OF s1(5) calculation(3)]) (auto simp only: s1(3) set_simps)
    ultimately show ?thesis using False s1(3) by auto
  qed
  then obtain s2 T where s2: "(if balance_of d = RTL_RB_BLACK then RtlRbDeleteFixup (rt v) (top P) s1 else Some s1) = Some s2"
      "rep s2 T" "rb_keeps (z # ?N) ?s s2" "names T = ?N" "rbt_ok T" by blast
  define s' where "s' = s2\<lparr>nodes := (nodes s2)(z := (nodes s2 z)\<lparr>Left := None, Right := None, Parent := None\<rparr>)\<rparr>"
  have "RtlDeleteElementRb (Some z) s = Some s'"
    using q(1) s1(1) s2(1) by (simp add: RtlDeleteElementRb_def s'_def)
  moreover have "rep s' T" by (rule rep_frame [OF s2(2)]) (use s2(4) N(2) in \<open>auto simp: s'_def\<close>)
  moreover have "leftmost_ok s' T"
    using s2(3,4) q(2) by (simp add: leftmost_ok_def rb_keeps_def s'_def)
  moreover have "nodes s' a = nodes s a" if "a \<notin> set xs" for a
    using s2(3) that by (auto simp: rb_keeps_def s'_def xs)
  ultimately show ?thesis using s2(4,5) N(1) by (auto simp: rb_tree_def s'_def)
qed

section \<open>Searching\<close>

lemma insert_after_set [simp]: "set (insert_after key n xs) = insert n (set xs)"
proof -
  have "set xs = set (takeWhile (\<lambda>a. key a \<le> key n) xs) \<union> set (dropWhile (\<lambda>a. key a \<le> key n) xs)"
    by (metis set_append takeWhile_dropWhile_id)
  then show ?thesis by (auto simp: insert_after_def)
qed

lemma insert_after_sorted: "sorted (map key xs) \<Longrightarrow> sorted (map key (insert_after key n xs))"
proof (induction xs)
  case (Cons a xs)
  show ?case
  proof (cases "key a \<le> key n")
    case True
    have "insert_after key n (a # xs) = a # insert_after key n xs" using True by (simp add: insert_after_def)
    then show ?thesis using Cons True by auto
  next
    case False
    then have "insert_after key n (a # xs) = n # a # xs" by (simp add: insert_after_def)
    then show ?thesis using Cons.prems False by force
  qed
qed (simp add: insert_after_def)

lemma insert_after_length [simp]: "length (insert_after key n xs) = Suc (length xs)"
  unfolding insert_after_def by (metis add_Suc_right length_append length_Cons takeWhile_dropWhile_id)

lemma insert_after_distinct:
  assumes "n \<notin> set xs" "distinct xs" shows "distinct (insert_after key n xs)"
proof -
  let ?P = "\<lambda>a. key a \<le> key n"
  have "distinct (takeWhile ?P xs @ dropWhile ?P xs)" using assms(2) by simp
  moreover have "n \<notin> set (takeWhile ?P xs)" "n \<notin> set (dropWhile ?P xs)"
    using assms(1) by (auto dest: set_takeWhileD set_dropWhileD)
  ultimately show ?thesis by (simp only: insert_after_def distinct_append distinct.simps set_simps) blast
qed

context rb_compare
begin

lemma lookup_loop_ok:
  assumes "rep s (plug p t)" "sorted (map key (names t))"
  shows "\<exists>m. lookup_loop CompareRoutine n s (rt t) = Some m \<and>
    (case m of None \<Rightarrow> \<forall>a\<in>set (names t). key a \<noteq> key n | Some a \<Rightarrow> a \<in> set (names t) \<and> key a = key n)"
  using assms
proof (induction t arbitrary: p)
  case Leaf
  then show ?case by (simp add: lookup_loop.simps)
next
  case (Node l x r)
  obtain a c where x: "x = (a, c)" by (cases x)
  note rep = Node.prems(1) [unfolded x]
  have srt: "\<forall>b\<in>set (names l). key b \<le> key a" "\<forall>b\<in>set (names r). key a \<le> key b"
      "sorted (map key (names l))" "sorted (map key (names r))"
    using Node.prems(2) by (auto simp: x sorted_append)
  consider "key n = key a" | "key n < key a" | "key a < key n" by (rule linorder_cases)
  then show ?case
  proof cases
    case 1
    then show ?thesis by (intro exI [of _ "Some a"]) (simp add: x lookup_loop.simps [of _ _ _ "Some a"] compare_eq)
  next
    case 2
    have "lookup_loop CompareRoutine n s (Some a) = lookup_loop CompareRoutine n s (rt l)"
      using 2 rep_Left [OF rep] by (simp add: lookup_loop.simps [of _ _ _ "Some a"] compare_eq compare_less less_imp_neq)
    moreover have "rep s (plug (Lft a c r # p) l)" using rep by simp
    from Node.IH(1) [OF this] obtain m where "lookup_loop CompareRoutine n s (rt l) = Some m"
        "case m of None \<Rightarrow> \<forall>a\<in>set (names l). key a \<noteq> key n | Some a \<Rightarrow> a \<in> set (names l) \<and> key a = key n"
      using srt by blast
    ultimately show ?thesis using srt 2 by (intro exI [of _ m]) (cases m; auto simp: x)
  next
    case 3
    have "lookup_loop CompareRoutine n s (Some a) = lookup_loop CompareRoutine n s (rt r)"
      using 3 rep_Right [OF rep] by (simp add: lookup_loop.simps [of _ _ _ "Some a"] compare_eq compare_less less_not_sym less_imp_neq [symmetric])
    moreover have "rep s (plug (Rgt l a c # p) r)" using rep by simp
    from Node.IH(2) [OF this] obtain m where "lookup_loop CompareRoutine n s (rt r) = Some m"
        "case m of None \<Rightarrow> \<forall>a\<in>set (names r). key a \<noteq> key n | Some a \<Rightarrow> a \<in> set (names r) \<and> key a = key n"
      using srt by blast
    ultimately show ?thesis using srt 3 by (intro exI [of _ m]) (cases m; auto simp: x)
  qed
qed

lemma lookup_ok:
  assumes "rb_tree s xs" "sorted (map key xs)"
  shows "\<exists>m. RtlLookupElementRb CompareRoutine n s = Some m \<and>
    (case m of None \<Rightarrow> \<forall>a\<in>set xs. key a \<noteq> key n | Some a \<Rightarrow> a \<in> set xs \<and> key a = key n)"
proof -
  obtain t where t: "rep s t" "names t = xs" using assms(1) by (auto simp: rb_tree_def)
  then show ?thesis
    using lookup_loop_ok [of s "[]" t n] assms(2) by (auto simp: RtlLookupElementRb_def rep_def)
qed

end

section \<open>The next node\<close>

definition head :: "'a list \<Rightarrow> 'a option" where
  "head xs = (if xs = [] then None else Some (hd xs))"

lemma next_up_ok:
  assumes "rep s (plug p t)" "t \<noteq> \<langle>\<rangle>"
  shows "next_up s (rt t) (top p) = Some (head (after p))"
  using assms
proof (induction p arbitrary: t)
  case Nil
  then show ?case by (simp add: next_up.simps head_def)
next
  case (Cons f p)
  obtain a where a: "rt t = Some a" using Cons.prems(2) by (cases t) auto
  have d: "distinct (names (plug (f # p) t))" using Cons.prems(1) by (simp add: rep_def)
  show ?case
  proof (cases f)
    case (Lft x c r)
    have "a \<in> set (names t)" using a by simp
    then have "rt r \<noteq> Some a" using d Lft by (intro rt_notin) auto
    moreover have "get Right s (Some x) = Some (rt r)" using Cons.prems(1) Lft by (simp add: rep_plug)
    ultimately show ?thesis using a Lft by (simp add: next_up.simps [of s _ "Some x"] head_def)
  next
    case (Rgt l x c)
    have "get Right s (Some x) = Some (rt t)" "get Parent s (Some x) = Some (top p)"
      using Cons.prems(1) Rgt by (simp_all add: rep_plug)
    then have "next_up s (rt t) (top (f # p)) = next_up s (rt \<langle>l, (x, c), t\<rangle>) (top p)"
      using Rgt by (simp add: next_up.simps [of s _ "Some x"])
    also have "\<dots> = Some (head (after p))"
      by (rule Cons.IH) (use Cons.prems(1) Rgt in simp_all)
    finally show ?thesis using Rgt by simp
  qed
qed

lemma next_ok:
  assumes "rb_tree s (as @ z # bs)"
  shows "RtlGetNextNodeRb s (Some z) = Some (head bs)"
proof -
  obtain t where t: "rep s t" "names t = as @ z # bs" using assms by (auto simp: rb_tree_def)
  have "z \<in> set (names t)" using t(2) by simp
  then obtain p l c r where p: "t = plug p \<langle>l, (z, c), r\<rangle>" using find_path by blast
  have d: "distinct (names t)" using t(1) by (simp add: rep_def)
  have "as @ z # bs = (before p @ names l) @ z # (names r @ after p)" using t(2) p by simp
  moreover have "z \<notin> set as" "z \<notin> set bs" using d t(2) by auto
  ultimately have bs: "bs = names r @ after p" using append_Cons_eq_iff by metis
  have r: "rep s (plug p \<langle>l, (z, c), r\<rangle>)" using t(1) p by simp
  show ?thesis
  proof (cases r)
    case Leaf
    then show ?thesis
      using rep_Right [OF r] rep_Parent [OF r] next_up_ok [OF r] bs by (simp add: RtlGetNextNodeRb_def)
  next
    case (Node r1 x r2)
    have rr: "rep s (plug (Rgt l z c # p) r)" using r by simp
    obtain q y d v where q: "r = plug q \<langle>\<langle>\<rangle>, (y, d), v\<rangle>" "before q = []" "walk_left s (rt r) = Some (Some y)"
      using walk_left_ok [OF rr] Node by blast
    have "rt r \<noteq> None" using Node by simp
    then show ?thesis
      using rep_Right [OF r] q(3) bs q(1,2) by (simp add: RtlGetNextNodeRb_def head_def)
  qed
qed

lemma leftmost_get: "rb_tree s xs \<Longrightarrow> RtlGetLeftmostNodeRb s = head xs"
  by (auto simp: rb_tree_def leftmost_ok_def RtlGetLeftmostNodeRb_def head_def)

lemma init_ok: "rb_tree (RtlInitializeRbTree s) []"
  unfolding rb_tree_def by (rule exI [of _ Leaf]) (simp add: RtlInitializeRbTree_def rep_def rbt_ok_def leftmost_ok_def)

lemma rb_tree_distinct: "rb_tree s xs \<Longrightarrow> distinct xs"
  by (auto simp: rb_tree_def rep_def)

section \<open>The height\<close>

lemma bh_size: "invh t \<Longrightarrow> 2 ^ bh t \<le> length (names t) + 1"
  by (induction t) (auto split: if_splits)

lemma height_bh: "invc t \<Longrightarrow> invh t \<Longrightarrow> height t \<le> 2 * bh t + (if isred t then 1 else 0)"
  by (induction t) (auto split: if_splits)

lemma height_ok:
  assumes "rbt_ok t" shows "2 ^ height t \<le> (length (names t) + 1) ^ 2"
proof -
  have "height t \<le> 2 * bh t" using height_bh [of t] assms by (simp add: rbt_ok_def)
  then have "(2::nat) ^ height t \<le> 2 ^ (2 * bh t)" by (rule power_increasing) simp
  also have "\<dots> = (2 ^ bh t) ^ 2" by (simp add: power_mult mult.commute)
  also have "\<dots> \<le> (length (names t) + 1) ^ 2"
    by (rule power_mono) (use bh_size [of t] assms in \<open>simp_all add: rbt_ok_def\<close>)
  finally show ?thesis .
qed

section \<open>Sequences of operations\<close>

datatype rb_op = Ins node | Del node

fun rb_step :: "compare \<Rightarrow> rb_op \<Rightarrow> RTL_RB_TREE \<Rightarrow> RTL_RB_TREE option" where
  "rb_step C (Ins n) s = RtlInsertElementRb C n s"
| "rb_step C (Del n) s = RtlDeleteElementRb (Some n) s"

fun rb_run :: "compare \<Rightarrow> rb_op list \<Rightarrow> RTL_RB_TREE \<Rightarrow> RTL_RB_TREE option" where
  "rb_run C [] s = Some s"
| "rb_run C (x # xs) s = do { s \<leftarrow> rb_step C x s; rb_run C xs s }"

text \<open>The same operations on the list of nodes, and their preconditions.\<close>

fun list_step :: "(node \<Rightarrow> 'k::linorder) \<Rightarrow> rb_op \<Rightarrow> node list \<Rightarrow> node list" where
  "list_step key (Ins n) xs = insert_after key n xs"
| "list_step key (Del n) xs = remove1 n xs"

fun allowed :: "rb_op \<Rightarrow> node list \<Rightarrow> bool" where
  "allowed (Ins n) xs \<longleftrightarrow> n \<notin> set xs"
| "allowed (Del n) xs \<longleftrightarrow> n \<in> set xs"

fun all_allowed :: "(node \<Rightarrow> 'k::linorder) \<Rightarrow> rb_op list \<Rightarrow> node list \<Rightarrow> bool" where
  "all_allowed key [] xs \<longleftrightarrow> True"
| "all_allowed key (x # ops) xs \<longleftrightarrow> allowed x xs \<and> all_allowed key ops (list_step key x xs)"

lemma sorted_map_remove1: "sorted (map key xs) \<Longrightarrow> sorted (map key (remove1 n xs))"
  by (induction xs) (auto dest: set_remove1_subset [THEN subsetD])

lemma list_step_sorted: "sorted (map key xs) \<Longrightarrow> sorted (map key (list_step key x xs))"
  by (cases x) (simp_all add: insert_after_sorted sorted_map_remove1)

context rb_compare
begin

lemma step_ok:
  assumes "rb_tree s xs" "sorted (map key xs)" "allowed x xs"
  shows "\<exists>s'. rb_step CompareRoutine x s = Some s' \<and> rb_tree s' (list_step key x xs)"
  using assms insert_ok delete_ok by (cases x) fastforce+

lemma run_ok:
  assumes "rb_tree s xs" "sorted (map key xs)" "all_allowed key ops xs"
  shows "\<exists>s'. rb_run CompareRoutine ops s = Some s' \<and> rb_tree s' (fold (list_step key) ops xs) \<and>
    sorted (map key (fold (list_step key) ops xs))"
  using assms
proof (induction ops arbitrary: s xs)
  case (Cons x ops)
  obtain s1 where s1: "rb_step CompareRoutine x s = Some s1" "rb_tree s1 (list_step key x xs)"
    using step_ok [OF Cons.prems(1,2), of x] Cons.prems(3) by auto
  then show ?case
    using Cons.IH [OF s1(2) list_step_sorted [OF Cons.prems(2)]] Cons.prems(3) by simp
qed simp

end

section \<open>The properties\<close>

text \<open>For the witnesses: nodes compared by their names.\<close>

lemma number_compare: "rb_compare (\<lambda>a b. int a - int b) (\<lambda>a. a)"
  by unfold_locales auto

text \<open>C21: The red-black tree implements a sorted list. From an initialized tree every sequence of insertions of new
  nodes and deletions of present ones returns, without a null pointer followed or a loop that does not end; the
  tree then holds exactly the nodes of the list operations in their order, where an insertion puts the node
  behind those whose key is not greater and a deletion takes out that node alone, and the cached leftmost node
  is the first of them.\<close>

theorem rb_operations_refine_list:
  assumes "rb_compare CompareRoutine key" "all_allowed key ops []"
  shows "\<exists>s'. rb_run CompareRoutine ops (RtlInitializeRbTree s) = Some s' \<and> rb_tree s' (fold (list_step key) ops []) \<and>
    sorted (map key (fold (list_step key) ops [])) \<and> RtlGetLeftmostNodeRb s' = head (fold (list_step key) ops [])"
  using rb_compare.run_ok [OF assms(1) init_ok, of ops] assms(2) leftmost_get by fastforce

theorem rb_operations_refine_list_witness:
  "\<exists>s'. rb_run (\<lambda>a b. int a - int b) [Ins 5, Ins 3, Ins 8, Ins 4, Del 5, Ins 6, Del 3]
     (RtlInitializeRbTree \<lparr>nodes = \<lambda>_. \<lparr>Left = None, Right = None, Parent = None, Balance = 0\<rparr>, Root = None, Leftmost = None\<rparr>) = Some s' \<and>
   rb_tree s' [4, 6, 8] \<and> RtlGetLeftmostNodeRb s' = Some 4"
  using rb_operations_refine_list [OF number_compare, of "[Ins 5, Ins 3, Ins 8, Ins 4, Del 5, Ins 6, Del 3]"
      "\<lparr>nodes = \<lambda>_. \<lparr>Left = None, Right = None, Parent = None, Balance = 0\<rparr>, Root = None, Leftmost = None\<rparr>"]
  by (simp add: insert_after_def head_def)

text \<open>C22: After every such sequence the memory is a well-formed red-black tree: every node has its children and its
  parent, the root is black, no red node has a red child, all ways down have the same number of black nodes, and
  with \<open>n\<close> nodes the height is at most \<open>2 log (n + 1)\<close>.\<close>

theorem rb_tree_balanced:
  assumes "rb_compare CompareRoutine key" "all_allowed key ops []"
  shows "\<exists>s' t. rb_run CompareRoutine ops (RtlInitializeRbTree s) = Some s' \<and> rep s' t \<and>
    \<not> isred t \<and> invc t \<and> invh t \<and> 2 ^ height t \<le> (length (names t) + 1) ^ 2"
proof -
  obtain s' where s': "rb_run CompareRoutine ops (RtlInitializeRbTree s) = Some s'" "rb_tree s' (fold (list_step key) ops [])"
    using rb_compare.run_ok [OF assms(1) init_ok, of ops] assms(2) by auto
  then show ?thesis using height_ok by (fastforce simp: rb_tree_def rbt_ok_def)
qed

theorem rb_tree_balanced_witness:
  "\<exists>s' t. rb_run (\<lambda>a b. int a - int b) (map Ins [0..<9])
     (RtlInitializeRbTree \<lparr>nodes = \<lambda>_. \<lparr>Left = None, Right = None, Parent = None, Balance = 0\<rparr>, Root = None, Leftmost = None\<rparr>) = Some s' \<and>
   rep s' t \<and> 2 ^ height t \<le> (length (names t) + 1) ^ 2"
proof -
  have "all_allowed (\<lambda>a. a) (map Ins [0..<9]) []" by (simp add: upt_rec insert_after_def)
  from rb_tree_balanced [OF number_compare this] show ?thesis by blast
qed

text \<open>C23: The searches agree with the list: a lookup returns a node with the key of the search node, or none when no
  node has it; the successor of each node is the next of the list, and the last has none.\<close>

theorem rb_searches_correct:
  assumes "rb_compare CompareRoutine key" "rb_tree s xs" "sorted (map key xs)"
  shows "(\<exists>m. RtlLookupElementRb CompareRoutine n s = Some m \<and>
      (case m of None \<Rightarrow> \<forall>a\<in>set xs. key a \<noteq> key n | Some a \<Rightarrow> a \<in> set xs \<and> key a = key n)) \<and>
    (\<forall>as z bs. xs = as @ z # bs \<longrightarrow> RtlGetNextNodeRb s (Some z) = Some (head bs))"
  using rb_compare.lookup_ok [OF assms, of n] next_ok assms(2) by blast

theorem rb_searches_correct_witness:
  "\<exists>s. RtlLookupElementRb (\<lambda>a b. int a - int b) 4 s = Some (Some 4) \<and> RtlLookupElementRb (\<lambda>a b. int a - int b) 5 s = Some None \<and>
     RtlGetNextNodeRb s (Some 4) = Some (Some 6) \<and> RtlGetNextNodeRb s (Some 6) = Some None"
proof -
  obtain s where s: "rb_tree s [4, 6]"
    using rb_compare.run_ok [OF number_compare init_ok, of "[Ins 6, Ins 4]"] by (auto simp: insert_after_def)
  have "sorted (map (\<lambda>a. a) [4, 6 :: nat])" by simp
  note w = rb_searches_correct [OF number_compare s this]
  obtain m where m: "RtlLookupElementRb (\<lambda>a b. int a - int b) 4 s = Some m"
      "case m of None \<Rightarrow> \<forall>a\<in>set [4, 6 :: nat]. a \<noteq> 4 | Some a \<Rightarrow> a \<in> set [4, 6] \<and> a = 4"
    using conjunct1 [OF w [of 4]] by auto
  obtain k where k: "RtlLookupElementRb (\<lambda>a b. int a - int b) 5 s = Some k"
      "case k of None \<Rightarrow> \<forall>a\<in>set [4, 6 :: nat]. a \<noteq> 5 | Some a \<Rightarrow> a \<in> set [4, 6] \<and> a = (5::nat)"
    using conjunct1 [OF w [of 5]] by auto
  have "m = Some 4" "k = None" using m(2) k(2) by (auto split: option.splits)
  then have "RtlLookupElementRb (\<lambda>a b. int a - int b) 4 s = Some (Some 4)" "RtlLookupElementRb (\<lambda>a b. int a - int b) 5 s = Some None"
    using m(1) k(1) by simp_all
  moreover have "RtlGetNextNodeRb s (Some 4) = Some (Some 6)" "RtlGetNextNodeRb s (Some 6) = Some None"
    using w [of 4, THEN conjunct2, rule_format, of "[]" 4 "[6]"] w [of 4, THEN conjunct2, rule_format, of "[4]" 6 "[]"]
    by (simp_all add: head_def)
  ultimately show ?thesis by blast
qed

end
