(* ===== verification/PtCfs.thy ===== *)
theory PtCfs
  imports KsDispatch RtlRbDelete
begin

text \<open>
  The fair scheduler: \<open>veakrnl/pt/ptcfs.c\<close> and \<open>veakrnl/pt/ptscheduler.c\<close>, the run queue of one processor over
  the red-black tree of \<open>rbtree.c\<close>, ordered by the virtual runtime of the threads.

  A thread and its \<open>CfsNode\<close> have the same name (\<open>CONTAINING_RECORD\<close>). The state is that of one processor: the
  threads, its run queue, its idle thread, and of its control block the current thread, the page directory and
  the interrupt level. A call is a step of its own. Between two calls of one thread other calls can come: a thread
  that has begun to wait or has ended is still the current one until it yields. \<open>PtpSilentInterrupt\<close> only reads the
  flags, so in the code an interrupt can also fall inside \<open>PtYieldThread\<close>, which is one step here.
\<close>

section \<open>State\<close>

record KTHREAD_SCHED =
  VRuntime :: u64
  Weight :: u64
  State :: KTHREAD_STATE
  WaitStatus :: VEASTATUS
  Irql :: u8
  Process :: "nat option"
  Priority :: u8

record KRUNQUEUE =
  CfsTree :: RTL_RB_TREE
  CurrentThread :: node_ptr
  TotalWeight :: u32
  RunningTasks :: u32
  MinVRuntime :: u64

record PROCESSOR =
  Threads :: "node \<Rightarrow> KTHREAD_SCHED"
  PtRunQueue :: KRUNQUEUE
  PtSystemIdleThread :: node
  PrcbCurrentThread :: node_ptr
  Cr3 :: "nat option"
  CurrentIrql :: u8

definition upd_thread :: "node \<Rightarrow> (KTHREAD_SCHED \<Rightarrow> KTHREAD_SCHED) \<Rightarrow> PROCESSOR \<Rightarrow> PROCESSOR" where
  "upd_thread t f s = s\<lparr>Threads := (Threads s)(t := f (Threads s t))\<rparr>"

definition upd_queue :: "(KRUNQUEUE \<Rightarrow> KRUNQUEUE) \<Rightarrow> PROCESSOR \<Rightarrow> PROCESSOR" where
  "upd_queue f s = s\<lparr>PtRunQueue := f (PtRunQueue s)\<rparr>"

definition PT_CFS_BASE_WEIGHT :: u64 where "PT_CFS_BASE_WEIGHT = 1024"
definition PASSIVE_LEVEL :: u8 where "PASSIVE_LEVEL = 0"

section \<open>Priorities\<close>

text \<open>\<open>CHAR\<close> is signed.\<close>

definition PtSetThreadPriority :: "node_ptr \<Rightarrow> u8 \<Rightarrow> PROCESSOR \<Rightarrow> bool \<times> PROCESSOR" where
  "PtSetThreadPriority Thread Pri s =
     (case Thread of None \<Rightarrow> (False, s)
      | Some t \<Rightarrow>
        let Pri = (if sint Pri < 0 then 0 else Pri);
            WeightShift = ucast Pri div (8 :: u32);
            WeightShift = (if WeightShift > 5 then 5 else WeightShift)
        in (True, upd_thread t (\<lambda>k. k\<lparr>Priority := Pri, Weight := push_bit (unat WeightShift) PT_CFS_BASE_WEIGHT\<rparr>) s))"

section \<open>The run queue\<close>

definition PtCfsCompareRoutine :: "(node \<Rightarrow> KTHREAD_SCHED) \<Rightarrow> node \<Rightarrow> node \<Rightarrow> int" where
  "PtCfsCompareRoutine thr NodeA NodeB =
     (if VRuntime (thr NodeA) < VRuntime (thr NodeB) then - 1
      else if VRuntime (thr NodeA) > VRuntime (thr NodeB) then 1
      else 0)"

definition PtEnqueueThreadCfs :: "node_ptr \<Rightarrow> PROCESSOR \<Rightarrow> PROCESSOR option" where
  "PtEnqueueThreadCfs Thread s =
     (case Thread of None \<Rightarrow> Some s
      | Some t \<Rightarrow> do {
          T \<leftarrow> put (Left_update (\<lambda>_. None)) (Some t) (CfsTree (PtRunQueue s));
          T \<leftarrow> put (Right_update (\<lambda>_. None)) (Some t) T;
          T \<leftarrow> put (Parent_update (\<lambda>_. None)) (Some t) T;
          let s = upd_thread t (\<lambda>k. k\<lparr>State := Ready\<rparr>) s;
          T \<leftarrow> RtlInsertElementRb (PtCfsCompareRoutine (Threads s)) t T;
          Some (upd_queue (\<lambda>q. q\<lparr>CfsTree := T, RunningTasks := RunningTasks q + 1,
            TotalWeight := TotalWeight q + ucast (Weight (Threads s t))\<rparr>) s) })"

definition PtDequeueThreadCfs :: "node_ptr \<Rightarrow> PROCESSOR \<Rightarrow> PROCESSOR option" where
  "PtDequeueThreadCfs Thread s =
     (case Thread of None \<Rightarrow> Some s
      | Some t \<Rightarrow> do {
          T \<leftarrow> RtlDeleteElementRb (Some t) (CfsTree (PtRunQueue s));
          let q = (PtRunQueue s)\<lparr>CfsTree := T\<rparr>;
          let q = (if RunningTasks q > 0 then q\<lparr>RunningTasks := RunningTasks q - 1\<rparr> else q);
          let q = (if ucast (TotalWeight q) \<ge> Weight (Threads s t)
                   then q\<lparr>TotalWeight := ucast (ucast (TotalWeight q) - Weight (Threads s t))\<rparr>
                   else q\<lparr>TotalWeight := 0\<rparr>);
          Some (s\<lparr>PtRunQueue := q\<rparr>) })"

definition PtPickNextThreadCfs :: "PROCESSOR \<Rightarrow> (node_ptr \<times> PROCESSOR) option" where
  "PtPickNextThreadCfs s =
     (case RtlGetLeftmostNodeRb (CfsTree (PtRunQueue s)) of
        None \<Rightarrow> Some (None, upd_queue (\<lambda>q. q\<lparr>CurrentThread := None\<rparr>) s)
      | Some t \<Rightarrow> do {
          T \<leftarrow> RtlDeleteElementRb (Some t) (CfsTree (PtRunQueue s));
          let s = upd_thread t (\<lambda>k. k\<lparr>State := Running\<rparr>) s;
          Some (Some t, upd_queue (\<lambda>q. q\<lparr>CfsTree := T, CurrentThread := Some t\<rparr>) s) })"

section \<open>The scheduler\<close>

definition PtSelectNextThread :: "PROCESSOR \<Rightarrow> (node \<times> PROCESSOR) option" where
  "PtSelectNextThread s = do {
     (n, s) \<leftarrow> PtPickNextThreadCfs s;
     let NextThread = (case n of None \<Rightarrow> PtSystemIdleThread s | Some t \<Rightarrow> t);
     let s = upd_thread NextThread (\<lambda>k. k\<lparr>State := Running\<rparr>) s;
     Some (NextThread, upd_queue (\<lambda>q. q\<lparr>CurrentThread := Some NextThread\<rparr>) s) }"

text \<open>
  The switch: \<open>PtSetCurrentThread\<close>, the page directory of another process, and \<open>PtSwapContext\<close>, after which the
  code goes on in the thread that was switched to, which sets its own interrupt level.
\<close>

definition switch_context :: "node_ptr \<Rightarrow> node \<Rightarrow> PROCESSOR \<Rightarrow> PROCESSOR" where
  "switch_context OldThread NextThread s =
     (let s = s\<lparr>PrcbCurrentThread := Some NextThread\<rparr>;
          OldProcess = (case OldThread of None \<Rightarrow> None | Some c \<Rightarrow> Process (Threads s c));
          NewProcess = Process (Threads s NextThread);
          s = (if OldProcess \<noteq> NewProcess \<and> NewProcess \<noteq> None then s\<lparr>Cr3 := NewProcess\<rparr> else s);
          ResumedThread = PrcbCurrentThread s
      in (case ResumedThread of
            Some t \<Rightarrow> s\<lparr>CurrentIrql := Irql (Threads s t)\<rparr>
          | None \<Rightarrow> s\<lparr>CurrentIrql := PASSIVE_LEVEL\<rparr>))"

definition PtYieldThread :: "PROCESSOR \<Rightarrow> PROCESSOR option" where
  "PtYieldThread s = do {
     let OldThread = PrcbCurrentThread s;
     (NextThread, s) \<leftarrow> PtSelectNextThread s;
     s \<leftarrow> (case OldThread of
            None \<Rightarrow> Some s
          | Some c \<Rightarrow>
            if c \<noteq> PtSystemIdleThread s \<and> State (Threads s c) = Running then PtEnqueueThreadCfs (Some c) s
            else Some s);
     Some (if OldThread \<noteq> Some NextThread then switch_context OldThread NextThread s else s) }"

definition PtWakeThreadCfs :: "node_ptr \<Rightarrow> PROCESSOR \<Rightarrow> (bool \<times> PROCESSOR) option" where
  "PtWakeThreadCfs Thread s =
     (case Thread of None \<Rightarrow> Some (False, s)
      | Some t \<Rightarrow>
        if State (Threads s t) \<noteq> Waiting then Some (False, s)
        else do {
          s \<leftarrow> PtEnqueueThreadCfs (Some t) (upd_thread t (\<lambda>k. k\<lparr>State := Ready\<rparr>) s);
          Some (True, s) })"

definition PtWakeThreadEx :: "node \<Rightarrow> VEASTATUS \<Rightarrow> PROCESSOR \<Rightarrow> (bool \<times> PROCESSOR) option" where
  "PtWakeThreadEx Thread WakeStatus s =
     PtWakeThreadCfs (Some Thread) (upd_thread Thread (\<lambda>k. k\<lparr>WaitStatus := WakeStatus\<rparr>) s)"

definition PtpDelayExecutionDpcRoutine :: "node_ptr \<Rightarrow> PROCESSOR \<Rightarrow> PROCESSOR option" where
  "PtpDelayExecutionDpcRoutine Thread s =
     (case Thread of None \<Rightarrow> Some s
      | Some t \<Rightarrow>
        if State (Threads s t) = Waiting
        then map_option snd (PtWakeThreadCfs (Some t) (upd_thread t (\<lambda>k. k\<lparr>WaitStatus := STATUS_TIMEOUT\<rparr>) s))
        else Some s)"

text \<open>The loop that finds the shift of a weight.\<close>

function weight_shift :: "u64 \<Rightarrow> nat \<Rightarrow> nat" where
  "weight_shift w WeightShift =
     (if w > PT_CFS_BASE_WEIGHT \<and> WeightShift < 5 then weight_shift (drop_bit 1 w) (WeightShift + 1)
      else WeightShift)"
  by auto
termination by (relation "measure (\<lambda>(w, n). 5 - n)") auto

declare weight_shift.simps [simp del]

definition PtSchedulerTick :: "u64 \<Rightarrow> PROCESSOR \<Rightarrow> PROCESSOR option" where
  "PtSchedulerTick DeltaTimeNs s =
     (case PrcbCurrentThread s of None \<Rightarrow> Some s
      | Some c \<Rightarrow>
        let s = (if Weight (Threads s c) \<noteq> 0
                 then upd_thread c (\<lambda>k. k\<lparr>VRuntime := VRuntime k + drop_bit (weight_shift (Weight k) 0) DeltaTimeNs\<rparr>) s
                 else s);
            ShouldYield = (case RtlGetLeftmostNodeRb (CfsTree (PtRunQueue s)) of
                None \<Rightarrow> False
              | Some Candidate \<Rightarrow> VRuntime (Threads s Candidate) < VRuntime (Threads s c))
        in if ShouldYield then PtYieldThread s else Some s)"

text \<open>Start-up, for the processor that runs it.\<close>

definition PtInitializeRunQueues :: "PROCESSOR \<Rightarrow> PROCESSOR" where
  "PtInitializeRunQueues s =
     (let idle = PtSystemIdleThread s;
          s = s\<lparr>PtRunQueue := \<lparr>CfsTree = RtlInitializeRbTree (CfsTree (PtRunQueue s)), CurrentThread = None,
              TotalWeight = 0, RunningTasks = 0, MinVRuntime = 0\<rparr>\<rparr>;
          s = upd_thread idle (\<lambda>_. \<lparr>VRuntime = 0, Weight = 1, State = Ready, WaitStatus = 0, Irql = 0,
              Process = None, Priority = 0\<rparr>) s;
          s = upd_queue (\<lambda>q. q\<lparr>CfsTree := (CfsTree q)\<lparr>nodes := (nodes (CfsTree q))(idle :=
              \<lparr>Left = None, Right = None, Parent = None, Balance = 0\<rparr>)\<rparr>\<rparr>) s;
          s = upd_thread idle (\<lambda>k. k\<lparr>State := Running\<rparr>) s;
          s = s\<lparr>PrcbCurrentThread := Some idle\<rparr>
      in upd_queue (\<lambda>q. q\<lparr>CurrentThread := Some idle\<rparr>) s)"

text \<open>
  What \<open>PiInitializeThread\<close> and the end of \<open>PtCreateSystemThread\<close> do to the scheduler: the new thread is
  zeroed, gets its weight and runtime, and is put into the run queue.
\<close>

definition start_thread :: "node \<Rightarrow> nat \<Rightarrow> u8 \<Rightarrow> PROCESSOR \<Rightarrow> PROCESSOR option" where
  "start_thread Thread ParentProcess BasePriority s =
     (let s = upd_thread Thread (\<lambda>_. \<lparr>VRuntime = 0, Weight = 0, State = Initialized, WaitStatus = 0, Irql = 0,
              Process = None, Priority = BasePriority\<rparr>) s;
          s = upd_queue (\<lambda>q. q\<lparr>CfsTree := (CfsTree q)\<lparr>nodes := (nodes (CfsTree q))(Thread :=
              \<lparr>Left = None, Right = None, Parent = None, Balance = 0\<rparr>)\<rparr>\<rparr>) s;
          s = upd_thread Thread (\<lambda>k. k\<lparr>Process := Some ParentProcess, Weight := 1024, VRuntime := 0\<rparr>) s
      in PtEnqueueThreadCfs (Some Thread) s)"

section \<open>The run queue as a list\<close>

interpretation cfs: rb_compare "PtCfsCompareRoutine thr" "\<lambda>t. VRuntime (thr t)" for thr
  by unfold_locales (auto simp: PtCfsCompareRoutine_def)

abbreviation vruntime :: "PROCESSOR \<Rightarrow> node \<Rightarrow> u64" where
  "vruntime s t \<equiv> VRuntime (Threads s t)"

text \<open>The tree holds the threads \<open>xs\<close>, in the order of their virtual runtimes.\<close>

definition cfs_queue :: "PROCESSOR \<Rightarrow> node list \<Rightarrow> bool" where
  "cfs_queue s xs \<longleftrightarrow> rb_tree (CfsTree (PtRunQueue s)) xs \<and> sorted (map (vruntime s) xs)"

lemma cfs_upd_sel [simp]:
  "Threads (upd_thread t f s) = (Threads s)(t := f (Threads s t))" "PtRunQueue (upd_thread t f s) = PtRunQueue s"
  "PtSystemIdleThread (upd_thread t f s) = PtSystemIdleThread s" "PrcbCurrentThread (upd_thread t f s) = PrcbCurrentThread s"
  "Cr3 (upd_thread t f s) = Cr3 s" "CurrentIrql (upd_thread t f s) = CurrentIrql s"
  "Threads (upd_queue g s) = Threads s" "PtRunQueue (upd_queue g s) = g (PtRunQueue s)"
  "PtSystemIdleThread (upd_queue g s) = PtSystemIdleThread s" "PrcbCurrentThread (upd_queue g s) = PrcbCurrentThread s"
  "Cr3 (upd_queue g s) = Cr3 s" "CurrentIrql (upd_queue g s) = CurrentIrql s"
  by (simp_all add: upd_thread_def upd_queue_def)

text \<open>Clearing the links of a node that is not in the tree.\<close>

lemma rb_tree_frame:
  assumes "rb_tree T xs" "Root T' = Root T" "Leftmost T' = Leftmost T" "\<And>a. a \<in> set xs \<Longrightarrow> nodes T' a = nodes T a"
  shows "rb_tree T' xs"
proof -
  obtain t where t: "rep T t" "rbt_ok t" "leftmost_ok T t" "names t = xs" using assms(1) by (auto simp: rb_tree_def)
  have "rep T' t" by (rule rep_frame [OF t(1) assms(2)]) (use assms(4) t(4) in auto)
  moreover have "leftmost_ok T' t" using t(3) assms(3) by (simp add: leftmost_ok_def)
  ultimately show ?thesis using t by (auto simp: rb_tree_def)
qed

definition enqueued :: "node \<Rightarrow> PROCESSOR \<Rightarrow> PROCESSOR \<Rightarrow> bool" where
  "enqueued t s s' \<longleftrightarrow> (\<exists>T. s' = s\<lparr>Threads := (Threads s)(t := (Threads s t)\<lparr>State := Ready\<rparr>),
     PtRunQueue := (PtRunQueue s)\<lparr>CfsTree := T, RunningTasks := RunningTasks (PtRunQueue s) + 1,
       TotalWeight := TotalWeight (PtRunQueue s) + ucast (Weight (Threads s t))\<rparr>\<rparr>)"

lemma enqueue_ok:
  assumes q: "cfs_queue s xs" and t: "t \<notin> set xs"
  shows "\<exists>s'. PtEnqueueThreadCfs (Some t) s = Some s' \<and> cfs_queue s' (insert_after (vruntime s) t xs) \<and> enqueued t s s'"
proof -
  let ?T = "CfsTree (PtRunQueue s)"
  let ?T1 = "?T\<lparr>nodes := (nodes ?T)(t := (nodes ?T t)\<lparr>Left := None, Right := None, Parent := None\<rparr>)\<rparr>"
  let ?thr = "(Threads s)(t := (Threads s t)\<lparr>State := Ready\<rparr>)"
  have v: "(\<lambda>a. VRuntime (?thr a)) = vruntime s" by (simp add: fun_eq_iff)
  have "rb_tree ?T1 xs"
    by (rule rb_tree_frame [of ?T]) (use q t in \<open>auto simp: cfs_queue_def\<close>)
  then obtain T where T: "RtlInsertElementRb (PtCfsCompareRoutine ?thr) t ?T1 = Some T"
      "rb_tree T (insert_after (vruntime s) t xs)"
    using cfs.insert_ok [of ?T1 xs t ?thr] q t unfolding v by (auto simp: cfs_queue_def)
  let ?s' = "s\<lparr>Threads := ?thr, PtRunQueue := (PtRunQueue s)\<lparr>CfsTree := T, RunningTasks := RunningTasks (PtRunQueue s) + 1,
       TotalWeight := TotalWeight (PtRunQueue s) + ucast (Weight (Threads s t))\<rparr>\<rparr>"
  have "PtEnqueueThreadCfs (Some t) s = Some ?s'"
    using T(1) by (simp add: PtEnqueueThreadCfs_def upd_thread_def upd_queue_def)
  moreover have "cfs_queue ?s' (insert_after (vruntime s) t xs)"
  proof -
    have v': "vruntime ?s' = vruntime s" by (simp add: fun_eq_iff)
    show ?thesis using T(2) insert_after_sorted [of "vruntime s" xs t] q unfolding cfs_queue_def v' by simp
  qed
  ultimately show ?thesis unfolding enqueued_def by blast
qed

lemma dequeue_ok:
  assumes q: "cfs_queue s xs" and t: "t \<in> set xs"
  shows "\<exists>s'. PtDequeueThreadCfs (Some t) s = Some s' \<and> cfs_queue s' (remove1 t xs) \<and> Threads s' = Threads s \<and>
    unat (RunningTasks (PtRunQueue s')) = unat (RunningTasks (PtRunQueue s)) - 1 \<and>
    unat (TotalWeight (PtRunQueue s')) = unat (TotalWeight (PtRunQueue s)) - unat (Weight (Threads s t))"
proof -
  let ?Q = "PtRunQueue s"
  obtain T where T: "RtlDeleteElementRb (Some t) (CfsTree ?Q) = Some T" "rb_tree T (remove1 t xs)"
    using delete_ok [of "CfsTree ?Q" xs t] q t by (auto simp: cfs_queue_def)
  obtain s' where s': "PtDequeueThreadCfs (Some t) s = Some s'" using T(1) by (simp add: PtDequeueThreadCfs_def Let_def)
  have e: "s' = s\<lparr>PtRunQueue := ?Q\<lparr>CfsTree := T,
      RunningTasks := (if RunningTasks ?Q > 0 then RunningTasks ?Q - 1 else RunningTasks ?Q),
      TotalWeight := (if ucast (TotalWeight ?Q) \<ge> Weight (Threads s t)
         then ucast ((ucast (TotalWeight ?Q) :: u64) - Weight (Threads s t)) else 0)\<rparr>\<rparr>"
    using s' T(1) by (auto simp: PtDequeueThreadCfs_def Let_def)
  have r: "unat (if RunningTasks ?Q > 0 then RunningTasks ?Q - 1 else RunningTasks ?Q) = unat (RunningTasks ?Q) - 1"
    by (auto simp: unat_minus_one word_gt_0)
  have w: "unat (if ucast (TotalWeight ?Q) \<ge> Weight (Threads s t)
         then ucast ((ucast (TotalWeight ?Q) :: u64) - Weight (Threads s t)) else 0 :: u32) =
      unat (TotalWeight ?Q) - unat (Weight (Threads s t))"
  proof -
    note u = unat_ucast_up [of "TotalWeight ?Q"]
    show ?thesis
    proof (cases "ucast (TotalWeight ?Q) \<ge> Weight (Threads s t)")
    case True
    have "unat ((ucast (TotalWeight ?Q) :: u64) - Weight (Threads s t)) = unat (TotalWeight ?Q) - unat (Weight (Threads s t))"
      using True by (simp add: unat_sub u)
    moreover have "unat (TotalWeight ?Q) < 2 ^ 32" using unat_lt_u32 [of "TotalWeight ?Q"] by simp
    ultimately show ?thesis using True by (simp add: unat_ucast_lt)
  next
    case False
    then have "unat (ucast (TotalWeight ?Q) :: u64) < unat (Weight (Threads s t))" by (simp add: word_less_nat_alt not_le)
    then show ?thesis using False by (simp add: u)
    qed
  qed
  have "sorted (map (vruntime s) (remove1 t xs))" using q by (auto simp: cfs_queue_def intro: sorted_map_remove1)
  then show ?thesis using s' T(2) e r w by (simp add: cfs_queue_def)
qed

section \<open>Choosing and switching\<close>

definition next_of :: "PROCESSOR \<Rightarrow> node list \<Rightarrow> node" where
  "next_of s xs = (case xs of [] \<Rightarrow> PtSystemIdleThread s | t # _ \<Rightarrow> t)"

lemma pick_ok:
  assumes q: "cfs_queue s xs"
  shows "PtPickNextThreadCfs s \<noteq> None"
    "xs = [] \<Longrightarrow> PtPickNextThreadCfs s = Some (None, upd_queue (\<lambda>q. q\<lparr>CurrentThread := None\<rparr>) s)"
    "xs = t # ys \<Longrightarrow> \<exists>T. rb_tree T ys \<and> PtPickNextThreadCfs s =
       Some (Some t, upd_queue (\<lambda>q. q\<lparr>CfsTree := T, CurrentThread := Some t\<rparr>) (upd_thread t (\<lambda>k. k\<lparr>State := Running\<rparr>) s))"
proof -
  have l: "RtlGetLeftmostNodeRb (CfsTree (PtRunQueue s)) = head xs"
    using q leftmost_get by (auto simp: cfs_queue_def)
  show e: "xs = [] \<Longrightarrow> PtPickNextThreadCfs s = Some (None, upd_queue (\<lambda>q. q\<lparr>CurrentThread := None\<rparr>) s)"
    using l by (simp add: PtPickNextThreadCfs_def head_def)
  show c: "xs = t # ys \<Longrightarrow> \<exists>T. rb_tree T ys \<and> PtPickNextThreadCfs s =
       Some (Some t, upd_queue (\<lambda>q. q\<lparr>CfsTree := T, CurrentThread := Some t\<rparr>) (upd_thread t (\<lambda>k. k\<lparr>State := Running\<rparr>) s))" for t ys
    using l q delete_ok [of "CfsTree (PtRunQueue s)" xs t] by (auto simp: PtPickNextThreadCfs_def head_def cfs_queue_def)
  show "PtPickNextThreadCfs s \<noteq> None" using e c by (cases xs) fastforce+
qed

lemma select_ok:
  assumes q: "cfs_queue s xs" and i: "PtSystemIdleThread s \<notin> set xs"
  shows "\<exists>T. PtSelectNextThread s = Some (next_of s xs, s\<lparr>
      Threads := (Threads s)(next_of s xs := (Threads s (next_of s xs))\<lparr>State := Running\<rparr>),
      PtRunQueue := (PtRunQueue s)\<lparr>CfsTree := T, CurrentThread := Some (next_of s xs)\<rparr>\<rparr>) \<and> rb_tree T (tl xs)"
proof (cases xs)
  case Nil
  then show ?thesis
    using pick_ok(2) [OF q] q
    by (intro exI [of _ "CfsTree (PtRunQueue s)"]) (simp add: PtSelectNextThread_def next_of_def upd_queue_def upd_thread_def cfs_queue_def Let_def)
next
  case (Cons t ys)
  obtain T where "rb_tree T ys" "PtPickNextThreadCfs s =
       Some (Some t, upd_queue (\<lambda>q. q\<lparr>CfsTree := T, CurrentThread := Some t\<rparr>) (upd_thread t (\<lambda>k. k\<lparr>State := Running\<rparr>) s))"
    using pick_ok(3) [OF q Cons] by blast
  then show ?thesis using Cons
    by (intro exI [of _ T]) (simp add: PtSelectNextThread_def next_of_def upd_queue_def upd_thread_def Let_def)
qed

text \<open>
  The states between two calls: the tree holds the ready threads, the current thread is the one that
  runs; the idle thread is not queued. Before a yield the current thread may have begun to wait.
\<close>

definition yield_ready :: "PROCESSOR \<Rightarrow> node list \<Rightarrow> bool" where
  "yield_ready s xs \<longleftrightarrow> cfs_queue s xs \<and> PtSystemIdleThread s \<notin> set xs \<and>
     State (Threads s (PtSystemIdleThread s)) = Running \<and>
     (\<exists>c. PrcbCurrentThread s = Some c \<and> c \<notin> set xs) \<and>
     (\<forall>t. t \<noteq> PtSystemIdleThread s \<longrightarrow> (t \<in> set xs \<longleftrightarrow> State (Threads s t) = Ready) \<and>
        (State (Threads s t) = Running \<longrightarrow> PrcbCurrentThread s = Some t))"

definition sched_inv :: "PROCESSOR \<Rightarrow> node list \<Rightarrow> bool" where
  "sched_inv s xs \<longleftrightarrow> yield_ready s xs \<and> CurrentThread (PtRunQueue s) = PrcbCurrentThread s \<and>
     (\<forall>t. t \<noteq> PtSystemIdleThread s \<longrightarrow> PrcbCurrentThread s = Some t \<longrightarrow> State (Threads s t) = Running)"

text \<open>What a yield of the thread \<open>c\<close> does.\<close>

definition goes_back :: "PROCESSOR \<Rightarrow> node \<Rightarrow> bool" where
  "goes_back s c \<longleftrightarrow> c \<noteq> PtSystemIdleThread s \<and> State (Threads s c) = Running"

definition queue_after :: "PROCESSOR \<Rightarrow> node \<Rightarrow> node list \<Rightarrow> node list" where
  "queue_after s c xs = (if goes_back s c then insert_after (vruntime s) c (tl xs) else tl xs)"

definition states_after :: "PROCESSOR \<Rightarrow> node \<Rightarrow> node list \<Rightarrow> node \<Rightarrow> KTHREAD_SCHED" where
  "states_after s c xs = (let thr = (Threads s)(next_of s xs := (Threads s (next_of s xs))\<lparr>State := Running\<rparr>)
     in if goes_back s c then thr(c := (thr c)\<lparr>State := Ready\<rparr>) else thr)"

definition cr3_after :: "PROCESSOR \<Rightarrow> node \<Rightarrow> node \<Rightarrow> nat option" where
  "cr3_after s c n = (if Process (Threads s n) = None then Cr3 s
     else if Process (Threads s c) \<noteq> Process (Threads s n) then Process (Threads s n) else Cr3 s)"

lemma switch_context_sel:
  "Threads (switch_context (Some c) n s) = Threads s" "PtRunQueue (switch_context (Some c) n s) = PtRunQueue s"
  "PtSystemIdleThread (switch_context (Some c) n s) = PtSystemIdleThread s"
  "PrcbCurrentThread (switch_context (Some c) n s) = Some n"
  "Cr3 (switch_context (Some c) n s) = cr3_after s c n"
  "CurrentIrql (switch_context (Some c) n s) = Irql (Threads s n)"
  by (auto simp: switch_context_def Let_def cr3_after_def)

lemma yield_ok:
  assumes y: "yield_ready s xs" and c: "PrcbCurrentThread s = Some c"
  shows "\<exists>s'. PtYieldThread s = Some s' \<and> Threads s' = states_after s c xs \<and> cfs_queue s' (queue_after s c xs) \<and>
    PtSystemIdleThread s' = PtSystemIdleThread s \<and> PrcbCurrentThread s' = Some (next_of s xs) \<and>
    CurrentThread (PtRunQueue s') = Some (next_of s xs) \<and>
    Cr3 s' = (if c = next_of s xs then Cr3 s else cr3_after s c (next_of s xs)) \<and>
    CurrentIrql s' = (if c = next_of s xs then CurrentIrql s else Irql (Threads s (next_of s xs))) \<and>
    RunningTasks (PtRunQueue s') = RunningTasks (PtRunQueue s) + (if goes_back s c then 1 else 0) \<and>
    TotalWeight (PtRunQueue s') = TotalWeight (PtRunQueue s) + (if goes_back s c then ucast (Weight (Threads s c)) else 0)"
proof -
  let ?n = "next_of s xs"
  have q: "cfs_queue s xs" "PtSystemIdleThread s \<notin> set xs" "c \<notin> set xs" using y c by (auto simp: yield_ready_def)
  obtain T where T: "PtSelectNextThread s = Some (?n, s\<lparr>Threads := (Threads s)(?n := (Threads s ?n)\<lparr>State := Running\<rparr>),
      PtRunQueue := (PtRunQueue s)\<lparr>CfsTree := T, CurrentThread := Some ?n\<rparr>\<rparr>)" "rb_tree T (tl xs)"
    using select_ok [OF q(1,2)] by blast
  let ?s1 = "s\<lparr>Threads := (Threads s)(?n := (Threads s ?n)\<lparr>State := Running\<rparr>),
      PtRunQueue := (PtRunQueue s)\<lparr>CfsTree := T, CurrentThread := Some ?n\<rparr>\<rparr>"
  have v1: "vruntime ?s1 = vruntime s" by (simp add: fun_eq_iff)
  have "sorted (map (vruntime s) (tl xs))" using q(1) by (cases xs) (auto simp: cfs_queue_def)
  then have q1: "cfs_queue ?s1 (tl xs)" using T(2) unfolding cfs_queue_def v1 by simp
  have ct: "c \<notin> set (tl xs)" using q(3) by (cases xs) auto
  have nc: "?n = c \<Longrightarrow> \<not> goes_back s c" using q(3) by (auto simp: next_of_def goes_back_def split: list.splits)
  have "\<exists>s2. (if c \<noteq> PtSystemIdleThread ?s1 \<and> State (Threads ?s1 c) = Running then PtEnqueueThreadCfs (Some c) ?s1 else Some ?s1) = Some s2 \<and>
      Threads s2 = states_after s c xs \<and> cfs_queue s2 (queue_after s c xs) \<and> PtSystemIdleThread s2 = PtSystemIdleThread s \<and>
      CurrentThread (PtRunQueue s2) = Some ?n \<and> Cr3 s2 = Cr3 s \<and> CurrentIrql s2 = CurrentIrql s \<and> PrcbCurrentThread s2 = Some c \<and>
      RunningTasks (PtRunQueue s2) = RunningTasks (PtRunQueue s) + (if goes_back s c then 1 else 0) \<and>
      TotalWeight (PtRunQueue s2) = TotalWeight (PtRunQueue s) + (if goes_back s c then ucast (Weight (Threads s c)) else 0)"
  proof (cases "goes_back s c")
    case True
    then have ne: "?n \<noteq> c" using nc by auto
    obtain s2 where s2: "PtEnqueueThreadCfs (Some c) ?s1 = Some s2" "cfs_queue s2 (insert_after (vruntime s) c (tl xs))" "enqueued c ?s1 s2"
      using enqueue_ok [OF q1 ct] unfolding v1 by blast
    show ?thesis
      by (rule exI [of _ s2]) (use True ne s2 c in \<open>auto simp: goes_back_def states_after_def queue_after_def enqueued_def\<close>)
  next
    case False
    have "\<not> (c \<noteq> PtSystemIdleThread ?s1 \<and> State (Threads ?s1 c) = Running)" (is "\<not> ?B")
    proof (cases "?n = c")
      case True
      then have "c = PtSystemIdleThread s" using q(3) by (auto simp: next_of_def split: list.splits)
      then show ?thesis by simp
    qed (use False in \<open>auto simp: goes_back_def\<close>)
    then have "(if ?B then PtEnqueueThreadCfs (Some c) ?s1 else Some ?s1) = Some ?s1" by (rule if_not_P)
    then show ?thesis
      by (rule_tac exI [of _ ?s1], rule_tac conjI) (use False q1 c in \<open>simp_all add: states_after_def queue_after_def\<close>)
  qed
  then obtain s2 where s2: "(if c \<noteq> PtSystemIdleThread ?s1 \<and> State (Threads ?s1 c) = Running then PtEnqueueThreadCfs (Some c) ?s1 else Some ?s1) = Some s2"
      "Threads s2 = states_after s c xs" "cfs_queue s2 (queue_after s c xs)" "PtSystemIdleThread s2 = PtSystemIdleThread s"
      "CurrentThread (PtRunQueue s2) = Some ?n" "Cr3 s2 = Cr3 s" "CurrentIrql s2 = CurrentIrql s" "PrcbCurrentThread s2 = Some c"
      "RunningTasks (PtRunQueue s2) = RunningTasks (PtRunQueue s) + (if goes_back s c then 1 else 0)"
      "TotalWeight (PtRunQueue s2) = TotalWeight (PtRunQueue s) + (if goes_back s c then ucast (Weight (Threads s c)) else 0)"
    by blast
  let ?s' = "if c \<noteq> ?n then switch_context (Some c) ?n s2 else s2"
  have "PtYieldThread s = Some ?s'"
    using T(1) s2(1) c by (simp add: PtYieldThread_def)
  moreover have pr: "Process (Threads s2 t) = Process (Threads s t)" "Irql (Threads s2 t) = Irql (Threads s t)" for t
    by (auto simp: s2(2) states_after_def Let_def)
  moreover have "cfs_queue ?s' (queue_after s c xs)" using s2(3) by (cases "c = ?n"; simp add: cfs_queue_def switch_context_sel)
  ultimately show ?thesis
    using s2 by (intro exI [of _ ?s']) (auto simp: switch_context_sel cr3_after_def pr)
qed

lemma yield_inv:
  assumes y: "yield_ready s xs" and c: "PrcbCurrentThread s = Some c" and s': "PtYieldThread s = Some s'"
  shows "sched_inv s' (queue_after s c xs)"
proof -
  let ?n = "next_of s xs"
  have f: "Threads s' = states_after s c xs" "cfs_queue s' (queue_after s c xs)" "PtSystemIdleThread s' = PtSystemIdleThread s"
      "PrcbCurrentThread s' = Some ?n" "CurrentThread (PtRunQueue s') = Some ?n"
    using yield_ok [OF y c] s' by auto
  have q: "PtSystemIdleThread s \<notin> set xs" "c \<notin> set xs" "distinct xs"
      "\<And>t. t \<noteq> PtSystemIdleThread s \<Longrightarrow> t \<in> set xs \<longleftrightarrow> State (Threads s t) = Ready"
      "\<And>t. t \<noteq> PtSystemIdleThread s \<Longrightarrow> State (Threads s t) = Running \<Longrightarrow> c = t"
    using y c rb_tree_distinct by (auto simp: yield_ready_def cfs_queue_def)
  have n: "?n = PtSystemIdleThread s \<and> xs = [] \<or> xs = ?n # tl xs" by (auto simp: next_of_def split: list.splits)
  have set: "set (queue_after s c xs) = (if goes_back s c then insert c (set (tl xs)) else set (tl xs))"
    by (simp add: queue_after_def)
  have "?n \<notin> set (tl xs)" using n q(1,3) by (metis distinct.simps(2) list.sel(2) list.set_intros(2) empty_iff list.set(1))
  moreover have "c \<notin> set (tl xs)" using q(2) by (cases xs) auto
  moreover have "goes_back s c \<Longrightarrow> c \<noteq> ?n" using n q(2) by (auto simp: goes_back_def) (metis list.set_intros(1))
  ultimately have cur: "?n \<notin> set (queue_after s c xs)" by (auto simp: set)
  have idle: "PtSystemIdleThread s \<notin> set (queue_after s c xs)" using n q(1) unfolding set by (cases xs) (auto simp: goes_back_def)
  have st: "(t \<in> set (queue_after s c xs) \<longleftrightarrow> State (states_after s c xs t) = Ready) \<and>
      (State (states_after s c xs t) = Running \<longleftrightarrow> ?n = t)" if t: "t \<noteq> PtSystemIdleThread s" for t
  proof -
    consider "t = ?n" | "t = c" "t \<noteq> ?n" | "t \<noteq> c" "t \<noteq> ?n" by blast
    then show ?thesis
    proof cases
      case 1
      have "\<not> (goes_back s c \<and> t = c)" using \<open>goes_back s c \<Longrightarrow> c \<noteq> ?n\<close> 1 by auto
      then show ?thesis using cur 1 by (auto simp: states_after_def Let_def)
    next
      case 2
      then show ?thesis using q(2) q(4) [of c] t \<open>c \<notin> set (tl xs)\<close> by (auto simp: states_after_def Let_def set goes_back_def)
    next
      case 3
      have "t \<in> set (tl xs) \<longleftrightarrow> t \<in> set xs" using n 3(2) by (metis list.sel(2) set_ConsD list.set_intros(2))
      then show ?thesis using q(4) [OF t] q(5) [OF t] 3 by (auto simp: states_after_def Let_def set goes_back_def)
    qed
  qed
  have "State (states_after s c xs (PtSystemIdleThread s)) = Running"
    using y by (auto simp: states_after_def Let_def goes_back_def yield_ready_def)
  then show ?thesis
    using f cur idle st by (auto simp: sched_inv_def yield_ready_def)
qed

section \<open>Ticks, wake-ups and new threads\<close>

definition charge :: "u64 \<Rightarrow> node \<Rightarrow> PROCESSOR \<Rightarrow> PROCESSOR" where
  "charge d c s = (if Weight (Threads s c) \<noteq> 0
     then upd_thread c (\<lambda>k. k\<lparr>VRuntime := VRuntime k + drop_bit (weight_shift (Weight k) 0) d\<rparr>) s else s)"

lemma cfs_queue_frame:
  assumes "cfs_queue s xs" "CfsTree (PtRunQueue s') = CfsTree (PtRunQueue s)" "\<And>t. t \<in> set xs \<Longrightarrow> vruntime s' t = vruntime s t"
  shows "cfs_queue s' xs"
proof -
  have m: "map (vruntime s') xs = map (vruntime s) xs" using assms(3) by simp
  show ?thesis using assms(1) unfolding cfs_queue_def assms(2) m .
qed

lemma yield_readyD:
  assumes "yield_ready s xs"
  shows "cfs_queue s xs" "PtSystemIdleThread s \<notin> set xs" "State (Threads s (PtSystemIdleThread s)) = Running"
    "\<exists>c. PrcbCurrentThread s = Some c" "PrcbCurrentThread s = Some c \<Longrightarrow> c \<notin> set xs"
    "t \<noteq> PtSystemIdleThread s \<Longrightarrow> t \<in> set xs \<longleftrightarrow> State (Threads s t) = Ready"
    "t \<noteq> PtSystemIdleThread s \<Longrightarrow> State (Threads s t) = Running \<Longrightarrow> PrcbCurrentThread s = Some t"
  using assms unfolding yield_ready_def by (blast, blast, blast, blast, force, blast, blast)

lemma sched_invD:
  assumes "sched_inv s xs"
  shows "yield_ready s xs" "CurrentThread (PtRunQueue s) = PrcbCurrentThread s"
    "PrcbCurrentThread s = Some t \<Longrightarrow> State (Threads s t) = Running"
  using assms yield_readyD(3) [of s xs] unfolding sched_inv_def by (blast, blast, metis)

lemma not_ready: "yield_ready s xs \<Longrightarrow> State (Threads s t) \<noteq> Ready \<Longrightarrow> t \<notin> set xs"
  using yield_readyD(2,6) by metis

lemma yield_ready_frame:
  assumes "yield_ready s xs" "cfs_queue s' xs" "PtSystemIdleThread s' = PtSystemIdleThread s"
    "PrcbCurrentThread s' = PrcbCurrentThread s" "\<And>t. State (Threads s' t) = State (Threads s t)"
  shows "yield_ready s' xs"
  using assms(1,2) unfolding yield_ready_def assms(3-5) by blast

lemma sched_inv_frame:
  assumes "sched_inv s xs" "cfs_queue s' xs" "PtSystemIdleThread s' = PtSystemIdleThread s"
    "PrcbCurrentThread s' = PrcbCurrentThread s" "\<And>t. State (Threads s' t) = State (Threads s t)"
    "CurrentThread (PtRunQueue s') = CurrentThread (PtRunQueue s)"
  shows "sched_inv s' xs"
  using assms(1) yield_ready_frame [OF sched_invD(1) [OF assms(1)] assms(2-5)] unfolding sched_inv_def assms(3-6) by blast

lemma charge_sel:
  "State (Threads (charge d c s) t) = State (Threads s t)" "PtRunQueue (charge d c s) = PtRunQueue s"
  "PtSystemIdleThread (charge d c s) = PtSystemIdleThread s" "PrcbCurrentThread (charge d c s) = PrcbCurrentThread s"
  "t \<noteq> c \<Longrightarrow> Threads (charge d c s) t = Threads s t"
  by (auto simp: charge_def)

lemma charge_queue: "cfs_queue s xs \<Longrightarrow> c \<notin> set xs \<Longrightarrow> cfs_queue (charge d c s) xs"
  by (rule cfs_queue_frame [of s xs], assumption, simp add: charge_sel, metis charge_sel(5))

lemma charge_inv:
  assumes "sched_inv s xs" "PrcbCurrentThread s = Some c"
  shows "sched_inv (charge d c s) xs"
proof -
  note y = sched_invD(1) [OF assms(1)]
  have "cfs_queue (charge d c s) xs" using yield_readyD(1,5) [OF y] assms(2) by (intro charge_queue) auto
  then show ?thesis by (rule sched_inv_frame [OF assms(1)]) (simp_all add: charge_sel(1-4))
qed

lemma charge_ready:
  assumes y: "yield_ready s xs" and c: "PrcbCurrentThread s = Some c"
  shows "yield_ready (charge d c s) xs"
proof -
  have "cfs_queue (charge d c s) xs" using yield_readyD(1,5) [OF y] c by (intro charge_queue) auto
  then show ?thesis by (rule yield_ready_frame [OF y]) (simp_all add: charge_sel(1-4))
qed

lemma tick_eq:
  assumes y: "yield_ready s xs" and c: "PrcbCurrentThread s = Some c"
  shows "PtSchedulerTick d s = (if (\<exists>t ys. xs = t # ys \<and> vruntime s t < vruntime (charge d c s) c)
     then PtYieldThread (charge d c s) else Some (charge d c s))"
proof -
  have q: "cfs_queue (charge d c s) xs" "c \<notin> set xs"
    using yield_readyD(1) [OF charge_ready [OF y c]] yield_readyD(5) [OF y c] by blast+
  have l: "RtlGetLeftmostNodeRb (CfsTree (PtRunQueue (charge d c s))) = head xs"
    using q(1) leftmost_get by (auto simp: cfs_queue_def)
  have "PtSchedulerTick d s = (case head xs of None \<Rightarrow> Some (charge d c s)
      | Some t \<Rightarrow> if vruntime (charge d c s) t < vruntime (charge d c s) c then PtYieldThread (charge d c s) else Some (charge d c s))"
    using c by (simp add: PtSchedulerTick_def Let_def charge_def [symmetric] l split: option.split)
  also have "\<dots> = (if (\<exists>t ys. xs = t # ys \<and> vruntime s t < vruntime (charge d c s) c)
     then PtYieldThread (charge d c s) else Some (charge d c s))"
    using q(2) by (cases xs) (auto simp: head_def charge_sel)
  finally show ?thesis .
qed

lemma sched_current: "sched_inv s xs \<Longrightarrow> \<exists>c. PrcbCurrentThread s = Some c"
  using sched_invD(1) yield_readyD(4) by blast

lemmas sched_ready = sched_invD(1)

lemma yield_least:
  assumes y: "yield_ready s xs" and c: "PrcbCurrentThread s = Some c" and s': "PtYieldThread s = Some s'"
    and lt: "xs = t # ys" "vruntime s t < vruntime s c"
  shows "PrcbCurrentThread s' = Some t \<and> (\<forall>u\<in>set (queue_after s c xs). vruntime s' t \<le> vruntime s' u)"
proof -
  have v: "vruntime s' u = vruntime s u" and n: "PrcbCurrentThread s' = Some t" for u
    using yield_ok [OF y c] s' lt(1) by (auto simp: states_after_def Let_def next_of_def)
  have "\<forall>u\<in>set ys. vruntime s t \<le> vruntime s u" using yield_readyD(1) [OF y] lt(1) by (simp add: cfs_queue_def)
  then show ?thesis using n lt by (auto simp: queue_after_def v)
qed

text \<open>The invariant between the calls: that of a yield, and the run queue names the current thread.\<close>

definition cpu_inv :: "PROCESSOR \<Rightarrow> node list \<Rightarrow> bool" where
  "cpu_inv s xs \<longleftrightarrow> yield_ready s xs \<and> CurrentThread (PtRunQueue s) = PrcbCurrentThread s"

lemma cpu_invD: "cpu_inv s xs \<Longrightarrow> yield_ready s xs" "cpu_inv s xs \<Longrightarrow> CurrentThread (PtRunQueue s) = PrcbCurrentThread s"
  by (simp_all add: cpu_inv_def)

lemma sched_cpu: "sched_inv s xs \<Longrightarrow> cpu_inv s xs"
  by (simp add: cpu_inv_def sched_inv_def)

lemma cpu_current: "cpu_inv s xs \<Longrightarrow> \<exists>c. PrcbCurrentThread s = Some c"
  using cpu_invD(1) yield_readyD(4) by blast

lemma tick_ok:
  assumes i: "cpu_inv s xs"
  shows "\<exists>s' ys c. PtSchedulerTick d s = Some s' \<and> cpu_inv s' ys \<and> PrcbCurrentThread s' = Some c \<and>
    (\<forall>t\<in>set ys. vruntime s' c \<le> vruntime s' t) \<and>
    (State (Threads s' c) = Running \<or> PrcbCurrentThread s = Some c \<and> State (Threads s c) \<noteq> Running)"
proof -
  obtain c where c: "PrcbCurrentThread s = Some c" using cpu_current [OF i] by blast
  let ?s = "charge d c s"
  note ready = cpu_invD(1) [OF i]
  have y: "yield_ready ?s xs" "PrcbCurrentThread ?s = Some c" "cpu_inv ?s xs"
    using charge_ready [OF ready c, of d] c cpu_invD(2) [OF i] by (simp_all add: charge_sel cpu_inv_def)
  show ?thesis
  proof (cases "\<exists>t ys. xs = t # ys \<and> vruntime s t < vruntime ?s c")
    case True
    then obtain t ys where t: "xs = t # ys" "vruntime s t < vruntime ?s c" by blast
    obtain s' where s': "PtYieldThread ?s = Some s'" "PrcbCurrentThread s' = Some t"
      using yield_ok [OF y(1,2)] t(1) by (auto simp: next_of_def)
    have "t \<noteq> c" using yield_readyD(5) [OF ready c] t(1) by auto
    then have lt: "vruntime ?s t < vruntime ?s c" using t(2) by (simp add: charge_sel)
    note inv = yield_inv [OF y(1,2) s'(1)]
    have "PtSchedulerTick d s = Some s'" using tick_eq [OF ready c, of d] True s'(1) by auto
    moreover have "\<forall>u\<in>set (queue_after ?s c xs). vruntime s' t \<le> vruntime s' u"
      using yield_least [OF y(1,2) s'(1) t(1) lt] s'(2) by auto
    ultimately show ?thesis
      using sched_cpu [OF inv] sched_invD(3) [OF inv s'(2)] s'(2)
      by (intro exI [of _ s'] exI [of _ "queue_after ?s c xs"] exI [of _ t]) blast
  next
    case False
    have "\<forall>t\<in>set xs. vruntime ?s c \<le> vruntime ?s t"
    proof
      fix t assume t: "t \<in> set xs"
      then obtain u us where u: "xs = u # us" by (cases xs) auto
      have "vruntime ?s u \<le> vruntime ?s t" using yield_readyD(1) [OF y(1)] u t by (auto simp: cfs_queue_def)
      moreover have "u \<noteq> c" using yield_readyD(5) [OF ready c] u by auto
      then have "vruntime ?s c \<le> vruntime ?s u" using False u by (auto simp: charge_sel not_less)
      ultimately show "vruntime ?s c \<le> vruntime ?s t" by simp
    qed
    moreover have "PtSchedulerTick d s = Some ?s" using tick_eq [OF ready c, of d] False by auto
    ultimately show ?thesis using y(2,3) c
      by (intro exI [of _ ?s] exI [of _ xs] exI [of _ c]) (simp add: charge_sel)
  qed
qed

lemma enqueued_sel:
  assumes "enqueued t s s'"
  shows "Threads s' = (Threads s)(t := (Threads s t)\<lparr>State := Ready\<rparr>)" "PtSystemIdleThread s' = PtSystemIdleThread s"
    "PrcbCurrentThread s' = PrcbCurrentThread s" "CurrentThread (PtRunQueue s') = CurrentThread (PtRunQueue s)"
  using assms by (auto simp: enqueued_def)

lemma enqueue_inv:
  assumes q: "cfs_queue s1 xs" and i: "yield_ready s xs" and t: "t \<notin> set xs" "t \<noteq> PtSystemIdleThread s" "PrcbCurrentThread s \<noteq> Some t"
    and s1: "PtSystemIdleThread s1 = PtSystemIdleThread s" "PrcbCurrentThread s1 = PrcbCurrentThread s"
      "CurrentThread (PtRunQueue s1) = CurrentThread (PtRunQueue s)" "\<And>u. u \<noteq> t \<Longrightarrow> Threads s1 u = Threads s u"
  shows "\<exists>s'. PtEnqueueThreadCfs (Some t) s1 = Some s' \<and> yield_ready s' (insert_after (vruntime s1) t xs) \<and> enqueued t s1 s'"
proof -
  obtain s' where s': "PtEnqueueThreadCfs (Some t) s1 = Some s'" "cfs_queue s' (insert_after (vruntime s1) t xs)" "enqueued t s1 s'"
    using enqueue_ok [OF q t(1)] by blast
  have "yield_ready s' (insert_after (vruntime s1) t xs)"
    using i t s1 s'(2) by (auto simp: yield_ready_def enqueued_sel [OF s'(3)])
  then show ?thesis using s' by blast
qed

lemma wake_ok:
  assumes i: "yield_ready s xs"
  shows "\<exists>s'. PtWakeThreadCfs (Some t) s = Some (State (Threads s t) = Waiting, s') \<and>
    (if State (Threads s t) = Waiting
     then cfs_queue s' (insert_after (vruntime s) t xs) \<and> enqueued t s s' \<and>
       (PrcbCurrentThread s \<noteq> Some t \<longrightarrow> yield_ready s' (insert_after (vruntime s) t xs))
     else s' = s)"
proof (cases "State (Threads s t) = Waiting")
  case False
  then show ?thesis by (simp add: PtWakeThreadCfs_def)
next
  case True
  have t: "t \<noteq> PtSystemIdleThread s" "t \<notin> set xs" using yield_readyD(3) [OF i] not_ready [OF i, of t] True by auto
  let ?s1 = "upd_thread t (\<lambda>k. k\<lparr>State := Ready\<rparr>) s"
  have v: "vruntime ?s1 = vruntime s" by (simp add: fun_eq_iff)
  have q: "cfs_queue ?s1 xs" using yield_readyD(1) [OF i] by (rule cfs_queue_frame) auto
  have en: "enqueued t ?s1 s' \<longleftrightarrow> enqueued t s s'" for s' by (simp add: enqueued_def upd_thread_def)
  obtain s' where s': "PtEnqueueThreadCfs (Some t) ?s1 = Some s'" "cfs_queue s' (insert_after (vruntime s) t xs)" "enqueued t s s'"
    using enqueue_ok [OF q t(2)] unfolding v en by blast
  have "yield_ready s' (insert_after (vruntime s) t xs)" if c: "PrcbCurrentThread s \<noteq> Some t"
    using enqueue_inv [OF q i t(2,1) c] s'(1) v by auto
  then show ?thesis using s' True by (auto simp: PtWakeThreadCfs_def)
qed

lemma start_ok:
  assumes i: "yield_ready s xs" and t: "t \<notin> set xs" "t \<noteq> PtSystemIdleThread s" "PrcbCurrentThread s \<noteq> Some t"
  shows "\<exists>s' (key :: node \<Rightarrow> u64). start_thread t p b s = Some s' \<and> yield_ready s' (insert_after key t xs) \<and>
    PtSystemIdleThread s' = PtSystemIdleThread s \<and> CurrentThread (PtRunQueue s') = CurrentThread (PtRunQueue s) \<and>
    PrcbCurrentThread s' = PrcbCurrentThread s \<and> (\<forall>u. u \<noteq> t \<longrightarrow> Threads s' u = Threads s u) \<and>
    Threads s' t = \<lparr>VRuntime = 0, Weight = 1024, State = Ready, WaitStatus = 0, Irql = 0, Process = Some p, Priority = b\<rparr>"
proof -
  define s1 where "s1 = s\<lparr>PtRunQueue := (PtRunQueue s)\<lparr>CfsTree := (CfsTree (PtRunQueue s))\<lparr>
      nodes := (nodes (CfsTree (PtRunQueue s)))(t := \<lparr>Left = None, Right = None, Parent = None, Balance = 0\<rparr>)\<rparr>\<rparr>,
      Threads := (Threads s)(t := \<lparr>VRuntime = 0, Weight = 1024, State = Initialized, WaitStatus = 0,
      Irql = 0, Process = Some p, Priority = b\<rparr>)\<rparr>"
  have st: "start_thread t p b s = PtEnqueueThreadCfs (Some t) s1"
    by (simp add: start_thread_def s1_def Let_def upd_thread_def upd_queue_def)
  have "rb_tree (CfsTree (PtRunQueue s1)) xs"
    by (rule rb_tree_frame [of "CfsTree (PtRunQueue s)"]) (use i t in \<open>auto simp: s1_def yield_ready_def cfs_queue_def\<close>)
  moreover have m: "map (vruntime s1) xs = map (vruntime s) xs" using t(1) by (auto simp: s1_def)
  ultimately have q: "cfs_queue s1 xs" using i unfolding cfs_queue_def m yield_ready_def by blast
  obtain s' where s': "PtEnqueueThreadCfs (Some t) s1 = Some s'" "yield_ready s' (insert_after (vruntime s1) t xs)" "enqueued t s1 s'"
    using enqueue_inv [OF q i t] by (auto simp: s1_def)
  show ?thesis
    by (rule exI [of _ s'], rule exI [of _ "vruntime s1"])
      (use st s' enqueued_sel [OF s'(3)] in \<open>auto simp: s1_def\<close>)
qed

lemma cfs_init_inv:
  assumes "\<And>t. t \<noteq> PtSystemIdleThread s \<Longrightarrow> State (Threads s t) \<noteq> Ready \<and> State (Threads s t) \<noteq> Running"
  shows "sched_inv (PtInitializeRunQueues s) []"
proof -
  have "rb_tree (CfsTree (PtRunQueue (PtInitializeRunQueues s))) []"
    using init_ok by (rule rb_tree_frame) (simp_all add: PtInitializeRunQueues_def Let_def RtlInitializeRbTree_def)
  then show ?thesis
    using assms by (auto simp: sched_inv_def yield_ready_def cfs_queue_def PtInitializeRunQueues_def Let_def)
qed

section \<open>All runs\<close>

text \<open>
  The steps of the processor: a timer tick, a yield, the current thread begins to wait or to end (\<open>wait.c\<close> sets its
  state before it yields, and ticks, wake-ups of other threads, new threads and changes of priority can fall between;
  \<open>PtpExitThread\<close> sets it with the interrupts off), a wake-up, a new thread, a change of priority. Left out is a wake-up of a thread that
  has begun to wait and has not yet yielded: it puts the thread that still runs into the tree, where the next tick
  changes its runtime, and the yield finds it \<open>Running\<close> and queues it again.
\<close>

inductive cfs_step :: "PROCESSOR \<Rightarrow> PROCESSOR \<Rightarrow> bool" where
  step_tick: "PtSchedulerTick d s = Some s' \<Longrightarrow> cfs_step s s'"
| step_yield: "PtYieldThread s = Some s' \<Longrightarrow> cfs_step s s'"
| step_block: "PrcbCurrentThread s = Some c \<Longrightarrow> c \<noteq> PtSystemIdleThread s \<Longrightarrow> State (Threads s c) = Running \<Longrightarrow>
    st \<in> {Waiting, Terminated} \<Longrightarrow> cfs_step s (upd_thread c (\<lambda>k. k\<lparr>State := st\<rparr>) s)"
| step_wake: "PrcbCurrentThread s \<noteq> Some t \<or> State (Threads s t) \<noteq> Waiting \<Longrightarrow>
    PtWakeThreadEx t status s = Some (r, s') \<Longrightarrow> cfs_step s s'"
| step_delay: "PrcbCurrentThread s \<noteq> Some t \<or> State (Threads s t) \<noteq> Waiting \<Longrightarrow>
    PtpDelayExecutionDpcRoutine (Some t) s = Some s' \<Longrightarrow> cfs_step s s'"
| step_start: "PrcbCurrentThread s \<noteq> Some t \<Longrightarrow> t \<noteq> PtSystemIdleThread s \<Longrightarrow>
    State (Threads s t) \<in> {Initialized, Terminated} \<Longrightarrow> start_thread t p b s = Some s' \<Longrightarrow> cfs_step s s'"
| step_priority: "PtSetThreadPriority (Some t) b s = (r, s') \<Longrightarrow> cfs_step s s'"

inductive cfs_reachable :: "PROCESSOR \<Rightarrow> bool" where
  cfs_init: "(\<And>t. t \<noteq> PtSystemIdleThread s \<Longrightarrow> State (Threads s t) = Initialized) \<Longrightarrow>
    cfs_reachable (PtInitializeRunQueues s)"
| cfs_next: "cfs_reachable s \<Longrightarrow> cfs_step s s' \<Longrightarrow> cfs_reachable s'"

lemma cpu_inv_same:
  assumes "cpu_inv s xs" "PtRunQueue s' = PtRunQueue s" "PtSystemIdleThread s' = PtSystemIdleThread s"
    "PrcbCurrentThread s' = PrcbCurrentThread s" "\<And>t. State (Threads s' t) = State (Threads s t)"
    "\<And>t. vruntime s' t = vruntime s t"
  shows "cpu_inv s' xs"
proof -
  note y = cpu_invD(1) [OF assms(1)]
  have "cfs_queue s' xs" using yield_readyD(1) [OF y] by (rule cfs_queue_frame) (simp_all add: assms(2,6))
  then show ?thesis
    using yield_ready_frame [OF y _ assms(3-5)] cpu_invD(2) [OF assms(1)] assms(2,4) by (simp add: cpu_inv_def)
qed

lemma block_ready:
  assumes i: "cpu_inv s xs" and c: "PrcbCurrentThread s = Some c" "c \<noteq> PtSystemIdleThread s" "st \<in> {Waiting, Terminated}"
  shows "cpu_inv (upd_thread c (\<lambda>k. k\<lparr>State := st\<rparr>) s) xs"
proof -
  note y = cpu_invD(1) [OF i]
  have "cfs_queue (upd_thread c (\<lambda>k. k\<lparr>State := st\<rparr>) s) xs"
    using yield_readyD(1) [OF y] by (rule cfs_queue_frame) auto
  then have "yield_ready (upd_thread c (\<lambda>k. k\<lparr>State := st\<rparr>) s) xs"
    using y c(1,2,3) yield_readyD(5) [OF y c(1)] unfolding yield_ready_def by auto
  then show ?thesis using cpu_invD(2) [OF i] by (simp add: cpu_inv_def)
qed

lemma wake_inv:
  assumes i: "cpu_inv s xs" and w: "PtWakeThreadCfs (Some t) s = Some (r, s')"
    and c: "PrcbCurrentThread s \<noteq> Some t \<or> State (Threads s t) \<noteq> Waiting"
  shows "\<exists>ys. cpu_inv s' ys"
proof (cases "State (Threads s t) = Waiting")
  case True
  then have "enqueued t s s'" "yield_ready s' (insert_after (vruntime s) t xs)"
    using wake_ok [OF cpu_invD(1) [OF i], of t] w c by auto
  then show ?thesis using cpu_invD(2) [OF i] by (auto simp: cpu_inv_def enqueued_sel)
next
  case False
  then show ?thesis using wake_ok [OF cpu_invD(1) [OF i], of t] w i by auto
qed

lemma cfs_step_inv:
  assumes "cfs_step s s'" "cpu_inv s xs"
  shows "\<exists>ys. cpu_inv s' ys"
  using assms
proof (induction rule: cfs_step.induct)
  case (step_tick d s s')
  then show ?case using tick_ok [of s xs d] by auto
next
  case (step_yield s s')
  obtain c where "PrcbCurrentThread s = Some c" using cpu_current [OF step_yield.prems] by blast
  then show ?case using yield_inv [OF cpu_invD(1) [OF step_yield.prems]] sched_cpu step_yield.hyps by blast
next
  case (step_block s c st)
  then show ?case using block_ready by blast
next
  case (step_wake s t status r s')
  let ?s = "upd_thread t (\<lambda>k. k\<lparr>WaitStatus := status\<rparr>) s"
  have "cpu_inv ?s xs" by (rule cpu_inv_same [OF step_wake.prems]) auto
  then show ?case using wake_inv [of ?s xs t r s'] step_wake.hyps by (simp add: PtWakeThreadEx_def)
next
  case (step_delay s t s')
  let ?s = "upd_thread t (\<lambda>k. k\<lparr>WaitStatus := STATUS_TIMEOUT\<rparr>) s"
  have "cpu_inv ?s xs" by (rule cpu_inv_same [OF step_delay.prems]) auto
  then show ?case
    using wake_inv [of ?s xs t _ s'] step_delay.hyps step_delay.prems by (auto simp: PtpDelayExecutionDpcRoutine_def split: if_splits)
next
  case (step_start s t p b s')
  note y = cpu_invD(1) [OF step_start.prems]
  have "t \<notin> set xs" using not_ready [OF y, of t] step_start.hyps(3) by auto
  then show ?case
    using start_ok [OF y _ step_start.hyps(2,1), of p b] step_start.hyps(4) cpu_invD(2) [OF step_start.prems]
    by (auto simp: cpu_inv_def)
next
  case (step_priority t b s r s')
  have "cpu_inv s' xs"
    by (rule cpu_inv_same [OF step_priority.prems]) (use step_priority.hyps in \<open>auto simp: PtSetThreadPriority_def Let_def\<close>)
  then show ?case by blast
qed

lemma cfs_reachable_inv: "cfs_reachable s \<Longrightarrow> \<exists>xs. cpu_inv s xs"
proof (induction rule: cfs_reachable.induct)
  case (cfs_init s)
  then show ?case using sched_cpu [OF cfs_init_inv [of s]] by auto
next
  case (cfs_next s s')
  then show ?case using cfs_step_inv by blast
qed

section \<open>The scheduler implements the switch of the waits\<close>

text \<open>
  \<open>KsWait\<close> lets any queued thread be chosen (\<open>switch_to\<close>). The run queue here refines it: the idle thread is
  \<open>None\<close> there, and its run queue holds the threads \<open>xs\<close> the tree of the processor holds.
\<close>

definition sched_rel :: "PROCESSOR \<Rightarrow> node list \<Rightarrow> DISPATCHER \<Rightarrow> bool" where
  "sched_rel s xs d \<longleftrightarrow> cfs_queue s xs \<and> distinct (RunQueue d) \<and> set (RunQueue d) = set xs \<and>
     Current d = (if PrcbCurrentThread s = Some (PtSystemIdleThread s) then None else PrcbCurrentThread s) \<and>
     (\<forall>t. t \<noteq> PtSystemIdleThread s \<longrightarrow> ThreadState (Thr d t) = State (Threads s t))"

lemma sched_relD:
  assumes "sched_rel s xs d"
  shows "distinct (RunQueue d)" "set (RunQueue d) = set xs"
    "Current d = (if PrcbCurrentThread s = Some (PtSystemIdleThread s) then None else PrcbCurrentThread s)"
    "t \<noteq> PtSystemIdleThread s \<Longrightarrow> ThreadState (Thr d t) = State (Threads s t)"
  using assms unfolding sched_rel_def by auto

lemma yield_refines:
  assumes y: "yield_ready s xs" and c: "PrcbCurrentThread s = Some c" and R: "sched_rel s xs d"
    and s': "PtYieldThread s = Some s'"
  defines "n \<equiv> (case xs of [] \<Rightarrow> None | t # _ \<Rightarrow> Some t)"
  shows "next_thread d n \<and> sched_rel s' (queue_after s c xs) (switch_to d n)"
proof -
  note Y = yield_readyD [OF y] and R' = sched_relD [OF R]
  have q: "c \<notin> set xs" "distinct xs" using Y(1) Y(5) [OF c] rb_tree_distinct by (auto simp: cfs_queue_def)
  have f: "Threads s' = states_after s c xs" "PtSystemIdleThread s' = PtSystemIdleThread s" "PrcbCurrentThread s' = Some (next_of s xs)"
      "cfs_queue s' (queue_after s c xs)"
    using yield_ok [OF y c] s' by auto
  have nx: "next_thread d n" using R'(2) by (auto simp: n_def next_thread_def split: list.splits)
  have gb: "goes_back s c \<longleftrightarrow> Current d = Some c \<and> ThreadState (Thr d c) = Running"
    using R'(3) R'(4) [of c] c by (auto simp: goes_back_def)
  have cur: "Current d = Some c \<or> Current d = None" "Current d = None \<Longrightarrow> c = PtSystemIdleThread s"
    using R'(3) c by (auto split: if_splits)
  show ?thesis
  proof (cases xs)
    case Nil
    then have n: "n = None" "next_of s xs = PtSystemIdleThread s" "RunQueue d = []" using R'(2) by (auto simp: n_def next_of_def)
    have st: "ThreadState (Thr (switch_to d None) t) = State (states_after s c xs t)" if "t \<noteq> PtSystemIdleThread s" for t
      using R'(4) [OF that] that gb cur n(2) by (auto simp: states_after_def Let_def switch_to_def split: option.splits)
    have "distinct (RunQueue (switch_to d None))" "set (RunQueue (switch_to d None)) = set (queue_after s c xs)"
      using gb cur n(3) Nil by (auto simp: switch_to_def queue_after_def Let_def split: option.splits)
    then show ?thesis using nx n f st by (simp add: sched_rel_def switch_to_sel)
  next
    case (Cons t ys)
    then have n: "n = Some t" "next_of s xs = t" by (auto simp: n_def next_of_def)
    have tc: "t \<noteq> c" "t \<noteq> PtSystemIdleThread s" "c \<notin> set ys" "t \<notin> set ys" using Cons q Y(2) by auto
    have rq: "distinct (remove1 t (RunQueue d))" "set (remove1 t (RunQueue d)) = set ys"
      using R'(1,2) Cons tc(4) by (simp_all add: distinct_remove1 set_remove1_eq)
    have sw: "(u \<noteq> PtSystemIdleThread s \<longrightarrow> ThreadState (Thr (switch_to d (Some t)) u) = State (states_after s c xs u)) \<and>
        distinct (RunQueue (switch_to d (Some t))) \<and> set (RunQueue (switch_to d (Some t))) = set (queue_after s c xs)" for u
    proof (cases "Current d")
      case None
      then have "\<not> goes_back s c" using gb by simp
      then show ?thesis
        using None rq R'(4) [of u] Cons n(2) by (simp add: switch_to_first states_after_def queue_after_def)
    next
      case (Some a)
      then have a: "Current d = Some c" "a = c" "c \<noteq> PtSystemIdleThread s" using cur(1) R'(3) by (auto split: if_splits)
      have cs: "ThreadState (Thr d c) = State (Threads s c)" using R'(4) a(3) by blast
      have "goes_back s c \<longleftrightarrow> State (Threads s c) = Running" using a(3) by (simp add: goes_back_def)
      then show ?thesis
        using rq R'(4) [of u] Cons n(2) tc cs
        by (simp add: switch_to_Some [OF tc(1) [symmetric] a(1)] states_after_def Let_def queue_after_def)
    qed
    then show ?thesis using nx n f tc by (simp add: sched_rel_def switch_to_sel)
  qed
qed

lemma wake_refines:
  assumes y: "yield_ready s xs" and R: "sched_rel s xs d" and t: "t \<noteq> PtSystemIdleThread s"
    and w: "PtWakeThreadCfs (Some t) s = Some (r, s')"
  shows "sched_rel s' (if State (Threads s t) = Waiting then insert_after (vruntime s) t xs else xs) (PtWakeThread d t)"
proof (cases "State (Threads s t) = Waiting")
  case False
  then show ?thesis using wake_ok [OF y, of t] w R sched_relD(4) [OF R t] by (auto simp: PtWakeThread_def)
next
  case True
  then have e: "enqueued t s s'" "cfs_queue s' (insert_after (vruntime s) t xs)" using wake_ok [OF y, of t] w by auto
  have "t \<notin> set xs" using not_ready [OF y] True by auto
  then show ?thesis
    using R True sched_relD(4) [OF R t] enqueued_sel [OF e(1)] e(2) by (auto simp: sched_rel_def PtWakeThread_def)
qed

section \<open>Weights\<close>

lemma weight_shift_5: "weight_shift w 5 = 5"
  by (subst weight_shift.simps) simp

lemma drop_push: "k < 6 \<Longrightarrow> drop_bit 1 (push_bit (Suc k) PT_CFS_BASE_WEIGHT) = push_bit k PT_CFS_BASE_WEIGHT"
proof -
  assume "k < 6"
  then have "k \<in> {0,1,2,3,4,5}" by auto
  then show ?thesis by (auto simp: PT_CFS_BASE_WEIGHT_def push_bit_eq_mult)
qed

lemma weight_shift_push: "k + n \<le> 5 \<Longrightarrow> weight_shift (push_bit k PT_CFS_BASE_WEIGHT) n = n + k"
proof (induction k arbitrary: n)
  case 0
  then show ?case by (subst weight_shift.simps) (simp add: PT_CFS_BASE_WEIGHT_def)
next
  case (Suc k)
  have "Suc k \<in> {1,2,3,4,5}" using Suc.prems by auto
  then have "PT_CFS_BASE_WEIGHT < push_bit (Suc k) PT_CFS_BASE_WEIGHT"
    by (auto simp: PT_CFS_BASE_WEIGHT_def push_bit_eq_mult)
  then show ?case
    using Suc drop_push [of k] by (subst weight_shift.simps) simp
qed

section \<open>Idle time\<close>

fun ticks :: "nat \<Rightarrow> u64 \<Rightarrow> PROCESSOR \<Rightarrow> PROCESSOR option" where
  "ticks 0 d s = Some s"
| "ticks (Suc n) d s = do { s \<leftarrow> PtSchedulerTick d s; ticks n d s }"

fun yields :: "nat \<Rightarrow> PROCESSOR \<Rightarrow> PROCESSOR option" where
  "yields 0 s = Some s"
| "yields (Suc n) s = do { s \<leftarrow> PtYieldThread s; yields n s }"

lemma shift_mod: "0 \<le> x \<Longrightarrow> x < 256 \<Longrightarrow> 0 \<le> (x + 128) mod 256 - 128 \<Longrightarrow> (x + 128) mod 256 - 128 = x" for x :: int
proof (cases "x < 128")
  case False
  assume "0 \<le> x" "x < 256" "0 \<le> (x + 128) mod 256 - 128"
  moreover have "(x + 128) mod 256 = (x - 128 + 256) mod 256" by (simp add: algebra_simps)
  then have "(x + 128) mod 256 = x - 128" using False \<open>x < 256\<close> by (simp only: mod_add_self2) simp
  ultimately show ?thesis by simp
qed simp

lemma weight_shift_1: "weight_shift 1 0 = 0"
  by (subst weight_shift.simps) (simp add: PT_CFS_BASE_WEIGHT_def)

lemma idle_ticks:
  assumes "sched_inv s xs" "PrcbCurrentThread s = Some (PtSystemIdleThread s)" "Weight (Threads s (PtSystemIdleThread s)) = 1"
    and "\<forall>t\<in>set xs. unat (vruntime s (PtSystemIdleThread s)) + k * unat d \<le> unat (vruntime s t)"
  shows "\<exists>s'. ticks k d s = Some s' \<and> sched_inv s' xs \<and> PrcbCurrentThread s' = Some (PtSystemIdleThread s)"
  using assms
proof (induction k arbitrary: s)
  case (Suc k)
  let ?i = "PtSystemIdleThread s" and ?s = "charge d (PtSystemIdleThread s) s"
  have i: "sched_inv ?s xs" using charge_inv Suc.prems(1,2) by blast
  have v: "vruntime ?s ?i = vruntime s ?i + d" using Suc.prems(3) by (simp add: charge_def weight_shift_1)
  have sum: "unat (vruntime s ?i + d) = unat (vruntime s ?i) + unat d" if "t \<in> set xs" for t
  proof -
    have "unat (vruntime s ?i) + unat d \<le> unat (vruntime s t)" using Suc.prems(4) that by fastforce
    also have "\<dots> < 2 ^ 64" using unat_lt_u64 [of "vruntime s t"] by simp
    finally show ?thesis by (simp add: unat_plus_if')
  qed
  have t: "PtSchedulerTick d s = Some ?s"
  proof -
    have "\<not> vruntime s t < vruntime ?s ?i" if "t \<in> set xs" for t
      using Suc.prems(4) that sum [OF that] by (fastforce simp: v word_less_nat_alt)
    then show ?thesis using tick_eq [OF sched_ready [OF Suc.prems(1)] Suc.prems(2), of d] by auto
  qed
  have "\<exists>s'. ticks k d ?s = Some s' \<and> sched_inv s' xs \<and> PrcbCurrentThread s' = Some (PtSystemIdleThread ?s)"
  proof (rule Suc.IH [OF i])
    show "\<forall>t\<in>set xs. unat (vruntime ?s (PtSystemIdleThread ?s)) + k * unat d \<le> unat (vruntime ?s t)"
    proof
      fix t assume tt: "t \<in> set xs"
      then have "t \<noteq> ?i" using yield_readyD(2) [OF sched_ready [OF Suc.prems(1)]] by auto
      then have "vruntime ?s t = vruntime s t" by (simp add: charge_sel)
      then show "unat (vruntime ?s (PtSystemIdleThread ?s)) + k * unat d \<le> unat (vruntime ?s t)"
        using Suc.prems(4) tt by (simp add: charge_sel(3) v sum [OF tt] add.assoc)
    qed
  qed (use Suc.prems in \<open>simp_all add: charge_sel charge_def\<close>)
  then show ?case using t by (simp add: charge_sel)
qed simp

lemma yields_ok:
  assumes "sched_inv s xs" "xs \<noteq> []" "PrcbCurrentThread s \<noteq> Some (PtSystemIdleThread s)"
  shows "\<exists>s' ys. yields n s = Some s' \<and> sched_inv s' ys \<and> length ys = length xs \<and>
    RunningTasks (PtRunQueue s') = RunningTasks (PtRunQueue s) + of_nat n"
  using assms
proof (induction n arbitrary: s xs)
  case (Suc n)
  obtain c where c: "PrcbCurrentThread s = Some c" using sched_current [OF Suc.prems(1)] by blast
  have y: "yield_ready s xs" by (rule sched_ready [OF Suc.prems(1)])
  have g: "goes_back s c" using sched_invD(3) [OF Suc.prems(1) c] Suc.prems(3) c by (auto simp: goes_back_def)
  obtain s1 where s1: "PtYieldThread s = Some s1" "PtSystemIdleThread s1 = PtSystemIdleThread s"
      "PrcbCurrentThread s1 = Some (next_of s xs)" "RunningTasks (PtRunQueue s1) = RunningTasks (PtRunQueue s) + 1"
    using yield_ok [OF y c] g by auto
  have i1: "sched_inv s1 (queue_after s c xs)" using yield_inv [OF y c s1(1)] .
  have l: "length (queue_after s c xs) = length xs" using g Suc.prems(2) by (cases xs) (simp_all add: queue_after_def)
  have "next_of s xs \<noteq> PtSystemIdleThread s"
    using Suc.prems(2) yield_readyD(2) [OF y] by (cases xs) (auto simp: next_of_def)
  moreover have "queue_after s c xs \<noteq> []" using l Suc.prems(2) by auto
  ultimately show ?case
    using Suc.IH [OF i1] s1 l by (auto simp: algebra_simps)
qed auto

section \<open>The properties\<close>

text \<open>A processor for the witnesses: the idle thread is 0, the thread 1 runs, the threads \<open>xs\<close> of at most one
  element are ready.\<close>

definition one_cpu :: "node list \<Rightarrow> PROCESSOR" where
  "one_cpu xs = \<lparr>Threads = \<lambda>t. \<lparr>VRuntime = (if t = 0 then 0 else 1000), Weight = (if t = 0 then 1 else 1024),
       State = (if t \<in> set xs then Ready else if t \<le> 1 then Running else Initialized), WaitStatus = 0, Irql = 0,
       Process = None, Priority = 0\<rparr>,
     PtRunQueue = \<lparr>CfsTree = \<lparr>nodes = \<lambda>_. \<lparr>Left = None, Right = None, Parent = None, Balance = RTL_RB_BLACK\<rparr>,
         Root = head xs, Leftmost = head xs\<rparr>, CurrentThread = Some 1, TotalWeight = 0, RunningTasks = 0, MinVRuntime = 0\<rparr>,
     PtSystemIdleThread = 0, PrcbCurrentThread = Some 1, Cr3 = None, CurrentIrql = 0\<rparr>"

lemma one_cpu_tree: "xs = [] \<or> xs = [t] \<Longrightarrow> rb_tree (CfsTree (PtRunQueue (one_cpu xs))) xs"
  unfolding rb_tree_def
  by (rule exI [of _ "case xs of [] \<Rightarrow> \<langle>\<rangle> | t # _ \<Rightarrow> \<langle>\<langle>\<rangle>, (t, False), \<langle>\<rangle>\<rangle>"])
    (auto simp: one_cpu_def rep_def rbt_ok_def leftmost_ok_def head_def)

lemma one_cpu_inv: "xs = [] \<or> xs = [t] \<and> t > 1 \<Longrightarrow> sched_inv (one_cpu xs) xs"
  using one_cpu_tree [of xs t]
  by (auto simp: sched_inv_def yield_ready_def cfs_queue_def one_cpu_def)

lemma one_cpu_sel [simp]:
  "PrcbCurrentThread (one_cpu xs) = Some 1" "PtSystemIdleThread (one_cpu xs) = 0"
  "Weight (Threads (one_cpu xs) 0) = 1" "vruntime (one_cpu xs) t = (if t = 0 then 0 else 1000)"
  by (simp_all add: one_cpu_def)

lemma run_queue_parts:
  assumes "cfs_queue s xs"
  shows "t \<notin> set xs \<longrightarrow> (\<exists>s'. PtEnqueueThreadCfs (Some t) s = Some s' \<and> cfs_queue s' (insert_after (vruntime s) t xs) \<and>
      State (Threads s' t) = Ready \<and> RunningTasks (PtRunQueue s') = RunningTasks (PtRunQueue s) + 1)"
    and "t \<in> set xs \<longrightarrow> (\<exists>s'. PtDequeueThreadCfs (Some t) s = Some s' \<and> cfs_queue s' (remove1 t xs) \<and>
      unat (RunningTasks (PtRunQueue s')) = unat (RunningTasks (PtRunQueue s)) - 1 \<and>
      unat (TotalWeight (PtRunQueue s')) = unat (TotalWeight (PtRunQueue s)) - unat (Weight (Threads s t)))"
    and "case xs of [] \<Rightarrow> \<exists>s'. PtPickNextThreadCfs s = Some (None, s') \<and> cfs_queue s' []
      | t # ys \<Rightarrow> \<exists>s'. PtPickNextThreadCfs s = Some (Some t, s') \<and> cfs_queue s' ys \<and> State (Threads s' t) = Running \<and>
          CurrentThread (PtRunQueue s') = Some t \<and> (\<forall>u\<in>set ys. vruntime s' t \<le> vruntime s' u)"
proof -
  show "t \<notin> set xs \<longrightarrow> (\<exists>s'. PtEnqueueThreadCfs (Some t) s = Some s' \<and> cfs_queue s' (insert_after (vruntime s) t xs) \<and>
      State (Threads s' t) = Ready \<and> RunningTasks (PtRunQueue s') = RunningTasks (PtRunQueue s) + 1)"
    using enqueue_ok [OF assms, of t] by (auto simp: enqueued_def)
  show "t \<in> set xs \<longrightarrow> (\<exists>s'. PtDequeueThreadCfs (Some t) s = Some s' \<and> cfs_queue s' (remove1 t xs) \<and>
      unat (RunningTasks (PtRunQueue s')) = unat (RunningTasks (PtRunQueue s)) - 1 \<and>
      unat (TotalWeight (PtRunQueue s')) = unat (TotalWeight (PtRunQueue s)) - unat (Weight (Threads s t)))"
    using dequeue_ok [OF assms, of t] by blast
  show "case xs of [] \<Rightarrow> \<exists>s'. PtPickNextThreadCfs s = Some (None, s') \<and> cfs_queue s' []
      | t # ys \<Rightarrow> \<exists>s'. PtPickNextThreadCfs s = Some (Some t, s') \<and> cfs_queue s' ys \<and> State (Threads s' t) = Running \<and>
          CurrentThread (PtRunQueue s') = Some t \<and> (\<forall>u\<in>set ys. vruntime s' t \<le> vruntime s' u)"
  proof (cases xs)
    case Nil
    then show ?thesis using pick_ok(2) [OF assms Nil] assms by (simp add: cfs_queue_def)
  next
    case (Cons t ys)
    obtain T where T: "rb_tree T ys" "PtPickNextThreadCfs s =
       Some (Some t, upd_queue (\<lambda>q. q\<lparr>CfsTree := T, CurrentThread := Some t\<rparr>) (upd_thread t (\<lambda>k. k\<lparr>State := Running\<rparr>) s))"
      using pick_ok(3) [OF assms Cons] by blast
    let ?s' = "upd_queue (\<lambda>q. q\<lparr>CfsTree := T, CurrentThread := Some t\<rparr>) (upd_thread t (\<lambda>k. k\<lparr>State := Running\<rparr>) s)"
    have v: "vruntime ?s' = vruntime s" by (simp add: fun_eq_iff)
    have "sorted (map (vruntime s) (t # ys))" using assms Cons by (simp add: cfs_queue_def)
    then have "cfs_queue ?s' ys" "\<forall>u\<in>set ys. vruntime ?s' t \<le> vruntime ?s' u"
      using T(1) unfolding cfs_queue_def v by auto
    then show ?thesis using T(2) Cons by simp
  qed
qed

text \<open>The run queue is a list in the order of the virtual runtimes. Enqueueing puts a thread behind all
  threads whose runtime is not greater, dequeueing takes exactly that thread out and lowers both counters, and
  picking takes the first thread, which has the least runtime and runs, or returns none of an empty queue.\<close>

theorem run_queue_operations:
  assumes "cfs_queue s xs"
  shows "(t \<notin> set xs \<longrightarrow> (\<exists>s'. PtEnqueueThreadCfs (Some t) s = Some s' \<and> cfs_queue s' (insert_after (vruntime s) t xs) \<and>
      State (Threads s' t) = Ready \<and> RunningTasks (PtRunQueue s') = RunningTasks (PtRunQueue s) + 1)) \<and>
    (t \<in> set xs \<longrightarrow> (\<exists>s'. PtDequeueThreadCfs (Some t) s = Some s' \<and> cfs_queue s' (remove1 t xs) \<and>
      unat (RunningTasks (PtRunQueue s')) = unat (RunningTasks (PtRunQueue s)) - 1 \<and>
      unat (TotalWeight (PtRunQueue s')) = unat (TotalWeight (PtRunQueue s)) - unat (Weight (Threads s t)))) \<and>
    (case xs of [] \<Rightarrow> \<exists>s'. PtPickNextThreadCfs s = Some (None, s') \<and> cfs_queue s' []
      | t # ys \<Rightarrow> \<exists>s'. PtPickNextThreadCfs s = Some (Some t, s') \<and> cfs_queue s' ys \<and> State (Threads s' t) = Running \<and>
          CurrentThread (PtRunQueue s') = Some t \<and> (\<forall>u\<in>set ys. vruntime s' t \<le> vruntime s' u))"
  by (intro conjI run_queue_parts assms)

theorem run_queue_operations_witness:
  "(\<exists>s'. PtEnqueueThreadCfs (Some 3) (one_cpu [2]) = Some s' \<and> cfs_queue s' [2, 3]) \<and>
   (\<exists>s'. PtPickNextThreadCfs (one_cpu [2]) = Some (Some 2, s') \<and> cfs_queue s' [])"
proof -
  have q: "cfs_queue (one_cpu [2]) [2]" using one_cpu_tree [of "[2]" 2] by (simp add: cfs_queue_def)
  show ?thesis
    using run_queue_operations [OF q, of 3] by (auto simp: insert_after_def)
qed

text \<open>C24: The steps of a processor are ticks, yields, waits and ends of the current thread, wake-ups, new threads and
  changes of priority, in any order except that a thread which has begun to wait is not woken before it has yielded.
  In every state they reach the red-black tree holds exactly the ready threads, in the order of their virtual
  runtimes, each once; no thread but the current one and the idle thread is running; the current one is not in the
  tree, and the run queue and the control block name the same one.\<close>

theorem scheduler_consistent:
  assumes "cfs_reachable s"
  shows "\<exists>xs c. rb_tree (CfsTree (PtRunQueue s)) xs \<and> sorted (map (vruntime s) xs) \<and> distinct xs \<and>
    PrcbCurrentThread s = Some c \<and> CurrentThread (PtRunQueue s) = Some c \<and> c \<notin> set xs \<and> PtSystemIdleThread s \<notin> set xs \<and>
    (\<forall>t. t \<noteq> PtSystemIdleThread s \<longrightarrow> (t \<in> set xs \<longleftrightarrow> State (Threads s t) = Ready) \<and>
       (State (Threads s t) = Running \<longrightarrow> t = c))"
proof -
  obtain xs where i: "cpu_inv s xs" using cfs_reachable_inv [OF assms] by blast
  note y = cpu_invD(1) [OF i]
  obtain c where c: "PrcbCurrentThread s = Some c" using cpu_current [OF i] by blast
  show ?thesis
    by (rule exI [of _ xs], rule exI [of _ c])
      (use yield_readyD [OF y] cpu_invD(2) [OF i] c rb_tree_distinct in \<open>auto simp: cfs_queue_def\<close>)
qed

text \<open>A boot with one thread.\<close>

lemma boot_runs: "\<exists>s. cfs_reachable s \<and> State (Threads s 1) = Ready"
proof -
  let ?s0 = "(one_cpu [])\<lparr>Threads := \<lambda>_. \<lparr>VRuntime = 0, Weight = 0, State = Initialized,
     WaitStatus = 0, Irql = 0, Process = None, Priority = 0\<rparr>\<rparr>"
  let ?s = "PtInitializeRunQueues ?s0"
  have r: "cfs_reachable ?s" by (rule cfs_init) simp
  have i: "sched_inv ?s []" by (rule cfs_init_inv) simp
  have f: "PtSystemIdleThread ?s = 0" "PrcbCurrentThread ?s = Some 0" "State (Threads ?s (Suc 0)) = Initialized"
    by (simp_all add: PtInitializeRunQueues_def Let_def)
  obtain s' where s': "start_thread 1 7 0 ?s = Some s'" "Threads s' 1 =
      \<lparr>VRuntime = 0, Weight = 1024, State = Ready, WaitStatus = 0, Irql = 0, Process = Some 7, Priority = 0\<rparr>"
    using start_ok [OF sched_ready [OF i], of 1 7 0] f(1,2) by auto
  have "cfs_step ?s s'" by (rule step_start [OF _ _ _ s'(1)]) (simp_all add: f)
  then have "cfs_reachable s'" using r cfs_next by blast
  then show ?thesis using s'(2) by auto
qed

theorem scheduler_consistent_witness:
  "\<exists>s xs. cfs_reachable s \<and> rb_tree (CfsTree (PtRunQueue s)) xs \<and> sorted (map (vruntime s) xs) \<and> distinct xs"
proof -
  obtain s where "cfs_reachable s" using boot_runs by blast
  then show ?thesis using scheduler_consistent [of s] by blast
qed

text \<open>No call of the scheduler faults or loops in a reachable state: a tick, a yield, a wake-up of any thread
  and a new thread all return.\<close>

theorem scheduler_never_faults:
  assumes "cfs_reachable s"
  shows "PtSchedulerTick d s \<noteq> None \<and> PtYieldThread s \<noteq> None \<and> PtWakeThreadEx t status s \<noteq> None \<and>
    PtpDelayExecutionDpcRoutine q s \<noteq> None \<and>
    (PrcbCurrentThread s \<noteq> Some t \<and> State (Threads s t) = Initialized \<longrightarrow> start_thread t p b s \<noteq> None)"
proof -
  obtain xs where i: "cpu_inv s xs" using cfs_reachable_inv [OF assms] by blast
  note y = cpu_invD(1) [OF i]
  obtain a where a: "PrcbCurrentThread s = Some a" using cpu_current [OF i] by blast
  have wake: "PtWakeThreadCfs (Some t) (upd_thread t (\<lambda>k. k\<lparr>WaitStatus := st\<rparr>) s) \<noteq> None" for t st
  proof -
    have "cpu_inv (upd_thread t (\<lambda>k. k\<lparr>WaitStatus := st\<rparr>) s) xs" by (rule cpu_inv_same [OF i]) auto
    from wake_ok [OF cpu_invD(1) [OF this], of t] show ?thesis by blast
  qed
  have 1: "PtSchedulerTick d s \<noteq> None" using tick_ok [OF i, of d] by auto
  have 2: "PtYieldThread s \<noteq> None" using yield_ok [OF y a] by auto
  have 3: "PtWakeThreadEx t status s \<noteq> None" using wake [of t status] by (simp add: PtWakeThreadEx_def)
  have 4: "PtpDelayExecutionDpcRoutine q s \<noteq> None"
    using wake [of "the q" STATUS_TIMEOUT] by (auto simp: PtpDelayExecutionDpcRoutine_def split: option.split)
  have 5: "PrcbCurrentThread s \<noteq> Some t \<and> State (Threads s t) = Initialized \<longrightarrow> start_thread t p b s \<noteq> None"
  proof
    assume t: "PrcbCurrentThread s \<noteq> Some t \<and> State (Threads s t) = Initialized"
    have "t \<notin> set xs" "t \<noteq> PtSystemIdleThread s"
      using not_ready [OF y, of t] yield_readyD(3) [OF y] t by auto
    then show "start_thread t p b s \<noteq> None" using start_ok [OF y, of t p b] t by auto
  qed
  show ?thesis using 1 2 3 4 5 by blast
qed

theorem scheduler_never_faults_witness:
  "\<exists>s. PtSchedulerTick 10 s \<noteq> None \<and> PtYieldThread s \<noteq> None \<and> State (Threads s 1) = Ready"
proof -
  obtain s where s: "cfs_reachable s" "State (Threads s 1) = Ready" using boot_runs by blast
  then show ?thesis using scheduler_never_faults [OF s(1), of 10] by blast
qed

text \<open>C25: In every state of C25 a tick returns, and after it no ready thread has less virtual runtime than the current
  thread; and that thread is running, unless it had begun to wait or to end before the tick.\<close>

theorem tick_runs_least:
  assumes "cfs_reachable s"
  shows "\<exists>s' c. PtSchedulerTick d s = Some s' \<and> PrcbCurrentThread s' = Some c \<and>
    (\<forall>t. State (Threads s' t) = Ready \<longrightarrow> vruntime s' c \<le> vruntime s' t) \<and>
    (State (Threads s' c) = Running \<or> PrcbCurrentThread s = Some c \<and> State (Threads s c) \<noteq> Running)"
proof -
  obtain xs where i: "cpu_inv s xs" using cfs_reachable_inv [OF assms] by blast
  obtain s' ys c where s': "PtSchedulerTick d s = Some s'" "cpu_inv s' ys" "PrcbCurrentThread s' = Some c"
      "\<forall>t\<in>set ys. vruntime s' c \<le> vruntime s' t"
      "State (Threads s' c) = Running \<or> PrcbCurrentThread s = Some c \<and> State (Threads s c) \<noteq> Running"
    using tick_ok [OF i, of d] by blast
  note y = cpu_invD(1) [OF s'(2)]
  have "t \<in> set ys" if "State (Threads s' t) = Ready" for t
    using yield_readyD(3) [OF y] yield_readyD(6) [OF y, of t] that by (cases "t = PtSystemIdleThread s'") auto
  then show ?thesis using s' by blast
qed

theorem tick_runs_least_witness:
  "\<exists>s s' c. State (Threads s 1) = Ready \<and> PtSchedulerTick 10 s = Some s' \<and> PrcbCurrentThread s' = Some c \<and>
    (\<forall>t. State (Threads s' t) = Ready \<longrightarrow> vruntime s' c \<le> vruntime s' t)"
proof -
  obtain s where s: "cfs_reachable s" "State (Threads s 1) = Ready" using boot_runs by blast
  then show ?thesis using tick_runs_least [OF s(1), of 10] by blast
qed

text \<open>C26: The fair scheduler refines the scheduler the waits are verified against. Let the tree of the processor hold
  the threads of the run queue there, let current thread and states agree, and let the processor be ready for a
  yield. Then a yield is a switch to a thread \<open>next_thread\<close> allows, the wake-up of a thread other than the idle
  thread, the current one too, is the wake-up there, and after both the tree and the run queue hold the same threads
  and the states and the current thread agree. After a yield, and after the wake-up of another thread, the processor
  is again ready for a yield.\<close>

theorem scheduler_refines_waits:
  assumes "yield_ready s xs" "PrcbCurrentThread s = Some c" "sched_rel s xs d"
  shows "(\<exists>s' n ys. PtYieldThread s = Some s' \<and> yield_ready s' ys \<and> next_thread d n \<and> sched_rel s' ys (switch_to d n)) \<and>
    (\<forall>t. t \<noteq> PtSystemIdleThread s \<longrightarrow>
      (\<exists>r s' ys. PtWakeThreadCfs (Some t) s = Some (r, s') \<and> (t \<noteq> c \<longrightarrow> yield_ready s' ys) \<and> sched_rel s' ys (PtWakeThread d t)))"
proof (intro conjI allI impI)
  obtain s' where s': "PtYieldThread s = Some s'" using yield_ok [OF assms(1,2)] by blast
  show "\<exists>s' n ys. PtYieldThread s = Some s' \<and> yield_ready s' ys \<and> next_thread d n \<and> sched_rel s' ys (switch_to d n)"
    using s' sched_ready [OF yield_inv [OF assms(1,2) s']] yield_refines [OF assms s'] by blast
  fix t assume t: "t \<noteq> PtSystemIdleThread s"
  obtain r s' where s': "PtWakeThreadCfs (Some t) s = Some (r, s')"
      "yield_ready s' (if State (Threads s t) = Waiting then insert_after (vruntime s) t xs else xs) \<or> t = c"
    using wake_ok [OF assms(1), of t] assms(1,2) by (auto split: if_splits)
  then show "\<exists>r s' ys. PtWakeThreadCfs (Some t) s = Some (r, s') \<and> (t \<noteq> c \<longrightarrow> yield_ready s' ys) \<and> sched_rel s' ys (PtWakeThread d t)"
    using wake_refines [OF assms(1,3) t s'(1)] by blast
qed

theorem scheduler_refines_waits_witness:
  "\<exists>d s' n ys. RunQueue d = [2] \<and> PtYieldThread (one_cpu [2]) = Some s' \<and> next_thread d n \<and> sched_rel s' ys (switch_to d n)"
proof -
  let ?d = "\<lparr>Hdr = undefined, Thr = \<lambda>t. \<lparr>ThreadState = State (Threads (one_cpu [2]) t), WaitBlock = [], WaitBlockList = None,
      WaitType = 0, KTHREAD.WaitStatus = 0, WaitNext = False, MutantListHead = []\<rparr>, Current = Some 1, RunQueue = [2]\<rparr>"
  have y: "yield_ready (one_cpu [2]) [2]" using one_cpu_inv [of "[2]" 2] sched_ready by simp
  have "sched_rel (one_cpu [2]) [2] ?d" using yield_readyD(1) [OF y] by (simp add: sched_rel_def)
  then show ?thesis using scheduler_refines_waits [OF y, of 1 ?d] by (intro exI [of _ ?d]) auto
qed

text \<open>The weight a priority gives is \<open>1024\<close> shifted by an eighth of the priority, at most by 5 and not at all for
  a negative one; the loop of the tick finds this shift again, so a thread is charged its time divided by the
  power of two its priority stands for.\<close>

theorem priority_weight_roundtrip:
  "weight_shift (Weight (Threads (snd (PtSetThreadPriority (Some t) p s)) t)) 0 = min 5 (nat (sint p) div 8)"
proof -
  define k where "k = (if sint p < 0 then 0 else unat p div 8)"
  have pos: "nat (sint p) = (if sint p < 0 then 0 else unat p)"
  proof (cases "sint p < 0")
    case False
    have "sint p = (uint p + 128) mod 256 - 128"
      by (simp add: sint_uint signed_take_bit_eq_take_bit_shift take_bit_eq_mod)
    moreover have "0 \<le> uint p" "uint p < 256" using unsigned_less [of p, where ?'a = int] by simp_all
    ultimately have "sint p = uint p" using False shift_mod [of "uint p"] by simp
    then show ?thesis using False by (simp add: nat_uint_eq)
  qed simp
  have "weight_shift (push_bit (min 5 k) PT_CFS_BASE_WEIGHT) 0 = min 5 k"
    using weight_shift_push [of "min 5 k" 0] by simp
  moreover have "Weight (Threads (snd (PtSetThreadPriority (Some t) p s)) t) = push_bit (min 5 k) PT_CFS_BASE_WEIGHT"
  proof -
    have u: "unat ((ucast q :: u32) div 8) = unat q div 8" for q :: u8
    proof -
      have "unat (ucast q :: u32) = unat q"
        using unsigned_less [of q, where ?'a = nat] by (intro unat_ucast_lt) simp
      then show ?thesis by (simp add: unat_div)
    qed
    have "unat (if (ucast q :: u32) div 8 > 5 then 5 else (ucast q :: u32) div 8) = min 5 (unat q div 8)" for q :: u8
      using u [of q] by (auto simp: word_less_nat_alt)
    then show ?thesis by (simp add: PtSetThreadPriority_def Let_def k_def)
  qed
  ultimately show ?thesis by (simp add: pos k_def)
qed

text \<open>The idle thread competes with the ready threads. When the only running thread yields, the idle thread is
  chosen before the thread is queued again, and it keeps the processor tick after tick as long as its own runtime
  does not exceed that of the ready thread.\<close>

theorem lone_yield_idles:
  assumes "sched_inv s []" "PrcbCurrentThread s = Some c" "c \<noteq> PtSystemIdleThread s"
    and "Weight (Threads s (PtSystemIdleThread s)) = 1"
    and "unat (vruntime s (PtSystemIdleThread s)) + k * unat d \<le> unat (vruntime s c)"
  shows "\<exists>s1 s'. PtYieldThread s = Some s1 \<and> ticks k d s1 = Some s' \<and>
    PrcbCurrentThread s' = Some (PtSystemIdleThread s) \<and> State (Threads s' c) = Ready"
proof -
  note y = sched_ready [OF assms(1)]
  have g: "goes_back s c" using sched_invD(3) [OF assms(1,2)] assms(3) by (simp add: goes_back_def)
  obtain s1 where s1: "PtYieldThread s = Some s1" "Threads s1 = states_after s c []" "PtSystemIdleThread s1 = PtSystemIdleThread s"
      "PrcbCurrentThread s1 = Some (PtSystemIdleThread s)"
    using yield_ok [OF y assms(2)] by (auto simp: next_of_def)
  have i: "sched_inv s1 [c]" using yield_inv [OF y assms(2) s1(1)] g by (simp add: queue_after_def insert_after_def)
  have "Weight (Threads s1 (PtSystemIdleThread s1)) = 1" "vruntime s1 (PtSystemIdleThread s1) = vruntime s (PtSystemIdleThread s)"
      "vruntime s1 c = vruntime s c"
    using assms(3,4) by (simp_all add: s1 states_after_def Let_def next_of_def)
  then obtain s' where s': "ticks k d s1 = Some s'" "sched_inv s' [c]" "PrcbCurrentThread s' = Some (PtSystemIdleThread s)"
    using idle_ticks [OF i, of k d] s1 assms(5) by auto
  have "State (Threads s' c) = Ready"
    using yield_readyD(2,6) [OF sched_ready [OF s'(2)]] by (metis list.set_intros(1))
  then show ?thesis using s1(1) s' by blast
qed

theorem lone_yield_idles_witness:
  "\<exists>s1 s'. PtYieldThread (one_cpu []) = Some s1 \<and> ticks 100 10 s1 = Some s' \<and>
    PrcbCurrentThread s' = Some 0 \<and> State (Threads s' 1) = Ready"
proof -
  have "sched_inv (one_cpu []) []" by (rule one_cpu_inv) simp
  then show ?thesis using lone_yield_idles [of "one_cpu []" 1 100 10] by simp
qed

text \<open>The counter of running tasks only grows: \<open>PtPickNextThreadCfs\<close> takes a thread out of the tree without
  counting it down, so \<open>n\<close> yields add \<open>n\<close> to the counter while as many threads are ready as before.\<close>

theorem running_tasks_only_grow:
  assumes "sched_inv s xs" "xs \<noteq> []" "PrcbCurrentThread s \<noteq> Some (PtSystemIdleThread s)"
  shows "\<exists>s' ys. yields n s = Some s' \<and> sched_inv s' ys \<and> length ys = length xs \<and>
    RunningTasks (PtRunQueue s') = RunningTasks (PtRunQueue s) + of_nat n"
  using yields_ok [OF assms] .

theorem running_tasks_only_grow_witness:
  "\<exists>s' ys. yields 1000 (one_cpu [2]) = Some s' \<and> sched_inv s' ys \<and> length ys = 1 \<and> RunningTasks (PtRunQueue s') = 1000"
proof -
  have "RunningTasks (PtRunQueue (one_cpu [2])) = 0" by (simp add: one_cpu_def)
  moreover have "sched_inv (one_cpu [2]) [2]" by (rule one_cpu_inv [of _ 2]) simp
  ultimately show ?thesis using running_tasks_only_grow [of "one_cpu [2]" "[2]" 1000] by auto
qed

end
