(* ===== verification/MmPip.thy ===== *)
theory MmPip
  imports RtlBitmap
begin
text \<open>
  Physical pages: the page index pointers of \<open>veakrnl/mm/pip.c\<close> and
  \<open>sdk/include/ndk/mmtype.h\<close>.

  The database is the list of its entries; the free list and the list of zeroed pages are threaded
  through \<open>Flink\<close> and \<open>Blink\<close> with \<open>0xFFFFFFFF\<close> as the end. An index outside the
  database is \<open>None\<close>. The spin lock is held over whole operations; the thread that zeroes
  pages is cut at the two points where it releases the lock, and what it writes to the
  page itself is not modelled. \<open>FreePageEvents\<close> counts the calls of
  \<open>KsSetEvent (&MmFreePageEvent, FALSE)\<close>.
\<close>

section \<open>Data\<close>

definition PIP_STATE_FREE :: u8 where "PIP_STATE_FREE = 0"
definition PIP_STATE_ACTIVE :: u8 where "PIP_STATE_ACTIVE = 1"
definition PIP_STATE_RESERVED :: u8 where "PIP_STATE_RESERVED = 2"
definition PIP_STATE_ZEROED :: u8 where "PIP_STATE_ZEROED = 3"

lemmas pip_states = PIP_STATE_FREE_def PIP_STATE_ACTIVE_def PIP_STATE_RESERVED_def PIP_STATE_ZEROED_def

definition PAGE_SIZE :: u32 where "PAGE_SIZE = 4096"
definition NIL :: u32 where "NIL = 0xFFFFFFFF"
definition KERNEL_PHYS_BASE :: u32 where "KERNEL_PHYS_BASE = 0x1000000"
definition KERNEL_RESERVE_SIZE :: u32 where "KERNEL_RESERVE_SIZE = 50 * 1024 * 1024"
definition SIZEOF_PIP :: u32 where "SIZEOF_PIP = 22"
definition BAD_POOL_HEADER :: u32 where "BAD_POOL_HEADER = 0x19"

record PIP =
  Flink :: u32
  Blink :: u32
  PteAddress :: u32
  ShareCount :: u16
  ReferenceCount :: u16
  State :: u8
  Flags :: u8
  WsIndex :: u32

record MM_PIP =
  MmPipDatabase :: "PIP list"
  MmTotalPages :: u32
  MmFirstFreePip :: u32
  MmFirstZeroedPip :: u32
  FreePageEvents :: nat

text \<open>\<open>KsBugCheckEx\<close> stops the machine.\<close>

datatype 'a mm_result = Ok 'a | Bug u32

definition page :: "MM_PIP \<Rightarrow> u32 \<Rightarrow> PIP option" where
  "page s i = rd (MmPipDatabase s) (unat i)"

definition set_page :: "u32 \<Rightarrow> (PIP \<Rightarrow> PIP) \<Rightarrow> MM_PIP \<Rightarrow> MM_PIP option" where
  "set_page i f s = do {
     p \<leftarrow> page s i;
     Some (s\<lparr>MmPipDatabase := (MmPipDatabase s)[unat i := f p]\<rparr>) }"

section \<open>The lists\<close>

definition MmpInsertZeroedPageHead :: "MM_PIP \<Rightarrow> u32 \<Rightarrow> MM_PIP option" where
  "MmpInsertZeroedPageHead s Index = do {
     s \<leftarrow> set_page Index (\<lambda>p. p\<lparr>Flink := MmFirstZeroedPip s, Blink := NIL\<rparr>) s;
     s \<leftarrow> (if MmFirstZeroedPip s \<noteq> NIL then set_page (MmFirstZeroedPip s) (Blink_update (\<lambda>_. Index)) s else Some s);
     Some (s\<lparr>MmFirstZeroedPip := Index\<rparr>) }"

definition MmpUnlinkFreePage :: "MM_PIP \<Rightarrow> u32 \<Rightarrow> MM_PIP option" where
  "MmpUnlinkFreePage s Index = do {
     p \<leftarrow> page s Index;
     s \<leftarrow> (if Blink p \<noteq> NIL then set_page (Blink p) (Flink_update (\<lambda>_. Flink p)) s
          else Some (s\<lparr>MmFirstFreePip := Flink p\<rparr>));
     s \<leftarrow> (if Flink p \<noteq> NIL then set_page (Flink p) (Blink_update (\<lambda>_. Blink p)) s else Some s);
     set_page Index (\<lambda>p. p\<lparr>Flink := NIL, Blink := NIL\<rparr>) s }"

definition MmpInsertFreePageHead :: "MM_PIP \<Rightarrow> u32 \<Rightarrow> MM_PIP option" where
  "MmpInsertFreePageHead s Index = do {
     s \<leftarrow> set_page Index (\<lambda>p. p\<lparr>Flink := MmFirstFreePip s, Blink := NIL\<rparr>) s;
     s \<leftarrow> (if MmFirstFreePip s \<noteq> NIL then set_page (MmFirstFreePip s) (Blink_update (\<lambda>_. Index)) s else Some s);
     Some (s\<lparr>MmFirstFreePip := Index\<rparr>) }"

section \<open>References\<close>

definition MmReferencePhysicalPage :: "MM_PIP \<Rightarrow> u32 \<Rightarrow> MM_PIP option" where
  "MmReferencePhysicalPage s PhysicalAddress =
     (let Index = PhysicalAddress div PAGE_SIZE
      in if MmTotalPages s \<le> Index then Some s
         else set_page Index (ReferenceCount_update (\<lambda>n. n + 1)) s)"

definition MmDereferencePhysicalPage :: "MM_PIP \<Rightarrow> u32 \<Rightarrow> MM_PIP option" where
  "MmDereferencePhysicalPage s PhysicalAddress =
     (let Index = PhysicalAddress div 4096
      in if MmTotalPages s \<le> Index then Some s
         else do {
           p \<leftarrow> page s Index;
           if ReferenceCount p = 0 then Some s
           else do {
             s \<leftarrow> set_page Index (ReferenceCount_update (\<lambda>n. n - 1)) s;
             if ReferenceCount p - 1 = 0 then do {
               s \<leftarrow> set_page Index (\<lambda>p. p\<lparr>ShareCount := 0, State := PIP_STATE_FREE\<rparr>) s;
               MmpInsertFreePageHead s Index }
             else Some s } })"

section \<open>Allocation\<close>

definition take_page :: "u32 \<Rightarrow> MM_PIP \<Rightarrow> MM_PIP option" where
  "take_page Index s = do {
     s \<leftarrow> MmpUnlinkFreePage s Index;
     set_page Index (\<lambda>p. p\<lparr>State := PIP_STATE_ACTIVE, ReferenceCount := 1, ShareCount := 1, PteAddress := 0\<rparr>) s }"

definition MmAllocatePhysicalPage :: "MM_PIP \<Rightarrow> (MM_PIP \<times> u32) mm_result option" where
  "MmAllocatePhysicalPage s =
     (if MmFirstFreePip s = NIL then Some (Ok (s, 0))
      else let AllocatedIndex = MmFirstFreePip s
      in if MmTotalPages s \<le> AllocatedIndex then Some (Bug BAD_POOL_HEADER)
         else do {
           p \<leftarrow> page s AllocatedIndex;
           if State p \<noteq> PIP_STATE_FREE then Some (Bug BAD_POOL_HEADER)
           else do {
             s \<leftarrow> take_page AllocatedIndex s;
             Some (Ok (s, AllocatedIndex * 4096)) } })"

definition MmFreePhysicalPage :: "MM_PIP \<Rightarrow> u32 \<Rightarrow> MM_PIP option" where
  "MmFreePhysicalPage s PhysicalAddress =
     (if PhysicalAddress mod 4096 \<noteq> 0 then Some s
      else let Index = PhysicalAddress div 4096
      in if MmTotalPages s \<le> Index then Some s
         else do {
           p \<leftarrow> page s Index;
           if State p \<noteq> PIP_STATE_ACTIVE then Some s
           else do {
             s \<leftarrow> (if 0 < ShareCount p then set_page Index (ShareCount_update (\<lambda>n. n - 1)) s else Some s);
             s \<leftarrow> (if 0 < ReferenceCount p then set_page Index (ReferenceCount_update (\<lambda>n. n - 1)) s else Some s);
             p \<leftarrow> page s Index;
             if ReferenceCount p = 0 then do {
               s \<leftarrow> set_page Index (State_update (\<lambda>_. PIP_STATE_FREE)) s;
               s \<leftarrow> MmpInsertFreePageHead s Index;
               Some (s\<lparr>FreePageEvents := FreePageEvents s + 1\<rparr>) }
             else Some s } })"

text \<open>The loop over \<open>j\<close> that takes the pages of a run.\<close>

fun take_run :: "nat \<Rightarrow> u32 \<Rightarrow> MM_PIP \<Rightarrow> MM_PIP option" where
  "take_run 0 j s = Some s"
| "take_run (Suc n) j s = do { s \<leftarrow> take_page j s; take_run n (j + 1) s }"

text \<open>
  The search loop of \<open>MmAllocateContiguousPhysicalPages\<close> over the first \<open>n\<close> pages from \<open>i\<close>, which
  returns the start of the run it finds.
\<close>

fun find_run :: "MM_PIP \<Rightarrow> u32 \<Rightarrow> nat \<Rightarrow> u32 \<Rightarrow> u32 \<Rightarrow> u32 \<Rightarrow> u32 option option" where
  "find_run s PageCount 0 i contiguous_found start_index = Some None"
| "find_run s PageCount (Suc n) i contiguous_found start_index = do {
     p \<leftarrow> page s i;
     if State p = PIP_STATE_FREE then
       let start_index = (if contiguous_found = 0 then i else start_index);
           contiguous_found = contiguous_found + 1
       in if contiguous_found = PageCount then Some (Some start_index)
          else find_run s PageCount n (i + 1) contiguous_found start_index
     else find_run s PageCount n (i + 1) 0 NIL }"

definition MmAllocateContiguousPhysicalPages :: "MM_PIP \<Rightarrow> u32 \<Rightarrow> (MM_PIP \<times> u32) option" where
  "MmAllocateContiguousPhysicalPages s PageCount =
     (if PageCount = 0 then Some (s, 0)
      else do {
        r \<leftarrow> find_run s PageCount (unat (MmTotalPages s)) 0 0 NIL;
        case r of
          Some start_index \<Rightarrow> do {
            s \<leftarrow> take_run (unat PageCount) start_index s;
            Some (s, start_index * 4096) }
        | None \<Rightarrow> Some (s, 0) })"

fun free_run :: "nat \<Rightarrow> u32 \<Rightarrow> MM_PIP \<Rightarrow> MM_PIP option" where
  "free_run 0 CurrentPhys s = Some s"
| "free_run (Suc n) CurrentPhys s = do {
     s \<leftarrow> MmFreePhysicalPage s CurrentPhys;
     free_run n (CurrentPhys + 4096) s }"

definition MmFreeContiguousPhysicalPages :: "MM_PIP \<Rightarrow> u32 \<Rightarrow> u32 \<Rightarrow> MM_PIP option" where
  "MmFreeContiguousPhysicalPages s BasePhysicalAddress PageCount =
     free_run (unat PageCount) BasePhysicalAddress s"

section \<open>The zero page thread\<close>

text \<open>
  The two sections of \<open>MmZeroPageThreadRoutine\<close> under the lock: the first takes a page, or
  finds none and waits for the event; the second puts the zeroed page away.
\<close>

definition zero_thread_take :: "MM_PIP \<Rightarrow> (MM_PIP \<times> u32 option) option" where
  "zero_thread_take s =
     (if MmFirstFreePip s = NIL then Some (s, None)
      else do {
        let PageIndex = MmFirstFreePip s;
        s \<leftarrow> MmpUnlinkFreePage s PageIndex;
        s \<leftarrow> set_page PageIndex (State_update (\<lambda>_. PIP_STATE_ACTIVE)) s;
        Some (s, Some PageIndex) })"

definition zero_thread_put :: "MM_PIP \<Rightarrow> u32 \<Rightarrow> MM_PIP option" where
  "zero_thread_put s PageIndex = do {
     s \<leftarrow> set_page PageIndex (State_update (\<lambda>_. PIP_STATE_ZEROED)) s;
     MmpInsertZeroedPageHead s PageIndex }"


section \<open>Doubly linked lists in the database\<close>

abbreviation pg :: "MM_PIP \<Rightarrow> u32 \<Rightarrow> PIP" where
  "pg s i \<equiv> MmPipDatabase s ! unat i"

abbreviation inside :: "MM_PIP \<Rightarrow> u32 \<Rightarrow> bool" where
  "inside s i \<equiv> unat i < length (MmPipDatabase s)"

lemma page_pg [simp]: "inside s i \<Longrightarrow> page s i = Some (pg s i)"
  by (simp add: page_def)

lemma set_page_pg [simp]:
  "inside s i \<Longrightarrow> set_page i f s = Some (s\<lparr>MmPipDatabase := (MmPipDatabase s)[unat i := f (pg s i)]\<rparr>)"
  by (simp add: set_page_def)

lemma pg_update [simp]:
  "unat i < length db \<Longrightarrow> db[unat i := v] ! unat j = (if j = i then v else db ! unat j)"
  by (cases "i = j") (simp_all add: nth_list_update word_unat_eq_iff)

text \<open>The first element of a list, or what comes after it; the last one, or what comes before it.\<close>

fun head_or :: "u32 list \<Rightarrow> u32 \<Rightarrow> u32" where
  "head_or [] e = e"
| "head_or (x # xs) e = x"

definition last_or :: "u32 list \<Rightarrow> u32 \<Rightarrow> u32" where
  "last_or xs p = (if xs = [] then p else last xs)"

fun linked :: "(u32 \<Rightarrow> PIP) \<Rightarrow> u32 \<Rightarrow> u32 list \<Rightarrow> u32 \<Rightarrow> bool" where
  "linked g p [] e \<longleftrightarrow> True"
| "linked g p (x # xs) e \<longleftrightarrow> Blink (g x) = p \<and> Flink (g x) = head_or xs e \<and> linked g x xs e"

lemma last_or_simps [simp]: "last_or [] p = p" "last_or (x # xs) p = last_or xs x"
  by (simp_all add: last_or_def)

lemma head_or_append [simp]: "head_or (xs @ ys) e = head_or xs (head_or ys e)"
  by (cases xs) simp_all

lemma linked_append:
  "linked g p (xs @ ys) e \<longleftrightarrow> linked g p xs (head_or ys e) \<and> linked g (last_or xs p) ys e"
  by (induction xs arbitrary: p) auto

lemma linked_cong:
  "(\<And>x. x \<in> set xs \<Longrightarrow> Flink (g x) = Flink (h x) \<and> Blink (g x) = Blink (h x)) \<Longrightarrow> linked g p xs e = linked h p xs e"
  by (induction xs arbitrary: p) auto

lemma linked_new_head:
  assumes "linked g p xs e" and "distinct xs"
    and "\<And>x. x \<in> set xs \<Longrightarrow> x \<noteq> head_or xs e \<Longrightarrow> Flink (h x) = Flink (g x) \<and> Blink (h x) = Blink (g x)"
    and "xs \<noteq> [] \<Longrightarrow> Flink (h (hd xs)) = Flink (g (hd xs)) \<and> Blink (h (hd xs)) = q"
  shows "linked h q xs e"
proof (cases xs)
  case (Cons x ys)
  have "linked h x ys e = linked g x ys e"
    using assms(2,3) Cons by (intro linked_cong) auto
  then show ?thesis using assms Cons by simp
qed simp

lemma linked_new_last:
  assumes "linked g p xs e" and "distinct xs"
    and "\<And>x. x \<in> set xs \<Longrightarrow> x \<noteq> last_or xs p \<Longrightarrow> Flink (h x) = Flink (g x) \<and> Blink (h x) = Blink (g x)"
    and "xs \<noteq> [] \<Longrightarrow> Blink (h (last xs)) = Blink (g (last xs)) \<and> Flink (h (last xs)) = f"
  shows "linked h p xs f"
proof (cases xs rule: rev_cases)
  case (snoc ys x)
  have "linked h p ys x = linked g p ys x"
    using assms(2,3) snoc by (intro linked_cong) (auto simp: last_or_def)
  then show ?thesis using assms snoc by (simp add: linked_append)
qed simp

lemma linked_unlink:
  assumes "linked g p (xs @ x # ys) e" and "distinct (xs @ x # ys)"
    and "\<And>z. z \<in> set xs \<union> set ys \<Longrightarrow>
      Flink (h z) = (if xs \<noteq> [] \<and> z = last xs then Flink (g x) else Flink (g z)) \<and>
      Blink (h z) = (if ys \<noteq> [] \<and> z = hd ys then Blink (g x) else Blink (g z))"
  shows "linked h p (xs @ ys) e"
proof -
  have x: "Blink (g x) = last_or xs p" "Flink (g x) = head_or ys e"
    and xs: "linked g p xs x" and ys: "linked g x ys e"
    using assms(1) by (auto simp: linked_append)
  have apart: "z \<noteq> hd ys" if "z \<in> set xs" "ys \<noteq> []" for z
    using assms(2) that by (cases ys) auto
  have apart': "z \<noteq> last xs" if "z \<in> set ys" "xs \<noteq> []" for z
  proof
    assume "z = last xs"
    with that last_in_set [OF that(2)] have "z \<in> set xs \<inter> set ys" by simp
    then show False using assms(2) by auto
  qed
  have "linked h p xs (head_or ys e)"
    by (rule linked_new_last [OF xs]) (use assms(2,3) x apart in \<open>auto simp: last_or_def\<close>)
  moreover have "linked h (last_or xs p) ys e"
    by (rule linked_new_head [OF ys]) (use assms(2,3) x apart' in \<open>cases ys; auto\<close>)+
  ultimately show ?thesis by (simp add: linked_append)
qed


text \<open>What the list operations leave alone.\<close>

definition same_pages :: "MM_PIP \<Rightarrow> MM_PIP \<Rightarrow> bool" where
  "same_pages s s' \<longleftrightarrow> MmTotalPages s' = MmTotalPages s \<and> length (MmPipDatabase s') = length (MmPipDatabase s) \<and>
     (\<forall>i. inside s i \<longrightarrow> State (pg s' i) = State (pg s i) \<and> ReferenceCount (pg s' i) = ReferenceCount (pg s i) \<and>
       ShareCount (pg s' i) = ShareCount (pg s i))"

definition links_kept :: "MM_PIP \<Rightarrow> MM_PIP \<Rightarrow> u32 \<Rightarrow> bool" where
  "links_kept s s' i \<longleftrightarrow> Flink (pg s' i) = Flink (pg s i) \<and> Blink (pg s' i) = Blink (pg s i)"

lemma NIL_big: "unat i < 0x100000 \<Longrightarrow> i \<noteq> NIL"
  by (auto simp: NIL_def)

lemma head_or_NIL: "\<forall>x\<in>set xs. x \<noteq> NIL \<Longrightarrow> head_or xs NIL = NIL \<longleftrightarrow> xs = []"
  by (cases xs) auto

lemma head_or_in: "xs \<noteq> [] \<Longrightarrow> head_or xs e \<in> set xs"
  by (cases xs) auto

lemma last_or_in: "xs \<noteq> [] \<Longrightarrow> last_or xs e \<in> set xs"
  by (simp add: last_or_def)

lemma unlink_effect:
  assumes l: "linked (pg s) NIL (xs @ x # ys) NIL" "distinct (xs @ x # ys)"
    and first: "MmFirstFreePip s = head_or (xs @ x # ys) NIL"
    and r: "\<forall>z\<in>set (xs @ x # ys). inside s z" "\<forall>z\<in>set (xs @ x # ys). z \<noteq> NIL"
  shows "\<exists>s'. MmpUnlinkFreePage s x = Some s' \<and> same_pages s s' \<and>
    linked (pg s') NIL (xs @ ys) NIL \<and> MmFirstFreePip s' = head_or (xs @ ys) NIL \<and>
    MmFirstZeroedPip s' = MmFirstZeroedPip s \<and> FreePageEvents s' = FreePageEvents s \<and>
    (\<forall>z. inside s z \<longrightarrow> z \<notin> set (xs @ x # ys) \<longrightarrow> links_kept s s' z)"
proof -
  have x: "Blink (pg s x) = last_or xs NIL" "Flink (pg s x) = head_or ys NIL"
    using l(1) by (simp_all add: linked_append)
  have xs: "xs \<noteq> [] \<Longrightarrow> last xs \<in> set xs" and ys: "ys \<noteq> [] \<Longrightarrow> hd ys \<in> set ys" by simp_all
  have nil: "last_or xs NIL = NIL \<longleftrightarrow> xs = []" "head_or ys NIL = NIL \<longleftrightarrow> ys = []"
    using r(2) by (auto simp: last_or_def head_or_NIL)
  have hd: "ys \<noteq> [] \<Longrightarrow> head_or ys NIL = hd ys" by (cases ys) simp_all
  have la: "xs \<noteq> [] \<Longrightarrow> last_or xs NIL = last xs" by (simp add: last_or_def)
  have apart: "xs \<noteq> [] \<Longrightarrow> last xs \<noteq> x" "ys \<noteq> [] \<Longrightarrow> hd ys \<noteq> x" "xs \<noteq> [] \<Longrightarrow> ys \<noteq> [] \<Longrightarrow> last xs \<noteq> hd ys"
    using l(2) xs ys by fastforce+
  have ins: "inside s x" "xs \<noteq> [] \<Longrightarrow> inside s (last xs)" "ys \<noteq> [] \<Longrightarrow> inside s (hd ys)"
    using r(1) xs ys by auto
  have nn: "xs \<noteq> [] \<Longrightarrow> last xs \<noteq> NIL" "ys \<noteq> [] \<Longrightarrow> hd ys \<noteq> NIL"
    using r(2) xs ys by auto
  let ?new = "\<lambda>z. if z = x then (pg s x)\<lparr>Flink := NIL, Blink := NIL\<rparr>
        else (pg s z)\<lparr>Flink := (if xs \<noteq> [] \<and> z = last xs then Flink (pg s x) else Flink (pg s z)),
                      Blink := (if ys \<noteq> [] \<and> z = hd ys then Blink (pg s x) else Blink (pg s z))\<rparr>"
  have "\<exists>s'. MmpUnlinkFreePage s x = Some s' \<and> (\<forall>z. inside s z \<longrightarrow> pg s' z = ?new z) \<and>
     MmFirstFreePip s' = (if xs = [] then head_or ys NIL else MmFirstFreePip s) \<and>
     MmFirstZeroedPip s' = MmFirstZeroedPip s \<and> FreePageEvents s' = FreePageEvents s \<and>
     MmTotalPages s' = MmTotalPages s \<and> length (MmPipDatabase s') = length (MmPipDatabase s)"
    using ins apart nn
    by (cases "xs = []"; cases "ys = []") (auto simp: MmpUnlinkFreePage_def x nil hd la)
  then obtain s' where s': "MmpUnlinkFreePage s x = Some s'"
    and pgs: "\<forall>z. inside s z \<longrightarrow> pg s' z = ?new z"
    and rest: "MmFirstFreePip s' = (if xs = [] then head_or ys NIL else MmFirstFreePip s)"
      "MmFirstZeroedPip s' = MmFirstZeroedPip s" "FreePageEvents s' = FreePageEvents s"
      "MmTotalPages s' = MmTotalPages s" "length (MmPipDatabase s') = length (MmPipDatabase s)"
    by (elim exE conjE) (rule that)
  have "linked (pg s') NIL (xs @ ys) NIL"
    by (rule linked_unlink [OF l]) (use l(2) r(1) in \<open>auto simp: pgs\<close>)
  then show ?thesis
    using s' rest first l(2) xs ys
    by (intro exI [of _ s']) (cases xs; cases ys; auto simp: same_pages_def links_kept_def pgs)
qed

lemma linked_insert:
  assumes "linked g NIL xs e" "distinct (x # xs)" "Flink (h x) = head_or xs e" "Blink (h x) = NIL"
    and "\<And>z. z \<in> set xs \<Longrightarrow> Flink (h z) = Flink (g z) \<and> Blink (h z) = (if z = hd xs then x else Blink (g z))"
  shows "linked h NIL (x # xs) e"
proof -
  have "linked h x xs e"
    by (rule linked_new_head [OF assms(1)]) (use assms(2,5) in \<open>cases xs; auto\<close>)+
  then show ?thesis using assms by simp
qed

text \<open>The two insertions are one operation on the head they are given.\<close>

definition inserted :: "MM_PIP \<Rightarrow> u32 \<Rightarrow> u32 list \<Rightarrow> MM_PIP \<Rightarrow> bool" where
  "inserted s x xs s' \<longleftrightarrow> same_pages s s' \<and> linked (pg s') NIL (x # xs) NIL \<and>
     FreePageEvents s' = FreePageEvents s \<and>
     (\<forall>z. inside s z \<longrightarrow> z \<notin> set (x # xs) \<longrightarrow> links_kept s s' z)"

lemma insert_effect:
  assumes l: "linked (pg s) NIL xs NIL" "distinct (x # xs)"
    and r: "inside s x" "\<forall>z\<in>set xs. inside s z" "\<forall>z\<in>set xs. z \<noteq> NIL"
  shows "MmFirstFreePip s = head_or xs NIL \<Longrightarrow> \<exists>s'. MmpInsertFreePageHead s x = Some s' \<and> inserted s x xs s' \<and>
      MmFirstFreePip s' = x \<and> MmFirstZeroedPip s' = MmFirstZeroedPip s"
    and "MmFirstZeroedPip s = head_or xs NIL \<Longrightarrow> \<exists>s'. MmpInsertZeroedPageHead s x = Some s' \<and> inserted s x xs s' \<and>
      MmFirstZeroedPip s' = x \<and> MmFirstFreePip s' = MmFirstFreePip s"
proof -
  have hd: "xs \<noteq> [] \<Longrightarrow> head_or xs NIL = hd xs \<and> hd xs \<in> set xs \<and> hd xs \<noteq> NIL \<and> inside s (hd xs) \<and> hd xs \<noteq> x"
    using r l(2) by (cases xs) auto
  let ?new = "\<lambda>s'. (\<forall>z. inside s z \<longrightarrow> pg s' z = (if z = x then (pg s x)\<lparr>Flink := head_or xs NIL, Blink := NIL\<rparr>
        else (pg s z)\<lparr>Blink := (if xs \<noteq> [] \<and> z = hd xs then x else Blink (pg s z))\<rparr>)) \<and>
      FreePageEvents s' = FreePageEvents s \<and> MmTotalPages s' = MmTotalPages s \<and>
      length (MmPipDatabase s') = length (MmPipDatabase s)"
  have made: "inserted s x xs s'" if "?new s'" for s'
  proof -
    have "linked (pg s') NIL (x # xs) NIL"
      by (rule linked_insert [OF l]) (use l(2) r that in \<open>auto split: if_splits\<close>)
    then show ?thesis
      using that hd by (auto simp: inserted_def same_pages_def links_kept_def)
  qed
  show "\<exists>s'. MmpInsertFreePageHead s x = Some s' \<and> inserted s x xs s' \<and>
      MmFirstFreePip s' = x \<and> MmFirstZeroedPip s' = MmFirstZeroedPip s" if first: "MmFirstFreePip s = head_or xs NIL"
  proof -
    have "\<exists>s'. MmpInsertFreePageHead s x = Some s' \<and> ?new s' \<and>
        MmFirstFreePip s' = x \<and> MmFirstZeroedPip s' = MmFirstZeroedPip s"
      using r(1) hd first by (cases "xs = []") (auto simp: MmpInsertFreePageHead_def)
    then show ?thesis using made by metis
  qed
  show "\<exists>s'. MmpInsertZeroedPageHead s x = Some s' \<and> inserted s x xs s' \<and>
      MmFirstZeroedPip s' = x \<and> MmFirstFreePip s' = MmFirstFreePip s" if first: "MmFirstZeroedPip s = head_or xs NIL"
  proof -
    have "\<exists>s'. MmpInsertZeroedPageHead s x = Some s' \<and> ?new s' \<and>
        MmFirstZeroedPip s' = x \<and> MmFirstFreePip s' = MmFirstFreePip s"
      using r(1) hd first by (cases "xs = []") (auto simp: MmpInsertZeroedPageHead_def)
    then show ?thesis using made by metis
  qed
qed

section \<open>The invariant\<close>

text \<open>A list from \<open>first\<close> that holds exactly the pages of one state, once each.\<close>

definition page_list :: "MM_PIP \<Rightarrow> u32 \<Rightarrow> u8 \<Rightarrow> u32 list \<Rightarrow> bool" where
  "page_list s first st xs \<longleftrightarrow>
     distinct xs \<and> set xs = {i. i < MmTotalPages s \<and> State (pg s i) = st} \<and>
     first = head_or xs NIL \<and> linked (pg s) NIL xs NIL"

text \<open>
  \<open>pend\<close> is the page the zero page thread holds between its two sections. It is the only active page
  without a reference.
\<close>

definition pages_ok :: "MM_PIP \<Rightarrow> u32 option \<Rightarrow> bool" where
  "pages_ok s pend \<longleftrightarrow>
     length (MmPipDatabase s) = unat (MmTotalPages s) \<and> unat (MmTotalPages s) \<le> 0x100000 \<and>
     (\<forall>i < MmTotalPages s. State (pg s i) \<in> {PIP_STATE_FREE, PIP_STATE_ACTIVE, PIP_STATE_RESERVED, PIP_STATE_ZEROED} \<and>
       (0 < ReferenceCount (pg s i) \<longrightarrow> State (pg s i) = PIP_STATE_ACTIVE) \<and>
       (State (pg s i) = PIP_STATE_ACTIVE \<and> ReferenceCount (pg s i) = 0 \<longleftrightarrow> pend = Some i)) \<and>
     (\<forall>i. pend = Some i \<longrightarrow> i < MmTotalPages s)"

definition pip_inv :: "MM_PIP \<Rightarrow> u32 option \<Rightarrow> u32 list \<Rightarrow> u32 list \<Rightarrow> bool" where
  "pip_inv s pend fs zs \<longleftrightarrow> pages_ok s pend \<and>
     page_list s (MmFirstFreePip s) PIP_STATE_FREE fs \<and> page_list s (MmFirstZeroedPip s) PIP_STATE_ZEROED zs"

lemma inside_less: "length (MmPipDatabase s) = unat (MmTotalPages s) \<Longrightarrow> inside s i \<longleftrightarrow> i < MmTotalPages s"
  by (simp add: word_less_nat_alt)

lemma pages_ok_inside: "pages_ok s pend \<Longrightarrow> inside s i \<longleftrightarrow> i < MmTotalPages s"
  by (auto simp: pages_ok_def word_less_nat_alt)

lemma pages_ok_NIL: "pages_ok s pend \<Longrightarrow> i < MmTotalPages s \<Longrightarrow> i \<noteq> NIL"
  by (rule NIL_big) (auto simp: pages_ok_def word_less_nat_alt)

lemma page_list_members:
  assumes "pages_ok s pend" "page_list s first st xs"
  shows "\<forall>z\<in>set xs. inside s z" "\<forall>z\<in>set xs. z \<noteq> NIL"
  using assms pages_ok_NIL [OF assms(1)] by (auto simp: page_list_def pages_ok_inside [OF assms(1)])

lemma page_list_NIL_iff:
  assumes "pages_ok s pend" "page_list s first st xs"
  shows "first = NIL \<longleftrightarrow> xs = []"
  using page_list_members(2) [OF assms] assms(2) by (simp add: page_list_def head_or_NIL)

text \<open>The list of another state is untouched when its pages keep state and links.\<close>

lemma page_list_frame:
  assumes "page_list s first st xs" "MmTotalPages s' = MmTotalPages s"
    and "\<And>i. i < MmTotalPages s \<Longrightarrow> State (pg s' i) = st \<longleftrightarrow> State (pg s i) = st"
    and "\<And>i. i < MmTotalPages s \<Longrightarrow> State (pg s i) = st \<Longrightarrow> links_kept s s' i"
  shows "page_list s' first st xs"
proof -
  have "linked (pg s') NIL xs NIL = linked (pg s) NIL xs NIL"
    by (rule linked_cong) (use assms in \<open>auto simp: page_list_def links_kept_def\<close>)
  then show ?thesis using assms by (auto simp: page_list_def)
qed

text \<open>What an operation on page \<open>x\<close> leaves alone.\<close>

definition same_others :: "u32 \<Rightarrow> MM_PIP \<Rightarrow> MM_PIP \<Rightarrow> bool" where
  "same_others x s s' \<longleftrightarrow> MmTotalPages s' = MmTotalPages s \<and> length (MmPipDatabase s') = length (MmPipDatabase s) \<and>
     (\<forall>i < MmTotalPages s. i \<noteq> x \<longrightarrow> State (pg s' i) = State (pg s i) \<and>
       ReferenceCount (pg s' i) = ReferenceCount (pg s i) \<and> ShareCount (pg s' i) = ShareCount (pg s i))"

definition same_counts :: "PIP \<Rightarrow> PIP \<Rightarrow> bool" where
  "same_counts p q \<longleftrightarrow> State p = State q \<and> ReferenceCount p = ReferenceCount q \<and> ShareCount p = ShareCount q"

lemma states_distinct [simp]:
  "PIP_STATE_FREE \<noteq> PIP_STATE_ACTIVE" "PIP_STATE_FREE \<noteq> PIP_STATE_RESERVED" "PIP_STATE_FREE \<noteq> PIP_STATE_ZEROED"
  "PIP_STATE_ACTIVE \<noteq> PIP_STATE_FREE" "PIP_STATE_RESERVED \<noteq> PIP_STATE_FREE" "PIP_STATE_ZEROED \<noteq> PIP_STATE_FREE"
  "PIP_STATE_ACTIVE \<noteq> PIP_STATE_RESERVED" "PIP_STATE_ACTIVE \<noteq> PIP_STATE_ZEROED"
  "PIP_STATE_RESERVED \<noteq> PIP_STATE_ACTIVE" "PIP_STATE_ZEROED \<noteq> PIP_STATE_ACTIVE"
  "PIP_STATE_RESERVED \<noteq> PIP_STATE_ZEROED" "PIP_STATE_ZEROED \<noteq> PIP_STATE_RESERVED"
  by (simp_all add: pip_states)

text \<open>A page leaves the free list for the state \<open>ACTIVE\<close>.\<close>

lemma take_lists:
  assumes inv: "pip_inv s pend fs zs" and x: "x \<in> set fs"
    and f: "\<And>p. Flink (f p) = Flink p \<and> Blink (f p) = Blink p \<and> State (f p) = PIP_STATE_ACTIVE"
  shows "\<exists>s1 s'. MmpUnlinkFreePage s x = Some s1 \<and> set_page x f s1 = Some s' \<and>
    page_list s' (MmFirstFreePip s') PIP_STATE_FREE (remove1 x fs) \<and>
    page_list s' (MmFirstZeroedPip s') PIP_STATE_ZEROED zs \<and>
    same_others x s s' \<and> FreePageEvents s' = FreePageEvents s \<and>
    (\<exists>p. pg s' x = f p \<and> same_counts p (pg s x))"
proof -
  have ok: "pages_ok s pend" and pf: "page_list s (MmFirstFreePip s) PIP_STATE_FREE fs"
    and pz: "page_list s (MmFirstZeroedPip s) PIP_STATE_ZEROED zs"
    using inv by (simp_all add: pip_inv_def)
  note mem = page_list_members [OF ok pf] and ins = pages_ok_inside [OF ok]
  obtain ys ws where fs: "fs = ys @ x # ws" using x by (meson split_list)
  have d: "distinct fs" and sf: "set fs = {i. i < MmTotalPages s \<and> State (pg s i) = PIP_STATE_FREE}"
    and l: "MmFirstFreePip s = head_or fs NIL" "linked (pg s) NIL fs NIL"
    using pf by (simp_all add: page_list_def)
  obtain s1 where s1: "MmpUnlinkFreePage s x = Some s1" "same_pages s s1" "linked (pg s1) NIL (ys @ ws) NIL"
    "MmFirstFreePip s1 = head_or (ys @ ws) NIL" "MmFirstZeroedPip s1 = MmFirstZeroedPip s"
    "FreePageEvents s1 = FreePageEvents s" "\<forall>z. inside s z \<longrightarrow> z \<notin> set fs \<longrightarrow> links_kept s s1 z"
    using unlink_effect [of s ys x ws] d l mem unfolding fs by blast
  have rm: "remove1 x fs = ys @ ws" using d by (simp add: fs remove1_append)
  have xin: "inside s1 x" "inside s x" "x < MmTotalPages s" using mem x s1(2) ins by (auto simp: same_pages_def)
  define s' where "s' = s1\<lparr>MmPipDatabase := (MmPipDatabase s1)[unat x := f (pg s1 x)]\<rparr>"
  have pgs': "pg s' i = (if i = x then f (pg s1 x) else pg s1 i)" for i
    using xin by (simp add: s'_def)
  have st: "State (pg s1 i) = State (pg s i) \<and> ReferenceCount (pg s1 i) = ReferenceCount (pg s i) \<and>
      ShareCount (pg s1 i) = ShareCount (pg s i)" if "i < MmTotalPages s" for i
    using s1(2) that ins by (simp add: same_pages_def)
  have tot: "MmTotalPages s' = MmTotalPages s" "length (MmPipDatabase s') = length (MmPipDatabase s)"
    using s1(2) by (simp_all add: s'_def same_pages_def)
  have "linked (pg s') NIL (ys @ ws) NIL = linked (pg s1) NIL (ys @ ws) NIL"
    by (rule linked_cong) (use f pgs' in auto)
  moreover have "set (ys @ ws) = {i. i < MmTotalPages s' \<and> State (pg s' i) = PIP_STATE_FREE}"
    using sf d f st tot by (auto simp: fs pgs' set_eq_iff)
  moreover have ff: "MmFirstFreePip s' = head_or (ys @ ws) NIL" "distinct (ys @ ws)"
    using s1(4) d unfolding fs by (simp_all add: s'_def)
  ultimately have "page_list s' (MmFirstFreePip s') PIP_STATE_FREE (remove1 x fs)"
    using ff s1(3) by (simp add: page_list_def rm)
  moreover have "page_list s' (MmFirstZeroedPip s) PIP_STATE_ZEROED zs"
  proof (rule page_list_frame [OF pz tot(1)])
    show "State (pg s' i) = PIP_STATE_ZEROED \<longleftrightarrow> State (pg s i) = PIP_STATE_ZEROED" if "i < MmTotalPages s" for i
      using that st f sf x by (auto simp: pgs')
    show "links_kept s s' i" if "i < MmTotalPages s" "State (pg s i) = PIP_STATE_ZEROED" for i
      using that s1(7) sf f ins x by (auto simp: links_kept_def pgs')
  qed
  moreover have "same_others x s s'" using tot st pgs' by (simp add: same_others_def)
  moreover have "set_page x f s1 = Some s'" using xin by (simp add: s'_def)
  moreover have "MmFirstZeroedPip s' = MmFirstZeroedPip s" "FreePageEvents s' = FreePageEvents s"
    using s1 by (simp_all add: s'_def)
  moreover have "\<exists>p. pg s' x = f p \<and> same_counts p (pg s x)"
    using pgs' st [OF xin(3)] by (auto simp: same_counts_def)
  ultimately show ?thesis using s1(1) by auto
qed

text \<open>An active page, rewritten to \<open>p\<close>, enters the free list or the list of zeroed pages.\<close>

abbreviation rewrite :: "MM_PIP \<Rightarrow> u32 \<Rightarrow> PIP \<Rightarrow> MM_PIP" where
  "rewrite s x p \<equiv> s\<lparr>MmPipDatabase := (MmPipDatabase s)[unat x := p]\<rparr>"

lemma put_lists:
  assumes inv: "pip_inv s pend fs zs" and x: "x < MmTotalPages s" "State (pg s x) \<notin> {PIP_STATE_FREE, PIP_STATE_ZEROED}"
  shows "State p = PIP_STATE_FREE \<Longrightarrow> \<exists>s'. MmpInsertFreePageHead (rewrite s x p) x = Some s' \<and>
      page_list s' (MmFirstFreePip s') PIP_STATE_FREE (x # fs) \<and>
      page_list s' (MmFirstZeroedPip s') PIP_STATE_ZEROED zs \<and>
      same_others x s s' \<and> FreePageEvents s' = FreePageEvents s \<and> same_counts (pg s' x) p"
    and "State p = PIP_STATE_ZEROED \<Longrightarrow> \<exists>s'. MmpInsertZeroedPageHead (rewrite s x p) x = Some s' \<and>
      page_list s' (MmFirstFreePip s') PIP_STATE_FREE fs \<and>
      page_list s' (MmFirstZeroedPip s') PIP_STATE_ZEROED (x # zs) \<and>
      same_others x s s' \<and> FreePageEvents s' = FreePageEvents s \<and> same_counts (pg s' x) p"
proof -
  have ok: "pages_ok s pend" and pf: "page_list s (MmFirstFreePip s) PIP_STATE_FREE fs"
    and pz: "page_list s (MmFirstZeroedPip s) PIP_STATE_ZEROED zs"
    using inv by (simp_all add: pip_inv_def)
  note ins = pages_ok_inside [OF ok]
  let ?s1 = "rewrite s x p"
  have xin: "inside s x" using x ins by simp
  have nin: "x \<notin> set fs" "x \<notin> set zs" using pf pz x(2) by (auto simp: page_list_def)
  have l: "linked (pg ?s1) NIL fs NIL" "linked (pg ?s1) NIL zs NIL"
  proof -
    have "linked (pg ?s1) NIL fs NIL = linked (pg s) NIL fs NIL" by (rule linked_cong) (use nin xin in auto)
    moreover have "linked (pg ?s1) NIL zs NIL = linked (pg s) NIL zs NIL" by (rule linked_cong) (use nin xin in auto)
    ultimately show "linked (pg ?s1) NIL fs NIL" "linked (pg ?s1) NIL zs NIL"
      using pf pz by (simp_all add: page_list_def)
  qed
  have dist: "distinct (x # fs)" "distinct (x # zs)" using nin pf pz by (simp_all add: page_list_def)
  have mem: "\<forall>z\<in>set fs. inside ?s1 z" "\<forall>z\<in>set fs. z \<noteq> NIL" "\<forall>z\<in>set zs. inside ?s1 z" "\<forall>z\<in>set zs. z \<noteq> NIL"
    using page_list_members [OF ok pf] page_list_members [OF ok pz] by simp_all
  have rest: "page_list s' x (State p) (x # xs) \<and> same_others x s s' \<and> FreePageEvents s' = FreePageEvents s \<and>
      same_counts (pg s' x) p \<and> (\<forall>i < MmTotalPages s. i \<notin> set (x # xs) \<longrightarrow> links_kept s s' i)"
    if "inserted ?s1 x xs s'" "page_list s first (State p) xs" "x \<notin> set xs" for s' xs first
    using that xin ins x(1)
    by (auto simp: inserted_def same_pages_def page_list_def same_others_def same_counts_def links_kept_def)
  show "\<exists>s'. MmpInsertFreePageHead ?s1 x = Some s' \<and>
      page_list s' (MmFirstFreePip s') PIP_STATE_FREE (x # fs) \<and>
      page_list s' (MmFirstZeroedPip s') PIP_STATE_ZEROED zs \<and>
      same_others x s s' \<and> FreePageEvents s' = FreePageEvents s \<and> same_counts (pg s' x) p"
    if p: "State p = PIP_STATE_FREE"
  proof -
    obtain s' where s': "MmpInsertFreePageHead ?s1 x = Some s'" "inserted ?s1 x fs s'"
        "MmFirstFreePip s' = x" "MmFirstZeroedPip s' = MmFirstZeroedPip s"
      using insert_effect(1) [OF l(1) dist(1) _ mem(1,2)] xin pf by (auto simp: page_list_def)
    note r = rest [OF s'(2) pf [folded p] nin(1)]
    have "page_list s' (MmFirstZeroedPip s) PIP_STATE_ZEROED zs"
      by (rule page_list_frame [OF pz])
        (use r pf x p in \<open>auto simp: same_others_def page_list_def same_counts_def; metis\<close>)+
    then show ?thesis using s' r p by auto
  qed
  show "\<exists>s'. MmpInsertZeroedPageHead ?s1 x = Some s' \<and>
      page_list s' (MmFirstFreePip s') PIP_STATE_FREE fs \<and>
      page_list s' (MmFirstZeroedPip s') PIP_STATE_ZEROED (x # zs) \<and>
      same_others x s s' \<and> FreePageEvents s' = FreePageEvents s \<and> same_counts (pg s' x) p"
    if p: "State p = PIP_STATE_ZEROED"
  proof -
    obtain s' where s': "MmpInsertZeroedPageHead ?s1 x = Some s'" "inserted ?s1 x zs s'"
        "MmFirstZeroedPip s' = x" "MmFirstFreePip s' = MmFirstFreePip s"
      using insert_effect(2) [OF l(2) dist(2) _ mem(3,4)] xin pz by (auto simp: page_list_def)
    note r = rest [OF s'(2) pz [folded p] nin(2)]
    have "page_list s' (MmFirstFreePip s) PIP_STATE_FREE fs"
      by (rule page_list_frame [OF pf])
        (use r pz x p in \<open>auto simp: same_others_def page_list_def same_counts_def; metis\<close>)+
    then show ?thesis using s' r p by auto
  qed
qed

lemma pages_ok_change:
  assumes "pages_ok s pend" "same_others x s s'" "x < MmTotalPages s"
    and "State (pg s' x) \<in> {PIP_STATE_FREE, PIP_STATE_ACTIVE, PIP_STATE_ZEROED}"
    and "0 < ReferenceCount (pg s' x) \<longrightarrow> State (pg s' x) = PIP_STATE_ACTIVE"
    and "\<And>i. pend' = Some i \<longleftrightarrow>
      (if i = x then State (pg s' x) = PIP_STATE_ACTIVE \<and> ReferenceCount (pg s' x) = 0 else pend = Some i)"
  shows "pages_ok s' pend'"
  unfolding pages_ok_def
proof (intro conjI allI impI)
  show "length (MmPipDatabase s') = unat (MmTotalPages s')" "unat (MmTotalPages s') \<le> 0x100000"
    using assms(1,2) by (auto simp: pages_ok_def same_others_def)
  fix i assume i: "i < MmTotalPages s'"
  then have i': "i < MmTotalPages s" using assms(2) by (simp add: same_others_def)
  show "State (pg s' i) \<in> {PIP_STATE_FREE, PIP_STATE_ACTIVE, PIP_STATE_RESERVED, PIP_STATE_ZEROED}"
      "0 < ReferenceCount (pg s' i) \<Longrightarrow> State (pg s' i) = PIP_STATE_ACTIVE"
      "State (pg s' i) = PIP_STATE_ACTIVE \<and> ReferenceCount (pg s' i) = 0 \<longleftrightarrow> pend' = Some i"
    using assms i' by (cases "i = x"; auto simp: pages_ok_def same_others_def)+
next
  fix i assume "pend' = Some i"
  then show "i < MmTotalPages s'"
    using assms(1,2,3) assms(6) [of i] by (cases "i = x") (auto simp: pages_ok_def same_others_def)
qed

definition keeps_reserved :: "MM_PIP \<Rightarrow> MM_PIP \<Rightarrow> bool" where
  "keeps_reserved s s' \<longleftrightarrow> MmTotalPages s' = MmTotalPages s \<and>
     (\<forall>i < MmTotalPages s. State (pg s' i) = PIP_STATE_RESERVED \<longleftrightarrow> State (pg s i) = PIP_STATE_RESERVED)"

lemma keeps_reserved_refl [simp]: "keeps_reserved s s"
  by (simp add: keeps_reserved_def)

lemma keeps_reserved_trans: "keeps_reserved s t \<Longrightarrow> keeps_reserved t u \<Longrightarrow> keeps_reserved s u"
  by (simp add: keeps_reserved_def)

lemma keeps_reserved_other:
  "same_others x s s' \<Longrightarrow> State (pg s x) \<noteq> PIP_STATE_RESERVED \<Longrightarrow> State (pg s' x) \<noteq> PIP_STATE_RESERVED \<Longrightarrow>
   keeps_reserved s s'"
  by (auto simp: keeps_reserved_def same_others_def)

section \<open>The operations keep the invariant\<close>

lemma pip_inv_pages: "pip_inv s pend fs zs \<Longrightarrow> pages_ok s pend"
  by (simp add: pip_inv_def)

lemma pip_inv_free: "pip_inv s pend fs zs \<Longrightarrow> set fs = {i. i < MmTotalPages s \<and> State (pg s i) = PIP_STATE_FREE}"
  by (simp add: pip_inv_def page_list_def)

lemma pip_inv_first: "pip_inv s pend fs zs \<Longrightarrow> MmFirstFreePip s = head_or fs NIL"
  by (simp add: pip_inv_def page_list_def)

lemma pip_inv_NIL_iff: "pip_inv s pend fs zs \<Longrightarrow> MmFirstFreePip s = NIL \<longleftrightarrow> fs = []"
  by (auto simp: pip_inv_def dest: page_list_NIL_iff)

lemma not_pending:
  "pages_ok s pend \<Longrightarrow> x < MmTotalPages s \<Longrightarrow> State (pg s x) \<noteq> PIP_STATE_ACTIVE \<or> 0 < ReferenceCount (pg s x) \<Longrightarrow>
   pend \<noteq> Some x"
  by (auto simp: pages_ok_def)

lemma take_page_ok:
  assumes inv: "pip_inv s pend fs zs" and x: "x \<in> set fs"
  shows "\<exists>s'. take_page x s = Some s' \<and> pip_inv s' pend (remove1 x fs) zs \<and> same_others x s s' \<and>
    State (pg s' x) = PIP_STATE_ACTIVE \<and> ReferenceCount (pg s' x) = 1 \<and> ShareCount (pg s' x) = 1 \<and>
    keeps_reserved s s' \<and> FreePageEvents s' = FreePageEvents s"
proof -
  let ?f = "\<lambda>p. p\<lparr>State := PIP_STATE_ACTIVE, ReferenceCount := 1, ShareCount := 1, PteAddress := 0\<rparr>"
  obtain s1 s' p where s': "MmpUnlinkFreePage s x = Some s1" "set_page x ?f s1 = Some s'"
      "page_list s' (MmFirstFreePip s') PIP_STATE_FREE (remove1 x fs)"
      "page_list s' (MmFirstZeroedPip s') PIP_STATE_ZEROED zs"
      "same_others x s s'" "FreePageEvents s' = FreePageEvents s" "pg s' x = ?f p"
    using take_lists [OF inv x, of ?f] by auto
  have ok: "pages_ok s pend" and free: "x < MmTotalPages s" "State (pg s x) = PIP_STATE_FREE"
    using inv x pip_inv_free [OF inv] by (auto simp: pip_inv_def)
  have "pend \<noteq> Some x" using not_pending [OF ok free(1)] free(2) by simp
  then have "pages_ok s' pend"
    by (intro pages_ok_change [OF ok s'(5) free(1)]) (auto simp: s'(7))
  then show ?thesis
    using s' free keeps_reserved_other [OF s'(5)] by (simp add: take_page_def pip_inv_def)
qed

lemma MmAllocatePhysicalPage_ok:
  assumes inv: "pip_inv s pend fs zs"
  shows "fs = [] \<Longrightarrow> MmAllocatePhysicalPage s = Some (Ok (s, 0))"
    and "fs = x # fs' \<Longrightarrow> \<exists>s'. MmAllocatePhysicalPage s = Some (Ok (s', x * 4096)) \<and> take_page x s = Some s'"
proof -
  note nil = pip_inv_NIL_iff [OF inv] and first = pip_inv_first [OF inv]
  show "fs = [] \<Longrightarrow> MmAllocatePhysicalPage s = Some (Ok (s, 0))"
    by (simp add: MmAllocatePhysicalPage_def nil)
  assume fs: "fs = x # fs'"
  then have x: "x < MmTotalPages s" "State (pg s x) = PIP_STATE_FREE"
    using pip_inv_free [OF inv] by auto
  obtain s' where "take_page x s = Some s'" using take_page_ok [OF inv, of x] fs by auto
  then show "\<exists>s'. MmAllocatePhysicalPage s = Some (Ok (s', x * 4096)) \<and> take_page x s = Some s'"
    using x fs nil first pages_ok_inside [OF pip_inv_pages [OF inv]]
    by (simp add: MmAllocatePhysicalPage_def Let_def not_le)
qed

text \<open>A page that somebody holds: active with a reference.\<close>

definition page_held :: "MM_PIP \<Rightarrow> u32 \<Rightarrow> bool" where
  "page_held s a \<longleftrightarrow> (case page s (a div 4096) of None \<Rightarrow> False
     | Some p \<Rightarrow> State p = PIP_STATE_ACTIVE \<and> 0 < ReferenceCount p)"

lemma page_heldD:
  assumes "page_held s a" "pages_ok s pend"
  shows "a div 4096 < MmTotalPages s" "inside s (a div 4096)" "State (pg s (a div 4096)) = PIP_STATE_ACTIVE"
    "0 < ReferenceCount (pg s (a div 4096))" "pend \<noteq> Some (a div 4096)"
proof -
  show i: "inside s (a div 4096)"
    using assms(1) by (auto simp: page_held_def page_def split: option.splits simp: rd_eq_Some_iff)
  then show t: "a div 4096 < MmTotalPages s" using pages_ok_inside [OF assms(2)] by simp
  show st: "State (pg s (a div 4096)) = PIP_STATE_ACTIVE" and rc: "0 < ReferenceCount (pg s (a div 4096))"
    using assms(1) i by (simp_all add: page_held_def)
  show "pend \<noteq> Some (a div 4096)" using not_pending [OF assms(2) t] rc by simp
qed

lemma rewrite_active:
  assumes inv: "pip_inv s pend fs zs" and x: "x < MmTotalPages s" "State (pg s x) = PIP_STATE_ACTIVE" "pend \<noteq> Some x"
    and p: "Flink p = Flink (pg s x)" "Blink p = Blink (pg s x)" "State p = PIP_STATE_ACTIVE" "0 < ReferenceCount p"
  shows "pip_inv (rewrite s x p) pend fs zs" "same_others x s (rewrite s x p)" "keeps_reserved s (rewrite s x p)"
proof -
  have ok: "pages_ok s pend" using inv by (simp add: pip_inv_def)
  note ins = pages_ok_inside [OF ok]
  have xin: "inside s x" using x ins by simp
  show so: "same_others x s (rewrite s x p)" using xin by (simp add: same_others_def)
  show "keeps_reserved s (rewrite s x p)" using xin p x by (simp add: keeps_reserved_def)
  have "pages_ok (rewrite s x p) pend"
    by (rule pages_ok_change [OF ok so x(1)]) (use xin p x in auto)
  moreover have "page_list (rewrite s x p) first st xs" if "page_list s first st xs" for first st xs
    by (rule page_list_frame [OF that]) (use xin p x in \<open>auto simp: links_kept_def\<close>)
  ultimately show "pip_inv (rewrite s x p) pend fs zs" using inv by (simp add: pip_inv_def)
qed

lemma put_free_ok:
  assumes inv: "pip_inv s pend fs zs" and x: "x < MmTotalPages s" "State (pg s x) = PIP_STATE_ACTIVE" "pend \<noteq> Some x"
    and p: "State p = PIP_STATE_FREE" "ReferenceCount p = 0"
  shows "\<exists>s'. MmpInsertFreePageHead (rewrite s x p) x = Some s' \<and> pip_inv s' pend (x # fs) zs \<and>
    same_others x s s' \<and> keeps_reserved s s' \<and> FreePageEvents s' = FreePageEvents s \<and> same_counts (pg s' x) p"
proof -
  have ok: "pages_ok s pend" using inv by (simp add: pip_inv_def)
  obtain s' where s': "MmpInsertFreePageHead (rewrite s x p) x = Some s'"
      "page_list s' (MmFirstFreePip s') PIP_STATE_FREE (x # fs)"
      "page_list s' (MmFirstZeroedPip s') PIP_STATE_ZEROED zs"
      "same_others x s s'" "FreePageEvents s' = FreePageEvents s" "same_counts (pg s' x) p"
    using put_lists(1) [OF inv x(1) _ p(1)] x(2) by auto
  have "pages_ok s' pend"
    by (rule pages_ok_change [OF ok s'(4) x(1)]) (use s'(6) p x(3) in \<open>auto simp: same_counts_def\<close>)
  then show ?thesis
    using s' p x keeps_reserved_other [OF s'(4)] by (auto simp: pip_inv_def same_counts_def)
qed

lemma div_4096: "a div (4096 :: u32) = a div PAGE_SIZE"
  by (simp add: PAGE_SIZE_def)

lemma word_pred_pos: "0 < (n :: u16) \<Longrightarrow> n - 1 \<noteq> 0 \<Longrightarrow> 0 < n - 1"
  by (simp add: word_gt_0)

lemma MmFreePhysicalPage_ok:
  assumes inv: "pip_inv s pend fs zs" and held: "page_held s a" and aligned: "a mod 4096 = 0"
  shows "\<exists>s' fs'. MmFreePhysicalPage s a = Some s' \<and> pip_inv s' pend fs' zs \<and> same_others (a div 4096) s s' \<and>
    keeps_reserved s s' \<and>
    (if ReferenceCount (pg s (a div 4096)) = 1
     then fs' = a div 4096 # fs \<and> State (pg s' (a div 4096)) = PIP_STATE_FREE \<and> FreePageEvents s' = FreePageEvents s + 1
     else fs' = fs \<and> State (pg s' (a div 4096)) = PIP_STATE_ACTIVE \<and> FreePageEvents s' = FreePageEvents s \<and>
       ReferenceCount (pg s' (a div 4096)) = ReferenceCount (pg s (a div 4096)) - 1)"
proof -
  let ?x = "a div 4096"
  note h = page_heldD [OF held pip_inv_pages [OF inv]]
  define q where "q = (if 0 < ShareCount (pg s ?x) then ShareCount_update (\<lambda>n. n - 1) (pg s ?x) else pg s ?x)"
  have q: "Flink q = Flink (pg s ?x)" "Blink q = Blink (pg s ?x)" "State q = State (pg s ?x)"
      "ReferenceCount q = ReferenceCount (pg s ?x)"
    by (simp_all add: q_def)
  show ?thesis
  proof (cases "ReferenceCount (pg s ?x) = 1")
    case True
    let ?p = "(ReferenceCount_update (\<lambda>n. n - 1) q)\<lparr>State := PIP_STATE_FREE\<rparr>"
    obtain s' where s': "MmpInsertFreePageHead (rewrite s ?x ?p) ?x = Some s'" "pip_inv s' pend (?x # fs) zs"
        "same_others ?x s s'" "keeps_reserved s s'" "FreePageEvents s' = FreePageEvents s" "same_counts (pg s' ?x) ?p"
      using put_free_ok [OF inv h(1) h(3) h(5), of ?p] True q by auto
    have "MmFreePhysicalPage s a = Some (s'\<lparr>FreePageEvents := FreePageEvents s + 1\<rparr>)"
      using aligned h True s'(1,5)
      by (cases "0 < ShareCount (pg s ?x)") (simp_all add: MmFreePhysicalPage_def Let_def not_le q_def)
    moreover have "pip_inv (s'\<lparr>FreePageEvents := FreePageEvents s + 1\<rparr>) pend (?x # fs) zs"
      using s'(2) by (simp add: pip_inv_def pages_ok_def page_list_def)
    ultimately show ?thesis
      using True s'(3,4,6) by (auto simp: same_others_def keeps_reserved_def same_counts_def q)
  next
    case False
    let ?p = "ReferenceCount_update (\<lambda>n. n - 1) q"
    have rc: "0 < ReferenceCount (pg s ?x) - 1"
      using False h(4) by (intro word_pred_pos) auto
    note r = rewrite_active [OF inv h(1) h(3) h(5), of ?p]
    have "MmFreePhysicalPage s a = Some (rewrite s ?x ?p)"
      using aligned h False rc
      by (cases "0 < ShareCount (pg s ?x)") (simp_all add: MmFreePhysicalPage_def Let_def not_le q_def)
    then show ?thesis using r rc h q False by auto
  qed
qed

lemma MmDereferencePhysicalPage_ok:
  assumes inv: "pip_inv s pend fs zs" and held: "page_held s a"
  shows "\<exists>s' fs'. MmDereferencePhysicalPage s a = Some s' \<and> pip_inv s' pend fs' zs \<and> keeps_reserved s s'"
proof -
  let ?x = "a div 4096"
  note h = page_heldD [OF held pip_inv_pages [OF inv]]
  show ?thesis
  proof (cases "ReferenceCount (pg s ?x) = 1")
    case True
    let ?p = "(ReferenceCount_update (\<lambda>n. n - 1) (pg s ?x))\<lparr>ShareCount := 0, State := PIP_STATE_FREE\<rparr>"
    obtain s' where s': "MmpInsertFreePageHead (rewrite s ?x ?p) ?x = Some s'" "pip_inv s' pend (?x # fs) zs"
        "keeps_reserved s s'"
      using put_free_ok [OF inv h(1) h(3) h(5), of ?p] True by auto
    then have "MmDereferencePhysicalPage s a = Some s'"
      using h True by (simp add: MmDereferencePhysicalPage_def Let_def not_le)
    then show ?thesis using s' by auto
  next
    case False
    let ?p = "ReferenceCount_update (\<lambda>n. n - 1) (pg s ?x)"
    have rc: "0 < ReferenceCount (pg s ?x) - 1"
      using False h(4) by (intro word_pred_pos) auto
    note r = rewrite_active [OF inv h(1) h(3) h(5), of ?p]
    have "MmDereferencePhysicalPage s a = Some (rewrite s ?x ?p)"
      using h False rc by (simp add: MmDereferencePhysicalPage_def Let_def not_le)
    then show ?thesis using r rc h False by auto
  qed
qed

lemma MmReferencePhysicalPage_ok:
  assumes inv: "pip_inv s pend fs zs" and held: "page_held s a" and c: "ReferenceCount (pg s (a div 4096)) + 1 \<noteq> 0"
  shows "\<exists>s'. MmReferencePhysicalPage s a = Some s' \<and> pip_inv s' pend fs zs \<and> keeps_reserved s s'"
proof -
  let ?x = "a div 4096"
  note h = page_heldD [OF held pip_inv_pages [OF inv]]
  let ?p = "ReferenceCount_update (\<lambda>n. n + 1) (pg s ?x)"
  note r = rewrite_active [OF inv h(1) h(3) h(5), of ?p]
  have "MmReferencePhysicalPage s a = Some (rewrite s ?x ?p)"
    using h by (simp add: MmReferencePhysicalPage_def Let_def not_le PAGE_SIZE_def)
  then show ?thesis using r c h by (auto simp: word_gt_0)
qed

lemma zero_thread_take_ok:
  assumes inv: "pip_inv s None fs zs"
  shows "\<exists>s' r. zero_thread_take s = Some (s', r) \<and> pip_inv s' r (tl fs) zs \<and> keeps_reserved s s' \<and>
    r = (case fs of [] \<Rightarrow> None | x # _ \<Rightarrow> Some x)"
proof (cases fs)
  case Nil
  then show ?thesis using inv pip_inv_NIL_iff [OF inv] by (simp add: zero_thread_take_def)
next
  case (Cons x xs)
  have ok: "pages_ok s None" and free: "x < MmTotalPages s" "State (pg s x) = PIP_STATE_FREE"
    using inv Cons pip_inv_free [OF inv] by (auto simp: pip_inv_def)
  have rc: "ReferenceCount (pg s x) = 0"
    using ok free by (auto simp: pages_ok_def word_gt_0)
  obtain s1 s' p where s': "MmpUnlinkFreePage s x = Some s1" "set_page x (State_update (\<lambda>_. PIP_STATE_ACTIVE)) s1 = Some s'"
      "page_list s' (MmFirstFreePip s') PIP_STATE_FREE (remove1 x fs)"
      "page_list s' (MmFirstZeroedPip s') PIP_STATE_ZEROED zs"
      "same_others x s s'" "pg s' x = p\<lparr>State := PIP_STATE_ACTIVE\<rparr>" "same_counts p (pg s x)"
    using take_lists [OF inv, of x "State_update (\<lambda>_. PIP_STATE_ACTIVE)"] Cons by auto
  have "pages_ok s' (Some x)"
    by (rule pages_ok_change [OF ok s'(5) free(1)]) (use s'(6,7) rc in \<open>auto simp: same_counts_def\<close>)
  then show ?thesis
    using s' Cons pip_inv_NIL_iff [OF inv] pip_inv_first [OF inv] free keeps_reserved_other [OF s'(5)]
    by (simp add: zero_thread_take_def Let_def pip_inv_def)
qed

lemma zero_thread_put_ok:
  assumes inv: "pip_inv s (Some x) fs zs"
  shows "\<exists>s'. zero_thread_put s x = Some s' \<and> pip_inv s' None fs (x # zs) \<and> keeps_reserved s s'"
proof -
  have ok: "pages_ok s (Some x)" using inv by (simp add: pip_inv_def)
  then have x: "x < MmTotalPages s" "State (pg s x) = PIP_STATE_ACTIVE" "ReferenceCount (pg s x) = 0"
    by (auto simp: pages_ok_def)
  let ?p = "(pg s x)\<lparr>State := PIP_STATE_ZEROED\<rparr>"
  obtain s' where s': "MmpInsertZeroedPageHead (rewrite s x ?p) x = Some s'"
      "page_list s' (MmFirstFreePip s') PIP_STATE_FREE fs"
      "page_list s' (MmFirstZeroedPip s') PIP_STATE_ZEROED (x # zs)"
      "same_others x s s'" "same_counts (pg s' x) ?p"
    using put_lists(2) [OF inv x(1), of ?p] x(2) by auto
  have "pages_ok s' None"
    by (rule pages_ok_change [OF ok s'(4) x(1)]) (use s'(5) x in \<open>auto simp: same_counts_def\<close>)
  then show ?thesis
    using s' x keeps_reserved_other [OF s'(4)] pages_ok_inside [OF ok]
    by (auto simp: zero_thread_put_def pip_inv_def same_counts_def)
qed

section \<open>Runs of free pages\<close>

abbreviation free_at :: "MM_PIP \<Rightarrow> nat \<Rightarrow> bool" where
  "free_at s k \<equiv> State (MmPipDatabase s ! k) = PIP_STATE_FREE"

definition free_run_at :: "MM_PIP \<Rightarrow> nat \<Rightarrow> nat \<Rightarrow> bool" where
  "free_run_at s a n \<longleftrightarrow> a + n \<le> unat (MmTotalPages s) \<and> (\<forall>k. a \<le> k \<and> k < a + n \<longrightarrow> free_at s k)"

definition first_run :: "MM_PIP \<Rightarrow> nat \<Rightarrow> u32 option \<Rightarrow> bool" where
  "first_run s n r \<longleftrightarrow> (case r of
     Some a \<Rightarrow> free_run_at s (unat a) n \<and> (\<forall>b. free_run_at s b n \<longrightarrow> unat a \<le> b)
   | None \<Rightarrow> \<forall>b. \<not> free_run_at s b n)"

lemma find_run_spec:
  assumes "pages_ok s pend" and "0 < unat N"
    and "unat i + n = unat (MmTotalPages s)" "unat c \<le> unat i" "unat c < unat N"
    and "\<forall>k. unat i - unat c \<le> k \<and> k < unat i \<longrightarrow> free_at s k"
    and "\<forall>b. free_run_at s b (unat N) \<longrightarrow> unat i - unat c \<le> b"
    and "c \<noteq> 0 \<longrightarrow> unat start = unat i - unat c"
  shows "\<exists>r. find_run s N n i c start = Some r \<and> first_run s (unat N) r"
  using assms(3-)
proof (induction n arbitrary: i c start)
  case 0
  have "\<not> free_run_at s b (unat N)" for b
    using 0 by (auto simp: free_run_at_def)
  then show ?case by (simp add: first_run_def)
next
  case (Suc n)
  have small: "unat (MmTotalPages s) \<le> 0x100000" and len: "length (MmPipDatabase s) = unat (MmTotalPages s)"
    using assms(1) by (simp_all add: pages_ok_def)
  have i: "unat (i + 1) = unat i + 1" "inside s i"
    using Suc.prems(1) small len by (simp_all add: unat_add_lt)
  show ?case
  proof (cases "free_at s (unat i)")
    case True
    have c: "unat (c + 1) = unat c + 1"
      using Suc.prems(1,2) small by (simp add: unat_add_lt)
    define st where "st = (if c = 0 then i else start)"
    have st: "unat st = unat i - unat c" using Suc.prems(6) by (auto simp: st_def)
    have run: "\<forall>k. unat st \<le> k \<and> k < unat i + 1 \<longrightarrow> free_at s k"
      using Suc.prems(4) True st by (auto simp: less_Suc_eq)
    show ?thesis
    proof (cases "c + 1 = N")
      case True
      then have N: "unat N = unat c + 1" using c by simp
      have "free_run_at s (unat st) (unat N)"
        using run st Suc.prems(1,2) by (auto simp: free_run_at_def N)
      then have "first_run s (unat N) (Some st)"
        using Suc.prems(5) st by (simp add: first_run_def)
      then show ?thesis using True \<open>free_at s (unat i)\<close> i by (simp add: st_def [symmetric])
    next
      case False
      have lt: "unat (c + 1) < unat N" using False c Suc.prems(3) by (metis Suc_eq_plus1 Suc_lessI unsigned_word_eqI)
      have "\<exists>r. find_run s N n (i + 1) (c + 1) st = Some r \<and> first_run s (unat N) r"
        by (rule Suc.IH) (use Suc.prems run st lt c i in auto)
      then show ?thesis using False True i by (simp add: st_def [symmetric])
    qed
  next
    case False
    have "unat i + 1 \<le> b" if "free_run_at s b (unat N)" for b
    proof (rule ccontr)
      assume "\<not> unat i + 1 \<le> b"
      then have "b \<le> unat i" "unat i < b + unat N"
        using Suc.prems(2,3,5) that by fastforce+
      then show False using that False by (auto simp: free_run_at_def)
    qed
    then have "\<exists>r. find_run s N n (i + 1) 0 NIL = Some r \<and> first_run s (unat N) r"
      by (intro Suc.IH) (use Suc.prems i assms(2) in auto)
    then show ?thesis using False i by simp
  qed
qed

text \<open>The \<open>n\<close> pages from \<open>a\<close> on became active with one reference, the others are as they were.\<close>

definition claimed :: "u32 \<Rightarrow> nat \<Rightarrow> MM_PIP \<Rightarrow> MM_PIP \<Rightarrow> bool" where
  "claimed a n s s' \<longleftrightarrow> MmTotalPages s' = MmTotalPages s \<and>
     (\<forall>i < MmTotalPages s. if unat a \<le> unat i \<and> unat i < unat a + n
       then State (pg s' i) = PIP_STATE_ACTIVE \<and> ReferenceCount (pg s' i) = 1 \<and> ShareCount (pg s' i) = 1
       else same_counts (pg s' i) (pg s i))"

lemma take_run_ok:
  assumes "pip_inv s pend fs zs" "free_run_at s (unat a) n"
  shows "\<exists>s' fs'. take_run n a s = Some s' \<and> pip_inv s' pend fs' zs \<and> keeps_reserved s s' \<and> claimed a n s s'"
  using assms
proof (induction n arbitrary: a s fs)
  case 0
  then show ?case by (auto simp: claimed_def same_counts_def)
next
  case (Suc n)
  note inv = Suc.prems(1) and run = Suc.prems(2)
  have a: "a < MmTotalPages s" "State (pg s a) = PIP_STATE_FREE"
    using run by (auto simp: free_run_at_def word_less_nat_alt)
  have small: "unat (MmTotalPages s) \<le> 0x100000" using inv by (simp add: pip_inv_def pages_ok_def)
  have a1: "unat (a + 1) = unat a + 1" using a(1) small by (simp add: unat_add_lt word_less_nat_alt)
  obtain s1 where s1: "take_page a s = Some s1" "pip_inv s1 pend (remove1 a fs) zs" "same_others a s s1"
      "State (pg s1 a) = PIP_STATE_ACTIVE" "ReferenceCount (pg s1 a) = 1" "ShareCount (pg s1 a) = 1" "keeps_reserved s s1"
    using take_page_ok [OF inv, of a] a pip_inv_free [OF inv] by auto
  have "free_run_at s1 (unat (a + 1)) n"
    unfolding free_run_at_def
  proof (intro conjI allI impI)
    show "unat (a + 1) + n \<le> unat (MmTotalPages s1)"
      using run s1(3) a1 by (simp add: free_run_at_def same_others_def)
    fix k assume k: "unat (a + 1) \<le> k \<and> k < unat (a + 1) + n"
    then have lt: "k < unat (MmTotalPages s)" using run a1 by (simp add: free_run_at_def)
    define i :: u32 where "i = of_nat k"
    have i: "unat i = k" using lt small by (simp add: i_def unat_of_nat_lt)
    have "i \<noteq> a" "i < MmTotalPages s" using k lt i a1 by (auto simp: word_less_nat_alt)
    then have "State (pg s1 i) = State (pg s i)" using s1(3) by (simp add: same_others_def)
    then show "free_at s1 k" using run k a1 i by (simp add: free_run_at_def)
  qed
  then obtain s' fs' where s': "take_run n (a + 1) s1 = Some s'" "pip_inv s' pend fs' zs" "keeps_reserved s1 s'"
      "claimed (a + 1) n s1 s'"
    using Suc.IH [OF s1(2)] by blast
  have "claimed a (Suc n) s s'"
    unfolding claimed_def
  proof (intro conjI allI impI)
    show "MmTotalPages s' = MmTotalPages s" using s'(4) s1(3) by (simp add: claimed_def same_others_def)
    fix i assume i: "i < MmTotalPages s"
    then have c: "if unat a + 1 \<le> unat i \<and> unat i < unat a + 1 + n
       then State (pg s' i) = PIP_STATE_ACTIVE \<and> ReferenceCount (pg s' i) = 1 \<and> ShareCount (pg s' i) = 1
       else same_counts (pg s' i) (pg s1 i)"
      using s'(4) s1(3) a1 by (simp add: claimed_def same_others_def)
    show "if unat a \<le> unat i \<and> unat i < unat a + Suc n
       then State (pg s' i) = PIP_STATE_ACTIVE \<and> ReferenceCount (pg s' i) = 1 \<and> ShareCount (pg s' i) = 1
       else same_counts (pg s' i) (pg s i)"
    proof (cases "i = a")
      case True
      then show ?thesis using c s1(4-6) by (simp add: same_counts_def)
    next
      case False
      then have "same_counts (pg s1 i) (pg s i)" "unat i \<noteq> unat a"
        using s1(3) i by (simp_all add: same_others_def same_counts_def word_unat_eq_iff)
      then show ?thesis using c by (auto simp: same_counts_def)
    qed
  qed
  then show ?case using s1(1,7) s' keeps_reserved_trans by auto
qed

lemma MmAllocateContiguousPhysicalPages_ok:
  assumes inv: "pip_inv s pend fs zs" and N: "N \<noteq> 0"
  shows "(\<forall>b. \<not> free_run_at s b (unat N)) \<and> MmAllocateContiguousPhysicalPages s N = Some (s, 0) \<or>
    (\<exists>a s' fs'. free_run_at s (unat a) (unat N) \<and> (\<forall>b. free_run_at s b (unat N) \<longrightarrow> unat a \<le> b) \<and>
       MmAllocateContiguousPhysicalPages s N = Some (s', a * 4096) \<and> pip_inv s' pend fs' zs \<and>
       keeps_reserved s s' \<and> claimed a (unat N) s s')"
proof -
  have N0: "0 < unat N" using N by (simp add: unat_gt_0)
  obtain r where r: "find_run s N (unat (MmTotalPages s)) 0 0 NIL = Some r" "first_run s (unat N) r"
    using find_run_spec [OF pip_inv_pages [OF inv] N0, of 0 "unat (MmTotalPages s)" 0 NIL] N0 by auto
  show ?thesis
  proof (cases r)
    case None
    then show ?thesis using r N by (simp add: first_run_def MmAllocateContiguousPhysicalPages_def)
  next
    case (Some a)
    then have run: "free_run_at s (unat a) (unat N)" using r(2) by (simp add: first_run_def)
    obtain s' fs' where "take_run (unat N) a s = Some s'" "pip_inv s' pend fs' zs" "keeps_reserved s s'"
        "claimed a (unat N) s s'"
      using take_run_ok [OF inv run] by blast
    then show ?thesis
      using r Some N run by (auto simp: first_run_def MmAllocateContiguousPhysicalPages_def)
  qed
qed

section \<open>The machine\<close>

text \<open>
  The operations in any order. A page is freed or dereferenced by someone who holds it, a
  reference is taken on a page that is held and whose count does not wrap; the code takes a
  reference on a page in any state (\<open>MmProbeAndLockPages\<close> on any mapped frame), and
  \<open>reserved_page_becomes_free\<close> shows what that does to a reserved page. The second component is the
  page the zero page thread is zeroing.
\<close>

inductive pip_step :: "MM_PIP \<times> u32 option \<Rightarrow> MM_PIP \<times> u32 option \<Rightarrow> bool" where
  alloc: "MmAllocatePhysicalPage s = Some (Ok (s', a)) \<Longrightarrow> pip_step (s, p) (s', p)"
| alloc_run: "MmAllocateContiguousPhysicalPages s n = Some (s', a) \<Longrightarrow> pip_step (s, p) (s', p)"
| free: "page_held s a \<Longrightarrow> MmFreePhysicalPage s a = Some s' \<Longrightarrow> pip_step (s, p) (s', p)"
| reference: "page_held s a \<Longrightarrow> ReferenceCount (pg s (a div 4096)) + 1 \<noteq> 0 \<Longrightarrow>
    MmReferencePhysicalPage s a = Some s' \<Longrightarrow> pip_step (s, p) (s', p)"
| dereference: "page_held s a \<Longrightarrow> MmDereferencePhysicalPage s a = Some s' \<Longrightarrow> pip_step (s, p) (s', p)"
| zero_take: "zero_thread_take s = Some (s', r) \<Longrightarrow> pip_step (s, None) (s', r)"
| zero_put: "zero_thread_put s i = Some s' \<Longrightarrow> pip_step (s, Some i) (s', None)"

inductive_cases pip_stepE: "pip_step x y"

definition pip_good :: "MM_PIP \<times> u32 option \<Rightarrow> bool" where
  "pip_good sp \<longleftrightarrow> (\<exists>fs zs. pip_inv (fst sp) (snd sp) fs zs)"

lemma pip_step_inv:
  "pip_step x y \<Longrightarrow> pip_inv (fst x) (snd x) fs zs \<Longrightarrow>
   \<exists>fs' zs'. pip_inv (fst y) (snd y) fs' zs' \<and> set zs \<subseteq> set zs' \<and> keeps_reserved (fst x) (fst y)"
proof (induction arbitrary: fs zs rule: pip_step.induct)
  case (alloc s s' a p)
  then have inv: "pip_inv s p fs zs" by simp
  show ?case
  proof (cases fs)
    case Nil
    then show ?thesis using alloc(1) inv MmAllocatePhysicalPage_ok(1) [OF inv] by auto
  next
    case (Cons x xs)
    then show ?thesis
      using alloc(1) MmAllocatePhysicalPage_ok(2) [OF inv Cons] take_page_ok [OF inv, of x] by auto
  qed
next
  case (alloc_run s n s' a p)
  then have inv: "pip_inv s p fs zs" by simp
  show ?case
  proof (cases "n = 0")
    case True
    then show ?thesis using alloc_run inv by (auto simp: MmAllocateContiguousPhysicalPages_def)
  next
    case False
    show ?thesis
      using MmAllocateContiguousPhysicalPages_ok [OF inv False] alloc_run(1) inv by auto (metis order_refl)
  qed
next
  case (free s a s' p)
  then have inv: "pip_inv s p fs zs" by simp
  show ?case
  proof (cases "a mod 4096 = 0")
    case True
    then show ?thesis using MmFreePhysicalPage_ok [OF inv free(1) True] free(2) by auto
  next
    case False
    then show ?thesis using free inv by (auto simp: MmFreePhysicalPage_def)
  qed
next
  case (reference s a s' p)
  then have inv: "pip_inv s p fs zs" by simp
  show ?case using MmReferencePhysicalPage_ok [OF inv reference(1,2)] reference(3) by auto
next
  case (dereference s a s' p)
  then have inv: "pip_inv s p fs zs" by simp
  show ?case using MmDereferencePhysicalPage_ok [OF inv dereference(1)] dereference(2) by auto
next
  case (zero_take s s' r)
  then have inv: "pip_inv s None fs zs" by simp
  show ?case using zero_thread_take_ok [OF inv] zero_take(1) by auto
next
  case (zero_put s i s')
  then have inv: "pip_inv s (Some i) fs zs" by simp
  show ?case using zero_thread_put_ok [OF inv] zero_put(1) by fastforce
qed

definition keeps_zeroed :: "MM_PIP \<Rightarrow> MM_PIP \<Rightarrow> bool" where
  "keeps_zeroed s s' \<longleftrightarrow>
     (\<forall>i < MmTotalPages s. State (pg s i) = PIP_STATE_ZEROED \<longrightarrow> State (pg s' i) = PIP_STATE_ZEROED)"

lemma pip_inv_zeroed: "pip_inv s pend fs zs \<Longrightarrow> set zs = {i. i < MmTotalPages s \<and> State (pg s i) = PIP_STATE_ZEROED}"
  by (simp add: pip_inv_def page_list_def)

lemma pip_reach_inv:
  "pip_step\<^sup>*\<^sup>* x y \<Longrightarrow> pip_inv (fst x) (snd x) fs zs \<Longrightarrow>
   \<exists>fs' zs'. pip_inv (fst y) (snd y) fs' zs' \<and> set zs \<subseteq> set zs' \<and> keeps_reserved (fst x) (fst y)"
proof (induction rule: rtranclp_induct)
  case base
  then show ?case by auto
next
  case (step y z)
  then obtain fs' zs' where y: "pip_inv (fst y) (snd y) fs' zs'" "set zs \<subseteq> set zs'" "keeps_reserved (fst x) (fst y)"
    by auto
  show ?case using pip_step_inv [OF step(2) y(1)] y(2,3) keeps_reserved_trans by (meson order_trans)
qed

lemma pip_reach_good: "pip_step\<^sup>*\<^sup>* x y \<Longrightarrow> pip_good x \<Longrightarrow> pip_good y \<and> keeps_reserved (fst x) (fst y) \<and> keeps_zeroed (fst x) (fst y)"
  unfolding pip_good_def keeps_zeroed_def
  using pip_reach_inv pip_inv_zeroed by (smt (verit) mem_Collect_eq subset_eq)

end
