(* ===== verification/MmPipInit.thy ===== *)
theory MmPipInit
  imports MmPip
begin

text \<open>
  The initialization of the page database, \<open>MmInitializePip\<close>, \<open>MmMapPip\<close> and \<open>MiInitializePipBitmap\<close> of
  \<open>veakrnl/mm/pip.c\<close>, the states reachable from it, and the theorems about the physical page allocator.

  The memory map is the list of its descriptors; \<open>page_tables\<close> holds the frames of the present
  entries of the page directory and of the page tables, by index. The pool is a parameter of the bitmap.
\<close>

section \<open>Initialization\<close>

record VEA_MEMORY_DESCRIPTOR =
  BaseAddress :: u64
  Length :: u64
  Type :: u32

definition VeaMemoryTypeUsable :: u32 where "VeaMemoryTypeUsable = 1"

datatype MM_SYSTEMSIZE = MmSmallSystem | MmMediumSystem | MmLargeSystem

text \<open>\<open>end_addr\<close> and \<open>block_end\<close>: the end of a descriptor, cut to 32 bits.\<close>

definition end_addr :: "VEA_MEMORY_DESCRIPTOR \<Rightarrow> u32" where
  "end_addr d = ucast (BaseAddress d + Length d)"

text \<open>The first loop: \<open>highest_address\<close> and \<open>MmNumberOfPhysicalPages\<close>.\<close>

fun scan_map :: "VEA_MEMORY_DESCRIPTOR list \<Rightarrow> u32 \<Rightarrow> u32 \<Rightarrow> u32 \<times> u32" where
  "scan_map [] highest_address MmNumberOfPhysicalPages = (highest_address, MmNumberOfPhysicalPages)"
| "scan_map (d # ds) highest_address MmNumberOfPhysicalPages =
     (if Type d = VeaMemoryTypeUsable
      then scan_map ds (if highest_address < end_addr d then end_addr d else highest_address)
             (MmNumberOfPhysicalPages + ucast (Length d div 4096))
      else scan_map ds highest_address MmNumberOfPhysicalPages)"

text \<open>\<open>MmSystemSize\<close>, \<open>MmMaximumDeadKernelStacks\<close> and \<open>MmSystemCacheWsMinimum\<close>.\<close>

definition system_size :: "u32 \<Rightarrow> MM_SYSTEMSIZE \<times> u32 \<times> u32" where
  "system_size MmNumberOfPhysicalPages =
     (let TotalRamMb = MmNumberOfPhysicalPages div 256
      in if TotalRamMb < 256 then (MmSmallSystem, 2, 100)
         else if TotalRamMb < 1024 then (MmMediumSystem, 8, 512)
         else (MmLargeSystem, 32, 2048))"

definition page_align :: "u32 \<Rightarrow> u32" where
  "page_align x = (x + PAGE_SIZE - 1) AND NOT (PAGE_SIZE - 1)"

text \<open>The page directory and the page tables: the frame of every present entry, by index.\<close>

record page_tables =
  PD :: "u32 \<Rightarrow> u32 option"
  PT :: "u32 \<Rightarrow> u32 option"

record pip_region =
  pip_db_phys :: u32
  MmPipPageTableNextPhys :: u32
  MmPipPageTableEndPhys :: u32

text \<open>The test of one descriptor, and the loop that places the database.\<close>

definition missing_tables :: "page_tables \<Rightarrow> u32 \<Rightarrow> u32 \<Rightarrow> u32" where
  "missing_tables t first_pde last_pde =
     of_nat (length (filter (\<lambda>i. PD t (of_nat i) = None) [unat first_pde..<Suc (unat last_pde)]))"

definition usable_start :: "u32 \<Rightarrow> VEA_MEMORY_DESCRIPTOR \<Rightarrow> u32" where
  "usable_start kernel_phys_end d =
     (let usable_start = ucast (BaseAddress d)
      in page_align (if usable_start < kernel_phys_end then kernel_phys_end else usable_start))"

definition try_place :: "page_tables \<Rightarrow> u32 \<Rightarrow> u32 \<Rightarrow> VEA_MEMORY_DESCRIPTOR \<Rightarrow> (pip_region \<times> VEA_MEMORY_DESCRIPTOR) option" where
  "try_place t kernel_phys_end DatabaseSize d =
     (let DatabasePageSpan = page_align DatabaseSize;
          usable_start = usable_start kernel_phys_end d;
          block_end = end_addr d;
          candidate_va = usable_start + 0xC0000000;
          candidate_va_end = candidate_va + DatabaseSize;
          page_table_pages = missing_tables t (drop_bit 22 candidate_va) (drop_bit 22 (candidate_va_end - 1));
          reserved_end = usable_start + DatabasePageSpan + page_table_pages * PAGE_SIZE
      in if block_end \<le> usable_start \<or> block_end < reserved_end then None
         else Some (\<lparr>pip_db_phys = usable_start, MmPipPageTableNextPhys = usable_start + DatabasePageSpan,
                      MmPipPageTableEndPhys = reserved_end\<rparr>,
                    d\<lparr>BaseAddress := ucast reserved_end, Length := ucast (block_end - reserved_end)\<rparr>))"

fun place_database :: "page_tables \<Rightarrow> u32 \<Rightarrow> u32 \<Rightarrow> VEA_MEMORY_DESCRIPTOR list \<Rightarrow>
    (pip_region \<times> VEA_MEMORY_DESCRIPTOR list) option" where
  "place_database t kernel_phys_end DatabaseSize [] = None"
| "place_database t kernel_phys_end DatabaseSize (d # ds) =
     (case (if Type d = VeaMemoryTypeUsable then try_place t kernel_phys_end DatabaseSize d else None) of
        Some (r, d) \<Rightarrow> Some (r, d # ds)
      | None \<Rightarrow> map_option (\<lambda>(r, ds). (r, d # ds)) (place_database t kernel_phys_end DatabaseSize ds))"

text \<open>\<open>MmMapPip\<close>. A new page table is zeroed, which clears its 1024 entries.\<close>

definition new_page_table :: "page_tables \<Rightarrow> u32 \<Rightarrow> u32 \<Rightarrow> page_tables" where
  "new_page_table t va new_pt_phys =
     t\<lparr>PD := (PD t)(drop_bit 22 va := Some (drop_bit 12 new_pt_phys)),
       PT := (\<lambda>v. if drop_bit 10 v = drop_bit 22 va then None else PT t v)\<rparr>"

partial_function (option) map_loop ::
    "u32 \<Rightarrow> u32 \<Rightarrow> u32 \<Rightarrow> pip_region \<Rightarrow> page_tables \<Rightarrow> (pip_region \<times> page_tables \<times> bool) option" where
  "map_loop VirtualEnd va phys r t =
     (if va < VirtualEnd then
        if PD t (drop_bit 22 va) = None \<and> MmPipPageTableEndPhys r \<le> MmPipPageTableNextPhys r
        then Some (r, t, False)
        else let
          t' = (if PD t (drop_bit 22 va) = None then new_page_table t va (MmPipPageTableNextPhys r) else t);
          r' = (if PD t (drop_bit 22 va) = None
                then r\<lparr>MmPipPageTableNextPhys := MmPipPageTableNextPhys r + PAGE_SIZE\<rparr> else r)
        in map_loop VirtualEnd (va + 4096) (phys + 4096) r'
             (t'\<lparr>PT := (PT t')(drop_bit 12 va := Some (drop_bit 12 phys))\<rparr>)
      else Some (r, t, True))"

declare map_loop.simps [code]

definition MmMapPip :: "u32 \<Rightarrow> u32 \<Rightarrow> pip_region \<Rightarrow> page_tables \<Rightarrow> (pip_region \<times> page_tables \<times> bool) option" where
  "MmMapPip VirtualStart TotalPages r t =
     (let DatabaseSize = TotalPages * SIZEOF_PIP;
          VirtualEnd = VirtualStart + DatabaseSize;
          PhysicalStart = VirtualStart - 0xC0000000
      in map_loop VirtualEnd VirtualStart PhysicalStart r t)"

text \<open>The loops that fill the database.\<close>

fun set_states :: "u8 \<Rightarrow> nat \<Rightarrow> u32 \<Rightarrow> MM_PIP \<Rightarrow> MM_PIP option" where
  "set_states st 0 i s = Some s"
| "set_states st (Suc n) i s = do {
     s \<leftarrow> set_page i (State_update (\<lambda>_. st)) s;
     set_states st n (i + 1) s }"

fun set_states_guarded :: "u8 \<Rightarrow> nat \<Rightarrow> u32 \<Rightarrow> MM_PIP \<Rightarrow> MM_PIP option" where
  "set_states_guarded st 0 i s = Some s"
| "set_states_guarded st (Suc n) i s = do {
     s \<leftarrow> (if i < MmTotalPages s then set_page i (State_update (\<lambda>_. st)) s else Some s);
     set_states_guarded st n (i + 1) s }"

fun free_usable :: "VEA_MEMORY_DESCRIPTOR list \<Rightarrow> MM_PIP \<Rightarrow> MM_PIP option" where
  "free_usable [] s = Some s"
| "free_usable (d # ds) s = do {
     s \<leftarrow> (if Type d = VeaMemoryTypeUsable
          then set_states_guarded PIP_STATE_FREE (unat (ucast (Length d div 4096) :: u32))
                 (ucast (BaseAddress d div 4096)) s
          else Some s);
     free_usable ds s }"

fun link_free :: "nat \<Rightarrow> u32 \<Rightarrow> u32 \<Rightarrow> MM_PIP \<Rightarrow> (MM_PIP \<times> u32) option" where
  "link_free 0 i last_free_index s = Some (s, last_free_index)"
| "link_free (Suc n) i last_free_index s = do {
     p \<leftarrow> page s i;
     if State p = PIP_STATE_FREE then do {
       s \<leftarrow> (if MmFirstFreePip s = NIL then
              set_page i (Blink_update (\<lambda>_. NIL)) (s\<lparr>MmFirstFreePip := i\<rparr>)
            else do {
              s \<leftarrow> set_page last_free_index (Flink_update (\<lambda>_. i)) s;
              set_page i (Blink_update (\<lambda>_. last_free_index)) s });
       link_free n (i + 1) i s }
     else link_free n (i + 1) last_free_index s }"

definition fill_database :: "VEA_MEMORY_DESCRIPTOR list \<Rightarrow> MM_PIP \<Rightarrow> MM_PIP option" where
  "fill_database mmap s = do {
     let s = s\<lparr>MmPipDatabase := map (\<lambda>p. p\<lparr>State := PIP_STATE_RESERVED, ReferenceCount := 0, ShareCount := 0,
                PteAddress := 0, Flags := 0, Flink := NIL, Blink := NIL\<rparr>) (MmPipDatabase s)\<rparr>;
     s \<leftarrow> free_usable mmap s;
     s \<leftarrow> set_states PIP_STATE_RESERVED (0x100000 div 4096) 0 s;
     let kernel_start_page = KERNEL_PHYS_BASE div 4096;
     let kernel_end_page = (KERNEL_PHYS_BASE + KERNEL_RESERVE_SIZE) div 4096;
     s \<leftarrow> set_states_guarded PIP_STATE_RESERVED (unat (kernel_end_page - kernel_start_page)) kernel_start_page s;
     (s, last_free_index) \<leftarrow> link_free (unat (MmTotalPages s)) 0 NIL s;
     if last_free_index \<noteq> NIL then set_page last_free_index (Flink_update (\<lambda>_. NIL)) s else Some s }"

text \<open>
  \<open>MmInitializePip\<close>: \<open>veaos_end\<close> is the address of \<open>_veaos_end\<close>, \<open>garbage\<close> what the memory of the
  database holds before. The counters for reports and the size class of the system (\<open>MmNumberOfPhysicalPages\<close>,
  \<open>MmHighestPhysicalPage\<close>, \<open>MmSystemSize\<close>, for which see \<open>system_size\<close>) are not part of the result: nothing here reads them.
\<close>

definition MmInitializePip :: "u32 \<Rightarrow> (nat \<Rightarrow> PIP) \<Rightarrow> VEA_MEMORY_DESCRIPTOR list \<Rightarrow> page_tables \<Rightarrow>
    ((MM_PIP \<times> page_tables) option) option" where
  "MmInitializePip veaos_end garbage mmap t =
     (let (highest_address, _) = scan_map mmap 0 0;
          TotalPages = highest_address div 4096;
          DatabaseSize = TotalPages * SIZEOF_PIP;
          kernel_phys_end = page_align (veaos_end - 0xC0000000)
      in case place_database t kernel_phys_end DatabaseSize mmap of
           None \<Rightarrow> Some None
         | Some (r, mmap) \<Rightarrow>
             if pip_db_phys r = 0 then Some None
             else do {
               (r, t, ok) \<leftarrow> MmMapPip (pip_db_phys r + 0xC0000000) TotalPages r t;
               if \<not> ok then Some None
               else do {
                 s \<leftarrow> fill_database mmap \<lparr>MmPipDatabase = map garbage [0..<unat TotalPages], MmTotalPages = TotalPages,
                        MmFirstFreePip = NIL, MmFirstZeroedPip = NIL, FreePageEvents = 0\<rparr>;
                 Some (Some (s, t)) } })"

text \<open>The bitmap of used pages; \<open>buffer\<close> is what the pool gives, if anything.\<close>

fun sync_bits :: "nat \<Rightarrow> u32 \<Rightarrow> MM_PIP \<Rightarrow> RTL_BITMAP \<Rightarrow> RTL_BITMAP option" where
  "sync_bits 0 i s h = Some h"
| "sync_bits (Suc n) i s h = do {
     p \<leftarrow> page s i;
     h \<leftarrow> (if State p \<noteq> PIP_STATE_FREE then RtlSetBit h i else Some h);
     sync_bits n (i + 1) s h }"

definition MiInitializePipBitmap :: "(nat \<Rightarrow> u32 list option) \<Rightarrow> MM_PIP \<Rightarrow> (RTL_BITMAP option) option" where
  "MiInitializePipBitmap UlAllocatePoolWithTag s =
     (let BitmapBufferSize = ((MmTotalPages s + 31) div 32) * 4
      in case UlAllocatePoolWithTag (unat BitmapBufferSize) of
           None \<Rightarrow> Some None
         | Some BitmapBuffer \<Rightarrow> do {
             h \<leftarrow> RtlClearAllBits (RtlInitializeBitmap BitmapBuffer (MmTotalPages s));
             h \<leftarrow> sync_bits (unat (MmTotalPages s)) 0 s h;
             Some (Some h) })"
section \<open>Filling the database\<close>

definition only_states :: "MM_PIP \<Rightarrow> MM_PIP \<Rightarrow> (u32 \<Rightarrow> u8 option) \<Rightarrow> bool" where
  "only_states s s' f \<longleftrightarrow> MmTotalPages s' = MmTotalPages s \<and> length (MmPipDatabase s') = length (MmPipDatabase s) \<and>
     MmFirstFreePip s' = MmFirstFreePip s \<and> MmFirstZeroedPip s' = MmFirstZeroedPip s \<and>
     (\<forall>k < MmTotalPages s. pg s' k = (case f k of None \<Rightarrow> pg s k | Some st \<Rightarrow> (pg s k)\<lparr>State := st\<rparr>))"

lemma only_states_refl [simp]: "only_states s s (\<lambda>_. None)"
  by (simp add: only_states_def)

lemma only_states_trans:
  "only_states s t f \<Longrightarrow> only_states t u g \<Longrightarrow> only_states s u (\<lambda>k. case g k of None \<Rightarrow> f k | Some st \<Rightarrow> Some st)"
  by (simp add: only_states_def split: option.splits)

lemma only_states_cong: "only_states s s' f \<Longrightarrow> (\<And>k. k < MmTotalPages s \<Longrightarrow> f k = g k) \<Longrightarrow> only_states s s' g"
  by (simp add: only_states_def)

lemma offset_Suc:
  fixes k i :: u32
  shows "unat (k - i) < Suc n \<longleftrightarrow> k = i \<or> unat (k - (i + 1)) < n"
proof (cases "k = i")
  case False
  define m where "m = k - (i + 1)"
  have m: "k - i = m + 1" by (simp add: m_def)
  have "1 + m \<noteq> 0"
  proof
    assume "1 + m = 0"
    with m have "k - i = 0" by (simp add: add.commute)
    with False show False by simp
  qed
  then have "unat (m + 1) = Suc (unat m)" using unatSuc [of m] by (simp add: add.commute)
  then show ?thesis using False by (simp add: m m_def [symmetric])
qed simp

lemma set_states_guarded_spec:
  assumes "length (MmPipDatabase s) = unat (MmTotalPages s)" "n < 2 ^ 32"
  shows "\<exists>s'. set_states_guarded st n i s = Some s' \<and> only_states s s' (\<lambda>k. if unat (k - i) < n then Some st else None)"
  using assms
proof (induction n arbitrary: i s)
  case 0
  then show ?case by simp
next
  case (Suc n)
  define s1 where "s1 = (if i < MmTotalPages s then rewrite s i ((pg s i)\<lparr>State := st\<rparr>) else s)"
  have one: "only_states s s1 (\<lambda>k. if k = i then Some st else None)"
    using Suc.prems(1) by (auto simp: only_states_def s1_def word_less_nat_alt)
  have "length (MmPipDatabase s1) = unat (MmTotalPages s1)"
    using Suc.prems(1) by (simp add: s1_def)
  then obtain s' where s': "set_states_guarded st n (i + 1) s1 = Some s'"
      "only_states s1 s' (\<lambda>k. if unat (k - (i + 1)) < n then Some st else None)"
    using Suc.IH Suc.prems(2) by fastforce
  have "only_states s s' (\<lambda>k. if unat (k - i) < Suc n then Some st else None)"
    by (rule only_states_cong [OF only_states_trans [OF one s'(2)]])
      (auto simp: offset_Suc)
  moreover have "set_states_guarded st (Suc n) i s = Some s'"
    using s'(1) Suc.prems(1)
    by (cases "i < MmTotalPages s") (simp_all add: s1_def word_less_nat_alt)
  ultimately show ?case by blast
qed

lemma set_states_in_range:
  assumes "length (MmPipDatabase s) = unat (MmTotalPages s)" "unat i + n \<le> unat (MmTotalPages s)"
  shows "set_states st n i s = set_states_guarded st n i s"
  using assms
proof (induction n arbitrary: i s)
  case (Suc n)
  have "unat (i + 1) = unat i + 1"
    using Suc.prems(2) unat_lt_u32 [of "MmTotalPages s"] by (simp add: unat_add_lt)
  moreover have "i < MmTotalPages s" using Suc.prems(2) by (simp add: word_less_nat_alt)
  ultimately show ?case using Suc by (simp add: inside_less)
qed simp

lemma set_states_out_of_range:
  assumes "length (MmPipDatabase s) = unat (MmTotalPages s)" "unat (MmTotalPages s) < unat i + n" "unat i \<le> unat (MmTotalPages s)"
  shows "set_states st n i s = None"
  using assms
proof (induction n arbitrary: i s)
  case (Suc n)
  show ?case
  proof (cases "inside s i")
    case True
    then have "unat (i + 1) = unat i + 1"
      using Suc.prems(1) unat_lt_u32 [of "MmTotalPages s"] by (simp add: unat_add_lt)
    then show ?thesis using Suc True by simp
  qed (simp add: set_page_def page_def)
qed simp

text \<open>The pages of the usable descriptors.\<close>

definition usable_page :: "VEA_MEMORY_DESCRIPTOR list \<Rightarrow> u32 \<Rightarrow> bool" where
  "usable_page mmap k \<longleftrightarrow> (\<exists>d\<in>set mmap. Type d = VeaMemoryTypeUsable \<and>
     k - ucast (BaseAddress d div 4096) < ucast (Length d div 4096))"

lemma free_usable_spec:
  assumes "length (MmPipDatabase s) = unat (MmTotalPages s)"
  shows "\<exists>s'. free_usable mmap s = Some s' \<and>
    only_states s s' (\<lambda>k. if usable_page mmap k then Some PIP_STATE_FREE else None)"
  using assms
proof (induction mmap arbitrary: s)
  case Nil
  then show ?case by (simp add: usable_page_def)
next
  case (Cons d ds)
  let ?n = "ucast (Length d div 4096) :: u32" and ?i = "ucast (BaseAddress d div 4096) :: u32"
  obtain s1 where s1: "(if Type d = VeaMemoryTypeUsable then set_states_guarded PIP_STATE_FREE (unat ?n) ?i s else Some s) = Some s1"
      "only_states s s1 (\<lambda>k. if Type d = VeaMemoryTypeUsable \<and> k - ?i < ?n then Some PIP_STATE_FREE else None)"
    using set_states_guarded_spec [OF Cons.prems, of "unat ?n" PIP_STATE_FREE ?i] unat_lt_u32 [of ?n]
    by (cases "Type d = VeaMemoryTypeUsable") (auto simp: word_less_nat_alt)
  have "length (MmPipDatabase s1) = unat (MmTotalPages s1)"
    using s1(2) Cons.prems by (simp add: only_states_def)
  then obtain s' where s': "free_usable ds s1 = Some s'"
      "only_states s1 s' (\<lambda>k. if usable_page ds k then Some PIP_STATE_FREE else None)"
    using Cons.IH by blast
  have "only_states s s' (\<lambda>k. if usable_page (d # ds) k then Some PIP_STATE_FREE else None)"
    by (rule only_states_cong [OF only_states_trans [OF s1(2) s'(2)]]) (auto simp: usable_page_def)
  moreover have "free_usable (d # ds) s = Some s'"
    using s1(1) s'(1) by simp
  ultimately show ?case by blast
qed

text \<open>The free pages below \<open>n\<close>, in order.\<close>

definition free_below :: "MM_PIP \<Rightarrow> nat \<Rightarrow> u32 list" where
  "free_below s n = filter (\<lambda>k. State (pg s k) = PIP_STATE_FREE) (map of_nat [0..<n])"

lemma free_below_Suc:
  "free_below s (Suc n) = free_below s n @ (if State (pg s (of_nat n)) = PIP_STATE_FREE then [of_nat n] else [])"
  by (simp add: free_below_def)

lemma set_free_below: "n \<le> 0x100000 \<Longrightarrow> x \<in> set (free_below s n) \<longleftrightarrow> unat x < n \<and> State (pg s x) = PIP_STATE_FREE"
proof -
  assume n: "n \<le> 0x100000"
  have "x \<in> of_nat ` {0..<n} \<longleftrightarrow> unat x < n"
  proof
    assume "x \<in> of_nat ` {0..<n}"
    then show "unat x < n" using n by (auto simp: unat_of_nat_lt)
  next
    assume "unat x < n"
    then show "x \<in> of_nat ` {0..<n}" by (intro image_eqI [of _ _ "unat x"]) simp_all
  qed
  then show ?thesis by (auto simp: free_below_def)
qed

lemma distinct_free_below: "n \<le> 0x100000 \<Longrightarrow> distinct (free_below s n)"
proof -
  assume n: "n \<le> 0x100000"
  have "inj_on (of_nat :: nat \<Rightarrow> u32) {0..<n}"
    by (rule inj_on_inverseI [of _ unat]) (use n in \<open>auto simp: unat_of_nat_lt\<close>)
  then show ?thesis by (simp add: free_below_def distinct_map)
qed

lemma same_pages_free_below:
  "same_pages s s' \<Longrightarrow> n \<le> length (MmPipDatabase s) \<Longrightarrow> n \<le> 0x100000 \<Longrightarrow> free_below s' n = free_below s n"
  unfolding free_below_def
proof (rule filter_cong [OF refl])
  fix x :: u32
  assume a: "same_pages s s'" "n \<le> length (MmPipDatabase s)" "n \<le> 0x100000" "x \<in> set (map of_nat [0..<n])"
  then have "inside s x" by (auto simp: unat_of_nat_lt)
  then show "State (pg s' x) = PIP_STATE_FREE \<longleftrightarrow> State (pg s x) = PIP_STATE_FREE"
    using a(1) by (simp add: same_pages_def)
qed

lemma same_pages_trans: "same_pages s t \<Longrightarrow> same_pages t u \<Longrightarrow> same_pages s u"
  by (simp add: same_pages_def)

definition linked_below :: "MM_PIP \<Rightarrow> nat \<Rightarrow> u32 \<Rightarrow> bool" where
  "linked_below s n last_free_index \<longleftrightarrow> linked (pg s) NIL (free_below s n) NIL \<and>
     MmFirstFreePip s = head_or (free_below s n) NIL \<and> last_free_index = last_or (free_below s n) NIL \<and>
     (\<forall>k < MmTotalPages s. n \<le> unat k \<longrightarrow> Flink (pg s k) = NIL \<and> Blink (pg s k) = NIL)"

lemma link_one:
  assumes db: "length (MmPipDatabase s) = unat (MmTotalPages s)" "unat (MmTotalPages s) \<le> 0x100000"
    and lb: "linked_below s (unat i) l" and i: "i < MmTotalPages s" and free: "State (pg s i) = PIP_STATE_FREE"
  shows "\<exists>s'. (if MmFirstFreePip s = NIL then set_page i (Blink_update (\<lambda>_. NIL)) (s\<lparr>MmFirstFreePip := i\<rparr>)
            else do { s \<leftarrow> set_page l (Flink_update (\<lambda>_. i)) s; set_page i (Blink_update (\<lambda>_. l)) s }) = Some s' \<and>
    same_pages s s' \<and> MmFirstZeroedPip s' = MmFirstZeroedPip s \<and> linked_below s' (unat i + 1) i"
proof -
  let ?fb = "free_below s (unat i)"
  note sfb = set_free_below [of "unat i" _ s] and dfb = distinct_free_below [of "unat i" s]
  have le: "unat i \<le> 0x100000" "unat i < unat (MmTotalPages s)" using i db(2) by (auto simp: word_less_nat_alt)
  have ins: "inside s i" using i db(1) by (simp add: word_less_nat_alt)
  have mem: "\<forall>x\<in>set ?fb. inside s x \<and> x \<noteq> NIL \<and> x \<noteq> i"
    using sfb le db NIL_big by (auto intro: NIL_big)
  have nil: "MmFirstFreePip s = NIL \<longleftrightarrow> ?fb = []"
    using lb mem by (simp add: linked_below_def head_or_NIL)
  have l: "l = last_or ?fb NIL" using lb by (simp add: linked_below_def)
  have la: "?fb \<noteq> [] \<Longrightarrow> last_or ?fb NIL = last ?fb \<and> last ?fb \<in> set ?fb" by (simp add: last_or_def)
  let ?new = "\<lambda>s'. (\<forall>z. inside s z \<longrightarrow> pg s' z = (if z = i then (pg s i)\<lparr>Blink := last_or ?fb NIL\<rparr>
        else (pg s z)\<lparr>Flink := (if ?fb \<noteq> [] \<and> z = last ?fb then i else Flink (pg s z))\<rparr>)) \<and>
      MmFirstFreePip s' = head_or (?fb @ [i]) NIL \<and> MmFirstZeroedPip s' = MmFirstZeroedPip s \<and>
      MmTotalPages s' = MmTotalPages s \<and> length (MmPipDatabase s') = length (MmPipDatabase s)"
  have "\<exists>s'. (if MmFirstFreePip s = NIL then set_page i (Blink_update (\<lambda>_. NIL)) (s\<lparr>MmFirstFreePip := i\<rparr>)
            else do { s \<leftarrow> set_page l (Flink_update (\<lambda>_. i)) s; set_page i (Blink_update (\<lambda>_. l)) s }) = Some s' \<and> ?new s'"
  proof (cases "?fb = []")
    case True
    then show ?thesis using ins nil by simp
  next
    case False
    then have "inside s (last ?fb)" "last ?fb \<noteq> i" using la mem by auto
    moreover have "head_or ?fb NIL = head_or (?fb @ [i]) NIL" using False by (cases ?fb) auto
    ultimately show ?thesis using ins nil l la False lb by (simp add: linked_below_def)
  qed
  then obtain s' where s': "(if MmFirstFreePip s = NIL then set_page i (Blink_update (\<lambda>_. NIL)) (s\<lparr>MmFirstFreePip := i\<rparr>)
            else do { s \<leftarrow> set_page l (Flink_update (\<lambda>_. i)) s; set_page i (Blink_update (\<lambda>_. l)) s }) = Some s'"
      and new: "?new s'" by (elim exE conjE) (rule that, auto)
  have pgi: "Flink (pg s i) = NIL" using lb i by (simp add: linked_below_def)
  have sp: "same_pages s s'" using new ins by (simp add: same_pages_def)
  have fb': "free_below s' (Suc (unat i)) = ?fb @ [i]"
    using same_pages_free_below [OF sp, of "Suc (unat i)"] le db free by (simp add: free_below_Suc)
  have "linked (pg s') NIL ?fb i"
  proof (rule linked_new_last)
    show "linked (pg s) NIL ?fb NIL" using lb by (simp add: linked_below_def)
    show "distinct ?fb" using dfb le by simp
    show "Flink (pg s' x) = Flink (pg s x) \<and> Blink (pg s' x) = Blink (pg s x)"
      if "x \<in> set ?fb" "x \<noteq> last_or ?fb NIL" for x
      using new that mem la by fastforce
    show "Blink (pg s' (last ?fb)) = Blink (pg s (last ?fb)) \<and> Flink (pg s' (last ?fb)) = i" if "?fb \<noteq> []"
      using new that mem la by simp
  qed
  then have "linked (pg s') NIL (free_below s' (unat i + 1)) NIL"
    using new ins pgi by (simp add: fb' linked_append)
  moreover have "Flink (pg s' k) = NIL \<and> Blink (pg s' k) = NIL" if "k < MmTotalPages s'" "unat i + 1 \<le> unat k" for k
  proof -
    have "k < MmTotalPages s" "inside s k" "k \<noteq> i" "unat i \<le> unat k" "k \<notin> set ?fb"
      using that new db(1) sfb [of k] le by (auto simp: word_less_nat_alt)
    then show ?thesis using new lb la by (auto simp: linked_below_def)
  qed
  ultimately have "linked_below s' (unat i + 1) i"
    using new by (simp add: linked_below_def fb' last_or_def)
  then show ?thesis using s' sp new by blast
qed

lemma link_free_spec:
  assumes "length (MmPipDatabase s) = unat (MmTotalPages s)" "unat (MmTotalPages s) \<le> 0x100000"
    and "unat i + n = unat (MmTotalPages s)" "linked_below s (unat i) l"
  shows "\<exists>s' l'. link_free n i l s = Some (s', l') \<and> same_pages s s' \<and>
    MmFirstZeroedPip s' = MmFirstZeroedPip s \<and> linked_below s' (unat (MmTotalPages s)) l'"
  using assms
proof (induction n arbitrary: i l s)
  case 0
  then show ?case by (simp add: same_pages_def)
next
  case (Suc n)
  have i: "i < MmTotalPages s" "inside s i" and i1: "unat (i + 1) = unat i + 1"
    using Suc.prems by (simp_all add: word_less_nat_alt unat_add_lt)
  show ?case
  proof (cases "State (pg s i) = PIP_STATE_FREE")
    case True
    obtain s1 where s1: "(if MmFirstFreePip s = NIL then set_page i (Blink_update (\<lambda>_. NIL)) (s\<lparr>MmFirstFreePip := i\<rparr>)
            else do { s \<leftarrow> set_page l (Flink_update (\<lambda>_. i)) s; set_page i (Blink_update (\<lambda>_. l)) s }) = Some s1"
        "same_pages s s1" "MmFirstZeroedPip s1 = MmFirstZeroedPip s" "linked_below s1 (unat i + 1) i"
      using link_one [OF Suc.prems(1,2,4) i(1) True] by blast
    have "\<exists>s' l'. link_free n (i + 1) i s1 = Some (s', l') \<and> same_pages s1 s' \<and>
        MmFirstZeroedPip s' = MmFirstZeroedPip s1 \<and> linked_below s' (unat (MmTotalPages s1)) l'"
      by (rule Suc.IH) (use Suc.prems s1 i1 in \<open>auto simp: same_pages_def\<close>)
    then obtain s' l' where s': "link_free n (i + 1) i s1 = Some (s', l')" "same_pages s1 s'"
        "MmFirstZeroedPip s' = MmFirstZeroedPip s1" "linked_below s' (unat (MmTotalPages s1)) l'" by blast
    have "link_free (Suc n) i l s = Some (s', l')"
      using s1(1) s'(1) i(2) True by simp
    moreover have "MmTotalPages s1 = MmTotalPages s" using s1(2) by (simp add: same_pages_def)
    ultimately show ?thesis using s' s1 same_pages_trans by auto
  next
    case False
    have "linked_below s (unat i + 1) l"
      using Suc.prems(4) False by (simp add: linked_below_def free_below_Suc)
    then show ?thesis using Suc.IH [of s "i + 1" l] Suc.prems i i1 False by simp
  qed
qed

text \<open>The database after it is filled.\<close>

definition kernel_page :: "u32 \<Rightarrow> bool" where
  "kernel_page k \<longleftrightarrow> KERNEL_PHYS_BASE div 4096 \<le> k \<and> k < (KERNEL_PHYS_BASE + KERNEL_RESERVE_SIZE) div 4096"

definition initially_free :: "VEA_MEMORY_DESCRIPTOR list \<Rightarrow> u32 \<Rightarrow> bool" where
  "initially_free mmap k \<longleftrightarrow> usable_page mmap k \<and> 256 \<le> k \<and> \<not> kernel_page k"

lemma kernel_page_offset:
  "unat (k - KERNEL_PHYS_BASE div 4096) < unat ((KERNEL_PHYS_BASE + KERNEL_RESERVE_SIZE) div 4096 - KERNEL_PHYS_BASE div 4096)
    \<longleftrightarrow> kernel_page k"
proof -
  have n: "KERNEL_PHYS_BASE div 4096 = 4096" "(KERNEL_PHYS_BASE + KERNEL_RESERVE_SIZE) div 4096 = 16896"
    by (simp_all add: KERNEL_PHYS_BASE_def KERNEL_RESERVE_SIZE_def)
  show ?thesis
  proof (cases "4096 \<le> k")
    case True
    then show ?thesis unfolding n kernel_page_def
      by (simp add: unat_sub_le) (simp add: word_le_nat_alt word_less_nat_alt less_diff_conv2 flip: unat_numeral)
  next
    case False
    then have "unat k < 4096" by (simp add: word_le_nat_alt)
    then have "unat (k - 4096) = unat k + 2 ^ 32 - 4096" by (simp add: unat_sub_if')
    then show ?thesis using False unfolding n kernel_page_def by simp
  qed
qed

lemma fill_database_short:
  assumes "length (MmPipDatabase s) = unat (MmTotalPages s)" "unat (MmTotalPages s) < 256"
  shows "fill_database mmap s = None"
proof -
  define s0 where "s0 = s\<lparr>MmPipDatabase := map (\<lambda>p. p\<lparr>State := PIP_STATE_RESERVED, ReferenceCount := 0, ShareCount := 0,
                PteAddress := 0, Flags := 0, Flink := NIL, Blink := NIL\<rparr>) (MmPipDatabase s)\<rparr>"
  have l: "length (MmPipDatabase s0) = unat (MmTotalPages s0)" using assms by (simp add: s0_def)
  obtain s1 where s1: "free_usable mmap s0 = Some s1"
      "only_states s0 s1 (\<lambda>k. if usable_page mmap k then Some PIP_STATE_FREE else None)"
    using free_usable_spec [OF l] by blast
  have "set_states PIP_STATE_RESERVED (0x100000 div 4096) 0 s1 = None"
    by (rule set_states_out_of_range) (use s1(2) l assms in \<open>auto simp: only_states_def s0_def\<close>)
  then show ?thesis using s1(1) by (simp add: fill_database_def s0_def)
qed

lemma fill_database_ok:
  assumes len: "length (MmPipDatabase s) = unat (MmTotalPages s)"
    and bounds: "unat (MmTotalPages s) \<le> 0x100000" "256 \<le> unat (MmTotalPages s)"
    and empty: "MmFirstFreePip s = NIL" "MmFirstZeroedPip s = NIL"
  shows "\<exists>s'. fill_database mmap s = Some s' \<and> MmTotalPages s' = MmTotalPages s \<and>
    pip_inv s' None (free_below s' (unat (MmTotalPages s'))) [] \<and>
    (\<forall>k < MmTotalPages s. State (pg s' k) = (if initially_free mmap k then PIP_STATE_FREE else PIP_STATE_RESERVED))"
proof -
  define s0 where "s0 = s\<lparr>MmPipDatabase := map (\<lambda>p. p\<lparr>State := PIP_STATE_RESERVED, ReferenceCount := 0, ShareCount := 0,
                PteAddress := 0, Flags := 0, Flink := NIL, Blink := NIL\<rparr>) (MmPipDatabase s)\<rparr>"
  have l0: "length (MmPipDatabase s0) = unat (MmTotalPages s0)" using len by (simp add: s0_def)
  have p0: "State (pg s0 k) = PIP_STATE_RESERVED \<and> ReferenceCount (pg s0 k) = 0 \<and> Flink (pg s0 k) = NIL \<and> Blink (pg s0 k) = NIL"
    if "k < MmTotalPages s" for k
    using that len by (simp add: s0_def word_less_nat_alt)
  obtain s1 where s1: "free_usable mmap s0 = Some s1"
      "only_states s0 s1 (\<lambda>k. if usable_page mmap k then Some PIP_STATE_FREE else None)"
    using free_usable_spec [OF l0] by blast
  have l1: "length (MmPipDatabase s1) = unat (MmTotalPages s1)" "MmTotalPages s1 = MmTotalPages s"
    using s1(2) l0 by (simp_all add: only_states_def s0_def)
  obtain s2 where s2: "set_states PIP_STATE_RESERVED (0x100000 div 4096) 0 s1 = Some s2"
      "only_states s1 s2 (\<lambda>k. if unat (k - 0) < 256 then Some PIP_STATE_RESERVED else None)"
    using set_states_guarded_spec [OF l1(1), of 256 PIP_STATE_RESERVED 0]
      set_states_in_range [OF l1(1), of 0 256 PIP_STATE_RESERVED] l1(2) bounds(2) by auto
  have l2: "length (MmPipDatabase s2) = unat (MmTotalPages s2)" using s2(2) l1 by (simp add: only_states_def)
  let ?a = "KERNEL_PHYS_BASE div 4096" and ?e = "(KERNEL_PHYS_BASE + KERNEL_RESERVE_SIZE) div 4096"
  obtain s3 where s3: "set_states_guarded PIP_STATE_RESERVED (unat (?e - ?a)) ?a s2 = Some s3"
      "only_states s2 s3 (\<lambda>k. if kernel_page k then Some PIP_STATE_RESERVED else None)"
    using set_states_guarded_spec [OF l2, of "unat (?e - ?a)" PIP_STATE_RESERVED ?a] unat_lt_u32 [of "?e - ?a"]
    by (auto simp: kernel_page_offset)
  have l3: "length (MmPipDatabase s3) = unat (MmTotalPages s3)" "MmTotalPages s3 = MmTotalPages s"
    using s3(2) s2(2) l2 l1 by (simp_all add: only_states_def)
  have lt256: "unat (k :: u32) < 256 \<longleftrightarrow> \<not> 256 \<le> k" for k
    by (simp add: word_le_nat_alt not_le)
  have p3: "State (pg s3 k) = (if initially_free mmap k then PIP_STATE_FREE else PIP_STATE_RESERVED) \<and>
      ReferenceCount (pg s3 k) = 0 \<and> Flink (pg s3 k) = NIL \<and> Blink (pg s3 k) = NIL" if k: "k < MmTotalPages s" for k
  proof -
    have "pg s1 k = (if usable_page mmap k then (pg s0 k)\<lparr>State := PIP_STATE_FREE\<rparr> else pg s0 k)"
      using s1(2) k by (simp add: only_states_def s0_def)
    moreover have "pg s2 k = (if 256 \<le> k then pg s1 k else (pg s1 k)\<lparr>State := PIP_STATE_RESERVED\<rparr>)"
      using s2(2) k l1 by (simp add: only_states_def lt256)
    moreover have "pg s3 k = (if kernel_page k then (pg s2 k)\<lparr>State := PIP_STATE_RESERVED\<rparr> else pg s2 k)"
      using s3(2) s2(2) k l1 by (simp add: only_states_def)
    ultimately show ?thesis using p0 [OF k] by (simp add: initially_free_def)
  qed
  have heads: "MmFirstFreePip s3 = NIL" "MmFirstZeroedPip s3 = NIL"
    using s1(2) s2(2) s3(2) empty by (simp_all add: only_states_def s0_def)
  have "linked_below s3 (unat (0 :: u32)) NIL"
    using heads p3 l3 by (simp add: linked_below_def free_below_def)
  then obtain s4 l where s4: "link_free (unat (MmTotalPages s3)) 0 NIL s3 = Some (s4, l)" "same_pages s3 s4"
      "MmFirstZeroedPip s4 = NIL" "linked_below s4 (unat (MmTotalPages s)) l"
    using link_free_spec [of s3 0 "unat (MmTotalPages s3)" NIL] l3 bounds heads by auto
  have l4: "length (MmPipDatabase s4) = unat (MmTotalPages s)" "MmTotalPages s4 = MmTotalPages s"
    using s4(2) l3 by (simp_all add: same_pages_def)
  let ?fb = "free_below s4 (unat (MmTotalPages s))"
  note sfb = set_free_below [OF bounds(1), of _ s4]
  have mem: "\<forall>x\<in>set ?fb. inside s4 x \<and> x \<noteq> NIL"
  proof
    fix x assume "x \<in> set ?fb"
    then have "unat x < unat (MmTotalPages s)" using sfb by blast
    then show "inside s4 x \<and> x \<noteq> NIL" using l4(1) bounds(1) NIL_big [of x] by linarith
  qed
  define s5 where "s5 = (if l \<noteq> NIL then rewrite s4 l ((pg s4 l)\<lparr>Flink := NIL\<rparr>) else s4)"
  have l_in: "l \<noteq> NIL \<Longrightarrow> ?fb \<noteq> [] \<and> l = last ?fb \<and> inside s4 l \<and> Flink (pg s4 l) = NIL"
  proof -
    assume "l \<noteq> NIL"
    then have "?fb \<noteq> []" "l = last ?fb" using s4(4) by (auto simp: linked_below_def last_or_def)
    then have fb: "?fb = butlast ?fb @ [l]" by (metis append_butlast_last_id)
    have "linked (pg s4) NIL ?fb NIL" using s4(4) by (simp add: linked_below_def)
    then have "linked (pg s4) NIL (butlast ?fb @ [l]) NIL" using fb by metis
    then have "Flink (pg s4 l) = NIL" by (simp add: linked_append)
    moreover have "l \<in> set ?fb" using fb by (metis in_set_conv_decomp)
    ultimately show ?thesis using mem \<open>?fb \<noteq> []\<close> \<open>l = last ?fb\<close> by metis
  qed
  have same: "s5 = s4"
  proof (cases "l = NIL")
    case False
    then have "(pg s4 l)\<lparr>Flink := NIL\<rparr> = pg s4 l" using l_in by (cases "pg s4 l") simp
    then show ?thesis using False by (simp add: s5_def)
  qed (simp add: s5_def)
  have fill: "fill_database mmap s = Some s4"
  proof -
    have "(if l \<noteq> NIL then set_page l (Flink_update (\<lambda>_. NIL)) s4 else Some s4) = Some s5"
      using l_in by (simp add: s5_def)
    then show ?thesis
      using s1(1) s2(1) s3(1) s4(1) by (simp add: fill_database_def s0_def [symmetric] same Let_def)
  qed
  have p4: "State (pg s4 k) = (if initially_free mmap k then PIP_STATE_FREE else PIP_STATE_RESERVED) \<and>
      ReferenceCount (pg s4 k) = 0" if "k < MmTotalPages s" for k
    using p3 [OF that] s4(2) that l3 by (simp add: same_pages_def word_less_nat_alt)
  have "page_list s4 (MmFirstFreePip s4) PIP_STATE_FREE ?fb"
    using s4(4) distinct_free_below [OF bounds(1)] sfb l4
    by (auto simp: page_list_def linked_below_def word_less_nat_alt)
  moreover have "page_list s4 (MmFirstZeroedPip s4) PIP_STATE_ZEROED []"
    using s4(3) p4 l4 by (auto simp: page_list_def split: if_splits)
  moreover have "pages_ok s4 None"
    using l4 bounds p4 by (auto simp: pages_ok_def)
  ultimately have "pip_inv s4 None (free_below s4 (unat (MmTotalPages s4))) []"
    using l4 by (simp add: pip_inv_def)
  then show ?thesis using fill p4 l4 by blast
qed

section \<open>Mapping the database\<close>

definition missing :: "page_tables \<Rightarrow> nat \<Rightarrow> nat \<Rightarrow> nat set" where
  "missing t a e = {j. a div 2 ^ 22 \<le> j \<and> j \<le> (e - 1) div 2 ^ 22 \<and> PD t (of_nat j) = None}"

lemma finite_missing [simp]: "finite (missing t a e)"
  by (rule finite_subset [of _ "{..(e - 1) div 2 ^ 22}"]) (auto simp: missing_def)

lemma missing_step:
  assumes "PD t (of_nat (a div 2 ^ 22)) \<noteq> None"
  shows "missing t (a + 4096) e = missing t a e"
proof -
  have "(a + 4096) div 2 ^ 22 \<le> j \<longleftrightarrow> a div 2 ^ 22 \<le> j" if "PD t (of_nat j) = None" for j
  proof -
    have "j \<noteq> a div 2 ^ 22" using assms that by auto
    then show ?thesis by auto
  qed
  then show ?thesis by (auto simp: missing_def)
qed

lemma page_table_index_less: "unat (va :: u32) div 2 ^ 22 < 1024"
  using unat_lt_u32 [of va] by simp

text \<open>What the loop achieves: the pages are mapped, other mapped pages are untouched, and the new page
  tables come from the reserve.\<close>

definition mapped :: "u32 \<Rightarrow> u32 \<Rightarrow> nat \<Rightarrow> pip_region \<Rightarrow> page_tables \<Rightarrow> page_tables \<Rightarrow> bool" where
  "mapped va phys m r t t' \<longleftrightarrow>
     (\<forall>k < m. PT t' (drop_bit 12 (va + of_nat k * 4096)) = Some (drop_bit 12 (phys + of_nat k * 4096)) \<and>
        PD t' (drop_bit 22 (va + of_nat k * 4096)) \<noteq> None) \<and>
     (\<forall>v. PD t (drop_bit 10 v) \<noteq> None \<longrightarrow> (\<forall>k < m. v \<noteq> drop_bit 12 (va + of_nat k * 4096)) \<longrightarrow> PT t' v = PT t v) \<and>
     (\<forall>i. PD t i \<noteq> None \<longrightarrow> PD t' i = PD t i) \<and>
     (\<forall>i f. PD t i = None \<longrightarrow> PD t' i = Some f \<longrightarrow>
        drop_bit 12 (MmPipPageTableNextPhys r) \<le> f \<and> f < drop_bit 12 (MmPipPageTableEndPhys r))"

lemma drop_bit_12_page: "drop_bit 10 (drop_bit 12 (va :: u32)) = drop_bit 22 va"
  by simp

lemma page_indices_differ:
  assumes "unat (va :: u32) + 4096 * (k + 1) < 2 ^ 32"
  shows "drop_bit 12 va \<noteq> drop_bit 12 (va + 4096 + of_nat k * 4096)"
proof -
  have "unat (va + 4096 + of_nat k * 4096) = unat va + 4096 * (k + 1)"
  proof -
    define w :: u32 where "w = of_nat (4096 * (k + 1))"
    have "va + 4096 + of_nat k * 4096 = va + w" by (simp add: algebra_simps w_def)
    moreover have "unat w = 4096 * (k + 1)"
      unfolding w_def by (rule unat_of_nat_lt) (use assms in simp)
    moreover then have "unat (va + w) = unat va + 4096 * (k + 1)" using assms unat_add_lt [of va w] by simp
    ultimately show ?thesis by metis
  qed
  then have "unat (drop_bit 12 va) \<noteq> unat (drop_bit 12 (va + 4096 + of_nat k * 4096))"
    by (simp add: unat_drop_bit)
  then show ?thesis by metis
qed

lemma map_loop_ok:
  assumes "unat va + 4096 * m < 2 ^ 32" "unat VE \<le> unat va + 4096 * m" "m \<noteq> 0 \<longrightarrow> unat va + 4096 * (m - 1) < unat VE"
    and "unat (MmPipPageTableNextPhys r) + 4096 * card (missing t (unat va) (unat VE)) \<le> unat (MmPipPageTableEndPhys r)"
    and "unat (MmPipPageTableNextPhys r) mod 4096 = 0"
  shows "\<exists>r' t'. map_loop VE va phys r t = Some (r', t', True) \<and> mapped va phys m r t t'"
  using assms
proof (induction m arbitrary: va phys r t)
  case 0
  then have "\<not> va < VE" by (simp add: word_less_nat_alt)
  then show ?case by (simp add: map_loop.simps [of VE va] mapped_def)
next
  case (Suc m)
  let ?i = "drop_bit 22 va"
  have lt: "va < VE" using Suc.prems(3) by (simp add: word_less_nat_alt)
  have va1: "unat (va + 4096) = unat va + 4096" using Suc.prems(1) by (simp add: unat_add_lt)
  have uidx: "unat ?i = unat va div 2 ^ 22" by (simp add: unat_drop_bit)
  have idx: "of_nat (unat va div 2 ^ 22) = ?i" unfolding uidx [symmetric] by simp
  let ?none = "PD t ?i = None"
  define t1 where "t1 = (if ?none then new_page_table t va (MmPipPageTableNextPhys r) else t)"
  define r1 where "r1 = (if ?none then r\<lparr>MmPipPageTableNextPhys := MmPipPageTableNextPhys r + PAGE_SIZE\<rparr> else r)"
  define t2 where "t2 = t1\<lparr>PT := (PT t1)(drop_bit 12 va := Some (drop_bit 12 phys))\<rparr>"
  have pd: "PD t2 ?i \<noteq> None" "PD t2 j = (if ?none \<and> j = ?i then Some (drop_bit 12 (MmPipPageTableNextPhys r)) else PD t j)" for j
    by (auto simp: t2_def t1_def new_page_table_def)
  have inrange: "?none \<Longrightarrow> unat va div 2 ^ 22 \<in> missing t (unat va) (unat VE)"
    using lt by (simp add: missing_def idx [simplified] word_less_nat_alt div_le_mono)
  have small: "j < 1024" if "j \<in> missing t (unat va) (unat VE)" for j
  proof -
    have "j \<le> (unat VE - 1) div 2 ^ 22" using that by (simp add: missing_def)
    then show ?thesis using unat_lt_u32 [of VE] by simp
  qed
  have eq_i: "(of_nat j :: u32) = ?i \<longleftrightarrow> j = unat va div 2 ^ 22" if "j \<in> missing t (unat va) (unat VE)" for j
    using small [OF that] unat_of_nat_lt [of j, where 'a = 32] uidx by (auto simp: word_unat_eq_iff)
  have mis: "missing t2 (unat va + 4096) (unat VE) = missing t (unat va) (unat VE) - (if ?none then {unat va div 2 ^ 22} else {})"
  proof -
    have "missing t2 (unat va + 4096) (unat VE) = missing t2 (unat va) (unat VE)"
      by (rule missing_step) (use pd(1) idx in simp)
    also have "\<dots> = {j \<in> missing t (unat va) (unat VE). \<not> (?none \<and> of_nat j = ?i)}"
      by (auto simp: missing_def pd(2))
    also have "\<dots> = missing t (unat va) (unat VE) - (if ?none then {unat va div 2 ^ 22} else {})"
      using eq_i by auto
    finally show ?thesis .
  qed
  let ?c = "card (missing t (unat va) (unat VE))"
  have c: "card (missing t2 (unat va + 4096) (unat VE)) = (if ?none then ?c - 1 else ?c)" "?none \<Longrightarrow> 0 < ?c"
    using inrange by (auto simp: mis card_gt_0_iff)
  have room: "?none \<Longrightarrow> unat (MmPipPageTableNextPhys r) + 4096 \<le> unat (MmPipPageTableEndPhys r)"
    using Suc.prems(4) c(2) by simp
  then have next1: "?none \<Longrightarrow> unat (MmPipPageTableNextPhys r + PAGE_SIZE) = unat (MmPipPageTableNextPhys r) + 4096"
    using unat_lt_u32 [of "MmPipPageTableEndPhys r"] by (simp add: PAGE_SIZE_def unat_add_lt)
  have r1: "unat (MmPipPageTableNextPhys r1) = unat (MmPipPageTableNextPhys r) + (if ?none then 4096 else 0)"
    "MmPipPageTableEndPhys r1 = MmPipPageTableEndPhys r"
    using next1 by (simp_all add: r1_def)
  have "\<exists>r' t'. map_loop VE (va + 4096) (phys + 4096) r1 t2 = Some (r', t', True) \<and> mapped (va + 4096) (phys + 4096) m r1 t2 t'"
  proof (rule Suc.IH)
    show "unat (MmPipPageTableNextPhys r1) + 4096 * card (missing t2 (unat (va + 4096)) (unat VE)) \<le> unat (MmPipPageTableEndPhys r1)"
      using Suc.prems(4) c r1 by (cases ?none) (simp_all add: va1)
  qed (use Suc.prems r1 va1 in auto)
  then obtain r' t' where IH: "map_loop VE (va + 4096) (phys + 4096) r1 t2 = Some (r', t', True)"
      "mapped (va + 4096) (phys + 4096) m r1 t2 t'" by blast
  have "map_loop VE va phys r t = Some (r', t', True)"
    using lt room IH(1)
    by (cases "PD t ?i") (simp_all add: map_loop.simps [of VE va] word_le_nat_alt r1_def t1_def t2_def Let_def)
  moreover have "mapped va phys (Suc m) r t t'"
    unfolding mapped_def
  proof (intro conjI allI impI)
    fix k assume k: "k < Suc m"
    have "PT t' (drop_bit 12 va) = PT t2 (drop_bit 12 va)"
    proof -
      have "drop_bit 12 va \<noteq> drop_bit 12 (va + 4096 + of_nat k * 4096)" if "k < m" for k
        by (rule page_indices_differ) (use that Suc.prems(1) in simp)
      then show ?thesis using IH(2) pd(1) drop_bit_12_page [of va] by (simp add: mapped_def)
    qed
    then have "PT t' (drop_bit 12 va) = Some (drop_bit 12 phys)" "PD t' ?i \<noteq> None"
      using IH(2) pd(1) by (auto simp: mapped_def t2_def)
    then show "PT t' (drop_bit 12 (va + of_nat k * 4096)) = Some (drop_bit 12 (phys + of_nat k * 4096))"
        "PD t' (drop_bit 22 (va + of_nat k * 4096)) \<noteq> None"
      using IH(2) k by (cases k; simp add: mapped_def algebra_simps)+
  next
    fix v assume v: "PD t (drop_bit 10 v) \<noteq> None" "\<forall>k < Suc m. v \<noteq> drop_bit 12 (va + of_nat k * 4096)"
    have "v \<noteq> drop_bit 12 va" using v(2) by force
    then have "PT t2 v = PT t v" using v(1) by (auto simp: t2_def t1_def new_page_table_def)
    moreover have "\<forall>k < m. v \<noteq> drop_bit 12 (va + 4096 + of_nat k * 4096)"
    proof (intro allI impI)
      fix k assume "k < m"
      then show "v \<noteq> drop_bit 12 (va + 4096 + of_nat k * 4096)"
        using v(2) [rule_format, of "Suc k"] by (simp add: algebra_simps)
    qed
    ultimately show "PT t' v = PT t v"
      using IH(2) v(1) pd(2) by (auto simp: mapped_def)
  next
    fix i assume "PD t i \<noteq> None"
    then show "PD t' i = PD t i" using IH(2) pd(2) [of i] by (auto simp: mapped_def)
  next
    fix i f assume i: "PD t i = None" "PD t' i = Some f"
    have le: "unat (MmPipPageTableNextPhys r) \<le> unat (MmPipPageTableNextPhys r1)" using r1(1) by simp
    have "drop_bit 12 (MmPipPageTableNextPhys r) \<le> f \<and> f < drop_bit 12 (MmPipPageTableEndPhys r)"
    proof (cases "i = ?i")
      case True
      then have "f = drop_bit 12 (MmPipPageTableNextPhys r)"
        using i IH(2) pd(2) [of i] by (auto simp: mapped_def)
      then show ?thesis using room i True Suc.prems(5)
        by (auto simp: word_less_nat_alt unat_drop_bit)
    next
      case False
      then have "drop_bit 12 (MmPipPageTableNextPhys r1) \<le> f \<and> f < drop_bit 12 (MmPipPageTableEndPhys r)"
        using i IH(2) pd(2) [of i] r1(2) by (auto simp: mapped_def)
      moreover have "drop_bit 12 (MmPipPageTableNextPhys r) \<le> drop_bit 12 (MmPipPageTableNextPhys r1)"
        using le by (simp add: word_le_nat_alt unat_drop_bit div_le_mono)
      ultimately show ?thesis using order_trans by blast
    qed
    then show "drop_bit 12 (MmPipPageTableNextPhys r) \<le> f" "f < drop_bit 12 (MmPipPageTableEndPhys r)" by auto
  qed
  ultimately show ?case by blast
qed

section \<open>Placing the database\<close>

lemma unat_and_not_4095: "unat (w AND NOT 4095 :: u32) = unat w div 4096 * 4096"
proof -
  have "unat (w AND NOT (mask 12) :: u32) = push_bit 12 (drop_bit 12 (unat w))"
    by (rule bit_eqI) (auto simp: bit_simps bit_unsigned_iff dest: bit_imp_le_length)
  then show ?thesis by (simp add: mask_eq_exp_minus_1 push_bit_eq_mult drop_bit_eq_div)
qed

lemma unat_page_align: "unat (page_align x) = unat (x + 4095) div 4096 * 4096"
proof -
  have "page_align x = (x + 4095) AND NOT 4095" by (simp add: page_align_def PAGE_SIZE_def add.commute)
  then show ?thesis using unat_and_not_4095 by metis
qed

lemma page_align_mod [simp]: "unat (page_align x) mod 4096 = 0"
  by (simp add: unat_page_align)

lemma page_align_bounds:
  assumes "unat x + 4095 < 2 ^ 32"
  shows "unat x \<le> unat (page_align x)" "unat (page_align x) < unat x + 4096"
proof -
  have "unat (page_align x) = (unat x + 4095) div 4096 * 4096"
    using assms unat_add_lt [of x 4095] by (simp add: unat_page_align)
  then show "unat x \<le> unat (page_align x)" "unat (page_align x) < unat x + 4096" by linarith+
qed

lemma page_align_ge: "page_align x \<noteq> 0 \<Longrightarrow> x \<le> page_align x"
proof -
  assume nz: "page_align x \<noteq> 0"
  have "unat x + 4095 < 2 ^ 32"
  proof (rule ccontr)
    assume "\<not> unat x + 4095 < 2 ^ 32"
    then have "unat (x + 4095) < 4096" using unat_lt_u32 [of x] by (simp add: unat_plus_if')
    then have "unat (page_align x) = 0" by (simp add: unat_page_align)
    then show False using nz by (simp add: unat_eq_zero)
  qed
  then show ?thesis using page_align_bounds(1) by (simp add: word_le_nat_alt)
qed

lemma unat_pred: "0 < unat (w :: u32) \<Longrightarrow> unat (w - 1) + 1 = unat w"
  using unat_sub_le [of 1 w] by (simp add: word_le_nat_alt)

lemma unat_missing_tables:
  "unat (missing_tables t (drop_bit 22 va) (drop_bit 22 (VE - 1))) = card (missing t (unat va) (unat (VE - 1) + 1))"
proof -
  let ?a = "unat (drop_bit 22 va)" and ?b = "unat (drop_bit 22 (VE - 1))"
  let ?xs = "filter (\<lambda>i. PD t (of_nat i) = None) [?a..<Suc ?b]"
  have b: "?b < 1024" using unat_lt_u32 [of "VE - 1"] by (simp add: unat_drop_bit)
  have "set ?xs = missing t (unat va) (unat (VE - 1) + 1)"
    by (auto simp: missing_def unat_drop_bit)
  then have "length ?xs = card (missing t (unat va) (unat (VE - 1) + 1))"
    by (metis distinct_card distinct_filter distinct_upt)
  moreover have "length ?xs \<le> length [?a..<Suc ?b]" by (rule length_filter_le)
  ultimately show ?thesis using b unfolding missing_tables_def by (subst unat_of_nat_lt) (auto simp del: upt_Suc)
qed

definition db_pages :: "u32 \<Rightarrow> nat" where
  "db_pages TotalPages = unat (page_align (TotalPages * SIZEOF_PIP)) div 4096"

lemma database_size:
  assumes "unat TotalPages \<le> 0x100000"
  shows "unat (TotalPages * SIZEOF_PIP) = unat TotalPages * 22"
    "unat (page_align (TotalPages * SIZEOF_PIP)) = 4096 * db_pages TotalPages"
    "unat TotalPages * 22 \<le> 4096 * db_pages TotalPages" "4096 * db_pages TotalPages < unat TotalPages * 22 + 4096"
proof -
  show size: "unat (TotalPages * SIZEOF_PIP) = unat TotalPages * 22"
    using assms by (simp add: SIZEOF_PIP_def unat_mult_lt)
  show span: "unat (page_align (TotalPages * SIZEOF_PIP)) = 4096 * db_pages TotalPages"
    unfolding db_pages_def using page_align_mod by (metis div_mult_mod_eq add_0_right mult.commute)
  show "unat TotalPages * 22 \<le> 4096 * db_pages TotalPages" "4096 * db_pages TotalPages < unat TotalPages * 22 + 4096"
    using page_align_bounds [of "TotalPages * SIZEOF_PIP"] assms by (simp_all add: size span)
qed

text \<open>The region the test of a descriptor gives, without wrap-around below one gigabyte.\<close>

lemma try_place_region:
  assumes place: "try_place t k (TotalPages * SIZEOF_PIP) d = Some (r, d')"
    and pages: "0 < unat TotalPages" "unat TotalPages \<le> 0x100000"
    and low: "unat (pip_db_phys r) + 4096 * db_pages TotalPages < 0x40000000"
  shows "pip_db_phys r = usable_start k d"
    "unat (pip_db_phys r + 0xC0000000) = unat (pip_db_phys r) + 0xC0000000"
    "unat (pip_db_phys r) mod 4096 = 0"
    "unat (MmPipPageTableNextPhys r) = unat (pip_db_phys r) + 4096 * db_pages TotalPages"
    "unat (MmPipPageTableEndPhys r) = unat (MmPipPageTableNextPhys r) +
       4096 * card (missing t (unat (pip_db_phys r + 0xC0000000)) (unat (pip_db_phys r + 0xC0000000 + TotalPages * SIZEOF_PIP)))"
    "unat (MmPipPageTableEndPhys r) \<le> unat (end_addr d)"
    "d' = d\<lparr>BaseAddress := ucast (MmPipPageTableEndPhys r), Length := ucast (end_addr d - MmPipPageTableEndPhys r)\<rparr>"
proof -
  note size = database_size [OF pages(2)]
  let ?u = "usable_start k d" and ?DS = "TotalPages * SIZEOF_PIP"
  let ?va = "?u + 0xC0000000"
  let ?mt = "missing_tables t (drop_bit 22 ?va) (drop_bit 22 (?va + ?DS - 1))"
  let ?fin = "?u + page_align ?DS + ?mt * PAGE_SIZE"
  have pl: "\<not> end_addr d < ?fin"
      "r = \<lparr>pip_db_phys = ?u, MmPipPageTableNextPhys = ?u + page_align ?DS, MmPipPageTableEndPhys = ?fin\<rparr>"
      "d' = d\<lparr>BaseAddress := ucast ?fin, Length := ucast (end_addr d - ?fin)\<rparr>"
    using place by (auto simp: try_place_def Let_def split: if_splits)
  show u: "pip_db_phys r = ?u" by (simp add: pl(2))
  have low': "unat ?u + 4096 * db_pages TotalPages < 0x40000000" using low u by simp
  have va: "unat ?va = unat ?u + 0xC0000000" using low' by (simp add: unat_add_lt)
  then show "unat (pip_db_phys r + 0xC0000000) = unat (pip_db_phys r) + 0xC0000000" by (simp add: u)
  show "unat (pip_db_phys r) mod 4096 = 0"
    by (simp add: u usable_start_def Let_def)
  have nx: "unat (?u + page_align ?DS) = unat ?u + 4096 * db_pages TotalPages"
    using low' size by (simp add: unat_add_lt)
  then show "unat (MmPipPageTableNextPhys r) = unat (pip_db_phys r) + 4096 * db_pages TotalPages"
    by (simp add: pl(2))
  have VE: "unat (?va + ?DS) = unat ?va + unat ?DS" using va low' size by (simp add: unat_add_lt)
  then have VE1: "unat (?va + ?DS - 1) + 1 = unat (?va + ?DS)"
    using size pages by (intro unat_pred) simp
  have mt: "unat ?mt = card (missing t (unat ?va) (unat (?va + ?DS)))"
    using unat_missing_tables [of t ?va "?va + ?DS"] VE1 by simp
  have "missing t (unat ?va) (unat (?va + ?DS)) \<subseteq> {..<1024}"
    using unat_lt_u32 [of "?va + ?DS"] by (auto simp: missing_def)
  then have "card (missing t (unat ?va) (unat (?va + ?DS))) \<le> 1024"
    by (metis card_lessThan card_mono finite_lessThan)
  then have mt_le: "unat ?mt \<le> 1024" using mt by simp
  then have "unat (?mt * PAGE_SIZE) = unat ?mt * 4096" by (simp add: PAGE_SIZE_def unat_mult_lt)
  then have e: "unat ?fin = unat (?u + page_align ?DS) + 4096 * unat ?mt"
    using nx low' mt_le by (simp add: unat_add_lt)
  then show "unat (MmPipPageTableEndPhys r) = unat (MmPipPageTableNextPhys r) +
       4096 * card (missing t (unat (pip_db_phys r + 0xC0000000)) (unat (pip_db_phys r + 0xC0000000 + ?DS)))"
  proof -
    have "MmPipPageTableEndPhys r = ?fin" "MmPipPageTableNextPhys r = ?u + page_align ?DS" by (simp_all add: pl(2))
    then show ?thesis using e mt u by metis
  qed
  show "unat (MmPipPageTableEndPhys r) \<le> unat (end_addr d)"
    using pl(1) by (simp add: pl(2) word_less_nat_alt)
  show "d' = d\<lparr>BaseAddress := ucast (MmPipPageTableEndPhys r), Length := ucast (end_addr d - MmPipPageTableEndPhys r)\<rparr>"
    by (simp add: pl(2,3))
qed

lemma MmMapPip_ok:
  assumes place: "try_place t k (TotalPages * SIZEOF_PIP) d = Some (r, d')"
    and pages: "0 < unat TotalPages" "unat TotalPages \<le> 0x100000"
    and low: "unat (pip_db_phys r) + 4096 * db_pages TotalPages < 0x40000000"
  shows "\<exists>r' t'. MmMapPip (pip_db_phys r + 0xC0000000) TotalPages r t = Some (r', t', True) \<and>
    mapped (pip_db_phys r + 0xC0000000) (pip_db_phys r) (db_pages TotalPages) r t t'"
proof -
  note size = database_size [OF pages(2)] and reg = try_place_region [OF assms]
  let ?va = "pip_db_phys r + 0xC0000000" and ?DS = "TotalPages * SIZEOF_PIP"
  have VE: "unat (?va + ?DS) = unat ?va + unat ?DS" using reg(2) low size by (simp add: unat_add_lt)
  have pos: "db_pages TotalPages \<noteq> 0" using size(3) pages(1) by auto
  have "\<exists>r' t'. map_loop (?va + ?DS) ?va (pip_db_phys r) r t = Some (r', t', True) \<and>
      mapped ?va (pip_db_phys r) (db_pages TotalPages) r t t'"
  proof (rule map_loop_ok)
    show "unat ?va + 4096 * db_pages TotalPages < 2 ^ 32" using reg(2) low by simp
    show "unat (?va + ?DS) \<le> unat ?va + 4096 * db_pages TotalPages" using VE size by simp
    show "db_pages TotalPages \<noteq> 0 \<longrightarrow> unat ?va + 4096 * (db_pages TotalPages - 1) < unat (?va + ?DS)"
      using VE size pages(1) pos by (simp add: diff_mult_distrib2)
    show "unat (MmPipPageTableNextPhys r) + 4096 * card (missing t (unat ?va) (unat (?va + ?DS))) \<le> unat (MmPipPageTableEndPhys r)"
      using reg(5) by simp
    show "unat (MmPipPageTableNextPhys r) mod 4096 = 0" using reg(3,4) by simp
  qed
  then show ?thesis by (simp add: MmMapPip_def Let_def)
qed

section \<open>The result of the initialization\<close>

definition total_pages :: "VEA_MEMORY_DESCRIPTOR list \<Rightarrow> u32" where
  "total_pages mmap = fst (scan_map mmap 0 0) div 4096"

lemma total_pages_le: "unat (total_pages mmap) \<le> 0x100000"
  using unat_lt_u32 [of "fst (scan_map mmap 0 0)"] by (simp add: total_pages_def unat_div_distrib)

lemma place_database_cases:
  "place_database t k n mmap = Some (r, mmap') \<Longrightarrow>
   \<exists>j d'. j < length mmap \<and> Type (mmap ! j) = VeaMemoryTypeUsable \<and> try_place t k n (mmap ! j) = Some (r, d') \<and>
     mmap' = mmap[j := d']"
proof (induction mmap arbitrary: mmap')
  case (Cons d ds)
  show ?case
  proof (cases "if Type d = VeaMemoryTypeUsable then try_place t k n d else None")
    case (Some a)
    then show ?thesis using Cons.prems by (intro exI [of _ 0]) (auto split: if_splits prod.splits)
  next
    case None
    then obtain ds' where ds': "place_database t k n ds = Some (r, ds')" "mmap' = d # ds'"
      using Cons.prems by auto
    then obtain j d' where "j < length ds" "Type (ds ! j) = VeaMemoryTypeUsable" "try_place t k n (ds ! j) = Some (r, d')"
        "ds' = ds[j := d']"
      using Cons.IH by blast
    then show ?thesis using ds'(2) by (intro exI [of _ "Suc j"] exI [of _ d']) simp
  qed
qed simp

text \<open>The inversion of a successful initialization.\<close>

lemma MmInitializePip_SomeD:
  assumes "MmInitializePip veaos_end garbage mmap t = Some (Some (s, t'))"
  shows "\<exists>r mmap'. place_database t (page_align (veaos_end - 0xC0000000)) (total_pages mmap * SIZEOF_PIP) mmap = Some (r, mmap') \<and>
    pip_db_phys r \<noteq> 0 \<and> 256 \<le> unat (total_pages mmap) \<and> MmTotalPages s = total_pages mmap \<and>
    pip_inv s None (free_below s (unat (MmTotalPages s))) [] \<and>
    (\<forall>k < MmTotalPages s. State (pg s k) = (if initially_free mmap' k then PIP_STATE_FREE else PIP_STATE_RESERVED))"
proof -
  let ?n = "total_pages mmap"
  let ?s0 = "\<lparr>MmPipDatabase = map garbage [0..<unat ?n], MmTotalPages = ?n,
     MmFirstFreePip = NIL, MmFirstZeroedPip = NIL, FreePageEvents = 0\<rparr>"
  obtain r mmap' where p: "place_database t (page_align (veaos_end - 0xC0000000)) (?n * SIZEOF_PIP) mmap = Some (r, mmap')"
      "pip_db_phys r \<noteq> 0" "fill_database mmap' ?s0 = Some s"
    using assms
    by (auto simp: MmInitializePip_def total_pages_def Let_def bind_eq_Some_conv split: prod.splits option.splits if_splits)
  have big: "256 \<le> unat ?n"
    using fill_database_short [of ?s0 mmap'] p(3) by fastforce
  show ?thesis
    using p big fill_database_ok [of ?s0 mmap'] total_pages_le [of mmap] by auto
qed

lemma MmInitializePip_good:
  "MmInitializePip veaos_end garbage mmap t = Some (Some (s, t')) \<Longrightarrow> pip_good (s, None)"
  using MmInitializePip_SomeD by (fastforce simp: pip_good_def)

text \<open>Addresses and page numbers.\<close>

lemma page_address:
  assumes "unat (x :: u32) < 0x100000"
  shows "unat (x * 4096) = unat x * 4096" "x * 4096 div 4096 = x" "x * 4096 mod 4096 = 0" "x * 4096 = 0 \<longleftrightarrow> x = 0"
proof -
  show u: "unat (x * 4096) = unat x * 4096" using assms by (simp add: unat_mult_lt)
  have "unat (x * 4096 div 4096) = unat x" by (simp add: unat_div_distrib u)
  then show "x * 4096 div 4096 = x" by (simp only: word_unat_eq_iff)
  have "unat (x * 4096 mod 4096) = 0" by (simp add: unat_mod_distrib u)
  then show "x * 4096 mod 4096 = 0" by (simp add: unat_eq_zero)
  have "x * 4096 = 0 \<longleftrightarrow> unat (x * 4096) = 0" by (simp add: unat_eq_zero)
  then show "x * 4096 = 0 \<longleftrightarrow> x = 0" by (simp add: u unat_eq_zero)
qed

text \<open>Well-formed memory maps: aligned usable descriptors below four gigabytes that do not overlap.\<close>

definition map_well_formed :: "VEA_MEMORY_DESCRIPTOR list \<Rightarrow> bool" where
  "map_well_formed mmap \<longleftrightarrow>
     (\<forall>d\<in>set mmap. Type d = VeaMemoryTypeUsable \<longrightarrow>
        unat (BaseAddress d) mod 4096 = 0 \<and> unat (BaseAddress d) + unat (Length d) < 2 ^ 32) \<and>
     (\<forall>i < length mmap. \<forall>j < i. Type (mmap ! i) = VeaMemoryTypeUsable \<longrightarrow> Type (mmap ! j) = VeaMemoryTypeUsable \<longrightarrow>
        unat (BaseAddress (mmap ! i)) + unat (Length (mmap ! i)) \<le> unat (BaseAddress (mmap ! j)) \<or>
        unat (BaseAddress (mmap ! j)) + unat (Length (mmap ! j)) \<le> unat (BaseAddress (mmap ! i)))"

lemma usable_page_in:
  assumes "unat (BaseAddress d) + unat (Length d) < 2 ^ 32"
    and "k - ucast (BaseAddress d div 4096) < (ucast (Length d div 4096) :: u32)"
  shows "unat (BaseAddress d) div 4096 \<le> unat k" "(unat k + 1) * 4096 \<le> unat (BaseAddress d) div 4096 * 4096 + unat (Length d)"
proof -
  let ?b = "ucast (BaseAddress d div 4096) :: u32" and ?l = "ucast (Length d div 4096) :: u32"
  have b: "unat ?b = unat (BaseAddress d) div 4096" "unat ?l = unat (Length d) div 4096"
    using assms(1) by (simp_all add: unat_ucast_lt unat_div_distrib)
  have lt: "unat (k - ?b) < unat ?l" using assms(2) by (simp add: word_less_nat_alt)
  have "unat (?b + (k - ?b)) = unat ?b + unat (k - ?b)"
    by (rule unat_add_lt) (use lt b assms(1) in simp)
  then have k: "unat k = unat ?b + unat (k - ?b)" by simp
  then show "unat (BaseAddress d) div 4096 \<le> unat k" using b by simp
  have "unat k + 1 \<le> unat (BaseAddress d) div 4096 + unat (Length d) div 4096" using k lt b by simp
  then have "(unat k + 1) * 4096 \<le> (unat (BaseAddress d) div 4096 + unat (Length d) div 4096) * 4096" by (rule mult_le_mono1)
  then show "(unat k + 1) * 4096 \<le> unat (BaseAddress d) div 4096 * 4096 + unat (Length d)"
    by (simp add: add_mult_distrib)
qed

lemma page_start_le: "a mod 4096 = 0 \<Longrightarrow> a div 4096 \<le> k \<Longrightarrow> a \<le> k * (4096 :: nat)"
  by (metis div_mult_mod_eq add_0_right mult_le_mono1)

text \<open>The frames of the database and of its page tables are not usable pages of the map that is left.\<close>

lemma region_not_usable:
  assumes place: "place_database t kend (TotalPages * SIZEOF_PIP) mmap = Some (r, mmap')" "pip_db_phys r \<noteq> 0"
    and wf: "map_well_formed mmap"
    and pages: "0 < unat TotalPages" "unat TotalPages \<le> 0x100000"
    and low: "unat (pip_db_phys r) + 4096 * db_pages TotalPages < 0x40000000"
    and k: "unat (pip_db_phys r) \<le> unat k * 4096" "unat k * 4096 < unat (MmPipPageTableEndPhys r)"
  shows "\<not> usable_page mmap' k" "kend \<le> pip_db_phys r"
proof -
  obtain j d' where j: "j < length mmap" "Type (mmap ! j) = VeaMemoryTypeUsable"
      "try_place t kend (TotalPages * SIZEOF_PIP) (mmap ! j) = Some (r, d')" "mmap' = mmap[j := d']"
    using place_database_cases [OF place(1)] by blast
  let ?d = "mmap ! j"
  note reg = try_place_region [OF j(3) pages low]
  have d: "unat (BaseAddress ?d) mod 4096 = 0" "unat (BaseAddress ?d) + unat (Length ?d) < 2 ^ 32"
    using wf j(1,2) by (auto simp: map_well_formed_def)
  have e: "unat (end_addr ?d) = unat (BaseAddress ?d) + unat (Length ?d)"
    using d(2) by (simp add: end_addr_def unat_ucast_lt unat_add_lt)
  have base: "unat (ucast (BaseAddress ?d) :: u32) = unat (BaseAddress ?d)"
    using d(2) by (simp add: unat_ucast_lt)
  have us: "usable_start kend ?d \<noteq> 0" using place(2) reg(1) by simp
  let ?x = "if ucast (BaseAddress ?d) < kend then kend else ucast (BaseAddress ?d) :: u32"
  have "?x \<le> usable_start kend ?d"
    using us page_align_ge [of ?x] by (simp add: usable_start_def Let_def)
  moreover have "kend \<le> ?x" "ucast (BaseAddress ?d) \<le> ?x" by auto
  ultimately have ge: "kend \<le> usable_start kend ?d" "ucast (BaseAddress ?d) \<le> usable_start kend ?d"
    using order_trans by blast+
  show "kend \<le> pip_db_phys r" using ge(1) reg(1) by simp
  have lo: "unat (BaseAddress ?d) \<le> unat (pip_db_phys r)"
    using ge(2) base reg(1) by (simp add: word_le_nat_alt)
  show "\<not> usable_page mmap' k"
  proof
    assume "usable_page mmap' k"
    then obtain i where i: "i < length mmap" "Type (mmap' ! i) = VeaMemoryTypeUsable"
        "k - ucast (BaseAddress (mmap' ! i) div 4096) < (ucast (Length (mmap' ! i) div 4096) :: u32)"
      by (auto simp: usable_page_def in_set_conv_nth j(4))
    show False
    proof (cases "i = j")
      case True
      then have di: "mmap' ! i = d'" using j by simp
      have d': "unat (BaseAddress d') = unat (MmPipPageTableEndPhys r)" "unat (Length d') = unat (end_addr ?d) - unat (MmPipPageTableEndPhys r)"
        using reg(6,7) by (simp_all add: unat_ucast_up unat_sub_le word_le_nat_alt)
      moreover have "unat (MmPipPageTableEndPhys r) mod 4096 = 0" using reg(3,4,5) by simp
      moreover have "unat (BaseAddress d') div 4096 \<le> unat k"
      proof (rule usable_page_in(1) [OF _ i(3) [unfolded di]])
        have "unat (BaseAddress d') + unat (Length d') = unat (end_addr ?d)" unfolding d' using reg(6) by simp
        then show "unat (BaseAddress d') + unat (Length d') < 2 ^ 32" using unat_lt_u32 [of "end_addr ?d"] by simp
      qed
      ultimately have "unat (MmPipPageTableEndPhys r) \<le> unat k * 4096" by (metis page_start_le)
      then show False using k(2) by simp
    next
      case False
      then have di: "mmap' ! i = mmap ! i" using j(4) by simp
      have wi: "unat (BaseAddress (mmap ! i)) mod 4096 = 0" "unat (BaseAddress (mmap ! i)) + unat (Length (mmap ! i)) < 2 ^ 32"
        using wf i(1,2) di by (auto simp: map_well_formed_def)
      note u = usable_page_in [OF wi(2) i(3) [unfolded di]]
      have "unat (BaseAddress (mmap ! i)) + unat (Length (mmap ! i)) \<le> unat (BaseAddress ?d) \<or>
          unat (BaseAddress ?d) + unat (Length ?d) \<le> unat (BaseAddress (mmap ! i))"
        using wf i(1,2) j(1,2) di False by (cases i j rule: linorder_cases) (fastforce simp: map_well_formed_def)+
      moreover have "unat (BaseAddress (mmap ! i)) \<le> unat k * 4096"
          "unat k * 4096 + 4096 \<le> unat (BaseAddress (mmap ! i)) + unat (Length (mmap ! i))"
        using page_start_le [OF wi(1) u(1)] u(2) wi(1) by (simp_all add: mod_eq_0_iff_dvd)
      ultimately show False
        using k lo reg(6) e by linarith
    qed
  qed
qed

lemma MmInitializePip_total:
  assumes place: "place_database t (page_align (veaos_end - 0xC0000000)) (total_pages mmap * SIZEOF_PIP) mmap = Some (r, mmap')"
    and nz: "pip_db_phys r \<noteq> 0" and big: "256 \<le> unat (total_pages mmap)"
    and low: "unat (pip_db_phys r) + 4096 * db_pages (total_pages mmap) < 0x40000000"
  shows "\<exists>s t'. MmInitializePip veaos_end garbage mmap t = Some (Some (s, t')) \<and>
    mapped (pip_db_phys r + 0xC0000000) (pip_db_phys r) (db_pages (total_pages mmap)) r t t'"
proof -
  let ?n = "total_pages mmap"
  let ?s0 = "\<lparr>MmPipDatabase = map garbage [0..<unat ?n], MmTotalPages = ?n,
     MmFirstFreePip = NIL, MmFirstZeroedPip = NIL, FreePageEvents = 0\<rparr>"
  obtain d d' where "try_place t (page_align (veaos_end - 0xC0000000)) (?n * SIZEOF_PIP) d = Some (r, d')"
    using place_database_cases [OF place] by blast
  then obtain r' t' where m: "MmMapPip (pip_db_phys r + 0xC0000000) ?n r t = Some (r', t', True)"
      "mapped (pip_db_phys r + 0xC0000000) (pip_db_phys r) (db_pages ?n) r t t'"
    using MmMapPip_ok [OF _ _ total_pages_le low] big by fastforce
  obtain s where "fill_database mmap' ?s0 = Some s"
    using fill_database_ok [of ?s0 mmap'] big total_pages_le [of mmap] by auto
  then have "MmInitializePip veaos_end garbage mmap t = Some (Some (s, t'))"
    using m(1) place nz by (cases "scan_map mmap 0 0") (simp add: MmInitializePip_def total_pages_def Let_def)
  then show ?thesis using m(2) by blast
qed

section \<open>A machine with 128 megabytes\<close>

definition boot_map :: "VEA_MEMORY_DESCRIPTOR list" where
  "boot_map =
     [\<lparr>BaseAddress = 0, Length = 0x9F000, Type = 1\<rparr>, \<lparr>BaseAddress = 0xF0000, Length = 0x10000, Type = 2\<rparr>,
      \<lparr>BaseAddress = 0x100000, Length = 0x7F00000, Type = 1\<rparr>]"

definition boot_tables :: page_tables where
  "boot_tables = \<lparr>PD = (\<lambda>_. None), PT = (\<lambda>_. None)\<rparr>"

definition blank_pip :: PIP where
  "blank_pip = \<lparr>Flink = 0, Blink = 0, PteAddress = 0, ShareCount = 0, ReferenceCount = 0, State = 0, Flags = 0, WsIndex = 0\<rparr>"

definition boot_region :: pip_region where
  "boot_region = \<lparr>pip_db_phys = 0x2000000, MmPipPageTableNextPhys = 0x20B0000, MmPipPageTableEndPhys = 0x20B1000\<rparr>"

definition boot_map' :: "VEA_MEMORY_DESCRIPTOR list" where
  "boot_map' =
     [\<lparr>BaseAddress = 0, Length = 0x9F000, Type = 1\<rparr>, \<lparr>BaseAddress = 0xF0000, Length = 0x10000, Type = 2\<rparr>,
      \<lparr>BaseAddress = 0x20B1000, Length = 0x5F4F000, Type = 1\<rparr>]"

lemma boot_pages: "total_pages boot_map = 0x8000"
  by code_simp

lemma boot_span: "page_align (0x8000 * SIZEOF_PIP) = 0xB0000"
  by code_simp

lemma boot_place1:
  "place_database boot_tables (page_align (0xC2000000 - 0xC0000000)) (0x8000 * SIZEOF_PIP) boot_map =
     Some (boot_region, boot_map')"
  by code_simp

lemma boot_place:
  "place_database boot_tables (page_align (0xC2000000 - 0xC0000000)) (total_pages boot_map * SIZEOF_PIP) boot_map =
     Some (boot_region, boot_map')"
  "total_pages boot_map = 0x8000" "db_pages (total_pages boot_map) = 176"
  using boot_place1 by (simp_all add: boot_pages db_pages_def boot_span)

lemma boot_ok:
  "\<exists>s t'. MmInitializePip 0xC2000000 (\<lambda>_. blank_pip) boot_map boot_tables = Some (Some (s, t')) \<and>
    mapped 0xC2000000 0x2000000 176 boot_region boot_tables t'"
  using MmInitializePip_total [OF boot_place(1), of "\<lambda>_. blank_pip"] boot_place(2,3) by (simp add: boot_region_def)

lemma boot_wf: "map_well_formed boot_map"
  by (auto simp: map_well_formed_def boot_map_def less_Suc_eq nth_Cons split: nat.splits)

section \<open>The reachable states\<close>

definition pip_reachable :: "MM_PIP \<Rightarrow> MM_PIP \<times> u32 option \<Rightarrow> bool" where
  "pip_reachable s0 sp \<longleftrightarrow> pip_step\<^sup>*\<^sup>* (s0, None) sp"

lemma reachable_good:
  assumes "MmInitializePip veaos_end garbage mmap t = Some (Some (s0, t'))" "pip_reachable s0 (s, p)"
  shows "\<exists>fs zs. pip_inv s p fs zs" "keeps_reserved s0 s" "keeps_zeroed s0 s"
  using pip_reach_good [of "(s0, None)" "(s, p)"] MmInitializePip_good [OF assms(1)] assms(2)
  by (simp_all add: pip_reachable_def pip_good_def)

lemma reachable_free:
  assumes init: "MmInitializePip veaos_end garbage mmap t = Some (Some (s0, t'))" and reach: "pip_reachable s0 (s, p)"
    and place: "place_database t (page_align (veaos_end - 0xC0000000)) (total_pages mmap * SIZEOF_PIP) mmap = Some (r, mmap')"
    and k: "k < MmTotalPages s" "State (pg s k) = PIP_STATE_FREE"
  shows "initially_free mmap' k"
proof -
  obtain r1 m1 where i: "place_database t (page_align (veaos_end - 0xC0000000)) (total_pages mmap * SIZEOF_PIP) mmap = Some (r1, m1)"
      "\<forall>k < MmTotalPages s0. State (pg s0 k) = (if initially_free m1 k then PIP_STATE_FREE else PIP_STATE_RESERVED)"
    using MmInitializePip_SomeD [OF init] by auto
  have "MmTotalPages s = MmTotalPages s0" "State (pg s0 k) \<noteq> PIP_STATE_RESERVED"
    using reachable_good(2) [OF init reach] k by (auto simp: keeps_reserved_def)
  then show ?thesis using i place k(1) by (simp split: if_splits)
qed

lemma free_page_nonzero:
  assumes "MmInitializePip veaos_end garbage mmap t = Some (Some (s0, t'))" "pip_reachable s0 (s, p)"
    and "k < MmTotalPages s" "State (pg s k) = PIP_STATE_FREE"
  shows "256 \<le> k" "unat k < 0x100000"
proof -
  obtain r m where "place_database t (page_align (veaos_end - 0xC0000000)) (total_pages mmap * SIZEOF_PIP) mmap = Some (r, m)"
    using MmInitializePip_SomeD [OF assms(1)] by blast
  then show "256 \<le> k" using reachable_free [OF assms(1,2) _ assms(3,4)] by (simp add: initially_free_def)
  show "unat k < 0x100000"
    using reachable_good(1) [OF assms(1,2)] assms(3) by (auto simp: pip_inv_def pages_ok_def word_less_nat_alt)
qed

text \<open>C16: In every reachable state the free list and the list of zeroed pages hold exactly the pages of their
  states, once each and linked in both directions, a page with references is active, and the only active
  page without a reference is the one the zero page thread holds.\<close>

theorem pip_lists_exact:
  assumes "MmInitializePip veaos_end garbage mmap t = Some (Some (s0, t'))" "pip_reachable s0 (s, p)"
  shows "\<exists>fs zs. page_list s (MmFirstFreePip s) PIP_STATE_FREE fs \<and> page_list s (MmFirstZeroedPip s) PIP_STATE_ZEROED zs \<and>
    (\<forall>i < MmTotalPages s. (0 < ReferenceCount (pg s i) \<longrightarrow> State (pg s i) = PIP_STATE_ACTIVE) \<and>
       (State (pg s i) = PIP_STATE_ACTIVE \<and> ReferenceCount (pg s i) = 0 \<longleftrightarrow> p = Some i))"
  using reachable_good(1) [OF assms] by (auto simp: pip_inv_def pages_ok_def)

text \<open>C17: The initialization places the database and its page tables, maps every page of the
  database from the reserve it computed without touching other mappings, and marks free exactly the usable
  pages of the remaining map above the first megabyte and outside the kernel.\<close>

theorem MmInitializePip_correct:
  assumes "place_database t (page_align (veaos_end - 0xC0000000)) (total_pages mmap * SIZEOF_PIP) mmap = Some (r, mmap')"
    and "pip_db_phys r \<noteq> 0" "256 \<le> unat (total_pages mmap)"
    and "unat (pip_db_phys r) + 4096 * db_pages (total_pages mmap) < 0x40000000"
  shows "\<exists>s t'. MmInitializePip veaos_end garbage mmap t = Some (Some (s, t')) \<and>
    mapped (pip_db_phys r + 0xC0000000) (pip_db_phys r) (db_pages (total_pages mmap)) r t t' \<and>
    MmTotalPages s = total_pages mmap \<and>
    page_list s (MmFirstFreePip s) PIP_STATE_FREE (free_below s (unat (MmTotalPages s))) \<and>
    (\<forall>k < MmTotalPages s. State (pg s k) = (if initially_free mmap' k then PIP_STATE_FREE else PIP_STATE_RESERVED))"
proof -
  obtain s t' where s: "MmInitializePip veaos_end garbage mmap t = Some (Some (s, t'))"
      "mapped (pip_db_phys r + 0xC0000000) (pip_db_phys r) (db_pages (total_pages mmap)) r t t'"
    using MmInitializePip_total [OF assms] by blast
  then show ?thesis
    using MmInitializePip_SomeD [OF s(1)] assms(1) by (intro exI [of _ s] exI [of _ t']) (auto simp: pip_inv_def)
qed

lemma alloc_reachable:
  assumes init: "MmInitializePip veaos_end garbage mmap t = Some (Some (s0, t'))" and reach: "pip_reachable s0 (s, p)"
  shows "\<exists>s' a. MmAllocatePhysicalPage s = Some (Ok (s', a)) \<and>
    (if \<forall>k < MmTotalPages s. State (pg s k) \<noteq> PIP_STATE_FREE then a = 0 \<and> s' = s
     else a \<noteq> 0 \<and> a mod 4096 = 0 \<and> a div 4096 < MmTotalPages s \<and> State (pg s (a div 4096)) = PIP_STATE_FREE \<and>
       page_held s' a \<and> ReferenceCount (pg s' (a div 4096)) = 1 \<and> ShareCount (pg s' (a div 4096)) = 1 \<and>
       same_others (a div 4096) s s')"
proof -
  obtain fs zs where inv: "pip_inv s p fs zs" using reachable_good(1) [OF assms] by blast
  note free = pip_inv_free [OF inv]
  show ?thesis
  proof (cases fs)
    case Nil
    then have "\<forall>k < MmTotalPages s. State (pg s k) \<noteq> PIP_STATE_FREE" using free by auto
    then show ?thesis using MmAllocatePhysicalPage_ok(1) [OF inv Nil] by simp
  next
    case (Cons x xs)
    then have x: "x < MmTotalPages s" "State (pg s x) = PIP_STATE_FREE" "x \<in> set fs" using free by auto
    have lt: "unat x < 0x100000" "256 \<le> x" using free_page_nonzero [OF assms x(1,2)] by auto
    note ad = page_address [OF lt(1)]
    obtain s' where s': "MmAllocatePhysicalPage s = Some (Ok (s', x * 4096))" "take_page x s = Some s'"
      using MmAllocatePhysicalPage_ok(2) [OF inv Cons] by blast
    obtain s'' where "take_page x s = Some s''" "same_others x s s''" "State (pg s'' x) = PIP_STATE_ACTIVE"
        "ReferenceCount (pg s'' x) = 1" "ShareCount (pg s'' x) = 1" "pip_inv s'' p (remove1 x fs) zs"
      using take_page_ok [OF inv x(3)] by blast
    moreover have "x \<noteq> 0" using lt(2) by auto
    moreover have "inside s'' x"
      using calculation x(1) pages_ok_inside [OF pip_inv_pages [OF inv], of x] by (simp add: same_others_def)
    ultimately show ?thesis
      using s' x ad by (intro exI [of _ s'] exI [of _ "x * 4096"]) (auto simp: page_held_def)
  qed
qed

text \<open>C18: With a well-formed memory map, the database below the first gigabyte, and references and releases
  only by holders of pages, no page of the first megabyte, of the kernel, of the database or of its page tables is
  ever free in a state that the operations reach, so the allocator never hands one out.\<close>

theorem database_never_allocated:
  assumes init: "MmInitializePip veaos_end garbage mmap t = Some (Some (s0, t'))" and reach: "pip_reachable s0 (s, p)"
    and place: "place_database t (page_align (veaos_end - 0xC0000000)) (total_pages mmap * SIZEOF_PIP) mmap = Some (r, mmap')"
    and wf: "map_well_formed mmap"
    and low: "unat (pip_db_phys r) + 4096 * db_pages (total_pages mmap) < 0x40000000"
    and alloc: "MmAllocatePhysicalPage s = Some (Ok (s', a))" "a \<noteq> 0"
  shows "0x100000 \<le> a \<and> \<not> kernel_page (a div 4096) \<and> \<not> (pip_db_phys r \<le> a \<and> a < MmPipPageTableEndPhys r)"
proof -
  let ?k = "a div 4096"
  have k: "?k < MmTotalPages s" "State (pg s ?k) = PIP_STATE_FREE" "a mod 4096 = 0"
    using alloc_reachable [OF init reach] alloc by (auto split: if_splits)
  have a: "unat a = unat ?k * 4096"
  proof -
    have "unat (a mod 4096) = unat a mod 4096" by (simp add: unat_mod_distrib)
    then have "unat a mod 4096 = 0" using k(3) by simp
    then show ?thesis using div_mult_mod_eq [of "unat a" 4096] by (simp add: unat_div_distrib)
  qed
  have free: "initially_free mmap' ?k" by (rule reachable_free [OF init reach place k(1,2)])
  obtain pages: "0 < unat (total_pages mmap)" and nz: "pip_db_phys r \<noteq> 0"
    using MmInitializePip_SomeD [OF init] place by fastforce
  have "\<not> (pip_db_phys r \<le> a \<and> a < MmPipPageTableEndPhys r)"
    using region_not_usable(1) [OF place nz wf pages total_pages_le low, of ?k] free a
    by (auto simp: initially_free_def word_le_nat_alt word_less_nat_alt)
  moreover have "0x100000 \<le> a" using free a by (simp add: initially_free_def word_le_nat_alt)
  ultimately show ?thesis using free by (simp add: initially_free_def)
qed

text \<open>C19: In every reachable state an allocation never stops the machine and fails exactly when no page is
  free; otherwise the page it returns was free, is held with one reference, and no other
  page changes its state or its counts.\<close>

theorem MmAllocatePhysicalPage_correct:
  assumes "MmInitializePip veaos_end garbage mmap t = Some (Some (s0, t'))" "pip_reachable s0 (s, p)"
  shows "\<exists>s' a. MmAllocatePhysicalPage s = Some (Ok (s', a)) \<and>
    (if \<forall>k < MmTotalPages s. State (pg s k) \<noteq> PIP_STATE_FREE then a = 0 \<and> s' = s
     else a \<noteq> 0 \<and> a mod 4096 = 0 \<and> a div 4096 < MmTotalPages s \<and> State (pg s (a div 4096)) = PIP_STATE_FREE \<and>
       page_held s' a \<and> ReferenceCount (pg s' (a div 4096)) = 1 \<and> ShareCount (pg s' (a div 4096)) = 1 \<and>
       same_others (a div 4096) s s')"
  using assms by (rule alloc_reachable)

text \<open>In every reachable state a contiguous allocation returns the lowest run of free pages of the requested
  length, makes exactly its pages active with one reference, and fails exactly when there is no such run.\<close>

theorem MmAllocateContiguousPhysicalPages_correct:
  assumes "MmInitializePip veaos_end garbage mmap t = Some (Some (s0, t'))" "pip_reachable s0 (s, p)" "PageCount \<noteq> 0"
  shows "\<exists>s' a. MmAllocateContiguousPhysicalPages s PageCount = Some (s', a * 4096) \<and>
    (if \<forall>b. \<not> free_run_at s b (unat PageCount) then a = 0 \<and> s' = s
     else a \<noteq> 0 \<and> free_run_at s (unat a) (unat PageCount) \<and> (\<forall>b. free_run_at s b (unat PageCount) \<longrightarrow> unat a \<le> b) \<and>
       claimed a (unat PageCount) s s')"
proof -
  obtain fs zs where inv: "pip_inv s p fs zs" using reachable_good(1) [OF assms(1,2)] by blast
  consider "\<forall>b. \<not> free_run_at s b (unat PageCount)" "MmAllocateContiguousPhysicalPages s PageCount = Some (s, 0)"
    | a s' where "free_run_at s (unat a) (unat PageCount)" "\<forall>b. free_run_at s b (unat PageCount) \<longrightarrow> unat a \<le> b"
        "MmAllocateContiguousPhysicalPages s PageCount = Some (s', a * 4096)" "claimed a (unat PageCount) s s'"
    using MmAllocateContiguousPhysicalPages_ok [OF inv assms(3)] by blast
  then show ?thesis
  proof cases
    case 1
    then show ?thesis by (intro exI [of _ s] exI [of _ 0]) simp
  next
    case (2 a s')
    have "0 < unat PageCount" using assms(3) by (simp add: unat_gt_0)
    then have "a < MmTotalPages s" "State (pg s a) = PIP_STATE_FREE"
      using 2(1) by (auto simp: free_run_at_def word_less_nat_alt)
    then have "a \<noteq> 0" using free_page_nonzero(1) [OF assms(1,2), of a] by auto
    then show ?thesis using 2 by (intro exI [of _ s'] exI [of _ a]) auto
  qed
qed


section \<open>The zero page thread takes all\<close>

text \<open>One turn of the loop of \<open>MmZeroPageThreadRoutine\<close> that is not interrupted, and \<open>n\<close> of them.\<close>

definition zero_thread_round :: "MM_PIP \<Rightarrow> MM_PIP option" where
  "zero_thread_round s = do {
     (s, r) \<leftarrow> zero_thread_take s;
     if r = None then Some s else zero_thread_put s (the r) }"

fun zero_rounds :: "nat \<Rightarrow> MM_PIP \<Rightarrow> MM_PIP option" where
  "zero_rounds 0 s = Some s"
| "zero_rounds (Suc n) s = do { s \<leftarrow> zero_thread_round s; zero_rounds n s }"

lemma zero_rounds_drain:
  "pip_inv s None fs zs \<Longrightarrow> \<exists>s' zs'. zero_rounds (length fs) s = Some s' \<and> pip_inv s' None [] zs' \<and>
     pip_step\<^sup>*\<^sup>* (s, None) (s', None) \<and> set fs \<subseteq> set zs'"
proof (induction fs arbitrary: s zs)
  case Nil
  then show ?case by auto
next
  case (Cons x xs)
  obtain s1 where s1: "zero_thread_take s = Some (s1, Some x)" "pip_inv s1 (Some x) xs zs"
    using zero_thread_take_ok [OF Cons.prems] by auto
  obtain s2 where s2: "zero_thread_put s1 x = Some s2" "pip_inv s2 None xs (x # zs)"
    using zero_thread_put_ok [OF s1(2)] by auto
  obtain s' zs' where s': "zero_rounds (length xs) s2 = Some s'" "pip_inv s' None [] zs'"
      "pip_step\<^sup>*\<^sup>* (s2, None) (s', None)" "set xs \<subseteq> set zs'"
    using Cons.IH [OF s2(2)] by blast
  have two: "pip_step (s, None) (s1, Some x)" "pip_step (s1, Some x) (s2, None)"
    using s1(1) s2(1) by (auto intro: pip_step.zero_take pip_step.zero_put)
  have "x \<in> set zs'"
    using pip_reach_inv [OF s'(3)] s2(2) pip_inv_zeroed [OF s'(2)] pip_inv_zeroed by fastforce
  moreover have "zero_rounds (length (x # xs)) s = Some s'"
    using s1(1) s2(1) s'(1) by (simp add: zero_thread_round_def)
  moreover have "pip_step\<^sup>*\<^sup>* (s, None) (s', None)"
    using two s'(3) by (meson converse_rtranclp_into_rtranclp)
  ultimately show ?case using s' by auto
qed

text \<open>C20: The zero page thread uses up the memory: from every reachable state as many turns as there are free pages
  leave nothing to allocate, and because no operation takes a page from the list of zeroed
  pages these pages are never allocated again, whatever happens next.\<close>

theorem zero_thread_exhausts_memory:
  assumes "MmInitializePip veaos_end garbage mmap t = Some (Some (s0, t'))" "pip_reachable s0 (s, None)"
  shows "\<exists>n s'. zero_rounds n s = Some s' \<and> pip_reachable s0 (s', None) \<and> MmAllocatePhysicalPage s' = Some (Ok (s', 0)) \<and>
    (\<forall>s'' p. pip_reachable s' (s'', p) \<longrightarrow>
       (\<forall>k < MmTotalPages s. State (pg s k) = PIP_STATE_FREE \<longrightarrow> State (pg s'' k) = PIP_STATE_ZEROED))"
proof -
  obtain fs zs where inv: "pip_inv s None fs zs" using reachable_good(1) [OF assms] by blast
  obtain s' zs' where s': "zero_rounds (length fs) s = Some s'" "pip_inv s' None [] zs'"
      "pip_step\<^sup>*\<^sup>* (s, None) (s', None)" "set fs \<subseteq> set zs'"
    using zero_rounds_drain [OF inv] by blast
  have "State (pg s'' k) = PIP_STATE_ZEROED"
    if "pip_reachable s' (s'', p)" "k < MmTotalPages s" "State (pg s k) = PIP_STATE_FREE" for s'' p k
  proof -
    have "k \<in> set zs'" using that pip_inv_free [OF inv] s'(4) by auto
    then have "k < MmTotalPages s'" "State (pg s' k) = PIP_STATE_ZEROED" using pip_inv_zeroed [OF s'(2)] by auto
    moreover have "keeps_zeroed s' s''"
      using pip_reach_good [of "(s', None)" "(s'', p)"] that(1) s'(2) by (auto simp: pip_reachable_def pip_good_def)
    ultimately show ?thesis by (simp add: keeps_zeroed_def)
  qed
  moreover have "pip_reachable s0 (s', None)" using assms(2) s'(3) by (simp add: pip_reachable_def)
  ultimately show ?thesis using s'(1) MmAllocatePhysicalPage_ok(1) [OF s'(2) refl] by blast
qed

text \<open>The reference of a page nobody holds, as \<open>MmLockPages\<close> takes it on the pages of a device or of the first
  megabyte, and its release make a reserved page free.\<close>

lemma reserved_page_becomes_free:
  assumes inv: "pip_inv s pend fs zs" and x: "x < MmTotalPages s" "State (pg s x) = PIP_STATE_RESERVED"
  shows "\<exists>s1 s2. MmReferencePhysicalPage s (x * 4096) = Some s1 \<and> MmDereferencePhysicalPage s1 (x * 4096) = Some s2 \<and>
    State (pg s2 x) = PIP_STATE_FREE \<and> MmFirstFreePip s2 = x"
proof -
  have ok: "pages_ok s pend" using inv by (simp add: pip_inv_def)
  then have "\<not> 0 < ReferenceCount (pg s x)" using x by (auto simp: pages_ok_def)
  then have rc: "ReferenceCount (pg s x) = 0" by (simp add: word_gt_0)
  have lt: "unat x < 0x100000" using ok x(1) by (auto simp: pages_ok_def word_less_nat_alt)
  have ins: "inside s x" using x ok pages_ok_inside by blast
  note ad = page_address(2) [OF lt]
  let ?s1 = "rewrite s x (ReferenceCount_update (\<lambda>n. n + 1) (pg s x))"
  have s1: "MmReferencePhysicalPage s (x * 4096) = Some ?s1"
    using ins x ad by (simp add: MmReferencePhysicalPage_def Let_def not_le PAGE_SIZE_def)
  let ?p = "(ReferenceCount_update (\<lambda>n. n - 1) (ReferenceCount_update (\<lambda>n. n + 1) (pg s x)))\<lparr>ShareCount := 0, State := PIP_STATE_FREE\<rparr>"
  obtain s2 where s2: "MmpInsertFreePageHead (rewrite s x ?p) x = Some s2" "same_counts (pg s2 x) ?p"
      "page_list s2 (MmFirstFreePip s2) PIP_STATE_FREE (x # fs)"
    using put_lists(1) [OF inv x(1), of ?p] x(2) by auto
  have "MmDereferencePhysicalPage ?s1 (x * 4096) = Some s2"
    using ins x ad s2(1) rc by (simp add: MmDereferencePhysicalPage_def Let_def not_le)
  then show ?thesis using s1 s2 by (auto simp: same_counts_def page_list_def)
qed

section \<open>The bitmap of used pages\<close>

lemma RtlSetBit_range:
  assumes "unat i < 32 * length (BmBuffer h)"
  shows "\<exists>ys. RtlSetBit h i = Some (h\<lparr>BmBuffer := ys\<rparr>) \<and> upd_range True (BmBuffer h) ys (unat i) 1"
proof -
  let ?a = "unat i mod 32"
  have "\<exists>ys. or_word (BmBuffer h) (unat i div 32) (push_bit ?a 1) = Some ys \<and>
      upd_range True (BmBuffer h) ys (32 * (unat i div 32) + ?a) 1"
    by (rule or_word_range) (use assms in \<open>auto simp: bit_exp_iff possible_bit_def less_Suc_eq_le\<close>)
  then show ?thesis by (auto simp: RtlSetBit_def with_buffer_def unat_and_31 unat_div_32)
qed

lemma sync_bits_spec:
  assumes "length (MmPipDatabase s) = unat (MmTotalPages s)" "unat (MmTotalPages s) \<le> 32 * length (BmBuffer h)"
    and "unat i + n = unat (MmTotalPages s)"
  shows "\<exists>ys. sync_bits n i s h = Some (h\<lparr>BmBuffer := ys\<rparr>) \<and> length ys = length (BmBuffer h) \<and>
    (\<forall>k < unat (MmTotalPages s). bm_bit ys k \<longleftrightarrow> (unat i \<le> k \<and> \<not> free_at s k) \<or> bm_bit (BmBuffer h) k)"
  using assms(2,3)
proof (induction n arbitrary: i h)
  case 0
  then show ?case by (intro exI [of _ "BmBuffer h"]) auto
next
  case (Suc n)
  have i: "inside s i" "unat (i + 1) = unat i + 1"
    using Suc.prems assms(1) unat_lt_u32 [of "MmTotalPages s"] by (simp_all add: unat_add_lt)
  obtain ys where ys: "RtlSetBit h i = Some (h\<lparr>BmBuffer := ys\<rparr>)" "upd_range True (BmBuffer h) ys (unat i) 1"
    using RtlSetBit_range [of i h] Suc.prems i assms(1) by auto
  define h' where "h' = (if State (pg s i) \<noteq> PIP_STATE_FREE then h\<lparr>BmBuffer := ys\<rparr> else h)"
  have len: "length (BmBuffer h') = length (BmBuffer h)" using ys(2) by (simp add: h'_def upd_range_def)
  have bits: "bm_bit (BmBuffer h') k \<longleftrightarrow> (k = unat i \<and> \<not> free_at s k) \<or> bm_bit (BmBuffer h) k"
    if "k < unat (MmTotalPages s)" for k
    using ys(2) that Suc.prems(1) by (cases "k = unat i") (auto simp: h'_def upd_range_def)
  obtain zs where zs: "sync_bits n (i + 1) s h' = Some (h'\<lparr>BmBuffer := zs\<rparr>)" "length zs = length (BmBuffer h')"
      "\<forall>k < unat (MmTotalPages s). bm_bit zs k \<longleftrightarrow> (unat i + 1 \<le> k \<and> \<not> free_at s k) \<or> bm_bit (BmBuffer h') k"
    using Suc.IH [of h' "i + 1"] Suc.prems len i by auto
  have "sync_bits (Suc n) i s h = Some (h\<lparr>BmBuffer := zs\<rparr>)"
    using zs(1) ys(1) i by (simp add: h'_def split: if_splits)
  moreover have "bm_bit zs k \<longleftrightarrow> (unat i \<le> k \<and> \<not> free_at s k) \<or> bm_bit (BmBuffer h) k"
    if "k < unat (MmTotalPages s)" for k
    using zs(3) bits [OF that] that by (auto simp: Suc_le_eq)
  ultimately show ?case using zs(2) len by auto
qed

text \<open>The bitmap has a bit for every page, set exactly when the page is not free.\<close>

lemma MiInitializePipBitmap_ok:
  assumes inv: "pip_inv s pend fs zs"
    and pool: "UlAllocatePoolWithTag (unat ((MmTotalPages s + 31) div 32 * 4)) = Some buffer"
      "length buffer = (unat (MmTotalPages s) + 31) div 32"
  shows "\<exists>h. MiInitializePipBitmap UlAllocatePoolWithTag s = Some (Some h) \<and> SizeOfBitMap h = MmTotalPages s \<and>
    (\<forall>k < MmTotalPages s. bm_bit (BmBuffer h) (unat k) \<longleftrightarrow> State (pg s k) \<noteq> PIP_STATE_FREE)"
proof -
  let ?T = "MmTotalPages s"
  have len: "length (MmPipDatabase s) = unat ?T" and le: "unat ?T \<le> 0x100000"
    using inv by (simp_all add: pip_inv_def pages_ok_def)
  let ?L = "(?T + 32 - 1) div 32"
  have "?T + 32 - 1 = ?T + 31" by simp
  moreover have "unat (?T + 31) = unat ?T + 31" using le unat_add_lt [of ?T 31] by simp
  ultimately have L: "unat ?L = (unat ?T + 31) div 32" by (metis unat_div_32)
  have "unat (?L * 32) = unat ?L * 32" "unat (?L * 4) = unat ?L * 4"
    using L le by (simp_all add: unat_mult_lt)
  then have d: "drop_bit 3 (?L * 32) = ?L * 4" "unat (?L * 32) div 32 = unat ?L"
    by (simp_all add: word_unat_eq_iff unat_drop_bit)
  let ?h0 = "RtlInitializeBitmap buffer ?T"
  obtain ys where ys: "RtlFillMemoryUlong buffer (Some 0) (?L * 4) 0 = Some ys" "upd_range False buffer ys 0 (32 * unat ?L)"
    using fill_range [of 0 "?L * 32" buffer False] pool(2) L d by auto
  have clear: "RtlClearAllBits ?h0 = Some (?h0\<lparr>BmBuffer := ys\<rparr>)"
    using ys(1) by (simp add: RtlClearAllBits_def RtlInitializeBitmap_def with_buffer_def)
  have room: "unat ?T \<le> 32 * length ys" "length ys = length buffer" using ys(2) pool(2) by (auto simp: upd_range_def)
  have zero: "\<not> bm_bit ys k" if "k < unat ?T" for k
    using ys(2) that room L pool(2) by (simp add: upd_range_def)
  obtain zs where zs: "sync_bits (unat ?T) 0 s (?h0\<lparr>BmBuffer := ys\<rparr>) = Some (?h0\<lparr>BmBuffer := ys, BmBuffer := zs\<rparr>)"
      "\<forall>k < unat ?T. bm_bit zs k \<longleftrightarrow> \<not> free_at s k \<or> bm_bit ys k"
    using sync_bits_spec [OF len, of "?h0\<lparr>BmBuffer := ys\<rparr>" 0 "unat ?T"] room by auto
  then show ?thesis
    using clear pool(1) zero
    by (auto simp: MiInitializePipBitmap_def RtlInitializeBitmap_def word_less_nat_alt Let_def)
qed

section \<open>Witnesses\<close>

lemma boot_initialized:
  "\<exists>s t'. MmInitializePip 0xC2000000 (\<lambda>_. blank_pip) boot_map boot_tables = Some (Some (s, t')) \<and> pip_reachable s (s, None) \<and>
     (\<exists>k < MmTotalPages s. State (pg s k) = PIP_STATE_FREE)"
proof -
  obtain s t' where s: "MmInitializePip 0xC2000000 (\<lambda>_. blank_pip) boot_map boot_tables = Some (Some (s, t'))"
    using boot_ok by blast
  obtain r m where rm: "place_database boot_tables (page_align (0xC2000000 - 0xC0000000)) (total_pages boot_map * SIZEOF_PIP) boot_map = Some (r, m)"
      "MmTotalPages s = total_pages boot_map"
      "\<forall>k < MmTotalPages s. State (pg s k) = (if initially_free m k then PIP_STATE_FREE else PIP_STATE_RESERVED)"
    using MmInitializePip_SomeD [OF s] by blast
  have m: "m = boot_map'" using rm(1) boot_place by simp
  have "initially_free boot_map' 0x7000" by code_simp
  then have "State (pg s 0x7000) = PIP_STATE_FREE" "0x7000 < MmTotalPages s" using rm(3) [unfolded m, rule_format, of "0x7000"] rm(2) boot_place(2) by auto
  then show ?thesis using s by (auto simp: pip_reachable_def)
qed


theorem pip_lists_exact_witness:
  "\<exists>s t'. MmInitializePip 0xC2000000 (\<lambda>_. blank_pip) boot_map boot_tables = Some (Some (s, t')) \<and>
    (\<exists>fs. page_list s (MmFirstFreePip s) PIP_STATE_FREE fs \<and> fs \<noteq> [])"
proof -
  obtain s t' k where s: "MmInitializePip 0xC2000000 (\<lambda>_. blank_pip) boot_map boot_tables = Some (Some (s, t'))"
      "pip_reachable s (s, None)" "k < MmTotalPages s" "State (pg s k) = PIP_STATE_FREE"
    using boot_initialized by blast
  obtain fs where "page_list s (MmFirstFreePip s) PIP_STATE_FREE fs"
    using pip_lists_exact [OF s(1,2)] by blast
  then show ?thesis using s by (auto simp: page_list_def)
qed

theorem MmInitializePip_correct_witness:
  "\<exists>s t'. MmInitializePip 0xC2000000 (\<lambda>_. blank_pip) boot_map boot_tables = Some (Some (s, t')) \<and>
    mapped 0xC2000000 0x2000000 176 boot_region boot_tables t'"
  using MmInitializePip_correct [OF boot_place(1), of "\<lambda>_. blank_pip"] boot_place(2,3)
  by (auto simp: boot_region_def)

theorem database_never_allocated_witness:
  "\<exists>s t' s' a. MmInitializePip 0xC2000000 (\<lambda>_. blank_pip) boot_map boot_tables = Some (Some (s, t')) \<and>
    MmAllocatePhysicalPage s = Some (Ok (s', a)) \<and> 0x100000 \<le> a \<and> \<not> (0x2000000 \<le> a \<and> a < 0x20B1000)"
proof -
  obtain s t' k where s: "MmInitializePip 0xC2000000 (\<lambda>_. blank_pip) boot_map boot_tables = Some (Some (s, t'))"
      "pip_reachable s (s, None)" "k < MmTotalPages s" "State (pg s k) = PIP_STATE_FREE"
    using boot_initialized by blast
  obtain s' a where a: "MmAllocatePhysicalPage s = Some (Ok (s', a))" "a \<noteq> 0"
    using alloc_reachable [OF s(1,2)] s(3,4) by (auto split: if_splits)
  show ?thesis
    using database_never_allocated [OF s(1,2) boot_place(1) boot_wf _ a] s(1) a boot_place(3)
    by (auto simp: boot_region_def)
qed

theorem MmAllocatePhysicalPage_correct_witness:
  "\<exists>s t' s' a. MmInitializePip 0xC2000000 (\<lambda>_. blank_pip) boot_map boot_tables = Some (Some (s, t')) \<and>
    MmAllocatePhysicalPage s = Some (Ok (s', a)) \<and> a \<noteq> 0 \<and> page_held s' a"
proof -
  obtain s t' k where s: "MmInitializePip 0xC2000000 (\<lambda>_. blank_pip) boot_map boot_tables = Some (Some (s, t'))"
      "pip_reachable s (s, None)" "k < MmTotalPages s" "State (pg s k) = PIP_STATE_FREE"
    using boot_initialized by blast
  then show ?thesis
    using MmAllocatePhysicalPage_correct [OF s(1,2)] by (auto split: if_splits)
qed

theorem MmAllocateContiguousPhysicalPages_correct_witness:
  "\<exists>s t' s' a. MmInitializePip 0xC2000000 (\<lambda>_. blank_pip) boot_map boot_tables = Some (Some (s, t')) \<and>
    MmAllocateContiguousPhysicalPages s 1 = Some (s', a * 4096) \<and> a \<noteq> 0 \<and> claimed a 1 s s'"
proof -
  obtain s t' k where s: "MmInitializePip 0xC2000000 (\<lambda>_. blank_pip) boot_map boot_tables = Some (Some (s, t'))"
      "pip_reachable s (s, None)" "k < MmTotalPages s" "State (pg s k) = PIP_STATE_FREE"
    using boot_initialized by blast
  have "free_run_at s (unat k) 1"
    using s(3,4) by (auto simp: free_run_at_def word_less_nat_alt less_Suc_eq_le dest: le_antisym)
  then show ?thesis
    using MmAllocateContiguousPhysicalPages_correct [OF s(1,2), of 1] s(1) by (auto split: if_splits)
qed

theorem zero_thread_exhausts_memory_witness:
  "\<exists>s t' n s'. MmInitializePip 0xC2000000 (\<lambda>_. blank_pip) boot_map boot_tables = Some (Some (s, t')) \<and>
    zero_rounds n s = Some s' \<and> MmAllocatePhysicalPage s' = Some (Ok (s', 0))"
proof -
  obtain s t' where s: "MmInitializePip 0xC2000000 (\<lambda>_. blank_pip) boot_map boot_tables = Some (Some (s, t'))"
      "pip_reachable s (s, None)"
    using boot_initialized by blast
  then show ?thesis using zero_thread_exhausts_memory [OF s] by blast
qed

end
