(* ===== verification/FatName.thy ===== *)
theory FatName
  imports VeaBytes RtlMemory
begin

text \<open>
  \<open>driver/filesystem/veafat/name.c\<close>: the short and the long names of the FAT file system. A name is the list of
  its characters (an \<open>ANSI_STRING\<close>), a short name the 11 bytes of a directory entry, a long name is cut into
  pieces of 13 characters of 16 bits. Writes outside an array are \<open>None\<close>.
\<close>

section \<open>Short names\<close>

definition RtlUpperChar :: "u8 \<Rightarrow> u8" where
  "RtlUpperChar Character = (if 97 \<le> Character \<and> Character \<le> 122 then Character - 32 else Character)"

definition DOT :: u8 where "DOT = 0x2E"
definition SPACE :: u8 where "SPACE = 0x20"

text \<open>The loop over the name: the rest of the input and the short name. Then the loop over the extension.\<close>

fun sfn_name :: "u8 list \<Rightarrow> nat \<Rightarrow> u8 list \<Rightarrow> (u8 list \<times> u8 list) option" where
  "sfn_name [] j Sfn = Some ([], Sfn)"
| "sfn_name (c # cs) j Sfn =
     (if c \<noteq> DOT \<and> j < 8 then do { Sfn \<leftarrow> wr Sfn j (RtlUpperChar c); sfn_name cs (j + 1) Sfn }
      else Some (c # cs, Sfn))"

fun sfn_extension :: "u8 list \<Rightarrow> nat \<Rightarrow> u8 list \<Rightarrow> u8 list option" where
  "sfn_extension [] j Sfn = Some Sfn"
| "sfn_extension (c # cs) j Sfn =
     (if j < 11 then do { Sfn \<leftarrow> wr Sfn j (RtlUpperChar c); sfn_extension cs (j + 1) Sfn } else Some Sfn)"

definition FatpFormatSfn :: "u8 list \<Rightarrow> u8 list option" where
  "FatpFormatSfn InputName = do {
     let Sfn = replicate 11 SPACE;
     (rest, Sfn) \<leftarrow> sfn_name InputName 0 Sfn;
     let rest = dropWhile (\<lambda>c. c \<noteq> DOT) rest;
     if rest \<noteq> [] \<and> hd rest = DOT then sfn_extension (tl rest) 8 Sfn else Some Sfn }"

text \<open>The loop of \<open>FatpNeedsLfn\<close>, with the lengths it counts.\<close>

fun needs_lfn_loop :: "u8 list \<Rightarrow> bool \<Rightarrow> nat \<Rightarrow> nat \<Rightarrow> bool" where
  "needs_lfn_loop [] HasExt NameLen ExtLen = (NameLen > 8 \<or> ExtLen > 3)"
| "needs_lfn_loop (c # cs) HasExt NameLen ExtLen =
     (if c = DOT then (if HasExt then True else needs_lfn_loop cs True NameLen ExtLen)
      else if 97 \<le> c \<and> c \<le> 122 then True
      else if c = SPACE \<or> c = 0x2B \<or> c = 0x2C \<or> c = 0x3B \<or> c = 0x3D \<or> c = 0x5B \<or> c = 0x5D then True
      else if \<not> HasExt then needs_lfn_loop cs HasExt (NameLen + 1) ExtLen
      else needs_lfn_loop cs HasExt NameLen (ExtLen + 1))"

definition FatpNeedsLfn :: "u8 list \<Rightarrow> bool" where
  "FatpNeedsLfn InputName = needs_lfn_loop InputName False 0 0"

definition FatpCalculateSfnChecksum :: "u8 list \<Rightarrow> u8" where
  "FatpCalculateSfnChecksum Sfn =
     foldl (\<lambda>Checksum c. (if Checksum AND 1 \<noteq> 0 then 0x80 else 0) + drop_bit 1 Checksum + c) 0 (take 11 Sfn)"

text \<open>The loops of \<open>FatpGenerateSfn\<close>, which leave spaces out.\<close>

fun tail_name :: "u8 list \<Rightarrow> nat \<Rightarrow> u8 list \<Rightarrow> (u8 list \<times> nat \<times> u8 list) option" where
  "tail_name [] j Sfn = Some ([], j, Sfn)"
| "tail_name (c # cs) j Sfn =
     (if c \<noteq> DOT \<and> j < 6 then
        (if c = SPACE then tail_name cs j Sfn
         else do { Sfn \<leftarrow> wr Sfn j (RtlUpperChar c); tail_name cs (j + 1) Sfn })
      else Some (c # cs, j, Sfn))"

fun tail_extension :: "u8 list \<Rightarrow> nat \<Rightarrow> u8 list \<Rightarrow> u8 list option" where
  "tail_extension [] j Sfn = Some Sfn"
| "tail_extension (c # cs) j Sfn =
     (if j < 11 then
        (if c = SPACE then tail_extension cs j Sfn
         else do { Sfn \<leftarrow> wr Sfn j (RtlUpperChar c); tail_extension cs (j + 1) Sfn })
      else Some Sfn)"

definition FatpGenerateSfn :: "u8 list \<Rightarrow> u8 list option" where
  "FatpGenerateSfn InputName =
     (if \<not> FatpNeedsLfn InputName then FatpFormatSfn InputName
      else do {
        let Sfn = replicate 11 SPACE;
        (rest, j, Sfn) \<leftarrow> tail_name InputName 0 Sfn;
        Sfn \<leftarrow> wr Sfn j 0x7E;
        Sfn \<leftarrow> wr Sfn (j + 1) 0x31;
        let rest = dropWhile (\<lambda>c. c \<noteq> DOT) rest;
        if rest \<noteq> [] \<and> hd rest = DOT then tail_extension (tl rest) 8 Sfn else Some Sfn })"

section \<open>Long names\<close>

record FAT_LFN_ENTRY =
  SequenceNumber :: u8
  Name1 :: "u16 list"
  LfnAttributes :: u8
  LfnType :: u8
  LfnSum :: u8
  Name2 :: "u16 list"
  LfnClusterLow :: u16
  Name3 :: "u16 list"

definition FAT_ATTR_LFN :: u8 where "FAT_ATTR_LFN = 0x0F"
definition FAT_LFN_LAST_ENTRY :: u8 where "FAT_LFN_LAST_ENTRY = 0x40"
definition FAT_LFN_SEQ_MASK :: u8 where "FAT_LFN_SEQ_MASK = 0x1F"

text \<open>Copies of a range of characters (\<open>RtlCopyMemory\<close>).\<close>

definition get_chars :: "u16 list \<Rightarrow> nat \<Rightarrow> nat \<Rightarrow> u16 list option" where
  "get_chars w p n = (if p + n \<le> length w then Some (take n (drop p w)) else None)"

definition put_chars :: "u16 list \<Rightarrow> nat \<Rightarrow> u16 list \<Rightarrow> u16 list option" where
  "put_chars w p cs = (if p + length cs \<le> length w then Some (take p w @ cs @ drop (p + length cs) w) else None)"

definition FatpExtractLfnChars :: "FAT_LFN_ENTRY \<Rightarrow> u16 list \<Rightarrow> nat \<Rightarrow> u16 list option" where
  "FatpExtractLfnChars LfnEntry Target Slot = do {
     Target \<leftarrow> put_chars Target Slot (Name1 LfnEntry);
     Target \<leftarrow> put_chars Target (Slot + 5) (Name2 LfnEntry);
     put_chars Target (Slot + 11) (Name3 LfnEntry) }"

function lfn_length :: "u16 list \<Rightarrow> nat \<Rightarrow> nat option" where
  "lfn_length LfnBuffer LfnLen =
     (if LfnLen < 255 then do {
        c \<leftarrow> rd LfnBuffer LfnLen;
        if c \<noteq> 0 \<and> c \<noteq> 0xFFFF then lfn_length LfnBuffer (LfnLen + 1) else Some LfnLen }
      else Some LfnLen)"
  by auto
termination by (relation "measure (\<lambda>(b, n). 255 - n)") auto

declare lfn_length.simps [simp del]

fun lfn_chars_equal :: "u16 list \<Rightarrow> u8 list \<Rightarrow> bool" where
  "lfn_chars_equal (w # ws) (c # cs) =
     (if RtlUpperChar (ucast w) \<noteq> RtlUpperChar c then False else lfn_chars_equal ws cs)"
| "lfn_chars_equal _ _ = True"

definition FatpCompareLfnWithAnsi :: "u16 list \<Rightarrow> u8 list \<Rightarrow> bool option" where
  "FatpCompareLfnWithAnsi LfnBuffer ComponentName = do {
     LfnLen \<leftarrow> lfn_length LfnBuffer 0;
     Some (if LfnLen \<noteq> length ComponentName then False
           else lfn_chars_equal (take LfnLen LfnBuffer) ComponentName) }"

text \<open>\<open>FatpGenerateLfnEntries\<close>: the conversion, the padding, and the loop over the entries.\<close>

fun widen :: "u8 list \<Rightarrow> nat \<Rightarrow> u16 list \<Rightarrow> u16 list option" where
  "widen [] i WcharName = Some WcharName"
| "widen (c # cs) i WcharName = do { WcharName \<leftarrow> wr WcharName i (ucast c); widen cs (i + 1) WcharName }"

function pad_name :: "nat \<Rightarrow> nat \<Rightarrow> u16 list \<Rightarrow> u16 list option" where
  "pad_name i n WcharName =
     (if i < n then do { WcharName \<leftarrow> wr WcharName i 0xFFFF; pad_name (i + 1) n WcharName } else Some WcharName)"
  by auto
termination by (relation "measure (\<lambda>(i, n, w). n - i)") auto

declare pad_name.simps [simp del]

definition lfn_entry :: "nat \<Rightarrow> nat \<Rightarrow> u8 \<Rightarrow> u16 list \<Rightarrow> FAT_LFN_ENTRY option" where
  "lfn_entry Seq LfnCount SfnChecksum WcharName = do {
     let CharOffset = (Seq - 1) * 13;
     a \<leftarrow> get_chars WcharName CharOffset 5;
     b \<leftarrow> get_chars WcharName (CharOffset + 5) 6;
     c \<leftarrow> get_chars WcharName (CharOffset + 11) 2;
     Some \<lparr>SequenceNumber = (if Seq = LfnCount then of_nat Seq OR FAT_LFN_LAST_ENTRY else of_nat Seq), Name1 = a,
       LfnAttributes = FAT_ATTR_LFN, LfnType = 0, LfnSum = SfnChecksum, Name2 = b, LfnClusterLow = 0, Name3 = c\<rparr> }"

function lfn_entries_loop :: "nat \<Rightarrow> nat \<Rightarrow> u8 \<Rightarrow> u16 list \<Rightarrow> FAT_LFN_ENTRY list \<Rightarrow> FAT_LFN_ENTRY list option" where
  "lfn_entries_loop Seq LfnCount SfnChecksum WcharName Buffer =
     (if Seq \<le> LfnCount then do {
        e \<leftarrow> lfn_entry Seq LfnCount SfnChecksum WcharName;
        Buffer \<leftarrow> wr Buffer (LfnCount - Seq) e;
        lfn_entries_loop (Seq + 1) LfnCount SfnChecksum WcharName Buffer }
      else Some Buffer)"
  by auto
termination by (relation "measure (\<lambda>(s, n, c, w, b). Suc n - s)") auto

declare lfn_entries_loop.simps [simp del]

definition zero_lfn :: FAT_LFN_ENTRY where
  "zero_lfn = \<lparr>SequenceNumber = 0, Name1 = replicate 5 0, LfnAttributes = 0, LfnType = 0, LfnSum = 0,
     Name2 = replicate 6 0, LfnClusterLow = 0, Name3 = replicate 2 0\<rparr>"

definition FatpGenerateLfnEntries :: "u8 list \<Rightarrow> u8 \<Rightarrow> FAT_LFN_ENTRY list \<Rightarrow> (nat \<times> FAT_LFN_ENTRY list) option" where
  "FatpGenerateLfnEntries InputName SfnChecksum LfnEntriesBuffer = do {
     let NameLen = length InputName;
     let LfnCount = (NameLen + 12) div 13;
     let WcharName = replicate 256 0;
     WcharName \<leftarrow> widen InputName 0 WcharName;
     WcharName \<leftarrow> wr WcharName NameLen 0;
     WcharName \<leftarrow> pad_name (NameLen + 1) (LfnCount * 13) WcharName;
     Buffer \<leftarrow> (if LfnCount \<le> length LfnEntriesBuffer
       then Some (replicate LfnCount zero_lfn @ drop LfnCount LfnEntriesBuffer) else None);
     Buffer \<leftarrow> lfn_entries_loop 1 LfnCount SfnChecksum WcharName Buffer;
     Some (LfnCount, Buffer) }"

section \<open>Short names are 11 characters\<close>

lemma sfn_name_ok:
  "length Sfn = 11 \<Longrightarrow> j \<le> 8 \<Longrightarrow> \<exists>rest S. sfn_name xs j Sfn = Some (rest, S) \<and> length S = 11"
  by (induction xs j Sfn rule: sfn_name.induct) auto

lemma sfn_extension_ok: "length Sfn = 11 \<Longrightarrow> \<exists>S. sfn_extension xs j Sfn = Some S \<and> length S = 11"
  by (induction xs j Sfn rule: sfn_extension.induct) auto

lemma FatpFormatSfn_ok: "\<exists>S. FatpFormatSfn xs = Some S \<and> length S = 11"
proof -
  obtain rest S where "sfn_name xs 0 (replicate 11 SPACE) = Some (rest, S)" "length S = 11"
    using sfn_name_ok [of "replicate 11 SPACE" 0 xs] by auto
  then show ?thesis
    using sfn_extension_ok [of S "tl (dropWhile (\<lambda>c. c \<noteq> DOT) rest)" 8] by (auto simp: FatpFormatSfn_def Let_def)
qed

lemma tail_name_ok:
  "length Sfn = 11 \<Longrightarrow> j \<le> 6 \<Longrightarrow> \<exists>rest k S. tail_name xs j Sfn = Some (rest, k, S) \<and> length S = 11 \<and> k \<le> 6"
  by (induction xs j Sfn rule: tail_name.induct) auto

lemma tail_extension_ok: "length Sfn = 11 \<Longrightarrow> \<exists>S. tail_extension xs j Sfn = Some S \<and> length S = 11"
  by (induction xs j Sfn rule: tail_extension.induct) auto

lemma FatpGenerateSfn_ok: "\<exists>S. FatpGenerateSfn xs = Some S \<and> length S = 11"
proof (cases "FatpNeedsLfn xs")
  case True
  obtain rest k S where S: "tail_name xs 0 (replicate 11 SPACE) = Some (rest, k, S)" "length S = 11" "k \<le> 6"
    using tail_name_ok [of "replicate 11 SPACE" 0 xs] by auto
  then show ?thesis
    using tail_extension_ok [of "S[k := 0x7E, k + 1 := 0x31]" "tl (dropWhile (\<lambda>c. c \<noteq> DOT) rest)" 8] True
    by (auto simp: FatpGenerateSfn_def Let_def)
next
  case False
  then show ?thesis using FatpFormatSfn_ok [of xs] by (simp add: FatpGenerateSfn_def)
qed

section \<open>The entries of a long name\<close>

text \<open>The characters of a name with its terminator and padding.\<close>

definition wide_name :: "u8 list \<Rightarrow> u16 list" where
  "wide_name xs = (map ucast xs @ 0 # replicate (256 - length xs) 0xFFFF)"

definition lfn_count :: "u8 list \<Rightarrow> nat" where
  "lfn_count xs = (length xs + 12) div 13"

lemma widen_ok: "i + length xs \<le> length w \<Longrightarrow> widen xs i w = Some (take i w @ map ucast xs @ drop (i + length xs) w)"
proof (induction xs arbitrary: i w)
  case (Cons c cs)
  have "take (Suc i) (w[i := ucast c]) = take i w @ [ucast c]"
    using Cons.prems by (simp add: take_Suc_conv_app_nth)
  then show ?case using Cons by simp
qed simp

lemma widen_None: "length w < i + length xs \<Longrightarrow> xs \<noteq> [] \<Longrightarrow> widen xs i w = None"
proof (induction xs arbitrary: i w)
  case (Cons c cs)
  show ?case
  proof (cases "i < length w")
    case True
    then have "cs \<noteq> []" using Cons.prems by auto
    then show ?thesis using Cons True by simp
  qed (simp add: Cons)
qed simp

lemma pad_name_ok:
  "i \<le> n \<Longrightarrow> n \<le> length w \<Longrightarrow> pad_name i n w = Some (take i w @ replicate (n - i) 0xFFFF @ drop n w)"
proof (induction "n - i" arbitrary: i w)
  case 0
  then show ?case by (subst pad_name.simps) simp
next
  case (Suc k)
  then have i: "i < n" "k = n - Suc i" by auto
  have "take (Suc i) (w[i := 0xFFFF]) = take i w @ [0xFFFF]"
    using Suc.prems i by (simp add: take_Suc_conv_app_nth)
  moreover have "replicate (n - i) (0xFFFF::u16) = 0xFFFF # replicate (n - Suc i) 0xFFFF"
    using i(1) by (metis Suc_diff_Suc replicate_Suc)
  moreover have "pad_name (i + 1) n (w[i := 0xFFFF]) = Some (take (i + 1) (w[i := 0xFFFF]) @ replicate (n - (i + 1)) 0xFFFF @ drop n (w[i := 0xFFFF]))"
    by (rule Suc.hyps) (use Suc.prems i in auto)
  ultimately show ?case using Suc.prems i by (subst pad_name.simps) simp
qed

lemma pad_name_None: "length w < n \<Longrightarrow> i \<le> length w \<Longrightarrow> pad_name i n w = None"
proof (induction "n - i" arbitrary: i w)
  case (Suc k)
  show ?case
  proof (cases "i < length w")
    case True
    then show ?thesis using Suc by (subst pad_name.simps) simp
  next
    case False
    then show ?thesis using Suc.prems by (subst pad_name.simps) simp
  qed
qed simp

text \<open>One entry, and all of them in their order on the disk.\<close>

definition lfn_piece :: "nat \<Rightarrow> nat \<Rightarrow> u8 \<Rightarrow> u16 list \<Rightarrow> FAT_LFN_ENTRY" where
  "lfn_piece Seq n cs w = \<lparr>SequenceNumber = (if Seq = n then of_nat Seq OR FAT_LFN_LAST_ENTRY else of_nat Seq),
     Name1 = take 5 (drop ((Seq - 1) * 13) w), LfnAttributes = FAT_ATTR_LFN, LfnType = 0, LfnSum = cs,
     Name2 = take 6 (drop ((Seq - 1) * 13 + 5) w), LfnClusterLow = 0, Name3 = take 2 (drop ((Seq - 1) * 13 + 11) w)\<rparr>"

lemma lfn_entry_ok: "1 \<le> Seq \<Longrightarrow> Seq * 13 \<le> length w \<Longrightarrow> lfn_entry Seq n cs w = Some (lfn_piece Seq n cs w)"
  by (cases Seq) (simp_all add: lfn_entry_def lfn_piece_def get_chars_def Let_def)

definition lfn_pieces :: "nat \<Rightarrow> u8 \<Rightarrow> u16 list \<Rightarrow> FAT_LFN_ENTRY list" where
  "lfn_pieces n cs w = map (\<lambda>i. lfn_piece (n - i) n cs w) [0..<n]"

lemma lfn_entries_loop_ok:
  assumes "1 \<le> Seq" "Seq \<le> n + 1" "n * 13 \<le> length w" "n \<le> length buf"
  shows "lfn_entries_loop Seq n cs w buf =
    Some (map (\<lambda>i. lfn_piece (n - i) n cs w) [0..<n + 1 - Seq] @ drop (n + 1 - Seq) buf)"
  using assms
proof (induction "n + 1 - Seq" arbitrary: Seq buf)
  case 0
  then show ?case by (subst lfn_entries_loop.simps) simp
next
  case (Suc k)
  then have s: "Seq \<le> n" "k = n - Seq" by auto
  let ?b = "buf[n - Seq := lfn_piece Seq n cs w]"
  have "Seq * 13 \<le> length w" using Suc.prems(3) s(1) by (meson le_trans mult_le_mono1)
  then have e: "lfn_entry Seq n cs w = Some (lfn_piece Seq n cs w)" using Suc.prems(1) by (rule lfn_entry_ok [rotated])
  have r: "lfn_entries_loop (Seq + 1) n cs w ?b =
      Some (map (\<lambda>i. lfn_piece (n - i) n cs w) [0..<n + 1 - (Seq + 1)] @ drop (n + 1 - (Seq + 1)) ?b)"
    by (rule Suc.hyps(1)) (use Suc.prems s in auto)
  have d: "drop (n - Seq) ?b = lfn_piece Seq n cs w # drop (Suc (n - Seq)) buf"
    using Suc.prems(4) s(1) Suc.prems(1) by (simp add: Cons_nth_drop_Suc [symmetric])
  have u: "[0..<n + 1 - Seq] = [0..<n - Seq] @ [n - Seq]" using s(1) by (simp add: Suc_diff_le)
  have "n - (n - Seq) = Seq" using s(1) by simp
  then show ?case
    using e r d u s(1) Suc.prems by (subst lfn_entries_loop.simps) (simp add: Suc_diff_le)
qed

lemma lfn_count_le: "length xs \<le> 247 \<Longrightarrow> lfn_count xs * 13 \<le> 247 \<and> lfn_count xs \<le> 19"
  and lfn_count_ge: "length xs \<le> lfn_count xs * 13" "lfn_count xs * 13 < length xs + 13"
proof -
  have "lfn_count xs * 13 \<le> length xs + 12" "length xs + 12 < lfn_count xs * 13 + 13"
    unfolding lfn_count_def by (metis div_times_less_eq_dividend, metis add.commute dividend_less_div_times zero_less_numeral)
  then show "length xs \<le> lfn_count xs * 13" "lfn_count xs * 13 < length xs + 13" by auto
  assume "length xs \<le> 247"
  then have "lfn_count xs < 20" unfolding lfn_count_def by (simp add: less_mult_imp_div_less)
  then show "lfn_count xs * 13 \<le> 247 \<and> lfn_count xs \<le> 19" by simp
qed

lemma FatpGenerateLfnEntries_ok:
  assumes "length xs \<le> 247" "20 \<le> length buf"
  shows "FatpGenerateLfnEntries xs cs buf =
    Some (lfn_count xs, lfn_pieces (lfn_count xs) cs (take (lfn_count xs * 13) (wide_name xs)) @ drop (lfn_count xs) buf)"
proof -
  let ?n = "lfn_count xs"
  define w where "w = map ucast xs @ 0 # replicate (?n * 13 - (length xs + 1)) 0xFFFF @ drop (max (?n * 13) (length xs + 1)) (replicate 256 (0::u16))"
  have n: "?n * 13 \<le> 247" "?n \<le> 19" "length xs \<le> ?n * 13" using lfn_count_le [OF assms(1)] lfn_count_ge by auto
  have 1: "widen xs 0 (replicate 256 0) = Some (map ucast xs @ replicate (256 - length xs) 0)"
    using assms(1) by (simp add: widen_ok)
  have 2: "wr (map ucast xs @ replicate (256 - length xs) (0::u16)) (length xs) 0 = Some (map ucast xs @ replicate (256 - length xs) 0)"
  proof -
    have "(map ucast xs @ replicate (256 - length xs) (0::u16))[length xs := 0] = map ucast xs @ replicate (256 - length xs) 0"
      by (rule nth_equalityI) (auto simp: nth_list_update nth_append)
    then show ?thesis using assms(1) by simp
  qed
  have 3: "pad_name (length xs + 1) (?n * 13) (map ucast xs @ replicate (256 - length xs) 0) = Some w"
  proof (cases "length xs + 1 \<le> ?n * 13")
    case True
    have "256 - length xs = Suc (255 - length xs)" using assms(1) by simp
    then show ?thesis
      using True n assms(1) by (subst pad_name_ok) (auto simp: w_def max_def drop_Cons')
  next
    case False
    have "256 - length xs = Suc (255 - length xs)" using assms(1) by simp
    then show ?thesis using False n assms(1) by (subst pad_name.simps) (simp add: w_def max_def)
  qed
  have lw: "length w = 256" using n assms(1) by (auto simp: w_def max_def)
  have tw: "take (?n * 13) w = take (?n * 13) (wide_name xs)"
  proof (rule nth_equalityI)
    show "length (take (?n * 13) w) = length (take (?n * 13) (wide_name xs))"
      using lw n assms(1) by (simp add: wide_name_def)
    fix i assume "i < length (take (?n * 13) w)"
    then have i: "i < ?n * 13" "i < 256" using lw by auto
    have "w ! i = wide_name xs ! i"
      using i n(1) assms(1) by (auto simp: w_def wide_name_def nth_append nth_Cons' max_def)
    then show "take (?n * 13) w ! i = take (?n * 13) (wide_name xs) ! i" using i by simp
  qed
  have p: "lfn_piece s ?n cs w = lfn_piece s ?n cs (take (?n * 13) (wide_name xs))" if "1 \<le> s" "s \<le> ?n" for s
  proof -
    have "s * 13 \<le> ?n * 13" using that by simp
    moreover have "(s - 1) * 13 + 13 = s * 13" using that by (cases s) auto
    ultimately have "(s - 1) * 13 + 13 \<le> ?n * 13" by simp
    then show ?thesis unfolding tw [symmetric] by (simp add: lfn_piece_def drop_take)
  qed
  have 4: "lfn_entries_loop 1 ?n cs w (replicate ?n zero_lfn @ drop ?n buf) =
      Some (lfn_pieces ?n cs (take (?n * 13) (wide_name xs)) @ drop ?n buf)"
  proof -
    have "map (\<lambda>i. lfn_piece (?n - i) ?n cs w) [0..<?n] = lfn_pieces ?n cs (take (?n * 13) (wide_name xs))"
      unfolding lfn_pieces_def by (rule map_cong) (auto intro!: p)
    then show ?thesis using n lw by (subst lfn_entries_loop_ok) auto
  qed
  show ?thesis
    using 1 2 3 4 n assms(2) by (simp add: FatpGenerateLfnEntries_def Let_def lfn_count_def [symmetric])
qed

text \<open>A name of more than 247 characters writes past \<open>WcharName\<close>.\<close>

lemma FatpGenerateLfnEntries_None:
  assumes "248 \<le> length xs"
  shows "FatpGenerateLfnEntries xs cs buf = None"
proof (cases "length xs \<le> 255")
  case True
  have "(length xs + 12) div 13 = 20" using True assms by (intro div_nat_eqI) auto
  then have "pad_name (length xs + 1) ((length xs + 12) div 13 * 13) w = None" if "length w = 256" for w
    using that True by (intro pad_name_None) auto
  then show ?thesis using True by (simp add: FatpGenerateLfnEntries_def Let_def widen_ok)
next
  case False
  show ?thesis
  proof (cases "length xs = 256")
    case True
    then show ?thesis by (simp add: FatpGenerateLfnEntries_def Let_def widen_ok)
  next
    case False'': False
    then have "widen xs 0 (replicate 256 0) = None" using False by (intro widen_None) auto
    then show ?thesis by (simp add: FatpGenerateLfnEntries_def Let_def)
  qed
qed

section \<open>Comparing\<close>

lemma lfn_length_ok:
  assumes "\<forall>c\<in>set a. c \<noteq> 0 \<and> c \<noteq> 0xFFFF" "length a \<le> 247" "i \<le> length a"
  shows "lfn_length (a @ 0 # b) i = Some (length a)"
  using assms(3)
proof (induction "length a - i" arbitrary: i)
  case 0
  then show ?case using assms(2) by (subst lfn_length.simps) (simp add: nth_append)
next
  case (Suc k)
  then have i: "i < length a" by simp
  then have "(a @ 0 # b) ! i = a ! i" "a ! i \<noteq> 0 \<and> a ! i \<noteq> 0xFFFF" using assms(1) by (auto simp: nth_append)
  moreover have "lfn_length (a @ 0 # b) (i + 1) = Some (length a)" by (rule Suc.hyps) (use Suc i in auto)
  ultimately show ?case using i assms(2) by (subst lfn_length.simps) simp
qed

lemma lfn_chars_equal_iff:
  "length a = length b \<Longrightarrow> lfn_chars_equal (map ucast a) b \<longleftrightarrow> map RtlUpperChar a = map RtlUpperChar b"
proof (induction a b rule: list_induct2)
  case (Cons x xs y ys)
  have "(ucast (ucast x :: u16) :: u8) = x" by (rule bit_eqI) (auto simp: bit_ucast_iff)
  then show ?case using Cons by simp
qed simp

lemma FatpCompareLfnWithAnsi_ok:
  assumes "length xs \<le> 247" "0 \<notin> set xs"
  shows "FatpCompareLfnWithAnsi (map ucast xs @ 0 # b) ys = Some (map RtlUpperChar xs = map RtlUpperChar ys)"
proof -
  have "(ucast c :: u16) \<noteq> 0 \<and> (ucast c :: u16) \<noteq> 0xFFFF" if "c \<in> set xs" for c :: u8
  proof
    have c: "c \<noteq> 0" using assms(2) that by auto
    have u: "unat (ucast c :: u16) = unat c" using unsigned_less [of c, where ?'a = nat] by (intro unat_ucast_lt) simp
    then show "(ucast c :: u16) \<noteq> 0" using c by (metis unsigned_0 unat_eq_zero)
    have "unat (ucast c :: u16) < 256" using u unsigned_less [of c, where ?'a = nat] by simp
    then show "(ucast c :: u16) \<noteq> 0xFFFF" by auto
  qed
  then have l: "lfn_length (map ucast xs @ 0 # b) 0 = Some (length xs)"
    using lfn_length_ok [of "map ucast xs" 0 b] assms(1) by auto
  show ?thesis
  proof (cases "length xs = length ys")
    case True
    then show ?thesis using l lfn_chars_equal_iff [OF True] by (simp add: FatpCompareLfnWithAnsi_def)
  next
    case False
    then have "map RtlUpperChar xs \<noteq> map RtlUpperChar ys" by (metis length_map)
    then show ?thesis using l False by (simp add: FatpCompareLfnWithAnsi_def)
  qed
qed

end
