(* ===== verification/FatTable.thy ===== *)
theory FatTable
  imports FatName
begin

text \<open>
  \<open>driver/filesystem/veafat/readwrite.c\<close>: the allocation table of a mounted volume.

  The device below the volume is a parameter of the state: at a byte offset it holds the content of the sector
  that starts there, or the status of the error that reads and writes of it end with (\<open>FatReadDiskSectors\<close>
  and \<open>FatWriteDiskSectors\<close> of \<open>fsctl.c\<close> build the requests, which is taken to succeed, and wait for them). The pool is the number of
  blocks it can still give. An access outside a buffer is \<open>None\<close>.
\<close>

section \<open>The volume\<close>

record FAT32_DEVICE_EXTENSION =
  BytesPerSector :: u32
  SectorsPerCluster :: u32
  BytesPerCluster :: u32
  ReservedSectors :: u32
  NumberOfFats :: u32
  FatSizeSectors :: u32
  RootDirStartCluster :: u32
  FatStartLba :: u64
  DataStartLba :: u64
  TotalClusters :: u32
  TotalSectors :: u32
  FreeClusterCount :: u32
  NextFreeCluster :: u32

record VOLUME =
  Vcb :: FAT32_DEVICE_EXTENSION
  Disk :: "u64 \<Rightarrow> VEASTATUS + u8 list"
  PoolFree :: nat

definition FAT32_CLUSTER_TO_LBA :: "FAT32_DEVICE_EXTENSION \<Rightarrow> u32 \<Rightarrow> u64" where
  "FAT32_CLUSTER_TO_LBA v Cluster = DataStartLba v + ucast (Cluster - 2) * ucast (SectorsPerCluster v)"

definition FAT32_IS_EOF :: "u32 \<Rightarrow> bool" where
  "FAT32_IS_EOF Cluster \<longleftrightarrow> Cluster \<ge> 0x0FFFFFF8"

definition MERGE_CLUSTER_HI_N_LO :: "u16 \<Rightarrow> u16 \<Rightarrow> u32" where
  "MERGE_CLUSTER_HI_N_LO high low = push_bit 16 (ucast high) OR (ucast low AND 0xFFFF)"

definition take_pool :: "VOLUME \<Rightarrow> VOLUME option" where
  "take_pool s = (if PoolFree s = 0 then None else Some (s\<lparr>PoolFree := PoolFree s - 1\<rparr>))"

definition give_pool :: "VOLUME \<Rightarrow> VOLUME" where
  "give_pool s = s\<lparr>PoolFree := PoolFree s + 1\<rparr>"

text \<open>Reads and writes of one sector, at \<open>ByteOffset.QuadPart\<close>.\<close>

definition sector_at :: "VOLUME \<Rightarrow> u64 \<Rightarrow> u64" where
  "sector_at s Lba = Lba * ucast (BytesPerSector (Vcb s))"

definition FatReadDiskSectors :: "VOLUME \<Rightarrow> u64 \<Rightarrow> VEASTATUS + u8 list" where
  "FatReadDiskSectors s Lba = Disk s (sector_at s Lba)"

definition FatWriteDiskSectors :: "VOLUME \<Rightarrow> u64 \<Rightarrow> u8 list \<Rightarrow> VEASTATUS \<times> VOLUME" where
  "FatWriteDiskSectors s Lba Buffer =
     (case Disk s (sector_at s Lba) of Inl e \<Rightarrow> (e, s)
      | Inr _ \<Rightarrow> (STATUS_SUCCESS, s\<lparr>Disk := (Disk s)(sector_at s Lba := Inr Buffer)\<rparr>))"

section \<open>The allocation table\<close>

definition FatSectorLba :: "FAT32_DEVICE_EXTENSION \<Rightarrow> u32 \<Rightarrow> u64" where
  "FatSectorLba v CurrentCluster = FatStartLba v + (ucast CurrentCluster * 4) div ucast (BytesPerSector v)"

definition FatOffsetInSector :: "FAT32_DEVICE_EXTENSION \<Rightarrow> u32 \<Rightarrow> u32" where
  "FatOffsetInSector v CurrentCluster = (CurrentCluster * 4) mod BytesPerSector v"

definition FatpGetNextCluster :: "VOLUME \<Rightarrow> u32 \<Rightarrow> ((VEASTATUS + u32) \<times> VOLUME) option" where
  "FatpGetNextCluster s CurrentCluster =
     (if BytesPerSector (Vcb s) = 0 then Some (Inl STATUS_INVALID_PARAMETER, s)
      else case take_pool s of
        None \<Rightarrow> Some (Inl STATUS_INSUFFICIENT_RESOURCES, s)
      | Some s1 \<Rightarrow>
        (case FatReadDiskSectors s1 (FatSectorLba (Vcb s) CurrentCluster) of
           Inl e \<Rightarrow> Some (Inl e, give_pool s1)
         | Inr bs \<Rightarrow> do {
             FatBuffer \<leftarrow> put_bytes (replicate 4096 0) 0 bs;
             v \<leftarrow> rd32 FatBuffer (unat (FatOffsetInSector (Vcb s) CurrentCluster) div 4 * 4);
             Some (Inr (v AND 0x0FFFFFFF), give_pool s1) }))"

text \<open>The loop over the copies of the table.\<close>

definition copy_lba :: "FAT32_DEVICE_EXTENSION \<Rightarrow> u64 \<Rightarrow> nat \<Rightarrow> u64" where
  "copy_lba v Lba f = Lba + ucast (of_nat f * FatSizeSectors v)"

lemma FatWriteDiskSectors_frame: "FatWriteDiskSectors s Lba b = (st, s') \<Longrightarrow> Vcb s' = Vcb s \<and> PoolFree s' = PoolFree s"
  by (auto simp: FatWriteDiskSectors_def split: sum.splits)

function write_fats :: "nat \<Rightarrow> u64 \<Rightarrow> u8 list \<Rightarrow> VEASTATUS \<Rightarrow> VOLUME \<Rightarrow> VEASTATUS \<times> VOLUME" where
  "write_fats f Lba FatBuffer Status s =
     (if f < unat (NumberOfFats (Vcb s)) then
        (case FatWriteDiskSectors s (copy_lba (Vcb s) Lba f) FatBuffer of
           (Status, s') \<Rightarrow> if \<not> VEA_SUCCESS Status then (Status, s') else write_fats (f + 1) Lba FatBuffer Status s')
      else (Status, s))"
  by auto
termination
  by (relation "measure (\<lambda>(f, l, b, st, s). unat (NumberOfFats (Vcb s)) - f)")
    (auto dest!: FatWriteDiskSectors_frame split: prod.splits)

declare write_fats.simps [simp del]

definition FatpSetNextCluster :: "VOLUME \<Rightarrow> u32 \<Rightarrow> u32 \<Rightarrow> (VEASTATUS \<times> VOLUME) option" where
  "FatpSetNextCluster s CurrentCluster NextCluster =
     (case take_pool s of
        None \<Rightarrow> Some (STATUS_INSUFFICIENT_RESOURCES, s)
      | Some s1 \<Rightarrow>
        if BytesPerSector (Vcb s) = 0 then None
        else (case FatReadDiskSectors s1 (FatSectorLba (Vcb s) CurrentCluster) of
           Inl e \<Rightarrow> Some (e, give_pool s1)
         | Inr bs \<Rightarrow> do {
             FatBuffer \<leftarrow> put_bytes (replicate (unat (BytesPerSector (Vcb s))) 0) 0 bs;
             let p = unat (FatOffsetInSector (Vcb s) CurrentCluster) div 4 * 4;
             OldVal \<leftarrow> rd32 FatBuffer p;
             FatBuffer \<leftarrow> wr32 FatBuffer p ((OldVal AND 0xF0000000) OR (NextCluster AND 0x0FFFFFFF));
             let (Status, s2) = write_fats 0 (FatSectorLba (Vcb s) CurrentCluster) FatBuffer STATUS_SUCCESS s1;
             Some (Status, give_pool s2) }))"

text \<open>The search of \<open>FatpAllocateCluster\<close>.\<close>

function allocate_loop :: "VOLUME \<Rightarrow> u32 \<Rightarrow> u32 \<Rightarrow> ((VEASTATUS + u32) \<times> VOLUME) option" where
  "allocate_loop s Limit Cluster =
     (if Cluster < Limit then
        (case FatpGetNextCluster s Cluster of
           None \<Rightarrow> None
         | Some (r, s1) \<Rightarrow>
           if r = Inr 0 then
             (case FatpSetNextCluster s1 Cluster 0x0FFFFFFF of
                None \<Rightarrow> None
              | Some (Status, s2) \<Rightarrow>
                if VEA_SUCCESS Status
                then Some (Inr Cluster, s2\<lparr>Vcb := (Vcb s2)\<lparr>NextFreeCluster := Cluster + 1\<rparr>\<rparr>)
                else allocate_loop s2 Limit (Cluster + 1))
           else allocate_loop s1 Limit (Cluster + 1))
      else Some (Inl STATUS_DISK_FULL, s))"
  by auto
termination
proof -
  have *: "unat t - unat (c + 1) < unat t - unat c" if "c < t" for c t :: u32
  proof -
    have "unat (c + 1) = unat c + 1"
      using that unat_lt_u32 [of t] by (subst unat_add_lt) (auto simp: word_less_nat_alt)
    then show ?thesis using that by (simp add: word_less_nat_alt)
  qed
  show ?thesis by (relation "measure (\<lambda>(s, t, c). unat t - unat c)") (use * in auto)
qed

declare allocate_loop.simps [simp del]

definition FatpAllocateCluster :: "VOLUME \<Rightarrow> ((VEASTATUS + u32) \<times> VOLUME) option" where
  "FatpAllocateCluster s =
     (let v = Vcb s;
          StartSearch = (if NextFreeCluster v \<ge> 2 \<and> NextFreeCluster v < TotalClusters v then NextFreeCluster v else 2)
      in allocate_loop s (TotalClusters v) StartSearch)"

section \<open>Volumes that are laid out\<close>

text \<open>What mounting a volume made by a formatter gives: sectors of a usual size, the copies of the table before
  the clusters, a table with an entry for each cluster, sectors as long as they claim to be.\<close>

definition volume_ok :: "VOLUME \<Rightarrow> bool" where
  "volume_ok s \<longleftrightarrow> (let v = Vcb s; b = unat (BytesPerSector v) in
     b \<in> {512, 1024, 2048, 4096} \<and> 0 < unat (SectorsPerCluster v) \<and> 0 < unat (NumberOfFats v) \<and>
     BytesPerCluster v = BytesPerSector v * SectorsPerCluster v \<and> unat (SectorsPerCluster v) < 256 \<and>
     unat (FatStartLba v) + unat (NumberOfFats v) * unat (FatSizeSectors v) \<le> unat (DataStartLba v) \<and>
     unat (DataStartLba v) + unat (TotalClusters v) * unat (SectorsPerCluster v) < 2 ^ 32 \<and>
     (unat (TotalClusters v) + 2) * 4 \<le> unat (FatSizeSectors v) * b \<and>
     unat (TotalClusters v) + 2 < 0x0FFFFFF8 \<and>
     (\<forall>x bs. Disk s x = Inr bs \<longrightarrow> length bs = b))"

lemma volume_okD:
  assumes "volume_ok s"
  shows "unat (BytesPerSector (Vcb s)) \<in> {512, 1024, 2048, 4096}"
    "0 < unat (SectorsPerCluster (Vcb s))" "0 < unat (NumberOfFats (Vcb s))"
    "BytesPerCluster (Vcb s) = BytesPerSector (Vcb s) * SectorsPerCluster (Vcb s)"
    "unat (SectorsPerCluster (Vcb s)) < 256"
    "unat (FatStartLba (Vcb s)) + unat (NumberOfFats (Vcb s)) * unat (FatSizeSectors (Vcb s)) \<le> unat (DataStartLba (Vcb s))"
    "unat (DataStartLba (Vcb s)) + unat (TotalClusters (Vcb s)) * unat (SectorsPerCluster (Vcb s)) < 2 ^ 32"
    "(unat (TotalClusters (Vcb s)) + 2) * 4 \<le> unat (FatSizeSectors (Vcb s)) * unat (BytesPerSector (Vcb s))"
    "unat (TotalClusters (Vcb s)) + 2 < 0x0FFFFFF8"
    "\<And>x bs. Disk s x = Inr bs \<Longrightarrow> length bs = unat (BytesPerSector (Vcb s))"
  using assms unfolding volume_ok_def Let_def by blast+

text \<open>Every sector can be read and written.\<close>

definition disk_works :: "VOLUME \<Rightarrow> bool" where
  "disk_works s \<longleftrightarrow> (\<forall>x. \<exists>bs. Disk s x = Inr bs)"

text \<open>The clusters of the volume.\<close>

definition is_cluster :: "VOLUME \<Rightarrow> u32 \<Rightarrow> bool" where
  "is_cluster s c \<longleftrightarrow> 2 \<le> unat c \<and> unat c < unat (TotalClusters (Vcb s)) + 2"

lemma is_cluster_word: "volume_ok s \<Longrightarrow> is_cluster s c \<Longrightarrow> c \<ge> 2 \<and> \<not> FAT32_IS_EOF c"
  using volume_okD(9) [of s] by (auto simp: is_cluster_def FAT32_IS_EOF_def word_le_nat_alt)

section \<open>Where an entry is\<close>

definition table_sector :: "VOLUME \<Rightarrow> u32 \<Rightarrow> nat" where
  "table_sector s c = unat c * 4 div unat (BytesPerSector (Vcb s))"

definition table_offset :: "VOLUME \<Rightarrow> u32 \<Rightarrow> nat" where
  "table_offset s c = unat c * 4 mod unat (BytesPerSector (Vcb s))"

lemma sector_size:
  assumes "volume_ok s"
  shows "0 < unat (BytesPerSector (Vcb s))" "unat (BytesPerSector (Vcb s)) \<le> 4096"
    "4 dvd unat (BytesPerSector (Vcb s))" "32 dvd unat (BytesPerSector (Vcb s))" "BytesPerSector (Vcb s) \<noteq> 0"
proof -
  show p: "0 < unat (BytesPerSector (Vcb s))" "unat (BytesPerSector (Vcb s)) \<le> 4096"
    "4 dvd unat (BytesPerSector (Vcb s))" "32 dvd unat (BytesPerSector (Vcb s))"
    using volume_okD(1) [OF assms] by (auto simp del: unat_gt_0)
  show "BytesPerSector (Vcb s) \<noteq> 0" using p(1) by auto
qed

lemma table_offset_ok:
  assumes "volume_ok s"
  shows "4 dvd table_offset s c" "table_offset s c + 4 \<le> unat (BytesPerSector (Vcb s))"
proof -
  show d: "4 dvd table_offset s c"
    using sector_size(3) [OF assms] by (simp add: table_offset_def dvd_mod)
  obtain k where k: "unat (BytesPerSector (Vcb s)) = 4 * k" using sector_size(3) [OF assms] by (auto elim: dvdE)
  obtain j where j: "table_offset s c = 4 * j" using d by (auto elim: dvdE)
  have "table_offset s c < unat (BytesPerSector (Vcb s))"
    using sector_size(1) [OF assms] by (simp add: table_offset_def del: unat_gt_0)
  then show "table_offset s c + 4 \<le> unat (BytesPerSector (Vcb s))" using k j by simp
qed

lemma table_sector_less:
  assumes "volume_ok s" "is_cluster s c"
  shows "table_sector s c < unat (FatSizeSectors (Vcb s))"
proof -
  have "unat c * 4 < unat (FatSizeSectors (Vcb s)) * unat (BytesPerSector (Vcb s))"
    using volume_okD(8) [OF assms(1)] assms(2) by (simp add: is_cluster_def)
  then show ?thesis using sector_size(1) [OF assms(1)] by (simp add: table_sector_def less_mult_imp_div_less)
qed

lemma entry_address:
  assumes "is_cluster s c" "is_cluster s d"
    "table_sector s c = table_sector s d" "table_offset s c = table_offset s d"
  shows "c = d"
proof -
  have "unat c * 4 = unat d * 4" using assms(3,4) unfolding table_sector_def table_offset_def by (metis div_mult_mod_eq)
  then show ?thesis by (simp add: word_unat_eq_iff)
qed

lemma FatSectorLba_unat:
  assumes "volume_ok s" "is_cluster s c"
  shows "unat (FatSectorLba (Vcb s) c) = unat (FatStartLba (Vcb s)) + table_sector s c"
proof -
  have c: "unat (ucast c * 4 :: u64) = unat c * 4"
    using unat_lt_u32 [of c] by (subst unat_mult_lt) (simp_all add: unat_ucast_up)
  have d: "unat ((ucast c * 4 :: u64) div ucast (BytesPerSector (Vcb s))) = table_sector s c"
    by (simp add: unat_div c unat_ucast_up table_sector_def)
  have f: "unat (FatStartLba (Vcb s)) + unat (FatSizeSectors (Vcb s)) < 2 ^ 32"
  proof -
    have "unat (FatSizeSectors (Vcb s)) \<le> unat (NumberOfFats (Vcb s)) * unat (FatSizeSectors (Vcb s))"
      using volume_okD(3) [OF assms(1)] by simp
    then show ?thesis using volume_okD(6,7) [OF assms(1)] by linarith
  qed
  have "unat (FatStartLba (Vcb s)) + table_sector s c < 2 ^ 64"
    using table_sector_less [OF assms] f by simp
  then show ?thesis unfolding FatSectorLba_def by (subst unat_add_lt) (simp_all add: d)
qed

lemma FatOffsetInSector_unat:
  assumes "volume_ok s" "is_cluster s c"
  shows "unat (FatOffsetInSector (Vcb s) c) = table_offset s c"
proof -
  have "unat (c * 4) = unat c * 4"
    using assms(2) volume_okD(9) [OF assms(1)] by (subst unat_mult_lt) (simp_all add: is_cluster_def)
  then show ?thesis by (simp add: FatOffsetInSector_def unat_mod table_offset_def)
qed

lemma offset_div4: "volume_ok s \<Longrightarrow> table_offset s c div 4 * 4 = table_offset s c"
  using table_offset_ok(1) by simp

text \<open>The copies of a sector, and the bytes at which sectors start.\<close>

lemma copy_lba_unat:
  assumes "volume_ok s" "is_cluster s c" "f < unat (NumberOfFats (Vcb s))"
  shows "unat (copy_lba (Vcb s) (FatSectorLba (Vcb s) c) f) =
    unat (FatStartLba (Vcb s)) + table_sector s c + f * unat (FatSizeSectors (Vcb s))"
proof -
  let ?z = "unat (FatSizeSectors (Vcb s))" and ?n = "unat (NumberOfFats (Vcb s))"
  have le: "(f + 1) * ?z \<le> ?n * ?z" using assms(3) by (intro mult_right_mono) auto
  have b: "unat (FatStartLba (Vcb s)) + ?n * ?z < 2 ^ 32" using volume_okD(6,7) [OF assms(1)] by linarith
  have "unat (of_nat f :: u32) = f" using assms(3) unat_lt_u32 [of "NumberOfFats (Vcb s)"] by (intro unat_of_nat_lt) simp
  then have "unat (of_nat f * FatSizeSectors (Vcb s)) = f * ?z"
    using le b by (subst unat_mult_lt) simp_all
  then have u: "unat (ucast (of_nat f * FatSizeSectors (Vcb s)) :: u64) = f * ?z" by (simp add: unat_ucast_up)
  have "unat (FatStartLba (Vcb s)) + table_sector s c + f * ?z < 2 ^ 32"
    using table_sector_less [OF assms(1,2)] le b by simp
  then show ?thesis
    unfolding copy_lba_def by (subst unat_add_lt) (simp_all add: u FatSectorLba_unat [OF assms(1,2)])
qed

lemma sector_at_inj:
  assumes "volume_ok s" "unat a < 2 ^ 32" "unat b < 2 ^ 32" "sector_at s a = sector_at s b"
  shows "a = b"
proof -
  have "unat (sector_at s l) = unat l * unat (BytesPerSector (Vcb s))" if "unat l < 2 ^ 32" for l
  proof -
    have "unat l * unat (BytesPerSector (Vcb s)) \<le> 2 ^ 32 * 4096"
      using that sector_size(2) [OF assms(1)] by (intro mult_mono) auto
    then show ?thesis unfolding sector_at_def by (subst unat_mult_lt) (simp_all add: unat_ucast_up)
  qed
  then have "unat a = unat b" using assms sector_size(1) [OF assms(1)] by (metis mult_right_cancel less_irrefl)
  then show ?thesis by (simp add: word_unat_eq_iff)
qed

section \<open>Reading an entry\<close>

definition put32 :: "u8 list \<Rightarrow> nat \<Rightarrow> u32 \<Rightarrow> u8 list" where
  "put32 bs p v = take p bs @ enc32 v @ drop (p + 4) bs"

text \<open>The 32 bits of the entry of a cluster in a copy of the table; the code reads the first copy.\<close>

definition fat_copy :: "VOLUME \<Rightarrow> nat \<Rightarrow> u32 \<Rightarrow> u32" where
  "fat_copy s f c = (case Disk s (sector_at s (copy_lba (Vcb s) (FatSectorLba (Vcb s) c) f)) of
     Inl e \<Rightarrow> 0 | Inr bs \<Rightarrow> dec32 (take 4 (drop (table_offset s c) bs)))"

definition fat_raw :: "VOLUME \<Rightarrow> u32 \<Rightarrow> u32" where "fat_raw s c = fat_copy s 0 c"

definition next_cluster :: "VOLUME \<Rightarrow> u32 \<Rightarrow> u32" where "next_cluster s c = fat_raw s c AND 0x0FFFFFFF"

lemma sector_at_update [simp]:
  "sector_at (s\<lparr>PoolFree := n\<rparr>) = sector_at s" "sector_at (s\<lparr>Disk := d\<rparr>) = sector_at s"
  by (simp_all add: sector_at_def fun_eq_iff)

lemma copy_lba_0 [simp]: "copy_lba v l 0 = l"
  by (simp add: copy_lba_def)

lemma rd32_take: "p + 4 \<le> length bs \<Longrightarrow> rd32 bs p = Some (dec32 (take 4 (drop p bs)))"
  by (simp add: rd_field_def get_bytes_def)

lemma wr32_put32: "p + 4 \<le> length bs \<Longrightarrow> wr32 bs p v = Some (put32 bs p v)"
  by (simp add: wr_field_def put_bytes_def put32_def c32.enc_length)

lemma put_bytes_over: "length bs \<le> length m \<Longrightarrow> put_bytes m 0 bs = Some (bs @ drop (length bs) m)"
  by (simp add: put_bytes_def)

theorem FatpGetNextCluster_ok:
  assumes "volume_ok s" "is_cluster s c" "0 < PoolFree s" "Disk s (sector_at s (FatSectorLba (Vcb s) c)) = Inr bs"
  shows "FatpGetNextCluster s c = Some (Inr (next_cluster s c), s)"
proof -
  have l: "length bs = unat (BytesPerSector (Vcb s))" using volume_okD(10) [OF assms(1,4)] .
  then have p: "put_bytes (replicate 4096 0) 0 bs = Some (bs @ replicate (4096 - length bs) 0)"
    using sector_size(2) [OF assms(1)] by (subst put_bytes_over) simp_all
  have o: "table_offset s c + 4 \<le> length bs" using table_offset_ok(2) [OF assms(1)] l by simp
  have r: "rd32 (bs @ replicate (4096 - length bs) 0) (table_offset s c) = Some (fat_raw s c)"
    using o assms(4) by (subst rd32_take) (auto simp: fat_raw_def fat_copy_def)
  have s1: "take_pool s = Some (s\<lparr>PoolFree := PoolFree s - 1\<rparr>)" using assms(3) by (simp add: take_pool_def)
  have d: "FatReadDiskSectors (s\<lparr>PoolFree := PoolFree s - 1\<rparr>) (FatSectorLba (Vcb s) c) = Inr bs"
    using assms(4) by (simp add: FatReadDiskSectors_def sector_at_def)
  show ?thesis
    using sector_size(5) [OF assms(1)] assms(3)
    unfolding FatpGetNextCluster_def s1 option.case d sum.case p FatOffsetInSector_unat [OF assms(1,2)] offset_div4 [OF assms(1)]
    by (simp add: r next_cluster_def give_pool_def)
qed

section \<open>Writing an entry\<close>

lemma ex_from: "f < n \<Longrightarrow> (\<exists>k\<ge>f. k < n \<and> x = g k) \<longleftrightarrow> x = g f \<or> (\<exists>k\<ge>f + 1. k < (n :: nat) \<and> x = g k)"
proof -
  assume "f < n"
  have *: "f \<le> k \<longleftrightarrow> k = f \<or> f + 1 \<le> k" for k by auto
  show ?thesis unfolding * using \<open>f < n\<close> by blast
qed

lemma write_fats_ok:
  assumes "\<And>k. f \<le> k \<Longrightarrow> k < unat (NumberOfFats (Vcb s)) \<Longrightarrow> \<exists>bs. Disk s (sector_at s (copy_lba (Vcb s) l k)) = Inr bs"
  shows "write_fats f l buf STATUS_SUCCESS s =
    (STATUS_SUCCESS, s\<lparr>Disk := (\<lambda>x. if \<exists>k\<ge>f. k < unat (NumberOfFats (Vcb s)) \<and> x = sector_at s (copy_lba (Vcb s) l k)
       then Inr buf else Disk s x)\<rparr>)"
  using assms
proof (induction "unat (NumberOfFats (Vcb s)) - f" arbitrary: f s)
  case 0
  then have "(\<lambda>x. if \<exists>k\<ge>f. k < unat (NumberOfFats (Vcb s)) \<and> x = sector_at s (copy_lba (Vcb s) l k)
       then Inr buf else Disk s x) = Disk s" by (auto simp: fun_eq_iff)
  then show ?case using 0 by (subst write_fats.simps) simp
next
  case (Suc n)
  then have f: "f < unat (NumberOfFats (Vcb s))" by simp
  let ?x = "sector_at s (copy_lba (Vcb s) l f)"
  let ?s = "s\<lparr>Disk := (Disk s)(?x := Inr buf)\<rparr>"
  obtain bs where bs: "Disk s ?x = Inr bs" using Suc.prems [of f] f by auto
  then have w: "FatWriteDiskSectors s (copy_lba (Vcb s) l f) buf = (STATUS_SUCCESS, ?s)"
    by (simp add: FatWriteDiskSectors_def)
  have "write_fats (f + 1) l buf STATUS_SUCCESS ?s =
    (STATUS_SUCCESS, ?s\<lparr>Disk := (\<lambda>x. if \<exists>k\<ge>f + 1. k < unat (NumberOfFats (Vcb ?s)) \<and> x = sector_at ?s (copy_lba (Vcb ?s) l k)
       then Inr buf else Disk ?s x)\<rparr>)"
  proof (rule Suc.hyps)
    show "n = unat (NumberOfFats (Vcb ?s)) - (f + 1)" using Suc.hyps(2) by simp
    fix k assume "f + 1 \<le> k" "k < unat (NumberOfFats (Vcb ?s))"
    then show "\<exists>bs. Disk ?s (sector_at ?s (copy_lba (Vcb ?s) l k)) = Inr bs" using Suc.prems [of k] by auto
  qed
  moreover have "(\<lambda>x. if \<exists>k\<ge>f + 1. k < unat (NumberOfFats (Vcb s)) \<and> x = sector_at s (copy_lba (Vcb s) l k)
       then Inr buf else ((Disk s)(?x := Inr buf)) x) =
     (\<lambda>x. if \<exists>k\<ge>f. k < unat (NumberOfFats (Vcb s)) \<and> x = sector_at s (copy_lba (Vcb s) l k) then Inr buf else Disk s x)"
  proof
    fix x
    have "(\<exists>k\<ge>f. k < unat (NumberOfFats (Vcb s)) \<and> x = sector_at s (copy_lba (Vcb s) l k)) \<longleftrightarrow>
      x = ?x \<or> (\<exists>k\<ge>f + 1. k < unat (NumberOfFats (Vcb s)) \<and> x = sector_at s (copy_lba (Vcb s) l k))"
      by (rule ex_from) (rule f)
    then show "(if \<exists>k\<ge>f + 1. k < unat (NumberOfFats (Vcb s)) \<and> x = sector_at s (copy_lba (Vcb s) l k)
       then Inr buf else ((Disk s)(?x := Inr buf)) x) =
     (if \<exists>k\<ge>f. k < unat (NumberOfFats (Vcb s)) \<and> x = sector_at s (copy_lba (Vcb s) l k) then Inr buf else Disk s x)" by auto
  qed
  ultimately show ?case
    using f w by (subst write_fats.simps) (simp add: VEA_SUCCESS_def STATUS_SUCCESS_def cong: if_cong)
qed

text \<open>The copies of the sector of an entry.\<close>

definition copies_work :: "VOLUME \<Rightarrow> u32 \<Rightarrow> bool" where
  "copies_work s c \<longleftrightarrow> (\<forall>k < unat (NumberOfFats (Vcb s)). \<exists>bs. Disk s (sector_at s (copy_lba (Vcb s) (FatSectorLba (Vcb s) c) k)) = Inr bs)"

definition is_copy :: "VOLUME \<Rightarrow> u32 \<Rightarrow> u64 \<Rightarrow> bool" where
  "is_copy s c x \<longleftrightarrow> (\<exists>k < unat (NumberOfFats (Vcb s)). x = sector_at s (copy_lba (Vcb s) (FatSectorLba (Vcb s) c) k))"

definition new_raw :: "VOLUME \<Rightarrow> u32 \<Rightarrow> u32 \<Rightarrow> u32" where
  "new_raw s c v = (fat_raw s c AND 0xF0000000) OR (v AND 0x0FFFFFFF)"

lemma FatpSetNextCluster_ok:
  assumes "volume_ok s" "is_cluster s c" "0 < PoolFree s" "copies_work s c"
    "Disk s (sector_at s (FatSectorLba (Vcb s) c)) = Inr bs"
  shows "FatpSetNextCluster s c v = Some (STATUS_SUCCESS,
    s\<lparr>Disk := (\<lambda>x. if is_copy s c x then Inr (put32 bs (table_offset s c) (new_raw s c v)) else Disk s x)\<rparr>)"
proof -
  have l: "length bs = unat (BytesPerSector (Vcb s))" using volume_okD(10) [OF assms(1,5)] .
  then have p: "put_bytes (replicate (unat (BytesPerSector (Vcb s))) 0) 0 bs = Some bs"
    by (subst put_bytes_over) simp_all
  have o: "table_offset s c + 4 \<le> length bs" using table_offset_ok(2) [OF assms(1)] l by simp
  have r: "rd32 bs (table_offset s c) = Some (fat_raw s c)"
    using o assms(5) by (subst rd32_take) (auto simp: fat_raw_def fat_copy_def)
  let ?s = "s\<lparr>PoolFree := PoolFree s - 1\<rparr>"
  have s1: "take_pool s = Some ?s" using assms(3) by (simp add: take_pool_def)
  have d: "FatReadDiskSectors ?s (FatSectorLba (Vcb s) c) = Inr bs"
    using assms(5) by (simp add: FatReadDiskSectors_def sector_at_def)
  have w: "write_fats 0 (FatSectorLba (Vcb s) c) buf STATUS_SUCCESS ?s = (STATUS_SUCCESS,
      ?s\<lparr>Disk := (\<lambda>x. if is_copy s c x then Inr buf else Disk s x)\<rparr>)" for buf
    using assms(4) by (subst write_fats_ok) (auto simp: is_copy_def copies_work_def cong: if_cong)
  show ?thesis
    using sector_size(5) [OF assms(1)] assms(3)
    unfolding FatpSetNextCluster_def s1 option.case d sum.case p FatOffsetInSector_unat [OF assms(1,2)] offset_div4 [OF assms(1)]
    by (simp add: r wr32_put32 [OF o] w [unfolded One_nat_def] new_raw_def give_pool_def cong: if_cong)
qed

section \<open>The table after a write\<close>

lemma copy_below:
  assumes "volume_ok s" "is_cluster s c" "f < unat (NumberOfFats (Vcb s))"
  shows "unat (copy_lba (Vcb s) (FatSectorLba (Vcb s) c) f) < unat (DataStartLba (Vcb s))"
proof -
  have "(f + 1) * unat (FatSizeSectors (Vcb s)) \<le> unat (NumberOfFats (Vcb s)) * unat (FatSizeSectors (Vcb s))"
    using assms(3) by (intro mult_right_mono) auto
  then show ?thesis
    using copy_lba_unat [OF assms] table_sector_less [OF assms(1,2)] volume_okD(6) [OF assms(1)] by simp
qed

lemma digits_unique: "a < (z :: nat) \<Longrightarrow> b < z \<Longrightarrow> a + f * z = b + k * z \<longleftrightarrow> a = b \<and> f = k"
proof
  assume *: "a < z" "b < z" "a + f * z = b + k * z"
  have "(a + f * z) mod z = a" "(b + k * z) mod z = b" using *(1,2) by simp_all
  then have "a = b" using *(3) by metis
  then show "a = b \<and> f = k" using * by simp
qed simp

lemma is_copy_iff:
  assumes "volume_ok s" "is_cluster s c" "is_cluster s d" "f < unat (NumberOfFats (Vcb s))"
  shows "is_copy s c (sector_at s (copy_lba (Vcb s) (FatSectorLba (Vcb s) d) f)) \<longleftrightarrow> table_sector s c = table_sector s d"
proof
  let ?l = "\<lambda>c f. copy_lba (Vcb s) (FatSectorLba (Vcb s) c) f"
  assume "is_copy s c (sector_at s (?l d f))"
  then obtain k where k: "k < unat (NumberOfFats (Vcb s))" "sector_at s (?l d f) = sector_at s (?l c k)"
    by (auto simp: is_copy_def)
  have "unat (?l d f) < 2 ^ 32" "unat (?l c k) < 2 ^ 32"
    using copy_below [OF assms(1,3,4)] copy_below [OF assms(1,2) k(1)] volume_okD(7) [OF assms(1)] by linarith+
  then have "unat (?l d f) = unat (?l c k)" using sector_at_inj [OF assms(1) _ _ k(2)] by simp
  then have "table_sector s d + f * unat (FatSizeSectors (Vcb s)) = table_sector s c + k * unat (FatSizeSectors (Vcb s))"
    using copy_lba_unat [OF assms(1,3,4)] copy_lba_unat [OF assms(1,2) k(1)] by simp
  then show "table_sector s c = table_sector s d"
    using digits_unique table_sector_less [OF assms(1)] assms(2,3) by metis
next
  assume *: "table_sector s c = table_sector s d"
  have "copy_lba (Vcb s) (FatSectorLba (Vcb s) d) f = copy_lba (Vcb s) (FatSectorLba (Vcb s) c) f"
    using copy_lba_unat [OF assms(1,3,4)] copy_lba_unat [OF assms(1,2,4)] * by (simp add: word_unat_eq_iff)
  then show "is_copy s c (sector_at s (copy_lba (Vcb s) (FatSectorLba (Vcb s) d) f))"
    using assms(4) by (auto simp: is_copy_def)
qed

lemma dec32_put32:
  assumes "p + 4 \<le> length bs" "q + 4 \<le> length bs" "4 dvd p" "4 dvd q"
  shows "dec32 (take 4 (drop q (put32 bs p v))) = (if q = p then v else dec32 (take 4 (drop q bs)))"
proof -
  have w: "wr_field enc32 bs p v = Some (put32 bs p v)" using wr32_put32 [OF assms(1)] .
  have l: "length (put32 bs p v) = length bs" using assms(1) by (simp add: put32_def c32.enc_length)
  have r: "rd32 (put32 bs p v) q = Some (dec32 (take 4 (drop q (put32 bs p v))))"
    "rd32 bs q = Some (dec32 (take 4 (drop q bs)))" using assms(2) l by (simp_all add: rd32_take)
  show ?thesis
  proof (cases "q = p")
    case True
    then show ?thesis using c32.rd_wr_same [OF w] r by simp
  next
    case False
    obtain i j where "p = 4 * i" "q = 4 * j" using assms(3,4) by (auto elim!: dvdE)
    then have "q + 4 \<le> p \<or> p + 4 \<le> q" using False by presburger
    then show ?thesis using c32.rd_wr_other [OF w, of q 4 dec32] r False by simp
  qed
qed

definition set_state :: "VOLUME \<Rightarrow> u32 \<Rightarrow> u32 \<Rightarrow> VOLUME" where
  "set_state s c v = s\<lparr>Disk := (\<lambda>x. if is_copy s c x
     then map_sum id (\<lambda>_. case Disk s (sector_at s (FatSectorLba (Vcb s) c)) of Inr bs \<Rightarrow> put32 bs (table_offset s c) (new_raw s c v)) (Disk s x)
     else Disk s x)\<rparr>"

lemma set_state_simps [simp]: "Vcb (set_state s c v) = Vcb s" "PoolFree (set_state s c v) = PoolFree s"
  "sector_at (set_state s c v) = sector_at s" "is_cluster (set_state s c v) = is_cluster s"
  "table_offset (set_state s c v) = table_offset s" "table_sector (set_state s c v) = table_sector s"
  by (simp_all add: set_state_def sector_at_def is_cluster_def table_offset_def table_sector_def fun_eq_iff)

lemma copies_workD: "copies_work s c \<Longrightarrow> is_copy s c x \<Longrightarrow> \<exists>bs. Disk s x = Inr bs"
  by (auto simp: copies_work_def is_copy_def)

lemma copies_work_first:
  assumes "volume_ok s" "copies_work s c"
  obtains bs where "Disk s (sector_at s (FatSectorLba (Vcb s) c)) = Inr bs" "length bs = unat (BytesPerSector (Vcb s))"
proof -
  obtain bs where bs: "Disk s (sector_at s (FatSectorLba (Vcb s) c)) = Inr bs"
    using assms volume_okD(3) [OF assms(1)] by (auto simp: copies_work_def dest!: spec [of _ 0])
  show thesis using that bs volume_okD(10) [OF assms(1) bs] .
qed

lemma FatpSetNextCluster_state:
  assumes "volume_ok s" "is_cluster s c" "0 < PoolFree s" "copies_work s c"
  shows "FatpSetNextCluster s c v = Some (STATUS_SUCCESS, set_state s c v)"
proof -
  obtain bs where bs: "Disk s (sector_at s (FatSectorLba (Vcb s) c)) = Inr bs" using copies_work_first assms by blast
  have "s\<lparr>Disk := (\<lambda>x. if is_copy s c x then Inr (put32 bs (table_offset s c) (new_raw s c v)) else Disk s x)\<rparr> = set_state s c v"
    using copies_workD [OF assms(4)] bs by (fastforce simp: set_state_def intro!: VOLUME.fold_congs)
  then show ?thesis using FatpSetNextCluster_ok [OF assms bs, of v] by simp
qed

lemma set_state_copy:
  assumes "volume_ok s" "is_cluster s c" "copies_work s c" "is_cluster s d" "f < unat (NumberOfFats (Vcb s))"
  shows "fat_copy (set_state s c v) f d =
    (if d = c then new_raw s c v else if table_sector s d = table_sector s c then fat_raw s d else fat_copy s f d)"
proof -
  obtain bs where bs: "Disk s (sector_at s (FatSectorLba (Vcb s) c)) = Inr bs" "length bs = unat (BytesPerSector (Vcb s))"
    using copies_work_first assms by blast
  let ?x = "sector_at s (copy_lba (Vcb s) (FatSectorLba (Vcb s) d) f)"
  show ?thesis
  proof (cases "table_sector s c = table_sector s d")
    case True
    then have i: "is_copy s c ?x" using is_copy_iff assms by simp
    obtain b where b: "Disk s ?x = Inr b" using copies_workD [OF assms(3) i] by auto
    have e: "FatSectorLba (Vcb s) d = FatSectorLba (Vcb s) c"
      using FatSectorLba_unat [OF assms(1,2)] FatSectorLba_unat [OF assms(1,4)] True by (simp add: word_unat_eq_iff)
    have "fat_copy (set_state s c v) f d = dec32 (take 4 (drop (table_offset s d) (put32 bs (table_offset s c) (new_raw s c v))))"
      using i b bs unfolding fat_copy_def set_state_simps by (simp add: set_state_def)
    also have "\<dots> = (if table_offset s d = table_offset s c then new_raw s c v else dec32 (take 4 (drop (table_offset s d) bs)))"
      using table_offset_ok [OF assms(1)] bs(2) by (intro dec32_put32) auto
    also have "dec32 (take 4 (drop (table_offset s d) bs)) = fat_raw s d" using bs(1) e by (simp add: fat_raw_def fat_copy_def)
    finally show ?thesis using entry_address [OF assms(2,4)] True by auto
  next
    case False
    then have "\<not> is_copy s c ?x" using is_copy_iff assms by simp
    then have "fat_copy (set_state s c v) f d = fat_copy s f d"
      unfolding fat_copy_def set_state_simps by (simp add: set_state_def)
    then show ?thesis using False by auto
  qed
qed

lemma and_low28: "(0xF0000000 AND (x :: u32)) AND 0x0FFFFFFF = 0" "((x :: u32) AND 0xF0000000) AND 0x0FFFFFFF = 0"
  by (simp_all add: and.assoc and.commute and.left_commute)

lemma new_raw_low: "new_raw s c v AND 0x0FFFFFFF = v AND 0x0FFFFFFF"
  by (simp add: new_raw_def bit.conj_disj_distrib2 and.assoc)

lemma new_raw_high: "new_raw s c v AND 0xF0000000 = fat_raw s c AND 0xF0000000"
  by (simp add: new_raw_def bit.conj_disj_distrib2 and.assoc)

text \<open>Whether all copies of the table say the same.\<close>

definition mirrored :: "VOLUME \<Rightarrow> bool" where
  "mirrored s \<longleftrightarrow> (\<forall>c f. is_cluster s c \<longrightarrow> f < unat (NumberOfFats (Vcb s)) \<longrightarrow> fat_copy s f c = fat_raw s c)"

lemma set_state_next:
  assumes "volume_ok s" "is_cluster s c" "copies_work s c" "is_cluster s d"
  shows "next_cluster (set_state s c v) d = (if d = c then v AND 0x0FFFFFFF else next_cluster s d)"
    "fat_raw (set_state s c v) d AND 0xF0000000 = fat_raw s d AND 0xF0000000"
  using set_state_copy [OF assms volume_okD(3) [OF assms(1)], of v] new_raw_low new_raw_high
  by (auto simp: next_cluster_def fat_raw_def)

lemma set_state_mirrored:
  assumes "volume_ok s" "is_cluster s c" "copies_work s c" "mirrored s"
  shows "mirrored (set_state s c v)"
proof -
  have "fat_copy (set_state s c v) f d = fat_copy (set_state s c v) 0 d"
    if "is_cluster s d" "f < unat (NumberOfFats (Vcb s))" for d f
  proof -
    have "fat_copy s f d = fat_copy s 0 d" using that assms(4) unfolding mirrored_def fat_raw_def by blast
    then show ?thesis
      using set_state_copy [OF assms(1-3) that, of v] set_state_copy [OF assms(1-3) that(1) volume_okD(3) [OF assms(1)], of v] by simp
  qed
  then show ?thesis unfolding mirrored_def fat_raw_def set_state_simps by blast
qed

lemma set_state_ok:
  assumes "volume_ok s" "is_cluster s c" "copies_work s c"
  shows "volume_ok (set_state s c v)"
proof -
  obtain bs where bs: "Disk s (sector_at s (FatSectorLba (Vcb s) c)) = Inr bs" "length bs = unat (BytesPerSector (Vcb s))"
    using copies_work_first assms by blast
  then have "length (put32 bs (table_offset s c) w) = unat (BytesPerSector (Vcb s))" for w
    using table_offset_ok(2) [OF assms(1), of c] by (simp add: put32_def c32.enc_length)
  then have "\<forall>x b. Disk (set_state s c v) x = Inr b \<longrightarrow> length b = unat (BytesPerSector (Vcb s))"
    using bs volume_okD(10) [OF assms(1)] by (auto simp: set_state_def map_sum_def split: sum.splits)
  then show ?thesis using assms(1) by (simp add: volume_ok_def Let_def)
qed

lemma set_state_data:
  assumes "volume_ok s" "is_cluster s c" "unat (DataStartLba (Vcb s)) \<le> unat l" "unat l < 2 ^ 32"
  shows "Disk (set_state s c v) (sector_at s l) = Disk s (sector_at s l)"
proof -
  have "\<not> is_copy s c (sector_at s l)"
  proof
    assume "is_copy s c (sector_at s l)"
    then obtain k where k: "k < unat (NumberOfFats (Vcb s))" "sector_at s l = sector_at s (copy_lba (Vcb s) (FatSectorLba (Vcb s) c) k)"
      by (auto simp: is_copy_def)
    have "unat (copy_lba (Vcb s) (FatSectorLba (Vcb s) c) k) < unat (DataStartLba (Vcb s))" using copy_below assms k(1) by blast
    then show False using sector_at_inj [OF assms(1,4) _ k(2)] assms(3,4) by auto
  qed
  then show ?thesis by (simp add: set_state_def)
qed

lemma disk_works_copies: "disk_works s \<Longrightarrow> copies_work s c"
  by (simp add: disk_works_def copies_work_def)

lemma set_state_works: "disk_works s \<Longrightarrow> disk_works (set_state s c v)"
  unfolding disk_works_def
proof
  fix x
  assume "\<forall>x. \<exists>bs. Disk s x = Inr bs"
  then obtain b where "Disk s x = Inr b" by blast
  then show "\<exists>b. Disk (set_state s c v) x = Inr b" by (auto simp: set_state_def)
qed

section \<open>Allocation\<close>

definition search_start :: "VOLUME \<Rightarrow> u32" where
  "search_start s = (if NextFreeCluster (Vcb s) \<ge> 2 \<and> NextFreeCluster (Vcb s) < TotalClusters (Vcb s)
     then NextFreeCluster (Vcb s) else 2)"

text \<open>The reference: the first free entry among the clusters the search looks at.\<close>

definition tried :: "VOLUME \<Rightarrow> u32 list" where
  "tried s = map of_nat [unat (search_start s)..<unat (TotalClusters (Vcb s))]"

definition first_free :: "VOLUME \<Rightarrow> u32 option" where
  "first_free s = List.find (\<lambda>c. next_cluster s c = 0) (tried s)"

definition vcb_taken :: "VOLUME \<Rightarrow> u32 \<Rightarrow> VOLUME" where
  "vcb_taken s c = (set_state s c 0x0FFFFFFF)\<lparr>Vcb := (Vcb s)\<lparr>NextFreeCluster := c + 1\<rparr>\<rparr>"

lemma allocate_loop_ok:
  assumes "volume_ok s" "disk_works s" "0 < PoolFree s" "2 \<le> unat c"
  shows "allocate_loop s (TotalClusters (Vcb s)) c =
    Some (case List.find (\<lambda>c. next_cluster s c = 0) (map of_nat [unat c..<unat (TotalClusters (Vcb s))]) of
      None \<Rightarrow> (Inl STATUS_DISK_FULL, s) | Some d \<Rightarrow> (Inr d, vcb_taken s d))"
  using assms(4)
proof (induction "unat (TotalClusters (Vcb s)) - unat c" arbitrary: c)
  case 0
  then have "\<not> c < TotalClusters (Vcb s)" by (simp add: word_less_nat_alt)
  then show ?case using 0 by (subst allocate_loop.simps) simp
next
  case (Suc n)
  then have c: "unat c < unat (TotalClusters (Vcb s))" by simp
  then have c': "c < TotalClusters (Vcb s)" by (simp add: word_less_nat_alt)
  have cl: "is_cluster s c" using c Suc.prems by (simp add: is_cluster_def)
  obtain bs where bs: "Disk s (sector_at s (FatSectorLba (Vcb s) c)) = Inr bs" using assms(2) by (auto simp: disk_works_def)
  have g: "FatpGetNextCluster s c = Some (Inr (next_cluster s c), s)" using FatpGetNextCluster_ok assms cl bs by blast
  have sn: "unat (c + 1) = Suc (unat c)"
    using c unat_lt_u32 [of "TotalClusters (Vcb s)"] by (subst unat_add_lt) auto
  have l: "[unat c..<unat (TotalClusters (Vcb s))] = unat c # [Suc (unat c)..<unat (TotalClusters (Vcb s))]"
    using c by (rule upt_conv_Cons)
  show ?case
  proof (cases "next_cluster s c = 0")
    case True
    have "FatpSetNextCluster s c 0x0FFFFFFF = Some (STATUS_SUCCESS, set_state s c 0x0FFFFFFF)"
      using FatpSetNextCluster_state assms cl disk_works_copies by blast
    then show ?thesis
      using g True c' l by (subst allocate_loop.simps) (simp add: vcb_taken_def VEA_SUCCESS_def STATUS_SUCCESS_def)
  next
    case False
    have "allocate_loop s (TotalClusters (Vcb s)) (c + 1) =
      Some (case List.find (\<lambda>c. next_cluster s c = 0) (map of_nat [unat (c + 1)..<unat (TotalClusters (Vcb s))]) of
        None \<Rightarrow> (Inl STATUS_DISK_FULL, s) | Some d \<Rightarrow> (Inr d, vcb_taken s d))"
      by (rule Suc.hyps) (use Suc c sn in auto)
    then show ?thesis using g False c' l sn by (subst allocate_loop.simps) simp
  qed
qed

lemma FatpAllocateCluster_ok:
  assumes "volume_ok s" "disk_works s" "0 < PoolFree s"
  shows "FatpAllocateCluster s = Some (case first_free s of
    None \<Rightarrow> (Inl STATUS_DISK_FULL, s) | Some c \<Rightarrow> (Inr c, vcb_taken s c))"
proof -
  have "2 \<le> unat (search_start s)" by (auto simp: search_start_def word_le_nat_alt)
  then show ?thesis
    using allocate_loop_ok [OF assms, of "search_start s"]
    unfolding FatpAllocateCluster_def Let_def first_free_def tried_def search_start_def by simp
qed

lemma first_free_Some:
  assumes "volume_ok s" "first_free s = Some c"
  shows "is_cluster s c" "next_cluster s c = 0" "search_start s \<le> c"
    "\<And>d. search_start s \<le> d \<Longrightarrow> d < c \<Longrightarrow> next_cluster s d \<noteq> 0"
proof -
  obtain i where i: "i < length (tried s)" "next_cluster s (tried s ! i) = 0" "c = tried s ! i"
      "\<forall>j<i. next_cluster s (tried s ! j) \<noteq> 0"
    using assms(2) by (auto simp: first_free_def find_Some_iff)
  let ?k = "unat (search_start s) + i"
  have k: "?k < unat (TotalClusters (Vcb s))" using i(1) by (simp add: tried_def)
  then have c: "c = of_nat ?k" using i(1,3) by (simp add: tried_def)
  have u: "unat c = ?k"
    unfolding c using k unat_lt_u32 [of "TotalClusters (Vcb s)"] by (intro unat_of_nat_lt) simp
  have s2: "2 \<le> unat (search_start s)" by (auto simp: search_start_def word_le_nat_alt)
  show "is_cluster s c" using u k s2 by (simp add: is_cluster_def)
  show "next_cluster s c = 0" using i(2,3) by simp
  show "search_start s \<le> c" using u by (simp add: word_le_nat_alt)
  fix d
  assume d: "search_start s \<le> d" "d < c"
  define j where "j = unat d - unat (search_start s)"
  have j: "j < i" "unat d = unat (search_start s) + j"
    using d u by (auto simp: j_def word_le_nat_alt word_less_nat_alt)
  then have "tried s ! j = of_nat (unat d)" using i(1) by (simp add: tried_def)
  then have "tried s ! j = d" by simp
  then show "next_cluster s d \<noteq> 0" using i(4) j(1) by auto
qed

lemma first_free_None:
  assumes "first_free s = None" "search_start s \<le> d" "d < TotalClusters (Vcb s)"
  shows "next_cluster s d \<noteq> 0"
proof -
  have "d \<in> set (tried s)"
    using assms(2,3) by (auto simp: tried_def word_le_nat_alt word_less_nat_alt intro!: image_eqI [of _ _ "unat d"])
  then show ?thesis using assms(1) by (auto simp: first_free_def find_None_iff)
qed

lemma vcb_taken_geometry [simp]: "table_offset (vcb_taken s c) = table_offset s"
  "FatSectorLba (Vcb (vcb_taken s c)) = FatSectorLba (Vcb s)" "copy_lba (Vcb (vcb_taken s c)) = copy_lba (Vcb s)"
  "sector_at (vcb_taken s c) = sector_at s" "Disk (vcb_taken s c) = Disk (set_state s c 0x0FFFFFFF)"
  by (simp_all add: vcb_taken_def table_offset_def FatSectorLba_def copy_lba_def sector_at_def fun_eq_iff)

lemma vcb_taken_table [simp]: "fat_copy (vcb_taken s c) = fat_copy (set_state s c 0x0FFFFFFF)"
  unfolding fat_copy_def fun_eq_iff vcb_taken_geometry set_state_simps by simp

lemma vcb_taken_simps [simp]: "PoolFree (vcb_taken s c) = PoolFree s"
  "is_cluster (vcb_taken s c) = is_cluster s" "NumberOfFats (Vcb (vcb_taken s c)) = NumberOfFats (Vcb s)"
  "disk_works (vcb_taken s c) = disk_works (set_state s c 0x0FFFFFFF)"
  "volume_ok (vcb_taken s c) = volume_ok (set_state s c 0x0FFFFFFF)"
  "mirrored (vcb_taken s c) = mirrored (set_state s c 0x0FFFFFFF)"
  "next_cluster (vcb_taken s c) = next_cluster (set_state s c 0x0FFFFFFF)"
proof -
  show "PoolFree (vcb_taken s c) = PoolFree s"
    and cl: "is_cluster (vcb_taken s c) = is_cluster s" and n: "NumberOfFats (Vcb (vcb_taken s c)) = NumberOfFats (Vcb s)"
    and "volume_ok (vcb_taken s c) = volume_ok (set_state s c 0x0FFFFFFF)"
    by (simp_all add: vcb_taken_def is_cluster_def volume_ok_def Let_def fun_eq_iff)
  show "disk_works (vcb_taken s c) = disk_works (set_state s c 0x0FFFFFFF)" by (simp add: disk_works_def)
  show "mirrored (vcb_taken s c) = mirrored (set_state s c 0x0FFFFFFF)"
    unfolding mirrored_def fat_raw_def n cl by simp
  show "next_cluster (vcb_taken s c) = next_cluster (set_state s c 0x0FFFFFFF)" by (simp add: next_cluster_def fat_raw_def fun_eq_iff)
qed

section \<open>The table as a map\<close>

text \<open>What one entry write does to a volume whose disk works.\<close>

lemma entry_write_correct:
  assumes "volume_ok s" "disk_works s" "mirrored s" "0 < PoolFree s" "is_cluster s c"
  shows "\<exists>s'. FatpSetNextCluster s c v = Some (STATUS_SUCCESS, s') \<and>
    volume_ok s' \<and> disk_works s' \<and> mirrored s' \<and> Vcb s' = Vcb s \<and> PoolFree s' = PoolFree s \<and>
    FatpGetNextCluster s' c = Some (Inr (v AND 0x0FFFFFFF), s') \<and>
    (\<forall>d. is_cluster s d \<and> d \<noteq> c \<longrightarrow> next_cluster s' d = next_cluster s d) \<and>
    (\<forall>d. is_cluster s d \<longrightarrow> fat_raw s' d AND 0xF0000000 = fat_raw s d AND 0xF0000000) \<and>
    (\<forall>l. DataStartLba (Vcb s) \<le> l \<and> l < 0x100000000 \<longrightarrow> Disk s' (sector_at s l) = Disk s (sector_at s l))"
proof (intro exI conjI)
  let ?s = "set_state s c v"
  have cw: "copies_work s c" using assms(2) by (rule disk_works_copies)
  show "FatpSetNextCluster s c v = Some (STATUS_SUCCESS, ?s)" using assms cw by (intro FatpSetNextCluster_state)
  show v: "volume_ok ?s" "disk_works ?s" using set_state_ok assms cw set_state_works by blast+
  show "mirrored ?s" using set_state_mirrored assms cw by blast
  show "Vcb ?s = Vcb s" "PoolFree ?s = PoolFree s" by simp_all
  obtain bs where "Disk ?s (sector_at ?s (FatSectorLba (Vcb ?s) c)) = Inr bs" using v(2) by (auto simp: disk_works_def)
  then show "FatpGetNextCluster ?s c = Some (Inr (v AND 0x0FFFFFFF), ?s)"
    using FatpGetNextCluster_ok [OF v(1), of c bs] assms(4,5) set_state_next(1) [OF assms(1,5) cw assms(5), of v] by simp
  show "\<forall>d. is_cluster s d \<and> d \<noteq> c \<longrightarrow> next_cluster ?s d = next_cluster s d"
    using set_state_next(1) [OF assms(1,5) cw] by simp
  show "\<forall>d. is_cluster s d \<longrightarrow> fat_raw ?s d AND 0xF0000000 = fat_raw s d AND 0xF0000000"
    using set_state_next(2) [OF assms(1,5) cw] by simp
  show "\<forall>l. DataStartLba (Vcb s) \<le> l \<and> l < 0x100000000 \<longrightarrow> Disk ?s (sector_at s l) = Disk s (sector_at s l)"
    using set_state_data [OF assms(1,5)] by (simp add: word_le_nat_alt word_less_nat_alt)
qed

section \<open>Whatever the disk does\<close>

definition sizes_ok :: "VOLUME \<Rightarrow> bool" where
  "sizes_ok s \<longleftrightarrow> unat (BytesPerSector (Vcb s)) \<in> {512, 1024, 2048, 4096} \<and>
     (\<forall>x bs. Disk s x = Inr bs \<longrightarrow> length bs = unat (BytesPerSector (Vcb s)))"

lemma any_offset:
  assumes "sizes_ok s"
  shows "unat (FatOffsetInSector (Vcb s) c) div 4 * 4 + 4 \<le> unat (BytesPerSector (Vcb s))" "BytesPerSector (Vcb s) \<noteq> 0"
    "unat (BytesPerSector (Vcb s)) \<le> 4096"
proof -
  let ?b = "unat (BytesPerSector (Vcb s))"
  have b: "?b \<in> {512, 1024, 2048, 4096}" using assms by (simp add: sizes_ok_def)
  have "unat (FatOffsetInSector (Vcb s) c) = unat (c * 4) mod ?b" by (simp add: FatOffsetInSector_def unat_mod)
  moreover have "unat (c * 4) mod ?b < ?b" using b by (intro mod_less_divisor) auto
  ultimately have "unat (FatOffsetInSector (Vcb s) c) < ?b" by simp
  then have "unat (FatOffsetInSector (Vcb s) c) div 4 < ?b div 4" using b by auto
  then show "unat (FatOffsetInSector (Vcb s) c) div 4 * 4 + 4 \<le> ?b" using b by auto
  show "BytesPerSector (Vcb s) \<noteq> 0" "?b \<le> 4096" using b by auto
qed

lemma get_safe:
  assumes "sizes_ok s"
  shows "\<exists>r. FatpGetNextCluster s c = Some (r, s)"
proof (cases "PoolFree s = 0")
  case False
  then have tp: "take_pool s = Some (s\<lparr>PoolFree := PoolFree s - 1\<rparr>)" by (simp add: take_pool_def)
  have gp: "give_pool (s\<lparr>PoolFree := PoolFree s - 1\<rparr>) = s" using False by (simp add: give_pool_def)
  show ?thesis
  proof (cases "FatReadDiskSectors (s\<lparr>PoolFree := PoolFree s - 1\<rparr>) (FatSectorLba (Vcb s) c)")
    case (Inl e)
    then show ?thesis using any_offset(2) [OF assms] by (simp add: FatpGetNextCluster_def tp gp [unfolded One_nat_def])
  next
    case (Inr bs)
    then have l: "length bs = unat (BytesPerSector (Vcb s))" using assms by (simp add: FatReadDiskSectors_def sizes_ok_def)
    have p: "put_bytes (replicate 4096 0) 0 bs = Some (bs @ replicate (4096 - length bs) 0)"
      using any_offset(3) [OF assms] l by (subst put_bytes_over) simp_all
    have "\<exists>v. rd32 (bs @ replicate (4096 - length bs) 0) (unat (FatOffsetInSector (Vcb s) c) div 4 * 4) = Some v"
      using any_offset(1) [OF assms, of c] l by (subst rd32_take) simp_all
    then obtain v where v: "rd32 (bs @ replicate (4096 - length bs) 0) (unat (FatOffsetInSector (Vcb s) c) div 4 * 4) = Some v" ..
    show ?thesis
      using any_offset(2) [OF assms] unfolding FatpGetNextCluster_def tp option.case Inr sum.case p gp bind.bind_lunit v
      by simp
  qed
qed (simp add: FatpGetNextCluster_def take_pool_def)

lemma write_fats_safe: "write_fats f l buf st s = (st', s') \<Longrightarrow> Vcb s' = Vcb s \<and> PoolFree s' = PoolFree s"
proof (induction f l buf st s rule: write_fats.induct)
  case (1 f l buf st s)
  show ?case
  proof (cases "f < unat (NumberOfFats (Vcb s))")
    case True
    obtain a b where w: "FatWriteDiskSectors s (copy_lba (Vcb s) l f) buf = (a, b)" by (cases "FatWriteDiskSectors s (copy_lba (Vcb s) l f) buf")
    note fr = FatWriteDiskSectors_frame [OF w]
    show ?thesis
    proof (cases "VEA_SUCCESS a")
      case True': True
      have "write_fats (f + 1) l buf a b = (st', s')" using "1.prems" True True' w by (subst (asm) write_fats.simps) simp
      then show ?thesis using "1.IH" [OF True w [symmetric]] True' fr by simp
    next
      case False
      then show ?thesis using "1.prems" True w fr by (subst (asm) write_fats.simps) simp
    qed
  next
    case False
    then show ?thesis using "1.prems" by (subst (asm) write_fats.simps) simp
  qed
qed

lemma write_fats_sizes:
  "write_fats f l buf st s = (st', s') \<Longrightarrow> sizes_ok s \<Longrightarrow> length buf = unat (BytesPerSector (Vcb s)) \<Longrightarrow> sizes_ok s'"
proof (induction f l buf st s rule: write_fats.induct)
  case (1 f l buf st s)
  show ?case
  proof (cases "f < unat (NumberOfFats (Vcb s))")
    case True
    obtain a b where w: "FatWriteDiskSectors s (copy_lba (Vcb s) l f) buf = (a, b)" by (cases "FatWriteDiskSectors s (copy_lba (Vcb s) l f) buf")
    have fr: "Vcb b = Vcb s" using FatWriteDiskSectors_frame [OF w] by simp
    have sb: "sizes_ok b"
      using w "1.prems"(2,3) by (auto simp: FatWriteDiskSectors_def sizes_ok_def split: sum.splits if_splits)
    show ?thesis
    proof (cases "VEA_SUCCESS a")
      case True': True
      have "write_fats (f + 1) l buf a b = (st', s')" using "1.prems" True True' w by (subst (asm) write_fats.simps) simp
      then show ?thesis using "1.IH" [OF True w [symmetric]] True' fr sb "1.prems"(3) by simp
    next
      case False
      then show ?thesis using "1.prems" True w sb by (subst (asm) write_fats.simps) simp
    qed
  next
    case False
    then show ?thesis using "1.prems" by (subst (asm) write_fats.simps) simp
  qed
qed

lemma set_safe:
  assumes "sizes_ok s"
  shows "\<exists>st s'. FatpSetNextCluster s c v = Some (st, s') \<and> Vcb s' = Vcb s \<and> PoolFree s' = PoolFree s \<and> sizes_ok s'"
proof (cases "PoolFree s = 0")
  case False
  let ?s = "s\<lparr>PoolFree := PoolFree s - 1\<rparr>"
  have tp: "take_pool s = Some ?s" using False by (simp add: take_pool_def)
  show ?thesis
  proof (cases "FatReadDiskSectors ?s (FatSectorLba (Vcb s) c)")
    case (Inl e)
    then show ?thesis using any_offset(2) [OF assms] False assms
      by (simp add: FatpSetNextCluster_def tp give_pool_def)
  next
    case (Inr bs)
    then have l: "length bs = unat (BytesPerSector (Vcb s))" using assms by (simp add: FatReadDiskSectors_def sizes_ok_def)
    have p: "put_bytes (replicate (unat (BytesPerSector (Vcb s))) 0) 0 bs = Some bs"
      using l by (subst put_bytes_over) simp_all
    let ?p = "unat (FatOffsetInSector (Vcb s) c) div 4 * 4"
    have o: "?p + 4 \<le> length bs" using any_offset(1) [OF assms, of c] l by simp
    obtain old where old: "rd32 bs ?p = Some old" using rd32_take [OF o] by blast
    let ?buf = "put32 bs ?p ((old AND 0xF0000000) OR (v AND 0x0FFFFFFF))"
    obtain st s' where w: "write_fats 0 (FatSectorLba (Vcb s) c) ?buf STATUS_SUCCESS ?s = (st, s')"
      by (cases "write_fats 0 (FatSectorLba (Vcb s) c) ?buf STATUS_SUCCESS ?s")
    have fr: "Vcb s' = Vcb s" "PoolFree s' = PoolFree s - 1" using write_fats_safe [OF w] by simp_all
    have "sizes_ok s'"
      by (rule write_fats_sizes [OF w]) (use assms o l in \<open>auto simp: sizes_ok_def put32_def c32.enc_length\<close>)
    moreover have "FatpSetNextCluster s c v = Some (st, give_pool s')"
      using any_offset(2) [OF assms] unfolding FatpSetNextCluster_def tp option.case Inr sum.case p Let_def old bind.bind_lunit wr32_put32 [OF o] w
      by simp
    ultimately show ?thesis using fr False by (auto simp: give_pool_def sizes_ok_def)
  qed
qed (use assms in \<open>simp add: FatpSetNextCluster_def take_pool_def\<close>)

lemma allocate_safe:
  assumes "sizes_ok s"
  shows "\<exists>r s'. allocate_loop s t c = Some (r, s') \<and> PoolFree s' = PoolFree s \<and> sizes_ok s'"
  using assms
proof (induction "unat t - unat c" arbitrary: s c)
  case 0
  then show ?case by (subst allocate_loop.simps) (simp add: word_less_nat_alt)
next
  case (Suc n)
  then have c: "c < t" by (simp add: word_less_nat_alt)
  have sn: "unat (c + 1) = Suc (unat c)"
    using c unat_lt_u32 [of t] by (subst unat_add_lt) (auto simp: word_less_nat_alt)
  have rest: "\<exists>r s'. allocate_loop s2 t (c + 1) = Some (r, s') \<and> PoolFree s' = PoolFree s2 \<and> sizes_ok s'"
    if "sizes_ok s2" for s2 by (rule Suc.hyps) (use Suc.hyps(2) sn that in auto)
  obtain r where g: "FatpGetNextCluster s c = Some (r, s)" using get_safe Suc.prems by blast
  obtain st s2 where w: "FatpSetNextCluster s c 0x0FFFFFFF = Some (st, s2)" "PoolFree s2 = PoolFree s" "sizes_ok s2"
    using set_safe [OF Suc.prems] by blast
  show ?case
    using c g w rest [OF Suc.prems] rest [OF w(3)]
    by (subst allocate_loop.simps) (auto simp: sizes_ok_def)
qed

text \<open>whatever errors the disk returns and however little memory is left, reading, writing and allocating an
  entry of the table returns, stays inside its sector buffer, and gives back every block it took.\<close>

theorem fat_table_never_faults:
  "sizes_ok s \<Longrightarrow>
    (\<exists>r. FatpGetNextCluster s c = Some (r, s)) \<and>
    (\<exists>st s'. FatpSetNextCluster s c v = Some (st, s') \<and> Vcb s' = Vcb s \<and> PoolFree s' = PoolFree s) \<and>
    (\<exists>r s'. FatpAllocateCluster s = Some (r, s') \<and> PoolFree s' = PoolFree s)"
  using get_safe [of s c] set_safe [of s c v] allocate_safe [of s] unfolding FatpAllocateCluster_def Let_def by blast

section \<open>A small volume\<close>

text \<open>Two copies of a table of one sector, six clusters of one sector; the chain of cluster 2 goes on in cluster 3.\<close>

definition small_vcb :: FAT32_DEVICE_EXTENSION where
  "small_vcb = \<lparr>BytesPerSector = 512, SectorsPerCluster = 1, BytesPerCluster = 512, ReservedSectors = 1, NumberOfFats = 2,
     FatSizeSectors = 1, RootDirStartCluster = 2, FatStartLba = 1, DataStartLba = 3, TotalClusters = 6, TotalSectors = 9,
     FreeClusterCount = 0xFFFFFFFF, NextFreeCluster = 0xFFFFFFFF\<rparr>"

definition filled :: "u8 \<Rightarrow> u8 list" where "filled x = replicate 512 x"

definition ramp :: "u8 list" where "ramp = map of_nat [0..<512]"

definition small_table :: "u8 list" where
  "small_table = put32 (put32 (filled 0) 8 3) 12 0x0FFFFFFF"

lemma length_filled [simp]: "length (filled x) = 512" "length ramp = 512"
  by (simp_all add: filled_def ramp_def)

definition small_volume :: VOLUME where
  "small_volume = \<lparr>Vcb = small_vcb, Disk = (\<lambda>x. Inr (if x = 512 \<or> x = 1024 then small_table
     else if x = 2048 then ramp else filled 0)), PoolFree = 1\<rparr>"

lemma put32_length: "p + 4 \<le> length bs \<Longrightarrow> length (put32 bs p v) = length bs"
  by (simp add: put32_def c32.enc_length)

lemma small_table_length: "length small_table = 512"
  by (simp add: small_table_def put32_def c32.enc_length)

lemma small_volume_ok: "volume_ok small_volume" "disk_works small_volume" "sizes_ok small_volume" "PoolFree small_volume = 1"
  by (auto simp: volume_ok_def disk_works_def sizes_ok_def small_volume_def small_vcb_def small_table_length)

lemma small_copy: "f < 2 \<Longrightarrow> is_cluster small_volume c \<Longrightarrow>
  fat_copy small_volume f c = (if c = 2 then 3 else if c = 3 then 0x0FFFFFFF else 0)"
proof -
  assume f: "f < 2" and c: "is_cluster small_volume c"
  have u: "unat c < 8" "2 \<le> unat c" using c by (simp_all add: is_cluster_def small_volume_def small_vcb_def)
  have "unat (FatSectorLba small_vcb c) = 1"
    using FatSectorLba_unat [OF small_volume_ok(1) c] u by (simp add: small_volume_def table_sector_def small_vcb_def)
  then have l: "FatSectorLba small_vcb c = 1" by (metis unat_1 word_unat_eq_iff)
  have s: "Disk small_volume (sector_at small_volume (copy_lba small_vcb 1 f)) = Inr small_table"
  proof -
    have "f = 0 \<or> f = 1" using f by auto
    then show ?thesis by (auto simp: small_volume_def sector_at_def small_vcb_def copy_lba_def)
  qed
  have t: "table_offset small_volume c = unat c * 4" using u by (simp add: table_offset_def small_volume_def small_vcb_def)
  have z: "dec32 (take 4 (drop (unat c * 4) (filled 0))) = 0"
    using u by (simp add: dec32_def filled_def)
  have e: "unat c * 4 = 8 \<longleftrightarrow> c = 2" "unat c * 4 = 12 \<longleftrightarrow> c = 3" by (auto simp: word_unat_eq_iff)
  have "dec32 (take 4 (drop (unat c * 4) small_table)) = (if c = 2 then 3 else if c = 3 then 0x0FFFFFFF else 0)"
    unfolding small_table_def using u e z
    by (simp add: dec32_put32 put32_length del: drop_replicate take_replicate)
  then show ?thesis
    using s l t unfolding fat_copy_def by (simp add: small_volume_def)
qed

lemma small_next:
  "is_cluster small_volume c \<Longrightarrow> next_cluster small_volume c = (if c = 2 then 3 else if c = 3 then 0x0FFFFFFF else 0)"
  using small_copy [of 0 c] by (simp add: next_cluster_def fat_raw_def)

lemma small_clusters: "is_cluster small_volume c \<longleftrightarrow> 2 \<le> unat c \<and> unat c < 8"
  by (simp add: is_cluster_def small_volume_def small_vcb_def)

lemma small_mirrored: "mirrored small_volume"
  unfolding mirrored_def fat_raw_def
  using small_copy by (simp add: small_volume_def small_vcb_def)

text \<open>C30: writing the entry of a cluster in a working volume succeeds; reading it back gives the low 28 bits that
  were written, every other entry and the reserved top bits of all entries stay, all copies of the table still
  agree, nothing outside the table changes, and no memory is lost.\<close>

theorem fat_entry_roundtrip:
  assumes "volume_ok s" "disk_works s" "mirrored s" "0 < PoolFree s" "is_cluster s c"
  shows "\<exists>s'. FatpSetNextCluster s c v = Some (STATUS_SUCCESS, s') \<and>
    volume_ok s' \<and> disk_works s' \<and> mirrored s' \<and> Vcb s' = Vcb s \<and> PoolFree s' = PoolFree s \<and>
    FatpGetNextCluster s' c = Some (Inr (v AND 0x0FFFFFFF), s') \<and>
    (\<forall>d. is_cluster s d \<and> d \<noteq> c \<longrightarrow> next_cluster s' d = next_cluster s d) \<and>
    (\<forall>d. is_cluster s d \<longrightarrow> fat_raw s' d AND 0xF0000000 = fat_raw s d AND 0xF0000000) \<and>
    (\<forall>l. DataStartLba (Vcb s) \<le> l \<and> l < 0x100000000 \<longrightarrow> Disk s' (sector_at s l) = Disk s (sector_at s l))"
  using assms by (rule entry_write_correct)

theorem fat_entry_roundtrip_witness:
  "\<exists>s'. FatpSetNextCluster small_volume 3 4 = Some (STATUS_SUCCESS, s') \<and> FatpGetNextCluster s' 3 = Some (Inr 4, s') \<and>
    next_cluster s' 2 = 3"
proof -
  have "is_cluster small_volume 3" "is_cluster small_volume 2" by (simp_all add: small_clusters)
  then show ?thesis
    using fat_entry_roundtrip [OF small_volume_ok(1,2) small_mirrored, of 3 4] small_volume_ok(4) small_next [of 2] by fastforce
qed

lemma vcb_taken_frame:
  assumes "volume_ok s" "is_cluster s c" "copies_work s c"
  shows "\<forall>d. is_cluster s d \<longrightarrow> fat_raw (vcb_taken s c) d AND 0xF0000000 = fat_raw s d AND 0xF0000000"
    "\<forall>x. \<not> is_copy s c x \<longrightarrow> Disk (vcb_taken s c) x = Disk s x"
    "\<forall>l. DataStartLba (Vcb s) \<le> l \<and> l < 0x100000000 \<longrightarrow> Disk (vcb_taken s c) (sector_at s l) = Disk s (sector_at s l)"
    "Vcb (vcb_taken s c) = (Vcb s)\<lparr>NextFreeCluster := c + 1\<rparr>" "PoolFree (vcb_taken s c) = PoolFree s"
proof -
  show "\<forall>d. is_cluster s d \<longrightarrow> fat_raw (vcb_taken s c) d AND 0xF0000000 = fat_raw s d AND 0xF0000000"
    using set_state_next(2) [OF assms] by (simp add: fat_raw_def)
  show "\<forall>x. \<not> is_copy s c x \<longrightarrow> Disk (vcb_taken s c) x = Disk s x"
    by (simp add: set_state_def)
  show "\<forall>l. DataStartLba (Vcb s) \<le> l \<and> l < 0x100000000 \<longrightarrow> Disk (vcb_taken s c) (sector_at s l) = Disk s (sector_at s l)"
    using set_state_data [OF assms(1,2)] by (simp add: word_le_nat_alt word_less_nat_alt)
qed (simp_all add: vcb_taken_def)

text \<open>C31: on a working volume with equal copies of the table the allocator gives the first free cluster from its hint
  on, marks it as the end of a chain in all copies and moves the hint behind it. It changes nothing else: every other
  entry and the reserved top bits of all entries stay, as do all sectors but the copies of the table sector of the
  entry, among them those of the clusters, the other fields of the control block and the free memory. Or it reports a
  full disk and changes nothing at all, when no cluster it tries is free.\<close>

theorem fat_allocates_first_free:
  assumes "volume_ok s" "disk_works s" "mirrored s" "0 < PoolFree s"
  shows "(\<exists>c s'. FatpAllocateCluster s = Some (Inr c, s') \<and> is_cluster s c \<and> next_cluster s c = 0 \<and>
      search_start s \<le> c \<and> (\<forall>d. search_start s \<le> d \<and> d < c \<longrightarrow> next_cluster s d \<noteq> 0) \<and>
      next_cluster s' c = 0x0FFFFFFF \<and> (\<forall>d. is_cluster s d \<and> d \<noteq> c \<longrightarrow> next_cluster s' d = next_cluster s d) \<and>
      (\<forall>d. is_cluster s d \<longrightarrow> fat_raw s' d AND 0xF0000000 = fat_raw s d AND 0xF0000000) \<and>
      (\<forall>x. \<not> is_copy s c x \<longrightarrow> Disk s' x = Disk s x) \<and>
      (\<forall>l. DataStartLba (Vcb s) \<le> l \<and> l < 0x100000000 \<longrightarrow> Disk s' (sector_at s l) = Disk s (sector_at s l)) \<and>
      Vcb s' = (Vcb s)\<lparr>NextFreeCluster := c + 1\<rparr> \<and> PoolFree s' = PoolFree s \<and>
      volume_ok s' \<and> disk_works s' \<and> mirrored s') \<or>
    FatpAllocateCluster s = Some (Inl STATUS_DISK_FULL, s) \<and>
      (\<forall>d. search_start s \<le> d \<and> d < TotalClusters (Vcb s) \<longrightarrow> next_cluster s d \<noteq> 0)"
proof (cases "first_free s")
  case None
  then show ?thesis using FatpAllocateCluster_ok [OF assms(1,2,4)] first_free_None by auto
next
  case (Some c)
  note ff = first_free_Some [OF assms(1) Some]
  have cw: "copies_work s c" using assms(2) by (rule disk_works_copies)
  have "FatpAllocateCluster s = Some (Inr c, vcb_taken s c)" using FatpAllocateCluster_ok [OF assms(1,2,4)] Some by simp
  moreover have "volume_ok (vcb_taken s c)" "disk_works (vcb_taken s c)" "mirrored (vcb_taken s c)"
    using set_state_ok [OF assms(1) ff(1) cw] set_state_works [OF assms(2)] set_state_mirrored [OF assms(1) ff(1) cw assms(3)]
    by simp_all
  moreover have "next_cluster (vcb_taken s c) c = 0x0FFFFFFF" "\<forall>d. is_cluster s d \<and> d \<noteq> c \<longrightarrow> next_cluster (vcb_taken s c) d = next_cluster s d"
    using set_state_next(1) [OF assms(1) ff(1) cw] ff(1) by simp_all
  ultimately show ?thesis using ff vcb_taken_frame [OF assms(1) ff(1) cw] by (intro disjI1 exI [of _ c] exI [of _ "vcb_taken s c"]) blast
qed

theorem fat_allocates_first_free_witness: "\<exists>s'. FatpAllocateCluster small_volume = Some (Inr 4, s')"
proof -
  have st: "search_start small_volume = 2" by (simp add: search_start_def small_volume_def small_vcb_def)
  have t: "TotalClusters (Vcb small_volume) = 6" by (simp add: small_volume_def small_vcb_def)
  have n: "next_cluster small_volume 2 = 3" "next_cluster small_volume 3 = 0x0FFFFFFF" "next_cluster small_volume 4 = 0"
    by (subst small_next; simp add: small_clusters)+
  have c4: "c = 4" if "next_cluster small_volume c = 0" "2 \<le> c" "\<forall>d. 2 \<le> d \<and> d < c \<longrightarrow> next_cluster small_volume d \<noteq> 0" for c :: u32
  proof -
    have "\<not> 4 < c" using that(3) n(3) by auto
    then have "unat c \<le> 4" "2 \<le> unat c" using that(2) by (simp_all add: word_le_nat_alt word_less_nat_alt)
    then have "unat c = 2 \<or> unat c = 3 \<or> unat c = 4" by linarith
    then have "c = 2 \<or> c = 3 \<or> c = 4" by (auto simp: word_unat_eq_iff)
    then show ?thesis using that(1) n by auto
  qed
  have "\<not> (\<forall>d. 2 \<le> d \<and> d < 6 \<longrightarrow> next_cluster small_volume d \<noteq> 0)" using n(3) by (auto intro!: exI [of _ 4])
  then show ?thesis
    using fat_allocates_first_free [OF small_volume_ok(1,2) small_mirrored] small_volume_ok(4) c4
    unfolding st t by fastforce
qed

text \<open>the allocator reports a full disk although a cluster of the volume is free, whenever the free ones lie before
  the hint or are the last two clusters, whose numbers reach \<open>TotalClusters + 1\<close>.\<close>

theorem fat_allocation_misses_free:
  assumes "volume_ok s" "disk_works s" "0 < PoolFree s" "is_cluster s c" "next_cluster s c = 0"
    and "\<forall>d. search_start s \<le> d \<and> d < TotalClusters (Vcb s) \<longrightarrow> next_cluster s d \<noteq> 0"
  shows "FatpAllocateCluster s = Some (Inl STATUS_DISK_FULL, s) \<and>
    (c < NextFreeCluster (Vcb s) \<or> TotalClusters (Vcb s) \<le> c)"
proof
  have "first_free s = None"
  proof (cases "first_free s")
    case (Some d)
    have "d \<in> set (tried s)" "next_cluster s d = 0" using Some by (auto simp: first_free_def find_Some_iff)
    then obtain k where k: "d = of_nat k" "unat (search_start s) \<le> k" "k < unat (TotalClusters (Vcb s))" by (auto simp: tried_def)
    then have "unat d = k" using unat_lt_u32 [of "TotalClusters (Vcb s)"] by (auto intro: unat_of_nat_lt)
    then have "next_cluster s d \<noteq> 0" using assms(6) k by (simp add: word_le_nat_alt word_less_nat_alt)
    then show ?thesis using \<open>next_cluster s d = 0\<close> by simp
  qed
  then show "FatpAllocateCluster s = Some (Inl STATUS_DISK_FULL, s)" using FatpAllocateCluster_ok [OF assms(1-3)] by simp
  have "2 \<le> c" using is_cluster_word assms(1,4) by blast
  then have "\<not> (NextFreeCluster (Vcb s) \<le> c \<and> c < TotalClusters (Vcb s))"
    using assms(5,6) by (auto simp: search_start_def split: if_splits)
  then show "c < NextFreeCluster (Vcb s) \<or> TotalClusters (Vcb s) \<le> c" by (simp add: not_le not_less)
qed

text \<open>The small volume with four clusters, the last two of them free.\<close>

definition full_volume :: VOLUME where
  "full_volume = small_volume\<lparr>Vcb := small_vcb\<lparr>TotalClusters := 4\<rparr>\<rparr>"

theorem fat_allocation_misses_free_witness:
  "is_cluster full_volume 4 \<and> next_cluster full_volume 4 = 0 \<and> FatpAllocateCluster full_volume = Some (Inl STATUS_DISK_FULL, full_volume)"
proof -
  have v: "volume_ok full_volume" "disk_works full_volume" "0 < PoolFree full_volume"
    using small_volume_ok by (auto simp: full_volume_def volume_ok_def disk_works_def small_volume_def small_vcb_def)
  have g: "Disk full_volume = Disk small_volume" "sector_at full_volume = sector_at small_volume"
    "copy_lba (Vcb full_volume) = copy_lba (Vcb small_volume)" "FatSectorLba (Vcb full_volume) = FatSectorLba (Vcb small_volume)"
    "table_offset full_volume = table_offset small_volume"
    by (simp_all add: full_volume_def small_volume_def sector_at_def copy_lba_def FatSectorLba_def table_offset_def fun_eq_iff)
  have n: "next_cluster full_volume = next_cluster small_volume"
    unfolding next_cluster_def fat_raw_def fat_copy_def g ..
  have c: "is_cluster full_volume 4" by (simp add: is_cluster_def full_volume_def)
  have n4: "next_cluster full_volume 4 = 0" unfolding n by (subst small_next) (simp_all add: small_clusters)
  have "next_cluster full_volume d \<noteq> 0" if "search_start full_volume \<le> d" "d < TotalClusters (Vcb full_volume)" for d
  proof -
    have "2 \<le> unat d" "unat d < 4"
      using that by (simp_all add: search_start_def full_volume_def small_vcb_def word_le_nat_alt word_less_nat_alt)
    then have "unat d = 2 \<or> unat d = 3" by linarith
    then have "d = 2 \<or> d = 3" by (auto simp: word_unat_eq_iff)
    then show ?thesis unfolding n by (auto simp: small_next small_clusters)
  qed
  then show ?thesis using fat_allocation_misses_free [OF v c n4] c n4 by blast
qed

theorem fat_table_never_faults_witness:
  "\<exists>r. FatpGetNextCluster small_volume 5 = Some (r, small_volume)"
  using fat_table_never_faults [OF small_volume_ok(3), of 5 0] by blast

end
