(* ===== verification/FatRead.thy ===== *)
theory FatRead
  imports FatTable "HOL-Library.Signed_Division"
begin

text \<open>
  \<open>driver/filesystem/veafat/readwrite.c\<close>, \<open>FatMjRead\<close> and \<open>FatpReadFile\<close>: reading a range of a file along
  the chain of its clusters, through a bounce buffer where the range does not fill whole sectors. The requests to the
  device below are always built; the failure of \<open>ObioBuildSynchronusFsdRequest\<close>, which ends the read with
  \<open>STATUS_INSUFFICIENT_RESOURCES\<close>, is left out.
\<close>

section \<open>The operations\<close>

record VEAFAT_FCB =
  FcbFirstCluster :: u32
  FcbFileSize :: u32

text \<open>What the request and the file object receive.\<close>

record READ_RESULT =
  OipStatus :: VEASTATUS
  OipInformation :: u32
  UserBuffer :: "u8 list"
  CcbByteOffset :: u32

text \<open>A request for \<open>n\<close> sectors of \<open>z\<close> bytes.\<close>

fun device_read :: "(u64 \<Rightarrow> VEASTATUS + u8 list) \<Rightarrow> u32 \<Rightarrow> u64 \<Rightarrow> nat \<Rightarrow> VEASTATUS + u8 list" where
  "device_read d z off 0 = Inr []"
| "device_read d z off (Suc n) =
     (case d off of Inl e \<Rightarrow> Inl e
      | Inr bs \<Rightarrow> (case device_read d z (off + ucast z) n of Inl e \<Rightarrow> Inl e | Inr r \<Rightarrow> Inr (bs @ r)))"

text \<open>\<open>ALIGN_DOWN_BY\<close> and \<open>ALIGN_UP_BY\<close> compute in \<open>ULONG_PTR\<close>, 32 bits wide.\<close>

definition ALIGN_DOWN_BY :: "u32 \<Rightarrow> u32 \<Rightarrow> u32" where
  "ALIGN_DOWN_BY x align = x AND NOT (align - 1)"

definition ALIGN_UP_BY :: "u32 \<Rightarrow> u32 \<Rightarrow> u32" where
  "ALIGN_UP_BY x align = ALIGN_DOWN_BY (x + align - 1) align"

text \<open>One chunk: the bytes of the user's buffer from \<open>BytesRead\<close> on, after a read of \<open>ChunkSize\<close> bytes at
  \<open>VolumeByteOffset\<close>.\<close>

definition sector_bytes :: "VOLUME \<Rightarrow> u32" where
  "sector_bytes s = (if BytesPerSector (Vcb s) \<noteq> 0 then BytesPerSector (Vcb s) else 512)"

definition smod_u32 :: "u64 \<Rightarrow> u32 \<Rightarrow> u64" where
  "smod_u32 x z = word_of_int (sint x smod uint z)"

definition read_chunk :: "VOLUME \<Rightarrow> u64 \<Rightarrow> u64 \<Rightarrow> u32 \<Rightarrow> nat \<Rightarrow> u8 list \<Rightarrow> (VEASTATUS + (VEASTATUS + u8 list)) option" where
  "read_chunk s ByteOffset VolumeByteOffset ChunkSize BytesRead Buffer = (
     let SectorSize = sector_bytes s;
         rest = smod_u32 VolumeByteOffset SectorSize
     in if ChunkSize mod SectorSize \<noteq> 0 \<or> rest \<noteq> 0 then (
          let DiskReadLength = ALIGN_UP_BY (ucast (ucast ChunkSize + rest)) SectorSize;
              VolumeByteOffset = ucast (ALIGN_DOWN_BY (ucast VolumeByteOffset) SectorSize)
          in case take_pool s of
               None \<Rightarrow> Some (Inl STATUS_INSUFFICIENT_RESOURCES)
             | Some _ \<Rightarrow>
               (case device_read (Disk s) SectorSize VolumeByteOffset (unat (DiskReadLength div SectorSize)) of
                  Inl e \<Rightarrow> Some (Inr (Inl e))
                | Inr BounceBuffer \<Rightarrow> do {
                    let StartOffsetInBounce = (ucast (smod_u32 ByteOffset SectorSize) :: u32);
                    bs \<leftarrow> get_bytes BounceBuffer (unat StartOffsetInBounce) (unat ChunkSize);
                    Buffer \<leftarrow> put_bytes Buffer BytesRead bs;
                    Some (Inr (Inr Buffer)) }))
        else
          (case device_read (Disk s) SectorSize VolumeByteOffset (unat (ChunkSize div SectorSize)) of
             Inl e \<Rightarrow> Some (Inr (Inl e))
           | Inr bs \<Rightarrow> do { Buffer \<leftarrow> put_bytes Buffer BytesRead bs; Some (Inr (Inr Buffer)) }))"

text \<open>The loop over the clusters. The result says whether the request ended early for want of memory, and
  gives the last status, \<open>BytesRead\<close> and the buffer.\<close>

partial_function (option) read_clusters ::
    "VOLUME \<Rightarrow> u64 \<Rightarrow> u32 \<Rightarrow> u32 \<Rightarrow> u32 \<Rightarrow> VEASTATUS \<Rightarrow> u32 \<Rightarrow> u8 list \<Rightarrow>
     (bool \<times> VEASTATUS \<times> u32 \<times> u8 list \<times> VOLUME) option" where
  "read_clusters s ByteOffset BytesToRead CurrentCluster OffsetInFirstCluster Status BytesRead Buffer =
     (if BytesRead < BytesToRead \<and> \<not> FAT32_IS_EOF CurrentCluster \<and> CurrentCluster \<ge> 2 then (
        let VolumeByteOffset = FAT32_CLUSTER_TO_LBA (Vcb s) CurrentCluster * ucast (BytesPerSector (Vcb s)) + ucast OffsetInFirstCluster;
            BytesAvailableInCluster = BytesPerCluster (Vcb s) - OffsetInFirstCluster;
            ChunkSize = (if BytesToRead - BytesRead > BytesAvailableInCluster then BytesAvailableInCluster else BytesToRead - BytesRead)
        in Option.bind (read_chunk s ByteOffset VolumeByteOffset ChunkSize (unat BytesRead) Buffer) (\<lambda>r.
           case r of
             Inl e \<Rightarrow> Some (True, e, BytesRead, Buffer, s)
           | Inr (Inl e) \<Rightarrow> Some (False, e, BytesRead, Buffer, s)
           | Inr (Inr Buffer) \<Rightarrow>
               if BytesRead + ChunkSize < BytesToRead then
                 Option.bind (FatpGetNextCluster s CurrentCluster) (\<lambda>(r, s).
                   case r of
                     Inl e \<Rightarrow> Some (False, e, BytesRead + ChunkSize, Buffer, s)
                   | Inr CurrentCluster \<Rightarrow>
                       if FAT32_IS_EOF CurrentCluster \<or> CurrentCluster < 2
                       then Some (False, STATUS_SUCCESS, BytesRead + ChunkSize, Buffer, s)
                       else read_clusters s ByteOffset BytesToRead CurrentCluster 0 STATUS_SUCCESS (BytesRead + ChunkSize) Buffer)
               else read_clusters s ByteOffset BytesToRead CurrentCluster 0 STATUS_SUCCESS (BytesRead + ChunkSize) Buffer))
      else Some (False, Status, BytesRead, Buffer, s))"

declare read_clusters.simps [code]

fun skip_clusters :: "VOLUME \<Rightarrow> nat \<Rightarrow> u32 \<Rightarrow> ((VEASTATUS + u32) \<times> VOLUME) option" where
  "skip_clusters s 0 CurrentCluster = Some (Inr CurrentCluster, s)"
| "skip_clusters s (Suc ClustersToSkip) CurrentCluster =
     (if \<not> FAT32_IS_EOF CurrentCluster \<and> CurrentCluster \<ge> 2 then
        (case FatpGetNextCluster s CurrentCluster of
           None \<Rightarrow> None
         | Some (Inl e, s) \<Rightarrow> Some (Inl e, s)
         | Some (Inr CurrentCluster, s) \<Rightarrow> skip_clusters s ClustersToSkip CurrentCluster)
      else Some (Inr CurrentCluster, s))"

definition fail_read :: "READ_RESULT \<Rightarrow> VEASTATUS \<Rightarrow> READ_RESULT" where
  "fail_read Oip e = Oip\<lparr>OipStatus := e, OipInformation := 0\<rparr>"

definition FatpReadFile :: "VOLUME \<Rightarrow> READ_RESULT \<Rightarrow> VEAFAT_FCB \<Rightarrow> u64 \<Rightarrow> u32 \<Rightarrow> (READ_RESULT \<times> VOLUME) option" where
  "FatpReadFile s Oip Fcb ByteOffset Length =
     (if FcbFirstCluster Fcb < 2 \<or> FAT32_IS_EOF (FcbFirstCluster Fcb) then Some (fail_read Oip STATUS_END_OF_FILE, s)
      else if sint ByteOffset \<ge> uint (FcbFileSize Fcb) then Some (fail_read Oip STATUS_END_OF_FILE, s)
      else if BytesPerCluster (Vcb s) = 0 then None
      else (
        let BytesToRead = (if sint (ByteOffset + ucast Length) > uint (FcbFileSize Fcb)
              then ucast (ucast (FcbFileSize Fcb) - ByteOffset) else Length);
            ClustersToSkip = (word_of_int (sint ByteOffset sdiv uint (BytesPerCluster (Vcb s))) :: u32);
            OffsetInFirstCluster = (ucast (smod_u32 ByteOffset (BytesPerCluster (Vcb s))) :: u32)
        in case skip_clusters s (unat ClustersToSkip) (FcbFirstCluster Fcb) of
             None \<Rightarrow> None
           | Some (Inl e, s) \<Rightarrow> Some (fail_read Oip e, s)
           | Some (Inr CurrentCluster, s) \<Rightarrow>
             if FAT32_IS_EOF CurrentCluster \<or> CurrentCluster < 2 then Some (fail_read Oip STATUS_END_OF_FILE, s)
             else (case read_clusters s ByteOffset BytesToRead CurrentCluster OffsetInFirstCluster STATUS_SUCCESS 0 (UserBuffer Oip) of
               None \<Rightarrow> None
             | Some (True, e, n, Buffer, s) \<Rightarrow> Some (Oip\<lparr>OipStatus := e, UserBuffer := Buffer\<rparr>, s)
             | Some (False, e, n, Buffer, s) \<Rightarrow>
                 Some (Oip\<lparr>OipStatus := (if n > 0 then STATUS_SUCCESS else e), OipInformation := n, UserBuffer := Buffer,
                   CcbByteOffset := ucast (ByteOffset + ucast n)\<rparr>, s))))"

definition FatMjRead :: "VOLUME \<Rightarrow> READ_RESULT \<Rightarrow> VEAFAT_FCB \<Rightarrow> u64 \<Rightarrow> u32 \<Rightarrow> (READ_RESULT \<times> VOLUME) option" where
  "FatMjRead s Oip Fcb ByteOffset Length =
     (if Length = 0 then Some (fail_read Oip STATUS_SUCCESS, s)
      else if sint ByteOffset \<ge> uint (FcbFileSize Fcb) then Some (fail_read Oip STATUS_END_OF_FILE, s)
      else FatpReadFile s Oip Fcb ByteOffset Length)"

section \<open>Sectors\<close>

abbreviation "bsize s \<equiv> unat (BytesPerSector (Vcb s))"
abbreviation "csize s \<equiv> unat (BytesPerCluster (Vcb s))"

definition sec :: "VOLUME \<Rightarrow> u64 \<Rightarrow> u8 list" where
  "sec s x = (case Disk s x of Inr bs \<Rightarrow> bs | Inl e \<Rightarrow> [])"

definition sectors :: "VOLUME \<Rightarrow> u64 \<Rightarrow> nat \<Rightarrow> u8 list" where
  "sectors s x n = concat (map (\<lambda>i. sec s (x + of_nat i * ucast (BytesPerSector (Vcb s)))) [0..<n])"

definition cluster_at :: "VOLUME \<Rightarrow> u32 \<Rightarrow> u64" where
  "cluster_at s c = FAT32_CLUSTER_TO_LBA (Vcb s) c * ucast (BytesPerSector (Vcb s))"

definition cluster_data :: "VOLUME \<Rightarrow> u32 \<Rightarrow> u8 list" where
  "cluster_data s c = sectors s (cluster_at s c) (unat (SectorsPerCluster (Vcb s)))"

lemma cluster_size:
  assumes "volume_ok s"
  shows "csize s = bsize s * unat (SectorsPerCluster (Vcb s))" "0 < csize s" "csize s < 2 ^ 20"
    "bsize s dvd csize s"
proof -
  have "bsize s * unat (SectorsPerCluster (Vcb s)) \<le> 4096 * 255"
    using sector_size(2) [OF assms] volume_okD(5) [OF assms] by (intro mult_mono) auto
  then show e: "csize s = bsize s * unat (SectorsPerCluster (Vcb s))" "csize s < 2 ^ 20"
    using volume_okD(4) [OF assms] by (simp_all add: unat_mult_lt)
  show "0 < csize s" using e(1) sector_size(1) [OF assms] volume_okD(2) [OF assms] by simp
  show "bsize s dvd csize s" using e(1) by simp
qed

lemma length_sec: "volume_ok s \<Longrightarrow> disk_works s \<Longrightarrow> length (sec s x) = bsize s"
  using volume_okD(10) [of s x] by (auto simp: disk_works_def sec_def split: sum.splits) (metis sum.distinct(1))

lemma length_sectors: "volume_ok s \<Longrightarrow> disk_works s \<Longrightarrow> length (sectors s x n) = n * bsize s"
  by (induction n) (auto simp: sectors_def length_sec)

lemma length_cluster_data: "volume_ok s \<Longrightarrow> disk_works s \<Longrightarrow> length (cluster_data s c) = csize s"
  by (simp add: cluster_data_def length_sectors cluster_size(1))

lemma sectors_Suc: "sectors s x (Suc n) = sec s x @ sectors s (x + ucast (BytesPerSector (Vcb s))) n"
proof -
  have "[0..<Suc n] = 0 # map Suc [0..<n]" by (simp add: upt_conv_Cons map_Suc_upt del: upt_Suc)
  then show ?thesis by (simp add: sectors_def o_def algebra_simps del: upt_Suc)
qed

lemma device_read_ok:
  assumes "disk_works s"
  shows "device_read (Disk s) (BytesPerSector (Vcb s)) x n = Inr (sectors s x n)"
proof (induction n arbitrary: x)
  case 0
  then show ?case by (simp add: sectors_def)
next
  case (Suc n)
  obtain bs where "Disk s x = Inr bs" using assms by (auto simp: disk_works_def)
  then show ?case by (simp add: Suc sectors_Suc sec_def)
qed

lemma sectors_add: "sectors s x (j + n) = sectors s x j @ sectors s (x + of_nat j * ucast (BytesPerSector (Vcb s))) n"
proof (induction j arbitrary: x)
  case (Suc j)
  show ?case using Suc [of "x + ucast (BytesPerSector (Vcb s))"] by (simp add: sectors_Suc algebra_simps)
qed (simp add: sectors_def)

lemma sectors_sub:
  assumes "volume_ok s" "disk_works s" "j + n \<le> m"
  shows "sectors s (x + of_nat j * ucast (BytesPerSector (Vcb s))) n = take (n * bsize s) (drop (j * bsize s) (sectors s x m))"
proof -
  have "sectors s x m = sectors s x (j + n) @ sectors s (x + of_nat (j + n) * ucast (BytesPerSector (Vcb s))) (m - (j + n))"
    using sectors_add [of s x "j + n" "m - (j + n)"] assms(3) by simp
  then show ?thesis
    unfolding sectors_add [of s x j n] using length_sectors [OF assms(1,2)] by simp
qed

section \<open>The arithmetic of a chunk\<close>

lemma sint_small: "unat (x :: u64) < 2 ^ 63 \<Longrightarrow> sint x = int (unat x)"
proof -
  assume "unat x < 2 ^ 63"
  then have "int (unat x) < int (2 ^ 63)" by (subst of_nat_less_iff)
  then have "uint x < 2 ^ 63" unfolding of_nat_unat by simp
  then show ?thesis using sint_u64 [of x] unfolding of_nat_unat by presburger
qed

lemma smod_u32_unat:
  assumes "unat x < 2 ^ 63" "z \<noteq> 0"
  shows "unat (smod_u32 x z) = unat x mod unat z"
proof -
  have "sint x = int (unat x)" using assms(1) by (rule sint_small)
  then have "sint x smod uint z = int (unat x mod unat z)"
    unfolding uint_nat by (simp add: signed_modulo_int_def sgn_if zmod_int del: of_nat_unat)
  then show ?thesis
    unfolding smod_u32_def using assms(1) mod_less_eq_dividend [of "unat x" "unat z"]
    by (simp add: unat_of_nat_lt del: mod_less_eq_dividend)
qed

lemma ALIGN_DOWN_BY_unat:
  assumes "z \<in> {512, 1024, 2048, 4096}"
  shows "unat (ALIGN_DOWN_BY x z) = unat x div unat z * unat z"
proof -
  obtain k where k: "z = 2 ^ k" "k < 32" "unat z = 2 ^ k"
    using assms by (elim insertE) (auto intro: that [of 9] that [of 10] that [of 11] that [of 12])
  have "ALIGN_DOWN_BY x z = push_bit k (drop_bit k x)"
    unfolding ALIGN_DOWN_BY_def k(1) mask_eq_exp_minus_1 [symmetric]
    by (rule bit_eqI) (auto simp: bit_simps)
  moreover have "unat (push_bit k (drop_bit k x)) = unat (drop_bit k x) * 2 ^ k"
  proof -
    have "push_bit k (drop_bit k x) = drop_bit k x * 2 ^ k" by (simp add: push_bit_eq_mult)
    moreover have "unat (drop_bit k x) * 2 ^ k \<le> unat x" by (simp add: unat_drop_bit)
    ultimately show ?thesis using k(2,3) k(1) unat_lt_u32 [of x]
      by (metis (mono_tags, lifting) le_less_trans len_num1 unat_mult_lt unsigned_less)
  qed
  ultimately show ?thesis by (simp add: unat_drop_bit k(3))
qed

section \<open>One chunk\<close>

text \<open>Volumes whose last byte is below 4 GB.\<close>

definition below_4gb :: "VOLUME \<Rightarrow> bool" where
  "below_4gb s \<longleftrightarrow> (unat (DataStartLba (Vcb s)) + unat (TotalClusters (Vcb s)) * unat (SectorsPerCluster (Vcb s))) * bsize s \<le> 2 ^ 32"

lemma cluster_at_unat:
  assumes "volume_ok s" "is_cluster s c"
  shows "unat (cluster_at s c) = (unat (DataStartLba (Vcb s)) + (unat c - 2) * unat (SectorsPerCluster (Vcb s))) * bsize s"
    and "unat (cluster_at s c) + csize s \<le>
      (unat (DataStartLba (Vcb s)) + unat (TotalClusters (Vcb s)) * unat (SectorsPerCluster (Vcb s))) * bsize s"
    and "unat (cluster_at s c) + csize s < 2 ^ 45"
proof -
  let ?p = "unat (SectorsPerCluster (Vcb s))" and ?d = "unat (DataStartLba (Vcb s))" and ?t = "unat (TotalClusters (Vcb s))"
  have c2: "unat (c - 2) = unat c - 2" using assms(2) by (subst unat_sub_le) (simp_all add: is_cluster_def word_le_nat_alt)
  have le: "(unat c - 2 + 1) * ?p \<le> ?t * ?p" using assms(2) by (intro mult_right_mono) (auto simp: is_cluster_def)
  have b: "?d + ?t * ?p < 2 ^ 32" using volume_okD(7) [OF assms(1)] .
  have m: "unat (ucast (c - 2) * ucast (SectorsPerCluster (Vcb s)) :: u64) = (unat c - 2) * ?p"
    using le b by (subst unat_mult_lt) (simp_all add: unat_ucast_up c2)
  have l: "unat (FAT32_CLUSTER_TO_LBA (Vcb s) c) = ?d + (unat c - 2) * ?p"
    unfolding FAT32_CLUSTER_TO_LBA_def using le b by (subst unat_add_lt) (simp_all add: m)
  have lt: "(?d + (unat c - 2) * ?p) + ?p \<le> ?d + ?t * ?p" using le by simp
  have top: "(?d + ?t * ?p) * bsize s \<le> 2 ^ 32 * 4096" using b sector_size(2) [OF assms(1)] by (intro mult_mono) auto
  have all: "(?d + (unat c - 2) * ?p) * bsize s + csize s \<le> (?d + ?t * ?p) * bsize s"
  proof -
    have "((?d + (unat c - 2) * ?p) + ?p) * bsize s \<le> (?d + ?t * ?p) * bsize s" using lt by (rule mult_right_mono) simp
    then show ?thesis using cluster_size(1) [OF assms(1)] by (simp add: algebra_simps)
  qed
  show u: "unat (cluster_at s c) = (?d + (unat c - 2) * ?p) * bsize s"
    unfolding cluster_at_def using all top l by (subst unat_mult_lt) (simp_all add: unat_ucast_up)
  show "unat (cluster_at s c) + csize s \<le> (?d + ?t * ?p) * bsize s" using all u by simp
  then show "unat (cluster_at s c) + csize s < 2 ^ 45" using top by simp
qed

lemma take_drop_window:
  assumes "o' + k \<le> m"
  shows "take k (drop o' (take m (drop p xs))) = take k (drop (p + o') xs)"
  using assms by (simp add: drop_take min_absorb1 add.commute)

lemma mod_window:
  assumes "0 < (b :: nat)"
  shows "o' mod b + k \<le> (k + o' mod b + b - 1) div b * b" "k \<le> (k + o' mod b + b - 1) div b * b"
proof -
  have "(k + o' mod b + b - 1) mod b < b" using assms by simp
  moreover have "k + o' mod b + b - 1 = (k + o' mod b + b - 1) div b * b + (k + o' mod b + b - 1) mod b" by simp
  ultimately show "o' mod b + k \<le> (k + o' mod b + b - 1) div b * b" by linarith
  then show "k \<le> (k + o' mod b + b - 1) div b * b" by simp
qed

lemma sector_window_fits:
  assumes "0 < (b :: nat)" "o' + k \<le> b * p"
  shows "o' div b + (k + o' mod b + b - 1) div b \<le> p"
proof -
  define y where "y = k + o' mod b + b - 1"
  have "o' div b * b + o' mod b + k \<le> p * b" using assms(2) unfolding div_mult_mod_eq by (simp only: mult.commute)
  then have "o' div b * b + y < (p + 1) * b" using assms(1) by (simp add: y_def)
  then have "(o' div b * b + y) div b < p + 1" by (rule less_mult_imp_div_less)
  moreover have "(o' div b * b + y) div b = o' div b + y div b" using assms(1) by simp
  ultimately show ?thesis by (simp add: y_def)
qed

lemma size_word: "volume_ok s \<Longrightarrow> BytesPerSector (Vcb s) \<in> {512, 1024, 2048, 4096}"
  using volume_okD(1) [of s] by (auto simp: word_unat_eq_iff)

lemma rest_unat:
  fixes o' :: u32
  assumes "volume_ok s" "is_cluster s c" "unat o' < csize s"
  shows "unat (cluster_at s c + ucast o') = unat (cluster_at s c) + unat o'"
    "unat (smod_u32 (cluster_at s c + ucast o') (BytesPerSector (Vcb s))) = unat o' mod bsize s"
    "smod_u32 (cluster_at s c + ucast o') (BytesPerSector (Vcb s)) = 0 \<longleftrightarrow> unat o' mod bsize s = 0"
proof -
  have B: "unat (cluster_at s c) + csize s < 2 ^ 45" using cluster_at_unat(3) [OF assms(1,2)] .
  have d: "bsize s dvd unat (cluster_at s c)" using cluster_at_unat(1) [OF assms(1,2)] by simp
  show a: "unat (cluster_at s c + ucast o') = unat (cluster_at s c) + unat o'"
    using B assms(3) by (subst unat_add_lt) (simp_all add: unat_ucast_up)
  show b: "unat (smod_u32 (cluster_at s c + ucast o') (BytesPerSector (Vcb s))) = unat o' mod bsize s"
    using smod_u32_unat [of "cluster_at s c + ucast o'" "BytesPerSector (Vcb s)"] a B assms(3) sector_size(5) [OF assms(1)] d
    by (auto elim!: dvdE)
  show "smod_u32 (cluster_at s c + ucast o') (BytesPerSector (Vcb s)) = 0 \<longleftrightarrow> unat o' mod bsize s = 0"
    using b by (metis unat_eq_zero)
qed

lemma mod_word_zero: "k mod z = 0 \<longleftrightarrow> unat k mod unat (z :: u32) = 0"
  by (simp only: word_unat_eq_iff unat_mod_distrib unsigned_0)

text \<open>Through the bounce buffer: the sectors are read at the address modulo 4 GB, and the bytes are taken from
  the place of the first byte of the whole range in its sector.\<close>

definition bounce_sectors :: "VOLUME \<Rightarrow> nat \<Rightarrow> nat \<Rightarrow> nat" where
  "bounce_sectors s o' k = (k + o' mod bsize s + bsize s - 1) div bsize s"

lemma read_chunk_bounce:
  fixes o' k :: u32
  assumes v: "volume_ok s" "disk_works s" "0 < PoolFree s" "is_cluster s c"
    and o: "unat o' + unat k \<le> csize s" "unat o' < csize s"
    and part: "unat k mod bsize s \<noteq> 0 \<or> unat o' mod bsize s \<noteq> 0" and off: "unat off < 2 ^ 63"
  shows "read_chunk s off (cluster_at s c + ucast o') k r buf =
    Option.bind (get_bytes (sectors s (of_nat ((unat (cluster_at s c) + unat o') mod 2 ^ 32 div bsize s * bsize s))
        (bounce_sectors s (unat o') (unat k))) (unat off mod bsize s) (unat k))
      (\<lambda>bs. Option.bind (put_bytes buf r bs) (\<lambda>buf. Some (Inr (Inr buf))))"
proof -
  let ?b = "bsize s" and ?B = "unat (cluster_at s c)" and ?z = "BytesPerSector (Vcb s)"
  have b: "0 < ?b" "?b \<le> 4096" "?z \<noteq> 0" using sector_size [OF v(1)] by auto
  have z: "sector_bytes s = ?z" using b(3) by (simp add: sector_bytes_def)
  note zin = size_word [OF v(1)]
  have bounce: "k mod ?z \<noteq> 0 \<or> smod_u32 (cluster_at s c + ucast o') ?z \<noteq> 0"
    using part unfolding mod_word_zero rest_unat(3) [OF v(1,4) o(2)] .
  let ?n = "bounce_sectors s (unat o') (unat k)"
  have om: "unat k + unat o' mod ?b < 2 ^ 20"
    using o(1) cluster_size(3) [OF v(1)] mod_less_eq_dividend [of "unat o'" ?b] by linarith
  have len: "unat (ALIGN_UP_BY (ucast (ucast k + smod_u32 (cluster_at s c + ucast o') ?z)) ?z) = ?n * ?b"
  proof -
    let ?x = "ucast (ucast k + smod_u32 (cluster_at s c + ucast o') ?z) :: u32"
    have 1: "unat (ucast k + smod_u32 (cluster_at s c + ucast o') ?z) = unat k + unat o' mod ?b"
      using om by (subst unat_add_lt) (simp_all add: unat_ucast_up rest_unat(2) [OF v(1,4) o(2)])
    have 2: "unat ?x = unat k + unat o' mod ?b" using om by (subst unat_ucast_lt) (simp_all add: 1)
    have 3: "unat (?x + ?z) = unat k + unat o' mod ?b + ?b" using om b(2) by (subst unat_add_lt) (simp_all add: 2)
    have 4: "unat (?x + ?z - 1) = unat k + unat o' mod ?b + ?b - 1"
      using 3 b(1) by (subst unat_sub_le) (simp_all add: word_le_nat_alt)
    show ?thesis unfolding ALIGN_UP_BY_def ALIGN_DOWN_BY_unat [OF zin] 4 bounce_sectors_def ..
  qed
  then have cnt: "unat (ALIGN_UP_BY (ucast (ucast k + smod_u32 (cluster_at s c + ucast o') ?z)) ?z div ?z) = ?n"
    using b(1) by (simp add: unat_div_distrib)
  have start: "(ucast (ALIGN_DOWN_BY (ucast (cluster_at s c + ucast o')) ?z) :: u64) =
      of_nat ((?B + unat o') mod 2 ^ 32 div ?b * ?b)"
  proof -
    have 1: "unat (ucast (cluster_at s c + ucast o') :: u32) = (?B + unat o') mod 2 ^ 32"
      using rest_unat(1) [OF v(1,4) o(2)] by (simp add: unsigned_ucast_eq take_bit_eq_mod)
    have 2: "(?B + unat o') mod 2 ^ 32 div ?b * ?b < 2 ^ 64"
    proof -
      have "(?B + unat o') mod 2 ^ 32 div ?b * ?b \<le> (?B + unat o') mod 2 ^ 32" by simp
      also have "\<dots> < 2 ^ 32" by simp
      finally show ?thesis by simp
    qed
    then have "unat (of_nat ((?B + unat o') mod 2 ^ 32 div ?b * ?b) :: u64) = (?B + unat o') mod 2 ^ 32 div ?b * ?b"
      by (intro unat_of_nat_lt) simp
    then show ?thesis
      unfolding word_unat_eq_iff unat_ucast_up ALIGN_DOWN_BY_unat [OF zin] 1 by simp
  qed
  have so: "unat (ucast (smod_u32 off ?z) :: u32) = unat off mod ?b"
    using smod_u32_unat [OF off b(3)] b(2) mod_less_divisor [OF b(1), of "unat off"]
    by (subst unat_ucast_lt) simp_all
  have tp: "\<exists>t. take_pool s = Some t" using v(3) by (simp add: take_pool_def)
  show ?thesis
    unfolding read_chunk_def Let_def z if_P [OF bounce] cnt start device_read_ok [OF v(2)] so sum.case
    using tp by auto
qed

lemma read_chunk_ok:
  fixes o' k :: u32
  assumes v: "volume_ok s" "disk_works s" "below_4gb s" "0 < PoolFree s" "is_cluster s c"
    and o: "unat o' + unat k \<le> csize s" "0 < unat k" "unat o' < csize s"
    and al: "unat o' mod bsize s = unat off mod bsize s \<or> unat o' mod bsize s = 0 \<and> unat k mod bsize s = 0"
    and off: "unat off < 2 ^ 63" and r: "r + unat k \<le> length buf"
  shows "read_chunk s off (cluster_at s c + ucast o') k r buf =
    Some (Inr (Inr (take r buf @ take (unat k) (drop (unat o') (cluster_data s c)) @ drop (r + unat k) buf)))"
proof -
  let ?b = "bsize s" and ?B = "unat (cluster_at s c)" and ?z = "BytesPerSector (Vcb s)"
  let ?D = "cluster_data s c"
  have b: "0 < ?b" "?b \<le> 4096" "?z \<noteq> 0" using sector_size [OF v(1)] by auto
  have z: "sector_bytes s = ?z" using b(3) by (simp add: sector_bytes_def)
  have B4: "?B + csize s \<le> 2 ^ 32" using cluster_at_unat(2) [OF v(1,5)] v(3) by (simp add: below_4gb_def)
  have cs: "csize s = ?b * unat (SectorsPerCluster (Vcb s))" using cluster_size [OF v(1)] by auto
  have lenD: "length ?D = csize s" using length_cluster_data v by blast
  have put: "put_bytes buf r (take (unat k) (drop (unat o') ?D)) =
      Some (take r buf @ take (unat k) (drop (unat o') ?D) @ drop (r + unat k) buf)"
    using r o(1) lenD by (simp add: put_bytes_def)
  have sub: "sectors s (cluster_at s c + of_nat (unat o' div ?b) * ucast ?z) n = take (n * ?b) (drop (unat o' div ?b * ?b) ?D)"
    if "unat o' div ?b + n \<le> unat (SectorsPerCluster (Vcb s))" for n
    unfolding cluster_data_def using sectors_sub v(1,2) that by blast
  have mul: "(of_nat (unat o' div ?b) * ucast ?z :: u64) = of_nat (unat o' div ?b * ?b)" by simp
  show ?thesis
  proof (cases "unat k mod ?b = 0 \<and> unat o' mod ?b = 0")
    case True
    have o0: "unat o' div ?b * ?b = unat o'" using True by auto
    have kd: "unat k div ?b * ?b = unat k" using True by auto
    have "(unat o' div ?b + unat k div ?b) * ?b = unat o' + unat k" unfolding distrib_right o0 kd ..
    then have "(unat o' div ?b + unat k div ?b) * ?b \<le> unat (SectorsPerCluster (Vcb s)) * ?b"
      using o(1) unfolding cs by (simp only: mult.commute)
    then have fit: "unat o' div ?b + unat k div ?b \<le> unat (SectorsPerCluster (Vcb s))" using b(1) by simp
    have "(of_nat (unat o' div ?b) * ucast ?z :: u64) = ucast o'" unfolding mul o0 by simp
    then have "sectors s (cluster_at s c + ucast o') (unat (k div ?z)) = take (unat k) (drop (unat o') ?D)"
      using sub [OF fit] o0 kd by (simp add: unat_div_distrib)
    moreover have "\<not> (k mod ?z \<noteq> 0 \<or> smod_u32 (cluster_at s c + ucast o') ?z \<noteq> 0)"
      unfolding mod_word_zero rest_unat(3) [OF v(1,5) o(3)] using True by simp
    ultimately show ?thesis
      using put device_read_ok [OF v(2)] unfolding read_chunk_def Let_def z by simp
  next
    case False
    then have part: "unat k mod ?b \<noteq> 0 \<or> unat o' mod ?b \<noteq> 0" by simp
    have al': "unat off mod ?b = unat o' mod ?b" using al False by auto
    let ?n = "bounce_sectors s (unat o') (unat k)"
    have fit: "unat o' div ?b + ?n \<le> unat (SectorsPerCluster (Vcb s))"
      unfolding bounce_sectors_def using sector_window_fits [OF b(1)] o(1) cs by simp
    have start: "of_nat ((?B + unat o') mod 2 ^ 32 div ?b * ?b) = cluster_at s c + of_nat (unat o' div ?b) * ucast ?z"
    proof -
      have 1: "(?B + unat o') mod 2 ^ 32 = ?B + unat o'" using B4 o(3) by (intro mod_less) linarith
      have 2: "(?B + unat o') div ?b * ?b = ?B + unat o' div ?b * ?b"
      proof -
        obtain q where q: "?B = q * ?b" using cluster_at_unat(1) [OF v(1,5)] by blast
        show ?thesis unfolding q using b(1) by (simp add: distrib_right)
      qed
      show ?thesis unfolding 1 2 mul of_nat_add by simp
    qed
    have w: "unat o' mod ?b + unat k \<le> ?n * ?b" unfolding bounce_sectors_def using mod_window(1) [OF b(1)] .
    have lw: "length (take (?n * ?b) (drop (unat o' div ?b * ?b) ?D)) = ?n * ?b"
    proof -
      have "(unat o' div ?b + ?n) * ?b \<le> csize s" using fit cs by (metis mult.commute mult_le_mono1)
      then show ?thesis using lenD by (simp add: distrib_right)
    qed
    have get: "get_bytes (take (?n * ?b) (drop (unat o' div ?b * ?b) ?D)) (unat o' mod ?b) (unat k) = Some (take (unat k) (drop (unat o') ?D))"
      unfolding get_bytes_def lw using w take_drop_window [OF w, of "unat o' div ?b * ?b" ?D] by simp
    show ?thesis
      unfolding read_chunk_bounce [OF v(1,2,4,5) o(1,3) part off] start sub [OF fit] al' get using put by simp
  qed
qed

section \<open>Files\<close>

text \<open>The first clusters of a chain, as far as they are clusters of the volume, and what they hold.\<close>

fun chain :: "VOLUME \<Rightarrow> nat \<Rightarrow> u32 \<Rightarrow> u32 list" where
  "chain s 0 c = []"
| "chain s (Suc n) c = (if is_cluster s c then c # chain s n (next_cluster s c) else [])"

definition chain_data :: "VOLUME \<Rightarrow> nat \<Rightarrow> u32 \<Rightarrow> u8 list" where
  "chain_data s n c = concat (map (cluster_data s) (chain s n c))"

lemma chain_data_Suc: "is_cluster s c \<Longrightarrow> chain_data s (Suc n) c = cluster_data s c @ chain_data s n (next_cluster s c)"
  by (simp add: chain_data_def)

lemma length_chain_le: "length (chain s n c) \<le> n"
  by (induction s n c rule: chain.induct) auto

lemma chain_full_Suc: "length (chain s (Suc n) c) = Suc n \<longleftrightarrow> is_cluster s c \<and> length (chain s n (next_cluster s c)) = n"
  by auto

lemma length_chain_data:
  assumes "volume_ok s" "disk_works s" "length (chain s n c) = n"
  shows "length (chain_data s n c) = n * csize s"
  using assms(3)
proof (induction n arbitrary: c)
  case (Suc n)
  then have "is_cluster s c" "length (chain s n (next_cluster s c)) = n" unfolding chain_full_Suc by auto
  then show ?case using Suc.IH length_cluster_data [OF assms(1,2)] by (simp add: chain_data_Suc)
qed (simp add: chain_data_def)

lemma get_next:
  assumes "volume_ok s" "disk_works s" "0 < PoolFree s" "is_cluster s c"
  shows "FatpGetNextCluster s c = Some (Inr (next_cluster s c), s)"
proof -
  obtain bs where "Disk s (sector_at s (FatSectorLba (Vcb s) c)) = Inr bs" using assms(2) by (auto simp: disk_works_def)
  then show ?thesis using FatpGetNextCluster_ok assms by blast
qed

lemma skip_clusters_ok:
  assumes "volume_ok s" "disk_works s" "0 < PoolFree s" "length (chain s (m + j) c) = m + j"
  shows "skip_clusters s m c = Some (Inr ((next_cluster s ^^ m) c), s)"
    "length (chain s j ((next_cluster s ^^ m) c)) = j"
    "chain_data s (m + j) c = chain_data s m c @ chain_data s j ((next_cluster s ^^ m) c)"
    "length (chain s m c) = m"
  using assms(4)
proof (induction m arbitrary: c)
  case (Suc m)
  case 1
  then have c: "is_cluster s c" "length (chain s (m + j) (next_cluster s c)) = m + j" by (auto split: if_splits)
  then show ?case using Suc.IH(1) [OF c(2)] get_next [OF assms(1-3) c(1)] is_cluster_word [OF assms(1) c(1)]
    by (simp add: funpow_swap1)
next
  case (Suc m)
  case 2
  then have c: "length (chain s (m + j) (next_cluster s c)) = m + j" by (auto split: if_splits)
  show ?case using Suc.IH(2) [OF c] by (simp add: funpow_swap1)
next
  case (Suc m)
  case 3
  then have c: "is_cluster s c" "length (chain s (m + j) (next_cluster s c)) = m + j" by (auto split: if_splits)
  then show ?case using Suc.IH(3) [OF c(2)] by (simp add: chain_data_Suc funpow_swap1)
next
  case (Suc m)
  case 4
  then have c: "is_cluster s c" "length (chain s (m + j) (next_cluster s c)) = m + j" by (auto split: if_splits)
  then show ?case using Suc.IH(4) [OF c(2)] by simp
qed (simp_all add: chain_data_def)

section \<open>The loop over the clusters\<close>

lemma read_clusters_end:
  "\<not> r < t \<Longrightarrow> read_clusters s off t c o' st r buf = Some (False, st, r, buf, s)"
  by (subst read_clusters.simps) simp

lemma read_clusters_step:
  assumes "volume_ok s" "disk_works s" "0 < PoolFree s" "is_cluster s c" "r < t"
    and k: "k = (if t - r > BytesPerCluster (Vcb s) - o' then BytesPerCluster (Vcb s) - o' else t - r)"
  shows "read_clusters s off t c o' st r buf =
    Option.bind (read_chunk s off (cluster_at s c + ucast o') k (unat r) buf) (\<lambda>q. case q of
       Inl e \<Rightarrow> Some (True, e, r, buf, s)
     | Inr (Inl e) \<Rightarrow> Some (False, e, r, buf, s)
     | Inr (Inr buf) \<Rightarrow>
         if r + k < t then
           if FAT32_IS_EOF (next_cluster s c) \<or> next_cluster s c < 2 then Some (False, STATUS_SUCCESS, r + k, buf, s)
           else read_clusters s off t (next_cluster s c) 0 STATUS_SUCCESS (r + k) buf
         else Some (False, STATUS_SUCCESS, r + k, buf, s))"
proof -
  have cw: "\<not> FAT32_IS_EOF c \<and> c \<ge> 2" using is_cluster_word [OF assms(1,4)] by simp
  show ?thesis
    unfolding read_clusters.simps [of s off t c o' st r buf] Let_def cluster_at_def [symmetric] k [symmetric]
      get_next [OF assms(1-4)]
    using assms(5) cw
    by (cases "read_chunk s off (cluster_at s c + ucast o') k (unat r) buf") (auto simp: read_clusters_end split: sum.splits)
qed

lemma chunk_len:
  assumes "r < t" "unat o' < csize s"
    and "k = (if t - r > BytesPerCluster (Vcb s) - o' then BytesPerCluster (Vcb s) - o' else t - r)"
  shows "unat k = min (unat t - unat r) (csize s - unat o')" "unat (r + k) = unat r + unat k" "0 < unat k"
proof -
  have rt: "unat r < unat t" using assms(1) by (simp add: word_less_nat_alt)
  have u: "unat (t - r) = unat t - unat r" "unat (BytesPerCluster (Vcb s) - o') = csize s - unat o'"
    using assms(1,2) rt by (auto intro!: unat_sub_le simp: word_le_nat_alt)
  show k: "unat k = min (unat t - unat r) (csize s - unat o')" unfolding assms(3) by (simp add: word_less_nat_alt u)
  show "unat (r + k) = unat r + unat k" using k rt unat_lt_u32 [of t] by (subst unat_add_lt) auto
  show "0 < unat k" using k rt assms(2) by simp
qed

lemma drop_over: "length a = r \<Longrightarrow> length b = k \<Longrightarrow> r + k \<le> t \<Longrightarrow> drop t (a @ b @ drop (r + k) buf) = drop t buf"
  by simp

lemma read_clusters_ok:
  fixes o' :: u32
  assumes v: "volume_ok s" "disk_works s" "below_4gb s" "0 < PoolFree s" and off: "unat off < 2 ^ 63"
    and ch: "length (chain s n c) = n" "r < t" "unat o' < csize s" "unat o' + (unat t - unat r) \<le> n * csize s"
    and al: "unat o' mod bsize s = unat off mod bsize s \<or> unat o' mod bsize s = 0 \<and> (unat t - unat r) mod bsize s = 0"
      "unat off mod bsize s = 0 \<or> unat o' + (unat t - unat r) \<le> csize s \<or> (unat o' + (unat t - unat r)) mod bsize s = 0"
    and buf: "unat t \<le> length buf"
  shows "read_clusters s off t c o' st r buf = Some (False, STATUS_SUCCESS, t,
    take (unat r) buf @ take (unat t - unat r) (drop (unat o') (chain_data s n c)) @ drop (unat t) buf, s)"
  using ch al buf
proof (induction n arbitrary: c o' r buf st)
  case 0
  then show ?case by (simp add: word_less_nat_alt)
next
  case (Suc m)
  let ?b = "bsize s" and ?z = "csize s" and ?w = "unat t - unat r" and ?D = "cluster_data s c"
  let ?next = "next_cluster s c"
  have c: "is_cluster s c" "length (chain s m ?next) = m" using Suc.prems(1) unfolding chain_full_Suc by auto
  have rt: "unat r < unat t" using Suc.prems(2) by (simp add: word_less_nat_alt)
  define k where "k = (if t - r > BytesPerCluster (Vcb s) - o' then BytesPerCluster (Vcb s) - o' else t - r)"
  note kk = chunk_len [OF Suc.prems(2,3) k_def]
  have k: "unat k = min ?w (?z - unat o')" and rk: "unat (r + k) = unat r + unat k" using kk by auto
  have bz: "?b dvd ?z" using cluster_size [OF v(1)] by simp
  have kal: "unat o' mod ?b = unat off mod ?b \<or> unat o' mod ?b = 0 \<and> unat k mod ?b = 0"
  proof -
    have "(?z - unat o') mod ?b = 0" if "unat o' mod ?b = 0" using that bz by (simp add: dvd_diff_nat mod_eq_0_iff_dvd)
    then show ?thesis using Suc.prems(5) unfolding k min_def by auto
  qed
  have ok: "unat o' + unat k \<le> ?z" "0 < unat k" "unat r + unat k \<le> length buf"
    using k Suc.prems(3,7) rt by auto
  let ?buf = "take (unat r) buf @ take (unat k) (drop (unat o') ?D) @ drop (unat r + unat k) buf"
  have chunk: "read_chunk s off (cluster_at s c + ucast o') k (unat r) buf = Some (Inr (Inr ?buf))"
    by (rule read_chunk_ok) (use v c ok kal off Suc.prems(3) in auto)
  have lD: "length ?D = ?z" using length_cluster_data v by blast
  have lb: "length ?buf = length buf" "length (take (unat k) (drop (unat o') ?D)) = unat k" using ok lD Suc.prems(7) by auto
  have dat: "chain_data s (Suc m) c = ?D @ chain_data s m ?next" using c(1) by (rule chain_data_Suc)
  have unf: "read_clusters s off t c o' st r buf =
     (if r + k < t then
        if FAT32_IS_EOF ?next \<or> ?next < 2 then Some (False, STATUS_SUCCESS, r + k, ?buf, s)
        else read_clusters s off t ?next 0 STATUS_SUCCESS (r + k) ?buf
      else Some (False, STATUS_SUCCESS, r + k, ?buf, s))"
    unfolding read_clusters_step [OF v(1,2,4) c(1) Suc.prems(2) k_def] chunk by simp
  show ?case
  proof (cases "?w \<le> ?z - unat o'")
    case True
    then have kw: "unat k = ?w" using k by simp
    then have "unat (r + k) = unat t" using rk rt by simp
    then have e: "r + k = t" by (simp add: word_unat_eq_iff)
    have "take ?w (drop (unat o') (chain_data s (Suc m) c)) = take ?w (drop (unat o') ?D)"
      using True lD Suc.prems(3) by (simp add: dat)
    then show ?thesis unfolding unf e using kw rt by simp
  next
    case False
    then have kz: "unat k = ?z - unat o'" using k by simp
    have lt: "r + k < t" using rk kz False by (simp add: word_less_nat_alt)
    have m: "0 < m" using Suc.prems(4) False by (cases m) auto
    then have cn: "is_cluster s ?next" using c(2) by (cases m) (auto split: if_splits)
    have cnw: "\<not> (FAT32_IS_EOF ?next \<or> ?next < 2)" using is_cluster_word [OF v(1) cn] by auto
    have w: "unat t - unat (r + k) = unat o' + ?w - ?z" using rk kz False Suc.prems(3) by simp
    have wb: "(unat o' + ?w) mod ?b = 0 \<Longrightarrow> (unat o' + ?w - ?z) mod ?b = 0"
      unfolding mod_eq_0_iff_dvd using dvd_diff_nat [OF _ bz] .
    have "read_clusters s off t ?next 0 STATUS_SUCCESS (r + k) ?buf = Some (False, STATUS_SUCCESS, t,
      take (unat (r + k)) ?buf @ take (unat t - unat (r + k)) (drop (unat (0::u32)) (chain_data s m ?next)) @ drop (unat t) ?buf, s)"
    proof (rule Suc.IH)
      show "length (chain s m ?next) = m" "r + k < t" using c(2) lt by auto
      show "unat (0::u32) < ?z" using cluster_size(2) [OF v(1)] by simp
      show "unat (0::u32) + (unat t - unat (r + k)) \<le> m * ?z" unfolding w using Suc.prems(4) by simp
      show "unat (0::u32) mod ?b = unat off mod ?b \<or> unat (0::u32) mod ?b = 0 \<and> (unat t - unat (r + k)) mod ?b = 0"
        unfolding w using Suc.prems(6) wb False by auto
      show "unat off mod ?b = 0 \<or> unat (0::u32) + (unat t - unat (r + k)) \<le> ?z \<or> (unat (0::u32) + (unat t - unat (r + k))) mod ?b = 0"
        unfolding w using Suc.prems(6) wb False by auto
      show "unat t \<le> length ?buf" using lb(1) Suc.prems(7) by simp
    qed
    moreover have "take (unat (r + k)) ?buf = take (unat r) buf @ take (unat k) (drop (unat o') ?D)"
      using lb ok Suc.prems(7) rt by (simp add: rk)
    moreover have "drop (unat t) ?buf = drop (unat t) buf"
      by (rule drop_over) (use lb ok rk lt rt in \<open>auto simp: word_less_nat_alt\<close>)
    moreover have "take ?w (drop (unat o') (chain_data s (Suc m) c)) =
        take (unat k) (drop (unat o') ?D) @ take (unat o' + ?w - ?z) (chain_data s m ?next)"
      using False lD kz Suc.prems(3) by (simp add: dat) (simp add: add.commute)
    ultimately show ?thesis
      unfolding unf using lt cnw w by simp
  qed
qed

section \<open>Reading a range\<close>

lemma sdiv_small:
  assumes "unat (x :: u64) < 2 ^ 32" "z \<noteq> 0"
  shows "unat (word_of_int (sint x sdiv uint (z :: u32)) :: u32) = unat x div unat z"
proof -
  have "sint x = int (unat x)" using assms(1) by (intro sint_small) simp
  then have "sint x sdiv uint z = int (unat x div unat z)"
    unfolding uint_nat by (simp add: signed_divide_int_def sgn_if zdiv_int del: of_nat_unat)
  moreover have "unat x div unat z < 2 ^ 32" using assms(1) div_le_dividend [of "unat x" "unat z"] by linarith
  ultimately show ?thesis by (simp add: unat_of_nat_lt)
qed

text \<open>What a file holds: its chain up to its size.\<close>

definition file_data :: "VOLUME \<Rightarrow> nat \<Rightarrow> VEAFAT_FCB \<Rightarrow> u8 list" where
  "file_data s n Fcb = take (unat (FcbFileSize Fcb)) (chain_data s n (FcbFirstCluster Fcb))"

definition file_ok :: "VOLUME \<Rightarrow> nat \<Rightarrow> VEAFAT_FCB \<Rightarrow> bool" where
  "file_ok s n Fcb \<longleftrightarrow> volume_ok s \<and> disk_works s \<and> 0 < PoolFree s \<and>
     length (chain s n (FcbFirstCluster Fcb)) = n \<and> unat (FcbFileSize Fcb) \<le> n * csize s"

text \<open>What a read request comes to: the loop over the clusters from the one that holds the first byte.\<close>

definition read_reply :: "READ_RESULT \<Rightarrow> u64 \<Rightarrow> (bool \<times> VEASTATUS \<times> u32 \<times> u8 list \<times> VOLUME) \<Rightarrow> READ_RESULT \<times> VOLUME" where
  "read_reply Oip off = (\<lambda>(early, e, n, Buffer, s).
     if early then (Oip\<lparr>OipStatus := e, UserBuffer := Buffer\<rparr>, s)
     else (Oip\<lparr>OipStatus := (if n > 0 then STATUS_SUCCESS else e), OipInformation := n, UserBuffer := Buffer,
       CcbByteOffset := ucast (off + ucast n)\<rparr>, s))"

lemma file_read_start:
  assumes f: "file_ok s n Fcb" and off: "unat off < unat (FcbFileSize Fcb)" and l: "0 < Length"
    and len: "len = min (unat Length) (unat (FcbFileSize Fcb) - unat off)"
    and d: "d = (next_cluster s ^^ (unat off div csize s)) (FcbFirstCluster Fcb)"
  shows "\<exists>j t o'. n = unat off div csize s + j \<and> 0 < j \<and> length (chain s j d) = j \<and> is_cluster s d \<and>
    unat t = len \<and> 0 < t \<and> unat (o' :: u32) = unat off mod csize s \<and>
    chain_data s n (FcbFirstCluster Fcb) = chain_data s (unat off div csize s) (FcbFirstCluster Fcb) @ chain_data s j d \<and>
    length (chain s (unat off div csize s) (FcbFirstCluster Fcb)) = unat off div csize s \<and>
    FatMjRead s Oip Fcb off Length =
      map_option (read_reply Oip off) (read_clusters s off t d o' STATUS_SUCCESS 0 (UserBuffer Oip))"
proof -
  let ?F = "unat (FcbFileSize Fcb)" and ?z = "csize s" and ?c = "FcbFirstCluster Fcb"
  have v: "volume_ok s" "disk_works s" "0 < PoolFree s" and ch: "length (chain s n ?c) = n" "?F \<le> n * ?z"
    using f(1) by (auto simp: file_ok_def)
  have F32: "?F < 2 ^ 32" using unat_lt_u32 [of "FcbFileSize Fcb"] by simp
  have o32: "unat off < 2 ^ 32" using off F32 by linarith
  have so: "sint off = int (unat off)" using o32 by (intro sint_small) simp
  have ul: "unat (ucast Length :: u64) = unat Length" by (rule unat_ucast_up)
  have us: "unat (off + ucast Length) = unat off + unat Length"
    using o32 unat_lt_u32 [of Length] by (subst unat_add_lt) (simp_all add: ul)
  have ss: "sint (off + ucast Length) = int (unat off + unat Length)"
    using sint_small [of "off + ucast Length"] us o32 unat_lt_u32 [of Length] by simp
  have z: "0 < ?z" "BytesPerCluster (Vcb s) \<noteq> 0" using cluster_size(2) [OF v(1)] by auto
  define t where "t = (if sint (off + ucast Length) > uint (FcbFileSize Fcb)
      then (ucast (ucast (FcbFileSize Fcb) - off) :: u32) else Length)"
  have ut: "unat t = len"
  proof -
    have "unat (ucast (FcbFileSize Fcb) - off) = ?F - unat off"
      using off by (subst unat_sub_le) (simp_all add: unat_ucast_up word_le_nat_alt)
    then have "unat (ucast (ucast (FcbFileSize Fcb) - off) :: u32) = ?F - unat off"
      using F32 by (subst unat_ucast_lt) simp_all
    moreover have "sint (off + ucast Length) > uint (FcbFileSize Fcb) \<longleftrightarrow> ?F < unat off + unat Length"
      unfolding ss uint_nat of_nat_less_iff ..
    ultimately show ?thesis unfolding t_def len using off by simp
  qed
  have t0: "0 < t" using ut off l len by (simp add: word_less_nat_alt)
  let ?m = "unat off div ?z"
  have mn: "?m < n" using off ch(2) by (metis div_less_iff_less_mult less_le_trans z(1))
  obtain j where j: "n = ?m + j" "0 < j" using mn by (metis add_diff_inverse_nat not_less_iff_gr_or_eq zero_less_diff)
  have sk: "skip_clusters s ?m ?c = Some (Inr d, s)" "length (chain s j d) = j"
      "chain_data s n ?c = chain_data s ?m ?c @ chain_data s j d" "length (chain s ?m ?c) = ?m"
    unfolding d using skip_clusters_ok [OF v, of ?m j ?c] ch(1) unfolding j(1) [symmetric] by blast+
  have cl: "is_cluster s ?c" "is_cluster s d"
    using mn ch(1) j(2) sk(2) by (cases n; cases j; auto split: if_splits)+
  have cw: "\<not> (?c < 2 \<or> FAT32_IS_EOF ?c)" "\<not> (FAT32_IS_EOF d \<or> d < 2)"
    using is_cluster_word [OF v(1) cl(1)] is_cluster_word [OF v(1) cl(2)] by (simp_all add: not_less)
  have cs: "unat (word_of_int (sint off sdiv uint (BytesPerCluster (Vcb s))) :: u32) = ?m"
    using sdiv_small [OF o32 z(2)] .
  define o' where "o' = (ucast (smod_u32 off (BytesPerCluster (Vcb s))) :: u32)"
  have oc: "unat o' = unat off mod ?z"
  proof -
    have "unat (smod_u32 off (BytesPerCluster (Vcb s))) = unat off mod ?z" using o32 z(2) by (intro smod_u32_unat) simp_all
    then show ?thesis unfolding o'_def
      using mod_less_eq_dividend [of "unat off" ?z] o32 by (subst unat_ucast_lt) (simp_all del: mod_less_eq_dividend)
  qed
  have "\<not> sint off \<ge> uint (FcbFileSize Fcb)" unfolding so uint_nat of_nat_le_iff using off by simp
  moreover have "Length \<noteq> 0" using l(1) by simp
  ultimately have "FatMjRead s Oip Fcb off Length =
      map_option (read_reply Oip off) (read_clusters s off t d o' STATUS_SUCCESS 0 (UserBuffer Oip))"
    unfolding FatMjRead_def FatpReadFile_def Let_def t_def [symmetric] o'_def [symmetric] cs sk(1)
    using cw z(2) by (auto simp: read_reply_def split: option.splits bool.splits)
  then show ?thesis using j sk(2-4) cl(2) ut t0 oc by blast
qed

lemma reply_simp:
  assumes "unat (t :: u32) = len" "0 < t" "unat off + len < 2 ^ 32"
  shows "read_reply Oip off (False, e, t, buf, s) = (Oip\<lparr>OipStatus := STATUS_SUCCESS, OipInformation := of_nat len,
    UserBuffer := buf, CcbByteOffset := of_nat (unat off + len)\<rparr>, s)"
proof -
  have "unat (off + ucast t) = unat off + len"
    using assms by (subst unat_add_lt) (simp_all add: unat_ucast_up)
  then have "ucast (off + ucast t) = (of_nat (unat off + len) :: u32)"
    using assms by (simp add: word_unat_eq_iff unat_of_nat_lt unat_ucast_lt del: of_nat_add)
  moreover have "of_nat len = t" unfolding assms(1) [symmetric] by simp
  ultimately show ?thesis using assms(2) by (simp add: read_reply_def del: of_nat_add)
qed

lemma file_read_ok:
  assumes f: "file_ok s n Fcb" "below_4gb s"
    and off: "unat off < unat (FcbFileSize Fcb)" and l: "0 < Length" "unat Length \<le> length (UserBuffer Oip)"
    and len: "len = min (unat Length) (unat (FcbFileSize Fcb) - unat off)"
    and al: "unat off mod bsize s = 0 \<or> unat off mod csize s + len \<le> csize s \<or> (unat off + len) mod bsize s = 0"
  shows "FatMjRead s Oip Fcb off Length = Some (Oip\<lparr>OipStatus := STATUS_SUCCESS, OipInformation := of_nat len,
    UserBuffer := take len (drop (unat off) (file_data s n Fcb)) @ drop len (UserBuffer Oip),
    CcbByteOffset := of_nat (unat off + len)\<rparr>, s)"
proof -
  let ?F = "unat (FcbFileSize Fcb)" and ?z = "csize s" and ?c = "FcbFirstCluster Fcb" and ?m = "unat off div csize s"
  let ?d = "(next_cluster s ^^ ?m) ?c"
  have v: "volume_ok s" "disk_works s" "0 < PoolFree s" "?F \<le> n * ?z" using f(1) by (auto simp: file_ok_def)
  obtain j t o' where j: "n = ?m + j" "0 < j" "length (chain s j ?d) = j" "is_cluster s ?d" and t: "unat t = len" "0 < t"
    and o': "unat (o' :: u32) = unat off mod ?z"
    and dat: "chain_data s n ?c = chain_data s ?m ?c @ chain_data s j ?d" "length (chain s ?m ?c) = ?m"
    and run: "FatMjRead s Oip Fcb off Length =
      map_option (read_reply Oip off) (read_clusters s off t ?d o' STATUS_SUCCESS 0 (UserBuffer Oip))"
    using file_read_start [OF f(1) off l(1) len refl, of Oip] by blast
  have F32: "?F < 2 ^ 32" using unat_lt_u32 [of "FcbFileSize Fcb"] by simp
  have len0: "0 < len" "len \<le> ?F - unat off" "len \<le> unat Length"
    using off l(1) unfolding len by (auto simp: word_less_nat_alt)
  have sum: "unat off + len < 2 ^ 32" using len0(2) off F32 by linarith
  have z: "0 < ?z" using cluster_size(2) [OF v(1)] .
  have dm: "unat off mod ?z + ?m * ?z = unat off" by simp
  have bz: "bsize s dvd ?z" using cluster_size(4) [OF v(1)] .
  have loop: "read_clusters s off t ?d o' STATUS_SUCCESS 0 (UserBuffer Oip) =
    Some (False, STATUS_SUCCESS, t, take (unat (0::u32)) (UserBuffer Oip) @
      take (unat t - unat (0::u32)) (drop (unat o') (chain_data s j ?d)) @ drop (unat t) (UserBuffer Oip), s)"
  proof (rule read_clusters_ok)
    have "unat off + len \<le> (?m + j) * ?z" using len0(2) off v(4) j(1) by simp
    then have "unat off mod ?z + len \<le> j * ?z" using dm unfolding distrib_right by linarith
    then show "unat o' + (unat t - unat (0::u32)) \<le> j * ?z" unfolding o' t by simp
    show "unat off mod bsize s = 0 \<or> unat o' + (unat t - unat (0::u32)) \<le> ?z \<or> (unat o' + (unat t - unat (0::u32))) mod bsize s = 0"
      unfolding o' t using al bz by (simp add: mod_add_left_eq [symmetric, of "unat off"] mod_mod_cancel)
        (metis mod_add_left_eq mod_mod_cancel)
    show "unat off < 2 ^ 63" using sum by simp
  qed (use v f(2) j(3) t z o' len0 l(2) bz in \<open>auto simp: mod_mod_cancel\<close>)
  have "take len (drop (unat off mod ?z) (chain_data s j ?d)) = take len (drop (unat off) (file_data s n Fcb))"
  proof -
    have "length (chain_data s ?m ?c) = ?m * ?z" using length_chain_data [OF v(1,2) dat(2)] .
    then have "drop (unat off) (chain_data s n ?c) = drop (unat off - ?m * ?z) (chain_data s j ?d)"
      unfolding dat(1) using dm by simp
    also have "unat off - ?m * ?z = unat off mod ?z" using dm by (simp add: minus_div_mult_eq_mod)
    finally show ?thesis unfolding file_data_def using len0(2) by (simp add: drop_take min_absorb1)
  qed
  then show ?thesis unfolding run loop option.map reply_simp [OF t sum] unfolding o' t by simp
qed

section \<open>Ranges that start inside a sector\<close>

lemma sectors_1: "sectors s x 1 = sec s x"
  by (simp add: sectors_def)

text \<open>A range that starts inside a sector of the first cluster and ends inside the first sector of the second.\<close>

lemma continued_read:
  assumes f: "file_ok s n Fcb" "below_4gb s" and l: "0 < Length" "unat Length \<le> length (UserBuffer Oip)"
    and off: "unat off < csize s" "unat off < unat (FcbFileSize Fcb)"
    and len: "min (unat Length) (unat (FcbFileSize Fcb) - unat off) = csize s - unat off + k" "0 < k" "k < bsize s"
  shows "FatMjRead s Oip Fcb off Length =
    (if unat off mod bsize s + k \<le> bsize s
     then Some (Oip\<lparr>OipStatus := STATUS_SUCCESS, OipInformation := of_nat (csize s - unat off + k),
       UserBuffer := drop (unat off) (cluster_data s (FcbFirstCluster Fcb)) @
         take k (drop (unat off mod bsize s) (cluster_data s (next_cluster s (FcbFirstCluster Fcb)))) @
         drop (csize s - unat off + k) (UserBuffer Oip), CcbByteOffset := of_nat (csize s + k)\<rparr>, s)
     else None)"
proof -
  let ?F = "unat (FcbFileSize Fcb)" and ?z = "csize s" and ?b = "bsize s" and ?c = "FcbFirstCluster Fcb"
  let ?len = "csize s - unat off + k" and ?d = "next_cluster s ?c"
  have v: "volume_ok s" "disk_works s" "0 < PoolFree s" "?F \<le> n * ?z" using f(1) by (auto simp: file_ok_def)
  have div: "unat off div ?z = 0" "unat off mod ?z = unat off" using off(1) by simp_all
  obtain t o' where n: "length (chain s n ?c) = n" and c: "is_cluster s ?c" and t: "unat t = ?len" "0 < t"
    and o': "unat (o' :: u32) = unat off"
    and run: "FatMjRead s Oip Fcb off Length =
      map_option (read_reply Oip off) (read_clusters s off t ?c o' STATUS_SUCCESS 0 (UserBuffer Oip))"
    using file_read_start [OF f(1) off(2) l(1) len(1) [symmetric] refl, of Oip] unfolding div funpow_0 add_0 id_apply by blast
  have b: "0 < ?b" using sector_size [OF v(1)] by simp
  have bz: "?b dvd ?z" using cluster_size(4) [OF v(1)] .
  have F32: "?F < 2 ^ 32" using unat_lt_u32 [of "FcbFileSize Fcb"] by simp
  have lenF: "?len \<le> ?F - unat off" "?len \<le> unat Length" using len(1) by linarith+
  have sum: "unat off + ?len < 2 ^ 32" using lenF(1) off(2) F32 by linarith
  have o63: "unat off < 2 ^ 63" using sum by simp
  have zn: "?z < n * ?z" using v(4) lenF(1) len(2) off by linarith
  then have "1 < n" by (cases n) auto
  then have d: "is_cluster s ?d" using n by (cases n; cases "n - 1") (auto split: if_splits)
  let ?D = "cluster_data s ?c" and ?E = "cluster_data s ?d"
  have lD: "length ?D = ?z" "length ?E = ?z" using length_cluster_data v by blast+
  define k1 where "k1 = (if t - 0 > BytesPerCluster (Vcb s) - o' then BytesPerCluster (Vcb s) - o' else t - 0)"
  have o'z: "unat o' < ?z" using o' off(1) by simp
  note q1 = chunk_len [OF t(2) o'z k1_def]
  have k1: "unat k1 = ?z - unat off" "unat (0 + k1) = ?z - unat off" using q1(1,2) t(1) o' off(1) by auto
  let ?buf = "take (unat (0::u32)) (UserBuffer Oip) @ take (unat k1) (drop (unat o') ?D) @ drop (unat (0::u32) + unat k1) (UserBuffer Oip)"
  have chunk1: "read_chunk s off (cluster_at s ?c + ucast o') k1 (unat (0::u32)) (UserBuffer Oip) = Some (Inr (Inr ?buf))"
    by (rule read_chunk_ok) (use v f(2) c o' k1 off(1) l(2) lenF(2) o63 in auto)
  have lt: "0 + k1 < t" using k1 t(1) len(2) by (simp add: word_less_nat_alt)
  define k2 where "k2 = (if t - (0 + k1) > BytesPerCluster (Vcb s) - 0 then BytesPerCluster (Vcb s) - 0 else t - (0 + k1))"
  have z0: "unat (0 :: u32) < ?z" using off(1) by simp
  note q2 = chunk_len [OF lt z0 k2_def]
  have kz: "k < ?z" using len(3) dvd_imp_le [OF bz] off(1) by linarith
  have k2: "unat k2 = k" "unat (0 + k1 + k2) = ?len" using q2(1,2) t(1) k1 kz by auto
  have e: "0 + k1 + k2 = t" using k2(2) t(1) by (simp add: word_unat_eq_iff)
  have part: "unat k2 mod ?b \<noteq> 0 \<or> unat (0::u32) mod ?b \<noteq> 0" using k2(1) len(2,3) by simp
  have bs: "bounce_sectors s (unat (0::u32)) k = 1"
    unfolding bounce_sectors_def using len(2,3) by (intro div_nat_eqI) auto
  have addr: "of_nat ((unat (cluster_at s ?d) + unat (0::u32)) mod 2 ^ 32 div ?b * ?b) = cluster_at s ?d"
  proof -
    have "unat (cluster_at s ?d) + ?z \<le> 2 ^ 32" using cluster_at_unat(2) [OF v(1) d] f(2) by (simp add: below_4gb_def)
    then have 1: "(unat (cluster_at s ?d) + unat (0::u32)) mod 2 ^ 32 = unat (cluster_at s ?d)" using off(1) by simp
    have "?b dvd unat (cluster_at s ?d)" using cluster_at_unat(1) [OF v(1) d] by simp
    then show ?thesis unfolding 1 by simp
  qed
  have fst: "sec s (cluster_at s ?d) = take ?b ?E"
  proof -
    have "1 \<le> unat (SectorsPerCluster (Vcb s))" using volume_okD(2) [OF v(1)] by simp
    then show ?thesis using sectors_sub [OF v(1,2), of 0 1 "unat (SectorsPerCluster (Vcb s))" "cluster_at s ?d"]
      by (simp add: cluster_data_def sectors_1 [unfolded One_nat_def])
  qed
  have lt2: "length (take ?b ?E) = ?b" using lD dvd_imp_le [OF bz] off(1) by simp
  have get: "get_bytes (take ?b ?E) (unat off mod ?b) k =
      (if unat off mod ?b + k \<le> ?b then Some (take k (drop (unat off mod ?b) ?E)) else None)"
    unfolding get_bytes_def lt2 by (simp add: drop_take min_absorb1)
  have chunk2: "read_chunk s off (cluster_at s ?d + ucast (0::u32)) k2 (unat (0 + k1)) ?buf =
      (if unat off mod ?b + k \<le> ?b then
         Option.bind (put_bytes ?buf (?z - unat off) (take k (drop (unat off mod ?b) ?E))) (\<lambda>buf. Some (Inr (Inr buf)))
       else None)"
    using read_chunk_bounce [OF v(1-3) d _ z0 part o63, of "unat (0 + k1)" ?buf] kz
    unfolding k1(2) k2(1) bs addr sectors_1 fst get by (auto split: if_splits)
  have put: "put_bytes ?buf (?z - unat off) (take k (drop (unat off mod ?b) ?E)) =
      Some (drop (unat off) ?D @ take k (drop (unat off mod ?b) ?E) @ drop ?len (UserBuffer Oip))"
    if "unat off mod ?b + k \<le> ?b"
  proof -
    have "length (take k (drop (unat off mod ?b) ?E)) = k" using that lD dvd_imp_le [OF bz] off(1) by simp
    then show ?thesis using l(2) lenF(2) lD off(1) k1(1) o' by (simp add: put_bytes_def add.commute)
  qed
  have dw: "\<not> (FAT32_IS_EOF ?d \<or> ?d < 2)" using is_cluster_word [OF v(1) d] by (simp add: not_less)
  have loop: "read_clusters s off t ?c o' STATUS_SUCCESS 0 (UserBuffer Oip) =
    (if unat off mod ?b + k \<le> ?b then
       Some (False, STATUS_SUCCESS, t, drop (unat off) ?D @ take k (drop (unat off mod ?b) ?E) @ drop ?len (UserBuffer Oip), s)
     else None)"
    unfolding read_clusters_step [OF v(1-3) c t(2) k1_def] chunk1 Option.bind.simps sum.case if_P [OF lt] if_not_P [OF dw]
      read_clusters_step [OF v(1-3) d lt k2_def] chunk2 e
    using put by simp
  have so: "unat off + ?len = ?z + k" using off(1) by simp
  show ?thesis
    unfolding run loop using reply_simp [OF t sum, of Oip] unfolding so by simp
qed

text \<open>A range inside one cluster that does not fill sectors is read at its address modulo 4 GB.\<close>

lemma partial_read:
  assumes f: "file_ok s n Fcb" and l: "0 < Length" "unat Length \<le> length (UserBuffer Oip)"
    and off: "unat off < csize s" "unat off < unat (FcbFileSize Fcb)"
    and len: "len = min (unat Length) (unat (FcbFileSize Fcb) - unat off)" "unat off mod bsize s + len < bsize s"
  shows "FatMjRead s Oip Fcb off Length =
     Some (Oip\<lparr>OipStatus := STATUS_SUCCESS, OipInformation := of_nat len,
       UserBuffer := take len (drop (unat off mod bsize s)
           (sec s (of_nat ((unat (cluster_at s (FcbFirstCluster Fcb)) + unat off) mod 2 ^ 32 div bsize s * bsize s)))) @
         drop len (UserBuffer Oip), CcbByteOffset := of_nat (unat off + len)\<rparr>, s)"
proof -
  let ?F = "unat (FcbFileSize Fcb)" and ?z = "csize s" and ?b = "bsize s" and ?c = "FcbFirstCluster Fcb"
  have v: "volume_ok s" "disk_works s" "0 < PoolFree s" "?F \<le> n * ?z" using f(1) by (auto simp: file_ok_def)
  have div: "unat off div ?z = 0" "unat off mod ?z = unat off" using off(1) by simp_all
  obtain t o' where c: "is_cluster s ?c" and t: "unat t = len" "0 < t" and o': "unat (o' :: u32) = unat off"
    and run: "FatMjRead s Oip Fcb off Length =
      map_option (read_reply Oip off) (read_clusters s off t ?c o' STATUS_SUCCESS 0 (UserBuffer Oip))"
    using file_read_start [OF f(1) off(2) l(1) len(1) refl, of Oip] unfolding div funpow_0 add_0 id_apply by blast
  have b: "0 < ?b" using sector_size [OF v(1)] by simp
  have bz: "?b dvd ?z" using cluster_size(4) [OF v(1)] .
  have F32: "?F < 2 ^ 32" using unat_lt_u32 [of "FcbFileSize Fcb"] by simp
  have len0: "0 < len" "len \<le> ?F - unat off" "len \<le> unat Length"
    using off l(1) unfolding len by (auto simp: word_less_nat_alt)
  have sum: "unat off + len < 2 ^ 32" using len0(2) off(2) F32 by linarith
  have o63: "unat off < 2 ^ 63" using sum by simp
  have fits: "unat off + len \<le> ?z"
  proof -
    obtain q where q: "?z = ?b * q" using bz by (auto elim: dvdE)
    have "unat off div ?b < q" using off(1) unfolding q by (simp add: less_mult_imp_div_less mult.commute)
    then have "(unat off div ?b + 1) * ?b \<le> q * ?b" by (intro mult_right_mono) auto
    moreover have "unat off = unat off div ?b * ?b + unat off mod ?b" by simp
    ultimately have "unat off + len \<le> q * ?b" using len(2) unfolding distrib_right by linarith
    then show ?thesis unfolding q by (simp only: mult.commute)
  qed
  define k where "k = (if t - 0 > BytesPerCluster (Vcb s) - o' then BytesPerCluster (Vcb s) - o' else t - 0)"
  have o'z: "unat o' < ?z" using o' off(1) by simp
  have k: "unat k = len" "unat (0 + k) = len" using chunk_len [OF t(2) o'z k_def] t(1) o' fits by auto
  have e: "0 + k = t" using k t(1) by (simp add: word_unat_eq_iff)
  have part: "unat k mod ?b \<noteq> 0 \<or> unat o' mod ?b \<noteq> 0" using k(1) len(2) len0(1) by simp
  have bs: "bounce_sectors s (unat off) len = 1"
    unfolding bounce_sectors_def using len(2) len0(1) by (intro div_nat_eqI) auto
  let ?S = "sec s (of_nat ((unat (cluster_at s ?c) + unat off) mod 2 ^ 32 div ?b * ?b))"
  have get: "get_bytes ?S (unat off mod ?b) len = Some (take len (drop (unat off mod ?b) ?S))"
    using len(2) length_sec [OF v(1,2)] by (simp add: get_bytes_def)
  have put: "put_bytes (UserBuffer Oip) 0 (take len (drop (unat off mod ?b) ?S)) =
      Some (take len (drop (unat off mod ?b) ?S) @ drop len (UserBuffer Oip))"
    using len(2) length_sec [OF v(1,2)] l(2) len0(3) by (simp add: put_bytes_def)
  have "read_chunk s off (cluster_at s ?c + ucast o') k (unat (0::u32)) (UserBuffer Oip) =
      Some (Inr (Inr (take len (drop (unat off mod ?b) ?S) @ drop len (UserBuffer Oip))))"
    using read_chunk_bounce [OF v(1-3) c _ o'z part o63, of "unat (0::u32)" "UserBuffer Oip"] fits
    unfolding k(1) o' bs sectors_1 get using put by simp
  then have "read_clusters s off t ?c o' STATUS_SUCCESS 0 (UserBuffer Oip) =
       Some (False, STATUS_SUCCESS, t, take len (drop (unat off mod ?b) ?S) @ drop len (UserBuffer Oip), s)"
    unfolding read_clusters_step [OF v(1-3) c t(2) k_def] e by simp
  then show ?thesis unfolding run using reply_simp [OF t sum, of Oip] by simp
qed

section \<open>What a read returns\<close>

text \<open>C32: on a volume that ends below 4 GB a read of a file whose chain covers its size returns exactly the bytes of the file from the offset on, as
  many as there are or as were asked for, leaves the rest of the buffer and the volume alone and moves the file
  position, when the range starts at a sector boundary, ends at one or lies in one cluster.\<close>

theorem file_read_correct:
  assumes "file_ok s n Fcb" "below_4gb s" "unat off < unat (FcbFileSize Fcb)"
    and "0 < Length" "unat Length \<le> length (UserBuffer Oip)"
    and "len = min (unat Length) (unat (FcbFileSize Fcb) - unat off)"
    and "unat off mod bsize s = 0 \<or> unat off mod csize s + len \<le> csize s \<or> (unat off + len) mod bsize s = 0"
  shows "FatMjRead s Oip Fcb off Length = Some (Oip\<lparr>OipStatus := STATUS_SUCCESS, OipInformation := of_nat len,
    UserBuffer := take len (drop (unat off) (file_data s n Fcb)) @ drop len (UserBuffer Oip),
    CcbByteOffset := of_nat (unat off + len)\<rparr>, s)"
  using assms by (rule file_read_ok)

text \<open>The file of the chain of the small volume.\<close>

definition small_file :: VEAFAT_FCB where
  "small_file = \<lparr>FcbFirstCluster = 2, FcbFileSize = 1000\<rparr>"

definition request :: "nat \<Rightarrow> READ_RESULT" where
  "request n = \<lparr>OipStatus = 0, OipInformation = 0, UserBuffer = replicate n 0, CcbByteOffset = 0\<rparr>"

lemma request_buffer [simp]: "length (UserBuffer (request n)) = n" "drop n (UserBuffer (request n)) = []"
  by (simp_all add: request_def)

lemma ramp_bytes: "i < 512 \<Longrightarrow> ramp ! i = of_nat i" "take 3 ramp = [0, 1, 2]"
proof -
  show "i < 512 \<Longrightarrow> ramp ! i = of_nat i" by (simp add: ramp_def)
  have "take 3 ramp = map of_nat [0..<3]" by (simp add: ramp_def take_map)
  also have "\<dots> = [0, 1, 2]" by (simp add: upt_rec)
  finally show "take 3 ramp = [0, 1, 2]" .
qed

lemma small_bytes: "BytesPerSector (Vcb small_volume) = 512" "BytesPerCluster (Vcb small_volume) = 512"
  "SectorsPerCluster (Vcb small_volume) = 1" "DataStartLba (Vcb small_volume) = 3" "TotalClusters (Vcb small_volume) = 6"
  by (simp_all add: small_volume_def small_vcb_def)

lemma small_cluster_3: "cluster_data small_volume 3 = ramp"
proof -
  have "cluster_at small_volume 3 = 2048" by (simp add: cluster_at_def FAT32_CLUSTER_TO_LBA_def small_bytes)
  then have "cluster_data small_volume 3 = sec small_volume 2048"
    unfolding cluster_data_def small_bytes(3) by (simp add: sectors_1 [unfolded One_nat_def])
  also have "\<dots> = ramp" by (simp add: sec_def small_volume_def)
  finally show ?thesis .
qed

lemma small_chain: "chain small_volume 2 2 = [2, 3]"
proof -
  have "is_cluster small_volume 2" "is_cluster small_volume 3" by (simp_all add: small_clusters)
  then show ?thesis using small_next [of 2] by (simp add: numeral_2_eq_2)
qed

lemma small_file_ok: "file_ok small_volume 2 small_file" "below_4gb small_volume"
  using small_volume_ok small_chain by (simp_all add: file_ok_def small_file_def small_bytes below_4gb_def)

lemma small_file_tail: "drop 512 (file_data small_volume 2 small_file) = take 488 (ramp)"
proof -
  have "length (cluster_data small_volume 2) = 512"
    using length_cluster_data [OF small_volume_ok(1,2)] by (simp add: small_bytes)
  then show ?thesis
    by (simp add: file_data_def chain_data_def small_chain small_cluster_3 small_file_def drop_take)
qed

theorem file_read_correct_witness:
  "\<exists>r. FatMjRead small_volume (request 3) small_file 512 3 = Some (r, small_volume) \<and> UserBuffer r = [0, 1, 2]"
proof -
  have "take 3 (drop 512 (file_data small_volume 2 small_file)) = [0, 1, 2]"
    unfolding small_file_tail by (simp add: ramp_bytes)
  moreover have "FatMjRead small_volume (request 3) small_file 512 3 = Some ((request 3)\<lparr>OipStatus := STATUS_SUCCESS,
      OipInformation := of_nat 3, UserBuffer := take 3 (drop (unat (512::u64)) (file_data small_volume 2 small_file)) @
      drop 3 (UserBuffer (request 3)), CcbByteOffset := of_nat (unat (512::u64) + 3)\<rparr>, small_volume)"
    by (rule file_read_correct [OF small_file_ok]) (simp_all add: small_file_def small_bytes)
  ultimately show ?thesis by simp
qed

text \<open>C33: a read that starts inside a sector of the first cluster and ends inside the first sector of the next takes
  the tail of the range not from the start of that cluster but from the offset of the whole range in its sector, and
  reads past the end of its bounce buffer where that does not fit.\<close>

theorem continued_read_is_shifted:
  assumes "file_ok s n Fcb" "below_4gb s" "0 < Length" "unat Length \<le> length (UserBuffer Oip)"
    and "unat off < csize s" "unat off < unat (FcbFileSize Fcb)"
    and "min (unat Length) (unat (FcbFileSize Fcb) - unat off) = csize s - unat off + k" "0 < k" "k < bsize s"
  shows "FatMjRead s Oip Fcb off Length =
    (if unat off mod bsize s + k \<le> bsize s
     then Some (Oip\<lparr>OipStatus := STATUS_SUCCESS, OipInformation := of_nat (csize s - unat off + k),
       UserBuffer := drop (unat off) (cluster_data s (FcbFirstCluster Fcb)) @
         take k (drop (unat off mod bsize s) (cluster_data s (next_cluster s (FcbFirstCluster Fcb)))) @
         drop (csize s - unat off + k) (UserBuffer Oip), CcbByteOffset := of_nat (csize s + k)\<rparr>, s)
     else None)"
  using assms by (rule continued_read)

theorem continued_read_is_shifted_witness:
  "\<exists>r. FatMjRead small_volume (request 464) small_file 100 464 = Some (r, small_volume) \<and>
     UserBuffer r ! 412 = 100 \<and> file_data small_volume 2 small_file ! 512 = 0"
proof -
  have l: "length (cluster_data small_volume 2) = 512"
    using length_cluster_data [OF small_volume_ok(1,2)] by (simp add: small_bytes)
  have n: "next_cluster small_volume 2 = 3" using small_next [of 2] by (simp add: small_clusters)
  have "drop 512 (file_data small_volume 2 small_file) ! 0 = 0" unfolding small_file_tail by (simp add: ramp_bytes)
  then have f: "file_data small_volume 2 small_file ! 512 = 0"
    using small_file_ok(1) length_chain_data [OF small_volume_ok(1,2), of 2 2] small_chain
    by (simp add: file_data_def small_file_def small_bytes)
  show ?thesis
    using continued_read_is_shifted [OF small_file_ok, of 464 "request 464" 100 52] f l n
    by (simp add: small_file_def small_bytes small_cluster_3 nth_append ramp_bytes)
qed

text \<open>a read inside one sector takes its bytes from the sector at the right address modulo 4 GB, which above 4 GB
  is another sector of the disk.\<close>

theorem partial_read_wraps:
  assumes "file_ok s n Fcb" "0 < Length" "unat Length \<le> length (UserBuffer Oip)"
    and "unat off < csize s" "unat off < unat (FcbFileSize Fcb)"
    and "len = min (unat Length) (unat (FcbFileSize Fcb) - unat off)" "unat off mod bsize s + len < bsize s"
  shows "FatMjRead s Oip Fcb off Length =
     Some (Oip\<lparr>OipStatus := STATUS_SUCCESS, OipInformation := of_nat len,
       UserBuffer := take len (drop (unat off mod bsize s)
           (sec s (of_nat ((unat (cluster_at s (FcbFirstCluster Fcb)) + unat off) mod 2 ^ 32 div bsize s * bsize s)))) @
         drop len (UserBuffer Oip), CcbByteOffset := of_nat (unat off + len)\<rparr>, s)"
  using assms by (rule partial_read)

text \<open>The clusters of this volume start one sector above 4 GB.\<close>

definition far_volume :: VOLUME where
  "far_volume = \<lparr>Vcb = small_vcb\<lparr>DataStartLba := 0x800001\<rparr>,
     Disk = (\<lambda>x. Inr (if x = 0x100000200 then filled 7 else filled 9)), PoolFree = 1\<rparr>"

definition far_file :: VEAFAT_FCB where
  "far_file = \<lparr>FcbFirstCluster = 2, FcbFileSize = 100\<rparr>"

theorem partial_read_wraps_witness:
  "\<exists>r. FatMjRead far_volume (request 1) far_file 0 1 = Some (r, far_volume) \<and>
     UserBuffer r = [9] \<and> take 1 (file_data far_volume 1 far_file) = [7]"
proof -
  have v: "volume_ok far_volume" "disk_works far_volume" "PoolFree far_volume = 1"
    by (auto simp: volume_ok_def disk_works_def far_volume_def small_vcb_def)
  have b: "BytesPerSector (Vcb far_volume) = 512" "BytesPerCluster (Vcb far_volume) = 512" "SectorsPerCluster (Vcb far_volume) = 1"
    by (simp_all add: far_volume_def small_vcb_def)
  have ca: "cluster_at far_volume 2 = 0x100000200"
    by (simp add: cluster_at_def FAT32_CLUSTER_TO_LBA_def far_volume_def small_vcb_def)
  have ch: "chain far_volume 1 2 = [2]" by (simp add: is_cluster_def far_volume_def small_vcb_def)
  have ok: "file_ok far_volume 1 far_file" using v ch by (simp add: file_ok_def far_file_def b)
  have "cluster_data far_volume 2 = filled 7"
    unfolding cluster_data_def ca b(3) by (simp add: sectors_1 [unfolded One_nat_def] sec_def far_volume_def)
  then have f: "take 1 (file_data far_volume 1 far_file) = [7]"
    using ch unfolding file_data_def chain_data_def far_file_def by (simp add: filled_def)
  have "sec far_volume 512 = filled 9" by (simp add: sec_def far_volume_def)
  then show ?thesis
    using partial_read_wraps [OF ok, of 1 "request 1" 0 1] f by (simp add: far_file_def b ca filled_def)
qed

end
