(* ===== verification/FatDir.thy ===== *)
theory FatDir
  imports FatRead
begin

text \<open>
  \<open>driver/filesystem/veafat/directory.c\<close>: the search of a directory for a name and the creation of an entry.
  An entry is its 32 bytes; a directory is the sequence of the entries of its clusters.
\<close>

section \<open>Entries\<close>

definition FileName :: "u8 list \<Rightarrow> u8 list" where "FileName e = take 11 e"
definition Attributes :: "u8 list \<Rightarrow> u8" where "Attributes e = e ! 11"
definition FirstClusterHigh :: "u8 list \<Rightarrow> u16" where "FirstClusterHigh e = dec16 (take 2 (drop 20 e))"
definition FirstClusterLow :: "u8 list \<Rightarrow> u16" where "FirstClusterLow e = dec16 (take 2 (drop 26 e))"
definition FileSize :: "u8 list \<Rightarrow> u32" where "FileSize e = dec32 (take 4 (drop 28 e))"

definition FAT_ATTR_VOLUME_ID :: u8 where "FAT_ATTR_VOLUME_ID = 0x08"
definition FAT_ATTR_DIRECTORY :: u8 where "FAT_ATTR_DIRECTORY = 0x10"

text \<open>The entry written for a short name.\<close>

definition sfn_entry :: "u8 list \<Rightarrow> u8 \<Rightarrow> u32 \<Rightarrow> u32 \<Rightarrow> u8 list" where
  "sfn_entry Sfn attributes FirstCluster bytes =
     Sfn @ [attributes] @ replicate 8 0 @ enc16 (ucast (drop_bit 16 FirstCluster AND 0xFFFF)) @ replicate 4 0 @
     enc16 (ucast (FirstCluster AND 0xFFFF)) @ enc32 bytes"

text \<open>The bytes of an entry of a long name, and the cast back.\<close>

definition enc_chars :: "u16 list \<Rightarrow> u8 list" where
  "enc_chars cs = concat (map enc16 cs)"

definition dec_chars :: "u8 list \<Rightarrow> nat \<Rightarrow> nat \<Rightarrow> u16 list" where
  "dec_chars bs p n = map (\<lambda>i. dec16 (take 2 (drop (p + 2 * i) bs))) [0..<n]"

definition enc_lfn :: "FAT_LFN_ENTRY \<Rightarrow> u8 list" where
  "enc_lfn e = [SequenceNumber e] @ enc_chars (Name1 e) @ [LfnAttributes e, LfnType e, LfnSum e] @
     enc_chars (Name2 e) @ enc16 (LfnClusterLow e) @ enc_chars (Name3 e)"

definition dec_lfn :: "u8 list \<Rightarrow> FAT_LFN_ENTRY" where
  "dec_lfn bs = \<lparr>SequenceNumber = bs ! 0, Name1 = dec_chars bs 1 5, LfnAttributes = bs ! 11, LfnType = bs ! 12,
     LfnSum = bs ! 13, Name2 = dec_chars bs 14 6, LfnClusterLow = dec16 (take 2 (drop 26 bs)), Name3 = dec_chars bs 28 2\<rparr>"

section \<open>The search of one directory\<close>

text \<open>What the loop remembers of the long name in front of an entry.\<close>

record LFN_STATE =
  LfnBuffer :: "u16 list"
  HasLfn :: bool
  LfnChecksum :: u8

definition lfn_step :: "LFN_STATE \<Rightarrow> FAT_LFN_ENTRY \<Rightarrow> LFN_STATE option" where
  "lfn_step st LfnEntry = (
     let Sequence = SequenceNumber LfnEntry;
         st = (if Sequence AND FAT_LFN_LAST_ENTRY \<noteq> 0
               then \<lparr>LfnBuffer = replicate 256 0, HasLfn = True, LfnChecksum = LfnSum LfnEntry\<rparr> else st);
         SeqIndex = unat (Sequence AND FAT_LFN_SEQ_MASK);
         CharOffset = (SeqIndex - 1) * 13
     in if SeqIndex \<ge> 1 \<and> SeqIndex \<le> 20 \<and> CharOffset + 13 < 256
        then do { b \<leftarrow> FatpExtractLfnChars LfnEntry (LfnBuffer st) CharOffset; Some (st\<lparr>LfnBuffer := b\<rparr>) }
        else Some st)"

definition sfn_step :: "u8 list \<Rightarrow> u8 list \<Rightarrow> LFN_STATE \<Rightarrow> u8 list \<Rightarrow> (bool \<times> LFN_STATE) option" where
  "sfn_step ComponentName FormattedSfn st e = do {
     (Match, st) \<leftarrow> (if HasLfn st then do {
         m \<leftarrow> (if FatpCalculateSfnChecksum (FileName e) = LfnChecksum st
               then FatpCompareLfnWithAnsi (LfnBuffer st) ComponentName else Some False);
         Some (m, st\<lparr>HasLfn := False\<rparr>) }
       else Some (False, st));
     Some (Match \<or> FileName e = FormattedSfn, st) }"

datatype scan_result = EndOfDirectory | MatchAt nat "u8 list" | GoOn LFN_STATE

fun scan_entries :: "u8 list \<Rightarrow> u8 list \<Rightarrow> nat \<Rightarrow> u8 list list \<Rightarrow> LFN_STATE \<Rightarrow> scan_result option" where
  "scan_entries ComponentName FormattedSfn i [] st = Some (GoOn st)"
| "scan_entries ComponentName FormattedSfn i (e # es) st =
     (if e ! 0 = 0 then Some EndOfDirectory
      else if e ! 0 = 0xE5 then scan_entries ComponentName FormattedSfn (i + 1) es st
      else if Attributes e AND FAT_ATTR_VOLUME_ID \<noteq> 0 \<and> Attributes e \<noteq> FAT_ATTR_LFN
      then scan_entries ComponentName FormattedSfn (i + 1) es st
      else if Attributes e = FAT_ATTR_LFN
      then Option.bind (lfn_step st (dec_lfn e)) (scan_entries ComponentName FormattedSfn (i + 1) es)
      else Option.bind (sfn_step ComponentName FormattedSfn st e) (\<lambda>(Match, st).
        if Match then Some (MatchAt i e) else scan_entries ComponentName FormattedSfn (i + 1) es st))"

text \<open>The entries of a sector in the buffer.\<close>

definition entries_of :: "nat \<Rightarrow> u8 list \<Rightarrow> u8 list list option" where
  "entries_of n buf = (if n * 32 \<le> length buf then Some (map (\<lambda>i. take 32 (drop (i * 32) buf)) [0..<n]) else None)"

datatype search_out = Failed VEASTATUS | Hit "u8 list" u32 | NotHere "u8 list" LFN_STATE

text \<open>The loop over the sectors of a cluster, from sector \<open>k\<close> on; \<open>n\<close> sectors are left.\<close>

fun search_sectors :: "VOLUME \<Rightarrow> u8 list \<Rightarrow> u8 list \<Rightarrow> u64 \<Rightarrow> nat \<Rightarrow> nat \<Rightarrow> u8 list \<Rightarrow> LFN_STATE \<Rightarrow> search_out option" where
  "search_sectors s ComponentName FormattedSfn ClusterLba k 0 buf st = Some (NotHere buf st)"
| "search_sectors s ComponentName FormattedSfn ClusterLba k (Suc n) buf st =
     (case FatReadDiskSectors s (ClusterLba + of_nat k) of
        Inl e \<Rightarrow> Some (Failed e)
      | Inr bs \<Rightarrow> do {
          buf \<leftarrow> put_bytes buf 0 bs;
          es \<leftarrow> entries_of (unat (BytesPerSector (Vcb s)) div 32) buf;
          r \<leftarrow> scan_entries ComponentName FormattedSfn 0 es st;
          case r of
            EndOfDirectory \<Rightarrow> Some (Failed STATUS_OBJECT_NAME_NOT_FOUND)
          | MatchAt i e \<Rightarrow> Some (Hit e (of_nat k * BytesPerSector (Vcb s) + of_nat i * 32))
          | GoOn st \<Rightarrow> search_sectors s ComponentName FormattedSfn ClusterLba (k + 1) n buf st })"

text \<open>The loop over the chain. The early returns keep the sector buffer.\<close>

partial_function (option) search_chain :: "VOLUME \<Rightarrow> u8 list \<Rightarrow> u8 list \<Rightarrow> u8 list \<Rightarrow> LFN_STATE \<Rightarrow> u32 \<Rightarrow>
    ((VEASTATUS + u8 list \<times> u32 \<times> u32) \<times> VOLUME) option" where
  "search_chain s ComponentName FormattedSfn buf st CurrentCluster =
     (if \<not> FAT32_IS_EOF CurrentCluster \<and> CurrentCluster \<noteq> 0 then
        Option.bind (search_sectors s ComponentName FormattedSfn (FAT32_CLUSTER_TO_LBA (Vcb s) CurrentCluster) 0
            (unat (SectorsPerCluster (Vcb s))) buf st) (\<lambda>r.
          case r of
            Failed e \<Rightarrow> Some (Inl e, s)
          | Hit e off \<Rightarrow> Some (Inr (e, CurrentCluster, off), give_pool s)
          | NotHere buf st \<Rightarrow>
              Option.bind (FatpGetNextCluster s CurrentCluster) (\<lambda>(r, s).
                case r of
                  Inl e \<Rightarrow> Some (Inl STATUS_OBJECT_NAME_NOT_FOUND, give_pool s)
                | Inr c \<Rightarrow> search_chain s ComponentName FormattedSfn buf st c))
      else Some (Inl STATUS_OBJECT_NAME_NOT_FOUND, give_pool s))"

declare search_chain.simps [code]

definition fresh_lfn :: LFN_STATE where
  "fresh_lfn = \<lparr>LfnBuffer = replicate 256 0, HasLfn = False, LfnChecksum = 0\<rparr>"

definition FatpSearchDirectory :: "VOLUME \<Rightarrow> u32 \<Rightarrow> u8 list \<Rightarrow> ((VEASTATUS + u8 list \<times> u32 \<times> u32) \<times> VOLUME) option" where
  "FatpSearchDirectory s DirStartCluster ComponentName = (
     let CurrentCluster = (if DirStartCluster = 0 then RootDirStartCluster (Vcb s) else DirStartCluster)
     in Option.bind (FatpFormatSfn ComponentName) (\<lambda>FormattedSfn.
        case take_pool s of
          None \<Rightarrow> Some (Inl STATUS_INSUFFICIENT_RESOURCES, s)
        | Some s1 \<Rightarrow> search_chain s1 ComponentName FormattedSfn (replicate 4096 0) fresh_lfn CurrentCluster))"

section \<open>A new entry\<close>

definition is_free_entry :: "u8 list \<Rightarrow> bool" where
  "is_free_entry e \<longleftrightarrow> e ! 0 = 0 \<or> e ! 0 = 0xE5"

fun write_entries :: "u8 list \<Rightarrow> nat \<Rightarrow> u8 list list \<Rightarrow> u8 list option" where
  "write_entries buf i [] = Some buf"
| "write_entries buf i (e # es) = do { buf \<leftarrow> put_bytes buf (i * 32) e; write_entries buf (i + 1) es }"

text \<open>The loop over the entries of a sector. It counts free entries in a row, over sectors and clusters, and
  remembers the index of the first one in its sector. Where there are enough it gives the sector buffer with the
  new entries.\<close>

datatype slot_result = Slots "u8 list" | MoreSlots nat nat

fun slots_in_sector :: "u8 list list \<Rightarrow> u8 list \<Rightarrow> nat \<Rightarrow> u8 list list \<Rightarrow> nat \<Rightarrow> nat \<Rightarrow> slot_result option" where
  "slots_in_sector new buf i [] Found TargetEntryIndex = Some (MoreSlots Found TargetEntryIndex)"
| "slots_in_sector new buf i (e # es) Found TargetEntryIndex =
     (if is_free_entry e then (
        let TargetEntryIndex = (if Found = 0 then i else TargetEntryIndex)
        in if Found + 1 = length new
           then map_option Slots (write_entries buf TargetEntryIndex new)
           else slots_in_sector new buf (i + 1) es (Found + 1) TargetEntryIndex)
      else slots_in_sector new buf (i + 1) es 0 TargetEntryIndex)"

datatype add_out = Stored VEASTATUS VOLUME | NoRoom "u8 list" nat nat

fun slots_in_cluster :: "VOLUME \<Rightarrow> u8 list list \<Rightarrow> u64 \<Rightarrow> nat \<Rightarrow> nat \<Rightarrow> u8 list \<Rightarrow> nat \<Rightarrow> nat \<Rightarrow> add_out option" where
  "slots_in_cluster s new ClusterLba k 0 buf Found TargetEntryIndex = Some (NoRoom buf Found TargetEntryIndex)"
| "slots_in_cluster s new ClusterLba k (Suc n) buf Found TargetEntryIndex =
     (case FatReadDiskSectors s (ClusterLba + of_nat k) of
        Inl e \<Rightarrow> Some (Stored e s)
      | Inr bs \<Rightarrow> do {
          buf \<leftarrow> put_bytes buf 0 bs;
          es \<leftarrow> entries_of (unat (BytesPerSector (Vcb s)) div 32) buf;
          r \<leftarrow> slots_in_sector new buf 0 es Found TargetEntryIndex;
          case r of
            Slots buf \<Rightarrow> (case FatWriteDiskSectors s (ClusterLba + of_nat k) buf of (e, s) \<Rightarrow> Some (Stored e s))
          | MoreSlots Found TargetEntryIndex \<Rightarrow> slots_in_cluster s new ClusterLba (k + 1) n buf Found TargetEntryIndex })"

fun zero_sectors :: "VOLUME \<Rightarrow> u64 \<Rightarrow> nat \<Rightarrow> nat \<Rightarrow> u8 list \<Rightarrow> VOLUME" where
  "zero_sectors s ClusterLba k 0 buf = s"
| "zero_sectors s ClusterLba k (Suc n) buf =
     zero_sectors (snd (FatWriteDiskSectors s (ClusterLba + of_nat k) buf)) ClusterLba (k + 1) n buf"

partial_function (option) slots_in_chain :: "VOLUME \<Rightarrow> u8 list list \<Rightarrow> u8 list \<Rightarrow> nat \<Rightarrow> nat \<Rightarrow> u32 \<Rightarrow> (VEASTATUS \<times> VOLUME) option" where
  "slots_in_chain s new buf Found TargetEntryIndex CurrentCluster =
     (if \<not> FAT32_IS_EOF CurrentCluster \<and> CurrentCluster \<ge> 2 then
        Option.bind (slots_in_cluster s new (FAT32_CLUSTER_TO_LBA (Vcb s) CurrentCluster) 0
            (unat (SectorsPerCluster (Vcb s))) buf Found TargetEntryIndex) (\<lambda>r.
          case r of
            Stored e s \<Rightarrow> Some (e, give_pool s)
          | NoRoom buf Found TargetEntryIndex \<Rightarrow>
              Option.bind (FatpGetNextCluster s CurrentCluster) (\<lambda>(r, s).
                if isl r \<or> FAT32_IS_EOF (projr r) then
                  Option.bind (FatpAllocateCluster s) (\<lambda>(r, s).
                    case r of
                      Inl e \<Rightarrow> Some (STATUS_DISK_FULL, give_pool s)
                    | Inr NewDirCluster \<Rightarrow>
                        Option.bind (FatpSetNextCluster s CurrentCluster NewDirCluster) (\<lambda>(e, s).
                          let buf = replicate (unat (BytesPerSector (Vcb s))) 0;
                              s = zero_sectors s (FAT32_CLUSTER_TO_LBA (Vcb s) NewDirCluster) 0
                                (unat (SectorsPerCluster (Vcb s))) buf
                          in slots_in_chain s new buf 0 TargetEntryIndex NewDirCluster))
                else slots_in_chain s new buf Found TargetEntryIndex (projr r)))
      else Some (STATUS_DISK_FULL, give_pool s))"

text \<open>The entries the name needs, in their order on the disk.\<close>

definition new_entries :: "u8 list \<Rightarrow> u8 \<Rightarrow> u32 \<Rightarrow> u32 \<Rightarrow> u8 list list option" where
  "new_entries name attributes FirstCluster bytes = do {
     Sfn \<leftarrow> FatpGenerateSfn name;
     let LfnBuffer = replicate 20 zero_lfn;
     (LfnCount, LfnBuffer) \<leftarrow> (if FatpNeedsLfn name
        then FatpGenerateLfnEntries name (FatpCalculateSfnChecksum Sfn) LfnBuffer else Some (0, LfnBuffer));
     Some (map enc_lfn (take LfnCount LfnBuffer) @ [sfn_entry Sfn attributes FirstCluster bytes]) }"

definition FatpAddDirectoryEntry :: "VOLUME \<Rightarrow> u32 \<Rightarrow> u8 list \<Rightarrow> u8 \<Rightarrow> u32 \<Rightarrow> u32 \<Rightarrow> (VEASTATUS \<times> VOLUME) option" where
  "FatpAddDirectoryEntry s ParentDirCluster name attributes FirstCluster bytes = (
     let CurrentCluster = (if ParentDirCluster = 0 then RootDirStartCluster (Vcb s) else ParentDirCluster)
     in Option.bind (new_entries name attributes FirstCluster bytes) (\<lambda>new.
        case take_pool s of
          None \<Rightarrow> Some (STATUS_INSUFFICIENT_RESOURCES, s)
        | Some s1 \<Rightarrow> slots_in_chain s1 new (replicate (unat (BytesPerSector (Vcb s))) 0) 0 0 CurrentCluster))"

section \<open>The bytes of an entry\<close>

lemma length_enc_chars [simp]: "length (enc_chars cs) = 2 * length cs"
  by (induction cs) (simp_all add: enc_chars_def c16.enc_length)

lemma dec_chars_Suc: "dec_chars bs p (Suc n) = dec16 (take 2 (drop p bs)) # dec_chars bs (p + 2) n"
proof -
  have "[0..<Suc n] = 0 # map Suc [0..<n]" by (simp add: upt_conv_Cons map_Suc_upt del: upt_Suc)
  then show ?thesis by (simp add: dec_chars_def del: upt_Suc)
qed

lemma dec_enc_chars: "dec_chars (pre @ enc_chars cs @ post) (length pre) (length cs) = cs"
proof (induction cs arbitrary: pre)
  case Nil
  then show ?case by (simp add: dec_chars_def)
next
  case (Cons c cs)
  have "enc_chars (c # cs) = enc16 c @ enc_chars cs" by (simp add: enc_chars_def)
  moreover have "dec_chars ((pre @ enc16 c) @ enc_chars cs @ post) (length (pre @ enc16 c)) (length cs) = cs" by (rule Cons)
  ultimately show ?case by (simp add: dec_chars_Suc c16.enc_length c16.dec_enc)
qed

definition lfn_shape :: "FAT_LFN_ENTRY \<Rightarrow> bool" where
  "lfn_shape e \<longleftrightarrow> length (Name1 e) = 5 \<and> length (Name2 e) = 6 \<and> length (Name3 e) = 2"

lemma enc_lfn_bytes:
  assumes "lfn_shape e"
  shows "length (enc_lfn e) = 32" "enc_lfn e ! 0 = SequenceNumber e" "enc_lfn e ! 11 = LfnAttributes e"
    "enc_lfn e ! 12 = LfnType e" "enc_lfn e ! 13 = LfnSum e"
  using assms by (simp_all add: enc_lfn_def lfn_shape_def c16.enc_length nth_append)

lemma dec_enc_lfn:
  assumes "lfn_shape e"
  shows "dec_lfn (enc_lfn e) = e"
proof -
  note l = assms [unfolded lfn_shape_def]
  have 1: "dec_chars (enc_lfn e) 1 5 = Name1 e"
    using dec_enc_chars [of "[SequenceNumber e]" "Name1 e"] l by (simp add: enc_lfn_def)
  have 2: "dec_chars (enc_lfn e) 14 6 = Name2 e"
    using dec_enc_chars [of "[SequenceNumber e] @ enc_chars (Name1 e) @ [LfnAttributes e, LfnType e, LfnSum e]" "Name2 e"] l
    by (simp add: enc_lfn_def)
  have 3: "dec_chars (enc_lfn e) 28 2 = Name3 e"
    using dec_enc_chars [of "[SequenceNumber e] @ enc_chars (Name1 e) @ [LfnAttributes e, LfnType e, LfnSum e] @
      enc_chars (Name2 e) @ enc16 (LfnClusterLow e)" "Name3 e" "[]"] l
    by (simp add: enc_lfn_def c16.enc_length)
  have 4: "dec16 (take 2 (drop 26 (enc_lfn e))) = LfnClusterLow e"
    using l by (simp add: enc_lfn_def c16.enc_length c16.dec_enc)
  show ?thesis using 1 2 3 4 enc_lfn_bytes [OF assms] by (simp add: dec_lfn_def)
qed

lemma sfn_entry_bytes:
  assumes "length Sfn = 11"
  shows "length (sfn_entry Sfn a c b) = 32" "FileName (sfn_entry Sfn a c b) = Sfn" "Attributes (sfn_entry Sfn a c b) = a"
    "FileSize (sfn_entry Sfn a c b) = b"
    "MERGE_CLUSTER_HI_N_LO (FirstClusterHigh (sfn_entry Sfn a c b)) (FirstClusterLow (sfn_entry Sfn a c b)) = c"
proof -
  show "length (sfn_entry Sfn a c b) = 32" "FileName (sfn_entry Sfn a c b) = Sfn" "Attributes (sfn_entry Sfn a c b) = a"
    "FileSize (sfn_entry Sfn a c b) = b"
    using assms by (simp_all add: sfn_entry_def FileName_def Attributes_def FileSize_def c16.enc_length c32.enc_length c32.dec_enc nth_append)
  have "FirstClusterHigh (sfn_entry Sfn a c b) = ucast (drop_bit 16 c AND 0xFFFF)"
    "FirstClusterLow (sfn_entry Sfn a c b) = ucast (c AND 0xFFFF)"
    using assms by (simp_all add: sfn_entry_def FirstClusterHigh_def FirstClusterLow_def c16.enc_length c16.dec_enc)
  moreover have "MERGE_CLUSTER_HI_N_LO (ucast (drop_bit 16 c AND 0xFFFF)) (ucast (c AND 0xFFFF)) = c"
  proof -
    have m: "(0xFFFF :: u32) = mask 16" by (simp add: mask_eq_exp_minus_1)
    show ?thesis
      unfolding MERGE_CLUSTER_HI_N_LO_def m
      by (rule bit_eqI) (auto simp: bit_simps)
  qed
  ultimately show "MERGE_CLUSTER_HI_N_LO (FirstClusterHigh (sfn_entry Sfn a c b)) (FirstClusterLow (sfn_entry Sfn a c b)) = c" by simp
qed

section \<open>Reading a long name back\<close>

lemma seq_facts:
  assumes "1 \<le> n" "n \<le> 19"
  shows "(of_nat n :: u8) \<noteq> 0" "(of_nat n :: u8) \<noteq> 0xE5" "(of_nat n :: u8) AND 0x40 = 0" "unat ((of_nat n :: u8) AND 0x1F) = n"
    "(of_nat n :: u8) OR 0x40 \<noteq> 0" "(of_nat n :: u8) OR 0x40 \<noteq> 0xE5" "((of_nat n :: u8) OR 0x40) AND 0x40 \<noteq> 0"
    "unat (((of_nat n :: u8) OR 0x40) AND 0x1F) = n"
proof -
  have all: "list_all (\<lambda>n. (of_nat n :: u8) \<noteq> 0 \<and> (of_nat n :: u8) \<noteq> 0xE5 \<and> (of_nat n :: u8) AND 0x40 = 0 \<and>
      unat ((of_nat n :: u8) AND 0x1F) = n \<and> (of_nat n :: u8) OR 0x40 \<noteq> 0 \<and> (of_nat n :: u8) OR 0x40 \<noteq> 0xE5 \<and>
      ((of_nat n :: u8) OR 0x40) AND 0x40 \<noteq> 0 \<and> unat (((of_nat n :: u8) OR 0x40) AND 0x1F) = n) [1..<20]"
    by (simp add: upt_rec)
  have "n \<in> set [1..<20]" using assms by simp
  then show "(of_nat n :: u8) \<noteq> 0" "(of_nat n :: u8) \<noteq> 0xE5" "(of_nat n :: u8) AND 0x40 = 0" "unat ((of_nat n :: u8) AND 0x1F) = n"
    "(of_nat n :: u8) OR 0x40 \<noteq> 0" "(of_nat n :: u8) OR 0x40 \<noteq> 0xE5" "((of_nat n :: u8) OR 0x40) AND 0x40 \<noteq> 0"
    "unat (((of_nat n :: u8) OR 0x40) AND 0x1F) = n"
    using all unfolding list_all_iff by blast+
qed

lemma lfn_piece_shape: "1 \<le> k \<Longrightarrow> k * 13 \<le> length w \<Longrightarrow> lfn_shape (lfn_piece k n cs w)"
  by (cases k) (simp_all add: lfn_shape_def lfn_piece_def)

lemma extract_piece:
  assumes "1 \<le> k" "k * 13 \<le> length w" "k * 13 \<le> length b"
  shows "FatpExtractLfnChars (lfn_piece k n cs w) b ((k - 1) * 13) =
    Some (take ((k - 1) * 13) b @ take 13 (drop ((k - 1) * 13) w) @ drop (k * 13) b)"
proof -
  let ?o = "(k - 1) * 13"
  have o: "k * 13 = ?o + 13" using assms(1) by (cases k) auto
  define x where "x = drop ?o w"
  have lx: "13 \<le> length x" using assms(2) o by (simp add: x_def)
  have d: "drop (?o + 5) w = drop 5 x" "drop (?o + 11) w = drop 11 x" by (simp_all add: x_def add.commute)
  have x13: "take 13 x = take 5 x @ take 6 (drop 5 x) @ take 2 (drop 11 x)"
    using take_add [of 5 "6 + 2" x] take_add [of 6 2 "drop 5 x"] by simp
  have lb: "?o + 13 \<le> length b" using assms(3) o by simp
  show ?thesis
    unfolding FatpExtractLfnChars_def lfn_piece_def FAT_LFN_ENTRY.simps d x_def [symmetric] x13 o
    using lx lb by (simp add: put_chars_def add.commute)
qed

section \<open>Scanning the entries of a long name\<close>

definition scan_then :: "u8 list \<Rightarrow> u8 list \<Rightarrow> nat \<Rightarrow> u8 list list \<Rightarrow> scan_result \<Rightarrow> scan_result option" where
  "scan_then n f j fs r = (case r of GoOn st \<Rightarrow> scan_entries n f j fs st | _ \<Rightarrow> Some r)"

lemma scan_then_simps [simp]: "scan_then n f j fs (GoOn st) = scan_entries n f j fs st"
  "scan_then n f j fs EndOfDirectory = Some EndOfDirectory" "scan_then n f j fs (MatchAt k e) = Some (MatchAt k e)"
  by (simp_all add: scan_then_def)

lemma scan_append:
  "scan_entries n f i (es @ fs) st = Option.bind (scan_entries n f i es st) (scan_then n f (i + length es) fs)"
proof (induction n f i es st rule: scan_entries.induct)
  case (2 n f i e es st)
  have j: "i + 1 + length es = i + length (e # es)" by simp
  show ?case
    using "2.IH" unfolding j
    by (cases "lfn_step st (dec_lfn e)"; cases "sfn_step n f st e") auto
qed simp

text \<open>The state after the pieces with the numbers from \<open>n\<close> down to \<open>k + 1\<close>.\<close>

definition after_pieces :: "nat \<Rightarrow> nat \<Rightarrow> u8 \<Rightarrow> u16 list \<Rightarrow> LFN_STATE" where
  "after_pieces n k cs w = \<lparr>LfnBuffer = replicate (k * 13) 0 @ drop (k * 13) w @ replicate (256 - n * 13) 0,
     HasLfn = True, LfnChecksum = cs\<rparr>"

lemma piece_fields [simp]: "LfnAttributes (lfn_piece k n cs w) = FAT_ATTR_LFN" "LfnSum (lfn_piece k n cs w) = cs"
  "SequenceNumber (lfn_piece k n cs w) = (if k = n then of_nat k OR FAT_LFN_LAST_ENTRY else of_nat k)"
  by (simp_all add: lfn_piece_def)

lemma lfn_step_piece:
  assumes "1 \<le> k" "k \<le> n" "n \<le> 19" "length w = n * 13" "k < n \<Longrightarrow> st = after_pieces n k cs w"
  shows "lfn_step st (lfn_piece k n cs w) = Some (after_pieces n (k - 1) cs w)"
proof -
  let ?o = "(k - 1) * 13"
  have k19: "k \<le> 19" using assms by simp
  note sf = seq_facts [OF assms(1) k19]
  have o: "?o + 13 = k * 13" using assms(1) by (cases k) auto
  have kn: "k * 13 \<le> n * 13" using assms(2) by simp
  have o256: "?o + 13 < 256" using o k19 by simp
  define b where "b = (if k = n then replicate 256 0 else LfnBuffer (after_pieces n k cs w))"
  have b: "b = replicate (k * 13) 0 @ drop (k * 13) w @ replicate (256 - n * 13) 0"
  proof (cases "k = n")
    case True
    have "replicate 256 (0::u16) = replicate (n * 13 + (256 - n * 13)) 0" using assms(3) by simp
    then show ?thesis using True assms(4) unfolding replicate_add by (simp add: b_def)
  qed (simp add: b_def after_pieces_def)
  have lb: "length b = 256" using assms(3,4) kn by (simp add: b)
  have st: "(if SequenceNumber (lfn_piece k n cs w) AND FAT_LFN_LAST_ENTRY \<noteq> 0
      then \<lparr>LfnBuffer = replicate 256 0, HasLfn = True, LfnChecksum = LfnSum (lfn_piece k n cs w)\<rparr> else st) =
      \<lparr>LfnBuffer = b, HasLfn = True, LfnChecksum = cs\<rparr>"
  proof (cases "k = n")
    case True
    then show ?thesis using sf(7) by (simp add: FAT_LFN_LAST_ENTRY_def b_def)
  next
    case False
    then have "k < n" using assms(2) by simp
    then show ?thesis using sf(3) assms(5) False by (simp add: FAT_LFN_LAST_ENTRY_def b_def after_pieces_def)
  qed
  have seq: "unat (SequenceNumber (lfn_piece k n cs w) AND FAT_LFN_SEQ_MASK) = k"
    using sf(4,8) by (cases "k = n") (simp_all add: FAT_LFN_LAST_ENTRY_def FAT_LFN_SEQ_MASK_def)
  have ex: "FatpExtractLfnChars (lfn_piece k n cs w) b ?o = Some (take ?o b @ take 13 (drop ?o w) @ drop (k * 13) b)"
    using assms(1,4) kn lb k19 by (intro extract_piece) auto
  have "take ?o b @ take 13 (drop ?o w) @ drop (k * 13) b = replicate ?o 0 @ drop ?o w @ replicate (256 - n * 13) 0"
  proof -
    have "take ?o b = replicate ?o 0" using o by (simp add: b min_def)
    moreover have "drop (k * 13) b = drop (k * 13) w @ replicate (256 - n * 13) 0" by (simp add: b)
    moreover have "drop ?o w = take 13 (drop ?o w) @ drop (k * 13) w"
      using append_take_drop_id [of 13 "drop ?o w"] o by (simp add: add.commute)
    ultimately show ?thesis by simp
  qed
  then show ?thesis
    using assms(1) k19 o256 ex unfolding lfn_step_def Let_def st seq by (simp add: after_pieces_def)
qed

lemma scan_piece:
  assumes "1 \<le> k" "k \<le> n" "n \<le> 19" "length w = n * 13"
  shows "scan_entries nm f i (enc_lfn (lfn_piece k n cs w) # es) st =
    Option.bind (lfn_step st (lfn_piece k n cs w)) (scan_entries nm f (i + 1) es)"
proof -
  have k19: "k \<le> 19" using assms by simp
  have sh: "lfn_shape (lfn_piece k n cs w)" using assms by (intro lfn_piece_shape) auto
  note by' = enc_lfn_bytes [OF sh] dec_enc_lfn [OF sh]
  have "enc_lfn (lfn_piece k n cs w) ! 0 \<noteq> 0" "enc_lfn (lfn_piece k n cs w) ! 0 \<noteq> 0xE5"
    using seq_facts [OF assms(1) k19] unfolding by'(2) piece_fields FAT_LFN_LAST_ENTRY_def by auto
  moreover have "Attributes (enc_lfn (lfn_piece k n cs w)) = FAT_ATTR_LFN" by (simp add: Attributes_def by')
  ultimately show ?thesis by (simp add: by')
qed

lemma scan_pieces:
  assumes "1 \<le> m" "m \<le> n" "n \<le> 19" "length w = n * 13" "m < n \<Longrightarrow> st = after_pieces n m cs w"
  shows "scan_entries nm f i (map (\<lambda>j. enc_lfn (lfn_piece (m - j) n cs w)) [0..<m] @ es) st =
    scan_entries nm f (i + m) es (after_pieces n 0 cs w)"
  using assms
proof (induction m arbitrary: i st)
  case (Suc m)
  have step: "lfn_step st (lfn_piece (Suc m) n cs w) = Some (after_pieces n m cs w)"
    using lfn_step_piece [of "Suc m" n w st cs] Suc.prems by simp
  have l: "map (\<lambda>j. enc_lfn (lfn_piece (Suc m - j) n cs w)) [0..<Suc m] =
      enc_lfn (lfn_piece (Suc m) n cs w) # map (\<lambda>j. enc_lfn (lfn_piece (m - j) n cs w)) [0..<m]"
  proof -
    have "[0..<Suc m] = 0 # map Suc [0..<m]" by (simp add: upt_conv_Cons map_Suc_upt del: upt_Suc)
    then show ?thesis by (simp del: upt_Suc)
  qed
  have "scan_entries nm f i (enc_lfn (lfn_piece (Suc m) n cs w) # map (\<lambda>j. enc_lfn (lfn_piece (m - j) n cs w)) [0..<m] @ es) st =
      scan_entries nm f (i + 1) (map (\<lambda>j. enc_lfn (lfn_piece (m - j) n cs w)) [0..<m] @ es) (after_pieces n m cs w)"
    using scan_piece [of "Suc m" n w nm f i cs] Suc.prems step by simp
  also have "\<dots> = scan_entries nm f (i + Suc m) es (after_pieces n 0 cs w)"
  proof (cases m)
    case 0
    then show ?thesis by simp
  next
    case (Suc l)
    then show ?thesis using Suc.IH [of "after_pieces n m cs w" "i + 1"] Suc.prems by simp
  qed
  finally show ?case unfolding l by simp
qed simp

text \<open>The buffer then holds the name and a terminator.\<close>

lemma after_all_pieces:
  assumes "1 \<le> length xs" "length xs \<le> 247"
  shows "\<exists>b. LfnBuffer (after_pieces (lfn_count xs) 0 cs (take (lfn_count xs * 13) (wide_name xs))) = map ucast xs @ 0 # b"
proof -
  let ?n = "lfn_count xs"
  have n: "length xs \<le> ?n * 13" "?n * 13 \<le> 247" using lfn_count_le [OF assms(2)] lfn_count_ge by auto
  have b: "LfnBuffer (after_pieces ?n 0 cs (take (?n * 13) (wide_name xs))) = take (?n * 13) (wide_name xs) @ replicate (256 - ?n * 13) 0"
    by (simp add: after_pieces_def)
  show ?thesis
  proof (cases "length xs < ?n * 13")
    case True
    then obtain k where k: "?n * 13 = length xs + Suc k" by (metis add_Suc_right less_imp_Suc_add)
    have "take (?n * 13) (wide_name xs) = map ucast xs @ 0 # take k (replicate (256 - length xs) 0xFFFF)"
      unfolding k by (simp add: wide_name_def)
    then show ?thesis unfolding b by simp
  next
    case False
    then have "?n * 13 = length xs" using n by simp
    then have "take (?n * 13) (wide_name xs) = map ucast xs" by (simp add: wide_name_def)
    moreover have "replicate (256 - ?n * 13) (0::u16) = 0 # replicate (255 - ?n * 13) 0"
    proof -
      have "256 - ?n * 13 = Suc (255 - ?n * 13)" using n(2) by simp
      then show ?thesis by simp
    qed
    ultimately show ?thesis unfolding b by simp
  qed
qed

section \<open>Short names and case\<close>

abbreviation "upper xs \<equiv> map RtlUpperChar xs"

lemma lower_range: "97 \<le> c \<Longrightarrow> c \<le> 122 \<Longrightarrow> unat (c - 32) = unat c - 32 \<and> 97 \<le> unat c \<and> unat c \<le> 122" for c :: u8
  by (auto simp: word_le_nat_alt unat_sub_le)

lemma upper_keeps:
  assumes "\<not> (65 \<le> unat x \<and> unat x \<le> 90)" "\<not> (97 \<le> unat x \<and> unat x \<le> 122)"
  shows "RtlUpperChar c = x \<longleftrightarrow> c = x"
proof (cases "97 \<le> c \<and> c \<le> 122")
  case True
  note l = lower_range [OF conjunct1 [OF True] conjunct2 [OF True]]
  have "c - 32 \<noteq> x" using l assms(1) by auto
  moreover have "c \<noteq> x" using l assms(2) by auto
  ultimately show ?thesis using True by (simp add: RtlUpperChar_def)
qed (auto simp: RtlUpperChar_def)

lemma upper_special: "RtlUpperChar c = DOT \<longleftrightarrow> c = DOT" "RtlUpperChar c = 0 \<longleftrightarrow> c = 0" "RtlUpperChar c = 0xE5 \<longleftrightarrow> c = 0xE5"
  by (rule upper_keeps; simp add: DOT_def)+

lemma upper_dot: "RtlUpperChar c = RtlUpperChar d \<Longrightarrow> c = DOT \<longleftrightarrow> d = DOT"
  using upper_special(1) by metis

lemma sfn_name_upper:
  "upper xs = upper ys \<Longrightarrow>
   map_option (map_prod upper id) (sfn_name xs j S) = map_option (map_prod upper id) (sfn_name ys j S)"
proof (induction xs j S arbitrary: ys rule: sfn_name.induct)
  case (2 c cs j S)
  then obtain d ds where ys: "ys = d # ds" "RtlUpperChar c = RtlUpperChar d" "upper cs = upper ds" by (cases ys) auto
  have dot: "c = DOT \<longleftrightarrow> d = DOT" using upper_dot ys(2) by blast
  show ?case
  proof (cases "c \<noteq> DOT \<and> j < 8")
    case True
    then show ?thesis using ys dot "2.IH" [OF True, of "S[j := RtlUpperChar d]" ds] by (cases "j < length S") auto
  next
    case False
    then show ?thesis using ys dot by auto
  qed
qed simp

lemma sfn_extension_upper: "upper xs = upper ys \<Longrightarrow> sfn_extension xs j S = sfn_extension ys j S"
proof (induction xs j S arbitrary: ys rule: sfn_extension.induct)
  case (2 c cs j S)
  then obtain d ds where ys: "ys = d # ds" "RtlUpperChar c = RtlUpperChar d" "upper cs = upper ds" by (cases ys) auto
  show ?case using ys "2.IH" [of _ ds] by (cases "j < length S") auto
qed simp

lemma dropWhile_upper: "upper (dropWhile (\<lambda>c. c \<noteq> DOT) xs) = dropWhile (\<lambda>c. c \<noteq> DOT) (upper xs)"
  by (simp add: dropWhile_map o_def upper_special)

lemma FatpFormatSfn_upper:
  assumes "upper xs = upper ys"
  shows "FatpFormatSfn xs = FatpFormatSfn ys"
proof -
  obtain r S where a: "sfn_name xs 0 (replicate 11 SPACE) = Some (r, S)"
    using sfn_name_ok [of "replicate 11 SPACE" 0 xs] by auto
  obtain r' S' where b: "sfn_name ys 0 (replicate 11 SPACE) = Some (r', S')"
    using sfn_name_ok [of "replicate 11 SPACE" 0 ys] by auto
  have "S = S'" "upper r = upper r'" using sfn_name_upper [OF assms, of 0 "replicate 11 SPACE"] a b by auto
  then have d: "upper (dropWhile (\<lambda>c. c \<noteq> DOT) r) = upper (dropWhile (\<lambda>c. c \<noteq> DOT) r')" by (simp add: dropWhile_upper)
  let ?x = "dropWhile (\<lambda>c. c \<noteq> DOT) r" and ?y = "dropWhile (\<lambda>c. c \<noteq> DOT) r'"
  have e: "?x = [] \<longleftrightarrow> ?y = []" using d by (metis map_is_Nil_conv)
  have h: "?x \<noteq> [] \<Longrightarrow> hd ?x = DOT" "?y \<noteq> [] \<Longrightarrow> hd ?y = DOT"
    using hd_dropWhile [of "\<lambda>c. c \<noteq> DOT" r] hd_dropWhile [of "\<lambda>c. c \<noteq> DOT" r'] by simp_all
  have c: "(?x \<noteq> [] \<and> hd ?x = DOT) \<longleftrightarrow> (?y \<noteq> [] \<and> hd ?y = DOT)" using e h by blast
  have x: "sfn_extension (tl ?x) 8 S' = sfn_extension (tl ?y) 8 S'"
    by (rule sfn_extension_upper) (use d in \<open>metis map_tl\<close>)
  show ?thesis
    unfolding FatpFormatSfn_def Let_def a b bind.bind_lunit case_prod_conv \<open>S = S'\<close> by (rule if_cong [OF c x refl])
qed

section \<open>The characters of a short name\<close>

definition ext_part :: "u8 list \<Rightarrow> u8 list" where "ext_part xs = tl (dropWhile (\<lambda>c. c \<noteq> DOT) xs)"

lemma if_Some_cases: "(if P then x else Some y) = Some z \<Longrightarrow> z = y \<or> x = Some z"
  by (auto split: if_splits)

lemma set_replicate_11: "set (replicate 11 x) = {x}"
  by (rule set_replicate) simp

lemma FatpFormatSfn_cases:
  assumes "sfn_name xs 0 (replicate 11 SPACE) = Some (r, S1)" "FatpFormatSfn xs = Some S"
  shows "S = S1 \<or> sfn_extension (ext_part r) 8 S1 = Some S"
  using assms(2) unfolding FatpFormatSfn_def Let_def assms(1) bind.bind_lunit case_prod_conv ext_part_def [symmetric]
  by (rule if_Some_cases)

lemma FatpGenerateSfn_cases:
  assumes "tail_name xs 0 (replicate 11 SPACE) = Some (r, k, S1)" "length S1 = 11" "k \<le> 6" "FatpNeedsLfn xs" "FatpGenerateSfn xs = Some S"
  shows "S = S1[k := 0x7E, k + 1 := 0x31] \<or> tail_extension (ext_part r) 8 (S1[k := 0x7E, k + 1 := 0x31]) = Some S"
proof -
  have w: "wr S1 k 0x7E = Some (S1[k := 0x7E])" "wr (S1[k := 0x7E]) (k + 1) 0x31 = Some (S1[k := 0x7E, k + 1 := 0x31])"
    using assms(2,3) by simp_all
  have n: "\<not> \<not> FatpNeedsLfn xs" using assms(4) by simp
  show ?thesis
    using assms(5) unfolding FatpGenerateSfn_def if_not_P [OF n] Let_def assms(1) bind.bind_lunit case_prod_conv w ext_part_def [symmetric]
    by (rule if_Some_cases)
qed

lemma ext_part_set: "set (ext_part xs) \<subseteq> set xs"
  unfolding ext_part_def by (metis (no_types, lifting) set_dropWhileD subsetI list.set_sel(2) tl_Nil)

lemma sfn_name_set:
  "sfn_name xs j S = Some (r, S') \<Longrightarrow> set S' \<subseteq> set S \<union> RtlUpperChar ` set xs \<and> set r \<subseteq> set xs"
proof (induction xs j S rule: sfn_name.induct)
  case (2 c cs j S)
  show ?case
  proof (cases "c \<noteq> DOT \<and> j < 8")
    case True
    then have "sfn_name cs (j + 1) (S[j := RtlUpperChar c]) = Some (r, S')" "wr S j (RtlUpperChar c) = Some (S[j := RtlUpperChar c])"
      using "2.prems" by (auto simp: bind_eq_Some_conv wr_eq_Some_iff)
    then have "set S' \<subseteq> set (S[j := RtlUpperChar c]) \<union> RtlUpperChar ` set cs \<and> set r \<subseteq> set cs" using "2.IH" True by blast
    then show ?thesis using set_update_subset_insert [of S j "RtlUpperChar c"] by auto
  next
    case False
    then show ?thesis using "2.prems" by auto
  qed
qed auto

lemma sfn_extension_set: "sfn_extension xs j S = Some S' \<Longrightarrow> set S' \<subseteq> set S \<union> RtlUpperChar ` set xs"
proof (induction xs j S rule: sfn_extension.induct)
  case (2 c cs j S)
  show ?case
  proof (cases "j < 11")
    case True
    then have "sfn_extension cs (j + 1) (S[j := RtlUpperChar c]) = Some S'" "wr S j (RtlUpperChar c) = Some (S[j := RtlUpperChar c])"
      using "2.prems" by (auto simp: bind_eq_Some_conv wr_eq_Some_iff)
    then have "set S' \<subseteq> set (S[j := RtlUpperChar c]) \<union> RtlUpperChar ` set cs" using "2.IH" True by blast
    then show ?thesis using set_update_subset_insert [of S j "RtlUpperChar c"] by auto
  next
    case False
    then show ?thesis using "2.prems" by auto
  qed
qed auto

lemma tail_name_set:
  "tail_name xs j S = Some (r, k, S') \<Longrightarrow> set S' \<subseteq> set S \<union> RtlUpperChar ` set xs \<and> set r \<subseteq> set xs"
proof (induction xs j S rule: tail_name.induct)
  case (2 c cs j S)
  show ?case
  proof (cases "c \<noteq> DOT \<and> j < 6")
    case True
    show ?thesis
    proof (cases "c = SPACE")
      case True': True
      then show ?thesis using "2.IH"(1) [OF True True'] "2.prems" True by auto
    next
      case False
      then have "tail_name cs (j + 1) (S[j := RtlUpperChar c]) = Some (r, k, S')" "wr S j (RtlUpperChar c) = Some (S[j := RtlUpperChar c])"
        using "2.prems" True by (auto simp: bind_eq_Some_conv wr_eq_Some_iff)
      then have "set S' \<subseteq> set (S[j := RtlUpperChar c]) \<union> RtlUpperChar ` set cs \<and> set r \<subseteq> set cs" using "2.IH"(2) True False by blast
      then show ?thesis using set_update_subset_insert [of S j "RtlUpperChar c"] by auto
    qed
  next
    case False
    then show ?thesis using "2.prems" by auto
  qed
qed auto

lemma tail_extension_set: "tail_extension xs j S = Some S' \<Longrightarrow> set S' \<subseteq> set S \<union> RtlUpperChar ` set xs"
proof (induction xs j S rule: tail_extension.induct)
  case (2 c cs j S)
  show ?case
  proof (cases "j < 11")
    case True
    show ?thesis
    proof (cases "c = SPACE")
      case True': True
      then show ?thesis using "2.IH"(1) [OF True True'] "2.prems" True by auto
    next
      case False
      then have "tail_extension cs (j + 1) (S[j := RtlUpperChar c]) = Some S'" "wr S j (RtlUpperChar c) = Some (S[j := RtlUpperChar c])"
        using "2.prems" True by (auto simp: bind_eq_Some_conv wr_eq_Some_iff)
      then have "set S' \<subseteq> set (S[j := RtlUpperChar c]) \<union> RtlUpperChar ` set cs" using "2.IH"(2) True False by blast
      then show ?thesis using set_update_subset_insert [of S j "RtlUpperChar c"] by auto
    qed
  next
    case False
    then show ?thesis using "2.prems" by auto
  qed
qed auto

lemma FatpFormatSfn_set:
  assumes "FatpFormatSfn xs = Some S"
  shows "set S \<subseteq> insert SPACE (RtlUpperChar ` set xs)"
proof -
  obtain r S1 where a: "sfn_name xs 0 (replicate 11 SPACE) = Some (r, S1)"
    using sfn_name_ok [of "replicate 11 SPACE" 0 xs] by auto
  note b = sfn_name_set [OF a]
  have d: "set (ext_part r) \<subseteq> set xs" using ext_part_set b by blast
  have "set S \<subseteq> set S1 \<union> RtlUpperChar ` set (ext_part r)"
    using FatpFormatSfn_cases [OF a assms] sfn_extension_set by blast
  also have "\<dots> \<subseteq> (set (replicate 11 SPACE) \<union> RtlUpperChar ` set xs) \<union> RtlUpperChar ` set xs"
    using b d by (intro Un_mono image_mono) auto
  finally show ?thesis unfolding set_replicate_11 by simp
qed

lemma FatpGenerateSfn_set:
  assumes "FatpGenerateSfn xs = Some S"
  shows "set S \<subseteq> {SPACE, 0x7E, 0x31} \<union> RtlUpperChar ` set xs"
proof (cases "FatpNeedsLfn xs")
  case True
  obtain r k S1 where a: "tail_name xs 0 (replicate 11 SPACE) = Some (r, k, S1)" "length S1 = 11" "k \<le> 6"
    using tail_name_ok [of "replicate 11 SPACE" 0 xs] by auto
  note b = tail_name_set [OF a(1)]
  let ?S = "S1[k := 0x7E, k + 1 := 0x31]"
  have u: "set ?S \<subseteq> insert 0x31 (insert 0x7E (set S1))"
    using set_update_subset_insert [of "S1[k := 0x7E]" "k + 1" "0x31"] set_update_subset_insert [of S1 k "0x7E"] by blast
  have d: "set (ext_part r) \<subseteq> set xs" using ext_part_set b by blast
  have "set S \<subseteq> set ?S \<union> RtlUpperChar ` set (ext_part r)"
    using FatpGenerateSfn_cases [OF a True assms] tail_extension_set by blast
  also have "\<dots> \<subseteq> insert 0x31 (insert 0x7E (set S1)) \<union> RtlUpperChar ` set xs"
    using u d by (intro Un_mono image_mono)
  also have "\<dots> \<subseteq> insert 0x31 (insert 0x7E (set (replicate 11 SPACE) \<union> RtlUpperChar ` set xs)) \<union> RtlUpperChar ` set xs"
    using b by (intro Un_mono insert_mono) auto
  finally show ?thesis unfolding set_replicate_11 by auto
next
  case False
  then show ?thesis using FatpFormatSfn_set [of xs S] assms by (auto simp: FatpGenerateSfn_def)
qed

lemma sfn_first:
  assumes "FatpGenerateSfn xs = Some S" "0 \<notin> set xs" "0xE5 \<notin> set xs"
  shows "S ! 0 \<noteq> 0" "S ! 0 \<noteq> 0xE5"
proof -
  have "length S = 11" using FatpGenerateSfn_ok [of xs] assms(1) by auto
  then have "S ! 0 \<in> set S" by simp
  then have s: "S ! 0 \<in> {SPACE, 0x7E, 0x31} \<union> RtlUpperChar ` set xs" using FatpGenerateSfn_set [OF assms(1)] by blast
  have "RtlUpperChar c \<noteq> 0 \<and> RtlUpperChar c \<noteq> 0xE5" if "c \<in> set xs" for c
    using upper_special(2,3) [of c] that assms(2,3) by auto
  then show "S ! 0 \<noteq> 0" "S ! 0 \<noteq> 0xE5" using s by (auto simp: SPACE_def)
qed

section \<open>The entries of a new name\<close>

lemma needs_lfn_nonempty: "FatpNeedsLfn xs \<Longrightarrow> 1 \<le> length xs"
  by (cases xs) (simp_all add: FatpNeedsLfn_def)

abbreviation "lfn_wide name \<equiv> take (lfn_count name * 13) (wide_name name)"

definition lfn_part :: "u8 list \<Rightarrow> u8 list \<Rightarrow> u8 list list" where
  "lfn_part name Sfn = (if FatpNeedsLfn name
     then map (\<lambda>j. enc_lfn (lfn_piece (lfn_count name - j) (lfn_count name) (FatpCalculateSfnChecksum Sfn) (lfn_wide name))) [0..<lfn_count name]
     else [])"

lemma new_entries_ok:
  assumes "length name \<le> 247" "FatpGenerateSfn name = Some Sfn"
  shows "new_entries name a c b = Some (lfn_part name Sfn @ [sfn_entry Sfn a c b])"
proof (cases "FatpNeedsLfn name")
  case True
  let ?n = "lfn_count name"
  have "FatpGenerateLfnEntries name (FatpCalculateSfnChecksum Sfn) (replicate 20 zero_lfn) =
      Some (?n, lfn_pieces ?n (FatpCalculateSfnChecksum Sfn) (lfn_wide name) @ drop ?n (replicate 20 zero_lfn))"
    using assms(1) by (intro FatpGenerateLfnEntries_ok) simp_all
  then show ?thesis
    using True assms(2) by (simp add: new_entries_def Let_def lfn_part_def lfn_pieces_def o_def del: replicate_Suc)
next
  case False
  then show ?thesis using assms(2) by (simp add: new_entries_def Let_def lfn_part_def)
qed

lemma wide_length: "length name \<le> 247 \<Longrightarrow> length (lfn_wide name) = lfn_count name * 13"
  using lfn_count_le [of name] by (simp add: wide_name_def)

lemma new_entries_lengths:
  assumes "length name \<le> 247" "length Sfn = 11"
  shows "\<forall>e\<in>set (lfn_part name Sfn @ [sfn_entry Sfn a c b]). length e = 32"
    "length (lfn_part name Sfn @ [sfn_entry Sfn a c b]) \<le> 20"
proof -
  have "length (enc_lfn (lfn_piece (lfn_count name - j) (lfn_count name) (FatpCalculateSfnChecksum Sfn) (lfn_wide name))) = 32"
    if "j < lfn_count name" for j
    using that wide_length [OF assms(1)] by (intro enc_lfn_bytes(1) lfn_piece_shape) auto
  then show "\<forall>e\<in>set (lfn_part name Sfn @ [sfn_entry Sfn a c b]). length e = 32"
    using sfn_entry_bytes(1) [OF assms(2)] by (auto simp: lfn_part_def)
  show "length (lfn_part name Sfn @ [sfn_entry Sfn a c b]) \<le> 20"
    using lfn_count_le [OF assms(1)] by (simp add: lfn_part_def)
qed

lemma attr_ok: "a AND FAT_ATTR_VOLUME_ID = 0 \<Longrightarrow> a \<noteq> FAT_ATTR_LFN"
  by (auto simp: FAT_ATTR_VOLUME_ID_def FAT_ATTR_LFN_def)

lemma scan_sfn_entry:
  assumes "FatpGenerateSfn name = Some Sfn" "0 \<notin> set name" "0xE5 \<notin> set name" "a AND FAT_ATTR_VOLUME_ID = 0"
  shows "scan_entries other f i (sfn_entry Sfn a c b # es) st =
    Option.bind (sfn_step other f st (sfn_entry Sfn a c b)) (\<lambda>(Match, st).
      if Match then Some (MatchAt i (sfn_entry Sfn a c b)) else scan_entries other f (i + 1) es st)"
proof -
  have l: "length Sfn = 11" using FatpGenerateSfn_ok [of name] assms(1) by auto
  have "sfn_entry Sfn a c b ! 0 = Sfn ! 0" using l by (simp add: sfn_entry_def nth_append)
  then show ?thesis
    using sfn_first [OF assms(1-3)] sfn_entry_bytes(3) [OF l] assms(4) attr_ok [OF assms(4)] by simp
qed

text \<open>A long name is found by exactly the names that agree with it up to case, and by those with its short name.\<close>

lemma scan_long:
  assumes "length name \<le> 247" "0 \<notin> set name" "0xE5 \<notin> set name" "FatpNeedsLfn name"
    "FatpGenerateSfn name = Some Sfn" "a AND FAT_ATTR_VOLUME_ID = 0"
  shows "\<exists>st'. scan_entries other f i (lfn_part name Sfn @ sfn_entry Sfn a c b # es) st =
    (if upper name = upper other \<or> Sfn = f then Some (MatchAt (i + lfn_count name) (sfn_entry Sfn a c b))
     else scan_entries other f (i + lfn_count name + 1) es st')"
proof -
  let ?n = "lfn_count name" and ?cs = "FatpCalculateSfnChecksum Sfn"
  let ?A = "after_pieces ?n 0 ?cs (lfn_wide name)"
  have l: "length Sfn = 11" using FatpGenerateSfn_ok [of name] assms(5) by auto
  have ne: "1 \<le> length name" using needs_lfn_nonempty assms(4) .
  have n: "1 \<le> ?n" "?n \<le> 19" using ne lfn_count_le [OF assms(1)] lfn_count_ge(1) [of name] by (auto simp: Suc_le_eq intro!: gr0I)
  have 1: "scan_entries other f i (lfn_part name Sfn @ sfn_entry Sfn a c b # es) st =
      scan_entries other f (i + ?n) (sfn_entry Sfn a c b # es) ?A"
    unfolding lfn_part_def if_P [OF assms(4)] using n wide_length [OF assms(1)] by (intro scan_pieces) auto
  obtain bf where bf: "LfnBuffer ?A = map ucast name @ 0 # bf" using after_all_pieces [OF ne assms(1)] by blast
  have cmp: "FatpCompareLfnWithAnsi (LfnBuffer ?A) other = Some (upper name = upper other)"
    unfolding bf by (rule FatpCompareLfnWithAnsi_ok [OF assms(1,2)])
  have h: "HasLfn ?A" "LfnChecksum ?A = ?cs" by (simp_all add: after_pieces_def)
  have 2: "sfn_step other f ?A (sfn_entry Sfn a c b) = Some (upper name = upper other \<or> Sfn = f, ?A\<lparr>HasLfn := False\<rparr>)"
    unfolding sfn_step_def using h cmp sfn_entry_bytes(2) [OF l] by simp
  show ?thesis
    unfolding 1 scan_sfn_entry [OF assms(5,2,3,6)] 2 by auto
qed

text \<open>A short name is found by its own name whatever was in front of it, if the comparison of the remains of a long
  name in front of it stays in its buffer.\<close>

lemma lfn_length_total: "length b = 256 \<Longrightarrow> i \<le> 255 \<Longrightarrow> \<exists>n \<le> 255. lfn_length b i = Some n"
proof (induction "255 - i" arbitrary: i)
  case 0
  then show ?case by (subst lfn_length.simps) simp
next
  case (Suc k)
  then have i: "i < 255" "i < length b" by auto
  have "\<exists>n \<le> 255. lfn_length b (i + 1) = Some n" by (rule Suc.hyps) (use Suc i in auto)
  then show ?case using i by (subst lfn_length.simps) auto
qed

lemma compare_total: "length b = 256 \<Longrightarrow> \<exists>r. FatpCompareLfnWithAnsi b xs = Some r"
  using lfn_length_total [of b 0] by (auto simp: FatpCompareLfnWithAnsi_def)

lemma sfn_step_total:
  assumes "length (LfnBuffer st) = 256"
  shows "\<exists>m st'. sfn_step other f st e = Some (m, st') \<and> LfnBuffer st' = LfnBuffer st \<and> (FileName e = f \<longrightarrow> m)"
  using compare_total [OF assms, of other] by (auto simp: sfn_step_def)

lemma scan_short:
  assumes "0 \<notin> set name" "0xE5 \<notin> set name" "\<not> FatpNeedsLfn name"
    "FatpGenerateSfn name = Some Sfn" "a AND FAT_ATTR_VOLUME_ID = 0" "length (LfnBuffer st) = 256" "Sfn = f"
  shows "scan_entries other f i (lfn_part name Sfn @ sfn_entry Sfn a c b # es) st = Some (MatchAt i (sfn_entry Sfn a c b))"
proof -
  have l: "length Sfn = 11" using FatpGenerateSfn_ok [of name] assms(4) by auto
  obtain m st' where "sfn_step other f st (sfn_entry Sfn a c b) = Some (m, st')" "m"
    using sfn_step_total [OF assms(6), of other f "sfn_entry Sfn a c b"] sfn_entry_bytes(2) [OF l] assms(7) by auto
  then show ?thesis
    using assms(3) scan_sfn_entry [OF assms(4,1,2,5)] by (simp add: lfn_part_def)
qed

text \<open>The buffer keeps its length.\<close>

lemma lfn_step_length:
  assumes "length (LfnBuffer st) = 256" "lfn_step st e = Some st'"
  shows "length (LfnBuffer st') = 256"
proof -
  have put: "put_chars b p x = Some y \<Longrightarrow> length y = length b" for b p x y
    by (auto simp: put_chars_def split: if_splits)
  have "FatpExtractLfnChars e b p = Some y \<Longrightarrow> length y = length b" for b p y
    unfolding FatpExtractLfnChars_def by (auto simp: bind_eq_Some_conv dest!: put)
  then show ?thesis
    using assms by (auto simp: lfn_step_def Let_def bind_eq_Some_conv split: if_splits)
qed

lemma dec_lfn_shape: "lfn_shape (dec_lfn bs)"
  by (simp add: lfn_shape_def dec_lfn_def dec_chars_def)

lemma lfn_step_total:
  assumes "length (LfnBuffer st) = 256" "lfn_shape e"
  shows "\<exists>st'. lfn_step st e = Some st'"
proof -
  have ex: "\<exists>y. FatpExtractLfnChars e b p = Some y" if "length b = 256" "p + 13 < 256" for b p
    using that assms(2) unfolding FatpExtractLfnChars_def lfn_shape_def by (simp add: put_chars_def)
  define st1 where "st1 = (if SequenceNumber e AND FAT_LFN_LAST_ENTRY \<noteq> 0
      then \<lparr>LfnBuffer = replicate 256 0, HasLfn = True, LfnChecksum = LfnSum e\<rparr> else st)"
  let ?p = "(unat (SequenceNumber e AND FAT_LFN_SEQ_MASK) - 1) * 13"
  have l: "length (LfnBuffer st1) = 256" using assms(1) by (simp add: st1_def)
  show ?thesis
  proof (cases "?p + 13 < 256")
    case True
    obtain y where "FatpExtractLfnChars e (LfnBuffer st1) ?p = Some y" using ex [OF l True] by blast
    then show ?thesis unfolding lfn_step_def Let_def st1_def [symmetric] by simp
  next
    case False
    then show ?thesis unfolding lfn_step_def Let_def st1_def [symmetric] by simp
  qed
qed

lemma scan_length:
  "scan_entries n f i es st = Some (GoOn st') \<Longrightarrow> length (LfnBuffer st) = 256 \<Longrightarrow> length (LfnBuffer st') = 256"
proof (induction n f i es st rule: scan_entries.induct)
  case (2 n f i e es st)
  obtain m st1 where s: "sfn_step n f st e = Some (m, st1)" "LfnBuffer st1 = LfnBuffer st" using sfn_step_total [OF "2.prems"(2)] by blast
  obtain st2 where l: "lfn_step st (dec_lfn e) = Some st2" using lfn_step_total [OF "2.prems"(2) dec_lfn_shape] by blast
  have l2: "length (LfnBuffer st2) = 256" using lfn_step_length [OF "2.prems"(2) l] .
  show ?case using "2.prems" "2.IH" s l l2 by (auto split: if_splits)
qed simp

lemma scan_total: "length (LfnBuffer st) = 256 \<Longrightarrow> \<exists>r. scan_entries n f i es st = Some r"
proof (induction n f i es st rule: scan_entries.induct)
  case (2 n f i e es st)
  obtain m st1 where s: "sfn_step n f st e = Some (m, st1)" "LfnBuffer st1 = LfnBuffer st" using sfn_step_total [OF "2.prems"] by blast
  obtain st2 where l: "lfn_step st (dec_lfn e) = Some st2" using lfn_step_total [OF "2.prems" dec_lfn_shape] by blast
  have l2: "length (LfnBuffer st2) = 256" using lfn_step_length [OF "2.prems" l] .
  show ?case using "2.prems" "2.IH" s l l2 by auto
qed simp

section \<open>A directory as a list of entries\<close>

definition sector_entries :: "VOLUME \<Rightarrow> u64 \<Rightarrow> u8 list list" where
  "sector_entries s x = map (\<lambda>i. take 32 (drop (i * 32) (sec s x))) [0..<bsize s div 32]"

definition cluster_sectors :: "VOLUME \<Rightarrow> u32 \<Rightarrow> u64 list" where
  "cluster_sectors s c = map (\<lambda>k. sector_at s (FAT32_CLUSTER_TO_LBA (Vcb s) c + of_nat k)) [0..<unat (SectorsPerCluster (Vcb s))]"

definition dir_sectors :: "VOLUME \<Rightarrow> nat \<Rightarrow> u32 \<Rightarrow> u64 list" where
  "dir_sectors s n c = concat (map (cluster_sectors s) (chain s n c))"

definition dir_list :: "VOLUME \<Rightarrow> nat \<Rightarrow> u32 \<Rightarrow> u8 list list" where
  "dir_list s n c = concat (map (sector_entries s) (dir_sectors s n c))"

abbreviation "per_sector s \<equiv> bsize s div 32"
abbreviation "per_cluster s \<equiv> csize s div 32"

lemma per_sector: "volume_ok s \<Longrightarrow> per_sector s * 32 = bsize s \<and> 0 < per_sector s"
  using volume_okD(1) [of s] by auto

lemma per_cluster: "volume_ok s \<Longrightarrow> per_cluster s = unat (SectorsPerCluster (Vcb s)) * per_sector s \<and> 0 < per_cluster s"
proof -
  assume v: "volume_ok s"
  have "csize s = (unat (SectorsPerCluster (Vcb s)) * per_sector s) * 32"
    using cluster_size(1) [OF v] per_sector [OF v] by (metis mult.assoc mult.commute)
  then have "per_cluster s = unat (SectorsPerCluster (Vcb s)) * per_sector s" by simp
  then show ?thesis using per_sector [OF v] volume_okD(2) [OF v] by simp
qed

lemma length_sector_entries [simp]: "length (sector_entries s x) = per_sector s"
  by (simp add: sector_entries_def)

lemma length_flat [simp]: "length (concat (map (sector_entries s) xs)) = length xs * per_sector s"
  by (induction xs) simp_all

lemma length_cluster_sectors [simp]: "length (cluster_sectors s c) = unat (SectorsPerCluster (Vcb s))"
  by (simp add: cluster_sectors_def)

lemma length_cluster_entries: "volume_ok s \<Longrightarrow> length (concat (map (sector_entries s) (cluster_sectors s c))) = per_cluster s"
  using per_cluster [of s] by simp

lemma dir_list_Suc: "is_cluster s c \<Longrightarrow>
  dir_list s (Suc n) c = concat (map (sector_entries s) (cluster_sectors s c)) @ dir_list s n (next_cluster s c)"
  by (simp add: dir_list_def dir_sectors_def)

lemma sec_Inr: "disk_works s \<Longrightarrow> Disk s x = Inr (sec s x)"
  by (auto simp: disk_works_def sec_def split: sum.splits) (metis sum.distinct(1))

lemma entries_of_sector:
  assumes "volume_ok s" "disk_works s" "length rest = m"
  shows "entries_of (per_sector s) (sec s x @ rest) = Some (sector_entries s x)"
proof -
  have l: "length (sec s x) = per_sector s * 32" using length_sec [OF assms(1,2)] per_sector [OF assms(1)] by simp
  have "take 32 (drop (i * 32) (sec s x @ rest)) = take 32 (drop (i * 32) (sec s x))" if "i < per_sector s" for i
  proof -
    have "(i + 1) * 32 \<le> per_sector s * 32" using that by (intro mult_right_mono) auto
    then show ?thesis using l by simp
  qed
  then show ?thesis using l by (simp add: entries_of_def sector_entries_def)
qed

section \<open>The search is a scan of the list\<close>

definition shift :: "nat \<Rightarrow> scan_result \<Rightarrow> scan_result" where
  "shift d r = (case r of MatchAt j e \<Rightarrow> MatchAt (j + d) e | _ \<Rightarrow> r)"

lemma shift_simps [simp]: "shift d (MatchAt j e) = MatchAt (j + d) e" "shift d EndOfDirectory = EndOfDirectory" "shift d (GoOn st) = GoOn st"
  by (simp_all add: shift_def)

lemma scan_shift: "scan_entries n f (i + d) es st = map_option (shift d) (scan_entries n f i es st)"
proof (induction n f i es st rule: scan_entries.induct)
  case (2 n f i e es st)
  have j: "i + d + 1 = i + 1 + d" by simp
  show ?case
    unfolding scan_entries.simps j
    using "2.IH" by (cases "lfn_step st (dec_lfn e)"; cases "sfn_step n f st e") auto
qed simp

definition found_at :: "nat \<Rightarrow> nat \<Rightarrow> u8 list \<Rightarrow> scan_result \<Rightarrow> search_out" where
  "found_at k b buf r = (case r of EndOfDirectory \<Rightarrow> Failed STATUS_OBJECT_NAME_NOT_FOUND
     | MatchAt j e \<Rightarrow> Hit e (of_nat (k * b + j * 32)) | GoOn st \<Rightarrow> NotHere buf st)"

lemma search_sectors_ok:
  assumes "volume_ok s" "disk_works s" "length buf = 4096" "length (LfnBuffer st) = 256"
  shows "\<exists>buf'. length buf' = 4096 \<and> search_sectors s nm f l k n buf st =
    map_option (found_at k (bsize s) buf')
      (scan_entries nm f 0 (concat (map (\<lambda>k. sector_entries s (sector_at s (l + of_nat k))) [k..<k + n])) st)"
  using assms(3,4)
proof (induction n arbitrary: k buf st)
  case 0
  then show ?case by (auto simp: found_at_def)
next
  case (Suc n)
  let ?x = "sector_at s (l + of_nat k)" and ?b = "bsize s" and ?e = "per_sector s"
  define R where "R = concat (map (\<lambda>k. sector_entries s (sector_at s (l + of_nat k))) [Suc k..<Suc k + n])"
  let ?buf = "sec s ?x @ drop ?b buf"
  have b: "?b \<le> 4096" "?e * 32 = ?b" using sector_size(2) [OF assms(1)] per_sector [OF assms(1)] by auto
  have lx: "length (sec s ?x) = ?b" using length_sec assms(1,2) by blast
  have rd: "FatReadDiskSectors s (l + of_nat k) = Inr (sec s ?x)"
    using sec_Inr [OF assms(2)] by (simp add: FatReadDiskSectors_def)
  have put: "put_bytes buf 0 (sec s ?x) = Some ?buf" using lx b Suc.prems by (subst put_bytes_over) simp_all
  have lb: "length ?buf = 4096" using lx b Suc.prems by simp
  have es: "entries_of ?e ?buf = Some (sector_entries s ?x)" using entries_of_sector [OF assms(1,2) refl] .
  have all: "concat (map (\<lambda>k. sector_entries s (sector_at s (l + of_nat k))) [k..<k + Suc n]) = sector_entries s ?x @ R"
  proof -
    have "[k..<k + Suc n] = k # [Suc k..<Suc k + n]" by (simp add: upt_conv_Cons)
    then show ?thesis unfolding R_def by simp
  qed
  have unf: "search_sectors s nm f l k (Suc n) buf st =
    Option.bind (scan_entries nm f 0 (sector_entries s ?x) st) (\<lambda>r. case r of
       EndOfDirectory \<Rightarrow> Some (Failed STATUS_OBJECT_NAME_NOT_FOUND)
     | MatchAt i e \<Rightarrow> Some (Hit e (of_nat k * BytesPerSector (Vcb s) + of_nat i * 32))
     | GoOn st \<Rightarrow> search_sectors s nm f l (k + 1) n ?buf st)"
    unfolding search_sectors.simps rd sum.case put bind.bind_lunit es ..
  obtain r where r: "scan_entries nm f 0 (sector_entries s ?x) st = Some r" using scan_total [OF Suc.prems(2)] by blast
  show ?case
  proof (cases r)
    case (GoOn st')
    have l': "length (LfnBuffer st') = 256" using scan_length r GoOn Suc.prems(2) by blast
    obtain buf' where buf': "length buf' = 4096" "search_sectors s nm f l (k + 1) n ?buf st' =
        map_option (found_at (k + 1) ?b buf') (scan_entries nm f 0 R st')"
      using Suc.IH [OF lb l', of "k + 1"] unfolding R_def by auto
    have "scan_entries nm f 0 (sector_entries s ?x @ R) st = map_option (shift ?e) (scan_entries nm f 0 R st')"
      unfolding scan_append r GoOn using scan_shift [of nm f 0 ?e R st'] by simp
    moreover have "(\<lambda>r. found_at k ?b buf' (shift ?e r)) = found_at (k + 1) ?b buf'"
    proof
      fix r
      have "(k + 1) * ?b + j * 32 = k * ?b + (j + ?e) * 32" for j using b(2) by (simp add: distrib_right)
      then show "found_at k ?b buf' (shift ?e r) = found_at (k + 1) ?b buf' r"
        by (cases r) (simp_all add: found_at_def add_ac del: of_nat_add of_nat_mult)
    qed
    ultimately show ?thesis
      unfolding unf r all using buf' GoOn by (intro exI [of _ buf'] conjI) (simp_all add: option.map_comp o_def)
  next
    case (MatchAt j e)
    have "of_nat k * BytesPerSector (Vcb s) + of_nat j * 32 = (of_nat (k * ?b + j * 32) :: u32)" by simp
    then show ?thesis
      using lb unfolding unf all scan_append r MatchAt
      by (intro exI [of _ ?buf] conjI) (simp_all add: found_at_def del: of_nat_add of_nat_mult)
  next
    case EndOfDirectory
    show ?thesis
      using lb unfolding unf all scan_append r EndOfDirectory by (intro exI [of _ ?buf] conjI) (simp_all add: found_at_def)
  qed
qed

text \<open>A chain that ends after \<open>n\<close> clusters.\<close>

definition chain_ends :: "VOLUME \<Rightarrow> nat \<Rightarrow> u32 \<Rightarrow> bool" where
  "chain_ends s n c \<longleftrightarrow> length (chain s n c) = n \<and> FAT32_IS_EOF ((next_cluster s ^^ n) c)"

lemma chain_ends_Suc: "chain_ends s (Suc n) c \<longleftrightarrow> is_cluster s c \<and> chain_ends s n (next_cluster s c)"
  unfolding chain_ends_def chain_full_Suc by (simp add: funpow_swap1)

definition search_reply :: "VOLUME \<Rightarrow> u32 list \<Rightarrow> nat \<Rightarrow> scan_result \<Rightarrow> (VEASTATUS + u8 list \<times> u32 \<times> u32) \<times> VOLUME" where
  "search_reply s cs per r = (case r of
     EndOfDirectory \<Rightarrow> (Inl STATUS_OBJECT_NAME_NOT_FOUND, s)
   | MatchAt j e \<Rightarrow> (Inr (e, cs ! (j div per), of_nat (j mod per * 32)), give_pool s)
   | GoOn st \<Rightarrow> (Inl STATUS_OBJECT_NAME_NOT_FOUND, give_pool s))"

lemma search_chain_ok:
  assumes "volume_ok s" "disk_works s" "0 < PoolFree s"
    and "chain_ends s n c" "length buf = 4096" "length (LfnBuffer st) = 256"
  shows "search_chain s nm f buf st c =
    map_option (search_reply s (chain s n c) (per_cluster s)) (scan_entries nm f 0 (dir_list s n c) st)"
  using assms(4-6)
proof (induction n arbitrary: c buf st)
  case 0
  then show ?case
    by (subst search_chain.simps) (simp add: chain_ends_def dir_list_def dir_sectors_def search_reply_def)
next
  case (Suc n)
  let ?es = "concat (map (sector_entries s) (cluster_sectors s c))" and ?z = "per_cluster s"
  have c: "is_cluster s c" "chain_ends s n (next_cluster s c)" using Suc.prems(1) unfolding chain_ends_Suc by auto
  have cw: "\<not> FAT32_IS_EOF c \<and> c \<noteq> 0"
    using is_cluster_word [OF assms(1) c(1)] c(1) by (auto simp: is_cluster_def)
  have es: "concat (map (\<lambda>k. sector_entries s (sector_at s (FAT32_CLUSTER_TO_LBA (Vcb s) c + of_nat k)))
      [0..<0 + unat (SectorsPerCluster (Vcb s))]) = ?es"
    by (simp add: cluster_sectors_def o_def)
  have "\<exists>buf'. length buf' = 4096 \<and> search_sectors s nm f (FAT32_CLUSTER_TO_LBA (Vcb s) c) 0 (unat (SectorsPerCluster (Vcb s))) buf st =
      map_option (found_at 0 (bsize s) buf') (scan_entries nm f 0 ?es st)"
    using search_sectors_ok [OF assms(1,2) Suc.prems(2,3), of nm f "FAT32_CLUSTER_TO_LBA (Vcb s) c" 0 "unat (SectorsPerCluster (Vcb s))"]
    unfolding es .
  then obtain buf' where "length buf' = 4096 \<and> search_sectors s nm f (FAT32_CLUSTER_TO_LBA (Vcb s) c) 0 (unat (SectorsPerCluster (Vcb s))) buf st =
      map_option (found_at 0 (bsize s) buf') (scan_entries nm f 0 ?es st)" ..
  note buf' = conjunct1 [OF this] conjunct2 [OF this]
  have g: "FatpGetNextCluster s c = Some (Inr (next_cluster s c), s)" using get_next assms(1-3) c(1) by blast
  obtain r where r: "scan_entries nm f 0 ?es st = Some r" using scan_total [OF Suc.prems(3)] by blast
  have unf: "search_chain s nm f buf st c = (case found_at 0 (bsize s) buf' r of
       Failed e \<Rightarrow> Some (Inl e, s) | Hit e off \<Rightarrow> Some (Inr (e, c, off), give_pool s)
     | NotHere buf st \<Rightarrow> search_chain s nm f buf st (next_cluster s c))"
    using cw g by (subst search_chain.simps) (simp add: buf' r split: search_out.splits)
  have d: "dir_list s (Suc n) c = ?es @ dir_list s n (next_cluster s c)" using dir_list_Suc c(1) .
  have ch: "chain s (Suc n) c = c # chain s n (next_cluster s c)" using c(1) by simp
  have le: "length ?es = ?z" using length_cluster_entries [OF assms(1)] .
  have z: "0 < ?z" using per_cluster [OF assms(1)] by blast
  show ?case
  proof (cases r)
    case (GoOn st')
    have l': "length (LfnBuffer st') = 256" using scan_length r GoOn Suc.prems(3) by blast
    have "scan_entries nm f 0 (dir_list s (Suc n) c) st = map_option (shift ?z) (scan_entries nm f 0 (dir_list s n (next_cluster s c)) st')"
      unfolding d scan_append r GoOn using scan_shift [of nm f 0 ?z] le by simp
    moreover have "search_reply s (chain s n (next_cluster s c)) ?z q = search_reply s (chain s (Suc n) c) ?z (shift ?z q)" for q
    proof -
      have z0: "?z \<noteq> 0" using z by linarith
      have "(j + ?z) div ?z = j div ?z + 1" for j by (rule div_add_self2 [OF z0])
      then show ?thesis unfolding ch by (cases q) (simp_all add: search_reply_def)
    qed
    ultimately show ?thesis
      unfolding unf GoOn using Suc.IH [OF c(2) buf'(1) l'] by (simp add: found_at_def option.map_comp o_def)
  next
    case (MatchAt j e)
    have "j < ?z"
    proof -
      have "scan_entries nm f i es st = Some (MatchAt j e) \<Longrightarrow> j < i + length es" for i es st
      proof (induction nm f i es st rule: scan_entries.induct)
        case (2 n f i e' es st)
        then show ?case by (cases "lfn_step st (dec_lfn e')"; cases "sfn_step n f st e'") (auto split: if_splits)
      qed simp
      from this [OF r [unfolded MatchAt]] show ?thesis using le by simp
    qed
    then show ?thesis
      unfolding unf d scan_append r MatchAt using c(1) by (simp add: found_at_def search_reply_def)
  next
    case EndOfDirectory
    then show ?thesis unfolding unf d scan_append r by (simp add: found_at_def search_reply_def)
  qed
qed

lemma pool_simps [simp]: "table_offset (s\<lparr>PoolFree := p\<rparr>) = table_offset s" "is_cluster (s\<lparr>PoolFree := p\<rparr>) = is_cluster s"
  "volume_ok (s\<lparr>PoolFree := p\<rparr>) = volume_ok s" "disk_works (s\<lparr>PoolFree := p\<rparr>) = disk_works s"
  by (simp_all add: table_offset_def is_cluster_def volume_ok_def Let_def disk_works_def fun_eq_iff)

lemma pool_next [simp]: "next_cluster (s\<lparr>PoolFree := p\<rparr>) = next_cluster s"
  unfolding next_cluster_def fat_raw_def fat_copy_def pool_simps by simp

lemma pool_chain [simp]: "chain (s\<lparr>PoolFree := p\<rparr>) m x = chain s m x"
  by (induction m arbitrary: x) simp_all

lemma pool_sectors [simp]: "sector_entries (s\<lparr>PoolFree := p\<rparr>) = sector_entries s" "cluster_sectors (s\<lparr>PoolFree := p\<rparr>) = cluster_sectors s"
  by (simp_all add: sector_entries_def cluster_sectors_def sec_def fun_eq_iff)

lemma pool_dir [simp]: "dir_list (s\<lparr>PoolFree := p\<rparr>) n c = dir_list s n c"
  unfolding dir_list_def dir_sectors_def pool_sectors pool_chain ..

lemma FatpSearchDirectory_ok:
  assumes "volume_ok s" "disk_works s" "2 \<le> PoolFree s" "FatpFormatSfn nm = Some f"
    and c: "c = (if d = 0 then RootDirStartCluster (Vcb s) else d)" "chain_ends s n c"
  shows "FatpSearchDirectory s d nm =
    (case scan_entries nm f 0 (dir_list s n c) fresh_lfn of
       None \<Rightarrow> None
     | Some EndOfDirectory \<Rightarrow> Some (Inl STATUS_OBJECT_NAME_NOT_FOUND, s\<lparr>PoolFree := PoolFree s - 1\<rparr>)
     | Some (MatchAt j e) \<Rightarrow> Some (Inr (e, chain s n c ! (j div per_cluster s), of_nat (j mod per_cluster s * 32)), s)
     | Some (GoOn st) \<Rightarrow> Some (Inl STATUS_OBJECT_NAME_NOT_FOUND, s))"
proof -
  let ?s = "s\<lparr>PoolFree := PoolFree s - 1\<rparr>"
  have tp: "take_pool s = Some ?s" and gp: "give_pool ?s = s" using assms(3) by (simp_all add: take_pool_def give_pool_def)
  have same: "volume_ok ?s" "disk_works ?s" "0 < PoolFree ?s"
    using assms(1-3) by (simp_all add: volume_ok_def Let_def disk_works_def)
  have dl: "dir_list ?s n c = dir_list s n c" by simp
  have ce: "chain_ends ?s n c" using c(2) by (simp add: chain_ends_def)
  have "FatpSearchDirectory s d nm = search_chain ?s nm f (replicate 4096 0) fresh_lfn c"
    unfolding FatpSearchDirectory_def Let_def assms(4) bind.bind_lunit tp option.case c(1) ..
  also have "\<dots> = map_option (search_reply ?s (chain ?s n c) (per_cluster ?s)) (scan_entries nm f 0 (dir_list ?s n c) fresh_lfn)"
    by (rule search_chain_ok [OF same ce]) (simp_all add: fresh_lfn_def)
  finally show ?thesis
    unfolding dl by (auto simp: search_reply_def gp [unfolded One_nat_def] split: option.splits scan_result.splits)
qed

section \<open>Free entries in a row\<close>

text \<open>The reference of the search for room: the index of the entry that completes a run of \<open>m\<close> free entries, or
  the length of the run at the end.\<close>

fun slot_run :: "nat \<Rightarrow> u8 list list \<Rightarrow> nat \<Rightarrow> nat \<Rightarrow> nat + nat" where
  "slot_run m [] i f = Inr f"
| "slot_run m (e # es) i f =
     (if is_free_entry e then (if f + 1 = m then Inl i else slot_run m es (i + 1) (f + 1)) else slot_run m es (i + 1) 0)"

lemma slot_run_append:
  "slot_run m (xs @ ys) i f = (case slot_run m xs i f of Inl j \<Rightarrow> Inl j | Inr f' \<Rightarrow> slot_run m ys (i + length xs) f')"
  by (induction m xs i f rule: slot_run.induct) (auto split: sum.splits)

lemma slot_run_shift: "slot_run m es (i + d) f = map_sum (\<lambda>j. j + d) id (slot_run m es i f)"
proof (induction m es i f rule: slot_run.induct)
  case (2 m e es i f)
  have j: "i + d + 1 = i + 1 + d" by simp
  show ?case unfolding slot_run.simps j using "2.IH" by simp
qed simp

lemma slot_run_bounds:
  "slot_run m es i f = Inl j \<Longrightarrow> i \<le> j \<and> j < i + length es \<and> m \<le> j + 1 + f - i"
proof (induction m es i f arbitrary: rule: slot_run.induct)
  case (2 m e es i f)
  then show ?case by (auto split: if_splits)
qed simp

lemma slot_run_count: "slot_run m es i f = Inr f' \<Longrightarrow> f' \<le> f + length es"
  by (induction m es i f rule: slot_run.induct) (auto split: if_splits)

text \<open>All entries of the run are free.\<close>

lemma slot_run_free:
  "slot_run m es i f = Inl j \<Longrightarrow> j + 1 < m + i + 1 + k \<Longrightarrow> k < length es \<Longrightarrow> i + k \<le> j \<Longrightarrow> is_free_entry (es ! k)"
proof (induction m es i f arbitrary: k rule: slot_run.induct)
  case (2 m e es i f)
  show ?case
  proof (cases "is_free_entry e")
    case True
    show ?thesis
    proof (cases k)
      case (Suc l)
      then show ?thesis using 2 True by (auto split: if_splits)
    qed (use True in simp)
  next
    case False
    then have r: "slot_run m es (i + 1) 0 = Inl j" using "2.prems"(1) by simp
    have "m \<le> j - i" using slot_run_bounds [OF r] by simp
    then have "k \<noteq> 0" using "2.prems"(2) slot_run_bounds [OF r] by auto
    then obtain l where "k = Suc l" by (cases k) auto
    then show ?thesis using "2.IH"(2) [OF False r, of l] "2.prems" by simp
  qed
qed simp

section \<open>One sector\<close>

lemma put_bytes_at:
  "length bs = n \<Longrightarrow> p + n \<le> length m \<Longrightarrow> put_bytes m p bs = Some (take p m @ bs @ drop (p + n) m)"
  by (simp add: put_bytes_def)

lemma write_entries_ok:
  assumes "\<forall>e\<in>set new. length e = 32" "(i + length new) * 32 \<le> length buf"
  shows "write_entries buf i new = Some (take (i * 32) buf @ concat new @ drop ((i + length new) * 32) buf)"
  using assms
proof (induction new arbitrary: buf i)
  case (Cons e es)
  let ?buf = "take (i * 32) buf @ e @ drop (i * 32 + 32) buf"
  have le: "i * 32 + 32 + length es * 32 \<le> length buf" using Cons.prems(2) by simp
  have e: "length e = 32" using Cons.prems(1) by simp
  have put: "put_bytes buf (i * 32) e = Some ?buf" using le e by (intro put_bytes_at) simp_all
  have "write_entries ?buf (i + 1) es = Some (take ((i + 1) * 32) ?buf @ concat es @ drop ((i + 1 + length es) * 32) ?buf)"
    using Cons.prems le e by (intro Cons.IH) auto
  moreover have "take ((i + 1) * 32) ?buf = take (i * 32) buf @ e" using le e by simp
  moreover have "drop ((i + 1 + length es) * 32) ?buf = drop ((i + length (e # es)) * 32) buf"
    using le e by (simp add: add.commute add.left_commute)
  ultimately show ?case using put by simp
qed simp

lemma write_entries_None:
  assumes "\<forall>e\<in>set new. length e = 32" "length buf < (i + length new) * 32" "new \<noteq> []"
  shows "write_entries buf i new = None"
  using assms
proof (induction new arbitrary: buf i)
  case (Cons e es)
  show ?case
  proof (cases "put_bytes buf (i * 32) e")
    case (Some buf')
    have "length buf' = length buf" using length_put_bytes [OF Some] .
    moreover have "i * 32 + 32 \<le> length buf" using Some Cons.prems(1) by (auto simp: put_bytes_def split: if_splits)
    then have "es \<noteq> []" using Cons.prems(2) by auto
    ultimately have "write_entries buf' (i + 1) es = None" using Cons.prems by (intro Cons.IH) auto
    then show ?thesis using Some by simp
  qed simp
qed simp

lemma slots_in_sector_ok:
  assumes "0 < f \<and> f \<le> i \<Longrightarrow> t = i - f"
  shows "\<exists>t'. slots_in_sector new buf i es f t = (case slot_run (length new) es i f of
      Inl j \<Rightarrow> map_option Slots (write_entries buf (if length new \<le> j + 1 then j + 1 - length new else t) new)
    | Inr f' \<Rightarrow> Some (MoreSlots f' t')) \<and>
    (\<forall>f'. slot_run (length new) es i f = Inr f' \<longrightarrow>
      (0 < f' \<and> f' \<le> i + length es \<longrightarrow> t' = i + length es - f') \<and> (i + length es < f' \<longrightarrow> t' = t))"
  using assms
proof (induction es arbitrary: i f t)
  case Nil
  then show ?case by auto
next
  case (Cons e es)
  show ?case
  proof (cases "is_free_entry e")
    case True
    define t1 where "t1 = (if f = 0 then i else t)"
    have inv: "t1 = i + 1 - (f + 1)" if "0 < f + 1 \<and> f + 1 \<le> i + 1" using that Cons.prems by (auto simp: t1_def)
    have t1: "i < f \<Longrightarrow> t1 = t" by (simp add: t1_def)
    show ?thesis
    proof (cases "f + 1 = length new")
      case True': True
      have "(if length new \<le> i + 1 then i + 1 - length new else t) = t1"
        using inv t1 True' by auto
      then show ?thesis using True True' by (simp add: Let_def t1_def [symmetric])
    next
      case False
      obtain t' where t': "slots_in_sector new buf (i + 1) es (f + 1) t1 = (case slot_run (length new) es (i + 1) (f + 1) of
          Inl j \<Rightarrow> map_option Slots (write_entries buf (if length new \<le> j + 1 then j + 1 - length new else t1) new)
        | Inr f' \<Rightarrow> Some (MoreSlots f' t'))"
        "\<forall>f'. slot_run (length new) es (i + 1) (f + 1) = Inr f' \<longrightarrow>
          (0 < f' \<and> f' \<le> i + 1 + length es \<longrightarrow> t' = i + 1 + length es - f') \<and> (i + 1 + length es < f' \<longrightarrow> t' = t1)"
        using Cons.IH [of "f + 1" "i + 1" t1] inv by blast
      have far: "i < f" if "slot_run (length new) es (i + 1) (f + 1) = Inl j" "\<not> length new \<le> j + 1" for j
        using slot_run_bounds [OF that(1)] that(2) by arith
      have far': "i < f" if "slot_run (length new) es (i + 1) (f + 1) = Inr f'" "i + 1 + length es < f'" for f'
        using slot_run_count [OF that(1)] that(2) by simp
      have "slots_in_sector new buf i (e # es) f t = slots_in_sector new buf (i + 1) es (f + 1) t1"
        using True False by (simp add: Let_def t1_def)
      also have "\<dots> = (case slot_run (length new) (e # es) i f of
          Inl j \<Rightarrow> map_option Slots (write_entries buf (if length new \<le> j + 1 then j + 1 - length new else t) new)
        | Inr f' \<Rightarrow> Some (MoreSlots f' t'))"
        using True False t'(1) far t1 by (auto split: sum.splits)
      finally show ?thesis using True False t'(2) far' t1 by auto
    qed
  next
    case False
    have "slots_in_sector new buf i (e # es) f t = slots_in_sector new buf (i + 1) es 0 t"
      "slot_run (length new) (e # es) i f = slot_run (length new) es (i + 1) 0" using False by simp_all
    moreover have "length new \<le> j + 1" if "slot_run (length new) es (i + 1) 0 = Inl j" for j
      using slot_run_bounds [OF that] by arith
    ultimately show ?thesis using Cons.IH [of 0 "i + 1" t] by simp
  qed
qed

section \<open>The loops over sectors and clusters\<close>

text \<open>The volume with new entries from index \<open>p\<close> on in one sector.\<close>

definition store :: "VOLUME \<Rightarrow> u64 \<Rightarrow> nat \<Rightarrow> u8 list list \<Rightarrow> VOLUME" where
  "store s x p new = s\<lparr>Disk := (Disk s)(x := Inr (take (p * 32) (sec s x) @ concat new @ drop ((p + length new) * 32) (sec s x)))\<rparr>"

definition entries_ok :: "u8 list list \<Rightarrow> bool" where
  "entries_ok new \<longleftrightarrow> new \<noteq> [] \<and> (\<forall>e\<in>set new. length e = 32)"

definition run_end :: "nat \<Rightarrow> nat \<Rightarrow> nat \<Rightarrow> bool" where
  "run_end f t e \<longleftrightarrow> f = 0 \<or> e \<le> t + f"

lemma entries_of_exact:
  assumes "volume_ok s" "disk_works s"
  shows "entries_of (per_sector s) (sec s x) = Some (sector_entries s x)"
  using entries_of_sector [OF assms, of "[]" 0 x] by simp

text \<open>The entries of \<open>n\<close> sectors of a cluster, from sector \<open>k\<close> on.\<close>

definition run_entries :: "VOLUME \<Rightarrow> u64 \<Rightarrow> nat \<Rightarrow> nat \<Rightarrow> u8 list list" where
  "run_entries s l k n = concat (map (\<lambda>k. sector_entries s (sector_at s (l + of_nat k))) [k..<k + n])"

lemma slots_in_cluster_ok:
  assumes "volume_ok s" "disk_works s" "entries_ok new" "length buf = bsize s" "run_end f t (per_sector s)"
  shows "\<exists>buf' t'. length buf' = bsize s \<and>
    slots_in_cluster s new l k n buf f t = (case slot_run (length new) (run_entries s l k n) 0 f of
      Inr f' \<Rightarrow> Some (NoRoom buf' f' t')
    | Inl j \<Rightarrow> if length new \<le> j mod per_sector s + 1
               then Some (Stored STATUS_SUCCESS (store s (sector_at s (l + of_nat (k + j div per_sector s))) (j mod per_sector s + 1 - length new) new))
               else None) \<and>
    (\<forall>f'. slot_run (length new) (run_entries s l k n) 0 f = Inr f' \<longrightarrow> run_end f' t' (per_sector s))"
  using assms(4,5)
proof (induction n arbitrary: k buf f t)
  case 0
  then show ?case by (auto simp: run_entries_def)
next
  case (Suc n)
  let ?m = "length new" and ?e = "per_sector s" and ?x = "sector_at s (l + of_nat k)"
  have new: "0 < ?m" "\<forall>e\<in>set new. length e = 32" using assms(3) by (auto simp: entries_ok_def)
  have b: "?e * 32 = bsize s" "0 < ?e" using per_sector [OF assms(1)] by auto
  have lx: "length (sec s ?x) = bsize s" using length_sec assms(1,2) by blast
  have rd: "FatReadDiskSectors s (l + of_nat k) = Inr (sec s ?x)"
    using sec_Inr [OF assms(2)] by (simp add: FatReadDiskSectors_def)
  have put: "put_bytes buf 0 (sec s ?x) = Some (sec s ?x)" using lx Suc.prems by (subst put_bytes_over) simp_all
  have es: "entries_of ?e (sec s ?x) = Some (sector_entries s ?x)" using entries_of_exact [OF assms(1,2)] .
  have all: "run_entries s l k (Suc n) = sector_entries s ?x @ run_entries s l (Suc k) n"
    unfolding run_entries_def by (simp add: upt_conv_Cons del: upt_Suc)
  have inv: "t = 0 - f" if "0 < f \<and> f \<le> 0" using that by simp
  let ?R = "slot_run ?m (sector_entries s ?x) 0 f"
  obtain t1 where t1: "slots_in_sector new (sec s ?x) 0 (sector_entries s ?x) f t = (case ?R of
      Inl j \<Rightarrow> map_option Slots (write_entries (sec s ?x) (if ?m \<le> j + 1 then j + 1 - ?m else t) new)
    | Inr f' \<Rightarrow> Some (MoreSlots f' t1))"
    "\<And>f'. ?R = Inr f' \<Longrightarrow> (0 < f' \<and> f' \<le> ?e \<longrightarrow> t1 = ?e - f') \<and> (?e < f' \<longrightarrow> t1 = t)"
    using slots_in_sector_ok [OF inv, of new "sec s ?x" "sector_entries s ?x"] by auto
  have unf: "slots_in_cluster s new l k (Suc n) buf f t =
      Option.bind (slots_in_sector new (sec s ?x) 0 (sector_entries s ?x) f t) (\<lambda>r. case r of
          Slots buf \<Rightarrow> (case FatWriteDiskSectors s (l + of_nat k) buf of (e, s) \<Rightarrow> Some (Stored e s))
        | MoreSlots Found TargetEntryIndex \<Rightarrow> slots_in_cluster s new l (k + 1) n (sec s ?x) Found TargetEntryIndex)"
    unfolding slots_in_cluster.simps rd sum.case put bind.bind_lunit es ..
  show ?case
  proof (cases ?R)
    case (Inl j)
    have j: "j < ?e" "?m \<le> j + 1 + f" using slot_run_bounds [OF Inl] by simp_all
    have jd: "j div ?e = 0" "j mod ?e = j" using j(1) by simp_all
    have E: "slot_run ?m (run_entries s l k (Suc n)) 0 f = Inl j" unfolding all slot_run_append Inl by simp
    have st: "slots_in_sector new (sec s ?x) 0 (sector_entries s ?x) f t =
        map_option Slots (write_entries (sec s ?x) (if ?m \<le> j + 1 then j + 1 - ?m else t) new)"
      using t1(1) Inl by simp
    show ?thesis
    proof (cases "?m \<le> j + 1")
      case True
      have "(j + 1 - ?m + ?m) * 32 \<le> ?e * 32" using j(1) True by (intro mult_right_mono) auto
      then have fit: "(j + 1 - ?m + ?m) * 32 \<le> length (sec s ?x)" using lx b(1) by linarith
      have "write_entries (sec s ?x) (j + 1 - ?m) new =
          Some (take ((j + 1 - ?m) * 32) (sec s ?x) @ concat new @ drop ((j + 1 - ?m + ?m) * 32) (sec s ?x))"
        by (rule write_entries_ok [OF new(2) fit])
      then have "slots_in_cluster s new l k (Suc n) buf f t = Some (Stored STATUS_SUCCESS (store s ?x (j + 1 - ?m) new))"
        unfolding unf st using True sec_Inr [OF assms(2), of ?x] by (simp add: FatWriteDiskSectors_def store_def)
      then show ?thesis unfolding E using True jd lx by auto
    next
      case False
      then have "0 < f" using j(2) by linarith
      then have "?e \<le> t + f" using Suc.prems(2) by (simp add: run_end_def)
      moreover have f_le: "f + 1 \<le> ?m"
      proof -
        have "slot_run m es i f = Inl j \<Longrightarrow> f < m \<or> m \<le> j + 1 - i" for m es i f j
        proof (induction m es i f rule: slot_run.induct)
          case (2 m e es i f)
          have "m \<le> j + 1 - i" if "slot_run m es (i + 1) 0 = Inl j" using slot_run_bounds [OF that] by arith
          then show ?case using 2 by (auto split: if_splits)
        qed simp
        from this [OF Inl] show ?thesis using False by auto
      qed
      ultimately have "?e * 32 < (t + ?m) * 32" by simp
      then have "length (sec s ?x) < (t + ?m) * 32" using lx b(1) by linarith
      then have "write_entries (sec s ?x) t new = None" using write_entries_None [OF new(2)] new(1) by auto
      then have "slots_in_cluster s new l k (Suc n) buf f t = None" unfolding unf st using False by simp
      then show ?thesis unfolding E using False jd lx by auto
    qed
  next
    case (Inr f1)
    have re: "run_end f1 t1 ?e"
    proof -
      have "?e \<le> t1 + f1" if "0 < f1"
      proof (cases "f1 \<le> ?e")
        case True
        then show ?thesis using t1(2) [OF Inr] that by simp
      next
        case False
        then show ?thesis using t1(2) [OF Inr] by simp
      qed
      then show ?thesis by (auto simp: run_end_def)
    qed
    have E: "slot_run ?m (run_entries s l k (Suc n)) 0 f = map_sum (\<lambda>j. j + ?e) id (slot_run ?m (run_entries s l (Suc k) n) 0 f1)"
      unfolding all slot_run_append Inr using slot_run_shift [of ?m "run_entries s l (Suc k) n" 0 ?e f1] by simp
    have run: "slots_in_cluster s new l k (Suc n) buf f t = slots_in_cluster s new l (Suc k) n (sec s ?x) f1 t1"
      unfolding unf t1(1) Inr by simp
    have e0: "?e \<noteq> 0" using b(2) by simp
    have de: "(j + ?e) div ?e = j div ?e + 1" "(j + ?e) mod ?e = j mod ?e" for j
      by (rule div_add_self2 [OF e0], rule mod_add_self2)
    have ka: "Suc k + d = k + (d + 1)" for d by simp
    let ?G = "slot_run ?m (run_entries s l (Suc k) n) 0 f1"
    note ih = Suc.IH [OF lx re, of "Suc k"]
    show ?thesis
    proof (cases ?G)
      case (Inl i)
      have "slots_in_cluster s new l (Suc k) n (sec s ?x) f1 t1 = (if ?m \<le> i mod ?e + 1
          then Some (Stored STATUS_SUCCESS (store s (sector_at s (l + of_nat (Suc k + i div ?e))) (i mod ?e + 1 - ?m) new)) else None)"
        using ih unfolding Inl sum.case by blast
      then show ?thesis
        using lx unfolding run E Inl map_sum.simps sum.case de ka by (intro exI [of _ "sec s ?x"] exI [of _ t1]) simp
    next
      case (Inr f2)
      obtain buf2 t2 where "length buf2 = bsize s" "slots_in_cluster s new l (Suc k) n (sec s ?x) f1 t1 = Some (NoRoom buf2 f2 t2)"
        "run_end f2 t2 ?e" using ih unfolding Inr sum.case by blast
      then show ?thesis
        unfolding run E Inr map_sum.simps sum.case by (intro exI [of _ buf2] exI [of _ t2]) simp
    qed
  qed
qed

lemma slots_in_chain_ok:
  assumes "volume_ok s" "disk_works s" "0 < PoolFree s" "entries_ok new"
    and "chain_ends s n c" "length buf = bsize s" "run_end f t (per_sector s)"
    and "slot_run (length new) (dir_list s n c) 0 f = Inl j"
  shows "slots_in_chain s new buf f t c =
    (if length new \<le> j mod per_sector s + 1
     then Some (STATUS_SUCCESS, give_pool (store s (dir_sectors s n c ! (j div per_sector s)) (j mod per_sector s + 1 - length new) new))
     else None)"
  using assms(5-8)
proof (induction n arbitrary: c buf f t j)
  case 0
  then show ?case by (simp add: dir_list_def dir_sectors_def)
next
  case (Suc n)
  let ?m = "length new" and ?e = "per_sector s" and ?p = "unat (SectorsPerCluster (Vcb s))"
  let ?es = "concat (map (sector_entries s) (cluster_sectors s c))"
  let ?l = "FAT32_CLUSTER_TO_LBA (Vcb s) c"
  have c: "is_cluster s c" "chain_ends s n (next_cluster s c)" using Suc.prems(1) unfolding chain_ends_Suc by auto
  have cw: "\<not> FAT32_IS_EOF c \<and> c \<ge> 2" using is_cluster_word [OF assms(1) c(1)] by auto
  have es: "run_entries s ?l 0 ?p = ?es"
    by (simp add: run_entries_def cluster_sectors_def o_def)
  have e0: "0 < ?e" "?e \<noteq> 0" using per_sector [OF assms(1)] by auto
  have d: "dir_list s (Suc n) c = ?es @ dir_list s n (next_cluster s c)" using dir_list_Suc c(1) .
  have ds: "dir_sectors s (Suc n) c = cluster_sectors s c @ dir_sectors s n (next_cluster s c)" using c(1) by (simp add: dir_sectors_def)
  have "\<exists>buf' t'. length buf' = bsize s \<and>
    slots_in_cluster s new ?l 0 ?p buf f t = (case slot_run ?m ?es 0 f of
      Inr f' \<Rightarrow> Some (NoRoom buf' f' t')
    | Inl j \<Rightarrow> if ?m \<le> j mod ?e + 1
               then Some (Stored STATUS_SUCCESS (store s (sector_at s (?l + of_nat (0 + j div ?e))) (j mod ?e + 1 - ?m) new))
               else None) \<and>
    (\<forall>f'. slot_run ?m ?es 0 f = Inr f' \<longrightarrow> run_end f' t' ?e)"
    using slots_in_cluster_ok [OF assms(1,2,4) Suc.prems(2,3), of ?l 0 ?p] unfolding es .
  then obtain buf' t' where cl: "length buf' = bsize s" "slots_in_cluster s new ?l 0 ?p buf f t = (case slot_run ?m ?es 0 f of
      Inr f' \<Rightarrow> Some (NoRoom buf' f' t')
    | Inl j \<Rightarrow> if ?m \<le> j mod ?e + 1
               then Some (Stored STATUS_SUCCESS (store s (sector_at s (?l + of_nat (0 + j div ?e))) (j mod ?e + 1 - ?m) new))
               else None)" "\<And>f'. slot_run ?m ?es 0 f = Inr f' \<Longrightarrow> run_end f' t' ?e" by blast
  have g: "FatpGetNextCluster s c = Some (Inr (next_cluster s c), s)" using get_next assms(1-3) c(1) by blast
  show ?case
  proof (cases "slot_run ?m ?es 0 f")
    case (Inl i)
    then have ij: "i = j" using Suc.prems(4) unfolding d slot_run_append by simp
    have "j < length ?es" using slot_run_bounds [OF Inl] ij by simp
    then have jp: "j div ?e < ?p" using e0(1) by (simp add: less_mult_imp_div_less)
    then have "dir_sectors s (Suc n) c ! (j div ?e) = sector_at s (?l + of_nat (j div ?e))"
      unfolding ds by (simp add: nth_append cluster_sectors_def)
    then show ?thesis
      using cw cl(2) Inl ij by (subst slots_in_chain.simps) simp
  next
    case (Inr f1)
    have r: "slot_run ?m (dir_list s n (next_cluster s c)) (0 + length ?es) f1 = Inl j"
      using Suc.prems(4) unfolding d slot_run_append Inr by simp
    then obtain i where i: "slot_run ?m (dir_list s n (next_cluster s c)) 0 f1 = Inl i" "j = i + length ?es"
      unfolding slot_run_shift by (cases "slot_run ?m (dir_list s n (next_cluster s c)) 0 f1") auto
    have le: "length ?es = ?p * ?e" by simp
    have jd: "j div ?e = i div ?e + ?p" "j mod ?e = i mod ?e" unfolding i(2) le using e0(2) by simp_all
    have cn: "\<not> FAT32_IS_EOF (next_cluster s c)"
    proof (cases n)
      case 0
      then show ?thesis using i(1) by (simp add: dir_list_def dir_sectors_def)
    next
      case (Suc l)
      then have "is_cluster s (next_cluster s c)" using c(2) unfolding Suc chain_ends_Suc by simp
      then show ?thesis using is_cluster_word [OF assms(1)] by simp
    qed
    have "slots_in_chain s new buf f t c = slots_in_chain s new buf' f1 t' (next_cluster s c)"
      using cw cl(2) Inr g cn by (subst slots_in_chain.simps) simp
    also have "\<dots> = (if ?m \<le> i mod ?e + 1
     then Some (STATUS_SUCCESS, give_pool (store s (dir_sectors s n (next_cluster s c) ! (i div ?e)) (i mod ?e + 1 - ?m) new)) else None)"
      by (rule Suc.IH [OF c(2) cl(1) cl(3) [OF Inr] i(1)])
    finally show ?thesis unfolding jd ds by (simp add: nth_append)
  qed
qed

section \<open>The sectors of a directory\<close>

definition data_lba :: "VOLUME \<Rightarrow> u32 \<Rightarrow> nat \<Rightarrow> u64" where
  "data_lba s c k = FAT32_CLUSTER_TO_LBA (Vcb s) c + of_nat k"

lemma data_lba_unat:
  assumes "volume_ok s" "is_cluster s c" "k < unat (SectorsPerCluster (Vcb s))"
  shows "unat (data_lba s c k) = unat (DataStartLba (Vcb s)) + (unat c - 2) * unat (SectorsPerCluster (Vcb s)) + k"
    "unat (data_lba s c k) < 2 ^ 32"
proof -
  let ?p = "unat (SectorsPerCluster (Vcb s))" and ?d = "unat (DataStartLba (Vcb s))" and ?t = "unat (TotalClusters (Vcb s))"
  have c2: "unat (c - 2) = unat c - 2" using assms(2) by (subst unat_sub_le) (simp_all add: is_cluster_def word_le_nat_alt)
  have le: "(unat c - 2 + 1) * ?p \<le> ?t * ?p" using assms(2) by (intro mult_right_mono) (auto simp: is_cluster_def)
  have b: "?d + ?t * ?p < 2 ^ 32" using volume_okD(7) [OF assms(1)] .
  have lt: "?d + (unat c - 2) * ?p + k < 2 ^ 32" using le b assms(3) by simp
  have m: "unat (ucast (c - 2) * ucast (SectorsPerCluster (Vcb s)) :: u64) = (unat c - 2) * ?p"
    using le b by (subst unat_mult_lt) (simp_all add: unat_ucast_up c2)
  have l: "unat (FAT32_CLUSTER_TO_LBA (Vcb s) c) = ?d + (unat c - 2) * ?p"
    unfolding FAT32_CLUSTER_TO_LBA_def using lt by (subst unat_add_lt) (simp_all add: m)
  have k: "unat (of_nat k :: u64) = k" using assms(3) volume_okD(5) [OF assms(1)] by (intro unat_of_nat_lt) simp
  show u: "unat (data_lba s c k) = ?d + (unat c - 2) * ?p + k"
    unfolding data_lba_def using lt l k by (subst unat_add_lt) simp_all
  show "unat (data_lba s c k) < 2 ^ 32" using u lt by simp
qed

lemma data_sector_inj:
  assumes "volume_ok s" "is_cluster s c" "is_cluster s d" "k < unat (SectorsPerCluster (Vcb s))" "l < unat (SectorsPerCluster (Vcb s))"
    and "sector_at s (data_lba s c k) = sector_at s (data_lba s d l)"
  shows "c = d \<and> k = l"
proof -
  let ?p = "unat (SectorsPerCluster (Vcb s))"
  have "data_lba s c k = data_lba s d l"
    by (rule sector_at_inj [OF assms(1) _ _ assms(6)]) (use data_lba_unat assms in auto)
  then have e: "(unat c - 2) * ?p + k = (unat d - 2) * ?p + l"
    using data_lba_unat(1) [OF assms(1,2,4)] data_lba_unat(1) [OF assms(1,3,5)] by simp
  have "((unat c - 2) * ?p + k) div ?p = unat c - 2" "((unat d - 2) * ?p + l) div ?p = unat d - 2"
    using assms(4,5) by simp_all
  then have "unat c - 2 = unat d - 2" using e by simp
  then have "unat c = unat d" "k = l" using e assms(2,3) by (auto simp: is_cluster_def)
  then show ?thesis by (simp add: word_unat_eq_iff)
qed

lemma data_not_table:
  assumes "volume_ok s" "is_cluster s c" "is_cluster s d" "k < unat (SectorsPerCluster (Vcb s))" "f < unat (NumberOfFats (Vcb s))"
  shows "sector_at s (copy_lba (Vcb s) (FatSectorLba (Vcb s) d) f) \<noteq> sector_at s (data_lba s c k)"
proof
  assume e: "sector_at s (copy_lba (Vcb s) (FatSectorLba (Vcb s) d) f) = sector_at s (data_lba s c k)"
  let ?z = "unat (FatSizeSectors (Vcb s))"
  have "(f + 1) * ?z \<le> unat (NumberOfFats (Vcb s)) * ?z" using assms(5) by (intro mult_right_mono) auto
  then have lt: "unat (copy_lba (Vcb s) (FatSectorLba (Vcb s) d) f) < unat (DataStartLba (Vcb s))"
    using copy_lba_unat [OF assms(1,3,5)] table_sector_less [OF assms(1,3)] volume_okD(6) [OF assms(1)] by simp
  have "copy_lba (Vcb s) (FatSectorLba (Vcb s) d) f = data_lba s c k"
    using lt data_lba_unat [OF assms(1,2,4)] by (intro sector_at_inj [OF assms(1) _ _ e]) linarith+
  then show False using lt data_lba_unat(1) [OF assms(1,2,4)] by simp
qed

lemma cluster_sectors_data: "cluster_sectors s c = map (\<lambda>k. sector_at s (data_lba s c k)) [0..<unat (SectorsPerCluster (Vcb s))]"
  by (simp add: cluster_sectors_def data_lba_def)

lemma chain_clusters: "x \<in> set (chain s n c) \<Longrightarrow> is_cluster s x"
  by (induction s n c rule: chain.induct) (auto split: if_splits)

lemma dir_sectors_distinct:
  assumes "volume_ok s" "distinct (chain s n c)"
  shows "distinct (dir_sectors s n c)"
proof -
  have "distinct (concat (map (cluster_sectors s) cs))" if "distinct cs" "\<forall>x\<in>set cs. is_cluster s x" for cs
    using that
  proof (induction cs)
    case (Cons x cs)
    have "distinct (cluster_sectors s x)"
      using data_sector_inj [OF assms(1)] Cons.prems unfolding cluster_sectors_data by (auto simp: distinct_map inj_on_def)
    moreover have "set (cluster_sectors s x) \<inter> set (concat (map (cluster_sectors s) cs)) = {}"
      using data_sector_inj [OF assms(1)] Cons.prems unfolding cluster_sectors_data by fastforce
    ultimately show ?case using Cons by simp
  qed simp
  then show ?thesis using assms(2) chain_clusters unfolding dir_sectors_def by blast
qed

lemma dir_sectors_data:
  assumes "x \<in> set (dir_sectors s n c)"
  shows "\<exists>d k. is_cluster s d \<and> k < unat (SectorsPerCluster (Vcb s)) \<and> x = sector_at s (data_lba s d k)"
  using assms chain_clusters unfolding dir_sectors_def cluster_sectors_data by fastforce

section \<open>The volume after the write\<close>

lemma store_simps [simp]: "Vcb (store s x p new) = Vcb s" "PoolFree (store s x p new) = PoolFree s"
  "sector_at (store s x p new) = sector_at s" "is_cluster (store s x p new) = is_cluster s"
  "table_offset (store s x p new) = table_offset s"
  by (simp_all add: store_def sector_at_def is_cluster_def table_offset_def fun_eq_iff)

lemma store_next:
  assumes "volume_ok s" "x \<in> set (dir_sectors s n c)" "is_cluster s d"
  shows "next_cluster (store s x p new) d = next_cluster s d"
proof -
  obtain e k where e: "is_cluster s e" "k < unat (SectorsPerCluster (Vcb s))" "x = sector_at s (data_lba s e k)"
    using dir_sectors_data [OF assms(2)] by blast
  have "sector_at s (FatSectorLba (Vcb s) d) \<noteq> x"
    using data_not_table [OF assms(1) e(1) assms(3) e(2) volume_okD(3) [OF assms(1)]] e(3) by simp
  then have "fat_raw (store s x p new) d = fat_raw s d"
    unfolding fat_raw_def fat_copy_def store_simps copy_lba_0 by (simp add: store_def)
  then show ?thesis by (simp add: next_cluster_def)
qed

lemma store_chain:
  assumes "volume_ok s" "x \<in> set (dir_sectors s n c)"
  shows "chain (store s x p new) m d = chain s m d"
    "length (chain s m d) = m \<Longrightarrow> (next_cluster (store s x p new) ^^ m) d = (next_cluster s ^^ m) d"
proof (induction m arbitrary: d)
  case (Suc m)
  case 1
  show ?case using Suc.IH(1) store_next [OF assms] by simp
next
  case (Suc m)
  case 2
  then have "is_cluster s d" "length (chain s m (next_cluster s d)) = m" unfolding chain_full_Suc by auto
  then show ?case using Suc.IH(2) store_next [OF assms] by (simp add: funpow_swap1)
qed simp_all

lemma store_chain_ends:
  assumes "volume_ok s" "x \<in> set (dir_sectors s n c)" "chain_ends s n c"
  shows "chain_ends (store s x p new) n c"
  using assms store_chain by (simp add: chain_ends_def)

lemma concat_entries: "\<forall>e\<in>set new. length e = 32 \<Longrightarrow> i < length new \<Longrightarrow> take 32 (drop (i * 32) (concat new @ r)) = new ! i"
proof (induction new arbitrary: i)
  case (Cons e es)
  show ?case
  proof (cases i)
    case (Suc j)
    have "drop (Suc j * 32) (concat (e # es) @ r) = drop (j * 32) (concat es @ r)" using Cons.prems by simp
    then show ?thesis using Cons Suc by simp
  qed (use Cons.prems in simp)
qed simp

lemma length_concat_32: "\<forall>e\<in>set new. length e = 32 \<Longrightarrow> length (concat new) = length new * 32"
  by (induction new) auto

lemma store_entries:
  assumes "volume_ok s" "disk_works s" "entries_ok new" "p + length new \<le> per_sector s"
  shows "sector_entries (store s x p new) y = (if y = x
    then take p (sector_entries s x) @ new @ drop (p + length new) (sector_entries s x) else sector_entries s y)"
proof (cases "y = x")
  case True
  let ?m = "length new" and ?b = "take (p * 32) (sec s x) @ concat new @ drop ((p + length new) * 32) (sec s x)"
  have new: "\<forall>e\<in>set new. length e = 32" using assms(3) by (simp add: entries_ok_def)
  have lc: "length (concat new) = ?m * 32" using length_concat_32 [OF new] .
  have "(p + ?m) * 32 \<le> per_sector s * 32" using assms(4) by (rule mult_right_mono) simp
  then have fit: "(p + ?m) * 32 \<le> length (sec s x)" using length_sec [OF assms(1,2)] per_sector [OF assms(1)] by simp
  have lp: "length (take (p * 32) (sec s x)) = p * 32" using fit by simp
  have b: "sec (store s x p new) x = ?b" by (simp add: sec_def store_def)
  have "take 32 (drop (i * 32) ?b) = (take p (sector_entries s x) @ new @ drop (p + ?m) (sector_entries s x)) ! i"
    if i: "i < per_sector s" for i
  proof -
    consider "i < p" | "p \<le> i" "i < p + ?m" | "p + ?m \<le> i" by linarith
    then show ?thesis
    proof cases
      case 1
      then have "(i + 1) * 32 \<le> p * 32" by (intro mult_right_mono) auto
      then show ?thesis using 1 i lp by (simp add: nth_append sector_entries_def drop_take)
    next
      case 2
      then have "i * 32 = p * 32 + (i - p) * 32" by (simp add: algebra_simps)
      then have "drop (i * 32) ?b = drop ((i - p) * 32) (concat new @ drop ((p + ?m) * 32) (sec s x))"
        using lp by (simp only: drop_append) simp
      moreover have "take 32 (drop ((i - p) * 32) (concat new @ r)) = new ! (i - p)" for r
        using 2 by (intro concat_entries [OF new]) simp
      moreover have "(take p (sector_entries s x) @ new @ drop (p + ?m) (sector_entries s x)) ! i = new ! (i - p)"
      proof -
        have "i - p < length new" "length (take p (sector_entries s x)) = p" using 2 assms(4) by auto
        then show ?thesis using 2(1) by (simp add: nth_append)
      qed
      ultimately show ?thesis by (simp only:)
    next
      case 3
      then obtain d where d: "i = p + ?m + d" using le_Suc_ex by blast
      have "drop (i * 32) ?b = drop (i * 32) (sec s x)"
        unfolding d using lp lc by (simp add: add_mult_distrib add.commute add.left_commute)
      moreover have "(take p (sector_entries s x) @ new @ drop (p + ?m) (sector_entries s x)) ! i = sector_entries s x ! i"
      proof -
        have "length (take p (sector_entries s x) @ new) = p + ?m" using assms(4) by simp
        then have "((take p (sector_entries s x) @ new) @ drop (p + ?m) (sector_entries s x)) ! i = drop (p + ?m) (sector_entries s x) ! (i - (p + ?m))"
          using 3 by (metis nth_append_right)
        also have "\<dots> = sector_entries s x ! i" using 3 assms(4) by (subst nth_drop) simp_all
        finally show ?thesis by simp
      qed
      ultimately show ?thesis using i by (simp add: sector_entries_def)
    qed
  qed
  then have "sector_entries (store s x p new) x = take p (sector_entries s x) @ new @ drop (p + ?m) (sector_entries s x)"
    using assms(4) unfolding sector_entries_def [of "store s x p new"] store_simps b
    by (intro nth_equalityI) simp_all
  then show ?thesis using True by simp
next
  case False
  then show ?thesis by (simp add: sector_entries_def sec_def store_def)
qed

lemma concat_update:
  assumes "distinct xs" "q < length xs" "\<forall>x. length (f x) = e" "p + length new \<le> e"
  shows "concat (map (\<lambda>y. if y = xs ! q then take p (f y) @ new @ drop (p + length new) (f y) else f y) xs) =
    take (q * e + p) (concat (map f xs)) @ new @ drop (q * e + p + length new) (concat (map f xs))"
  using assms(1,2)
proof (induction xs arbitrary: q)
  case (Cons x xs)
  let ?g = "\<lambda>z y. if y = z then take p (f y) @ new @ drop (p + length new) (f y) else f y"
  have l: "length (f x) = e" using assms(3) by blast
  show ?case
  proof (cases q)
    case 0
    have m: "map (?g x) xs = map f xs" using Cons.prems by (intro map_cong) auto
    have "concat (map (?g x) (x # xs)) = ?g x x @ concat (map (?g x) xs)" by simp
    then have c: "concat (map (?g x) (x # xs)) = (take p (f x) @ new @ drop (p + length new) (f x)) @ concat (map f xs)"
      unfolding m by simp
    show ?thesis unfolding 0 nth_Cons_0 c using l assms(4) by simp
  next
    case (Suc k)
    have "xs ! k \<noteq> x" using Cons.prems Suc by (auto simp: in_set_conv_nth)
    then have "concat (map (?g ((x # xs) ! q)) (x # xs)) = f x @ concat (map (?g (xs ! k)) xs)" using Suc by simp
    also have "\<dots> = f x @ take (k * e + p) (concat (map f xs)) @ new @ drop (k * e + p + length new) (concat (map f xs))"
      using Cons.IH [of k] Cons.prems Suc by simp
    finally show ?thesis using Suc l by (simp add: add.assoc)
  qed
qed simp

section \<open>Directories\<close>

definition dir_start :: "VOLUME \<Rightarrow> u32 \<Rightarrow> u32" where
  "dir_start s d = (if d = 0 then RootDirStartCluster (Vcb s) else d)"

text \<open>A directory of \<open>n\<close> clusters on a working volume with pool for the sector buffer and for a read of the table.\<close>

definition dir_ok :: "VOLUME \<Rightarrow> nat \<Rightarrow> u32 \<Rightarrow> bool" where
  "dir_ok s n d \<longleftrightarrow> volume_ok s \<and> disk_works s \<and> 2 \<le> PoolFree s \<and> chain_ends s n (dir_start s d) \<and> distinct (chain s n (dir_start s d))"

abbreviation "entries s n d \<equiv> dir_list s n (dir_start s d)"

text \<open>The place of an entry: its cluster and the offset in the cluster.\<close>

definition place :: "VOLUME \<Rightarrow> nat \<Rightarrow> u32 \<Rightarrow> nat \<Rightarrow> u32 \<times> u32" where
  "place s n d j = (chain s n (dir_start s d) ! (j div per_cluster s), of_nat (j mod per_cluster s * 32))"

definition search_result :: "VOLUME \<Rightarrow> nat \<Rightarrow> u32 \<Rightarrow> scan_result \<Rightarrow> (VEASTATUS + u8 list \<times> u32 \<times> u32) \<times> VOLUME" where
  "search_result s n d r = (case r of
     EndOfDirectory \<Rightarrow> (Inl STATUS_OBJECT_NAME_NOT_FOUND, s\<lparr>PoolFree := PoolFree s - 1\<rparr>)
   | MatchAt j e \<Rightarrow> (Inr (e, place s n d j), s)
   | GoOn st \<Rightarrow> (Inl STATUS_OBJECT_NAME_NOT_FOUND, s))"

lemma search_ok:
  assumes "dir_ok s n d" "FatpFormatSfn nm = Some f"
  shows "FatpSearchDirectory s d nm = map_option (search_result s n d) (scan_entries nm f 0 (entries s n d) fresh_lfn)"
proof -
  obtain r where r: "scan_entries nm f 0 (entries s n d) fresh_lfn = Some r"
    using scan_total [of fresh_lfn nm f 0] by (auto simp: fresh_lfn_def)
  show ?thesis
    using FatpSearchDirectory_ok [of s nm f "dir_start s d" d n] assms r
    by (cases r) (simp_all add: dir_ok_def dir_start_def search_result_def place_def)
qed

lemma add_ok:
  assumes "dir_ok s n d" "new_entries name a fc b = Some new" "entries_ok new" "slot_run (length new) (entries s n d) 0 0 = Inl j"
  shows "FatpAddDirectoryEntry s d name a fc b = (if length new \<le> j mod per_sector s + 1
    then Some (STATUS_SUCCESS, store s (dir_sectors s n (dir_start s d) ! (j div per_sector s)) (j mod per_sector s + 1 - length new) new)
    else None)"
proof -
  let ?s = "s\<lparr>PoolFree := PoolFree s - 1\<rparr>" and ?c = "dir_start s d"
  have s: "volume_ok s" "disk_works s" "2 \<le> PoolFree s" "chain_ends s n ?c" using assms(1) by (simp_all add: dir_ok_def)
  have tp: "take_pool s = Some ?s" using s(3) by (simp add: take_pool_def)
  have same: "volume_ok ?s" "disk_works ?s" "0 < PoolFree ?s" "chain_ends ?s n ?c"
    using s by (simp_all add: chain_ends_def)
  have f: "slot_run (length new) (dir_list ?s n ?c) 0 0 = Inl j" using assms(4) by simp
  have "FatpAddDirectoryEntry s d name a fc b = slots_in_chain ?s new (replicate (bsize s) 0) 0 0 ?c"
    unfolding FatpAddDirectoryEntry_def Let_def assms(2) bind.bind_lunit tp option.case dir_start_def ..
  also have "\<dots> = (if length new \<le> j mod per_sector ?s + 1
     then Some (STATUS_SUCCESS, give_pool (store ?s (dir_sectors ?s n ?c ! (j div per_sector ?s)) (j mod per_sector ?s + 1 - length new) new))
     else None)"
    by (rule slots_in_chain_ok [OF same(1-3) assms(3) same(4) _ _ f]) (simp_all add: run_end_def)
  moreover have "give_pool (store ?s x p new) = store s x p new" for x p
    using s(3) by (simp add: give_pool_def store_def sec_def)
  moreover have "dir_sectors ?s n ?c = dir_sectors s n ?c" unfolding dir_sectors_def pool_sectors pool_chain ..
  ultimately show ?thesis by simp
qed

lemma sectors_list_nth: "j < length (dir_list s n c) \<Longrightarrow> 0 < per_sector s \<Longrightarrow> j div per_sector s < length (dir_sectors s n c)"
  by (simp add: dir_list_def less_mult_imp_div_less)

lemma added:
  assumes "dir_ok s n d" "entries_ok new" "j < length (entries s n d)" "length new \<le> j mod per_sector s + 1"
  defines "s' \<equiv> store s (dir_sectors s n (dir_start s d) ! (j div per_sector s)) (j mod per_sector s + 1 - length new) new"
  shows "entries s' n d = take (j + 1 - length new) (entries s n d) @ new @ drop (j + 1) (entries s n d)"
    "dir_ok s' n d" "chain s' n (dir_start s d) = chain s n (dir_start s d)"
proof -
  let ?c = "dir_start s d" and ?e = "per_sector s" and ?m = "length new"
  let ?xs = "dir_sectors s n ?c" and ?q = "j div per_sector s" and ?p = "j mod per_sector s + 1 - length new"
  have s: "volume_ok s" "disk_works s" "2 \<le> PoolFree s" "chain_ends s n ?c" "distinct (chain s n ?c)"
    using assms(1) by (simp_all add: dir_ok_def)
  have e0: "0 < ?e" using per_sector [OF s(1)] by blast
  have q: "?q < length ?xs" using sectors_list_nth assms(3) e0 by blast
  have "j mod ?e < ?e" using e0 by (rule mod_less_divisor)
  then have fit: "?p + ?m \<le> ?e" using assms(4) by linarith
  let ?x = "?xs ! ?q"
  have x: "?x \<in> set ?xs" using q by simp
  have ds: "dir_start s' d = ?c" by (simp add: dir_start_def s'_def)
  have ch: "chain s' n ?c = chain s n ?c" unfolding s'_def by (rule store_chain(1) [OF s(1) x])
  then show "chain s' n ?c = chain s n ?c" .
  have sx: "dir_sectors s' n ?c = ?xs"
    unfolding dir_sectors_def ch by (simp add: cluster_sectors_def s'_def cong: map_cong)
  have se: "sector_entries s' = (\<lambda>y. if y = ?x then take ?p (sector_entries s y) @ new @ drop (?p + ?m) (sector_entries s y) else sector_entries s y)"
    using store_entries [OF s(1,2) assms(2) fit, of ?x] unfolding s'_def by (intro ext) simp
  have "dir_list s' n ?c = take (?q * ?e + ?p) (dir_list s n ?c) @ new @ drop (?q * ?e + ?p + ?m) (dir_list s n ?c)"
    unfolding dir_list_def sx se by (rule concat_update [OF dir_sectors_distinct [OF s(1,5)] q _ fit]) simp
  moreover have "?q * ?e + ?p = j + 1 - ?m" "?q * ?e + ?p + ?m = j + 1"
    using assms(4) div_mult_mod_eq [of j ?e] by linarith+
  ultimately show "entries s' n d = take (j + 1 - ?m) (entries s n d) @ new @ drop (j + 1) (entries s n d)" unfolding ds by simp
  have "\<forall>e\<in>set new. length e = 32" using assms(2) by (simp add: entries_ok_def)
  then have lc: "length (concat new) = ?m * 32" by (rule length_concat_32)
  have "(?p + ?m) * 32 \<le> ?e * 32" using fit by (rule mult_right_mono) simp
  then have len: "length (take (?p * 32) (sec s ?x) @ concat new @ drop ((?p + ?m) * 32) (sec s ?x)) = bsize s"
    using lc length_sec [OF s(1,2), of ?x] per_sector [OF s(1)] by simp
  have "volume_ok s'"
    using s(1) len unfolding volume_ok_def s'_def store_def Let_def by (auto split: if_splits)
  moreover have "disk_works s'" using s(2) by (simp add: disk_works_def s'_def store_def)
  moreover have "chain_ends s' n ?c" unfolding s'_def by (rule store_chain_ends [OF s(1) x s(4)])
  ultimately show "dir_ok s' n d" unfolding dir_ok_def ds ch using s(3,5) by (simp add: s'_def)
qed

section \<open>Searches and creations\<close>

text \<open>C34: A lookup in a directory, which goes through the chain of clusters, their sectors and a buffer, gives what
  a single scan of the list of the directory's entries gives: the entry that answers to the name with the cluster
  and the offset in it, or not found. The volume is unchanged, but where the end mark of the directory ends the
  scan, the pool has one block less.\<close>

theorem search_scans_entries:
  assumes "dir_ok s n d"
  shows "\<exists>f r. FatpFormatSfn nm = Some f \<and> scan_entries nm f 0 (entries s n d) fresh_lfn = Some r \<and>
    FatpSearchDirectory s d nm = Some (search_result s n d r)"
proof -
  obtain f where f: "FatpFormatSfn nm = Some f" using FatpFormatSfn_ok [of nm] by blast
  obtain r where "scan_entries nm f 0 (entries s n d) fresh_lfn = Some r"
    using scan_total [of fresh_lfn nm f 0] by (auto simp: fresh_lfn_def)
  then show ?thesis using f search_ok [OF assms f] by simp
qed

text \<open>The entries of a name that fits the code's buffers.\<close>

definition entry_of :: "u8 list \<Rightarrow> u8 \<Rightarrow> u32 \<Rightarrow> u32 \<Rightarrow> u8 list" where
  "entry_of name a fc b = sfn_entry (the (FatpGenerateSfn name)) a fc b"

definition name_slots :: "u8 list \<Rightarrow> nat" where
  "name_slots name = (if FatpNeedsLfn name then lfn_count name + 1 else 1)"

abbreviation "name_entries name a fc b \<equiv> lfn_part name (the (FatpGenerateSfn name)) @ [entry_of name a fc b]"

lemma new_entries_shape:
  assumes "length name \<le> 247"
  shows "new_entries name a fc b = Some (name_entries name a fc b)" "entries_ok (name_entries name a fc b)"
    "length (name_entries name a fc b) = name_slots name"
proof -
  obtain S where S: "FatpGenerateSfn name = Some S" "length S = 11" using FatpGenerateSfn_ok by blast
  show "new_entries name a fc b = Some (name_entries name a fc b)" "entries_ok (name_entries name a fc b)"
    "length (name_entries name a fc b) = name_slots name"
    using new_entries_ok [OF assms S(1), of a fc b] new_entries_lengths(1) [OF assms S(2), of a fc b] S
    by (simp_all add: entry_of_def entries_ok_def name_slots_def lfn_part_def)
qed

lemma add_entry:
  assumes "dir_ok s n d" "length name \<le> 247"
    and "slot_run (name_slots name) (entries s n d) 0 0 = Inl j" "name_slots name \<le> j mod per_sector s + 1"
  shows "\<exists>s'. FatpAddDirectoryEntry s d name a fc b = Some (STATUS_SUCCESS, s') \<and> dir_ok s' n d \<and>
    entries s' n d = take (j + 1 - name_slots name) (entries s n d) @ name_entries name a fc b @ drop (j + 1) (entries s n d) \<and>
    place s' n d j = place s n d j"
proof -
  let ?new = "name_entries name a fc b"
  note new = new_entries_shape [OF assms(2), of a fc b]
  have f: "slot_run (length ?new) (entries s n d) 0 0 = Inl j" "length ?new \<le> j mod per_sector s + 1"
    using assms(3,4) unfolding new(3) .
  have j: "j < length (entries s n d)" using slot_run_bounds [OF f(1)] by simp
  define s' where s': "s' = store s (dir_sectors s n (dir_start s d) ! (j div per_sector s)) (j mod per_sector s + 1 - length ?new) ?new"
  note after = added [OF assms(1) new(2) j f(2), folded s']
  have "FatpAddDirectoryEntry s d name a fc b = Some (STATUS_SUCCESS, s')"
    unfolding add_ok [OF assms(1) new(1,2) f(1)] s' using f(2) by (rule if_P)
  moreover have "place s' n d j = place s n d j"
  proof -
    have "dir_start s' d = dir_start s d" "per_cluster s' = per_cluster s" by (simp_all add: dir_start_def s')
    then show ?thesis unfolding place_def by (simp only: after(3))
  qed
  ultimately show ?thesis using after(1,2) unfolding new(3) by blast
qed

text \<open>C35: The creation of an entry for a name of at most 247 characters puts the entries of the long name and the entry of the short name over the first
  run of free entries that is long enough, and changes nothing else of the directory, provided that the run lies
  in one sector.\<close>

theorem add_entry_inserts:
  assumes "dir_ok s n d" "length name \<le> 247"
    and "slot_run (name_slots name) (entries s n d) 0 0 = Inl j" "name_slots name \<le> j mod per_sector s + 1"
  shows "\<exists>new s'. FatpAddDirectoryEntry s d name a fc b = Some (STATUS_SUCCESS, s') \<and> dir_ok s' n d \<and>
    new_entries name a fc b = Some new \<and> length new = name_slots name \<and>
    entries s' n d = take (j + 1 - name_slots name) (entries s n d) @ new @ drop (j + 1) (entries s n d)"
proof -
  obtain s' where s': "FatpAddDirectoryEntry s d name a fc b = Some (STATUS_SUCCESS, s') \<and> dir_ok s' n d \<and>
      entries s' n d = take (j + 1 - name_slots name) (entries s n d) @ name_entries name a fc b @ drop (j + 1) (entries s n d) \<and>
      place s' n d j = place s n d j"
    using add_entry [OF assms, of a fc b] ..
  then show ?thesis
    by (intro exI [of _ "name_entries name a fc b"] exI [of _ s'] conjI new_entries_shape(1,3) assms(2)) (elim conjE, assumption)+
qed

text \<open>C36: Where the first long enough run of free entries lies in more than one sector, the code writes the entries
  from the place the run started at in the earlier sector on, but into the buffer of the later sector, and past the end of
  that buffer.\<close>

theorem add_entry_crosses_sector:
  assumes "dir_ok s n d" "length name \<le> 247"
    and "slot_run (name_slots name) (entries s n d) 0 0 = Inl j" "j mod per_sector s + 1 < name_slots name"
  shows "FatpAddDirectoryEntry s d name a fc b = None"
proof -
  let ?new = "name_entries name a fc b"
  note new = new_entries_shape [OF assms(2), of a fc b]
  have f: "slot_run (length ?new) (entries s n d) 0 0 = Inl j" using assms(3) unfolding new(3) .
  have "\<not> length ?new \<le> j mod per_sector s + 1" using assms(4) unfolding new(3) by simp
  then show ?thesis unfolding add_ok [OF assms(1) new(1,2) f] by (rule if_not_P)
qed

lemma scan_new:
  assumes "length name \<le> 247" "0 \<notin> set name" "0xE5 \<notin> set name" "a AND FAT_ATTR_VOLUME_ID = 0" "upper name = upper other"
    and "FatpFormatSfn other = Some f" "length (LfnBuffer st) = 256"
  shows "scan_entries other f i ((lfn_part name (the (FatpGenerateSfn name)) @ [entry_of name a fc b]) @ es) st =
    Some (MatchAt (i + name_slots name - 1) (entry_of name a fc b))"
proof -
  obtain S where S: "FatpGenerateSfn name = Some S" "length S = 11" using FatpGenerateSfn_ok by blast
  show ?thesis
  proof (cases "FatpNeedsLfn name")
    case True
    then show ?thesis
      using scan_long [OF assms(1-3) True S(1) assms(4), of other f i fc b es st] assms(5) S
      by (auto simp: entry_of_def name_slots_def)
  next
    case False
    have "S = f" using S(1) False FatpFormatSfn_upper [OF assms(5)] assms(6) by (simp add: FatpGenerateSfn_def)
    then show ?thesis
      using scan_short [OF assms(2,3) False S(1) assms(4,7), of f other i fc b es] False S
      by (simp add: entry_of_def name_slots_def)
  qed
qed

text \<open>C37: A file that was created is found. Let the name have at most 247 characters, none of them 0 or 0xE5, let the
  first long enough run of free entries lie in one sector, and let no entry before it end the directory or answer to
  the name. Then after the creation, other than of a volume label, a lookup of the name, in upper or lower case letters,
  gives the entry written, with its place.\<close>

theorem create_then_find:
  assumes "dir_ok s n d" "length name \<le> 247" "0 \<notin> set name" "0xE5 \<notin> set name" "a AND FAT_ATTR_VOLUME_ID = 0"
    and "slot_run (name_slots name) (entries s n d) 0 0 = Inl j" "name_slots name \<le> j mod per_sector s + 1"
    and "upper name = upper other" "FatpFormatSfn other = Some f"
    and "scan_entries other f 0 (take (j + 1 - name_slots name) (entries s n d)) fresh_lfn = Some (GoOn st)"
  shows "\<exists>s'. FatpAddDirectoryEntry s d name a fc b = Some (STATUS_SUCCESS, s') \<and>
    FatpSearchDirectory s' d other = Some (Inr (entry_of name a fc b, place s n d j), s')"
proof -
  let ?m = "name_slots name" and ?p = "take (j + 1 - name_slots name) (entries s n d)"
  obtain s' where "FatpAddDirectoryEntry s d name a fc b = Some (STATUS_SUCCESS, s') \<and> dir_ok s' n d \<and>
      entries s' n d = ?p @ name_entries name a fc b @ drop (j + 1) (entries s n d) \<and> place s' n d j = place s n d j"
    using add_entry [OF assms(1,2,6,7), of a fc b] ..
  then have s': "FatpAddDirectoryEntry s d name a fc b = Some (STATUS_SUCCESS, s')" "dir_ok s' n d"
    "entries s' n d = ?p @ name_entries name a fc b @ drop (j + 1) (entries s n d)" "place s' n d j = place s n d j"
    by auto
  have j: "j < length (entries s n d)" "?m \<le> j + 1" using slot_run_bounds [OF assms(6)] by simp_all
  have st: "length (LfnBuffer st) = 256" using scan_length [OF assms(10)] by (simp add: fresh_lfn_def)
  have i: "0 + length ?p + ?m - 1 = j" using j by (simp add: name_slots_def)
  have "scan_entries other f 0 (entries s' n d) fresh_lfn = Some (MatchAt j (entry_of name a fc b))"
    unfolding s'(3) scan_append [of other f 0 ?p] assms(10) bind.bind_lunit scan_then_simps(1)
      scan_new [OF assms(2-5,8,9) st] i ..
  then have "FatpSearchDirectory s' d other = Some (Inr (entry_of name a fc b, place s n d j), s')"
    using search_ok [OF s'(2) assms(9)] s'(4) by (simp add: search_result_def)
  then show ?thesis using s'(1) by blast
qed

section \<open>The pool\<close>

fun lookups :: "VOLUME \<Rightarrow> u32 \<Rightarrow> u8 list \<Rightarrow> nat \<Rightarrow> VOLUME option" where
  "lookups s d nm 0 = Some s"
| "lookups s d nm (Suc k) = Option.bind (FatpSearchDirectory s d nm) (\<lambda>(r, s). lookups s d nm k)"

text \<open>C38: Every lookup of a name that the end mark of the directory ends takes a block of the pool for good: after
  \<open>k\<close> of them the pool has \<open>k\<close> blocks less.\<close>

theorem lookups_leak_pool:
  assumes "dir_ok s n d" "FatpFormatSfn nm = Some f" "scan_entries nm f 0 (entries s n d) fresh_lfn = Some EndOfDirectory"
    and "k < PoolFree s"
  shows "lookups s d nm k = Some (s\<lparr>PoolFree := PoolFree s - k\<rparr>)"
  using assms(1,3,4)
proof (induction k arbitrary: s)
  case (Suc k)
  let ?s = "s\<lparr>PoolFree := PoolFree s - 1\<rparr>"
  have st: "dir_start ?s d = dir_start s d" by (simp add: dir_start_def)
  have "FatpSearchDirectory s d nm = Some (Inl STATUS_OBJECT_NAME_NOT_FOUND, ?s)"
    using search_ok [OF Suc.prems(1) assms(2)] Suc.prems(2) by (simp add: search_result_def)
  moreover have "lookups ?s d nm k = Some (?s\<lparr>PoolFree := PoolFree ?s - k\<rparr>)"
  proof (cases k)
    case (Suc i)
    have "dir_ok ?s n d" using Suc.prems(1,3) Suc st by (simp add: dir_ok_def chain_ends_def)
    then show ?thesis using Suc.prems Suc.IH st by simp
  qed simp
  ultimately show ?case by simp
qed simp

section \<open>A directory of two clusters\<close>

definition dir_volume :: VOLUME where
  "dir_volume = small_volume\<lparr>PoolFree := 5\<rparr>"

lemma small_dir_chain: "chain_ends small_volume 2 2" "distinct (chain small_volume 2 2)"
proof -
  have "next_cluster small_volume 2 = 3" "next_cluster small_volume 3 = 0x0FFFFFFF"
    using small_next [of 2] small_next [of 3] by (simp_all add: small_clusters)
  then have "(next_cluster small_volume ^^ 2) 2 = 0x0FFFFFFF" by (simp add: numeral_2_eq_2)
  then show "chain_ends small_volume 2 2" using small_chain by (simp add: chain_ends_def FAT32_IS_EOF_def)
  show "distinct (chain small_volume 2 2)" unfolding small_chain by simp
qed

lemma dir_volume_ok: "dir_ok dir_volume 2 2" "dir_start dir_volume 2 = 2" "PoolFree dir_volume = 5"
  using small_dir_chain small_volume_ok by (simp_all add: dir_ok_def dir_start_def dir_volume_def chain_ends_def)

lemma map_const: "(\<And>i. i < n \<Longrightarrow> f i = x) \<Longrightarrow> map f [0..<n] = replicate n x"
  by (induction n) (simp_all add: replicate_append_same)

lemma small_sectors: "cluster_sectors small_volume 2 = [1536]" "cluster_sectors small_volume 3 = [2048]"
  by (simp_all add: cluster_sectors_def small_bytes FAT32_CLUSTER_TO_LBA_def sector_at_def)

lemma dir_volume_entries:
  "\<exists>r. dir_list small_volume 2 2 = replicate 16 (replicate 32 0) @ take 32 ramp # r"
proof -
  have s: "sec small_volume 1536 = filled 0" "sec small_volume 2048 = ramp" by (simp_all add: sec_def small_volume_def)
  have e: "sector_entries small_volume 1536 = replicate 16 (replicate 32 0)"
  proof -
    have "take 32 (drop (i * 32) (filled 0)) = replicate 32 (0 :: u8)" if "i < 16" for i
      using that by (simp add: filled_def)
    then have "map (\<lambda>i. take 32 (drop (i * 32) (filled 0))) [0..<16] = replicate 16 (replicate 32 (0 :: u8))" by (rule map_const)
    then show ?thesis by (simp add: sector_entries_def s small_bytes)
  qed
  have "[0..<16] = 0 # [Suc 0..<16]" by (rule upt_conv_Cons) simp
  then have "sector_entries small_volume 2048 = take 32 ramp # map (\<lambda>i. take 32 (drop (i * 32) ramp)) [Suc 0..<16]"
    by (simp add: sector_entries_def s small_bytes)
  then have "dir_list small_volume 2 2 =
      replicate 16 (replicate 32 0) @ take 32 ramp # map (\<lambda>i. take 32 (drop (i * 32) ramp)) [Suc 0..<16]"
    unfolding dir_list_def dir_sectors_def small_chain by (simp add: small_sectors e)
  then show ?thesis ..
qed

lemma slot_run_zeros: "is_free_entry z \<Longrightarrow> f < m \<Longrightarrow> m - f \<le> n \<Longrightarrow> slot_run m (replicate n z @ r) i f = Inl (i + (m - f) - 1)"
proof (induction n arbitrary: i f)
  case (Suc n)
  then show ?case using Suc.IH [of "f + 1" "i + 1"] by (cases "f + 1 = m") auto
qed simp

lemma free_zeros: "is_free_entry (replicate 32 0)"
  by (simp add: is_free_entry_def)

lemma dir_volume_run: "0 < m \<Longrightarrow> m \<le> 16 \<Longrightarrow> slot_run m (entries dir_volume 2 2) 0 0 = Inl (m - 1)"
proof -
  assume m: "0 < m" "m \<le> 16"
  obtain r where "dir_list small_volume 2 2 = replicate 16 (replicate 32 0) @ r" using dir_volume_entries by blast
  then show ?thesis
    using slot_run_zeros [OF free_zeros m(1), of 16 r 0] m unfolding dir_volume_ok(2) by (simp add: dir_volume_def)
qed

lemma dir_volume_scan: "scan_entries nm f 0 (entries dir_volume 2 2) st = Some EndOfDirectory"
proof -
  obtain r where r: "dir_list small_volume 2 2 = replicate 16 (replicate 32 0) @ r" using dir_volume_entries by blast
  have "16 = Suc 15" by simp
  then have "replicate 16 x = x # replicate 15 x" for x :: "u8 list" using replicate_Suc by metis
  then have d: "dir_list dir_volume 2 2 = replicate 32 0 # replicate 15 (replicate 32 0) @ r" using r by (simp add: dir_volume_def)
  show ?thesis unfolding dir_volume_ok(2) d by simp
qed

text \<open>\<open>hello.text\<close>.\<close>

definition hello :: "u8 list" where
  "hello = [0x68, 0x65, 0x6C, 0x6C, 0x6F, 0x2E, 0x74, 0x65, 0x78, 0x74]"

lemma hello_slots: "name_slots hello = 2" "length hello = 10" "0 \<notin> set hello" "0xE5 \<notin> set hello"
  by (simp_all add: name_slots_def hello_def FatpNeedsLfn_def lfn_count_def DOT_def SPACE_def)

text \<open>The same directory with 15 entries in use.\<close>

definition used :: "u8 list list" where "used = replicate 15 (replicate 32 1)"

definition cross_volume :: VOLUME where
  "cross_volume = store dir_volume 1536 0 used"

lemma slot_run_used: "\<not> is_free_entry e \<Longrightarrow> slot_run m (replicate n e @ r) i 0 = slot_run m r (i + n) 0"
  by (induction n arbitrary: i) simp_all

lemma cross_volume_ok: "dir_ok cross_volume 2 2" "slot_run 2 (entries cross_volume 2 2) 0 0 = Inl 16" "per_sector cross_volume = 16"
proof -
  have p: "per_sector dir_volume = 16" by (simp add: dir_volume_def small_bytes)
  show "per_sector cross_volume = 16" using p by (simp add: cross_volume_def)
  have l: "length used = 15" "entries_ok used" by (simp_all add: used_def entries_ok_def)
  obtain r where r: "dir_list small_volume 2 2 = replicate 16 (replicate 32 0) @ take 32 ramp # r" using dir_volume_entries by blast
  then have d: "entries dir_volume 2 2 = replicate 16 (replicate 32 0) @ take 32 ramp # r"
    unfolding dir_volume_ok(2) by (simp add: dir_volume_def)
  have "dir_sectors dir_volume 2 (dir_start dir_volume 2) ! 0 = 1536"
    unfolding dir_volume_ok(2) by (simp add: dir_sectors_def dir_volume_def small_chain small_sectors)
  then have c: "store dir_volume (dir_sectors dir_volume 2 (dir_start dir_volume 2) ! (14 div per_sector dir_volume))
      (14 mod per_sector dir_volume + 1 - length used) used = cross_volume"
    by (simp add: p l cross_volume_def)
  note a = added [OF dir_volume_ok(1) l(2), of 14, unfolded c, unfolded l(1)]
  show "dir_ok cross_volume 2 2" by (rule a(2)) (simp_all add: d p)
  have "entries cross_volume 2 2 = take (14 + 1 - 15) (entries dir_volume 2 2) @ used @ drop (14 + 1) (entries dir_volume 2 2)"
    by (rule a(1)) (simp_all add: d p)
  then have e: "entries cross_volume 2 2 = replicate 15 (replicate 32 1) @ replicate 32 0 # take 32 ramp # r"
    unfolding d used_def by simp
  have "is_free_entry (take 32 ramp)" using ramp_bytes(1) [of 0] by (simp add: is_free_entry_def)
  moreover have "\<not> is_free_entry (replicate 32 1)" by (simp add: is_free_entry_def)
  ultimately show "slot_run 2 (entries cross_volume 2 2) 0 0 = Inl 16"
    unfolding e using slot_run_used [of "replicate 32 1" 2 15 "replicate 32 0 # take 32 ramp # r" 0] free_zeros by simp
qed

section \<open>The properties on them\<close>

lemma dir_volume_per: "per_sector dir_volume = 16" "per_cluster dir_volume = 16" "chain dir_volume 2 2 = [2, 3]"
  using small_chain by (simp_all add: dir_volume_def small_bytes)

theorem search_scans_entries_witness:
  "FatpSearchDirectory dir_volume 2 hello = Some (Inl STATUS_OBJECT_NAME_NOT_FOUND, dir_volume\<lparr>PoolFree := 4\<rparr>)"
  using search_scans_entries [OF dir_volume_ok(1), of hello] dir_volume_scan dir_volume_ok(3) by (simp add: search_result_def)

theorem add_entry_inserts_witness:
  "\<exists>new s'. FatpAddDirectoryEntry dir_volume 2 hello 0x20 5 100 = Some (STATUS_SUCCESS, s') \<and> length new = 2 \<and>
     entries s' 2 2 = new @ drop 2 (entries dir_volume 2 2)"
proof -
  have r: "slot_run (name_slots hello) (entries dir_volume 2 2) 0 0 = Inl 1" using dir_volume_run [of 2] hello_slots(1) by simp
  have "name_slots hello \<le> 1 mod per_sector dir_volume + 1" "length hello \<le> 247" using hello_slots dir_volume_per(1) by simp_all
  then obtain new s' where "FatpAddDirectoryEntry dir_volume 2 hello 0x20 5 100 = Some (STATUS_SUCCESS, s') \<and> dir_ok s' 2 2 \<and>
    new_entries hello 0x20 5 100 = Some new \<and> length new = name_slots hello \<and>
    entries s' 2 2 = take (1 + 1 - name_slots hello) (entries dir_volume 2 2) @ new @ drop (1 + 1) (entries dir_volume 2 2)"
    using add_entry_inserts [OF dir_volume_ok(1) _ r, of "0x20" 5 100] by blast
  then show ?thesis using hello_slots(1) by (intro exI [of _ new] exI [of _ s']) (simp add: numeral_2_eq_2)
qed

theorem add_entry_crosses_sector_witness: "FatpAddDirectoryEntry cross_volume 2 hello 0x20 5 100 = None"
  by (rule add_entry_crosses_sector [OF cross_volume_ok(1), where j = 16]) (simp_all add: hello_slots cross_volume_ok(2,3) del: One_nat_def)

text \<open>\<open>HELLO.text\<close> finds what \<open>hello.text\<close> created.\<close>

definition hello' :: "u8 list" where
  "hello' = [0x48, 0x45, 0x4C, 0x4C, 0x4F, 0x2E, 0x74, 0x65, 0x78, 0x74]"

theorem create_then_find_witness:
  "\<exists>s'. FatpAddDirectoryEntry dir_volume 2 hello 0x20 5 100 = Some (STATUS_SUCCESS, s') \<and>
     FatpSearchDirectory s' 2 hello' = Some (Inr (entry_of hello 0x20 5 100, 2, 32), s')"
proof -
  obtain f where f: "FatpFormatSfn hello' = Some f" using FatpFormatSfn_ok by blast
  have r: "slot_run (name_slots hello) (entries dir_volume 2 2) 0 0 = Inl 1" using dir_volume_run [of 2] hello_slots(1) by simp
  have h: "name_slots hello \<le> 1 mod per_sector dir_volume + 1" "length hello \<le> 247" using hello_slots dir_volume_per(1) by simp_all
  have a: "(0x20 :: u8) AND FAT_ATTR_VOLUME_ID = 0" by (simp add: FAT_ATTR_VOLUME_ID_def)
  have u: "upper hello = upper hello'" by (simp add: hello_def hello'_def RtlUpperChar_def)
  have s: "scan_entries hello' f 0 (take (1 + 1 - name_slots hello) (entries dir_volume 2 2)) fresh_lfn = Some (GoOn fresh_lfn)"
    using hello_slots(1) by simp
  have "place dir_volume 2 2 1 = (2, 32)"
    unfolding place_def dir_volume_ok(2) by (simp add: dir_volume_per)
  then show ?thesis
    using create_then_find [OF dir_volume_ok(1) h(2) hello_slots(3,4) a r h(1) u f s, of 5 100] by simp
qed

theorem lookups_leak_pool_witness: "lookups dir_volume 2 hello 3 = Some (dir_volume\<lparr>PoolFree := 2\<rparr>)"
proof -
  obtain f where f: "FatpFormatSfn hello = Some f" using FatpFormatSfn_ok by blast
  show ?thesis using lookups_leak_pool [OF dir_volume_ok(1) f dir_volume_scan, of 3] dir_volume_ok(3) by simp
qed

end
