(* ===== verification/FatOpen.thy ===== *)
theory FatOpen
  imports FatDir
begin

text \<open>
  \<open>driver/filesystem/veafat/create.c\<close> and \<open>fcb.c\<close>: opening and creating files on a mounted volume, with the list of
  the file control blocks. A control block has an address; the list holds the blocks in its order. Acquiring the
  spin lock of the list while it is held stops the machine (\<open>KsAcquireSpinLock\<close>); such a stop, an access outside
  a buffer, a use of an uninitialized entry and a free of memory that is not of the pool are \<open>None\<close>.
\<close>

section \<open>Control blocks\<close>

record FCB = VEAFAT_FCB +
  FcbAttributes :: u8
  FcbFileName :: "u8 list"
  FcbNameInPool :: bool
  FcbParentDirCluster :: u32
  FcbDirEntryByteOffset :: u32
  FcbRefCount :: u32
  IsVolumeFcb :: bool

record MOUNTED =
  FatVolume :: VOLUME
  IsCdo :: bool
  FcbList :: "(nat \<times> FCB) list"
  FcbListLocked :: bool
  NextAddress :: nat

definition acquire_list :: "MOUNTED \<Rightarrow> MOUNTED option" where
  "acquire_list s = (if FcbListLocked s then None else Some (s\<lparr>FcbListLocked := True\<rparr>))"

definition release_list :: "MOUNTED \<Rightarrow> MOUNTED option" where
  "release_list s = (if FcbListLocked s then Some (s\<lparr>FcbListLocked := False\<rparr>) else None)"

definition update_fcb :: "MOUNTED \<Rightarrow> nat \<Rightarrow> (FCB \<Rightarrow> FCB) \<Rightarrow> MOUNTED" where
  "update_fcb s Fcb f = s\<lparr>FcbList := map (\<lambda>(a, b). if a = Fcb then (a, f b) else (a, b)) (FcbList s)\<rparr>"

definition FatReferenceFcb :: "MOUNTED \<Rightarrow> nat \<Rightarrow> MOUNTED option" where
  "FatReferenceFcb s Fcb = do {
     s \<leftarrow> acquire_list s;
     let s = update_fcb s Fcb (\<lambda>b. b\<lparr>FcbRefCount := FcbRefCount b + 1\<rparr>);
     release_list s }"

definition free_pool :: "MOUNTED \<Rightarrow> MOUNTED" where
  "free_pool s = s\<lparr>FatVolume := give_pool (FatVolume s)\<rparr>"

definition allocate_pool :: "MOUNTED \<Rightarrow> MOUNTED option" where
  "allocate_pool s = map_option (\<lambda>v. s\<lparr>FatVolume := v\<rparr>) (take_pool (FatVolume s))"

definition FatDereferenceFcb :: "MOUNTED \<Rightarrow> nat \<Rightarrow> MOUNTED option" where
  "FatDereferenceFcb s Fcb = do {
     s \<leftarrow> acquire_list s;
     let s = update_fcb s Fcb (\<lambda>b. b\<lparr>FcbRefCount := FcbRefCount b - 1\<rparr>);
     b \<leftarrow> map_of (FcbList s) Fcb;
     let ShouldFree = (FcbRefCount b = 0);
     let s = (if ShouldFree then s\<lparr>FcbList := filter (\<lambda>(a, _). a \<noteq> Fcb) (FcbList s)\<rparr> else s);
     s \<leftarrow> release_list s;
     if ShouldFree then (if FcbNameInPool b then Some (free_pool (free_pool s)) else None) else Some s }"

text \<open>A new block at the end of the list.\<close>

definition insert_fcb :: "MOUNTED \<Rightarrow> FCB \<Rightarrow> (nat \<times> MOUNTED) option" where
  "insert_fcb s b = do {
     s \<leftarrow> acquire_list s;
     let a = NextAddress s;
     s \<leftarrow> release_list (s\<lparr>FcbList := FcbList s @ [(a, b)], NextAddress := a + 1\<rparr>);
     Some (a, s) }"

definition zero_fcb :: FCB where
  "zero_fcb = \<lparr>FcbFirstCluster = 0, FcbFileSize = 0, FcbAttributes = 0, FcbFileName = [], FcbNameInPool = False,
     FcbParentDirCluster = 0, FcbDirEntryByteOffset = 0, FcbRefCount = 0, IsVolumeFcb = False\<rparr>"

definition BACKSLASH :: u8 where "BACKSLASH = 0x5C"

text \<open>The search for a block; where it finds one, it references it with the lock held.\<close>

definition get_or_create :: "MOUNTED \<Rightarrow> (FCB \<Rightarrow> bool) \<Rightarrow> FCB \<Rightarrow> (nat option \<times> MOUNTED) option" where
  "get_or_create s P b = do {
     s \<leftarrow> acquire_list s;
     case find (\<lambda>(_, b). P b) (FcbList s) of
       Some (a, _) \<Rightarrow> do { s \<leftarrow> FatReferenceFcb s a; s \<leftarrow> release_list s; Some (Some a, s) }
     | None \<Rightarrow> do {
         s \<leftarrow> release_list s;
         case allocate_pool s of
           None \<Rightarrow> Some (None, s)
         | Some s \<Rightarrow> do { (a, s) \<leftarrow> insert_fcb s b; Some (Some a, s) } } }"

definition FatGetOrCreateVolumeFcb :: "MOUNTED \<Rightarrow> (nat option \<times> MOUNTED) option" where
  "FatGetOrCreateVolumeFcb s = get_or_create s IsVolumeFcb
     (zero_fcb\<lparr>IsVolumeFcb := True, FcbFirstCluster := 0,
        FcbFileSize := ucast (ucast (TotalSectors (Vcb (FatVolume s))) * ucast (BytesPerSector (Vcb (FatVolume s))) :: u64),
        FcbRefCount := 1, FcbAttributes := 0, FcbFileName := [BACKSLASH]\<rparr>)"

definition FatGetOrCreateRootFcb :: "MOUNTED \<Rightarrow> (nat option \<times> MOUNTED) option" where
  "FatGetOrCreateRootFcb s = get_or_create s
     (\<lambda>b. \<not> IsVolumeFcb b \<and> FcbFirstCluster b = RootDirStartCluster (Vcb (FatVolume s)))
     (zero_fcb\<lparr>FcbFirstCluster := RootDirStartCluster (Vcb (FatVolume s)), FcbFileSize := 0, FcbRefCount := 1,
        FcbAttributes := FAT_ATTR_DIRECTORY, FcbFileName := [BACKSLASH]\<rparr>)"

section \<open>Paths\<close>

definition is_separator :: "u8 \<Rightarrow> bool" where
  "is_separator c \<longleftrightarrow> c = 0x2F \<or> c = BACKSLASH"

definition skip_separators :: "u8 list \<Rightarrow> u8 list" where
  "skip_separators = dropWhile is_separator"

definition path_component :: "u8 list \<Rightarrow> u8 list" where
  "path_component = takeWhile (\<lambda>c. \<not> is_separator c)"

definition after_component :: "u8 list \<Rightarrow> u8 list" where
  "after_component p = skip_separators (dropWhile (\<lambda>c. \<not> is_separator c) p)"

lemma after_component_less: "p \<noteq> [] \<Longrightarrow> length (after_component p) < length p"
proof (cases p)
  case (Cons c cs)
  have d: "length (dropWhile Q xs) \<le> length xs" for Q and xs :: "u8 list" by (rule length_dropWhile_le)
  show ?thesis
  proof (cases "is_separator c")
    case True
    then show ?thesis using d [of is_separator cs] by (simp add: Cons after_component_def skip_separators_def)
  next
    case False
    then have "after_component p = dropWhile is_separator (dropWhile (\<lambda>c. \<not> is_separator c) cs)"
      by (simp add: Cons after_component_def skip_separators_def)
    then show ?thesis using d [of is_separator "dropWhile (\<lambda>c. \<not> is_separator c) cs"] d [of "\<lambda>c. \<not> is_separator c" cs] by (simp add: Cons)
  qed
qed simp

definition RtlEqualString :: "u8 list \<Rightarrow> u8 list \<Rightarrow> bool \<Rightarrow> bool" where
  "RtlEqualString s1 s2 CaseInSensitive = (length s1 = length s2 \<and>
     (\<forall>i < length s1. (if CaseInSensitive then RtlUpperChar (s1 ! i) = RtlUpperChar (s2 ! i) else s1 ! i = s2 ! i)))"

definition entry_cluster :: "u8 list \<Rightarrow> u32" where
  "entry_cluster e = MERGE_CLUSTER_HI_N_LO (FirstClusterHigh e) (FirstClusterLow e)"

text \<open>The loop over the components. An error comes with the directory and the name where the last component was
  not found; the result is the entry with its place, or nothing where the path has no component.\<close>

function locate_loop :: "VOLUME \<Rightarrow> u8 list \<Rightarrow> u32 \<Rightarrow> (u8 list \<times> u32 \<times> u32) option \<Rightarrow>
    ((VEASTATUS \<times> (u32 \<times> u8 list) option + (u8 list \<times> u32 \<times> u32) option) \<times> VOLUME) option" where
  "locate_loop v Path CurrentDirCluster Found =
     (if Path = [] then Some (Inr Found, v)
      else (
        let Component = path_component Path; Rest = after_component Path
        in case FatpSearchDirectory v CurrentDirCluster Component of
             None \<Rightarrow> None
           | Some (Inl e, v) \<Rightarrow>
               Some (Inl (if Rest = [] then (STATUS_OBJECT_NAME_NOT_FOUND, Some (CurrentDirCluster, Component))
                          else (STATUS_OBJECT_PATH_NOT_FOUND, None)), v)
           | Some (Inr (e, c, off), v) \<Rightarrow>
               if Rest \<noteq> [] then
                 (if Attributes e AND FAT_ATTR_DIRECTORY = 0 then Some (Inl (STATUS_OBJECT_PATH_NOT_FOUND, None), v)
                  else locate_loop v Rest (entry_cluster e) (Some (e, c, off)))
               else Some (Inr (Some (e, c, off)), v)))"
  by auto
termination by (relation "measure (\<lambda>(v, p, c, f). length p)") (use after_component_less in auto)

declare locate_loop.simps [simp del]

text \<open>The string of the path is duplicated after the block has been allocated.\<close>

definition new_fcb :: "MOUNTED \<Rightarrow> FCB \<Rightarrow> u8 list \<Rightarrow> ((VEASTATUS + nat) \<times> MOUNTED) option" where
  "new_fcb s b Path = (case allocate_pool s of
       None \<Rightarrow> Some (Inl STATUS_INSUFFICIENT_RESOURCES, s)
     | Some s \<Rightarrow> (case allocate_pool s of
         None \<Rightarrow> Some (Inl STATUS_INSUFFICIENT_RESOURCES, free_pool s)
       | Some s \<Rightarrow> do { (a, s) \<leftarrow> insert_fcb s (b\<lparr>FcbFileName := Path, FcbNameInPool := True\<rparr>); Some (Inr a, s) }))"

definition FatLocateFcbEx :: "MOUNTED \<Rightarrow> u8 list \<Rightarrow> ((VEASTATUS \<times> (u32 \<times> u8 list) option + nat) \<times> MOUNTED) option" where
  "FatLocateFcbEx s Path = do {
     s \<leftarrow> acquire_list s;
     case find (\<lambda>(_, b). RtlEqualString (FcbFileName b) Path True) (FcbList s) of
       Some (a, _) \<Rightarrow> do { s \<leftarrow> FatReferenceFcb s a; s \<leftarrow> release_list s; Some (Inr a, s) }
     | None \<Rightarrow> do {
         s \<leftarrow> release_list s;
         (r, v) \<leftarrow> locate_loop (FatVolume s) (skip_separators Path) (RootDirStartCluster (Vcb (FatVolume s))) None;
         let s = s\<lparr>FatVolume := v\<rparr>;
         case r of
           Inl e \<Rightarrow> Some (Inl e, s)
         | Inr None \<Rightarrow> None
         | Inr (Some (e, c, off)) \<Rightarrow>
             if FileSize e > 0 \<and> entry_cluster e < 2 then Some (Inl (STATUS_CORRUPT_FILE, None), s)
             else do {
               (r, s) \<leftarrow> new_fcb s (zero_fcb\<lparr>FcbFirstCluster := entry_cluster e, FcbFileSize := FileSize e,
                 FcbAttributes := Attributes e, FcbParentDirCluster := c, FcbDirEntryByteOffset := off, FcbRefCount := 1\<rparr>) Path;
               Some (map_sum (\<lambda>e. (e, None)) id r, s) } } }"

section \<open>Opening\<close>

definition FILE_SUPERSEDE :: u32 where "FILE_SUPERSEDE = 0"
definition FILE_OPEN :: u32 where "FILE_OPEN = 1"
definition FILE_CREATE :: u32 where "FILE_CREATE = 2"
definition FILE_OPEN_IF :: u32 where "FILE_OPEN_IF = 3"
definition FILE_OVERWRITE_IF :: u32 where "FILE_OVERWRITE_IF = 5"
definition FILE_NON_DIRECTORY_FILE :: u32 where "FILE_NON_DIRECTORY_FILE = 0x40"
definition FILE_SUPERSEDED :: u32 where "FILE_SUPERSEDED = 0"
definition FILE_OPENED :: u32 where "FILE_OPENED = 1"
definition FILE_CREATED :: u32 where "FILE_CREATED = 2"

definition is_root_path :: "u8 list \<Rightarrow> bool" where
  "is_root_path Path \<longleftrightarrow> length Path = 0 \<or> length Path = 1 \<and> is_separator (Path ! 0)"

text \<open>The end of \<open>FatMjCreate\<close>: the context block of the file object. The result is \<open>Information\<close> and the block.\<close>

definition finish_create :: "MOUNTED \<Rightarrow> nat \<Rightarrow> u32 \<Rightarrow> ((VEASTATUS + u32 \<times> nat) \<times> MOUNTED) option" where
  "finish_create s Fcb Information = (case allocate_pool s of
       None \<Rightarrow> do { s \<leftarrow> FatDereferenceFcb s Fcb; Some (Inl STATUS_INSUFFICIENT_RESOURCES, s) }
     | Some s \<Rightarrow> Some (Inr (Information, Fcb), s))"

definition check_directory :: "MOUNTED \<Rightarrow> u32 \<Rightarrow> nat \<Rightarrow> u32 \<Rightarrow> ((VEASTATUS + u32 \<times> nat) \<times> MOUNTED) option" where
  "check_directory s CreateOptions Fcb Information = do {
     b \<leftarrow> map_of (FcbList s) Fcb;
     if FcbAttributes b AND FAT_ATTR_DIRECTORY \<noteq> 0 \<and> CreateOptions AND FILE_NON_DIRECTORY_FILE \<noteq> 0
     then do { s \<leftarrow> FatDereferenceFcb s Fcb; Some (Inl STATUS_FILE_IS_A_DIRECTORY, s) }
     else finish_create s Fcb Information }"

definition create_file :: "MOUNTED \<Rightarrow> u32 \<Rightarrow> u8 list \<Rightarrow> u32 \<Rightarrow> u8 list \<Rightarrow> ((VEASTATUS + nat) \<times> MOUNTED) option" where
  "create_file s ParentCluster LeafName FileAttributes Path = do {
     let a = (ucast (FileAttributes AND 0x37) :: u8);
     (Status, v) \<leftarrow> FatpAddDirectoryEntry (FatVolume s) ParentCluster LeafName a 0 0;
     let s = s\<lparr>FatVolume := v\<rparr>;
     if \<not> VEA_SUCCESS Status then Some (Inl Status, s)
     else new_fcb s (zero_fcb\<lparr>FcbFirstCluster := 0, FcbFileSize := 0, FcbAttributes := a, FcbRefCount := 1\<rparr>) Path }"

definition FatMjCreate :: "MOUNTED \<Rightarrow> u32 \<Rightarrow> u32 \<Rightarrow> u8 list \<Rightarrow> ((VEASTATUS + u32 \<times> nat) \<times> MOUNTED) option" where
  "FatMjCreate s RawOptions FileAttributes Path = (
     let CreateDisposition = drop_bit 24 RawOptions AND 0xFF;
         CreateOptions = RawOptions AND 0x00FFFFFF
     in if IsCdo s then Some (Inl STATUS_INVALID_DEVICE_REQUEST, s)
        else if is_root_path Path then do {
          (r, s) \<leftarrow> (if CreateOptions AND FILE_NON_DIRECTORY_FILE \<noteq> 0 then FatGetOrCreateVolumeFcb s else FatGetOrCreateRootFcb s);
          case r of
            None \<Rightarrow> Some (Inl STATUS_INSUFFICIENT_RESOURCES, s)
          | Some Fcb \<Rightarrow> finish_create s Fcb FILE_OPENED }
        else do {
          (r, s) \<leftarrow> FatLocateFcbEx s Path;
          case r of
            Inl (Status, Leaf) \<Rightarrow>
              if Status = STATUS_OBJECT_NAME_NOT_FOUND \<and>
                 CreateDisposition \<in> {FILE_CREATE, FILE_OPEN_IF, FILE_OVERWRITE_IF, FILE_SUPERSEDE}
              then do {
                (ParentCluster, LeafName) \<leftarrow> Leaf;
                (r, s) \<leftarrow> create_file s ParentCluster LeafName FileAttributes Path;
                case r of
                  Inl e \<Rightarrow> Some (Inl e, s)
                | Inr Fcb \<Rightarrow> check_directory s CreateOptions Fcb FILE_CREATED }
              else Some (Inl Status, s)
          | Inr Fcb \<Rightarrow>
              if CreateDisposition = FILE_CREATE
              then do { s \<leftarrow> FatDereferenceFcb s Fcb; Some (Inl STATUS_OBJECT_NAME_COLLISION, s) }
              else check_directory s CreateOptions Fcb
                (if CreateDisposition = FILE_SUPERSEDE then FILE_SUPERSEDED else FILE_OPENED) })"

section \<open>A path that is open\<close>

lemma RtlEqualString_upper: "RtlEqualString a b True \<longleftrightarrow> upper a = upper b"
  unfolding RtlEqualString_def list_eq_iff_nth_eq by auto

lemma separator_upper: "is_separator (RtlUpperChar c) = is_separator c"
proof -
  have "RtlUpperChar c = 0x2F \<longleftrightarrow> c = 0x2F" "RtlUpperChar c = BACKSLASH \<longleftrightarrow> c = BACKSLASH"
    by (rule upper_keeps; simp add: BACKSLASH_def)+
  then show ?thesis by (simp add: is_separator_def)
qed

lemma is_root_path_upper:
  assumes "upper p = upper q"
  shows "is_root_path p = is_root_path q"
proof -
  have l: "length p = length q" using assms by (metis length_map)
  have "p \<noteq> [] \<Longrightarrow> RtlUpperChar (p ! 0) = RtlUpperChar (q ! 0)" using assms l by (metis length_greater_0_conv nth_map)
  then show ?thesis using l separator_upper unfolding is_root_path_def by (metis length_greater_0_conv list.size(3) zero_neq_one)
qed

text \<open>A step that leaves the device and the lock alone and keeps the blocks of the list.\<close>

definition keeps :: "MOUNTED \<Rightarrow> MOUNTED \<Rightarrow> bool" where
  "keeps s s' \<longleftrightarrow> IsCdo s' = IsCdo s \<and> FcbListLocked s' = FcbListLocked s \<and> set (FcbList s) \<subseteq> set (FcbList s')"

lemma keeps_trans: "keeps s t \<Longrightarrow> keeps t u \<Longrightarrow> keeps s u"
  by (auto simp: keeps_def)

lemma keeps_volume [simp]: "keeps s (s\<lparr>FatVolume := v\<rparr>)"
  by (simp add: keeps_def)

lemma insert_fcb_ok: "\<not> FcbListLocked s \<Longrightarrow> insert_fcb s b =
    Some (NextAddress s, s\<lparr>FcbList := FcbList s @ [(NextAddress s, b)], NextAddress := NextAddress s + 1\<rparr>)"
  by (cases s) (simp add: insert_fcb_def acquire_list_def release_list_def Let_def)

lemma new_fcb_keeps:
  assumes "\<not> FcbListLocked s" "new_fcb s b p = Some (r, s')"
  shows "keeps s s'"
  using assms by (auto simp: new_fcb_def insert_fcb_ok allocate_pool_def free_pool_def keeps_def split: option.splits)

lemma new_fcb_ok:
  assumes "\<not> FcbListLocked s" "new_fcb s b p = Some (Inr a, s')"
  shows "keeps s s'" "(a, b\<lparr>FcbFileName := p, FcbNameInPool := True\<rparr>) \<in> set (FcbList s')"
  using assms by (auto simp: new_fcb_def insert_fcb_ok allocate_pool_def keeps_def split: option.splits)

lemma finish_create_ok: "finish_create s f i = Some (Inr (j, g), s') \<Longrightarrow> keeps s s'"
  by (auto simp: finish_create_def allocate_pool_def split: option.splits bind_splits)

lemma check_directory_ok: "check_directory s opts f i = Some (Inr (j, g), s') \<Longrightarrow> keeps s s'"
  by (auto simp: check_directory_def finish_create_ok split: if_splits bind_splits)

text \<open>A lookup of a path with a block stops the machine.\<close>

lemma reference_locked: "FcbListLocked s \<Longrightarrow> FatReferenceFcb s a = None"
  by (simp add: FatReferenceFcb_def acquire_list_def)

lemma locate_cached:
  assumes "(a, b) \<in> set (FcbList s)" "upper (FcbFileName b) = upper q"
  shows "FatLocateFcbEx s q = None"
proof (cases "FcbListLocked s")
  case False
  obtain a' b' where "find (\<lambda>(_, b). RtlEqualString (FcbFileName b) q True) (FcbList s) = Some (a', b')"
    using assms by (cases "find (\<lambda>(_, b). RtlEqualString (FcbFileName b) q True) (FcbList s)")
      (auto simp: find_None_iff RtlEqualString_upper)
  then show ?thesis using False by (simp add: FatLocateFcbEx_def acquire_list_def reference_locked)
qed (simp add: FatLocateFcbEx_def acquire_list_def)

lemma create_cached:
  assumes "(a, b) \<in> set (FcbList s)" "upper (FcbFileName b) = upper q" "\<not> IsCdo s" "\<not> is_root_path q"
  shows "FatMjCreate s opts attr q = None"
  using assms locate_cached [OF assms(1,2)] by (simp add: FatMjCreate_def Let_def)

lemma locate_new:
  assumes "\<not> FcbListLocked s" "FatLocateFcbEx s p = Some (r, s')"
  shows "keeps s s'" "r = Inr a \<Longrightarrow> \<exists>b. (a, b) \<in> set (FcbList s') \<and> FcbFileName b = p"
proof -
  let ?P = "\<lambda>(_, b). RtlEqualString (FcbFileName b) p True"
  have f: "find ?P (FcbList s) = None"
  proof (rule ccontr)
    assume "find ?P (FcbList s) \<noteq> None"
    then obtain a b where "find ?P (FcbList s) = Some (a, b)" by auto
    then show False using assms by (simp add: FatLocateFcbEx_def acquire_list_def reference_locked)
  qed
  obtain v q where run: "locate_loop (FatVolume s) (skip_separators p) (RootDirStartCluster (Vcb (FatVolume s))) None = Some (q, v)"
    using assms f by (cases "locate_loop (FatVolume s) (skip_separators p) (RootDirStartCluster (Vcb (FatVolume s))) None")
      (auto simp: FatLocateFcbEx_def acquire_list_def release_list_def)
  let ?s = "s\<lparr>FcbListLocked := False, FatVolume := v\<rparr>"
  have s: "\<not> FcbListLocked ?s" "keeps s ?s" using assms(1) by (simp_all add: keeps_def)
  have loc: "FatLocateFcbEx s p = (case q of Inl e \<Rightarrow> Some (Inl e, ?s) | Inr None \<Rightarrow> None | Inr (Some (e, c, off)) \<Rightarrow>
      if FileSize e > 0 \<and> entry_cluster e < 2 then Some (Inl (STATUS_CORRUPT_FILE, None), ?s)
      else Option.bind (new_fcb ?s (zero_fcb\<lparr>FcbFirstCluster := entry_cluster e, FcbFileSize := FileSize e,
                 FcbAttributes := Attributes e, FcbParentDirCluster := c, FcbDirEntryByteOffset := off, FcbRefCount := 1\<rparr>) p)
        (\<lambda>(r, s). Some (map_sum (\<lambda>e. (e, None)) id r, s)))"
    using assms(1) f run by (simp add: FatLocateFcbEx_def acquire_list_def release_list_def Let_def)
  show "keeps s s'" and "r = Inr a \<Longrightarrow> \<exists>b. (a, b) \<in> set (FcbList s') \<and> FcbFileName b = p"
  proof -
    have "keeps s s' \<and> (r = Inr a \<longrightarrow> (\<exists>b. (a, b) \<in> set (FcbList s') \<and> FcbFileName b = p))"
    proof (cases q)
      case (Inl e)
      then show ?thesis using assms(2) s(2) unfolding loc by auto
    next
      case (Inr x)
      obtain e c off where x: "x = Some (e, c, off)" using assms(2) unfolding loc Inr by (cases x) auto
      let ?b = "zero_fcb\<lparr>FcbFirstCluster := entry_cluster e, FcbFileSize := FileSize e,
                 FcbAttributes := Attributes e, FcbParentDirCluster := c, FcbDirEntryByteOffset := off, FcbRefCount := 1\<rparr>"
      show ?thesis
      proof (cases "FileSize e > 0 \<and> entry_cluster e < 2")
        case True
        then show ?thesis using assms(2) s(2) unfolding loc Inr x by auto
      next
        case False
        then obtain r' where n: "new_fcb ?s ?b p = Some (r', s')" and r: "r = map_sum (\<lambda>e. (e, None)) id r'"
          using assms(2) unfolding loc Inr x by (auto split: bind_splits)
        have "keeps s s'" using keeps_trans [OF s(2) new_fcb_keeps [OF s(1) n]] .
        moreover have "\<exists>b. (a, b) \<in> set (FcbList s') \<and> FcbFileName b = p" if "r = Inr a"
        proof -
          have "r' = Inr a" using that r by (cases r') auto
          then have "(a, ?b\<lparr>FcbFileName := p, FcbNameInPool := True\<rparr>) \<in> set (FcbList s')" using new_fcb_ok(2) [OF s(1)] n by blast
          then show ?thesis by (intro exI conjI) (assumption, simp)
        qed
        ultimately show ?thesis by blast
      qed
    qed
    then show "keeps s s'" "r = Inr a \<Longrightarrow> \<exists>b. (a, b) \<in> set (FcbList s') \<and> FcbFileName b = p" by blast+
  qed
qed

lemma create_file_ok:
  assumes "\<not> FcbListLocked s" "create_file s c leaf attr p = Some (Inr a, s')"
  shows "keeps s s' \<and> (\<exists>b. (a, b) \<in> set (FcbList s') \<and> FcbFileName b = p)"
proof -
  obtain st v where add: "FatpAddDirectoryEntry (FatVolume s) c leaf (ucast (attr AND 0x37)) 0 0 = Some (st, v)" "VEA_SUCCESS st"
    using assms(2) by (auto simp: create_file_def Let_def split: bind_splits if_splits)
  let ?b = "zero_fcb\<lparr>FcbFirstCluster := 0, FcbFileSize := 0, FcbAttributes := ucast (attr AND 0x37), FcbRefCount := 1\<rparr>"
  have n: "new_fcb (s\<lparr>FatVolume := v\<rparr>) ?b p = Some (Inr a, s')" using assms(2) add by (simp add: create_file_def Let_def)
  have "\<not> FcbListLocked (s\<lparr>FatVolume := v\<rparr>)" using assms(1) by simp
  from new_fcb_ok [OF this n] show ?thesis
    using keeps_trans [OF keeps_volume] by (intro conjI exI) (assumption | simp)+
qed

lemma create_new:
  assumes "\<not> FcbListLocked s" "\<not> is_root_path p" "FatMjCreate s opts attr p = Some (Inr (i, f), s')"
  shows "\<not> IsCdo s' \<and> (\<exists>a b. (a, b) \<in> set (FcbList s') \<and> FcbFileName b = p)"
proof -
  have cdo: "\<not> IsCdo s" using assms(3) by (auto simp: FatMjCreate_def Let_def)
  obtain r s1 where l: "FatLocateFcbEx s p = Some (r, s1)"
    using assms(2,3) cdo by (cases "FatLocateFcbEx s p") (auto simp: FatMjCreate_def Let_def)
  note k = locate_new [OF assms(1) l]
  have u: "\<not> FcbListLocked s1" "\<not> IsCdo s1" using k(1) assms(1) cdo by (simp_all add: keeps_def)
  have done': ?thesis if "keeps s1 t" "(a, b) \<in> set (FcbList t)" "FcbFileName b = p" "check_directory t opts' a' j = Some (Inr (i, f), s')" for t a b a' opts' j
    using that(1-3) check_directory_ok [OF that(4)] u(2) by (auto simp: keeps_def)
  show ?thesis
  proof (cases r)
    case (Inr a)
    obtain b where b: "(a, b) \<in> set (FcbList s1)" "FcbFileName b = p" using k(2) [OF Inr] by blast
    obtain opts' j where "check_directory s1 opts' a j = Some (Inr (i, f), s')"
      using assms(2,3) cdo l Inr by (auto simp: FatMjCreate_def Let_def split: if_splits bind_splits)
    then show ?thesis using done' [OF _ b] by (simp add: keeps_def)
  next
    case (Inl e)
    obtain c leaf a t opts' j where c: "create_file s1 c leaf attr p = Some (Inr a, t)" "check_directory t opts' a j = Some (Inr (i, f), s')"
      using assms(2,3) cdo l Inl by (auto simp: FatMjCreate_def Let_def split: if_splits bind_splits sum.splits prod.splits)
    obtain b where "keeps s1 t" "(a, b) \<in> set (FcbList t)" "FcbFileName b = p" using create_file_ok [OF u(1) c(1)] by blast
    then show ?thesis using done' c(2) by blast
  qed
qed

text \<open>C28: A file can be opened once: after an open or a creation of a path that succeeded, the next open of the path, with whatever
  options and in upper or lower case letters, stops the machine, because it references the block it finds in the list while
  it holds the lock of the list, and the reference takes the same lock.\<close>

theorem reopen_stops_machine:
  assumes "\<not> FcbListLocked s" "\<not> is_root_path p" "FatMjCreate s opts attr p = Some (Inr (i, f), s')" "upper q = upper p"
  shows "FatMjCreate s' opts' attr' q = None"
proof -
  obtain a b where "(a, b) \<in> set (FcbList s')" "FcbFileName b = p" "\<not> IsCdo s'" using create_new [OF assms(1-3)] by blast
  moreover have "\<not> is_root_path q" using is_root_path_upper [OF assms(4)] assms(2) by simp
  ultimately show ?thesis using create_cached assms(4) by metis
qed

section \<open>Following a path\<close>

text \<open>The components of a path, and the entry they lead to from a directory.\<close>

function components :: "u8 list \<Rightarrow> u8 list list" where
  "components p = (if p = [] then [] else path_component p # components (after_component p))"
  by auto
termination by (relation "measure length") (use after_component_less in auto)

declare components.simps [simp del]

definition answers :: "VOLUME \<Rightarrow> u32 \<Rightarrow> u8 list \<Rightarrow> u8 list \<Rightarrow> u32 \<times> u32 \<Rightarrow> bool" where
  "answers v d nm e at \<longleftrightarrow> (\<exists>n f j. dir_ok v n d \<and> FatpFormatSfn nm = Some f \<and>
     scan_entries nm f 0 (entries v n d) fresh_lfn = Some (MatchAt j e) \<and> at = place v n d j)"

inductive resolves :: "VOLUME \<Rightarrow> u32 \<Rightarrow> u8 list list \<Rightarrow> u8 list \<Rightarrow> u32 \<times> u32 \<Rightarrow> bool" where
  last: "answers v d nm e at \<Longrightarrow> resolves v d [nm] e at"
| step: "answers v d nm e' at' \<Longrightarrow> Attributes e' AND FAT_ATTR_DIRECTORY \<noteq> 0 \<Longrightarrow>
    resolves v (entry_cluster e') (c # cs) e at \<Longrightarrow> resolves v d (nm # c # cs) e at"

inductive_cases resolves_elim: "resolves v d (nm # cs) e at"

lemma answers_search: "answers v d nm e at \<Longrightarrow> FatpSearchDirectory v d nm = Some (Inr (e, at), v)"
  using search_ok by (fastforce simp: answers_def search_result_def)

lemma locate_loop_ok:
  "p \<noteq> [] \<Longrightarrow> resolves v d (components p) e at \<Longrightarrow> locate_loop v p d F = Some (Inr (Some (e, at)), v)"
proof (induction "length p" arbitrary: p d F rule: less_induct)
  case less
  let ?c = "path_component p" and ?r = "after_component p"
  have c: "components p = ?c # components ?r" using less.prems(1) by (subst components.simps) simp
  obtain x y where at: "at = (x, y)" by (cases at)
  show ?case
  proof (cases "?r = []")
    case True
    then have c1: "components p = [?c]" unfolding c by (simp add: components.simps)
    have "answers v d ?c e at" using less.prems(2) unfolding c1 by (rule resolves_elim) simp_all
    then show ?thesis using less.prems(1) True at answers_search by (subst locate_loop.simps) simp
  next
    case False
    then obtain n cs where r: "components ?r = n # cs" by (subst (asm) components.simps) (metis components.simps)
    have "\<exists>e' at'. answers v d ?c e' at' \<and> Attributes e' AND FAT_ATTR_DIRECTORY \<noteq> 0 \<and> resolves v (entry_cluster e') (n # cs) e at"
      using less.prems(2) unfolding c r by (rule resolves_elim) auto
    then obtain e' at' where s: "answers v d ?c e' at'" "Attributes e' AND FAT_ATTR_DIRECTORY \<noteq> 0"
      "resolves v (entry_cluster e') (components ?r) e at" unfolding r by blast
    obtain x' y' where at': "at' = (x', y')" by (cases at')
    have "locate_loop v ?r (entry_cluster e') (Some (e', x', y')) = Some (Inr (Some (e, at)), v)"
      using less.hyps [OF after_component_less [OF less.prems(1)] False s(3)] .
    then show ?thesis using less.prems(1) False s(2) answers_search [OF s(1)] at' by (subst locate_loop.simps) simp
  qed
qed

text \<open>The block of an entry.\<close>

definition entry_fcb :: "u8 list \<Rightarrow> u32 \<times> u32 \<Rightarrow> u8 list \<Rightarrow> FCB" where
  "entry_fcb e at p = zero_fcb\<lparr>FcbFirstCluster := entry_cluster e, FcbFileSize := FileSize e, FcbAttributes := Attributes e,
     FcbParentDirCluster := fst at, FcbDirEntryByteOffset := snd at, FcbRefCount := 1, FcbFileName := p, FcbNameInPool := True\<rparr>"

definition mounted_ok :: "MOUNTED \<Rightarrow> bool" where
  "mounted_ok s \<longleftrightarrow> \<not> IsCdo s \<and> \<not> FcbListLocked s \<and> (\<forall>(a, b) \<in> set (FcbList s). a < NextAddress s)"

abbreviation "root_cluster s \<equiv> RootDirStartCluster (Vcb (FatVolume s))"

lemma open_ok:
  assumes "mounted_ok s" "\<not> is_root_path p" "\<forall>(a, b) \<in> set (FcbList s). upper (FcbFileName b) \<noteq> upper p"
    and "skip_separators p \<noteq> []" "resolves (FatVolume s) (root_cluster s) (components (skip_separators p)) e at"
    and "FileSize e > 0 \<longrightarrow> 2 \<le> entry_cluster e" "3 \<le> PoolFree (FatVolume s)"
    and "drop_bit 24 opts AND 0xFF \<notin> {FILE_CREATE, FILE_SUPERSEDE}" "Attributes e AND FAT_ATTR_DIRECTORY = 0"
  shows "FatMjCreate s opts attr p = Some (Inr (FILE_OPENED, NextAddress s),
    s\<lparr>FatVolume := (FatVolume s)\<lparr>PoolFree := PoolFree (FatVolume s) - 3\<rparr>,
      FcbList := FcbList s @ [(NextAddress s, entry_fcb e at p)], NextAddress := NextAddress s + 1\<rparr>)"
proof -
  let ?v = "FatVolume s" and ?a = "NextAddress s" and ?b = "entry_fcb e at p"
  have u: "\<not> IsCdo s" "\<not> FcbListLocked s" using assms(1) by (simp_all add: mounted_ok_def)
  have f: "find (\<lambda>(_, b). RtlEqualString (FcbFileName b) p True) (FcbList s) = None"
    using assms(3) by (auto simp: find_None_iff RtlEqualString_upper)
  obtain x y where at: "at = (x, y)" by (cases at)
  have s0: "s\<lparr>FcbListLocked := False\<rparr> = s" using u(2) by (cases s) simp
  have run: "locate_loop ?v (skip_separators p) (root_cluster s) None = Some (Inr (Some (e, x, y)), ?v)"
    using locate_loop_ok [OF assms(4,5)] at by simp
  obtain q where q: "PoolFree ?v = q + 3" using assms(7) by (metis add.commute le_Suc_ex)
  have big: "\<not> (FileSize e > 0 \<and> entry_cluster e < 2)" using assms(6) by auto
  let ?s2 = "s\<lparr>FatVolume := ?v\<lparr>PoolFree := q + 1\<rparr>, FcbList := FcbList s @ [(?a, ?b)], NextAddress := ?a + 1\<rparr>"
  have "new_fcb s (zero_fcb\<lparr>FcbFirstCluster := entry_cluster e, FcbFileSize := FileSize e,
      FcbAttributes := Attributes e, FcbParentDirCluster := x, FcbDirEntryByteOffset := y, FcbRefCount := 1\<rparr>) p = Some (Inr ?a, ?s2)"
    using u q by (simp add: new_fcb_def allocate_pool_def take_pool_def insert_fcb_ok entry_fcb_def at)
  then have loc: "FatLocateFcbEx s p = Some (Inr ?a, ?s2)"
    using u(2) f run big by (simp add: FatLocateFcbEx_def acquire_list_def release_list_def s0)
  have new: "map_of (FcbList s @ [(?a, ?b)]) ?a = Some ?b"
  proof -
    have "?a \<notin> fst ` set (FcbList s)" using assms(1) by (auto simp: mounted_ok_def)
    then have "map_of (FcbList s) ?a = None" by (simp add: map_of_eq_None_iff)
    then show ?thesis by (simp add: map_add_def)
  qed
  have "FcbAttributes ?b = Attributes e" by (simp add: entry_fcb_def)
  then have "check_directory ?s2 co ?a FILE_OPENED = Some (Inr (FILE_OPENED, ?a), ?s2\<lparr>FatVolume := ?v\<lparr>PoolFree := q\<rparr>\<rparr>)" for co
    using new assms(9) by (simp add: check_directory_def finish_create_def allocate_pool_def take_pool_def)
  then show ?thesis
    using u(1) assms(2,8) loc q by (simp add: FatMjCreate_def Let_def)
qed

lemma pool_data: "cluster_data (v\<lparr>PoolFree := q\<rparr>) = cluster_data v"
  by (simp add: cluster_data_def sectors_def sec_def cluster_at_def fun_eq_iff)

text \<open>C27: The end-to-end path of a read. On a mounted volume that ends below 4 GB, with four blocks of the pool free, let a
  path that is not open yet lead through the directories to the entry of a file. Opening it, other than with
  \<open>FILE_CREATE\<close> or \<open>FILE_SUPERSEDE\<close>, and then reading gives the bytes of the chain of clusters the entry names, up to the size
  in the entry, when the range starts at a sector boundary, ends at one or lies in one cluster.\<close>

theorem open_then_read:
  assumes "mounted_ok s" "\<not> is_root_path p" "\<forall>(a, b) \<in> set (FcbList s). upper (FcbFileName b) \<noteq> upper p"
    and "skip_separators p \<noteq> []" "resolves (FatVolume s) (root_cluster s) (components (skip_separators p)) e at"
    and "4 \<le> PoolFree (FatVolume s)" "Attributes e AND FAT_ATTR_DIRECTORY = 0"
    and "drop_bit 24 opts AND 0xFF \<notin> {FILE_CREATE, FILE_SUPERSEDE}"
    and "F = \<lparr>FcbFirstCluster = entry_cluster e, FcbFileSize = FileSize e\<rparr>" "file_ok (FatVolume s) n F" "below_4gb (FatVolume s)"
    and "unat off < unat (FileSize e)" "0 < Length" "unat Length \<le> length (UserBuffer Oip)"
    and "len = min (unat Length) (unat (FileSize e) - unat off)"
    and "unat off mod bsize (FatVolume s) = 0 \<or> unat off mod csize (FatVolume s) + len \<le> csize (FatVolume s) \<or>
      (unat off + len) mod bsize (FatVolume s) = 0"
  shows "\<exists>a b s' r. FatMjCreate s opts attr p = Some (Inr (FILE_OPENED, a), s') \<and> map_of (FcbList s') a = Some b \<and>
    FatMjRead (FatVolume s') Oip (VEAFAT_FCB.truncate b) off Length = Some (r, FatVolume s') \<and>
    OipStatus r = STATUS_SUCCESS \<and> OipInformation r = of_nat len \<and>
    UserBuffer r = take len (drop (unat off) (file_data (FatVolume s) n F)) @ drop len (UserBuffer Oip)"
proof -
  let ?v = "FatVolume s" and ?a = "NextAddress s" and ?b = "entry_fcb e at p"
  let ?w = "?v\<lparr>PoolFree := PoolFree ?v - 3\<rparr>"
  let ?s = "s\<lparr>FatVolume := ?w, FcbList := FcbList s @ [(?a, ?b)], NextAddress := ?a + 1\<rparr>"
  have v: "volume_ok ?v" "length (chain ?v n (FcbFirstCluster F)) = n" "unat (FileSize e) \<le> n * csize ?v"
    using assms(10) by (simp_all add: file_ok_def assms(9))
  have "n \<noteq> 0" using v(3) assms(12) by (cases n) simp_all
  then have "is_cluster ?v (entry_cluster e)" using v(2) by (cases n) (auto simp: assms(9) split: if_splits)
  then have big: "FileSize e > 0 \<longrightarrow> 2 \<le> entry_cluster e" using is_cluster_word [OF v(1)] by simp
  have op: "FatMjCreate s opts attr p = Some (Inr (FILE_OPENED, ?a), ?s)"
    using open_ok [OF assms(1-5) big _ assms(8,7)] assms(6) by simp
  have fb: "VEAFAT_FCB.truncate ?b = F" by (simp add: VEAFAT_FCB.defs entry_fcb_def zero_fcb_def assms(9))
  have "?a \<notin> fst ` set (FcbList s)" using assms(1) by (auto simp: mounted_ok_def)
  then have "map_of (FcbList s) ?a = None" by (simp add: map_of_eq_None_iff)
  then have new: "map_of (FcbList ?s) ?a = Some ?b" by (simp add: map_add_def)
  have data: "file_data ?w n F = file_data ?v n F" by (simp add: file_data_def chain_data_def pool_data)
  have "FatMjRead ?w Oip F off Length = Some (Oip\<lparr>OipStatus := STATUS_SUCCESS, OipInformation := of_nat len,
    UserBuffer := take len (drop (unat off) (file_data ?w n F)) @ drop len (UserBuffer Oip),
    CcbByteOffset := of_nat (unat off + len)\<rparr>, ?w)"
    by (rule file_read_ok) (use assms in \<open>simp_all add: file_ok_def below_4gb_def\<close>)
  then show ?thesis using op new fb data
    by (intro exI [of _ ?a] exI [of _ ?b] exI [of _ ?s]) simp
qed

section \<open>A file in the root directory\<close>

definition file_name :: "u8 list" where "file_name = [0x46]"

definition file_entry :: "u8 list" where "file_entry = entry_of file_name 0x20 3 100"

definition open_volume :: VOLUME where
  "open_volume = store dir_volume 1536 0 [file_entry]"

definition mounted :: MOUNTED where
  "mounted = \<lparr>FatVolume = open_volume, IsCdo = False, FcbList = [], FcbListLocked = False, NextAddress = 0\<rparr>"

lemma file_name_slots: "name_slots file_name = 1" "\<not> FatpNeedsLfn file_name" "length file_name \<le> 247" "0 \<notin> set file_name" "0xE5 \<notin> set file_name"
  by (simp_all add: name_slots_def file_name_def FatpNeedsLfn_def DOT_def SPACE_def)

lemma file_entries: "name_entries file_name 0x20 3 100 = [file_entry]"
  using file_name_slots(2) by (simp add: lfn_part_def file_entry_def)

lemma file_entry_fields: "Attributes file_entry = 0x20" "entry_cluster file_entry = 3" "FileSize file_entry = 100"
proof -
  obtain S where S: "FatpGenerateSfn file_name = Some S" "length S = 11" using FatpGenerateSfn_ok by blast
  show "Attributes file_entry = 0x20" "entry_cluster file_entry = 3" "FileSize file_entry = 100"
    using S by (simp_all add: file_entry_def entry_of_def sfn_entry_def Attributes_def entry_cluster_def FirstClusterHigh_def
        FirstClusterLow_def FileSize_def MERGE_CLUSTER_HI_N_LO_def nth_append c16.enc_length c32.enc_length c16.dec_enc c32.dec_enc)
qed

lemma open_volume_ok: "dir_ok open_volume 2 2" "entries open_volume 2 2 = file_entry # drop 1 (entries dir_volume 2 2)"
proof -
  have p: "per_sector dir_volume = 16" by (simp add: dir_volume_def small_bytes)
  have l: "entries_ok [file_entry]" using new_entries_shape(2) [OF file_name_slots(3), of "0x20" 3 100] unfolding file_entries .
  obtain r where r: "dir_list small_volume 2 2 = replicate 16 (replicate 32 0) @ take 32 ramp # r" using dir_volume_entries by blast
  then have d: "entries dir_volume 2 2 \<noteq> []"
    unfolding dir_volume_ok(2) by (simp add: dir_volume_def)
  have "dir_sectors dir_volume 2 (dir_start dir_volume 2) ! 0 = 1536"
    unfolding dir_volume_ok(2) by (simp add: dir_sectors_def dir_volume_def small_chain small_sectors)
  then have c: "store dir_volume (dir_sectors dir_volume 2 (dir_start dir_volume 2) ! (0 div per_sector dir_volume))
      (0 mod per_sector dir_volume + 1 - length [file_entry]) [file_entry] = open_volume"
    by (simp add: p open_volume_def)
  note a = added [OF dir_volume_ok(1) l, of 0, unfolded c]
  show "dir_ok open_volume 2 2" by (rule a(2)) (simp_all add: d p)
  show "entries open_volume 2 2 = file_entry # drop 1 (entries dir_volume 2 2)"
    using a(1) d p by simp
qed

lemma file_answers: "answers open_volume 2 file_name file_entry (place open_volume 2 2 0)"
proof -
  obtain f where f: "FatpFormatSfn file_name = Some f" using FatpFormatSfn_ok by blast
  have "scan_entries file_name f 0 (name_entries file_name 0x20 3 100 @ drop 1 (entries dir_volume 2 2)) fresh_lfn =
      Some (MatchAt (0 + name_slots file_name - 1) (entry_of file_name 0x20 3 100))"
    by (rule scan_new) (use file_name_slots f in \<open>simp_all add: FAT_ATTR_VOLUME_ID_def fresh_lfn_def\<close>)
  then have "scan_entries file_name f 0 (entries open_volume 2 2) fresh_lfn = Some (MatchAt 0 file_entry)"
    unfolding open_volume_ok(2) file_entries using file_name_slots(1) by (simp add: file_entry_def)
  then show ?thesis using open_volume_ok(1) f unfolding answers_def by blast
qed

lemma open_volume_table:
  "chain open_volume 1 3 = [3]" "cluster_data open_volume 3 = ramp" "Vcb open_volume = small_vcb" "PoolFree open_volume = 5"
proof -
  show v: "Vcb open_volume = small_vcb" "PoolFree open_volume = 5"
    by (simp_all add: open_volume_def dir_volume_def small_volume_def)
  have i: "is_cluster open_volume 3" using small_clusters [of 3] by (simp add: open_volume_def dir_volume_def)
  then show "chain open_volume 1 3 = [3]" by simp
  have "sec open_volume 2048 = ramp"
    by (simp add: sec_def open_volume_def store_def dir_volume_def small_volume_def)
  moreover have "cluster_at open_volume 3 = 2048" by (simp add: cluster_at_def FAT32_CLUSTER_TO_LBA_def v small_vcb_def)
  moreover have "unat (SectorsPerCluster (Vcb open_volume)) = 1" by (simp add: v small_vcb_def)
  ultimately show "cluster_data open_volume 3 = ramp" by (simp add: cluster_data_def sectors_1 [unfolded One_nat_def])
qed

lemma mounted_facts: "mounted_ok mounted" "\<not> is_root_path [0x2F, 0x46]" "skip_separators [0x2F, 0x46] = file_name"
  "components file_name = [file_name]" "FcbList mounted = []" "FatVolume mounted = open_volume" "root_cluster mounted = 2"
  using open_volume_table(3)
  by (simp_all add: mounted_ok_def mounted_def is_root_path_def skip_separators_def is_separator_def BACKSLASH_def file_name_def
      components.simps path_component_def after_component_def small_vcb_def)

lemma file_resolves: "resolves (FatVolume mounted) (root_cluster mounted) (components (skip_separators [0x2F, 0x46])) file_entry (place open_volume 2 2 0)"
  using resolves.last [OF file_answers] open_volume_table(3) by (simp add: mounted_facts small_vcb_def)

theorem open_then_read_witness:
  "\<exists>a b s' r. FatMjCreate mounted 0x01000000 0 [0x2F, 0x46] = Some (Inr (FILE_OPENED, a), s') \<and> map_of (FcbList s') a = Some b \<and>
     FatMjRead (FatVolume s') (request 3) (VEAFAT_FCB.truncate b) 0 3 = Some (r, FatVolume s') \<and> UserBuffer r = [0, 1, 2]"
proof -
  let ?F = "\<lparr>FcbFirstCluster = entry_cluster file_entry, FcbFileSize = FileSize file_entry\<rparr>"
  note e = file_entry_fields and t = open_volume_table and m = mounted_facts
  have v: "volume_ok open_volume" "disk_works open_volume" using open_volume_ok(1) by (simp_all add: dir_ok_def)
  have f: "file_ok (FatVolume mounted) 1 ?F" "below_4gb (FatVolume mounted)"
    using v t by (simp_all add: file_ok_def m e below_4gb_def small_vcb_def)
  have len: "3 = min (unat (3 :: u32)) (unat (FileSize file_entry) - unat (0 :: u64))" by (simp add: e)
  have d: "take 3 (drop (unat (0 :: u64)) (file_data (FatVolume mounted) 1 ?F)) = [0, 1, 2]"
    using t(1,2) ramp_bytes(2) by (simp add: file_data_def chain_data_def m e min_def take_take)
  obtain a b s' r where "FatMjCreate mounted 0x01000000 0 [0x2F, 0x46] = Some (Inr (FILE_OPENED, a), s')" "map_of (FcbList s') a = Some b"
    "FatMjRead (FatVolume s') (request 3) (VEAFAT_FCB.truncate b) 0 3 = Some (r, FatVolume s')"
    "UserBuffer r = take 3 (drop (unat (0 :: u64)) (file_data (FatVolume mounted) 1 ?F)) @ drop 3 (UserBuffer (request 3))"
    using open_then_read [OF m(1,2) _ _ file_resolves _ _ _ refl f _ _ _ len, where opts = "0x01000000" and attr = 0 and Oip = "request 3"]
    by (auto simp: m e t FAT_ATTR_DIRECTORY_def FILE_CREATE_def FILE_SUPERSEDE_def file_name_def)
  then show ?thesis unfolding d by auto
qed

theorem reopen_stops_machine_witness:
  "\<exists>i f s'. FatMjCreate mounted 0x01000000 0 [0x2F, 0x46] = Some (Inr (i, f), s') \<and> FatMjCreate s' 0x01000000 0 [0x2F, 0x66] = None"
proof -
  have "\<exists>s'. FatMjCreate mounted 0x01000000 0 [0x2F, 0x46] = Some (Inr (FILE_OPENED, NextAddress mounted), s')"
    using open_ok [OF mounted_facts(1,2) _ _ file_resolves, of "0x01000000" 0]
    by (auto simp: mounted_facts file_entry_fields open_volume_table FAT_ATTR_DIRECTORY_def FILE_CREATE_def FILE_SUPERSEDE_def file_name_def)
  then obtain s' where s: "FatMjCreate mounted 0x01000000 0 [0x2F, 0x46] = Some (Inr (FILE_OPENED, NextAddress mounted), s')" ..
  have l: "\<not> FcbListLocked mounted" using mounted_facts(1) by (simp add: mounted_ok_def)
  have u: "upper [0x2F, 0x66] = upper [0x2F, 0x46]" by (simp add: RtlUpperChar_def)
  show ?thesis using s reopen_stops_machine [OF l mounted_facts(2) s u] by blast
qed

end
