(* ===== verification/FatMount.thy ===== *)
theory FatMount
  imports FatOpen
begin

section \<open>Mounting\<close>

text \<open>
  \<open>driver/filesystem/veafat/fsctl.c\<close> (\<open>FatMjFsCtl\<close>, \<open>FatValidateVbr\<close>) and the dispatch routine of \<open>fatmain.c\<close>. What the device below
  answers is a parameter: the sector size its geometry gives, and the bytes at an offset, as many as the request asks for, or
  an error. The boot sector and the information sector are read into structures of 512 bytes on the stack, whose
  content before is a parameter too.
\<close>

definition vbr16 :: "u8 list \<Rightarrow> nat \<Rightarrow> u16" where "vbr16 Vbr p = dec16 (take 2 (drop p Vbr))"
definition vbr32 :: "u8 list \<Rightarrow> nat \<Rightarrow> u32" where "vbr32 Vbr p = dec32 (take 4 (drop p Vbr))"

definition VbrBytesPerSector :: "u8 list \<Rightarrow> u16" where "VbrBytesPerSector Vbr = vbr16 Vbr 11"
definition VbrSectorsPerCluster :: "u8 list \<Rightarrow> u8" where "VbrSectorsPerCluster Vbr = Vbr ! 13"
definition VbrReservedSectors :: "u8 list \<Rightarrow> u16" where "VbrReservedSectors Vbr = vbr16 Vbr 14"
definition VbrNumberOfFats :: "u8 list \<Rightarrow> u8" where "VbrNumberOfFats Vbr = Vbr ! 16"
definition VbrTotalSectors16 :: "u8 list \<Rightarrow> u16" where "VbrTotalSectors16 Vbr = vbr16 Vbr 19"
definition VbrTotalSectors32 :: "u8 list \<Rightarrow> u32" where "VbrTotalSectors32 Vbr = vbr32 Vbr 32"
definition VbrFatSize32 :: "u8 list \<Rightarrow> u32" where "VbrFatSize32 Vbr = vbr32 Vbr 36"
definition VbrRootCluster :: "u8 list \<Rightarrow> u32" where "VbrRootCluster Vbr = vbr32 Vbr 44"
definition VbrFSInfoSector :: "u8 list \<Rightarrow> u16" where "VbrFSInfoSector Vbr = vbr16 Vbr 48"
definition VbrMagicSignature :: "u8 list \<Rightarrow> u16" where "VbrMagicSignature Vbr = vbr16 Vbr 510"

definition FatValidateVbr :: "u8 list \<Rightarrow> VEASTATUS" where
  "FatValidateVbr Vbr = (if VbrMagicSignature Vbr \<noteq> 0xAA55 \<or> VbrFatSize32 Vbr = 0 then STATUS_UNRECOGNIZED_VOLUME else STATUS_SUCCESS)"

text \<open>The control block, as far as it comes from the boot sector; a cluster of no sectors divides by zero.\<close>

definition VbrDataStartLba :: "u8 list \<Rightarrow> u64" where
  "VbrDataStartLba Vbr = ucast (VbrReservedSectors Vbr) + ucast (VbrNumberOfFats Vbr) * ucast (VbrFatSize32 Vbr)"

definition VbrTotalSectors :: "u8 list \<Rightarrow> u32" where
  "VbrTotalSectors Vbr = (if VbrTotalSectors32 Vbr \<noteq> 0 then VbrTotalSectors32 Vbr else ucast (VbrTotalSectors16 Vbr))"

definition make_vcb :: "u8 list \<Rightarrow> FAT32_DEVICE_EXTENSION option" where
  "make_vcb Vbr = (if VbrSectorsPerCluster Vbr = 0 then None else Some
     \<lparr>BytesPerSector = ucast (VbrBytesPerSector Vbr), SectorsPerCluster = ucast (VbrSectorsPerCluster Vbr),
      BytesPerCluster = ucast (VbrBytesPerSector Vbr) * ucast (VbrSectorsPerCluster Vbr),
      ReservedSectors = ucast (VbrReservedSectors Vbr), NumberOfFats = ucast (VbrNumberOfFats Vbr),
      FatSizeSectors = VbrFatSize32 Vbr, RootDirStartCluster = VbrRootCluster Vbr,
      FatStartLba = ucast (VbrReservedSectors Vbr), DataStartLba = VbrDataStartLba Vbr,
      TotalClusters = ucast ((ucast (VbrTotalSectors Vbr) - VbrDataStartLba Vbr) div ucast (VbrSectorsPerCluster Vbr)),
      TotalSectors = VbrTotalSectors Vbr, FreeClusterCount = 0xFFFFFFFF, NextFreeCluster = 0xFFFFFFFF\<rparr>)"

text \<open>The counters of the information sector.\<close>

definition read_fsinfo :: "(u64 \<Rightarrow> u32 \<Rightarrow> VEASTATUS + u8 list) \<Rightarrow> u8 list \<Rightarrow> u16 \<Rightarrow> FAT32_DEVICE_EXTENSION \<Rightarrow> FAT32_DEVICE_EXTENSION option" where
  "read_fsinfo Read FsInfo FSInfoSector v =
     (if FSInfoSector \<noteq> 0 \<and> FSInfoSector \<noteq> 0xFFFF then
        (case Read (ucast FSInfoSector * ucast (BytesPerSector v)) (BytesPerSector v) of
           Inl e \<Rightarrow> Some v
         | Inr bs \<Rightarrow> do {
             FsInfo \<leftarrow> put_bytes FsInfo 0 bs;
             Some (if vbr32 FsInfo 0 = 0x41615252 \<and> vbr32 FsInfo 484 = 0x61417272
                   then v\<lparr>FreeClusterCount := vbr32 FsInfo 488, NextFreeCluster := vbr32 FsInfo 492\<rparr> else v) })
      else Some v)"

definition OIP_MN_MOUNT_VOLUME :: u8 where "OIP_MN_MOUNT_VOLUME = 1"

definition FatMjFsCtl :: "bool \<Rightarrow> u8 \<Rightarrow> bool \<Rightarrow> VEASTATUS + u32 \<Rightarrow> (u64 \<Rightarrow> u32 \<Rightarrow> VEASTATUS + u8 list) \<Rightarrow> u8 list \<Rightarrow> u8 list \<Rightarrow>
    VEASTATUS \<Rightarrow> nat \<Rightarrow> (VEASTATUS + VOLUME) option" where
  "FatMjFsCtl Cdo MinorFunction TargetDevice Geometry Read Vbr FsInfo NewDevice Pool =
     (if \<not> Cdo then Some (Inl STATUS_INVALID_DEVICE_REQUEST)
      else if MinorFunction \<noteq> OIP_MN_MOUNT_VOLUME then Some (Inl STATUS_NOT_SUPPORTED)
      else if \<not> TargetDevice then Some (Inl STATUS_INVALID_PARAMETER)
      else case Geometry of
        Inl e \<Rightarrow> Some (Inl e)
      | Inr z \<Rightarrow> (case Read 0 z of
          Inl e \<Rightarrow> Some (Inl e)
        | Inr bs \<Rightarrow> do {
            Vbr \<leftarrow> put_bytes Vbr 0 bs;
            let Status = FatValidateVbr Vbr;
            if \<not> VEA_SUCCESS Status then Some (Inl Status)
            else if \<not> VEA_SUCCESS NewDevice then Some (Inl NewDevice)
            else do {
              v \<leftarrow> make_vcb Vbr;
              v \<leftarrow> read_fsinfo Read FsInfo (VbrFSInfoSector Vbr) v;
              Some (Inr \<lparr>Vcb = v, Disk = (\<lambda>x. Read x (BytesPerSector v)), PoolFree = Pool\<rparr>) } }))"

section \<open>Dispatch\<close>

definition OIP_MJ_CREATE :: u8 where "OIP_MJ_CREATE = 0x01"
definition OIP_MJ_READ :: u8 where "OIP_MJ_READ = 0x03"
definition OIP_MJ_WRITE :: u8 where "OIP_MJ_WRITE = 0x04"
definition OIP_MJ_FILE_SYSTEM_CONTROL :: u8 where "OIP_MJ_FILE_SYSTEM_CONTROL = 0x0F"

datatype FAT_ROUTE = ToRead | ToFsCtl | ToCreate | ToLowerDevice

definition FatObIntHandler :: "u8 \<Rightarrow> FAT_ROUTE" where
  "FatObIntHandler MajorFunction =
     (if MajorFunction = OIP_MJ_READ then ToRead
      else if MajorFunction = OIP_MJ_FILE_SYSTEM_CONTROL then ToFsCtl
      else if MajorFunction = OIP_MJ_CREATE then ToCreate
      else ToLowerDevice)"

section \<open>A mounted volume is well-formed\<close>

text \<open>Boot sectors of FAT32 volumes: the clusters fit the table and the numbers the table can hold.\<close>

definition boot_sector_ok :: "u8 list \<Rightarrow> bool" where
  "boot_sector_ok Vbr \<longleftrightarrow> length Vbr = 512 \<and> VbrMagicSignature Vbr = 0xAA55 \<and> VbrBytesPerSector Vbr = 512 \<and>
     0 < unat (VbrSectorsPerCluster Vbr) \<and> 0 < unat (VbrNumberOfFats Vbr) \<and> VbrTotalSectors16 Vbr = 0 \<and>
     (let d = unat (VbrReservedSectors Vbr) + unat (VbrNumberOfFats Vbr) * unat (VbrFatSize32 Vbr);
          n = (unat (VbrTotalSectors32 Vbr) - d) div unat (VbrSectorsPerCluster Vbr)
      in 0 < n \<and> (n + 2) * 4 \<le> unat (VbrFatSize32 Vbr) * 512 \<and> n + 2 < 0x0FFFFFF8)"

lemma unat_lt_small: "unat (a :: u8) < 2 ^ 8" "unat (b :: u16) < 2 ^ 16"
  using unsigned_less [of a, where 'a = nat] unsigned_less [of b, where 'a = nat] by simp_all

lemma unat_widen: "unat (ucast (a :: u8) :: u64) = unat a" "unat (ucast (b :: u16) :: u64) = unat b"
  "unat (ucast (a :: u8) :: u32) = unat a" "unat (ucast (b :: u16) :: u32) = unat b"
  by (rule unat_ucast_lt, rule less_le_trans [OF unat_lt_small(1)], simp, rule unat_ucast_lt, rule less_le_trans [OF unat_lt_small(2)], simp)+

lemma make_vcb_ok:
  assumes "boot_sector_ok bs"
  shows "\<exists>v. make_vcb bs = Some v \<and> unat (BytesPerSector v) = 512 \<and> unat (SectorsPerCluster v) = unat (VbrSectorsPerCluster bs) \<and>
    unat (NumberOfFats v) = unat (VbrNumberOfFats bs) \<and> FatSizeSectors v = VbrFatSize32 bs \<and> RootDirStartCluster v = VbrRootCluster bs \<and>
    BytesPerCluster v = BytesPerSector v * SectorsPerCluster v \<and> unat (FatStartLba v) = unat (VbrReservedSectors bs) \<and>
    unat (DataStartLba v) = unat (VbrReservedSectors bs) + unat (VbrNumberOfFats bs) * unat (VbrFatSize32 bs) \<and>
    unat (TotalClusters v) = (unat (VbrTotalSectors32 bs) - unat (DataStartLba v)) div unat (VbrSectorsPerCluster bs) \<and>
    unat (DataStartLba v) + unat (TotalClusters v) * unat (SectorsPerCluster v) < 2 ^ 32"
proof -
  let ?r = "unat (VbrReservedSectors bs)" and ?f = "unat (VbrNumberOfFats bs)" and ?z = "unat (VbrFatSize32 bs)"
  let ?p = "unat (VbrSectorsPerCluster bs)" and ?t = "unat (VbrTotalSectors32 bs)" and ?d = "?r + ?f * ?z"
  have b: "VbrBytesPerSector bs = 512" "0 < ?p" "0 < (?t - ?d) div ?p" using assms by (simp_all add: boot_sector_ok_def Let_def)
  have p0: "VbrSectorsPerCluster bs \<noteq> 0" using b(2) by auto
  have lt: "?t < 2 ^ 32" using unat_lt_u32 by simp
  have dt: "?d < ?t" using b(3) by (metis div_0 diff_is_0_eq' less_irrefl not_le_imp_less)
  have ff: "unat (ucast (VbrNumberOfFats bs) :: u64) = ?f" "unat (ucast (VbrFatSize32 bs) :: u64) = ?z"
    "unat (ucast (VbrReservedSectors bs) :: u64) = ?r" "unat (ucast (VbrSectorsPerCluster bs) :: u64) = ?p"
    "unat (ucast (VbrTotalSectors32 bs) :: u64) = ?t" by (simp_all add: unat_ucast_up unat_widen)
  have m: "unat (ucast (VbrNumberOfFats bs) * ucast (VbrFatSize32 bs) :: u64) = ?f * ?z"
    using dt lt by (subst unat_mult_lt) (simp_all add: ff)
  have D: "unat (VbrDataStartLba bs) = ?d"
    unfolding VbrDataStartLba_def using dt lt by (subst unat_add_lt) (simp_all add: m ff)
  have T: "VbrTotalSectors bs = VbrTotalSectors32 bs" using dt by (auto simp: VbrTotalSectors_def)
  have sub: "unat (ucast (VbrTotalSectors32 bs) - VbrDataStartLba bs) = ?t - ?d"
    using dt by (subst unat_sub_le) (simp_all add: word_le_nat_alt ff D)
  have q: "(?t - ?d) div ?p < 2 ^ 32" using lt div_le_dividend [of "?t - ?d" ?p] by linarith
  have C: "unat (ucast ((ucast (VbrTotalSectors bs) - VbrDataStartLba bs) div ucast (VbrSectorsPerCluster bs)) :: u32) = (?t - ?d) div ?p"
    using q by (simp add: T unat_ucast_lt unat_div sub ff)
  have "(?t - ?d) div ?p * ?p \<le> ?t - ?d" by simp
  then have "?d + (?t - ?d) div ?p * ?p \<le> ?t" using dt by linarith
  then have top: "?d + (?t - ?d) div ?p * ?p < 4294967296" using lt by simp
  have small: "unat (ucast (VbrSectorsPerCluster bs) :: u32) = ?p" "unat (ucast (VbrNumberOfFats bs) :: u32) = ?f"
    "unat (ucast (512 :: u16) :: u32) = 512" by (simp_all add: unat_widen)
  show ?thesis
    unfolding make_vcb_def using p0 by (simp add: b(1) D C small ff(3) top)
qed

lemma read_fsinfo_ok:
  assumes "\<forall>x. \<exists>b. Read x 512 = Inr b \<and> length b = 512" "length FsInfo = 512" "BytesPerSector v = 512"
  shows "\<exists>a b. read_fsinfo Read FsInfo q v = Some (v\<lparr>FreeClusterCount := a, NextFreeCluster := b\<rparr>)"
proof -
  have same: "\<exists>a b. v = v\<lparr>FreeClusterCount := a, NextFreeCluster := b\<rparr>"
    by (rule exI [of _ "FreeClusterCount v"], rule exI [of _ "NextFreeCluster v"]) simp
  obtain b where "Read (ucast q * 512) 512 = Inr b" "length b = 512" using assms(1) by blast
  then show ?thesis
    using assms(2,3) same by (auto simp: read_fsinfo_def put_bytes_over)
qed

text \<open>C29: Mounting a volume succeeds on a device with sectors of 512 bytes that answers the reads, when the boot sector
  describes a FAT32 volume of 512-byte sectors with a 32-bit count of sectors whose clusters fit its table. It gives a well-formed volume: the number of clusters is that of the sectors behind the tables, and everything
  the other operations assume of the geometry holds.\<close>

theorem mount_establishes_volume:
  assumes "boot_sector_ok bs" "\<forall>x. \<exists>b. Read x 512 = Inr b \<and> length b = 512" "Read 0 512 = Inr bs"
    and "length Vbr = 512" "length FsInfo = 512" "VEA_SUCCESS NewDevice"
  shows "\<exists>s. FatMjFsCtl True OIP_MN_MOUNT_VOLUME True (Inr 512) Read Vbr FsInfo NewDevice Pool = Some (Inr s) \<and>
    volume_ok s \<and> disk_works s \<and> RootDirStartCluster (Vcb s) = VbrRootCluster bs \<and> PoolFree s = Pool \<and>
    unat (TotalClusters (Vcb s)) = (unat (VbrTotalSectors32 bs) - unat (DataStartLba (Vcb s))) div unat (VbrSectorsPerCluster bs)"
proof -
  obtain v where v: "make_vcb bs = Some v" "unat (BytesPerSector v) = 512" "unat (SectorsPerCluster v) = unat (VbrSectorsPerCluster bs)"
    "unat (NumberOfFats v) = unat (VbrNumberOfFats bs)" "FatSizeSectors v = VbrFatSize32 bs" "RootDirStartCluster v = VbrRootCluster bs"
    "BytesPerCluster v = BytesPerSector v * SectorsPerCluster v" "unat (FatStartLba v) = unat (VbrReservedSectors bs)"
    "unat (DataStartLba v) = unat (VbrReservedSectors bs) + unat (VbrNumberOfFats bs) * unat (VbrFatSize32 bs)"
    "unat (TotalClusters v) = (unat (VbrTotalSectors32 bs) - unat (DataStartLba v)) div unat (VbrSectorsPerCluster bs)"
    "unat (DataStartLba v) + unat (TotalClusters v) * unat (SectorsPerCluster v) < 2 ^ 32"
    using make_vcb_ok [OF assms(1)] by blast
  note b = assms(1) [unfolded boot_sector_ok_def Let_def]
  have z: "BytesPerSector v = 512" using v(2) by (simp add: word_unat_eq_iff)
  obtain x y where f: "read_fsinfo Read FsInfo (VbrFSInfoSector bs) v = Some (v\<lparr>FreeClusterCount := x, NextFreeCluster := y\<rparr>)"
    using read_fsinfo_ok [of Read FsInfo v "VbrFSInfoSector bs"] assms(2,5) z by blast
  let ?v = "v\<lparr>FreeClusterCount := x, NextFreeCluster := y\<rparr>"
  let ?s = "\<lparr>Vcb = ?v, Disk = (\<lambda>x. Read x 512), PoolFree = Pool\<rparr>"
  have p: "put_bytes Vbr 0 bs = Some bs" using b assms(4) by (subst put_bytes_over) simp_all
  have val: "FatValidateVbr bs = STATUS_SUCCESS"
  proof -
    have "VbrFatSize32 bs \<noteq> 0" using b by auto
    then show ?thesis using b by (simp add: FatValidateVbr_def)
  qed
  have "FatMjFsCtl True OIP_MN_MOUNT_VOLUME True (Inr 512) Read Vbr FsInfo NewDevice Pool = Some (Inr ?s)"
    using assms(3,6) p val v(1) f z by (simp add: FatMjFsCtl_def VEA_SUCCESS_def STATUS_SUCCESS_def)
  moreover have "volume_ok ?s"
  proof -
    have "unat (SectorsPerCluster v) < 256" unfolding v(3) using unat_lt_small(1) [of "VbrSectorsPerCluster bs"] by simp
    moreover have "(unat (TotalClusters v) + 2) * 4 \<le> unat (FatSizeSectors v) * 512" "unat (TotalClusters v) + 2 < 0x0FFFFFF8"
      using b unfolding v(5,10,9) by simp_all
    moreover have "length b = 512" if "Read x 512 = Inr b" for x b using assms(2) that by (metis sum.inject(2))
    ultimately show ?thesis
      using b v(2-9,11) unfolding volume_ok_def by (auto simp: Let_def)
  qed
  moreover have "disk_works ?s" using assms(2) by (auto simp: disk_works_def)
  ultimately show ?thesis using v(6,10) by (intro exI [of _ ?s]) simp
qed

definition small_boot :: "u8 list" where
  "small_boot = replicate 11 0 @ enc16 512 @ [1] @ enc16 1 @ [2] @ replicate 2 0 @ enc16 0 @ replicate 11 0 @ enc32 9 @ enc32 1 @
     replicate 4 0 @ enc32 2 @ enc16 1 @ replicate 460 0 @ enc16 0xAA55"

lemma small_boot_fields: "length small_boot = 512" "VbrBytesPerSector small_boot = 512" "VbrSectorsPerCluster small_boot = 1"
  "VbrReservedSectors small_boot = 1" "VbrNumberOfFats small_boot = 2" "VbrTotalSectors16 small_boot = 0"
  "VbrTotalSectors32 small_boot = 9" "VbrFatSize32 small_boot = 1" "VbrRootCluster small_boot = 2"
  "VbrMagicSignature small_boot = 0xAA55"
  by (simp_all add: small_boot_def c16.enc_length c32.enc_length VbrBytesPerSector_def VbrSectorsPerCluster_def VbrReservedSectors_def
      VbrNumberOfFats_def VbrTotalSectors16_def VbrTotalSectors32_def VbrFatSize32_def VbrRootCluster_def VbrMagicSignature_def
      vbr16_def vbr32_def nth_append c16.dec_enc c32.dec_enc)

definition small_device :: "u64 \<Rightarrow> u32 \<Rightarrow> VEASTATUS + u8 list" where
  "small_device x n = Inr (if x = 0 then small_boot else filled 0)"

theorem mount_establishes_volume_witness:
  "\<exists>s. FatMjFsCtl True OIP_MN_MOUNT_VOLUME True (Inr 512) small_device (filled 7) (filled 7) STATUS_SUCCESS 5 = Some (Inr s) \<and>
     volume_ok s \<and> unat (TotalClusters (Vcb s)) = (9 - unat (DataStartLba (Vcb s))) div 1"
proof -
  have b: "boot_sector_ok small_boot" by (simp add: boot_sector_ok_def small_boot_fields)
  have r: "\<forall>x. \<exists>b. small_device x 512 = Inr b \<and> length b = 512" "small_device 0 512 = Inr small_boot"
    by (simp_all add: small_device_def small_boot_fields)
  have l: "length (filled 7) = 512" "VEA_SUCCESS STATUS_SUCCESS" by (simp_all add: VEA_SUCCESS_def STATUS_SUCCESS_def)
  show ?thesis using mount_establishes_volume [of small_boot small_device "filled 7" "filled 7" STATUS_SUCCESS 5] b r l by (auto simp: small_boot_fields)
qed

text \<open>A sector of the device larger than the structure on the stack, and a cluster of no sectors.\<close>

lemma mount_faults:
  assumes "Read 0 z = Inr bs" "length Vbr = 512"
  shows "512 < length bs \<Longrightarrow> FatMjFsCtl True OIP_MN_MOUNT_VOLUME True (Inr z) Read Vbr FsInfo NewDevice Pool = None"
    "length bs = 512 \<Longrightarrow> VbrMagicSignature bs = 0xAA55 \<Longrightarrow> VbrFatSize32 bs \<noteq> 0 \<Longrightarrow> VbrSectorsPerCluster bs = 0 \<Longrightarrow>
      VEA_SUCCESS NewDevice \<Longrightarrow> FatMjFsCtl True OIP_MN_MOUNT_VOLUME True (Inr z) Read Vbr FsInfo NewDevice Pool = None"
proof -
  show "512 < length bs \<Longrightarrow> FatMjFsCtl True OIP_MN_MOUNT_VOLUME True (Inr z) Read Vbr FsInfo NewDevice Pool = None"
    using assms by (simp add: FatMjFsCtl_def put_bytes_def)
  have "length bs = 512 \<Longrightarrow> put_bytes Vbr 0 bs = Some bs" using assms(2) by (subst put_bytes_over) simp_all
  then show "length bs = 512 \<Longrightarrow> VbrMagicSignature bs = 0xAA55 \<Longrightarrow> VbrFatSize32 bs \<noteq> 0 \<Longrightarrow> VbrSectorsPerCluster bs = 0 \<Longrightarrow>
      VEA_SUCCESS NewDevice \<Longrightarrow> FatMjFsCtl True OIP_MN_MOUNT_VOLUME True (Inr z) Read Vbr FsInfo NewDevice Pool = None"
    using assms(1) by (simp add: FatMjFsCtl_def FatValidateVbr_def VEA_SUCCESS_def STATUS_SUCCESS_def make_vcb_def)
qed

end
